(* ===== verification/Prelude.thy ===== *)
theory Prelude
  imports Main "HOL-Library.Word"
begin

text \<open>
  Shared vocabulary of the development.

  \<^item> The C integer types the sources use: \<open>uint8_t\<close>, \<open>uint16_t\<close>, \<open>uint32_t\<close> and
    \<open>packet_id_type\<close> are words of their width, so that unsigned arithmetic wraps as in C.
    Signed \<open>int\<close> values (lengths, offsets, indices, sizes) are \<open>int\<close>; where the code could
    leave the 32-bit range, the component proves that it does not under its invariant.
    \<open>time_t\<close> is \<open>int\<close>.
  \<^item> A failing \<open>ASSERT\<close> or \<open>msg (M_FATAL, ...)\<close> ends the process: an operation that
    can reach one has an \<open>option\<close> result, and \<open>None\<close> is that exit.
  \<^item> Memory blocks are lists of bytes; \<open>mem_write\<close> and \<open>mem_read\<close> are \<open>memcpy\<close>
    into and out of a block.
  \<^item> Network byte order (\<open>htons\<close>, \<open>htonl\<close> and their inverses) is \<open>be16\<close>,
    \<open>be32\<close>, \<open>un_be16\<close>, \<open>un_be32\<close>.
  \<^item> Two locales state contracts several components share: \<open>machine\<close> (an invariant kept
    by every step of a component is kept by every run of it) and \<open>codec\<close> (a writer and a
    reader that invert each other, lifted to sequences of records).
\<close>

unbundle bit_operations_syntax

type_synonym byte = "8 word"
type_synonym u16 = "16 word"
type_synonym u32 = "32 word"
type_synonym time_t = int

named_theorems inv_intros \<open>invariant preservation facts of the components\<close>
named_theorems op_defs \<open>definitions of small operations, for unfolding\<close>

subsection \<open>Lists updated in place\<close>

definition mem_write :: "'a list \<Rightarrow> nat \<Rightarrow> 'a list \<Rightarrow> 'a list" where
  "mem_write m i ys = take i m @ ys @ drop (i + length ys) m"

definition mem_read :: "'a list \<Rightarrow> nat \<Rightarrow> nat \<Rightarrow> 'a list" where
  "mem_read m i n = take n (drop i m)"

lemma length_mem_write [simp]:
  "i + length ys \<le> length m \<Longrightarrow> length (mem_write m i ys) = length m"
  by (simp add: mem_write_def)

lemma length_mem_read [simp]:
  "i + n \<le> length m \<Longrightarrow> length (mem_read m i n) = n"
  by (simp add: mem_read_def)

lemma mem_read_0 [simp]: "mem_read m i 0 = []"
  by (simp add: mem_read_def)

lemma mem_read_write_same:
  "i + length ys \<le> length m \<Longrightarrow> n = length ys \<Longrightarrow> mem_read (mem_write m i ys) i n = ys"
  by (simp add: mem_read_def mem_write_def)

lemma mem_read_write_before:
  "j + n \<le> i \<Longrightarrow> i + length ys \<le> length m \<Longrightarrow> mem_read (mem_write m i ys) j n = mem_read m j n"
  by (simp add: mem_read_def mem_write_def take_drop min_def)

lemma mem_read_write_after:
  "i + length ys \<le> j \<Longrightarrow> i + length ys \<le> length m \<Longrightarrow>
     mem_read (mem_write m i ys) j n = mem_read m j n"
  by (simp add: mem_read_def mem_write_def min_def)

lemma mem_read_append:
  "mem_read m i (a + b) = mem_read m i a @ mem_read m (i + a) b"
  by (simp add: mem_read_def take_add add.commute)

lemma mem_read_Suc:
  "i < length m \<Longrightarrow> mem_read m i (Suc n) = m ! i # mem_read m (Suc i) n"
  by (simp add: mem_read_def Cons_nth_drop_Suc [symmetric])

lemma take_mem_read: "k \<le> n \<Longrightarrow> take k (mem_read m i n) = mem_read m i k"
  by (simp add: mem_read_def min_absorb1)

lemma drop_mem_read: "drop k (mem_read m i n) = mem_read m (i + k) (n - k)"
  by (simp add: mem_read_def drop_take add.commute)

lemma mem_read_all [simp]: "n = length m \<Longrightarrow> mem_read m 0 n = m"
  by (simp add: mem_read_def)

subsection \<open>Unsigned arithmetic\<close>

lemma unat_plus_one: "i < (t :: 'a::len word) \<Longrightarrow> unat (i + 1) = Suc (unat i)"
proof -
  assume "i < t"
  then have "Suc (unat i) \<le> unat t" by (simp add: word_less_nat_alt Suc_le_eq)
  also have "unat t < 2 ^ LENGTH('a)" by (rule unsigned_less)
  finally have "unat i + 1 < 2 ^ LENGTH('a)" by simp
  then show ?thesis by (simp add: unat_word_ariths)
qed

lemma unat_minus_le: "(y :: 'a::len word) \<le> x \<Longrightarrow> unat (x - y) = unat x - unat y"
  by (simp add: unat_sub word_le_nat_alt)

lemma uint_add32:
  "uint (x + y :: u32) = (if uint x + uint y < 2 ^ 32 then uint x + uint y else uint x + uint y - 2 ^ 32)"
  using uint_plus_if' [of x y] by simp

lemma uint_sub32:
  "uint (x - y :: u32) = (if uint y \<le> uint x then uint x - uint y else uint x - uint y + 2 ^ 32)"
  using uint_sub_if' [of x y] by simp

subsection \<open>Network byte order\<close>

definition be16 :: "u16 \<Rightarrow> byte list" where
  "be16 w = [ucast (drop_bit 8 w), ucast w]"

definition un_be16 :: "byte list \<Rightarrow> u16" where
  "un_be16 bs = push_bit 8 (ucast (bs ! 0)) OR ucast (bs ! 1)"

definition be32 :: "u32 \<Rightarrow> byte list" where
  "be32 w = [ucast (drop_bit 24 w), ucast (drop_bit 16 w), ucast (drop_bit 8 w), ucast w]"

definition un_be32 :: "byte list \<Rightarrow> u32" where
  "un_be32 bs = push_bit 24 (ucast (bs ! 0)) OR push_bit 16 (ucast (bs ! 1))
     OR push_bit 8 (ucast (bs ! 2)) OR ucast (bs ! 3)"

lemma length_be16 [simp]: "length (be16 w) = 2"
  by (simp add: be16_def)

lemma length_be32 [simp]: "length (be32 w) = 4"
  by (simp add: be32_def)

lemma un_be16_be16 [simp]: "un_be16 (be16 w) = w"
  by (rule bit_word_eqI)
    (auto simp: be16_def un_be16_def bit_simps less_diff_conv)

lemma un_be32_be32 [simp]: "un_be32 (be32 w) = w"
proof (rule bit_word_eqI)
  fix n assume n: "n < LENGTH(32)"
  consider "n < 8" | "8 \<le> n" "n < 16" | "16 \<le> n" "n < 24" | "24 \<le> n" by linarith
  then show "bit (un_be32 (be32 w)) n \<longleftrightarrow> bit w n"
    using n by cases (auto simp: be32_def un_be32_def bit_simps less_diff_conv)
qed

subsection \<open>Runs of a component\<close>

text \<open>
  A component is a step function from a state and an event to the next state, \<open>None\<close> when the
  step ends in a failed assertion. \<open>run\<close> folds it over a list of events.
\<close>

fun run :: "('s \<Rightarrow> 'e \<Rightarrow> 's option) \<Rightarrow> 's \<Rightarrow> 'e list \<Rightarrow> 's option" where
  "run step s [] = Some s"
| "run step s (e # es) = (case step s e of None \<Rightarrow> None | Some t \<Rightarrow> run step t es)"

lemma run_append:
  "run step s (xs @ ys) = (case run step s xs of None \<Rightarrow> None | Some t \<Rightarrow> run step t ys)"
  by (induction xs arbitrary: s) (auto split: option.splits)

locale machine =
  fixes step :: "'s \<Rightarrow> 'e \<Rightarrow> 's option"
    and inv :: "'s \<Rightarrow> bool"
    and ok :: "'e \<Rightarrow> bool"
  assumes step_total: "inv s \<Longrightarrow> ok e \<Longrightarrow> \<exists>t. step s e = Some t \<and> inv t"
begin

lemma run_total: "inv s \<Longrightarrow> list_all ok es \<Longrightarrow> \<exists>t. run step s es = Some t \<and> inv t"
proof (induction es arbitrary: s)
  case Nil
  then show ?case by simp
next
  case (Cons e es)
  then obtain t where "step s e = Some t" "inv t"
    using step_total by (metis list.pred_inject(2))
  with Cons show ?case by simp
qed

lemma run_inv: "inv s \<Longrightarrow> list_all ok es \<Longrightarrow> run step s es = Some t \<Longrightarrow> inv t"
  using run_total by fastforce

end

subsection \<open>Writers and readers\<close>

text \<open>
  \<open>put\<close> is the byte form of a value and \<open>get\<close> takes one value off the front of a byte list.
\<close>

fun get_many :: "('b list \<Rightarrow> ('a \<times> 'b list) option) \<Rightarrow> nat \<Rightarrow> 'b list \<Rightarrow> ('a list \<times> 'b list) option" where
  "get_many get 0 bs = Some ([], bs)"
| "get_many get (Suc n) bs =
     (case get bs of None \<Rightarrow> None
      | Some (x, rest) \<Rightarrow>
          (case get_many get n rest of None \<Rightarrow> None | Some (xs, rest') \<Rightarrow> Some (x # xs, rest')))"

locale codec =
  fixes put :: "'a \<Rightarrow> 'b list"
    and get :: "'b list \<Rightarrow> ('a \<times> 'b list) option"
    and valid :: "'a \<Rightarrow> bool"
  assumes get_put: "valid x \<Longrightarrow> get (put x @ rest) = Some (x, rest)"
begin

lemma get_many_put:
  "list_all valid xs \<Longrightarrow> get_many get (length xs) (concat (map put xs) @ rest) = Some (xs, rest)"
  by (induction xs) (simp_all add: get_put)

lemma put_inj: "valid x \<Longrightarrow> valid y \<Longrightarrow> put x = put y \<Longrightarrow> x = y"
  by (metis append_Nil2 get_put option.inject prod.inject)

end

end
