(* ===== verification/Int_Util.thy ===== *)
theory Int_Util
  imports Prelude
begin

text \<open>
  \<^verbatim>\<open>integer.h\<close>: the min/max/constrain helpers, the index arithmetic of circular buffers and
  the rounding to a power of two. \<open>modulo_add\<close>, \<open>modulo_subtract\<close> and \<open>index_verify\<close> end the
  process when their precondition fails, so their result is an option. \<open>adjust_power_of_2\<close>
  is a loop over a 64-bit \<open>size_t\<close> whose shift can overflow to 0, which its ASSERT catches; it
  is a partial function and \<open>adjust_power_of_2_spec\<close> says exactly when it returns.
\<close>

definition max_uint :: "u32 \<Rightarrow> u32 \<Rightarrow> u32" where
  "max_uint x y = (if x > y then x else y)"

definition min_uint :: "u32 \<Rightarrow> u32 \<Rightarrow> u32" where
  "min_uint x y = (if x < y then x else y)"

definition max_int :: "int \<Rightarrow> int \<Rightarrow> int" where
  "max_int x y = (if x > y then x else y)"

definition min_int :: "int \<Rightarrow> int \<Rightarrow> int" where
  "min_int x y = (if x < y then x else y)"

definition constrain_int :: "int \<Rightarrow> int \<Rightarrow> int \<Rightarrow> int" where
  "constrain_int x mn mx =
     (if mn > mx then mn
      else if x < mn then mn
      else if x > mx then mx
      else x)"

definition modulo_subtract :: "int \<Rightarrow> int \<Rightarrow> int \<Rightarrow> int option" where
  "modulo_subtract x y md =
     (let d1 = x - y;
          d2 = (if x > y then - md else md) + d1
      in if \<not> (0 \<le> x \<and> x < md \<and> 0 \<le> y \<and> y < md) then None
         else Some (if \<bar>d1\<bar> > \<bar>d2\<bar> then d2 else d1))"

definition modulo_add :: "int \<Rightarrow> int \<Rightarrow> int \<Rightarrow> int option" where
  "modulo_add x y md =
     (let sum = x + y
      in if \<not> (0 \<le> x \<and> x < md \<and> - md \<le> y \<and> y \<le> md) then None
         else let sum1 = (if sum \<ge> md then sum - md else sum)
              in Some (if sum1 < 0 then sum1 + md else sum1))"

definition index_verify :: "int \<Rightarrow> int \<Rightarrow> int option" where
  "index_verify index sz = (if index < 0 \<or> index \<ge> sz then None else Some index)"

partial_function (option) adjust_loop :: "64 word \<Rightarrow> 64 word \<Rightarrow> 64 word option" where
  "adjust_loop ret u =
     (if ret < u
      then (let ret' = push_bit 1 ret in if ret' > 0 then adjust_loop ret' u else None)
      else Some ret)"

definition adjust_power_of_2 :: "64 word \<Rightarrow> 64 word option" where
  "adjust_power_of_2 u = adjust_loop 1 u"

lemma min_int_eq [simp]: "min_int x y = min x y"
  by (simp add: min_int_def)

lemma max_int_eq [simp]: "max_int x y = max x y"
  by (simp add: max_int_def)

lemma constrain_int_in_range: "mn \<le> mx \<Longrightarrow> mn \<le> constrain_int x mn mx \<and> constrain_int x mn mx \<le> mx"
  by (simp add: constrain_int_def)

lemma constrain_int_id: "mn \<le> x \<Longrightarrow> x \<le> mx \<Longrightarrow> constrain_int x mn mx = x"
  by (simp add: constrain_int_def)

text \<open>
  \<open>modulo_add\<close> computes the sum modulo the circumference whenever its precondition holds.
\<close>

lemma modulo_add_eq:
  assumes "0 \<le> x" "x < md" "- md \<le> y" "y \<le> md"
  shows "modulo_add x y md = Some ((x + y) mod md)"
proof -
  consider "x + y \<ge> md" | "0 \<le> x + y" "x + y < md" | "x + y < 0" by linarith
  then show ?thesis
  proof cases
    case 1
    have "(x + y) mod md = (x + y - md) mod md" by simp
    also have "\<dots> = x + y - md" using 1 assms by (intro mod_pos_pos_trivial) auto
    finally show ?thesis using 1 assms by (simp add: modulo_add_def Let_def)
  next
    case 2
    with assms show ?thesis by (simp add: modulo_add_def Let_def)
  next
    case 3
    have "(x + y) mod md = (x + y + md) mod md" by simp
    also have "\<dots> = x + y + md" using 3 assms by (intro mod_pos_pos_trivial) auto
    finally show ?thesis using 3 assms by (simp add: modulo_add_def Let_def)
  qed
qed

lemma modulo_add_defined_iff:
  "modulo_add x y md \<noteq> None \<longleftrightarrow> 0 \<le> x \<and> x < md \<and> - md \<le> y \<and> y \<le> md"
  by (simp add: modulo_add_def Let_def)

lemma modulo_subtract_shortest:
  assumes "0 \<le> x" "x < md" "0 \<le> y" "y < md"
  shows "\<exists>d. modulo_subtract x y md = Some d \<and> (y + d) mod md = x \<and> 2 * \<bar>d\<bar> \<le> md"
proof -
  let ?d1 = "x - y" and ?d2 = "(if x > y then - md else md) + (x - y)"
  have sub: "modulo_subtract x y md = Some (if \<bar>?d1\<bar> > \<bar>?d2\<bar> then ?d2 else ?d1)"
    using assms by (simp add: modulo_subtract_def Let_def)
  have "(y + ?d1) mod md = x" "(y + ?d2) mod md = x"
    using assms by (auto simp: algebra_simps)
  moreover have "\<bar>?d1\<bar> + \<bar>?d2\<bar> \<le> md \<or> \<bar>?d1\<bar> = 0"
    using assms by auto
  ultimately show ?thesis
    using assms sub by (auto simp: abs_if split: if_splits)
qed

subsection \<open>Rounding up to a power of two\<close>

lemma unat_pow2: "k < 64 \<Longrightarrow> unat ((2::64 word) ^ k) = 2 ^ k"
  using uint_2p [of k, where 'a = 64]
  by (simp add: unat_eq_nat_uint nat_power_eq word_gt_0 exp_eq_zero_iff)

lemma adjust_loop_pow2:
  assumes "k < 64" "unat u \<le> 2 ^ 63"
  shows "\<exists>m. adjust_loop (2 ^ k) u = Some (2 ^ m) \<and> k \<le> m \<and> m < 64 \<and> unat u \<le> 2 ^ m
           \<and> (k < m \<longrightarrow> 2 ^ (m - 1) < unat u)"
  using assms
proof (induction "64 - k" arbitrary: k)
  case 0
  then show ?case by simp
next
  case (Suc d)
  show ?case
  proof (cases "(2::64 word) ^ k < u")
    case False
    then have "unat u \<le> 2 ^ k"
      using Suc.prems by (simp add: word_less_nat_alt unat_pow2 not_less)
    with False Suc.prems show ?thesis
      by (subst adjust_loop.simps) auto
  next
    case True
    then have lt: "2 ^ k < unat u"
      using Suc.prems by (simp add: word_less_nat_alt unat_pow2)
    then have k63: "k < 63"
      using Suc.prems by (metis leD le_less_trans less_SucE linorder_not_le
          numeral_nat(2) power_increasing one_le_numeral order_less_le_trans)
    have step: "push_bit 1 ((2::64 word) ^ k) = 2 ^ Suc k"
      by (simp add: push_bit_eq_mult)
    have pos: "(2::64 word) ^ Suc k > 0"
      using k63 unat_pow2 [of "Suc k"] by (simp add: word_less_nat_alt del: power_Suc)
    have d: "d = 64 - Suc k" and k64: "Suc k < 64" using Suc.hyps(2) k63 by simp_all
    from Suc.hyps(1) [OF d k64 Suc.prems(2)]
    obtain m where m: "adjust_loop (2 ^ Suc k) u = Some (2 ^ m)" "Suc k \<le> m" "m < 64"
      "unat u \<le> 2 ^ m" "Suc k < m \<longrightarrow> 2 ^ (m - 1) < unat u"
      by blast
    have "adjust_loop (2 ^ k) u = adjust_loop (2 ^ Suc k) u"
      by (subst adjust_loop.simps) (simp only: True step pos Let_def if_True)
    moreover have "2 ^ (m - 1) < unat u"
      using m(2,5) lt by (cases "Suc k = m") auto
    ultimately show ?thesis using m by auto
  qed
qed

lemma adjust_loop_overflow:
  assumes "k < 64" "2 ^ 63 < unat u"
  shows "adjust_loop (2 ^ k) u = None"
  using assms
proof (induction "64 - k" arbitrary: k)
  case 0
  then show ?case by simp
next
  case (Suc d)
  have "2 ^ k \<le> (2::nat) ^ 63" using Suc.prems by (intro power_increasing) auto
  then have True1: "(2::64 word) ^ k < u"
    using Suc.prems by (simp add: word_less_nat_alt unat_pow2)
  have step: "push_bit 1 ((2::64 word) ^ k) = 2 ^ Suc k"
    by (simp add: push_bit_eq_mult)
  show ?case
  proof (cases "k = 63")
    case True
    then have "(2::64 word) ^ Suc k = 0" by (simp add: exp_eq_zero_iff)
    with True1 step show ?thesis
      by (subst adjust_loop.simps) (simp only: Let_def if_True less_irrefl if_False)
  next
    case False
    then have "adjust_loop (2 ^ Suc k) u = None"
      using Suc.hyps(1) [of "Suc k"] Suc.hyps(2) Suc.prems by simp
    with True1 step show ?thesis
      by (subst adjust_loop.simps) (simp only: Let_def if_True if_cancel)
  qed
qed

lemma adjust_power_of_2_small:
  "unat u \<le> 2 ^ 63 \<Longrightarrow> \<exists>m. adjust_power_of_2 u = Some (2 ^ m) \<and> m < 64 \<and> unat u \<le> 2 ^ m
     \<and> (0 < m \<longrightarrow> 2 ^ (m - 1) < unat u)"
  using adjust_loop_pow2 [of 0 u] by (auto simp: adjust_power_of_2_def)

lemma adjust_power_of_2_big: "2 ^ 63 < unat u \<Longrightarrow> adjust_power_of_2 u = None"
  using adjust_loop_overflow [of 0 u] by (simp add: adjust_power_of_2_def)

end
