(* ===== verification/Circ_List.thy ===== *)
theory Circ_List
  imports Int_Util
begin

text \<open>
  \<^verbatim>\<open>circ_list.h\<close>: the fixed-capacity circular list behind the packet-id replay window. The
  record has the fields of the C struct (\<open>x_sizeof\<close>, which only debugging prints, left out) and
  the operations are the macros, with the index checks of \<open>modulo_add\<close> and \<open>index_verify\<close>.

  \<open>circ_abs\<close> reads the structure as the list of its elements, the most recent push first. The
  locale \<open>recency_window\<close> states what a client relies on (a push goes to the front and drops the
  oldest element beyond the capacity, \<open>item\<close> and \<open>put\<close> address by age) and proves what
  follows for repeated pushes; it is interpreted on the operations of the header.
\<close>

record 'a circ =
  x_head :: int
  x_size :: int
  x_cap :: int
  x_list :: "'a list"

definition circ_push :: "'a circ \<Rightarrow> 'a \<Rightarrow> 'a circ option" where
  "circ_push c item =
     (case modulo_add (x_head c) (-1) (x_cap c) of
        None \<Rightarrow> None
      | Some h \<Rightarrow> Some (c\<lparr>x_head := h,
                           x_list := (x_list c)[nat h := item],
                           x_size := min_int (x_size c + 1) (x_cap c)\<rparr>))"

definition circ_index :: "'a circ \<Rightarrow> int \<Rightarrow> int option" where
  "circ_index c index =
     (case index_verify index (x_size c) of
        None \<Rightarrow> None
      | Some i \<Rightarrow> modulo_add (x_head c) i (x_cap c))"

definition circ_item :: "'a circ \<Rightarrow> int \<Rightarrow> 'a option" where
  "circ_item c index = map_option (\<lambda>i. x_list c ! nat i) (circ_index c index)"

definition circ_put :: "'a circ \<Rightarrow> int \<Rightarrow> 'a \<Rightarrow> 'a circ option" where
  "circ_put c index v =
     map_option (\<lambda>i. c\<lparr>x_list := (x_list c)[nat i := v]\<rparr>) (circ_index c index)"

definition circ_reset :: "'a circ \<Rightarrow> 'a circ" where
  "circ_reset c = c\<lparr>x_head := 0, x_size := 0\<rparr>"

definition circ_alloc :: "'a \<Rightarrow> int \<Rightarrow> 'a circ" where
  "circ_alloc zero sz = \<lparr>x_head = 0, x_size = 0, x_cap = sz, x_list = replicate (nat sz) zero\<rparr>"

subsection \<open>Invariant and abstraction\<close>

definition circ_inv :: "'a circ \<Rightarrow> bool" where
  "circ_inv c \<longleftrightarrow> 0 < x_cap c \<and> 0 \<le> x_head c \<and> x_head c < x_cap c
     \<and> 0 \<le> x_size c \<and> x_size c \<le> x_cap c \<and> int (length (x_list c)) = x_cap c"

definition circ_pos :: "'a circ \<Rightarrow> nat \<Rightarrow> nat" where
  "circ_pos c i = (nat (x_head c) + i) mod nat (x_cap c)"

definition circ_abs :: "'a circ \<Rightarrow> 'a list" where
  "circ_abs c = map (\<lambda>i. x_list c ! circ_pos c i) [0..<nat (x_size c)]"

lemma length_circ_abs [simp]: "length (circ_abs c) = nat (x_size c)"
  by (simp add: circ_abs_def)

lemma circ_abs_nth: "i < nat (x_size c) \<Longrightarrow> circ_abs c ! i = x_list c ! circ_pos c i"
  by (simp add: circ_abs_def)

lemma circ_pos_less: "circ_inv c \<Longrightarrow> circ_pos c i < length (x_list c)"
proof -
  assume "circ_inv c"
  then have "nat (x_cap c) = length (x_list c)" "0 < length (x_list c)"
    by (auto simp: circ_inv_def)
  then show ?thesis by (simp add: circ_pos_def)
qed

lemma circ_pos_inj:
  assumes "circ_inv c" "i < nat (x_cap c)" "j < nat (x_cap c)" "circ_pos c i = circ_pos c j"
  shows "i = j"
proof -
  have "i mod nat (x_cap c) = j mod nat (x_cap c)"
    using assms(4) by (simp add: circ_pos_def nat_mod_eq_iff)
  with assms show ?thesis by simp
qed

lemma circ_index_eq:
  assumes "circ_inv c" "0 \<le> i" "i < x_size c"
  shows "circ_index c i = Some (int (circ_pos c (nat i)))"
proof -
  have "modulo_add (x_head c) i (x_cap c) = Some ((x_head c + i) mod x_cap c)"
    using assms by (intro modulo_add_eq) (auto simp: circ_inv_def)
  then show ?thesis
    using assms by (simp add: circ_index_def index_verify_def circ_pos_def circ_inv_def zmod_int)
qed

lemma circ_index_out: "i < 0 \<or> x_size c \<le> i \<Longrightarrow> circ_index c i = None"
  by (auto simp: circ_index_def index_verify_def)

lemma circ_item_abs:
  "circ_inv c \<Longrightarrow> 0 \<le> i \<Longrightarrow> i < x_size c \<Longrightarrow> circ_item c i = Some (circ_abs c ! nat i)"
  by (simp add: circ_item_def circ_index_eq circ_abs_nth)

lemma circ_put_abs:
  assumes "circ_inv c" "0 \<le> i" "i < x_size c"
  shows "\<exists>d. circ_put c i v = Some d \<and> circ_inv d \<and> x_cap d = x_cap c
           \<and> circ_abs d = (circ_abs c)[nat i := v]"
proof -
  let ?d = "c\<lparr>x_list := (x_list c)[circ_pos c (nat i) := v]\<rparr>"
  have "circ_put c i v = Some ?d"
    using assms by (simp add: circ_put_def circ_index_eq)
  moreover have inv: "circ_inv ?d" using assms by (simp add: circ_inv_def)
  moreover have "circ_abs ?d = (circ_abs c)[nat i := v]"
  proof (rule nth_equalityI)
    show "length (circ_abs ?d) = length ((circ_abs c)[nat i := v])" by simp
  next
    fix k assume "k < length (circ_abs ?d)"
    then have k: "k < nat (x_size c)" by simp
    then have kc: "k < nat (x_cap c)" "nat i < nat (x_cap c)"
      using assms by (auto simp: circ_inv_def)
  have pos: "circ_pos ?d j = circ_pos c j" for j by (simp add: circ_pos_def)
    show "circ_abs ?d ! k = (circ_abs c)[nat i := v] ! k"
    proof (cases "k = nat i")
      case True
      with k show ?thesis
        using circ_pos_less [OF assms(1)] by (simp add: circ_abs_nth pos)
    next
      case False
      with circ_pos_inj [OF assms(1) kc] have "circ_pos c (nat i) \<noteq> circ_pos c k" by metis
      with False k show ?thesis by (simp add: circ_abs_nth pos)
    qed
  qed
  ultimately show ?thesis by auto
qed

lemma circ_push_abs:
  assumes "circ_inv c"
  shows "\<exists>d. circ_push c v = Some d \<and> circ_inv d \<and> x_cap d = x_cap c
           \<and> circ_abs d = take (nat (x_cap c)) (v # circ_abs c)"
proof -
  let ?n = "nat (x_cap c)" and ?h = "(x_head c - 1) mod x_cap c"
  let ?d = "c\<lparr>x_head := ?h, x_list := (x_list c)[nat ?h := v],
                x_size := min (x_size c + 1) (x_cap c)\<rparr>"
  have add: "modulo_add (x_head c) (-1) (x_cap c) = Some ?h"
    using assms modulo_add_eq [of "x_head c" "x_cap c" "-1"] by (simp add: circ_inv_def)
  have push: "circ_push c v = Some ?d" by (simp add: circ_push_def add)
  have h: "0 \<le> ?h" "?h < x_cap c" using assms by (auto simp: circ_inv_def)
  have inv: "circ_inv ?d" using assms h by (auto simp: circ_inv_def)
  have shift: "circ_pos ?d (Suc k) = circ_pos c k" for k
  proof -
    have "int (circ_pos ?d (Suc k)) = (?h + int (Suc k)) mod x_cap c"
      using assms h by (simp add: circ_pos_def circ_inv_def zmod_int ac_simps)
    also have "\<dots> = (x_head c - 1 + int (Suc k)) mod x_cap c" by (rule mod_add_left_eq)
    also have "\<dots> = (x_head c + int k) mod x_cap c" by simp
    also have "\<dots> = int (circ_pos c k)"
      using assms by (simp add: circ_pos_def circ_inv_def zmod_int)
    finally show ?thesis by simp
  qed
  have zero: "circ_pos ?d 0 = nat ?h"
    using h by (simp add: circ_pos_def nat_less_iff)
  have "circ_abs ?d = take ?n (v # circ_abs c)"
  proof (rule nth_equalityI)
    show "length (circ_abs ?d) = length (take ?n (v # circ_abs c))"
      using assms by (auto simp: circ_inv_def)
  next
    fix k assume "k < length (circ_abs ?d)"
    then have k: "k < nat (x_size ?d)" by simp
    then have kn: "k < ?n" by auto
    show "circ_abs ?d ! k = take ?n (v # circ_abs c) ! k"
    proof (cases k)
      case 0
      with k kn show ?thesis
        using h assms by (simp add: circ_abs_nth zero circ_inv_def nat_less_iff)
    next
      case (Suc j)
      with k have j: "j < nat (x_size c)" by auto
      have "circ_pos ?d (Suc j) \<noteq> circ_pos ?d 0"
        using circ_pos_inj [OF inv, of "Suc j" 0] kn Suc assms by (auto simp: circ_inv_def)
      then have "circ_pos c j \<noteq> nat ?h" by (simp only: shift zero not_False_eq_True)
      then show ?thesis
        using j kn k Suc shift [of j] by (simp add: circ_abs_nth [of "Suc j" ?d] circ_abs_nth)
    qed
  qed
  with push inv show ?thesis by simp
qed

lemma circ_reset_abs:
  "circ_inv c \<Longrightarrow> circ_inv (circ_reset c) \<and> x_cap (circ_reset c) = x_cap c
     \<and> circ_abs (circ_reset c) = []"
  by (simp add: circ_inv_def circ_reset_def circ_abs_def)

lemma circ_alloc_abs:
  "0 < sz \<Longrightarrow> circ_inv (circ_alloc zero sz) \<and> circ_abs (circ_alloc zero sz) = []"
  by (simp add: circ_inv_def circ_alloc_def circ_abs_def)

subsection \<open>The interface\<close>

fun push_many :: "('w \<Rightarrow> 'a \<Rightarrow> 'w option) \<Rightarrow> 'w \<Rightarrow> 'a \<Rightarrow> nat \<Rightarrow> 'w option" where
  "push_many push w v 0 = Some w"
| "push_many push w v (Suc n) =
     (case push w v of None \<Rightarrow> None | Some w' \<Rightarrow> push_many push w' v n)"

locale recency_window =
  fixes push :: "'w \<Rightarrow> 'a \<Rightarrow> 'w option"
    and item :: "'w \<Rightarrow> int \<Rightarrow> 'a option"
    and put :: "'w \<Rightarrow> int \<Rightarrow> 'a \<Rightarrow> 'w option"
    and reset :: "'w \<Rightarrow> 'w"
    and cap :: "'w \<Rightarrow> int"
    and contents :: "'w \<Rightarrow> 'a list"
    and inv :: "'w \<Rightarrow> bool"
  assumes push: "inv w \<Longrightarrow> \<exists>d. push w v = Some d \<and> inv d \<and> cap d = cap w
             \<and> contents d = take (nat (cap w)) (v # contents w)"
    and item: "inv w \<Longrightarrow> 0 \<le> i \<Longrightarrow> i < int (length (contents w)) \<Longrightarrow>
             item w i = Some (contents w ! nat i)"
    and put: "inv w \<Longrightarrow> 0 \<le> i \<Longrightarrow> i < int (length (contents w)) \<Longrightarrow>
             \<exists>d. put w i v = Some d \<and> inv d \<and> cap d = cap w \<and> contents d = (contents w)[nat i := v]"
    and reset: "inv w \<Longrightarrow> inv (reset w) \<and> cap (reset w) = cap w \<and> contents (reset w) = []"
    and bounded: "inv w \<Longrightarrow> 0 < cap w \<and> length (contents w) \<le> nat (cap w)"
begin

lemma push_many:
  "inv w \<Longrightarrow> \<exists>d. push_many push w v n = Some d \<and> inv d \<and> cap d = cap w
     \<and> contents d = take (nat (cap w)) (replicate n v @ contents w)"
proof (induction n arbitrary: w)
  case 0
  with bounded [of w] show ?case by simp
next
  case (Suc n)
  obtain d where d: "push w v = Some d" "inv d" "cap d = cap w"
      "contents d = take (nat (cap w)) (v # contents w)"
    using push [OF Suc.prems] by blast
  obtain e where e: "push_many push d v n = Some e" "inv e" "cap e = cap d"
      "contents e = take (nat (cap d)) (replicate n v @ contents d)"
    using Suc.IH [OF d(2)] by blast
  have "take (nat (cap w)) (replicate n v @ take (nat (cap w)) (v # contents w))
      = take (nat (cap w)) (replicate (Suc n) v @ contents w)"
    by (simp add: replicate_append_same [symmetric] min_def take_Cons')
  with d e show ?case by simp
qed

lemma item_put_other:
  assumes "inv w" "0 \<le> i" "i < int (length (contents w))" "0 \<le> j" "j < int (length (contents w))"
    and "put w i v = Some d"
  shows "item d j = (if i = j then Some v else item w j)"
  using assms put [OF assms(1-3), of v] item [of w j] item [of d j]
  by (auto simp: nat_eq_iff)

end

interpretation circ: recency_window circ_push circ_item circ_put circ_reset x_cap circ_abs circ_inv
proof (unfold_locales, goal_cases)
  case (1 w v)
  then show ?case by (rule circ_push_abs)
next
  case (2 w i)
  then show ?case by (intro circ_item_abs) (auto split: if_splits)
next
  case (3 w i v)
  then show ?case by (intro circ_put_abs) (auto split: if_splits)
next
  case (4 w)
  then show ?case by (rule circ_reset_abs)
next
  case (5 w)
  then show ?case by (auto simp: circ_inv_def)
qed

end
