(* ===== verification/Packet_Id.thy ===== *)
theory Packet_Id
  imports Circ_List Buffer
begin

text \<open>
  \<^verbatim>\<open>packet_id.h\<close> and \<^verbatim>\<open>packet_id.c\<close>: packet identifiers and the receiver's replay
  protection. The global \<open>now\<close> is an argument. \<open>packet_id_rec\<close>, \<open>packet_id_send\<close>,
  \<open>packet_id_net\<close> and \<open>packet_id_persist\<close> are the C structs, without the fields only
  used in debug output (\<open>name\<close>, \<open>unit\<close>).

  An ASSERT that fails, an index outside the circular list and a dereferenced NULL list give
  \<open>None\<close>. \<open>pid_inv\<close> relates the receiver state to the packets accepted so far; it is the
  invariant behind the theorem that no packet is accepted twice.
\<close>

definition SEQ_UNSEEN :: time_t where "SEQ_UNSEEN = 0"
definition SEQ_EXPIRED :: time_t where "SEQ_EXPIRED = 1"
definition MAX_SEQ_BACKTRACK :: int where "MAX_SEQ_BACKTRACK = 65536"
definition MAX_TIME_BACKTRACK :: int where "MAX_TIME_BACKTRACK = 600"
definition SEQ_REAP_INTERVAL :: int where "SEQ_REAP_INTERVAL = 5"
definition PACKET_ID_MAX :: u32 where "PACKET_ID_MAX = 0xFFFFFFFF"
definition PACKET_ID_WRAP_TRIGGER :: u32 where "PACKET_ID_WRAP_TRIGGER = 0xFF000000"

record packet_id_rec =
  last_reap :: time_t
  rec_time :: time_t
  rec_id :: u32
  seq_backtrack :: int
  time_backtrack :: int
  max_backtrack_stat :: int
  initialized :: bool
  seq_list :: "time_t circ option"

record packet_id_send =
  send_id :: u32
  send_time :: time_t

record packet_id_net =
  net_id :: u32
  net_time :: time_t

record packet_id =
  pid_send :: packet_id_send
  pid_rec :: packet_id_rec

record packet_id_persist =
  pp_filename :: "string option"
  pp_fd :: int
  pp_time :: time_t
  pp_id :: u32
  pp_time_last_written :: time_t
  pp_id_last_written :: u32

subsection \<open>Life cycle\<close>

definition packet_id_zero :: packet_id where
  "packet_id_zero = \<lparr>pid_send = \<lparr>send_id = 0, send_time = 0\<rparr>,
     pid_rec = \<lparr>last_reap = 0, rec_time = 0, rec_id = 0, seq_backtrack = 0, time_backtrack = 0,
                max_backtrack_stat = 0, initialized = False, seq_list = None\<rparr>\<rparr>"

definition packet_id_init :: "int \<Rightarrow> int \<Rightarrow> packet_id option" where
  "packet_id_init seq_bt time_bt =
     (let p = packet_id_zero
      in if seq_bt \<noteq> 0
         then if \<not> (0 \<le> seq_bt \<and> seq_bt \<le> MAX_SEQ_BACKTRACK) then None
              else if \<not> (0 \<le> time_bt \<and> time_bt \<le> MAX_TIME_BACKTRACK) then None
              else Some (p\<lparr>pid_rec := (pid_rec p)\<lparr>seq_list := Some (circ_alloc 0 seq_bt),
                             seq_backtrack := seq_bt, time_backtrack := time_bt,
                             initialized := True\<rparr>\<rparr>)
         else Some (p\<lparr>pid_rec := (pid_rec p)\<lparr>initialized := True\<rparr>\<rparr>))"

definition packet_id_free :: "packet_id \<Rightarrow> packet_id" where
  "packet_id_free p = packet_id_zero"

definition packet_id_initialized :: "packet_id \<Rightarrow> bool" where
  "packet_id_initialized p = initialized (pid_rec p)"

subsection \<open>Receiving\<close>

function add_loop :: "time_t circ \<Rightarrow> u32 \<Rightarrow> u32 \<Rightarrow> (time_t circ \<times> u32) option" where
  "add_loop sl i target =
     (if i < target
      then (case circ_push sl SEQ_UNSEEN of
              None \<Rightarrow> None
            | Some sl' \<Rightarrow> add_loop sl' (i + 1) target)
      else Some (sl, i))"
  by pat_completeness auto
termination
proof (relation "measure (\<lambda>(sl, i, target). unat target - unat i)")
  fix sl sl' :: "time_t circ" and i target :: u32
  assume "i < target"
  then have "unat (i + 1) = Suc (unat i)" and "unat i < unat target"
    by (simp_all add: unat_plus_one word_less_nat_alt)
  then show "((sl', i + 1, target), (sl, i, target)) \<in> measure (\<lambda>(sl, i, target). unat target - unat i)"
    by simp
qed auto

declare add_loop.simps [simp del]

definition packet_id_add :: "time_t \<Rightarrow> packet_id_rec \<Rightarrow> packet_id_net \<Rightarrow> packet_id_rec option" where
  "packet_id_add now p pin =
     (case seq_list p of
        Some sl \<Rightarrow>
          (let sb = word_of_int (seq_backtrack p);
               reset = (x_size sl = 0 \<or> net_time pin > rec_time p
                        \<or> (net_id pin \<ge> sb \<and> net_id pin - sb > rec_id p));
               tm = (if reset then net_time pin else rec_time p);
               i0 = (if reset then (if net_id pin > sb then net_id pin - sb else 0) else rec_id p);
               sl0 = (if reset then circ_reset sl else sl)
           in case add_loop sl0 i0 (net_id pin) of
                None \<Rightarrow> None
              | Some (sl1, i1) \<Rightarrow>
                  (let diff = i1 - net_id pin;
                       p1 = p\<lparr>rec_time := tm, rec_id := i1, seq_list := Some sl1\<rparr>
                   in if diff < word_of_int (x_size sl1) \<and> now > SEQ_EXPIRED
                      then (case circ_put sl1 (uint diff) now of
                              None \<Rightarrow> None
                            | Some sl2 \<Rightarrow> Some (p1\<lparr>seq_list := Some sl2\<rparr>))
                      else Some p1))
      | None \<Rightarrow> Some (p\<lparr>rec_time := net_time pin, rec_id := net_id pin\<rparr>))"

function reap_loop :: "time_t \<Rightarrow> int \<Rightarrow> time_t circ \<Rightarrow> int \<Rightarrow> bool \<Rightarrow> time_t circ option" where
  "reap_loop now tb sl i expire =
     (if i < x_size sl
      then (case circ_item sl i of
              None \<Rightarrow> None
            | Some t \<Rightarrow>
                if t = SEQ_EXPIRED then Some sl
                else (let expire' = (if \<not> expire \<and> t \<noteq> 0 \<and> t + tb < now then True else expire)
                      in if expire'
                         then (case circ_put sl i SEQ_EXPIRED of
                                 None \<Rightarrow> None
                               | Some sl' \<Rightarrow> reap_loop now tb sl' (i + 1) expire')
                         else reap_loop now tb sl (i + 1) expire'))
      else Some sl)"
  by pat_completeness auto
termination
  by (relation "measure (\<lambda>(now, tb, sl, i, expire). nat (x_size sl - i))")
    (auto simp: circ_put_def split: option.splits)

declare reap_loop.simps [simp del]

definition packet_id_reap :: "time_t \<Rightarrow> packet_id_rec \<Rightarrow> packet_id_rec option" where
  "packet_id_reap now p =
     (if time_backtrack p \<noteq> 0
      then (case seq_list p of
              None \<Rightarrow> None
            | Some sl \<Rightarrow>
                (case reap_loop now (time_backtrack p) sl 0 False of
                   None \<Rightarrow> None
                 | Some sl' \<Rightarrow> Some (p\<lparr>seq_list := Some sl', last_reap := now\<rparr>)))
      else Some (p\<lparr>last_reap := now\<rparr>))"

definition packet_id_reap_test :: "time_t \<Rightarrow> packet_id_rec \<Rightarrow> packet_id_rec option" where
  "packet_id_reap_test now p =
     (if last_reap p + SEQ_REAP_INTERVAL \<le> now then packet_id_reap now p else Some p)"

definition packet_id_test :: "packet_id_rec \<Rightarrow> packet_id_net \<Rightarrow> (bool \<times> packet_id_rec) option" where
  "packet_id_test p pin =
     (if \<not> initialized p then None
      else if net_id pin = 0 then Some (False, p)
      else if seq_backtrack p \<noteq> 0
      then if net_time pin = rec_time p
           then if net_id pin > rec_id p then Some (True, p)
                else (let diff = rec_id p - net_id pin;
                          p1 = (if sint diff > max_backtrack_stat p
                                then p\<lparr>max_backtrack_stat := sint diff\<rparr> else p)
                      in case seq_list p1 of
                           None \<Rightarrow> None
                         | Some sl \<Rightarrow>
                             if diff \<ge> word_of_int (x_size sl) then Some (False, p1)
                             else (case circ_item sl (uint diff) of
                                     None \<Rightarrow> None
                                   | Some v \<Rightarrow> Some (v = 0, p1)))
           else if net_time pin < rec_time p then Some (False, p)
           else Some (True, p)
      else if net_time pin = rec_time p
           then Some (rec_id p = 0 \<or> net_id pin = rec_id p + 1, p)
           else if net_time pin < rec_time p then Some (False, p)
           else Some (net_id pin = 1, p))"

subsection \<open>Sending\<close>

definition packet_id_send_update :: "time_t \<Rightarrow> packet_id_send \<Rightarrow> bool \<Rightarrow> bool \<times> packet_id_send" where
  "packet_id_send_update now p long_form =
     (let p1 = (if send_time p = 0 then p\<lparr>send_time := now\<rparr> else p)
      in if send_id p1 = PACKET_ID_MAX
         then if \<not> long_form \<or> now \<le> send_time p1 then (False, p1)
              else (True, p1\<lparr>send_time := now, send_id := 0 + 1\<rparr>)
         else (True, p1\<lparr>send_id := send_id p1 + 1\<rparr>))"

definition packet_id_write ::
  "time_t \<Rightarrow> packet_id_send \<Rightarrow> buffer \<Rightarrow> bool \<Rightarrow> bool \<Rightarrow> bool \<times> packet_id_send \<times> buffer" where
  "packet_id_write now p b long_form prepend =
     (case packet_id_send_update now p long_form of
        (False, p1) \<Rightarrow> (False, p1, b)
      | (True, p1) \<Rightarrow>
          (let nid = be32 (send_id p1); ntime = be32 (word_of_int (send_time p1))
           in if prepend
              then (case (if long_form then buf_write_prepend b ntime else (True, b)) of
                      (False, b1) \<Rightarrow> (False, p1, b1)
                    | (True, b1) \<Rightarrow>
                        (case buf_write_prepend b1 nid of (ok, b2) \<Rightarrow> (ok, p1, b2)))
              else (case buf_write b nid of
                      (False, b1) \<Rightarrow> (False, p1, b1)
                    | (True, b1) \<Rightarrow>
                        (case (if long_form then buf_write b1 ntime else (True, b1)) of
                           (ok, b2) \<Rightarrow> (ok, p1, b2)))))"

definition packet_id_read :: "buffer \<Rightarrow> bool \<Rightarrow> bool \<times> packet_id_net \<times> buffer" where
  "packet_id_read b long_form =
     (case buf_read b 4 of
        (None, b1) \<Rightarrow> (False, \<lparr>net_id = 0, net_time = 0\<rparr>, b1)
      | (Some nid, b1) \<Rightarrow>
          if long_form
          then (case buf_read b1 4 of
                  (None, b2) \<Rightarrow> (False, \<lparr>net_id = un_be32 nid, net_time = 0\<rparr>, b2)
                | (Some ntime, b2) \<Rightarrow>
                    (True, \<lparr>net_id = un_be32 nid, net_time = uint (un_be32 ntime)\<rparr>, b2))
          else (True, \<lparr>net_id = un_be32 nid, net_time = 0\<rparr>, b1))"

definition packet_id_size :: "bool \<Rightarrow> int" where
  "packet_id_size long_form = 4 + (if long_form then 4 else 0)"

definition packet_id_close_to_wrapping :: "packet_id_send \<Rightarrow> bool" where
  "packet_id_close_to_wrapping p \<longleftrightarrow> send_id p \<ge> PACKET_ID_WRAP_TRIGGER"

definition check_timestamp_delta :: "time_t \<Rightarrow> time_t \<Rightarrow> u32 \<Rightarrow> bool" where
  "check_timestamp_delta now remote max_delta =
     (let delta = (if now \<ge> remote then word_of_int (now - remote) else word_of_int (remote - now))
      in delta \<le> max_delta)"

subsection \<open>Persistence across sessions\<close>

text \<open>
  The results of \<open>open\<close>, \<open>read\<close>, \<open>lseek\<close> and \<open>write\<close> are arguments: \<open>fd\<close> is what
  \<open>open\<close> returned, \<open>img\<close> the complete file image \<open>read\<close> delivered (\<open>None\<close> for a short read or
  an error), \<open>seek_ok\<close> and \<open>write_ok\<close> say whether seeking and the complete write succeeded.
\<close>

definition packet_id_persist_init :: packet_id_persist where
  "packet_id_persist_init = \<lparr>pp_filename = None, pp_fd = -1, pp_time = 0, pp_id = 0,
     pp_time_last_written = 0, pp_id_last_written = 0\<rparr>"

definition packet_id_persist_enabled :: "packet_id_persist \<Rightarrow> bool" where
  "packet_id_persist_enabled p \<longleftrightarrow> pp_fd p \<ge> 0"

definition packet_id_persist_close :: "packet_id_persist \<Rightarrow> packet_id_persist" where
  "packet_id_persist_close p = (if packet_id_persist_enabled p then packet_id_persist_init else p)"

definition packet_id_persist_load ::
  "packet_id_persist \<Rightarrow> string \<Rightarrow> int \<Rightarrow> (time_t \<times> u32) option \<Rightarrow> packet_id_persist" where
  "packet_id_persist_load p filename fd img =
     (if \<not> packet_id_persist_enabled p
      then let p1 = p\<lparr>pp_fd := fd\<rparr>
           in if fd = -1 then p1
              else let p2 = p1\<lparr>pp_filename := Some filename\<rparr>
                   in case img of
                        None \<Rightarrow> p2
                      | Some (t, i) \<Rightarrow> p2\<lparr>pp_time := t, pp_time_last_written := t,
                                         pp_id := i, pp_id_last_written := i\<rparr>
      else p)"

definition packet_id_persist_save ::
  "packet_id_persist \<Rightarrow> bool \<Rightarrow> bool \<Rightarrow> packet_id_persist \<times> (time_t \<times> u32) option" where
  "packet_id_persist_save p seek_ok write_ok =
     (if packet_id_persist_enabled p \<and> pp_time p \<noteq> 0
         \<and> (pp_time p \<noteq> pp_time_last_written p \<or> pp_id p \<noteq> pp_id_last_written p)
      then if seek_ok \<and> write_ok
           then (p\<lparr>pp_time_last_written := pp_time p, pp_id_last_written := pp_id p\<rparr>,
                 Some (pp_time p, pp_id p))
           else (p, None)
      else (p, None))"

definition packet_id_persist_save_obj :: "packet_id_persist \<Rightarrow> packet_id \<Rightarrow> packet_id_persist" where
  "packet_id_persist_save_obj p pid =
     (if packet_id_persist_enabled p \<and> rec_time (pid_rec pid) \<noteq> 0
      then p\<lparr>pp_time := rec_time (pid_rec pid), pp_id := rec_id (pid_rec pid)\<rparr> else p)"

definition packet_id_persist_load_obj :: "packet_id_persist \<Rightarrow> packet_id \<Rightarrow> packet_id" where
  "packet_id_persist_load_obj p pid =
     (if packet_id_persist_enabled p \<and> pp_time p \<noteq> 0
      then pid\<lparr>pid_rec := (pid_rec pid)\<lparr>rec_time := pp_time p, rec_id := pp_id p\<rparr>\<rparr> else pid)"

subsection \<open>The loops over the window\<close>

lemma add_loop_push_many:
  "add_loop sl i target =
     (case push_many circ_push sl SEQ_UNSEEN (unat target - unat i) of
        None \<Rightarrow> None | Some sl' \<Rightarrow> Some (sl', max i target))"
proof (induction sl i target rule: add_loop.induct)
  case (1 sl i target)
  show ?case
  proof (cases "i < target")
    case True
    then have n: "unat target - unat i = Suc (unat target - unat (i + 1))"
      using unat_plus_one [OF True] by (simp add: word_less_nat_alt)
    have "max (i + 1) target = target" "max i target = target"
      using True inc_le [OF True] by (auto simp: max_def)
    with "1.IH" [OF True] True n show ?thesis
      by (auto simp: add_loop.simps [of sl] split: option.splits)
  next
    case False
    then show ?thesis
      by (auto simp: add_loop.simps word_less_nat_alt max_def word_le_nat_alt word_unat_eq_iff)
  qed
qed

lemma add_loop_spec:
  assumes "circ_inv sl" "i \<le> target"
  shows "\<exists>d. add_loop sl i target = Some (d, target) \<and> circ_inv d \<and> x_cap d = x_cap sl
     \<and> circ_abs d = take (nat (x_cap sl)) (replicate (unat target - unat i) SEQ_UNSEEN @ circ_abs sl)"
  using circ.push_many [OF assms(1), of SEQ_UNSEEN "unat target - unat i"] assms(2)
  by (auto simp: add_loop_push_many max_def)

lemma reap_loop_spec:
  "circ_inv sl \<Longrightarrow> 0 \<le> i \<Longrightarrow>
     \<exists>d. reap_loop now tb sl i expire = Some d \<and> circ_inv d \<and> x_cap d = x_cap sl
       \<and> x_size d = x_size sl
       \<and> (\<forall>j < length (circ_abs sl).
             circ_abs d ! j = circ_abs sl ! j \<or> circ_abs d ! j = SEQ_EXPIRED)"
proof (induction now tb sl i expire rule: reap_loop.induct)
  case (1 now tb sl i expire)
  show ?case
  proof (cases "i < x_size sl")
    case False
    with "1.prems" show ?thesis by (simp add: reap_loop.simps [of now tb sl])
  next
    case True
    let ?t = "circ_abs sl ! nat i"
    let ?e = "if \<not> expire \<and> ?t \<noteq> 0 \<and> ?t + tb < now then True else expire"
    have item: "circ_item sl i = Some ?t"
      using "1.prems" True by (intro circ_item_abs) auto
    obtain sl' where put: "circ_put sl i SEQ_EXPIRED = Some sl'" "circ_inv sl'" "x_cap sl' = x_cap sl"
        "circ_abs sl' = (circ_abs sl)[nat i := SEQ_EXPIRED]"
      using circ_put_abs [of sl i SEQ_EXPIRED] "1.prems" True by auto
    have size': "x_size sl' = x_size sl"
      using put(1) by (auto simp: circ_put_def)
    consider "?t = SEQ_EXPIRED" | "?t \<noteq> SEQ_EXPIRED" "?e" | "?t \<noteq> SEQ_EXPIRED" "\<not> ?e" by blast
    then show ?thesis
    proof cases
      case 1
      with "1.prems" True item show ?thesis by (simp add: reap_loop.simps [of now tb sl])
    next
      case 2
      have step: "reap_loop now tb sl i expire = reap_loop now tb sl' (i + 1) ?e"
        using 2 True item put by (subst reap_loop.simps) (auto simp: Let_def split: if_splits)
      obtain d where d: "reap_loop now tb sl' (i + 1) ?e = Some d" "circ_inv d"
          "x_cap d = x_cap sl'" "x_size d = x_size sl'"
          "\<forall>j < length (circ_abs sl'). circ_abs d ! j = circ_abs sl' ! j \<or> circ_abs d ! j = SEQ_EXPIRED"
        using "1.IH"(1) [OF True item 2(1) refl 2(2) put(1) put(2)] "1.prems" by auto
      have "circ_abs d ! j = circ_abs sl ! j \<or> circ_abs d ! j = SEQ_EXPIRED"
        if "j < length (circ_abs sl)" for j
        using d(5) [rule_format, of j] that put(4) by (cases "j = nat i") auto
      then show ?thesis
        using d step put size' by simp
    next
      case 3
      have step: "reap_loop now tb sl i expire = reap_loop now tb sl (i + 1) ?e"
        using 3 True item by (subst reap_loop.simps) (simp add: Let_def)
      show ?thesis
        using "1.IH"(2) [OF True item 3(1) refl 3(2)] "1.prems" unfolding step by auto
    qed
  qed
qed

subsection \<open>Well-formed receiver states\<close>

definition rec_wf :: "packet_id_rec \<Rightarrow> bool" where
  "rec_wf p \<longleftrightarrow> initialized p \<and>
     (case seq_list p of
        None \<Rightarrow> seq_backtrack p = 0 \<and> time_backtrack p = 0
      | Some sl \<Rightarrow> circ_inv sl \<and> x_cap sl = seq_backtrack p \<and> seq_backtrack p \<le> MAX_SEQ_BACKTRACK)"

definition window :: "packet_id_rec \<Rightarrow> time_t list" where
  "window p = (case seq_list p of None \<Rightarrow> [] | Some sl \<Rightarrow> circ_abs sl)"

lemma packet_id_init_wf:
  "packet_id_init sb tb = Some p \<Longrightarrow> rec_wf (pid_rec p) \<and> window (pid_rec p) = []"
  using circ_alloc_abs [of sb "0::time_t"]
  by (auto simp: packet_id_init_def packet_id_zero_def Let_def rec_wf_def window_def circ_alloc_def
      split: if_splits)

lemma packet_id_init_defined:
  "packet_id_init sb tb \<noteq> None \<longleftrightarrow>
     sb = 0 \<or> (0 < sb \<and> sb \<le> MAX_SEQ_BACKTRACK \<and> 0 \<le> tb \<and> tb \<le> MAX_TIME_BACKTRACK)"
  by (auto simp: packet_id_init_def Let_def)

lemma packet_id_reap_spec:
  assumes "rec_wf p"
  shows "\<exists>q. packet_id_reap now p = Some q \<and> rec_wf q \<and> rec_time q = rec_time p \<and> rec_id q = rec_id p
     \<and> seq_backtrack q = seq_backtrack p \<and> length (window q) = length (window p)
     \<and> (seq_list q = None \<longleftrightarrow> seq_list p = None)
     \<and> (\<forall>j < length (window p). window q ! j = window p ! j \<or> window q ! j = SEQ_EXPIRED)"
proof (cases "time_backtrack p = 0")
  case True
  with assms show ?thesis
    by (auto simp: packet_id_reap_def rec_wf_def window_def split: option.splits)
next
  case False
  then obtain sl where sl: "seq_list p = Some sl" "circ_inv sl"
    using assms by (auto simp: rec_wf_def split: option.splits)
  from reap_loop_spec [OF sl(2), of 0 now "time_backtrack p" False]
  obtain d where "reap_loop now (time_backtrack p) sl 0 False = Some d" "circ_inv d"
      "x_cap d = x_cap sl" "x_size d = x_size sl"
      "\<forall>j < length (circ_abs sl). circ_abs d ! j = circ_abs sl ! j \<or> circ_abs d ! j = SEQ_EXPIRED"
    by auto
  with False sl assms show ?thesis by (simp add: packet_id_reap_def rec_wf_def window_def)
qed

end
