(* ===== verification/Replay.thy ===== *)
theory Replay
  imports Packet_Id
begin

text \<open>
  Replay protection end to end: \<open>crypto_check_replay\<close> of \<^verbatim>\<open>crypto.c\<close>, the only caller of
  the packet-id window on the receive path, over the structures of \<open>Packet_Id\<close>.

  \<open>acceptable\<close> is the specification of the window test; \<open>pid_inv p A\<close> says what the state
  remembers of the set \<open>A\<close> of accepted packets, and is kept by the reap, the test and the
  update. A run of the component is a list of received packets with the value of \<open>now\<close> at each.
\<close>

record crypto_options =
  co_packet_id :: packet_id
  co_pid_persist :: "packet_id_persist option"
  co_long_form :: bool

definition crypto_check_replay ::
  "time_t \<Rightarrow> crypto_options \<Rightarrow> packet_id_net \<Rightarrow> (bool \<times> crypto_options) option" where
  "crypto_check_replay now opt pin =
     (let pid = co_packet_id opt in
      case packet_id_reap_test now (pid_rec pid) of
        None \<Rightarrow> None
      | Some r1 \<Rightarrow>
          (case packet_id_test r1 pin of
             None \<Rightarrow> None
           | Some (False, r2) \<Rightarrow> Some (False, opt\<lparr>co_packet_id := pid\<lparr>pid_rec := r2\<rparr>\<rparr>)
           | Some (True, r2) \<Rightarrow>
               (case packet_id_add now r2 pin of
                  None \<Rightarrow> None
                | Some r3 \<Rightarrow>
                    (let pid3 = pid\<lparr>pid_rec := r3\<rparr>
                     in Some (True, opt\<lparr>co_packet_id := pid3,
                          co_pid_persist :=
                            (if co_long_form opt
                             then map_option (\<lambda>pp. packet_id_persist_save_obj pp pid3) (co_pid_persist opt)
                             else co_pid_persist opt)\<rparr>)))))"

subsection \<open>The test, specified\<close>

definition acceptable :: "packet_id_rec \<Rightarrow> packet_id_net \<Rightarrow> bool" where
  "acceptable p pin \<longleftrightarrow> net_id pin \<noteq> 0 \<and>
     (if seq_list p = None
      then (if net_time pin = rec_time p then rec_id p = 0 \<or> net_id pin = rec_id p + 1
            else net_time pin > rec_time p \<and> net_id pin = 1)
      else (if net_time pin = rec_time p
            then net_id pin > rec_id p
                 \<or> (let d = unat (rec_id p - net_id pin)
                    in d < length (window p) \<and> window p ! d = SEQ_UNSEEN)
            else net_time pin > rec_time p))"

text \<open>The statistics field is the only one the test writes.\<close>

definition same_but_stat :: "packet_id_rec \<Rightarrow> packet_id_rec \<Rightarrow> bool" where
  "same_but_stat p q \<longleftrightarrow> (\<exists>m. q = p\<lparr>max_backtrack_stat := m\<rparr>)"

lemma same_but_stat_refl [simp]: "same_but_stat p p"
  by (auto simp: same_but_stat_def intro: exI [of _ "max_backtrack_stat p"])

lemma same_but_stat_upd [simp]: "same_but_stat p (p\<lparr>max_backtrack_stat := m\<rparr>)"
  by (auto simp: same_but_stat_def)

lemma window_size_word:
  assumes "circ_inv sl" "x_cap sl \<le> MAX_SEQ_BACKTRACK"
  shows "uint (word_of_int (x_size sl) :: u32) = x_size sl"
  using assms by (simp add: circ_inv_def MAX_SEQ_BACKTRACK_def uint_word_of_int)

lemma less_window_size:
  assumes "circ_inv sl" "x_cap sl \<le> MAX_SEQ_BACKTRACK"
  shows "(d :: u32) < word_of_int (x_size sl) \<longleftrightarrow> unat d < length (circ_abs sl)"
proof -
  have "0 \<le> x_size sl" using assms by (simp add: circ_inv_def)
  then have "unat d < length (circ_abs sl) \<longleftrightarrow> uint d < x_size sl"
    by (simp add: zless_nat_eq_int_zless)
  also have "\<dots> \<longleftrightarrow> d < word_of_int (x_size sl)"
    unfolding word_less_def window_size_word [OF assms] ..
  finally show ?thesis by simp
qed

lemma backtrack_word:
  assumes "0 \<le> sb" "sb \<le> MAX_SEQ_BACKTRACK"
  shows "unat (word_of_int sb :: u32) = nat sb"
  using assms by (simp add: MAX_SEQ_BACKTRACK_def unat_eq_nat_uint uint_word_of_int)

lemma packet_id_test_spec:
  assumes "rec_wf p"
  shows "\<exists>q. packet_id_test p pin = Some (acceptable p pin, q) \<and> same_but_stat p q"
proof (cases "seq_list p")
  case None
  then have "packet_id_test p pin = Some (acceptable p pin, p)"
    using assms by (simp add: packet_id_test_def acceptable_def rec_wf_def)
  then show ?thesis using same_but_stat_refl by blast
next
  case (Some sl)
  have sl: "circ_inv sl" "x_cap sl \<le> MAX_SEQ_BACKTRACK" "seq_backtrack p \<noteq> 0" "initialized p"
    using assms Some by (auto simp: rec_wf_def circ_inv_def)
  show ?thesis
  proof (cases "net_id pin \<noteq> 0 \<and> net_time pin = rec_time p \<and> \<not> net_id pin > rec_id p")
    case False
    then have "packet_id_test p pin = Some (acceptable p pin, p)"
      using sl Some by (auto simp: packet_id_test_def acceptable_def)
    then show ?thesis using same_but_stat_refl by blast
  next
    case True
    let ?d = "rec_id p - net_id pin"
    let ?q = "if sint ?d > max_backtrack_stat p then p\<lparr>max_backtrack_stat := sint ?d\<rparr> else p"
    have ge: "?d \<ge> word_of_int (x_size sl) \<longleftrightarrow> \<not> unat ?d < length (circ_abs sl)"
      using less_window_size [OF sl(1,2), of ?d] by (simp add: not_less [symmetric])
    have q: "same_but_stat p ?q" "seq_list ?q = Some sl"
      using Some by simp_all
    have test: "packet_id_test p pin =
        (if \<not> unat ?d < length (circ_abs sl) then Some (False, ?q)
         else (case circ_item sl (uint ?d) of None \<Rightarrow> None | Some v \<Rightarrow> Some (v = 0, ?q)))"
      using True sl(3,4) by (simp only: packet_id_test_def Let_def q(2) ge option.case simp_thms if_True if_False)
    show ?thesis
    proof (cases "unat ?d < length (circ_abs sl)")
      case lt: True
      have "uint ?d < x_size sl"
        using lt by (simp add: zless_nat_eq_int_zless)
      then have "circ_item sl (uint ?d) = Some (circ_abs sl ! unat ?d)"
        using circ_item_abs [OF sl(1), of "uint ?d"] by simp
      with True lt test q(1) Some show ?thesis
        by (simp add: acceptable_def window_def SEQ_UNSEEN_def)
    next
      case ge: False
      with True test q(1) Some show ?thesis
        by (simp add: acceptable_def window_def)
    qed
  qed
qed

lemma same_but_stat_fields:
  "same_but_stat p q \<Longrightarrow> rec_time q = rec_time p \<and> rec_id q = rec_id p \<and> seq_list q = seq_list p
     \<and> seq_backtrack q = seq_backtrack p \<and> window q = window p \<and> (rec_wf q \<longleftrightarrow> rec_wf p)"
  by (auto simp: same_but_stat_def window_def rec_wf_def split: option.splits)

subsection \<open>The update, specified\<close>

text \<open>
  What \<open>packet_id_add\<close> does to the window: the packet's own entry, at distance \<open>rec_id - id\<close>
  from the newest one, is stamped; a packet ahead of the newest first shifts the window.
\<close>

definition restarts :: "packet_id_rec \<Rightarrow> packet_id_net \<Rightarrow> bool" where
  "restarts p pin \<longleftrightarrow> window p = [] \<or> net_time pin > rec_time p
     \<or> unat (rec_id p) + nat (seq_backtrack p) < unat (net_id pin)"

definition shifted :: "packet_id_rec \<Rightarrow> packet_id_net \<Rightarrow> time_t list" where
  "shifted p pin =
     (if restarts p pin then replicate (min (nat (seq_backtrack p)) (unat (net_id pin))) SEQ_UNSEEN
      else take (nat (seq_backtrack p))
             (replicate (unat (net_id pin) - unat (rec_id p)) SEQ_UNSEEN @ window p))"

definition newest :: "packet_id_rec \<Rightarrow> packet_id_net \<Rightarrow> u32" where
  "newest p pin = (if restarts p pin then net_id pin else max (rec_id p) (net_id pin))"

lemma packet_id_add_udp:
  assumes wf: "rec_wf p" and sl: "seq_list p = Some sl" and now: "now > SEQ_EXPIRED"
  shows "\<exists>q. packet_id_add now p pin = Some q \<and> rec_wf q \<and> seq_list q \<noteq> None
     \<and> seq_backtrack q = seq_backtrack p
     \<and> rec_time q = (if restarts p pin then net_time pin else rec_time p)
     \<and> rec_id q = newest p pin
     \<and> window q = (shifted p pin)[unat (newest p pin - net_id pin) := now]"
proof -
  let ?sb = "word_of_int (seq_backtrack p) :: u32" and ?n = "nat (seq_backtrack p)"
  have inv: "circ_inv sl" "x_cap sl = seq_backtrack p" "0 < seq_backtrack p"
      "seq_backtrack p \<le> MAX_SEQ_BACKTRACK" "initialized p"
    using wf sl by (auto simp: rec_wf_def circ_inv_def)
  have win: "window p = circ_abs sl" by (simp add: window_def sl)
  have sbn: "unat ?sb = ?n" using inv by (intro backtrack_word) auto
  have sub: "unat (net_id pin - ?sb) = unat (net_id pin) - ?n" if "?n \<le> unat (net_id pin)"
    using that unat_minus_le [of ?sb "net_id pin"] sbn by (simp add: word_le_nat_alt)
  have empty: "x_size sl = 0 \<longleftrightarrow> circ_abs sl = []"
    using inv(1) by (auto simp: circ_abs_def circ_inv_def)
  have rst: "(x_size sl = 0 \<or> net_time pin > rec_time p
      \<or> (net_id pin \<ge> ?sb \<and> net_id pin - ?sb > rec_id p)) \<longleftrightarrow> restarts p pin"
    using empty win sub sbn inv(3)
    by (auto simp: restarts_def word_le_nat_alt word_less_nat_alt)
  let ?i0 = "if restarts p pin then (if net_id pin > ?sb then net_id pin - ?sb else 0) else rec_id p"
  let ?sl0 = "if restarts p pin then circ_reset sl else sl"
  let ?tm = "if restarts p pin then net_time pin else rec_time p"
  have sl0: "circ_inv ?sl0" "x_cap ?sl0 = seq_backtrack p"
      "circ_abs ?sl0 = (if restarts p pin then [] else window p)"
    using circ_reset_abs [OF inv(1)] inv win by auto
  obtain sl1 where loop: "add_loop ?sl0 ?i0 (net_id pin) = Some (sl1, newest p pin)"
      "circ_inv sl1" "x_cap sl1 = seq_backtrack p" "circ_abs sl1 = shifted p pin"
  proof (cases "restarts p pin")
    case True
    have le: "?i0 \<le> net_id pin"
      using True sub sbn by (auto simp: word_le_nat_alt word_less_nat_alt)
    have cnt: "unat (net_id pin) - unat ?i0 = min ?n (unat (net_id pin))"
      using True sub sbn by (auto simp: word_le_nat_alt word_less_nat_alt)
    from add_loop_spec [OF sl0(1) le] obtain d where
      "add_loop ?sl0 ?i0 (net_id pin) = Some (d, net_id pin)" "circ_inv d" "x_cap d = x_cap ?sl0"
      "circ_abs d = take (nat (x_cap ?sl0)) (replicate (unat (net_id pin) - unat ?i0) SEQ_UNSEEN @ circ_abs ?sl0)"
      by blast
    with True sl0 show thesis
      unfolding cnt by (intro that [of d]) (simp_all add: newest_def shifted_def)
  next
    case False
    show thesis
    proof (cases "rec_id p \<le> net_id pin")
      case le: True
      from add_loop_spec [OF sl0(1), of "rec_id p" "net_id pin", OF le] obtain d where
        "add_loop ?sl0 (rec_id p) (net_id pin) = Some (d, net_id pin)" "circ_inv d" "x_cap d = x_cap ?sl0"
        "circ_abs d = take (nat (x_cap ?sl0)) (replicate (unat (net_id pin) - unat (rec_id p)) SEQ_UNSEEN @ circ_abs ?sl0)"
        by blast
      with False sl0 le show thesis
        by (intro that [of d]) (simp_all add: newest_def shifted_def max_def)
    next
      case nle: False
      then have "\<not> rec_id p < net_id pin" by simp
      then have "add_loop ?sl0 (rec_id p) (net_id pin) = Some (?sl0, rec_id p)"
        by (simp add: add_loop.simps)
      moreover have "length (window p) \<le> ?n"
        using inv(1,2) win by (auto simp: circ_inv_def)
      ultimately show thesis
        using False sl0 nle
        by (intro that [of ?sl0]) (simp_all add: newest_def shifted_def max_def word_le_nat_alt)
    qed
  qed
  let ?d = "newest p pin - net_id pin"
  let ?p1 = "p\<lparr>rec_time := ?tm, rec_id := newest p pin, seq_list := Some sl1\<rparr>"
  have lt: "?d < word_of_int (x_size sl1) \<longleftrightarrow> unat ?d < length (circ_abs sl1)"
    using less_window_size [of sl1] loop(2,3) inv(4) by simp
  have eq: "packet_id_add now p pin =
      (if unat ?d < length (circ_abs sl1)
       then (case circ_put sl1 (uint ?d) now of None \<Rightarrow> None | Some sl2 \<Rightarrow> Some (?p1\<lparr>seq_list := Some sl2\<rparr>))
       else Some ?p1)"
    using loop(1) now by (simp only: packet_id_add_def sl option.case Let_def rst lt if_True prod.case simp_thms)
  show ?thesis
  proof (cases "unat ?d < length (circ_abs sl1)")
    case True
    then obtain sl2 where "circ_put sl1 (uint ?d) now = Some sl2" "circ_inv sl2" "x_cap sl2 = x_cap sl1"
        "circ_abs sl2 = (circ_abs sl1)[nat (uint ?d) := now]"
      using circ_put_abs [OF loop(2), of "uint ?d" now] loop(2)
      by (auto simp: zless_nat_eq_int_zless)
    with True eq loop inv show ?thesis
      by (simp add: rec_wf_def window_def)
  next
    case False
    with eq loop inv show ?thesis
      by (simp add: rec_wf_def window_def list_update_beyond)
  qed
qed

lemma packet_id_add_tcp:
  "seq_list p = None \<Longrightarrow>
     packet_id_add now p pin = Some (p\<lparr>rec_time := net_time pin, rec_id := net_id pin\<rparr>)"
  by (simp add: packet_id_add_def)

subsection \<open>What the state remembers of the accepted packets\<close>

definition remembers :: "packet_id_rec \<Rightarrow> time_t \<times> u32 \<Rightarrow> bool" where
  "remembers p k \<longleftrightarrow> snd k \<noteq> 0 \<and>
     (fst k < rec_time p \<or>
      (fst k = rec_time p \<and> snd k \<le> rec_id p \<and>
       (seq_list p \<noteq> None \<longrightarrow> unat (rec_id p - snd k) < length (window p) \<longrightarrow>
          window p ! unat (rec_id p - snd k) \<noteq> SEQ_UNSEEN)))"

definition pid_inv :: "packet_id_rec \<Rightarrow> (time_t \<times> u32) set \<Rightarrow> bool" where
  "pid_inv p A \<longleftrightarrow> rec_wf p \<and> (\<forall>k \<in> A. remembers p k)
     \<and> (seq_list p \<noteq> None \<and> A \<noteq> {} \<longrightarrow> window p \<noteq> [])"

definition key :: "packet_id_net \<Rightarrow> time_t \<times> u32" where
  "key pin = (net_time pin, net_id pin)"

lemma plus_one_le_self: "(r :: u32) + 1 \<le> r \<Longrightarrow> r + 1 = 0"
proof (rule ccontr)
  assume le: "r + 1 \<le> r" and "r + 1 \<noteq> 0"
  then have "unat (1 + r) = Suc (unat r)" by (intro unatSuc) (simp add: add.commute)
  with le show False by (simp add: word_le_nat_alt add.commute)
qed

lemma remembered_not_acceptable:
  assumes "remembers p (key pin)"
  shows "\<not> acceptable p pin"
proof -
  consider "net_time pin < rec_time p" | "net_time pin = rec_time p" "net_id pin \<le> rec_id p"
      "net_id pin \<noteq> 0" "seq_list p \<noteq> None \<longrightarrow> unat (rec_id p - net_id pin) < length (window p) \<longrightarrow>
          window p ! unat (rec_id p - net_id pin) \<noteq> SEQ_UNSEEN"
    using assms by (auto simp: remembers_def key_def)
  then show ?thesis
  proof cases
    case 1
    then show ?thesis by (simp add: acceptable_def)
  next
    case 2
    then have "rec_id p \<noteq> 0" by auto
    moreover have "net_id pin \<noteq> rec_id p + 1"
      using 2(2,3) plus_one_le_self by metis
    ultimately show ?thesis using 2 by (auto simp: acceptable_def Let_def)
  qed
qed

lemma reap_remembers:
  assumes "rec_wf p" "packet_id_reap now p = Some q" "remembers p k"
  shows "remembers q k"
proof -
  from packet_id_reap_spec [OF assms(1), of now] assms(2)
  have q: "rec_time q = rec_time p" "rec_id q = rec_id p" "length (window q) = length (window p)"
    "seq_list q = None \<longleftrightarrow> seq_list p = None"
    "\<forall>j < length (window p). window q ! j = window p ! j \<or> window q ! j = SEQ_EXPIRED"
    by auto
  have "SEQ_EXPIRED \<noteq> SEQ_UNSEEN" by (simp add: SEQ_EXPIRED_def SEQ_UNSEEN_def)
  with assms(3) q show ?thesis unfolding remembers_def by metis
qed

lemma reap_test_inv:
  assumes "pid_inv p A"
  shows "\<exists>q. packet_id_reap_test now p = Some q \<and> pid_inv q A
     \<and> rec_time q = rec_time p \<and> rec_id q = rec_id p
     \<and> (seq_list q = None \<longleftrightarrow> seq_list p = None)"
proof (cases "last_reap p + SEQ_REAP_INTERVAL \<le> now")
  case False
  with assms show ?thesis by (simp add: packet_id_reap_test_def)
next
  case True
  have wf: "rec_wf p" using assms by (simp add: pid_inv_def)
  from packet_id_reap_spec [OF wf, of now] obtain q where
    q: "packet_id_reap now p = Some q" "rec_wf q" "length (window q) = length (window p)"
       "rec_time q = rec_time p" "rec_id q = rec_id p" "seq_list q = None \<longleftrightarrow> seq_list p = None"
    by auto
  have "window q = [] \<longleftrightarrow> window p = []" using q(3) by (metis length_0_conv)
  with q assms reap_remembers [OF wf q(1)] True show ?thesis
    by (auto simp: packet_id_reap_test_def pid_inv_def)
qed

lemma pid_inv_same: "same_but_stat p q \<Longrightarrow> pid_inv q A \<longleftrightarrow> pid_inv p A"
  using same_but_stat_fields [of p q] by (simp add: pid_inv_def remembers_def)

lemma shifted_nth:
  assumes "\<not> restarts p pin" "i \<le> rec_id p"
    and "unat (newest p pin - i) < length (shifted p pin)"
  shows "unat (rec_id p - i) < length (window p)
     \<and> shifted p pin ! unat (newest p pin - i) = window p ! unat (rec_id p - i)"
proof -
  let ?n = "unat (net_id pin) - unat (rec_id p)"
  have "rec_id p \<le> newest p pin" using assms(1) by (simp add: newest_def)
  then have dist: "unat (newest p pin - i) = ?n + unat (rec_id p - i)"
    using assms(1,2)
    by (auto simp: newest_def unat_minus_le max_def word_le_nat_alt)
  let ?L = "replicate ?n SEQ_UNSEEN @ window p"
  have sh: "shifted p pin = take (nat (seq_backtrack p)) ?L"
    using assms(1) by (simp add: shifted_def)
  have lt: "?n + unat (rec_id p - i) < length ?L"
    using assms(3) unfolding sh dist by (simp del: take_append)
  have "shifted p pin ! (?n + unat (rec_id p - i)) = ?L ! (?n + unat (rec_id p - i))"
    using assms(3) unfolding sh dist by (simp del: take_append)
  with lt show ?thesis unfolding dist by (simp add: nth_append)
qed

lemma add_remembers_old:
  assumes wf: "rec_wf p" and udp: "seq_list p \<noteq> None" and now: "now > SEQ_EXPIRED"
    and acc: "acceptable p pin" and k: "remembers p k"
    and q: "seq_list q \<noteq> None" "rec_time q = (if restarts p pin then net_time pin else rec_time p)"
      "rec_id q = newest p pin"
      "window q = (shifted p pin)[unat (newest p pin - net_id pin) := now]"
    and old: "window p \<noteq> []"
  shows "remembers q k"
proof -
  have le: "rec_time p \<le> net_time pin"
    using acc udp by (auto simp: acceptable_def split: if_splits)
  have now0: "now \<noteq> SEQ_UNSEEN" using now by (simp add: SEQ_EXPIRED_def SEQ_UNSEEN_def)
  show ?thesis
  proof (cases "fst k < rec_time q")
    case True
    with k show ?thesis by (simp add: remembers_def)
  next
    case False
    with k q(2) le have eq: "fst k = rec_time p" "snd k \<le> rec_id p" "rec_time q = rec_time p"
      by (auto simp: remembers_def split: if_splits)
    show ?thesis
    proof (cases "restarts p pin")
      case True
      with eq q(2) old have ahead: "unat (rec_id p) + nat (seq_backtrack p) < unat (net_id pin)"
        by (auto simp: restarts_def)
      then have "snd k \<le> net_id pin" using eq(2) by (simp add: word_le_nat_alt)
      moreover have "length (window q) \<le> nat (seq_backtrack p)"
        using q(4) True by (simp add: shifted_def)
      moreover have "nat (seq_backtrack p) \<le> unat (net_id pin - snd k)"
        using ahead eq(2) calculation(1) by (simp add: unat_minus_le word_le_nat_alt)
      ultimately show ?thesis
        using k eq q(3) True by (simp add: remembers_def newest_def)
    next
      case False
      have "snd k \<le> rec_id q" using eq(2) q(3) False by (auto simp: newest_def max_def)
      moreover have "window q ! unat (rec_id q - snd k) \<noteq> SEQ_UNSEEN"
        if "unat (rec_id q - snd k) < length (window q)"
      proof -
        have "unat (rec_id p - snd k) < length (window p)"
          "shifted p pin ! unat (rec_id q - snd k) = window p ! unat (rec_id p - snd k)"
          using shifted_nth [OF False eq(2)] that q(3,4) by auto
        with k eq udp have "shifted p pin ! unat (rec_id q - snd k) \<noteq> SEQ_UNSEEN"
          by (auto simp: remembers_def)
        with that q(4) now0 show ?thesis
          by (cases "unat (rec_id q - snd k) = unat (newest p pin - net_id pin)") auto
      qed
      ultimately show ?thesis using k eq by (simp add: remembers_def)
    qed
  qed
qed

lemma add_inv:
  assumes inv: "pid_inv p A" and acc: "acceptable p pin" and now: "now > SEQ_EXPIRED"
  shows "\<exists>q. packet_id_add now p pin = Some q \<and> pid_inv q (insert (key pin) A)
     \<and> rec_time q = (if seq_list p = None \<or> restarts p pin then net_time pin else rec_time p)
     \<and> rec_id q = (if seq_list p = None then net_id pin else newest p pin)
     \<and> (seq_list q = None \<longleftrightarrow> seq_list p = None)"
proof (cases "seq_list p")
  case None
  let ?q = "p\<lparr>rec_time := net_time pin, rec_id := net_id pin\<rparr>"
  have id0: "net_id pin \<noteq> 0" using acc by (simp add: acceptable_def)
  have "remembers ?q k" if "k \<in> insert (key pin) A" for k
  proof (cases "k = key pin")
    case True
    with id0 None show ?thesis by (simp add: remembers_def key_def)
  next
    case False
    with that inv have k: "remembers p k" by (auto simp: pid_inv_def)
    show ?thesis
    proof (cases "fst k < net_time pin")
      case True
      with k show ?thesis by (simp add: remembers_def)
    next
      case False
      with k acc None have eq: "fst k = rec_time p" "net_time pin = rec_time p" "snd k \<le> rec_id p"
          "snd k \<noteq> 0"
        by (auto simp: remembers_def acceptable_def split: if_splits)
      then have "rec_id p \<noteq> 0" by auto
      then have "net_id pin = rec_id p + 1" using acc None eq by (simp add: acceptable_def)
      moreover have "rec_id p \<le> rec_id p + 1"
        using plus_one_le_self [of "rec_id p"] id0 calculation by (metis linorder_linear)
      ultimately show ?thesis using eq None by (auto simp: remembers_def)
    qed
  qed
  with None inv show ?thesis
    by (simp add: packet_id_add_tcp pid_inv_def rec_wf_def)
next
  case (Some sl)
  have wf: "rec_wf p" and udp: "seq_list p \<noteq> None" using inv Some by (auto simp: pid_inv_def)
  have sb: "0 < nat (seq_backtrack p)"
    using wf Some by (auto simp: rec_wf_def circ_inv_def)
  have id0: "net_id pin \<noteq> 0" using acc by (simp add: acceptable_def)
  then have "0 < unat (net_id pin)" by (simp add: unat_gt_0)
  from packet_id_add_udp [OF wf Some now, of pin] obtain q where
    q: "packet_id_add now p pin = Some q" "rec_wf q" "seq_list q \<noteq> None"
       "rec_time q = (if restarts p pin then net_time pin else rec_time p)"
       "rec_id q = newest p pin"
       "window q = (shifted p pin)[unat (newest p pin - net_id pin) := now]"
    by blast
  have "shifted p pin \<noteq> []"
    using sb \<open>0 < unat (net_id pin)\<close> by (auto simp: shifted_def restarts_def)
  then have ne: "window q \<noteq> []" using q(6) by simp
  have time: "net_time pin = rec_time q"
    using acc Some q(4) by (auto simp: acceptable_def restarts_def split: if_splits)
  have "remembers q (key pin)"
    using id0 time q(5,6) now
    by (auto simp: remembers_def key_def newest_def max_def SEQ_EXPIRED_def SEQ_UNSEEN_def)
  moreover have "remembers q k" if "k \<in> A" for k
  proof -
    have "remembers p k" "window p \<noteq> []" using inv that udp by (auto simp: pid_inv_def)
    then show ?thesis
      using add_remembers_old [OF wf udp now acc _ q(3,4,5,6)] by blast
  qed
  ultimately show ?thesis using q ne Some by (auto simp: pid_inv_def)
qed

subsection \<open>Runs of the receiver\<close>

text \<open>
  The state of a run is the options together with the packets accepted so far, in order.
\<close>

definition replay_step ::
  "crypto_options \<times> packet_id_net list \<Rightarrow> time_t \<times> packet_id_net
     \<Rightarrow> (crypto_options \<times> packet_id_net list) option" where
  "replay_step s e =
     (case crypto_check_replay (fst e) (fst s) (snd e) of
        None \<Rightarrow> None
      | Some (ok, opt) \<Rightarrow> Some (opt, if ok then snd s @ [snd e] else snd s))"

definition replay_inv :: "crypto_options \<times> packet_id_net list \<Rightarrow> bool" where
  "replay_inv s \<longleftrightarrow> pid_inv (pid_rec (co_packet_id (fst s))) (set (map key (snd s)))
     \<and> distinct (map key (snd s))"

lemma crypto_check_replay_inv:
  assumes inv: "pid_inv (pid_rec (co_packet_id opt)) A" and now: "now > SEQ_EXPIRED"
  shows "\<exists>ok opt'. crypto_check_replay now opt pin = Some (ok, opt')
     \<and> pid_inv (pid_rec (co_packet_id opt')) (if ok then insert (key pin) A else A)
     \<and> (ok \<longrightarrow> key pin \<notin> A)"
proof -
  obtain r1 where r1: "packet_id_reap_test now (pid_rec (co_packet_id opt)) = Some r1" "pid_inv r1 A"
    using reap_test_inv [OF inv, of now] by blast
  obtain r2 where r2: "packet_id_test r1 pin = Some (acceptable r1 pin, r2)" "same_but_stat r1 r2"
    using packet_id_test_spec [of r1 pin] r1(2) by (auto simp: pid_inv_def)
  have inv2: "pid_inv r2 A" using r1(2) r2(2) pid_inv_same by blast
  have acc2: "acceptable r2 pin \<longleftrightarrow> acceptable r1 pin"
    using same_but_stat_fields [OF r2(2)] by (simp add: acceptable_def)
  show ?thesis
  proof (cases "acceptable r1 pin")
    case False
    with r1 r2 inv2 show ?thesis by (auto simp: crypto_check_replay_def)
  next
    case True
    then obtain r3 where "packet_id_add now r2 pin = Some r3" "pid_inv r3 (insert (key pin) A)"
      using add_inv [OF inv2 _ now, of pin] acc2 by blast
    moreover have "key pin \<notin> A"
      using remembered_not_acceptable [of r2 pin] inv2 acc2 True by (auto simp: pid_inv_def)
    ultimately show ?thesis
      using True r1 r2 by (auto simp: crypto_check_replay_def Let_def)
  qed
qed

interpretation replay: machine replay_step replay_inv "\<lambda>e. fst e > SEQ_EXPIRED"
proof
  fix s :: "crypto_options \<times> packet_id_net list" and e :: "time_t \<times> packet_id_net"
  assume inv: "replay_inv s" and "fst e > SEQ_EXPIRED"
  then obtain ok opt' where "crypto_check_replay (fst e) (fst s) (snd e) = Some (ok, opt')"
    "pid_inv (pid_rec (co_packet_id opt'))
       (if ok then insert (key (snd e)) (set (map key (snd s))) else set (map key (snd s)))"
    "ok \<longrightarrow> key (snd e) \<notin> set (map key (snd s))"
    using crypto_check_replay_inv [of "fst s" "set (map key (snd s))" "fst e" "snd e"]
    by (auto simp: replay_inv_def)
  with inv show "\<exists>t. replay_step s e = Some t \<and> replay_inv t"
    by (auto simp: replay_step_def replay_inv_def)
qed

lemma init_inv:
  "packet_id_init sb tb = Some pid \<Longrightarrow> co_packet_id opt = pid \<Longrightarrow> replay_inv (opt, [])"
  using packet_id_init_wf [of sb tb pid] by (simp add: replay_inv_def pid_inv_def)

text \<open>
  C1: No replay is accepted. From a freshly initialised receiver, whatever packets arrive in
  whatever order, with the clock past 1 (the values 0 and 1 are the window's markers), the
  replay check never fails an assertion and no (time, id) pair is accepted twice, in the
  sliding-window mode (UDP) and in the strict mode (TCP), through every expiry of old entries.
\<close>

theorem no_packet_accepted_twice:
  assumes "packet_id_init sb tb = Some pid" and "co_packet_id opt = pid"
    and "\<forall>e \<in> set es. fst e > SEQ_EXPIRED"
  shows "\<exists>opt' acc. run replay_step (opt, []) es = Some (opt', acc) \<and> distinct (map key acc)"
proof -
  have "list_all (\<lambda>e. fst e > SEQ_EXPIRED) es" using assms(3) by (simp add: list_all_iff)
  from replay.run_total [OF init_inv [OF assms(1,2)] this]
  show ?thesis by (auto simp: replay_inv_def)
qed

definition demo_options :: crypto_options where
  "demo_options = \<lparr>co_packet_id = the (packet_id_init 4 15), co_pid_persist = None,
     co_long_form = False\<rparr>"

definition demo_pkt :: "u32 \<Rightarrow> packet_id_net" where
  "demo_pkt i = \<lparr>net_id = i, net_time = 0\<rparr>"

theorem no_packet_accepted_twice_witness:
  "\<exists>opt' acc. run replay_step (demo_options, []) [(100, demo_pkt 2), (101, demo_pkt 1), (102, demo_pkt 2)]
     = Some (opt', acc) \<and> distinct (map key acc)"
proof -
  have "packet_id_init 4 15 = Some (co_packet_id demo_options)"
    by (simp add: demo_options_def packet_id_init_def MAX_SEQ_BACKTRACK_def MAX_TIME_BACKTRACK_def Let_def)
  then show ?thesis
    by (rule no_packet_accepted_twice [OF _ refl]) (simp add: SEQ_EXPIRED_def)
qed

text \<open>
  C17: The window test decides exactly the specification. On every well-formed receiver state
  \<open>packet_id_test\<close> returns without a failed assertion, answers \<open>acceptable\<close> (id not 0; in
  window mode a newer timestamp, or an id above the newest, or an id inside the window whose
  entry is unseen; in strict mode the successor), and writes nothing but the statistics field.
\<close>

theorem packet_id_test_exact:
  assumes "rec_wf p"
  shows "\<exists>q. packet_id_test p pin = Some (acceptable p pin, q) \<and> (\<exists>m. q = p\<lparr>max_backtrack_stat := m\<rparr>)"
  using packet_id_test_spec [OF assms] by (simp add: same_but_stat_def)

lemma demo_wf: "rec_wf (pid_rec (co_packet_id demo_options))"
  using packet_id_init_wf [of 4 15 "co_packet_id demo_options"]
  by (simp add: demo_options_def packet_id_init_def MAX_SEQ_BACKTRACK_def MAX_TIME_BACKTRACK_def Let_def)

theorem packet_id_test_exact_witness:
  "\<exists>q. packet_id_test (pid_rec (co_packet_id demo_options)) (demo_pkt 7)
     = Some (acceptable (pid_rec (co_packet_id demo_options)) (demo_pkt 7), q)
     \<and> (\<exists>m. q = pid_rec (co_packet_id demo_options)\<lparr>max_backtrack_stat := m\<rparr>)"
  by (rule packet_id_test_exact [OF demo_wf])

subsection \<open>A sender's stream, delivered in order\<close>

text \<open>
  One step sends a packet at time \<open>fst e\<close>: its header is written to a buffer, behind or before what
  is there, read from it at the other end, and handed to the receiver at time \<open>snd e\<close>; a packet the
  receiver refuses makes the step \<open>None\<close>. Where the sender refuses to send (ids exhausted), nothing
  happens. The header has 32 bits for the time.
\<close>

definition header_buf :: buffer where
  "header_buf = mkbuf (replicate 8 0) [] (replicate 8 0)"

definition stream_step ::
  "bool \<Rightarrow> bool \<Rightarrow> packet_id_send \<times> crypto_options \<Rightarrow> time_t \<times> time_t
     \<Rightarrow> (packet_id_send \<times> crypto_options) option" where
  "stream_step long_form prepend st e =
     (case packet_id_write (fst e) (fst st) header_buf long_form prepend of
        (False, s, _) \<Rightarrow> Some (s, snd st)
      | (True, s, b) \<Rightarrow>
          (case packet_id_read b long_form of
             (False, _, _) \<Rightarrow> None
           | (True, pin, _) \<Rightarrow>
               (case crypto_check_replay (snd e) (snd st) pin of
                  Some (True, opt) \<Rightarrow> Some (s, opt)
                | _ \<Rightarrow> None)))"

text \<open>What the receiver reads.\<close>

definition on_wire :: "bool \<Rightarrow> packet_id_send \<Rightarrow> packet_id_net" where
  "on_wire long_form s =
     \<lparr>net_id = send_id s, net_time = (if long_form then uint (word_of_int (send_time s) :: u32) else 0)\<rparr>"

lemma packet_id_write_mkbuf:
  assumes "packet_id_send_update now s long_form = (True, s')" "small pre c post"
    "(if long_form then 8 else 4) \<le> length post"
  shows "packet_id_write now s (mkbuf pre c post) long_form False =
     (True, s', mkbuf pre (c @ be32 (send_id s') @ (if long_form then be32 (word_of_int (send_time s')) else []))
        (drop (if long_form then 8 else 4) post))"
  using assms by (auto simp: packet_id_write_def Let_def buf_write_mkbuf small_def)

lemma stream_step_wire:
  "stream_step long_form prepend st e =
     (case packet_id_send_update (fst e) (fst st) long_form of
        (False, s) \<Rightarrow> Some (s, snd st)
      | (True, s) \<Rightarrow>
          (case crypto_check_replay (snd e) (snd st) (on_wire long_form s) of
             Some (True, opt) \<Rightarrow> Some (s, opt)
           | _ \<Rightarrow> None))"
proof -
  obtain ok s where u: "packet_id_send_update (fst e) (fst st) long_form = (ok, s)" by fastforce
  show ?thesis
  proof (cases ok)
    case False
    then show ?thesis using u by (simp add: stream_step_def packet_id_write_def)
  next
    case True
    define c where "c = be32 (send_id s) @ (if long_form then be32 (word_of_int (send_time s)) else [])"
    have "\<exists>pre post. packet_id_write (fst e) (fst st) header_buf long_form prepend = (True, s, mkbuf pre c post)"
    proof (cases prepend)
      case True
      then show ?thesis using u \<open>ok\<close>
        by (auto simp: packet_id_write_def header_buf_def Let_def buf_write_prepend_mkbuf c_def)
    next
      case False
      have "small (replicate 8 0) [] (replicate 8 0)" by (simp add: small_def BUF_SIZE_MAX_def)
      from packet_id_write_mkbuf [OF _ this, of "fst e" "fst st" long_form s] show ?thesis
        using u False \<open>ok\<close> by (simp add: header_buf_def c_def) blast
    qed
    then obtain pre post where w: "packet_id_write (fst e) (fst st) header_buf long_form prepend = (True, s, mkbuf pre c post)"
      by blast
    have "\<exists>b. packet_id_read (mkbuf pre c post) long_form = (True, on_wire long_form s, b)"
      by (simp add: packet_id_read_def buf_read_mkbuf c_def on_wire_def)
    then show ?thesis using u w True by (auto simp: stream_step_def)
  qed
qed

definition in_sync :: "bool \<Rightarrow> packet_id_send \<Rightarrow> packet_id_rec \<Rightarrow> bool" where
  "in_sync long_form s p \<longleftrightarrow> rec_id p = send_id s
     \<and> rec_time p = (if long_form then send_time s else 0) \<and> 0 \<le> send_time s
     \<and> (send_time s = 0 \<longrightarrow> send_id s = 0)"

definition stream_inv :: "bool \<Rightarrow> packet_id_send \<times> crypto_options \<Rightarrow> bool" where
  "stream_inv long_form st \<longleftrightarrow>
     in_sync long_form (fst st) (pid_rec (co_packet_id (snd st))) \<and> (long_form \<longrightarrow> send_time (fst st) < 2 ^ 32)
     \<and> (\<exists>A. pid_inv (pid_rec (co_packet_id (snd st))) A)"

lemma wire_time: "0 \<le> t \<Longrightarrow> t < 2 ^ 32 \<Longrightarrow> uint (word_of_int t :: u32) = t"
  by (simp add: uint_word_of_int)

lemma send_update_next:
  assumes "in_sync long_form s p" "packet_id_send_update now s long_form = (True, s')" "0 < now"
    "long_form \<longrightarrow> now < 2 ^ 32 \<and> send_time s < 2 ^ 32"
  shows "acceptable p (on_wire long_form s') \<and> 0 < send_time s'
     \<and> (long_form \<longrightarrow> send_time s' < 2 ^ 32 \<and> net_time (on_wire long_form s') = send_time s')
     \<and> (rec_time p < net_time (on_wire long_form s')
        \<or> rec_time p = net_time (on_wire long_form s') \<and> rec_id p < send_id s')"
proof (cases "send_id s = PACKET_ID_MAX")
  case True
  with assms show ?thesis
    by (auto simp: packet_id_send_update_def Let_def in_sync_def on_wire_def acceptable_def
        PACKET_ID_MAX_def wire_time split: if_splits)
next
  case False
  have lt: "send_id s < send_id s + 1"
  proof (rule ccontr)
    assume "\<not> send_id s < send_id s + 1"
    then have "send_id s + 1 = 0" by (intro plus_one_le_self) simp
    then have "send_id s = - 1" by (metis add_eq_0_iff2)
    with False show False by (simp add: PACKET_ID_MAX_def)
  qed
  then have nz: "send_id s + 1 \<noteq> 0" by auto
  from assms False lt nz show ?thesis
    by (auto simp: packet_id_send_update_def Let_def in_sync_def on_wire_def acceptable_def
        wire_time split: if_splits)
qed

lemma packet_id_init_fields:
  "packet_id_init sb tb = Some pid \<Longrightarrow> pid_send pid = \<lparr>send_id = 0, send_time = 0\<rparr>
     \<and> rec_id (pid_rec pid) = 0 \<and> rec_time (pid_rec pid) = 0"
  by (auto simp: packet_id_init_def packet_id_zero_def Let_def split: if_splits)

lemma add_in_sync:
  assumes "pid_inv p A" "acceptable p pin" "now > SEQ_EXPIRED"
    and "rec_time p < net_time pin \<or> rec_time p = net_time pin \<and> rec_id p < net_id pin"
  shows "\<exists>q. packet_id_add now p pin = Some q \<and> pid_inv q (insert (key pin) A)
     \<and> rec_time q = net_time pin \<and> rec_id q = net_id pin"
  using add_inv [OF assms(1-3)] assms(4) by (auto simp: newest_def restarts_def max_def)

lemma check_replay_forward:
  assumes inv: "pid_inv p A" and p: "p = pid_rec (co_packet_id opt)" and now: "now > SEQ_EXPIRED"
    and acc: "acceptable p pin"
    and fwd: "rec_time p < net_time pin \<or> rec_time p = net_time pin \<and> rec_id p < net_id pin"
  shows "\<exists>opt'. crypto_check_replay now opt pin = Some (True, opt')
     \<and> pid_inv (pid_rec (co_packet_id opt')) (insert (key pin) A)
     \<and> rec_time (pid_rec (co_packet_id opt')) = net_time pin
     \<and> rec_id (pid_rec (co_packet_id opt')) = net_id pin"
proof -
  obtain r1 where r1: "packet_id_reap_test now p = Some r1" "pid_inv r1 A"
      "rec_time r1 = rec_time p" "rec_id r1 = rec_id p" "seq_list r1 = None \<longleftrightarrow> seq_list p = None"
    using reap_test_inv [OF inv, of now] by auto
  have acc1: "acceptable r1 pin"
    using acc fwd unfolding acceptable_def r1(3,4,5) by auto
  obtain r2 where r2: "packet_id_test r1 pin = Some (True, r2)" "same_but_stat r1 r2"
    using packet_id_test_spec [of r1 pin] r1(2) acc1 by (auto simp: pid_inv_def)
  have "pid_inv r2 A" using r1(2) r2(2) pid_inv_same by blast
  moreover have "acceptable r2 pin"
    using acc1 same_but_stat_fields [OF r2(2)] by (simp add: acceptable_def)
  ultimately obtain r3 where "packet_id_add now r2 pin = Some r3"
      "pid_inv r3 (insert (key pin) A)" "rec_time r3 = net_time pin" "rec_id r3 = net_id pin"
    using add_in_sync [OF _ _ now, of r2 A pin] fwd r1(3,4) same_but_stat_fields [OF r2(2)] by auto
  then show ?thesis using r1 r2 p by (simp add: crypto_check_replay_def Let_def)
qed

interpretation stream: machine "stream_step long_form prepend" "stream_inv long_form"
  "\<lambda>e. 0 < fst e \<and> (long_form \<longrightarrow> fst e < 2 ^ 32) \<and> SEQ_EXPIRED < snd e" for long_form prepend
proof
  fix st :: "packet_id_send \<times> crypto_options" and e :: "time_t \<times> time_t"
  assume inv: "stream_inv long_form st" and ok: "0 < fst e \<and> (long_form \<longrightarrow> fst e < 2 ^ 32) \<and> SEQ_EXPIRED < snd e"
  let ?p = "pid_rec (co_packet_id (snd st))"
  obtain A where sync: "in_sync long_form (fst st) ?p" "pid_inv ?p A" "long_form \<longrightarrow> send_time (fst st) < 2 ^ 32"
    using inv by (auto simp: stream_inv_def)
  obtain go s where upd: "packet_id_send_update (fst e) (fst st) long_form = (go, s)" by fastforce
  show "\<exists>t. stream_step long_form prepend st e = Some t \<and> stream_inv long_form t"
  proof (cases go)
    case False
    then have "send_id s = send_id (fst st)" "send_time s = send_time (fst st)"
      using upd sync(1)
      by (auto simp: packet_id_send_update_def Let_def in_sync_def PACKET_ID_MAX_def split: if_splits)
    with False upd sync show ?thesis
      by (auto simp: stream_step_wire stream_inv_def in_sync_def)
  next
    case True
    with upd have upd': "packet_id_send_update (fst e) (fst st) long_form = (True, s)" by simp
    from send_update_next [OF sync(1) upd'] ok sync(3)
    have nx: "acceptable ?p (on_wire long_form s)" "0 < send_time s"
      "long_form \<longrightarrow> send_time s < 2 ^ 32 \<and> net_time (on_wire long_form s) = send_time s"
      "rec_time ?p < net_time (on_wire long_form s)
       \<or> rec_time ?p = net_time (on_wire long_form s) \<and> rec_id ?p < send_id s" by auto
    have "net_id (on_wire long_form s) = send_id s" by (simp add: on_wire_def)
    with nx ok obtain opt' where
      "crypto_check_replay (snd e) (snd st) (on_wire long_form s) = Some (True, opt')"
      "pid_inv (pid_rec (co_packet_id opt')) (insert (key (on_wire long_form s)) A)"
      "rec_time (pid_rec (co_packet_id opt')) = net_time (on_wire long_form s)"
      "rec_id (pid_rec (co_packet_id opt')) = net_id (on_wire long_form s)"
      using check_replay_forward [OF sync(2) refl _ nx(1)] by auto
    with nx(2,3) upd' show ?thesis
      by (auto simp: stream_step_wire stream_inv_def in_sync_def) (auto simp: on_wire_def)
  qed
qed

text \<open>
  C19: A sender's own stream is never taken for a replay. A fresh sender and a fresh receiver
  (any window size, also the strict mode), with every header written by \<open>packet_id_write\<close> and read by
  \<open>packet_id_read\<close> and the packets handed over in the order they were sent: each packet the sender
  manages to send is accepted, in the short form and, across roll-overs of the id, in the long form,
  whose 32 bits hold the time up to \<open>2 ^ 32\<close>. Past that the truncated time of a roll-over is older than
  the last one and the packet is refused (\<open>truncated_rollover_refused\<close>).
\<close>

theorem in_order_stream_accepted:
  assumes "packet_id_init sb tb = Some pid" and "co_packet_id opt = pid"
    and "\<forall>e \<in> set es. 0 < fst e \<and> (long_form \<longrightarrow> fst e < 2 ^ 32) \<and> SEQ_EXPIRED < snd e"
  shows "run (stream_step long_form prepend) (pid_send pid, opt) es \<noteq> None"
proof -
  have "stream_inv long_form (pid_send pid, opt)"
    using packet_id_init_wf [OF assms(1)] packet_id_init_fields [OF assms(1)] assms(2)
    by (auto simp: stream_inv_def in_sync_def pid_inv_def intro!: exI [of _ "{}"])
  moreover have "list_all (\<lambda>e. 0 < fst e \<and> (long_form \<longrightarrow> fst e < 2 ^ 32) \<and> SEQ_EXPIRED < snd e) es"
    using assms(3) by (simp add: list_all_iff)
  ultimately show ?thesis using stream.run_total by blast
qed

theorem in_order_stream_accepted_witness:
  "run (stream_step True True) (pid_send (co_packet_id demo_options), demo_options) [(5, 5), (6, 9)] \<noteq> None"
proof -
  have "packet_id_init 4 15 = Some (co_packet_id demo_options)"
    by (simp add: demo_options_def packet_id_init_def MAX_SEQ_BACKTRACK_def MAX_TIME_BACKTRACK_def Let_def)
  then show ?thesis
    by (rule in_order_stream_accepted [OF _ refl]) (simp add: SEQ_EXPIRED_def)
qed

text \<open>The ids used up at time \<open>2 ^ 32 - 1\<close>: the next packet has time 0 and is not acceptable.\<close>

lemma truncated_rollover_refused:
  assumes "rec_time p = 2 ^ 32 - 1" "seq_backtrack p \<noteq> 0" "rec_wf p"
  shows "\<exists>s. packet_id_send_update (2 ^ 32) \<lparr>send_id = PACKET_ID_MAX, send_time = 2 ^ 32 - 1\<rparr> True = (True, s)
     \<and> on_wire True s = \<lparr>net_id = 1, net_time = 0\<rparr> \<and> \<not> acceptable p (on_wire True s)"
proof -
  let ?s = "\<lparr>send_id = 1, send_time = 2 ^ 32\<rparr>"
  have "packet_id_send_update (2 ^ 32) \<lparr>send_id = PACKET_ID_MAX, send_time = 2 ^ 32 - 1\<rparr> True = (True, ?s)"
    by (simp add: packet_id_send_update_def)
  moreover have w: "on_wire True ?s = \<lparr>net_id = 1, net_time = 0\<rparr>"
    by (simp add: on_wire_def uint_word_of_int)
  moreover have "\<not> acceptable p (on_wire True ?s)"
    unfolding w using assms by (auto simp: acceptable_def rec_wf_def split: option.splits)
  ultimately show ?thesis by blast
qed

subsection \<open>The window after a restart from the persisted state\<close>

text \<open>
  Right after a restart from the replay-persist file the recorded id and every id below it
  are refused, but the first new packet reopens a window of unseen entries below itself: with the
  state (T, n) loaded and a window of \<open>sb\<close> entries, once (T, n + 1) has been added every packet
  (T, n + 1 - k) with \<open>0 < k < sb\<close> passes the replay test, although it may have been accepted
  before the restart. (\<open>packet_id_add\<close> resets an empty list to \<open>sb\<close> entries below the new id.)
\<close>

theorem persisted_state_reopens_window:
  fixes k :: nat
  assumes "packet_id_init sb tb = Some pid" and "packet_id_persist_enabled pp"
    and "pp_time pp \<noteq> 0" and "pp_id pp < - 1" and "now > SEQ_EXPIRED"
    and "0 < k" "int k < sb" "k \<le> unat (pp_id pp)"
  shows "let p = pid_rec (packet_id_persist_load_obj pp pid);
             new = \<lparr>net_id = pp_id pp + 1, net_time = pp_time pp\<rparr>;
             old = \<lparr>net_id = pp_id pp + 1 - word_of_nat k, net_time = pp_time pp\<rparr>
         in (\<exists>p1. packet_id_test p old = Some (False, p1))
          \<and> (\<exists>q q1. packet_id_add now p new = Some q \<and> packet_id_test q old = Some (True, q1))"
proof -
  let ?p = "pid_rec (packet_id_persist_load_obj pp pid)"
  let ?new = "\<lparr>net_id = pp_id pp + 1, net_time = pp_time pp\<rparr>"
  let ?old = "\<lparr>net_id = pp_id pp + 1 - word_of_nat k, net_time = pp_time pp\<rparr>"
  note init = packet_id_init_wf [OF assms(1)]
  have sb: "0 < sb" using assms(6,7) by simp
  obtain sl where sl: "seq_list (pid_rec pid) = Some sl" "seq_backtrack (pid_rec pid) = sb"
    using assms(1) sb by (auto simp: packet_id_init_def packet_id_zero_def Let_def split: if_splits)
  have p: "?p = (pid_rec pid)\<lparr>rec_time := pp_time pp, rec_id := pp_id pp\<rparr>"
    using assms(2,3) by (simp add: packet_id_persist_load_obj_def)
  have wf: "rec_wf ?p" "window ?p = []" "seq_list ?p = Some sl" "seq_backtrack ?p = sb"
    using init sl unfolding p by (auto simp: rec_wf_def window_def split: option.splits)
  have inc: "unat (pp_id pp + 1) = Suc (unat (pp_id pp))" by (rule unat_plus_one [OF assms(4)])
  have "unat (pp_id pp) < 2 ^ LENGTH(32)" by (rule unsigned_less)
  with assms(8) have kk: "unat (word_of_nat k :: u32) = k" by (simp add: unat_of_nat)
  then have kle: "(word_of_nat k :: u32) \<le> pp_id pp + 1"
    using assms(8) inc by (simp add: word_le_nat_alt)
  have old: "unat (net_id ?old) = Suc (unat (pp_id pp)) - k"
    using unat_minus_le [OF kle] kk inc by simp
  have dist: "unat (pp_id pp + 1 - net_id ?old) = k" using kk by simp
  have nz: "net_id ?old \<noteq> 0" using old assms(8) by (metis Suc_diff_le nat.distinct(1) unat_0)
  have "\<not> net_id ?old > pp_id pp"
    unfolding word_less_nat_alt old using assms(6) by linarith
  then have "\<not> acceptable ?p ?old"
    using wf by (simp add: acceptable_def p)
  then have before: "\<exists>p1. packet_id_test ?p ?old = Some (False, p1)"
    using packet_id_test_spec [OF wf(1), of ?old] by auto
  have rs: "restarts ?p ?new" using wf(2) by (simp add: restarts_def)
  from packet_id_add_udp [OF wf(1,3) assms(5), of ?new] obtain q where
    q: "packet_id_add now ?p ?new = Some q" "rec_wf q" "seq_list q \<noteq> None"
       "rec_time q = pp_time pp" "rec_id q = pp_id pp + 1" "window q = (shifted ?p ?new)[0 := now]"
    using rs by (auto simp: newest_def)
  have sh: "shifted ?p ?new = replicate (min (nat sb) (Suc (unat (pp_id pp)))) SEQ_UNSEEN"
    using rs inc wf(4) by (simp add: shifted_def)
  have "k < length (window q)" "window q ! k = SEQ_UNSEEN"
    using assms(6-8) by (auto simp: q(6) sh)
  then have "acceptable q ?old"
    using q nz dist by (auto simp: acceptable_def)
  then have "\<exists>q1. packet_id_test q ?old = Some (True, q1)"
    using packet_id_test_spec [OF q(2), of ?old] by auto
  with before q(1) show ?thesis by (auto simp: Let_def)
qed

definition demo_persist :: packet_id_persist where
  "demo_persist = packet_id_persist_init\<lparr>pp_fd := 3, pp_time := 1700000000, pp_id := 50\<rparr>"

theorem persisted_state_reopens_window_witness:
  "\<exists>q q1. packet_id_add 1700000100 (pid_rec (packet_id_persist_load_obj demo_persist (co_packet_id demo_options)))
       \<lparr>net_id = 51, net_time = 1700000000\<rparr> = Some q
     \<and> packet_id_test q \<lparr>net_id = 49, net_time = 1700000000\<rparr> = Some (True, q1)"
proof -
  have "packet_id_init 4 15 = Some (co_packet_id demo_options)"
    by (simp add: demo_options_def packet_id_init_def MAX_SEQ_BACKTRACK_def MAX_TIME_BACKTRACK_def Let_def)
  from persisted_state_reopens_window [OF this, of demo_persist 1700000100 2] show ?thesis
    by (simp add: demo_persist_def packet_id_persist_enabled_def SEQ_EXPIRED_def Let_def)
qed

end
