(* ===== verification/Mtu.thy ===== *)
theory Mtu
  imports Buffer
begin

text \<open>
  \<^verbatim>\<open>mtu.h\<close> and \<^verbatim>\<open>mtu.c\<close>: the frame parameters and the sizes derived from them.

  \<open>frame\<close> is the C struct; the size macros are functions of it. \<open>frame_finalize\<close> and
  \<open>frame_set_mtu_dynamic\<close> end the process on a failed assertion or a too small MTU
  (\<open>frame_print\<close> with \<open>M_FATAL\<close>), so their results are options. The socket options of
  \<^verbatim>\<open>mtu.c\<close> (path-MTU discovery, extended socket errors) are system calls and not modelled.
\<close>

definition TUN_MTU_MIN :: int where "TUN_MTU_MIN = 100"
definition PAYLOAD_ALIGN :: int where "PAYLOAD_ALIGN = 4"
definition FRAME_HEADROOM_MARKER_FRAGMENT :: u32 where "FRAME_HEADROOM_MARKER_FRAGMENT = 2"
definition SET_MTU_TUN :: u32 where "SET_MTU_TUN = 1"
definition SET_MTU_UPPER_BOUND :: u32 where "SET_MTU_UPPER_BOUND = 2"

record frame =
  f_link_mtu :: int
  f_link_mtu_dynamic :: int
  f_extra_frame :: int
  f_extra_buffer :: int
  f_extra_tun :: int
  f_extra_link :: int
  f_align_flags :: u32
  f_align_adjust :: int

definition TUN_LINK_DELTA :: "frame \<Rightarrow> int" where
  "TUN_LINK_DELTA f = f_extra_frame f + f_extra_tun f"

definition TUN_MTU_SIZE :: "frame \<Rightarrow> int" where
  "TUN_MTU_SIZE f = f_link_mtu f - TUN_LINK_DELTA f"

definition PAYLOAD_SIZE :: "frame \<Rightarrow> int" where
  "PAYLOAD_SIZE f = f_link_mtu f - f_extra_frame f"

definition PAYLOAD_SIZE_DYNAMIC :: "frame \<Rightarrow> int" where
  "PAYLOAD_SIZE_DYNAMIC f = f_link_mtu_dynamic f - f_extra_frame f"

definition EXPANDED_SIZE :: "frame \<Rightarrow> int" where
  "EXPANDED_SIZE f = f_link_mtu f"

definition EXPANDED_SIZE_MIN :: "frame \<Rightarrow> int" where
  "EXPANDED_SIZE_MIN f = TUN_MTU_MIN + TUN_LINK_DELTA f"

definition MAX_RW_SIZE_TUN :: "frame \<Rightarrow> int" where
  "MAX_RW_SIZE_TUN f = PAYLOAD_SIZE f"

definition MAX_RW_SIZE_LINK :: "frame \<Rightarrow> int" where
  "MAX_RW_SIZE_LINK f = EXPANDED_SIZE f + f_extra_link f"

definition FRAME_HEADROOM_BASE :: "frame \<Rightarrow> int" where
  "FRAME_HEADROOM_BASE f = TUN_LINK_DELTA f + f_extra_buffer f + f_extra_link f"

definition frame_headroom :: "frame \<Rightarrow> u32 \<Rightarrow> int" where
  "frame_headroom f flag_mask =
     (let off = FRAME_HEADROOM_BASE f;
          adjust = (if flag_mask AND f_align_flags f \<noteq> 0 then f_align_adjust f else 0);
          delta = (push_bit 24 PAYLOAD_ALIGN - (off + adjust)) AND (PAYLOAD_ALIGN - 1)
      in off + delta)"

definition FRAME_HEADROOM :: "frame \<Rightarrow> int" where
  "FRAME_HEADROOM f = frame_headroom f 0"

definition BUF_SIZE :: "frame \<Rightarrow> int" where
  "BUF_SIZE f = TUN_MTU_SIZE f + FRAME_HEADROOM_BASE f * 2"

definition frame_add_to_link_mtu :: "int \<Rightarrow> frame \<Rightarrow> frame" where
  "frame_add_to_link_mtu n f = f\<lparr>f_link_mtu := f_link_mtu f + n\<rparr>"

definition frame_add_to_extra_frame :: "int \<Rightarrow> frame \<Rightarrow> frame" where
  "frame_add_to_extra_frame n f = f\<lparr>f_extra_frame := f_extra_frame f + n\<rparr>"

definition frame_remove_from_extra_frame :: "int \<Rightarrow> frame \<Rightarrow> frame" where
  "frame_remove_from_extra_frame n f = f\<lparr>f_extra_frame := f_extra_frame f - n\<rparr>"

definition frame_add_to_extra_tun :: "int \<Rightarrow> frame \<Rightarrow> frame" where
  "frame_add_to_extra_tun n f = f\<lparr>f_extra_tun := f_extra_tun f + n\<rparr>"

definition frame_add_to_extra_link :: "int \<Rightarrow> frame \<Rightarrow> frame" where
  "frame_add_to_extra_link n f = f\<lparr>f_extra_link := f_extra_link f + n\<rparr>"

definition frame_add_to_extra_buffer :: "int \<Rightarrow> frame \<Rightarrow> frame" where
  "frame_add_to_extra_buffer n f = f\<lparr>f_extra_buffer := f_extra_buffer f + n\<rparr>"

definition frame_align_to_extra_frame :: "frame \<Rightarrow> frame" where
  "frame_align_to_extra_frame f = f\<lparr>f_align_adjust := f_extra_frame f + f_extra_link f\<rparr>"

definition frame_or_align_flags :: "u32 \<Rightarrow> frame \<Rightarrow> frame" where
  "frame_or_align_flags m f = f\<lparr>f_align_flags := f_align_flags f OR m\<rparr>"

definition frame_defined :: "frame \<Rightarrow> bool" where
  "frame_defined f \<longleftrightarrow> f_link_mtu f > 0"

definition frame_finalize :: "frame \<Rightarrow> bool \<Rightarrow> int \<Rightarrow> bool \<Rightarrow> int \<Rightarrow> frame option" where
  "frame_finalize f link_mtu_defined link_mtu tun_mtu_defined tun_mtu =
     (case (if tun_mtu_defined
            then if link_mtu_defined then None else Some (f\<lparr>f_link_mtu := tun_mtu + TUN_LINK_DELTA f\<rparr>)
            else if link_mtu_defined then Some (f\<lparr>f_link_mtu := link_mtu\<rparr>) else None) of
        None \<Rightarrow> None
      | Some f1 \<Rightarrow> if TUN_MTU_SIZE f1 < TUN_MTU_MIN then None
                   else Some (f1\<lparr>f_link_mtu_dynamic := f_link_mtu f1\<rparr>))"

definition frame_set_mtu_dynamic :: "frame \<Rightarrow> int \<Rightarrow> u32 \<Rightarrow> frame option" where
  "frame_set_mtu_dynamic f mtu flags =
     (if \<not> mtu \<ge> 0 then None
      else (let m = (if flags AND SET_MTU_TUN \<noteq> 0 then mtu + TUN_LINK_DELTA f else mtu)
            in Some (if flags AND SET_MTU_UPPER_BOUND = 0 \<or> m < f_link_mtu_dynamic f
                     then f\<lparr>f_link_mtu_dynamic := constrain_int m (EXPANDED_SIZE_MIN f) (EXPANDED_SIZE f)\<rparr>
                     else f)))"

definition frame_subtract_extra :: "frame \<Rightarrow> frame \<Rightarrow> frame" where
  "frame_subtract_extra f src =
     f\<lparr>f_extra_frame := f_extra_frame f - f_extra_frame src, f_extra_tun := f_extra_tun f + f_extra_frame src\<rparr>"

definition frame_init_mssfix :: "frame \<Rightarrow> int \<Rightarrow> frame option" where
  "frame_init_mssfix f mssfix =
     (if mssfix \<noteq> 0 then frame_set_mtu_dynamic f mssfix SET_MTU_UPPER_BOUND else Some f)"

definition alloc_buf_sock_tun :: "frame \<Rightarrow> bool \<Rightarrow> u32 \<Rightarrow> buffer option" where
  "alloc_buf_sock_tun f tuntap_buffer align_mask =
     (case alloc_buf (size_t_of (BUF_SIZE f)) of
        None \<Rightarrow> None
      | Some b \<Rightarrow>
          (case buf_init b (frame_headroom f align_mask) of
             (False, _) \<Rightarrow> None
           | (True, b1) \<Rightarrow>
               (let b2 = b1\<lparr>blen := (if tuntap_buffer then MAX_RW_SIZE_TUN f else MAX_RW_SIZE_LINK f)\<rparr>
                in if buf_safe b2 0 then Some b2 else None)))"

subsection \<open>Well-formed frames\<close>

text \<open>
  A frame whose parts are not negative, with a usable tun MTU and a dynamic MTU in range, small
  enough for a buffer.
\<close>

definition frame_wf :: "frame \<Rightarrow> bool" where
  "frame_wf f \<longleftrightarrow> 0 \<le> f_extra_frame f \<and> 0 \<le> f_extra_buffer f \<and> 0 \<le> f_extra_tun f \<and> 0 \<le> f_extra_link f
     \<and> TUN_MTU_MIN \<le> TUN_MTU_SIZE f \<and> EXPANDED_SIZE_MIN f \<le> f_link_mtu_dynamic f
     \<and> f_link_mtu_dynamic f \<le> f_link_mtu f \<and> BUF_SIZE f < BUF_SIZE_MAX"

lemmas frame_sizes = TUN_LINK_DELTA_def TUN_MTU_SIZE_def PAYLOAD_SIZE_def PAYLOAD_SIZE_DYNAMIC_def
  EXPANDED_SIZE_def EXPANDED_SIZE_MIN_def MAX_RW_SIZE_TUN_def MAX_RW_SIZE_LINK_def
  FRAME_HEADROOM_BASE_def BUF_SIZE_def TUN_MTU_MIN_def

lemma and_3_int: "x AND 3 = x mod 4" for x :: int
proof -
  have "x AND 3 = take_bit 2 x" by (simp add: take_bit_eq_mask mask_eq_exp_minus_1)
  then show ?thesis by (simp only: take_bit_eq_mod) simp
qed

lemma frame_headroom_bounds:
  "FRAME_HEADROOM_BASE f \<le> frame_headroom f m \<and> frame_headroom f m < FRAME_HEADROOM_BASE f + 4"
  by (simp add: frame_headroom_def Let_def PAYLOAD_ALIGN_def and_3_int)

lemma align_int: "(x + (67108864 - (x + a)) mod 4 + a) mod 4 = (0 :: int)"
  by presburger

lemma frame_headroom_aligned:
  "(frame_headroom f m + (if m AND f_align_flags f \<noteq> 0 then f_align_adjust f else 0)) mod 4 = 0"
  unfolding frame_headroom_def Let_def PAYLOAD_ALIGN_def
  by (simp only: and_3_int align_int push_bit_numeral arith_simps push_bit_eq_mult)
    (simp add: and_3_int align_int)

lemma set_mtu_dynamic_wf [inv_intros]:
  "frame_wf f \<Longrightarrow> frame_set_mtu_dynamic f mtu flags = Some g \<Longrightarrow> frame_wf g"
  by (auto simp: frame_set_mtu_dynamic_def frame_wf_def frame_sizes constrain_int_def Let_def split: if_splits)

text \<open>
  Every work buffer has room for what is read into it. For a well-formed frame whose parts
  besides the tun overhead leave at least three bytes of padding, allocating a socket or tun
  buffer succeeds; the payload starts at the headroom, which the alignment marker puts on a
  4-byte boundary, and the largest read or write fits behind it.
\<close>

theorem work_buffer_fits:
  assumes "frame_wf f" and "3 \<le> f_extra_buffer f"
  shows "\<exists>b. alloc_buf_sock_tun f tuntap am = Some b \<and> live b
     \<and> boff b = frame_headroom f am
     \<and> (boff b + (if am AND f_align_flags f \<noteq> 0 then f_align_adjust f else 0)) mod 4 = 0
     \<and> boff b \<ge> TUN_LINK_DELTA f
     \<and> blen b = (if tuntap then MAX_RW_SIZE_TUN f else MAX_RW_SIZE_LINK f)"
proof -
  have sz: "0 \<le> BUF_SIZE f" "BUF_SIZE f < BUF_SIZE_MAX" "0 \<le> FRAME_HEADROOM_BASE f"
    using assms by (auto simp: frame_wf_def frame_sizes)
  note hb = frame_headroom_bounds [of f am]
  have fit: "frame_headroom f am + MAX_RW_SIZE_TUN f \<le> BUF_SIZE f"
    "frame_headroom f am + MAX_RW_SIZE_LINK f \<le> BUF_SIZE f"
    "0 \<le> MAX_RW_SIZE_TUN f" "0 \<le> MAX_RW_SIZE_LINK f" "frame_headroom f am \<le> BUF_SIZE f"
    using assms hb by (auto simp: frame_wf_def frame_sizes)
  let ?b = "\<lparr>bcap = BUF_SIZE f, boff = frame_headroom f am,
       blen = (if tuntap then MAX_RW_SIZE_TUN f else MAX_RW_SIZE_LINK f),
       bdata = Some (replicate (nat (BUF_SIZE f)) 0)\<rparr>"
  have "alloc_buf_sock_tun f tuntap am = Some ?b"
    using sz hb fit
    by (simp add: alloc_buf_sock_tun_def alloc_buf_def buf_size_valid_def buf_init_def buf_safe_def buf_valid_def
        BUF_SIZE_MAX_def)
  moreover have "live ?b" using sz hb fit by (auto simp: live_def buf_inv_def)
  moreover have "TUN_LINK_DELTA f \<le> frame_headroom f am"
    using hb assms by (auto simp: frame_wf_def frame_sizes)
  ultimately show ?thesis using frame_headroom_aligned [of f am] by auto
qed

definition demo_frame :: frame where
  "demo_frame = \<lparr>f_link_mtu = 1557, f_link_mtu_dynamic = 1450, f_extra_frame = 57, f_extra_buffer = 12,
     f_extra_tun = 0, f_extra_link = 2, f_align_flags = 0, f_align_adjust = 0\<rparr>"

lemma demo_frame_wf: "frame_wf demo_frame"
  by (simp add: demo_frame_def frame_wf_def frame_sizes BUF_SIZE_MAX_def)

theorem work_buffer_fits_witness:
  "\<exists>b. alloc_buf_sock_tun demo_frame True 0 = Some b \<and> blen b = 1500"
  using work_buffer_fits [OF demo_frame_wf, of True 0] by (auto simp: demo_frame_def frame_sizes)

end
