(* ===== verification/Data_Crypto.thy ===== *)
theory Data_Crypto
  imports Replay Mtu
begin

text \<open>
  Packet encryption and decryption of \<^verbatim>\<open>crypto.c\<close>: the AEAD format, the encrypt-then-MAC
  format with a CBC, OFB or CFB cipher, and the authenticate-only format of \<open>--tls-auth\<close>.

  Ciphers and MACs are library code. A \<open>cipher\<close> record is what a library context answers as a
  function of the IV, the additional data and the bytes fed in: the output of the update, that of
  the final step (\<open>None\<close> is failure), and the tag. Sender and receiver have a record each;
  \<open>aead_pair\<close> and \<open>cipher_pair\<close> state what the libraries document of such a pair.

  The work buffer is a value: C passes the struct by value and its bytes belong to nobody else.
\<close>

datatype cipher_mode = Mode_CBC | Mode_OFB_CFB | Mode_AEAD | Mode_other

record cipher =
  ci_mode :: cipher_mode
  ci_iv_len :: int
  ci_block_size :: int
  ci_tag_size :: int
  ci_reset :: "byte list \<Rightarrow> bool"
  ci_update :: "byte list \<Rightarrow> byte list \<Rightarrow> byte list \<Rightarrow> byte list option"
  ci_final :: "byte list \<Rightarrow> byte list \<Rightarrow> byte list \<Rightarrow> byte list option"
  ci_tag :: "byte list \<Rightarrow> byte list \<Rightarrow> byte list \<Rightarrow> byte list"
  ci_final_check_tag :: "byte list \<Rightarrow> byte list \<Rightarrow> byte list \<Rightarrow> byte list \<Rightarrow> byte list option"

record hmac =
  hm_size :: int
  hm_mac :: "byte list \<Rightarrow> byte list"

record crypt_ctx =
  cx_cipher :: "cipher option"
  cx_hmac :: "hmac option"
  cx_implicit_iv :: "byte list"

record data_options =
  do_encrypt :: crypt_ctx
  do_decrypt :: crypt_ctx
  do_core :: crypto_options
  do_ignore_packet_id :: bool

abbreviation do_packet_id :: "data_options \<Rightarrow> packet_id" where
  "do_packet_id opt \<equiv> co_packet_id (do_core opt)"

definition set_send :: "packet_id_send \<Rightarrow> data_options \<Rightarrow> data_options" where
  "set_send s opt = opt\<lparr>do_core := (do_core opt)\<lparr>co_packet_id := (co_packet_id (do_core opt))\<lparr>pid_send := s\<rparr>\<rparr>\<rparr>"

text \<open>Output written at the end of a buffer, then counted: \<open>BEND\<close> and \<open>buf_inc_len\<close>.\<close>

definition out_append :: "buffer \<Rightarrow> byte list \<Rightarrow> bool \<times> buffer" where
  "out_append b bs = buf_inc_len (poke b (boff b + blen b) bs) (int (length bs))"

definition FRAME_HEADROOM_MARKER_DECRYPT :: u32 where "FRAME_HEADROOM_MARKER_DECRYPT = 1"
definition OPENVPN_MIN_IV :: int where "OPENVPN_MIN_IV = 4 + 8"
definition OPENVPN_MAX_IV :: int where "OPENVPN_MAX_IV = 16"

subsection \<open>AEAD packets\<close>

definition openvpn_encrypt_aead ::
  "time_t \<Rightarrow> buffer \<Rightarrow> buffer \<Rightarrow> data_options \<Rightarrow> (buffer \<times> data_options) option" where
  "openvpn_encrypt_aead now buf work opt =
     (case cx_cipher (do_encrypt opt) of
        None \<Rightarrow> None
      | Some c \<Rightarrow>
          if ci_mode c \<noteq> Mode_AEAD \<or> \<not> packet_id_initialized (do_packet_id opt)
             \<or> \<not> (ci_iv_len c \<ge> OPENVPN_MIN_IV \<and> ci_iv_len c \<le> OPENVPN_MAX_IV) then None
          else let iv_buffer = mkbuf [] [] (replicate (nat (ci_iv_len c)) 0);
                   imp = cx_implicit_iv (do_encrypt opt)
          in case packet_id_write now (pid_send (do_packet_id opt)) iv_buffer False False of
               (False, snd1, _) \<Rightarrow> Some (buf\<lparr>blen := 0\<rparr>, set_send snd1 opt)
             | (True, snd1, ivb1) \<Rightarrow>
                 (let opt1 = set_send snd1 opt
                  in case buf_write ivb1 imp of
                       (False, _) \<Rightarrow> None
                     | (True, ivb2) \<Rightarrow>
                         if blen ivb2 \<noteq> ci_iv_len c then None
                         else let iv = content ivb2
                         in case buf_write work (take (nat (ci_iv_len c) - length imp) iv) of
                              (False, _) \<Rightarrow> None
                            | (True, w1) \<Rightarrow>
                                if \<not> ci_reset c iv then None
                                else (case buf_write_alloc w1 (ci_tag_size c) of
                                        (None, _) \<Rightarrow> None
                                      | (Some mac_out, w2) \<Rightarrow>
                                          if \<not> buf_safe w2 (blen buf + ci_block_size c)
                                          then Some (buf\<lparr>blen := 0\<rparr>, opt1)
                                          else (let ad = content w1; data = content buf
                                             in case (ci_update c iv ad data, ci_final c iv ad data) of
                                                  (Some out, Some fin) \<Rightarrow>
                                                    (case out_append w2 out of
                                                       (False, _) \<Rightarrow> None
                                                     | (True, w3) \<Rightarrow>
                                                         (case out_append w3 fin of
                                                            (False, _) \<Rightarrow> None
                                                          | (True, w4) \<Rightarrow>
                                                              Some (poke w4 mac_out (ci_tag c iv ad data), opt1)))
                                                | _ \<Rightarrow> None))))"

text \<open>
  \<open>ad_len\<close> is the number of bytes of additional data before the packet id, \<open>BPTR(buf) - ad_start\<close>
  on entry; they lie before the content of \<open>buf\<close>. The result is the function's, with the buffer.
\<close>

definition before_content :: "buffer \<Rightarrow> int \<Rightarrow> byte list" where
  "before_content b n = mem_read (block b) (nat (boff b - n)) (nat n)"

definition openvpn_decrypt_aead ::
  "time_t \<Rightarrow> frame \<Rightarrow> int \<Rightarrow> buffer \<Rightarrow> buffer \<Rightarrow> data_options \<Rightarrow> (bool \<times> buffer \<times> data_options) option" where
  "openvpn_decrypt_aead now fr ad_len buf work opt =
     (let imp = cx_implicit_iv (do_decrypt opt) in
      case cx_cipher (do_decrypt opt) of
        None \<Rightarrow> None
      | Some c \<Rightarrow>
          if \<not> blen buf > 0 \<or> ci_mode c \<noteq> Mode_AEAD \<or> \<not> (0 \<le> ad_len \<and> ad_len \<le> boff buf) then None
          else case buf_init work (frame_headroom fr FRAME_HEADROOM_MARKER_DECRYPT) of
            (False, _) \<Rightarrow> None
          | (True, w0) \<Rightarrow>
             if \<not> packet_id_initialized (do_packet_id opt) \<or> \<not> int (length imp) \<le> ci_iv_len c then None
             else let fail = (\<lambda>b. Some (False, b\<lparr>blen := 0\<rparr>, opt)) in
             if blen buf + int (length imp) < ci_iv_len c then fail buf
             else let iv = take (nat (ci_iv_len c) - length imp) (content buf) @ imp;
                      ad0 = before_content buf ad_len in
             if \<not> ci_reset c iv then fail buf
             else case packet_id_read buf False of
               (False, _, b1) \<Rightarrow> fail b1
             | (True, pin, b1) \<Rightarrow>
                 if blen b1 < ci_tag_size c then fail b1
                 else let tag = take (nat (ci_tag_size c)) (content b1) in
                 case buf_advance b1 (ci_tag_size c) of
                   (False, _) \<Rightarrow> None
                 | (True, b2) \<Rightarrow>
                     if blen b2 < 1 then fail b2
                     else if \<not> buf_safe w0 (blen b2 + ci_block_size c) then fail b2
                     else let ad = ad0 @ take 4 (content buf); data = content b2 in
                     case ci_update c iv ad data of
                       None \<Rightarrow> fail b2
                     | Some out \<Rightarrow>
                         (case out_append w0 out of
                            (False, _) \<Rightarrow> None
                          | (True, w1) \<Rightarrow>
                              (case ci_final_check_tag c iv ad data tag of
                                 None \<Rightarrow> fail b2
                               | Some fin \<Rightarrow>
                                   (case out_append w1 fin of
                                      (False, _) \<Rightarrow> None
                                    | (True, w2) \<Rightarrow>
                                        (case crypto_check_replay now (do_core opt) pin of
                                           None \<Rightarrow> None
                                         | Some (False, core1) \<Rightarrow> Some (False, b2\<lparr>blen := 0\<rparr>, opt\<lparr>do_core := core1\<rparr>)
                                         | Some (True, core1) \<Rightarrow> Some (True, w2, opt\<lparr>do_core := core1\<rparr>))))))"

subsection \<open>What an AEAD packet looks like\<close>

definition aead_pair :: "cipher \<Rightarrow> cipher \<Rightarrow> bool" where
  "aead_pair e d \<longleftrightarrow> ci_mode e = Mode_AEAD \<and> ci_mode d = Mode_AEAD
     \<and> OPENVPN_MIN_IV \<le> ci_iv_len e \<and> ci_iv_len e \<le> OPENVPN_MAX_IV \<and> ci_iv_len d = ci_iv_len e
     \<and> 0 \<le> ci_tag_size e \<and> ci_tag_size e \<le> 64 \<and> ci_tag_size d = ci_tag_size e
     \<and> 0 \<le> ci_block_size e \<and> ci_block_size e \<le> 64 \<and> 0 \<le> ci_block_size d \<and> ci_block_size d \<le> 64
     \<and> (\<forall>iv. ci_reset e iv \<and> ci_reset d iv)
     \<and> (\<forall>iv ad m. length (ci_tag e iv ad m) = nat (ci_tag_size e)
          \<and> (\<exists>x y. ci_update e iv ad m = Some x \<and> ci_final e iv ad m = Some y
               \<and> length m \<le> length (x @ y) \<and> length (x @ y) \<le> length m + nat (ci_block_size e)
               \<and> (\<exists>u v. ci_update d iv ad (x @ y) = Some u
                    \<and> ci_final_check_tag d iv ad (x @ y) (ci_tag e iv ad m) = Some v \<and> u @ v = m)))"

lemma mkbuf_off:
  "boff (mkbuf pre c post) = int (length pre)" "blen (mkbuf pre c post) = int (length c)"
  by (simp_all add: mkbuf_def)

lemma out_append_mkbuf:
  "small pre c post \<Longrightarrow> length bs \<le> length post \<Longrightarrow>
     out_append (mkbuf pre c post) bs = (True, mkbuf pre (c @ bs) (drop (length bs) post))"
proof -
  assume s: "small pre c post" "length bs \<le> length post"
  have "poke (mkbuf pre c post) (int (length pre + length c)) bs = mkbuf pre c (bs @ drop (length bs) post)"
    by (rule mkbuf_eqI) (use s(2) in \<open>simp_all add: poke_def mkbuf_def mem_write_def nat_int_add\<close>)
  moreover have "small pre c (bs @ drop (length bs) post)" using s by (simp add: small_def)
  ultimately show ?thesis by (simp add: out_append_def buf_inc_len_mkbuf mkbuf_off)
qed

lemma buf_safe_mkbuf:
  "small pre c post \<Longrightarrow> 0 \<le> n \<Longrightarrow> n \<le> int (length post) \<Longrightarrow> buf_safe (mkbuf pre c post) n"
  by (simp add: buf_safe_def buf_size_valid_def small_def mkbuf_def buf_valid_def)

text \<open>The ciphertext of a packet with its IV and additional data.\<close>

definition sealed :: "cipher \<Rightarrow> byte list \<Rightarrow> byte list \<Rightarrow> byte list \<Rightarrow> byte list" where
  "sealed e iv ad m = the (ci_update e iv ad m) @ the (ci_final e iv ad m)"

definition aead_packet :: "crypt_ctx \<Rightarrow> byte list \<Rightarrow> u32 \<Rightarrow> byte list \<Rightarrow> byte list" where
  "aead_packet cx hdr n m =
     (let e = the (cx_cipher cx); iv = be32 n @ cx_implicit_iv cx; ad = hdr @ be32 n
      in be32 n @ ci_tag e iv ad m @ sealed e iv ad m)"

lemma encrypt_aead_spec:
  assumes pair: "aead_pair e d" "cx_cipher (do_encrypt opt) = Some e"
    and imp: "int (length (cx_implicit_iv (do_encrypt opt))) = ci_iv_len e - 4"
    and pid: "packet_id_initialized (do_packet_id opt)" "packet_id_send_update now (pid_send (do_packet_id opt)) False = (True, s)"
    and room: "small wp hdr wq" "68 + length m + 64 \<le> length wq" "small bp m bq"
  shows "\<exists>w. openvpn_encrypt_aead now (mkbuf bp m bq) (mkbuf wp hdr wq) opt = Some (w, set_send s opt)
     \<and> w = mkbuf wp (hdr @ aead_packet (do_encrypt opt) hdr (send_id s) m)
         (drop (length (aead_packet (do_encrypt opt) hdr (send_id s) m)) wq)"
proof -
  let ?imp = "cx_implicit_iv (do_encrypt opt)"
  define iv where "iv = be32 (send_id s) @ ?imp"
  define ad where "ad = hdr @ be32 (send_id s)"
  obtain x y where xy: "ci_update e iv ad m = Some x" "ci_final e iv ad m = Some y"
      "length (x @ y) \<le> length m + nat (ci_block_size e)" and tl: "length (ci_tag e iv ad m) = nat (ci_tag_size e)"
    using pair(1) unfolding aead_pair_def by metis
  have c: "ci_mode e = Mode_AEAD" "OPENVPN_MIN_IV \<le> ci_iv_len e" "ci_iv_len e \<le> OPENVPN_MAX_IV" "ci_reset e iv"
      "0 \<le> ci_tag_size e" "ci_tag_size e \<le> 64" "0 \<le> ci_block_size e" "ci_block_size e \<le> 64"
    using pair(1) by (simp_all add: aead_pair_def)
  let ?n = "nat (ci_iv_len e)" and ?t = "nat (ci_tag_size e)"
  have n: "?n = 4 + length ?imp" using imp c(2) by (simp add: OPENVPN_MIN_IV_def)
  have s16: "small [] [] (replicate ?n 0)" using c(3) by (simp add: small_def OPENVPN_MAX_IV_def BUF_SIZE_MAX_def)
  have 1: "packet_id_write now (pid_send (do_packet_id opt)) (mkbuf [] [] (replicate ?n 0)) False False
      = (True, s, mkbuf [] (be32 (send_id s)) (replicate (length ?imp) 0))"
    using packet_id_write_mkbuf [OF pid(2) s16] n by simp
  have 2: "buf_write (mkbuf [] (be32 (send_id s)) (replicate (length ?imp) 0)) ?imp = (True, mkbuf [] iv [])"
    using s16 n by (simp add: buf_write_mkbuf small_def iv_def)
  have 3: "blen (mkbuf [] iv []) = ci_iv_len e" using n c(2) by (simp add: mkbuf_def iv_def OPENVPN_MIN_IV_def)
  have "take (?n - length ?imp) iv = be32 (send_id s)" using n by (simp add: iv_def)
  then have 4: "buf_write (mkbuf wp hdr wq) (take (?n - length ?imp) iv) = (True, mkbuf wp ad (drop 4 wq))"
    using room by (simp add: buf_write_mkbuf ad_def)
  have sm: "small wp ad (drop 4 wq)" using room by (simp add: small_def ad_def)
  have 5: "buf_write_alloc (mkbuf wp ad (drop 4 wq)) (ci_tag_size e)
     = (Some (int (length wp + length ad)), mkbuf wp (ad @ take ?t (drop 4 wq)) (drop (4 + ?t) wq))"
    using buf_write_alloc_mkbuf [OF sm, of ?t] room c(5,6) by (simp add: add.commute)
  let ?w2 = "mkbuf wp (ad @ take ?t (drop 4 wq)) (drop (4 + ?t) wq)"
  have sm2: "small wp (ad @ take ?t (drop 4 wq)) (drop (4 + ?t) wq)"
    using room c(5,6) by (simp add: small_def ad_def min_def)
  have 6: "buf_safe ?w2 (blen (mkbuf bp m bq) + ci_block_size e)"
    using room c(5,6,7,8) by (auto simp: buf_safe_def buf_size_valid_def mkbuf_def small_def ad_def buf_valid_def)
  have lx: "length x + length y \<le> length m + nat (ci_block_size e)" using xy(3) by simp
  have 7: "out_append ?w2 x = (True, mkbuf wp ((ad @ take ?t (drop 4 wq)) @ x) (drop (4 + ?t + length x) wq))"
    using out_append_mkbuf [OF sm2, of x] room lx c(6,8) by (simp add: add.commute add.left_commute)
  have sm3: "small wp ((ad @ take ?t (drop 4 wq)) @ x) (drop (4 + ?t + length x) wq)"
    using room c(5,6,8) lx by (simp add: small_def ad_def min_def)
  have 8: "out_append (mkbuf wp ((ad @ take ?t (drop 4 wq)) @ x) (drop (4 + ?t + length x) wq)) y
      = (True, mkbuf wp (((ad @ take ?t (drop 4 wq)) @ x) @ y) (drop (4 + ?t + length x + length y) wq))"
    using out_append_mkbuf [OF sm3, of y] room lx c(6,8) by (simp add: add.commute add.left_commute)
  have 9: "poke (mkbuf wp (((ad @ take ?t (drop 4 wq)) @ x) @ y) (drop (4 + ?t + length x + length y) wq))
      (int (length wp + length ad)) (ci_tag e iv ad m)
    = mkbuf wp (ad @ ci_tag e iv ad m @ x @ y) (drop (4 + ?t + length x + length y) wq)"
    by (rule mkbuf_eqI) (use room c(5,6) tl in \<open>simp_all add: poke_def mkbuf_def mem_write_def\<close>)
  have pkt: "aead_packet (do_encrypt opt) hdr (send_id s) m = be32 (send_id s) @ ci_tag e iv ad m @ x @ y"
    using pair(2) xy by (simp add: aead_packet_def sealed_def Let_def iv_def ad_def)
  have "openvpn_encrypt_aead now (mkbuf bp m bq) (mkbuf wp hdr wq) opt
      = Some (mkbuf wp (ad @ ci_tag e iv ad m @ x @ y) (drop (4 + ?t + length x + length y) wq), set_send s opt)"
    unfolding openvpn_encrypt_aead_def using pid(1) c
    by (simp only: pair(2) option.case Let_def 1 2 3 4 5 6 7 8 9 content_mkbuf prod.case bool.case xy(1,2))
      (simp add: 9)
  then show ?thesis unfolding pkt by (simp add: ad_def tl [unfolded ad_def] add.assoc)
qed

text \<open>
  Everything \<open>openvpn_decrypt_aead\<close> can do with a packet: refuse it, or find a packet id, a tag and a
  ciphertext in it, check the tag, and leave the rest to the replay check.
\<close>

definition fits_work :: "frame \<Rightarrow> int \<Rightarrow> buffer \<Rightarrow> bool" where
  "fits_work fr need work \<longleftrightarrow> live work \<and> 0 \<le> frame_headroom fr FRAME_HEADROOM_MARKER_DECRYPT
     \<and> frame_headroom fr FRAME_HEADROOM_MARKER_DECRYPT + need \<le> bcap work"

definition decrypt_ok :: "cipher \<Rightarrow> bool" where
  "decrypt_ok d \<longleftrightarrow> ci_mode d = Mode_AEAD \<and> OPENVPN_MIN_IV \<le> ci_iv_len d \<and> ci_iv_len d \<le> OPENVPN_MAX_IV
     \<and> 0 \<le> ci_tag_size d \<and> 0 \<le> ci_block_size d
     \<and> (\<forall>iv ad ct tag u v. ci_update d iv ad ct = Some u \<longrightarrow> length u \<le> length ct + nat (ci_block_size d)
          \<and> (ci_final_check_tag d iv ad ct tag = Some v \<longrightarrow> length (u @ v) \<le> length ct + nat (ci_block_size d)))"

definition aead_open :: "cipher \<Rightarrow> byte list \<Rightarrow> byte list \<Rightarrow> byte list \<Rightarrow> byte list option" where
  "aead_open d imp hdr c =
     (let n = take 4 c; tag = take (nat (ci_tag_size d)) (drop 4 c); ct = drop (4 + nat (ci_tag_size d)) c;
          iv = n @ imp; ad = hdr @ n
      in if \<not> 4 + ci_tag_size d + 1 \<le> int (length c) \<or> \<not> ci_reset d iv then None
         else case (ci_update d iv ad ct, ci_final_check_tag d iv ad ct tag) of
                (Some u, Some v) \<Rightarrow> Some (u @ v) | _ \<Rightarrow> None)"

lemma decrypt_aead_cases:
  assumes d: "cx_cipher (do_decrypt opt) = Some d" "decrypt_ok d"
    and imp: "int (length (cx_implicit_iv (do_decrypt opt))) = ci_iv_len d - 4"
    and pid: "packet_id_initialized (do_packet_id opt)"
    and work: "fits_work fr (int (length c) + ci_block_size d) work"
    and c: "c \<noteq> []" "small (pre @ hdr) c post"
  obtains
    (refused) b where "openvpn_decrypt_aead now fr (int (length hdr)) (mkbuf (pre @ hdr) c post) work opt = Some (False, b, opt)" "blen b = 0"
      "aead_open d (cx_implicit_iv (do_decrypt opt)) hdr c = None"
  | (checked) m w b where "aead_open d (cx_implicit_iv (do_decrypt opt)) hdr c = Some m" "content w = m" "live w" "blen b = 0"
      "openvpn_decrypt_aead now fr (int (length hdr)) (mkbuf (pre @ hdr) c post) work opt =
        (case crypto_check_replay now (do_core opt) \<lparr>net_id = un_be32 (take 4 c), net_time = 0\<rparr> of
           None \<Rightarrow> None
         | Some (False, core1) \<Rightarrow> Some (False, b, opt\<lparr>do_core := core1\<rparr>)
         | Some (True, core1) \<Rightarrow> Some (True, w, opt\<lparr>do_core := core1\<rparr>))"
proof -
  let ?imp = "cx_implicit_iv (do_decrypt opt)" and ?buf = "mkbuf (pre @ hdr) c post"
    and ?h = "frame_headroom fr FRAME_HEADROOM_MARKER_DECRYPT" and ?r = "openvpn_decrypt_aead now fr (int (length hdr)) (mkbuf (pre @ hdr) c post) work opt"
  have dd: "ci_mode d = Mode_AEAD" "4 + int (length ?imp) = ci_iv_len d" "0 \<le> ci_tag_size d" "0 \<le> ci_block_size d"
    using d(2) imp by (simp_all add: decrypt_ok_def)
  obtain p0 c0 q0 where w: "work = mkbuf p0 c0 q0" "small p0 c0 q0" using work by (auto simp: fits_work_def elim: live_split)
  define blk where "blk = p0 @ c0 @ q0"
  have blk: "int (length blk) = bcap work" "int (length blk) < BUF_SIZE_MAX" using w by (simp_all add: blk_def mkbuf_def small_def)
  let ?w0 = "mkbuf (take (nat ?h) blk) [] (drop (nat ?h) blk)"
  have 1: "buf_init work ?h = (True, ?w0)" using work blk w(1) dd(4) by (simp add: fits_work_def buf_init_mkbuf blk_def)
  have s0: "small (take (nat ?h) blk) [] (drop (nat ?h) blk)" using blk by (simp add: small_def)
  have room: "length c + nat (ci_block_size d) \<le> length (drop (nat ?h) blk)"
    using work blk dd(4) unfolding fits_work_def length_drop by linarith
  have bl: "blen ?buf = int (length c)" "boff ?buf = int (length pre + length hdr)" by (simp_all add: mkbuf_def)
  have bc: "before_content ?buf (int (length hdr)) = hdr"
    by (simp add: before_content_def mkbuf_def block_def mem_read_def nat_int_add)
  show thesis
  proof (cases "4 + ci_tag_size d + 1 \<le> int (length c)")
    case short: False
    have "\<exists>b. ?r = Some (False, b, opt) \<and> blen b = 0"
    proof (cases "4 \<le> length c \<and> ci_reset d (take (nat (ci_iv_len d) - length ?imp) c @ ?imp)")
      case False
      then show ?thesis
        using c(1) dd pid 1 unfolding openvpn_decrypt_aead_def
        by (auto simp: d(1) bl Let_def buf_read_mkbuf packet_id_read_def)
    next
      case True
      then obtain n r where nr: "c = n @ r" "length n = 4" by (metis append_take_drop_id length_take min.absorb2)
      have "packet_id_read ?buf False = (True, \<lparr>net_id = un_be32 n, net_time = 0\<rparr>, mkbuf ((pre @ hdr) @ n) r post)"
        by (simp add: packet_id_read_def buf_read_mkbuf nr)
      moreover have "ci_tag_size d = int (length r) \<Longrightarrow>
          buf_advance (mkbuf ((pre @ hdr) @ n) r post) (ci_tag_size d) = (True, mkbuf (((pre @ hdr) @ n) @ r) [] post)"
        by (simp add: buf_advance_mkbuf)
      ultimately show ?thesis
        using True c(1) dd(1,2,3) pid 1 short nr unfolding openvpn_decrypt_aead_def
        by (cases "ci_tag_size d = int (length r)") (simp_all add: d(1) Let_def mkbuf_off content_mkbuf)
    qed
    then show thesis using refused short by (auto simp: aead_open_def)
  next
    case long: True
    define n where "n = take 4 c"
    define tag where "tag = take (nat (ci_tag_size d)) (drop 4 c)"
    define ct where "ct = drop (4 + nat (ci_tag_size d)) c"
    have f: "c = n @ tag @ ct" "length n = 4" "int (length tag) = ci_tag_size d" "ct \<noteq> []"
      using long dd(3) by (auto simp: n_def tag_def ct_def add.commute) (metis append_take_drop_id drop_drop add.commute)
    have iv: "take (nat (ci_iv_len d) - length ?imp) c @ ?imp = n @ ?imp"
    proof -
      have "nat (ci_iv_len d) - length ?imp = 4" using dd(2) by linarith
      then show ?thesis by (simp add: n_def)
    qed
    have 2: "packet_id_read ?buf False = (True, \<lparr>net_id = un_be32 n, net_time = 0\<rparr>, mkbuf ((pre @ hdr) @ n) (tag @ ct) post)"
      by (simp add: packet_id_read_def buf_read_mkbuf f(1,2))
    let ?b2 = "mkbuf (((pre @ hdr) @ n) @ tag) ct post"
    have 3: "buf_advance (mkbuf ((pre @ hdr) @ n) (tag @ ct) post) (ci_tag_size d) = (True, ?b2)"
      by (simp add: buf_advance_mkbuf flip: f(3))
    have 4: "take (nat (ci_tag_size d)) (tag @ ct) = tag" using f(3) nat_int [of "length tag"] by simp
    have 5: "buf_safe ?w0 (int (length ct) + ci_block_size d)"
    proof -
      have "int (length ct) + ci_block_size d \<le> int (length (drop (nat ?h) blk))" using room dd(4) f(1) by simp
      then show ?thesis using s0 dd(4) by (simp add: buf_safe_mkbuf)
    qed
    have 6: "\<not> blen ?b2 < 1" "\<not> blen (mkbuf ((pre @ hdr) @ n) (tag @ ct) post) < ci_tag_size d"
      using f(3,4) by (simp_all add: mkbuf_off Suc_leI)
    have 7: "\<not> blen ?buf + int (length ?imp) < ci_iv_len d" "blen ?buf > 0" "int (length hdr) \<le> boff ?buf" "int (length ?imp) \<le> ci_iv_len d"
      using dd long c(1) by (simp_all add: mkbuf_off)
    have n4: "take 4 c = n" by (simp add: n_def)
    let ?iv = "n @ ?imp" and ?ad = "hdr @ n"
    note run = openvpn_decrypt_aead_def d(1) option.case Let_def bc content_mkbuf iv n4 dd(1) 1 2 3 4 prod.case bool.case
    have base: "?r = (if \<not> ci_reset d ?iv then Some (False, ?buf\<lparr>blen := 0\<rparr>, opt)
        else case ci_update d ?iv ?ad ct of None \<Rightarrow> Some (False, ?b2\<lparr>blen := 0\<rparr>, opt)
         | Some out \<Rightarrow> (case out_append ?w0 out of (False, _) \<Rightarrow> None
             | (True, w1) \<Rightarrow> (case ci_final_check_tag d ?iv ?ad ct tag of None \<Rightarrow> Some (False, ?b2\<lparr>blen := 0\<rparr>, opt)
                 | Some fin \<Rightarrow> (case out_append w1 fin of (False, _) \<Rightarrow> None
                      | (True, w2) \<Rightarrow> (case crypto_check_replay now (do_core opt) \<lparr>net_id = un_be32 n, net_time = 0\<rparr> of
                           None \<Rightarrow> None
                         | Some (False, core1) \<Rightarrow> Some (False, ?b2\<lparr>blen := 0\<rparr>, opt\<lparr>do_core := core1\<rparr>)
                         | Some (True, core1) \<Rightarrow> Some (True, w2, opt\<lparr>do_core := core1\<rparr>))))))"
      using 5 6 7 pid unfolding run by (simp add: mkbuf_off f(1,2))
    have opn: "aead_open d ?imp hdr c = (if \<not> ci_reset d ?iv then None
        else case (ci_update d ?iv ?ad ct, ci_final_check_tag d ?iv ?ad ct tag) of
           (Some u, Some v) \<Rightarrow> Some (u @ v) | _ \<Rightarrow> None)"
      using long by (simp add: aead_open_def n_def tag_def ct_def Let_def)
    show thesis
    proof (cases "ci_reset d ?iv \<and> ci_update d ?iv ?ad ct \<noteq> None \<and> ci_final_check_tag d ?iv ?ad ct tag \<noteq> None")
      case False
      have "\<exists>b. ?r = Some (False, b, opt) \<and> blen b = 0"
      proof (cases "ci_reset d ?iv \<and> ci_update d ?iv ?ad ct \<noteq> None")
        case True
        then obtain u where u: "ci_update d ?iv ?ad ct = Some u" "ci_reset d ?iv" by blast
        then have "length u \<le> length (drop (nat ?h) blk)"
          using d(2) room f(1) unfolding decrypt_ok_def by fastforce
        with u False base out_append_mkbuf [OF s0, of u] show ?thesis by auto
      qed (use base in auto)
      then show thesis using refused False by (auto simp: opn split: option.splits)
    next
      case True
      then obtain u v where uv: "ci_reset d ?iv" "ci_update d ?iv ?ad ct = Some u" "ci_final_check_tag d ?iv ?ad ct tag = Some v" by blast
      then have len: "length u + length v \<le> length (drop (nat ?h) blk)"
        using d(2) room f(1) unfolding decrypt_ok_def by fastforce
      let ?w1 = "mkbuf (take (nat ?h) blk) u (drop (length u) (drop (nat ?h) blk))"
      let ?w2 = "mkbuf (take (nat ?h) blk) (u @ v) (drop (length v) (drop (length u) (drop (nat ?h) blk)))"
      have s1: "small (take (nat ?h) blk) u (drop (length u) (drop (nat ?h) blk))"
        using s0 len unfolding small_def length_drop by (simp del: of_nat_add) linarith
      have 8: "out_append ?w0 u = (True, ?w1)" using out_append_mkbuf [OF s0, of u] len by simp
      have 9: "out_append ?w1 v = (True, ?w2)" using out_append_mkbuf [OF s1, of v] len by simp
      have "small (take (nat ?h) blk) (u @ v) (drop (length v) (drop (length u) (drop (nat ?h) blk)))"
        using s1 len unfolding small_def length_drop length_append by (simp del: of_nat_add) linarith
      then have lv: "live ?w2" by simp
      have "?r = (case crypto_check_replay now (do_core opt) \<lparr>net_id = un_be32 n, net_time = 0\<rparr> of
           None \<Rightarrow> None
         | Some (False, core1) \<Rightarrow> Some (False, ?b2\<lparr>blen := 0\<rparr>, opt\<lparr>do_core := core1\<rparr>)
         | Some (True, core1) \<Rightarrow> Some (True, ?w2, opt\<lparr>do_core := core1\<rparr>))"
        unfolding base using uv(1) by (simp only: uv(2,3) 8 9 option.case prod.case bool.case if_False not_True_eq_False)
      then show thesis using checked [of "u @ v" ?w2 "?b2\<lparr>blen := 0\<rparr>"] uv lv by (simp add: opn n4)
    qed
  qed
qed

text \<open>What the receiver opens is what the sender sealed.\<close>

lemma open_sealed:
  assumes "aead_pair e d" "cx_cipher cx = Some e" "m \<noteq> []"
  shows "aead_open d (cx_implicit_iv cx) hdr (aead_packet cx hdr n m) = Some m"
proof -
  let ?iv = "be32 n @ cx_implicit_iv cx" and ?ad = "hdr @ be32 n"
  obtain x y u v where xy: "ci_update e ?iv ?ad m = Some x" "ci_final e ?iv ?ad m = Some y" "length m \<le> length (x @ y)"
      "ci_update d ?iv ?ad (x @ y) = Some u"
      "ci_final_check_tag d ?iv ?ad (x @ y) (ci_tag e ?iv ?ad m) = Some v" "u @ v = m"
      "length (ci_tag e ?iv ?ad m) = nat (ci_tag_size e)"
    using assms(1) unfolding aead_pair_def by metis
  have "aead_packet cx hdr n m = be32 n @ ci_tag e ?iv ?ad m @ x @ y"
    using assms(2) xy by (simp add: aead_packet_def sealed_def Let_def)
  moreover have "ci_tag_size d = ci_tag_size e" "0 \<le> ci_tag_size e" "ci_reset d ?iv" using assms(1) by (simp_all add: aead_pair_def)
  moreover have "0 < length m" using assms(3) by simp
  then have "0 < length x + length y" using xy(3) unfolding length_append by linarith
  then have "1 \<le> int (length x) + int (length y)" by linarith
  ultimately show ?thesis using xy by (simp add: aead_open_def Let_def)
qed

subsection \<open>CBC, OFB and CFB packets, and packets without a cipher\<close>

text \<open>
  The IV of a packet, with what writing the packet id does to the plaintext and the send counter.
  \<open>prng\<close> is the library's random source. The flag is false when the packet id rolled over.
\<close>

definition v1_iv ::
  "time_t \<Rightarrow> (int \<Rightarrow> byte list) \<Rightarrow> cipher \<Rightarrow> buffer \<Rightarrow> data_options
     \<Rightarrow> (bool \<times> byte list \<times> buffer \<times> data_options) option" where
  "v1_iv now prng c buf opt =
     (case ci_mode c of
        Mode_CBC \<Rightarrow>
          if packet_id_initialized (do_packet_id opt)
          then (case packet_id_write now (pid_send (do_packet_id opt)) buf (co_long_form (do_core opt)) True of
                  (ok, s, b1) \<Rightarrow> Some (ok, prng (ci_iv_len c), b1, set_send s opt))
          else Some (True, prng (ci_iv_len c), buf, opt)
      | Mode_OFB_CFB \<Rightarrow>
          if \<not> packet_id_initialized (do_packet_id opt) then None
          else (case packet_id_write now (pid_send (do_packet_id opt))
                       (mkbuf [] [] (replicate (nat (ci_iv_len c)) 0)) True False of
                  (False, _) \<Rightarrow> None
                | (True, s, b) \<Rightarrow> Some (True, block b, buf, set_send s opt))
      | _ \<Rightarrow> None)"

text \<open>\<open>mac_out\<close> and \<open>hmac_start\<close> are positions in the block; the MAC covers \<open>hmac_start\<close> to the end.\<close>

definition put_mac :: "hmac option \<Rightarrow> (int \<times> int) option \<Rightarrow> buffer \<Rightarrow> buffer" where
  "put_mac hm marks w =
     (case (hm, marks) of
        (Some h, Some (mac_out, start)) \<Rightarrow>
          poke w mac_out (hm_mac h (mem_read (block w) (nat start) (nat (boff w + blen w - start))))
      | _ \<Rightarrow> w)"

definition openvpn_encrypt_v1 ::
  "time_t \<Rightarrow> (int \<Rightarrow> byte list) \<Rightarrow> buffer \<Rightarrow> buffer \<Rightarrow> data_options \<Rightarrow> (buffer \<times> data_options) option" where
  "openvpn_encrypt_v1 now prng buf work opt =
     (if \<not> blen buf > 0 then Some (buf, opt)
      else let hm = cx_hmac (do_encrypt opt) in
      case cx_cipher (do_encrypt opt) of
        Some c \<Rightarrow>
          (case (case hm of
                   None \<Rightarrow> Some (None, work)
                 | Some h \<Rightarrow> (case buf_write_alloc work (hm_size h) of
                                (None, _) \<Rightarrow> None
                              | (Some mac_out, w) \<Rightarrow> Some (Some (mac_out, boff w + blen w), w))) of
             None \<Rightarrow> None
           | Some (marks, w1) \<Rightarrow>
               (case v1_iv now prng c buf opt of
                  None \<Rightarrow> None
                | Some (False, _, b1, opt1) \<Rightarrow> Some (b1\<lparr>blen := 0\<rparr>, opt1)
                | Some (True, iv, b1, opt1) \<Rightarrow>
                    (case buf_write w1 iv of
                       (False, _) \<Rightarrow> None
                     | (True, w2) \<Rightarrow>
                         if \<not> ci_reset c iv then None
                         else if \<not> buf_safe w2 (blen b1 + ci_block_size c) then Some (b1\<lparr>blen := 0\<rparr>, opt1)
                         else (case (ci_update c iv [] (content b1), ci_final c iv [] (content b1)) of
                                 (Some out, Some fin) \<Rightarrow>
                                   (case out_append w2 out of
                                      (False, _) \<Rightarrow> None
                                    | (True, w3) \<Rightarrow>
                                        (case out_append w3 fin of
                                           (False, _) \<Rightarrow> None
                                         | (True, w4) \<Rightarrow>
                                             if ci_mode c = Mode_CBC \<and> int (length fin) \<noteq> ci_iv_len c then None
                                             else Some (put_mac hm marks w4, opt1)))
                               | _ \<Rightarrow> None))))
      | None \<Rightarrow>
          (case (if packet_id_initialized (do_packet_id opt)
                 then packet_id_write now (pid_send (do_packet_id opt)) buf (co_long_form (do_core opt)) True
                 else (True, pid_send (do_packet_id opt), buf)) of
             (False, s, b1) \<Rightarrow> Some (b1\<lparr>blen := 0\<rparr>, set_send s opt)
           | (True, s, b1) \<Rightarrow>
               (case (case hm of
                        None \<Rightarrow> Some (None, b1)
                      | Some h \<Rightarrow> (case buf_prepend b1 (hm_size h) of
                                     (None, _) \<Rightarrow> None
                                   | (Some mac_out, b2) \<Rightarrow> Some (Some (mac_out, boff b1), b2))) of
                  None \<Rightarrow> None
                | Some (marks, b2) \<Rightarrow>
                    (let b3 = (if buf_len work \<noteq> 0 then snd (buf_write_prepend b2 (content work)) else b2)
                     in Some (put_mac hm marks b3, set_send s opt)))))"

definition v1_check_hmac :: "hmac option \<Rightarrow> buffer \<Rightarrow> (bool \<times> buffer) option" where
  "v1_check_hmac hm buf =
     (case hm of
        None \<Rightarrow> Some (True, buf)
      | Some h \<Rightarrow>
          if blen buf < hm_size h then Some (False, buf)
          else let n = nat (hm_size h); packet_mac = take n (content buf); local_mac = take n (hm_mac h (drop n (content buf)))
          in if local_mac \<noteq> packet_mac then Some (False, buf)
             else (case buf_advance buf (hm_size h) of (False, _) \<Rightarrow> None | (True, b1) \<Rightarrow> Some (True, b1)))"

text \<open>The packet id, from the decrypted bytes or from the IV; the flag is false when it cannot be read.\<close>

definition v1_pin ::
  "cipher \<Rightarrow> byte list \<Rightarrow> buffer \<Rightarrow> data_options \<Rightarrow> (bool \<times> packet_id_net option \<times> buffer) option" where
  "v1_pin c iv w opt =
     (case ci_mode c of
        Mode_CBC \<Rightarrow>
          if packet_id_initialized (do_packet_id opt)
          then (case packet_id_read w (co_long_form (do_core opt)) of (ok, pin, w1) \<Rightarrow> Some (ok, Some pin, w1))
          else Some (True, None, w)
      | Mode_OFB_CFB \<Rightarrow>
          if \<not> packet_id_initialized (do_packet_id opt) then None
          else (case packet_id_read (mkbuf [] iv []) True of (ok, pin, _) \<Rightarrow> Some (ok, Some pin, w))
      | _ \<Rightarrow> None)"

definition v1_finish ::
  "time_t \<Rightarrow> packet_id_net option \<Rightarrow> buffer \<Rightarrow> buffer \<Rightarrow> data_options \<Rightarrow> (bool \<times> buffer \<times> data_options) option" where
  "v1_finish now pin buf work opt =
     (case pin of
        None \<Rightarrow> Some (True, work, opt)
      | Some p \<Rightarrow>
          (case crypto_check_replay now (do_core opt) p of
             None \<Rightarrow> None
           | Some (False, core1) \<Rightarrow> Some (False, buf\<lparr>blen := 0\<rparr>, opt\<lparr>do_core := core1\<rparr>)
           | Some (True, core1) \<Rightarrow> Some (True, work, opt\<lparr>do_core := core1\<rparr>)))"

definition openvpn_decrypt_v1 ::
  "time_t \<Rightarrow> frame \<Rightarrow> buffer \<Rightarrow> buffer \<Rightarrow> data_options \<Rightarrow> (bool \<times> buffer \<times> data_options) option" where
  "openvpn_decrypt_v1 now fr buf work opt =
     (if \<not> blen buf > 0 then Some (True, buf, opt)
      else let fail = (\<lambda>b. Some (False, b\<lparr>blen := 0\<rparr>, opt)) in
      case v1_check_hmac (cx_hmac (do_decrypt opt)) buf of
        None \<Rightarrow> None
      | Some (False, b1) \<Rightarrow> fail b1
      | Some (True, b1) \<Rightarrow>
          (case cx_cipher (do_decrypt opt) of
             Some c \<Rightarrow>
               (case buf_init work (frame_headroom fr FRAME_HEADROOM_MARKER_DECRYPT) of
                  (False, _) \<Rightarrow> None
                | (True, w0) \<Rightarrow>
                    if blen b1 < ci_iv_len c then fail b1
                    else let iv = take (nat (ci_iv_len c)) (content b1) in
                    case buf_advance b1 (ci_iv_len c) of
                      (False, _) \<Rightarrow> None
                    | (True, b2) \<Rightarrow>
                        if blen b2 < 1 \<or> \<not> ci_reset c iv \<or> \<not> buf_safe w0 (blen b2 + ci_block_size c) then fail b2
                        else (case ci_update c iv [] (content b2) of
                                None \<Rightarrow> fail b2
                              | Some out \<Rightarrow>
                                  (case out_append w0 out of
                                     (False, _) \<Rightarrow> None
                                   | (True, w1) \<Rightarrow>
                                       (case ci_final c iv [] (content b2) of
                                          None \<Rightarrow> fail b2
                                        | Some fin \<Rightarrow>
                                            (case out_append w1 fin of
                                               (False, _) \<Rightarrow> None
                                             | (True, w2) \<Rightarrow>
                                                 (case v1_pin c iv w2 opt of
                                                    None \<Rightarrow> None
                                                  | Some (False, _, _) \<Rightarrow> fail b2
                                                  | Some (True, pin, w3) \<Rightarrow> v1_finish now pin b2 w3 opt))))))
           | None \<Rightarrow>
               if packet_id_initialized (do_packet_id opt)
               then (case packet_id_read b1 (co_long_form (do_core opt)) of
                       (False, _, _) \<Rightarrow> fail b1
                     | (True, pin, w) \<Rightarrow> v1_finish now (if do_ignore_packet_id opt then None else Some pin) b1 w opt)
               else v1_finish now None b1 b1 opt))"

subsection \<open>The two entry points\<close>

definition cipher_kt_mode_aead :: "cipher option \<Rightarrow> bool" where
  "cipher_kt_mode_aead c \<longleftrightarrow> (case c of None \<Rightarrow> False | Some c \<Rightarrow> ci_mode c = Mode_AEAD)"

definition openvpn_encrypt ::
  "time_t \<Rightarrow> (int \<Rightarrow> byte list) \<Rightarrow> buffer \<Rightarrow> buffer \<Rightarrow> data_options option \<Rightarrow> (buffer \<times> data_options option) option" where
  "openvpn_encrypt now prng buf work opt =
     (case opt of
        None \<Rightarrow> Some (buf, None)
      | Some opt \<Rightarrow>
          if blen buf > 0
          then map_option (map_prod (\<lambda>b. b) Some)
                 (if cipher_kt_mode_aead (cx_cipher (do_encrypt opt))
                  then openvpn_encrypt_aead now buf work opt else openvpn_encrypt_v1 now prng buf work opt)
          else Some (buf, Some opt))"

definition openvpn_decrypt ::
  "time_t \<Rightarrow> frame \<Rightarrow> int \<Rightarrow> buffer \<Rightarrow> buffer \<Rightarrow> data_options option \<Rightarrow> (bool \<times> buffer \<times> data_options option) option" where
  "openvpn_decrypt now fr ad_len buf work opt =
     (case opt of
        None \<Rightarrow> Some (True, buf, None)
      | Some opt \<Rightarrow>
          if blen buf > 0
          then map_option (map_prod (\<lambda>b. b) (map_prod (\<lambda>b. b) Some))
                 (if cipher_kt_mode_aead (cx_cipher (do_decrypt opt))
                  then openvpn_decrypt_aead now fr ad_len buf work opt else openvpn_decrypt_v1 now fr buf work opt)
          else Some (True, buf, Some opt))"

subsection \<open>Room for the overhead\<close>

record key_type =
  kt_cipher :: "cipher option"
  kt_hmac_length :: int

definition crypto_adjust_frame_parameters :: "frame \<Rightarrow> key_type \<Rightarrow> bool \<Rightarrow> bool \<Rightarrow> frame" where
  "crypto_adjust_frame_parameters fr kt pid long_form =
     (let o0 = (if pid then packet_id_size long_form else 0);
          o1 = (case kt_cipher kt of
                  None \<Rightarrow> o0
                | Some c \<Rightarrow> o0 + ci_iv_len c + (if ci_mode c = Mode_AEAD then ci_tag_size c else 0) + ci_block_size c)
      in frame_add_to_extra_frame (o1 + kt_hmac_length kt) fr)"

definition crypto_max_overhead :: int where
  "crypto_max_overhead = packet_id_size True + OPENVPN_MAX_IV + 32 + max_int 64 16"

subsection \<open>A receiver and a stream of arbitrary packets\<close>

text \<open>
  \<open>aead_receive\<close> is one received datagram: \<open>hdr\<close> is what precedes the packet id (opcode and peer id),
  \<open>c\<close> the rest, \<open>room\<close> the size of the decryption buffer. What is delivered is recorded with the
  packet it came from.
\<close>

type_synonym delivered = "byte list \<times> byte list \<times> byte list"

definition work_buf :: "byte list \<Rightarrow> nat \<Rightarrow> buffer" where
  "work_buf hdr room = mkbuf [] hdr (replicate room 0)"

definition aead_receive ::
  "frame \<Rightarrow> nat \<Rightarrow> data_options \<times> delivered list \<Rightarrow> time_t \<times> byte list \<times> byte list
     \<Rightarrow> (data_options \<times> delivered list) option" where
  "aead_receive fr room st ev =
     (case ev of (now, hdr, c) \<Rightarrow>
        if c = [] then Some st
        else (case openvpn_decrypt now fr (int (length hdr)) (mkbuf hdr c []) (work_buf [] room) (Some (fst st)) of
                Some (True, w, Some opt) \<Rightarrow> Some (opt, snd st @ [(hdr, c, content w)])
              | Some (False, _, Some opt) \<Rightarrow> Some (opt, snd st)
              | _ \<Rightarrow> None))"

definition pkt_key :: "delivered \<Rightarrow> time_t \<times> u32" where
  "pkt_key d = (0, un_be32 (take 4 (fst (snd d))))"

definition receive_inv :: "cipher \<Rightarrow> byte list \<Rightarrow> data_options \<times> delivered list \<Rightarrow> bool" where
  "receive_inv d imp st \<longleftrightarrow> cx_cipher (do_decrypt (fst st)) = Some d \<and> cx_implicit_iv (do_decrypt (fst st)) = imp
     \<and> pid_inv (pid_rec (do_packet_id (fst st))) (set (map pkt_key (snd st)))
     \<and> distinct (map pkt_key (snd st))
     \<and> (\<forall>(hdr, c, m) \<in> set (snd st). aead_open d imp hdr c = Some m)"

definition datagram_ok :: "frame \<Rightarrow> nat \<Rightarrow> cipher \<Rightarrow> time_t \<times> byte list \<times> byte list \<Rightarrow> bool" where
  "datagram_ok fr room d ev \<longleftrightarrow> (case ev of (now, hdr, c) \<Rightarrow> now > SEQ_EXPIRED
     \<and> int (length hdr + length c) < BUF_SIZE_MAX
     \<and> frame_headroom fr FRAME_HEADROOM_MARKER_DECRYPT + int (length c) + ci_block_size d \<le> int room)"

definition room_ok :: "frame \<Rightarrow> nat \<Rightarrow> bool" where
  "room_ok fr room \<longleftrightarrow> 0 \<le> frame_headroom fr FRAME_HEADROOM_MARKER_DECRYPT \<and> int room < BUF_SIZE_MAX"

lemma fits_work_buf:
  assumes "room_ok fr room" "frame_headroom fr FRAME_HEADROOM_MARKER_DECRYPT + n \<le> int room"
  shows "fits_work fr n (work_buf [] room)"
proof -
  have "live (work_buf [] room)" using assms(1) by (simp add: work_buf_def room_ok_def small_def)
  then show ?thesis using assms by (simp add: fits_work_def room_ok_def) (simp add: work_buf_def mkbuf_def)
qed

lemma pid_inv_initialized: "pid_inv (pid_rec p) A \<Longrightarrow> packet_id_initialized p"
  by (simp add: pid_inv_def rec_wf_def packet_id_initialized_def)

interpretation receiver: machine "aead_receive fr room"
    "\<lambda>st. receive_inv d imp st \<and> decrypt_ok d \<and> int (length imp) = ci_iv_len d - 4 \<and> room_ok fr room"
    "datagram_ok fr room d" for fr room d imp
proof
  fix st :: "data_options \<times> delivered list" and ev :: "time_t \<times> byte list \<times> byte list"
  assume inv: "receive_inv d imp st \<and> decrypt_ok d \<and> int (length imp) = ci_iv_len d - 4 \<and> room_ok fr room" and ok: "datagram_ok fr room d ev"
  obtain now hdr c where ev: "ev = (now, hdr, c)" by (cases ev)
  obtain opt acc where st: "st = (opt, acc)" by (cases st)
  let ?A = "set (map pkt_key acc)" and ?pin = "\<lparr>net_id = un_be32 (take 4 c), net_time = 0\<rparr>"
  have i: "cx_cipher (do_decrypt opt) = Some d" "cx_implicit_iv (do_decrypt opt) = imp" "pid_inv (pid_rec (do_packet_id opt)) ?A"
    using inv by (simp_all add: receive_inv_def st)
  have aead: "cipher_kt_mode_aead (Some d)" using inv by (simp add: cipher_kt_mode_aead_def decrypt_ok_def)
  show "\<exists>t. aead_receive fr room st ev = Some t \<and> (receive_inv d imp t \<and> decrypt_ok d \<and> int (length imp) = ci_iv_len d - 4 \<and> room_ok fr room)"
  proof (cases "c = []")
    case True
    then show ?thesis using inv by (simp add: aead_receive_def ev)
  next
    case False
    have fw: "fits_work fr (int (length c) + ci_block_size d) (work_buf [] room)"
      using fits_work_buf inv ok by (simp add: datagram_ok_def ev)
    have sm: "small ([] @ hdr) c []" using ok by (simp add: datagram_ok_def ev small_def)
    have now: "now > SEQ_EXPIRED" using ok by (simp add: datagram_ok_def ev)
    note imp = inv [THEN conjunct2, THEN conjunct2, THEN conjunct1, folded i(2)]
    have run: "openvpn_decrypt now fr (int (length hdr)) (mkbuf hdr c []) (work_buf [] room) (Some opt)
        = map_option (map_prod (\<lambda>b. b) (map_prod (\<lambda>b. b) Some))
           (openvpn_decrypt_aead now fr (int (length hdr)) (mkbuf hdr c []) (work_buf [] room) opt)"
      using False aead by (simp add: openvpn_decrypt_def i(1) mkbuf_off)
    show ?thesis
    proof (cases rule: decrypt_aead_cases [OF i(1) _ imp pid_inv_initialized [OF i(3)] fw False sm, of now])
      case 1
      then show ?case using inv by simp
    next
      case (2 b)
      then show ?thesis using inv run False by (simp add: aead_receive_def ev st)
    next
      case (3 m w b)
      obtain acpt core1 where cr: "crypto_check_replay now (do_core opt) ?pin = Some (acpt, core1)"
          "pid_inv (pid_rec (co_packet_id core1)) (if acpt then insert (key ?pin) ?A else ?A)" "acpt \<longrightarrow> key ?pin \<notin> ?A"
        using crypto_check_replay_inv [OF i(3) now] by blast
      have k: "key ?pin = pkt_key (hdr, c, m)" by (simp add: key_def pkt_key_def)
      show ?thesis
        using 3 cr inv run False i(2) unfolding k
        by (cases acpt) (auto simp: aead_receive_def ev st receive_inv_def)
    qed
  qed
qed

text \<open>
  C6: What an AEAD receiver delivers is authentic and delivered once. Whatever datagrams arrive,
  in whatever order (forged, truncated, repeated, reordered), the receiver never fails an assertion;
  every delivered payload is what the library opened from a datagram whose tag it accepted under
  that datagram's own header and nonce; and no packet id is delivered twice.
\<close>

theorem aead_receiver_safe:
  assumes "packet_id_init sb tb = Some pid" "do_packet_id opt = pid"
    and "cx_cipher (do_decrypt opt) = Some d" "decrypt_ok d"
    and "int (length (cx_implicit_iv (do_decrypt opt))) = ci_iv_len d - 4"
    and "room_ok fr room" "list_all (datagram_ok fr room d) es"
  shows "\<exists>opt' acc. run (aead_receive fr room) (opt, []) es = Some (opt', acc)
     \<and> (\<forall>(hdr, c, m) \<in> set acc. aead_open d (cx_implicit_iv (do_decrypt opt)) hdr c = Some m)
     \<and> distinct (map pkt_key acc)"
proof -
  have "pid_inv (pid_rec pid) {}" using packet_id_init_wf [OF assms(1)] by (simp add: pid_inv_def)
  then have "receive_inv d (cx_implicit_iv (do_decrypt opt)) (opt, [])" using assms(2,3) by (simp add: receive_inv_def)
  then show ?thesis
    using receiver.run_total [where d = d and imp = "cx_implicit_iv (do_decrypt opt)" and fr = fr and room = room
      and s = "(opt, [])" and es = es] assms(4-7)
    by (auto simp: receive_inv_def)
qed

definition toy_aead :: cipher where
  "toy_aead = \<lparr>ci_mode = Mode_AEAD, ci_iv_len = 12, ci_block_size = 16, ci_tag_size = 16, ci_reset = (\<lambda>_. True),
     ci_update = (\<lambda>iv ad m. Some m), ci_final = (\<lambda>iv ad m. Some []),
     ci_tag = (\<lambda>iv ad m. replicate 16 (sum_list (iv @ ad @ m))),
     ci_final_check_tag = (\<lambda>iv ad ct tag. if tag = replicate 16 (sum_list (iv @ ad @ ct)) then Some [] else None)\<rparr>"

definition toy_options :: data_options where
  "toy_options = \<lparr>do_encrypt = \<lparr>cx_cipher = Some toy_aead, cx_hmac = None, cx_implicit_iv = replicate 8 7\<rparr>,
     do_decrypt = \<lparr>cx_cipher = Some toy_aead, cx_hmac = None, cx_implicit_iv = replicate 8 7\<rparr>,
     do_core = demo_options, do_ignore_packet_id = False\<rparr>"

definition flat_frame :: frame where
  "flat_frame = \<lparr>f_link_mtu = 1500, f_link_mtu_dynamic = 1500, f_extra_frame = 0, f_extra_buffer = 0,
     f_extra_tun = 0, f_extra_link = 0, f_align_flags = 0, f_align_adjust = 0\<rparr>"

lemma toy_aead_laws: "aead_pair toy_aead toy_aead" "decrypt_ok toy_aead"
  by (simp_all add: aead_pair_def decrypt_ok_def toy_aead_def OPENVPN_MIN_IV_def OPENVPN_MAX_IV_def split: if_splits)

lemma flat_room: "room_ok flat_frame 1000" "frame_headroom flat_frame FRAME_HEADROOM_MARKER_DECRYPT = 0"
  by (simp_all add: room_ok_def flat_frame_def frame_headroom_def FRAME_HEADROOM_BASE_def TUN_LINK_DELTA_def
      PAYLOAD_ALIGN_def Let_def BUF_SIZE_MAX_def)

lemma toy_init: "packet_id_init 4 15 = Some (do_packet_id toy_options)"
  by (simp add: toy_options_def demo_options_def packet_id_init_def MAX_SEQ_BACKTRACK_def MAX_TIME_BACKTRACK_def Let_def)

theorem aead_receiver_safe_witness:
  "\<exists>opt' acc. run (aead_receive flat_frame 1000) (toy_options, []) [(5, [9], [0, 0, 0, 1, 2]), (6, [9], replicate 30 0)] = Some (opt', acc)
     \<and> (\<forall>(hdr, c, m) \<in> set acc. aead_open toy_aead (cx_implicit_iv (do_decrypt toy_options)) hdr c = Some m)
     \<and> distinct (map pkt_key acc)"
  by (rule aead_receiver_safe [OF toy_init refl _ toy_aead_laws(2) _ flat_room(1)])
    (simp_all add: toy_options_def datagram_ok_def flat_room(2) SEQ_EXPIRED_def BUF_SIZE_MAX_def,
     simp_all add: toy_aead_def)

subsection \<open>A sender and a receiver\<close>

text \<open>
  One message over the channel, in order: the sender encrypts \<open>m\<close> behind \<open>hdr\<close>, the receiver gets
  the bytes. A message the sender cannot number (the packet id is exhausted) is not sent.
\<close>

definition channel_step ::
  "frame \<Rightarrow> byte list \<Rightarrow> nat \<Rightarrow> data_options \<times> data_options \<times> byte list list \<Rightarrow> time_t \<times> time_t \<times> byte list
     \<Rightarrow> (data_options \<times> data_options \<times> byte list list) option" where
  "channel_step fr hdr room st ev =
     (case st of (snd_opt, rcv_opt, del) \<Rightarrow> case ev of (t, u, m) \<Rightarrow>
        (case openvpn_encrypt t (\<lambda>n. replicate (nat n) 0) (mkbuf [] m []) (work_buf hdr room) (Some snd_opt) of
           Some (w, Some snd_opt') \<Rightarrow>
             if blen w = 0 then Some (snd_opt', rcv_opt, del)
             else (case openvpn_decrypt u fr (int (length hdr)) (mkbuf hdr (drop (length hdr) (content w)) [])
                          (work_buf [] room) (Some rcv_opt) of
                     Some (True, x, Some rcv_opt') \<Rightarrow> Some (snd_opt', rcv_opt', del @ [content x])
                   | _ \<Rightarrow> None)
         | _ \<Rightarrow> None))"

definition channel_inv :: "cipher \<Rightarrow> cipher \<Rightarrow> data_options \<Rightarrow> data_options \<Rightarrow> bool" where
  "channel_inv e d s r \<longleftrightarrow> cx_cipher (do_encrypt s) = Some e \<and> cx_cipher (do_decrypt r) = Some d
     \<and> cx_implicit_iv (do_decrypt r) = cx_implicit_iv (do_encrypt s)
     \<and> int (length (cx_implicit_iv (do_encrypt s))) = ci_iv_len e - 4
     \<and> packet_id_initialized (do_packet_id s)
     \<and> in_sync False (pid_send (do_packet_id s)) (pid_rec (do_packet_id r))
     \<and> (\<exists>A. pid_inv (pid_rec (do_packet_id r)) A)"

definition message_ok :: "frame \<Rightarrow> byte list \<Rightarrow> nat \<Rightarrow> time_t \<times> time_t \<times> byte list \<Rightarrow> bool" where
  "message_ok fr hdr room ev \<longleftrightarrow> (case ev of (t, u, m) \<Rightarrow> 0 < t \<and> SEQ_EXPIRED < u \<and> m \<noteq> []
     \<and> frame_headroom fr FRAME_HEADROOM_MARKER_DECRYPT + int (length hdr + length m) + 200 \<le> int room
     \<and> int (length hdr + room) < BUF_SIZE_MAX)"

lemma aead_packet_length:
  assumes "aead_pair e d" "cx_cipher cx = Some e"
  shows "length m \<le> length (aead_packet cx hdr n m)" "length (aead_packet cx hdr n m) \<le> 132 + length m"
    "take 4 (aead_packet cx hdr n m) = be32 n"
proof -
  let ?iv = "be32 n @ cx_implicit_iv cx" and ?ad = "hdr @ be32 n"
  obtain x y where "ci_update e ?iv ?ad m = Some x" "ci_final e ?iv ?ad m = Some y" "length m \<le> length (x @ y)"
      "length (x @ y) \<le> length m + nat (ci_block_size e)" "length (ci_tag e ?iv ?ad m) = nat (ci_tag_size e)"
    using assms(1) unfolding aead_pair_def by metis
  moreover have "ci_block_size e \<le> 64" "ci_tag_size e \<le> 64" using assms(1) by (simp_all add: aead_pair_def)
  ultimately show "length m \<le> length (aead_packet cx hdr n m)" "length (aead_packet cx hdr n m) \<le> 132 + length m"
    "take 4 (aead_packet cx hdr n m) = be32 n"
    using assms(2) by (simp_all add: aead_packet_def Let_def sealed_def)
qed

lemma channel_step_delivers:
  assumes inv: "channel_inv e d s r" and laws: "aead_pair e d" "decrypt_ok d" and ok: "message_ok fr hdr room (t, u, m)"
    and pid: "packet_id_send_update t (pid_send (do_packet_id s)) False = (True, ps)" and room: "room_ok fr room"
  shows "\<exists>r'. channel_step fr hdr room (s, r, del) (t, u, m) = Some (set_send ps s, r', del @ [m])
     \<and> channel_inv e d (set_send ps s) r'"
proof -
  let ?p = "aead_packet (do_encrypt s) hdr (send_id ps) m"
  have i: "cx_cipher (do_encrypt s) = Some e" "cx_cipher (do_decrypt r) = Some d"
      "cx_implicit_iv (do_decrypt r) = cx_implicit_iv (do_encrypt s)"
      "int (length (cx_implicit_iv (do_encrypt s))) = ci_iv_len e - 4" "packet_id_initialized (do_packet_id s)"
      "in_sync False (pid_send (do_packet_id s)) (pid_rec (do_packet_id r))"
    using inv by (simp_all add: channel_inv_def)
  obtain A where A: "pid_inv (pid_rec (do_packet_id r)) A" using inv by (auto simp: channel_inv_def)
  have o: "0 < t" "SEQ_EXPIRED < u" "m \<noteq> []" "int (length hdr + room) < BUF_SIZE_MAX"
      "frame_headroom fr FRAME_HEADROOM_MARKER_DECRYPT + int (length hdr + length m) + 200 \<le> int room"
    using ok by (simp_all add: message_ok_def)
  have hr: "0 \<le> frame_headroom fr FRAME_HEADROOM_MARKER_DECRYPT" using room by (simp add: room_ok_def)
  have len: "length m \<le> length ?p" "length ?p \<le> 132 + length m" "take 4 ?p = be32 (send_id ps)"
    using aead_packet_length [OF laws(1) i(1)] by auto
  have pne: "?p \<noteq> []" using len(1) o(3) by auto
  have modes: "cipher_kt_mode_aead (Some e)" "cipher_kt_mode_aead (Some d)" and sz: "ci_iv_len d = ci_iv_len e" "ci_block_size d \<le> 64"
    using laws(1) by (simp_all add: aead_pair_def cipher_kt_mode_aead_def)
  have small: "small [] hdr (replicate room 0)" "small [] m []" "68 + length m + 64 \<le> length (replicate room (0::byte))"
    using o(4,5) hr by (simp_all add: small_def)
  obtain w where w: "openvpn_encrypt_aead t (mkbuf [] m []) (mkbuf [] hdr (replicate room 0)) s = Some (w, set_send ps s)"
      "w = mkbuf [] (hdr @ ?p) (drop (length ?p) (replicate room 0))"
    using encrypt_aead_spec [OF laws(1) i(1,4,5) pid small(1,3,2)] by blast
  have enc: "openvpn_encrypt t (\<lambda>n. replicate (nat n) 0) (mkbuf [] m []) (work_buf hdr room) (Some s) = Some (w, Some (set_send ps s))"
    using o(3) modes(1) w(1) by (simp add: openvpn_encrypt_def i(1) mkbuf_off work_buf_def)
  have "0 < int (length ?p)" using pne by simp
  moreover have "blen w = int (length hdr) + int (length ?p)" using w(2) by (simp add: mkbuf_off)
  ultimately have wl: "blen w \<noteq> 0" by linarith
  have wc: "drop (length hdr) (content w) = ?p" using w(2) by simp
  have fw: "fits_work fr (int (length ?p) + ci_block_size d) (work_buf [] room)"
    by (rule fits_work_buf [OF room]) (use o(5) len(2) sz(2) in linarith)
  have sm: "small ([] @ hdr) ?p []" using o(4,5) hr len(2) by (simp add: small_def)
  have imp: "int (length (cx_implicit_iv (do_decrypt r))) = ci_iv_len d - 4" using i(3,4) sz(1) by simp
  let ?pin = "\<lparr>net_id = un_be32 (take 4 ?p), net_time = 0\<rparr>"
  have pin: "?pin = on_wire False ps" by (simp add: len(3) on_wire_def)
  obtain core1 where core: "crypto_check_replay u (do_core r) ?pin = Some (True, core1)"
      "pid_inv (pid_rec (co_packet_id core1)) (insert (key ?pin) A)"
      "rec_time (pid_rec (co_packet_id core1)) = 0" "rec_id (pid_rec (co_packet_id core1)) = send_id ps"
    using check_replay_forward [OF A refl o(2), of "on_wire False ps"] send_update_next [OF i(6) pid o(1)] unfolding pin
    by (auto simp: on_wire_def)
  have op: "aead_open d (cx_implicit_iv (do_decrypt r)) hdr ?p = Some m"
    using open_sealed [OF laws(1) i(1) o(3)] i(3) by simp
  have run: "openvpn_decrypt u fr (int (length hdr)) (mkbuf hdr ?p []) (work_buf [] room) (Some r)
      = map_option (map_prod (\<lambda>b. b) (map_prod (\<lambda>b. b) Some))
         (openvpn_decrypt_aead u fr (int (length hdr)) (mkbuf hdr ?p []) (work_buf [] room) r)"
    using pne modes(2) by (simp add: openvpn_decrypt_def i(2) mkbuf_off)
  have "\<exists>x. openvpn_decrypt u fr (int (length hdr)) (mkbuf hdr ?p []) (work_buf [] room) (Some r)
      = Some (True, x, Some (r\<lparr>do_core := core1\<rparr>)) \<and> content x = m"
  proof (cases rule: decrypt_aead_cases [OF i(2) laws(2) imp pid_inv_initialized [OF A] fw pne sm, of u])
    case (1 b)
    then show ?thesis using op by simp
  next
    case (2 m' x b)
    then have "content x = m" using op by simp
    then show ?thesis using 2(5) run core(1) by auto
  qed
  then obtain x where x: "openvpn_decrypt u fr (int (length hdr)) (mkbuf hdr ?p []) (work_buf [] room) (Some r)
      = Some (True, x, Some (r\<lparr>do_core := core1\<rparr>))" "content x = m" by blast
  have "channel_step fr hdr room (s, r, del) (t, u, m) = Some (set_send ps s, r\<lparr>do_core := core1\<rparr>, del @ [m])"
    using enc wl wc x by (simp add: channel_step_def)
  moreover have "channel_inv e d (set_send ps s) (r\<lparr>do_core := core1\<rparr>)"
    using i core send_update_next [OF i(6) pid o(1)]
    by (auto simp: channel_inv_def set_send_def in_sync_def packet_id_initialized_def intro: exI)
  ultimately show ?thesis by blast
qed

lemma send_update_short:
  "send_id p \<noteq> PACKET_ID_MAX \<Longrightarrow>
     \<exists>q. packet_id_send_update now p False = (True, q) \<and> send_id q = send_id p + 1"
  by (simp add: packet_id_send_update_def Let_def)

lemma channel_delivers_from:
  assumes "channel_inv e d s r" "aead_pair e d" "decrypt_ok d" "room_ok fr room"
    and "list_all (message_ok fr hdr room) es" "unat (send_id (pid_send (do_packet_id s))) + length es \<le> unat PACKET_ID_MAX"
  shows "\<exists>s' r'. run (channel_step fr hdr room) (s, r, del) es = Some (s', r', del @ map (\<lambda>(t, u, m). m) es)"
  using assms(1,5,6)
proof (induction es arbitrary: s r del)
  case Nil
  then show ?case by simp
next
  case (Cons ev es)
  obtain t u m where ev: "ev = (t, u, m)" by (cases ev)
  let ?i = "send_id (pid_send (do_packet_id s))"
  have ne: "?i \<noteq> PACKET_ID_MAX" using Cons.prems(3) by auto
  then obtain ps where ps: "packet_id_send_update t (pid_send (do_packet_id s)) False = (True, ps)" "send_id ps = ?i + 1"
    using send_update_short by blast
  have "?i + 1 \<noteq> 0"
  proof
    assume "?i + 1 = 0"
    then have "?i = - 1" by (metis add_eq_0_iff2)
    with ne show False by (simp add: PACKET_ID_MAX_def)
  qed
  then have "unat (send_id ps) = Suc (unat ?i)" using ps(2) unatSuc [of ?i] by (simp add: add.commute)
  moreover have "pid_send (do_packet_id (set_send ps s)) = ps" by (simp add: set_send_def)
  ultimately have b: "unat (send_id (pid_send (do_packet_id (set_send ps s)))) + length es \<le> unat PACKET_ID_MAX"
    using Cons.prems(3) by simp
  obtain r1 where r1: "channel_step fr hdr room (s, r, del) (t, u, m) = Some (set_send ps s, r1, del @ [m])"
      "channel_inv e d (set_send ps s) r1"
    using channel_step_delivers [OF Cons.prems(1) assms(2,3) _ ps(1) assms(4), of hdr u m del] Cons.prems(2) ev by auto
  with Cons.IH [OF r1(2) _ b, of "del @ [m]"] Cons.prems(2) show ?case by (simp add: ev)
qed

text \<open>
  C3: A data channel with an AEAD cipher delivers what was sent. A fresh sender and a fresh receiver
  whose keys match (any replay window, also the strict mode), up to 2^32 - 1 messages handed over in
  order: the sender never stops, the receiver accepts every packet, and the delivered payloads are
  the messages, in order and unchanged.
\<close>

theorem aead_channel_delivers:
  assumes "packet_id_init sb tb = Some pid" "do_packet_id s = pid" "packet_id_init sb' tb' = Some pid'" "do_packet_id r = pid'"
    and "cx_cipher (do_encrypt s) = Some e" "cx_cipher (do_decrypt r) = Some d" "aead_pair e d" "decrypt_ok d"
    and "cx_implicit_iv (do_decrypt r) = cx_implicit_iv (do_encrypt s)"
    and "int (length (cx_implicit_iv (do_encrypt s))) = ci_iv_len e - 4"
    and "room_ok fr room" "list_all (message_ok fr hdr room) es" "length es < 2 ^ 32"
  shows "\<exists>s' r'. run (channel_step fr hdr room) (s, r, []) es = Some (s', r', map (\<lambda>(t, u, m). m) es)"
proof -
  have "packet_id_initialized pid" using packet_id_init_wf [OF assms(1)] by (simp add: rec_wf_def packet_id_initialized_def)
  then have "channel_inv e d s r"
    using assms packet_id_init_wf [OF assms(3)] packet_id_init_fields [OF assms(1)] packet_id_init_fields [OF assms(3)]
    by (auto simp: channel_inv_def in_sync_def pid_inv_def intro!: exI [of _ "{}"])
  moreover have "unat (send_id (pid_send (do_packet_id s))) + length es \<le> unat PACKET_ID_MAX"
    using packet_id_init_fields [OF assms(1)] assms(2,13) by (simp add: PACKET_ID_MAX_def)
  ultimately show ?thesis using channel_delivers_from [OF _ assms(7,8,11,12), of s r "[]"] by simp
qed

theorem aead_channel_delivers_witness:
  "\<exists>s' r'. run (channel_step flat_frame [48, 0, 0, 1] 1000) (toy_options, toy_options, []) [(5, 5, [1, 2, 3]), (6, 9, [4])]
     = Some (s', r', map (\<lambda>(t, u, m). m) [(5 :: time_t, 5 :: time_t, [1, 2, 3]), (6, 9, [4])])"
  by (rule aead_channel_delivers [OF toy_init refl toy_init refl _ _ toy_aead_laws _ _ flat_room(1)])
    (simp_all add: toy_options_def message_ok_def flat_room(2) SEQ_EXPIRED_def BUF_SIZE_MAX_def,
     simp_all add: toy_aead_def)

end
