(* ===== verification/Cbc_Crypto.thy ===== *)
theory Cbc_Crypto
  imports Data_Crypto
begin

text \<open>
  The encrypt-then-MAC format of \<^verbatim>\<open>openvpn_encrypt_v1\<close> and \<^verbatim>\<open>openvpn_decrypt_v1\<close>: what a
  CBC packet with an HMAC looks like, that the receiver gets the plaintext back, and that a packet
  without its MAC never reaches the cipher.
\<close>

definition cbc_pair :: "cipher \<Rightarrow> cipher \<Rightarrow> bool" where
  "cbc_pair e d \<longleftrightarrow> ci_mode e = Mode_CBC \<and> ci_mode d = Mode_CBC
     \<and> 0 \<le> ci_iv_len e \<and> ci_iv_len e \<le> OPENVPN_MAX_IV \<and> ci_iv_len d = ci_iv_len e
     \<and> 0 \<le> ci_block_size e \<and> ci_block_size e \<le> 32 \<and> 0 \<le> ci_block_size d \<and> ci_block_size d \<le> 32
     \<and> (\<forall>iv. ci_reset e iv \<and> ci_reset d iv)
     \<and> (\<forall>iv m. \<exists>x y. ci_update e iv [] m = Some x \<and> ci_final e iv [] m = Some y
          \<and> int (length y) = ci_iv_len e
          \<and> x @ y \<noteq> [] \<and> length (x @ y) \<le> length m + nat (ci_block_size e)
          \<and> (\<exists>u v. ci_update d iv [] (x @ y) = Some u \<and> ci_final d iv [] (x @ y) = Some v \<and> u @ v = m))"

definition hmac_law :: "hmac \<Rightarrow> bool" where
  "hmac_law h \<longleftrightarrow> 0 \<le> hm_size h \<and> hm_size h \<le> 64 \<and> (\<forall>bs. int (length (hm_mac h bs)) = hm_size h)"

definition pid_bytes :: "bool \<Rightarrow> packet_id_send \<Rightarrow> byte list" where
  "pid_bytes long_form s = be32 (send_id s) @ (if long_form then be32 (word_of_int (send_time s)) else [])"

definition cbc_packet :: "crypt_ctx \<Rightarrow> byte list \<Rightarrow> byte list \<Rightarrow> byte list" where
  "cbc_packet cx iv m =
     (let body = iv @ sealed (the (cx_cipher cx)) iv [] m in hm_mac (the (cx_hmac cx)) body @ body)"

lemma packet_id_prepend_mkbuf:
  assumes "packet_id_send_update now s long_form = (True, s')" "8 \<le> length pre"
  shows "\<exists>pre'. packet_id_write now s (mkbuf pre c post) long_form True = (True, s', mkbuf pre' (pid_bytes long_form s' @ c) post)
     \<and> length pre' \<le> length pre"
  using assms by (auto simp: packet_id_write_def Let_def buf_write_prepend_mkbuf pid_bytes_def)

lemma packet_id_read_bytes:
  "packet_id_read (mkbuf pre (pid_bytes long_form s @ c) post) long_form =
     (True, \<lparr>net_id = send_id s, net_time = (if long_form then uint (word_of_int (send_time s) :: u32) else 0)\<rparr>,
      mkbuf (pre @ pid_bytes long_form s) c post)"
  by (simp add: packet_id_read_def buf_read_mkbuf pid_bytes_def)

lemma encrypt_v1_cbc:
  assumes e: "cbc_pair e d" "cx_cipher (do_encrypt opt) = Some e" "cx_hmac (do_encrypt opt) = Some h" "hmac_law h"
    and prng: "int (length (prng (ci_iv_len e))) = ci_iv_len e"
    and pid: "packet_id_initialized (do_packet_id opt)"
      "packet_id_send_update now (pid_send (do_packet_id opt)) (co_long_form (do_core opt)) = (True, s)"
    and room: "small wp hdr wq" "64 + 16 + 8 + length m + 32 \<le> length wq" "8 \<le> length bp" "m \<noteq> []"
  shows "\<exists>w. openvpn_encrypt_v1 now prng (mkbuf bp m bq) (mkbuf wp hdr wq) opt = Some (w, set_send s opt)
     \<and> content w = hdr @ cbc_packet (do_encrypt opt) (prng (ci_iv_len e)) (pid_bytes (co_long_form (do_core opt)) s @ m)"
proof -
  let ?iv = "prng (ci_iv_len e)" and ?p = "pid_bytes (co_long_form (do_core opt)) s @ m" and ?n = "nat (hm_size h)"
  obtain x y where xy: "ci_update e ?iv [] ?p = Some x" "ci_final e ?iv [] ?p = Some y" "int (length y) = ci_iv_len e"
      "length (x @ y) \<le> length ?p + nat (ci_block_size e)"
    using e(1) unfolding cbc_pair_def by metis
  have c: "ci_mode e = Mode_CBC" "ci_reset e ?iv" "0 \<le> ci_block_size e" "ci_block_size e \<le> 32" "ci_iv_len e \<le> OPENVPN_MAX_IV"
    using e(1) by (simp_all add: cbc_pair_def)
  have h: "int ?n = hm_size h" "?n \<le> 64" using e(4) unfolding hmac_law_def by linarith+
  have hl: "length (hm_mac h bs) = ?n" for bs using e(4) unfolding hmac_law_def by (metis nat_int)
  have il: "length ?iv \<le> 16" using prng c(5) by (simp add: OPENVPN_MAX_IV_def)
  have pl: "length ?p \<le> 8 + length m" by (simp add: pid_bytes_def)
  have xl: "length x + length y \<le> 8 + length m + 32" using xy(4) pl c(3,4) unfolding length_append by linarith
  obtain bp' where 1: "packet_id_write now (pid_send (do_packet_id opt)) (mkbuf bp m bq) (co_long_form (do_core opt)) True
      = (True, s, mkbuf bp' ?p bq)"
    using packet_id_prepend_mkbuf [OF pid(2) room(3)] by blast
  have iv: "v1_iv now prng e (mkbuf bp m bq) opt = Some (True, ?iv, mkbuf bp' ?p bq, set_send s opt)"
    using c(1) pid(1) 1 by (simp add: v1_iv_def)
  have 2: "buf_write_alloc (mkbuf wp hdr wq) (hm_size h)
      = (Some (int (length wp + length hdr)), mkbuf wp (hdr @ take ?n wq) (drop ?n wq))"
    using buf_write_alloc_mkbuf [OF room(1), of ?n] h(1,2) room(2) by simp
  let ?w1 = "mkbuf wp (hdr @ take ?n wq) (drop ?n wq)"
  have s1: "small wp (hdr @ take ?n wq) (drop ?n wq)" using room(1,2) h(2) by (simp add: small_def)
  have 3: "buf_write ?w1 ?iv = (True, mkbuf wp ((hdr @ take ?n wq) @ ?iv) (drop (length ?iv) (drop ?n wq)))"
    using s1 il h(2) room(2) by (simp add: buf_write_mkbuf)
  have s2: "small wp ((hdr @ take ?n wq) @ ?iv) (drop (length ?iv) (drop ?n wq))"
    using s1 il h(2) room(2) by (simp add: small_def)
  have 4: "buf_safe (mkbuf wp ((hdr @ take ?n wq) @ ?iv) (drop (length ?iv) (drop ?n wq))) (blen (mkbuf bp' ?p bq) + ci_block_size e)"
    by (rule buf_safe_mkbuf [OF s2]) (use c(3,4) il h(2) room(2) pl in \<open>simp_all add: mkbuf_off\<close>, linarith)
  have 5: "out_append (mkbuf wp ((hdr @ take ?n wq) @ ?iv) (drop (length ?iv) (drop ?n wq))) x
      = (True, mkbuf wp (((hdr @ take ?n wq) @ ?iv) @ x) (drop (length x) (drop (length ?iv) (drop ?n wq))))"
    by (rule out_append_mkbuf [OF s2]) (use xl il h(2) room(2) in simp)
  have s3: "small wp (((hdr @ take ?n wq) @ ?iv) @ x) (drop (length x) (drop (length ?iv) (drop ?n wq)))"
    using s2 xl il h(2) room(2) by (simp add: small_def)
  let ?q = "drop (length y) (drop (length x) (drop (length ?iv) (drop ?n wq)))"
  have 6: "out_append (mkbuf wp (((hdr @ take ?n wq) @ ?iv) @ x) (drop (length x) (drop (length ?iv) (drop ?n wq)))) y
      = (True, mkbuf wp ((((hdr @ take ?n wq) @ ?iv) @ x) @ y) ?q)"
    by (rule out_append_mkbuf [OF s3]) (use xl il h(2) room(2) in simp)
  let ?body = "?iv @ x @ y" and ?w4 = "mkbuf wp ((((hdr @ take ?n wq) @ ?iv) @ x) @ y) ?q"
  have tk: "length (take ?n wq) = ?n" using room(2) h(2) by simp
  have "mem_read (block ?w4) (nat (int (length wp + length hdr + ?n))) (nat (boff ?w4 + blen ?w4 - int (length wp + length hdr + ?n))) = ?body"
    using tk by (simp add: mem_read_def block_def mkbuf_def nat_int_add)
  then have 7: "put_mac (Some h) (Some (int (length wp + length hdr), boff ?w1 + blen ?w1)) ?w4
      = poke ?w4 (int (length wp + length hdr)) (hm_mac h ?body)"
    using tk by (simp add: put_mac_def mkbuf_off add.assoc)
  have 8: "poke ?w4 (int (length wp + length hdr)) (hm_mac h ?body) = mkbuf wp (hdr @ hm_mac h ?body @ ?body) ?q"
    by (rule mkbuf_eqI) (use tk hl in \<open>simp_all add: poke_def mkbuf_def mem_write_def\<close>)
  have "0 < blen (mkbuf bp m bq)" using room(4) by (simp add: mkbuf_off)
  then have "openvpn_encrypt_v1 now prng (mkbuf bp m bq) (mkbuf wp hdr wq) opt
      = Some (mkbuf wp (hdr @ hm_mac h ?body @ ?body) ?q, set_send s opt)"
    unfolding openvpn_encrypt_v1_def
    by (simp only: e(2,3) iv 2 3 4 5 6 7 8 c(2) xy(1,2,3) content_mkbuf option.case prod.case bool.case Let_def simp_thms if_True if_False)
  moreover have "cbc_packet (do_encrypt opt) ?iv ?p = hm_mac h ?body @ ?body"
    using e(2,3) xy by (simp add: cbc_packet_def sealed_def Let_def)
  ultimately show ?thesis by simp
qed

definition wire_pid :: "bool \<Rightarrow> packet_id_send \<Rightarrow> packet_id_net" where
  "wire_pid long_form s =
     \<lparr>net_id = send_id s, net_time = (if long_form then uint (word_of_int (send_time s) :: u32) else 0)\<rparr>"

lemma check_hmac_good:
  assumes "hmac_law h"
  shows "v1_check_hmac (Some h) (mkbuf pre (hm_mac h body @ body) post) = Some (True, mkbuf (pre @ hm_mac h body) body post)"
proof -
  have "hm_size h = int (length (hm_mac h body))" using assms by (simp add: hmac_law_def)
  then show ?thesis by (simp add: v1_check_hmac_def mkbuf_off buf_advance_mkbuf)
qed

lemma decrypt_v1_cbc:
  assumes e: "cbc_pair e d" "cx_cipher cx = Some e" "cx_hmac cx = Some h" "hmac_law h"
    and r: "cx_cipher (do_decrypt opt) = Some d" "cx_hmac (do_decrypt opt) = Some h" "packet_id_initialized (do_packet_id opt)"
    and iv: "int (length iv) = ci_iv_len e" and long: "long_form = co_long_form (do_core opt)"
    and replay: "crypto_check_replay u (do_core opt) (wire_pid long_form s) = Some (True, core1)"
    and work: "fits_work fr (int (length m) + 72) work"
  shows "\<exists>x. openvpn_decrypt_v1 u fr (mkbuf pre (cbc_packet cx iv (pid_bytes long_form s @ m)) post) work opt
      = Some (True, x, opt\<lparr>do_core := core1\<rparr>) \<and> content x = m"
proof -
  let ?p = "pid_bytes long_form s @ m" and ?h = "frame_headroom fr FRAME_HEADROOM_MARKER_DECRYPT"
  obtain x y a b where xy: "ci_update e iv [] ?p = Some x" "ci_final e iv [] ?p = Some y" "x @ y \<noteq> []"
      "length (x @ y) \<le> length ?p + nat (ci_block_size e)"
      "ci_update d iv [] (x @ y) = Some a" "ci_final d iv [] (x @ y) = Some b" "a @ b = ?p"
    using e(1) unfolding cbc_pair_def by metis
  have c: "ci_mode d = Mode_CBC" "ci_reset d iv" "0 \<le> ci_block_size d" "ci_block_size d \<le> 32" "ci_block_size e \<le> 32"
      "ci_iv_len d = int (length iv)" "0 \<le> ci_block_size e"
    using e(1) iv by (simp_all add: cbc_pair_def)
  let ?ct = "x @ y"
  have pl: "length ?p \<le> 8 + length m" by (simp add: pid_bytes_def)
  have cl: "length ?ct \<le> 40 + length m" using xy(4) pl c(5,7) by linarith
  have al: "length a + length b \<le> 8 + length m" using xy(7) pl by (metis length_append)
  have pkt: "cbc_packet cx iv ?p = hm_mac h (iv @ ?ct) @ iv @ ?ct"
    using e(2,3) xy by (simp add: cbc_packet_def sealed_def Let_def)
  let ?b1 = "mkbuf (pre @ hm_mac h (iv @ ?ct)) (iv @ ?ct) post" and ?b2 = "mkbuf ((pre @ hm_mac h (iv @ ?ct)) @ iv) ?ct post"
  have 0: "v1_check_hmac (Some h) (mkbuf pre (cbc_packet cx iv ?p) post) = Some (True, ?b1)"
    unfolding pkt by (rule check_hmac_good [OF e(4)])
  obtain p0 c0 q0 where w: "work = mkbuf p0 c0 q0" "small p0 c0 q0" using work by (auto simp: fits_work_def elim: live_split)
  define blk where "blk = p0 @ c0 @ q0"
  have blk: "int (length blk) = bcap work" "int (length blk) < BUF_SIZE_MAX" using w by (simp_all add: blk_def mkbuf_def small_def)
  define q where "q = drop (nat ?h) blk"
  have room: "int (length m) + 72 \<le> int (length q)" "0 \<le> ?h" "?h \<le> bcap work"
    using work blk unfolding fits_work_def q_def length_drop by linarith+
  have 1: "buf_init work ?h = (True, mkbuf (take (nat ?h) blk) [] q)"
    using room(2,3) blk w(1) by (simp add: buf_init_mkbuf blk_def q_def)
  have s0: "small (take (nat ?h) blk) [] q" using blk by (simp add: small_def q_def)
  have 2: "buf_advance ?b1 (ci_iv_len d) = (True, ?b2)" by (simp add: buf_advance_mkbuf c(6))
  have 3: "\<not> blen ?b1 < ci_iv_len d" "take (nat (ci_iv_len d)) (iv @ ?ct) = iv" by (simp_all add: c(6) mkbuf_off)
  have "length ?ct \<noteq> 0" using xy(3) by (metis length_0_conv)
  then have 4: "\<not> blen ?b2 < 1" unfolding mkbuf_off by linarith
  have b2: "blen ?b2 = int (length ?ct)" by (simp add: mkbuf_off)
  have 5: "buf_safe (mkbuf (take (nat ?h) blk) [] q) (blen ?b2 + ci_block_size d)"
    by (rule buf_safe_mkbuf [OF s0]) (use b2 cl c(3,4) room(1) in linarith)+
  have 6: "out_append (mkbuf (take (nat ?h) blk) [] q) a = (True, mkbuf (take (nat ?h) blk) a (drop (length a) q))"
    using out_append_mkbuf [OF s0, of a] al room(1) by simp
  have s1: "small (take (nat ?h) blk) a (drop (length a) q)" using s0 al room(1) by (simp add: small_def)
  have 7: "out_append (mkbuf (take (nat ?h) blk) a (drop (length a) q)) b
      = (True, mkbuf (take (nat ?h) blk) ?p (drop (length b) (drop (length a) q)))"
    using out_append_mkbuf [OF s1, of b] al room(1) xy(7) by simp
  have 8: "v1_pin d iv (mkbuf (take (nat ?h) blk) ?p (drop (length b) (drop (length a) q))) opt
      = Some (True, Some (wire_pid long_form s), mkbuf (take (nat ?h) blk @ pid_bytes long_form s) m (drop (length b) (drop (length a) q)))"
    using c(1) r(3) by (simp add: v1_pin_def packet_id_read_bytes wire_pid_def flip: long)
  have "length (iv @ ?ct) > 0" using xy(3) by auto
  then have 9: "0 < blen (mkbuf pre (cbc_packet cx iv ?p) post)" unfolding pkt mkbuf_off length_append by linarith
  have ne: "\<not> \<not> 0 < blen (mkbuf pre (cbc_packet cx iv ?p) post)" using 9 by simp
  have "openvpn_decrypt_v1 u fr (mkbuf pre (cbc_packet cx iv ?p) post) work opt
      = Some (True, mkbuf (take (nat ?h) blk @ pid_bytes long_form s) m (drop (length b) (drop (length a) q)), opt\<lparr>do_core := core1\<rparr>)"
    unfolding openvpn_decrypt_v1_def v1_finish_def
    using ne by (simp only: r(1,2) 0 1 2 3 4 5 6 7 8 c(2) xy(5,6) replay content_mkbuf option.case prod.case bool.case Let_def simp_thms if_True if_False)
  then show ?thesis by simp
qed

text \<open>
  C29: The encrypt-then-MAC format round-trips. What a CBC and HMAC sender produces for a message is
  the header it was given, the MAC, the IV and the ciphertext; a receiver with the same keys, whose
  replay check accepts the packet id, gets back exactly the message.
\<close>

theorem cbc_packet_roundtrip:
  assumes "cbc_pair e d" "hmac_law h"
    and "cx_cipher (do_encrypt sopt) = Some e" "cx_hmac (do_encrypt sopt) = Some h" "packet_id_initialized (do_packet_id sopt)"
    and "cx_cipher (do_decrypt ropt) = Some d" "cx_hmac (do_decrypt ropt) = Some h" "packet_id_initialized (do_packet_id ropt)"
    and "co_long_form (do_core ropt) = co_long_form (do_core sopt)" "int (length (prng (ci_iv_len e))) = ci_iv_len e"
    and "packet_id_send_update now (pid_send (do_packet_id sopt)) (co_long_form (do_core sopt)) = (True, s)"
    and "crypto_check_replay u (do_core ropt) (wire_pid (co_long_form (do_core sopt)) s) = Some (True, core1)"
    and "small wp hdr wq" "120 + length m \<le> length wq" "8 \<le> length bp" "m \<noteq> []"
    and "fits_work fr (int (length m) + 72) work"
  shows "\<exists>w x. openvpn_encrypt now prng (mkbuf bp m bq) (mkbuf wp hdr wq) (Some sopt) = Some (w, Some (set_send s sopt))
     \<and> (\<exists>c. content w = hdr @ c
          \<and> openvpn_decrypt u fr 0 (mkbuf pre c post) work (Some ropt) = Some (True, x, Some (ropt\<lparr>do_core := core1\<rparr>))
          \<and> content x = m)"
proof -
  let ?l = "co_long_form (do_core sopt)"
  let ?c = "cbc_packet (do_encrypt sopt) (prng (ci_iv_len e)) (pid_bytes ?l s @ m)"
  have modes: "ci_mode e = Mode_CBC" "ci_mode d = Mode_CBC" using assms(1) by (simp_all add: cbc_pair_def)
  obtain w where w: "openvpn_encrypt_v1 now prng (mkbuf bp m bq) (mkbuf wp hdr wq) sopt = Some (w, set_send s sopt)" "content w = hdr @ ?c"
    using encrypt_v1_cbc [where prng = prng and m = m and bp = bp and bq = bq, OF assms(1,3,4,2,10,5,11,13)] assms(14-16) by auto
  obtain x where x: "openvpn_decrypt_v1 u fr (mkbuf pre ?c post) work ropt = Some (True, x, ropt\<lparr>do_core := core1\<rparr>)" "content x = m"
    using decrypt_v1_cbc [where pre = pre and post = post, OF assms(1,3,4,2,6,7,8,10) assms(9) [symmetric] assms(12,17)] by auto
  have "0 < blen (mkbuf pre ?c post)"
  proof (rule ccontr)
    assume "\<not> ?thesis"
    then have "openvpn_decrypt_v1 u fr (mkbuf pre ?c post) work ropt = Some (True, mkbuf pre ?c post, ropt)"
      by (simp add: openvpn_decrypt_v1_def)
    with x have "mkbuf pre ?c post = x" by simp
    with x(2) have "?c = m" by (metis content_mkbuf)
    with \<open>\<not> 0 < blen (mkbuf pre ?c post)\<close> assms(16) show False by (simp add: mkbuf_off)
  qed
  then show ?thesis
    using w x assms(3,6,16) modes by (simp add: openvpn_encrypt_def openvpn_decrypt_def cipher_kt_mode_aead_def mkbuf_off)
qed

text \<open>A cipher that adds one block of padding, and a MAC of four bytes.\<close>

definition toy_cbc :: "bool \<Rightarrow> cipher" where
  "toy_cbc enc = \<lparr>ci_mode = Mode_CBC, ci_iv_len = 2, ci_block_size = 2, ci_tag_size = 0, ci_reset = (\<lambda>_. True),
     ci_update = (\<lambda>iv ad m. Some (if enc then m else take (length m - 2) m)),
     ci_final = (\<lambda>iv ad m. Some (if enc then [2, 2] else [])),
     ci_tag = (\<lambda>iv ad m. []), ci_final_check_tag = (\<lambda>iv ad ct tag. None)\<rparr>"

definition toy_hmac :: hmac where
  "toy_hmac = \<lparr>hm_size = 4, hm_mac = (\<lambda>bs. replicate 4 (sum_list bs))\<rparr>"

definition cbc_options :: data_options where
  "cbc_options = \<lparr>do_encrypt = \<lparr>cx_cipher = Some (toy_cbc True), cx_hmac = Some toy_hmac, cx_implicit_iv = []\<rparr>,
     do_decrypt = \<lparr>cx_cipher = Some (toy_cbc False), cx_hmac = Some toy_hmac, cx_implicit_iv = []\<rparr>,
     do_core = demo_options, do_ignore_packet_id = False\<rparr>"

lemma cbc_laws: "cbc_pair (toy_cbc True) (toy_cbc False)" "hmac_law toy_hmac"
  by (simp_all add: cbc_pair_def toy_cbc_def hmac_law_def toy_hmac_def OPENVPN_MAX_IV_def)

lemma demo_first_packet:
  "\<exists>core1. crypto_check_replay 5 (do_core cbc_options) (wire_pid (co_long_form (do_core cbc_options)) \<lparr>send_id = 1, send_time = 5\<rparr>)
     = Some (True, core1)"
proof -
  have "pid_inv (pid_rec (co_packet_id demo_options)) {}" using demo_wf by (simp add: pid_inv_def)
  moreover have "acceptable (pid_rec (co_packet_id demo_options)) \<lparr>net_id = 1, net_time = 0\<rparr>"
      "rec_time (pid_rec (co_packet_id demo_options)) = 0" "rec_id (pid_rec (co_packet_id demo_options)) = 0"
    by (simp_all add: acceptable_def demo_options_def packet_id_init_def packet_id_zero_def Let_def
        MAX_SEQ_BACKTRACK_def MAX_TIME_BACKTRACK_def)
  ultimately show ?thesis
    using check_replay_forward [OF _ refl, of demo_options "{}" 5 "\<lparr>net_id = 1, net_time = 0\<rparr>"]
    by (auto simp: cbc_options_def wire_pid_def demo_options_def SEQ_EXPIRED_def)
qed

theorem cbc_packet_roundtrip_witness:
  "\<exists>core1 w x. openvpn_encrypt 5 (\<lambda>n. [7, 8]) (mkbuf (replicate 8 0) [1, 2, 3] []) (mkbuf [] [48] (replicate 200 0)) (Some cbc_options)
       = Some (w, Some (set_send \<lparr>send_id = 1, send_time = 5\<rparr> cbc_options))
     \<and> (\<exists>c. content w = [48] @ c
          \<and> openvpn_decrypt 5 flat_frame 0 (mkbuf [] c []) (work_buf [] 500) (Some cbc_options)
              = Some (True, x, Some (cbc_options\<lparr>do_core := core1\<rparr>))
          \<and> content x = [1, 2, 3])"
proof -
  obtain core1 where c: "crypto_check_replay 5 (do_core cbc_options)
      (wire_pid (co_long_form (do_core cbc_options)) \<lparr>send_id = 1, send_time = 5\<rparr>) = Some (True, core1)"
    using demo_first_packet by blast
  have i: "packet_id_initialized (do_packet_id cbc_options)"
    using demo_wf by (simp add: cbc_options_def rec_wf_def packet_id_initialized_def)
  have r: "room_ok flat_frame 500" using flat_room by (simp add: room_ok_def)
  have u: "packet_id_send_update 5 (pid_send (do_packet_id cbc_options)) (co_long_form (do_core cbc_options))
      = (True, \<lparr>send_id = 1, send_time = 5\<rparr>)"
    by (simp add: cbc_options_def demo_options_def packet_id_init_def packet_id_zero_def Let_def
        MAX_SEQ_BACKTRACK_def MAX_TIME_BACKTRACK_def packet_id_send_update_def PACKET_ID_MAX_def)
  have "\<exists>w x. openvpn_encrypt 5 (\<lambda>n. [7, 8]) (mkbuf (replicate 8 0) [1, 2, 3] []) (mkbuf [] [48] (replicate 200 0)) (Some cbc_options)
       = Some (w, Some (set_send \<lparr>send_id = 1, send_time = 5\<rparr> cbc_options))
     \<and> (\<exists>c. content w = [48] @ c
          \<and> openvpn_decrypt 5 flat_frame 0 (mkbuf [] c []) (work_buf [] 500) (Some cbc_options)
              = Some (True, x, Some (cbc_options\<lparr>do_core := core1\<rparr>))
          \<and> content x = [1, 2, 3])"
    by (rule cbc_packet_roundtrip [OF cbc_laws _ _ i _ _ i _ _ u c])
      (simp_all add: small_def BUF_SIZE_MAX_def fits_work_buf [OF r] flat_room(2),
       simp_all add: cbc_options_def toy_cbc_def)
  then show ?thesis by blast
qed

text \<open>
  A packet that does not start with the MAC of its rest is dropped before the cipher sees it.
  Whatever the cipher, the keys and the state, the answer is false, the buffer is emptied and
  nothing of the state changes: a forged packet cannot move the replay window.
\<close>

theorem forged_packet_dropped:
  assumes "cx_hmac (do_decrypt opt) = Some h" "hmac_law h" "c \<noteq> []"
    and "\<forall>body. c \<noteq> hm_mac h body @ body"
  shows "\<exists>b. openvpn_decrypt_v1 now fr (mkbuf pre c post) work opt = Some (False, b, opt) \<and> blen b = 0"
proof -
  have "v1_check_hmac (Some h) (mkbuf pre c post) = Some (False, mkbuf pre c post)"
  proof (cases "int (length c) < hm_size h")
    case False
    let ?n = "nat (hm_size h)"
    have "length (hm_mac h (drop ?n c)) = ?n" using assms(2) unfolding hmac_law_def by (metis nat_int)
    moreover have "take ?n c \<noteq> hm_mac h (drop ?n c)" using assms(4) by (metis append_take_drop_id)
    ultimately show ?thesis using False by (auto simp: v1_check_hmac_def mkbuf_off Let_def)
  qed (simp add: v1_check_hmac_def mkbuf_off)
  then show ?thesis using assms(1,3) by (simp add: openvpn_decrypt_v1_def mkbuf_off)
qed

theorem forged_packet_dropped_witness:
  "\<exists>b. openvpn_decrypt_v1 9 flat_frame (mkbuf [] [1, 2, 3] []) (work_buf [] 500) cbc_options = Some (False, b, cbc_options) \<and> blen b = 0"
proof -
  have "[1, 2, 3] \<noteq> hm_mac toy_hmac body @ body" for body
  proof
    assume "[1, 2, 3] = hm_mac toy_hmac body @ body"
    then have "length [1, 2, 3 :: byte] = length (hm_mac toy_hmac body @ body)" by metis
    then show False by (simp add: toy_hmac_def)
  qed
  then show ?thesis
    by (intro forged_packet_dropped [of _ toy_hmac]) (simp_all add: cbc_options_def cbc_laws)
qed

end
