(* ===== verification/Reliable.thy ===== *)
theory Reliable
  imports Buffer
begin

text \<open>
  \<^verbatim>\<open>reliable.c\<close>, \<^verbatim>\<open>reliable.h\<close> and \<^verbatim>\<open>session_id.h\<close>: the reliability layer
  of the control channel. \<open>reliable\<close>, \<open>reliable_entry\<close> and \<open>reliable_ack\<close> are the C
  structs; a pointer to an entry's buffer is the index of the entry. \<open>now\<close> is an argument.
  Failing ASSERTs give \<open>None\<close>.

  The loops over the array are \<open>find\<close>, \<open>list_ex\<close>, \<open>map\<close> and \<open>fold\<close> over the
  indices below \<open>size\<close>, in the order of the C loop.
\<close>

definition RELIABLE_CAPACITY :: int where "RELIABLE_CAPACITY = 8"
definition RELIABLE_ACK_SIZE :: int where "RELIABLE_ACK_SIZE = 8"
definition N_ACK_RETRANSMIT :: nat where "N_ACK_RETRANSMIT = 3"
definition BIG_TIMEOUT :: int where "BIG_TIMEOUT = 60 * 60 * 24 * 7"
definition SID_SIZE :: nat where "SID_SIZE = 8"

subsection \<open>Session ids\<close>

type_synonym session_id = "byte list"

definition session_id_equal :: "session_id \<Rightarrow> session_id \<Rightarrow> bool" where
  "session_id_equal sid1 sid2 \<longleftrightarrow> take SID_SIZE sid1 = take SID_SIZE sid2"

definition session_id_defined :: "session_id \<Rightarrow> bool" where
  "session_id_defined sid1 \<longleftrightarrow> take SID_SIZE sid1 \<noteq> replicate SID_SIZE 0"

definition session_id_read :: "buffer \<Rightarrow> session_id option \<times> buffer" where
  "session_id_read b = buf_read b (int SID_SIZE)"

definition session_id_write_prepend :: "session_id \<Rightarrow> buffer \<Rightarrow> bool \<times> buffer" where
  "session_id_write_prepend sid b = buf_write_prepend b sid"

definition session_id_write :: "session_id \<Rightarrow> buffer \<Rightarrow> bool \<times> buffer" where
  "session_id_write sid b = buf_write b sid"

subsection \<open>Packet ids on the circle of 32-bit numbers\<close>

definition reliable_pid_in_range1 :: "u32 \<Rightarrow> u32 \<Rightarrow> u32 \<Rightarrow> bool" where
  "reliable_pid_in_range1 test base extent =
     (if test \<ge> base then (if test - base < extent then True else False)
      else (if (test + 0x80000000) - (base + 0x80000000) < extent then True else False))"

definition reliable_pid_in_range2 :: "u32 \<Rightarrow> u32 \<Rightarrow> u32 \<Rightarrow> bool" where
  "reliable_pid_in_range2 test base extent =
     (if base + extent \<ge> base then (if test < base + extent then True else False)
      else (if test + 0x80000000 < (base + 0x80000000) + extent then True else False))"

definition reliable_pid_min :: "u32 \<Rightarrow> u32 \<Rightarrow> bool" where
  "reliable_pid_min p1 p2 \<longleftrightarrow> \<not> reliable_pid_in_range1 p1 p2 0x80000000"

subsection \<open>Acknowledgement records\<close>

record reliable_ack =
  ack_len :: int
  ack_ids :: "u32 list"

definition reliable_ack_empty :: "reliable_ack \<Rightarrow> bool" where
  "reliable_ack_empty ack \<longleftrightarrow> ack_len ack = 0"

definition reliable_ack_packet_id_present :: "reliable_ack \<Rightarrow> u32 \<Rightarrow> bool" where
  "reliable_ack_packet_id_present ack pid = list_ex (\<lambda>x. x = pid) (take (nat (ack_len ack)) (ack_ids ack))"

definition reliable_ack_read_packet_id :: "buffer \<Rightarrow> u32 option \<times> buffer" where
  "reliable_ack_read_packet_id b =
     (case buf_read b 4 of (None, b1) \<Rightarrow> (None, b1) | (Some bs, b1) \<Rightarrow> (Some (un_be32 bs), b1))"

definition ack_push :: "reliable_ack \<Rightarrow> u32 \<Rightarrow> reliable_ack" where
  "ack_push ack pid =
     ack\<lparr>ack_ids := (ack_ids ack)[nat (ack_len ack) := pid], ack_len := ack_len ack + 1\<rparr>"

definition reliable_ack_acknowledge_packet_id :: "reliable_ack \<Rightarrow> u32 \<Rightarrow> bool \<times> reliable_ack" where
  "reliable_ack_acknowledge_packet_id ack pid =
     (if \<not> reliable_ack_packet_id_present ack pid \<and> ack_len ack < RELIABLE_ACK_SIZE
      then (True, ack_push ack pid) else (False, ack))"

fun ack_read_loop :: "nat \<Rightarrow> reliable_ack \<Rightarrow> buffer \<Rightarrow> bool \<times> reliable_ack \<times> buffer" where
  "ack_read_loop 0 ack b = (True, ack, b)"
| "ack_read_loop (Suc n) ack b =
     (case buf_read b 4 of
        (None, b1) \<Rightarrow> (False, ack, b1)
      | (Some net_pid, b1) \<Rightarrow>
          if ack_len ack \<ge> RELIABLE_ACK_SIZE then (False, ack, b1)
          else ack_read_loop n (ack_push ack (un_be32 net_pid)) b1)"

definition reliable_ack_read :: "reliable_ack \<Rightarrow> buffer \<Rightarrow> session_id \<Rightarrow> bool \<times> reliable_ack \<times> buffer" where
  "reliable_ack_read ack b sid =
     (case buf_read b 1 of
        (None, b1) \<Rightarrow> (False, ack, b1)
      | (Some cnt, b1) \<Rightarrow>
          (let count = unat (cnt ! 0) in
           case ack_read_loop count ack b1 of
             (False, ack1, b2) \<Rightarrow> (False, ack1, b2)
           | (True, ack1, b2) \<Rightarrow>
               if count \<noteq> 0
               then (case session_id_read b2 of
                       (None, b3) \<Rightarrow> (False, ack1, b3)
                     | (Some remote, b3) \<Rightarrow>
                         if \<not> session_id_defined remote \<or> \<not> session_id_equal remote sid
                         then (False, ack1, b3) else (True, ack1, b3))
               else (True, ack1, b2)))"

definition ACK_SIZE :: "int \<Rightarrow> int" where
  "ACK_SIZE n = 1 + (if n \<noteq> 0 then int SID_SIZE else 0) + 4 * n"

fun ack_write_loop :: "u32 list \<Rightarrow> buffer \<Rightarrow> buffer option" where
  "ack_write_loop [] sub = Some sub"
| "ack_write_loop (pid # pids) sub =
     (case buf_write sub (be32 pid) of
        (False, _) \<Rightarrow> None
      | (True, sub1) \<Rightarrow> ack_write_loop pids sub1)"

text \<open>
  The sub-buffer is written through a pointer into \<open>buf\<close>; \<open>buf_sub_commit\<close> puts its bytes back.
\<close>

definition reliable_ack_write ::
  "reliable_ack \<Rightarrow> buffer \<Rightarrow> session_id \<Rightarrow> int \<Rightarrow> bool \<Rightarrow> (bool \<times> reliable_ack \<times> buffer) option" where
  "reliable_ack_write ack b sid mx prepend =
     (let n0 = ack_len ack mod 256;
          n = (if n0 > mx then mx mod 256 else n0)
      in case buf_sub b (ACK_SIZE n) prepend of
           ((sub, p), b1) \<Rightarrow>
             if \<not> buf_defined sub then Some (False, ack, b1)
             else (case buf_write sub [word_of_int n] of
                     (False, _) \<Rightarrow> None
                   | (True, sub1) \<Rightarrow>
                       (case ack_write_loop (take (nat n) (ack_ids ack)) sub1 of
                          None \<Rightarrow> None
                        | Some sub2 \<Rightarrow>
                            if n \<noteq> 0
                            then if \<not> session_id_defined sid then None
                                 else (case session_id_write sid sub2 of
                                         (False, _) \<Rightarrow> None
                                       | (True, sub3) \<Rightarrow>
                                           (let rest = drop (nat n) (take (nat (ack_len ack)) (ack_ids ack))
                                            in Some (True,
                                                 ack\<lparr>ack_ids := mem_write (ack_ids ack) 0 rest,
                                                     ack_len := int (length rest)\<rparr>,
                                                 buf_sub_commit sub3 p b1)))
                            else Some (True, ack, buf_sub_commit sub2 p b1))))"

subsection \<open>The send and receive windows\<close>

record reliable_entry =
  re_active :: bool
  re_timeout :: int
  re_next_try :: time_t
  re_packet_id :: u32
  re_n_acks :: nat
  re_opcode :: int
  re_buf :: buffer

record reliable =
  rl_size :: int
  rl_initial_timeout :: int
  rl_packet_id :: u32
  rl_offset :: int
  rl_hold :: bool
  rl_array :: "reliable_entry list"

definition entry_zero :: reliable_entry where
  "entry_zero = \<lparr>re_active = False, re_timeout = 0, re_next_try = 0, re_packet_id = 0,
     re_n_acks = 0, re_opcode = 0, re_buf = clear_buf\<rparr>"

definition idxs :: "reliable \<Rightarrow> nat list" where
  "idxs rel = [0..<nat (rl_size rel)]"

definition upd_entry :: "reliable \<Rightarrow> nat \<Rightarrow> (reliable_entry \<Rightarrow> reliable_entry) \<Rightarrow> reliable" where
  "upd_entry rel i f = rel\<lparr>rl_array := (rl_array rel)[i := f (rl_array rel ! i)]\<rparr>"

definition reliable_init :: "int \<Rightarrow> int \<Rightarrow> int \<Rightarrow> bool \<Rightarrow> reliable option" where
  "reliable_init buf_size offset array_size hold =
     (if \<not> (array_size > 0 \<and> array_size \<le> RELIABLE_CAPACITY) then None
      else case alloc_buf (size_t_of buf_size) of
        None \<Rightarrow> None
      | Some b \<Rightarrow>
          (case buf_init b offset of
             (False, _) \<Rightarrow> None
           | (True, b1) \<Rightarrow>
               Some \<lparr>rl_size = array_size, rl_initial_timeout = 0, rl_packet_id = 0,
                     rl_offset = offset, rl_hold = hold,
                     rl_array = replicate (nat array_size) (entry_zero\<lparr>re_buf := b1\<rparr>)
                       @ replicate (nat RELIABLE_CAPACITY - nat array_size) entry_zero\<rparr>))"

definition reliable_set_timeout :: "reliable \<Rightarrow> int \<Rightarrow> reliable" where
  "reliable_set_timeout rel timeout = rel\<lparr>rl_initial_timeout := timeout\<rparr>"

definition reliable_empty :: "reliable \<Rightarrow> bool" where
  "reliable_empty rel \<longleftrightarrow> \<not> list_ex (\<lambda>i. re_active (rl_array rel ! i)) (idxs rel)"

definition purge_entry :: "u32 \<Rightarrow> reliable_entry \<Rightarrow> reliable_entry" where
  "purge_entry pid e =
     (if re_active e \<and> re_packet_id e = pid then e\<lparr>re_active := False\<rparr>
      else if re_active e \<and> re_packet_id e < pid then e\<lparr>re_n_acks := re_n_acks e + 1\<rparr>
      else e)"

definition purge_pid :: "u32 \<Rightarrow> reliable \<Rightarrow> reliable" where
  "purge_pid pid rel = fold (\<lambda>j r. upd_entry r j (purge_entry pid)) (idxs rel) rel"

definition reliable_send_purge :: "reliable \<Rightarrow> reliable_ack \<Rightarrow> reliable" where
  "reliable_send_purge rel ack = fold purge_pid (take (nat (ack_len ack)) (ack_ids ack)) rel"

definition reliable_can_get :: "reliable \<Rightarrow> bool" where
  "reliable_can_get rel \<longleftrightarrow> list_ex (\<lambda>i. \<not> re_active (rl_array rel ! i)) (idxs rel)"

definition reliable_not_replay :: "reliable \<Rightarrow> u32 \<Rightarrow> bool" where
  "reliable_not_replay rel pid =
     (if reliable_pid_min pid (rl_packet_id rel) then False
      else if list_ex (\<lambda>i. re_active (rl_array rel ! i) \<and> re_packet_id (rl_array rel ! i) = pid) (idxs rel)
      then False
      else True)"

definition reliable_wont_break_sequentiality :: "reliable \<Rightarrow> u32 \<Rightarrow> bool" where
  "reliable_wont_break_sequentiality rel pid =
     reliable_pid_in_range2 pid (rl_packet_id rel) (word_of_int (rl_size rel))"

definition reliable_get_buf :: "reliable \<Rightarrow> (nat option \<times> reliable) option" where
  "reliable_get_buf rel =
     (case find (\<lambda>i. \<not> re_active (rl_array rel ! i)) (idxs rel) of
        None \<Rightarrow> Some (None, rel)
      | Some i \<Rightarrow>
          (case buf_init (re_buf (rl_array rel ! i)) (rl_offset rel) of
             (False, _) \<Rightarrow> None
           | (True, b) \<Rightarrow> Some (Some i, upd_entry rel i (\<lambda>e. e\<lparr>re_buf := b\<rparr>))))"

definition min_active_id :: "reliable \<Rightarrow> u32 option" where
  "min_active_id rel =
     fold (\<lambda>i m. let e = rl_array rel ! i
                 in if re_active e
                    then (case m of
                            None \<Rightarrow> Some (re_packet_id e)
                          | Some k \<Rightarrow> if reliable_pid_min (re_packet_id e) k then Some (re_packet_id e) else m)
                    else m)
          (idxs rel) None"

definition reliable_get_buf_output_sequenced :: "reliable \<Rightarrow> (nat option \<times> reliable) option" where
  "reliable_get_buf_output_sequenced rel =
     (case min_active_id rel of
        None \<Rightarrow> reliable_get_buf rel
      | Some min_id \<Rightarrow>
          if reliable_pid_in_range1 (rl_packet_id rel) min_id (word_of_int (rl_size rel))
          then reliable_get_buf rel else Some (None, rel))"

definition reliable_get_buf_sequenced :: "reliable \<Rightarrow> nat option" where
  "reliable_get_buf_sequenced rel =
     find (\<lambda>i. re_active (rl_array rel ! i) \<and> re_packet_id (rl_array rel ! i) = rl_packet_id rel) (idxs rel)"

definition due :: "time_t \<Rightarrow> reliable_entry \<Rightarrow> bool" where
  "due now e \<longleftrightarrow> now \<ge> re_next_try e \<or> re_n_acks e \<ge> N_ACK_RETRANSMIT"

definition reliable_can_send :: "time_t \<Rightarrow> reliable \<Rightarrow> bool" where
  "reliable_can_send now rel =
     (let n_current = length (filter (\<lambda>i. re_active (rl_array rel ! i) \<and> due now (rl_array rel ! i)) (idxs rel))
      in n_current > 0 \<and> \<not> rl_hold rel)"

definition best_to_send :: "time_t \<Rightarrow> reliable \<Rightarrow> nat option" where
  "best_to_send now rel =
     fold (\<lambda>i best. let e = rl_array rel ! i
                    in if re_active e \<and> (re_n_acks e \<ge> N_ACK_RETRANSMIT \<or> now \<ge> re_next_try e)
                       then (case best of
                               None \<Rightarrow> Some i
                             | Some j \<Rightarrow> if reliable_pid_min (re_packet_id e) (re_packet_id (rl_array rel ! j))
                                         then Some i else best)
                       else best)
          (idxs rel) None"

text \<open>The exponential back-off variant: \<^verbatim>\<open>reliable.h\<close> defines \<open>EXPONENTIAL_BACKOFF\<close>.\<close>

definition reliable_send :: "time_t \<Rightarrow> reliable \<Rightarrow> (nat \<times> int) option \<times> reliable" where
  "reliable_send now rel =
     (case best_to_send now rel of
        None \<Rightarrow> (None, rel)
      | Some i \<Rightarrow>
          (Some (i, re_opcode (rl_array rel ! i)),
           upd_entry rel i (\<lambda>e. e\<lparr>re_next_try := now + re_timeout e,
                                  re_timeout := re_timeout e * 2, re_n_acks := 0\<rparr>)))"

definition reliable_schedule_now :: "time_t \<Rightarrow> reliable \<Rightarrow> reliable" where
  "reliable_schedule_now now rel =
     fold (\<lambda>i r. upd_entry r i (\<lambda>e. if re_active e
                    then e\<lparr>re_next_try := now, re_timeout := rl_initial_timeout rel\<rparr> else e))
          (idxs rel) (rel\<lparr>rl_hold := False\<rparr>)"

fun send_timeout_loop :: "time_t \<Rightarrow> reliable_entry list \<Rightarrow> int \<Rightarrow> int" where
  "send_timeout_loop now [] ret = ret"
| "send_timeout_loop now (e # es) ret =
     (if re_active e
      then if re_next_try e \<le> now then 0
           else send_timeout_loop now es (min_int ret (re_next_try e - now))
      else send_timeout_loop now es ret)"

definition reliable_send_timeout :: "time_t \<Rightarrow> reliable \<Rightarrow> int" where
  "reliable_send_timeout now rel =
     send_timeout_loop now (take (nat (rl_size rel)) (rl_array rel)) BIG_TIMEOUT"

definition reliable_mark_active_incoming :: "reliable \<Rightarrow> nat \<Rightarrow> u32 \<Rightarrow> int \<Rightarrow> reliable option" where
  "reliable_mark_active_incoming rel i pid opcode =
     (if i \<in> set (idxs rel)
      then if reliable_pid_min pid (rl_packet_id rel) then None
           else Some (upd_entry rel i (\<lambda>e. e\<lparr>re_active := True, re_packet_id := pid,
                        re_opcode := opcode, re_next_try := 0, re_timeout := 0, re_n_acks := 0\<rparr>))
      else None)"

definition reliable_mark_active_outgoing :: "reliable \<Rightarrow> nat \<Rightarrow> int \<Rightarrow> reliable option" where
  "reliable_mark_active_outgoing rel i opcode =
     (if i \<in> set (idxs rel)
      then (let pid = rl_packet_id rel in
            case buf_write_prepend (re_buf (rl_array rel ! i)) (be32 pid) of
              (False, _) \<Rightarrow> None
            | (True, b) \<Rightarrow>
                Some (upd_entry (rel\<lparr>rl_packet_id := pid + 1\<rparr>) i
                  (\<lambda>e. e\<lparr>re_packet_id := pid, re_buf := b, re_active := True, re_opcode := opcode,
                         re_next_try := 0, re_timeout := rl_initial_timeout rel\<rparr>)))
      else None)"

definition reliable_mark_deleted :: "reliable \<Rightarrow> nat \<Rightarrow> bool \<Rightarrow> reliable option" where
  "reliable_mark_deleted rel i inc_pid =
     (if i \<in> set (idxs rel)
      then (let r1 = upd_entry rel i (\<lambda>e. e\<lparr>re_active := False\<rparr>)
            in Some (if inc_pid then r1\<lparr>rl_packet_id := re_packet_id (rl_array rel ! i) + 1\<rparr> else r1))
      else None)"

subsection \<open>The circle comparisons, as intervals\<close>

lemma in_range1_iff: "reliable_pid_in_range1 test base extent \<longleftrightarrow> test - base < extent"
  by (simp add: reliable_pid_in_range1_def)

lemma window_exact_int:
  fixes t b e :: int
  assumes "0 \<le> t" "t < 2 ^ 32" "0 \<le> b" "b < 2 ^ 32" "0 \<le> e" "e \<le> 2 ^ 31"
    "b \<le> 2 ^ 31 \<or> b + e \<ge> 2 ^ 32"
    and "s = (if b + e < 2 ^ 32 then b + e else b + e - 2 ^ 32)"
    and "t' = (if t + 2 ^ 31 < 2 ^ 32 then t + 2 ^ 31 else t + 2 ^ 31 - 2 ^ 32)"
    and "b' = (if b + 2 ^ 31 < 2 ^ 32 then b + 2 ^ 31 else b + 2 ^ 31 - 2 ^ 32)"
    and "s' = (if b' + e < 2 ^ 32 then b' + e else b' + e - 2 ^ 32)"
    and "d = (if b \<le> t then t - b else t - b + 2 ^ 32)"
  shows "(if b \<le> s then t < s else t' < s') \<and> d < 2 ^ 31 \<longleftrightarrow> d < e"
  using assms by (auto split: if_splits)

lemma in_range2_iff:
  "reliable_pid_in_range2 test base extent \<longleftrightarrow>
     (if base \<le> base + extent then test < base + extent
      else test + 0x80000000 < (base + 0x80000000) + extent)"
  by (simp add: reliable_pid_in_range2_def)

lemma window_exact:
  assumes "uint base \<le> 2 ^ 31 \<or> uint base + uint extent \<ge> 2 ^ 32" "uint extent \<le> 2 ^ 31"
  shows "reliable_pid_in_range2 test base extent \<and> \<not> reliable_pid_min test base \<longleftrightarrow> test - base < extent"
proof -
  have b: "uint test < 2 ^ 32" "uint base < 2 ^ 32"
    using uint_lt2p [of test] uint_lt2p [of base] by simp_all
  have half: "uint (0x80000000 :: u32) = 2 ^ 31" by simp
  show ?thesis
    using window_exact_int [OF uint_ge_0 b(1) uint_ge_0 b(2) uint_ge_0 assms(2,1) refl refl refl refl refl]
    unfolding in_range2_iff reliable_pid_min_def in_range1_iff not_not
      word_less_def word_le_def uint_sub32 uint_add32 half .
qed
text \<open>Below \<open>2 ^ 31\<close> the comparisons are those of the numbers.\<close>

lemma pid_min_small:
  assumes "unat p < 2 ^ 31" "unat q < 2 ^ 31"
  shows "reliable_pid_min p q \<longleftrightarrow> unat p < unat q"
  using assms
  by (auto simp: reliable_pid_min_def in_range1_iff word_less_nat_alt unat_sub_if_size word_size)

lemma in_range1_small:
  assumes "unat p < 2 ^ 31" "unat q \<le> unat p"
  shows "reliable_pid_in_range1 p q e \<longleftrightarrow> unat p < unat q + unat e"
  using assms by (auto simp: in_range1_iff word_less_nat_alt unat_sub_if_size)

lemma in_range2_small:
  assumes "unat p < 2 ^ 31" "unat q < 2 ^ 31" "unat e < 2 ^ 31"
  shows "reliable_pid_in_range2 p q e \<longleftrightarrow> unat p < unat q + unat e"
  using assms by (auto simp: in_range2_iff word_less_nat_alt word_le_nat_alt unat_plus_if_size word_size)

subsection \<open>Acknowledgement records on the wire\<close>

definition ack_wf :: "reliable_ack \<Rightarrow> bool" where
  "ack_wf ack \<longleftrightarrow> 0 \<le> ack_len ack \<and> ack_len ack \<le> RELIABLE_ACK_SIZE
     \<and> length (ack_ids ack) = nat RELIABLE_ACK_SIZE"

definition ack_list :: "reliable_ack \<Rightarrow> u32 list" where
  "ack_list ack = take (nat (ack_len ack)) (ack_ids ack)"

definition ack_clear :: reliable_ack where
  "ack_clear = \<lparr>ack_len = 0, ack_ids = replicate 8 0\<rparr>"

lemma ack_clear_simps [simp]: "ack_wf ack_clear" "ack_list ack_clear = []" "ack_len ack_clear = 0"
  by (simp_all add: ack_wf_def ack_list_def ack_clear_def RELIABLE_ACK_SIZE_def)

lemma length_ack_list [simp]: "ack_wf ack \<Longrightarrow> length (ack_list ack) = nat (ack_len ack)"
  by (auto simp: ack_wf_def ack_list_def RELIABLE_ACK_SIZE_def)

lemma ack_push_wf [inv_intros]: "ack_wf ack \<Longrightarrow> ack_len ack < RELIABLE_ACK_SIZE \<Longrightarrow> ack_wf (ack_push ack pid)"
  by (simp add: ack_wf_def ack_push_def)

lemma ack_push_list:
  "ack_wf ack \<Longrightarrow> ack_len ack < RELIABLE_ACK_SIZE \<Longrightarrow> ack_list (ack_push ack pid) = ack_list ack @ [pid]"
proof -
  assume a: "ack_wf ack" "ack_len ack < RELIABLE_ACK_SIZE"
  then have "nat (ack_len ack + 1) = Suc (nat (ack_len ack))" "nat (ack_len ack) < length (ack_ids ack)"
    by (auto simp: ack_wf_def RELIABLE_ACK_SIZE_def)
  then show ?thesis by (simp add: ack_list_def ack_push_def take_Suc_conv_app_nth)
qed

lemma ack_push_len [simp]: "ack_len (ack_push ack pid) = ack_len ack + 1"
  by (simp add: ack_push_def)

lemma acknowledge_wf [inv_intros]:
  "ack_wf ack \<Longrightarrow> ack_wf (snd (reliable_ack_acknowledge_packet_id ack pid))"
  by (auto simp: reliable_ack_acknowledge_packet_id_def intro: ack_push_wf)

lemma acknowledge_list:
  "ack_wf ack \<Longrightarrow> ack_list (snd (reliable_ack_acknowledge_packet_id ack pid)) =
     (if pid \<in> set (ack_list ack) \<or> ack_len ack \<ge> RELIABLE_ACK_SIZE then ack_list ack
      else ack_list ack @ [pid])"
  by (auto simp: reliable_ack_acknowledge_packet_id_def reliable_ack_packet_id_present_def
      ack_push_list list_ex_iff ack_list_def [symmetric])

definition get_pid :: "byte list \<Rightarrow> (u32 \<times> byte list) option" where
  "get_pid bs = (case reliable_ack_read_packet_id (mkbuf [] bs []) of
     (None, _) \<Rightarrow> None | (Some pid, b) \<Rightarrow> Some (pid, content b))"

lemma read_pid_mkbuf:
  "reliable_ack_read_packet_id (mkbuf pre (be32 pid @ c) post) = (Some pid, mkbuf (pre @ be32 pid) c post)"
  by (simp add: reliable_ack_read_packet_id_def buf_read_mkbuf)

interpretation pid_wire: codec be32 get_pid "\<lambda>_. True"
  by unfold_locales (simp add: get_pid_def read_pid_mkbuf)

definition ack_bytes :: "u32 list \<Rightarrow> session_id \<Rightarrow> byte list" where
  "ack_bytes ids sid = word_of_nat (length ids) # concat (map be32 ids) @ (if ids = [] then [] else sid)"

lemma length_concat_be32 [simp]: "length (concat (map be32 ids)) = 4 * length ids"
  by (induction ids) auto

lemma length_ack_bytes:
  "length sid = SID_SIZE \<Longrightarrow> int (length (ack_bytes ids sid)) = ACK_SIZE (int (length ids))"
  by (auto simp: ack_bytes_def ACK_SIZE_def SID_SIZE_def)

lemma ack_read_loop_mkbuf:
  assumes "ack_wf ack" "ack_len ack + int (length ids) \<le> RELIABLE_ACK_SIZE"
  shows "\<exists>a. ack_read_loop (length ids) ack (mkbuf pre (concat (map be32 ids) @ rest) post)
      = (True, a, mkbuf (pre @ concat (map be32 ids)) rest post)
    \<and> ack_wf a \<and> ack_list a = ack_list ack @ ids"
  using assms
proof (induction ids arbitrary: ack pre)
  case Nil
  then show ?case by simp
next
  case (Cons i ids)
  then have "ack_wf (ack_push ack i)" "ack_list (ack_push ack i) = ack_list ack @ [i]"
    by (auto intro: ack_push_wf simp: ack_push_list)
  with Cons.IH [of "ack_push ack i" "pre @ be32 i"] Cons.prems
  show ?case by (simp add: buf_read_mkbuf)
qed

lemma reliable_ack_read_bytes:
  assumes "length ids \<le> 8" "length sid = SID_SIZE" "session_id_defined sid"
  shows "\<exists>a. reliable_ack_read ack_clear (mkbuf pre (ack_bytes ids sid @ rest) post) sid
      = (True, a, mkbuf (pre @ ack_bytes ids sid) rest post) \<and> ack_wf a \<and> ack_list a = ids"
proof -
  have n: "unat (word_of_nat (length ids) :: byte) = length ids"
    using assms(1) by (simp add: unat_of_nat)
  let ?tail = "(if ids = [] then [] else sid) @ rest"
  obtain a where a: "ack_read_loop (length ids) ack_clear
      (mkbuf (pre @ [word_of_nat (length ids)]) (concat (map be32 ids) @ ?tail) post)
      = (True, a, mkbuf ((pre @ [word_of_nat (length ids)]) @ concat (map be32 ids)) ?tail post)"
      "ack_wf a" "ack_list a = ids"
    using ack_read_loop_mkbuf [of ack_clear ids "pre @ [word_of_nat (length ids)]" ?tail post] assms(1)
    by (auto simp: RELIABLE_ACK_SIZE_def)
  with assms(2,3) n show ?thesis
    by (auto simp: reliable_ack_read_def ack_bytes_def buf_read_mkbuf Let_def session_id_read_def
        session_id_equal_def)
qed

lemma ack_write_loop_mkbuf:
  "small pre c post \<Longrightarrow> 4 * length ids \<le> length post \<Longrightarrow>
     ack_write_loop ids (mkbuf pre c post) =
       Some (mkbuf pre (c @ concat (map be32 ids)) (drop (4 * length ids) post))"
proof (induction ids arbitrary: c post)
  case Nil
  then show ?case by simp
next
  case (Cons i ids)
  then have "small pre (c @ be32 i) (drop 4 post)" "4 * length ids \<le> length (drop 4 post)"
    by (auto simp: small_def)
  with Cons show ?case by (simp add: buf_write_mkbuf add.commute)
qed

text \<open>The ids a write takes from the record, and the record it leaves.\<close>

definition ack_take :: "reliable_ack \<Rightarrow> int \<Rightarrow> u32 list" where
  "ack_take ack mx = take (nat (min (ack_len ack) mx)) (ack_list ack)"

lemma ack_sub_fill:
  assumes "ids = take n (ack_ids ack)" "length ids = n" "n \<le> 8" "length sid = SID_SIZE"
    "session_id_defined sid" "int (length hole) = ACK_SIZE (int n)"
  shows "\<exists>sub1 sub2. buf_write (mkbuf [] [] hole) [word_of_int (int n)] = (True, sub1)
    \<and> ack_write_loop ids sub1 = Some sub2
    \<and> (n = 0 \<longrightarrow> block sub2 = ack_bytes ids sid)
    \<and> (n \<noteq> 0 \<longrightarrow> (\<exists>sub3. session_id_write sid sub2 = (True, sub3) \<and> block sub3 = ack_bytes ids sid))"
proof -
  let ?w = "word_of_int (int n) :: byte"
  have len: "length hole = 1 + (if n = 0 then 0 else 8) + 4 * n"
    using assms(6) by (auto simp: ACK_SIZE_def SID_SIZE_def split: if_splits)
  have sm: "small [] [] hole" "small [] [?w] (drop 1 hole)"
    using len assms(3) by (auto simp: small_def BUF_SIZE_MAX_def split: if_splits)
  have w: "buf_write (mkbuf [] [] hole) [?w] = (True, mkbuf [] [?w] (drop 1 hole))"
    using len by (simp add: buf_write_mkbuf sm)
  have l: "ack_write_loop ids (mkbuf [] [?w] (drop 1 hole)) =
      Some (mkbuf [] ([?w] @ concat (map be32 ids)) (drop (4 * length ids) (drop 1 hole)))"
    using len assms(2) by (intro ack_write_loop_mkbuf sm) auto
  have sm2: "small [] ([?w] @ concat (map be32 ids)) (drop (4 * length ids) (drop 1 hole))"
    using len assms(2,3) by (auto simp: small_def BUF_SIZE_MAX_def split: if_splits)
  show ?thesis
  proof (cases "n = 0")
    case True
    with w l len assms(2) show ?thesis by (auto simp: ack_bytes_def)
  next
    case False
    moreover from False have "ids \<noteq> []" using assms(2) by auto
    ultimately show ?thesis
      using w l len assms(2,4) sm2
      by (auto simp: ack_bytes_def session_id_write_def buf_write_mkbuf SID_SIZE_def)
  qed
qed

lemma ack_take_wf:
  assumes "ack_wf ack" "0 \<le> mx" "mx \<le> 255"
  shows "(if ack_len ack mod 256 > mx then mx mod 256 else ack_len ack mod 256) = min (ack_len ack) mx"
    and "ack_take ack mx = take (nat (min (ack_len ack) mx)) (ack_ids ack)"
    and "length (ack_take ack mx) = nat (min (ack_len ack) mx)" "length (ack_take ack mx) \<le> 8"
  using assms by (auto simp: ack_take_def ack_list_def ack_wf_def RELIABLE_ACK_SIZE_def min_def)

lemma ack_rest_wf:
  assumes "ack_wf ack" "0 \<le> mx"
    "rest = drop (nat (min (ack_len ack) mx)) (take (nat (ack_len ack)) (ack_ids ack))"
    "ack' = ack\<lparr>ack_ids := mem_write (ack_ids ack) 0 rest, ack_len := int (length rest)\<rparr>"
  shows "ack_wf ack'" "ack_take ack mx @ ack_list ack' = ack_list ack"
proof -
  have "length rest \<le> nat (ack_len ack)" "length rest \<le> length (ack_ids ack)" by (simp_all add: assms(3))
  then show "ack_wf ack'"
    using assms(1,4) by (auto simp: ack_wf_def)
  have "ack_list ack' = rest" by (simp add: assms(4) ack_list_def mem_write_def)
  then show "ack_take ack mx @ ack_list ack' = ack_list ack"
    by (simp only: ack_take_def ack_list_def assms(3) append_take_drop_id)
qed

lemma reliable_ack_write_prepend:
  assumes ack: "ack_wf ack" and mx: "0 \<le> mx" "mx \<le> 255"
    and sid: "length sid = SID_SIZE" "session_id_defined sid"
    and room: "ACK_SIZE (min (ack_len ack) mx) \<le> int (length pre)"
  shows "\<exists>ack'. reliable_ack_write ack (mkbuf pre c post) sid mx True =
      Some (True, ack', mkbuf (take (length pre - length (ack_bytes (ack_take ack mx) sid)) pre)
                          (ack_bytes (ack_take ack mx) sid @ c) post)
    \<and> ack_wf ack' \<and> ack_take ack mx @ ack_list ack' = ack_list ack"
proof -
  define n where "n = nat (min (ack_len ack) mx)"
  define bs where "bs = ack_bytes (ack_take ack mx) sid"
  define hole where "hole = take (length bs) (drop (length pre - length bs) pre)"
  have n: "min (ack_len ack) mx = int n" using ack mx by (auto simp: n_def ack_wf_def)
  note tk = ack_take_wf [OF ack mx]
  have ids: "ack_take ack mx = take n (ack_ids ack)" "length (ack_take ack mx) = n" "n \<le> 8"
    using tk by (auto simp: n)
  have lbs: "int (length bs) = ACK_SIZE (int n)"
    using length_ack_bytes [OF sid(1), of "ack_take ack mx"] unfolding ids(2) bs_def .
  have le: "length bs \<le> length pre" using room lbs n by simp
  then have lh: "int (length hole) = ACK_SIZE (int n)" using lbs by (simp add: hole_def)
  have sub: "buf_sub (mkbuf pre c post) (ACK_SIZE (int n)) True =
      ((mkbuf [] [] hole, int (length pre) - int (length bs)),
       mkbuf (take (length pre - length bs) pre) (drop (length pre - length bs) pre @ c) post)"
    using le unfolding lbs [symmetric]
    by (simp add: buf_sub_def buf_write_alloc_prepend_def buf_prepend_mkbuf mem_read_def hole_def
        nat_diff_distrib') (simp add: mkbuf_def)
  have commit: "block s = bs \<Longrightarrow> buf_sub_commit s (int (length pre) - int (length bs))
       (mkbuf (take (length pre - length bs) pre) (drop (length pre - length bs) pre @ c) post)
      = mkbuf (take (length pre - length bs) pre) (bs @ c) post" for s
    using le by (intro mkbuf_eqI)
      (simp_all add: buf_sub_commit_def poke_def mkbuf_def mem_write_def nat_diff_distrib')
  obtain sub1 sub2 where w: "buf_write (mkbuf [] [] hole) [word_of_int (int n)] = (True, sub1)"
      "ack_write_loop (ack_take ack mx) sub1 = Some sub2"
      "n = 0 \<Longrightarrow> block sub2 = bs"
      "n \<noteq> 0 \<Longrightarrow> (\<exists>sub3. session_id_write sid sub2 = (True, sub3) \<and> block sub3 = bs)"
    using ack_sub_fill [OF ids sid lh] unfolding bs_def by metis
  have wr: "reliable_ack_write ack (mkbuf pre c post) sid mx True =
     (if n \<noteq> 0
      then (case session_id_write sid sub2 of
              (False, _) \<Rightarrow> None
            | (True, sub3) \<Rightarrow>
                (let rest = drop n (take (nat (ack_len ack)) (ack_ids ack))
                 in Some (True, ack\<lparr>ack_ids := mem_write (ack_ids ack) 0 rest, ack_len := int (length rest)\<rparr>,
                      buf_sub_commit sub3 (int (length pre) - int (length bs))
                        (mkbuf (take (length pre - length bs) pre) (drop (length pre - length bs) pre @ c) post))))
      else Some (True, ack, buf_sub_commit sub2 (int (length pre) - int (length bs))
                        (mkbuf (take (length pre - length bs) pre) (drop (length pre - length bs) pre @ c) post)))"
    unfolding reliable_ack_write_def Let_def tk(1) n nat_int
    using w(1,2) sid(2) ids by (simp add: sub)
  note rest = ack_rest_wf [OF ack mx(1) refl refl]
  show ?thesis
  proof (cases "n = 0")
    case True
    then have "ack_take ack mx = []" using ids by simp
    with True w(3) commit show ?thesis unfolding bs_def [symmetric]
      by (simp add: wr ack)
  next
    case False
    then obtain sub3 where "session_id_write sid sub2 = (True, sub3)" "block sub3 = bs" using w(4) by auto
    with False commit rest show ?thesis unfolding bs_def [symmetric] n_def
      by (simp add: wr Let_def n_def)
  qed
qed

text \<open>
  C25: An acknowledgement record survives the wire, and no id is lost. Writing a record into any
  live buffer with enough headroom succeeds; the peer that owns the session id reads back exactly
  the ids taken (at most \<open>mx\<close>), the record keeps the others in order, and the buffer is left with
  the content it had.
\<close>

theorem ack_record_roundtrip:
  assumes "ack_wf ack" "0 \<le> mx" "mx \<le> 255" "live b"
    and "length sid = SID_SIZE" "session_id_defined sid"
    and "ACK_SIZE (min (ack_len ack) mx) \<le> buf_reverse_capacity b"
  shows "\<exists>ack' b' a b''. reliable_ack_write ack b sid mx True = Some (True, ack', b')
     \<and> reliable_ack_read ack_clear b' sid = (True, a, b'')
     \<and> content b'' = content b \<and> length (ack_list a) = nat (min (ack_len ack) mx)
     \<and> ack_list a @ ack_list ack' = ack_list ack"
proof -
  obtain pre c post where b: "b = mkbuf pre c post" using live_split [OF assms(4)] by blast
  from reliable_ack_write_prepend [OF assms(1-3,5,6), of pre c post] assms(7) b
  obtain ack' where w: "reliable_ack_write ack b sid mx True =
      Some (True, ack', mkbuf (take (length pre - length (ack_bytes (ack_take ack mx) sid)) pre)
                          (ack_bytes (ack_take ack mx) sid @ c) post)"
      "ack_take ack mx @ ack_list ack' = ack_list ack" by auto
  note tk = ack_take_wf [OF assms(1-3)]
  from reliable_ack_read_bytes [OF tk(4) assms(5,6)] w tk(3) b
  show ?thesis by (metis content_mkbuf)
qed

theorem ack_record_roundtrip_witness:
  "\<exists>ack' b' a b''. reliable_ack_write (ack_push (ack_push ack_clear 7) 9) (mkbuf (replicate 40 0) [1, 2] [])
       (replicate 8 5) 1 True = Some (True, ack', b')
     \<and> reliable_ack_read ack_clear b' (replicate 8 5) = (True, a, b'')
     \<and> content b'' = [1, 2] \<and> length (ack_list a) = 1 \<and> ack_list a @ ack_list ack' = [7, 9]"
proof -
  let ?ack = "ack_push (ack_push ack_clear 7) 9"
  have wf: "ack_wf ?ack" by (intro ack_push_wf) (simp_all add: RELIABLE_ACK_SIZE_def)
  have l: "ack_list ?ack = [7, 9]"
    by (simp add: ack_push_list ack_push_wf RELIABLE_ACK_SIZE_def)
  show ?thesis
    using ack_record_roundtrip [OF wf, of 1 "mkbuf (replicate 40 0) [1, 2] []" "replicate 8 5"]
    by (simp add: l small_def BUF_SIZE_MAX_def SID_SIZE_def session_id_defined_def ACK_SIZE_def)
qed


text \<open>
  C26: The receive window is exactly \<open>[base, base + size)\<close> on the circle. For every expected id
  \<open>base\<close> up to \<open>2 ^ 31\<close> and for every \<open>base\<close> whose window crosses the wrap, the two checks the
  receiver makes (\<open>reliable_wont_break_sequentiality\<close>, and in \<open>reliable_not_replay\<close> the test
  against \<open>rl_packet_id\<close>) let an id pass exactly when its distance from \<open>base\<close> is below the size.
\<close>

theorem receive_window_exact:
  assumes "uint (rl_packet_id rel) \<le> 2 ^ 31 \<or> uint (rl_packet_id rel) + rl_size rel \<ge> 2 ^ 32"
    and "0 \<le> rl_size rel" "rl_size rel \<le> RELIABLE_CAPACITY"
  shows "reliable_wont_break_sequentiality rel pid \<and> \<not> reliable_pid_min pid (rl_packet_id rel)
     \<longleftrightarrow> uint (pid - rl_packet_id rel) < rl_size rel"
proof -
  have u: "uint (word_of_int (rl_size rel) :: u32) = rl_size rel"
    using assms(2,3) by (simp add: uint_word_of_int RELIABLE_CAPACITY_def)
  show ?thesis
    using window_exact [of "rl_packet_id rel" "word_of_int (rl_size rel)" pid] assms
    unfolding reliable_wont_break_sequentiality_def word_less_def u RELIABLE_CAPACITY_def by auto
qed

definition demo_rel :: reliable where
  "demo_rel = \<lparr>rl_size = 8, rl_initial_timeout = 2, rl_packet_id = 0xFFFFFFFE, rl_offset = 0,
     rl_hold = False, rl_array = replicate 8 entry_zero\<rparr>"

theorem receive_window_exact_witness:
  "reliable_wont_break_sequentiality demo_rel 3 \<and> \<not> reliable_pid_min 3 (rl_packet_id demo_rel)"
  using receive_window_exact [of demo_rel 3]
  by (simp add: demo_rel_def RELIABLE_CAPACITY_def)

text \<open>
  Between \<open>2 ^ 31\<close> and the wrap, the window is not the one meant. With the next expected
  id \<open>base\<close> in that range, an id that is neither expected nor near (any id below
  \<open>base - 2 ^ 31\<close>, for example 0) passes \<open>reliable_wont_break_sequentiality\<close> and the replay
  test: \<open>reliable_pid_in_range2\<close> compares \<open>test < base + extent\<close> as plain numbers there, and
  \<open>reliable_pid_min\<close> takes a distance above \<open>2 ^ 31\<close> for a wrap.
\<close>

theorem receive_window_hole:
  assumes "2 ^ 31 < uint (rl_packet_id rel)" "uint (rl_packet_id rel) + rl_size rel < 2 ^ 32"
    and "0 \<le> rl_size rel" "rl_size rel \<le> RELIABLE_CAPACITY"
    and "uint pid < uint (rl_packet_id rel) - 2 ^ 31"
  shows "reliable_wont_break_sequentiality rel pid \<and> \<not> reliable_pid_min pid (rl_packet_id rel)
     \<and> \<not> uint (pid - rl_packet_id rel) < rl_size rel"
proof -
  have u: "uint (word_of_int (rl_size rel) :: u32) = rl_size rel"
    using assms(3,4) by (simp add: uint_word_of_int RELIABLE_CAPACITY_def)
  have half: "uint (0x80000000 :: u32) = 2 ^ 31" by simp
  have "uint (rl_packet_id rel) < 2 ^ 32" using uint_lt2p [of "rl_packet_id rel"] by simp
  moreover have "\<not> uint pid - uint (rl_packet_id rel) + 2 ^ 32 < rl_size rel"
    using assms(2) uint_ge_0 [of pid] by linarith
  ultimately show ?thesis
    using assms
    unfolding reliable_wont_break_sequentiality_def reliable_pid_min_def in_range1_iff in_range2_iff
      word_less_def word_le_def uint_sub32 uint_add32 u half RELIABLE_CAPACITY_def
    by (auto split: if_splits)
qed

theorem receive_window_hole_witness:
  "reliable_wont_break_sequentiality (demo_rel\<lparr>rl_packet_id := 0x80000005\<rparr>) 4"
  using receive_window_hole [of "demo_rel\<lparr>rl_packet_id := 0x80000005\<rparr>" 4]
  by (simp add: demo_rel_def RELIABLE_CAPACITY_def)

end
