(* ===== verification/Key_Method.thy ===== *)
theory Key_Method
  imports Reliable "HOL-Library.Char_ord"
begin

text \<open>
  Key method 2 of \<^verbatim>\<open>ssl.c\<close>: the message in which each peer sends its half of the key source
  material over the TLS channel, with its options, credentials and peer information; the
  derivation of the data channel keys from both halves; and the choice of which key encrypts and
  which decrypts (\<^verbatim>\<open>crypto.c\<close>).

  C strings are byte lists; \<open>c_str\<close> cuts at the first NUL. The bytes the random generator draws,
  the PRF, the key export, parity fix and weak-key test of the TLS and cipher libraries are
  arguments, as are the answers of the authentication plugins, scripts and of the checks of
  \<^verbatim>\<open>ssl_verify.c\<close> behind them. \<open>purge_user_pass\<close>, the environment variables, and
  \<open>p2p_mode_ncp\<close>, which changes only the cipher options, are left out.
\<close>

subsection \<open>Writers and readers on a buffer\<close>

text \<open>\<open>andw f g\<close> is \<open>if (!f) goto error; if (!g) goto error\<close>.\<close>

definition andw :: "(buffer \<Rightarrow> bool \<times> buffer) \<Rightarrow> (buffer \<Rightarrow> bool \<times> buffer) \<Rightarrow> buffer \<Rightarrow> bool \<times> buffer" where
  "andw f g b = (case f b of (False, b1) \<Rightarrow> (False, b1) | (True, b1) \<Rightarrow> g b1)"

definition writes :: "(buffer \<Rightarrow> bool \<times> buffer) \<Rightarrow> byte list \<Rightarrow> bool" where
  "writes f bs \<longleftrightarrow> (\<forall>pre c post. small pre c post \<longrightarrow> length bs \<le> length post \<longrightarrow>
     f (mkbuf pre c post) = (True, mkbuf pre (c @ bs) (drop (length bs) post)))"

definition reads :: "(buffer \<Rightarrow> 'a \<times> buffer) \<Rightarrow> byte list \<Rightarrow> 'a \<Rightarrow> bool" where
  "reads f bs x \<longleftrightarrow> (\<forall>pre c post. f (mkbuf pre (bs @ c) post) = (x, mkbuf (pre @ bs) c post))"

lemma writes_andw [intro]: "writes f xs \<Longrightarrow> writes g ys \<Longrightarrow> writes (andw f g) (xs @ ys)"
  by (auto simp: writes_def andw_def small_def add.commute)

lemma writes_buf_write [intro, simp]: "writes (\<lambda>b. buf_write b bs) bs"
  by (simp add: writes_def buf_write_mkbuf)

lemma reads_buf_read [intro, simp]: "n = int (length bs) \<Longrightarrow> reads (\<lambda>b. buf_read b n) bs (Some bs)"
  by (simp add: reads_def buf_read_mkbuf)

subsection \<open>Strings with a length prefix\<close>

definition c_str :: "byte list \<Rightarrow> byte list" where "c_str s = takeWhile (\<lambda>c. c \<noteq> 0) s"
definition strlen :: "byte list \<Rightarrow> nat" where "strlen s = length (c_str s)"

definition bytes_of :: "string \<Rightarrow> byte list" where "bytes_of s = map of_char s"

definition write_empty_string :: "buffer \<Rightarrow> bool \<times> buffer" where
  "write_empty_string b = buf_write_u16 b 0"

definition write_string :: "byte list \<Rightarrow> int \<Rightarrow> buffer \<Rightarrow> bool \<times> buffer" where
  "write_string str maxlen b =
     (let len = int (strlen str) + 1
      in if len < 1 \<or> (maxlen \<ge> 0 \<and> len > maxlen) then (False, b)
         else andw (\<lambda>b. buf_write_u16 b len) (\<lambda>b. buf_write b (c_str str @ [0])) b)"

definition read_string :: "int \<Rightarrow> buffer \<Rightarrow> byte list option \<times> buffer" where
  "read_string capacity b =
     (case buf_read_u16 b of
        (len, b1) \<Rightarrow>
          if len < 1 \<or> len > capacity then (None, b1)
          else (case buf_read b1 len of
                  (None, b2) \<Rightarrow> (None, b2)
                | (Some s, b2) \<Rightarrow> (Some (s[nat len - 1 := 0]), b2)))"

definition read_string_alloc :: "buffer \<Rightarrow> byte list option \<times> buffer" where
  "read_string_alloc b =
     (case buf_read_u16 b of
        (len, b1) \<Rightarrow>
          if len < 1 then (None, b1)
          else (case buf_read b1 len of
                  (None, b2) \<Rightarrow> (None, b2)
                | (Some s, b2) \<Rightarrow> (Some (s[nat len - 1 := 0]), b2)))"

definition str_wire :: "byte list \<Rightarrow> byte list" where
  "str_wire s = be16 (word_of_int (int (length s) + 1)) @ s @ [0]"

lemma c_str_id: "0 \<notin> set s \<Longrightarrow> c_str s = s"
  unfolding c_str_def by (rule takeWhile_eq_all_conv [THEN iffD2]) auto

lemma writes_u16 [intro, simp]: "writes (\<lambda>b. buf_write_u16 b n) (be16 (word_of_int n))"
  by (simp add: buf_write_u16_def)

lemma write_string_writes:
  assumes "0 \<notin> set s" "mx < 0 \<or> int (length s) < mx"
  shows "writes (write_string s mx) (str_wire s)"
proof -
  have "write_string s mx = andw (\<lambda>b. buf_write_u16 b (int (length s) + 1)) (\<lambda>b. buf_write b (s @ [0]))"
    using assms by (auto simp: write_string_def Let_def strlen_def c_str_id fun_eq_iff)
  then show ?thesis unfolding str_wire_def by (simp only:) (intro writes_andw writes_u16 writes_buf_write)
qed

lemma write_empty_writes: "writes write_empty_string (be16 0)"
  unfolding write_empty_string_def [abs_def] using writes_u16 [of 0] by simp

lemma reads_u16 [intro, simp]: "reads buf_read_u16 (be16 w) (uint w)"
  using reads_buf_read [of 2 "be16 w"] by (simp add: reads_def buf_read_u16_def)

lemma reads_u16I: "buf_read_u16 (mkbuf pre (be16 w @ c) post) = (uint w, mkbuf (pre @ be16 w) c post)"
  using reads_u16 [of w] by (simp add: reads_def)

lemma uint_u16_len: "n < 2 ^ 16 \<Longrightarrow> uint (word_of_int (int n) :: u16) = int n"
  by (simp add: unsigned_of_nat take_bit_nat_eq_self of_nat_take_bit [symmetric] del: of_nat_take_bit)

lemma str_body:
  "length s < 2 ^ 16 - 1 \<Longrightarrow> uint (word_of_int (int (length s) + 1) :: u16) = int (length s) + 1"
  using uint_u16_len [of "length s + 1"] by (simp add: add.commute)

lemma read_body:
  "length s < 2 ^ 16 - 1 \<Longrightarrow>
   buf_read_u16 (mkbuf pre (str_wire s @ c) post) = (int (length s) + 1, mkbuf (pre @ be16 (word_of_int (int (length s) + 1))) ((s @ [0]) @ c) post)
   \<and> buf_read (mkbuf (pre @ be16 (word_of_int (int (length s) + 1))) ((s @ [0]) @ c) post) (int (length s) + 1)
     = (Some (s @ [0]), mkbuf (pre @ str_wire s) c post)
   \<and> (s @ [0])[nat (int (length s) + 1) - 1 := 0] = s @ [0 :: byte]"
  using reads_buf_read [of "int (length s) + 1" "s @ [0]"] str_body [of s]
    reads_u16I [of pre "word_of_int (int (length s) + 1)" "(s @ [0]) @ c" post]
  by (simp add: reads_def str_wire_def nat_add_distrib list_update_append)

lemma read_string_reads:
  "int (length s) < cap \<Longrightarrow> length s < 2 ^ 16 - 1 \<Longrightarrow> reads (read_string cap) (str_wire s) (Some (s @ [0]))"
  unfolding reads_def read_string_def using read_body [of s]
  by (simp del: append_assoc append_Cons append.simps)

lemma read_string_alloc_reads:
  "length s < 2 ^ 16 - 1 \<Longrightarrow> reads read_string_alloc (str_wire s) (Some (s @ [0]))"
  unfolding reads_def read_string_alloc_def using read_body [of s]
  by (simp del: append_assoc append_Cons append.simps)

lemma read_empty_string: "reads (read_string cap) (be16 0) None"
  by (simp add: reads_def read_string_def reads_u16I)

lemma read_empty_alloc: "reads read_string_alloc (be16 0) None"
  by (simp add: reads_def read_string_alloc_def reads_u16I)

subsection \<open>Key source material\<close>

record key_source =
  src_pre_master :: "byte list"
  src_random1 :: "byte list"
  src_random2 :: "byte list"

record key_source2 =
  src_client :: key_source
  src_server :: key_source

definition key_source_clear :: key_source where
  "key_source_clear = \<lparr>src_pre_master = replicate 48 0, src_random1 = replicate 32 0, src_random2 = replicate 32 0\<rparr>"

definition key_source2_clear :: key_source2 where
  "key_source2_clear = \<lparr>src_client = key_source_clear, src_server = key_source_clear\<rparr>"

text \<open>\<open>rand_bytes\<close> drew \<open>out\<close>, or had no entropy, which is fatal.\<close>

definition random_bytes_to_buf :: "byte list option \<Rightarrow> buffer \<Rightarrow> (bool \<times> byte list \<times> buffer) option" where
  "random_bytes_to_buf rand b =
     (case rand of
        None \<Rightarrow> None
      | Some out \<Rightarrow> (case buf_write b out of (ok, b1) \<Rightarrow> Some (ok, out, b1)))"

definition own_half :: "bool \<Rightarrow> key_source2 \<Rightarrow> key_source" where
  "own_half server k2 = (if server then src_server k2 else src_client k2)"

definition set_half :: "bool \<Rightarrow> key_source \<Rightarrow> key_source2 \<Rightarrow> key_source2" where
  "set_half server k k2 = (if server then k2\<lparr>src_server := k\<rparr> else k2\<lparr>src_client := k\<rparr>)"

text \<open>\<open>rand i\<close> is the \<open>i\<close>th draw: pre-master secret (client only), then the two randoms.\<close>

definition randomize_tail :: "(nat \<Rightarrow> byte list option) \<Rightarrow> key_source \<Rightarrow> buffer \<Rightarrow> (bool \<times> key_source \<times> buffer) option" where
  "randomize_tail rand k b =
     (case random_bytes_to_buf (rand 1) b of
        None \<Rightarrow> None
      | Some (False, r1, b1) \<Rightarrow> Some (False, k\<lparr>src_random1 := r1\<rparr>, b1)
      | Some (True, r1, b1) \<Rightarrow>
          (case random_bytes_to_buf (rand 2) b1 of
             None \<Rightarrow> None
           | Some (ok, r2, b2) \<Rightarrow> Some (ok, k\<lparr>src_random1 := r1, src_random2 := r2\<rparr>, b2)))"

definition key_source2_randomize_write ::
  "(nat \<Rightarrow> byte list option) \<Rightarrow> key_source2 \<Rightarrow> buffer \<Rightarrow> bool \<Rightarrow> (bool \<times> key_source2 \<times> buffer) option" where
  "key_source2_randomize_write rand k2 b server =
     (let k = key_source_clear
      in map_option (\<lambda>(ok, k', b'). (ok, set_half server k' k2, b'))
          (if \<not> server
           then (case random_bytes_to_buf (rand 0) b of
                   None \<Rightarrow> None
                 | Some (False, pm, b1) \<Rightarrow> Some (False, k\<lparr>src_pre_master := pm\<rparr>, b1)
                 | Some (True, pm, b1) \<Rightarrow> randomize_tail rand (k\<lparr>src_pre_master := pm\<rparr>) b1)
           else randomize_tail rand k b))"

definition read_randoms :: "key_source \<Rightarrow> buffer \<Rightarrow> (bool \<times> key_source) \<times> buffer" where
  "read_randoms k b =
     (case buf_read b 32 of
        (None, b1) \<Rightarrow> ((False, k), b1)
      | (Some r1, b1) \<Rightarrow>
          (case buf_read b1 32 of
             (None, b2) \<Rightarrow> ((False, k\<lparr>src_random1 := r1\<rparr>), b2)
           | (Some r2, b2) \<Rightarrow> ((True, k\<lparr>src_random1 := r1, src_random2 := r2\<rparr>), b2)))"

definition key_source2_read :: "key_source2 \<Rightarrow> bool \<Rightarrow> buffer \<Rightarrow> (bool \<times> key_source2) \<times> buffer" where
  "key_source2_read k2 server b =
     (let k = key_source_clear
      in case (if server
               then (case buf_read b 48 of
                       (None, b1) \<Rightarrow> ((False, k), b1)
                     | (Some pm, b1) \<Rightarrow> read_randoms (k\<lparr>src_pre_master := pm\<rparr>) b1)
               else read_randoms k b) of
           ((ok, k'), b') \<Rightarrow> ((ok, set_half (\<not> server) k' k2), b'))"

definition source_ok :: "bool \<Rightarrow> key_source \<Rightarrow> bool" where
  "source_ok server k \<longleftrightarrow> length (src_random1 k) = 32 \<and> length (src_random2 k) = 32
     \<and> (if server then src_pre_master k = replicate 48 0 else length (src_pre_master k) = 48)"

definition source_wire :: "bool \<Rightarrow> key_source \<Rightarrow> byte list" where
  "source_wire server k = (if server then [] else src_pre_master k) @ src_random1 k @ src_random2 k"

definition draws :: "bool \<Rightarrow> (nat \<Rightarrow> byte list option) \<Rightarrow> key_source \<Rightarrow> bool" where
  "draws server rand k \<longleftrightarrow> source_ok server k \<and> rand 1 = Some (src_random1 k) \<and> rand 2 = Some (src_random2 k)
     \<and> (\<not> server \<longrightarrow> rand 0 = Some (src_pre_master k))"

lemma source_wire_length: "source_ok server k \<Longrightarrow> length (source_wire server k) = (if server then 64 else 112)"
  by (simp add: source_ok_def source_wire_def)

lemma random_bytes_mkbuf:
  "small pre c post \<Longrightarrow> length bs \<le> length post \<Longrightarrow>
     random_bytes_to_buf (Some bs) (mkbuf pre c post) = Some (True, bs, mkbuf pre (c @ bs) (drop (length bs) post))"
  by (simp add: random_bytes_to_buf_def buf_write_mkbuf)

lemma randomize_tail_mkbuf:
  "small pre c post \<Longrightarrow> rand (Suc 0) = Some r1 \<Longrightarrow> rand 2 = Some r2 \<Longrightarrow> length r1 + length r2 \<le> length post \<Longrightarrow>
     randomize_tail rand k (mkbuf pre c post) =
       Some (True, k\<lparr>src_random1 := r1, src_random2 := r2\<rparr>, mkbuf pre (c @ r1 @ r2) (drop (length r1 + length r2) post))"
  by (simp add: randomize_tail_def random_bytes_mkbuf small_def add.commute)

lemma randomize_write_mkbuf:
  assumes "draws server rand k" "small pre c post" "length (source_wire server k) \<le> length post"
  shows "key_source2_randomize_write rand k2 (mkbuf pre c post) server =
     Some (True, set_half server k k2,
       mkbuf pre (c @ source_wire server k) (drop (length (source_wire server k)) post))"
proof (cases server)
  case True
  then show ?thesis
    using assms by (cases k) (simp add: key_source2_randomize_write_def randomize_tail_mkbuf draws_def source_ok_def
        source_wire_def key_source_clear_def)
next
  case False
  then have d: "rand 0 = Some (src_pre_master k)" "length (src_pre_master k) \<le> length post"
    using assms by (simp_all add: draws_def source_wire_def)
  have s: "small pre (c @ src_pre_master k) (drop (length (src_pre_master k)) post)"
    using assms(2) d(2) by (simp add: small_def)
  have k: "key_source_clear\<lparr>src_pre_master := src_pre_master k, src_random1 := src_random1 k, src_random2 := src_random2 k\<rparr> = k"
    by (cases k) (simp add: key_source_clear_def)
  have r: "rand (Suc 0) = Some (src_random1 k)" "rand 2 = Some (src_random2 k)"
    using assms(1) by (simp_all add: draws_def)
  show ?thesis
    using False assms(3) by (simp add: key_source2_randomize_write_def d(1) random_bytes_mkbuf [OF assms(2) d(2)]
        randomize_tail_mkbuf [OF s r] source_wire_def k add.commute add.left_commute)
qed

lemma read_randoms_mkbuf:
  "length r1 = 32 \<Longrightarrow> length r2 = 32 \<Longrightarrow> read_randoms k (mkbuf pre (r1 @ r2 @ c) post) =
     ((True, k\<lparr>src_random1 := r1, src_random2 := r2\<rparr>), mkbuf (pre @ r1 @ r2) c post)"
  by (simp add: read_randoms_def buf_read_mkbuf)

lemma source_read_reads:
  assumes "source_ok server k"
  shows "reads (key_source2_read k2 (\<not> server)) (source_wire server k) (True, set_half server k k2)"
proof (cases server)
  case True
  with assms show ?thesis
    by (cases k) (simp add: reads_def key_source2_read_def read_randoms_mkbuf source_ok_def source_wire_def key_source_clear_def)
next
  case False
  with assms show ?thesis
    by (cases k) (simp add: reads_def key_source2_read_def read_randoms_mkbuf buf_read_mkbuf source_ok_def source_wire_def key_source_clear_def)
qed

subsection \<open>The key exchange message\<close>

definition KEY_METHOD_2 :: int where "KEY_METHOD_2 = 2"
definition KEY_METHOD_MASK :: int where "KEY_METHOD_MASK = 0x0F"
definition TLS_OPTIONS_LEN :: int where "TLS_OPTIONS_LEN = 512"
definition TLS_CHANNEL_BUF_SIZE :: int where "TLS_CHANNEL_BUF_SIZE = 2048"
definition USER_PASS_LEN :: int where "USER_PASS_LEN = 128"

text \<open>
  What a peer puts in its message: its options string, the user name and password or authentication
  token to send, if any, and the peer information text, if \<open>push_peer_info_detail\<close> asks for one.
\<close>

record km2_opts =
  km_server :: bool
  km_local_options :: "byte list"
  km_user_pass :: "(byte list \<times> byte list) option"
  km_peer_info :: "byte list option"

definition push_peer_info :: "byte list option \<Rightarrow> buffer \<Rightarrow> bool \<times> buffer" where
  "push_peer_info out b = (case out of Some s \<Rightarrow> write_string s (-1) b | None \<Rightarrow> write_empty_string b)"

definition write_user_pass :: "(byte list \<times> byte list) option \<Rightarrow> buffer \<Rightarrow> bool \<times> buffer" where
  "write_user_pass up =
     (case up of
        Some (user, pass) \<Rightarrow> andw (write_string user (-1)) (write_string pass (-1))
      | None \<Rightarrow> andw write_empty_string write_empty_string)"

definition key_method_2_write ::
  "(nat \<Rightarrow> byte list option) \<Rightarrow> km2_opts \<Rightarrow> key_source2 \<Rightarrow> buffer \<Rightarrow> (bool \<times> key_source2 \<times> buffer) option" where
  "key_method_2_write rand opts k2 b =
     (case buf_init b 0 of
        (False, _) \<Rightarrow> None
      | (True, b0) \<Rightarrow>
          (case andw (\<lambda>b. buf_write_u32 b 0) (\<lambda>b. buf_write_u8 b KEY_METHOD_2) b0 of
             (False, b1) \<Rightarrow> Some (False, key_source2_clear, b1)
           | (True, b1) \<Rightarrow>
               (case key_source2_randomize_write rand k2 b1 (km_server opts) of
                  None \<Rightarrow> None
                | Some (False, _, b2) \<Rightarrow> Some (False, key_source2_clear, b2)
                | Some (True, k2', b2) \<Rightarrow>
                    (case andw (write_string (km_local_options opts) TLS_OPTIONS_LEN)
                            (andw (write_user_pass (km_user_pass opts)) (push_peer_info (km_peer_info opts))) b2 of
                       (False, b3) \<Rightarrow> Some (False, key_source2_clear, b3)
                     | (True, b3) \<Rightarrow> Some (True, k2', b3)))))"

text \<open>Options are separated by commas, an option's name and value by a space.\<close>

definition comma :: byte where "comma = 44"
definition space :: byte where "space = 32"

function options_string_extract_option :: "byte list \<Rightarrow> byte list \<Rightarrow> byte list option" where
  "options_string_extract_option opt_name p =
     (if take (length opt_name) p = opt_name \<and> length p > length opt_name + 1 \<and> p ! length opt_name = space
      then Some (drop (length opt_name + 1) (takeWhile (\<lambda>c. c \<noteq> comma) p))
      else case dropWhile (\<lambda>c. c \<noteq> comma) p of
             [] \<Rightarrow> None
           | _ # rest \<Rightarrow> options_string_extract_option opt_name rest)"
  by pat_completeness auto
termination
proof (relation "measure (\<lambda>(_, p). length p)")
  fix opt_name p x rest
  assume "dropWhile (\<lambda>c. c \<noteq> comma) p = x # rest"
  then have "length (x # rest) \<le> length p" by (metis length_dropWhile_le)
  then show "((opt_name, rest), opt_name, p) \<in> measure (\<lambda>(_, p). length p)" by simp
qed simp

definition sublist_at :: "byte list \<Rightarrow> byte list \<Rightarrow> bool" where
  "sublist_at pat s = list_ex (\<lambda>i. take (length pat) (drop i s) = pat) [0..<length s + 1]"

text \<open>The state of authentication; only \<open>KS_AUTH_TRUE\<close> is fully authenticated.\<close>

datatype ks_auth = KS_AUTH_FALSE | KS_AUTH_DEFERRED | KS_AUTH_TRUE

record km2_state =
  kr_key_src :: key_source2
  kr_authenticated :: ks_auth
  kr_peer_info :: "byte list option"
  kr_remote_ciphername :: "byte list option"
  kr_remote_usescomp :: bool

record km2_env =
  ke_server :: bool
  ke_user_pass_enabled :: bool
  ke_user_pass_optional :: bool
  ke_verify_user_pass :: "byte list \<Rightarrow> byte list \<Rightarrow> ks_auth"
  ke_verified :: bool
  ke_final_auth_checks :: "ks_auth \<Rightarrow> ks_auth"
  ke_disable_occ :: bool
  ke_options_equal :: "byte list \<Rightarrow> bool"
  ke_opt_verify :: bool
  ke_tls_final :: "bool option"

definition auth_user :: "km2_env \<Rightarrow> byte list option \<Rightarrow> byte list option \<Rightarrow> ks_auth option" where
  "auth_user env user pass =
     (if ke_user_pass_enabled env
      then if user = None \<or> pass = None
           then if \<not> ke_user_pass_optional env then None else Some (ke_verify_user_pass env [] [])
           else Some (ke_verify_user_pass env (c_str (the user)) (c_str (the pass)))
      else if \<not> ke_verified env then None else Some KS_AUTH_TRUE)"

definition auth_checks :: "km2_env \<Rightarrow> byte list \<Rightarrow> ks_auth \<Rightarrow> ks_auth" where
  "auth_checks env options auth =
     (let a1 = (if auth \<noteq> KS_AUTH_FALSE then ke_final_auth_checks env auth else auth);
          a2 = (if \<not> ke_disable_occ env \<and> \<not> ke_options_equal env (c_str options) \<and> ke_opt_verify env
                then KS_AUTH_FALSE else a1)
      in if a2 \<noteq> KS_AUTH_FALSE \<and> ke_tls_final env = Some False then KS_AUTH_FALSE else a2)"

definition km2_peer_fields :: "byte list \<Rightarrow> byte list option \<Rightarrow> km2_state \<Rightarrow> km2_state" where
  "km2_peer_fields options info st =
     (let c = options_string_extract_option (bytes_of ''cipher'') (c_str options)
      in st\<lparr>kr_peer_info := info,
            kr_remote_ciphername := (if c = Some (bytes_of ''[null-cipher]'') then Some (bytes_of ''none'') else c),
            kr_remote_usescomp := sublist_at (bytes_of '',comp-lzo,'') (c_str options)\<rparr>)"

definition km2_fail :: "km2_state \<Rightarrow> buffer \<Rightarrow> bool \<times> km2_state \<times> buffer" where
  "km2_fail st b = (False, st\<lparr>kr_authenticated := KS_AUTH_FALSE, kr_key_src := key_source2_clear\<rparr>, buf_clear b)"

definition key_method_2_read :: "km2_env \<Rightarrow> km2_state \<Rightarrow> buffer \<Rightarrow> bool \<times> km2_state \<times> buffer" where
  "key_method_2_read env st b =
     (case buf_advance b 4 of
        (False, b1) \<Rightarrow> km2_fail st b1
      | (True, b1) \<Rightarrow>
          (case buf_read_u8 b1 of (flags, b2) \<Rightarrow>
             if flags AND KEY_METHOD_MASK \<noteq> 2 then km2_fail st b2
             else case key_source2_read (kr_key_src st) (ke_server env) b2 of
               ((False, _), b3) \<Rightarrow> km2_fail st b3
             | ((True, k2), b3) \<Rightarrow>
                 (case read_string TLS_OPTIONS_LEN b3 of
                    (None, b4) \<Rightarrow> km2_fail st b4
                  | (Some options, b4) \<Rightarrow>
                      (case read_string USER_PASS_LEN b4 of (user, b5) \<Rightarrow>
                       case read_string USER_PASS_LEN b5 of (pass, b6) \<Rightarrow>
                       case read_string_alloc b6 of (info, b7) \<Rightarrow>
                         (let st1 = km2_peer_fields options info (st\<lparr>kr_key_src := k2\<rparr>)
                          in case auth_user env user pass of
                               None \<Rightarrow> km2_fail st1 b7
                             | Some auth \<Rightarrow>
                                 (True, st1\<lparr>kr_authenticated := auth_checks env options auth\<rparr>, buf_clear b7))))))"

text \<open>The bytes of a message, and the messages whose every field the other end can hold.\<close>

definition opt_wire :: "byte list option \<Rightarrow> byte list" where
  "opt_wire s = (case s of None \<Rightarrow> be16 0 | Some s \<Rightarrow> str_wire s)"

definition km_wire :: "km2_opts \<Rightarrow> key_source \<Rightarrow> byte list" where
  "km_wire opts k = be32 0 @ [2] @ source_wire (km_server opts) k @ str_wire (km_local_options opts)
     @ opt_wire (map_option fst (km_user_pass opts)) @ opt_wire (map_option snd (km_user_pass opts))
     @ opt_wire (km_peer_info opts)"

definition field_ok :: "nat \<Rightarrow> byte list \<Rightarrow> bool" where
  "field_ok n s \<longleftrightarrow> 0 \<notin> set s \<and> length s < n"

definition opts_ok :: "km2_opts \<Rightarrow> bool" where
  "opts_ok opts \<longleftrightarrow> field_ok 512 (km_local_options opts)
     \<and> (case km_user_pass opts of None \<Rightarrow> True | Some (u, p) \<Rightarrow> field_ok 128 u \<and> field_ok 128 p)
     \<and> (case km_peer_info opts of None \<Rightarrow> True | Some s \<Rightarrow> field_ok (2 ^ 16 - 1) s)"

lemma writes_user_pass:
  "opts_ok opts \<Longrightarrow> writes (write_user_pass (km_user_pass opts))
     (opt_wire (map_option fst (km_user_pass opts)) @ opt_wire (map_option snd (km_user_pass opts)))"
  by (auto simp: opts_ok_def field_ok_def write_user_pass_def opt_wire_def split: option.splits
      intro!: writes_andw write_string_writes write_empty_writes)

lemma writes_peer_info: "opts_ok opts \<Longrightarrow> writes (push_peer_info (km_peer_info opts)) (opt_wire (km_peer_info opts))"
  by (auto simp: opts_ok_def field_ok_def push_peer_info_def [abs_def] opt_wire_def split: option.splits
      intro!: write_string_writes write_empty_writes)

lemma writes_strings:
  "opts_ok opts \<Longrightarrow> writes (andw (write_string (km_local_options opts) TLS_OPTIONS_LEN)
      (andw (write_user_pass (km_user_pass opts)) (push_peer_info (km_peer_info opts))))
    (str_wire (km_local_options opts) @ (opt_wire (map_option fst (km_user_pass opts))
      @ opt_wire (map_option snd (km_user_pass opts))) @ opt_wire (km_peer_info opts))"
  by (intro writes_andw writes_user_pass writes_peer_info write_string_writes)
    (auto simp: opts_ok_def field_ok_def TLS_OPTIONS_LEN_def)

lemma writes_header: "writes (andw (\<lambda>b. buf_write_u32 b 0) (\<lambda>b. buf_write_u8 b KEY_METHOD_2)) (be32 0 @ [2])"
  by (intro writes_andw) (simp_all add: buf_write_u32_def buf_write_u8_def KEY_METHOD_2_def)

lemma writesD: "writes f bs \<Longrightarrow> small pre c post \<Longrightarrow> length bs \<le> length post \<Longrightarrow>
    f (mkbuf pre c post) = (True, mkbuf pre (c @ bs) (drop (length bs) post))"
  by (simp add: writes_def)

lemma readsD: "reads f bs x \<Longrightarrow> f (mkbuf pre (bs @ c) post) = (x, mkbuf (pre @ bs) c post)"
  by (simp add: reads_def)

lemma write_message:
  assumes opts: "opts_ok opts" and d: "draws (km_server opts) rand k"
    and b: "live b" "int (length (km_wire opts k)) \<le> bcap b"
  shows "\<exists>b'. key_method_2_write rand opts k2 b = Some (True, set_half (km_server opts) k k2, b')
     \<and> live b' \<and> bcap b' = bcap b \<and> content b' = km_wire opts k"
proof -
  obtain p c q where b': "b = mkbuf p c q" "small p c q" using b(1) by (rule live_split)
  define blk where "blk = p @ c @ q"
  have blk: "int (length blk) = bcap b" "small [] [] blk" using b' by (auto simp: blk_def small_def mkbuf_def)
  have i: "buf_init b 0 = (True, mkbuf [] [] blk)" unfolding b'(1) buf_init_mkbuf blk_def by simp
  define x where "x = source_wire (km_server opts) k"
  define y where "y = str_wire (km_local_options opts) @ (opt_wire (map_option fst (km_user_pass opts))
      @ opt_wire (map_option snd (km_user_pass opts))) @ opt_wire (km_peer_info opts)"
  have w: "km_wire opts k = (be32 0 @ [2]) @ x @ y" by (simp add: km_wire_def x_def y_def)
  have len: "5 + length x + length y \<le> length blk" using b(2) blk(1) w by simp
  let ?b1 = "mkbuf [] (be32 0 @ [2]) (drop 5 blk)"
  let ?b2 = "mkbuf [] ((be32 0 @ [2]) @ x) (drop (5 + length x) blk)"
  let ?b3 = "mkbuf [] ((be32 0 @ [2]) @ x @ y) (drop (5 + length x + length y) blk)"
  have s: "small [] (be32 0 @ [2]) (drop 5 blk)" "small [] ((be32 0 @ [2]) @ x) (drop (5 + length x) blk)"
      "small [] ((be32 0 @ [2]) @ x @ y) (drop (5 + length x + length y) blk)"
    using blk(2) len by (auto simp: small_def)
  have 1: "andw (\<lambda>b. buf_write_u32 b 0) (\<lambda>b. buf_write_u8 b KEY_METHOD_2) (mkbuf [] [] blk) = (True, ?b1)"
    using writesD [OF writes_header blk(2)] len by simp
  have 2: "key_source2_randomize_write rand k2 ?b1 (km_server opts) = Some (True, set_half (km_server opts) k k2, ?b2)"
    using randomize_write_mkbuf [OF d s(1), folded x_def] len by (simp add: add.commute)
  have 3: "andw (write_string (km_local_options opts) TLS_OPTIONS_LEN)
      (andw (write_user_pass (km_user_pass opts)) (push_peer_info (km_peer_info opts))) ?b2 = (True, ?b3)"
    using writesD [OF writes_strings [OF opts, folded y_def] s(2)] len by (simp add: add.commute)
  have "key_method_2_write rand opts k2 b = Some (True, set_half (km_server opts) k k2, ?b3)"
    unfolding key_method_2_write_def i by (simp only: prod.case option.case bool.case 1 2 3)
  moreover have "bcap ?b3 = bcap b" using len blk(1) by (simp add: mkbuf_def)
  ultimately show ?thesis using s(3) w by (intro exI [of _ ?b3]) simp
qed

text \<open>What the other end makes of a message.\<close>

definition cstring :: "byte list \<Rightarrow> byte list" where "cstring s = s @ [0]"

lemma read_fields:
  assumes "opts_ok opts"
  shows "reads (read_string TLS_OPTIONS_LEN) (str_wire (km_local_options opts)) (Some (cstring (km_local_options opts)))"
    "reads (read_string USER_PASS_LEN) (opt_wire (map_option fst (km_user_pass opts))) (map_option (cstring \<circ> fst) (km_user_pass opts))"
    "reads (read_string USER_PASS_LEN) (opt_wire (map_option snd (km_user_pass opts))) (map_option (cstring \<circ> snd) (km_user_pass opts))"
    "reads read_string_alloc (opt_wire (km_peer_info opts)) (map_option cstring (km_peer_info opts))"
  using assms by (auto simp: opts_ok_def field_ok_def opt_wire_def cstring_def TLS_OPTIONS_LEN_def USER_PASS_LEN_def
      read_empty_string read_empty_alloc read_string_reads read_string_alloc_reads split: option.splits)

lemma read_message:
  assumes opts: "opts_ok opts" and k: "source_ok (km_server opts) k" and peer: "ke_server env = (\<not> km_server opts)"
    and auth: "auth_user env (map_option (cstring \<circ> fst) (km_user_pass opts)) (map_option (cstring \<circ> snd) (km_user_pass opts)) = Some a"
  shows "\<exists>st' b'. key_method_2_read env st (mkbuf pre (km_wire opts k) post) = (True, st', b')
     \<and> kr_key_src st' = set_half (km_server opts) k (kr_key_src st)
     \<and> kr_authenticated st' = auth_checks env (cstring (km_local_options opts)) a
     \<and> kr_peer_info st' = map_option cstring (km_peer_info opts)"
proof -
  note rd = read_fields [OF opts]
  have 1: "buf_advance (mkbuf pre (be32 0 @ r) post) 4 = (True, mkbuf (pre @ be32 0) r post)" for r
    by (simp add: buf_advance_mkbuf)
  have 2: "buf_read_u8 (mkbuf q (2 # r) post) = (2, mkbuf (q @ [2]) r post)" for q r
    by (simp add: buf_read_u8_mkbuf)
  note src = source_read_reads [OF k, folded peer, THEN readsD]
  have m: "(2 :: int) AND KEY_METHOD_MASK = 2" by (simp add: KEY_METHOD_MASK_def)
  show ?thesis
    unfolding key_method_2_read_def km_wire_def append.assoc append_Cons append_Nil 1 2 prod.case bool.case src
      rd [THEN readsD] option.case m
    using rd(4) [THEN readsD, of _ "[]"] auth
    by (simp add: km2_peer_fields_def Let_def)
qed

subsection \<open>Deriving the data channel keys\<close>

text \<open>
  What the TLS and cipher libraries answer: the TLS PRF and the exported key material (\<open>None\<close> is
  failure), whether the session uses the export, the parity fix, whether there is a cipher, its
  key length and, for DES, its weak-key test, whether it is an AEAD cipher and its IV size.
\<close>

record key =
  k_cipher :: "byte list"
  k_hmac :: "byte list"

record key2 =
  k2_n :: int
  k2_keys :: "key list"

record key_lib =
  kl_prf :: "byte list \<Rightarrow> byte list \<Rightarrow> int \<Rightarrow> byte list option"
  kl_export :: "byte list option"
  kl_use_export :: bool
  kl_fixup :: "key \<Rightarrow> key"
  kl_cipher :: bool
  kl_cipher_length :: nat
  kl_des_cblocks :: int
  kl_des_check :: "byte list \<Rightarrow> bool"
  kl_aead :: bool
  kl_iv_size :: int

record key_ctx =
  kx_key :: key
  kx_implicit_iv :: "byte list"

record key_ctx_bi =
  kb_encrypt :: key_ctx
  kb_decrypt :: key_ctx
  kb_initialized :: bool

datatype key_direction = KEY_DIRECTION_BIDIRECTIONAL | KEY_DIRECTION_NORMAL | KEY_DIRECTION_INVERSE

record key_direction_state =
  kd_out_key :: nat
  kd_in_key :: nat
  kd_need_keys :: int

fun key_direction_state_init :: "key_direction \<Rightarrow> key_direction_state" where
  "key_direction_state_init KEY_DIRECTION_NORMAL = \<lparr>kd_out_key = 0, kd_in_key = 1, kd_need_keys = 2\<rparr>"
| "key_direction_state_init KEY_DIRECTION_INVERSE = \<lparr>kd_out_key = 1, kd_in_key = 0, kd_need_keys = 2\<rparr>"
| "key_direction_state_init KEY_DIRECTION_BIDIRECTIONAL = \<lparr>kd_out_key = 0, kd_in_key = 0, kd_need_keys = 1\<rparr>"

definition key_is_zero :: "key \<Rightarrow> key_lib \<Rightarrow> bool" where
  "key_is_zero k lib = list_all (\<lambda>b. b = 0) (take (kl_cipher_length lib) (k_cipher k))"

definition check_key :: "key \<Rightarrow> key_lib \<Rightarrow> bool" where
  "check_key k lib =
     (if kl_cipher lib
      then if key_is_zero k lib then False
           else if kl_des_cblocks lib \<noteq> 0 then kl_des_check lib (k_cipher k) else True
      else True)"

text \<open>A cipher context is the key it was set up with.\<close>

definition init_key_ctx_bi :: "key2 \<Rightarrow> key_direction \<Rightarrow> key_ctx_bi" where
  "init_key_ctx_bi k2 dir =
     (let kds = key_direction_state_init dir
      in \<lparr>kb_encrypt = \<lparr>kx_key = k2_keys k2 ! kd_out_key kds, kx_implicit_iv = []\<rparr>,
          kb_decrypt = \<lparr>kx_key = k2_keys k2 ! kd_in_key kds, kx_implicit_iv = []\<rparr>, kb_initialized = True\<rparr>)"

definition MAX_HMAC_KEY_LENGTH :: int where "MAX_HMAC_KEY_LENGTH = 64"
definition OPENVPN_AEAD_MIN_IV_LEN :: int where "OPENVPN_AEAD_MIN_IV_LEN = 4 + 8"
definition OPENVPN_MAX_IV_LENGTH :: int where "OPENVPN_MAX_IV_LENGTH = 16"

definition key_ctx_update_implicit_iv :: "key_lib \<Rightarrow> key_ctx \<Rightarrow> byte list \<Rightarrow> int \<Rightarrow> key_ctx option" where
  "key_ctx_update_implicit_iv lib ctx k key_len =
     (if kl_aead lib
      then if \<not> kl_iv_size lib \<ge> OPENVPN_AEAD_MIN_IV_LEN then None
           else let impl_iv_len = kl_iv_size lib - 4
                in if \<not> impl_iv_len \<le> OPENVPN_MAX_IV_LENGTH \<or> \<not> impl_iv_len \<le> key_len then None
                   else Some (ctx\<lparr>kx_implicit_iv := take (nat impl_iv_len) k\<rparr>)
      else Some ctx)"

definition init_key_contexts :: "key_lib \<Rightarrow> bool \<Rightarrow> key2 \<Rightarrow> key_ctx_bi option" where
  "init_key_contexts lib server k2 =
     (let key = init_key_ctx_bi k2 (if server then KEY_DIRECTION_INVERSE else KEY_DIRECTION_NORMAL)
      in case key_ctx_update_implicit_iv lib (kb_encrypt key) (k_hmac (k2_keys k2 ! of_bool server)) MAX_HMAC_KEY_LENGTH of
           None \<Rightarrow> None
         | Some enc \<Rightarrow>
             (case key_ctx_update_implicit_iv lib (kb_decrypt key) (k_hmac (k2_keys k2 ! (1 - of_bool server))) MAX_HMAC_KEY_LENGTH of
                None \<Rightarrow> None
              | Some dec \<Rightarrow> Some (key\<lparr>kb_encrypt := enc, kb_decrypt := dec\<rparr>)))"

definition keys_of_bytes :: "byte list \<Rightarrow> key list" where
  "keys_of_bytes bs =
     [\<lparr>k_cipher = take 64 bs, k_hmac = take 64 (drop 64 bs)\<rparr>,
      \<lparr>k_cipher = take 64 (drop 128 bs), k_hmac = take 64 (drop 192 bs)\<rparr>]"

definition openvpn_PRF ::
  "key_lib \<Rightarrow> byte list \<Rightarrow> byte list \<Rightarrow> byte list \<Rightarrow> byte list \<Rightarrow> session_id option \<Rightarrow> session_id option \<Rightarrow> int
   \<Rightarrow> byte list option option" where
  "openvpn_PRF lib secret label client_seed server_seed client_sid server_sid output_len =
     (case alloc_buf (int (length label) + int (length client_seed) + int (length server_seed) + int SID_SIZE * 2) of
        None \<Rightarrow> None
      | Some seed \<Rightarrow>
          (case andw (\<lambda>b. buf_write b label) (andw (\<lambda>b. buf_write b client_seed) (andw (\<lambda>b. buf_write b server_seed)
                  (andw (\<lambda>b. case client_sid of None \<Rightarrow> (True, b) | Some sid \<Rightarrow> buf_write b sid)
                     (\<lambda>b. case server_sid of None \<Rightarrow> (True, b) | Some sid \<Rightarrow> buf_write b sid)))) seed of
             (False, _) \<Rightarrow> None
           | (True, seed1) \<Rightarrow> Some (kl_prf lib (content seed1) secret output_len)))"

definition generate_key_expansion_tls_export :: "key_lib \<Rightarrow> key2 option" where
  "generate_key_expansion_tls_export lib =
     (case kl_export lib of None \<Rightarrow> None | Some ekm \<Rightarrow> Some \<lparr>k2_n = 2, k2_keys = keys_of_bytes ekm\<rparr>)"

definition generate_key_expansion_openvpn_prf ::
  "key_lib \<Rightarrow> bool \<Rightarrow> session_id \<Rightarrow> session_id \<Rightarrow> key_source2 \<Rightarrow> key2 option option" where
  "generate_key_expansion_openvpn_prf lib server sid remote_sid src =
     (let client_sid = (if server then remote_sid else sid);
          server_sid = (if \<not> server then remote_sid else sid)
      in case openvpn_PRF lib (src_pre_master (src_client src)) (bytes_of ''OpenVPN master secret'')
                (src_random1 (src_client src)) (src_random1 (src_server src)) None None 48 of
           None \<Rightarrow> None
         | Some None \<Rightarrow> Some None
         | Some (Some master) \<Rightarrow>
             (case openvpn_PRF lib master (bytes_of ''OpenVPN key expansion'')
                    (src_random2 (src_client src)) (src_random2 (src_server src)) (Some client_sid) (Some server_sid) 256 of
                None \<Rightarrow> None
              | Some None \<Rightarrow> Some None
              | Some (Some out) \<Rightarrow>
                  Some (Some \<lparr>k2_n = 2, k2_keys = map (kl_fixup lib) (keys_of_bytes out)\<rparr>)))"

text \<open>Outer \<open>None\<close> is a failed assertion; the flag is the function's result.\<close>

definition generate_key_expansion ::
  "key_lib \<Rightarrow> bool \<Rightarrow> session_id \<Rightarrow> session_id \<Rightarrow> key_source2 \<Rightarrow> key_ctx_bi \<Rightarrow> (bool \<times> key_ctx_bi) option" where
  "generate_key_expansion lib server sid remote_sid src key =
     (if kb_initialized key then Some (False, key)
      else case (if kl_use_export lib then Some (generate_key_expansion_tls_export lib)
                 else generate_key_expansion_openvpn_prf lib server sid remote_sid src) of
        None \<Rightarrow> None
      | Some None \<Rightarrow> Some (False, key)
      | Some (Some k2) \<Rightarrow>
          if \<not> list_all (\<lambda>k. check_key k lib) (take 2 (k2_keys k2)) then Some (False, key)
          else map_option (Pair True) (init_key_contexts lib server k2))"

definition opposite :: "bool \<times> key_ctx_bi \<Rightarrow> bool \<times> key_ctx_bi \<Rightarrow> bool" where
  "opposite c s \<longleftrightarrow> fst c = fst s \<and> (fst c \<longrightarrow> kb_encrypt (snd c) = kb_decrypt (snd s) \<and> kb_decrypt (snd c) = kb_encrypt (snd s))"

lemma contexts_opposite:
  "rel_option (\<lambda>c s. opposite (True, c) (True, s)) (init_key_contexts lib False k2) (init_key_contexts lib True k2)"
  by (auto simp: init_key_contexts_def init_key_ctx_bi_def key_ctx_update_implicit_iv_def Let_def opposite_def
      split: option.splits if_splits)

lemma expansion_opposite:
  assumes "\<not> kb_initialized kc" "\<not> kb_initialized ks"
  shows "rel_option opposite (generate_key_expansion lib False csid ssid src kc)
     (generate_key_expansion lib True ssid csid src ks)"
proof -
  have "rel_option opposite (map_option (Pair True) (init_key_contexts lib False k2))
     (map_option (Pair True) (init_key_contexts lib True k2))" for k2
    using contexts_opposite [of lib k2] by (simp add: option.rel_map)
  moreover have "generate_key_expansion_openvpn_prf lib False csid ssid src = generate_key_expansion_openvpn_prf lib True ssid csid src"
    by (simp add: generate_key_expansion_openvpn_prf_def)
  ultimately show ?thesis
    using assms by (auto simp: generate_key_expansion_def opposite_def split: option.splits)
qed

lemma PRF_total:
  assumes "length label + length cs + length ss < 1000" "\<forall>s. csid = Some s \<longrightarrow> length s = SID_SIZE" "\<forall>s. ssid = Some s \<longrightarrow> length s = SID_SIZE"
  shows "openvpn_PRF lib secret label cs ss csid ssid n =
     Some (kl_prf lib (label @ cs @ ss @ (case csid of None \<Rightarrow> [] | Some s \<Rightarrow> s) @ (case ssid of None \<Rightarrow> [] | Some s \<Rightarrow> s)) secret n)"
proof -
  let ?seed = "label @ cs @ ss @ (case csid of None \<Rightarrow> [] | Some s \<Rightarrow> s) @ (case ssid of None \<Rightarrow> [] | Some s \<Rightarrow> s)"
  let ?n = "length label + length cs + length ss + SID_SIZE * 2"
  have sid: "writes (\<lambda>b. case s of None \<Rightarrow> (True, b) | Some sid \<Rightarrow> buf_write b sid) (case s of None \<Rightarrow> [] | Some s \<Rightarrow> s)" for s
    by (cases s) (simp_all add: writes_def)
  have w: "writes (andw (\<lambda>b. buf_write b label) (andw (\<lambda>b. buf_write b cs) (andw (\<lambda>b. buf_write b ss)
        (andw (\<lambda>b. case csid of None \<Rightarrow> (True, b) | Some sid \<Rightarrow> buf_write b sid)
          (\<lambda>b. case ssid of None \<Rightarrow> (True, b) | Some sid \<Rightarrow> buf_write b sid))))) ?seed"
    by (intro writes_andw writes_buf_write sid)
  have a: "alloc_buf (int (length label) + int (length cs) + int (length ss) + int SID_SIZE * 2) = Some (mkbuf [] [] (replicate ?n 0))"
    using assms(1) by (simp add: alloc_buf_def mkbuf_def buf_size_valid_def BUF_SIZE_MAX_def SID_SIZE_def nat_add_distrib)
  have "length ?seed \<le> ?n" using assms(2,3) by (auto split: option.splits)
  moreover have "small [] [] (replicate ?n 0)" using assms(1) by (simp add: small_def SID_SIZE_def BUF_SIZE_MAX_def)
  ultimately show ?thesis
    unfolding openvpn_PRF_def a using writesD [OF w, of "[]" "[]" "replicate ?n 0"] by simp
qed

lemma implicit_iv_total:
  "(kl_aead lib \<Longrightarrow> 12 \<le> kl_iv_size lib \<and> kl_iv_size lib \<le> 20) \<Longrightarrow>
     key_ctx_update_implicit_iv lib ctx k MAX_HMAC_KEY_LENGTH \<noteq> None"
  by (auto simp: key_ctx_update_implicit_iv_def Let_def OPENVPN_AEAD_MIN_IV_LEN_def OPENVPN_MAX_IV_LENGTH_def MAX_HMAC_KEY_LENGTH_def)

lemma un_be16_ge:
  assumes "8 \<le> (c :: byte)"
  shows "2048 \<le> uint (un_be16 [c, d])"
proof -
  have c: "8 \<le> uint c" using assms by (simp add: word_le_def)
  have "uint (ucast c :: u16) = uint c" using uint_lt2p [of c] by (simp add: unsigned_ucast_eq take_bit_int_eq_self_iff)
  then have "uint (push_bit 8 (ucast c :: u16)) = uint c * 256"
    using uint_lt2p [of c] by (simp add: push_bit_eq_mult uint_mult_lem [THEN iffD1])
  moreover have "uint (push_bit 8 (ucast c :: u16)) \<le> uint (push_bit 8 (ucast c) OR ucast d :: u16)"
    by (simp add: unsigned_or_eq or_greater_eq)
  ultimately show ?thesis using c by (simp add: un_be16_def)
qed

lemma read_u16_two: "buf_read_u16 (mkbuf q (a # b # r) post) = (uint (un_be16 [a, b]), mkbuf (q @ [a, b]) r post)"
  by (simp add: buf_read_u16_def buf_read_mkbuf)

subsection \<open>Properties\<close>

text \<open>
  A message of key method 2 (client or server form, with or without credentials and peer
  information) fits its plaintext buffer when it is no longer than it, and the other end reads
  from it exactly the key source half, the options string and the peer information that were
  written, and decides on authentication with the user name and password that were written.
\<close>

theorem key_message_roundtrip:
  assumes "opts_ok opts" "draws (km_server opts) rand k" "live b" "int (length (km_wire opts k)) \<le> bcap b"
    and "ke_server env = (\<not> km_server opts)"
    and "auth_user env (map_option (cstring \<circ> fst) (km_user_pass opts)) (map_option (cstring \<circ> snd) (km_user_pass opts)) = Some a"
  shows "\<exists>b' st' b''. key_method_2_write rand opts k2 b = Some (True, set_half (km_server opts) k k2, b')
     \<and> key_method_2_read env st (mkbuf pre (content b') post) = (True, st', b'')
     \<and> kr_key_src st' = set_half (km_server opts) k (kr_key_src st)
     \<and> kr_peer_info st' = map_option cstring (km_peer_info opts)
     \<and> kr_authenticated st' = auth_checks env (cstring (km_local_options opts)) a"
proof -
  have "source_ok (km_server opts) k" using assms(2) by (simp add: draws_def)
  with write_message [OF assms(1-4)] read_message [OF assms(1) _ assms(5,6)] show ?thesis
    by metis
qed

text \<open>
  C21: the client writes its message, the server reads it and answers, the client reads the answer:
  then both hold the same key source, and when each derives its data channel keys, from the PRF
  or from the exported key material of the TLS session, either both fail, or the client's
  encrypting context (key and implicit IV) is the server's decrypting one and the other way round.
\<close>

theorem data_channel_keys_agree:
  assumes "opts_ok c" "\<not> km_server c" "draws False crand ck" "live cb" "int (length (km_wire c ck)) \<le> bcap cb"
    and "opts_ok s" "km_server s" "draws True srand sk" "live sb" "int (length (km_wire s sk)) \<le> bcap sb"
    and "ke_server senv" "auth_user senv (map_option (cstring \<circ> fst) (km_user_pass c)) (map_option (cstring \<circ> snd) (km_user_pass c)) = Some sa"
    and "\<not> ke_server cenv" "auth_user cenv (map_option (cstring \<circ> fst) (km_user_pass s)) (map_option (cstring \<circ> snd) (km_user_pass s)) = Some ca"
    and "\<not> kb_initialized cctx" "\<not> kb_initialized sctx" "kr_key_src sst = key_source2_clear"
  shows "\<exists>c2 cmsg sst' x s2 smsg cst' y.
       key_method_2_write crand c key_source2_clear cb = Some (True, c2, cmsg)
     \<and> key_method_2_read senv sst (mkbuf [] (content cmsg) spost) = (True, sst', x)
     \<and> key_method_2_write srand s (kr_key_src sst') sb = Some (True, s2, smsg)
     \<and> key_method_2_read cenv (cst\<lparr>kr_key_src := c2\<rparr>) (mkbuf [] (content smsg) cpost) = (True, cst', y)
     \<and> kr_key_src cst' = s2
     \<and> rel_option opposite (generate_key_expansion lib False csid ssid (kr_key_src cst') cctx)
         (generate_key_expansion lib True ssid csid s2 sctx)"
proof -
  note rd = read_message
  obtain cmsg where 1: "key_method_2_write crand c key_source2_clear cb = Some (True, set_half False ck key_source2_clear, cmsg)"
      "content cmsg = km_wire c ck"
    using write_message [OF assms(1) _ assms(4,5)] assms(2,3) by force
  obtain sst' x where 2: "key_method_2_read senv sst (mkbuf [] (km_wire c ck) spost) = (True, sst', x)"
      "kr_key_src sst' = set_half False ck key_source2_clear"
    using read_message [OF assms(1), of ck senv sa sst "[]" spost] assms(2,3,11,12,17) by (auto simp: draws_def)
  obtain smsg where 3: "key_method_2_write srand s (kr_key_src sst') sb = Some (True, set_half True sk (kr_key_src sst'), smsg)"
      "content smsg = km_wire s sk"
    using write_message [OF assms(6) _ assms(9,10)] assms(7,8) by force
  let ?cst = "cst\<lparr>kr_key_src := set_half False ck key_source2_clear\<rparr>"
  obtain cst' y where 4: "key_method_2_read cenv ?cst (mkbuf [] (km_wire s sk) cpost) = (True, cst', y)"
      "kr_key_src cst' = set_half True sk (kr_key_src ?cst)"
    using read_message [OF assms(6), of sk cenv ca ?cst "[]" cpost] assms(7,8,13,14) by (auto simp: draws_def)
  have "kr_key_src cst' = set_half True sk (kr_key_src sst')" using 2(2) 4(2) by simp
  with 1 2 3 4 expansion_opposite [OF assms(15,16), of lib csid ssid "kr_key_src cst'"] show ?thesis
    by (metis (full_types))
qed

text \<open>
  Deriving the keys never reaches a failing assertion: the seed buffer always fits, and the
  implicit IVs fit for every AEAD cipher with an IV of 12 to 20 bytes.
\<close>

theorem key_generation_total:
  assumes "length sid = SID_SIZE" "length remote_sid = SID_SIZE" "source_ok False (src_client src)" "source_ok True (src_server src)"
    and "kl_aead lib \<Longrightarrow> 12 \<le> kl_iv_size lib \<and> kl_iv_size lib \<le> 20"
  shows "\<exists>ok key'. generate_key_expansion lib server sid remote_sid src key = Some (ok, key')"
proof -
  have len: "length (bytes_of ''OpenVPN master secret'') = 21" "length (bytes_of ''OpenVPN key expansion'') = 21"
    by (simp_all add: bytes_of_def)
  have "generate_key_expansion_openvpn_prf lib server sid remote_sid src \<noteq> None"
    using assms(1-4) len
    by (simp add: generate_key_expansion_openvpn_prf_def Let_def PRF_total source_ok_def SID_SIZE_def split: option.splits)
  moreover have "(key_ctx_update_implicit_iv lib ctx k MAX_HMAC_KEY_LENGTH = None) = False" for ctx k
    using implicit_iv_total [of lib, OF assms(5)] by blast
  then have "init_key_contexts lib server k2 \<noteq> None" for k2
    by (auto simp: init_key_contexts_def Let_def split: option.splits simp del: not_None_eq)
  ultimately show ?thesis
    by (auto simp: generate_key_expansion_def split: option.splits if_splits)
qed

text \<open>
  A user name of 128 bytes or more is not skipped: a reader that does not check passwords
  accepts the message but takes the following fields from inside the user name and loses the peer
  information, although the peer sent some.
\<close>

theorem long_user_name_loses_peer_info:
  assumes "opts_ok (opts\<lparr>km_user_pass := None\<rparr>)" "km_user_pass opts = Some (replicate n c, p)"
    and "128 \<le> n" "8 \<le> c" "length (km_wire opts k) \<le> 2048" "source_ok (km_server opts) k"
    and "ke_server env = (\<not> km_server opts)" "\<not> ke_user_pass_enabled env" "ke_verified env"
  shows "\<exists>st' b'. key_method_2_read env st (mkbuf pre (km_wire opts k) post) = (True, st', b') \<and> kr_peer_info st' = None"
proof -
  let ?o = "opts\<lparr>km_user_pass := None\<rparr>" and ?u = "replicate n c"
  have n: "length ?u < 2 ^ 16 - 1" using assms(2,5) by (simp add: km_wire_def opt_wire_def str_wire_def)
  have m: "n = Suc (Suc (Suc (Suc (n - 4))))" using assms(3) by simp
  define m where "m = n - 4"
  note m = m [folded m_def]
  define cc where "cc = uint (un_be16 [c, c])"
  have cc: "2048 \<le> cc" unfolding cc_def by (rule un_be16_ge [OF assms(4)])
  define rest where "rest = 0 # opt_wire (Some p) @ opt_wire (km_peer_info opts)"
  have w: "km_wire opts k = be32 0 @ [2] @ source_wire (km_server opts) k @ str_wire (km_local_options opts) @ str_wire ?u
      @ opt_wire (Some p) @ opt_wire (km_peer_info opts)"
    using assms(2) by (simp add: km_wire_def opt_wire_def)
  have len: "length rest + m < 2048" using assms(5) unfolding w by (simp add: rest_def str_wire_def m)
  have 1: "buf_advance (mkbuf pre (be32 0 @ r) post) 4 = (True, mkbuf (pre @ be32 0) r post)" for r
    by (simp add: buf_advance_mkbuf)
  have 2: "buf_read_u8 (mkbuf q (2 # r) post) = (2, mkbuf (q @ [2]) r post)" for q r
    by (simp add: buf_read_u8_mkbuf)
  note src = source_read_reads [OF assms(6), folded assms(7), THEN readsD]
  have mk: "(2 :: int) AND KEY_METHOD_MASK = 2" by (simp add: KEY_METHOD_MASK_def)
  have o: "read_string TLS_OPTIONS_LEN (mkbuf q (str_wire (km_local_options opts) @ r) post)
     = (Some (cstring (km_local_options opts)), mkbuf (q @ str_wire (km_local_options opts)) r post)" for q r
    using read_fields(1) [OF assms(1), THEN readsD] by simp
  have u: "read_string USER_PASS_LEN (mkbuf q (str_wire ?u @ opt_wire (Some p) @ opt_wire (km_peer_info opts)) post)
     = (None, mkbuf (q @ be16 (word_of_int (int n + 1))) (c # c # c # c # replicate m c @ rest) post)" for q
    using read_body [OF n, of q "opt_wire (Some p) @ opt_wire (km_peer_info opts)" post] assms(3)
    by (simp add: read_string_def USER_PASS_LEN_def rest_def m)
  have s: "read_string USER_PASS_LEN (mkbuf q (c # c # c # c # r) post) = (None, mkbuf (q @ [c, c]) (c # c # r) post)" for q r
    using cc by (simp add: read_string_def read_u16_two USER_PASS_LEN_def flip: cc_def)
  have i: "fst (read_string_alloc (mkbuf q (c # c # replicate m c @ rest) post)) = None" for q
    using cc len by (simp add: read_string_alloc_def read_u16_two buf_read_mkbuf flip: cc_def)
  show ?thesis
    unfolding key_method_2_read_def w append.assoc append_Cons append_Nil 1 2 prod.case bool.case src o option.case mk
      u s
    using assms(8,9) i by (simp add: km2_peer_fields_def Let_def auth_user_def case_prod_beta)
qed

subsection \<open>Concrete messages\<close>

definition ex_client :: km2_opts where
  "ex_client = \<lparr>km_server = False, km_local_options = [86, 52], km_user_pass = Some ([117], [112]), km_peer_info = Some [73, 86]\<rparr>"

definition ex_server :: km2_opts where
  "ex_server = \<lparr>km_server = True, km_local_options = [86, 53], km_user_pass = None, km_peer_info = None\<rparr>"

definition ex_source :: "bool \<Rightarrow> key_source" where
  "ex_source server = \<lparr>src_pre_master = (if server then replicate 48 0 else replicate 48 7),
     src_random1 = replicate 32 1, src_random2 = replicate 32 2\<rparr>"

definition ex_rand :: "nat \<Rightarrow> byte list option" where
  "ex_rand i = Some (if i = 0 then replicate 48 7 else if i = 1 then replicate 32 1 else replicate 32 2)"

definition ex_env :: "bool \<Rightarrow> km2_env" where
  "ex_env server = \<lparr>ke_server = server, ke_user_pass_enabled = server, ke_user_pass_optional = False,
     ke_verify_user_pass = (\<lambda>u p. if u = [117] \<and> p = [112] then KS_AUTH_TRUE else KS_AUTH_FALSE),
     ke_verified = True, ke_final_auth_checks = (\<lambda>a. a), ke_disable_occ = True, ke_options_equal = (\<lambda>s. True),
     ke_opt_verify = False, ke_tls_final = None\<rparr>"

definition ex_state :: km2_state where
  "ex_state = \<lparr>kr_key_src = key_source2_clear, kr_authenticated = KS_AUTH_FALSE, kr_peer_info = None,
     kr_remote_ciphername = None, kr_remote_usescomp = False\<rparr>"

definition ex_lib :: key_lib where
  "ex_lib = \<lparr>kl_prf = (\<lambda>seed secret n. Some (take (nat n) (seed @ replicate 256 9))), kl_export = None,
     kl_use_export = False, kl_fixup = (\<lambda>k. k), kl_cipher = True, kl_cipher_length = 32, kl_des_cblocks = 0,
     kl_des_check = (\<lambda>s. True), kl_aead = True, kl_iv_size = 12\<rparr>"

definition ex_ctx :: key_ctx_bi where
  "ex_ctx = \<lparr>kb_encrypt = \<lparr>kx_key = \<lparr>k_cipher = [], k_hmac = []\<rparr>, kx_implicit_iv = []\<rparr>,
     kb_decrypt = \<lparr>kx_key = \<lparr>k_cipher = [], k_hmac = []\<rparr>, kx_implicit_iv = []\<rparr>, kb_initialized = False\<rparr>"

definition ex_buf :: buffer where "ex_buf = mkbuf [] [] (replicate 200 0)"

lemma ex_facts:
  "opts_ok ex_client" "opts_ok ex_server" "\<not> km_server ex_client" "km_server ex_server"
  "draws False ex_rand (ex_source False)" "draws True ex_rand (ex_source True)" "live ex_buf" "bcap ex_buf = 200"
  "int (length (km_wire ex_client (ex_source False))) \<le> 200" "int (length (km_wire ex_server (ex_source True))) \<le> 200"
  "ke_server (ex_env b) = b"
  by (simp_all add: opts_ok_def field_ok_def ex_client_def ex_server_def draws_def source_ok_def ex_rand_def ex_source_def
      ex_buf_def small_def BUF_SIZE_MAX_def km_wire_def source_wire_def opt_wire_def str_wire_def ex_env_def mkbuf_live
      del: mkbuf_simps) (simp_all add: mkbuf_def)?

lemma ex_auth:
  "auth_user (ex_env True) (map_option (cstring \<circ> fst) (km_user_pass ex_client)) (map_option (cstring \<circ> snd) (km_user_pass ex_client)) = Some KS_AUTH_TRUE"
  "auth_user (ex_env False) (map_option (cstring \<circ> fst) (km_user_pass ex_server)) (map_option (cstring \<circ> snd) (km_user_pass ex_server)) = Some KS_AUTH_TRUE"
  by (simp_all add: auth_user_def ex_env_def ex_client_def ex_server_def cstring_def c_str_def)

theorem key_message_roundtrip_witness:
  "\<exists>b' st' b''. key_method_2_write ex_rand ex_client key_source2_clear ex_buf
       = Some (True, set_half False (ex_source False) key_source2_clear, b')
     \<and> key_method_2_read (ex_env True) ex_state (mkbuf [] (content b') []) = (True, st', b'')
     \<and> kr_peer_info st' = Some [73, 86, 0] \<and> kr_authenticated st' = KS_AUTH_TRUE"
  using key_message_roundtrip [of ex_client ex_rand "ex_source False" ex_buf "ex_env True" KS_AUTH_TRUE key_source2_clear ex_state "[]" "[]"]
    ex_facts ex_auth
  by (auto simp: auth_checks_def ex_env_def ex_client_def cstring_def)

theorem data_channel_keys_agree_witness:
  "\<exists>c2 cmsg sst' x s2 smsg cst' y.
       key_method_2_write ex_rand ex_client key_source2_clear ex_buf = Some (True, c2, cmsg)
     \<and> key_method_2_read (ex_env True) ex_state (mkbuf [] (content cmsg) []) = (True, sst', x)
     \<and> key_method_2_write ex_rand ex_server (kr_key_src sst') ex_buf = Some (True, s2, smsg)
     \<and> key_method_2_read (ex_env False) (ex_state\<lparr>kr_key_src := c2\<rparr>) (mkbuf [] (content smsg) []) = (True, cst', y)
     \<and> kr_key_src cst' = s2"
proof -
  have src: "kr_key_src ex_state = key_source2_clear" by (simp add: ex_state_def)
  have len: "int (length (km_wire ex_client (ex_source False))) \<le> bcap ex_buf"
      "int (length (km_wire ex_server (ex_source True))) \<le> bcap ex_buf"
      "ke_server (ex_env True)" "\<not> ke_server (ex_env False)" "\<not> kb_initialized ex_ctx"
    using ex_facts(9,10) by (simp_all add: ex_facts(8,11) ex_ctx_def)
  from data_channel_keys_agree [OF ex_facts(1,3,5,7) len(1) ex_facts(2,4,6,7) len(2,3) ex_auth(1) len(4) ex_auth(2)
      len(5,5) src, of "[]" ex_state "[]" ex_lib "replicate 8 1" "replicate 8 2"]
  show ?thesis by (elim exE conjE) (intro exI conjI; assumption)
qed

theorem key_generation_total_witness:
  "\<exists>ok key'. generate_key_expansion ex_lib False (replicate 8 1) (replicate 8 2)
     \<lparr>src_client = ex_source False, src_server = ex_source True\<rparr> ex_ctx = Some (ok, key')"
  by (rule key_generation_total) (simp_all add: SID_SIZE_def source_ok_def ex_source_def ex_lib_def)

theorem long_user_name_loses_peer_info_witness:
  "\<exists>st' b'. key_method_2_read (ex_env False\<lparr>ke_server := True\<rparr>) ex_state
     (mkbuf [] (km_wire (ex_client\<lparr>km_user_pass := Some (replicate 130 97, [112])\<rparr>) (ex_source False)) []) = (True, st', b')
     \<and> kr_peer_info st' = None"
  by (rule long_user_name_loses_peer_info [where p = "[112]" and n = 130 and c = 97])
    (simp_all add: opts_ok_def field_ok_def ex_client_def ex_env_def source_ok_def ex_source_def
      km_wire_def source_wire_def opt_wire_def str_wire_def)

end
