(* ===== verification/Tls_Crypt.thy ===== *)
theory Tls_Crypt
  imports Cbc_Crypto Key_Method
begin

text \<open>
  Control channel encryption of \<^verbatim>\<open>tls_crypt.c\<close>: wrapping and unwrapping a control packet
  (\<open>--tls-crypt\<close>), the wrapped client key of \<open>--tls-crypt-v2\<close>, and its extraction by the server.

  The cipher is AES-CTR and the MAC HMAC-SHA-256 of the library; the tag of the plaintext is the IV.
  Successive updates of a cipher context produce what one update with the joined input produces.
\<close>

definition TLS_CRYPT_TAG_SIZE :: int where "TLS_CRYPT_TAG_SIZE = 256 div 8"
definition TLS_CRYPT_PID_SIZE :: int where "TLS_CRYPT_PID_SIZE = 4 + 4"
definition TLS_CRYPT_BLOCK_SIZE :: int where "TLS_CRYPT_BLOCK_SIZE = 128 div 8"
definition TLS_CRYPT_OFF_PID :: int where "TLS_CRYPT_OFF_PID = 1 + 8"
definition TLS_CRYPT_OFF_TAG :: int where "TLS_CRYPT_OFF_TAG = TLS_CRYPT_OFF_PID + TLS_CRYPT_PID_SIZE"
definition TLS_CRYPT_OFF_CT :: int where "TLS_CRYPT_OFF_CT = TLS_CRYPT_OFF_TAG + TLS_CRYPT_TAG_SIZE"
definition TLS_CRYPT_V2_MAX_WKC_LEN :: int where "TLS_CRYPT_V2_MAX_WKC_LEN = 1024"
definition TLS_CRYPT_V2_CLIENT_KEY_LEN :: int where "TLS_CRYPT_V2_CLIENT_KEY_LEN = 2048 div 8"
definition TLS_CRYPT_V2_MAX_METADATA_LEN :: int where
  "TLS_CRYPT_V2_MAX_METADATA_LEN = TLS_CRYPT_V2_MAX_WKC_LEN - (TLS_CRYPT_V2_CLIENT_KEY_LEN + TLS_CRYPT_TAG_SIZE + 2)"

lemmas tls_crypt_sizes = TLS_CRYPT_TAG_SIZE_def TLS_CRYPT_PID_SIZE_def TLS_CRYPT_BLOCK_SIZE_def TLS_CRYPT_OFF_PID_def
  TLS_CRYPT_OFF_TAG_def TLS_CRYPT_OFF_CT_def TLS_CRYPT_V2_MAX_WKC_LEN_def TLS_CRYPT_V2_CLIENT_KEY_LEN_def
  TLS_CRYPT_V2_MAX_METADATA_LEN_def

definition tls_crypt_buf_overhead :: int where
  "tls_crypt_buf_overhead = packet_id_size True + TLS_CRYPT_TAG_SIZE + TLS_CRYPT_BLOCK_SIZE"

definition tls_crypt_adjust_frame_parameters :: "frame \<Rightarrow> frame" where
  "tls_crypt_adjust_frame_parameters fr = frame_add_to_extra_frame tls_crypt_buf_overhead fr"

text \<open>Output written at the start of a buffer's content, then counted: \<open>BPTR\<close> and \<open>buf_inc_len\<close>.\<close>

definition out_front :: "buffer \<Rightarrow> byte list \<Rightarrow> bool \<times> buffer" where
  "out_front b bs = buf_inc_len (poke b (boff b) bs) (int (length bs))"

definition tls_crypt_wrap ::
  "time_t \<Rightarrow> buffer \<Rightarrow> buffer \<Rightarrow> data_options \<Rightarrow> (bool \<times> buffer \<times> data_options) option" where
  "tls_crypt_wrap now src dst opt =
     (case (cx_cipher (do_encrypt opt), cx_hmac (do_encrypt opt)) of
        (Some c, Some h) \<Rightarrow>
          if \<not> packet_id_initialized (do_packet_id opt) \<or> hm_size h \<noteq> 256 div 8 then None
          else (case packet_id_write now (pid_send (do_packet_id opt)) dst True False of
                  (False, s, d1) \<Rightarrow> Some (False, d1\<lparr>blen := 0\<rparr>, set_send s opt)
                | (True, s, d1) \<Rightarrow>
                    if \<not> buf_safe d1 (buf_len src + TLS_CRYPT_BLOCK_SIZE + TLS_CRYPT_TAG_SIZE)
                    then Some (False, d1\<lparr>blen := 0\<rparr>, set_send s opt)
                    else (let tag = hm_mac h (content d1 @ content src) in
                          case buf_write_alloc d1 TLS_CRYPT_TAG_SIZE of
                            (None, _) \<Rightarrow> None
                          | (Some p, d2) \<Rightarrow>
                              (let d3 = poke d2 p tag; iv = take (nat (ci_iv_len c)) tag in
                               if \<not> ci_reset c iv then None
                               else (case (ci_update c iv [] (content src), ci_final c iv [] (content src)) of
                                       (Some out, Some fin) \<Rightarrow>
                                         (case out_append d3 out of
                                            (False, _) \<Rightarrow> None
                                          | (True, d4) \<Rightarrow>
                                              (case out_front d4 fin of
                                                 (False, _) \<Rightarrow> None
                                               | (True, d5) \<Rightarrow> Some (True, d5, set_send s opt)))
                                     | _ \<Rightarrow> None))))
      | _ \<Rightarrow> None)"

definition tls_crypt_unwrap ::
  "time_t \<Rightarrow> buffer \<Rightarrow> buffer \<Rightarrow> data_options \<Rightarrow> (bool \<times> buffer \<times> data_options) option" where
  "tls_crypt_unwrap now src dst opt =
     (case (cx_cipher (do_decrypt opt), cx_hmac (do_decrypt opt)) of
        (Some c, Some h) \<Rightarrow>
          if \<not> blen src > 0 \<or> \<not> (packet_id_initialized (do_packet_id opt) \<or> do_ignore_packet_id opt) then None
          else let fail = (\<lambda>d. Some (False, d\<lparr>blen := 0\<rparr>, opt)) in
          if buf_len src < TLS_CRYPT_OFF_CT then fail dst
          else if \<not> buf_safe dst (buf_len src - TLS_CRYPT_OFF_CT + TLS_CRYPT_BLOCK_SIZE) then fail dst
          else let tag = take (nat TLS_CRYPT_TAG_SIZE) (drop (nat TLS_CRYPT_OFF_TAG) (content src));
                   iv = take (nat (ci_iv_len c)) tag;
                   ct = drop (nat TLS_CRYPT_OFF_CT) (content src)
          in if \<not> ci_reset c iv then fail dst
          else (case ci_update c iv [] ct of
                  None \<Rightarrow> fail dst
                | Some out \<Rightarrow>
                    (case out_front dst out of
                       (False, _) \<Rightarrow> None
                     | (True, d1) \<Rightarrow>
                         (case ci_final c iv [] ct of
                            None \<Rightarrow> fail d1
                          | Some fin \<Rightarrow>
                              (case out_front d1 fin of
                                 (False, _) \<Rightarrow> None
                               | (True, d2) \<Rightarrow>
                                   (let tag_check = take (nat TLS_CRYPT_TAG_SIZE)
                                          (hm_mac h (take (nat TLS_CRYPT_OFF_TAG) (content src) @ content d2))
                                    in if tag \<noteq> tag_check then fail d2
                                    else if do_ignore_packet_id opt then Some (True, d2, opt)
                                    else (case buf_advance src TLS_CRYPT_OFF_PID of
                                            (False, _) \<Rightarrow> None
                                          | (True, tmp) \<Rightarrow>
                                              (case packet_id_read tmp True of
                                                 (False, _, _) \<Rightarrow> None
                                               | (True, pin, _) \<Rightarrow>
                                                   (case crypto_check_replay now (do_core opt) pin of
                                                      None \<Rightarrow> None
                                                    | Some (False, core1) \<Rightarrow> Some (False, d2\<lparr>blen := 0\<rparr>, opt\<lparr>do_core := core1\<rparr>)
                                                    | Some (True, core1) \<Rightarrow> Some (True, d2, opt\<lparr>do_core := core1\<rparr>)))))))))
      | _ \<Rightarrow> None)"

subsection \<open>The wrapped client key\<close>

text \<open>\<open>keys\<close> is the memory of the two client keys, \<open>TLS_CRYPT_V2_CLIENT_KEY_LEN\<close> bytes.\<close>

definition tls_crypt_v2_wrap_client_key ::
  "buffer \<Rightarrow> byte list \<Rightarrow> buffer \<Rightarrow> crypt_ctx \<Rightarrow> (bool \<times> buffer) option" where
  "tls_crypt_v2_wrap_client_key wkc keys metadata server_key =
     (case (cx_cipher server_key, cx_hmac server_key) of
        (Some c, Some h) \<Rightarrow>
          (case alloc_buf (TLS_CRYPT_V2_MAX_WKC_LEN + ci_block_size c) of
             None \<Rightarrow> None
           | Some work \<Rightarrow>
               (case buf_write_alloc work TLS_CRYPT_TAG_SIZE of
                  (None, _) \<Rightarrow> Some (False, wkc)
                | (Some p, w1) \<Rightarrow>
                    (let net_len = be16 (word_of_int (TLS_CRYPT_V2_CLIENT_KEY_LEN + buf_len metadata + TLS_CRYPT_TAG_SIZE + 2));
                         tag = hm_mac h (net_len @ keys @ content metadata);
                         w2 = poke w1 p tag; iv = take (nat (ci_iv_len c)) tag; m = keys @ content metadata
                     in if \<not> ci_reset c iv then None
                        else if buf_forward_capacity w2 < TLS_CRYPT_V2_CLIENT_KEY_LEN + buf_len metadata + 2 + ci_block_size c
                        then Some (False, wkc)
                        else (case (ci_update c iv [] m, ci_final c iv [] m) of
                                (Some out, Some fin) \<Rightarrow>
                                  (case out_append w2 out of
                                     (False, _) \<Rightarrow> None
                                   | (True, w3) \<Rightarrow>
                                       (case out_append w3 fin of
                                          (False, _) \<Rightarrow> None
                                        | (True, w4) \<Rightarrow>
                                            (case buf_write w4 net_len of
                                               (False, _) \<Rightarrow> None
                                             | (True, w5) \<Rightarrow> Some (buf_copy wkc w5))))
                              | _ \<Rightarrow> None))))
      | _ \<Rightarrow> None)"

definition tls_crypt_v2_unwrap_client_key ::
  "buffer \<Rightarrow> buffer \<Rightarrow> crypt_ctx \<Rightarrow> (byte list option \<times> buffer) option" where
  "tls_crypt_v2_unwrap_client_key metadata wkc server_key =
     (case (cx_cipher server_key, cx_hmac server_key) of
        (Some c, Some h) \<Rightarrow>
          let fail = Some (None, metadata); net_len = drop (nat (buf_len wkc) - 2) (content wkc) in
          if TLS_CRYPT_V2_MAX_WKC_LEN < buf_len wkc then fail
          else if buf_len wkc < 2 then fail
          else if uint (un_be16 net_len) \<noteq> buf_len wkc then fail
          else let w1 = snd (buf_inc_len wkc (- 2)) in
          (case buf_advance w1 TLS_CRYPT_TAG_SIZE of
             (False, _) \<Rightarrow> fail
           | (True, w2) \<Rightarrow>
               let tag = take (nat TLS_CRYPT_TAG_SIZE) (content w1); iv = take (nat (ci_iv_len c)) tag; ct = content w2 in
               if \<not> ci_reset c iv then fail
               else (case ci_update c iv [] ct of
                       None \<Rightarrow> fail
                     | Some out \<Rightarrow>
                         (case out_append (mkbuf [] [] (replicate (nat TLS_CRYPT_V2_MAX_WKC_LEN) 0)) out of
                            (False, _) \<Rightarrow> None
                          | (True, p1) \<Rightarrow>
                              (case ci_final c iv [] ct of
                                 None \<Rightarrow> fail
                               | Some fin \<Rightarrow>
                                   (case out_append p1 fin of
                                      (False, _) \<Rightarrow> None
                                    | (True, p2) \<Rightarrow>
                                        if tag \<noteq> take (nat TLS_CRYPT_TAG_SIZE) (hm_mac h (net_len @ content p2)) then fail
                                        else if buf_len p2 < TLS_CRYPT_V2_CLIENT_KEY_LEN then fail
                                        else (case buf_advance p2 TLS_CRYPT_V2_CLIENT_KEY_LEN of
                                                (False, _) \<Rightarrow> None
                                              | (True, p3) \<Rightarrow>
                                                  (case buf_copy metadata p3 of
                                                     (False, md) \<Rightarrow> Some (None, md)
                                                   | (True, md) \<Rightarrow>
                                                       Some (Some (take (nat TLS_CRYPT_V2_CLIENT_KEY_LEN) (content p2)), md))))))))
      | _ \<Rightarrow> None)"

subsection \<open>The wrapping context of a session\<close>

datatype tls_wrap_mode = TLS_WRAP_NONE | TLS_WRAP_AUTH | TLS_WRAP_CRYPT

record tls_wrap_ctx =
  tw_mode :: tls_wrap_mode
  tw_opt :: data_options
  tw_work :: buffer
  tw_server_key :: crypt_ctx
  tw_wkc :: "buffer option"
  tw_metadata :: buffer
  tw_cleanup_key_ctx :: bool

text \<open>
  \<open>mk\<close> sets up a library context with a key, for encrypting or decrypting. The verification script
  sees the metadata's type and its remaining bytes.
\<close>

definition tls_crypt_v2_load_client_key :: "(key \<Rightarrow> bool \<Rightarrow> crypt_ctx) \<Rightarrow> byte list \<Rightarrow> bool \<Rightarrow> data_options \<Rightarrow> data_options" where
  "tls_crypt_v2_load_client_key mk keys server opt =
     (let kb = init_key_ctx_bi \<lparr>k2_n = 2, k2_keys = keys_of_bytes keys\<rparr> (if server then KEY_DIRECTION_NORMAL else KEY_DIRECTION_INVERSE)
      in opt\<lparr>do_encrypt := mk (kx_key (kb_encrypt kb)) True, do_decrypt := mk (kx_key (kb_decrypt kb)) False\<rparr>)"

definition tls_crypt_v2_verify_metadata :: "(int \<Rightarrow> byte list \<Rightarrow> bool) \<Rightarrow> tls_wrap_ctx \<Rightarrow> bool" where
  "tls_crypt_v2_verify_metadata script ctx =
     (case buf_read_u8 (tw_metadata ctx) of (ty, md) \<Rightarrow> if ty < 0 then False else script ty (content md))"

definition tls_crypt_v2_extract_client_key ::
  "(key \<Rightarrow> bool \<Rightarrow> crypt_ctx) \<Rightarrow> (int \<Rightarrow> byte list \<Rightarrow> bool) option \<Rightarrow> buffer \<Rightarrow> tls_wrap_ctx
     \<Rightarrow> (bool \<times> buffer \<times> tls_wrap_ctx) option" where
  "tls_crypt_v2_extract_client_key mk script buf ctx =
     (if cx_cipher (tw_server_key ctx) = None then Some (False, buf, ctx)
      else let net_len = mem_read (block buf) (nat (boff buf + buf_len buf - 2)) 2 in
      case buf_advance buf (buf_len buf - uint (un_be16 net_len)) of
        (False, _) \<Rightarrow> Some (False, buf, ctx)
      | (True, wkc) \<Rightarrow>
          (case alloc_buf TLS_CRYPT_V2_MAX_METADATA_LEN of
             None \<Rightarrow> None
           | Some md \<Rightarrow>
               (case tls_crypt_v2_unwrap_client_key md wkc (tw_server_key ctx) of
                  None \<Rightarrow> None
                | Some (None, md1) \<Rightarrow> Some (False, buf, ctx\<lparr>tw_metadata := md1\<rparr>)
                | Some (Some keys, md1) \<Rightarrow>
                    (let opt = tw_opt ctx;
                         opt1 = tls_crypt_v2_load_client_key mk keys True (opt\<lparr>do_core := (do_core opt)\<lparr>co_long_form := True\<rparr>\<rparr>);
                         ctx1 = ctx\<lparr>tw_metadata := md1, tw_mode := TLS_WRAP_CRYPT, tw_cleanup_key_ctx := True, tw_opt := opt1\<rparr>
                     in case buf_inc_len buf (- buf_len wkc) of
                          (False, _) \<Rightarrow> None
                        | (True, buf1) \<Rightarrow>
                            Some (case script of None \<Rightarrow> True | Some f \<Rightarrow> tls_crypt_v2_verify_metadata f ctx1, buf1, ctx1)))))"

subsection \<open>Wrapping and unwrapping\<close>

definition ctr_pair :: "cipher \<Rightarrow> cipher \<Rightarrow> bool" where
  "ctr_pair e d \<longleftrightarrow> (\<forall>iv. ci_reset e iv \<and> ci_reset d iv) \<and> ci_iv_len d = ci_iv_len e
     \<and> 0 \<le> ci_block_size e \<and> ci_block_size e \<le> 16
     \<and> (\<forall>iv m. \<exists>x. ci_update e iv [] m = Some x \<and> ci_final e iv [] m = Some [] \<and> length x = length m
          \<and> ci_update d iv [] x = Some m \<and> ci_final d iv [] x = Some [])"

definition sha256_law :: "hmac \<Rightarrow> bool" where
  "sha256_law h \<longleftrightarrow> hm_size h = 32 \<and> (\<forall>bs. length (hm_mac h bs) = 32)"

definition siv_seal :: "cipher \<Rightarrow> hmac \<Rightarrow> byte list \<Rightarrow> byte list \<Rightarrow> byte list" where
  "siv_seal e h ad m =
     (let tag = hm_mac h (ad @ m) in tag @ the (ci_update e (take (nat (ci_iv_len e)) tag) [] m))"

lemma siv_sealE:
  assumes "ctr_pair e d" "sha256_law h"
  obtains tag x where "siv_seal e h ad m = tag @ x" "tag = hm_mac h (ad @ m)" "length tag = 32" "length x = length m"
    "ci_update e (take (nat (ci_iv_len e)) tag) [] m = Some x" "ci_final e (take (nat (ci_iv_len e)) tag) [] m = Some []"
    "ci_update d (take (nat (ci_iv_len e)) tag) [] x = Some m" "ci_final d (take (nat (ci_iv_len e)) tag) [] x = Some []"
proof -
  let ?tag = "hm_mac h (ad @ m)"
  obtain x where "ci_update e (take (nat (ci_iv_len e)) ?tag) [] m = Some x" "ci_final e (take (nat (ci_iv_len e)) ?tag) [] m = Some []"
    "length x = length m" "ci_update d (take (nat (ci_iv_len e)) ?tag) [] x = Some m" "ci_final d (take (nat (ci_iv_len e)) ?tag) [] x = Some []"
    using assms(1) unfolding ctr_pair_def by metis
  then show thesis using that [of ?tag x] assms(2) by (simp add: siv_seal_def Let_def sha256_law_def)
qed

lemma out_front_empty: "small pre [] post \<Longrightarrow> length bs \<le> length post \<Longrightarrow> out_front (mkbuf pre [] post) bs = (True, mkbuf pre bs (drop (length bs) post))"
  using out_append_mkbuf [of pre "[]" post bs] by (simp add: out_front_def out_append_def)

lemma out_front_nil: "small pre c post \<Longrightarrow> out_front (mkbuf pre c post) [] = (True, mkbuf pre c post)"
proof -
  assume s: "small pre c post"
  have "poke (mkbuf pre c post) (int (length pre)) [] = mkbuf pre c post"
    by (rule mkbuf_eqI) (simp_all add: poke_def mkbuf_def mem_write_def)
  then show ?thesis using s buf_inc_len_mkbuf [OF s, of 0] by (simp add: out_front_def)
qed

lemma out_append_nil: "small pre c post \<Longrightarrow> out_append (mkbuf pre c post) [] = (True, mkbuf pre c post)"
  using out_append_mkbuf [of pre c post "[]"] by simp

lemma tls_crypt_wrap_spec:
  assumes laws: "ctr_pair e d" "sha256_law h" and ctx: "cx_cipher (do_encrypt opt) = Some e" "cx_hmac (do_encrypt opt) = Some h"
    and pid: "packet_id_initialized (do_packet_id opt)" "packet_id_send_update now (pid_send (do_packet_id opt)) True = (True, s)"
    and room: "small wp hdr wq" "8 + 32 + 16 + length m \<le> length wq"
  shows "\<exists>q. tls_crypt_wrap now (mkbuf bp m bq) (mkbuf wp hdr wq) opt =
     Some (True, mkbuf wp (hdr @ pid_bytes True s @ siv_seal e h (hdr @ pid_bytes True s) m) q, set_send s opt)
     \<and> length q = length wq - (40 + length m)"
proof -
  let ?ad = "hdr @ pid_bytes True s"
  obtain tag x where x: "siv_seal e h ?ad m = tag @ x" "tag = hm_mac h (?ad @ m)" "length tag = 32" "length x = length m"
    "ci_update e (take (nat (ci_iv_len e)) tag) [] m = Some x" "ci_final e (take (nat (ci_iv_len e)) tag) [] m = Some []"
    "ci_update d (take (nat (ci_iv_len e)) tag) [] x = Some m" "ci_final d (take (nat (ci_iv_len e)) tag) [] x = Some []"
    by (rule siv_sealE [OF laws])
  have pl: "length (pid_bytes True s) = 8" by (simp add: pid_bytes_def)
  have 1: "packet_id_write now (pid_send (do_packet_id opt)) (mkbuf wp hdr wq) True False = (True, s, mkbuf wp ?ad (drop 8 wq))"
    using packet_id_write_mkbuf [OF pid(2) room(1)] room(2) by (simp add: pid_bytes_def)
  have s1: "small wp ?ad (drop 8 wq)" using room pl by (simp add: small_def)
  have 2: "buf_safe (mkbuf wp ?ad (drop 8 wq)) (buf_len (mkbuf bp m bq) + TLS_CRYPT_BLOCK_SIZE + TLS_CRYPT_TAG_SIZE)"
    by (rule buf_safe_mkbuf [OF s1]) (use room(2) in \<open>simp_all add: tls_crypt_sizes\<close>)
  have 3: "buf_write_alloc (mkbuf wp ?ad (drop 8 wq)) TLS_CRYPT_TAG_SIZE
      = (Some (int (length wp + length ?ad)), mkbuf wp (?ad @ take 32 (drop 8 wq)) (drop 40 wq))"
    using buf_write_alloc_mkbuf [OF s1, of 32] room(2) by (simp add: tls_crypt_sizes)
  have 4: "poke (mkbuf wp (?ad @ take 32 (drop 8 wq)) (drop 40 wq)) (int (length wp + length ?ad)) tag = mkbuf wp (?ad @ tag) (drop 40 wq)"
    by (rule mkbuf_eqI) (use x(3) room(2) in \<open>simp_all add: poke_def mkbuf_def mem_write_def\<close>)
  have s2: "small wp (?ad @ tag) (drop 40 wq)" using room x(3) pl by (simp add: small_def)
  have 5: "out_append (mkbuf wp (?ad @ tag) (drop 40 wq)) x = (True, mkbuf wp ((?ad @ tag) @ x) (drop (length x) (drop 40 wq)))"
    by (rule out_append_mkbuf [OF s2]) (use room(2) x(4) in simp)
  have s3: "small wp ((?ad @ tag) @ x) (drop (length x) (drop 40 wq))" using s2 room(2) x(4) by (simp add: small_def)
  have "tls_crypt_wrap now (mkbuf bp m bq) (mkbuf wp hdr wq) opt = Some (True, mkbuf wp ((?ad @ tag) @ x) (drop (length x) (drop 40 wq)), set_send s opt)"
    using laws pid(1) unfolding tls_crypt_wrap_def ctx
    by (simp only: ctx 1 2 3 4 5 out_front_nil [OF s3] x(2) [symmetric] x(5,6) content_mkbuf prod.case option.case bool.case Let_def)
      (simp add: sha256_law_def ctr_pair_def)
  then show ?thesis using x(1,4) room(2) by (intro exI [of _ "drop (length x) (drop 40 wq)"]) simp
qed

lemma tls_crypt_unwrap_spec:
  assumes laws: "ctr_pair e d" "sha256_law h" and ctx: "cx_cipher (do_decrypt opt) = Some d" "cx_hmac (do_decrypt opt) = Some h"
    and pid: "packet_id_initialized (do_packet_id opt)" "\<not> do_ignore_packet_id opt" and hdr: "length hdr = 9"
    and replay: "crypto_check_replay now (do_core opt) (wire_pid True s) = Some (True, core1)"
    and room: "small dp [] dq" "16 + length m \<le> length dq"
  shows "tls_crypt_unwrap now (mkbuf pre (hdr @ pid_bytes True s @ siv_seal e h (hdr @ pid_bytes True s) m) post) (mkbuf dp [] dq) opt =
     Some (True, mkbuf dp m (drop (length m) dq), opt\<lparr>do_core := core1\<rparr>)"
proof -
  let ?ad = "hdr @ pid_bytes True s"
  obtain tag x where x: "siv_seal e h ?ad m = tag @ x" "tag = hm_mac h (?ad @ m)" "length tag = 32" "length x = length m"
    "ci_update e (take (nat (ci_iv_len e)) tag) [] m = Some x" "ci_final e (take (nat (ci_iv_len e)) tag) [] m = Some []"
    "ci_update d (take (nat (ci_iv_len e)) tag) [] x = Some m" "ci_final d (take (nat (ci_iv_len e)) tag) [] x = Some []"
    by (rule siv_sealE [OF laws])
  have pl: "length (pid_bytes True s) = 8" by (simp add: pid_bytes_def)
  let ?c = "hdr @ pid_bytes True s @ tag @ x"
  have parts: "take (nat TLS_CRYPT_TAG_SIZE) (drop (nat TLS_CRYPT_OFF_TAG) ?c) = tag" "drop (nat TLS_CRYPT_OFF_CT) ?c = x"
      "take (nat TLS_CRYPT_OFF_TAG) ?c = ?ad" "take (nat TLS_CRYPT_TAG_SIZE) tag = tag"
    using hdr pl x(3) by (simp_all add: tls_crypt_sizes)
  have n1: "\<not> buf_len (mkbuf pre ?c post) < TLS_CRYPT_OFF_CT" "0 < blen (mkbuf pre ?c post)"
    using hdr pl x(3) by (simp_all add: tls_crypt_sizes)
  have n2: "buf_safe (mkbuf dp [] dq) (buf_len (mkbuf pre ?c post) - TLS_CRYPT_OFF_CT + TLS_CRYPT_BLOCK_SIZE)"
    by (rule buf_safe_mkbuf [OF room(1)]) (use hdr pl x(3,4) room(2) in \<open>simp_all add: tls_crypt_sizes\<close>)
  have 1: "out_front (mkbuf dp [] dq) m = (True, mkbuf dp m (drop (length m) dq))"
    using out_front_empty [OF room(1)] room(2) by simp
  have s1: "small dp m (drop (length m) dq)" using room by (simp add: small_def)
  have 2: "buf_advance (mkbuf pre ?c post) TLS_CRYPT_OFF_PID = (True, mkbuf (pre @ hdr) (pid_bytes True s @ tag @ x) post)"
    using hdr by (simp add: buf_advance_mkbuf tls_crypt_sizes)
  have 3: "packet_id_read (mkbuf (pre @ hdr) (pid_bytes True s @ tag @ x) post) True
      = (True, wire_pid True s, mkbuf ((pre @ hdr) @ pid_bytes True s) (tag @ x) post)"
    using packet_id_read_bytes [of "pre @ hdr" True s "tag @ x" post] by (simp add: wire_pid_def)
  have tg: "hm_mac h (hdr @ pid_bytes True s @ m) = tag" using x(2) by simp
  have iv: "ci_iv_len d = ci_iv_len e" "\<And>iv. ci_reset d iv" using laws(1) by (simp_all add: ctr_pair_def)
  show ?thesis
    unfolding tls_crypt_unwrap_def x(1)
    using n1 n2 pid
    by (simp only: ctx content_mkbuf parts iv x(7,8) 1 2 3 out_front_nil [OF s1] replay x(2) [symmetric] option.case prod.case bool.case Let_def simp_thms if_True if_False)
qed

subsection \<open>The client key travels inside the first packet\<close>

definition wrapped_key :: "cipher \<Rightarrow> hmac \<Rightarrow> byte list \<Rightarrow> byte list \<Rightarrow> byte list" where
  "wrapped_key e h keys md =
     (let net_len = be16 (word_of_nat (290 + length md)) in siv_seal e h net_len (keys @ md) @ net_len)"

lemma wrapped_key_length:
  assumes "ctr_pair e d" "sha256_law h"
  shows "length (wrapped_key e h keys md) = 34 + length keys + length md"
proof -
  obtain tag x where "siv_seal e h (be16 (word_of_nat (290 + length md))) (keys @ md) = tag @ x" "length tag = 32" "length x = length (keys @ md)"
    using siv_sealE [OF assms] by metis
  then show ?thesis by (simp add: wrapped_key_def Let_def)
qed

lemma net_len_value: "n < 65536 \<Longrightarrow> uint (un_be16 (be16 (word_of_nat n))) = int n"
  unfolding un_be16_be16 by (simp add: unsigned_of_nat take_bit_nat_eq_self)

lemma alloc_buf_mkbuf: "0 \<le> n \<Longrightarrow> n < BUF_SIZE_MAX \<Longrightarrow> alloc_buf n = Some (mkbuf [] [] (replicate (nat n) 0))"
  by (simp add: alloc_buf_def mkbuf_def buf_size_valid_def)

lemma wrap_client_key_spec:
  assumes laws: "ctr_pair e d" "sha256_law h" and ctx: "cx_cipher sk = Some e" "cx_hmac sk = Some h"
    and len: "length keys = 256" "length md \<le> 734" and room: "small wp c wq" "290 + length md \<le> length wq"
  shows "tls_crypt_v2_wrap_client_key (mkbuf wp c wq) keys (mkbuf mp md mq) sk =
     Some (True, mkbuf wp (c @ wrapped_key e h keys md) (drop (290 + length md) wq))"
proof -
  let ?n = "be16 (word_of_int (TLS_CRYPT_V2_CLIENT_KEY_LEN + buf_len (mkbuf mp md mq) + TLS_CRYPT_TAG_SIZE + 2))"
  have nl: "?n = be16 (word_of_nat (290 + length md))" by (simp add: tls_crypt_sizes)
  let ?n' = "be16 (word_of_nat (290 + length md))"
  let ?m = "keys @ md"
  obtain tag x where x: "siv_seal e h ?n' ?m = tag @ x" "tag = hm_mac h (?n' @ ?m)" "length tag = 32" "length x = length ?m"
    "ci_update e (take (nat (ci_iv_len e)) tag) [] ?m = Some x" "ci_final e (take (nat (ci_iv_len e)) tag) [] ?m = Some []"
    "ci_update d (take (nat (ci_iv_len e)) tag) [] x = Some ?m" "ci_final d (take (nat (ci_iv_len e)) tag) [] x = Some []"
    by (rule siv_sealE [OF laws])
  have bs: "0 \<le> ci_block_size e" "ci_block_size e \<le> 16" and rs: "\<And>iv. ci_reset e iv" using laws(1) by (simp_all add: ctr_pair_def)
  define z where "z = replicate (nat (1024 + ci_block_size e)) (0 :: byte)"
  have zl: "1024 \<le> length z" "length z \<le> 1040" "int (length z) = 1024 + ci_block_size e" using bs by (simp_all add: z_def)
  have 1: "alloc_buf (TLS_CRYPT_V2_MAX_WKC_LEN + ci_block_size e) = Some (mkbuf [] [] z)"
    using alloc_buf_mkbuf [of "1024 + ci_block_size e"] bs by (simp add: tls_crypt_sizes BUF_SIZE_MAX_def z_def)
  have s0: "small [] [] z" using zl by (simp add: small_def BUF_SIZE_MAX_def)
  have 2: "buf_write_alloc (mkbuf [] [] z) TLS_CRYPT_TAG_SIZE = (Some 0, mkbuf [] (take 32 z) (drop 32 z))"
    using buf_write_alloc_mkbuf [OF s0, of 32] zl(1) by (simp add: tls_crypt_sizes)
  have 3: "poke (mkbuf [] (take 32 z) (drop 32 z)) 0 tag = mkbuf [] tag (drop 32 z)"
    by (rule mkbuf_eqI) (use x(3) zl(1) in \<open>simp_all add: poke_def mkbuf_def mem_write_def\<close>)
  have 4: "\<not> buf_forward_capacity (mkbuf [] tag (drop 32 z)) < TLS_CRYPT_V2_CLIENT_KEY_LEN + buf_len (mkbuf mp md mq) + 2 + ci_block_size e"
    using zl len(2) by (simp add: tls_crypt_sizes)
  have s1: "small [] tag (drop 32 z)" using s0 x(3) zl(1) by (simp add: small_def)
  have xl: "length x = 256 + length md" using x(4) len(1) by simp
  have 5: "out_append (mkbuf [] tag (drop 32 z)) x = (True, mkbuf [] (tag @ x) (drop (length x) (drop 32 z)))"
    by (rule out_append_mkbuf [OF s1]) (use xl zl(1) len(2) in simp)
  have s2: "small [] (tag @ x) (drop (length x) (drop 32 z))" using s1 xl zl(1) len(2) by (simp add: small_def)
  have 6: "buf_write (mkbuf [] (tag @ x) (drop (length x) (drop 32 z))) ?n'
      = (True, mkbuf [] ((tag @ x) @ ?n') (drop 2 (drop (length x) (drop 32 z))))"
    using s2 xl zl(1) len(2) by (simp add: buf_write_mkbuf)
  have w: "wrapped_key e h keys md = (tag @ x) @ ?n'" by (simp add: wrapped_key_def Let_def x(1) [simplified])
  have wl: "length ((tag @ x) @ ?n') = 290 + length md" using x(3) xl by simp
  have 7: "buf_copy (mkbuf wp c wq) (mkbuf [] ((tag @ x) @ ?n') (drop 2 (drop (length x) (drop 32 z))))
      = (True, mkbuf wp (c @ (tag @ x) @ ?n') (drop (290 + length md) wq))"
    unfolding buf_copy_mkbuf buf_write_mkbuf [OF room(1)] wl using room(2) by simp
  show ?thesis
    unfolding tls_crypt_v2_wrap_client_key_def w
    by (simp only: ctx 1 2 nl x(2) [symmetric] content_mkbuf 3 4 rs x(5,6) 5 out_append_nil [OF s2] 6 7
        option.case prod.case bool.case Let_def simp_thms if_True if_False)
qed

lemma unwrap_client_key_spec:
  assumes laws: "ctr_pair e d" "sha256_law h" and ctx: "cx_cipher sk = Some d" "cx_hmac sk = Some h"
    and len: "length keys = 256" "length md \<le> 734" and small: "small pre (wrapped_key e h keys md) post" and room: "small mp [] mq" "length md \<le> length mq"
  shows "tls_crypt_v2_unwrap_client_key (mkbuf mp [] mq) (mkbuf pre (wrapped_key e h keys md) post) sk =
     Some (Some keys, mkbuf mp md (drop (length md) mq))"
proof -
  let ?n = "be16 (word_of_nat (290 + length md))" and ?m = "keys @ md"
  obtain tag x where x: "siv_seal e h ?n ?m = tag @ x" "tag = hm_mac h (?n @ ?m)" "length tag = 32" "length x = length ?m"
    "ci_update e (take (nat (ci_iv_len e)) tag) [] ?m = Some x" "ci_final e (take (nat (ci_iv_len e)) tag) [] ?m = Some []"
    "ci_update d (take (nat (ci_iv_len e)) tag) [] x = Some ?m" "ci_final d (take (nat (ci_iv_len e)) tag) [] x = Some []"
    by (rule siv_sealE [OF laws])
  have w: "wrapped_key e h keys md = (tag @ x) @ ?n" by (simp add: wrapped_key_def Let_def x(1) [simplified])
  have xl: "length x = 256 + length md" using x(4) len(1) by simp
  let ?w = "mkbuf pre ((tag @ x) @ ?n) post"
  have nl: "drop (nat (buf_len ?w) - 2) ((tag @ x) @ ?n) = ?n" using x(3) xl by simp
  have bl: "buf_len ?w = 290 + int (length md)" using x(3) xl by simp
  have u: "uint (un_be16 ?n) = 290 + int (length md)"
    using len(2) by (subst net_len_value) simp_all
  have sm: "small pre ((tag @ x) @ ?n) post" using small by (simp add: w)
  have 1: "buf_inc_len ?w (- 2) = (True, mkbuf pre (tag @ x) (?n @ post))"
    using buf_inc_len_neg_mkbuf [of 2, OF _ sm] x(3) by simp
  have 2: "buf_advance (mkbuf pre (tag @ x) (?n @ post)) TLS_CRYPT_TAG_SIZE = (True, mkbuf (pre @ tag) x (?n @ post))"
    using x(3) by (simp add: buf_advance_mkbuf tls_crypt_sizes)
  have 3: "take (nat TLS_CRYPT_TAG_SIZE) (tag @ x) = tag" "take (nat TLS_CRYPT_TAG_SIZE) tag = tag" using x(3) by (simp_all add: tls_crypt_sizes)
  define z where "z = replicate (nat TLS_CRYPT_V2_MAX_WKC_LEN) (0 :: byte)"
  have zl: "length z = 1024" unfolding z_def length_replicate by (simp add: tls_crypt_sizes)
  have s0: "small [] [] z" using zl by (simp add: small_def BUF_SIZE_MAX_def)
  have 4: "out_append (mkbuf [] [] z) ?m = (True, mkbuf [] ?m (drop (length ?m) z))"
    using out_append_mkbuf [OF s0, of ?m] len zl by simp
  have s1: "small [] ?m (drop (length ?m) z)" using s0 len zl by (simp add: small_def)
  have 5: "\<not> buf_len (mkbuf [] ?m (drop (length ?m) z)) < TLS_CRYPT_V2_CLIENT_KEY_LEN" using len by (simp add: tls_crypt_sizes)
  have 6: "buf_advance (mkbuf [] ?m (drop (length ?m) z)) TLS_CRYPT_V2_CLIENT_KEY_LEN = (True, mkbuf keys md (drop (length ?m) z))"
    using len by (simp add: buf_advance_mkbuf tls_crypt_sizes)
  have 7: "buf_copy (mkbuf mp [] mq) (mkbuf keys md (drop (length ?m) z)) = (True, mkbuf mp md (drop (length md) mq))"
    using room by (simp add: buf_copy_mkbuf buf_write_mkbuf)
  have 8: "take (nat TLS_CRYPT_V2_CLIENT_KEY_LEN) ?m = keys" using len by (simp add: tls_crypt_sizes)
  have 9: "\<not> TLS_CRYPT_V2_MAX_WKC_LEN < buf_len ?w" "\<not> buf_len ?w < 2" "uint (un_be16 ?n) = buf_len ?w"
    using len(2) unfolding bl u by (simp_all add: tls_crypt_sizes)
  have iv: "ci_iv_len d = ci_iv_len e" "\<And>iv. ci_reset d iv" using laws(1) by (simp_all add: ctr_pair_def)
  show "tls_crypt_v2_unwrap_client_key (mkbuf mp [] mq) (mkbuf pre (wrapped_key e h keys md) post) sk =
     Some (Some keys, mkbuf mp md (drop (length md) mq))"
    unfolding tls_crypt_v2_unwrap_client_key_def w
    by (simp only: ctx content_mkbuf nl 9 1 2 3 iv x(7,8) 4 z_def [symmetric] out_append_nil [OF s1] x(2) [symmetric] 5 6 7 8
        option.case prod.case bool.case Let_def simp_thms if_True if_False snd_conv)
qed

text \<open>
  C31: A client key sealed for the server comes back whole. The server that holds the wrapping key
  takes from a first packet that ends in the wrapped key: the packet without it, the client's
  metadata, and key contexts that are opposite to the client's own, so that each end decrypts with
  the key the other encrypts with.
\<close>

theorem client_key_roundtrip:
  assumes "ctr_pair e d" "sha256_law h"
    and "cx_cipher seal = Some e" "cx_hmac seal = Some h" "cx_cipher (tw_server_key ctx) = Some d" "cx_hmac (tw_server_key ctx) = Some h"
    and "length keys = 256" "length md \<le> 734" "small wp c wq" "290 + length md \<le> length wq"
    and "int (length pre + length pkt + length post) + 1100 < BUF_SIZE_MAX"
  shows "\<exists>w wkc. tls_crypt_v2_wrap_client_key (mkbuf wp c wq) keys (mkbuf mp md mq) seal = Some (True, w) \<and> content w = c @ wkc
     \<and> (\<exists>ctx'. tls_crypt_v2_extract_client_key mk None (mkbuf pre (pkt @ wkc) post) ctx = Some (True, mkbuf pre pkt (wkc @ post), ctx')
          \<and> tw_mode ctx' = TLS_WRAP_CRYPT \<and> content (tw_metadata ctx') = md
          \<and> (\<exists>k1 k2. do_encrypt (tls_crypt_v2_load_client_key mk keys False opt) = mk k1 True \<and> do_decrypt (tw_opt ctx') = mk k1 False
               \<and> do_decrypt (tls_crypt_v2_load_client_key mk keys False opt) = mk k2 False \<and> do_encrypt (tw_opt ctx') = mk k2 True))"
proof -
  let ?w = "wrapped_key e h keys md"
  note wrap = wrap_client_key_spec [OF assms(1-4,7-10), of mp mq]
  define z where "z = replicate 734 (0 :: byte)"
  let ?md = "mkbuf [] [] z"
  have zl: "length z = 734" unfolding z_def length_replicate ..
  have sm: "small [] [] z" "length md \<le> length z" using assms(8) by (simp_all add: zl small_def BUF_SIZE_MAX_def)
  have wl: "length ?w = 290 + length md"
    using wrapped_key_length [OF assms(1,2)] assms(7) by simp
  have small: "small (pre @ pkt) ?w post" using assms(8,11) wl by (simp add: small_def)
  note unwrap = unwrap_client_key_spec [OF assms(1,2,5,6,7,8) small sm]
  obtain n s where n: "?w = s @ n" "n = be16 (word_of_nat (290 + length md))" by (simp add: wrapped_key_def Let_def)
  have rd: "mem_read (block (mkbuf pre (pkt @ ?w) post)) (nat (boff (mkbuf pre (pkt @ ?w) post) + buf_len (mkbuf pre (pkt @ ?w) post) - 2)) 2 = n"
    by (simp add: n(1) mem_read_def nat_int_add) (simp add: n(2))
  have u: "uint (un_be16 n) = int (length ?w)"
    using assms(8) unfolding wl n(2) by (subst net_len_value) simp_all
  have 1: "buf_advance (mkbuf pre (pkt @ ?w) post) (buf_len (mkbuf pre (pkt @ ?w) post) - uint (un_be16 n)) = (True, mkbuf (pre @ pkt) ?w post)"
    unfolding u by (simp add: buf_advance_mkbuf)
  have 2: "alloc_buf TLS_CRYPT_V2_MAX_METADATA_LEN = Some ?md"
    using alloc_buf_mkbuf [of 734] unfolding z_def by (simp add: tls_crypt_sizes BUF_SIZE_MAX_def)
  have "small pre (pkt @ ?w) post" using small by (simp add: small_def)
  then have 3: "buf_inc_len (mkbuf pre (pkt @ ?w) post) (- buf_len (mkbuf (pre @ pkt) ?w post)) = (True, mkbuf pre pkt (?w @ post))"
    using buf_inc_len_neg_mkbuf [of "length ?w" pre "pkt @ ?w" post] wl by simp
  let ?opt = "tls_crypt_v2_load_client_key mk keys True ((tw_opt ctx)\<lparr>do_core := (do_core (tw_opt ctx))\<lparr>co_long_form := True\<rparr>\<rparr>)"
  let ?ctx = "ctx\<lparr>tw_metadata := mkbuf [] md (drop (length md) z), tw_mode := TLS_WRAP_CRYPT, tw_cleanup_key_ctx := True, tw_opt := ?opt\<rparr>"
  have "tls_crypt_v2_extract_client_key mk None (mkbuf pre (pkt @ ?w) post) ctx = Some (True, mkbuf pre pkt (?w @ post), ?ctx)"
    unfolding tls_crypt_v2_extract_client_key_def
    using assms(5) by (simp only: rd 1 2 3 unwrap Let_def option.case prod.case bool.case option.distinct if_False)
  moreover have "\<exists>k1 k2. do_encrypt (tls_crypt_v2_load_client_key mk keys False opt) = mk k1 True \<and> do_decrypt ?opt = mk k1 False
               \<and> do_decrypt (tls_crypt_v2_load_client_key mk keys False opt) = mk k2 False \<and> do_encrypt ?opt = mk k2 True"
    by (intro exI [of _ "keys_of_bytes keys ! 1"] exI [of _ "keys_of_bytes keys ! 0"])
      (simp add: tls_crypt_v2_load_client_key_def init_key_ctx_bi_def Let_def)
  ultimately show ?thesis
    using wrap by (intro exI [of _ "mkbuf wp (c @ ?w) (drop (290 + length md) wq)"] exI [of _ ?w] conjI exI [of _ ?ctx]) simp_all
qed

definition toy_ctr :: cipher where
  "toy_ctr = \<lparr>ci_mode = Mode_other, ci_iv_len = 16, ci_block_size = 16, ci_tag_size = 0, ci_reset = (\<lambda>_. True),
     ci_update = (\<lambda>iv ad m. Some (map (\<lambda>b. b XOR sum_list iv) m)), ci_final = (\<lambda>iv ad m. Some []),
     ci_tag = (\<lambda>iv ad m. []), ci_final_check_tag = (\<lambda>iv ad ct tag. None)\<rparr>"

definition toy_sha :: hmac where
  "toy_sha = \<lparr>hm_size = 32, hm_mac = (\<lambda>bs. replicate 32 (sum_list bs))\<rparr>"

definition toy_siv :: crypt_ctx where
  "toy_siv = \<lparr>cx_cipher = Some toy_ctr, cx_hmac = Some toy_sha, cx_implicit_iv = []\<rparr>"

lemma toy_siv_laws: "ctr_pair toy_ctr toy_ctr" "sha256_law toy_sha"
  by (simp_all add: ctr_pair_def toy_ctr_def sha256_law_def toy_sha_def xor.assoc comp_def)

definition toy_wrap_ctx :: tls_wrap_ctx where
  "toy_wrap_ctx = \<lparr>tw_mode = TLS_WRAP_NONE, tw_opt = cbc_options, tw_work = clear_buf, tw_server_key = toy_siv,
     tw_wkc = None, tw_metadata = clear_buf, tw_cleanup_key_ctx = False\<rparr>"

theorem client_key_roundtrip_witness:
  "\<exists>w wkc. tls_crypt_v2_wrap_client_key (mkbuf [] [] (replicate 500 0)) (replicate 256 3) (mkbuf [] [0, 1] []) toy_siv = Some (True, w)
     \<and> content w = [] @ wkc
     \<and> (\<exists>ctx'. tls_crypt_v2_extract_client_key (\<lambda>k enc. toy_siv) None (mkbuf [] ([80] @ wkc) []) toy_wrap_ctx
           = Some (True, mkbuf [] [80] (wkc @ []), ctx')
          \<and> tw_mode ctx' = TLS_WRAP_CRYPT \<and> content (tw_metadata ctx') = [0, 1]
          \<and> (\<exists>k1 k2. do_encrypt (tls_crypt_v2_load_client_key (\<lambda>k enc. toy_siv) (replicate 256 3) False cbc_options) = (\<lambda>k enc. toy_siv) (k1 :: key) True
               \<and> do_decrypt (tw_opt ctx') = (\<lambda>k enc. toy_siv) k1 False
               \<and> do_decrypt (tls_crypt_v2_load_client_key (\<lambda>k enc. toy_siv) (replicate 256 3) False cbc_options) = (\<lambda>k enc. toy_siv) (k2 :: key) False
               \<and> do_encrypt (tw_opt ctx') = (\<lambda>k enc. toy_siv) k2 True))"
  by (rule client_key_roundtrip [OF toy_siv_laws])
    (simp_all add: toy_siv_def toy_wrap_ctx_def small_def BUF_SIZE_MAX_def)

end
