(* ===== verification/Control_Auth.thy ===== *)
theory Control_Auth
  imports Tls_Crypt Reliable
begin

unbundle bit_operations_syntax

text \<open>
  Wrapping of control packets in \<^verbatim>\<open>ssl.c\<close>: \<^verbatim>\<open>write_control_auth\<close> puts acknowledgements,
  session id and opcode before a payload and authenticates or encrypts the result in the way
  \<open>tw_mode\<close> says; \<^verbatim>\<open>read_control_auth\<close> undoes it. The fields of the session and key state that
  \<^verbatim>\<open>write_control_auth\<close> uses are arguments. Opcodes and the byte layout of \<^verbatim>\<open>ssl.h\<close> are here too.
\<close>

definition P_KEY_ID_MASK :: int where "P_KEY_ID_MASK = 0x07"
definition P_OPCODE_SHIFT :: nat where "P_OPCODE_SHIFT = 3"
definition P_CONTROL_HARD_RESET_CLIENT_V1 :: int where "P_CONTROL_HARD_RESET_CLIENT_V1 = 1"
definition P_CONTROL_HARD_RESET_SERVER_V1 :: int where "P_CONTROL_HARD_RESET_SERVER_V1 = 2"
definition P_CONTROL_SOFT_RESET_V1 :: int where "P_CONTROL_SOFT_RESET_V1 = 3"
definition P_CONTROL_V1 :: int where "P_CONTROL_V1 = 4"
definition P_ACK_V1 :: int where "P_ACK_V1 = 5"
definition P_DATA_V1 :: int where "P_DATA_V1 = 6"
definition P_DATA_V2 :: int where "P_DATA_V2 = 9"
definition P_CONTROL_HARD_RESET_CLIENT_V2 :: int where "P_CONTROL_HARD_RESET_CLIENT_V2 = 7"
definition P_CONTROL_HARD_RESET_SERVER_V2 :: int where "P_CONTROL_HARD_RESET_SERVER_V2 = 8"
definition P_CONTROL_HARD_RESET_CLIENT_V3 :: int where "P_CONTROL_HARD_RESET_CLIENT_V3 = 10"
definition P_FIRST_OPCODE :: int where "P_FIRST_OPCODE = 3"
definition P_LAST_OPCODE :: int where "P_LAST_OPCODE = 10"
definition SWAP_BUF_SIZE :: int where "SWAP_BUF_SIZE = 256"

definition header_byte :: "int \<Rightarrow> int \<Rightarrow> byte" where
  "header_byte key_id opcode = word_of_int (key_id OR push_bit P_OPCODE_SHIFT opcode)"

definition swap_hmac :: "buffer \<Rightarrow> data_options \<Rightarrow> bool \<Rightarrow> (bool \<times> buffer) option" where
  "swap_hmac buf co incoming =
     (case cx_hmac (if incoming then do_decrypt co else do_encrypt co) of
        None \<Rightarrow> None
      | Some h \<Rightarrow>
          let hmac_size = hm_size h + packet_id_size True; osid_size = 1 + int SID_SIZE;
              e1 = (if incoming then osid_size else hmac_size); e2 = (if incoming then hmac_size else osid_size)
          in if \<not> (e1 \<le> SWAP_BUF_SIZE \<and> e2 \<le> SWAP_BUF_SIZE) then None
             else if blen buf \<ge> e1 + e2
             then let b = content buf; buf1 = take (nat e1) b; buf2 = take (nat e2) (drop (nat e1) b)
                  in Some (True, poke buf (boff buf) (buf2 @ buf1))
             else Some (False, buf))"

text \<open>The flag of the result tells whether \<open>to_link_addr\<close> was set.\<close>

definition write_control_auth ::
  "time_t \<Rightarrow> (int \<Rightarrow> byte list) \<Rightarrow> tls_wrap_ctx \<Rightarrow> session_id \<Rightarrow> int \<Rightarrow> reliable_ack \<Rightarrow> session_id \<Rightarrow> bool
     \<Rightarrow> buffer \<Rightarrow> int \<Rightarrow> int \<Rightarrow> bool \<Rightarrow> (bool \<times> buffer \<times> reliable_ack \<times> tls_wrap_ctx) option" where
  "write_control_auth now prng wrap sid key_id rec_ack sid_remote addr_defined buf opcode max_ack prepend_ack =
     (let header = [header_byte key_id opcode] in
      if \<not> addr_defined then None
      else case reliable_ack_write rec_ack buf sid_remote max_ack prepend_ack of
        None \<Rightarrow> None
      | Some (False, _, _) \<Rightarrow> None
      | Some (True, ack1, b1) \<Rightarrow>
          (case tw_mode wrap of
             TLS_WRAP_CRYPT \<Rightarrow>
               (case buf_init (tw_work wrap) (boff b1) of
                  (False, _) \<Rightarrow> None
                | (True, w0) \<Rightarrow>
                    (case andw (\<lambda>b. buf_write b header) (session_id_write sid) w0 of
                       (False, _) \<Rightarrow> None
                     | (True, w1) \<Rightarrow>
                         (case tls_crypt_wrap now b1 w1 (tw_opt wrap) of
                            None \<Rightarrow> None
                          | Some (False, w2, opt1) \<Rightarrow>
                              Some (False, b1\<lparr>blen := 0\<rparr>, ack1, wrap\<lparr>tw_work := w2, tw_opt := opt1\<rparr>)
                          | Some (True, w2, opt1) \<Rightarrow>
                              if opcode = P_CONTROL_HARD_RESET_CLIENT_V3
                              then (case tw_wkc wrap of
                                      None \<Rightarrow> None
                                    | Some wkc \<Rightarrow>
                                        (case buf_copy w2 wkc of
                                           (False, w3) \<Rightarrow> Some (False, b1\<lparr>blen := 0\<rparr>, ack1, wrap\<lparr>tw_work := w3, tw_opt := opt1\<rparr>)
                                         | (True, w3) \<Rightarrow> Some (True, w3, ack1, wrap\<lparr>tw_work := w3, tw_opt := opt1\<rparr>)))
                              else Some (True, w2, ack1, wrap\<lparr>tw_work := w2, tw_opt := opt1\<rparr>))))
           | m \<Rightarrow>
               (case andw (session_id_write_prepend sid) (\<lambda>b. buf_write_prepend b header) b1 of
                  (False, _) \<Rightarrow> None
                | (True, b2) \<Rightarrow>
                    if m = TLS_WRAP_AUTH
                    then (case openvpn_encrypt now prng b2 clear_buf (Some (tw_opt wrap)) of
                            Some (b3, Some opt1) \<Rightarrow>
                              (case swap_hmac b3 opt1 False of
                                 Some (True, b4) \<Rightarrow> Some (True, b4, ack1, wrap\<lparr>tw_opt := opt1\<rparr>)
                               | _ \<Rightarrow> None)
                          | _ \<Rightarrow> None)
                    else Some (True, b2, ack1, wrap))))"

text \<open>
  The frame given to \<^verbatim>\<open>openvpn_decrypt\<close> is \<open>NULL\<close>; a context with a cipher would read it, which is a
  crash. \<open>mk\<close> and \<open>script\<close> are the arguments of \<^verbatim>\<open>tls_crypt_v2_extract_client_key\<close>.
\<close>

definition skip_header :: "tls_wrap_mode \<Rightarrow> buffer \<Rightarrow> buffer" where
  "skip_header m buf = (if m = TLS_WRAP_NONE \<or> m = TLS_WRAP_AUTH then snd (buf_advance buf (int SID_SIZE + 1)) else buf)"

definition read_control_auth ::
  "time_t \<Rightarrow> (key \<Rightarrow> bool \<Rightarrow> crypt_ctx) \<Rightarrow> (int \<Rightarrow> byte list \<Rightarrow> bool) option \<Rightarrow> buffer \<Rightarrow> tls_wrap_ctx
     \<Rightarrow> (bool \<times> buffer \<times> tls_wrap_ctx) option" where
  "read_control_auth now mk script buf ctx =
     (let opcode = uint (drop_bit P_OPCODE_SHIFT (block buf ! nat (boff buf))) in
      case (if opcode = P_CONTROL_HARD_RESET_CLIENT_V3 then tls_crypt_v2_extract_client_key mk script buf ctx
            else Some (True, buf, ctx)) of
        None \<Rightarrow> None
      | Some (False, b1, ctx1) \<Rightarrow> Some (False, b1, ctx1)
      | Some (True, b1, ctx1) \<Rightarrow>
          (case tw_mode ctx1 of
             TLS_WRAP_AUTH \<Rightarrow>
               (case swap_hmac b1 (tw_opt ctx1) True of
                  None \<Rightarrow> None
                | Some (False, b2) \<Rightarrow> Some (False, b2, ctx1)
                | Some (True, b2) \<Rightarrow>
                    if cx_cipher (do_decrypt (tw_opt ctx1)) \<noteq> None then None
                    else (case openvpn_decrypt_v1 now flat_frame b2 clear_buf (tw_opt ctx1) of
                            None \<Rightarrow> None
                          | Some (_, b3, opt1) \<Rightarrow>
                              let ctx2 = ctx1\<lparr>tw_opt := opt1\<rparr> in
                              if blen b3 = 0 then Some (False, b3, ctx2) else Some (True, skip_header TLS_WRAP_AUTH b3, ctx2)))
           | TLS_WRAP_CRYPT \<Rightarrow>
               (case alloc_buf (buf_forward_capacity_total b1) of
                  None \<Rightarrow> None
                | Some tmp \<Rightarrow>
                    (case tls_crypt_unwrap now b1 tmp (tw_opt ctx1) of
                       None \<Rightarrow> None
                     | Some (False, _, opt1) \<Rightarrow> Some (False, b1, ctx1\<lparr>tw_opt := opt1\<rparr>)
                     | Some (True, t1, opt1) \<Rightarrow>
                         (case buf_init b1 (boff b1) of
                            (False, _) \<Rightarrow> None
                          | (True, b2) \<Rightarrow>
                              (case buf_copy b2 t1 of
                                 (False, _) \<Rightarrow> None
                               | (True, b3) \<Rightarrow> Some (True, b3, ctx1\<lparr>tw_opt := opt1\<rparr>)))))
           | TLS_WRAP_NONE \<Rightarrow>
               if cx_cipher (tw_server_key ctx1) \<noteq> None then Some (False, b1, ctx1)
               else Some (True, skip_header TLS_WRAP_NONE b1, ctx1)))"

subsection \<open>Authenticated packets without a cipher\<close>

lemma encrypt_auth_only:
  assumes "cx_cipher (do_encrypt opt) = None" "cx_hmac (do_encrypt opt) = Some h" "hmac_law h"
    and "packet_id_initialized (do_packet_id opt)" "co_long_form (do_core opt)"
    and "packet_id_send_update now (pid_send (do_packet_id opt)) True = (True, s)"
    and "72 \<le> length bp" "m \<noteq> []"
  shows "\<exists>bp'. openvpn_encrypt now prng (mkbuf bp m bq) clear_buf (Some opt) =
     Some (mkbuf bp' (hm_mac h (pid_bytes True s @ m) @ pid_bytes True s @ m) bq, Some (set_send s opt))"
proof -
  let ?p = "pid_bytes True s" and ?n = "nat (hm_size h)"
  let ?pre = "take (length bp - 8) bp"
  have h: "int ?n = hm_size h" "?n \<le> 64" using assms(3) unfolding hmac_law_def by linarith+
  have hl: "length (hm_mac h bs) = ?n" for bs using assms(3) unfolding hmac_law_def by (metis nat_int)
  have 1: "packet_id_write now (pid_send (do_packet_id opt)) (mkbuf bp m bq) True True = (True, s, mkbuf ?pre (?p @ m) bq)"
    using assms(6,7) by (simp add: packet_id_write_def Let_def buf_write_prepend_mkbuf pid_bytes_def)
  have pl: "length ?pre = length bp - 8" "?n \<le> length ?pre" using assms(7) h(2) by simp_all
  define q where "q = take (length ?pre - ?n) ?pre"
  define z where "z = drop (length ?pre - ?n) ?pre"
  have qz: "?pre = q @ z" by (simp only: q_def z_def append_take_drop_id)
  have ql: "length z = ?n" "length q = length ?pre - ?n" using pl by (simp_all add: q_def z_def)
  have 2: "buf_prepend (mkbuf ?pre (?p @ m) bq) (hm_size h) = (Some (int (length q)), mkbuf q (z @ ?p @ m) bq)"
  proof -
    have "int (length ?pre) - int ?n = int (length q)" using ql(2) pl(2) by (simp only: of_nat_diff)
    then have "buf_prepend (mkbuf ?pre (?p @ m) bq) (int ?n) = (Some (int (length q)), mkbuf q (z @ ?p @ m) bq)"
      unfolding buf_prepend_mkbuf using pl(2) by (simp only: nat_int q_def z_def) simp
    then show ?thesis unfolding h(1) .
  qed
  have 3: "put_mac (Some h) (Some (int (length q), boff (mkbuf ?pre (?p @ m) bq))) (mkbuf q (z @ ?p @ m) bq)
      = mkbuf q (hm_mac h (?p @ m) @ ?p @ m) bq"
  proof -
    have "boff (mkbuf ?pre (?p @ m) bq) = int (length q + length z)" unfolding mkbuf_off qz by simp
    then have "put_mac (Some h) (Some (int (length q), boff (mkbuf ?pre (?p @ m) bq))) (mkbuf q (z @ ?p @ m) bq)
        = poke (mkbuf q (z @ ?p @ m) bq) (int (length q)) (hm_mac h (?p @ m))"
      by (simp only: put_mac_def prod.case option.case) (simp add: mem_read_def nat_int_add)
    also have "\<dots> = mkbuf q (hm_mac h (?p @ m) @ ?p @ m) bq"
      by (rule mkbuf_eqI) (use ql hl in \<open>simp_all add: poke_def mkbuf_def mem_write_def\<close>)
    finally show ?thesis .
  qed
  have bl: "0 < blen (mkbuf bp m bq)" "buf_len clear_buf = 0" "\<not> cipher_kt_mode_aead None"
    using assms(8) by (simp_all add: buf_len_def buf_valid_def clear_buf_def cipher_kt_mode_aead_def)
  have "openvpn_encrypt_v1 now prng (mkbuf bp m bq) clear_buf opt = Some (mkbuf q (hm_mac h (?p @ m) @ ?p @ m) bq, set_send s opt)"
    unfolding openvpn_encrypt_v1_def
    by (simp only: assms(1,2,4,5) bl 1 2 3 option.case prod.case bool.case Let_def simp_thms if_True if_False)
  then show ?thesis using bl(1,3) assms(1) by (intro exI [of _ q]) (simp add: openvpn_encrypt_def)
qed

lemma decrypt_auth_only:
  assumes "cx_cipher (do_decrypt opt) = None" "cx_hmac (do_decrypt opt) = Some h" "hmac_law h"
    and "packet_id_initialized (do_packet_id opt)" "co_long_form (do_core opt)" "\<not> do_ignore_packet_id opt"
    and "crypto_check_replay u (do_core opt) (wire_pid True s) = Some (True, core1)"
  shows "openvpn_decrypt_v1 u fr (mkbuf pre (hm_mac h (pid_bytes True s @ m) @ pid_bytes True s @ m) post) work opt =
     Some (True, mkbuf (pre @ hm_mac h (pid_bytes True s @ m) @ pid_bytes True s) m post, opt\<lparr>do_core := core1\<rparr>)"
proof -
  have pl: "length (pid_bytes True s) = 8" by (simp add: pid_bytes_def)
  have rd: "packet_id_read (mkbuf (pre @ hm_mac h (pid_bytes True s @ m)) (pid_bytes True s @ m) post) True
      = (True, wire_pid True s, mkbuf ((pre @ hm_mac h (pid_bytes True s @ m)) @ pid_bytes True s) m post)"
    using packet_id_read_bytes [of "pre @ hm_mac h (pid_bytes True s @ m)" True s m post] by (simp add: wire_pid_def)
  have bl: "0 < blen (mkbuf pre (hm_mac h (pid_bytes True s @ m) @ pid_bytes True s @ m) post)"
    unfolding mkbuf_off length_append pl by simp
  show ?thesis
    unfolding openvpn_decrypt_v1_def v1_finish_def
    using bl by (simp only: assms(1,2,4,5,6,7) check_hmac_good [OF assms(3)] rd option.case prod.case bool.case Let_def simp_thms if_True if_False append_assoc)
qed

lemma swap_hmac_mkbuf:
  assumes "cx_hmac (if incoming then do_decrypt co else do_encrypt co) = Some h" "hmac_law h"
    and "length a = (if incoming then 9 else nat (hm_size h) + 8)" "length b = (if incoming then nat (hm_size h) + 8 else 9)"
  shows "swap_hmac (mkbuf pre (a @ b @ c) post) co incoming = Some (True, mkbuf pre (b @ a @ c) post)"
proof -
  have h: "0 \<le> hm_size h" "hm_size h \<le> 64" using assms(2) by (simp_all add: hmac_law_def)
  have "poke (mkbuf pre (a @ b @ c) post) (int (length pre)) (b @ a) = mkbuf pre (b @ a @ c) post"
    by (rule mkbuf_eqI) (simp_all add: poke_def mkbuf_def mem_write_def)
  moreover have "nat (hm_size h + 8) = nat (hm_size h) + 8" "int (nat (hm_size h)) = hm_size h" using h(1) by simp_all
  ultimately show ?thesis
    using assms h by (cases incoming) (simp_all add: swap_hmac_def Let_def packet_id_size_def SID_SIZE_def SWAP_BUF_SIZE_def)
qed

subsection \<open>A control packet through all wrapping modes\<close>

lemma header_table:
  "list_all (\<lambda>k. list_all (\<lambda>opc. uint (drop_bit P_OPCODE_SHIFT (header_byte k opc)) = opc
     \<and> uint (header_byte k opc AND 7) = k) [0..31]) [0..7]"
  by code_simp

lemma header_byte_fields:
  assumes "0 \<le> k" "k < 8" "0 \<le> opc" "opc < 32"
  shows "uint (drop_bit P_OPCODE_SHIFT (header_byte k opc)) = opc" "uint (header_byte k opc AND 7) = k"
  using header_table assms by (simp_all add: list_all_iff)

text \<open>The two ends hold matching control channel keys, and the packet id is one the receiver takes.\<close>

definition keys_match :: "tls_wrap_ctx \<Rightarrow> tls_wrap_ctx \<Rightarrow> bool" where
  "keys_match w r \<longleftrightarrow> tw_mode r = tw_mode w \<and>
     (case tw_mode w of
        TLS_WRAP_NONE \<Rightarrow> cx_cipher (tw_server_key r) = None
      | TLS_WRAP_AUTH \<Rightarrow> cx_cipher (do_encrypt (tw_opt w)) = None \<and> cx_cipher (do_decrypt (tw_opt r)) = None
          \<and> (\<exists>h. cx_hmac (do_encrypt (tw_opt w)) = Some h \<and> cx_hmac (do_decrypt (tw_opt r)) = Some h \<and> hmac_law h)
      | TLS_WRAP_CRYPT \<Rightarrow>
          (\<exists>e d h. cx_cipher (do_encrypt (tw_opt w)) = Some e \<and> cx_cipher (do_decrypt (tw_opt r)) = Some d \<and> ctr_pair e d
             \<and> cx_hmac (do_encrypt (tw_opt w)) = Some h \<and> cx_hmac (do_decrypt (tw_opt r)) = Some h \<and> sha256_law h))"

definition id_fresh :: "time_t \<Rightarrow> time_t \<Rightarrow> data_options \<Rightarrow> data_options \<Rightarrow> bool" where
  "id_fresh now u w r \<longleftrightarrow> packet_id_initialized (do_packet_id w) \<and> packet_id_initialized (do_packet_id r)
     \<and> co_long_form (do_core w) \<and> co_long_form (do_core r) \<and> \<not> do_ignore_packet_id r
     \<and> (\<exists>s core1. packet_id_send_update now (pid_send (do_packet_id w)) True = (True, s)
          \<and> crypto_check_replay u (do_core r) (wire_pid True s) = Some (True, core1))"

definition packet_fits :: "tls_wrap_ctx \<Rightarrow> byte list \<Rightarrow> byte list \<Rightarrow> byte list \<Rightarrow> bool" where
  "packet_fits w bp pl bq \<longleftrightarrow> small bp pl bq \<and> 130 \<le> length bp
     \<and> (tw_mode w = TLS_WRAP_CRYPT \<longrightarrow> live (tw_work w) \<and> int (length bp + length pl) + 120 \<le> bcap (tw_work w))"

lemma write_control_crypt:
  assumes k: "keys_match w r" "tw_mode w = TLS_WRAP_CRYPT"
    and fresh: "id_fresh now u (tw_opt w) (tw_opt r)" and hdr: "length sid = 8"
    and b: "length q \<le> length bp" "small q m bq" "length m \<le> length pl + 41"
    and work: "live (tw_work w)" "int (length bp + length pl) + 120 \<le> bcap (tw_work w)"
    and ack: "reliable_ack_write rec_ack buf sidr mx True = Some (True, ack1, mkbuf q m bq)" and opc: "opc \<noteq> P_CONTROL_HARD_RESET_CLIENT_V3"
    and room: "int (length pre + length m + length post) + 100 < BUF_SIZE_MAX" "uint (drop_bit P_OPCODE_SHIFT hb) \<noteq> P_CONTROL_HARD_RESET_CLIENT_V3"
    and hb: "hb = header_byte key_id opc"
  shows "\<exists>b w'. write_control_auth now prng w sid key_id rec_ack sidr True buf opc mx True = Some (True, b, ack1, w')
     \<and> (\<exists>c. content b = (hb # sid) @ c)
     \<and> (\<exists>b2 r'. read_control_auth u mk script (mkbuf pre (content b) post) r = Some (True, b2, r') \<and> content b2 = m)"
proof -
  obtain e d h where c: "cx_cipher (do_encrypt (tw_opt w)) = Some e" "cx_cipher (do_decrypt (tw_opt r)) = Some d" "ctr_pair e d"
      "cx_hmac (do_encrypt (tw_opt w)) = Some h" "cx_hmac (do_decrypt (tw_opt r)) = Some h" "sha256_law h" "tw_mode r = TLS_WRAP_CRYPT"
    using k by (auto simp: keys_match_def)
  obtain s core1 where f: "packet_id_initialized (do_packet_id (tw_opt w))" "packet_id_initialized (do_packet_id (tw_opt r))"
      "\<not> do_ignore_packet_id (tw_opt r)" "packet_id_send_update now (pid_send (do_packet_id (tw_opt w))) True = (True, s)"
      "crypto_check_replay u (do_core (tw_opt r)) (wire_pid True s) = Some (True, core1)"
    using fresh by (auto simp: id_fresh_def)
  obtain p0 c0 q0 where wk: "tw_work w = mkbuf p0 c0 q0" "small p0 c0 q0" using work(1) live_split by metis
  define blk where "blk = p0 @ c0 @ q0"
  define wp where "wp = take (length q) blk"
  define wq where "wq = drop (length q) blk"
  have bl: "int (length bp + length pl) + 120 \<le> int (length blk)" "int (length blk) < BUF_SIZE_MAX"
    using work(2) wk by (simp_all add: blk_def mkbuf_def small_def)
  then have bl': "length bp + length pl + 120 \<le> length blk" by linarith
  let ?h = "hb # sid"
  have 1: "buf_init (tw_work w) (boff (mkbuf q m bq)) = (True, mkbuf wp [] wq)"
    using bl' b(1) by (simp add: wk(1) buf_init_mkbuf wp_def wq_def blk_def)
  have s0: "small wp [] wq" using bl(2) by (simp add: small_def wp_def wq_def)
  have wql: "79 + length m \<le> length wq" using bl' b(1,3) by (simp add: wq_def)
  have 2: "andw (\<lambda>b. buf_write b [hb]) (session_id_write sid) (mkbuf wp [] wq) = (True, mkbuf wp ?h (drop 9 wq))"
  proof -
    have "buf_write (mkbuf wp [] wq) [hb] = (True, mkbuf wp [hb] (drop 1 wq))" using s0 wql by (simp add: buf_write_mkbuf)
    moreover have "small wp [hb] (drop 1 wq)" using s0 wql by (simp add: small_def)
    ultimately show ?thesis using wql hdr by (simp add: andw_def session_id_write_def buf_write_mkbuf)
  qed
  have s1: "small wp ?h (drop 9 wq)" using s0 wql hdr by (simp add: small_def)
  have wq9: "8 + 32 + 16 + length m \<le> length (drop 9 wq)" using wql by simp
  obtain q' where wr: "tls_crypt_wrap now (mkbuf q m bq) (mkbuf wp ?h (drop 9 wq)) (tw_opt w)
      = Some (True, mkbuf wp (?h @ pid_bytes True s @ siv_seal e h (?h @ pid_bytes True s) m) q', set_send s (tw_opt w))"
    using tls_crypt_wrap_spec [OF c(3,6,1,4) f(1,4) s1 wq9, of q bq] unfolding append_assoc by blast
  let ?c = "?h @ pid_bytes True s @ siv_seal e h (?h @ pid_bytes True s) m"
  have ws: "write_control_auth now prng w sid key_id rec_ack sidr True buf opc mx True
      = Some (True, mkbuf wp ?c q', ack1, w\<lparr>tw_work := mkbuf wp ?c q', tw_opt := set_send s (tw_opt w)\<rparr>)"
    unfolding write_control_auth_def
    by (simp only: Let_def ack hb [symmetric] k(2) opc 1 2 wr option.case prod.case bool.case tls_wrap_mode.case not_True_eq_False if_False)
  have sl: "length (siv_seal e h (?h @ pid_bytes True s) m) = 32 + length m"
    using siv_sealE [OF c(3,6)] by (metis length_append)
  have cl: "length ?c = 49 + length m" using sl hdr by (simp add: pid_bytes_def)
  define z where "z = replicate (length ?c + length post) (0 :: byte)"
  have zl: "length z = 49 + length m + length post" using cl by (simp only: z_def length_replicate)
  have sz: "small [] [] z" using room(1) zl by (simp add: small_def)
  have r1: "alloc_buf (buf_forward_capacity_total (mkbuf pre ?c post)) = Some (mkbuf [] [] z)"
  proof -
    have "int (length ?c + length post) < BUF_SIZE_MAX" unfolding cl using room(1) by simp
    then show ?thesis using alloc_buf_mkbuf [OF of_nat_0_le_iff, of "length ?c + length post"] by (simp only: mkbuf_simps nat_int z_def)
  qed
  have r2: "tls_crypt_unwrap u (mkbuf pre ?c post) (mkbuf [] [] z) (tw_opt r)
      = Some (True, mkbuf [] m (drop (length m) z), (tw_opt r)\<lparr>do_core := core1\<rparr>)"
    by (rule tls_crypt_unwrap_spec [OF c(3,6,2,5) f(2,3) _ f(5) sz]) (use hdr zl in simp_all)
  have r3: "buf_init (mkbuf pre ?c post) (boff (mkbuf pre ?c post)) = (True, mkbuf pre [] (?c @ post))"
    by (simp add: buf_init_mkbuf)
  have s3: "small pre [] (?c @ post)" using room(1) cl by (simp add: small_def)
  have r4: "buf_copy (mkbuf pre [] (?c @ post)) (mkbuf [] m (drop (length m) z)) = (True, mkbuf pre m (drop (length m) (?c @ post)))"
    using buf_write_mkbuf [OF s3, of m] cl by (simp add: buf_copy_mkbuf)
  have op: "block (mkbuf pre ?c post) ! nat (boff (mkbuf pre ?c post)) = hb" by (simp add: nth_append)
  have "read_control_auth u mk script (mkbuf pre ?c post) r
      = Some (True, mkbuf pre m (drop (length m) (?c @ post)), r\<lparr>tw_opt := (tw_opt r)\<lparr>do_core := core1\<rparr>\<rparr>)"
    unfolding read_control_auth_def
    by (simp only: op Let_def room(2) r1 r2 r3 r4 c(7) if_False option.case prod.case bool.case tls_wrap_mode.case)
  with ws show ?thesis by simp
qed

lemma write_header:
  assumes "length sid = 8" "9 \<le> length q"
  shows "\<exists>q'. andw (session_id_write_prepend sid) (\<lambda>b. buf_write_prepend b [hb]) (mkbuf q m bq) = (True, mkbuf q' ((hb # sid) @ m) bq)
     \<and> length q' = length q - 9"
proof -
  have "Suc 0 \<le> length q - 8" using assms(2) by linarith
  then show ?thesis using assms
    by (intro exI [of _ "take (length q - 9) q"]) (simp add: andw_def session_id_write_prepend_def buf_write_prepend_mkbuf)
qed

lemma skip_header_mkbuf:
  "length sid = 8 \<Longrightarrow> skip_header TLS_WRAP_AUTH (mkbuf pre ((hb # sid) @ m) post) = mkbuf (pre @ hb # sid) m post"
  "length sid = 8 \<Longrightarrow> skip_header TLS_WRAP_NONE (mkbuf pre ((hb # sid) @ m) post) = mkbuf (pre @ hb # sid) m post"
  by (simp_all add: skip_header_def buf_advance_mkbuf SID_SIZE_def)

lemma write_control_plain:
  assumes k: "keys_match w r" "tw_mode w = TLS_WRAP_NONE" and hdr: "length sid = 8" and b: "9 \<le> length q"
    and ack: "reliable_ack_write rec_ack buf sidr mx True = Some (True, ack1, mkbuf q m bq)"
    and room: "uint (drop_bit P_OPCODE_SHIFT hb) \<noteq> P_CONTROL_HARD_RESET_CLIENT_V3" and hb: "hb = header_byte key_id opc"
  shows "\<exists>b w'. write_control_auth now prng w sid key_id rec_ack sidr True buf opc mx True = Some (True, b, ack1, w')
     \<and> (\<exists>c. content b = (hb # sid) @ c)
     \<and> (\<exists>b2 r'. read_control_auth u mk script (mkbuf pre (content b) post) r = Some (True, b2, r') \<and> content b2 = m)"
proof -
  have c: "cx_cipher (tw_server_key r) = None" "tw_mode r = TLS_WRAP_NONE" using k by (simp_all add: keys_match_def)
  obtain q' where 1: "andw (session_id_write_prepend sid) (\<lambda>b. buf_write_prepend b [hb]) (mkbuf q m bq) = (True, mkbuf q' ((hb # sid) @ m) bq)"
    using write_header [OF hdr b] by blast
  have "write_control_auth now prng w sid key_id rec_ack sidr True buf opc mx True = Some (True, mkbuf q' ((hb # sid) @ m) bq, ack1, w)"
    unfolding write_control_auth_def
    by (simp only: Let_def ack hb [symmetric] k(2) 1 option.case prod.case bool.case tls_wrap_mode.case tls_wrap_mode.distinct not_True_eq_False if_False)
  moreover have "read_control_auth u mk script (mkbuf pre ((hb # sid) @ m) post) r = Some (True, mkbuf (pre @ hb # sid) m post, r)"
  proof -
    have op: "block (mkbuf pre ((hb # sid) @ m) post) ! nat (boff (mkbuf pre ((hb # sid) @ m) post)) = hb" by (simp add: nth_append)
    show ?thesis unfolding read_control_auth_def
      by (simp only: op Let_def room c skip_header_mkbuf [OF hdr] option.case prod.case bool.case tls_wrap_mode.case simp_thms if_False)
  qed
  ultimately show ?thesis by simp
qed

lemma write_control_hmac:
  assumes k: "keys_match w r" "tw_mode w = TLS_WRAP_AUTH" and fresh: "id_fresh now u (tw_opt w) (tw_opt r)"
    and hdr: "length sid = 8" and b: "81 \<le> length q"
    and ack: "reliable_ack_write rec_ack buf sidr mx True = Some (True, ack1, mkbuf q m bq)" and ne: "m \<noteq> []"
    and room: "uint (drop_bit P_OPCODE_SHIFT hb) \<noteq> P_CONTROL_HARD_RESET_CLIENT_V3" and hb: "hb = header_byte key_id opc"
  shows "\<exists>b w'. write_control_auth now prng w sid key_id rec_ack sidr True buf opc mx True = Some (True, b, ack1, w')
     \<and> (\<exists>c. content b = (hb # sid) @ c)
     \<and> (\<exists>b2 r'. read_control_auth u mk script (mkbuf pre (content b) post) r = Some (True, b2, r') \<and> content b2 = m)"
proof -
  obtain h where c: "cx_cipher (do_encrypt (tw_opt w)) = None" "cx_cipher (do_decrypt (tw_opt r)) = None"
      "cx_hmac (do_encrypt (tw_opt w)) = Some h" "cx_hmac (do_decrypt (tw_opt r)) = Some h" "hmac_law h" "tw_mode r = TLS_WRAP_AUTH"
    using k by (auto simp: keys_match_def)
  obtain s core1 where f: "packet_id_initialized (do_packet_id (tw_opt w))" "packet_id_initialized (do_packet_id (tw_opt r))"
      "co_long_form (do_core (tw_opt w))" "co_long_form (do_core (tw_opt r))"
      "\<not> do_ignore_packet_id (tw_opt r)" "packet_id_send_update now (pid_send (do_packet_id (tw_opt w))) True = (True, s)"
      "crypto_check_replay u (do_core (tw_opt r)) (wire_pid True s) = Some (True, core1)"
    using fresh by (auto simp: id_fresh_def)
  let ?h = "hb # sid" and ?p = "pid_bytes True s"
  define mac where "mac = hm_mac h (?p @ ?h @ m)"
  have ml: "length mac = nat (hm_size h)" using c(5) unfolding mac_def hmac_law_def by (metis nat_int)
  have pl: "length ?p = 8" by (simp add: pid_bytes_def)
  obtain q' where 1: "andw (session_id_write_prepend sid) (\<lambda>b. buf_write_prepend b [hb]) (mkbuf q m bq) = (True, mkbuf q' (?h @ m) bq)"
      "72 \<le> length q'" using write_header [OF hdr, of q hb m bq] b by auto
  obtain q2 where 2: "openvpn_encrypt now prng (mkbuf q' (?h @ m) bq) clear_buf (Some (tw_opt w)) =
     Some (mkbuf q2 (mac @ ?p @ ?h @ m) bq, Some (set_send s (tw_opt w)))"
    using encrypt_auth_only [OF c(1,3,5) f(1,3,6) 1(2), of "?h @ m" prng bq] by (auto simp: mac_def)
  have 3: "swap_hmac (mkbuf q2 (mac @ ?p @ ?h @ m) bq) (set_send s (tw_opt w)) False = Some (True, mkbuf q2 (?h @ mac @ ?p @ m) bq)"
    using swap_hmac_mkbuf [of False "set_send s (tw_opt w)" h "mac @ ?p" ?h q2 m bq] c(3,5) ml pl hdr by (simp add: set_send_def)
  have ws: "write_control_auth now prng w sid key_id rec_ack sidr True buf opc mx True
      = Some (True, mkbuf q2 (?h @ mac @ ?p @ m) bq, ack1, w\<lparr>tw_opt := set_send s (tw_opt w)\<rparr>)"
    unfolding write_control_auth_def
    by (simp only: Let_def ack hb [symmetric] k(2) 1(1) 2 3 option.case prod.case bool.case tls_wrap_mode.case not_True_eq_False simp_thms if_False if_True)
  have r1: "swap_hmac (mkbuf pre (?h @ mac @ ?p @ m) post) (tw_opt r) True = Some (True, mkbuf pre (mac @ ?p @ ?h @ m) post)"
    using swap_hmac_mkbuf [of True "tw_opt r" h ?h "mac @ ?p" pre m post] c(4,5) ml pl hdr by simp
  have r2: "openvpn_decrypt_v1 u flat_frame (mkbuf pre (mac @ ?p @ ?h @ m) post) clear_buf (tw_opt r) =
     Some (True, mkbuf (pre @ mac @ ?p) (?h @ m) post, (tw_opt r)\<lparr>do_core := core1\<rparr>)"
    unfolding mac_def by (rule decrypt_auth_only [OF c(2,4,5) f(2,4,5,7)])
  have op: "block (mkbuf pre (?h @ mac @ ?p @ m) post) ! nat (boff (mkbuf pre (?h @ mac @ ?p @ m) post)) = hb" by (simp add: nth_append)
  have ne2: "\<not> blen (mkbuf (pre @ mac @ ?p) (?h @ m) post) = 0" by (simp add: mkbuf_def)
  have "read_control_auth u mk script (mkbuf pre (?h @ mac @ ?p @ m) post) r
      = Some (True, mkbuf ((pre @ mac @ ?p) @ ?h) m post, r\<lparr>tw_opt := (tw_opt r)\<lparr>do_core := core1\<rparr>\<rparr>)"
    unfolding read_control_auth_def
    by (simp only: op Let_def room c r1 r2 ne2 skip_header_mkbuf [OF hdr] option.case prod.case bool.case tls_wrap_mode.case simp_thms if_False not_True_eq_False)
  with ws show ?thesis by simp
qed

text \<open>
  C30: A control packet survives its wrapping in every mode. Plain, with an HMAC (\<open>--tls-auth\<close>) or
  encrypted (\<open>--tls-crypt\<close>): what \<^verbatim>\<open>write_control_auth\<close> sends starts with the opcode, key id
  and session id in the clear, and a peer with matching keys, which takes the packet id, reads from
  it exactly the acknowledgement record followed by the payload.
\<close>

theorem control_packet_roundtrip:
  assumes "keys_match w r" "tw_mode w \<noteq> TLS_WRAP_NONE \<longrightarrow> id_fresh now u (tw_opt w) (tw_opt r)"
    and "packet_fits w bp pl bq" "int (length pre + length pl + length post) + 150 < BUF_SIZE_MAX"
    and "ack_wf ack" "0 \<le> mx" "mx \<le> 255" "length sidr = SID_SIZE" "session_id_defined sidr" "length sid = SID_SIZE"
    and "0 \<le> key_id" "key_id < 8" "0 \<le> opc" "opc < 10"
  shows "\<exists>b ack' w'. write_control_auth now prng w sid key_id ack sidr True (mkbuf bp pl bq) opc mx True = Some (True, b, ack', w')
     \<and> ack_take ack mx @ ack_list ack' = ack_list ack
     \<and> (\<exists>hb c. content b = hb # sid @ c \<and> uint (drop_bit P_OPCODE_SHIFT hb) = opc \<and> uint (hb AND 7) = key_id)
     \<and> (\<exists>b2 r'. read_control_auth u mk script (mkbuf pre (content b) post) r = Some (True, b2, r')
          \<and> content b2 = ack_bytes (ack_take ack mx) sidr @ pl)"
proof -
  let ?a = "ack_bytes (ack_take ack mx) sidr" and ?hb = "header_byte key_id opc"
  let ?q = "take (length bp - length ?a) bp"
  have n: "length (ack_take ack mx) = nat (min (ack_len ack) mx)" "length (ack_take ack mx) \<le> 8"
    using ack_take_wf [OF assms(5-7)] by auto
  have al: "length ?a \<le> 41" "?a \<noteq> []" using n(2) assms(8) by (auto simp: ack_bytes_def SID_SIZE_def)
  have "ACK_SIZE (min (ack_len ack) mx) = int (length ?a)"
    using length_ack_bytes [OF assms(8), of "ack_take ack mx"] n(1) assms(5,6) by (simp add: ack_wf_def min_def)
  then obtain ack' where a: "reliable_ack_write ack (mkbuf bp pl bq) sidr mx True = Some (True, ack', mkbuf ?q (?a @ pl) bq)"
      "ack_take ack mx @ ack_list ack' = ack_list ack"
    using reliable_ack_write_prepend [OF assms(5-9), of bp pl bq] al(1) assms(3) by (auto simp: packet_fits_def)
  have ql: "81 \<le> length ?q" "9 \<le> length ?q" "length ?q \<le> length bp"
    using al(1) assms(3) unfolding packet_fits_def length_take by linarith+
  have sm: "small ?q (?a @ pl) bq" using al(1) assms(3) by (simp add: packet_fits_def small_def)
  have s8: "length sid = 8" using assms(10) by (simp add: SID_SIZE_def)
  have hf: "uint (drop_bit P_OPCODE_SHIFT ?hb) = opc" "uint (?hb AND 7) = key_id"
    using header_byte_fields [OF assms(11,12,13)] assms(14) by simp_all
  have nv3: "uint (drop_bit P_OPCODE_SHIFT ?hb) \<noteq> P_CONTROL_HARD_RESET_CLIENT_V3" "opc \<noteq> P_CONTROL_HARD_RESET_CLIENT_V3"
    using hf(1) assms(14) by (simp_all add: P_CONTROL_HARD_RESET_CLIENT_V3_def)
  have "\<exists>b w'. write_control_auth now prng w sid key_id ack sidr True (mkbuf bp pl bq) opc mx True = Some (True, b, ack', w')
     \<and> (\<exists>c. content b = (?hb # sid) @ c)
     \<and> (\<exists>b2 r'. read_control_auth u mk script (mkbuf pre (content b) post) r = Some (True, b2, r') \<and> content b2 = ?a @ pl)"
  proof (cases "tw_mode w")
    case TLS_WRAP_NONE
    show ?thesis by (rule write_control_plain [OF assms(1) TLS_WRAP_NONE s8 ql(2) a(1) nv3(1) refl])
  next
    case TLS_WRAP_AUTH
    show ?thesis
      by (rule write_control_hmac [OF assms(1) TLS_WRAP_AUTH _ s8 ql(1) a(1) _ nv3(1) refl]) (use assms(2) TLS_WRAP_AUTH al(2) in auto)
  next
    case TLS_WRAP_CRYPT
    show ?thesis
      by (rule write_control_crypt [OF assms(1) TLS_WRAP_CRYPT _ s8 ql(3) sm _ _ _ a(1) nv3(2) _ nv3(1) refl])
        (use assms(2,3,4) TLS_WRAP_CRYPT al(1) in \<open>auto simp: packet_fits_def\<close>)
  qed
  then show ?thesis using a(2) hf by (metis append_Cons)
qed

definition long_opts :: crypto_options where
  "long_opts = demo_options\<lparr>co_long_form := True\<rparr>"

definition crypt_wrap :: tls_wrap_ctx where
  "crypt_wrap = \<lparr>tw_mode = TLS_WRAP_CRYPT,
     tw_opt = \<lparr>do_encrypt = toy_siv, do_decrypt = toy_siv, do_core = long_opts, do_ignore_packet_id = False\<rparr>,
     tw_work = mkbuf [] [] (replicate 400 0), tw_server_key = toy_siv, tw_wkc = None, tw_metadata = clear_buf,
     tw_cleanup_key_ctx = False\<rparr>"

lemma crypt_wrap_fresh: "id_fresh 5 6 (tw_opt crypt_wrap) (tw_opt crypt_wrap)"
proof -
  let ?p = "pid_rec (co_packet_id long_opts)"
  have z: "pid_send (co_packet_id long_opts) = \<lparr>send_id = 0, send_time = 0\<rparr>" "rec_id ?p = 0" "rec_time ?p = 0"
    using packet_id_init_fields [OF toy_init] by (simp_all add: long_opts_def toy_options_def)
  have wf: "rec_wf ?p" using demo_wf by (simp add: long_opts_def)
  have sync: "in_sync True (pid_send (co_packet_id long_opts)) ?p" by (simp add: in_sync_def z)
  have u: "packet_id_send_update 5 (pid_send (co_packet_id long_opts)) True = (True, \<lparr>send_id = 1, send_time = 5\<rparr>)"
    by (simp add: z packet_id_send_update_def PACKET_ID_MAX_def)
  have w: "on_wire True \<lparr>send_id = 1, send_time = 5\<rparr> = wire_pid True \<lparr>send_id = 1, send_time = 5\<rparr>"
    by (simp add: on_wire_def wire_pid_def)
  have inv: "pid_inv ?p {}" using wf by (simp add: pid_inv_def)
  have nxt: "acceptable ?p (wire_pid True \<lparr>send_id = 1, send_time = 5\<rparr>)"
      "rec_time ?p < net_time (wire_pid True \<lparr>send_id = 1, send_time = 5\<rparr>)"
    using send_update_next [OF sync u] by (simp_all add: w z wire_pid_def)
  obtain core1 where "crypto_check_replay 6 long_opts (wire_pid True \<lparr>send_id = 1, send_time = 5\<rparr>) = Some (True, core1)"
    using check_replay_forward [OF inv refl _ nxt(1), of 6] nxt(2) by (auto simp: SEQ_EXPIRED_def)
  then show ?thesis
    using u pid_inv_initialized [OF inv] by (simp add: id_fresh_def crypt_wrap_def) (simp add: long_opts_def)
qed

theorem control_packet_roundtrip_witness:
  "\<exists>b ack' w'. write_control_auth 5 (\<lambda>n. []) crypt_wrap (replicate 8 1) 2 (ack_push ack_clear 7) (replicate 8 9) True
        (mkbuf (replicate 130 0) [1, 2, 3] []) 4 4 True = Some (True, b, ack', w')
     \<and> ack_take (ack_push ack_clear 7) 4 @ ack_list ack' = ack_list (ack_push ack_clear 7)
     \<and> (\<exists>hb c. content b = hb # replicate 8 1 @ c \<and> uint (drop_bit P_OPCODE_SHIFT hb) = 4 \<and> uint (hb AND 7) = 2)
     \<and> (\<exists>b2 r'. read_control_auth 6 (\<lambda>k e. toy_siv) None (mkbuf [] (content b) []) crypt_wrap = Some (True, b2, r')
          \<and> content b2 = ack_bytes (ack_take (ack_push ack_clear 7) 4) (replicate 8 9) @ [1, 2, 3])"
proof -
  have k: "keys_match crypt_wrap crypt_wrap"
    using toy_siv_laws by (simp add: keys_match_def crypt_wrap_def toy_siv_def)
  have a: "ack_wf (ack_push ack_clear 7)" by (intro ack_push_wf) (simp_all add: ack_wf_def ack_clear_def RELIABLE_ACK_SIZE_def)
  show ?thesis
    by (rule control_packet_roundtrip [OF k _ _ _ a])
      (simp_all add: crypt_wrap_fresh packet_fits_def small_def BUF_SIZE_MAX_def SID_SIZE_def session_id_defined_def,
       simp_all add: crypt_wrap_def small_def BUF_SIZE_MAX_def)
qed

end
