(* ===== verification/Control_Channel.thy ===== *)
theory Control_Channel
  imports Reliable
begin

text \<open>
  The reliable control channel: the parts of \<^verbatim>\<open>ssl.c\<close> that connect a \<open>reliable\<close>
  structure to the TLS object and to the network (\<open>tls_process\<close>, \<open>tls_pre_decrypt\<close>), and
  one direction of a channel between two peers over a network that loses, repeats and reorders
  packets.

  The TLS object is not part of the sources: what a read of its output gives is an argument of
  \<open>bio_read\<close>, and the status of a write into it is an argument of \<open>deliver_ciphertext\<close>.

  A channel state holds the sender's and the receiver's structures, the receiver's pending
  acknowledgements and every packet ever put on the wire; ghost lists record the payloads handed
  to the sender and the payloads the receiver wrote into its TLS object. The step relation
  \<open>chan_step\<close> has a rule for each operation of the two peers. Losing a packet is never receiving
  it, and a packet stays on the wire, so it can arrive any number of times, in any order.
\<close>

subsection \<open>Reading ciphertext from, and writing it to, the TLS object\<close>

datatype bio_result = Bio_data "byte list" | Bio_retry | Bio_error

definition bio_read :: "(int \<Rightarrow> bio_result) \<Rightarrow> buffer \<Rightarrow> int \<Rightarrow> (int \<times> buffer) option" where
  "bio_read bio b maxlen =
     (if \<not> blen b \<ge> 0 then None
      else if blen b \<noteq> 0 then Some (0, b)
      else let l0 = buf_forward_capacity b; len = (if maxlen < l0 then maxlen else l0)
           in case bio len of
                Bio_retry \<Rightarrow> Some (0, b)
              | Bio_error \<Rightarrow> Some (-1, b\<lparr>blen := 0\<rparr>)
              | Bio_data d \<Rightarrow> if d = [] then Some (0, b\<lparr>blen := 0\<rparr>)
                              else Some (1, (poke b (boff b) d)\<lparr>blen := int (length d)\<rparr>))"

definition bio_write_post :: "int \<Rightarrow> buffer \<Rightarrow> buffer" where
  "bio_write_post status b =
     (if status = 1 then (poke b (boff b) (replicate (nat (buf_len b)) 0))\<lparr>blen := 0\<rparr> else b)"

datatype seg_status = Seg_error | Seg_idle | Seg_change

definition output_ciphertext ::
  "(int \<Rightarrow> bio_result) \<Rightarrow> int \<Rightarrow> int \<Rightarrow> reliable \<Rightarrow> (seg_status \<times> reliable) option" where
  "output_ciphertext bio maxlen opcode rel =
     (case reliable_get_buf_output_sequenced rel of
        None \<Rightarrow> None
      | Some (None, r1) \<Rightarrow> Some (Seg_idle, r1)
      | Some (Some i, r1) \<Rightarrow>
          (case bio_read bio (re_buf (rl_array r1 ! i)) maxlen of
             None \<Rightarrow> None
           | Some (status, b) \<Rightarrow>
               (let r2 = upd_entry r1 i (\<lambda>e. e\<lparr>re_buf := b\<rparr>)
                in if status = -1 then Some (Seg_error, r2)
                   else if status = 1
                   then map_option (Pair Seg_change) (reliable_mark_active_outgoing r2 i opcode)
                   else Some (Seg_idle, r2))))"

definition transmit :: "time_t \<Rightarrow> reliable \<Rightarrow> (buffer option \<times> reliable) option" where
  "transmit now rel =
     (if reliable_can_send now rel
      then (case reliable_send now rel of
              (None, _) \<Rightarrow> None
            | (Some (i, opcode), r) \<Rightarrow> Some (Some (re_buf (rl_array r ! i)), r))
      else Some (None, rel))"

text \<open>The second component of the result is what was written into the TLS object.\<close>

definition deliver_ciphertext ::
  "(byte list \<Rightarrow> int) \<Rightarrow> reliable \<Rightarrow> (seg_status \<times> byte list option \<times> reliable) option" where
  "deliver_ciphertext wr rel =
     (case reliable_get_buf_sequenced rel of
        None \<Rightarrow> Some (Seg_idle, None, rel)
      | Some i \<Rightarrow>
          (let b = re_buf (rl_array rel ! i);
               status = (if blen b \<noteq> 0 then wr (content b) else 1);
               r1 = upd_entry rel i (\<lambda>e. e\<lparr>re_buf := (if blen b \<noteq> 0 then bio_write_post status b else b)\<rparr>)
           in if status = -1 then Some (Seg_error, None, r1)
              else if status = 1
              then map_option (\<lambda>r. (Seg_change, Some (content b), r)) (reliable_mark_deleted r1 i True)
              else Some (Seg_idle, None, r1)))"

text \<open>The payload part of a received control packet, with \<open>buf\<close> at the packet id.\<close>

definition input_ciphertext ::
  "int \<Rightarrow> reliable \<Rightarrow> reliable_ack \<Rightarrow> buffer \<Rightarrow> (bool \<times> reliable \<times> reliable_ack) option" where
  "input_ciphertext opcode rel ack b =
     (if \<not> reliable_can_get rel then Some (True, rel, ack)
      else case reliable_ack_read_packet_id b of
        (None, _) \<Rightarrow> Some (True, rel, ack)
      | (Some pid, b1) \<Rightarrow>
          if \<not> reliable_wont_break_sequentiality rel pid then Some (True, rel, ack)
          else if reliable_not_replay rel pid
          then (case reliable_get_buf rel of
                  Some (Some i, r1) \<Rightarrow>
                    (case buf_copy (re_buf (rl_array r1 ! i)) b1 of
                       (False, _) \<Rightarrow> Some (False, r1, ack)
                     | (True, c) \<Rightarrow>
                         (case reliable_mark_active_incoming (upd_entry r1 i (\<lambda>e. e\<lparr>re_buf := c\<rparr>)) i pid opcode of
                            None \<Rightarrow> None
                          | Some r2 \<Rightarrow> Some (True, r2, snd (reliable_ack_acknowledge_packet_id ack pid))))
                | _ \<Rightarrow> None)
          else Some (True, rel, snd (reliable_ack_acknowledge_packet_id ack pid)))"

subsection \<open>Well-formed structures\<close>

definition rel_wf :: "int \<Rightarrow> reliable \<Rightarrow> bool" where
  "rel_wf cap rel \<longleftrightarrow> 0 < rl_size rel \<and> rl_size rel \<le> RELIABLE_CAPACITY
     \<and> length (rl_array rel) = nat RELIABLE_CAPACITY
     \<and> 4 \<le> rl_offset rel \<and> rl_offset rel \<le> cap \<and> cap < BUF_SIZE_MAX
     \<and> (\<forall>i<nat (rl_size rel). live (re_buf (rl_array rel ! i)) \<and> bcap (re_buf (rl_array rel ! i)) = cap)"

abbreviation slot :: "reliable \<Rightarrow> nat \<Rightarrow> reliable_entry" where
  "slot rel i \<equiv> rl_array rel ! i"

abbreviation slots :: "reliable \<Rightarrow> nat" where
  "slots rel \<equiv> nat (rl_size rel)"

lemma set_idxs [simp]: "i \<in> set (idxs rel) \<longleftrightarrow> i < slots rel"
  by (simp add: idxs_def)

lemma rel_wf_slots: "rel_wf cap rel \<Longrightarrow> slots rel \<le> length (rl_array rel)"
  by (auto simp: rel_wf_def RELIABLE_CAPACITY_def)

lemma upd_entry_simps [simp]:
  "rl_size (upd_entry rel i f) = rl_size rel" "rl_packet_id (upd_entry rel i f) = rl_packet_id rel"
  "rl_offset (upd_entry rel i f) = rl_offset rel" "rl_hold (upd_entry rel i f) = rl_hold rel"
  "length (rl_array (upd_entry rel i f)) = length (rl_array rel)"
  by (simp_all add: upd_entry_def)

lemma slot_upd_entry:
  "i < length (rl_array rel) \<Longrightarrow> slot (upd_entry rel i f) j = (if j = i then f (slot rel i) else slot rel j)"
  by (simp add: upd_entry_def)

lemma fold_upd_entry:
  "n \<le> length (rl_array rel) \<Longrightarrow>
     fold (\<lambda>j r. upd_entry r j f) [0..<n] rel =
       rel\<lparr>rl_array := map f (take n (rl_array rel)) @ drop n (rl_array rel)\<rparr>"
proof (induction n)
  case 0
  then show ?case by simp
next
  case (Suc n)
  then have n: "n < length (rl_array rel)" by simp
  have "(map f (take n (rl_array rel)) @ drop n (rl_array rel))[n := f (slot rel n)]
      = map f (take (Suc n) (rl_array rel)) @ drop (Suc n) (rl_array rel)"
    using n by (intro nth_equalityI) (auto simp: nth_append nth_list_update less_Suc_eq min_def)
  then show ?case using Suc n by (simp add: upd_entry_def nth_append)
qed

lemma slot_fold_upd:
  "rel_wf cap rel \<Longrightarrow> i < slots rel \<Longrightarrow>
     slot (fold (\<lambda>j r. upd_entry r j f) (idxs rel) rel) i = f (slot rel i)"
  using rel_wf_slots by (simp add: idxs_def fold_upd_entry nth_append)

text \<open>Taking a free slot.\<close>

lemma get_buf_cases:
  assumes "rel_wf cap rel"
  obtains (full) "reliable_get_buf rel = Some (None, rel)" "\<forall>i < slots rel. re_active (slot rel i)"
  | (free) i pre post where "i < slots rel" "\<not> re_active (slot rel i)"
      "reliable_get_buf rel = Some (Some i, upd_entry rel i (\<lambda>e. e\<lparr>re_buf := mkbuf pre [] post\<rparr>))"
      "int (length pre) = rl_offset rel" "int (length post) = cap - rl_offset rel"
proof (cases "find (\<lambda>i. \<not> re_active (slot rel i)) (idxs rel)")
  case None
  then have "reliable_get_buf rel = Some (None, rel)" by (simp add: reliable_get_buf_def)
  moreover from None have "\<forall>i < slots rel. re_active (slot rel i)" by (auto simp: find_None_iff)
  ultimately show thesis by (rule full)
next
  case (Some i)
  then have i: "i < slots rel" "\<not> re_active (slot rel i)"
    by (auto simp: find_Some_iff idxs_def)
  obtain p c q where b: "re_buf (slot rel i) = mkbuf p c q" "small p c q"
    using assms i by (metis rel_wf_def live_split)
  have cap: "int (length (p @ c @ q)) = cap"
    using assms i b by (auto simp: rel_wf_def)
  have off: "0 \<le> rl_offset rel" "rl_offset rel \<le> cap" using assms by (auto simp: rel_wf_def)
  let ?pre = "take (nat (rl_offset rel)) (p @ c @ q)" and ?post = "drop (nat (rl_offset rel)) (p @ c @ q)"
  have "buf_init (re_buf (slot rel i)) (rl_offset rel) = (True, mkbuf ?pre [] ?post)"
    unfolding b(1) buf_init_mkbuf cap using off by simp
  then have "reliable_get_buf rel = Some (Some i, upd_entry rel i (\<lambda>e. e\<lparr>re_buf := mkbuf ?pre [] ?post\<rparr>))"
    using Some by (simp add: reliable_get_buf_def)
  moreover have "int (length ?pre) = rl_offset rel" "int (length ?post) = cap - rl_offset rel"
    using off cap by (simp_all del: length_append take_append drop_append)
  ultimately show thesis using free i by blast
qed

lemma get_output_cases:
  "reliable_get_buf_output_sequenced rel = Some (None, rel)
   \<or> reliable_get_buf_output_sequenced rel = reliable_get_buf rel"
  by (auto simp: reliable_get_buf_output_sequenced_def split: option.splits)

text \<open>
  \<open>changed rel i r\<close>: \<open>r\<close> is \<open>rel\<close> except for slot \<open>i\<close>, the next packet id and the hold flag.
\<close>

definition changed :: "reliable \<Rightarrow> nat \<Rightarrow> reliable \<Rightarrow> bool" where
  "changed rel i r \<longleftrightarrow> rl_size r = rl_size rel \<and> rl_offset r = rl_offset rel
     \<and> length (rl_array r) = length (rl_array rel) \<and> (\<forall>j. j \<noteq> i \<longrightarrow> slot r j = slot rel j)"

lemma changed_upd: "changed rel i (upd_entry rel i f)"
  by (simp add: changed_def upd_entry_def)

lemma changed_trans: "changed a i b \<Longrightarrow> changed b i c \<Longrightarrow> changed a i c"
  by (simp add: changed_def)

lemma changed_pid: "changed a i b \<Longrightarrow> changed a i (b\<lparr>rl_packet_id := p\<rparr>)"
  by (simp add: changed_def)

lemma changed_wf:
  "rel_wf cap rel \<Longrightarrow> changed rel i r \<Longrightarrow> i < slots rel \<Longrightarrow> live (re_buf (slot r i)) \<Longrightarrow>
     bcap (re_buf (slot r i)) = cap \<Longrightarrow> rel_wf cap r"
  by (auto simp: rel_wf_def changed_def)

lemma output_spec:
  assumes wf: "rel_wf cap rel" and d: "d \<noteq> []" "int (length d) \<le> maxlen" "int (length d) \<le> cap - rl_offset rel"
  obtains (idle) "output_ciphertext (\<lambda>_. Bio_data d) maxlen opcode rel = Some (Seg_idle, rel)"
      "reliable_get_buf_output_sequenced rel = Some (None, rel)"
  | (sent) i r where "output_ciphertext (\<lambda>_. Bio_data d) maxlen opcode rel = Some (Seg_change, r)"
      "i < slots rel" "\<not> re_active (slot rel i)" "changed rel i r" "rel_wf cap r"
      "rl_packet_id r = rl_packet_id rel + 1" "re_active (slot r i)"
      "re_packet_id (slot r i) = rl_packet_id rel"
      "content (re_buf (slot r i)) = be32 (rl_packet_id rel) @ d"
proof (cases "reliable_get_buf_output_sequenced rel = Some (None, rel)")
  case True
  then show thesis using idle by (simp add: output_ciphertext_def)
next
  case nn: False
  then have out: "reliable_get_buf_output_sequenced rel = reliable_get_buf rel"
    using get_output_cases by blast
  from wf show thesis
  proof (cases rule: get_buf_cases)
    case full
    then show thesis using nn out by simp
  next
    case (free i pre post)
    let ?r1 = "upd_entry rel i (\<lambda>e. e\<lparr>re_buf := mkbuf pre [] post\<rparr>)"
    have len: "i < length (rl_array rel)" using free(1) rel_wf_slots [OF wf] by simp
    have off: "4 \<le> length pre" using free(4) wf by (auto simp: rel_wf_def)
    let ?b = "mkbuf pre d (drop (length d) post)"
    have rd: "bio_read (\<lambda>_. Bio_data d) (mkbuf pre [] post) maxlen = Some (1, ?b)"
      using d free(4,5) nat_int [of "length pre", unfolded free(4)]
      by (auto simp: bio_read_def Let_def intro!: mkbuf_eqI) (auto simp: poke_def mkbuf_def mem_write_def)
    let ?r2 = "upd_entry ?r1 i (\<lambda>e. e\<lparr>re_buf := ?b\<rparr>)"
    let ?c = "mkbuf (take (length pre - 4) pre) (be32 (rl_packet_id rel) @ d) (drop (length d) post)"
    have s2: "re_buf (slot ?r2 i) = ?b" using len by (simp add: slot_upd_entry)
    obtain r where r: "reliable_mark_active_outgoing ?r2 i opcode = Some r"
       "r = upd_entry (?r2\<lparr>rl_packet_id := rl_packet_id rel + 1\<rparr>) i
              (\<lambda>e. e\<lparr>re_packet_id := rl_packet_id rel, re_buf := ?c, re_active := True, re_opcode := opcode,
                     re_next_try := 0, re_timeout := rl_initial_timeout ?r2\<rparr>)"
      using free(1) off s2 by (simp add: reliable_mark_active_outgoing_def Let_def buf_write_prepend_mkbuf)
    have out': "output_ciphertext (\<lambda>_. Bio_data d) maxlen opcode rel = Some (Seg_change, r)"
      using out free(3) len r(1) by (simp add: output_ciphertext_def Let_def rd slot_upd_entry)
    have ch: "changed rel i r"
      unfolding r(2) by (intro changed_trans [OF _ changed_upd] changed_pid changed_upd)
    have sl: "slot r i = (slot rel i)\<lparr>re_packet_id := rl_packet_id rel, re_buf := ?c, re_active := True,
        re_opcode := opcode, re_next_try := 0, re_timeout := rl_initial_timeout ?r2\<rparr>"
      unfolding r(2) using len by (simp add: slot_upd_entry)
    have lc: "int (length pre + length d + length (drop (length d) post)) = cap"
      using free(4,5) d by simp
    have "live ?c" "bcap ?c = cap"
      using lc off wf by (auto simp: small_def rel_wf_def)
    then have wfr: "rel_wf cap r" using changed_wf [OF wf ch free(1)] by (simp add: sl)
    have pid: "rl_packet_id r = rl_packet_id rel + 1" by (simp add: r(2))
    show thesis by (rule sent [OF out' free(1,2) ch wfr pid]) (simp_all add: sl)
  qed
qed

text \<open>Delivering the expected packet.\<close>

lemma wipe_live:
  "live b \<Longrightarrow> live (bio_write_post st b) \<and> bcap (bio_write_post st b) = bcap b"
  by (auto simp: bio_write_post_def live_def buf_inv_def poke_def buf_len_def buf_valid_def
      split: option.splits)

lemma deliver_spec:
  assumes wf: "rel_wf cap rel"
  obtains (idle) "deliver_ciphertext (\<lambda>_. 1) rel = Some (Seg_idle, None, rel)"
      "\<forall>i < slots rel. \<not> (re_active (slot rel i) \<and> re_packet_id (slot rel i) = rl_packet_id rel)"
  | (given) i r where
      "deliver_ciphertext (\<lambda>_. 1) rel = Some (Seg_change, Some (content (re_buf (slot rel i))), r)"
      "i < slots rel" "re_active (slot rel i)" "re_packet_id (slot rel i) = rl_packet_id rel"
      "changed rel i r" "rel_wf cap r" "rl_packet_id r = rl_packet_id rel + 1" "\<not> re_active (slot r i)"
proof (cases "reliable_get_buf_sequenced rel")
  case None
  then have "deliver_ciphertext (\<lambda>_. 1) rel = Some (Seg_idle, None, rel)"
    by (simp add: deliver_ciphertext_def)
  moreover from None have "\<forall>i < slots rel. \<not> (re_active (slot rel i) \<and> re_packet_id (slot rel i) = rl_packet_id rel)"
    by (auto simp: reliable_get_buf_sequenced_def find_None_iff)
  ultimately show thesis by (rule idle)
next
  case (Some i)
  then have i: "i < slots rel" "re_active (slot rel i)" "re_packet_id (slot rel i) = rl_packet_id rel"
    by (auto simp: reliable_get_buf_sequenced_def find_Some_iff idxs_def)
  have len: "i < length (rl_array rel)" using i(1) rel_wf_slots [OF wf] by simp
  let ?b = "re_buf (slot rel i)"
  let ?b1 = "if blen ?b \<noteq> 0 then bio_write_post 1 ?b else ?b"
  define r1 where "r1 = upd_entry rel i (\<lambda>e. e\<lparr>re_buf := ?b1\<rparr>)"
  define r where "r = (upd_entry r1 i (\<lambda>e. e\<lparr>re_active := False\<rparr>))\<lparr>rl_packet_id := rl_packet_id rel + 1\<rparr>"
  have b1: "live ?b1" "bcap ?b1 = cap"
    using wf i(1) wipe_live [of ?b 1] by (auto simp: rel_wf_def)
  have out: "deliver_ciphertext (\<lambda>_. 1) rel = Some (Seg_change, Some (content ?b), r)"
    using Some i len by (simp add: deliver_ciphertext_def Let_def reliable_mark_deleted_def r_def r1_def
        slot_upd_entry idxs_def)
  have ch: "changed rel i r"
    unfolding r_def r1_def by (intro changed_pid changed_trans [OF _ changed_upd] changed_upd)
  have "slot r i = (slot rel i)\<lparr>re_buf := ?b1, re_active := False\<rparr>"
    using len by (simp add: r_def r1_def slot_upd_entry)
  then have fin: "rel_wf cap r" "\<not> re_active (slot r i)"
    using changed_wf [OF wf ch i(1)] b1 by simp_all
  have pid: "rl_packet_id r = rl_packet_id rel + 1" by (simp add: r_def)
  show thesis by (rule given [OF out i ch fin(1) pid fin(2)])
qed

text \<open>Purging on an acknowledgement.\<close>

lemma purge_entry_simps:
  "re_active (purge_entry pid e) \<longleftrightarrow> re_active e \<and> re_packet_id e \<noteq> pid"
  "re_packet_id (purge_entry pid e) = re_packet_id e" "re_buf (purge_entry pid e) = re_buf e"
  by (auto simp: purge_entry_def)

lemma purge_pid_spec:
  assumes wf: "rel_wf cap rel"
  shows "rel_wf cap (purge_pid pid rel) \<and> rl_size (purge_pid pid rel) = rl_size rel
     \<and> rl_packet_id (purge_pid pid rel) = rl_packet_id rel \<and> rl_offset (purge_pid pid rel) = rl_offset rel
     \<and> (\<forall>i < slots rel. slot (purge_pid pid rel) i = purge_entry pid (slot rel i))"
proof -
  have s: "\<forall>i < slots rel. slot (purge_pid pid rel) i = purge_entry pid (slot rel i)"
    using slot_fold_upd [OF wf] by (simp add: purge_pid_def)
  have e: "purge_pid pid rel =
      rel\<lparr>rl_array := map (purge_entry pid) (take (slots rel) (rl_array rel)) @ drop (slots rel) (rl_array rel)\<rparr>"
    unfolding purge_pid_def idxs_def by (rule fold_upd_entry) (use rel_wf_slots [OF wf] in simp)
  have "rel_wf cap (purge_pid pid rel)"
    using wf s unfolding rel_wf_def by (simp add: e purge_entry_simps)
  then show ?thesis using s by (simp add: e)
qed

definition same_but_acks :: "u32 set \<Rightarrow> reliable \<Rightarrow> reliable \<Rightarrow> bool" where
  "same_but_acks P rel r \<longleftrightarrow> rl_size r = rl_size rel \<and> rl_packet_id r = rl_packet_id rel
     \<and> rl_offset r = rl_offset rel
     \<and> (\<forall>i < slots rel. re_packet_id (slot r i) = re_packet_id (slot rel i)
         \<and> re_buf (slot r i) = re_buf (slot rel i)
         \<and> (re_active (slot r i) \<longleftrightarrow> re_active (slot rel i) \<and> re_packet_id (slot rel i) \<notin> P))"

lemma purge_fold_spec:
  "rel_wf cap rel \<Longrightarrow> rel_wf cap (fold purge_pid pids rel) \<and> same_but_acks (set pids) rel (fold purge_pid pids rel)"
proof (induction pids arbitrary: rel)
  case Nil
  then show ?case by (simp add: same_but_acks_def)
next
  case (Cons p ps)
  note sp = purge_pid_spec [OF Cons.prems, of p]
  with Cons.IH [of "purge_pid p rel"] show ?case
    by (auto simp: same_but_acks_def purge_entry_simps)
qed

lemma send_purge_spec:
  "rel_wf cap rel \<Longrightarrow> rel_wf cap (reliable_send_purge rel ack)
     \<and> same_but_acks (set (ack_list ack)) rel (reliable_send_purge rel ack)"
  unfolding reliable_send_purge_def ack_list_def [symmetric] by (rule purge_fold_spec)

lemma schedule_now_spec:
  assumes wf: "rel_wf cap rel"
  shows "rel_wf cap (reliable_schedule_now now rel) \<and> same_but_acks {} rel (reliable_schedule_now now rel)"
proof -
  let ?f = "\<lambda>e. if re_active e then e\<lparr>re_next_try := now, re_timeout := rl_initial_timeout rel\<rparr> else e"
  have wf': "rel_wf cap (rel\<lparr>rl_hold := False\<rparr>)" using wf by (simp add: rel_wf_def)
  have e: "reliable_schedule_now now rel = rel\<lparr>rl_hold := False, rl_array :=
      map ?f (take (slots rel) (rl_array rel)) @ drop (slots rel) (rl_array rel)\<rparr>"
    using fold_upd_entry [of "slots rel" "rel\<lparr>rl_hold := False\<rparr>" ?f] rel_wf_slots [OF wf]
    by (simp add: reliable_schedule_now_def idxs_def)
  have s: "slot (reliable_schedule_now now rel) i = ?f (slot rel i)" if "i < slots rel" for i
    using that rel_wf_slots [OF wf] by (simp add: e nth_append)
  have "rel_wf cap (reliable_schedule_now now rel)"
    using wf s unfolding rel_wf_def by (simp add: e)
  then show ?thesis using s by (simp add: same_but_acks_def e)
qed

text \<open>Choosing what to transmit.\<close>

definition better :: "time_t \<Rightarrow> reliable \<Rightarrow> nat \<Rightarrow> nat option \<Rightarrow> nat option" where
  "better now rel i best =
     (let e = slot rel i
      in if re_active e \<and> (re_n_acks e \<ge> N_ACK_RETRANSMIT \<or> now \<ge> re_next_try e)
         then (case best of
                 None \<Rightarrow> Some i
               | Some j \<Rightarrow> if reliable_pid_min (re_packet_id e) (re_packet_id (slot rel j)) then Some i else best)
         else best)"

lemma best_to_send_fold: "best_to_send now rel = fold (better now rel) (idxs rel) None"
  by (simp add: best_to_send_def better_def [abs_def])

lemma fold_better_sound:
  "fold (better now rel) xs best = Some i \<Longrightarrow>
     best = Some i \<or> i \<in> set xs \<and> re_active (slot rel i) \<and> due now (slot rel i)"
proof (induction xs arbitrary: best)
  case Nil
  then show ?case by simp
next
  case (Cons x xs)
  then have "better now rel x best = Some i \<or> i \<in> set xs \<and> re_active (slot rel i) \<and> due now (slot rel i)"
    by simp
  then show ?case
    by (auto simp: better_def Let_def due_def split: if_splits option.splits)
qed

lemma fold_better_not_none: "fold (better now rel) xs (Some j) \<noteq> None"
proof (induction xs arbitrary: j)
  case (Cons x xs)
  have "\<exists>k. better now rel x (Some j) = Some k" by (auto simp: better_def Let_def)
  with Cons show ?case by auto
qed simp

lemma fold_better_complete:
  "i \<in> set xs \<Longrightarrow> re_active (slot rel i) \<Longrightarrow> due now (slot rel i) \<Longrightarrow>
     fold (better now rel) xs best \<noteq> None"
proof (induction xs arbitrary: best)
  case (Cons x xs)
  show ?case
  proof (cases "x = i")
    case True
    then have "\<exists>k. better now rel x best = Some k"
      using Cons.prems by (auto simp: better_def Let_def due_def split: option.splits)
    then show ?thesis using fold_better_not_none by auto
  next
    case False
    with Cons show ?thesis by auto
  qed
qed simp

lemma transmit_spec:
  assumes wf: "rel_wf cap rel"
  obtains (quiet) "transmit now rel = Some (None, rel)" "\<not> reliable_can_send now rel"
  | (out) i r where "transmit now rel = Some (Some (re_buf (slot rel i)), r)" "i < slots rel"
      "re_active (slot rel i)" "due now (slot rel i)" "rel_wf cap r" "same_but_acks {} rel r"
      "re_next_try (slot r i) = now + re_timeout (slot rel i)"
proof (cases "reliable_can_send now rel")
  case False
  then have "transmit now rel = Some (None, rel)" by (simp add: transmit_def)
  then show thesis using False by (rule quiet)
next
  case True
  then obtain k where k: "k < slots rel" "re_active (slot rel k)" "due now (slot rel k)"
    by (auto simp: reliable_can_send_def Let_def filter_empty_conv)
  obtain i where i: "best_to_send now rel = Some i"
    using fold_better_complete [of k "idxs rel" rel now None] k by (auto simp: best_to_send_fold)
  then have ii: "i < slots rel" "re_active (slot rel i)" "due now (slot rel i)"
    using fold_better_sound [of now rel "idxs rel" None i] by (auto simp: best_to_send_fold)
  have len: "i < length (rl_array rel)" using ii(1) rel_wf_slots [OF wf] by simp
  define r where "r = upd_entry rel i (\<lambda>e. e\<lparr>re_next_try := now + re_timeout e,
                                  re_timeout := re_timeout e * 2, re_n_acks := 0\<rparr>)"
  have sl: "slot r j = (if j = i then (slot rel i)\<lparr>re_next_try := now + re_timeout (slot rel i),
       re_timeout := re_timeout (slot rel i) * 2, re_n_acks := 0\<rparr> else slot rel j)" for j
    using len by (simp add: r_def slot_upd_entry)
  have "transmit now rel = Some (Some (re_buf (slot rel i)), r)"
    using True i sl by (simp add: transmit_def reliable_send_def r_def)
  moreover have "rel_wf cap r"
    using wf sl unfolding rel_wf_def by (simp add: r_def)
  moreover have "same_but_acks {} rel r" using sl by (simp add: same_but_acks_def r_def)
  ultimately show thesis using out ii sl by simp
qed

text \<open>Taking in a control packet.\<close>

lemma input_spec:
  assumes wf: "rel_wf cap rel" and sm: "small pre (be32 pid @ d) post"
  obtains
    (ignored) "input_ciphertext opcode rel ack (mkbuf pre (be32 pid @ d) post) = Some (True, rel, ack)"
      "(\<forall>i < slots rel. re_active (slot rel i)) \<or> \<not> reliable_wont_break_sequentiality rel pid"
  | (replay) "input_ciphertext opcode rel ack (mkbuf pre (be32 pid @ d) post)
      = Some (True, rel, snd (reliable_ack_acknowledge_packet_id ack pid))"
      "reliable_wont_break_sequentiality rel pid" "\<not> reliable_not_replay rel pid"
  | (too_big) i r where "input_ciphertext opcode rel ack (mkbuf pre (be32 pid @ d) post) = Some (False, r, ack)"
      "i < slots rel" "changed rel i r" "rel_wf cap r" "\<not> re_active (slot rel i)" "\<not> re_active (slot r i)"
      "rl_packet_id r = rl_packet_id rel" "cap - rl_offset rel < int (length d)"
  | (stored) i r where "input_ciphertext opcode rel ack (mkbuf pre (be32 pid @ d) post)
      = Some (True, r, snd (reliable_ack_acknowledge_packet_id ack pid))"
      "reliable_wont_break_sequentiality rel pid" "reliable_not_replay rel pid"
      "i < slots rel" "changed rel i r" "rel_wf cap r" "\<not> re_active (slot rel i)" "re_active (slot r i)"
      "rl_packet_id r = rl_packet_id rel" "re_packet_id (slot r i) = pid" "content (re_buf (slot r i)) = d"
proof (cases "reliable_can_get rel \<and> reliable_wont_break_sequentiality rel pid")
  case False
  then have "input_ciphertext opcode rel ack (mkbuf pre (be32 pid @ d) post) = Some (True, rel, ack)"
    by (auto simp: input_ciphertext_def read_pid_mkbuf)
  moreover from False have "(\<forall>i < slots rel. re_active (slot rel i)) \<or> \<not> reliable_wont_break_sequentiality rel pid"
    by (auto simp: reliable_can_get_def list_ex_iff)
  ultimately show thesis by (rule ignored)
next
  case True
  show thesis
  proof (cases "reliable_not_replay rel pid")
    case False
    then have "input_ciphertext opcode rel ack (mkbuf pre (be32 pid @ d) post)
        = Some (True, rel, snd (reliable_ack_acknowledge_packet_id ack pid))"
      using True by (simp add: input_ciphertext_def read_pid_mkbuf)
    then show thesis using True False replay by blast
  next
    case nr: True
    from wf show thesis
    proof (cases rule: get_buf_cases)
      case full
      then show thesis using True by (auto simp: reliable_can_get_def list_ex_iff)
    next
      case (free i p q)
      define r1 where "r1 = upd_entry rel i (\<lambda>e. e\<lparr>re_buf := mkbuf p [] q\<rparr>)"
      have len: "i < length (rl_array rel)" using free(1) rel_wf_slots [OF wf] by simp
      have sm: "small p [] q" using free(4,5) wf by (auto simp: small_def rel_wf_def)
      have s1: "slot r1 i = (slot rel i)\<lparr>re_buf := mkbuf p [] q\<rparr>" using len by (simp add: r1_def slot_upd_entry)
      have c1: "changed rel i r1" by (simp add: r1_def changed_upd)
      have w1: "rel_wf cap r1"
        using changed_wf [OF wf c1 free(1)] free(4,5) sm by (simp add: s1)
      show thesis
      proof (cases "length d \<le> length q")
        case False
        then have "input_ciphertext opcode rel ack (mkbuf pre (be32 pid @ d) post) = Some (False, r1, ack)"
          using True nr free(3) sm s1
          by (simp add: input_ciphertext_def read_pid_mkbuf buf_copy_mkbuf buf_write_mkbuf r1_def [symmetric])
        from too_big [OF this free(1) c1 w1 free(2)] show thesis
          using s1 free(2,5) False by (simp add: r1_def)
      next
        case fits: True
        define r where "r = upd_entry (upd_entry r1 i (\<lambda>e. e\<lparr>re_buf := mkbuf p d (drop (length d) q)\<rparr>)) i
          (\<lambda>e. e\<lparr>re_active := True, re_packet_id := pid, re_opcode := opcode, re_next_try := 0,
                 re_timeout := 0, re_n_acks := 0\<rparr>)"
        have nmin: "\<not> reliable_pid_min pid (rl_packet_id rel)"
          using nr by (auto simp: reliable_not_replay_def split: if_splits)
        have inp: "input_ciphertext opcode rel ack (mkbuf pre (be32 pid @ d) post)
            = Some (True, r, snd (reliable_ack_acknowledge_packet_id ack pid))"
          using True nr free(1,3) sm s1 fits nmin
          by (simp add: input_ciphertext_def read_pid_mkbuf buf_copy_mkbuf buf_write_mkbuf r1_def [symmetric]
              reliable_mark_active_incoming_def r_def) (simp add: r1_def)
        have ch: "changed rel i r"
          unfolding r_def by (rule changed_trans [OF changed_trans [OF c1 changed_upd] changed_upd])
        have sl: "slot r i = (slot rel i)\<lparr>re_buf := mkbuf p d (drop (length d) q), re_active := True,
            re_packet_id := pid, re_opcode := opcode, re_next_try := 0, re_timeout := 0, re_n_acks := 0\<rparr>"
          using len s1 by (simp add: r_def slot_upd_entry r1_def)
        have "rel_wf cap r"
          using changed_wf [OF wf ch free(1)] free(4,5) sm fits by (simp add: sl small_def)
        moreover have "rl_packet_id r = rl_packet_id rel" by (simp add: r_def r1_def)
        ultimately show thesis
          using stored [OF inp _ nr free(1) ch _ free(2)] True by (simp add: sl)
      qed
    qed
  qed
qed

subsection \<open>One direction of the channel\<close>

record chan =
  c_snd :: reliable
  c_rcv :: reliable
  c_rack :: reliable_ack
  c_wire :: "byte list set"
  c_acks :: "byte list set"
  c_sub :: "byte list list"
  c_del :: "byte list list"

text \<open>At most \<open>CHAN_MAX\<close> packets are sent: the range in which the receive window is exact.\<close>

definition CHAN_MAX :: nat where "CHAN_MAX = 2 ^ 31 - 1"

inductive chan_step :: "int \<Rightarrow> session_id \<Rightarrow> int \<Rightarrow> chan \<Rightarrow> chan \<Rightarrow> bool" for cap sid maxlen where
  submit: "length (c_sub c) < CHAN_MAX \<Longrightarrow> d \<noteq> [] \<Longrightarrow> int (length d) \<le> maxlen \<Longrightarrow>
     int (length d) \<le> cap - rl_offset (c_snd c) \<Longrightarrow>
     output_ciphertext (\<lambda>_. Bio_data d) maxlen opcode (c_snd c) = Some (Seg_change, s) \<Longrightarrow>
     chan_step cap sid maxlen c (c\<lparr>c_snd := s, c_sub := c_sub c @ [d]\<rparr>)"
| send: "transmit now (c_snd c) = Some (Some b, s) \<Longrightarrow>
     chan_step cap sid maxlen c (c\<lparr>c_snd := s, c_wire := insert (content b) (c_wire c)\<rparr>)"
| reschedule: "chan_step cap sid maxlen c (c\<lparr>c_snd := reliable_schedule_now now (c_snd c)\<rparr>)"
| receive: "p \<in> c_wire c \<Longrightarrow> small pre p post \<Longrightarrow>
     input_ciphertext opcode (c_rcv c) (c_rack c) (mkbuf pre p post) = Some (ok, r, a) \<Longrightarrow>
     chan_step cap sid maxlen c (c\<lparr>c_rcv := r, c_rack := a\<rparr>)"
| deliver: "deliver_ciphertext (\<lambda>_. 1) (c_rcv c) = Some (Seg_change, Some d, r) \<Longrightarrow>
     chan_step cap sid maxlen c (c\<lparr>c_rcv := r, c_del := c_del c @ [d]\<rparr>)"
| ack_out: "0 \<le> mx \<Longrightarrow> mx \<le> 255 \<Longrightarrow> ACK_SIZE (min (ack_len (c_rack c)) mx) \<le> int (length pre) \<Longrightarrow>
     reliable_ack_write (c_rack c) (mkbuf pre x post) sid mx True = Some (True, a, b) \<Longrightarrow>
     chan_step cap sid maxlen c (c\<lparr>c_rack := a, c_acks := insert (content b) (c_acks c)\<rparr>)"
| ack_in: "q \<in> c_acks c \<Longrightarrow> reliable_ack_read ack_clear (mkbuf pre q post) sid = (True, a, b) \<Longrightarrow>
     chan_step cap sid maxlen c (c\<lparr>c_snd := reliable_send_purge (c_snd c) a\<rparr>)"

inductive_cases chan_stepE: "chan_step cap sid maxlen c c'"

inductive chan_reach :: "int \<Rightarrow> session_id \<Rightarrow> int \<Rightarrow> chan \<Rightarrow> chan \<Rightarrow> bool" for cap sid maxlen c0 where
  start: "chan_reach cap sid maxlen c0 c0"
| step: "chan_reach cap sid maxlen c0 c \<Longrightarrow> chan_step cap sid maxlen c c' \<Longrightarrow> chan_reach cap sid maxlen c0 c'"

definition chan_start :: "reliable \<Rightarrow> reliable \<Rightarrow> chan" where
  "chan_start s r = \<lparr>c_snd = s, c_rcv = r, c_rack = ack_clear, c_wire = {}, c_acks = {},
     c_sub = [], c_del = []\<rparr>"

text \<open>\<open>holds rel k\<close>: an active slot has packet id \<open>k\<close>.\<close>

definition holds :: "reliable \<Rightarrow> nat \<Rightarrow> bool" where
  "holds rel k \<longleftrightarrow> (\<exists>i < slots rel. re_active (slot rel i) \<and> unat (re_packet_id (slot rel i)) = k)"

definition got :: "chan \<Rightarrow> nat \<Rightarrow> bool" where
  "got c k \<longleftrightarrow> k < length (c_del c) \<or> holds (c_rcv c) k"

definition snd_inv :: "int \<Rightarrow> chan \<Rightarrow> bool" where
  "snd_inv cap c \<longleftrightarrow> rel_wf cap (c_snd c) \<and> length (c_sub c) \<le> CHAN_MAX
     \<and> rl_packet_id (c_snd c) = word_of_nat (length (c_sub c))
     \<and> (\<forall>i < slots (c_snd c). re_active (slot (c_snd c) i) \<longrightarrow>
          (let pid = re_packet_id (slot (c_snd c) i) in unat pid < length (c_sub c)
             \<and> content (re_buf (slot (c_snd c) i)) = be32 pid @ c_sub c ! unat pid))"

definition wire_inv :: "chan \<Rightarrow> bool" where
  "wire_inv c \<longleftrightarrow> (\<forall>p \<in> c_wire c. \<exists>pid. unat pid < length (c_sub c) \<and> p = be32 pid @ c_sub c ! unat pid)"

definition rcv_inv :: "int \<Rightarrow> chan \<Rightarrow> bool" where
  "rcv_inv cap c \<longleftrightarrow> rel_wf cap (c_rcv c) \<and> length (c_del c) \<le> length (c_sub c)
     \<and> rl_packet_id (c_rcv c) = word_of_nat (length (c_del c))
     \<and> c_del c = take (length (c_del c)) (c_sub c)
     \<and> (\<forall>i < slots (c_rcv c). re_active (slot (c_rcv c) i) \<longrightarrow>
          (let k = unat (re_packet_id (slot (c_rcv c) i)) in k < length (c_sub c)
             \<and> length (c_del c) \<le> k \<and> k < length (c_del c) + slots (c_rcv c)
             \<and> content (re_buf (slot (c_rcv c) i)) = c_sub c ! k))
     \<and> (\<forall>i < slots (c_rcv c). \<forall>j < slots (c_rcv c). re_active (slot (c_rcv c) i) \<and> re_active (slot (c_rcv c) j)
          \<and> re_packet_id (slot (c_rcv c) i) = re_packet_id (slot (c_rcv c) j) \<longrightarrow> i = j)"

definition ack_inv :: "session_id \<Rightarrow> chan \<Rightarrow> bool" where
  "ack_inv sid c \<longleftrightarrow> ack_wf (c_rack c) \<and> length sid = SID_SIZE \<and> session_id_defined sid
     \<and> (\<forall>pid \<in> set (ack_list (c_rack c)). got c (unat pid))
     \<and> (\<forall>q \<in> c_acks c. \<exists>ids x. length ids \<le> 8 \<and> q = ack_bytes ids sid @ x \<and> (\<forall>pid \<in> set ids. got c (unat pid)))"

definition kept_inv :: "chan \<Rightarrow> bool" where
  "kept_inv c \<longleftrightarrow> (\<forall>k < length (c_sub c). got c k \<or> holds (c_snd c) k)"

definition chan_inv :: "int \<Rightarrow> session_id \<Rightarrow> chan \<Rightarrow> bool" where
  "chan_inv cap sid c \<longleftrightarrow> snd_inv cap c \<and> wire_inv c \<and> rcv_inv cap c \<and> ack_inv sid c \<and> kept_inv c"

lemma unat_word_of_nat_small: "k < 2 ^ 32 \<Longrightarrow> unat (word_of_nat k :: u32) = k"
  by (simp add: unat_of_nat)

lemma chan_max_small: "n \<le> CHAN_MAX \<Longrightarrow> n < 2 ^ 31"
  by (simp add: CHAN_MAX_def)

text \<open>The sender's operations that only touch timers and drop slots.\<close>

lemma same_but_acks_holds:
  assumes "same_but_acks P rel r"
  shows "holds r k \<Longrightarrow> holds rel k"
    and "holds rel k \<Longrightarrow> (\<And>pid. pid \<in> P \<Longrightarrow> unat pid \<noteq> k) \<Longrightarrow> holds r k"
proof -
  show "holds r k \<Longrightarrow> holds rel k" using assms by (auto simp: same_but_acks_def holds_def)
next
  assume "holds rel k" and P: "\<And>pid. pid \<in> P \<Longrightarrow> unat pid \<noteq> k"
  then obtain i where i: "i < slots rel" "re_active (slot rel i)" "unat (re_packet_id (slot rel i)) = k"
    by (auto simp: holds_def)
  then have "re_packet_id (slot rel i) \<notin> P" using P by auto
  then show "holds r k" using assms i by (auto simp: same_but_acks_def holds_def intro!: exI [of _ i])
qed

lemma same_but_acks_snd_inv:
  "snd_inv cap c \<Longrightarrow> same_but_acks P (c_snd c) s \<Longrightarrow> rel_wf cap s \<Longrightarrow> snd_inv cap (c\<lparr>c_snd := s\<rparr>)"
  by (auto simp: snd_inv_def same_but_acks_def Let_def)

lemma changed_holds:
  assumes "changed rel i r" "i < slots rel"
  shows "holds r k \<longleftrightarrow> (re_active (slot r i) \<and> unat (re_packet_id (slot r i)) = k
     \<or> (\<exists>j < slots rel. j \<noteq> i \<and> re_active (slot rel j) \<and> unat (re_packet_id (slot rel j)) = k))"
proof -
  have e: "rl_size r = rl_size rel" "\<And>j. j \<noteq> i \<Longrightarrow> slot r j = slot rel j"
    using assms(1) by (auto simp: changed_def)
  show ?thesis unfolding holds_def e(1) using assms(2) e(2) by metis
qed

lemma changed_holds_mono:
  "changed rel i r \<Longrightarrow> i < slots rel \<Longrightarrow> \<not> re_active (slot rel i) \<Longrightarrow> holds rel k \<Longrightarrow> holds r k"
  by (auto simp: changed_holds) (auto simp: holds_def)

lemma got_update [simp]:
  "got (c\<lparr>c_snd := s\<rparr>) k = got c k" "got (c\<lparr>c_sub := xs\<rparr>) k = got c k" "got (c\<lparr>c_wire := w\<rparr>) k = got c k"
  "got (c\<lparr>c_rack := a\<rparr>) k = got c k" "got (c\<lparr>c_acks := q\<rparr>) k = got c k"
  by (simp_all add: got_def)

subsection \<open>Every step keeps the invariant\<close>

lemma ack_inv_mono:
  "ack_inv sid c \<Longrightarrow> (\<And>k. got c k \<Longrightarrow> got c' k) \<Longrightarrow> c_rack c' = c_rack c \<Longrightarrow> c_acks c' = c_acks c \<Longrightarrow>
     ack_inv sid c'"
  by (simp add: ack_inv_def) meson

lemma submit_inv:
  assumes inv: "chan_inv cap sid c" and len: "length (c_sub c) < CHAN_MAX"
    and d: "d \<noteq> []" "int (length d) \<le> maxlen" "int (length d) \<le> cap - rl_offset (c_snd c)"
    and out: "output_ciphertext (\<lambda>_. Bio_data d) maxlen opcode (c_snd c) = Some (Seg_change, s)"
  shows "chan_inv cap sid (c\<lparr>c_snd := s, c_sub := c_sub c @ [d]\<rparr>)"
proof -
  let ?n = "length (c_sub c)" and ?c = "c\<lparr>c_snd := s, c_sub := c_sub c @ [d]\<rparr>"
  have s: "snd_inv cap c" and w: "wire_inv c" and r: "rcv_inv cap c" and a: "ack_inv sid c" and k: "kept_inv c"
    using inv by (auto simp: chan_inv_def)
  have wf: "rel_wf cap (c_snd c)" using s by (simp add: snd_inv_def)
  have n: "unat (word_of_nat ?n :: u32) = ?n" using chan_max_small len by (intro unat_word_of_nat_small) fastforce
  from output_spec [OF wf d, of opcode] obtain i where i: "i < slots (c_snd c)" "\<not> re_active (slot (c_snd c) i)"
      "changed (c_snd c) i s" "rel_wf cap s" "rl_packet_id s = rl_packet_id (c_snd c) + 1" "re_active (slot s i)"
      "re_packet_id (slot s i) = rl_packet_id (c_snd c)"
      "content (re_buf (slot s i)) = be32 (rl_packet_id (c_snd c)) @ d"
    by cases (use out in auto)
  have pid: "rl_packet_id (c_snd c) = word_of_nat ?n" using s by (simp add: snd_inv_def)
  have "snd_inv cap ?c"
    unfolding snd_inv_def
  proof (intro conjI allI impI)
    fix j assume "j < slots (c_snd ?c)" "re_active (slot (c_snd ?c) j)"
    then show "let pid = re_packet_id (slot (c_snd ?c) j) in unat pid < length (c_sub ?c)
        \<and> content (re_buf (slot (c_snd ?c) j)) = be32 pid @ c_sub ?c ! unat pid"
      using s i pid n by (cases "j = i") (auto simp: snd_inv_def changed_def Let_def nth_append)
  qed (use i len s in \<open>auto simp: snd_inv_def\<close>)
  moreover have "wire_inv ?c" using w by (fastforce simp: wire_inv_def nth_append)
  moreover have "rcv_inv cap ?c" using r by (auto simp: rcv_inv_def Let_def nth_append)
  moreover have "ack_inv sid ?c" using a by (rule ack_inv_mono) (simp_all add: got_def)
  moreover have "kept_inv ?c"
    unfolding kept_inv_def
  proof (intro allI impI)
    fix j assume "j < length (c_sub ?c)"
    then consider "j < ?n" | "j = ?n" by fastforce
    then show "got ?c j \<or> holds (c_snd ?c) j"
    proof cases
      case 1
      then show ?thesis using k changed_holds_mono [OF i(3,1,2)] by (auto simp: kept_inv_def got_def)
    next
      case 2
      then have "holds s j" using i n pid by (auto simp: changed_holds)
      then show ?thesis by simp
    qed
  qed
  ultimately show ?thesis by (simp add: chan_inv_def)
qed

lemma send_inv:
  assumes inv: "chan_inv cap sid c" and out: "transmit now (c_snd c) = Some (Some b, s)"
  shows "chan_inv cap sid (c\<lparr>c_snd := s, c_wire := insert (content b) (c_wire c)\<rparr>)"
proof -
  have s: "snd_inv cap c" and wf: "rel_wf cap (c_snd c)" using inv by (auto simp: chan_inv_def snd_inv_def)
  from transmit_spec [OF wf, of now] obtain i where i: "b = re_buf (slot (c_snd c) i)" "i < slots (c_snd c)"
      "re_active (slot (c_snd c) i)" "rel_wf cap s" "same_but_acks {} (c_snd c) s"
    by cases (use out in auto)
  have "\<exists>pid. unat pid < length (c_sub c) \<and> content b = be32 pid @ c_sub c ! unat pid"
    using s i by (auto simp: snd_inv_def Let_def)
  then show ?thesis
    using inv i(4,5) same_but_acks_snd_inv [OF s i(5,4)] same_but_acks_holds [OF i(5)]
    by (auto simp: chan_inv_def snd_inv_def wire_inv_def rcv_inv_def ack_inv_def kept_inv_def got_def)
qed

lemma purge_inv:
  assumes inv: "chan_inv cap sid c" and s: "same_but_acks P (c_snd c) s" "rel_wf cap s"
    and P: "\<And>pid. pid \<in> P \<Longrightarrow> got c (unat pid)"
  shows "chan_inv cap sid (c\<lparr>c_snd := s\<rparr>)"
proof -
  have "kept_inv (c\<lparr>c_snd := s\<rparr>)"
    using inv P same_but_acks_holds(2) [OF s(1)] by (auto simp: chan_inv_def kept_inv_def)
  then show ?thesis
    using inv same_but_acks_snd_inv [OF _ s]
    by (auto simp: chan_inv_def wire_inv_def rcv_inv_def ack_inv_def)
qed

lemma ack_in_inv:
  assumes inv: "chan_inv cap sid c" and q: "q \<in> c_acks c"
    and rd: "reliable_ack_read ack_clear (mkbuf pre q post) sid = (True, a, b)"
  shows "chan_inv cap sid (c\<lparr>c_snd := reliable_send_purge (c_snd c) a\<rparr>)"
proof -
  have ai: "ack_inv sid c" and wf: "rel_wf cap (c_snd c)" using inv by (auto simp: chan_inv_def snd_inv_def)
  then obtain ids x where ids: "length ids \<le> 8" "q = ack_bytes ids sid @ x" "\<And>pid. pid \<in> set ids \<Longrightarrow> got c (unat pid)"
    using q unfolding ack_inv_def by blast
  have "length sid = SID_SIZE" "session_id_defined sid" using ai by (auto simp: ack_inv_def)
  from reliable_ack_read_bytes [OF ids(1) this, of pre x post] rd ids(2)
  have "ack_list a = ids" by auto
  with send_purge_spec [OF wf, of a] ids(3) show ?thesis by (intro purge_inv [OF inv]) auto
qed

lemma ack_out_inv:
  assumes inv: "chan_inv cap sid c" and mx: "0 \<le> mx" "mx \<le> 255"
    and room: "ACK_SIZE (min (ack_len (c_rack c)) mx) \<le> int (length pre)"
    and w: "reliable_ack_write (c_rack c) (mkbuf pre x post) sid mx True = Some (True, a, b)"
  shows "chan_inv cap sid (c\<lparr>c_rack := a, c_acks := insert (content b) (c_acks c)\<rparr>)"
proof -
  have ai: "ack_inv sid c" using inv by (simp add: chan_inv_def)
  then have "ack_wf (c_rack c)" "length sid = SID_SIZE" "session_id_defined sid" by (auto simp: ack_inv_def)
  from reliable_ack_write_prepend [OF this(1) mx this(2,3) room, of x post] w
  have a: "content b = ack_bytes (ack_take (c_rack c) mx) sid @ x" "ack_wf a"
      "ack_take (c_rack c) mx @ ack_list a = ack_list (c_rack c)" by auto
  have len: "length (ack_take (c_rack c) mx) \<le> 8"
    using ack_take_wf [OF \<open>ack_wf (c_rack c)\<close> mx] by blast
  have sub: "set (ack_take (c_rack c) mx) \<subseteq> set (ack_list (c_rack c))" "set (ack_list a) \<subseteq> set (ack_list (c_rack c))"
    using a(3) by (metis set_append Un_upper1, metis set_append Un_upper2)
  have "ack_inv sid (c\<lparr>c_rack := a, c_acks := insert (content b) (c_acks c)\<rparr>)"
    using ai a(1,2) len sub unfolding ack_inv_def by (auto simp: subset_iff)
  then show ?thesis
    using inv by (auto simp: chan_inv_def snd_inv_def wire_inv_def rcv_inv_def kept_inv_def)
qed

lemma receive_window_small:
  assumes "rcv_inv cap c" "length (c_sub c) \<le> CHAN_MAX" "unat pid < length (c_sub c)"
  shows "reliable_wont_break_sequentiality (c_rcv c) pid \<longleftrightarrow> unat pid < length (c_del c) + slots (c_rcv c)"
    and "reliable_pid_min pid (rl_packet_id (c_rcv c)) \<longleftrightarrow> unat pid < length (c_del c)"
proof -
  let ?D = "length (c_del c)"
  have D: "unat (rl_packet_id (c_rcv c)) = ?D" "?D < 2 ^ 31"
    using assms(1,2) chan_max_small [of ?D] by (auto simp: rcv_inv_def unat_word_of_nat_small)
  have n: "0 < rl_size (c_rcv c)" "rl_size (c_rcv c) \<le> 8"
    using assms(1) by (auto simp: rcv_inv_def rel_wf_def RELIABLE_CAPACITY_def)
  then have "word_of_int (rl_size (c_rcv c)) = (word_of_nat (slots (c_rcv c)) :: u32)" by simp
  then have s: "unat (word_of_int (rl_size (c_rcv c)) :: u32) = slots (c_rcv c)"
    using n unat_word_of_nat_small [of "slots (c_rcv c)"] by simp
  have p: "unat pid < 2 ^ 31" using assms(2,3) chan_max_small by fastforce
  show "reliable_wont_break_sequentiality (c_rcv c) pid \<longleftrightarrow> unat pid < ?D + slots (c_rcv c)"
    unfolding reliable_wont_break_sequentiality_def
    by (subst in_range2_small) (use p D s n in auto)
  show "reliable_pid_min pid (rl_packet_id (c_rcv c)) \<longleftrightarrow> unat pid < ?D"
    by (subst pid_min_small) (use p D in auto)
qed

lemma not_replay_iff:
  assumes "rcv_inv cap c" "length (c_sub c) \<le> CHAN_MAX" "unat pid < length (c_sub c)"
  shows "reliable_not_replay (c_rcv c) pid \<longleftrightarrow> \<not> got c (unat pid)"
  using receive_window_small(2) [OF assms]
  by (auto simp: reliable_not_replay_def got_def holds_def list_ex_iff word_unat_eq_iff)

lemma receive_inv:
  assumes inv: "chan_inv cap sid c" and p: "p \<in> c_wire c" "small pre p post"
    and res: "input_ciphertext opcode (c_rcv c) (c_rack c) (mkbuf pre p post) = Some (ok, r, a)"
  shows "chan_inv cap sid (c\<lparr>c_rcv := r, c_rack := a\<rparr>)"
proof -
  let ?c = "c\<lparr>c_rcv := r, c_rack := a\<rparr>"
  have s: "snd_inv cap c" and w: "wire_inv c" and ri: "rcv_inv cap c" and ai: "ack_inv sid c" and k: "kept_inv c"
    using inv by (auto simp: chan_inv_def)
  have wf: "rel_wf cap (c_rcv c)" and mx: "length (c_sub c) \<le> CHAN_MAX" using ri s by (auto simp: rcv_inv_def snd_inv_def)
  obtain pid where pid: "unat pid < length (c_sub c)" "p = be32 pid @ c_sub c ! unat pid"
    using w p(1) by (auto simp: wire_inv_def)
  note win = receive_window_small [OF ri mx pid(1)] and nr = not_replay_iff [OF ri mx pid(1)]
  have acked: "ack_inv sid ?c" if "\<And>j. got c j \<Longrightarrow> got ?c j"
      "a = c_rack c \<or> (a = snd (reliable_ack_acknowledge_packet_id (c_rack c) pid) \<and> got ?c (unat pid))"
    using ai that unfolding ack_inv_def
    by (auto simp: acknowledge_list inv_intros split: if_splits) blast+
  have keep: "chan_inv cap sid ?c" if "\<And>j. got c j \<Longrightarrow> got ?c j" "rcv_inv cap ?c"
      "a = c_rack c \<or> (a = snd (reliable_ack_acknowledge_packet_id (c_rack c) pid) \<and> got ?c (unat pid))"
    using acked [OF that(1,3)] that(1,2) s w k by (auto simp: chan_inv_def snd_inv_def wire_inv_def kept_inv_def)
  from wf p(2) [unfolded pid(2)] show ?thesis
  proof (cases rule: input_spec [of cap "c_rcv c" pre pid "c_sub c ! unat pid" post opcode "c_rack c"])
    case ignored
    with res pid(2) ri show ?thesis by (intro keep) (auto simp: got_def rcv_inv_def)
  next
    case replay
    with res pid(2) ri nr show ?thesis by (intro keep) (auto simp: got_def rcv_inv_def)
  next
    case (too_big i r')
    with res pid(2) have e: "r = r'" "a = c_rack c" by auto
    have "holds r j \<longleftrightarrow> holds (c_rcv c) j" for j
      unfolding e(1) changed_holds [OF too_big(3,2)] using too_big(5,6) by (auto simp: holds_def)
    moreover have "rcv_inv cap ?c"
      using ri too_big(2-7) unfolding e(1) rcv_inv_def changed_def by simp metis
    ultimately show ?thesis using e(2) by (intro keep) (auto simp: got_def)
  next
    case (stored i r')
    with res pid(2) have e: "r = r'" "a = snd (reliable_ack_acknowledge_packet_id (c_rack c) pid)" by auto
    have ng: "\<not> got c (unat pid)" using stored(3) nr by simp
    have range: "length (c_del c) \<le> unat pid" "unat pid < length (c_del c) + slots (c_rcv c)"
      using ng stored(2) win by (auto simp: got_def)
    have sz: "rl_size r' = rl_size (c_rcv c)" "\<And>j. j \<noteq> i \<Longrightarrow> slot r' j = slot (c_rcv c) j"
      using stored(5) by (auto simp: changed_def)
    have other: "unat (re_packet_id (slot (c_rcv c) j)) \<noteq> unat pid" if "j < slots (c_rcv c)" "re_active (slot (c_rcv c) j)" for j
      using ng that by (auto simp: got_def holds_def)
    have "rcv_inv cap ?c"
      unfolding rcv_inv_def
    proof (intro conjI allI impI)
      fix j assume "j < slots (c_rcv ?c)" "re_active (slot (c_rcv ?c) j)"
      then show "let k = unat (re_packet_id (slot (c_rcv ?c) j)) in k < length (c_sub ?c)
         \<and> length (c_del ?c) \<le> k \<and> k < length (c_del ?c) + slots (c_rcv ?c)
         \<and> content (re_buf (slot (c_rcv ?c) j)) = c_sub ?c ! k"
        using ri stored(8,10,11) range pid(1) sz e(1) by (cases "j = i") (auto simp: rcv_inv_def Let_def)
    next
      fix j l assume "j < slots (c_rcv ?c)" "l < slots (c_rcv ?c)" "re_active (slot (c_rcv ?c) j)
         \<and> re_active (slot (c_rcv ?c) l) \<and> re_packet_id (slot (c_rcv ?c) j) = re_packet_id (slot (c_rcv ?c) l)"
      then have jl: "j < slots (c_rcv c)" "l < slots (c_rcv c)" "re_active (slot r' j)" "re_active (slot r' l)"
          "re_packet_id (slot r' j) = re_packet_id (slot r' l)"
        using sz(1) e(1) by simp_all
      have dist: "\<And>j l. j < slots (c_rcv c) \<Longrightarrow> l < slots (c_rcv c) \<Longrightarrow> re_active (slot (c_rcv c) j) \<Longrightarrow>
          re_active (slot (c_rcv c) l) \<Longrightarrow> re_packet_id (slot (c_rcv c) j) = re_packet_id (slot (c_rcv c) l) \<Longrightarrow> j = l"
        using ri unfolding rcv_inv_def by blast
      show "j = l"
        using jl dist [of j l] other [of j] other [of l] sz(2) [of j] sz(2) [of l] stored(10) by metis
    qed (use ri stored(6,9) e(1) in \<open>auto simp: rcv_inv_def\<close>)
    moreover have "holds r (unat pid)" using e(1) stored(4,5,8,10) by (auto simp: changed_holds)
    ultimately show ?thesis
      using e changed_holds_mono [OF stored(5,4,7)] by (intro keep) (auto simp: got_def)
  qed
qed

lemma deliver_inv:
  assumes inv: "chan_inv cap sid c"
    and res: "deliver_ciphertext (\<lambda>_. 1) (c_rcv c) = Some (Seg_change, Some d, r)"
  shows "chan_inv cap sid (c\<lparr>c_rcv := r, c_del := c_del c @ [d]\<rparr>)"
proof -
  let ?c = "c\<lparr>c_rcv := r, c_del := c_del c @ [d]\<rparr>" and ?D = "length (c_del c)"
  have s: "snd_inv cap c" and w: "wire_inv c" and ri: "rcv_inv cap c" and ai: "ack_inv sid c" and k: "kept_inv c"
    using inv by (auto simp: chan_inv_def)
  have wf: "rel_wf cap (c_rcv c)" using ri by (simp add: rcv_inv_def)
  from deliver_spec [OF wf] obtain i where i: "d = content (re_buf (slot (c_rcv c) i))" "i < slots (c_rcv c)"
      "re_active (slot (c_rcv c) i)" "re_packet_id (slot (c_rcv c) i) = rl_packet_id (c_rcv c)"
      "changed (c_rcv c) i r" "rel_wf cap r" "rl_packet_id r = rl_packet_id (c_rcv c) + 1" "\<not> re_active (slot r i)"
    by cases (use res in auto)
  have D: "unat (rl_packet_id (c_rcv c)) = ?D"
    using ri s chan_max_small [of ?D] by (auto simp: rcv_inv_def snd_inv_def unat_word_of_nat_small)
  have lt: "?D < length (c_sub c)" "d = c_sub c ! ?D"
    using ri i D by (auto simp: rcv_inv_def Let_def)
  have sz: "rl_size r = rl_size (c_rcv c)" "\<And>j. j \<noteq> i \<Longrightarrow> slot r j = slot (c_rcv c) j"
    using i(5) by (auto simp: changed_def)
  have uniq: "j = i" if "j < slots (c_rcv c)" "re_active (slot (c_rcv c) j)" "unat (re_packet_id (slot (c_rcv c) j)) = ?D" for j
  proof -
    have "re_packet_id (slot (c_rcv c) j) = re_packet_id (slot (c_rcv c) i)"
      using that(3) D i(4) by (simp add: word_unat_eq_iff)
    then show ?thesis using ri i(2,3) that(1,2) unfolding rcv_inv_def by blast
  qed
  have mono: "got ?c j" if "got c j" for j
  proof (cases "j \<le> ?D")
    case False
    with that obtain l where l: "l < slots (c_rcv c)" "re_active (slot (c_rcv c) l)"
        "unat (re_packet_id (slot (c_rcv c) l)) = j"
      by (auto simp: got_def holds_def)
    with False have "l \<noteq> i" using i(4) D by auto
    then have "holds r j" using l sz by (auto simp: holds_def intro!: exI [of _ l])
    then show ?thesis by (simp add: got_def)
  qed (simp add: got_def)
  have "rcv_inv cap ?c"
    unfolding rcv_inv_def
  proof (intro conjI allI impI)
    fix j assume j: "j < slots (c_rcv ?c)" "re_active (slot (c_rcv ?c) j)"
    then have "j \<noteq> i" using i(8) by auto
    with j have jj: "j < slots (c_rcv c)" "re_active (slot (c_rcv c) j)" "slot r j = slot (c_rcv c) j"
      using sz by auto
    have "unat (re_packet_id (slot (c_rcv c) j)) \<noteq> ?D" using uniq jj \<open>j \<noteq> i\<close> by blast
    then show "let k = unat (re_packet_id (slot (c_rcv ?c) j)) in k < length (c_sub ?c)
         \<and> length (c_del ?c) \<le> k \<and> k < length (c_del ?c) + slots (c_rcv ?c)
         \<and> content (re_buf (slot (c_rcv ?c) j)) = c_sub ?c ! k"
      using ri jj sz(1) by (auto simp: rcv_inv_def Let_def)
  next
    fix j l assume "j < slots (c_rcv ?c)" "l < slots (c_rcv ?c)" "re_active (slot (c_rcv ?c) j)
         \<and> re_active (slot (c_rcv ?c) l) \<and> re_packet_id (slot (c_rcv ?c) j) = re_packet_id (slot (c_rcv ?c) l)"
    then show "j = l"
      using ri sz i(8) unfolding rcv_inv_def by (cases "j = i"; cases "l = i") auto
  next
    show "c_del ?c = take (length (c_del ?c)) (c_sub ?c)"
      using ri lt by (simp add: rcv_inv_def take_Suc_conv_app_nth)
  qed (use ri i(6,7) lt in \<open>auto simp: rcv_inv_def\<close>)
  moreover have "ack_inv sid ?c" using ai mono by (rule ack_inv_mono) simp_all
  ultimately show ?thesis
    using s w k mono by (auto simp: chan_inv_def snd_inv_def wire_inv_def kept_inv_def)
qed

lemma step_inv: "chan_inv cap sid c \<Longrightarrow> chan_step cap sid maxlen c c' \<Longrightarrow> chan_inv cap sid c'"
proof (erule chan_stepE)
  fix now assume inv: "chan_inv cap sid c" and c': "c' = c\<lparr>c_snd := reliable_schedule_now now (c_snd c)\<rparr>"
  then have "rel_wf cap (c_snd c)" by (simp add: chan_inv_def snd_inv_def)
  from schedule_now_spec [OF this, of now] show "chan_inv cap sid c'"
    unfolding c' by (intro purge_inv [OF inv, of "{}"]) auto
qed (auto intro: submit_inv send_inv receive_inv deliver_inv ack_out_inv ack_in_inv)

lemma reach_inv:
  assumes "chan_reach cap sid maxlen c0 c" "chan_inv cap sid c0" shows "chan_inv cap sid c"
  using assms by (induction rule: chan_reach.induct) (auto intro: step_inv)

subsection \<open>The channel's properties\<close>

lemma reliable_init_spec:
  assumes "reliable_init buf_size offset n hold = Some rel" "4 \<le> offset"
  shows "rel_wf (size_t_of buf_size) rel" "rl_packet_id rel = 0" "rl_offset rel = offset"
    "i < slots rel \<Longrightarrow> \<not> re_active (slot rel i)"
proof -
  obtain b b1 where b: "0 < n" "n \<le> RELIABLE_CAPACITY" "alloc_buf (size_t_of buf_size) = Some b"
      "buf_init b offset = (True, b1)"
      "rel = \<lparr>rl_size = n, rl_initial_timeout = 0, rl_packet_id = 0,
                     rl_offset = offset, rl_hold = hold,
                     rl_array = replicate (nat n) (entry_zero\<lparr>re_buf := b1\<rparr>)
                       @ replicate (nat RELIABLE_CAPACITY - nat n) entry_zero\<rparr>"
    using assms(1) by (auto simp: reliable_init_def split: if_splits option.splits prod.splits bool.splits)
  have sz: "0 \<le> size_t_of buf_size" "size_t_of buf_size < BUF_SIZE_MAX"
    using b(3) by (auto simp: alloc_buf_def buf_size_valid_def size_t_of_def split: if_splits)
  have bb: "b1 = \<lparr>bcap = size_t_of buf_size, boff = offset, blen = 0, bdata = Some (replicate (nat (size_t_of buf_size)) 0)\<rparr>"
      "0 \<le> offset" "offset \<le> size_t_of buf_size"
    using b(3,4) by (auto simp: alloc_buf_def buf_init_def split: if_splits)
  then have live: "live b1" "bcap b1 = size_t_of buf_size"
    using sz by (auto simp: live_def buf_inv_def)
  show "rel_wf (size_t_of buf_size) rel" "rl_packet_id rel = 0" "rl_offset rel = offset"
    "i < slots rel \<Longrightarrow> \<not> re_active (slot rel i)"
    using b(1,2,5) bb(2,3) live sz assms(2) by (auto simp: rel_wf_def nth_append entry_zero_def RELIABLE_CAPACITY_def)
qed

definition chan_init :: "int \<Rightarrow> session_id \<Rightarrow> chan \<Rightarrow> bool" where
  "chan_init buf_size sid c \<longleftrightarrow> length sid = SID_SIZE \<and> session_id_defined sid
     \<and> (\<exists>off n h off' n' h'. 4 \<le> off \<and> 4 \<le> off'
          \<and> reliable_init buf_size off n h = Some (c_snd c) \<and> reliable_init buf_size off' n' h' = Some (c_rcv c))
     \<and> c = chan_start (c_snd c) (c_rcv c)"

lemma init_chan_inv: "chan_init buf_size sid c \<Longrightarrow> chan_inv (size_t_of buf_size) sid c"
  unfolding chan_init_def
proof (elim conjE exE)
  fix off n h off' n' h'
  assume off: "4 \<le> off" "4 \<le> off'" and sid: "length sid = SID_SIZE" "session_id_defined sid"
    and s: "reliable_init buf_size off n h = Some (c_snd c)"
    and r: "reliable_init buf_size off' n' h' = Some (c_rcv c)"
    and c: "c = chan_start (c_snd c) (c_rcv c)"
  note sp = reliable_init_spec [OF s off(1)] reliable_init_spec [OF r off(2)]
  have f: "c_rack c = ack_clear" "c_wire c = {}" "c_acks c = {}" "c_sub c = []" "c_del c = []"
    by (subst c, simp add: chan_start_def)+
  show "chan_inv (size_t_of buf_size) sid c"
    using sp sid by (auto simp: chan_inv_def snd_inv_def wire_inv_def rcv_inv_def ack_inv_def kept_inv_def f)
qed

subsection \<open>A concrete run\<close>

definition demo_send :: reliable where "demo_send = the (reliable_init 60 20 4 False)"
definition demo_recv :: reliable where "demo_recv = the (reliable_init 60 20 8 False)"

lemma demo_init:
  "reliable_init 60 20 4 False = Some demo_send" "reliable_init 60 20 8 False = Some demo_recv"
  by (simp_all add: demo_send_def demo_recv_def reliable_init_def RELIABLE_CAPACITY_def alloc_buf_def
      buf_size_valid_def size_t_of_def BUF_SIZE_MAX_def buf_init_def)

lemma demo_chan_init: "chan_init 60 (replicate 8 5) (chan_start demo_send demo_recv)"
  unfolding chan_init_def
  by (intro conjI exI [of _ 20] exI [of _ 4] exI [of _ 8] exI [of _ False])
    (simp_all add: chan_start_def demo_init SID_SIZE_def session_id_defined_def)

lemma fresh_output:
  assumes "rel_wf cap rel" "\<And>i. i < slots rel \<Longrightarrow> \<not> re_active (slot rel i)"
  shows "reliable_get_buf_output_sequenced rel \<noteq> Some (None, rel)"
proof -
  have m: "fold (\<lambda>i m. let e = slot rel i in if re_active e
           then (case m of None \<Rightarrow> Some (re_packet_id e)
             | Some k \<Rightarrow> if reliable_pid_min (re_packet_id e) k then Some (re_packet_id e) else m) else m) xs None = None"
    if "\<forall>i \<in> set xs. i < slots rel" for xs
    using that assms(2) by (induction xs) auto
  have "min_active_id rel = None" unfolding min_active_id_def by (rule m) auto
  then have o: "reliable_get_buf_output_sequenced rel = reliable_get_buf rel"
    by (simp add: reliable_get_buf_output_sequenced_def)
  from assms(1) show ?thesis
  proof (cases rule: get_buf_cases)
    case full
    then show ?thesis using assms(2) [of 0] assms(1) by (auto simp: rel_wf_def)
  qed (simp add: o)
qed

text \<open>One payload submitted, one transmission of it, nothing received yet.\<close>

lemma demo_reach:
  "\<exists>c. chan_reach (size_t_of 60) (replicate 8 5) 40 (chan_start demo_send demo_recv) c
     \<and> c_sub c = [[1, 2, 3]] \<and> c_del c = [] \<and> c_rcv c = demo_recv"
proof -
  let ?c = "chan_start demo_send demo_recv" and ?d = "[1, 2, 3] :: byte list"
  note sp = reliable_init_spec [OF demo_init(1), simplified]
  have d: "?d \<noteq> []" "int (length ?d) \<le> 40" "int (length ?d) \<le> size_t_of 60 - rl_offset demo_send"
    using sp(3) by (simp_all add: size_t_of_def)
  have "reliable_get_buf_output_sequenced demo_send \<noteq> Some (None, demo_send)"
    using fresh_output [OF sp(1)] sp(4) by blast
  then obtain r where "output_ciphertext (\<lambda>_. Bio_data ?d) 40 5 demo_send = Some (Seg_change, r)"
    using output_spec [OF sp(1) d, of 5] by metis
  then have "chan_step (size_t_of 60) (replicate 8 5) 40 ?c (?c\<lparr>c_snd := r, c_sub := c_sub ?c @ [?d]\<rparr>)"
    using d by (intro chan_step.submit) (simp_all add: chan_start_def CHAN_MAX_def)
  from chan_reach.step [OF chan_reach.start this] show ?thesis by (auto simp: chan_start_def)
qed

subsection \<open>The properties\<close>

text \<open>
  C2: The control channel delivers in order, exactly once. Starting from two freshly initialised
  structures, over a network that loses, repeats and reorders both packets and acknowledgements,
  in every reachable state the payloads the receiver has written into its TLS object are the first
  ones handed to the sender, in the same order, none missing and none twice.
\<close>

theorem control_channel_in_order:
  assumes "chan_init buf_size sid c0" and "chan_reach (size_t_of buf_size) sid maxlen c0 c"
  shows "c_del c = take (length (c_del c)) (c_sub c)"
  using reach_inv [OF assms(2) init_chan_inv [OF assms(1)]] by (simp add: chan_inv_def rcv_inv_def)

theorem control_channel_in_order_witness:
  "\<exists>c :: chan. c_sub c = [[1, 2, 3]] \<and> c_del c = take (length (c_del c)) (c_sub c)"
proof -
  obtain c where c: "chan_reach (size_t_of 60) (replicate 8 5) 40 (chan_start demo_send demo_recv) c"
      "c_sub c = [[1, 2, 3]]" "c_del c = []" "c_rcv c = demo_recv"
    using demo_reach by blast
  show ?thesis using control_channel_in_order [OF demo_chan_init c(1)] c(2) by blast
qed

text \<open>
  C9: No packet is lost. In every reachable state each payload handed to the sender is delivered,
  or waits in the receiver's buffer, or is still held by the sender for retransmission; an
  acknowledgement, however late or repeated, never purges a packet the receiver does not have.
\<close>

theorem control_channel_no_loss:
  assumes "chan_init buf_size sid c0" and "chan_reach (size_t_of buf_size) sid maxlen c0 c"
    and "k < length (c_sub c)"
  shows "k < length (c_del c) \<or> holds (c_rcv c) k \<or> holds (c_snd c) k"
  using reach_inv [OF assms(2) init_chan_inv [OF assms(1)]] assms(3)
  by (auto simp: chan_inv_def kept_inv_def got_def)

theorem control_channel_no_loss_witness:
  "\<exists>c :: chan. c_sub c = [[1, 2, 3]] \<and> (0 < length (c_del c) \<or> holds (c_rcv c) 0 \<or> holds (c_snd c) 0)"
proof -
  obtain c where c: "chan_reach (size_t_of 60) (replicate 8 5) 40 (chan_start demo_send demo_recv) c"
      "c_sub c = [[1, 2, 3]]" "c_del c = []" "c_rcv c = demo_recv"
    using demo_reach by blast
  show ?thesis using control_channel_no_loss [OF demo_chan_init c(1), of 0] c(2) by auto
qed

lemma free_slot_for_next:
  assumes ri: "rcv_inv cap c" and "\<not> holds (c_rcv c) (length (c_del c))"
  shows "\<exists>i < slots (c_rcv c). \<not> re_active (slot (c_rcv c) i)"
proof (rule ccontr)
  let ?D = "length (c_del c)" and ?n = "slots (c_rcv c)"
  let ?f = "\<lambda>i. unat (re_packet_id (slot (c_rcv c) i))"
  assume "\<not> ?thesis"
  then have act: "\<And>i. i < ?n \<Longrightarrow> re_active (slot (c_rcv c) i)" by blast
  have "inj_on ?f {..<?n}"
    using ri act unfolding rcv_inv_def by (intro inj_onI) (simp add: word_unat_eq_iff)
  moreover have "?f ` {..<?n} \<subseteq> {?D<..<?D + ?n}"
  proof
    fix k assume "k \<in> ?f ` {..<?n}"
    then obtain i where i: "i < ?n" "k = ?f i" by auto
    then have "?D \<le> k" "k < ?D + ?n" using ri act by (auto simp: rcv_inv_def Let_def)
    moreover have "k \<noteq> ?D" using assms(2) i act by (auto simp: holds_def)
    ultimately show "k \<in> {?D<..<?D + ?n}" by auto
  qed
  ultimately have "card {..<?n} \<le> card {?D<..<?D + ?n}" by (rule card_inj_on_le) simp
  moreover have "0 < ?n" using ri by (simp add: rcv_inv_def rel_wf_def)
  ultimately show False by simp
qed

text \<open>
  C8: The receive buffer never deadlocks. In every reachable state where something is still
  undelivered: if the receiver has the next payload, the delivery segment hands it to the TLS
  object; if not, there is a free slot, and any copy of that packet that arrives (in any buffer,
  with a payload the slot can hold) is stored and acknowledged. The window check, by refusing
  ids too far ahead, is what keeps a slot free.
\<close>

theorem control_channel_no_deadlock:
  assumes "chan_init buf_size sid c0" and "chan_reach (size_t_of buf_size) sid maxlen c0 c"
    and "length (c_del c) < length (c_sub c)"
  shows "if holds (c_rcv c) (length (c_del c))
     then (\<exists>r. deliver_ciphertext (\<lambda>_. 1) (c_rcv c) = Some (Seg_change, Some (c_sub c ! length (c_del c)), r))
     else \<forall>pre post opcode. let p = be32 (word_of_nat (length (c_del c))) @ c_sub c ! length (c_del c)
        in small pre p post \<and> int (length (c_sub c ! length (c_del c))) \<le> size_t_of buf_size - rl_offset (c_rcv c)
          \<longrightarrow> (\<exists>r a. input_ciphertext opcode (c_rcv c) (c_rack c) (mkbuf pre p post) = Some (True, r, a)
                \<and> holds r (length (c_del c)))"
proof -
  let ?D = "length (c_del c)" and ?pid = "word_of_nat (length (c_del c)) :: u32"
  have inv: "chan_inv (size_t_of buf_size) sid c" using reach_inv [OF assms(2) init_chan_inv [OF assms(1)]] .
  then have ri: "rcv_inv (size_t_of buf_size) c" and mx: "length (c_sub c) \<le> CHAN_MAX"
    by (auto simp: chan_inv_def snd_inv_def)
  have D: "unat ?pid = ?D" using assms(3) mx chan_max_small [of ?D] by (intro unat_word_of_nat_small) auto
  have wf: "rel_wf (size_t_of buf_size) (c_rcv c)" using ri by (simp add: rcv_inv_def)
  have lt: "unat ?pid < length (c_sub c)" using D assms(3) by simp
  note win = receive_window_small [OF ri mx lt] and nr = not_replay_iff [OF ri mx lt]
  have n: "0 < slots (c_rcv c)" using wf by (simp add: rel_wf_def)
  show ?thesis
  proof (cases "holds (c_rcv c) ?D")
    case True
    from wf show ?thesis
    proof (cases rule: deliver_spec)
      case idle
      then show ?thesis using True ri D by (auto simp: holds_def rcv_inv_def word_unat_eq_iff)
    next
      case (given i r)
      then have "content (re_buf (slot (c_rcv c) i)) = c_sub c ! ?D"
        using ri D by (auto simp: rcv_inv_def Let_def)
      then show ?thesis using given True by auto
    qed
  next
    case False
    have free: "\<not> (\<forall>i < slots (c_rcv c). re_active (slot (c_rcv c) i))"
      using free_slot_for_next [OF ri False] by blast
    have ok: "reliable_wont_break_sequentiality (c_rcv c) ?pid" "reliable_not_replay (c_rcv c) ?pid"
      using win(1) nr n False D by (auto simp: got_def)
    have "\<exists>r a. input_ciphertext opcode (c_rcv c) (c_rack c) (mkbuf pre (be32 ?pid @ c_sub c ! ?D) post) = Some (True, r, a)
        \<and> holds r ?D"
      if "small pre (be32 ?pid @ c_sub c ! ?D) post"
        "int (length (c_sub c ! ?D)) \<le> size_t_of buf_size - rl_offset (c_rcv c)" for pre post opcode
      using wf that(1)
    proof (cases rule: input_spec [of "size_t_of buf_size" "c_rcv c" pre ?pid "c_sub c ! ?D" post opcode "c_rack c"])
      case (stored i r)
      then show ?thesis using D by (auto simp: changed_holds)
    qed (use free ok that(2) in auto)
    with False show ?thesis by (simp add: Let_def)
  qed
qed

theorem control_channel_no_deadlock_witness:
  "\<exists>(c :: chan) r a. c_sub c = [[1, 2, 3]] \<and> input_ciphertext 5 (c_rcv c) (c_rack c)
       (mkbuf [] (be32 0 @ [1, 2, 3]) []) = Some (True, r, a) \<and> holds r 0"
proof -
  obtain c where c: "chan_reach (size_t_of 60) (replicate 8 5) 40 (chan_start demo_send demo_recv) c"
      "c_sub c = [[1, 2, 3]]" "c_del c = []" "c_rcv c = demo_recv"
    using demo_reach by blast
  note sp = reliable_init_spec [OF demo_init(2), simplified]
  have "\<not> holds (c_rcv c) 0" using sp(4) c(4) by (auto simp: holds_def)
  moreover have "small [] (be32 0 @ [1, 2, 3]) []" by (simp add: small_def BUF_SIZE_MAX_def)
  ultimately have "\<exists>r a. input_ciphertext 5 (c_rcv c) (c_rack c) (mkbuf [] (be32 0 @ [1, 2, 3]) []) = Some (True, r, a)
      \<and> holds r 0"
    using control_channel_no_deadlock [OF demo_chan_init c(1)] c sp(3) by (simp add: Let_def size_t_of_def)
  with c(2) show ?thesis by blast
qed

text \<open>
  C27: No assertion fails. From every reachable state the peers' operations (taking ciphertext
  from the TLS object, retransmitting, storing a packet from the wire, delivering, writing the
  pending acknowledgements into a buffer with headroom) return without reaching a failing ASSERT.
\<close>

theorem control_channel_asserts_hold:
  assumes "chan_init buf_size sid c0" and "chan_reach (size_t_of buf_size) sid maxlen c0 c"
  shows "transmit now (c_snd c) \<noteq> None \<and> deliver_ciphertext (\<lambda>_. 1) (c_rcv c) \<noteq> None
    \<and> (d \<noteq> [] \<and> int (length d) \<le> maxlen \<and> int (length d) \<le> size_t_of buf_size - rl_offset (c_snd c) \<longrightarrow>
       output_ciphertext (\<lambda>_. Bio_data d) maxlen opcode (c_snd c) \<noteq> None)
    \<and> (p \<in> c_wire c \<and> small pre p post \<longrightarrow> input_ciphertext opcode (c_rcv c) (c_rack c) (mkbuf pre p post) \<noteq> None)
    \<and> (0 \<le> mx \<and> mx \<le> 255 \<and> ACK_SIZE (min (ack_len (c_rack c)) mx) \<le> int (length pre) \<longrightarrow>
       reliable_ack_write (c_rack c) (mkbuf pre x post) sid mx True \<noteq> None)"
proof (intro conjI impI; (elim conjE)?)
  have inv: "chan_inv (size_t_of buf_size) sid c" using reach_inv [OF assms(2) init_chan_inv [OF assms(1)]] .
  then have wf: "rel_wf (size_t_of buf_size) (c_snd c)" "rel_wf (size_t_of buf_size) (c_rcv c)"
    by (auto simp: chan_inv_def snd_inv_def rcv_inv_def)
  show "transmit now (c_snd c) \<noteq> None" by (rule transmit_spec [OF wf(1), of now]) auto
  show "deliver_ciphertext (\<lambda>_. 1) (c_rcv c) \<noteq> None" by (rule deliver_spec [OF wf(2)]) auto
  show "output_ciphertext (\<lambda>_. Bio_data d) maxlen opcode (c_snd c) \<noteq> None"
    if "d \<noteq> []" "int (length d) \<le> maxlen" "int (length d) \<le> size_t_of buf_size - rl_offset (c_snd c)"
    by (rule output_spec [OF wf(1) that, of opcode]) auto
  show "input_ciphertext opcode (c_rcv c) (c_rack c) (mkbuf pre p post) \<noteq> None" if p: "p \<in> c_wire c" "small pre p post"
  proof -
    obtain pid d where "p = be32 pid @ d" using inv p(1) by (auto simp: chan_inv_def wire_inv_def)
    with p(2) show ?thesis
      by (cases rule: input_spec [OF wf(2), of pre pid d post opcode "c_rack c"]) auto
  qed
  show "reliable_ack_write (c_rack c) (mkbuf pre x post) sid mx True \<noteq> None"
    if "0 \<le> mx" "mx \<le> 255" "ACK_SIZE (min (ack_len (c_rack c)) mx) \<le> int (length pre)"
    using reliable_ack_write_prepend [of "c_rack c" mx sid pre x post] that inv
    by (auto simp: chan_inv_def ack_inv_def)
qed

theorem control_channel_asserts_hold_witness:
  "\<exists>c :: chan. c_sub c = [[1, 2, 3]] \<and> transmit 10 (c_snd c) \<noteq> None"
proof -
  obtain c where c: "chan_reach (size_t_of 60) (replicate 8 5) 40 (chan_start demo_send demo_recv) c"
      "c_sub c = [[1, 2, 3]]" "c_del c = []" "c_rcv c = demo_recv"
    using demo_reach by blast
  show ?thesis using control_channel_asserts_hold [OF demo_chan_init c(1)] c(2) by blast
qed

end
