(* ===== verification/Otime.thy ===== *)
theory Otime
  imports Int_Util
begin

text \<open>
  \<^verbatim>\<open>otime.h\<close>, \<^verbatim>\<open>otime.c\<close>, \<^verbatim>\<open>interval.h\<close>, \<^verbatim>\<open>interval.c\<close>,
  \<^verbatim>\<open>shaper.h\<close> and \<^verbatim>\<open>shaper.c\<close>: time values, the program's filtered clock,
  recurring timers, the event rate limit and the traffic shaper's wake-up time.

  \<open>struct timeval\<close> is a datatype, so that it can be an instance of \<open>linorder\<close>: the instance's
  order is the one \<open>tv_lt\<close>, \<open>tv_le\<close>, \<open>tv_gt\<close>, \<open>tv_ge\<close> and \<open>tv_eq\<close> compute. The globals
  \<open>now\<close>, \<open>now_adj\<close> and \<open>now_usec\<close> are the record \<open>clock\<close>; the functions that only read
  \<open>now\<close> take it as an argument. A value stored from a \<open>time_t\<close> into an \<open>int\<close> goes through
  \<open>c_int\<close>. The shaper's floating-point factor is not modelled: the product it yields is an
  argument.
\<close>

definition c_int :: "int \<Rightarrow> int" where
  "c_int x = (x + 2 ^ 31) mod 2 ^ 32 - 2 ^ 31"

lemma c_int_id: "- (2 ^ 31) \<le> x \<Longrightarrow> x < 2 ^ 31 \<Longrightarrow> c_int x = x"
  by (simp add: c_int_def)

subsection \<open>Time values\<close>

datatype timeval = Timeval (tv_sec: int) (tv_usec: int)

definition tv_clear :: timeval where "tv_clear = Timeval 0 0"

definition tv_defined :: "timeval \<Rightarrow> bool" where
  "tv_defined tv \<longleftrightarrow> tv_sec tv > 0 \<and> tv_usec tv > 0"

definition tv_subtract :: "timeval \<Rightarrow> timeval \<Rightarrow> int \<Rightarrow> int" where
  "tv_subtract tv1 tv2 max_seconds =
     (let max_usec = max_seconds * 1000000;
          sec_diff = c_int (tv_sec tv1 - tv_sec tv2)
      in if sec_diff > max_seconds + 10 then max_usec
         else if sec_diff < - (max_seconds + 10) then - max_usec
         else constrain_int (sec_diff * 1000000 + (tv_usec tv1 - tv_usec tv2)) (- max_usec) max_usec)"

definition tv_add :: "timeval \<Rightarrow> timeval \<Rightarrow> timeval" where
  "tv_add dest src =
     (let s1 = tv_sec dest + tv_sec src;
          u1 = tv_usec dest + tv_usec src;
          s2 = s1 + drop_bit 20 u1;
          u2 = u1 AND 0x000FFFFF
      in if u2 \<ge> 1000000 then Timeval (s2 + 1) (u2 - 1000000) else Timeval s2 u2)"

definition tv_lt :: "timeval \<Rightarrow> timeval \<Rightarrow> bool" where
  "tv_lt t1 t2 =
     (if tv_sec t1 < tv_sec t2 then True
      else if tv_sec t1 > tv_sec t2 then False
      else tv_usec t1 < tv_usec t2)"

definition tv_le :: "timeval \<Rightarrow> timeval \<Rightarrow> bool" where
  "tv_le t1 t2 =
     (if tv_sec t1 < tv_sec t2 then True
      else if tv_sec t1 > tv_sec t2 then False
      else tv_usec t1 \<le> tv_usec t2)"

definition tv_ge :: "timeval \<Rightarrow> timeval \<Rightarrow> bool" where
  "tv_ge t1 t2 =
     (if tv_sec t1 > tv_sec t2 then True
      else if tv_sec t1 < tv_sec t2 then False
      else tv_usec t1 \<ge> tv_usec t2)"

definition tv_gt :: "timeval \<Rightarrow> timeval \<Rightarrow> bool" where
  "tv_gt t1 t2 =
     (if tv_sec t1 > tv_sec t2 then True
      else if tv_sec t1 < tv_sec t2 then False
      else tv_usec t1 > tv_usec t2)"

definition tv_eq :: "timeval \<Rightarrow> timeval \<Rightarrow> bool" where
  "tv_eq t1 t2 \<longleftrightarrow> tv_sec t1 = tv_sec t2 \<and> tv_usec t1 = tv_usec t2"

function tv_carry :: "int \<Rightarrow> int \<Rightarrow> int \<times> int" where
  "tv_carry sec usec = (if usec < 0 then tv_carry (sec - 1) (usec + 1000000) else (sec, usec))"
  by pat_completeness auto
termination by (relation "measure (\<lambda>(sec, usec). nat (- usec))") auto

definition tv_delta :: "timeval \<Rightarrow> timeval \<Rightarrow> timeval" where
  "tv_delta t1 t2 =
     (case tv_carry (c_int (tv_sec t2 - tv_sec t1)) (c_int (tv_usec t2 - tv_usec t1)) of
        (sec, usec) \<Rightarrow> if sec < 0 then Timeval 0 0 else Timeval sec usec)"

definition TV_WITHIN_SIGMA_MAX_SEC :: int where "TV_WITHIN_SIGMA_MAX_SEC = 600"

definition tv_within_sigma :: "timeval \<Rightarrow> timeval \<Rightarrow> u32 \<Rightarrow> bool" where
  "tv_within_sigma t1 t2 sigma =
     (let delta = tv_subtract t1 t2 TV_WITHIN_SIGMA_MAX_SEC
      in - sint sigma \<le> delta \<and> delta \<le> sint sigma)"

text \<open>The order of the program's comparisons, as a library order.\<close>

instantiation timeval :: linorder
begin

definition less_eq_timeval :: "timeval \<Rightarrow> timeval \<Rightarrow> bool" where
  "less_eq_timeval t1 t2 \<longleftrightarrow> tv_sec t1 < tv_sec t2 \<or> tv_sec t1 = tv_sec t2 \<and> tv_usec t1 \<le> tv_usec t2"

definition less_timeval :: "timeval \<Rightarrow> timeval \<Rightarrow> bool" where
  "less_timeval t1 t2 \<longleftrightarrow> tv_sec t1 < tv_sec t2 \<or> tv_sec t1 = tv_sec t2 \<and> tv_usec t1 < tv_usec t2"

instance
  by intro_classes
    (auto simp: less_eq_timeval_def less_timeval_def intro: timeval.expand)

end

lemma tv_order [simp]:
  "tv_lt t1 t2 \<longleftrightarrow> t1 < t2" "tv_le t1 t2 \<longleftrightarrow> t1 \<le> t2" "tv_gt t1 t2 \<longleftrightarrow> t2 < t1" "tv_ge t1 t2 \<longleftrightarrow> t2 \<le> t1"
  "tv_eq t1 t2 \<longleftrightarrow> t1 = t2"
  by (auto simp: tv_lt_def tv_le_def tv_gt_def tv_ge_def tv_eq_def less_eq_timeval_def less_timeval_def
      intro: timeval.expand)

subsection \<open>The filtered clock\<close>

record clock =
  ck_now :: time_t
  ck_adj :: time_t
  ck_usec :: int

definition update_now :: "time_t \<Rightarrow> clock \<Rightarrow> clock" where
  "update_now system_time c =
     (let forward_threshold = 86400; backward_trigger = 10;
          real_time = system_time + ck_adj c
      in if real_time > ck_now c
         then (let overshoot = real_time - ck_now c - 1
               in if overshoot > forward_threshold \<and> ck_adj c \<ge> overshoot
                  then c\<lparr>ck_adj := ck_adj c - overshoot, ck_now := real_time - overshoot\<rparr>
                  else c\<lparr>ck_now := real_time\<rparr>)
         else if real_time < ck_now c - backward_trigger
         then c\<lparr>ck_adj := ck_adj c + (ck_now c - real_time)\<rparr>
         else c)"

definition update_now_usec :: "timeval \<Rightarrow> clock \<Rightarrow> clock" where
  "update_now_usec tv c =
     (let last = ck_now c; c1 = update_now (tv_sec tv) c
      in if ck_now c1 > last \<or> (ck_now c1 = last \<and> tv_usec tv > ck_usec c1)
         then c1\<lparr>ck_usec := tv_usec tv\<rparr> else c1)"

text \<open>\<open>gettimeofday\<close> gives \<open>tv\<close>; the result is what the caller reads.\<close>

definition openvpn_gettimeofday :: "timeval \<Rightarrow> clock \<Rightarrow> timeval \<times> clock" where
  "openvpn_gettimeofday tv c =
     (let c1 = update_now_usec tv c in (Timeval (ck_now c1) (ck_usec c1), c1))"

definition update_time :: "time_t \<Rightarrow> clock \<Rightarrow> clock" where
  "update_time t c = (update_now t c)\<lparr>ck_usec := 0\<rparr>"

subsection \<open>Event rate limit\<close>

text \<open>The members of type \<^verbatim>\<open>int\<close> are words of 32 bits, read with \<open>sint\<close>; the counter wraps.\<close>

record frequency_limit =
  fl_max :: u32
  fl_per :: u32
  fl_n :: u32
  fl_reset :: time_t

definition frequency_limit_init :: "u32 \<Rightarrow> u32 \<Rightarrow> frequency_limit option" where
  "frequency_limit_init mx per =
     (if sint mx \<ge> 0 \<and> sint per \<ge> 0 then Some \<lparr>fl_max = mx, fl_per = per, fl_n = 0, fl_reset = 0\<rparr> else None)"

definition frequency_limit_event_allowed :: "time_t \<Rightarrow> frequency_limit \<Rightarrow> bool \<times> frequency_limit" where
  "frequency_limit_event_allowed now f =
     (if fl_per f \<noteq> 0
      then (let f1 = (if now \<ge> fl_reset f + sint (fl_per f) then f\<lparr>fl_reset := now, fl_n := 0\<rparr> else f);
                f2 = f1\<lparr>fl_n := fl_n f1 + 1\<rparr>
            in (sint (fl_n f2) \<le> sint (fl_max f2), f2))
      else (True, f))"

subsection \<open>Intervals\<close>

definition interval_earliest_wakeup :: "int \<Rightarrow> time_t \<Rightarrow> time_t \<Rightarrow> int" where
  "interval_earliest_wakeup wakeup at current =
     (if at > current
      then (let delta = c_int (at - current);
                w = (if delta < wakeup then delta else wakeup)
            in if w < 0 then 0 else w)
      else wakeup)"

record interval =
  iv_refresh :: int
  iv_horizon :: int
  iv_future_trigger :: time_t
  iv_last_action :: time_t
  iv_last_test_true :: time_t

definition interval_init :: "int \<Rightarrow> int \<Rightarrow> interval" where
  "interval_init horizon refresh = \<lparr>iv_refresh = refresh, iv_horizon = horizon, iv_future_trigger = 0,
     iv_last_action = 0, iv_last_test_true = 0\<rparr>"

definition interval_test :: "time_t \<Rightarrow> interval \<Rightarrow> bool \<times> interval" where
  "interval_test now iv =
     (let trigger = (iv_future_trigger iv \<noteq> 0 \<and> now \<ge> iv_future_trigger iv);
          t1 = (if trigger then iv\<lparr>iv_future_trigger := 0\<rparr> else iv)
      in if iv_last_action t1 + iv_horizon t1 > now \<or> iv_last_test_true t1 + iv_refresh t1 \<le> now \<or> trigger
         then (True, t1\<lparr>iv_last_test_true := now\<rparr>)
         else (False, t1))"

definition interval_schedule_wakeup :: "time_t \<Rightarrow> interval \<Rightarrow> int \<Rightarrow> int" where
  "interval_schedule_wakeup now iv wakeup =
     interval_earliest_wakeup
       (interval_earliest_wakeup wakeup (iv_last_test_true iv + iv_refresh iv) now)
       (iv_future_trigger iv) now"

definition interval_future_trigger :: "time_t \<Rightarrow> interval \<Rightarrow> int \<Rightarrow> interval" where
  "interval_future_trigger now iv wakeup =
     (if wakeup \<noteq> 0 then iv\<lparr>iv_future_trigger := now + wakeup\<rparr> else iv)"

definition interval_action :: "time_t \<Rightarrow> interval \<Rightarrow> interval" where
  "interval_action now iv = iv\<lparr>iv_last_action := now\<rparr>"

record event_timeout =
  et_defined :: bool
  et_n :: int
  et_last :: time_t

definition event_timeout_clear :: event_timeout where
  "event_timeout_clear = \<lparr>et_defined = False, et_n = 0, et_last = 0\<rparr>"

definition event_timeout_init :: "int \<Rightarrow> time_t \<Rightarrow> event_timeout" where
  "event_timeout_init n local_now =
     \<lparr>et_defined = True, et_n = (if n \<ge> 0 then n else 0), et_last = local_now\<rparr>"

definition event_timeout_reset :: "time_t \<Rightarrow> event_timeout \<Rightarrow> event_timeout" where
  "event_timeout_reset now et = (if et_defined et then et\<lparr>et_last := now\<rparr> else et)"

definition event_timeout_modify_wakeup :: "int \<Rightarrow> event_timeout \<Rightarrow> event_timeout" where
  "event_timeout_modify_wakeup n et =
     (if et_defined et then et\<lparr>et_n := (if n \<ge> 0 then n else 0)\<rparr> else et)"

definition event_timeout_remaining :: "time_t \<Rightarrow> event_timeout \<Rightarrow> int" where
  "event_timeout_remaining now et = c_int (et_last et - now + et_n et)"

definition ETT_DEFAULT :: int where "ETT_DEFAULT = -1"

definition event_timeout_trigger ::
  "time_t \<Rightarrow> event_timeout \<Rightarrow> timeval option \<Rightarrow> int \<Rightarrow> bool \<times> event_timeout \<times> timeval option" where
  "event_timeout_trigger now et tv et_const_retry =
     (if et_defined et
      then (let w0 = et_last et - now + et_n et;
                fire = (w0 \<le> 0 \<and> et_const_retry < 0);
                et1 = (if fire then et\<lparr>et_last := now\<rparr> else et);
                w = (if w0 \<le> 0 then (if et_const_retry < 0 then et_n et else et_const_retry) else w0);
                tv1 = (case tv of None \<Rightarrow> None
                       | Some t \<Rightarrow> Some (if w < tv_sec t then Timeval w 0 else t))
            in (fire, et1, tv1))
      else (False, et, tv))"

subsection \<open>The traffic shaper\<close>

record shaper =
  sh_bytes_per_second :: int
  sh_wakeup :: timeval

definition SHAPER_MIN :: int where "SHAPER_MIN = 100"
definition SHAPER_MAX :: int where "SHAPER_MAX = 100000000"
definition SHAPER_MAX_TIMEOUT :: int where "SHAPER_MAX_TIMEOUT = 10"

definition shaper_reset_wakeup :: "shaper \<Rightarrow> shaper" where
  "shaper_reset_wakeup s = s\<lparr>sh_wakeup := Timeval 0 0\<rparr>"

definition shaper_delay :: "timeval \<Rightarrow> clock \<Rightarrow> shaper \<Rightarrow> int \<times> clock" where
  "shaper_delay clk c s =
     (if tv_defined (sh_wakeup s)
      then (case openvpn_gettimeofday clk c of
              (tv, c1) \<Rightarrow>
                (let delay = tv_subtract (sh_wakeup s) tv SHAPER_MAX_TIMEOUT
                 in (if delay > 0 then delay else 0, c1)))
      else (0, c))"

text \<open>\<open>product\<close> is \<open>(int)((double) max_int (nbytes, 100) * factor)\<close>.\<close>

definition shaper_wrote_bytes :: "timeval \<Rightarrow> clock \<Rightarrow> (int \<Rightarrow> int) \<Rightarrow> int \<Rightarrow> shaper \<Rightarrow> shaper \<times> clock" where
  "shaper_wrote_bytes clk c product nbytes s =
     (let tv = Timeval 0 (min_int (product (max_int nbytes 100)) (SHAPER_MAX_TIMEOUT * 1000000))
      in if tv_usec tv \<noteq> 0
         then (case openvpn_gettimeofday clk c of (t, c1) \<Rightarrow> (s\<lparr>sh_wakeup := tv_add t tv\<rparr>, c1))
         else (s, c))"

definition shaper_soonest_event :: "timeval \<Rightarrow> int \<Rightarrow> bool \<times> timeval" where
  "shaper_soonest_event tv delay =
     (if delay < 1000000
      then (if tv_sec tv \<noteq> 0 then (True, Timeval 0 delay)
            else if delay < tv_usec tv then (True, Timeval (tv_sec tv) delay)
            else (False, tv))
      else (let sec = delay div 1000000; usec = delay mod 1000000
            in if sec < tv_sec tv then (True, Timeval sec usec)
               else if sec = tv_sec tv then (if usec < tv_usec tv then (True, Timeval (tv_sec tv) usec) else (False, tv))
               else (False, tv)))"

subsection \<open>Adding times\<close>

definition usecs :: "timeval \<Rightarrow> int" where
  "usecs t = tv_sec t * 1000000 + tv_usec t"

definition tv_normal :: "timeval \<Rightarrow> bool" where
  "tv_normal t \<longleftrightarrow> 0 \<le> tv_usec t \<and> tv_usec t < 1000000"

lemma and_20_bits: "u AND 0x000FFFFF = u mod 2 ^ 20" for u :: int
proof -
  have "u AND 0x000FFFFF = take_bit 20 u" by (simp add: take_bit_eq_mask mask_eq_exp_minus_1)
  then show ?thesis by (simp only: take_bit_eq_mod)
qed

lemma tv_add_value:
  "0 \<le> u \<Longrightarrow> u = tv_usec dest + tv_usec src \<Longrightarrow>
     usecs (tv_add dest src) = usecs dest + usecs src - 48576 * (u div 2 ^ 20) \<and> tv_normal (tv_add dest src)"
proof -
  assume u: "0 \<le> u" "u = tv_usec dest + tv_usec src"
  have "u = 1048576 * (u div 1048576) + u mod 1048576" "0 \<le> u mod 1048576" "u mod 1048576 < 1048576"
    by simp_all
  then show ?thesis
    unfolding tv_add_def Let_def u(2) [symmetric] and_20_bits drop_bit_eq_div
    by (auto simp: usecs_def tv_normal_def) (use u(2) in linarith)+
qed

text \<open>
  \<open>tv_add\<close> loses time when the microseconds reach \<open>2 ^ 20\<close>. The carry divides by 1048576
  and keeps the remainder, but counts the quotient as whole seconds: the sum is short by 48576
  microseconds for each. The sum of two normalised values is exact below \<open>2 ^ 20\<close>
  microseconds and 48576 short from there on; the result is normalised in both cases.
\<close>

theorem tv_add_short:
  assumes "tv_normal dest" and "tv_normal src"
  shows "usecs (tv_add dest src) = usecs dest + usecs src
           - (if tv_usec dest + tv_usec src < 2 ^ 20 then 0 else 48576)
     \<and> tv_normal (tv_add dest src)"
proof -
  let ?u = "tv_usec dest + tv_usec src"
  have u: "0 \<le> ?u" "?u < 2000000" using assms by (auto simp: tv_normal_def)
  then have "?u div 2 ^ 20 = (if ?u < 2 ^ 20 then 0 else 1)"
    by (auto intro!: int_div_pos_eq [of _ _ _ "?u - 2 ^ 20"])
  with tv_add_value [OF u(1) refl] show ?thesis by auto
qed

theorem tv_add_short_witness:
  "usecs (tv_add (Timeval 10 600000) (Timeval 0 600000)) = usecs (Timeval 10 600000) + 600000 - 48576"
  using tv_add_short [of "Timeval 10 600000" "Timeval 0 600000"] by (simp add: tv_normal_def usecs_def)

subsection \<open>The clock never runs backwards\<close>

lemma update_now_mono: "ck_now c \<le> ck_now (update_now t c)"
  by (simp add: update_now_def Let_def)

text \<open>
  The program's clock is monotone and recovers from a backward jump. Whatever the system
  clock reports, \<open>now\<close> never decreases; and when the system time falls more than 10 seconds
  behind, the adjustment absorbs the whole jump, so that the next system second moves \<open>now\<close> on
  by one second.
\<close>

theorem clock_monotone_and_recovers:
  shows "ck_now c \<le> ck_now (update_now t c)
     \<and> (t + ck_adj c < ck_now c - 10 \<longrightarrow>
          ck_now (update_now t c) = ck_now c
          \<and> ck_now (update_now (t + 1) (update_now t c)) = ck_now c + 1)"
  by (simp add: update_now_def Let_def)

theorem clock_monotone_and_recovers_witness:
  "ck_now (update_now 501 (update_now 500 \<lparr>ck_now = 1000, ck_adj = 0, ck_usec = 0\<rparr>)) = 1001"
  using clock_monotone_and_recovers [of "\<lparr>ck_now = 1000, ck_adj = 0, ck_usec = 0\<rparr>" 500] by simp

subsection \<open>The event rate limit\<close>

fun allowed_events :: "frequency_limit \<Rightarrow> time_t list \<Rightarrow> int" where
  "allowed_events f [] = 0"
| "allowed_events f (t # ts) =
     (case frequency_limit_event_allowed t f of (ok, f') \<Rightarrow> (if ok then 1 else 0) + allowed_events f' ts)"

lemma sint_next: "0 \<le> sint (w :: u32) \<Longrightarrow> sint w + 1 < 2 ^ 31 \<Longrightarrow> sint (w + 1) = sint w + 1"
  using signed_take_bit_int_eq_self [of 31 "sint w + 1"] by (simp add: sint_word_ariths(1))

lemma allowed_bound:
  assumes "0 < sint (fl_per f)" "0 \<le> sint (fl_max f)" "0 \<le> sint (fl_n f)" "sorted ts"
    "\<And>t. t \<in> set ts \<Longrightarrow> fl_reset f \<le> t \<and> t \<le> e" "fl_reset f \<le> e" "sint (fl_n f) + int (length ts) < 2 ^ 31"
  shows "allowed_events f ts + min (sint (fl_n f)) (sint (fl_max f))
    \<le> sint (fl_max f) * ((e - fl_reset f) div sint (fl_per f) + 1)"
  using assms
proof (induction ts arbitrary: f)
  case Nil
  then have "0 \<le> (e - fl_reset f) div sint (fl_per f)" by (simp add: pos_imp_zdiv_nonneg_iff)
  with Nil have "sint (fl_max f) * 1 \<le> sint (fl_max f) * ((e - fl_reset f) div sint (fl_per f) + 1)"
    by (intro mult_left_mono) auto
  then show ?case by simp
next
  case (Cons t ts)
  have per: "fl_per f \<noteq> 0" using Cons.prems(1) by auto
  show ?case
  proof (cases "t \<ge> fl_reset f + sint (fl_per f)")
    case True
    define g where "g = f\<lparr>fl_reset := t, fl_n := 1\<rparr>"
    have step: "frequency_limit_event_allowed t f = (1 \<le> sint (fl_max f), g)"
      using per True by (simp add: frequency_limit_event_allowed_def g_def Let_def)
    have "allowed_events g ts + min (sint (fl_n g)) (sint (fl_max g))
        \<le> sint (fl_max g) * ((e - fl_reset g) div sint (fl_per g) + 1)"
      using Cons.prems by (intro Cons.IH) (auto simp: g_def)
    then have ih: "allowed_events g ts + min 1 (sint (fl_max f)) \<le> sint (fl_max f) * ((e - t) div sint (fl_per f) + 1)"
      by (simp add: g_def)
    have "(e - t) div sint (fl_per f) + 1 = (e - t + sint (fl_per f)) div sint (fl_per f)"
      using Cons.prems(1) div_add_self2 [of "sint (fl_per f)" "e - t"] by linarith
    also have "\<dots> \<le> (e - fl_reset f) div sint (fl_per f)"
      using True Cons.prems(1) by (intro zdiv_mono1) auto
    finally have "sint (fl_max f) * ((e - t) div sint (fl_per f) + 1) \<le> sint (fl_max f) * ((e - fl_reset f) div sint (fl_per f))"
      using Cons.prems(2) by (intro mult_left_mono) auto
    with ih step Cons.prems(2) show ?thesis by (auto simp: distrib_left)
  next
    case False
    define g where "g = f\<lparr>fl_n := fl_n f + 1\<rparr>"
    have n: "sint (fl_n g) = sint (fl_n f) + 1" using sint_next [OF Cons.prems(3)] Cons.prems(7) by (simp add: g_def)
    have step: "frequency_limit_event_allowed t f = (sint (fl_n f) + 1 \<le> sint (fl_max f), g)"
      using per False n by (simp add: frequency_limit_event_allowed_def g_def Let_def)
    have "allowed_events g ts + min (sint (fl_n g)) (sint (fl_max g))
        \<le> sint (fl_max g) * ((e - fl_reset g) div sint (fl_per g) + 1)"
      using Cons.prems n by (intro Cons.IH) (auto simp: g_def)
    with step n show ?thesis by (auto simp: g_def)
  qed
qed

text \<open>
  C28: The rate limit holds. For a limiter of \<open>mx\<close> events per \<open>per\<close> seconds and any sequence of
  fewer than \<open>2 ^ 31\<close> events, at times from \<open>s\<close> to \<open>e\<close> after the epoch's first period, at most
  \<open>mx * ((e - s) div per + 1)\<close> events are allowed, whatever bursts they come in. Beyond \<open>2 ^ 31\<close>
  events in one period the counter overflows (\<open>rate_limit_overflows\<close>).
\<close>

theorem rate_limit_holds:
  assumes "frequency_limit_init mx per = Some f" and "per \<noteq> 0" and "sorted (s # ts)" and "sint per \<le> s"
    and "\<forall>t \<in> set (s # ts). t \<le> e" and "length (s # ts) < 2 ^ 31"
  shows "allowed_events f (s # ts) \<le> sint mx * ((e - s) div sint per + 1)"
proof -
  have f: "f = \<lparr>fl_max = mx, fl_per = per, fl_n = 0, fl_reset = 0\<rparr>" "0 \<le> sint mx" "0 \<le> sint per"
    using assms(1) by (auto simp: frequency_limit_init_def split: if_splits)
  then have per: "0 < sint per" using assms(2) by (metis order_le_less sint_0 signed_word_eqI)
  define g where "g = f\<lparr>fl_reset := s, fl_n := 1\<rparr>"
  have step: "frequency_limit_event_allowed s f = (1 \<le> sint mx, g)"
    using assms(2,4) by (simp add: frequency_limit_event_allowed_def g_def f Let_def)
  have "allowed_events g ts + min (sint (fl_n g)) (sint (fl_max g))
      \<le> sint (fl_max g) * ((e - fl_reset g) div sint (fl_per g) + 1)"
    using assms f per by (intro allowed_bound) (auto simp: g_def)
  with step f show ?thesis by (auto simp: g_def)
qed

theorem rate_limit_holds_witness:
  "allowed_events \<lparr>fl_max = 2, fl_per = 10, fl_n = 0, fl_reset = 0\<rparr> [100, 101, 102, 109, 110, 111] \<le> 4"
  using rate_limit_holds [of 2 10 "\<lparr>fl_max = 2, fl_per = 10, fl_n = 0, fl_reset = 0\<rparr>" 100
      "[101, 102, 109, 110, 111]" 111]
  by (simp add: frequency_limit_init_def)

text \<open>With the counter at its largest value the next event of the same period is allowed again.\<close>

lemma rate_limit_overflows:
  assumes "fl_n f = 0x7FFFFFFF" "now < fl_reset f + sint (fl_per f)"
  shows "fst (frequency_limit_event_allowed now f)"
proof -
  have "sint (0x80000000 :: u32) \<le> sint (fl_max f)" using sint_ge [of "fl_max f"] by simp
  then show ?thesis using assms by (simp add: frequency_limit_event_allowed_def Let_def)
qed

subsection \<open>Recurring timers\<close>

text \<open>
  A recurring timer fires on time and never makes the loop sleep past it. An armed timer
  tested at \<open>now\<close> with automatic re-arming fires exactly when its period has passed, is then due
  one period later, and the wait the event loop is given never exceeds the time left until the
  timer is due, nor is it ever lengthened.
\<close>

theorem event_timeout_on_time:
  assumes "et_defined et"
  shows "case event_timeout_trigger now et (Some t) ETT_DEFAULT of (fired, et', t') \<Rightarrow>
     (fired \<longleftrightarrow> now \<ge> et_last et + et_n et)
     \<and> et_last et' = (if fired then now else et_last et) \<and> et_n et' = et_n et
     \<and> (\<exists>w. t' = Some w \<and> (w = t \<or> w < t) \<and> (0 \<le> tv_usec t \<longrightarrow> tv_sec w \<le> et_last et' + et_n et' - now))"
  using assms
  by (auto simp: event_timeout_trigger_def ETT_DEFAULT_def Let_def less_timeval_def)

theorem event_timeout_on_time_witness:
  "fst (event_timeout_trigger 130 (event_timeout_init 30 100) (Some (Timeval 60 0)) ETT_DEFAULT)"
  using event_timeout_on_time [of "event_timeout_init 30 100" 130 "Timeval 60 0"]
  by (auto simp: event_timeout_init_def split: prod.splits)

subsection \<open>The shaper's wake-up\<close>

text \<open>
  \<open>shaper_soonest_event\<close> takes the minimum. For a normalised wait and a delay of \<open>d\<close>
  microseconds the new wait is the smaller of the two in the order of time values, and the
  function reports a change exactly when the delay is the smaller one.
\<close>

theorem shaper_soonest_is_min:
  assumes "0 \<le> tv_sec t" "tv_normal t" "0 \<le> d"
  shows "shaper_soonest_event t d = (Timeval (d div 1000000) (d mod 1000000) < t,
           min t (Timeval (d div 1000000) (d mod 1000000)))"
  using assms
  by (cases t)
    (auto simp: shaper_soonest_event_def Let_def tv_normal_def min_def less_eq_timeval_def less_timeval_def)

theorem shaper_soonest_is_min_witness:
  "shaper_soonest_event (Timeval 3 5) 2000001 = (True, Timeval 2 1)"
  using shaper_soonest_is_min [of "Timeval 3 5" 2000001]
  by (simp add: tv_normal_def less_timeval_def less_eq_timeval_def min_def)

end
