(* ===== verification/Tls_Session.thy ===== *)
theory Tls_Session
  imports Control_Auth Control_Channel Otime "HOL-Library.Monad_Syntax"
begin

text \<open>
  TLS sessions of \<^verbatim>\<open>ssl.c\<close>, \<^verbatim>\<open>ssl_common.h\<close> and \<^verbatim>\<open>ssl_verify.c\<close>: the key
  states of a session (the primary and the lame duck), the three sessions of a tunnel, their life
  cycle, and the choice of the data channel key for an outgoing or incoming packet.

  The TLS object is library code: a value of type \<open>'tls\<close> with the operations of \<open>tls_env\<close>. A
  pointer to a key state of the tunnel is its place (session, key). Freed members get the cleared
  value; a freed key state is recognised by its \<open>state\<close>.
\<close>

definition ASSERT :: "bool \<Rightarrow> unit option" where
  "ASSERT b = (if b then Some () else None)"

lemma ASSERT_eq_Some [simp]: "ASSERT b = Some u \<longleftrightarrow> b"
  by (simp add: ASSERT_def)

lemma ASSERT_simps [simp]: "ASSERT True = Some ()" "ASSERT False = None"
  by (simp_all add: ASSERT_def)

subsection \<open>Peer addresses\<close>

text \<open>
  \<open>sockaddr_in\<close> and \<open>sockaddr_in6\<close> overlay: the family and the port are at the same place, the IPv4
  address where \<open>sockaddr_in6\<close> has the flow label.
\<close>

definition AF_INET :: int where "AF_INET = 2"
definition AF_INET6 :: int where "AF_INET6 = 10"

record sockaddr =
  sa_family :: int
  sa_port :: u16
  sa_word :: u32
  sa_in6 :: "byte list"

definition addr_clear :: sockaddr where
  "addr_clear = \<lparr>sa_family = 0, sa_port = 0, sa_word = 0, sa_in6 = replicate 16 0\<rparr>"

definition addr_defined :: "sockaddr \<Rightarrow> bool" where
  "addr_defined a =
     (if sa_family a = AF_INET then sa_word a \<noteq> 0
      else if sa_family a = AF_INET6 then sa_in6 a \<noteq> replicate 16 0 else False)"

definition addr_port_match :: "sockaddr \<Rightarrow> sockaddr \<Rightarrow> bool option" where
  "addr_port_match a1 a2 =
     (if sa_family a1 = AF_INET then Some (sa_word a1 = sa_word a2 \<and> sa_port a1 = sa_port a2)
      else if sa_family a1 = AF_INET6 then Some (sa_in6 a1 = sa_in6 a2 \<and> sa_port a1 = sa_port a2)
      else None)"

definition link_socket_actual_defined :: "sockaddr \<Rightarrow> bool" where
  "link_socket_actual_defined a = addr_defined a"

definition link_socket_actual_match :: "sockaddr \<Rightarrow> sockaddr \<Rightarrow> bool option" where
  "link_socket_actual_match a1 a2 = addr_port_match a1 a2"

subsection \<open>Key states, sessions and the tunnel\<close>

definition S_ERROR :: int where "S_ERROR = -1"
definition S_UNDEF :: int where "S_UNDEF = 0"
definition S_INITIAL :: int where "S_INITIAL = 1"
definition S_PRE_START :: int where "S_PRE_START = 2"
definition S_START :: int where "S_START = 3"
definition S_SENT_KEY :: int where "S_SENT_KEY = 4"
definition S_GOT_KEY :: int where "S_GOT_KEY = 5"
definition S_ACTIVE :: int where "S_ACTIVE = 6"
definition S_GENERATED_KEYS :: int where "S_GENERATED_KEYS = 7"

lemmas state_defs = S_ERROR_def S_UNDEF_def S_INITIAL_def S_PRE_START_def S_START_def S_SENT_KEY_def
  S_GOT_KEY_def S_ACTIVE_def S_GENERATED_KEYS_def

definition TLS_RELIABLE_N_SEND_BUFFERS :: int where "TLS_RELIABLE_N_SEND_BUFFERS = 4"
definition TLS_RELIABLE_N_REC_BUFFERS :: int where "TLS_RELIABLE_N_REC_BUFFERS = 8"
definition CONTROL_SEND_ACK_MAX :: int where "CONTROL_SEND_ACK_MAX = 4"
definition TM_ACTIVE :: nat where "TM_ACTIVE = 0"
definition TM_UNTRUSTED :: nat where "TM_UNTRUSTED = 1"
definition TM_LAME_DUCK :: nat where "TM_LAME_DUCK = 2"
definition TM_SIZE :: nat where "TM_SIZE = 3"
definition KEY_SCAN_SIZE :: nat where "KEY_SCAN_SIZE = 3"

lemmas tm_defs = TM_ACTIVE_def TM_UNTRUSTED_def TM_LAME_DUCK_def TM_SIZE_def KEY_SCAN_SIZE_def

datatype auth_deferred_result = ACF_PENDING | ACF_SUCCEEDED | ACF_DISABLED | ACF_FAILED

record auth_deferred_status =
  ad_control_file :: bool
  ad_status :: auth_deferred_result

datatype multi_status = CAS_NOT_CONNECTED | CAS_WAITING_AUTH | CAS_PENDING | CAS_PENDING_DEFERRED
  | CAS_PENDING_DEFERRED_PARTIAL | CAS_FAILED | CAS_WAITING_OPTIONS_IMPORT | CAS_CONNECT_DONE

record 'tls tls_env =
  te_new :: 'tls
  te_write_ct :: "'tls \<Rightarrow> byte list \<Rightarrow> int \<times> 'tls"
  te_read_ct :: "'tls \<Rightarrow> int \<Rightarrow> bio_result \<times> 'tls"
  te_write_pt :: "'tls \<Rightarrow> byte list \<Rightarrow> int \<times> 'tls"
  te_read_pt :: "'tls \<Rightarrow> int \<Rightarrow> bio_result \<times> 'tls"
  te_key_lib :: "'tls \<Rightarrow> key_lib"

record 'tls key_state =
  ks_state :: int
  ks_key_id :: int
  ks_ssl :: "'tls option"
  ks_initial :: time_t
  ks_established :: time_t
  ks_must_negotiate :: time_t
  ks_must_die :: time_t
  ks_peer_last_packet :: time_t
  ks_initial_opcode :: int
  ks_session_id_remote :: session_id
  ks_remote_addr :: sockaddr
  ks_packet_id :: packet_id
  ks_key_ctx_bi :: key_ctx_bi
  ks_key_src :: key_source2
  ks_plaintext_read_buf :: buffer
  ks_plaintext_write_buf :: buffer
  ks_ack_write_buf :: buffer
  ks_send_reliable :: reliable
  ks_rec_reliable :: reliable
  ks_rec_ack :: reliable_ack
  ks_paybuf :: "byte list list"
  ks_n_bytes :: "64 word"
  ks_n_packets :: "64 word"
  ks_authenticated :: ks_auth
  ks_auth_deferred_expire :: time_t
  ks_plugin_auth :: auth_deferred_status
  ks_script_auth :: auth_deferred_status

record tls_options =
  to_server :: bool
  to_xmit_hold :: bool
  to_replay :: bool
  to_single_session :: bool
  to_mode_server :: bool
  to_transition_window :: int
  to_handshake_window :: int
  to_packet_timeout :: int
  to_renegotiate_bytes :: int
  to_renegotiate_packets :: int
  to_renegotiate_seconds :: int
  to_cipher_insecure :: bool
  to_replay_window :: int
  to_replay_time :: int
  to_tls_crypt_v2 :: bool
  to_verify_script :: "(int \<Rightarrow> byte list \<Rightarrow> bool) option"
  to_tls_wrap :: tls_wrap_ctx
  to_frame :: frame

record 'tls tls_session =
  ts_burst :: bool
  ts_wrap :: tls_wrap_ctx
  ts_initial_opcode :: int
  ts_session_id :: session_id
  ts_key_id :: int
  ts_untrusted_addr :: sockaddr
  ts_primary :: "'tls key_state"
  ts_lame :: "'tls key_state"

record 'tls tls_multi =
  tm_opt :: tls_options
  tm_save_ks :: "nat option"
  tm_to_link_addr :: sockaddr
  tm_n_sessions :: int
  tm_multi_state :: multi_status
  tm_n_hard_errors :: int
  tm_n_soft_errors :: int
  tm_tas_last_update :: time_t
  tm_tas_num_updates :: nat
  tm_peer_id :: u32
  tm_peer_info :: "byte list option"
  tm_remote_ciphername :: "byte list option"
  tm_remote_usescomp :: bool
  tm_session :: "'tls tls_session list"

subsection \<open>Cleared structures\<close>

definition reliable_null :: reliable where
  "reliable_null = \<lparr>rl_size = 0, rl_initial_timeout = 0, rl_packet_id = 0, rl_offset = 0, rl_hold = False, rl_array = []\<rparr>"

definition key_ctx_bi_null :: key_ctx_bi where
  "key_ctx_bi_null = (let k = \<lparr>kx_key = \<lparr>k_cipher = [], k_hmac = []\<rparr>, kx_implicit_iv = []\<rparr>
     in \<lparr>kb_encrypt = k, kb_decrypt = k, kb_initialized = False\<rparr>)"

definition auth_status_null :: auth_deferred_status where
  "auth_status_null = \<lparr>ad_control_file = False, ad_status = ACF_PENDING\<rparr>"

definition key_state_clear :: "'tls key_state" where
  "key_state_clear = \<lparr>ks_state = S_UNDEF, ks_key_id = 0, ks_ssl = None, ks_initial = 0, ks_established = 0,
     ks_must_negotiate = 0, ks_must_die = 0, ks_peer_last_packet = 0, ks_initial_opcode = 0,
     ks_session_id_remote = replicate SID_SIZE 0, ks_remote_addr = addr_clear, ks_packet_id = packet_id_zero,
     ks_key_ctx_bi = key_ctx_bi_null, ks_key_src = key_source2_clear, ks_plaintext_read_buf = clear_buf,
     ks_plaintext_write_buf = clear_buf, ks_ack_write_buf = clear_buf, ks_send_reliable = reliable_null,
     ks_rec_reliable = reliable_null, ks_rec_ack = ack_clear, ks_paybuf = [], ks_n_bytes = 0, ks_n_packets = 0,
     ks_authenticated = KS_AUTH_FALSE, ks_auth_deferred_expire = 0, ks_plugin_auth = auth_status_null,
     ks_script_auth = auth_status_null\<rparr>"

definition crypt_ctx_null :: crypt_ctx where
  "crypt_ctx_null = \<lparr>cx_cipher = None, cx_hmac = None, cx_implicit_iv = []\<rparr>"

definition tls_wrap_clear :: tls_wrap_ctx where
  "tls_wrap_clear = \<lparr>tw_mode = TLS_WRAP_NONE,
     tw_opt = \<lparr>do_encrypt = crypt_ctx_null, do_decrypt = crypt_ctx_null,
       do_core = \<lparr>co_packet_id = packet_id_zero, co_pid_persist = None, co_long_form = False\<rparr>, do_ignore_packet_id = False\<rparr>,
     tw_work = clear_buf, tw_server_key = crypt_ctx_null, tw_wkc = None, tw_metadata = clear_buf, tw_cleanup_key_ctx = False\<rparr>"

definition tls_session_clear :: "'tls tls_session" where
  "tls_session_clear = \<lparr>ts_burst = False, ts_wrap = tls_wrap_clear, ts_initial_opcode = 0,
     ts_session_id = replicate SID_SIZE 0, ts_key_id = 0, ts_untrusted_addr = addr_clear,
     ts_primary = key_state_clear, ts_lame = key_state_clear\<rparr>"

subsection \<open>Life cycle\<close>

definition is_hard_reset_method2 :: "int \<Rightarrow> bool" where
  "is_hard_reset_method2 op \<longleftrightarrow> op = P_CONTROL_HARD_RESET_CLIENT_V2 \<or> op = P_CONTROL_HARD_RESET_SERVER_V2
     \<or> op = P_CONTROL_HARD_RESET_CLIENT_V3"

definition key_state_init ::
  "'tls tls_env \<Rightarrow> tls_options \<Rightarrow> 'tls tls_session \<Rightarrow> ('tls tls_session \<times> 'tls key_state) option" where
  "key_state_init env opt sess =
     (let fr = to_frame opt; sz = BUF_SIZE fr; next = (ts_key_id sess + 1) AND P_KEY_ID_MASK in
      do {
        rd \<leftarrow> alloc_buf TLS_CHANNEL_BUF_SIZE;
        wr \<leftarrow> alloc_buf TLS_CHANNEL_BUF_SIZE;
        ab \<leftarrow> alloc_buf (size_t_of sz);
        snd_rel \<leftarrow> reliable_init sz (FRAME_HEADROOM fr) TLS_RELIABLE_N_SEND_BUFFERS
                    (if ts_key_id sess \<noteq> 0 then False else to_xmit_hold opt);
        rec_rel \<leftarrow> reliable_init sz (FRAME_HEADROOM fr) TLS_RELIABLE_N_REC_BUFFERS False;
        pid \<leftarrow> (if to_replay opt then packet_id_init (to_replay_window opt) (to_replay_time opt) else Some packet_id_zero);
        Some (sess\<lparr>ts_initial_opcode := P_CONTROL_SOFT_RESET_V1, ts_key_id := (if next = 0 then 1 else next)\<rparr>,
          key_state_clear\<lparr>ks_state := S_INITIAL, ks_key_id := ts_key_id sess, ks_ssl := Some (te_new env),
            ks_initial_opcode := ts_initial_opcode sess, ks_plaintext_read_buf := rd, ks_plaintext_write_buf := wr,
            ks_ack_write_buf := ab, ks_send_reliable := reliable_set_timeout snd_rel (to_packet_timeout opt),
            ks_rec_reliable := rec_rel, ks_packet_id := pid\<rparr>)
      })"

definition key_state_free :: "'tls key_state \<Rightarrow> bool \<Rightarrow> 'tls key_state" where
  "key_state_free ks clear =
     (if clear then key_state_clear
      else ks\<lparr>ks_state := S_UNDEF, ks_ssl := None, ks_key_ctx_bi := key_ctx_bi_null, ks_plaintext_read_buf := clear_buf,
        ks_plaintext_write_buf := clear_buf, ks_ack_write_buf := clear_buf, ks_paybuf := [],
        ks_send_reliable := reliable_null, ks_rec_reliable := reliable_null, ks_rec_ack := ack_clear,
        ks_key_src := key_source2_clear, ks_packet_id := packet_id_zero,
        ks_plugin_auth := auth_status_null, ks_script_auth := auth_status_null\<rparr>)"

text \<open>
  \<open>sids\<close> is what \<^verbatim>\<open>session_id_random\<close> gives, call after call; with only undefined ids in it the
  loop has not ended.
\<close>

definition tls_session_init :: "'tls tls_env \<Rightarrow> tls_options \<Rightarrow> session_id list \<Rightarrow> 'tls tls_session option" where
  "tls_session_init env opt sids =
     do {
       sid \<leftarrow> find session_id_defined sids;
       work \<leftarrow> alloc_buf (size_t_of (BUF_SIZE (to_frame opt)));
       pid \<leftarrow> packet_id_init (to_replay_window opt) (to_replay_time opt);
       let wrap = to_tls_wrap opt;
       let core = do_core (tw_opt wrap);
       let pid1 = (case co_pid_persist core of None \<Rightarrow> pid | Some pp \<Rightarrow> packet_id_persist_load_obj pp pid);
       let wrap1 = wrap\<lparr>tw_work := work, tw_opt := (tw_opt wrap)\<lparr>do_core := core\<lparr>co_packet_id := pid1\<rparr>\<rparr>\<rparr>;
       let opcode = (if to_server opt then P_CONTROL_HARD_RESET_SERVER_V2
                     else if to_tls_crypt_v2 opt then P_CONTROL_HARD_RESET_CLIENT_V3 else P_CONTROL_HARD_RESET_CLIENT_V2);
       (sess, ks) \<leftarrow> key_state_init env opt (tls_session_clear\<lparr>ts_session_id := sid, ts_initial_opcode := opcode, ts_wrap := wrap1\<rparr>);
       Some (sess\<lparr>ts_primary := ks\<rparr>)
     }"

definition tls_session_free :: "'tls tls_session \<Rightarrow> bool \<Rightarrow> 'tls tls_session" where
  "tls_session_free sess clear =
     (if clear then tls_session_clear
      else sess\<lparr>ts_wrap := (ts_wrap sess)\<lparr>tw_work := clear_buf, tw_metadata := clear_buf\<rparr>,
        ts_primary := key_state_free (ts_primary sess) False, ts_lame := key_state_free (ts_lame sess) False\<rparr>)"

definition put_session :: "nat \<Rightarrow> 'tls tls_session \<Rightarrow> 'tls tls_multi \<Rightarrow> 'tls tls_multi" where
  "put_session i s m = m\<lparr>tm_session := (tm_session m)[i := s]\<rparr>"

definition move_session ::
  "'tls tls_env \<Rightarrow> session_id list \<Rightarrow> 'tls tls_multi \<Rightarrow> nat \<Rightarrow> nat \<Rightarrow> bool \<Rightarrow> 'tls tls_multi option" where
  "move_session env sids m dest src reinit_src =
     do {
       ASSERT (src \<noteq> dest \<and> src < TM_SIZE \<and> dest < TM_SIZE);
       let m1 = put_session dest (tm_session m ! src) m;
       if reinit_src
       then do { s \<leftarrow> tls_session_init env (tm_opt m) sids; Some (put_session src s m1) }
       else Some (put_session src tls_session_clear m1)
     }"

definition reset_session :: "'tls tls_env \<Rightarrow> session_id list \<Rightarrow> 'tls tls_multi \<Rightarrow> nat \<Rightarrow> 'tls tls_multi option" where
  "reset_session env sids m i = do { s \<leftarrow> tls_session_init env (tm_opt m) sids; Some (put_session i s m) }"

definition key_state_soft_reset ::
  "'tls tls_env \<Rightarrow> tls_options \<Rightarrow> time_t \<Rightarrow> 'tls tls_session \<Rightarrow> 'tls tls_session option" where
  "key_state_soft_reset env opt now sess =
     do {
       let old = (ts_primary sess)\<lparr>ks_must_die := now + to_transition_window opt\<rparr>;
       (s1, ks) \<leftarrow> key_state_init env opt sess;
       Some (s1\<lparr>ts_lame := old, ts_primary := ks\<lparr>ks_session_id_remote := ks_session_id_remote old,
         ks_remote_addr := ks_remote_addr old\<rparr>\<rparr>)
     }"

definition tls_multi_init :: "tls_options \<Rightarrow> 'tls tls_multi" where
  "tls_multi_init opt = \<lparr>tm_opt = opt, tm_save_ks = None, tm_to_link_addr = addr_clear, tm_n_sessions = 0,
     tm_multi_state = CAS_NOT_CONNECTED, tm_n_hard_errors = 0, tm_n_soft_errors = 0, tm_tas_last_update = 0,
     tm_tas_num_updates = 0, tm_peer_id = 0, tm_peer_info = None, tm_remote_ciphername = None, tm_remote_usescomp = False, tm_session = replicate TM_SIZE tls_session_clear\<rparr>"

text \<open>\<open>fr\<close> is the control channel frame that \<^verbatim>\<open>tls_init_control_channel_frame_parameters\<close> computes.\<close>

definition tls_multi_init_finalize ::
  "'tls tls_env \<Rightarrow> session_id list \<Rightarrow> session_id list \<Rightarrow> frame \<Rightarrow> 'tls tls_multi \<Rightarrow> 'tls tls_multi option" where
  "tls_multi_init_finalize env sids sids' fr m =
     do {
       let m1 = m\<lparr>tm_opt := (tm_opt m)\<lparr>to_frame := fr\<rparr>\<rparr>;
       s \<leftarrow> tls_session_init env (tm_opt m1) sids;
       let m2 = put_session TM_ACTIVE s m1;
       if to_single_session (tm_opt m1) then Some m2
       else do { s' \<leftarrow> tls_session_init env (tm_opt m1) sids'; Some (put_session TM_UNTRUSTED s' m2) }
     }"

definition compute_earliest_wakeup :: "int \<Rightarrow> int \<Rightarrow> int" where
  "compute_earliest_wakeup earliest seconds_from_now =
     (let e = (if seconds_from_now < earliest then seconds_from_now else earliest) in if e < 0 then 0 else e)"

definition lame_duck_must_die :: "time_t \<Rightarrow> 'tls tls_session \<Rightarrow> int \<Rightarrow> (bool \<times> int) option" where
  "lame_duck_must_die now sess wakeup =
     (let lame = ts_lame sess in
      if ks_state lame \<ge> S_INITIAL
      then if ks_must_die lame = 0 then None
           else if now < ks_must_die lame then Some (False, compute_earliest_wakeup wakeup (c_int (ks_must_die lame - now)))
           else Some (True, wakeup)
      else if ks_state lame = S_ERROR then Some (True, wakeup) else Some (False, wakeup))"

definition TLS_AUTHENTICATED :: "tls_options \<Rightarrow> 'tls key_state \<Rightarrow> bool" where
  "TLS_AUTHENTICATED opt ks \<longleftrightarrow> ks_state ks \<ge> S_GOT_KEY - (if to_server opt then 1 else 0)"

subsection \<open>The keys of the data channel\<close>

definition get_key_scan :: "'tls tls_multi \<Rightarrow> nat \<Rightarrow> 'tls key_state option" where
  "get_key_scan m i =
     (if i = 0 then Some (ts_primary (tm_session m ! TM_ACTIVE))
      else if i = 1 then Some (ts_lame (tm_session m ! TM_ACTIVE))
      else if i = 2 then Some (ts_lame (tm_session m ! TM_LAME_DUCK)) else None)"

definition upd_key_scan :: "nat \<Rightarrow> ('tls key_state \<Rightarrow> 'tls key_state) \<Rightarrow> 'tls tls_multi \<Rightarrow> 'tls tls_multi" where
  "upd_key_scan i f m =
     (if i = 0 then let s = tm_session m ! TM_ACTIVE in put_session TM_ACTIVE (s\<lparr>ts_primary := f (ts_primary s)\<rparr>) m
      else if i = 1 then let s = tm_session m ! TM_ACTIVE in put_session TM_ACTIVE (s\<lparr>ts_lame := f (ts_lame s)\<rparr>) m
      else let s = tm_session m ! TM_LAME_DUCK in put_session TM_LAME_DUCK (s\<lparr>ts_lame := f (ts_lame s)\<rparr>) m)"

definition get_primary_key :: "'tls tls_multi \<Rightarrow> 'tls key_state" where
  "get_primary_key m = ts_primary (tm_session m ! TM_ACTIVE)"

text \<open>The loop over the three keys; \<open>sel\<close> is \<open>ks_select\<close>, and the result the place of the key.\<close>

fun select_loop :: "time_t \<Rightarrow> 'tls tls_multi \<Rightarrow> nat list \<Rightarrow> nat option \<Rightarrow> nat option option" where
  "select_loop now m [] sel = Some sel"
| "select_loop now m (i # is) sel =
     (case get_key_scan m i of
        None \<Rightarrow> None
      | Some ks \<Rightarrow>
          if ks_state ks \<ge> S_GENERATED_KEYS
          then if ks_authenticated ks \<noteq> KS_AUTH_TRUE \<or> \<not> kb_initialized (ks_key_ctx_bi ks) then None
               else if now \<ge> ks_auth_deferred_expire ks then Some (Some i)
               else select_loop now m is (case sel of None \<Rightarrow> Some i | Some _ \<Rightarrow> sel)
          else select_loop now m is sel)"

definition tls_select_encryption_key :: "time_t \<Rightarrow> 'tls tls_multi \<Rightarrow> nat option option" where
  "tls_select_encryption_key now m = select_loop now m [0..<KEY_SCAN_SIZE] None"

text \<open>The result's first component is the key whose crypto options the caller is to use.\<close>

definition tls_pre_encrypt :: "time_t \<Rightarrow> 'tls tls_multi \<Rightarrow> buffer \<Rightarrow> (nat option \<times> 'tls tls_multi \<times> buffer) option" where
  "tls_pre_encrypt now m buf =
     (if blen buf \<le> 0 then Some (None, m\<lparr>tm_save_ks := None\<rparr>, buf\<lparr>blen := 0\<rparr>)
      else case tls_select_encryption_key now m of
             None \<Rightarrow> None
           | Some (Some i) \<Rightarrow> Some (Some i, m\<lparr>tm_save_ks := Some i\<rparr>, buf)
           | Some None \<Rightarrow> Some (None, m\<lparr>tm_save_ks := None\<rparr>, buf\<lparr>blen := 0\<rparr>))"

definition tls_prepend_opcode_v1 :: "'tls tls_multi \<Rightarrow> buffer \<Rightarrow> buffer option" where
  "tls_prepend_opcode_v1 m buf =
     do {
       i \<leftarrow> tm_save_ks m;
       ks \<leftarrow> get_key_scan m i;
       let (ok, b) = buf_write_prepend buf [header_byte (ks_key_id ks) P_DATA_V1];
       ASSERT ok;
       Some b
     }"

definition tls_prepend_opcode_v2 :: "'tls tls_multi \<Rightarrow> buffer \<Rightarrow> buffer option" where
  "tls_prepend_opcode_v2 m buf =
     do {
       i \<leftarrow> tm_save_ks m;
       ks \<leftarrow> get_key_scan m i;
       let peer = push_bit 24 (word_of_int (push_bit P_OPCODE_SHIFT P_DATA_V2 OR ks_key_id ks)) OR (tm_peer_id m AND 0xFFFFFF);
       let (ok, b) = buf_write_prepend buf (be32 peer);
       ASSERT ok;
       Some b
     }"

definition count_packet :: "int \<Rightarrow> 'tls key_state \<Rightarrow> 'tls key_state" where
  "count_packet len ks = ks\<lparr>ks_n_packets := ks_n_packets ks + 1, ks_n_bytes := ks_n_bytes ks + word_of_int len\<rparr>"

definition tls_post_encrypt :: "'tls tls_multi \<Rightarrow> buffer \<Rightarrow> 'tls tls_multi option" where
  "tls_post_encrypt m buf =
     (let m1 = m\<lparr>tm_save_ks := None\<rparr> in
      if blen buf > 0
      then (case tm_save_ks m of None \<Rightarrow> None | Some i \<Rightarrow> Some (upd_key_scan i (count_packet (blen buf)) m1))
      else Some m1)"

text \<open>
  An incoming data packet: the key it was encrypted with, the buffer after the header, and where the
  additional data starts. A packet that finds no key is emptied.
\<close>

definition data_header ::
  "'tls tls_multi \<Rightarrow> nat \<Rightarrow> int \<Rightarrow> buffer \<Rightarrow> (nat option \<times> 'tls tls_multi \<times> buffer \<times> int option) option" where
  "data_header m i op buf =
     do {
       ks \<leftarrow> get_key_scan m i;
       ASSERT (ks_authenticated ks = KS_AUTH_TRUE);
       if \<not> kb_initialized (ks_key_ctx_bi ks) then Some (None, m, buf\<lparr>blen := 0\<rparr>, None)
       else (case buf_advance buf 1 of
               (False, _) \<Rightarrow> None
             | (True, b1) \<Rightarrow>
                 if op = P_DATA_V2
                 then if blen b1 < 4 then Some (None, m\<lparr>tm_n_soft_errors := tm_n_soft_errors m + 1\<rparr>, b1\<lparr>blen := 0\<rparr>, None)
                      else (case buf_advance b1 3 of
                              (False, _) \<Rightarrow> None
                            | (True, b2) \<Rightarrow> Some (Some i, upd_key_scan i (count_packet (blen b2)) m, b2, Some (boff buf)))
                 else Some (Some i, upd_key_scan i (count_packet (blen b1)) m, b1, if op = P_DATA_V1 then Some (boff b1) else None))
     }"

fun data_key_loop :: "'tls tls_multi \<Rightarrow> sockaddr \<Rightarrow> int \<Rightarrow> bool \<Rightarrow> nat list \<Rightarrow> nat option option" where
  "data_key_loop m src key_id floated [] = Some None"
| "data_key_loop m src key_id floated (i # is) =
     (case get_key_scan m i of
        None \<Rightarrow> None
      | Some ks \<Rightarrow>
          if ks_state ks \<ge> S_GENERATED_KEYS \<and> key_id = ks_key_id ks
          then (case (if floated then Some True else link_socket_actual_match src (ks_remote_addr ks)) of
                  None \<Rightarrow> None
                | Some True \<Rightarrow> Some (Some i)
                | Some False \<Rightarrow> data_key_loop m src key_id floated is)
          else data_key_loop m src key_id floated is)"

definition handle_data_channel_packet ::
  "'tls tls_multi \<Rightarrow> sockaddr \<Rightarrow> buffer \<Rightarrow> bool \<Rightarrow> (nat option \<times> 'tls tls_multi \<times> buffer \<times> int option) option" where
  "handle_data_channel_packet m src buf floated =
     (let c = block buf ! nat (boff buf); op = uint (drop_bit P_OPCODE_SHIFT c); key_id = uint c AND P_KEY_ID_MASK
      in case data_key_loop m src key_id floated [0..<KEY_SCAN_SIZE] of
           None \<Rightarrow> None
         | Some None \<Rightarrow> Some (None, m, buf\<lparr>blen := 0\<rparr>, None)
         | Some (Some i) \<Rightarrow> data_header m i op buf)"

subsection \<open>Authentication of the keys\<close>

text \<open>
  What the control files of the plugin and the script of each scanned key hold (their first byte;
  \<open>None\<close> when a file cannot be opened), and the management interface's verdict.
\<close>

record auth_env =
  ae_plugin :: "nat \<Rightarrow> byte option"
  ae_script :: "nat \<Rightarrow> byte option"
  ae_man :: "nat \<Rightarrow> auth_deferred_result"

definition key_state_test_auth_control_file ::
  "auth_deferred_status \<Rightarrow> byte option \<Rightarrow> bool \<Rightarrow> auth_deferred_result \<times> auth_deferred_status" where
  "key_state_test_auth_control_file ads file cached =
     (if ad_control_file ads
      then if ad_status ads = ACF_PENDING \<and> \<not> cached
           then (case file of
                   None \<Rightarrow> (ACF_PENDING, ads)
                 | Some c \<Rightarrow>
                     let ret = (if c = 49 then ACF_SUCCEEDED else if c = 48 then ACF_FAILED else ACF_PENDING)
                     in (ret, ads\<lparr>ad_status := ret\<rparr>))
           else (ad_status ads, ads)
      else (ACF_DISABLED, ads))"

definition update_key_auth_status ::
  "time_t \<Rightarrow> auth_env \<Rightarrow> nat \<Rightarrow> bool \<Rightarrow> 'tls key_state \<Rightarrow> 'tls key_state" where
  "update_key_auth_status now ae i cached ks =
     (if ks_authenticated ks = KS_AUTH_FALSE then ks
      else case key_state_test_auth_control_file (ks_plugin_auth ks) (ae_plugin ae i) cached of (plugin, pa) \<Rightarrow>
           case key_state_test_auth_control_file (ks_script_auth ks) (ae_script ae i) cached of (script, sa) \<Rightarrow>
           (let ks1 = ks\<lparr>ks_plugin_auth := pa, ks_script_auth := sa\<rparr>; rs = {plugin, script, ae_man ae i}
            in if ACF_FAILED \<in> rs then ks1\<lparr>ks_authenticated := KS_AUTH_FALSE\<rparr>
               else if ACF_PENDING \<in> rs
               then if now \<ge> ks_auth_deferred_expire ks1 then ks1\<lparr>ks_authenticated := KS_AUTH_FALSE\<rparr> else ks1
               else ks1\<lparr>ks_authenticated := KS_AUTH_TRUE\<rparr>))"

definition cache_intervals :: "time_t list" where
  "cache_intervals = [0, 0, 0, 0, 0, 1, 1, 2, 2, 4, 8]"

definition tls_authentication_status_use_cache :: "time_t \<Rightarrow> 'tls tls_multi \<Rightarrow> bool" where
  "tls_authentication_status_use_cache now m \<longleftrightarrow>
     tm_tas_last_update m + cache_intervals ! min (tm_tas_num_updates m) (length cache_intervals - 1) \<ge> now"

datatype tls_auth_status = TLS_AUTHENTICATION_SUCCEEDED | TLS_AUTHENTICATION_DEFERRED | TLS_AUTHENTICATION_FAILED

fun tas_loop :: "time_t \<Rightarrow> auth_env \<Rightarrow> bool \<Rightarrow> nat list \<Rightarrow> 'tls tls_multi \<Rightarrow> ('tls tls_multi \<times> ks_auth list) option" where
  "tas_loop now ae cached [] m = Some (m, [])"
| "tas_loop now ae cached (i # is) m =
     (case get_key_scan m i of
        None \<Rightarrow> None
      | Some ks \<Rightarrow>
          if TLS_AUTHENTICATED (tm_opt m) ks
          then (let ks1 = update_key_auth_status now ae i cached ks
                in map_option (\<lambda>(m', as). (m', ks_authenticated ks1 # as))
                     (tas_loop now ae cached is (upd_key_scan i (\<lambda>_. ks1) m)))
          else tas_loop now ae cached is m)"

text \<open>The list holds the states of the active keys: its length is \<open>active\<close>, its members set the flags.\<close>

definition tls_authentication_status :: "time_t \<Rightarrow> auth_env \<Rightarrow> 'tls tls_multi \<Rightarrow> (tls_auth_status \<times> 'tls tls_multi) option" where
  "tls_authentication_status now ae m =
     (let cached = tls_authentication_status_use_cache now m in
      case tas_loop now ae cached [0..<KEY_SCAN_SIZE] m of
        None \<Rightarrow> None
      | Some (m1, as) \<Rightarrow>
          Some (if KS_AUTH_FALSE \<in> set as then TLS_AUTHENTICATION_FAILED
                else if KS_AUTH_TRUE \<in> set as then TLS_AUTHENTICATION_SUCCEEDED
                else if as = [] \<or> KS_AUTH_DEFERRED \<in> set as then TLS_AUTHENTICATION_DEFERRED
                else TLS_AUTHENTICATION_FAILED,
                if cached then m1 else m1\<lparr>tm_tas_last_update := now, tm_tas_num_updates := tm_tas_num_updates m1 + 1\<rparr>))"

definition deauth_session :: "'tls tls_session \<Rightarrow> 'tls tls_session" where
  "deauth_session s = s\<lparr>ts_primary := (ts_primary s)\<lparr>ks_authenticated := KS_AUTH_FALSE\<rparr>,
     ts_lame := (ts_lame s)\<lparr>ks_authenticated := KS_AUTH_FALSE\<rparr>\<rparr>"

definition tls_deauthenticate :: "'tls tls_multi \<Rightarrow> 'tls tls_multi" where
  "tls_deauthenticate m = m\<lparr>tm_session := map deauth_session (tm_session m)\<rparr>"

subsection \<open>Payload over the control channel\<close>

definition tls_obj_write :: "'tls tls_env \<Rightarrow> 'tls \<Rightarrow> byte list \<Rightarrow> int \<times> 'tls" where
  "tls_obj_write env tls bs = (if bs = [] then (0, tls) else te_write_pt env tls bs)"

definition flush_payload_buffer :: "'tls tls_env \<Rightarrow> 'tls key_state \<Rightarrow> 'tls key_state option" where
  "flush_payload_buffer env ks =
     (if ks_paybuf ks = [] then Some ks
      else case ks_ssl ks of
             None \<Rightarrow> None
           | Some tls \<Rightarrow> Some (ks\<lparr>ks_ssl := Some (fold (\<lambda>b t. snd (tls_obj_write env t b)) (ks_paybuf ks) tls), ks_paybuf := []\<rparr>))"

definition tls_send_payload :: "'tls tls_env \<Rightarrow> 'tls tls_multi \<Rightarrow> byte list \<Rightarrow> (bool \<times> 'tls tls_multi) option" where
  "tls_send_payload env m dat =
     (let ks = get_primary_key m in
      if ks_state ks \<ge> S_ACTIVE
      then (case ks_ssl ks of
              None \<Rightarrow> None
            | Some tls \<Rightarrow> (case tls_obj_write env tls dat of
                            (status, t1) \<Rightarrow> Some (status = 1, upd_key_scan 0 (\<lambda>k. k\<lparr>ks_ssl := Some t1\<rparr>) m)))
      else Some (True, upd_key_scan 0 (\<lambda>k. k\<lparr>ks_paybuf := ks_paybuf k @ [dat]\<rparr>) m))"

definition tls_rec_payload :: "'tls tls_multi \<Rightarrow> buffer \<Rightarrow> bool \<times> buffer \<times> 'tls tls_multi" where
  "tls_rec_payload m buf =
     (let ks = get_primary_key m in
      if ks_state ks \<ge> S_ACTIVE \<and> buf_len (ks_plaintext_read_buf ks) \<noteq> 0
      then (case buf_copy buf (ks_plaintext_read_buf ks) of
              (ok, b) \<Rightarrow> (ok, b, upd_key_scan 0 (\<lambda>k. k\<lparr>ks_plaintext_read_buf := (ks_plaintext_read_buf k)\<lparr>blen := 0\<rparr>\<rparr>) m))
      else (False, buf, m))"

definition tls_test_payload_len :: "'tls tls_multi \<Rightarrow> int" where
  "tls_test_payload_len m =
     (let ks = get_primary_key m in if ks_state ks \<ge> S_ACTIVE then buf_len (ks_plaintext_read_buf ks) else 0)"

definition tls_initial_packet_received :: "'tls tls_multi \<Rightarrow> bool" where
  "tls_initial_packet_received m \<longleftrightarrow> tm_n_sessions m > 0"

definition tls_set_single_session :: "'tls tls_multi \<Rightarrow> 'tls tls_multi" where
  "tls_set_single_session m = m\<lparr>tm_opt := (tm_opt m)\<lparr>to_single_session := True\<rparr>\<rparr>"

definition update_addr :: "sockaddr \<Rightarrow> 'tls key_state \<Rightarrow> 'tls key_state option" where
  "update_addr addr ks =
     (if \<not> link_socket_actual_defined (ks_remote_addr ks) then Some ks
      else case link_socket_actual_match addr (ks_remote_addr ks) of
             None \<Rightarrow> None
           | Some True \<Rightarrow> Some ks
           | Some False \<Rightarrow> Some (ks\<lparr>ks_remote_addr := addr\<rparr>))"

fun update_addr_loop :: "sockaddr \<Rightarrow> 'tls tls_session list \<Rightarrow> 'tls tls_session list option" where
  "update_addr_loop addr [] = Some []"
| "update_addr_loop addr (s # ss) =
     do {
       p \<leftarrow> update_addr addr (ts_primary s);
       l \<leftarrow> update_addr addr (ts_lame s);
       ss' \<leftarrow> update_addr_loop addr ss;
       Some (s\<lparr>ts_primary := p, ts_lame := l\<rparr> # ss')
     }"

definition tls_update_remote_addr :: "'tls tls_multi \<Rightarrow> sockaddr \<Rightarrow> 'tls tls_multi option" where
  "tls_update_remote_addr m addr = map_option (\<lambda>ss. m\<lparr>tm_session := ss\<rparr>) (update_addr_loop addr (tm_session m))"

subsection \<open>A concrete tunnel\<close>

text \<open>A server without wrapping, with a session that waits for the peer's acknowledgement.\<close>

definition demo_tls :: "unit tls_env" where
  "demo_tls = \<lparr>te_new = (), te_write_ct = (\<lambda>t bs. (1, t)), te_read_ct = (\<lambda>t n. (Bio_retry, t)),
     te_write_pt = (\<lambda>t bs. (1, t)), te_read_pt = (\<lambda>t n. (Bio_retry, t)), te_key_lib = (\<lambda>_. ex_lib)\<rparr>"

definition demo_frame :: frame where
  "demo_frame = \<lparr>f_link_mtu = 100, f_link_mtu_dynamic = 100, f_extra_frame = 20, f_extra_buffer = 20,
     f_extra_tun = 0, f_extra_link = 0, f_align_flags = 0, f_align_adjust = 0\<rparr>"

definition demo_opts_server :: tls_options where
  "demo_opts_server = \<lparr>to_server = True, to_xmit_hold = False, to_replay = True, to_single_session = False,
     to_mode_server = True, to_transition_window = 3600, to_handshake_window = 60, to_packet_timeout = 2,
     to_renegotiate_bytes = -1, to_renegotiate_packets = 0, to_renegotiate_seconds = 3600, to_cipher_insecure = False,
     to_replay_window = 4, to_replay_time = 15, to_tls_crypt_v2 = False, to_verify_script = None,
     to_tls_wrap = tls_wrap_clear, to_frame = demo_frame\<rparr>"

definition demo_addr :: sockaddr where
  "demo_addr = addr_clear\<lparr>sa_family := AF_INET, sa_port := 1194, sa_word := 0x0A000001\<rparr>"

definition demo_ks :: "unit key_state" where
  "demo_ks = key_state_clear\<lparr>ks_state := S_PRE_START, ks_ssl := Some (), ks_must_negotiate := 100,
     ks_session_id_remote := replicate 8 9, ks_remote_addr := demo_addr, ks_send_reliable := demo_send,
     ks_rec_reliable := demo_recv, ks_plaintext_read_buf := work_buf [] 10, ks_plaintext_write_buf := work_buf [] 10\<rparr>"

definition demo_multi :: "unit tls_multi" where
  "demo_multi = put_session TM_ACTIVE (tls_session_clear\<lparr>ts_session_id := replicate 8 5, ts_key_id := 1, ts_primary := demo_ks\<rparr>)
     (tls_multi_init demo_opts_server)"

end
