(* ===== verification/Tls_Process.thy ===== *)
theory Tls_Process
  imports Tls_Session "HOL-Library.Signed_Division"
begin

text \<open>
  \<^verbatim>\<open>tls_process\<close> and \<^verbatim>\<open>tls_multi_process\<close> of \<^verbatim>\<open>ssl.c\<close>. The body of the loop is a
  sequence of segments, in the order of the code; each may go on, leave the loop (\<open>break\<close>) or jump
  to the error label. A session is named by its index, so a segment maps the whole tunnel.

  \<open>pe_clock n\<close> is \<open>now\<close> after the n-th update of the clock in the call. What the library answers is
  in \<open>pe_tls\<close>; the random bytes and the settings and verification of the key exchange message are
  those of \<open>Key_Method\<close>, with \<open>pe_deauth\<close> telling whether the verification called
  \<^verbatim>\<open>tls_deauthenticate\<close>. The buffer given to \<^verbatim>\<open>write_control_auth\<close> shares its block with the
  buffer of the reliability layer, but only the headroom before the content is written, so the
  stored copy is left as it is.
\<close>

subsection \<open>Segments\<close>

record 'tls proc_env =
  pe_tls :: "'tls tls_env"
  pe_clock :: "nat \<Rightarrow> time_t"
  pe_prng :: "int \<Rightarrow> byte list"
  pe_rand :: "nat \<Rightarrow> byte list option"
  pe_km2_opts :: km2_opts
  pe_km2_env :: km2_env
  pe_deauth :: bool
  pe_sids :: "nat \<Rightarrow> session_id list"
  pe_auth :: auth_env
  pe_lsa_actual :: sockaddr

record 'tls proc =
  pr_multi :: "'tls tls_multi"
  pr_to_link :: buffer
  pr_to_addr :: "sockaddr option"
  pr_wakeup :: int
  pr_active :: bool
  pr_change :: bool
  pr_tick :: nat

datatype 'p outcome = Go 'p | Stop 'p | Error 'p

definition andthen :: "('p \<Rightarrow> 'p outcome option) \<Rightarrow> ('p \<Rightarrow> 'p outcome option) \<Rightarrow> 'p \<Rightarrow> 'p outcome option" where
  "andthen f g p = (case f p of Some (Go q) \<Rightarrow> g q | r \<Rightarrow> r)"

definition ses :: "nat \<Rightarrow> 'tls proc \<Rightarrow> 'tls tls_session" where
  "ses i p = tm_session (pr_multi p) ! i"

abbreviation prim :: "nat \<Rightarrow> 'tls proc \<Rightarrow> 'tls key_state" where
  "prim i p \<equiv> ts_primary (ses i p)"

definition set_ses :: "nat \<Rightarrow> 'tls tls_session \<Rightarrow> 'tls proc \<Rightarrow> 'tls proc" where
  "set_ses i s p = p\<lparr>pr_multi := put_session i s (pr_multi p)\<rparr>"

definition set_prim :: "nat \<Rightarrow> 'tls key_state \<Rightarrow> 'tls proc \<Rightarrow> 'tls proc" where
  "set_prim i ks p = set_ses i ((ses i p)\<lparr>ts_primary := ks\<rparr>) p"

definition note_change :: "'tls proc \<Rightarrow> 'tls proc" where
  "note_change p = p\<lparr>pr_change := True\<rparr>"

definition auth_deferred_expire_window :: "tls_options \<Rightarrow> int" where
  "auth_deferred_expire_window opt =
     (let r2 = to_renegotiate_seconds opt sdiv 2
      in if to_renegotiate_seconds opt \<noteq> 0 \<and> r2 < to_handshake_window opt then r2 else to_handshake_window opt)"

definition FULL_SYNC :: "'tls key_state \<Rightarrow> bool" where
  "FULL_SYNC ks \<longleftrightarrow> reliable_empty (ks_send_reliable ks) \<and> reliable_ack_empty (ks_rec_ack ks)"

definition seg_initial :: "'tls proc_env \<Rightarrow> nat \<Rightarrow> 'tls proc \<Rightarrow> 'tls proc outcome option" where
  "seg_initial env i p =
     (let ks = prim i p; opt = tm_opt (pr_multi p); now = pe_clock env (pr_tick p) in
      if ks_state ks \<noteq> S_INITIAL then Some (Go p)
      else case reliable_get_buf_output_sequenced (ks_send_reliable ks) of
             None \<Rightarrow> None
           | Some (None, r1) \<Rightarrow> Some (Go (set_prim i (ks\<lparr>ks_send_reliable := r1\<rparr>) p))
           | Some (Some j, r1) \<Rightarrow>
               (case reliable_mark_active_outgoing r1 j (ks_initial_opcode ks) of
                  None \<Rightarrow> None
                | Some r2 \<Rightarrow>
                    Some (Go (note_change (set_prim i
                      (ks\<lparr>ks_initial := now, ks_must_negotiate := now + to_handshake_window opt,
                         ks_auth_deferred_expire := now + auth_deferred_expire_window opt,
                         ks_send_reliable := r2, ks_state := S_PRE_START\<rparr>) p)))))"

definition seg_timed_out :: "'tls proc_env \<Rightarrow> nat \<Rightarrow> 'tls proc \<Rightarrow> 'tls proc outcome option" where
  "seg_timed_out env i p =
     (if pe_clock env (pr_tick p) \<ge> ks_must_negotiate (prim i p) \<and> ks_state (prim i p) < S_ACTIVE
      then Some (Error p) else Some (Go p))"

definition seg_start :: "nat \<Rightarrow> 'tls proc \<Rightarrow> 'tls proc outcome option" where
  "seg_start i p =
     (let ks = prim i p in
      if ks_state ks = S_PRE_START \<and> FULL_SYNC ks
      then Some (Go (note_change (set_prim i (ks\<lparr>ks_state := S_START\<rparr>) p))) else Some (Go p))"

definition seg_established :: "'tls proc_env \<Rightarrow> nat \<Rightarrow> 'tls proc \<Rightarrow> 'tls proc outcome option" where
  "seg_established env i p =
     (let ks = prim i p; m = pr_multi p; opt = tm_opt m in
      if (ks_state ks = S_GOT_KEY \<and> \<not> to_server opt \<or> ks_state ks = S_SENT_KEY \<and> to_server opt) \<and> FULL_SYNC ks
      then (case flush_payload_buffer (pe_tls env)
                   (ks\<lparr>ks_established := pe_clock env (pr_tick p), ks_state := S_ACTIVE, ks_must_negotiate := 0\<rparr>) of
              None \<Rightarrow> None
            | Some ks1 \<Rightarrow>
                (let m1 = (if tm_multi_state m = CAS_NOT_CONNECTED
                           then m\<lparr>tm_multi_state := (if to_mode_server opt then CAS_WAITING_AUTH else CAS_WAITING_OPTIONS_IMPORT)\<rparr>
                           else m)
                 in Some (Go (note_change (set_prim i ks1 (p\<lparr>pr_multi := m1\<rparr>))))))
      else Some (Go p))"

definition write_packet ::
  "'tls proc_env \<Rightarrow> nat \<Rightarrow> buffer \<Rightarrow> int \<Rightarrow> int \<Rightarrow> bool \<Rightarrow> 'tls proc \<Rightarrow> 'tls proc option" where
  "write_packet env i b opcode max_ack prepend p =
     (let s = ses i p; ks = ts_primary s in
      case write_control_auth (pe_clock env (pr_tick p)) (pe_prng env) (ts_wrap s) (ts_session_id s) (ks_key_id ks)
             (ks_rec_ack ks) (ks_session_id_remote ks) (link_socket_actual_defined (ks_remote_addr ks)) b opcode max_ack prepend of
        None \<Rightarrow> None
      | Some (addr_set, b1, ack, wrap) \<Rightarrow>
          Some ((set_ses i (s\<lparr>ts_wrap := wrap, ts_primary := ks\<lparr>ks_rec_ack := ack\<rparr>\<rparr>) p)
            \<lparr>pr_to_link := b1, pr_to_addr := (if addr_set then Some (ks_remote_addr ks) else pr_to_addr p), pr_active := True\<rparr>))"

definition seg_send :: "'tls proc_env \<Rightarrow> nat \<Rightarrow> 'tls proc \<Rightarrow> 'tls proc outcome option" where
  "seg_send env i p =
     (let ks = prim i p; now = pe_clock env (pr_tick p) in
      if blen (pr_to_link p) = 0 \<and> reliable_can_send now (ks_send_reliable ks)
      then (case reliable_send now (ks_send_reliable ks) of
              (None, _) \<Rightarrow> None
            | (Some (j, opcode), r) \<Rightarrow>
                map_option (\<lambda>q. Stop (note_change q))
                  (write_packet env i (re_buf (rl_array r ! j)) opcode CONTROL_SEND_ACK_MAX True
                     (set_prim i (ks\<lparr>ks_send_reliable := r\<rparr>) p)))
      else Some (Go p))"

definition seg_deliver :: "'tls proc_env \<Rightarrow> nat \<Rightarrow> 'tls proc \<Rightarrow> 'tls proc outcome option" where
  "seg_deliver env i p =
     (let ks = prim i p in
      case reliable_get_buf_sequenced (ks_rec_reliable ks) of
        None \<Rightarrow> Some (Go p)
      | Some j \<Rightarrow>
          (case ks_ssl ks of
             None \<Rightarrow> None
           | Some tls \<Rightarrow>
               let b = re_buf (rl_array (ks_rec_reliable ks) ! j); (st, tls1) = te_write_ct (pe_tls env) tls (content b) in
               (case deliver_ciphertext (\<lambda>_. st) (ks_rec_reliable ks) of
                  None \<Rightarrow> None
                | Some (seg, _, r1) \<Rightarrow>
                    (let q = set_prim i (ks\<lparr>ks_rec_reliable := r1, ks_ssl := Some (if blen b \<noteq> 0 then tls1 else tls)\<rparr>) p
                     in Some (case seg of Seg_error \<Rightarrow> Error q | Seg_idle \<Rightarrow> Go q | Seg_change \<Rightarrow> Go (note_change q))))))"

definition seg_read_plaintext :: "'tls proc_env \<Rightarrow> nat \<Rightarrow> 'tls proc \<Rightarrow> 'tls proc outcome option" where
  "seg_read_plaintext env i p =
     (let ks = prim i p in
      if blen (ks_plaintext_read_buf ks) \<noteq> 0 then Some (Go p)
      else case (buf_init (ks_plaintext_read_buf ks) 0, ks_ssl ks) of
             ((True, b), Some tls) \<Rightarrow>
               (let (res, tls1) = te_read_pt (pe_tls env) tls (min_int TLS_CHANNEL_BUF_SIZE (buf_forward_capacity b)) in
                case bio_read (\<lambda>_. res) b TLS_CHANNEL_BUF_SIZE of
                  None \<Rightarrow> None
                | Some (status, b1) \<Rightarrow>
                    (let q = (set_prim i (ks\<lparr>ks_plaintext_read_buf := b1, ks_ssl := Some tls1\<rparr>) p)\<lparr>pr_tick := pr_tick p + 1\<rparr>
                     in Some (if status = -1 then Error q
                              else if status = 1 then Go ((note_change q)\<lparr>pr_wakeup := 0\<rparr>) else Go q)))
           | _ \<Rightarrow> None)"

definition seg_send_key :: "'tls proc_env \<Rightarrow> nat \<Rightarrow> 'tls proc \<Rightarrow> 'tls proc outcome option" where
  "seg_send_key env i p =
     (let ks = prim i p; server = to_server (tm_opt (pr_multi p)) in
      if blen (ks_plaintext_write_buf ks) = 0 \<and> (ks_state ks = S_START \<and> \<not> server \<or> ks_state ks = S_GOT_KEY \<and> server)
      then (case key_method_2_write (pe_rand env) (pe_km2_opts env) (ks_key_src ks) (ks_plaintext_write_buf ks) of
              None \<Rightarrow> None
            | Some (ok, k2, b) \<Rightarrow>
                (let ks1 = ks\<lparr>ks_key_src := k2, ks_plaintext_write_buf := b\<rparr>
                 in Some (if ok then Go (note_change (set_prim i (ks1\<lparr>ks_state := S_SENT_KEY\<rparr>) p)) else Error (set_prim i ks1 p))))
      else Some (Go p))"

definition seg_receive_key :: "'tls proc_env \<Rightarrow> nat \<Rightarrow> 'tls proc \<Rightarrow> 'tls proc outcome option" where
  "seg_receive_key env i p =
     (let ks = prim i p; m = pr_multi p; server = to_server (tm_opt m) in
      if blen (ks_plaintext_read_buf ks) \<noteq> 0 \<and> (ks_state ks = S_SENT_KEY \<and> \<not> server \<or> ks_state ks = S_START \<and> server)
      then (let m1 = (if pe_deauth env then tls_deauthenticate m else m);
                st = \<lparr>kr_key_src = ks_key_src ks, kr_authenticated = ks_authenticated ks, kr_peer_info = tm_peer_info m,
                      kr_remote_ciphername = tm_remote_ciphername m, kr_remote_usescomp = tm_remote_usescomp m\<rparr>
            in case key_method_2_read (pe_km2_env env) st (ks_plaintext_read_buf ks) of
                 (ok, st1, b) \<Rightarrow>
                   (let ks1 = ks\<lparr>ks_key_src := kr_key_src st1, ks_authenticated := kr_authenticated st1, ks_plaintext_read_buf := b\<rparr>;
                        q = p\<lparr>pr_multi := m1\<lparr>tm_peer_info := kr_peer_info st1, tm_remote_ciphername := kr_remote_ciphername st1,
                              tm_remote_usescomp := kr_remote_usescomp st1\<rparr>\<rparr>
                    in Some (if ok then Go (note_change (set_prim i (ks1\<lparr>ks_state := S_GOT_KEY\<rparr>) q)) else Error (set_prim i ks1 q))))
      else Some (Go p))"

definition seg_write_plaintext :: "'tls proc_env \<Rightarrow> nat \<Rightarrow> 'tls proc \<Rightarrow> 'tls proc outcome option" where
  "seg_write_plaintext env i p =
     (let ks = prim i p; b = ks_plaintext_write_buf ks in
      if blen b = 0 then Some (Go p)
      else case ks_ssl ks of
             None \<Rightarrow> None
           | Some tls \<Rightarrow>
               (case tls_obj_write (pe_tls env) tls (content b) of
                  (status, tls1) \<Rightarrow>
                    (let q = set_prim i (ks\<lparr>ks_ssl := Some tls1, ks_plaintext_write_buf := bio_write_post status b\<rparr>) p
                     in Some (if status = -1 then Error q else if status = 1 then Go (note_change q) else Go q))))"

definition seg_output :: "'tls proc_env \<Rightarrow> nat \<Rightarrow> 'tls proc \<Rightarrow> 'tls proc outcome option" where
  "seg_output env i p =
     (let ks = prim i p; maxlen = PAYLOAD_SIZE_DYNAMIC (to_frame (tm_opt (pr_multi p))) in
      if ks_state ks < S_START then Some (Go p)
      else case (reliable_get_buf_output_sequenced (ks_send_reliable ks), ks_ssl ks) of
             (None, _) \<Rightarrow> None
           | (Some (None, r1), _) \<Rightarrow> Some (Go (set_prim i (ks\<lparr>ks_send_reliable := r1\<rparr>) p))
           | (Some (Some j, r1), None) \<Rightarrow> None
           | (Some (Some j, r1), Some tls) \<Rightarrow>
               (let (res, tls1) = te_read_ct (pe_tls env) tls (min_int maxlen (buf_forward_capacity (re_buf (rl_array r1 ! j)))) in
                case output_ciphertext (\<lambda>_. res) maxlen P_CONTROL_V1 (ks_send_reliable ks) of
                  None \<Rightarrow> None
                | Some (seg, r2) \<Rightarrow>
                    (let q = set_prim i (ks\<lparr>ks_send_reliable := r2, ks_ssl := Some tls1\<rparr>) p
                     in Some (case seg of Seg_error \<Rightarrow> Error q | Seg_idle \<Rightarrow> Go q | Seg_change \<Rightarrow> Go (note_change q)))))"

subsection \<open>The loop\<close>

definition round_body :: "'tls proc_env \<Rightarrow> nat \<Rightarrow> 'tls proc \<Rightarrow> 'tls proc outcome option" where
  "round_body env i =
     andthen (seg_initial env i)
      (andthen (seg_timed_out env i)
       (andthen (seg_start i)
        (andthen (seg_established env i)
         (andthen (seg_send env i)
          (andthen (seg_deliver env i)
           (andthen (seg_read_plaintext env i)
            (andthen (seg_send_key env i)
             (andthen (seg_receive_key env i)
              (andthen (seg_write_plaintext env i) (seg_output env i))))))))))"

definition proc_round :: "'tls proc_env \<Rightarrow> nat \<Rightarrow> 'tls proc \<Rightarrow> 'tls proc outcome option" where
  "proc_round env i p = round_body env i (p\<lparr>pr_change := False, pr_tick := pr_tick p + 1\<rparr>)"

text \<open>
  The loop goes on while a round changed something. \<open>Go\<close> as a result means the rounds allowed were
  used up; \<open>PROC_ROUNDS\<close> are enough for any loop (\<open>Tls_Loop\<close>).
\<close>

fun proc_loop :: "nat \<Rightarrow> 'tls proc_env \<Rightarrow> nat \<Rightarrow> 'tls proc \<Rightarrow> 'tls proc outcome option" where
  "proc_loop 0 env i p = Some (Go p)"
| "proc_loop (Suc n) env i p =
     (case proc_round env i p of
        Some (Go q) \<Rightarrow> if pr_change q then proc_loop n env i q else Some (Stop q)
      | r \<Rightarrow> r)"

definition PROC_ROUNDS :: nat where "PROC_ROUNDS = 40"

definition soft_reset_due :: "time_t \<Rightarrow> tls_options \<Rightarrow> 'tls key_state \<Rightarrow> bool" where
  "soft_reset_due now opt ks \<longleftrightarrow> ks_state ks \<ge> S_ACTIVE
     \<and> (to_renegotiate_seconds opt \<noteq> 0 \<and> now \<ge> ks_established ks + to_renegotiate_seconds opt
        \<or> to_renegotiate_bytes opt > 0 \<and> ks_n_bytes ks \<ge> word_of_int (to_renegotiate_bytes opt)
        \<or> to_renegotiate_packets opt \<noteq> 0 \<and> ks_n_packets ks \<ge> word_of_int (to_renegotiate_packets opt)
        \<or> packet_id_close_to_wrapping (pid_send (ks_packet_id ks)))"

definition proc_wakeup :: "time_t \<Rightarrow> tls_options \<Rightarrow> 'tls key_state \<Rightarrow> int \<Rightarrow> int" where
  "proc_wakeup now opt ks w0 =
     (let w1 = (if ks_state ks \<ge> S_INITIAL then compute_earliest_wakeup w0 (reliable_send_timeout now (ks_send_reliable ks)) else w0);
          w2 = (if ks_state ks \<ge> S_INITIAL \<and> ks_must_negotiate ks \<noteq> 0
                then compute_earliest_wakeup w1 (c_int (ks_must_negotiate ks - now)) else w1)
      in if ks_established ks \<noteq> 0 \<and> to_renegotiate_seconds opt \<noteq> 0
         then compute_earliest_wakeup w2 (c_int (ks_established ks + to_renegotiate_seconds opt - now)) else w2)"

definition send_acks :: "'tls proc_env \<Rightarrow> nat \<Rightarrow> 'tls proc \<Rightarrow> 'tls proc option" where
  "send_acks env i p =
     (if blen (pr_to_link p) = 0 \<and> \<not> reliable_ack_empty (ks_rec_ack (prim i p))
      then (case buf_init (ks_ack_write_buf (prim i p)) (FRAME_HEADROOM (to_frame (tm_opt (pr_multi p)))) of
              (False, _) \<Rightarrow> None
            | (True, b) \<Rightarrow> write_packet env i b P_ACK_V1 RELIABLE_ACK_SIZE False p)
      else Some p)"

text \<open>The part before the loop.\<close>

definition proc_enter :: "'tls proc_env \<Rightarrow> nat \<Rightarrow> 'tls proc \<Rightarrow> 'tls proc option" where
  "proc_enter env i p =
     (let ks = prim i p; opt = tm_opt (pr_multi p); now = pe_clock env (pr_tick p) in
      if ks_state ks = S_UNDEF \<or> ks_state ks = S_ERROR \<or> \<not> session_id_defined (ts_session_id (ses i p)) then None
      else do {
        p1 \<leftarrow> (if soft_reset_due now opt ks
               then map_option (\<lambda>s. (set_ses i s p)\<lparr>pr_tick := pr_tick p + 1\<rparr>) (key_state_soft_reset (pe_tls env) opt now (ses i p))
               else Some p);
        (die, w) \<leftarrow> lame_duck_must_die (pe_clock env (pr_tick p1)) (ses i p1) (pr_wakeup p1);
        let p2 = p1\<lparr>pr_wakeup := w\<rparr>;
        Some (if die then set_ses i ((ses i p2)\<lparr>ts_lame := key_state_free (ts_lame (ses i p2)) True\<rparr>) p2 else p2)
      })"

definition proc_leave :: "'tls proc_env \<Rightarrow> nat \<Rightarrow> 'tls proc \<Rightarrow> 'tls proc option" where
  "proc_leave env i p =
     do {
       p1 \<leftarrow> send_acks env i (p\<lparr>pr_tick := pr_tick p + 1\<rparr>);
       let w = proc_wakeup (pe_clock env (pr_tick p1)) (tm_opt (pr_multi p1)) (prim i p1) (pr_wakeup p1);
       Some (if w \<le> 0 then p1\<lparr>pr_wakeup := 1, pr_active := True\<rparr> else p1\<lparr>pr_wakeup := w\<rparr>)
     }"

definition tls_process :: "'tls proc_env \<Rightarrow> nat \<Rightarrow> 'tls proc \<Rightarrow> 'tls proc option" where
  "tls_process env i p0 =
     do {
       p \<leftarrow> proc_enter env i (p0\<lparr>pr_active := False, pr_to_addr := None\<rparr>);
       r \<leftarrow> proc_loop PROC_ROUNDS env i p;
       case r of
         Stop q \<Rightarrow> proc_leave env i q
       | Error q \<Rightarrow> Some ((set_prim i ((prim i q)\<lparr>ks_state := S_ERROR\<rparr>) q)\<lparr>pr_active := False\<rparr>)
       | Go q \<Rightarrow> None
     }"

subsection \<open>Data channel keys\<close>

definition tls_limit_reneg_bytes :: "bool \<Rightarrow> int \<Rightarrow> int" where
  "tls_limit_reneg_bytes insecure reneg_bytes = (if insecure \<and> reneg_bytes = -1 then 64 * 1024 * 1024 else reneg_bytes)"

definition tls_session_generate_data_channel_keys ::
  "'tls tls_env \<Rightarrow> tls_options \<Rightarrow> 'tls tls_session \<Rightarrow> (bool \<times> tls_options \<times> 'tls tls_session) option" where
  "tls_session_generate_data_channel_keys env opt s =
     (let ks = ts_primary s; wiped = (\<lambda>k. s\<lparr>ts_primary := k\<lparr>ks_key_src := key_source2_clear\<rparr>\<rparr>) in
      if ks_authenticated ks = KS_AUTH_FALSE then Some (False, opt, wiped ks)
      else case ks_ssl ks of
             None \<Rightarrow> None
           | Some tls \<Rightarrow>
               (case generate_key_expansion (te_key_lib env tls) (to_server opt) (ts_session_id s) (ks_session_id_remote ks)
                       (ks_key_src ks) (ks_key_ctx_bi ks) of
                  None \<Rightarrow> None
                | Some (False, _) \<Rightarrow> Some (False, opt, wiped ks)
                | Some (True, ctx) \<Rightarrow>
                    Some (True, opt\<lparr>to_renegotiate_bytes := tls_limit_reneg_bytes (to_cipher_insecure opt) (to_renegotiate_bytes opt)\<rparr>,
                          wiped (ks\<lparr>ks_key_ctx_bi := ctx, ks_state := S_GENERATED_KEYS\<rparr>))))"

definition generate_session :: "'tls tls_env \<Rightarrow> nat \<Rightarrow> 'tls tls_multi \<Rightarrow> 'tls tls_multi option" where
  "generate_session env i m =
     (let s = tm_session m ! i; ks = ts_primary s in
      if ks_state ks = S_ACTIVE \<and> ks_authenticated ks = KS_AUTH_TRUE
      then (case tls_session_generate_data_channel_keys env (tm_opt m) s of
              None \<Rightarrow> None
            | Some (True, opt, s1) \<Rightarrow> Some (put_session i s1 (m\<lparr>tm_opt := opt\<rparr>))
            | Some (False, opt, s1) \<Rightarrow>
                Some (put_session i (s1\<lparr>ts_primary := (ts_primary s1)\<lparr>ks_authenticated := KS_AUTH_FALSE, ks_state := S_ERROR\<rparr>\<rparr>)
                  (m\<lparr>tm_opt := opt\<rparr>)))
      else Some m)"

subsection \<open>The sessions of the tunnel\<close>

record 'tls mproc =
  mp_proc :: "'tls proc"
  mp_active :: bool
  mp_error :: bool
  mp_to_addr :: "sockaddr option"

definition after_error :: "'tls proc_env \<Rightarrow> nat \<Rightarrow> 'tls tls_multi \<Rightarrow> 'tls tls_multi option" where
  "after_error env i m =
     (let m1 = m\<lparr>tm_n_soft_errors := tm_n_soft_errors m + 1\<rparr> in
      if i = TM_ACTIVE \<and> ks_state (ts_lame (tm_session m ! i)) \<ge> S_ACTIVE \<and> \<not> to_single_session (tm_opt m)
      then move_session (pe_tls env) (pe_sids env i) m1 TM_LAME_DUCK TM_ACTIVE True
      else reset_session (pe_tls env) (pe_sids env i) m1 i)"

definition multi_session :: "'tls proc_env \<Rightarrow> nat \<Rightarrow> 'tls mproc \<Rightarrow> 'tls mproc option" where
  "multi_session env i mp =
     (let p = mp_proc mp; ks = prim i p;
          p1 = (if i = TM_ACTIVE \<and> ks_state ks = S_INITIAL \<and> link_socket_actual_defined (pe_lsa_actual env)
                then set_prim i (ks\<lparr>ks_remote_addr := pe_lsa_actual env\<rparr>) p else p) in
      if ks_state (prim i p1) \<ge> S_INITIAL \<and> link_socket_actual_defined (ks_remote_addr (prim i p1))
      then do {
        q \<leftarrow> tls_process env i (p1\<lparr>pr_tick := pr_tick p1 + 1\<rparr>);
        let m1 = (case pr_to_addr q of None \<Rightarrow> pr_multi q | Some a \<Rightarrow> (pr_multi q)\<lparr>tm_to_link_addr := a\<rparr>);
        let mp1 = mp\<lparr>mp_active := mp_active mp \<or> pr_active q,
                     mp_to_addr := (case pr_to_addr q of None \<Rightarrow> mp_to_addr mp | Some a \<Rightarrow> Some a)\<rparr>;
        if ks_state (prim i q) = S_ERROR
        then do {
          m2 \<leftarrow> after_error env i m1;
          Some (mp1\<lparr>mp_proc := q\<lparr>pr_multi := m2\<rparr>, mp_error := mp_error mp \<or> i = TM_ACTIVE\<rparr>)
        }
        else Some (mp1\<lparr>mp_proc := q\<lparr>pr_multi := m1\<rparr>\<rparr>)
      }
      else Some (mp\<lparr>mp_proc := p1\<rparr>))"

definition bindo :: "('a \<Rightarrow> 'b option) \<Rightarrow> ('b \<Rightarrow> 'c option) \<Rightarrow> 'a \<Rightarrow> 'c option" where
  "bindo f g x = (case f x of None \<Rightarrow> None | Some y \<Rightarrow> g y)"

definition all_sessions :: "(nat \<Rightarrow> 'a \<Rightarrow> 'a option) \<Rightarrow> 'a \<Rightarrow> 'a option" where
  "all_sessions f = bindo (f TM_ACTIVE) (bindo (f TM_UNTRUSTED) (f TM_LAME_DUCK))"

definition kill_lame_session :: "time_t \<Rightarrow> int \<Rightarrow> 'tls tls_multi \<Rightarrow> (int \<times> 'tls tls_multi) option" where
  "kill_lame_session now wakeup m =
     (case lame_duck_must_die now (tm_session m ! TM_LAME_DUCK) wakeup of
        None \<Rightarrow> None
      | Some (die, w) \<Rightarrow>
          Some (w, if die then put_session TM_LAME_DUCK (tls_session_free (tm_session m ! TM_LAME_DUCK) True) m else m))"

definition promote_session :: "'tls proc_env \<Rightarrow> 'tls tls_multi \<Rightarrow> 'tls tls_multi option" where
  "promote_session env m =
     (if TLS_AUTHENTICATED (tm_opt m) (ts_primary (tm_session m ! TM_UNTRUSTED))
      then move_session (pe_tls env) (pe_sids env TM_SIZE) m TM_ACTIVE TM_UNTRUSTED True else Some m)"

definition count_hard_error :: "bool \<Rightarrow> 'tls tls_multi \<Rightarrow> 'tls tls_multi" where
  "count_hard_error err m =
     (if err \<and> list_all (\<lambda>i. case get_key_scan m i of None \<Rightarrow> True | Some ks \<Rightarrow> ks_state ks < S_ACTIVE) [0..<KEY_SCAN_SIZE]
      then m\<lparr>tm_n_hard_errors := tm_n_hard_errors m + 1\<rparr> else m)"

datatype tlsmp = TLSMP_INACTIVE | TLSMP_ACTIVE | TLSMP_KILL

text \<open>The part after the loop over the sessions; the result is the status, the wakeup and the tunnel.\<close>

definition multi_finish ::
  "'tls proc_env \<Rightarrow> time_t \<Rightarrow> bool \<Rightarrow> bool \<Rightarrow> int \<Rightarrow> 'tls tls_multi \<Rightarrow> (tlsmp \<times> int \<times> 'tls tls_multi) option" where
  "multi_finish env now active err wakeup m =
     do {
       (tas, m1) \<leftarrow> tls_authentication_status now (pe_auth env) m;
       m2 \<leftarrow> (if tm_multi_state m1 = CAS_CONNECT_DONE then all_sessions (generate_session (pe_tls env)) m1 else Some m1);
       let m3 = (if tm_multi_state m2 = CAS_WAITING_AUTH \<and> tas = TLS_AUTHENTICATION_SUCCEEDED
                 then m2\<lparr>tm_multi_state := CAS_PENDING\<rparr> else m2);
       (w, m4) \<leftarrow> kill_lame_session now wakeup m3;
       m5 \<leftarrow> promote_session env m4;
       let m6 = count_hard_error err m5;
       Some (if tas = TLS_AUTHENTICATION_FAILED then TLSMP_KILL else if active then TLSMP_ACTIVE else TLSMP_INACTIVE, w, m6)
     }"

definition tls_multi_process ::
  "'tls proc_env \<Rightarrow> 'tls tls_multi \<Rightarrow> buffer \<Rightarrow> sockaddr option \<Rightarrow> int
     \<Rightarrow> (tlsmp \<times> buffer \<times> sockaddr option \<times> int \<times> 'tls tls_multi) option" where
  "tls_multi_process env m to_link to_link_addr wakeup =
     do {
       mp \<leftarrow> all_sessions (multi_session env)
         \<lparr>mp_proc = \<lparr>pr_multi = m, pr_to_link = to_link, pr_to_addr = None, pr_wakeup = wakeup, pr_active = False,
                     pr_change = False, pr_tick = 0\<rparr>,
          mp_active = False, mp_error = False, mp_to_addr = to_link_addr\<rparr>;
       let p = mp_proc mp;
       (st, w, m1) \<leftarrow> multi_finish env (pe_clock env (pr_tick p + 1)) (mp_active mp) (mp_error mp) (pr_wakeup p) (pr_multi p);
       Some (st, pr_to_link p, mp_to_addr mp, w, m1)
     }"

end
