(* ===== verification/Tls_Dispatch.thy ===== *)
theory Tls_Dispatch
  imports Tls_Process Mtu
begin

text \<open>
  Incoming packets: \<^verbatim>\<open>tls_pre_decrypt\<close> and \<^verbatim>\<open>tls_pre_decrypt_lite\<close> of \<^verbatim>\<open>ssl.c\<close>. A data packet is
  given its key; a control packet is matched to a session by its session id, authenticated
  and handed to the reliability layer. A packet that is refused counts as a soft error.
\<close>

record pd_env =
  pd_now :: time_t
  pd_mk :: "key \<Rightarrow> bool \<Rightarrow> crypt_ctx"
  pd_from :: sockaddr

definition soft_error :: "'tls tls_multi \<Rightarrow> 'tls tls_multi" where
  "soft_error m = m\<lparr>tm_n_soft_errors := tm_n_soft_errors m + 1\<rparr>"

definition first_byte :: "buffer \<Rightarrow> byte" where
  "first_byte b = block b ! nat (boff b)"

definition wrong_direction :: "bool \<Rightarrow> int \<Rightarrow> bool" where
  "wrong_direction server op \<longleftrightarrow>
     (op = P_CONTROL_HARD_RESET_CLIENT_V2 \<or> op = P_CONTROL_HARD_RESET_CLIENT_V3) \<and> \<not> server
     \<or> op = P_CONTROL_HARD_RESET_SERVER_V2 \<and> server"

definition find_session :: "'tls tls_multi \<Rightarrow> session_id \<Rightarrow> nat option" where
  "find_session m sid =
     find (\<lambda>i. session_id_equal (ks_session_id_remote (ts_primary (tm_session m ! i))) sid) [0..<TM_SIZE]"

text \<open>The session of a packet, and whether the packet opens it (\<open>new_link\<close>); \<open>None\<close> is the error label.\<close>

definition route_packet :: "'tls tls_multi \<Rightarrow> int \<Rightarrow> session_id \<Rightarrow> (nat \<times> bool) option" where
  "route_packet m op sid =
     (case find_session m sid of
        Some i \<Rightarrow> if i = TM_LAME_DUCK then None else Some (i, False)
      | None \<Rightarrow>
          if \<not> is_hard_reset_method2 op then None
          else if \<not> session_id_defined (ks_session_id_remote (get_primary_key m))
          then if to_single_session (tm_opt m) \<and> tm_n_sessions m \<noteq> 0 then None else Some (TM_ACTIVE, True)
          else if to_single_session (tm_opt m) then None else Some (TM_UNTRUSTED, True))"

definition authenticate_packet ::
  "pd_env \<Rightarrow> 'tls tls_env \<Rightarrow> 'tls tls_multi \<Rightarrow> nat \<Rightarrow> bool \<Rightarrow> int \<Rightarrow> buffer \<Rightarrow> (bool \<times> 'tls tls_multi \<times> buffer) option" where
  "authenticate_packet pd env m i new_link op buf =
     (let s = tm_session m ! i; ks = ts_primary s;
          s0 = (if new_link \<and> i = TM_ACTIVE then s\<lparr>ts_untrusted_addr := pd_from pd\<rparr> else s) in
      do {
        known \<leftarrow> (if new_link then Some True else link_socket_actual_match (ks_remote_addr ks) (pd_from pd));
        if \<not> known then Some (False, m, buf)
        else do {
          (good, b, wrap) \<leftarrow> read_control_auth (pd_now pd) (pd_mk pd) (to_verify_script (tm_opt m)) buf (ts_wrap s);
          let s1 = s0\<lparr>ts_wrap := wrap\<rparr>;
          if \<not> good then Some (False, put_session i s1 m, b)
          else if new_link \<and> i = TM_UNTRUSTED then Some (True, put_session i (s1\<lparr>ts_untrusted_addr := pd_from pd\<rparr>) m, b)
          else if op = P_CONTROL_SOFT_RESET_V1 \<and> TLS_AUTHENTICATED (tm_opt m) ks
          then do { s2 \<leftarrow> key_state_soft_reset env (tm_opt m) (pd_now pd) s1; Some (True, put_session i s2 m, b) }
          else Some (True, put_session i s1 m, b)
        }
      })"

definition wants_burst :: "'tls tls_multi \<Rightarrow> nat \<Rightarrow> bool \<Rightarrow> int \<Rightarrow> bool" where
  "wants_burst m i new_link op \<longleftrightarrow> new_link \<and> i = TM_ACTIVE
     \<or> \<not> new_link \<and> op = P_CONTROL_SOFT_RESET_V1 \<and> \<not> TLS_AUTHENTICATED (tm_opt m) (ts_primary (tm_session m ! i))"

text \<open>The reliability layer's part, with the buffer at the acknowledgements; the flag is false at the error label.\<close>

definition accept_payload ::
  "time_t \<Rightarrow> session_id \<Rightarrow> int \<Rightarrow> buffer \<Rightarrow> 'tls key_state \<Rightarrow> (bool \<times> 'tls key_state) option" where
  "accept_payload now own_sid op b ks =
     (case reliable_ack_read ack_clear b own_sid of
        (False, _, _) \<Rightarrow> Some (False, ks)
      | (True, ack, b1) \<Rightarrow>
          (let ks1 = ks\<lparr>ks_send_reliable := reliable_send_purge (ks_send_reliable ks) ack\<rparr> in
           if op = P_ACK_V1 then Some (True, ks1\<lparr>ks_peer_last_packet := now\<rparr>)
           else case input_ciphertext op (ks_rec_reliable ks1) (ks_rec_ack ks1) b1 of
                  None \<Rightarrow> None
                | Some (ok, r, a) \<Rightarrow>
                    (let ks2 = ks1\<lparr>ks_rec_reliable := r, ks_rec_ack := a\<rparr>
                     in Some (ok, if ok then ks2\<lparr>ks_peer_last_packet := now\<rparr> else ks2))))"

definition deliver_packet ::
  "pd_env \<Rightarrow> 'tls tls_multi \<Rightarrow> nat \<Rightarrow> bool \<Rightarrow> bool \<Rightarrow> int \<Rightarrow> int \<Rightarrow> session_id \<Rightarrow> buffer \<Rightarrow> 'tls tls_multi option" where
  "deliver_packet pd m i new_link do_burst op key_id sid b =
     (let s = tm_session m ! i; ks = ts_primary s in
      do {
        ASSERT (ks_state ks \<noteq> S_UNDEF \<and> ks_state ks \<noteq> S_ERROR \<and> session_id_defined (ts_session_id s));
        known \<leftarrow> (if new_link then Some True else link_socket_actual_match (ks_remote_addr ks) (pd_from pd));
        if \<not> known then Some (soft_error m)
        else do {
          let ks1 = (if new_link then ks\<lparr>ks_session_id_remote := sid, ks_remote_addr := pd_from pd\<rparr> else ks);
          let m1 = (if new_link then m\<lparr>tm_n_sessions := tm_n_sessions m + 1\<rparr> else m);
          let burst = do_burst \<and> \<not> ts_burst s;
          let ks2 = (if burst then ks1\<lparr>ks_send_reliable := reliable_schedule_now (pd_now pd) (ks_send_reliable ks1)\<rparr> else ks1);
          let s2 = (if burst then s\<lparr>ts_burst := True\<rparr> else s);
          if ks_key_id ks2 \<noteq> key_id then Some (soft_error (put_session i (s2\<lparr>ts_primary := ks2\<rparr>) m1))
          else do {
            (ok, ks3) \<leftarrow> accept_payload (pd_now pd) (ts_session_id s2) op b ks2;
            let m2 = put_session i (s2\<lparr>ts_primary := ks3\<rparr>) m1;
            Some (if ok then m2 else soft_error m2)
          }
        }
      })"

text \<open>A control packet; the flag is the function's result.\<close>

definition pre_decrypt_control ::
  "pd_env \<Rightarrow> 'tls tls_env \<Rightarrow> 'tls tls_multi \<Rightarrow> buffer \<Rightarrow> (bool \<times> 'tls tls_multi) option" where
  "pre_decrypt_control pd env m buf =
     (let c = first_byte buf; op = uint (drop_bit P_OPCODE_SHIFT c); key_id = uint c AND P_KEY_ID_MASK in
      if op < P_FIRST_OPCODE \<or> op > P_LAST_OPCODE then Some (False, soft_error m)
      else if is_hard_reset_method2 op \<and> wrong_direction (to_server (tm_opt m)) op then Some (False, soft_error m)
      else case fst (session_id_read (snd (buf_advance buf 1))) of
             None \<Rightarrow> Some (False, soft_error m)
           | Some sid \<Rightarrow>
               if \<not> session_id_defined sid then Some (False, soft_error m)
               else case route_packet m op sid of
                      None \<Rightarrow> Some (False, soft_error m)
                    | Some (i, new_link) \<Rightarrow>
                        do {
                          (good, m1, b) \<leftarrow> authenticate_packet pd env m i new_link op buf;
                          if \<not> good then Some (False, soft_error m1)
                          else do {
                            m2 \<leftarrow> deliver_packet pd m1 i new_link (wants_burst m i new_link op) op key_id sid b;
                            Some (True, m2)
                          }
                        })"

text \<open>The result: the flag, the key of a data packet, the tunnel, the buffer and the start of the additional data.\<close>

definition tls_pre_decrypt ::
  "pd_env \<Rightarrow> 'tls tls_env \<Rightarrow> 'tls tls_multi \<Rightarrow> buffer \<Rightarrow> bool
     \<Rightarrow> (bool \<times> nat option \<times> 'tls tls_multi \<times> buffer \<times> int option) option" where
  "tls_pre_decrypt pd env m buf floated =
     (if blen buf \<le> 0 then Some (False, None, m, buf\<lparr>blen := 0\<rparr>, None)
      else let op = uint (drop_bit P_OPCODE_SHIFT (first_byte buf)) in
           if op = P_DATA_V1 \<or> op = P_DATA_V2
           then map_option (Pair False) (handle_data_channel_packet m (pd_from pd) buf floated)
           else map_option (\<lambda>(ret, m1). (ret, None, m1, buf\<lparr>blen := 0\<rparr>, None)) (pre_decrypt_control pd env m buf))"

definition EXPANDED_SIZE_DYNAMIC :: "frame \<Rightarrow> int" where
  "EXPANDED_SIZE_DYNAMIC f = f_link_mtu_dynamic f"

definition tls_pre_decrypt_lite :: "pd_env \<Rightarrow> frame \<Rightarrow> tls_wrap_ctx \<Rightarrow> buffer \<Rightarrow> bool option" where
  "tls_pre_decrypt_lite pd fr wrap buf =
     (if blen buf \<le> 0 then Some False
      else let c = first_byte buf; op = uint (drop_bit P_OPCODE_SHIFT c); key_id = uint c AND P_KEY_ID_MASK in
           if op \<noteq> P_CONTROL_HARD_RESET_CLIENT_V2 \<and> op \<noteq> P_CONTROL_HARD_RESET_CLIENT_V3 then Some False
           else if key_id \<noteq> 0 then Some False
           else if blen buf > EXPANDED_SIZE_DYNAMIC fr then Some False
           else map_option fst (read_control_auth (pd_now pd) (pd_mk pd) None (clone_buf buf) wrap))"

subsection \<open>Refused packets\<close>

definition keys_of :: "'tls tls_multi \<Rightarrow> (session_id \<times> int \<times> 'tls key_state \<times> 'tls key_state) list" where
  "keys_of m = map (\<lambda>s. (ts_session_id s, ts_key_id s, ts_primary s, ts_lame s)) (tm_session m)"

lemma keys_of_soft_error [simp]: "keys_of (soft_error m) = keys_of m"
  by (simp add: keys_of_def soft_error_def)

lemma keys_of_put:
  assumes "ts_session_id s = ts_session_id (tm_session m ! i)" "ts_key_id s = ts_key_id (tm_session m ! i)"
    "ts_primary s = ts_primary (tm_session m ! i)" "ts_lame s = ts_lame (tm_session m ! i)"
  shows "keys_of (put_session i s m) = keys_of m"
proof (rule nth_equalityI)
  fix j
  assume "j < length (keys_of (put_session i s m))"
  then have "j < length (tm_session m)" by (simp add: keys_of_def put_session_def)
  then show "keys_of (put_session i s m) ! j = keys_of m ! j"
    using assms by (cases "j = i") (simp_all add: keys_of_def put_session_def)
qed (simp add: keys_of_def put_session_def)

lemma put_session_simps [simp]:
  "tm_opt (put_session i s m) = tm_opt m" "tm_n_soft_errors (put_session i s m) = tm_n_soft_errors m"
  "tm_n_sessions (put_session i s m) = tm_n_sessions m" "length (tm_session (put_session i s m)) = length (tm_session m)"
  "j \<noteq> i \<Longrightarrow> tm_session (put_session i s m) ! j = tm_session m ! j"
  by (simp_all add: put_session_def)

definition same_keys :: "'tls tls_session \<Rightarrow> 'tls tls_session \<Rightarrow> bool" where
  "same_keys s s1 \<longleftrightarrow> ts_session_id s1 = ts_session_id s \<and> ts_key_id s1 = ts_key_id s
     \<and> ts_primary s1 = ts_primary s \<and> ts_lame s1 = ts_lame s"

lemma authenticate_cases:
  assumes "authenticate_packet pd env m i new_link op buf = Some (good, m1, b)"
  obtains (unknown) "\<not> good" "\<not> new_link" "m1 = m"
  | (known) wrap s1 s2 where "new_link \<or> link_socket_actual_match (ks_remote_addr (ts_primary (tm_session m ! i))) (pd_from pd) = Some True"
      "read_control_auth (pd_now pd) (pd_mk pd) (to_verify_script (tm_opt m)) buf (ts_wrap (tm_session m ! i)) = Some (good, b, wrap)"
      "m1 = put_session i s1 m" "same_keys (tm_session m ! i) s2"
      "s1 = s2 \<or> good \<and> TLS_AUTHENTICATED (tm_opt m) (ts_primary (tm_session m ! i))
         \<and> key_state_soft_reset env (tm_opt m) (pd_now pd) s2 = Some s1"
proof -
  define s0 where "s0 = (if new_link \<and> i = TM_ACTIVE then (tm_session m ! i)\<lparr>ts_untrusted_addr := pd_from pd\<rparr> else tm_session m ! i)"
  have s0: "same_keys (tm_session m ! i) (s0\<lparr>ts_wrap := w\<rparr>)" for w by (simp add: s0_def same_keys_def)
  obtain known where k: "(if new_link then Some True else link_socket_actual_match (ks_remote_addr (ts_primary (tm_session m ! i))) (pd_from pd)) = Some known"
    using assms unfolding authenticate_packet_def Let_def s0_def [symmetric] by (auto simp: Option.bind_eq_Some_conv)
  show thesis
  proof (cases known)
    case False
    have "\<not> good" "\<not> new_link" "m1 = m" using assms k False
      unfolding authenticate_packet_def Let_def s0_def [symmetric] by (auto split: if_splits)
    then show thesis by (rule unknown)
  next
    case True
    from assms k True obtain g b' wrap where
      r: "read_control_auth (pd_now pd) (pd_mk pd) (to_verify_script (tm_opt m)) buf (ts_wrap (tm_session m ! i)) = Some (g, b', wrap)"
      unfolding authenticate_packet_def Let_def s0_def [symmetric] by (auto simp: Option.bind_eq_Some_conv)
    note e = assms [unfolded authenticate_packet_def Let_def s0_def [symmetric], unfolded k r, simplified True, simplified]
    have n: "new_link \<or> link_socket_actual_match (ks_remote_addr (ts_primary (tm_session m ! i))) (pd_from pd) = Some True"
      using k True by (auto split: if_splits)
    let ?s = "s0\<lparr>ts_wrap := wrap\<rparr>"
    have gb: "good = g" "b = b'" using e by (auto simp: Option.bind_eq_Some_conv split: if_splits)
    note r' = r [folded gb]
    consider "m1 = put_session i ?s m" | "m1 = put_session i (?s\<lparr>ts_untrusted_addr := pd_from pd\<rparr>) m"
      | s1 where "good" "TLS_AUTHENTICATED (tm_opt m) (ts_primary (tm_session m ! i))"
          "key_state_soft_reset env (tm_opt m) (pd_now pd) ?s = Some s1" "m1 = put_session i s1 m"
      using e gb by (auto simp: Option.bind_eq_Some_conv split: if_splits)
    then show thesis
    proof cases
      case 1
      show thesis by (rule known [OF n r' 1 s0 [of wrap]]) simp
    next
      case 2
      have "same_keys (tm_session m ! i) (?s\<lparr>ts_untrusted_addr := pd_from pd\<rparr>)" using s0 by (simp add: same_keys_def)
      from known [OF n r' 2 this] show thesis by simp
    next
      case (3 s1)
      show thesis by (rule known [OF n r' 3(4) s0 [of wrap]]) (use 3 in blast)
    qed
  qed
qed

lemma authenticate_refused:
  assumes "authenticate_packet pd env m i new_link op buf = Some (False, m1, b)"
  shows "keys_of m1 = keys_of m \<and> tm_n_soft_errors m1 = tm_n_soft_errors m \<and> tm_n_sessions m1 = tm_n_sessions m"
  using assms by (cases rule: authenticate_cases) (auto simp: keys_of_put same_keys_def)

lemma authenticate_accepted:
  assumes "authenticate_packet pd env m i new_link op buf = Some (True, m1, b)"
  shows "(\<exists>wrap. read_control_auth (pd_now pd) (pd_mk pd) (to_verify_script (tm_opt m)) buf (ts_wrap (tm_session m ! i)) = Some (True, b, wrap))
    \<and> (new_link \<or> link_socket_actual_match (ks_remote_addr (ts_primary (tm_session m ! i))) (pd_from pd) = Some True)
    \<and> (\<forall>j. j \<noteq> i \<longrightarrow> tm_session m1 ! j = tm_session m ! j)"
  using assms by (cases rule: authenticate_cases) auto

lemma deliver_only:
  assumes "deliver_packet pd m i new_link burst op key_id sid b = Some m1" "j \<noteq> i"
  shows "tm_session m1 ! j = tm_session m ! j"
  using assms unfolding deliver_packet_def
  by (auto simp: Let_def Option.bind_eq_Some_conv soft_error_def put_session_def split: if_splits)

lemma route_index: "route_packet m op sid = Some (i, new_link) \<Longrightarrow> i = TM_ACTIVE \<or> i = TM_UNTRUSTED"
proof -
  assume r: "route_packet m op sid = Some (i, new_link)"
  have "find_session m sid = Some k \<Longrightarrow> k < TM_SIZE" for k by (auto simp: find_session_def find_Some_iff)
  then show ?thesis using r
    by (auto simp: route_packet_def tm_defs less_Suc_eq numeral_eq_Suc split: option.splits if_splits)
qed

lemma route_new: "route_packet m op sid = Some (i, new_link) \<Longrightarrow> new_link \<longleftrightarrow> find_session m sid = None"
  by (auto simp: route_packet_def split: option.splits if_splits)

lemma control_cases:
  assumes "pre_decrypt_control pd env m buf = Some (ret, m')"
  obtains (refused) "\<not> ret" "m' = soft_error m"
  | (unauthentic) i new_link op m1 b where "\<not> ret" "authenticate_packet pd env m i new_link op buf = Some (False, m1, b)" "m' = soft_error m1"
  | (accepted) i new_link op sid m1 b burst key_id where "ret" "route_packet m op sid = Some (i, new_link)"
      "op = uint (drop_bit P_OPCODE_SHIFT (first_byte buf))" "fst (session_id_read (snd (buf_advance buf 1))) = Some sid"
      "authenticate_packet pd env m i new_link op buf = Some (True, m1, b)"
      "deliver_packet pd m1 i new_link burst op key_id sid b = Some m'"
  using assms unfolding pre_decrypt_control_def
  by (fastforce simp: Let_def Option.bind_eq_Some_conv split: if_splits option.splits)

definition demo_pd :: pd_env where
  "demo_pd = \<lparr>pd_now = 10, pd_mk = (\<lambda>k e. crypt_ctx_null), pd_from = demo_addr\<rparr>"

definition demo_packet :: buffer where
  "demo_packet = mkbuf [] ([header_byte 0 P_CONTROL_V1] @ replicate 8 9 @ [0] @ be32 0 @ [1, 2, 3]) []"

lemma demo_accepted: "map_option fst (tls_pre_decrypt demo_pd demo_tls demo_multi demo_packet False) = Some True"
  by code_simp

text \<open>
  C5: Only an authentic control packet touches a session. If \<^verbatim>\<open>tls_pre_decrypt\<close> returns false on a
  control packet, every session id and every key state of the tunnel, primary and lame duck, is
  what it was, no session was counted, and the packet counted as one soft error. If it returns
  true, the packet's own opcode and session id route it to a session; it passed
  \<^verbatim>\<open>read_control_auth\<close> with the wrapping keys of that session; it came from the address of that
  session, unless no session has its session id, when it opened one; and no other session changed.
\<close>

theorem only_authentic_control_packets:
  assumes "tls_pre_decrypt pd env m buf floated = Some (ret, opt, m', buf', ad)"
    and "0 < blen buf" "uint (drop_bit P_OPCODE_SHIFT (first_byte buf)) \<notin> {P_DATA_V1, P_DATA_V2}"
  shows "opt = None \<and> blen buf' = 0
    \<and> (\<not> ret \<longrightarrow> keys_of m' = keys_of m \<and> tm_n_soft_errors m' = tm_n_soft_errors m + 1 \<and> tm_n_sessions m' = tm_n_sessions m)
    \<and> (ret \<longrightarrow> (\<exists>i new_link sid b wrap. fst (session_id_read (snd (buf_advance buf 1))) = Some sid
       \<and> route_packet m (uint (drop_bit P_OPCODE_SHIFT (first_byte buf))) sid = Some (i, new_link) \<and> i \<in> {TM_ACTIVE, TM_UNTRUSTED}
       \<and> (new_link \<longleftrightarrow> find_session m sid = None)
       \<and> read_control_auth (pd_now pd) (pd_mk pd) (to_verify_script (tm_opt m)) buf (ts_wrap (tm_session m ! i)) = Some (True, b, wrap)
       \<and> (new_link \<or> link_socket_actual_match (ks_remote_addr (ts_primary (tm_session m ! i))) (pd_from pd) = Some True)
       \<and> (\<forall>j. j \<noteq> i \<longrightarrow> tm_session m' ! j = tm_session m ! j)))"
proof -
  from assms have c: "pre_decrypt_control pd env m buf = Some (ret, m')" and o: "opt = None" "blen buf' = 0"
    by (auto simp: tls_pre_decrypt_def Let_def)
  have "\<not> ret \<longrightarrow> keys_of m' = keys_of m \<and> tm_n_soft_errors m' = tm_n_soft_errors m + 1 \<and> tm_n_sessions m' = tm_n_sessions m"
    using c
  proof (cases rule: control_cases)
    case (unauthentic i new_link op m1 b)
    then show ?thesis using authenticate_refused [OF unauthentic(2)] by (simp add: keys_of_def soft_error_def)
  qed (simp_all add: keys_of_def soft_error_def)
  moreover have "ret \<longrightarrow> (\<exists>i new_link sid b wrap. fst (session_id_read (snd (buf_advance buf 1))) = Some sid
       \<and> route_packet m (uint (drop_bit P_OPCODE_SHIFT (first_byte buf))) sid = Some (i, new_link) \<and> i \<in> {TM_ACTIVE, TM_UNTRUSTED}
       \<and> (new_link \<longleftrightarrow> find_session m sid = None)
       \<and> read_control_auth (pd_now pd) (pd_mk pd) (to_verify_script (tm_opt m)) buf (ts_wrap (tm_session m ! i)) = Some (True, b, wrap)
       \<and> (new_link \<or> link_socket_actual_match (ks_remote_addr (ts_primary (tm_session m ! i))) (pd_from pd) = Some True)
       \<and> (\<forall>j. j \<noteq> i \<longrightarrow> tm_session m' ! j = tm_session m ! j))"
    using c
  proof (cases rule: control_cases)
    case (accepted i new_link op sid m1 b burst key_id)
    show ?thesis
      using accepted(2)[unfolded accepted(3)] accepted(4) route_index [OF accepted(2)] route_new [OF accepted(2)]
        authenticate_accepted [OF accepted(5)] deliver_only [OF accepted(6)]
      by (intro impI exI [of _ i] exI [of _ new_link] exI [of _ sid] exI [of _ b]) auto
  qed simp_all
  ultimately show ?thesis using o by blast
qed

theorem only_authentic_control_packets_witness:
  "\<exists>m' ad i new_link sid b wrap. tls_pre_decrypt demo_pd demo_tls demo_multi demo_packet False = Some (True, None, m', demo_packet\<lparr>blen := 0\<rparr>, ad)
     \<and> fst (session_id_read (snd (buf_advance demo_packet 1))) = Some sid \<and> route_packet demo_multi P_CONTROL_V1 sid = Some (i, new_link)
     \<and> read_control_auth 10 (pd_mk demo_pd) None demo_packet (ts_wrap (tm_session demo_multi ! i)) = Some (True, b, wrap)"
proof -
  obtain opt m' buf' ad where t: "tls_pre_decrypt demo_pd demo_tls demo_multi demo_packet False = Some (True, opt, m', buf', ad)"
    using demo_accepted by auto
  have op: "0 < blen demo_packet" "uint (drop_bit P_OPCODE_SHIFT (first_byte demo_packet)) \<notin> {P_DATA_V1, P_DATA_V2}"
    by code_simp+
  have v1: "uint (drop_bit P_OPCODE_SHIFT (first_byte demo_packet)) = P_CONTROL_V1" by code_simp
  from op have "buf' = demo_packet\<lparr>blen := 0\<rparr>" using t by (auto simp: tls_pre_decrypt_def Let_def)
  moreover have "to_verify_script (tm_opt demo_multi) = None" "pd_now demo_pd = 10" by code_simp+
  ultimately show ?thesis using t only_authentic_control_packets [OF t op, unfolded v1] by auto
qed

subsection \<open>A key that could not be generated\<close>

text \<open>
  When the keys of an authenticated session cannot be generated, \<^verbatim>\<open>tls_multi_process\<close> sets the
  key to \<^verbatim>\<open>S_ERROR\<close> after its loop over the sessions, outside the code that resets a session in
  error. From then on the loop skips the session, which is therefore never reset and never counted as
  an error, and the next authentic control packet of the peer for it fails the assertion
  \<^verbatim>\<open>ks->state != S_ERROR\<close> of \<^verbatim>\<open>tls_pre_decrypt\<close>: the process ends.
\<close>

theorem failed_key_generation_is_not_recovered:
  assumes "length (tm_session m) = TM_SIZE"
    and "ks_state (get_primary_key m) = S_ACTIVE" "ks_authenticated (get_primary_key m) = KS_AUTH_TRUE"
    and "tls_session_generate_data_channel_keys tls (tm_opt m) (tm_session m ! TM_ACTIVE) = Some (False, opt, s1)"
  shows "\<exists>m1. generate_session tls TM_ACTIVE m = Some m1 \<and> ks_state (get_primary_key m1) = S_ERROR
    \<and> (\<forall>env mp. pr_multi (mp_proc mp) = m1 \<longrightarrow> multi_session env TM_ACTIVE mp = Some mp)
    \<and> (\<forall>pd op new_link burst key_id sid buf m2 b. authenticate_packet pd tls m1 TM_ACTIVE new_link op buf = Some (True, m2, b)
        \<longrightarrow> deliver_packet pd m2 TM_ACTIVE new_link burst op key_id sid b = None)"
proof -
  let ?e = "s1\<lparr>ts_primary := (ts_primary s1)\<lparr>ks_authenticated := KS_AUTH_FALSE, ks_state := S_ERROR\<rparr>\<rparr>"
  define m1 where "m1 = put_session TM_ACTIVE ?e (m\<lparr>tm_opt := opt\<rparr>)"
  have g: "generate_session tls TM_ACTIVE m = Some m1"
    using assms(2-4) by (simp add: generate_session_def get_primary_key_def Let_def m1_def)
  have s: "tm_session m1 ! TM_ACTIVE = ?e"
    using assms(1) by (simp add: m1_def put_session_def tm_defs)
  then have st: "ks_state (ts_primary (tm_session m1 ! TM_ACTIVE)) = S_ERROR" by simp
  have skip: "multi_session env TM_ACTIVE mp = Some mp" if "pr_multi (mp_proc mp) = m1" for env and mp :: "'a mproc"
    using that st by (simp add: multi_session_def ses_def Let_def state_defs)
  have dead: "deliver_packet pd m2 TM_ACTIVE new_link burst op key_id sid b = None"
    if "authenticate_packet pd tls m1 TM_ACTIVE new_link op buf = Some (True, m2, b)" for pd op new_link burst key_id sid buf m2 b
  proof -
    have na: "\<not> TLS_AUTHENTICATED (tm_opt m1) (ts_primary (tm_session m1 ! TM_ACTIVE))"
      unfolding TLS_AUTHENTICATED_def st by (simp add: state_defs)
    have l: "TM_ACTIVE < length (tm_session m1)" using assms(1) by (simp add: m1_def tm_defs)
    from that have "ks_state (ts_primary (tm_session m2 ! TM_ACTIVE)) = S_ERROR"
      unfolding authenticate_packet_def using na st l
      by (auto simp: Let_def Option.bind_eq_Some_conv put_session_def tm_defs split: if_splits)
    then show ?thesis by (simp add: deliver_packet_def Let_def)
  qed
  show ?thesis
    using g st skip dead by (intro exI [of _ m1]) (simp add: get_primary_key_def)
qed

definition no_prf_tls :: "unit tls_env" where
  "no_prf_tls = demo_tls\<lparr>te_key_lib := (\<lambda>_. ex_lib\<lparr>kl_prf := (\<lambda>seed secret n. None)\<rparr>)\<rparr>"

definition active_multi :: "unit tls_multi" where
  "active_multi = put_session TM_ACTIVE (tls_session_clear\<lparr>ts_session_id := replicate 8 5, ts_key_id := 1,
     ts_primary := demo_ks\<lparr>ks_state := S_ACTIVE, ks_authenticated := KS_AUTH_TRUE\<rparr>\<rparr>) demo_multi"

theorem failed_key_generation_is_not_recovered_witness:
  "(\<exists>m1. generate_session no_prf_tls TM_ACTIVE active_multi = Some m1 \<and> ks_state (get_primary_key m1) = S_ERROR)
   \<and> tls_pre_decrypt demo_pd no_prf_tls (the (generate_session no_prf_tls TM_ACTIVE active_multi)) demo_packet False = None"
proof -
  have a: "length (tm_session active_multi) = TM_SIZE" "ks_state (get_primary_key active_multi) = S_ACTIVE"
    "ks_authenticated (get_primary_key active_multi) = KS_AUTH_TRUE"
    by code_simp+
  have "map_option fst (tls_session_generate_data_channel_keys no_prf_tls (tm_opt active_multi) (tm_session active_multi ! TM_ACTIVE)) = Some False"
    by code_simp
  then obtain opt s1 where g: "tls_session_generate_data_channel_keys no_prf_tls (tm_opt active_multi) (tm_session active_multi ! TM_ACTIVE)
      = Some (False, opt, s1)" by auto
  have "tls_pre_decrypt demo_pd no_prf_tls (the (generate_session no_prf_tls TM_ACTIVE active_multi)) demo_packet False = None \<longleftrightarrow> True"
    by code_simp
  with failed_key_generation_is_not_recovered [OF a g] show ?thesis by blast
qed

end
