(* ===== verification/Tls_Import.thy ===== *)
theory Tls_Import
  imports Tls_Dispatch
begin

text \<open>
  How the options that were negotiated or pulled reach the tunnel: \<^verbatim>\<open>tls_session_update_crypto_params\<close>
  of \<^verbatim>\<open>ssl.c\<close>, which the client calls from \<^verbatim>\<open>do_deferred_options\<close> and \<^verbatim>\<open>do_deferred_p2p_ncp\<close> (\<^verbatim>\<open>init.c\<close>)
  and the server from \<^verbatim>\<open>multi_client_generate_tls_keys\<close> (\<^verbatim>\<open>multi.c\<close>) before the state of the connection
  becomes \<^verbatim>\<open>CAS_CONNECT_DONE\<close>. It sets the cipher and the frame sizes of the data channel and generates the keys.

  The key type of a cipher and its properties are library code: members of \<open>crypto_import\<close>. The
  library environment stands for the library with the flags and the key type that were imported.
\<close>

subsection \<open>The list of ciphers\<close>

text \<open>The tokens \<^verbatim>\<open>strtok\<close> finds: the longest pieces without the delimiter, none of them empty.\<close>

fun strtok_tokens :: "char \<Rightarrow> string \<Rightarrow> string \<Rightarrow> string list" where
  "strtok_tokens delim cur [] = (if cur = [] then [] else [cur])"
| "strtok_tokens delim cur (c # cs) =
     (if c = delim then (if cur = [] then [] else [cur]) @ strtok_tokens delim [] cs
      else strtok_tokens delim (cur @ [c]) cs)"

definition tls_item_in_cipher_list :: "string \<Rightarrow> string \<Rightarrow> bool" where
  "tls_item_in_cipher_list item ciphers \<longleftrightarrow> item \<in> set (strtok_tokens (CHR '':'') [] ciphers)"

lemma strtok_tokens_clean: "delim \<notin> set cur \<Longrightarrow> t \<in> set (strtok_tokens delim cur s) \<Longrightarrow> t \<noteq> [] \<and> delim \<notin> set t"
  by (induction delim cur s rule: strtok_tokens.induct) (auto split: if_splits)

lemma item_in_joined:
  assumes "item \<noteq> []" "CHR '':'' \<notin> set item"
  shows "tls_item_in_cipher_list item (before @ CHR '':'' # item @ CHR '':'' # after)"
proof -
  have a: "strtok_tokens d cur (t @ d # r) = (if cur @ t = [] then [] else [cur @ t]) @ strtok_tokens d [] r"
    if "d \<notin> set t" for d cur t r
    using that by (induction t arbitrary: cur) auto
  have "item \<in> set (strtok_tokens (CHR '':'') cur (before @ CHR '':'' # item @ CHR '':'' # after))" for cur
    using assms by (induction before arbitrary: cur) (simp_all add: a)
  then show ?thesis by (simp add: tls_item_in_cipher_list_def)
qed

subsection \<open>Crypto parameters\<close>

text \<open>Of the options, what is read; \<open>oi_config_ciphername\<close> is the session's.\<close>

record crypto_import =
  oi_ciphername :: string
  oi_config_ciphername :: string
  oi_ncp_ciphers :: string
  oi_enable_ncp_fallback :: bool
  oi_key_type :: "string \<Rightarrow> key_type"
  oi_insecure :: "string \<Rightarrow> bool"
  oi_ofb_cfb :: "string \<Rightarrow> bool"
  oi_replay :: bool
  oi_link_mtu_defined :: bool
  oi_link_mtu :: int
  oi_tun_mtu_defined :: bool
  oi_tun_mtu :: int
  oi_mssfix :: int
  oi_fragment :: int

text \<open>The frame of the data channel, and that of the fragmentation where it is on.\<close>

type_synonym data_frames = "frame \<times> frame option"

definition update_data_frames :: "crypto_import \<Rightarrow> data_frames \<Rightarrow> data_frames option" where
  "update_data_frames oi frs =
     (let kt = oi_key_type oi (oi_ciphername oi); long_form = oi_ofb_cfb oi (oi_ciphername oi);
          adjust = (\<lambda>f. crypto_adjust_frame_parameters (frame_remove_from_extra_frame crypto_max_overhead f) kt
                          (oi_replay oi) long_form)
      in do {
           f1 \<leftarrow> frame_finalize (adjust (fst frs)) (oi_link_mtu_defined oi) (oi_link_mtu oi) (oi_tun_mtu_defined oi) (oi_tun_mtu oi);
           f2 \<leftarrow> frame_init_mssfix f1 (oi_mssfix oi);
           g2 \<leftarrow> (case snd frs of
                   None \<Rightarrow> Some None
                 | Some g \<Rightarrow> map_option Some (frame_set_mtu_dynamic (adjust g) (oi_fragment oi) SET_MTU_UPPER_BOUND));
           Some (f2, g2)
         })"

definition tls_session_update_crypto_params_do_work ::
    "'tls tls_env \<Rightarrow> crypto_import \<Rightarrow> data_frames \<Rightarrow> tls_options \<Rightarrow> 'tls tls_session
       \<Rightarrow> (bool \<times> data_frames \<times> tls_options \<times> 'tls tls_session) option" where
  "tls_session_update_crypto_params_do_work env oi frs opt s =
     (if kb_initialized (ks_key_ctx_bi (ts_primary s)) then Some (True, frs, opt, s)
      else if oi_ciphername oi = oi_config_ciphername oi
      then map_option (\<lambda>(ok, opt1, s1). (ok, frs, opt1, s1)) (tls_session_generate_data_channel_keys env opt s)
      else do {
             frs1 \<leftarrow> update_data_frames oi frs;
             (ok, opt1, s1) \<leftarrow> tls_session_generate_data_channel_keys env
                               (opt\<lparr>to_cipher_insecure := oi_insecure oi (oi_ciphername oi)\<rparr>) s;
             Some (ok, frs1, opt1, s1)
           })"

text \<open>The result: whether it succeeded, the name of the cipher, the frames, the options and the session.\<close>

definition tls_session_update_crypto_params ::
    "'tls tls_env \<Rightarrow> crypto_import \<Rightarrow> data_frames \<Rightarrow> tls_options \<Rightarrow> 'tls tls_session
       \<Rightarrow> (bool \<times> string \<times> data_frames \<times> tls_options \<times> 'tls tls_session) option" where
  "tls_session_update_crypto_params env oi frs opt s =
     (let cipher_allowed_as_fallback = (oi_enable_ncp_fallback oi \<and> oi_ciphername oi = oi_config_ciphername oi)
      in if \<not> to_server opt \<and> \<not> cipher_allowed_as_fallback \<and> \<not> tls_item_in_cipher_list (oi_ciphername oi) (oi_ncp_ciphers oi)
         then Some (False, oi_config_ciphername oi, frs, opt, s)
         else map_option (\<lambda>(ok, r). (ok, oi_ciphername oi, r)) (tls_session_update_crypto_params_do_work env oi frs opt s))"

text \<open>The call for the active session of a tunnel.\<close>

definition import_crypto_params ::
    "'tls tls_env \<Rightarrow> crypto_import \<Rightarrow> data_frames \<Rightarrow> 'tls tls_multi \<Rightarrow> (bool \<times> string \<times> data_frames \<times> 'tls tls_multi) option" where
  "import_crypto_params env oi frs m =
     map_option (\<lambda>(ok, name, frs1, opt, s). (ok, name, frs1, put_session TM_ACTIVE s (m\<lparr>tm_opt := opt\<rparr>)))
       (tls_session_update_crypto_params env oi frs (tm_opt m) (tm_session m ! TM_ACTIVE))"

subsection \<open>What it changes\<close>

text \<open>A client takes no cipher it did not offer, and refusing one changes nothing of the tunnel.\<close>

lemma foreign_cipher_refused:
  assumes "\<not> to_server opt" "\<not> tls_item_in_cipher_list (oi_ciphername oi) (oi_ncp_ciphers oi)"
    "oi_ciphername oi \<noteq> oi_config_ciphername oi"
  shows "tls_session_update_crypto_params env oi frs opt s = Some (False, oi_config_ciphername oi, frs, opt, s)"
  using assms by (simp add: tls_session_update_crypto_params_def)

lemma generate_keys_cases:
  assumes "tls_session_generate_data_channel_keys env opt s = Some (ok, opt1, s1)"
  shows "to_transition_window opt1 = to_transition_window opt \<and> ts_session_id s1 = ts_session_id s \<and> ts_key_id s1 = ts_key_id s
    \<and> ts_lame s1 = ts_lame s \<and> ks_key_id (ts_primary s1) = ks_key_id (ts_primary s)
    \<and> ks_send_reliable (ts_primary s1) = ks_send_reliable (ts_primary s)
    \<and> ks_rec_reliable (ts_primary s1) = ks_rec_reliable (ts_primary s)
    \<and> ks_state (ts_primary s1) = (if ok then S_GENERATED_KEYS else ks_state (ts_primary s))"
  using assms
  by (auto simp: tls_session_generate_data_channel_keys_def Let_def split: if_splits option.splits prod.splits bool.splits)

text \<open>The session keeps its identity and its windows; where keys are generated its key is ready for data.\<close>

lemma update_crypto_cases:
  assumes "tls_session_update_crypto_params env oi frs opt s = Some (ok, name, frs1, opt1, s1)"
  shows "to_transition_window opt1 = to_transition_window opt \<and> ts_session_id s1 = ts_session_id s \<and> ts_key_id s1 = ts_key_id s
    \<and> ts_lame s1 = ts_lame s \<and> ks_key_id (ts_primary s1) = ks_key_id (ts_primary s)
    \<and> ks_send_reliable (ts_primary s1) = ks_send_reliable (ts_primary s)
    \<and> ks_rec_reliable (ts_primary s1) = ks_rec_reliable (ts_primary s)
    \<and> (ks_state (ts_primary s1) = ks_state (ts_primary s) \<or> ok \<and> ks_state (ts_primary s1) = S_GENERATED_KEYS)"
proof -
  have "opt1 = opt \<and> s1 = s \<or> (\<exists>opt0. tls_session_generate_data_channel_keys env opt0 s = Some (ok, opt1, s1)
      \<and> to_transition_window opt0 = to_transition_window opt)"
    using assms unfolding tls_session_update_crypto_params_def tls_session_update_crypto_params_do_work_def Let_def
    by (auto simp: Option.bind_eq_Some_conv split: if_splits)
  then show ?thesis
  proof (elim disjE exE conjE)
    fix opt0
    assume g: "tls_session_generate_data_channel_keys env opt0 s = Some (ok, opt1, s1)"
      "to_transition_window opt0 = to_transition_window opt"
    show ?thesis using generate_keys_cases [OF g(1)] g(2) by simp
  qed simp
qed

end
