(* ===== verification/Tls_Connect.thy ===== *)
theory Tls_Connect
  imports Tls_Import
begin

text \<open>
  A client's tunnel that comes up, evaluated on the definitions of the calls themselves: the hard
  reset is sent, the server's answer is received and acknowledged, the key exchange messages of
  \<open>Key_Method\<close> are written and read, the options the server pushed are imported, the data channel
  keys are generated and the connection is done. So the state machine of \<open>Tls_Process\<close> does reach the
  end its invariant is about.
\<close>

subsection \<open>The client and its peer\<close>

definition client_opts :: tls_options where
  "client_opts = demo_opts_server\<lparr>to_server := False, to_mode_server := False, to_single_session := True\<rparr>"

text \<open>A TLS library that takes what it is given and hands over the server's key exchange message.\<close>

definition client_tls :: "unit tls_env" where
  "client_tls = demo_tls\<lparr>te_read_pt := (\<lambda>t n. (Bio_data (km_wire ex_server (ex_source True)), t)),
     te_key_lib := (\<lambda>_. ex_lib\<lparr>kl_use_export := True, kl_export := Some (replicate 256 9)\<rparr>)\<rparr>"

definition client_env :: "unit proc_env" where
  "client_env = \<lparr>pe_tls = client_tls, pe_clock = (\<lambda>n. 100), pe_prng = (\<lambda>n. replicate (nat n) 0), pe_rand = ex_rand,
     pe_km2_opts = ex_client, pe_km2_env = ex_env False, pe_deauth = False, pe_sids = (\<lambda>n. [replicate 8 7]),
     pe_auth = \<lparr>ae_plugin = (\<lambda>n. None), ae_script = (\<lambda>n. None), ae_man = (\<lambda>n. ACF_DISABLED)\<rparr>, pe_lsa_actual = demo_addr\<rparr>"

text \<open>The server's hard reset, which acknowledges the client's.\<close>

definition server_reset :: buffer where
  "server_reset = mkbuf [] ([header_byte 0 P_CONTROL_HARD_RESET_SERVER_V2] @ replicate 8 9 @ [1] @ be32 0 @ replicate 8 5 @ be32 0) []"

definition pushed_cipher :: crypto_import where
  "pushed_cipher = \<lparr>oi_ciphername = ''AES-256-GCM'', oi_config_ciphername = ''BF-CBC'', oi_ncp_ciphers = ''AES-256-GCM:AES-128-GCM'',
     oi_enable_ncp_fallback = False, oi_key_type = (\<lambda>_. \<lparr>kt_cipher = None, kt_hmac_length = 0\<rparr>), oi_insecure = (\<lambda>_. False),
     oi_ofb_cfb = (\<lambda>_. False), oi_replay = True, oi_link_mtu_defined = False, oi_link_mtu = 0, oi_tun_mtu_defined = True,
     oi_tun_mtu = 1500, oi_mssfix = 1450, oi_fragment = 0\<rparr>"

subsection \<open>Its calls\<close>

definition client_fresh :: "unit tls_multi option" where
  "client_fresh = tls_multi_init_finalize client_tls [replicate 8 5] [] demo_frame (tls_multi_init client_opts)"

definition client_process :: "unit tls_multi \<Rightarrow> unit tls_multi option" where
  "client_process m = map_option (\<lambda>(st, l, a, w, m'). m') (tls_multi_process client_env m clear_buf None 60)"

definition server_pd :: pd_env where
  "server_pd = \<lparr>pd_now = 101, pd_mk = (\<lambda>k e. crypt_ctx_null), pd_from = demo_addr\<rparr>"

definition client_receive :: "unit tls_multi \<Rightarrow> unit tls_multi option" where
  "client_receive m = map_option (\<lambda>(r, k, m', b, ad). m') (tls_pre_decrypt server_pd client_tls m server_reset False)"

definition client_import :: "unit tls_multi \<Rightarrow> unit tls_multi option" where
  "client_import m = map_option (\<lambda>(ok, name, fr, m'). m'\<lparr>tm_multi_state := CAS_CONNECT_DONE\<rparr>)
     (import_crypto_params client_tls pushed_cipher (demo_frame, None) m)"

definition connected :: "unit tls_multi option" where
  "connected = client_fresh \<bind> client_process \<bind> client_receive \<bind> client_process \<bind> client_process \<bind> client_import"

subsection \<open>What they make of the tunnel\<close>

lemmas buffer_run =
  be32_def mem_read_def mem_write_def un_be16_def un_be32_def be16_def block_def buf_advance_def buf_bptr_def buf_clear_def
  buf_copy_def buf_defined_def buf_forward_capacity_def buf_init_def buf_len_def buf_prepend_def buf_read_def buf_read_alloc_def
  buf_read_u16_def buf_read_u8_def buf_safe_def buf_size_valid_def buf_sub_def buf_sub_commit_def buf_valid_def buf_write_def
  buf_write_alloc_def buf_write_alloc_prepend_def buf_write_prepend_def buf_write_u16_def buf_write_u32_def buf_write_u8_def
  clear_buf_def content_def mkbuf_def poke_def size_t_of_def BUF_SIZE_MAX_def alloc_buf_def FRAME_HEADROOM_def
  FRAME_HEADROOM_BASE_def frame_add_to_extra_frame_def frame_finalize_def frame_headroom_def frame_init_mssfix_def
  frame_remove_from_extra_frame_def frame_set_mtu_dynamic_def PAYLOAD_ALIGN_def PAYLOAD_SIZE_DYNAMIC_def SET_MTU_TUN_def
  SET_MTU_UPPER_BOUND_def BUF_SIZE_def TUN_LINK_DELTA_def TUN_MTU_MIN_def TUN_MTU_SIZE_def c_int_def circ_alloc_def
  MAX_SEQ_BACKTRACK_def MAX_TIME_BACKTRACK_def packet_id_close_to_wrapping_def packet_id_init_def packet_id_size_def
  packet_id_zero_def PACKET_ID_WRAP_TRIGGER_def

lemmas reliable_run =
  ACK_SIZE_def best_to_send_def due_def entry_zero_def idxs_def N_ACK_RETRANSMIT_def min_active_id_def purge_entry_def
  purge_pid_def reliable_ack_acknowledge_packet_id_def reliable_ack_empty_def reliable_ack_packet_id_present_def
  reliable_ack_read_def reliable_ack_read_packet_id_def reliable_ack_write_def reliable_can_get_def reliable_can_send_def
  reliable_empty_def reliable_get_buf_def reliable_get_buf_output_sequenced_def reliable_get_buf_sequenced_def reliable_init_def
  reliable_mark_active_incoming_def reliable_mark_active_outgoing_def reliable_mark_deleted_def reliable_not_replay_def
  reliable_pid_in_range1_def reliable_pid_in_range2_def reliable_pid_min_def reliable_schedule_now_def reliable_send_def
  reliable_send_purge_def reliable_send_timeout_def reliable_set_timeout_def reliable_wont_break_sequentiality_def
  session_id_defined_def session_id_equal_def session_id_read_def session_id_write_def session_id_write_prepend_def
  upd_entry_def RELIABLE_ACK_SIZE_def RELIABLE_CAPACITY_def BIG_TIMEOUT_def SID_SIZE_def ack_clear_def ack_push_def bio_read_def
  bio_write_post_def deliver_ciphertext_def input_ciphertext_def output_ciphertext_def header_byte_def read_control_auth_def
  P_ACK_V1_def P_CONTROL_HARD_RESET_CLIENT_V2_def P_CONTROL_HARD_RESET_CLIENT_V3_def skip_header_def
  P_CONTROL_HARD_RESET_SERVER_V2_def P_CONTROL_SOFT_RESET_V1_def P_CONTROL_V1_def P_DATA_V1_def write_control_auth_def
  P_DATA_V2_def P_FIRST_OPCODE_def P_KEY_ID_MASK_def P_LAST_OPCODE_def P_OPCODE_SHIFT_def

lemmas key_run =
  bytes_of_def c_str_def check_key_def comma_def KEY_METHOD_2_def KEY_METHOD_MASK_def ex_client_def ex_env_def ex_lib_def
  ex_rand_def ex_server_def ex_source_def MAX_HMAC_KEY_LENGTH_def generate_key_expansion_def
  generate_key_expansion_tls_export_def init_key_contexts_def init_key_ctx_bi_def key_ctx_update_implicit_iv_def key_is_zero_def
  key_method_2_read_def key_method_2_write_def key_source2_clear_def key_source2_randomize_write_def key_source2_read_def
  key_source_clear_def keys_of_bytes_def km2_peer_fields_def km_wire_def OPENVPN_AEAD_MIN_IV_LEN_def OPENVPN_MAX_IV_LENGTH_def
  opt_wire_def push_peer_info_def random_bytes_to_buf_def randomize_tail_def read_randoms_def read_string_def
  read_string_alloc_def set_half_def source_wire_def str_wire_def strlen_def sublist_at_def write_string_def write_user_pass_def
  TLS_CHANNEL_BUF_SIZE_def TLS_OPTIONS_LEN_def USER_PASS_LEN_def andw_def auth_checks_def auth_user_def
  crypto_adjust_frame_parameters_def crypto_max_overhead_def OPENVPN_MAX_IV_def space_def

lemmas session_run =
  cache_intervals_def compute_earliest_wakeup_def crypt_ctx_null_def demo_addr_def demo_frame_def demo_opts_server_def
  demo_tls_def KEY_SCAN_SIZE_def flush_payload_buffer_def get_key_scan_def get_primary_key_def is_hard_reset_method2_def
  AF_INET_def key_ctx_bi_null_def key_state_clear_def key_state_init_def key_state_test_auth_control_file_def
  lame_duck_must_die_def link_socket_actual_defined_def put_session_def reliable_null_def AF_INET6_def
  tls_authentication_status_def tls_authentication_status_use_cache_def tls_multi_init_def tls_multi_init_finalize_def
  tls_obj_write_def tls_session_clear_def tls_session_init_def tls_wrap_clear_def upd_key_scan_def update_key_auth_status_def
  ASSERT_def S_ACTIVE_def S_ERROR_def S_GENERATED_KEYS_def S_GOT_KEY_def S_INITIAL_def S_PRE_START_def S_SENT_KEY_def
  S_START_def S_UNDEF_def TLS_AUTHENTICATED_def TLS_RELIABLE_N_REC_BUFFERS_def TLS_RELIABLE_N_SEND_BUFFERS_def TM_ACTIVE_def
  TM_LAME_DUCK_def TM_SIZE_def TM_UNTRUSTED_def CONTROL_SEND_ACK_MAX_def addr_clear_def addr_defined_def auth_status_null_def

lemmas process_run =
  bindo_def FULL_SYNC_def count_hard_error_def kill_lame_session_def multi_finish_def multi_session_def note_change_def
  proc_enter_def proc_leave_def proc_round_def proc_wakeup_def promote_session_def PROC_ROUNDS_def round_body_def
  seg_deliver_def seg_established_def seg_initial_def seg_output_def seg_read_plaintext_def seg_receive_key_def seg_send_def
  seg_send_key_def seg_start_def seg_timed_out_def seg_write_plaintext_def send_acks_def ses_def set_prim_def set_ses_def
  soft_reset_due_def tls_limit_reneg_bytes_def tls_multi_process_def tls_process_def tls_session_generate_data_channel_keys_def
  write_packet_def all_sessions_def andthen_def auth_deferred_expire_window_def deliver_packet_def find_session_def
  first_byte_def pre_decrypt_control_def route_packet_def tls_pre_decrypt_def wants_burst_def wrong_direction_def
  accept_payload_def authenticate_packet_def import_crypto_params_def tls_item_in_cipher_list_def
  tls_session_update_crypto_params_def tls_session_update_crypto_params_do_work_def update_data_frames_def

lemmas client_run = client_opts_def client_tls_def client_env_def server_reset_def pushed_cipher_def client_fresh_def
  client_process_def server_pd_def client_receive_def client_import_def connected_def

text \<open>The lists of this run whose elements are looked at one by one; longer ones stay closed.\<close>

lemma short_replicate:
  "replicate 3 x = [x, x, x]" "replicate 4 x = [x, x, x, x]" "replicate 8 x = [x, x, x, x, x, x, x, x]"
  by (simp_all add: numeral_eq_Suc)

lemma proc_loop_step:
  "0 < n \<Longrightarrow> proc_loop n env i p = (case proc_round env i p of
     Some (Go q) \<Rightarrow> if pr_change q then proc_loop (n - 1) env i q else Some (Stop q)
   | r \<Rightarrow> r)"
  by (cases n) (auto split: option.split outcome.split)

lemma connected_keys:
  "map_option (\<lambda>m. let k = ts_primary (tm_session m ! TM_ACTIVE) in
     (ks_state k, ks_authenticated k, kb_initialized (ks_key_ctx_bi k), tm_multi_state m, tm_n_soft_errors m)) connected
   = Some (S_GENERATED_KEYS, KS_AUTH_TRUE, True, CAS_CONNECT_DONE, 0)"
  by (simp add: client_run buffer_run reliable_run key_run session_run process_run short_replicate proc_loop_step Let_def
      upt_rec_numeral upt_conv_Cons list_all_iff)

end
