(* ===== verification/Tls_Loop.thy ===== *)
theory Tls_Loop
  imports Tls_Process
begin

text \<open>
  The loop of \<^verbatim>\<open>tls_process\<close> ends. \<open>work\<close> bounds what a session can still do in one call: the
  states ahead of it on the way to a key, in the order its role takes them, the received packets
  not yet delivered, the free places of the send window and the two plaintext buffers. A round
  that notes a change lowers it.
\<close>

subsection \<open>Counting the entries of a window\<close>

definition rel_shape :: "reliable \<Rightarrow> bool" where
  "rel_shape rel \<longleftrightarrow> rl_size rel \<le> RELIABLE_CAPACITY \<and> nat (rl_size rel) \<le> length (rl_array rel)"

definition n_active :: "reliable \<Rightarrow> nat" where
  "n_active rel = length (filter (\<lambda>i. re_active (slot rel i)) (idxs rel))"

definition n_free :: "reliable \<Rightarrow> nat" where
  "n_free rel = length (filter (\<lambda>i. \<not> re_active (slot rel i)) (idxs rel))"

lemma count_bound: "rel_shape rel \<Longrightarrow> n_active rel \<le> 8" "rel_shape rel \<Longrightarrow> n_free rel \<le> 8"
  by (auto simp: n_active_def n_free_def rel_shape_def RELIABLE_CAPACITY_def idxs_def
      intro: order_trans [OF length_filter_le])

lemma count_one_less:
  assumes "j < n" "P j" "\<not> Q j" "\<And>i. i \<noteq> j \<Longrightarrow> P i = Q i"
  shows "Suc (length (filter Q [0..<n])) = length (filter P [0..<n])"
proof -
  have card: "length (filter R [0..<n]) = card {i. i < n \<and> R i}" for R
    by (subst distinct_card [symmetric]) (simp_all add: conj_commute Collect_conj_eq lessThan_def atLeastLessThan_def Int_commute)
  have "{i. i < n \<and> P i} = insert j {i. i < n \<and> Q i}" using assms by (auto; metis)
  then show ?thesis using assms(3) by (simp add: card)
qed

lemma reliable_init_shape: "reliable_init sz off n hold = Some rel \<Longrightarrow> rel_shape rel"
  by (auto simp: reliable_init_def rel_shape_def RELIABLE_CAPACITY_def split: if_splits option.splits prod.splits bool.splits)

definition same_active :: "reliable \<Rightarrow> reliable \<Rightarrow> bool" where
  "same_active r r1 \<longleftrightarrow> rel_shape r1 \<and> rl_size r1 = rl_size r \<and> length (rl_array r1) = length (rl_array r)
     \<and> (\<forall>i. re_active (slot r1 i) = re_active (slot r i))"

lemma same_active_counts: "same_active r r1 \<Longrightarrow> rel_shape r1 \<and> n_active r1 = n_active r \<and> n_free r1 = n_free r"
  by (simp add: same_active_def n_active_def n_free_def idxs_def)

lemma same_active_refl: "rel_shape r \<Longrightarrow> same_active r r"
  by (simp add: same_active_def)

lemma same_active_trans: "same_active r r1 \<Longrightarrow> same_active r1 r2 \<Longrightarrow> same_active r r2"
  by (simp add: same_active_def)

lemma upd_entry_slot_active:
  "re_active (slot (upd_entry r j f) i) =
     (if i = j \<and> j < length (rl_array r) then re_active (f (slot r j)) else re_active (slot r i))"
  by (cases "j < length (rl_array r)") (simp_all add: upd_entry_def nth_list_update list_update_beyond)

lemma same_active_upd:
  assumes "rel_shape r" "\<And>e. re_active (f e) = re_active e"
  shows "same_active r (upd_entry r j f)"
  unfolding same_active_def using assms by (auto simp: upd_entry_slot_active rel_shape_def)

lemma get_buf_shape:
  assumes "rel_shape r" "reliable_get_buf r = Some (j, r1)"
  shows "same_active r r1 \<and> (\<forall>k. j = Some k \<longrightarrow> k < slots r \<and> \<not> re_active (slot r1 k))"
proof (cases "find (\<lambda>i. \<not> re_active (rl_array r ! i)) (idxs r)")
  case None
  with assms show ?thesis by (simp add: reliable_get_buf_def same_active_refl)
next
  case (Some i)
  then have i: "i < slots r" "\<not> re_active (slot r i)" by (auto simp: find_Some_iff idxs_def)
  from assms(2) Some obtain b where b: "j = Some i" "r1 = upd_entry r i (\<lambda>e. e\<lparr>re_buf := b\<rparr>)"
    by (auto simp: reliable_get_buf_def split: prod.splits bool.splits)
  have "same_active r r1" unfolding b(2) by (rule same_active_upd [OF assms(1)]) simp
  with i b show ?thesis by (simp add: upd_entry_slot_active)
qed

lemma get_buf_output_shape:
  assumes "rel_shape r" "reliable_get_buf_output_sequenced r = Some (j, r1)"
  shows "same_active r r1 \<and> (\<forall>k. j = Some k \<longrightarrow> k < slots r \<and> \<not> re_active (slot r1 k))"
  using assms get_buf_shape [OF assms(1)] same_active_refl [OF assms(1)]
  by (auto simp: reliable_get_buf_output_sequenced_def split: option.splits if_splits)

lemma mark_outgoing_shape:
  assumes "rel_shape r" "reliable_mark_active_outgoing r k op = Some r1" "\<not> re_active (slot r k)"
  shows "rel_shape r1 \<and> Suc (n_free r1) = n_free r"
proof -
  from assms(2) obtain pid b where k: "k < slots r" and r1: "r1 = upd_entry (r\<lparr>rl_packet_id := pid + 1\<rparr>) k
      (\<lambda>e. e\<lparr>re_packet_id := pid, re_buf := b, re_active := True, re_opcode := op, re_next_try := 0,
         re_timeout := rl_initial_timeout r\<rparr>)"
    by (auto simp: reliable_mark_active_outgoing_def Let_def split: prod.splits bool.splits if_splits)
  have len: "k < length (rl_array r)" using k assms(1) by (simp add: rel_shape_def)
  have "Suc (length (filter (\<lambda>i. \<not> re_active (slot r1 i)) [0..<slots r])) = length (filter (\<lambda>i. \<not> re_active (slot r i)) [0..<slots r])"
    using k len assms(3) by (intro count_one_less [of k]) (auto simp: r1 upd_entry_slot_active)
  then show ?thesis using assms(1) by (simp add: n_free_def idxs_def r1 rel_shape_def)
qed

lemma mark_deleted_shape:
  assumes "rel_shape r" "reliable_mark_deleted r k inc = Some r1" "re_active (slot r k)"
  shows "rel_shape r1 \<and> Suc (n_active r1) = n_active r"
proof -
  let ?r = "upd_entry r k (\<lambda>e. e\<lparr>re_active := False\<rparr>)"
  from assms(2) have k: "k < slots r" and r1: "r1 = (if inc then ?r\<lparr>rl_packet_id := re_packet_id (slot r k) + 1\<rparr> else ?r)"
    by (auto simp: reliable_mark_deleted_def Let_def split: if_splits)
  have eq: "rl_size r1 = rl_size r" "slot r1 i = slot ?r i" "length (rl_array r1) = length (rl_array r)" for i
    unfolding r1 by simp_all
  have len: "k < length (rl_array r)" using k assms(1) by (simp add: rel_shape_def)
  have "Suc (length (filter (\<lambda>i. re_active (slot r1 i)) [0..<slots r])) = length (filter (\<lambda>i. re_active (slot r i)) [0..<slots r])"
    using k len assms(3) by (intro count_one_less [of k]) (auto simp: eq upd_entry_slot_active)
  then show ?thesis using assms(1) by (simp add: n_active_def idxs_def eq rel_shape_def)
qed

abbreviation with_buf :: "reliable \<Rightarrow> nat \<Rightarrow> buffer \<Rightarrow> reliable" where
  "with_buf r k b \<equiv> upd_entry r k (\<lambda>e. e\<lparr>re_buf := b\<rparr>)"

lemma with_buf_active: "rel_shape r \<Longrightarrow> same_active r (with_buf r k b)"
  by (rule same_active_upd) simp_all

lemma output_cases:
  assumes "output_ciphertext bio maxlen op r = Some (seg, r1)"
  obtains (idle) r0 where "reliable_get_buf_output_sequenced r = Some (None, r0)" "seg = Seg_idle" "r1 = r0"
  | (kept) r0 k b where "reliable_get_buf_output_sequenced r = Some (Some k, r0)" "seg \<noteq> Seg_change" "r1 = with_buf r0 k b"
  | (marked) r0 k b where "reliable_get_buf_output_sequenced r = Some (Some k, r0)" "seg = Seg_change"
      "reliable_mark_active_outgoing (with_buf r0 k b) k op = Some r1"
  using assms by (auto simp: output_ciphertext_def Let_def split: option.splits if_splits)

lemma output_shape:
  assumes "rel_shape r" "output_ciphertext bio maxlen op r = Some (seg, r1)"
  shows "rel_shape r1 \<and> (if seg = Seg_change then Suc (n_free r1) = n_free r else n_free r1 = n_free r)"
  using assms(2)
proof (cases rule: output_cases)
  case (idle r0)
  with get_buf_output_shape [OF assms(1)] same_active_counts show ?thesis by fastforce
next
  case (kept r0 k b)
  note a = get_buf_output_shape [OF assms(1) kept(1)]
  then have "same_active r (with_buf r0 k b)"
    using same_active_trans with_buf_active same_active_counts by blast
  from same_active_counts [OF this] kept show ?thesis by simp
next
  case (marked r0 k b)
  note a = get_buf_output_shape [OF assms(1) marked(1)]
  then have s: "same_active r (with_buf r0 k b)"
    using same_active_trans with_buf_active same_active_counts by blast
  have "\<not> re_active (slot (with_buf r0 k b) k)" using a s unfolding same_active_def by blast
  from mark_outgoing_shape [OF _ marked(3) this] same_active_counts [OF s] marked(2) show ?thesis by simp
qed

lemma deliver_cases:
  assumes "deliver_ciphertext wr r = Some (seg, bs, r1)"
  obtains (idle) "reliable_get_buf_sequenced r = None" "seg = Seg_idle" "r1 = r"
  | (kept) k b where "reliable_get_buf_sequenced r = Some k" "seg \<noteq> Seg_change" "r1 = with_buf r k b"
  | (deleted) k b where "reliable_get_buf_sequenced r = Some k" "seg = Seg_change"
      "reliable_mark_deleted (with_buf r k b) k True = Some r1"
  using assms by (auto simp: deliver_ciphertext_def Let_def split: option.splits if_splits)

lemma deliver_shape:
  assumes "rel_shape r" "deliver_ciphertext wr r = Some (seg, bs, r1)"
  shows "rel_shape r1 \<and> (if seg = Seg_change then Suc (n_active r1) = n_active r else n_active r1 = n_active r)"
  using assms(2)
proof (cases rule: deliver_cases)
  case idle
  with assms(1) show ?thesis by simp
next
  case (kept k b)
  with same_active_counts [OF with_buf_active [OF assms(1)]] show ?thesis by simp
next
  case (deleted k b)
  note s = with_buf_active [OF assms(1), of k b]
  from deleted(1) have "re_active (slot r k)" by (auto simp: reliable_get_buf_sequenced_def find_Some_iff idxs_def)
  then have "re_active (slot (with_buf r k b) k)" using s by (simp add: same_active_def)
  from mark_deleted_shape [OF _ deleted(3) this] same_active_counts [OF s] deleted(2) show ?thesis by simp
qed

subsection \<open>What is left to do\<close>

definition rank :: "bool \<Rightarrow> int \<Rightarrow> nat" where
  "rank server st =
     (if st = S_SENT_KEY then if server then 5 else 4
      else if st = S_GOT_KEY then if server then 4 else 5
      else nat (min 7 st))"

definition work :: "bool \<Rightarrow> 'tls key_state \<Rightarrow> nat" where
  "work server ks = 2 * (7 - rank server (ks_state ks)) + n_active (ks_rec_reliable ks) + n_free (ks_send_reliable ks)
     + (if blen (ks_plaintext_read_buf ks) = 0 then 1 else 0) + (if blen (ks_plaintext_write_buf ks) \<noteq> 0 then 1 else 0)"

definition ks_shape :: "'tls key_state \<Rightarrow> bool" where
  "ks_shape ks \<longleftrightarrow> rel_shape (ks_send_reliable ks) \<and> rel_shape (ks_rec_reliable ks)"

definition proc_shape :: "nat \<Rightarrow> 'tls proc \<Rightarrow> bool" where
  "proc_shape i p \<longleftrightarrow> i < length (tm_session (pr_multi p)) \<and> ks_shape (prim i p)"

abbreviation server_of :: "'tls proc \<Rightarrow> bool" where
  "server_of p \<equiv> to_server (tm_opt (pr_multi p))"

definition load :: "nat \<Rightarrow> 'tls proc \<Rightarrow> nat" where
  "load i p = work (server_of p) (prim i p) + (if pr_change p then 1 else 0)"

text \<open>A segment that goes on keeps the shape and the role, and does not raise the load.\<close>

definition progress :: "nat \<Rightarrow> 'tls proc \<Rightarrow> 'tls proc \<Rightarrow> bool" where
  "progress i p q \<longleftrightarrow> proc_shape i q \<and> server_of q = server_of p \<and> load i q \<le> load i p"

lemma progress_refl: "proc_shape i p \<Longrightarrow> progress i p p"
  by (simp add: progress_def)

lemma progress_trans: "progress i p q \<Longrightarrow> progress i q r \<Longrightarrow> progress i p r"
  by (auto simp: progress_def)

lemma work_bound:
  assumes "ks_shape ks"
  shows "work server ks \<le> 32"
proof -
  have "n_active (ks_rec_reliable ks) \<le> 8" "n_free (ks_send_reliable ks) \<le> 8"
    using assms count_bound by (simp_all add: ks_shape_def)
  moreover have "2 * (7 - rank server (ks_state ks)) \<le> 14" by simp
  ultimately show ?thesis by (simp only: work_def split: if_split) linarith
qed

lemma prim_set_prim [simp]:
  "i < length (tm_session (pr_multi p)) \<Longrightarrow> prim i (set_prim i ks p) = ks"
  "tm_opt (pr_multi (set_prim i ks p)) = tm_opt (pr_multi p)"
  "length (tm_session (pr_multi (set_prim i ks p))) = length (tm_session (pr_multi p))"
  "pr_change (set_prim i ks p) = pr_change p"
  by (simp_all add: set_prim_def set_ses_def ses_def put_session_def)

lemma note_change_simps [simp]:
  "pr_multi (note_change p) = pr_multi p" "pr_change (note_change p)" "ses i (note_change p) = ses i p"
  by (simp_all add: note_change_def ses_def)

lemma ses_other_fields [simp]:
  "ses i (p\<lparr>pr_wakeup := w\<rparr>) = ses i p" "ses i (p\<lparr>pr_tick := t\<rparr>) = ses i p" "ses i (p\<lparr>pr_change := b\<rparr>) = ses i p"
  by (simp_all add: ses_def)

lemma progress_set:
  assumes "proc_shape i p" "ks_shape ks" "work (server_of p) ks \<le> work (server_of p) (prim i p)"
  shows "progress i p (set_prim i ks p)"
  using assms by (simp add: progress_def proc_shape_def load_def)

lemma progress_change:
  assumes "proc_shape i p" "ks_shape ks" "work (server_of p) ks < work (server_of p) (prim i p)"
  shows "progress i p (note_change (set_prim i ks p))"
  using assms by (simp add: progress_def proc_shape_def load_def)

definition goes_down :: "nat \<Rightarrow> ('tls proc \<Rightarrow> 'tls proc outcome option) \<Rightarrow> bool" where
  "goes_down i f \<longleftrightarrow> (\<forall>p q. proc_shape i p \<longrightarrow> f p = Some (Go q) \<longrightarrow> progress i p q)"

lemma goes_downI: "(\<And>p q. proc_shape i p \<Longrightarrow> f p = Some (Go q) \<Longrightarrow> progress i p q) \<Longrightarrow> goes_down i f"
  by (simp add: goes_down_def)

lemma goes_downD: "goes_down i f \<Longrightarrow> proc_shape i p \<Longrightarrow> f p = Some (Go q) \<Longrightarrow> progress i p q"
  by (simp add: goes_down_def)

lemma goes_down_andthen:
  assumes "goes_down i f" "goes_down i g"
  shows "goes_down i (andthen f g)"
proof (rule goes_downI)
  fix p q
  assume p: "proc_shape i p" and "andthen f g p = Some (Go q)"
  then obtain r where r: "f p = Some (Go r)" "g r = Some (Go q)"
    by (auto simp: andthen_def split: option.splits outcome.splits)
  have 1: "progress i p r" by (rule goes_downD [OF assms(1) p r(1)])
  then have "progress i r q" using goes_downD [OF assms(2) _ r(2)] by (simp add: progress_def)
  with 1 show "progress i p q" by (rule progress_trans)
qed

subsection \<open>The segments\<close>

lemma shape_parts: "proc_shape i p \<Longrightarrow> rel_shape (ks_send_reliable (prim i p)) \<and> rel_shape (ks_rec_reliable (prim i p))"
  by (simp add: proc_shape_def ks_shape_def)

lemma goes_down_initial: "goes_down i (seg_initial env i)"
proof (rule goes_downI)
  fix p q
  assume p: "proc_shape i p" and q: "seg_initial env i p = Some (Go q)"
  note sh = shape_parts [OF p]
  show "progress i p q"
  proof (cases "ks_state (prim i p) = S_INITIAL")
    case False
    with q p show ?thesis by (simp add: seg_initial_def Let_def progress_refl)
  next
    case True
    from q True obtain j r1 where g: "reliable_get_buf_output_sequenced (ks_send_reliable (prim i p)) = Some (j, r1)"
      by (auto simp: seg_initial_def Let_def split: option.splits)
    note a = get_buf_output_shape [OF conjunct1 [OF sh] g]
    then have c: "rel_shape r1 \<and> n_free r1 = n_free (ks_send_reliable (prim i p))" using same_active_counts by blast
    show ?thesis
    proof (cases j)
      case None
      with q True g have "q = set_prim i ((prim i p)\<lparr>ks_send_reliable := r1\<rparr>) p" by (simp add: seg_initial_def Let_def)
      then show ?thesis using p sh c by (simp add: progress_set ks_shape_def work_def)
    next
      case (Some k)
      with q True g obtain r2 t n x where r2: "reliable_mark_active_outgoing r1 k (ks_initial_opcode (prim i p)) = Some r2"
        and qe: "q = note_change (set_prim i ((prim i p)\<lparr>ks_initial := t, ks_must_negotiate := n, ks_auth_deferred_expire := x,
          ks_send_reliable := r2, ks_state := S_PRE_START\<rparr>) p)"
        by (auto simp: seg_initial_def Let_def split: option.splits)
      have "rel_shape r2 \<and> Suc (n_free r2) = n_free r1" using mark_outgoing_shape [OF _ r2] a c Some by blast
      then show ?thesis using p sh c True unfolding qe
        by (intro progress_change) (simp_all add: ks_shape_def work_def rank_def state_defs)
    qed
  qed
qed

lemma goes_down_timed_out: "goes_down i (seg_timed_out env i)"
  by (rule goes_downI) (auto simp: seg_timed_out_def progress_refl split: if_splits)

lemma rank_up: "rank server (ks_state ks) < rank server (ks_state ks1) \<Longrightarrow> ks_rec_reliable ks1 = ks_rec_reliable ks
    \<Longrightarrow> ks_send_reliable ks1 = ks_send_reliable ks
    \<Longrightarrow> ks_plaintext_read_buf ks1 = ks_plaintext_read_buf ks \<or> ks_plaintext_write_buf ks1 = ks_plaintext_write_buf ks
    \<Longrightarrow> rank server (ks_state ks1) \<le> 7 \<Longrightarrow> work server ks1 < work server ks"
  by (auto simp: work_def)

lemma goes_down_start: "goes_down i (seg_start i)"
proof (rule goes_downI)
  fix p q
  assume p: "proc_shape i p" and q: "seg_start i p = Some (Go q)"
  show "progress i p q"
  proof (cases "ks_state (prim i p) = S_PRE_START \<and> FULL_SYNC (prim i p)")
    case False
    then show ?thesis using q p by (auto simp: seg_start_def Let_def progress_refl)
  next
    case True
    then have "q = note_change (set_prim i ((prim i p)\<lparr>ks_state := S_START\<rparr>) p)"
      using q by (simp add: seg_start_def Let_def)
    moreover have "work (server_of p) ((prim i p)\<lparr>ks_state := S_START\<rparr>) < work (server_of p) (prim i p)"
      using True by (intro rank_up) (simp_all add: rank_def state_defs)
    ultimately show ?thesis using p shape_parts [OF p] by (simp add: progress_change ks_shape_def)
  qed
qed

lemma flush_payload_fields:
  "flush_payload_buffer env ks = Some ks1 \<Longrightarrow> ks_state ks1 = ks_state ks \<and> ks_rec_reliable ks1 = ks_rec_reliable ks
     \<and> ks_send_reliable ks1 = ks_send_reliable ks \<and> ks_plaintext_read_buf ks1 = ks_plaintext_read_buf ks
     \<and> ks_plaintext_write_buf ks1 = ks_plaintext_write_buf ks"
  by (auto simp: flush_payload_buffer_def split: if_splits option.splits)

lemma set_prim_multi:
  "prim i (p\<lparr>pr_multi := m\<rparr>) = ts_primary (tm_session m ! i)"
  "set_prim i ks (p\<lparr>pr_multi := m\<rparr>) = p\<lparr>pr_multi := put_session i ((tm_session m ! i)\<lparr>ts_primary := ks\<rparr>) m\<rparr>"
  by (simp_all add: set_prim_def set_ses_def ses_def)

lemma progress_change_multi:
  assumes "proc_shape i p" "ks_shape ks" "work (server_of p) ks < work (server_of p) (prim i p)"
    and "length (tm_session m) = length (tm_session (pr_multi p))" "tm_opt m = tm_opt (pr_multi p)"
  shows "progress i p (note_change (set_prim i ks (p\<lparr>pr_multi := m\<rparr>)))"
  using assms by (simp add: progress_def proc_shape_def load_def)

lemma goes_down_established: "goes_down i (seg_established env i)"
proof (rule goes_downI)
  fix p q
  assume p: "proc_shape i p" and q: "seg_established env i p = Some (Go q)"
  define c where "c \<longleftrightarrow> (ks_state (prim i p) = S_GOT_KEY \<and> \<not> server_of p \<or> ks_state (prim i p) = S_SENT_KEY \<and> server_of p)
    \<and> FULL_SYNC (prim i p)"
  show "progress i p q"
  proof (cases c)
    case False
    then show ?thesis using q p unfolding c_def by (simp only: seg_established_def Let_def if_False option.inject outcome.inject progress_refl)
  next
    case True
    let ?k = "(prim i p)\<lparr>ks_established := pe_clock env (pr_tick p), ks_state := S_ACTIVE, ks_must_negotiate := 0\<rparr>"
    from True q obtain k1 st where k1: "flush_payload_buffer (pe_tls env) ?k = Some k1"
      and qe: "q = note_change (set_prim i k1 (p\<lparr>pr_multi := (if tm_multi_state (pr_multi p) = CAS_NOT_CONNECTED
           then (pr_multi p)\<lparr>tm_multi_state := st\<rparr> else pr_multi p)\<rparr>))"
      unfolding c_def by (auto simp: seg_established_def Let_def split: option.splits)
    note f = flush_payload_fields [OF k1]
    have "work (server_of p) k1 < work (server_of p) (prim i p)"
      using True f unfolding c_def by (intro rank_up) (auto simp: rank_def state_defs)
    moreover have "ks_shape k1" using f shape_parts [OF p] by (simp add: ks_shape_def)
    ultimately show ?thesis unfolding qe using p by (intro progress_change_multi) simp_all
  qed
qed

lemma goes_down_send: "goes_down i (seg_send env i)"
  by (rule goes_downI) (auto simp: seg_send_def Let_def progress_refl split: if_splits option.splits prod.splits)

lemma goes_down_deliver: "goes_down i (seg_deliver env i)"
proof (rule goes_downI)
  fix p q
  assume p: "proc_shape i p" and q: "seg_deliver env i p = Some (Go q)"
  note sh = shape_parts [OF p]
  show "progress i p q"
  proof (cases "reliable_get_buf_sequenced (ks_rec_reliable (prim i p))")
    case None
    with q p show ?thesis by (simp add: seg_deliver_def Let_def progress_refl)
  next
    case (Some j)
    with q obtain st seg bs r1 t where d: "deliver_ciphertext st (ks_rec_reliable (prim i p)) = Some (seg, bs, r1)"
      and qe: "seg = Seg_idle \<and> q = set_prim i ((prim i p)\<lparr>ks_rec_reliable := r1, ks_ssl := t\<rparr>) p
        \<or> seg = Seg_change \<and> q = note_change (set_prim i ((prim i p)\<lparr>ks_rec_reliable := r1, ks_ssl := t\<rparr>) p)"
      by (auto simp: seg_deliver_def Let_def split: option.splits prod.splits seg_status.splits)
    note s = deliver_shape [OF conjunct2 [OF sh] d]
    from qe show ?thesis
    proof (elim disjE conjE)
      assume "seg = Seg_idle" "q = set_prim i ((prim i p)\<lparr>ks_rec_reliable := r1, ks_ssl := t\<rparr>) p"
      with p sh s show ?thesis by (simp add: progress_set ks_shape_def work_def)
    next
      assume "seg = Seg_change" "q = note_change (set_prim i ((prim i p)\<lparr>ks_rec_reliable := r1, ks_ssl := t\<rparr>) p)"
      with p sh s show ?thesis by (simp add: progress_change ks_shape_def work_def)
    qed
  qed
qed

lemma bio_read_status:
  assumes "bio_read bio b n = Some (st, b1)" "blen b = 0"
  shows "st = -1 \<or> st = 1 \<and> blen b1 > 0 \<or> st = 0 \<and> blen b1 = 0"
  using assms by (auto simp: bio_read_def Let_def split: bio_result.splits if_splits)

lemma buf_init_len: "buf_init b n = (True, b1) \<Longrightarrow> blen b1 = 0"
  by (auto simp: buf_init_def split: if_splits)

lemma progress_same: "progress i p q \<Longrightarrow> pr_multi r = pr_multi q \<Longrightarrow> pr_change r = pr_change q \<Longrightarrow> progress i p r"
  unfolding progress_def proc_shape_def load_def ses_def by (elim conjE) simp

lemma progress_other: "progress i p q \<Longrightarrow> progress i p (q\<lparr>pr_tick := t\<rparr>)" "progress i p q \<Longrightarrow> progress i p (q\<lparr>pr_wakeup := w\<rparr>)"
  by (erule progress_same; simp)+

lemma goes_down_read_plaintext: "goes_down i (seg_read_plaintext env i)"
proof (rule goes_downI)
  fix p q
  assume p: "proc_shape i p" and q: "seg_read_plaintext env i p = Some (Go q)"
  note sh = shape_parts [OF p]
  show "progress i p q"
  proof (cases "blen (ks_plaintext_read_buf (prim i p)) = 0")
    case False
    with q p show ?thesis by (simp add: seg_read_plaintext_def Let_def progress_refl)
  next
    case True
    let ?k = "\<lambda>b t. (prim i p)\<lparr>ks_plaintext_read_buf := b, ks_ssl := t\<rparr>"
    from True q obtain b0 st b1 res t where b0: "buf_init (ks_plaintext_read_buf (prim i p)) 0 = (True, b0)"
      and rd: "bio_read (\<lambda>_. res) b0 TLS_CHANNEL_BUF_SIZE = Some (st, b1)" and st: "st \<noteq> -1"
      and qe: "q = (if st = 1 then (note_change ((set_prim i (?k b1 t) p)\<lparr>pr_tick := pr_tick p + 1\<rparr>))\<lparr>pr_wakeup := 0\<rparr>
                    else (set_prim i (?k b1 t) p)\<lparr>pr_tick := pr_tick p + 1\<rparr>)"
      by (auto simp: seg_read_plaintext_def Let_def split: option.splits prod.splits bool.splits if_splits)
    note r = bio_read_status [OF rd buf_init_len [OF b0]]
    show ?thesis
    proof (cases "st = 1")
      case True
      then have "progress i p (note_change (set_prim i (?k b1 t) p))"
        using p sh r \<open>blen (ks_plaintext_read_buf (prim i p)) = 0\<close> by (intro progress_change) (simp_all add: ks_shape_def work_def)
      moreover have "q = (note_change (set_prim i (?k b1 t) p))\<lparr>pr_tick := pr_tick p + 1, pr_wakeup := 0\<rparr>"
        using qe True by (simp add: note_change_def)
      ultimately show ?thesis by (simp only: progress_other)
    next
      case False
      then have "progress i p (set_prim i (?k b1 t) p)"
        using p sh r st \<open>blen (ks_plaintext_read_buf (prim i p)) = 0\<close> by (intro progress_set) (simp_all add: ks_shape_def work_def)
      then show ?thesis unfolding qe using False by (simp add: progress_other)
    qed
  qed
qed

lemma goes_down_send_key: "goes_down i (seg_send_key env i)"
proof (rule goes_downI)
  fix p q
  assume p: "proc_shape i p" and q: "seg_send_key env i p = Some (Go q)"
  define c where "c \<longleftrightarrow> blen (ks_plaintext_write_buf (prim i p)) = 0
    \<and> (ks_state (prim i p) = S_START \<and> \<not> server_of p \<or> ks_state (prim i p) = S_GOT_KEY \<and> server_of p)"
  show "progress i p q"
  proof (cases c)
    case False
    then show ?thesis using q p unfolding c_def by (simp only: seg_send_key_def Let_def if_False option.inject outcome.inject progress_refl)
  next
    case True
    from True q obtain k2 b where
      qe: "q = note_change (set_prim i ((prim i p)\<lparr>ks_key_src := k2, ks_plaintext_write_buf := b, ks_state := S_SENT_KEY\<rparr>) p)"
      unfolding c_def by (auto simp: seg_send_key_def Let_def split: option.splits if_splits)
    have "work (server_of p) ((prim i p)\<lparr>ks_key_src := k2, ks_plaintext_write_buf := b, ks_state := S_SENT_KEY\<rparr>) < work (server_of p) (prim i p)"
      using True unfolding c_def by (intro rank_up) (auto simp: rank_def state_defs)
    then show ?thesis unfolding qe using p shape_parts [OF p] by (intro progress_change) (simp_all add: ks_shape_def)
  qed
qed

lemma deauth_length [simp]:
  "length (tm_session (tls_deauthenticate m)) = length (tm_session m)" "tm_opt (tls_deauthenticate m) = tm_opt m"
  by (simp_all add: tls_deauthenticate_def)

lemma goes_down_receive_key: "goes_down i (seg_receive_key env i)"
proof (rule goes_downI)
  fix p q
  assume p: "proc_shape i p" and q: "seg_receive_key env i p = Some (Go q)"
  define c where "c \<longleftrightarrow> blen (ks_plaintext_read_buf (prim i p)) \<noteq> 0
    \<and> (ks_state (prim i p) = S_SENT_KEY \<and> \<not> server_of p \<or> ks_state (prim i p) = S_START \<and> server_of p)"
  show "progress i p q"
  proof (cases c)
    case False
    then show ?thesis using q p unfolding c_def by (simp only: seg_receive_key_def Let_def if_False option.inject outcome.inject progress_refl)
  next
    case True
    let ?m = "if pe_deauth env then tls_deauthenticate (pr_multi p) else pr_multi p"
    let ?k = "\<lambda>src au b. (prim i p)\<lparr>ks_key_src := src, ks_authenticated := au, ks_plaintext_read_buf := b, ks_state := S_GOT_KEY\<rparr>"
    from True q obtain src au b x y z where
      qe: "q = note_change (set_prim i (?k src au b)
        (p\<lparr>pr_multi := ?m\<lparr>tm_peer_info := x, tm_remote_ciphername := y, tm_remote_usescomp := z\<rparr>\<rparr>))"
      unfolding c_def by (auto simp: seg_receive_key_def Let_def split: prod.splits if_splits)
    have "work (server_of p) (?k src au b) < work (server_of p) (prim i p)"
      using True unfolding c_def by (intro rank_up) (auto simp: rank_def state_defs)
    then show ?thesis unfolding qe using p shape_parts [OF p] by (intro progress_change_multi) (simp_all add: ks_shape_def)
  qed
qed

lemma goes_down_write_plaintext: "goes_down i (seg_write_plaintext env i)"
proof (rule goes_downI)
  fix p q
  assume p: "proc_shape i p" and q: "seg_write_plaintext env i p = Some (Go q)"
  note sh = shape_parts [OF p]
  show "progress i p q"
  proof (cases "blen (ks_plaintext_write_buf (prim i p)) = 0")
    case True
    with q p show ?thesis by (simp add: seg_write_plaintext_def Let_def progress_refl)
  next
    case False
    let ?k = "\<lambda>st t. (prim i p)\<lparr>ks_ssl := t, ks_plaintext_write_buf := bio_write_post st (ks_plaintext_write_buf (prim i p))\<rparr>"
    from False q obtain tls where tls: "ks_ssl (prim i p) = Some tls"
      by (auto simp: seg_write_plaintext_def Let_def split: option.splits)
    obtain st t where w: "tls_obj_write (pe_tls env) tls (content (ks_plaintext_write_buf (prim i p))) = (st, t)"
      by (rule prod.exhaust)
    have qe: "q = (if st = 1 then note_change (set_prim i (?k st (Some t)) p) else set_prim i (?k st (Some t)) p)"
      using False q tls w by (simp add: seg_write_plaintext_def Let_def split: if_splits)
    show ?thesis
    proof (cases "st = 1")
      case True
      with qe have "q = note_change (set_prim i (?k st (Some t)) p)" by simp
      then show ?thesis using p sh False True
        by (simp add: progress_change ks_shape_def work_def bio_write_post_def)
    next
      case False
      with qe have "q = set_prim i (?k st (Some t)) p" by simp
      then show ?thesis using p sh False
        by (simp add: progress_set ks_shape_def work_def bio_write_post_def)
    qed
  qed
qed

lemma goes_down_output: "goes_down i (seg_output env i)"
proof (rule goes_downI)
  fix p q
  assume p: "proc_shape i p" and q: "seg_output env i p = Some (Go q)"
  note sh = shape_parts [OF p]
  show "progress i p q"
  proof (cases "ks_state (prim i p) < S_START")
    case True
    with q p show ?thesis by (simp add: seg_output_def Let_def progress_refl)
  next
    case False
    from False q obtain j r1 where g: "reliable_get_buf_output_sequenced (ks_send_reliable (prim i p)) = Some (j, r1)"
      by (auto simp: seg_output_def Let_def split: option.splits)
    show ?thesis
    proof (cases j)
      case None
      have "rel_shape r1 \<and> n_free r1 = n_free (ks_send_reliable (prim i p))"
        using get_buf_output_shape [OF conjunct1 [OF sh] g] same_active_counts by blast
      moreover from None False q g have "q = set_prim i ((prim i p)\<lparr>ks_send_reliable := r1\<rparr>) p"
        by (simp add: seg_output_def Let_def)
      ultimately show ?thesis using p sh by (simp add: progress_set ks_shape_def work_def)
    next
      case (Some k)
      with False q g obtain bio n op seg r2 t where o: "output_ciphertext bio n op (ks_send_reliable (prim i p)) = Some (seg, r2)"
        and qe: "seg = Seg_idle \<and> q = set_prim i ((prim i p)\<lparr>ks_send_reliable := r2, ks_ssl := t\<rparr>) p
          \<or> seg = Seg_change \<and> q = note_change (set_prim i ((prim i p)\<lparr>ks_send_reliable := r2, ks_ssl := t\<rparr>) p)"
        by (auto simp: seg_output_def Let_def split: option.splits prod.splits seg_status.splits)
      note s = output_shape [OF conjunct1 [OF sh] o]
      from qe show ?thesis
      proof (elim disjE conjE)
        assume "seg = Seg_idle" "q = set_prim i ((prim i p)\<lparr>ks_send_reliable := r2, ks_ssl := t\<rparr>) p"
        with p sh s show ?thesis by (simp add: progress_set ks_shape_def work_def)
      next
        assume "seg = Seg_change" "q = note_change (set_prim i ((prim i p)\<lparr>ks_send_reliable := r2, ks_ssl := t\<rparr>) p)"
        with p sh s show ?thesis by (simp add: progress_change ks_shape_def work_def)
      qed
    qed
  qed
qed

subsection \<open>The loop ends\<close>

lemma goes_down_round_body: "goes_down i (round_body env i)"
  unfolding round_body_def
  by (intro goes_down_andthen goes_down_initial goes_down_timed_out goes_down_start goes_down_established goes_down_send
      goes_down_deliver goes_down_read_plaintext goes_down_send_key goes_down_receive_key goes_down_write_plaintext goes_down_output)

lemma round_goes_down:
  assumes "proc_shape i p" "proc_round env i p = Some (Go q)"
  shows "proc_shape i q" "server_of q = server_of p"
    and "work (server_of q) (prim i q) + (if pr_change q then 1 else 0) \<le> work (server_of p) (prim i p)"
proof -
  let ?p = "p\<lparr>pr_change := False, pr_tick := pr_tick p + 1\<rparr>"
  have p: "proc_shape i ?p" using assms(1) unfolding proc_shape_def ses_def by simp
  have m: "pr_multi ?p = pr_multi p" "\<not> pr_change ?p" by simp_all
  have pp: "prim i ?p = prim i p" unfolding ses_def m ..
  have "progress i ?p q" by (rule goes_downD [OF goes_down_round_body p assms(2) [unfolded proc_round_def]])
  then have d: "proc_shape i q \<and> server_of q = server_of p \<and> load i q \<le> work (server_of p) (prim i p)"
    unfolding progress_def load_def pp m(1) if_not_P [OF m(2)] add_0_right .
  show "proc_shape i q" "server_of q = server_of p" using d by blast+
  show "work (server_of q) (prim i q) + (if pr_change q then 1 else 0) \<le> work (server_of p) (prim i p)"
    using d unfolding load_def by blast
qed

lemma loop_ends:
  "proc_shape i p \<Longrightarrow> work (server_of p) (prim i p) < n
     \<Longrightarrow> (\<nexists>q. proc_loop n env i p = Some (Go q)) \<and> proc_loop (n + k) env i p = proc_loop n env i p"
proof (induction n arbitrary: p)
  case 0
  then show ?case by simp
next
  case (Suc n)
  show ?case
  proof (cases "proc_round env i p")
    case None
    then show ?thesis by simp
  next
    case (Some r)
    show ?thesis
    proof (cases "\<exists>q. r = Go q \<and> pr_change q")
      case False
      then show ?thesis using Some by (cases r) simp_all
    next
      case True
      then obtain q where q: "r = Go q" "pr_change q" by blast
      note d = round_goes_down [OF Suc.prems(1) Some [unfolded q(1)]]
      have "work (server_of q) (prim i q) < n" using d(3) q(2) Suc.prems(2) by simp
      from Suc.IH [OF d(1) this] show ?thesis using Some q by simp
    qed
  qed
qed

text \<open>
  C16: The loop of \<^verbatim>\<open>tls_process\<close> ends, whatever the TLS library answers, whatever the clock shows
  and whatever the peer sent: from any state of a session whose windows are well formed, at most
  \<open>PROC_ROUNDS\<close> rounds of the \<^verbatim>\<open>do ... while (state_change)\<close> loop run, so the rounds allowed are
  never used up and allowing more of them changes nothing.
\<close>

theorem tls_process_loop_ends:
  assumes "i < length (tm_session (pr_multi p))"
    and "rel_shape (ks_send_reliable (prim i p))" "rel_shape (ks_rec_reliable (prim i p))"
  shows "(\<nexists>q. proc_loop PROC_ROUNDS env i p = Some (Go q))
    \<and> proc_loop (PROC_ROUNDS + k) env i p = proc_loop PROC_ROUNDS env i p"
proof -
  have p: "proc_shape i p"
    using assms by (simp add: proc_shape_def ks_shape_def)
  then have "work (server_of p) (prim i p) < PROC_ROUNDS"
    using work_bound [of "prim i p" "server_of p"] by (simp add: proc_shape_def PROC_ROUNDS_def)
  from loop_ends [OF p this] show ?thesis .
qed

definition demo_proc_env :: "unit proc_env" where
  "demo_proc_env = \<lparr>pe_tls = demo_tls, pe_clock = (\<lambda>n. 10), pe_prng = (\<lambda>n. []), pe_rand = (\<lambda>n. None),
     pe_km2_opts = ex_server, pe_km2_env = ex_env True, pe_deauth = False, pe_sids = (\<lambda>i. [replicate 8 6]),
     pe_auth = \<lparr>ae_plugin = (\<lambda>i. None), ae_script = (\<lambda>i. None), ae_man = (\<lambda>i. ACF_DISABLED)\<rparr>, pe_lsa_actual = addr_clear\<rparr>"

definition demo_proc :: "unit proc" where
  "demo_proc = \<lparr>pr_multi = demo_multi, pr_to_link = clear_buf, pr_to_addr = None, pr_wakeup = 60, pr_active = False,
     pr_change = False, pr_tick = 0\<rparr>"

theorem tls_process_loop_ends_witness:
  "(\<nexists>q. proc_loop PROC_ROUNDS demo_proc_env TM_ACTIVE demo_proc = Some (Go q))
    \<and> proc_loop (PROC_ROUNDS + 5) demo_proc_env TM_ACTIVE demo_proc = proc_loop PROC_ROUNDS demo_proc_env TM_ACTIVE demo_proc"
proof -
  have p: "prim TM_ACTIVE demo_proc = demo_ks"
    by (simp add: ses_def demo_proc_def demo_multi_def put_session_def tls_multi_init_def tm_defs)
  show ?thesis
  proof (rule tls_process_loop_ends)
    show "TM_ACTIVE < length (tm_session (pr_multi demo_proc))"
      by (simp add: demo_proc_def demo_multi_def put_session_def tls_multi_init_def tm_defs)
    show "rel_shape (ks_send_reliable (prim TM_ACTIVE demo_proc))"
      using reliable_init_shape [OF demo_init(1)] unfolding p by (simp add: demo_ks_def)
    show "rel_shape (ks_rec_reliable (prim TM_ACTIVE demo_proc))"
      using reliable_init_shape [OF demo_init(2)] unfolding p by (simp add: demo_ks_def)
  qed
qed

end
