(* ===== verification/Tls_Invariant.thy ===== *)
theory Tls_Invariant
  imports Tls_Connect Tls_Loop
begin

text \<open>
  The invariant of a tunnel: what every operation of \<open>Tls_Session\<close>, \<open>Tls_Process\<close> and \<open>Tls_Dispatch\<close>
  keeps, whatever the peer sends and the TLS library answers. Key ids fit the three bits of the
  packet header, the two keys of a session never share one, a lame duck key has its time of death,
  and a key in use has well-formed windows.
\<close>

subsection \<open>The invariant\<close>

definition next_key_id :: "int \<Rightarrow> int" where
  "next_key_id k = (let n = (k + 1) AND P_KEY_ID_MASK in if n = 0 then 1 else n)"

lemma next_key_id:
  assumes "0 \<le> k" "k \<le> 7"
  shows "1 \<le> next_key_id k \<and> next_key_id k \<le> 7 \<and> next_key_id k \<noteq> k"
proof -
  have "list_all (\<lambda>k. 1 \<le> next_key_id k \<and> next_key_id k \<le> 7 \<and> next_key_id k \<noteq> k) [0, 1, 2, 3, 4, 5, 6, 7]" by code_simp
  moreover have "k \<in> set [0, 1, 2, 3, 4, 5, 6, 7]" using assms by auto
  ultimately show ?thesis unfolding list_all_iff by (rule bspec)
qed

definition ks_fine :: "'tls key_state \<Rightarrow> bool" where
  "ks_fine ks \<longleftrightarrow> (ks_state ks \<noteq> S_UNDEF \<longrightarrow> 0 \<le> ks_key_id ks \<and> ks_key_id ks \<le> 7 \<and> ks_shape ks)"

definition sess_ok :: "'tls tls_session \<Rightarrow> bool" where
  "sess_ok s \<longleftrightarrow> ks_fine (ts_primary s) \<and> ks_fine (ts_lame s)
     \<and> (ks_state (ts_primary s) \<noteq> S_UNDEF \<longrightarrow> session_id_defined (ts_session_id s) \<and> ts_key_id s = next_key_id (ks_key_id (ts_primary s)))
     \<and> (ks_state (ts_lame s) \<ge> S_INITIAL \<longrightarrow> ks_must_die (ts_lame s) \<noteq> 0 \<and> ks_key_id (ts_lame s) \<noteq> ks_key_id (ts_primary s))"

definition tunnel_ok :: "'tls tls_multi \<Rightarrow> bool" where
  "tunnel_ok m \<longleftrightarrow> length (tm_session m) = TM_SIZE \<and> 0 \<le> to_transition_window (tm_opt m)
     \<and> (\<forall>i<TM_SIZE. sess_ok (tm_session m ! i)) \<and> ks_state (ts_primary (tm_session m ! TM_LAME_DUCK)) \<le> S_UNDEF
     \<and> ks_state (ts_primary (tm_session m ! TM_ACTIVE)) \<noteq> S_UNDEF"

lemma sess_ok_clear: "sess_ok tls_session_clear"
  by (simp add: sess_ok_def ks_fine_def tls_session_clear_def key_state_clear_def state_defs)

lemma nth_upd_any: "j < length xs \<Longrightarrow> xs[i := x] ! j = (if j = i then x else xs ! j)"
  by (cases "j = i") simp_all

lemma tm_index [simp]: "TM_ACTIVE < TM_SIZE" "TM_UNTRUSTED < TM_SIZE" "TM_LAME_DUCK < TM_SIZE"
  "TM_ACTIVE \<noteq> TM_LAME_DUCK" "TM_UNTRUSTED \<noteq> TM_LAME_DUCK" "TM_ACTIVE \<noteq> TM_UNTRUSTED"
  by (simp_all add: tm_defs)

lemma tunnel_ok_put:
  assumes "tunnel_ok m" "sess_ok s" "i = TM_LAME_DUCK \<longrightarrow> ks_state (ts_primary s) \<le> S_UNDEF"
    "i = TM_ACTIVE \<longrightarrow> ks_state (ts_primary s) \<noteq> S_UNDEF"
  shows "tunnel_ok (put_session i s m)"
  using assms by (auto simp: tunnel_ok_def put_session_def nth_upd_any)

lemma tunnel_ok_other:
  assumes "tunnel_ok m" "tm_session m' = tm_session m" "to_transition_window (tm_opt m') = to_transition_window (tm_opt m)"
  shows "tunnel_ok m'"
  using assms by (simp add: tunnel_ok_def)

lemma tunnel_sess_ok: "tunnel_ok m \<Longrightarrow> i < TM_SIZE \<Longrightarrow> sess_ok (tm_session m ! i)"
  by (simp add: tunnel_ok_def)

lemma tunnel_length: "tunnel_ok m \<Longrightarrow> length (tm_session m) = TM_SIZE"
  by (simp add: tunnel_ok_def)

subsection \<open>New keys and sessions\<close>

lemma key_state_init_spec:
  assumes "key_state_init env opt s = Some (s1, ks)"
  shows "s1 = s\<lparr>ts_initial_opcode := P_CONTROL_SOFT_RESET_V1, ts_key_id := next_key_id (ts_key_id s)\<rparr>
    \<and> ks_state ks = S_INITIAL \<and> ks_key_id ks = ts_key_id s \<and> ks_shape ks"
  using assms reliable_init_shape
  by (auto simp: key_state_init_def Let_def Option.bind_eq_Some_conv next_key_id_def ks_shape_def
      reliable_set_timeout_def rel_shape_def)

lemma tls_session_init_ok:
  assumes "tls_session_init env opt sids = Some s"
  shows "sess_ok s" "ks_state (ts_primary s) = S_INITIAL"
proof -
  from assms obtain sid work pid where sid: "find session_id_defined sids = Some sid"
    and w: "alloc_buf (size_t_of (BUF_SIZE (to_frame opt))) = Some work"
    and pid: "packet_id_init (to_replay_window opt) (to_replay_time opt) = Some pid"
    by (auto simp: tls_session_init_def Option.bind_eq_Some_conv)
  note e = assms [unfolded tls_session_init_def Let_def, unfolded sid w pid, unfolded Option.bind.bind_lunit]
  obtain s0 where e0: "key_state_init env opt s0 \<bind> (\<lambda>(s1, ks). Some (s1\<lparr>ts_primary := ks\<rparr>)) = Some s"
    and s0: "ts_session_id s0 = sid" "ts_key_id s0 = 0" "ts_lame s0 = key_state_clear"
    by (rule that [OF e]) (simp_all add: tls_session_clear_def)
  then obtain s1 ks where k: "key_state_init env opt s0 = Some (s1, ks)" and s: "s = s1\<lparr>ts_primary := ks\<rparr>"
    by (auto simp: Option.bind_eq_Some_conv)
  have "session_id_defined sid" using sid by (auto simp: find_Some_iff)
  then show "sess_ok s" using key_state_init_spec [OF k] s0 s
    by (auto simp: sess_ok_def ks_fine_def key_state_clear_def state_defs)
  show "ks_state (ts_primary s) = S_INITIAL" using key_state_init_spec [OF k] s by simp
qed

lemma soft_reset_ok:
  assumes "key_state_soft_reset env opt now s = Some s'" "sess_ok s" "ks_state (ts_primary s) \<ge> S_INITIAL"
    and "0 < now" "0 \<le> to_transition_window opt"
  shows "sess_ok s' \<and> ks_state (ts_primary s') = S_INITIAL \<and> ts_session_id s' = ts_session_id s"
proof -
  let ?old = "(ts_primary s)\<lparr>ks_must_die := now + to_transition_window opt\<rparr>"
  from assms(1) obtain s1 ks where k: "key_state_init env opt s = Some (s1, ks)"
    and s': "s' = s1\<lparr>ts_lame := ?old, ts_primary := ks\<lparr>ks_session_id_remote := ks_session_id_remote ?old,
         ks_remote_addr := ks_remote_addr ?old\<rparr>\<rparr>"
    by (auto simp: key_state_soft_reset_def Let_def Option.bind_eq_Some_conv)
  have p: "ks_state (ts_primary s) \<noteq> S_UNDEF" using assms(3) by (simp add: state_defs)
  with assms(2) have id: "0 \<le> ks_key_id (ts_primary s)" "ks_key_id (ts_primary s) \<le> 7" "ks_shape (ts_primary s)"
      "session_id_defined (ts_session_id s)" "ts_key_id s = next_key_id (ks_key_id (ts_primary s))"
    by (simp_all add: sess_ok_def ks_fine_def)
  note n = next_key_id [OF id(1,2)]
  have "now + to_transition_window opt \<noteq> 0" using assms(4,5) by linarith
  moreover have "ks_shape ?old" using id(3) by (simp add: ks_shape_def)
  ultimately show ?thesis using key_state_init_spec [OF k] n id unfolding s'
    by (simp add: sess_ok_def ks_fine_def ks_shape_def state_defs)
qed

subsection \<open>Steps that keep a session's identity\<close>

definition ks_like :: "'tls key_state \<Rightarrow> 'tls key_state \<Rightarrow> bool" where
  "ks_like k k' \<longleftrightarrow> ks_state k' = ks_state k \<and> ks_key_id k' = ks_key_id k \<and> ks_must_die k' = ks_must_die k
     \<and> ks_send_reliable k' = ks_send_reliable k \<and> ks_rec_reliable k' = ks_rec_reliable k"

definition like :: "'tls tls_session \<Rightarrow> 'tls tls_session \<Rightarrow> bool" where
  "like s s' \<longleftrightarrow> ts_session_id s' = ts_session_id s \<and> ts_key_id s' = ts_key_id s
     \<and> ks_like (ts_primary s) (ts_primary s') \<and> ks_like (ts_lame s) (ts_lame s')"

text \<open>Session \<open>i\<close> may have moved on; it is still the same session with the same keys.\<close>

definition moved :: "'tls tls_session \<Rightarrow> 'tls tls_session \<Rightarrow> bool" where
  "moved s s' \<longleftrightarrow> ts_session_id s' = ts_session_id s \<and> ts_key_id s' = ts_key_id s \<and> ks_like (ts_lame s) (ts_lame s')
     \<and> ks_key_id (ts_primary s') = ks_key_id (ts_primary s)
     \<and> (ks_shape (ts_primary s) \<longrightarrow> ks_shape (ts_primary s'))
     \<and> (ks_state (ts_primary s) \<ge> S_INITIAL \<longrightarrow> ks_state (ts_primary s') \<ge> S_INITIAL)"

definition kept :: "nat \<Rightarrow> 'tls tls_multi \<Rightarrow> 'tls tls_multi \<Rightarrow> bool" where
  "kept i m m' \<longleftrightarrow> length (tm_session m') = length (tm_session m) \<and> tm_opt m' = tm_opt m
     \<and> (\<forall>j<length (tm_session m). j \<noteq> i \<longrightarrow> like (tm_session m ! j) (tm_session m' ! j))
     \<and> moved (tm_session m ! i) (tm_session m' ! i)"

lemma ks_like_refl [simp]: "ks_like k k"
  by (simp add: ks_like_def)

lemma like_refl [simp]: "like s s"
  by (simp add: like_def)

lemma moved_refl [simp]: "moved s s"
  by (simp add: moved_def)

lemma kept_refl [simp]: "kept i m m"
  by (simp add: kept_def)

lemma like_trans: "like s s' \<Longrightarrow> like s' s'' \<Longrightarrow> like s s''"
  by (simp add: like_def ks_like_def)

lemma moved_trans: "moved s s' \<Longrightarrow> moved s' s'' \<Longrightarrow> moved s s''"
  by (simp add: moved_def ks_like_def)

lemma kept_trans: "kept i m m' \<Longrightarrow> kept i m' m'' \<Longrightarrow> kept i m m''"
  unfolding kept_def by (simp add: moved_trans [of "tm_session m ! i" "tm_session m' ! i"]) (blast intro: like_trans)

lemma kept_put: "i < length (tm_session m) \<Longrightarrow> moved (tm_session m ! i) s \<Longrightarrow> kept i m (put_session i s m)"
  by (simp add: kept_def put_session_def)

lemma kept_put_other:
  assumes "kept i m m'" "moved (tm_session m' ! i) s" "i < length (tm_session m)"
  shows "kept i m (put_session i s m')"
  using assms kept_trans [OF assms(1) kept_put] by (simp add: kept_def)

lemma like_fine: "ks_like k k' \<Longrightarrow> ks_fine k \<Longrightarrow> ks_fine k'"
  by (simp add: ks_like_def ks_fine_def ks_shape_def)

lemma like_ok: "like s s' \<Longrightarrow> sess_ok s \<Longrightarrow> sess_ok s'"
  using like_fine unfolding like_def sess_ok_def by (auto simp: ks_like_def)

lemma moved_ok:
  assumes "moved s s'" "sess_ok s" "ks_state (ts_primary s) \<ge> S_INITIAL"
  shows "sess_ok s'"
proof -
  have p: "ks_state (ts_primary s) \<noteq> S_UNDEF" using assms(3) by (simp add: state_defs)
  have l: "ks_fine (ts_lame s')" using assms like_fine unfolding moved_def sess_ok_def by blast
  show ?thesis using assms(1,2) p l unfolding moved_def sess_ok_def by (auto simp: ks_fine_def ks_like_def)
qed

lemma kept_ok:
  assumes "kept i m m'" "tunnel_ok m" "i \<in> {TM_ACTIVE, TM_UNTRUSTED}" "ks_state (ts_primary (tm_session m ! i)) \<ge> S_INITIAL"
  shows "tunnel_ok m'" "ks_state (ts_primary (tm_session m' ! i)) \<ge> S_INITIAL"
proof -
  note k = assms(1) [unfolded kept_def] and t = assms(2) [unfolded tunnel_ok_def]
  have "sess_ok (tm_session m' ! j)" if "j < TM_SIZE" for j
  proof (cases "j = i")
    case True
    then show ?thesis using moved_ok k t assms(4) that by blast
  next
    case False
    then show ?thesis using like_ok k t that by metis
  qed
  moreover have "like (tm_session m ! TM_LAME_DUCK) (tm_session m' ! TM_LAME_DUCK)"
  proof -
    have "TM_LAME_DUCK \<noteq> i" using assms(3) by (auto simp: tm_defs)
    then show ?thesis using k t by simp
  qed
  moreover have "ks_state (ts_primary (tm_session m' ! TM_ACTIVE)) \<noteq> S_UNDEF"
  proof (cases "i = TM_ACTIVE")
    case True
    then show ?thesis using k assms(4) by (auto simp: moved_def state_defs)
  next
    case False
    then have "like (tm_session m ! TM_ACTIVE) (tm_session m' ! TM_ACTIVE)" using k t by simp
    then show ?thesis using t by (simp add: like_def ks_like_def)
  qed
  ultimately show "tunnel_ok m'" using k t by (auto simp: tunnel_ok_def like_def ks_like_def)
  show "ks_state (ts_primary (tm_session m' ! i)) \<ge> S_INITIAL" using k assms(4) by (simp add: moved_def)
qed

subsection \<open>The segments keep it\<close>

fun after :: "'p outcome \<Rightarrow> 'p" where
  "after (Go q) = q" | "after (Stop q) = q" | "after (Error q) = q"

definition keeps :: "nat \<Rightarrow> ('tls proc \<Rightarrow> 'tls proc outcome option) \<Rightarrow> bool" where
  "keeps i f \<longleftrightarrow> (\<forall>p r. proc_shape i p \<longrightarrow> f p = Some r \<longrightarrow> kept i (pr_multi p) (pr_multi (after r)))"

lemma keepsI: "(\<And>p r. proc_shape i p \<Longrightarrow> f p = Some r \<Longrightarrow> kept i (pr_multi p) (pr_multi (after r))) \<Longrightarrow> keeps i f"
  by (simp add: keeps_def)

lemma keepsD: "keeps i f \<Longrightarrow> proc_shape i p \<Longrightarrow> f p = Some r \<Longrightarrow> kept i (pr_multi p) (pr_multi (after r))"
  by (simp add: keeps_def)

lemma kept_shape: "proc_shape i p \<Longrightarrow> kept i (pr_multi p) (pr_multi q) \<Longrightarrow> proc_shape i q"
  by (simp add: proc_shape_def kept_def moved_def ses_def)

lemma keeps_andthen:
  assumes "keeps i f" "keeps i g"
  shows "keeps i (andthen f g)"
proof (rule keepsI)
  fix p r
  assume p: "proc_shape i p" and r: "andthen f g p = Some r"
  show "kept i (pr_multi p) (pr_multi (after r))"
  proof (cases "f p")
    case None
    then show ?thesis using r by (simp add: andthen_def)
  next
    case (Some s)
    note k = keepsD [OF assms(1) p Some]
    show ?thesis
    proof (cases s)
      case (Go q)
      then have "kept i (pr_multi p) (pr_multi q)" using k by simp
      moreover have "g q = Some r" using r Some Go by (simp add: andthen_def)
      ultimately show ?thesis using keepsD [OF assms(2) kept_shape [OF p]] kept_trans by blast
    qed (use k r Some in \<open>auto simp: andthen_def\<close>)
  qed
qed

lemma moved_prim:
  assumes "ks_key_id ks = ks_key_id (ts_primary s)" "ks_shape (ts_primary s) \<Longrightarrow> ks_shape ks"
    "ks_state (ts_primary s) \<ge> S_INITIAL \<Longrightarrow> ks_state ks \<ge> S_INITIAL"
  shows "moved s (s\<lparr>ts_primary := ks\<rparr>)"
  using assms by (simp add: moved_def)

lemma kept_set_prim:
  assumes "proc_shape i p" "ks_key_id ks = ks_key_id (prim i p)" "ks_shape ks"
    "ks_state (prim i p) \<ge> S_INITIAL \<Longrightarrow> ks_state ks \<ge> S_INITIAL"
  shows "kept i (pr_multi p) (pr_multi (set_prim i ks p))"
  using assms moved_prim [of ks "ses i p"] kept_put [of i "pr_multi p"]
  by (simp add: set_prim_def set_ses_def ses_def proc_shape_def)

lemma pr_multi_other [simp]: "pr_multi (note_change p) = pr_multi p"
  by (simp add: note_change_def)

lemma keeps_initial: "keeps i (seg_initial env i)"
proof (rule keepsI)
  fix p r
  assume p: "proc_shape i p" and r: "seg_initial env i p = Some r"
  note sh = shape_parts [OF p]
  show "kept i (pr_multi p) (pr_multi (after r))"
  proof (cases "ks_state (prim i p) = S_INITIAL")
    case False
    with r show ?thesis by (auto simp: seg_initial_def Let_def)
  next
    case True
    from r True obtain j r1 where g: "reliable_get_buf_output_sequenced (ks_send_reliable (prim i p)) = Some (j, r1)"
      by (auto simp: seg_initial_def Let_def split: option.splits)
    note a = get_buf_output_shape [OF conjunct1 [OF sh] g]
    then have c: "rel_shape r1" using same_active_counts by blast
    show ?thesis
    proof (cases j)
      case None
      with r True g have "after r = set_prim i ((prim i p)\<lparr>ks_send_reliable := r1\<rparr>) p" by (auto simp: seg_initial_def Let_def)
      then show ?thesis using p sh c True by (simp add: kept_set_prim ks_shape_def)
    next
      case (Some k)
      with r True g obtain r2 t n x where r2: "reliable_mark_active_outgoing r1 k (ks_initial_opcode (prim i p)) = Some r2"
        and re: "after r = note_change (set_prim i ((prim i p)\<lparr>ks_initial := t, ks_must_negotiate := n, ks_auth_deferred_expire := x,
          ks_send_reliable := r2, ks_state := S_PRE_START\<rparr>) p)"
        by (auto simp: seg_initial_def Let_def split: option.splits)
      have "rel_shape r2" using mark_outgoing_shape [OF c r2] a Some by blast
      then show ?thesis using p sh unfolding re by (simp add: kept_set_prim ks_shape_def state_defs)
    qed
  qed
qed

lemma keeps_timed_out: "keeps i (seg_timed_out env i)"
  by (rule keepsI) (auto simp: seg_timed_out_def split: if_splits)

lemma keeps_start: "keeps i (seg_start i)"
  by (rule keepsI) (auto simp: seg_start_def Let_def ks_shape_def state_defs shape_parts intro!: kept_set_prim split: if_splits)

lemma keeps_established: "keeps i (seg_established env i)"
proof (rule keepsI)
  fix p r
  assume p: "proc_shape i p" and r: "seg_established env i p = Some r"
  define c where "c \<longleftrightarrow> (ks_state (prim i p) = S_GOT_KEY \<and> \<not> server_of p \<or> ks_state (prim i p) = S_SENT_KEY \<and> server_of p)
    \<and> FULL_SYNC (prim i p)"
  show "kept i (pr_multi p) (pr_multi (after r))"
  proof (cases c)
    case False
    then show ?thesis using r unfolding c_def by (simp only: seg_established_def Let_def if_False option.inject) (auto simp: kept_refl)
  next
    case True
    let ?k = "(prim i p)\<lparr>ks_established := pe_clock env (pr_tick p), ks_state := S_ACTIVE, ks_must_negotiate := 0\<rparr>"
    from True r obtain k1 st where k1: "flush_payload_buffer (pe_tls env) ?k = Some k1"
      and re: "after r = note_change (set_prim i k1 (p\<lparr>pr_multi := (if tm_multi_state (pr_multi p) = CAS_NOT_CONNECTED
           then (pr_multi p)\<lparr>tm_multi_state := st\<rparr> else pr_multi p)\<rparr>))"
      unfolding c_def by (auto simp: seg_established_def Let_def split: option.splits)
    have "ks_key_id k1 = ks_key_id (prim i p)" using k1 by (auto simp: flush_payload_buffer_def split: if_splits option.splits)
    then have "moved (ses i p) ((ses i p)\<lparr>ts_primary := k1\<rparr>)"
      using flush_payload_fields [OF k1] shape_parts [OF p] by (intro moved_prim) (simp_all add: ks_shape_def state_defs)
    then show ?thesis unfolding re set_prim_multi using p
      by (simp add: kept_def put_session_def proc_shape_def ses_def)
  qed
qed

lemma write_packet_kept:
  assumes "proc_shape i p" "write_packet env i b op n pre p = Some q"
  shows "kept i (pr_multi p) (pr_multi q)"
proof -
  from assms(2) obtain w a where "pr_multi q = put_session i ((ses i p)\<lparr>ts_wrap := w, ts_primary := (prim i p)\<lparr>ks_rec_ack := a\<rparr>\<rparr>) (pr_multi p)"
    by (auto simp: write_packet_def Let_def set_ses_def split: option.splits prod.splits)
  moreover have "moved (ses i p) ((ses i p)\<lparr>ts_wrap := w, ts_primary := (prim i p)\<lparr>ks_rec_ack := a\<rparr>\<rparr>)"
    by (simp add: moved_def ks_shape_def)
  ultimately show ?thesis using assms(1) kept_put [of i "pr_multi p"] by (simp add: proc_shape_def ses_def)
qed

lemma best_to_send_range: "best_to_send now r = Some j \<Longrightarrow> j < slots r"
proof -
  have "fold (\<lambda>i best. let e = slot r i in if re_active e \<and> (re_n_acks e \<ge> N_ACK_RETRANSMIT \<or> now \<ge> re_next_try e)
           then (case best of None \<Rightarrow> Some i | Some j \<Rightarrow> if reliable_pid_min (re_packet_id e) (re_packet_id (slot r j)) then Some i else best)
           else best) xs b = Some j \<Longrightarrow> j \<in> set xs \<or> b = Some j" for xs b
    by (induction xs arbitrary: b) (fastforce simp: Let_def split: if_splits option.splits)+
  from this [of "idxs r" None] show "best_to_send now r = Some j \<Longrightarrow> j < slots r"
    by (simp add: best_to_send_def)
qed

lemma send_rel_shape: "rel_shape r \<Longrightarrow> reliable_send now r = (x, r1) \<Longrightarrow> rel_shape r1"
  by (auto simp: reliable_send_def rel_shape_def split: option.splits)

lemma keeps_send: "keeps i (seg_send env i)"
proof (rule keepsI)
  fix p r
  assume p: "proc_shape i p" and r: "seg_send env i p = Some r"
  let ?now = "pe_clock env (pr_tick p)"
  define c where "c \<longleftrightarrow> blen (pr_to_link p) = 0 \<and> reliable_can_send ?now (ks_send_reliable (prim i p))"
  show "kept i (pr_multi p) (pr_multi (after r))"
  proof (cases c)
    case False
    then show ?thesis using r unfolding c_def by (simp only: seg_send_def Let_def if_False option.inject) (auto simp: kept_refl)
  next
    case True
    from True r obtain j op r1 b q where s: "reliable_send ?now (ks_send_reliable (prim i p)) = (Some (j, op), r1)"
      and w: "write_packet env i b op CONTROL_SEND_ACK_MAX True (set_prim i ((prim i p)\<lparr>ks_send_reliable := r1\<rparr>) p) = Some q"
      and re: "after r = note_change q"
      unfolding c_def by (auto simp: seg_send_def Let_def split: option.splits prod.splits)
    have k: "kept i (pr_multi p) (pr_multi (set_prim i ((prim i p)\<lparr>ks_send_reliable := r1\<rparr>) p))"
      using p shape_parts [OF p] send_rel_shape [OF _ s] by (intro kept_set_prim) (simp_all add: ks_shape_def)
    have "kept i (pr_multi (set_prim i ((prim i p)\<lparr>ks_send_reliable := r1\<rparr>) p)) (pr_multi q)"
      by (rule write_packet_kept [OF kept_shape [OF p k] w])
    with k show ?thesis unfolding re by (simp add: kept_trans)
  qed
qed

lemma keeps_deliver: "keeps i (seg_deliver env i)"
proof (rule keepsI)
  fix p r
  assume p: "proc_shape i p" and r: "seg_deliver env i p = Some r"
  note sh = shape_parts [OF p]
  show "kept i (pr_multi p) (pr_multi (after r))"
  proof (cases "reliable_get_buf_sequenced (ks_rec_reliable (prim i p))")
    case None
    with r show ?thesis by (auto simp: seg_deliver_def Let_def)
  next
    case (Some j)
    with r obtain st seg bs r1 t where d: "deliver_ciphertext st (ks_rec_reliable (prim i p)) = Some (seg, bs, r1)"
      and re: "pr_multi (after r) = pr_multi (set_prim i ((prim i p)\<lparr>ks_rec_reliable := r1, ks_ssl := t\<rparr>) p)"
      by (auto simp: seg_deliver_def Let_def split: option.splits prod.splits seg_status.splits)
    show ?thesis unfolding re using p sh deliver_shape [OF conjunct2 [OF sh] d]
      by (intro kept_set_prim) (simp_all add: ks_shape_def)
  qed
qed

lemma keeps_read_plaintext: "keeps i (seg_read_plaintext env i)"
proof (rule keepsI)
  fix p r
  assume p: "proc_shape i p" and r: "seg_read_plaintext env i p = Some r"
  show "kept i (pr_multi p) (pr_multi (after r))"
  proof (cases "blen (ks_plaintext_read_buf (prim i p)) = 0")
    case False
    with r show ?thesis by (auto simp: seg_read_plaintext_def Let_def)
  next
    case True
    with r obtain b t where
      re: "pr_multi (after r) = pr_multi (set_prim i ((prim i p)\<lparr>ks_plaintext_read_buf := b, ks_ssl := t\<rparr>) p)"
      by (auto simp: seg_read_plaintext_def Let_def split: option.splits prod.splits bool.splits if_splits)
    show ?thesis unfolding re using p shape_parts [OF p] by (intro kept_set_prim) (simp_all add: ks_shape_def)
  qed
qed

lemma keeps_send_key: "keeps i (seg_send_key env i)"
proof (rule keepsI)
  fix p r
  assume p: "proc_shape i p" and r: "seg_send_key env i p = Some r"
  define c where "c \<longleftrightarrow> blen (ks_plaintext_write_buf (prim i p)) = 0
    \<and> (ks_state (prim i p) = S_START \<and> \<not> server_of p \<or> ks_state (prim i p) = S_GOT_KEY \<and> server_of p)"
  show "kept i (pr_multi p) (pr_multi (after r))"
  proof (cases c)
    case False
    then show ?thesis using r unfolding c_def by (simp only: seg_send_key_def Let_def if_False option.inject) (auto simp: kept_refl)
  next
    case True
    with r obtain ok k2 b where km: "key_method_2_write (pe_rand env) (pe_km2_opts env) (ks_key_src (prim i p))
        (ks_plaintext_write_buf (prim i p)) = Some (ok, k2, b)"
      unfolding c_def by (auto simp: seg_send_key_def Let_def split: option.splits)
    have re: "pr_multi (after r) = pr_multi (set_prim i ((prim i p)\<lparr>ks_key_src := k2, ks_plaintext_write_buf := b,
        ks_state := (if ok then S_SENT_KEY else ks_state (prim i p))\<rparr>) p)"
      using True r km unfolding c_def by (auto simp: seg_send_key_def Let_def split: if_splits)
    show ?thesis unfolding re using p shape_parts [OF p] by (intro kept_set_prim) (simp_all add: ks_shape_def state_defs)
  qed
qed

lemma like_deauth: "like s (deauth_session s)"
  by (simp add: like_def ks_like_def deauth_session_def)

lemma like_moved: "like s s' \<Longrightarrow> moved s s'"
  by (simp add: like_def moved_def ks_like_def ks_shape_def)

lemma kept_sessions:
  assumes "length (tm_session m') = length (tm_session m)" "tm_opt m' = tm_opt m"
    "\<And>j. j < length (tm_session m) \<Longrightarrow> like (tm_session m ! j) (tm_session m' ! j)" "i < length (tm_session m)"
  shows "kept i m m'"
  using assms like_moved [OF assms(3) [OF assms(4)]] by (simp add: kept_def)

lemma deauth_like: "j < length (tm_session m) \<Longrightarrow> like (tm_session m ! j) (tm_session (tls_deauthenticate m) ! j)"
  by (simp add: tls_deauthenticate_def like_deauth)

lemma keeps_receive_key: "keeps i (seg_receive_key env i)"
proof (rule keepsI)
  fix p r
  assume p: "proc_shape i p" and r: "seg_receive_key env i p = Some r"
  define c where "c \<longleftrightarrow> blen (ks_plaintext_read_buf (prim i p)) \<noteq> 0
    \<and> (ks_state (prim i p) = S_SENT_KEY \<and> \<not> server_of p \<or> ks_state (prim i p) = S_START \<and> server_of p)"
  show "kept i (pr_multi p) (pr_multi (after r))"
  proof (cases c)
    case False
    then show ?thesis using r unfolding c_def by (simp only: seg_receive_key_def Let_def if_False option.inject) (auto simp: kept_refl)
  next
    case True
    let ?m = "if pe_deauth env then tls_deauthenticate (pr_multi p) else pr_multi p"
    let ?k = "\<lambda>src au b st. (prim i p)\<lparr>ks_key_src := src, ks_authenticated := au, ks_plaintext_read_buf := b, ks_state := st\<rparr>"
    obtain src au x y z b ok where km: "key_method_2_read (pe_km2_env env)
        \<lparr>kr_key_src = ks_key_src (prim i p), kr_authenticated = ks_authenticated (prim i p), kr_peer_info = tm_peer_info (pr_multi p),
          kr_remote_ciphername = tm_remote_ciphername (pr_multi p), kr_remote_usescomp = tm_remote_usescomp (pr_multi p)\<rparr>
        (ks_plaintext_read_buf (prim i p)) = (ok, \<lparr>kr_key_src = src, kr_authenticated = au, kr_peer_info = x, kr_remote_ciphername = y, kr_remote_usescomp = z\<rparr>, b)"
      by (metis km2_state.cases prod.exhaust)
    define m1 where "m1 = ?m\<lparr>tm_peer_info := x, tm_remote_ciphername := y, tm_remote_usescomp := z\<rparr>"
    have re: "pr_multi (after r) = pr_multi (set_prim i (?k src au b (if ok then S_GOT_KEY else ks_state (prim i p))) (p\<lparr>pr_multi := m1\<rparr>))"
      using True r km unfolding c_def m1_def by (auto simp: seg_receive_key_def Let_def split: if_splits)
    have l: "i < length (tm_session (pr_multi p))" using p by (simp add: proc_shape_def)
    have k: "kept i (pr_multi p) m1" using l deauth_like by (intro kept_sessions) (auto simp: m1_def)
    have "moved (tm_session m1 ! i) ((tm_session m1 ! i)\<lparr>ts_primary := ?k src au b (if ok then S_GOT_KEY else ks_state (prim i p))\<rparr>)"
    proof (rule moved_prim)
      have "ks_like (prim i p) (ts_primary (tm_session m1 ! i))"
        using l deauth_like [of i "pr_multi p"] by (auto simp: m1_def ses_def like_def)
      then show "ks_key_id (?k src au b (if ok then S_GOT_KEY else ks_state (prim i p))) = ks_key_id (ts_primary (tm_session m1 ! i))"
        "ks_shape (?k src au b (if ok then S_GOT_KEY else ks_state (prim i p)))"
        "ks_state (ts_primary (tm_session m1 ! i)) \<ge> S_INITIAL \<Longrightarrow> ks_state (?k src au b (if ok then S_GOT_KEY else ks_state (prim i p))) \<ge> S_INITIAL"
        using shape_parts [OF p] by (simp_all add: ks_like_def ks_shape_def state_defs)
    qed
    from kept_put_other [OF k this l] show ?thesis unfolding re set_prim_multi by simp
  qed
qed

lemma keeps_write_plaintext: "keeps i (seg_write_plaintext env i)"
proof (rule keepsI)
  fix p r
  assume p: "proc_shape i p" and r: "seg_write_plaintext env i p = Some r"
  show "kept i (pr_multi p) (pr_multi (after r))"
  proof (cases "blen (ks_plaintext_write_buf (prim i p)) = 0")
    case True
    with r show ?thesis by (auto simp: seg_write_plaintext_def Let_def)
  next
    case False
    with r obtain tls where tls: "ks_ssl (prim i p) = Some tls"
      by (auto simp: seg_write_plaintext_def Let_def split: option.splits)
    obtain st t where w: "tls_obj_write (pe_tls env) tls (content (ks_plaintext_write_buf (prim i p))) = (st, t)"
      by (rule prod.exhaust)
    have re: "pr_multi (after r) = pr_multi (set_prim i ((prim i p)\<lparr>ks_ssl := Some t,
        ks_plaintext_write_buf := bio_write_post st (ks_plaintext_write_buf (prim i p))\<rparr>) p)"
      using False r tls w by (auto simp: seg_write_plaintext_def Let_def split: if_splits)
    show ?thesis unfolding re using p shape_parts [OF p] by (intro kept_set_prim) (simp_all add: ks_shape_def)
  qed
qed

lemma keeps_output: "keeps i (seg_output env i)"
proof (rule keepsI)
  fix p r
  assume p: "proc_shape i p" and r: "seg_output env i p = Some r"
  note sh = shape_parts [OF p]
  show "kept i (pr_multi p) (pr_multi (after r))"
  proof (cases "ks_state (prim i p) < S_START")
    case True
    with r show ?thesis by (auto simp: seg_output_def Let_def)
  next
    case False
    from False r obtain j r1 where g: "reliable_get_buf_output_sequenced (ks_send_reliable (prim i p)) = Some (j, r1)"
      by (auto simp: seg_output_def Let_def split: option.splits)
    obtain r2 t where "rel_shape r2"
      and re: "pr_multi (after r) = pr_multi (set_prim i ((prim i p)\<lparr>ks_send_reliable := r2, ks_ssl := t\<rparr>) p)"
    proof (cases j)
      case None
      have "rel_shape r1" using get_buf_output_shape [OF conjunct1 [OF sh] g] same_active_counts by blast
      moreover from None False r g have "pr_multi (after r) = pr_multi (set_prim i ((prim i p)\<lparr>ks_send_reliable := r1, ks_ssl := ks_ssl (prim i p)\<rparr>) p)"
        by (auto simp: seg_output_def Let_def)
      ultimately show thesis by (rule that)
    next
      case (Some k)
      with False r g obtain bio n op seg r2 t where o: "output_ciphertext bio n op (ks_send_reliable (prim i p)) = Some (seg, r2)"
        and re: "pr_multi (after r) = pr_multi (set_prim i ((prim i p)\<lparr>ks_send_reliable := r2, ks_ssl := t\<rparr>) p)"
        by (auto simp: seg_output_def Let_def split: option.splits prod.splits seg_status.splits)
      from output_shape [OF conjunct1 [OF sh] o] have "rel_shape r2" by blast
      then show thesis using re by (rule that)
    qed
    then show ?thesis unfolding re using p sh by (intro kept_set_prim) (simp_all add: ks_shape_def)
  qed
qed

lemma keeps_round_body: "keeps i (round_body env i)"
  unfolding round_body_def
  by (intro keeps_andthen keeps_initial keeps_timed_out keeps_start keeps_established keeps_send
      keeps_deliver keeps_read_plaintext keeps_send_key keeps_receive_key keeps_write_plaintext keeps_output)

subsection \<open>The operations keep the invariant\<close>

lemma loop_kept:
  "proc_shape i p \<Longrightarrow> proc_loop n env i p = Some r \<Longrightarrow> kept i (pr_multi p) (pr_multi (after r))"
proof (induction n arbitrary: p)
  case 0
  then show ?case by auto
next
  case (Suc n)
  have p: "proc_shape i (p\<lparr>pr_change := False, pr_tick := pr_tick p + 1\<rparr>)"
    using Suc.prems(1) unfolding proc_shape_def ses_def by simp
  from Suc.prems(2) obtain s where s: "proc_round env i p = Some s" by (auto split: option.splits)
  have k: "kept i (pr_multi p) (pr_multi (after s))"
    using keepsD [OF keeps_round_body p s [unfolded proc_round_def]] by simp
  show ?case
  proof (cases "\<exists>q. s = Go q \<and> pr_change q")
    case True
    then obtain q where q: "s = Go q" "pr_change q" by blast
    have "proc_loop n env i q = Some r" using Suc.prems(2) s q by simp
    from Suc.IH [OF kept_shape [OF Suc.prems(1)] this] k q show ?thesis by (simp add: kept_trans)
  next
    case False
    then have "after r = after s" using Suc.prems(2) s by (cases s) auto
    then show ?thesis using k by simp
  qed
qed

definition clock_ok :: "'tls proc_env \<Rightarrow> bool" where
  "clock_ok env \<longleftrightarrow> (\<forall>n. 0 < pe_clock env n)"

lemma clear_fine [simp]: "ks_fine key_state_clear" "ks_state key_state_clear = S_UNDEF"
  by (simp_all add: ks_fine_def key_state_clear_def)

lemma lame_freed_ok: "sess_ok s \<Longrightarrow> sess_ok (s\<lparr>ts_lame := key_state_clear\<rparr>)"
  by (simp add: sess_ok_def state_defs)

lemma enter_ok:
  assumes "tunnel_ok (pr_multi p)" "i \<in> {TM_ACTIVE, TM_UNTRUSTED}" "clock_ok env"
    and "ks_state (prim i p) \<ge> S_INITIAL" "proc_enter env i p = Some q"
  shows "tunnel_ok (pr_multi q) \<and> ks_state (prim i q) \<ge> S_INITIAL \<and> tm_opt (pr_multi q) = tm_opt (pr_multi p)"
proof -
  have i: "i < TM_SIZE" "i \<noteq> TM_LAME_DUCK" "i < length (tm_session (pr_multi p))"
    using assms(1,2) by (auto simp: tunnel_ok_def tm_defs)
  note so = tunnel_sess_ok [OF assms(1) i(1)]
  define X where "X = (if soft_reset_due (pe_clock env (pr_tick p)) (tm_opt (pr_multi p)) (prim i p)
       then map_option (\<lambda>s. (set_ses i s p)\<lparr>pr_tick := pr_tick p + 1\<rparr>)
              (key_state_soft_reset (pe_tls env) (tm_opt (pr_multi p)) (pe_clock env (pr_tick p)) (ses i p))
       else Some p)"
  obtain p1 where p1: "X = Some p1" and
    "lame_duck_must_die (pe_clock env (pr_tick p1)) (ses i p1) (pr_wakeup p1) \<bind> (\<lambda>(die, w).
       Some (if die then set_ses i ((ses i (p1\<lparr>pr_wakeup := w\<rparr>))\<lparr>ts_lame := key_state_free (ts_lame (ses i (p1\<lparr>pr_wakeup := w\<rparr>))) True\<rparr>) (p1\<lparr>pr_wakeup := w\<rparr>)
             else p1\<lparr>pr_wakeup := w\<rparr>)) = Some q"
    using assms(5) [unfolded proc_enter_def Let_def, folded X_def] by (cases X) (simp_all split: if_splits)
  then have q: "pr_multi q = pr_multi p1 \<or> pr_multi q = put_session i ((ses i p1)\<lparr>ts_lame := key_state_clear\<rparr>) (pr_multi p1)"
    by (auto simp: Option.bind_eq_Some_conv set_ses_def ses_def key_state_free_def split: if_splits)
  have 1: "tunnel_ok (pr_multi p1) \<and> ks_state (prim i p1) \<ge> S_INITIAL \<and> tm_opt (pr_multi p1) = tm_opt (pr_multi p)"
  proof (cases "soft_reset_due (pe_clock env (pr_tick p)) (tm_opt (pr_multi p)) (prim i p)")
    case True
    with p1 [unfolded X_def] obtain s where s: "key_state_soft_reset (pe_tls env) (tm_opt (pr_multi p)) (pe_clock env (pr_tick p)) (ses i p) = Some s"
      and e: "pr_multi p1 = put_session i s (pr_multi p)" by (auto simp: set_ses_def)
    have "0 < pe_clock env (pr_tick p)" "0 \<le> to_transition_window (tm_opt (pr_multi p))"
      using assms(1,3) by (simp_all add: clock_ok_def tunnel_ok_def)
    from soft_reset_ok [OF s so [folded ses_def] assms(4) this] show ?thesis
      using tunnel_ok_put [OF assms(1), of s i] i e by (simp add: ses_def put_session_def state_defs)
  next
    case False
    then show ?thesis using p1 [unfolded X_def] assms(1,4) by simp
  qed
  then have so1: "sess_ok (ses i p1)" and l: "i < length (tm_session (pr_multi p1))"
    using tunnel_sess_ok [of "pr_multi p1" i] i by (simp_all add: ses_def tunnel_ok_def)
  from q show ?thesis
  proof
    assume "pr_multi q = pr_multi p1"
    then show ?thesis using 1 by (simp only: ses_def)
  next
    assume "pr_multi q = put_session i ((ses i p1)\<lparr>ts_lame := key_state_clear\<rparr>) (pr_multi p1)"
    then show ?thesis using 1 tunnel_ok_put [OF conjunct1 [OF 1] lame_freed_ok [OF so1], of i] i(2) l
      by (cases "i = TM_ACTIVE") (auto simp add: ses_def put_session_def state_defs)
  qed
qed

lemma process_ok:
  assumes "tunnel_ok (pr_multi p)" "i \<in> {TM_ACTIVE, TM_UNTRUSTED}" "clock_ok env"
    and "ks_state (prim i p) \<ge> S_INITIAL" "tls_process env i p = Some q"
  shows "tunnel_ok (pr_multi q) \<and> tm_opt (pr_multi q) = tm_opt (pr_multi p)
    \<and> (ks_state (prim i q) \<ge> S_INITIAL \<or> ks_state (prim i q) = S_ERROR)"
proof -
  let ?p0 = "p\<lparr>pr_active := False, pr_to_addr := None\<rparr>"
  from assms(5) obtain p1 r where p1: "proc_enter env i ?p0 = Some p1" and r: "proc_loop PROC_ROUNDS env i p1 = Some r"
    and q: "(case r of Stop q \<Rightarrow> proc_leave env i q
       | Error q \<Rightarrow> Some ((set_prim i ((prim i q)\<lparr>ks_state := S_ERROR\<rparr>) q)\<lparr>pr_active := False\<rparr>) | Go q \<Rightarrow> None) = Some q"
    by (auto simp: tls_process_def Option.bind_eq_Some_conv)
  have p0: "pr_multi ?p0 = pr_multi p" by simp
  then have pr0: "prim i ?p0 = prim i p" by (simp only: ses_def)
  have 1: "tunnel_ok (pr_multi p1) \<and> ks_state (prim i p1) \<ge> S_INITIAL \<and> tm_opt (pr_multi p1) = tm_opt (pr_multi p)"
    using enter_ok [OF _ assms(2,3) _ p1] assms(1,4) unfolding p0 pr0 by blast
  have l: "i < TM_SIZE" using assms(2) by (auto simp: tm_defs)
  have "proc_shape i p1"
    using 1 l tunnel_sess_ok [of "pr_multi p1" i] by (auto simp: proc_shape_def tunnel_ok_def sess_ok_def ks_fine_def ses_def state_defs)
  from loop_kept [OF this r] have k: "kept i (pr_multi p1) (pr_multi (after r))" .
  note a = kept_ok [OF k conjunct1 [OF 1] assms(2), folded ses_def] 
  have ao: "tm_opt (pr_multi (after r)) = tm_opt (pr_multi p)" using k 1 by (simp add: kept_def)
  show ?thesis
  proof (cases r)
    case (Stop q0)
    with q obtain q1 where q1: "send_acks env i (q0\<lparr>pr_tick := pr_tick q0 + 1\<rparr>) = Some q1" and e: "pr_multi q = pr_multi q1"
      by (auto simp: proc_leave_def Let_def Option.bind_eq_Some_conv split: if_splits)
    have t0: "tunnel_ok (pr_multi q0)" "ks_state (prim i q0) \<ge> S_INITIAL" using a 1 Stop by simp_all
    have "proc_shape i (q0\<lparr>pr_tick := pr_tick q0 + 1\<rparr>)"
      using t0 l tunnel_sess_ok [of "pr_multi q0" i] by (auto simp: proc_shape_def tunnel_ok_def sess_ok_def ks_fine_def ses_def state_defs)
    then have "kept i (pr_multi q0) (pr_multi q1)"
      using q1 write_packet_kept by (fastforce simp: send_acks_def split: if_splits prod.splits bool.splits)
    then have "tunnel_ok (pr_multi q1)" "ks_state (prim i q1) \<ge> S_INITIAL" "tm_opt (pr_multi q1) = tm_opt (pr_multi q0)"
      using kept_ok [OF _ t0(1) assms(2)] t0(2) by (simp_all add: ses_def kept_def)
    then show ?thesis using ao Stop e by (simp add: ses_def)
  next
    case (Error q0)
    have t0: "tunnel_ok (pr_multi q0)" "ks_state (prim i q0) \<ge> S_INITIAL" using a 1 Error by simp_all
    have so: "sess_ok (ses i q0)" using tunnel_sess_ok [OF t0(1) l] by (simp add: ses_def)
    have "sess_ok ((ses i q0)\<lparr>ts_primary := (prim i q0)\<lparr>ks_state := S_ERROR\<rparr>\<rparr>)"
      using so t0(2) by (auto simp: sess_ok_def ks_fine_def ks_shape_def state_defs)
    moreover have e: "pr_multi q = put_session i ((ses i q0)\<lparr>ts_primary := (prim i q0)\<lparr>ks_state := S_ERROR\<rparr>\<rparr>) (pr_multi q0)"
      using q Error by (auto simp: set_prim_def set_ses_def)
    moreover have "i \<noteq> TM_LAME_DUCK" using assms(2) by (auto simp: tm_defs)
    ultimately have "tunnel_ok (pr_multi q)" using tunnel_ok_put [OF t0(1)] by (simp add: state_defs)
    moreover have "ks_state (prim i q) = S_ERROR" "tm_opt (pr_multi q) = tm_opt (pr_multi q0)"
      using e l t0(1) by (simp_all add: ses_def put_session_def tunnel_ok_def)
    ultimately show ?thesis using ao Error by simp
  next
    case (Go q0)
    then show ?thesis using q by simp
  qed
qed

lemma move_session_ok:
  assumes "move_session env sids m dest src True = Some m'" "tunnel_ok m"
    and "dest = TM_LAME_DUCK \<longrightarrow> ks_state (ts_primary (tm_session m ! src)) \<le> S_UNDEF" "src \<noteq> TM_LAME_DUCK"
    and "dest = TM_ACTIVE \<longrightarrow> ks_state (ts_primary (tm_session m ! src)) \<noteq> S_UNDEF"
  shows "tunnel_ok m'"
proof -
  from assms(1) obtain s where s: "tls_session_init env (tm_opt m) sids = Some s" "src < TM_SIZE"
    and m': "m' = put_session src s (put_session dest (tm_session m ! src) m)"
    by (auto simp: move_session_def Let_def Option.bind_eq_Some_conv)
  show ?thesis unfolding m'
    using assms s tls_session_init_ok [OF s(1)] tunnel_sess_ok [OF assms(2) s(2)] by (intro tunnel_ok_put) (auto simp: state_defs)
qed

lemma reset_session_ok:
  assumes "reset_session env sids m i = Some m'" "tunnel_ok m" "i \<noteq> TM_LAME_DUCK"
  shows "tunnel_ok m'"
  using assms by (auto simp: reset_session_def Option.bind_eq_Some_conv state_defs dest: tls_session_init_ok intro!: tunnel_ok_put)

lemma after_error_ok:
  assumes "after_error env i m = Some m'" "tunnel_ok m" "i \<in> {TM_ACTIVE, TM_UNTRUSTED}"
    and "ks_state (ts_primary (tm_session m ! i)) = S_ERROR"
  shows "tunnel_ok m'"
proof -
  let ?m = "m\<lparr>tm_n_soft_errors := tm_n_soft_errors m + 1\<rparr>"
  have t: "tunnel_ok ?m" by (rule tunnel_ok_other [OF assms(2)]) simp_all
  have i: "i \<noteq> TM_LAME_DUCK" using assms(3) by (auto simp: tm_defs)
  from assms(1) have "(i = TM_ACTIVE \<and> move_session (pe_tls env) (pe_sids env i) ?m TM_LAME_DUCK TM_ACTIVE True = Some m')
     \<or> reset_session (pe_tls env) (pe_sids env i) ?m i = Some m'"
    by (auto simp: after_error_def Let_def split: if_splits)
  then show ?thesis
  proof
    assume a: "i = TM_ACTIVE \<and> move_session (pe_tls env) (pe_sids env i) ?m TM_LAME_DUCK TM_ACTIVE True = Some m'"
    then show ?thesis using move_session_ok [OF conjunct2 [OF a] t] assms(4) by (simp add: state_defs)
  qed (rule reset_session_ok [OF _ t i])
qed

lemma multi_session_ok:
  assumes "tunnel_ok (pr_multi (mp_proc mp))" "i < TM_SIZE" "clock_ok env" "multi_session env i mp = Some mp'"
  shows "tunnel_ok (pr_multi (mp_proc mp'))"
proof -
  let ?p = "mp_proc mp"
  define p1 where "p1 = (if i = TM_ACTIVE \<and> ks_state (prim i ?p) = S_INITIAL \<and> link_socket_actual_defined (pe_lsa_actual env)
     then set_prim i ((prim i ?p)\<lparr>ks_remote_addr := pe_lsa_actual env\<rparr>) ?p else ?p)"
  have so: "sess_ok (ses i ?p)" using tunnel_sess_ok [OF assms(1,2)] by (simp add: ses_def)
  have "tunnel_ok (pr_multi (set_prim i ((prim i ?p)\<lparr>ks_remote_addr := a\<rparr>) ?p))" if "i = TM_ACTIVE" for a
    using so that unfolding set_prim_def set_ses_def
    using assms(1)
    by (simp, intro tunnel_ok_put [OF assms(1)]) (simp_all add: sess_ok_def ks_fine_def ks_shape_def tunnel_ok_def ses_def)
  then have t1: "tunnel_ok (pr_multi p1)" using assms(1) unfolding p1_def by simp
  note e = assms(4) [unfolded multi_session_def Let_def, folded p1_def]
  show ?thesis
  proof (cases "ks_state (prim i p1) \<ge> S_INITIAL \<and> link_socket_actual_defined (ks_remote_addr (prim i p1))")
    case False
    then have "mp' = mp\<lparr>mp_proc := p1\<rparr>" using e by (simp only: if_False option.inject)
    then show ?thesis using t1 by simp
  next
    case True
    have i: "i \<in> {TM_ACTIVE, TM_UNTRUSTED}"
    proof (rule ccontr)
      assume "i \<notin> {TM_ACTIVE, TM_UNTRUSTED}"
      then have "i = TM_LAME_DUCK" using assms(2) by (auto simp: tm_defs)
      then show False using True t1 by (simp add: tunnel_ok_def ses_def state_defs)
    qed
    let ?p2 = "p1\<lparr>pr_tick := pr_tick p1 + 1\<rparr>"
    have p2: "pr_multi ?p2 = pr_multi p1" "prim i ?p2 = prim i p1" by (simp_all add: ses_def)
    from True e obtain q where q: "tls_process env i ?p2 = Some q"
      by (auto simp: Option.bind_eq_Some_conv simp del: One_nat_def)
    define m1 where "m1 = (case pr_to_addr q of None \<Rightarrow> pr_multi q | Some a \<Rightarrow> (pr_multi q)\<lparr>tm_to_link_addr := a\<rparr>)"
    have P: "tunnel_ok (pr_multi q)" "ks_state (prim i q) \<ge> S_INITIAL \<or> ks_state (prim i q) = S_ERROR"
      using process_ok [OF _ i assms(3) _ q] t1 True unfolding p2 by blast+
    have m1: "tunnel_ok m1" "tm_session m1 = tm_session (pr_multi q)"
      using P(1) by (auto simp: m1_def split: option.splits intro: tunnel_ok_other)
    show ?thesis
    proof (cases "ks_state (prim i q) = S_ERROR")
      case False
      then have "pr_multi (mp_proc mp') = m1" using e True q unfolding m1_def by (auto simp: Option.bind_eq_Some_conv)
      then show ?thesis using m1 by simp
    next
      case err: True
      then obtain m2 where m2: "after_error env i m1 = Some m2" "pr_multi (mp_proc mp') = m2"
        using e True q unfolding m1_def by (auto simp: Option.bind_eq_Some_conv)
      then show ?thesis using after_error_ok [OF m2(1) m1(1) i] err m1(2) by (simp add: ses_def)
    qed
  qed
qed

lemma all_sessions_ok:
  assumes "\<And>i x y. i < TM_SIZE \<Longrightarrow> P x \<Longrightarrow> f i x = Some y \<Longrightarrow> P y" "P x" "all_sessions f x = Some y"
  shows "P y"
proof -
  from assms(3) obtain a b where "f TM_ACTIVE x = Some a" "f TM_UNTRUSTED a = Some b" "f TM_LAME_DUCK b = Some y"
    by (auto simp: all_sessions_def bindo_def split: option.splits)
  then show ?thesis using assms(1) [OF tm_index(1) assms(2)] assms(1) [OF tm_index(2)] assms(1) [OF tm_index(3)] by blast
qed

lemma tunnel_ok_like:
  assumes "tunnel_ok m" "i < TM_SIZE" "like (tm_session m ! i) s"
  shows "tunnel_ok (put_session i s m)"
proof (rule tunnel_ok_put [OF assms(1)])
  show "sess_ok s" by (rule like_ok [OF assms(3) tunnel_sess_ok [OF assms(1,2)]])
  show "i = TM_LAME_DUCK \<longrightarrow> ks_state (ts_primary s) \<le> S_UNDEF" "i = TM_ACTIVE \<longrightarrow> ks_state (ts_primary s) \<noteq> S_UNDEF"
    using assms by (auto simp: tunnel_ok_def like_def ks_like_def)
qed

lemma upd_scan_ok:
  assumes "tunnel_ok m" "\<And>k. ks_like k (f k)"
  shows "tunnel_ok (upd_key_scan i f m)"
  unfolding upd_key_scan_def Let_def using assms by (simp add: tunnel_ok_like like_def)

lemma upd_scan_opt [simp]: "tm_opt (upd_key_scan i f m) = tm_opt m" "tm_multi_state (upd_key_scan i f m) = tm_multi_state m"
  by (simp_all add: upd_key_scan_def Let_def put_session_def)

lemma update_auth_like: "ks_like k (update_key_auth_status now ae i c k)"
  by (simp add: update_key_auth_status_def ks_like_def Let_def split: prod.splits)

lemma tas_loop_ok:
  "tas_loop now ae c is m = Some (m', as) \<Longrightarrow> tunnel_ok m \<Longrightarrow> tunnel_ok m'"
proof (induction "is" arbitrary: m m' as)
  case (Cons i "is")
  then show ?case
  proof (cases "get_key_scan m i")
    case (Some ks)
    note g = Some
    show ?thesis
    proof (cases "TLS_AUTHENTICATED (tm_opt m) ks")
      case True
      let ?m = "upd_key_scan i (\<lambda>_. update_key_auth_status now ae i c ks) m"
      have "?m = upd_key_scan i (update_key_auth_status now ae i c) m"
        using g by (auto simp: get_key_scan_def upd_key_scan_def Let_def split: if_splits)
      then have t: "tunnel_ok ?m" using upd_scan_ok [OF Cons.prems(2) update_auth_like] by simp
      from Cons.prems(1) g True obtain as' where "tas_loop now ae c is ?m = Some (m', as')" by (auto simp: Let_def)
      from Cons.IH [OF this t] show ?thesis .
    next
      case False
      then show ?thesis using Cons g by simp
    qed
  qed simp
qed simp

lemma auth_status_ok:
  assumes "tls_authentication_status now ae m = Some (st, m')" "tunnel_ok m"
  shows "tunnel_ok m'"
proof -
  from assms(1) obtain m1 as where "tas_loop now ae (tls_authentication_status_use_cache now m) [0..<KEY_SCAN_SIZE] m = Some (m1, as)"
    and e: "tm_session m' = tm_session m1" "tm_opt m' = tm_opt m1"
    by (auto simp: tls_authentication_status_def Let_def split: option.splits if_splits)
  from tunnel_ok_other [OF tas_loop_ok [OF this(1) assms(2)]] e show ?thesis by simp
qed

lemma generate_session_ok:
  assumes "tunnel_ok m" "i < TM_SIZE" "generate_session tls i m = Some m'"
  shows "tunnel_ok m'"
proof (cases "ks_state (ts_primary (tm_session m ! i)) = S_ACTIVE \<and> ks_authenticated (ts_primary (tm_session m ! i)) = KS_AUTH_TRUE")
  case False
  then show ?thesis using assms by (auto simp: generate_session_def Let_def)
next
  case True
  let ?s = "tm_session m ! i"
  have i: "i \<noteq> TM_LAME_DUCK" using True assms(1) by (auto simp: tunnel_ok_def state_defs)
  from assms(3) True obtain ok opt s1 where g: "tls_session_generate_data_channel_keys tls (tm_opt m) ?s = Some (ok, opt, s1)"
    and m': "m' = put_session i (if ok then s1 else s1\<lparr>ts_primary := (ts_primary s1)\<lparr>ks_authenticated := KS_AUTH_FALSE, ks_state := S_ERROR\<rparr>\<rparr>)
      (m\<lparr>tm_opt := opt\<rparr>)"
    by (auto simp: generate_session_def Let_def split: option.splits bool.splits)
  have 1: "to_transition_window opt = to_transition_window (tm_opt m)" using g
    by (auto simp: tls_session_generate_data_channel_keys_def Let_def split: if_splits option.splits prod.splits bool.splits)
  have 2: "ts_session_id s1 = ts_session_id ?s \<and> ts_key_id s1 = ts_key_id ?s \<and> ts_lame s1 = ts_lame ?s
      \<and> ks_key_id (ts_primary s1) = ks_key_id (ts_primary ?s) \<and> ks_shape (ts_primary s1) = ks_shape (ts_primary ?s)
      \<and> (ok \<longrightarrow> ks_state (ts_primary s1) = S_GENERATED_KEYS)" using g
    by (auto simp: tls_session_generate_data_channel_keys_def Let_def ks_shape_def split: if_splits option.splits prod.splits bool.splits)
  have "sess_ok (if ok then s1 else s1\<lparr>ts_primary := (ts_primary s1)\<lparr>ks_authenticated := KS_AUTH_FALSE, ks_state := S_ERROR\<rparr>\<rparr>)"
    using tunnel_sess_ok [OF assms(1,2)] True 2 by (auto simp: sess_ok_def ks_fine_def ks_shape_def state_defs)
  then show ?thesis unfolding m' using assms(1) 1 2 i
    by (intro tunnel_ok_put tunnel_ok_other [OF assms(1)]) (simp_all add: state_defs)
qed

lemma multi_finish_ok:
  assumes "multi_finish env now active err wakeup m = Some (st, w, m')" "tunnel_ok m"
  shows "tunnel_ok m'"
proof -
  from assms(1) obtain tas m1 m2 w2 m4 m5 where a: "tls_authentication_status now (pe_auth env) m = Some (tas, m1)"
    and g: "(if tm_multi_state m1 = CAS_CONNECT_DONE then all_sessions (generate_session (pe_tls env)) m1 else Some m1) = Some m2"
    and k: "kill_lame_session now wakeup (if tm_multi_state m2 = CAS_WAITING_AUTH \<and> tas = TLS_AUTHENTICATION_SUCCEEDED
                 then m2\<lparr>tm_multi_state := CAS_PENDING\<rparr> else m2) = Some (w2, m4)"
    and p: "promote_session env m4 = Some m5" and m': "m' = count_hard_error err m5"
    by (auto simp: multi_finish_def Let_def Option.bind_eq_Some_conv split: prod.splits)
  have 1: "tunnel_ok m1" by (rule auth_status_ok [OF a assms(2)])
  have 2: "tunnel_ok m2"
  proof (cases "tm_multi_state m1 = CAS_CONNECT_DONE")
    case True
    show ?thesis
    proof (rule all_sessions_ok [of tunnel_ok "generate_session (pe_tls env)" m1 m2])
      show "tunnel_ok y" if "i < TM_SIZE" "tunnel_ok x" "generate_session (pe_tls env) i x = Some y" for i x y
        by (rule generate_session_ok [OF that(2,1,3)])
    qed (use 1 g True in simp_all)
  next
    case False
    then show ?thesis using g 1 by simp
  qed
  define m3 where "m3 = (if tm_multi_state m2 = CAS_WAITING_AUTH \<and> tas = TLS_AUTHENTICATION_SUCCEEDED
                 then m2\<lparr>tm_multi_state := CAS_PENDING\<rparr> else m2)"
  have 3: "tunnel_ok m3" by (rule tunnel_ok_other [OF 2]) (simp_all add: m3_def)
  have "m4 = m3 \<or> m4 = put_session TM_LAME_DUCK tls_session_clear m3"
    using k unfolding m3_def [symmetric] by (auto simp: kill_lame_session_def tls_session_free_def split: option.splits if_splits)
  then have 4: "tunnel_ok m4"
    using 3 tunnel_ok_put [OF 3 sess_ok_clear, of TM_LAME_DUCK] tm_index(4) by (auto simp: tls_session_clear_def)
  have 5: "tunnel_ok m5" using p 4 move_session_ok [OF _ 4]
    by (auto simp: promote_session_def TLS_AUTHENTICATED_def state_defs split: if_splits)
  show ?thesis unfolding m' by (rule tunnel_ok_other [OF 5]) (simp_all add: count_hard_error_def)
qed

lemma multi_process_ok:
  assumes "tunnel_ok m" "clock_ok env" "tls_multi_process env m to_link a wakeup = Some (st, l, a', w, m')"
  shows "tunnel_ok m'"
proof -
  from assms(3) obtain mp x y z t where mp: "all_sessions (multi_session env) \<lparr>mp_proc = \<lparr>pr_multi = m, pr_to_link = to_link, pr_to_addr = None,
       pr_wakeup = wakeup, pr_active = False, pr_change = False, pr_tick = 0\<rparr>, mp_active = False, mp_error = False, mp_to_addr = a\<rparr> = Some mp"
    and f: "multi_finish env t x y z (pr_multi (mp_proc mp)) = Some (st, w, m')"
    by (auto simp: tls_multi_process_def Let_def Option.bind_eq_Some_conv split: prod.splits)
  have "tunnel_ok (pr_multi (mp_proc mp))"
    by (rule all_sessions_ok [of "\<lambda>mp. tunnel_ok (pr_multi (mp_proc mp))", OF _ _ mp])
      (use assms(1,2) multi_session_ok in auto)
  from multi_finish_ok [OF f this] show ?thesis .
qed

subsection \<open>Incoming packets\<close>

lemma prim_upd_ok:
  assumes "sess_ok s" "ks_state k = ks_state (ts_primary s)" "ks_key_id k = ks_key_id (ts_primary s)"
    "ks_shape (ts_primary s) \<Longrightarrow> ks_shape k" "ts_session_id s' = ts_session_id s" "ts_key_id s' = ts_key_id s"
    "ts_lame s' = ts_lame s" "ts_primary s' = k"
  shows "sess_ok s'"
  using assms by (auto simp: sess_ok_def ks_fine_def)

lemma fold_upd_shape: "rel_shape r \<Longrightarrow> rel_shape (fold (\<lambda>j r. upd_entry r j (f j)) xs r)"
  by (induction xs arbitrary: r) (simp_all add: rel_shape_def)

lemma purge_shape: "rel_shape r \<Longrightarrow> rel_shape (reliable_send_purge r ack)"
proof -
  have "rel_shape (purge_pid pid r)" if "rel_shape r" for pid r
    unfolding purge_pid_def by (rule fold_upd_shape [OF that])
  then have "rel_shape r \<Longrightarrow> rel_shape (fold purge_pid xs r)" for xs
    by (induction xs arbitrary: r) simp_all
  then show "rel_shape r \<Longrightarrow> rel_shape (reliable_send_purge r ack)" by (simp add: reliable_send_purge_def)
qed

lemma schedule_now_shape: "rel_shape r \<Longrightarrow> rel_shape (reliable_schedule_now now r)"
  unfolding reliable_schedule_now_def by (rule fold_upd_shape) (simp add: rel_shape_def)

lemma input_shape:
  assumes "input_ciphertext op r a b = Some (ok, r1, a1)" "rel_shape r"
  shows "rel_shape r1"
proof -
  have g: "rel_shape r'" if "reliable_get_buf r = Some (j, r')" for j r'
    using get_buf_shape [OF assms(2) that] by (simp add: same_active_def)
  have m: "rel_shape r''" if "reliable_mark_active_incoming (upd_entry r' k f) k pid op = Some r''" "rel_shape r'" for r' r'' k f pid
    using that by (auto simp: reliable_mark_active_incoming_def rel_shape_def split: if_splits)
  show ?thesis using assms g m unfolding input_ciphertext_def
    by (auto split: if_splits option.splits prod.splits bool.splits)
qed

lemma accept_payload_spec:
  assumes "accept_payload now sid op b ks = Some (ok, ks1)"
  shows "ks_state ks1 = ks_state ks \<and> ks_key_id ks1 = ks_key_id ks \<and> (ks_shape ks \<longrightarrow> ks_shape ks1)"
proof -
  obtain rd ack b1 where r: "reliable_ack_read ack_clear b sid = (rd, ack, b1)" by (metis prod.exhaust)
  show ?thesis using assms purge_shape [of "ks_send_reliable ks" ack]
    unfolding accept_payload_def r
    by (auto simp: ks_shape_def Let_def dest: input_shape split: bool.splits if_splits option.splits)
qed

lemma soft_error_ok [simp]: "tunnel_ok (soft_error m) = tunnel_ok m"
  by (simp add: tunnel_ok_def soft_error_def)

lemma same_keys_ok: "same_keys s s1 \<Longrightarrow> sess_ok s \<Longrightarrow> sess_ok s1"
  by (simp add: same_keys_def sess_ok_def)

lemma authenticate_ok:
  assumes "authenticate_packet pd env m i new_link op buf = Some (good, m1, b)" "tunnel_ok m"
    "i \<in> {TM_ACTIVE, TM_UNTRUSTED}" "0 < pd_now pd"
  shows "tunnel_ok m1"
  using assms(1)
proof (cases rule: authenticate_cases)
  case unknown
  then show ?thesis using assms(2) by simp
next
  case (known wrap s1 s2)
  have i: "i < TM_SIZE" "i \<noteq> TM_LAME_DUCK" using assms(3) by (auto simp: tm_defs)
  have s2: "sess_ok s2" by (rule same_keys_ok [OF known(4) tunnel_sess_ok [OF assms(2) i(1)]])
  have "sess_ok s1 \<and> (i = TM_ACTIVE \<longrightarrow> ks_state (ts_primary s1) \<noteq> S_UNDEF)"
    using known(5)
  proof (elim disjE conjE)
    assume a: "TLS_AUTHENTICATED (tm_opt m) (ts_primary (tm_session m ! i))"
      and r: "key_state_soft_reset env (tm_opt m) (pd_now pd) s2 = Some s1"
    have "ks_state (ts_primary s2) \<ge> S_INITIAL"
      using a known(4) by (auto simp: TLS_AUTHENTICATED_def same_keys_def state_defs split: if_splits)
    then show ?thesis using soft_reset_ok [OF r s2 _ assms(4)] assms(2) by (simp add: tunnel_ok_def state_defs)
  next
    assume "s1 = s2"
    then show ?thesis using s2 known(4) assms(2) by (simp add: same_keys_def tunnel_ok_def)
  qed
  then show ?thesis unfolding known(3) using i by (intro tunnel_ok_put [OF assms(2)]) simp_all
qed

lemma deliver_ok:
  assumes "deliver_packet pd m i new_link burst op key_id sid b = Some m1" "tunnel_ok m" "i \<in> {TM_ACTIVE, TM_UNTRUSTED}"
  shows "tunnel_ok m1"
proof -
  have i: "i < TM_SIZE" "i \<noteq> TM_LAME_DUCK" using assms(3) by (auto simp: tm_defs)
  note so = tunnel_sess_ok [OF assms(2) i(1)]
  define s where "s = tm_session m ! i"
  define ks1 where "ks1 = (if new_link then (ts_primary s)\<lparr>ks_session_id_remote := sid, ks_remote_addr := pd_from pd\<rparr> else ts_primary s)"
  define m0 where "m0 = (if new_link then m\<lparr>tm_n_sessions := tm_n_sessions m + 1\<rparr> else m)"
  define bu where "bu = (burst \<and> \<not> ts_burst s)"
  define ks2 where "ks2 = (if bu then ks1\<lparr>ks_send_reliable := reliable_schedule_now (pd_now pd) (ks_send_reliable ks1)\<rparr> else ks1)"
  define s2 where "s2 = (if bu then s\<lparr>ts_burst := True\<rparr> else s)"
  have m0: "tunnel_ok m0" by (rule tunnel_ok_other [OF assms(2)]) (simp_all add: m0_def)
  have k2: "ks_state ks2 = ks_state (ts_primary s)" "ks_key_id ks2 = ks_key_id (ts_primary s)"
    "ks_shape (ts_primary s) \<Longrightarrow> ks_shape ks2"
    using schedule_now_shape by (auto simp: ks2_def ks1_def ks_shape_def)
  have put: "tunnel_ok (put_session i (s2\<lparr>ts_primary := k\<rparr>) m0)"
    if "ks_state k = ks_state ks2" "ks_key_id k = ks_key_id ks2" "ks_shape ks2 \<Longrightarrow> ks_shape k" for k
  proof -
    have "sess_ok (s2\<lparr>ts_primary := k\<rparr>)"
      by (rule prim_upd_ok [OF so [folded s_def], of k]) (use that k2 in \<open>auto simp: s2_def\<close>)
    moreover have "i = TM_ACTIVE \<longrightarrow> ks_state k \<noteq> S_UNDEF"
      using that(1) k2(1) assms(2) by (simp add: s_def tunnel_ok_def)
    ultimately show ?thesis using i by (intro tunnel_ok_put [OF m0]) simp_all
  qed
  note e = assms(1) [unfolded deliver_packet_def Let_def s_def [symmetric], folded ks1_def m0_def bu_def,
      folded ks2_def s2_def]
  from e have "m1 = soft_error m \<or> m1 = soft_error (put_session i (s2\<lparr>ts_primary := ks2\<rparr>) m0)
    \<or> (\<exists>ok ks3. accept_payload (pd_now pd) (ts_session_id s2) op b ks2 = Some (ok, ks3)
        \<and> (m1 = put_session i (s2\<lparr>ts_primary := ks3\<rparr>) m0 \<or> m1 = soft_error (put_session i (s2\<lparr>ts_primary := ks3\<rparr>) m0)))"
    by (auto simp: Option.bind_eq_Some_conv split: if_splits)
  then show ?thesis
  proof (elim disjE exE conjE)
    fix ok ks3
    assume a: "accept_payload (pd_now pd) (ts_session_id s2) op b ks2 = Some (ok, ks3)"
    note put [of ks3] accept_payload_spec [OF a]
    then have "tunnel_ok (put_session i (s2\<lparr>ts_primary := ks3\<rparr>) m0)" by blast
    then show "tunnel_ok m1" if "m1 = put_session i (s2\<lparr>ts_primary := ks3\<rparr>) m0" using that by simp
    show "tunnel_ok m1" if "m1 = soft_error (put_session i (s2\<lparr>ts_primary := ks3\<rparr>) m0)"
      using that \<open>tunnel_ok (put_session i (s2\<lparr>ts_primary := ks3\<rparr>) m0)\<close> by simp
  qed (use assms(2) put [of ks2] in simp_all)
qed

lemma count_like: "ks_like k (count_packet n k)"
  by (simp add: count_packet_def ks_like_def)

lemma pre_decrypt_ok:
  assumes "tls_pre_decrypt pd env m buf fl = Some (ret, opt, m', b, ad)" "tunnel_ok m" "0 < pd_now pd"
  shows "tunnel_ok m'"
proof -
  consider (none) "m' = m" | (data) opt' where "handle_data_channel_packet m (pd_from pd) buf fl = Some (opt', m', b, ad)"
    | (control) "pre_decrypt_control pd env m buf = Some (ret, m')"
    using assms(1) by (auto simp: tls_pre_decrypt_def Let_def split: if_splits)
  then show ?thesis
  proof cases
    case none
    then show ?thesis using assms(2) by simp
  next
    case data
    have u: "tunnel_ok (upd_key_scan i (count_packet n) m)" for i n by (rule upd_scan_ok [OF assms(2) count_like])
    have t: "tunnel_ok (m\<lparr>tm_n_soft_errors := tm_n_soft_errors m + 1\<rparr>)" by (rule tunnel_ok_other [OF assms(2)]) simp_all
    have "m' = m \<or> m' = m\<lparr>tm_n_soft_errors := tm_n_soft_errors m + 1\<rparr> \<or> (\<exists>i n. m' = upd_key_scan i (count_packet n) m)"
      using data by (auto simp: handle_data_channel_packet_def data_header_def Let_def Option.bind_eq_Some_conv
          split: option.splits if_splits prod.splits bool.splits)
    then show ?thesis using u t assms(2) by auto
  next
    case control
    then show ?thesis
    proof (cases rule: control_cases)
      case refused
      then show ?thesis using assms(2) by simp
    next
      case (unauthentic i new_link op m1 b)
      from unauthentic(2) have "keys_of m1 = keys_of m" using authenticate_refused by blast
      show ?thesis
        using unauthentic(2)
      proof (cases rule: authenticate_cases)
        case unknown
        then show ?thesis using unauthentic(3) assms(2) by simp
      next
        case (known wrap s1 s2)
        then have sk: "same_keys (tm_session m ! i) s1" by simp
        show ?thesis
        proof (cases "i < TM_SIZE")
          case True
          then have "tunnel_ok m1" unfolding known(3) using sk
            by (intro tunnel_ok_like [OF assms(2)]) (auto simp: like_def same_keys_def)
          then show ?thesis using unauthentic(3) by simp
        next
          case False
          then have "m1 = m" using known(3) assms(2) by (simp add: put_session_def tunnel_ok_def list_update_beyond)
          then show ?thesis using unauthentic(3) assms(2) by simp
        qed
      qed
    next
      case (accepted i new_link op sid m1 b burst key_id)
      have i: "i \<in> {TM_ACTIVE, TM_UNTRUSTED}" using route_index [OF accepted(2)] by simp
      show ?thesis by (rule deliver_ok [OF accepted(6) authenticate_ok [OF accepted(5) assms(2) i assms(3)] i])
    qed
  qed
qed

subsection \<open>Every tunnel\<close>

lemma init_finalize_ok:
  fixes m :: "'a tls_multi"
  assumes "tls_multi_init_finalize env sids sids' fr (tls_multi_init opt) = Some m" "0 \<le> to_transition_window opt"
  shows "tunnel_ok m"
proof -
  from assms(1) obtain s where s: "tls_session_init env (opt\<lparr>to_frame := fr\<rparr>) sids = Some s"
    and m: "m = put_session TM_ACTIVE s ((tls_multi_init opt)\<lparr>tm_opt := opt\<lparr>to_frame := fr\<rparr>\<rparr>)
       \<or> (\<exists>s'. tls_session_init env (opt\<lparr>to_frame := fr\<rparr>) sids' = Some s'
            \<and> m = put_session TM_UNTRUSTED s' (put_session TM_ACTIVE s ((tls_multi_init opt)\<lparr>tm_opt := opt\<lparr>to_frame := fr\<rparr>\<rparr>)))"
    by (auto simp: tls_multi_init_finalize_def tls_multi_init_def Let_def Option.bind_eq_Some_conv split: if_splits)
  have clear: "ks_state (ts_primary (tls_session_clear :: 'a tls_session)) = S_UNDEF" by (simp add: tls_session_clear_def key_state_clear_def)
  have "tunnel_ok (put_session TM_ACTIVE s ((tls_multi_init opt)\<lparr>tm_opt := opt\<lparr>to_frame := fr\<rparr>\<rparr>))"
    using assms(2) tls_session_init_ok [OF s] sess_ok_clear clear
    by (auto simp: tunnel_ok_def put_session_def tls_multi_init_def nth_upd_any state_defs)
  then show ?thesis using m tm_index(6) [symmetric] by (auto dest: tls_session_init_ok intro!: tunnel_ok_put)
qed

lemma import_ok:
  assumes "import_crypto_params env oi frs m = Some (ok, name, frs1, m')" "tunnel_ok m"
  shows "tunnel_ok m'"
proof -
  let ?s = "tm_session m ! TM_ACTIVE"
  from assms(1) obtain opt s where u: "tls_session_update_crypto_params env oi frs (tm_opt m) ?s = Some (ok, name, frs1, opt, s)"
    and m': "m' = put_session TM_ACTIVE s (m\<lparr>tm_opt := opt\<rparr>)"
    by (auto simp: import_crypto_params_def)
  note c = update_crypto_cases [OF u]
  have a: "ks_state (ts_primary ?s) \<noteq> S_UNDEF" using assms(2) by (simp add: tunnel_ok_def)
  then have "sess_ok s"
    using c tunnel_sess_ok [OF assms(2) tm_index(1)] by (auto simp: sess_ok_def ks_fine_def ks_shape_def state_defs)
  moreover have "ks_state (ts_primary s) \<noteq> S_UNDEF" using c a by (auto simp: state_defs)
  moreover have "tunnel_ok (m\<lparr>tm_opt := opt\<rparr>)" by (rule tunnel_ok_other [OF assms(2)]) (use c in simp_all)
  ultimately show ?thesis unfolding m' by (intro tunnel_ok_put) simp_all
qed

lemma update_addr_loop_like:
  "update_addr_loop a ss = Some ss' \<Longrightarrow> length ss' = length ss \<and> (\<forall>i<length ss. like (ss ! i) (ss' ! i))"
proof (induction ss arbitrary: ss')
  case (Cons s ss)
  from Cons.prems obtain p l t where p: "update_addr a (ts_primary s) = Some p" "update_addr a (ts_lame s) = Some l"
    and t: "update_addr_loop a ss = Some t" and ss': "ss' = s\<lparr>ts_primary := p, ts_lame := l\<rparr> # t"
    by (auto simp: Option.bind_eq_Some_conv)
  have u: "update_addr a k = Some k' \<Longrightarrow> ks_like k k'" for k k' :: "'a key_state"
    by (auto simp: update_addr_def ks_like_def split: if_splits option.splits bool.splits)
  have "like s (s\<lparr>ts_primary := p, ts_lame := l\<rparr>)" using u [OF p(1)] u [OF p(2)] by (simp add: like_def)
  then show ?case using Cons.IH [OF t] unfolding ss' by (auto simp: nth_Cons split: nat.split)
qed simp

lemma sessions_like_ok:
  assumes "tunnel_ok m" "length ss = TM_SIZE" "\<And>i. i < TM_SIZE \<Longrightarrow> like (tm_session m ! i) (ss ! i)"
  shows "tunnel_ok (m\<lparr>tm_session := ss\<rparr>)"
proof -
  have "ks_state (ts_primary (ss ! TM_LAME_DUCK)) = ks_state (ts_primary (tm_session m ! TM_LAME_DUCK))"
    using assms(3) [of TM_LAME_DUCK] by (simp add: like_def ks_like_def)
  moreover have "ks_state (ts_primary (ss ! TM_ACTIVE)) = ks_state (ts_primary (tm_session m ! TM_ACTIVE))"
    using assms(3) [of TM_ACTIVE] by (simp add: like_def ks_like_def)
  moreover have "sess_ok (ss ! i)" if "i < TM_SIZE" for i
    by (rule like_ok [OF assms(3) [OF that] tunnel_sess_ok [OF assms(1) that]])
  ultimately show ?thesis using assms(1,2) by (simp add: tunnel_ok_def)
qed

lemma other_operations_ok:
  assumes "tunnel_ok m"
  shows "tls_pre_encrypt now m b = Some (o', m', b') \<Longrightarrow> tunnel_ok m'"
    and "tls_post_encrypt m b = Some m' \<Longrightarrow> tunnel_ok m'"
    and "tunnel_ok (tls_deauthenticate m)" and "tunnel_ok (tls_set_single_session m)"
    and "tls_send_payload env m dat = Some (r, m') \<Longrightarrow> tunnel_ok m'"
    and "tls_rec_payload m b = (r, b', m') \<Longrightarrow> tunnel_ok m'"
    and "tls_update_remote_addr m a = Some m' \<Longrightarrow> tunnel_ok m'"
proof -
  have save: "tunnel_ok (m\<lparr>tm_save_ks := x\<rparr>)" for x by (rule tunnel_ok_other [OF assms]) simp_all
  show "tls_pre_encrypt now m b = Some (o', m', b') \<Longrightarrow> tunnel_ok m'"
    using save by (auto simp: tls_pre_encrypt_def split: if_splits option.splits)
  show "tls_post_encrypt m b = Some m' \<Longrightarrow> tunnel_ok m'"
    using save upd_scan_ok [OF save count_like] by (auto simp: tls_post_encrypt_def Let_def split: if_splits option.splits)
  show "tunnel_ok (tls_deauthenticate m)"
    unfolding tls_deauthenticate_def using assms by (intro sessions_like_ok) (simp_all add: tunnel_length like_deauth)
  show "tunnel_ok (tls_set_single_session m)" by (rule tunnel_ok_other [OF assms]) (simp_all add: tls_set_single_session_def)
  show "tls_send_payload env m dat = Some (r, m') \<Longrightarrow> tunnel_ok m'"
    by (auto simp: tls_send_payload_def Let_def ks_like_def split: if_splits option.splits prod.splits intro!: upd_scan_ok [OF assms])
  show "tls_rec_payload m b = (r, b', m') \<Longrightarrow> tunnel_ok m'"
    using assms by (auto simp: tls_rec_payload_def Let_def ks_like_def split: if_splits prod.splits intro!: upd_scan_ok)
  show "tls_update_remote_addr m a = Some m' \<Longrightarrow> tunnel_ok m'"
    using update_addr_loop_like [of a "tm_session m", unfolded tunnel_length [OF assms]]
    by (auto simp: tls_update_remote_addr_def intro!: sessions_like_ok [OF assms])
qed

text \<open>
  The tunnels a process can have: a new one, and what any sequence of calls makes of it, with any
  packets, any answers of the TLS library and any clock that is past the epoch; the crypto parameters
  are imported with any options, and \<^verbatim>\<open>init.c\<close> and \<^verbatim>\<open>multi.c\<close> set the state of the connection (to
  \<open>CAS_CONNECT_DONE\<close> among others) and the peer id at any time and to any value.
\<close>

inductive tunnel_reach :: "'tls tls_multi \<Rightarrow> bool" where
  reach_init: "tls_multi_init_finalize env sids sids' fr (tls_multi_init opt) = Some m \<Longrightarrow> 0 \<le> to_transition_window opt \<Longrightarrow> tunnel_reach m"
| reach_process: "tunnel_reach m \<Longrightarrow> clock_ok penv \<Longrightarrow> tls_multi_process penv m to_link a wakeup = Some (st, l, a', w, m') \<Longrightarrow> tunnel_reach m'"
| reach_packet: "tunnel_reach m \<Longrightarrow> 0 < pd_now pd \<Longrightarrow> tls_pre_decrypt pd env m b fl = Some (r, k, m', b', ad) \<Longrightarrow> tunnel_reach m'"
| reach_pre_encrypt: "tunnel_reach m \<Longrightarrow> tls_pre_encrypt now m b = Some (k, m', b') \<Longrightarrow> tunnel_reach m'"
| reach_post_encrypt: "tunnel_reach m \<Longrightarrow> tls_post_encrypt m b = Some m' \<Longrightarrow> tunnel_reach m'"
| reach_send: "tunnel_reach m \<Longrightarrow> tls_send_payload env m dat = Some (r, m') \<Longrightarrow> tunnel_reach m'"
| reach_rec: "tunnel_reach m \<Longrightarrow> tls_rec_payload m b = (r, b', m') \<Longrightarrow> tunnel_reach m'"
| reach_addr: "tunnel_reach m \<Longrightarrow> tls_update_remote_addr m addr = Some m' \<Longrightarrow> tunnel_reach m'"
| reach_import: "tunnel_reach m \<Longrightarrow> import_crypto_params env oi frs m = Some (ok, name, frs1, m') \<Longrightarrow> tunnel_reach m'"
| reach_state: "tunnel_reach m \<Longrightarrow> tunnel_reach (m\<lparr>tm_multi_state := cas\<rparr>)"
| reach_peer_id: "tunnel_reach m \<Longrightarrow> tunnel_reach (m\<lparr>tm_peer_id := peer\<rparr>)"
| reach_deauth: "tunnel_reach m \<Longrightarrow> tunnel_reach (tls_deauthenticate m)"
| reach_single: "tunnel_reach m \<Longrightarrow> tunnel_reach (tls_set_single_session m)"

lemma tunnel_reach_ok: "tunnel_reach m \<Longrightarrow> tunnel_ok m"
proof (induction rule: tunnel_reach.induct)
  case (reach_init env sids sids' fr opt m)
  then show ?case using init_finalize_ok by blast
next
  case (reach_state m cas)
  then show ?case using tunnel_ok_other [of m] by simp
next
  case (reach_peer_id m peer)
  then show ?case using tunnel_ok_other [of m] by simp
next
  case (reach_import m env oi frs ok name frs1 m')
  then show ?case by (simp add: import_ok)
qed (blast intro: multi_process_ok pre_decrypt_ok other_operations_ok)+

lemma lame_never_asserts: "sess_ok s \<Longrightarrow> lame_duck_must_die now s w \<noteq> None"
  by (auto simp: sess_ok_def lame_duck_must_die_def Let_def)

text \<open>
  C4: In every tunnel a sequence of calls can produce, each of the three sessions is consistent: the
  assertion on a lame duck key's time of death cannot fail, key ids fit the three bits the packet
  header has for them, the primary key and a live lame duck key of a session have different ids, a
  session with a key has a defined session id, the active session always has a key, and the session
  kept for its lame duck key has no primary key. The loop of \<^verbatim>\<open>tls_process\<close> ends for every session that has a key.
\<close>

theorem reachable_tunnel_consistent:
  assumes "tunnel_reach m" "i < TM_SIZE" "s = tm_session m ! i"
  shows "lame_duck_must_die now s w \<noteq> None
    \<and> (ks_state (ts_primary s) \<noteq> S_UNDEF \<longrightarrow> 0 \<le> ks_key_id (ts_primary s) \<and> ks_key_id (ts_primary s) \<le> 7 \<and> session_id_defined (ts_session_id s))
    \<and> (ks_state (ts_lame s) \<ge> S_INITIAL \<longrightarrow> 0 \<le> ks_key_id (ts_lame s) \<and> ks_key_id (ts_lame s) \<le> 7
        \<and> ks_key_id (ts_lame s) \<noteq> ks_key_id (ts_primary s))
    \<and> (i = TM_ACTIVE \<longrightarrow> ks_state (ts_primary s) \<noteq> S_UNDEF)
    \<and> (i = TM_LAME_DUCK \<longrightarrow> ks_state (ts_primary s) < S_INITIAL)
    \<and> (\<forall>p env q. pr_multi p = m \<and> ks_state (ts_primary s) \<noteq> S_UNDEF \<longrightarrow> proc_loop PROC_ROUNDS env i p \<noteq> Some (Go q))"
proof -
  have t: "tunnel_ok m" by (rule tunnel_reach_ok [OF assms(1)])
  have so: "sess_ok s" using tunnel_sess_ok [OF t assms(2)] assms(3) by simp
  have loop: "proc_loop PROC_ROUNDS env i p \<noteq> Some (Go q)"
    if "pr_multi p = m" "ks_state (ts_primary s) \<noteq> S_UNDEF" for p env q
  proof -
    have "proc_shape i p" using that so t assms(2,3) by (simp add: proc_shape_def tunnel_ok_def sess_ok_def ks_fine_def ses_def)
    moreover from this have "work (server_of p) (prim i p) < PROC_ROUNDS"
      using work_bound [of "prim i p" "server_of p"] by (simp add: proc_shape_def PROC_ROUNDS_def)
    ultimately show ?thesis using loop_ends by blast
  qed
  show ?thesis using lame_never_asserts [OF so] so t assms(3) loop
    by (auto simp: sess_ok_def ks_fine_def tunnel_ok_def state_defs)
qed

lemma connected_reach:
  assumes "connected = Some m"
  shows "tunnel_reach m"
proof -
  have process: "tunnel_reach m2" if "tunnel_reach m1" "client_process m1 = Some m2" for m1 m2
    using that by (auto simp: client_process_def clock_ok_def client_env_def elim!: reach_process [rotated 2])
  have receive: "tunnel_reach m2" if "tunnel_reach m1" "client_receive m1 = Some m2" for m1 m2
    using that by (auto simp: client_receive_def server_pd_def elim!: reach_packet [rotated 2])
  have imported: "tunnel_reach m2" if "tunnel_reach m1" "client_import m1 = Some m2" for m1 m2
    using that by (auto simp: client_import_def intro!: reach_state elim!: reach_import [rotated])
  obtain m0 m1 m2 m3 m4 where c: "client_fresh = Some m0" "client_process m0 = Some m1" "client_receive m1 = Some m2"
      "client_process m2 = Some m3" "client_process m3 = Some m4" "client_import m4 = Some m"
    using assms unfolding connected_def Option.bind_eq_Some_conv by blast
  have "tunnel_reach m0"
    by (rule reach_init [OF c(1) [unfolded client_fresh_def]]) (simp add: client_opts_def demo_opts_server_def)
  from imported [OF process [OF process [OF receive [OF process [OF this c(2)] c(3)] c(4)] c(5)] c(6)] show ?thesis .
qed

theorem reachable_tunnel_consistent_witness:
  "\<exists>m. connected = Some m \<and> ks_state (ts_primary (tm_session m ! TM_ACTIVE)) = S_GENERATED_KEYS
    \<and> kb_initialized (ks_key_ctx_bi (ts_primary (tm_session m ! TM_ACTIVE))) \<and> tm_multi_state m = CAS_CONNECT_DONE
    \<and> lame_duck_must_die 10 (tm_session m ! TM_ACTIVE) 60 \<noteq> None
    \<and> ks_key_id (ts_primary (tm_session m ! TM_ACTIVE)) \<le> 7 \<and> session_id_defined (ts_session_id (tm_session m ! TM_ACTIVE))"
proof -
  obtain m where m: "connected = Some m" and k: "ks_state (ts_primary (tm_session m ! TM_ACTIVE)) = S_GENERATED_KEYS"
      "kb_initialized (ks_key_ctx_bi (ts_primary (tm_session m ! TM_ACTIVE)))" "tm_multi_state m = CAS_CONNECT_DONE"
    using connected_keys by (auto simp: Let_def)
  from reachable_tunnel_consistent [OF connected_reach [OF m] tm_index(1) refl, of 10 60] m k
  show ?thesis by blast
qed

end
