(* ===== verification/Tls_Data.thy ===== *)
theory Tls_Data
  imports Tls_Invariant
begin

text \<open>The header of a data packet, from the sender's choice of a key to the receiver's.\<close>

lemma select_loop_key:
  "select_loop now m is sel = Some (Some i) \<Longrightarrow> sel = Some i \<or> (\<exists>ks. get_key_scan m i = Some ks
     \<and> ks_state ks \<ge> S_GENERATED_KEYS \<and> ks_authenticated ks = KS_AUTH_TRUE \<and> kb_initialized (ks_key_ctx_bi ks))"
proof (induction "is" arbitrary: sel)
  case (Cons j "is")
  from Cons.prems obtain ks where ks: "get_key_scan m j = Some ks" by (auto split: option.splits)
  show ?case
  proof (cases "ks_state ks \<ge> S_GENERATED_KEYS")
    case False
    then show ?thesis using Cons ks by simp
  next
    case True
    with Cons.prems ks have ok: "ks_authenticated ks = KS_AUTH_TRUE" "kb_initialized (ks_key_ctx_bi ks)"
      by (auto split: if_splits)
    with Cons.prems ks True have "i = j \<or> select_loop now m is (case sel of None \<Rightarrow> Some j | Some _ \<Rightarrow> sel) = Some (Some i)"
      by (auto split: if_splits)
    then show ?thesis using Cons.IH [of "case sel of None \<Rightarrow> Some j | Some _ \<Rightarrow> sel"] ks True ok
      by (auto split: option.splits)
  qed
qed simp

lemma scan_key_id:
  assumes "tunnel_ok m" "get_key_scan m i = Some ks" "ks_state ks \<ge> S_INITIAL"
  shows "0 \<le> ks_key_id ks" "ks_key_id ks < 8"
proof -
  have "ks \<in> {ts_primary (tm_session m ! TM_ACTIVE), ts_lame (tm_session m ! TM_ACTIVE), ts_lame (tm_session m ! TM_LAME_DUCK)}"
    using assms(2) by (auto simp: get_key_scan_def split: if_splits)
  then have "ks_fine ks"
    using tunnel_sess_ok [OF assms(1) tm_index(1)] tunnel_sess_ok [OF assms(1) tm_index(3)] by (auto simp: sess_ok_def)
  then show "0 \<le> ks_key_id ks" "ks_key_id ks < 8" using assms(3) by (auto simp: ks_fine_def state_defs)
qed

definition v2_header :: "int \<Rightarrow> u32 \<Rightarrow> byte list" where
  "v2_header key_id peer_id = be32 (push_bit 24 (word_of_int (push_bit P_OPCODE_SHIFT P_DATA_V2 OR key_id)) OR (peer_id AND 0xFFFFFF))"

lemma v2_header_bytes:
  "\<exists>p0 p1 p2. v2_header k peer = [header_byte k P_DATA_V2, p0, p1, p2]"
proof -
  have m: "(0xFFFFFF :: u32) = mask 24" by (simp add: mask_eq_exp_minus_1)
  have "ucast (drop_bit 24 (push_bit 24 (word_of_int x :: u32) OR (peer AND 0xFFFFFF))) = (word_of_int x :: byte)" for x
    unfolding m by (rule bit_word_eqI) (auto simp: bit_simps)
  then show ?thesis by (simp add: v2_header_def be32_def header_byte_def or.commute)
qed

lemma get_scan_save [simp]: "get_key_scan (m\<lparr>tm_save_ks := x\<rparr>) i = get_key_scan m i"
  by (simp add: get_key_scan_def)

lemma handle_header:
  assumes "data_key_loop m src k floated [0..<KEY_SCAN_SIZE] = Some (Some j)" "get_key_scan m j = Some ks"
    and "ks_authenticated ks = KS_AUTH_TRUE" "kb_initialized (ks_key_ctx_bi ks)" "0 \<le> k" "k < 8" "c \<noteq> []"
  shows "handle_data_channel_packet m src (mkbuf pre (header_byte k P_DATA_V1 # c) suf) floated
      = Some (Some j, upd_key_scan j (count_packet (int (length c))) m, mkbuf (pre @ [header_byte k P_DATA_V1]) c suf, Some (int (length pre) + 1))"
    and "handle_data_channel_packet m src (mkbuf pre (header_byte k P_DATA_V2 # p0 # p1 # p2 # c) suf) floated
      = Some (Some j, upd_key_scan j (count_packet (int (length c))) m, mkbuf (pre @ [header_byte k P_DATA_V2, p0, p1, p2]) c suf, Some (int (length pre)))"
proof -
  have m: "uint x AND P_KEY_ID_MASK = uint (x AND 7)" for x :: byte by (simp add: P_KEY_ID_MASK_def uint_and)
  have f: "block (mkbuf pre (x # xs) suf) ! nat (boff (mkbuf pre (x # xs) suf)) = x" for x xs
    by (simp add: mkbuf_def block_def)
  note h1 = header_byte_fields [OF assms(5,6), of P_DATA_V1, unfolded P_DATA_V1_def, simplified, folded P_DATA_V1_def]
  note h2 = header_byte_fields [OF assms(5,6), of P_DATA_V2, unfolded P_DATA_V2_def, simplified, folded P_DATA_V2_def]
  note nz = assms(7) [unfolded length_greater_0_conv [symmetric]]
  have d: "P_DATA_V1 \<noteq> P_DATA_V2" by (simp add: P_DATA_V1_def P_DATA_V2_def)
  show "handle_data_channel_packet m src (mkbuf pre (header_byte k P_DATA_V1 # c) suf) floated
      = Some (Some j, upd_key_scan j (count_packet (int (length c))) m, mkbuf (pre @ [header_byte k P_DATA_V1]) c suf, Some (int (length pre) + 1))"
    using assms(1-4) d unfolding handle_data_channel_packet_def Let_def f m h1
    by (simp add: data_header_def buf_advance_mkbuf)
  show "handle_data_channel_packet m src (mkbuf pre (header_byte k P_DATA_V2 # p0 # p1 # p2 # c) suf) floated
      = Some (Some j, upd_key_scan j (count_packet (int (length c))) m, mkbuf (pre @ [header_byte k P_DATA_V2, p0, p1, p2]) c suf, Some (int (length pre)))"
    using assms(1-4) d nz unfolding handle_data_channel_packet_def Let_def f m h2
    by (simp add: data_header_def buf_advance_mkbuf eval_nat_numeral)
qed

text \<open>
  C10: The header of a data packet names the key. When \<^verbatim>\<open>tls_pre_encrypt\<close> of a tunnel in the
  invariant (any reachable one) picks a key for a packet, that key is generated, authenticated and initialised; \<^verbatim>\<open>tls_prepend_opcode_v1\<close> and
  \<^verbatim>\<open>tls_prepend_opcode_v2\<close> find room for the header and put it before the packet; and
  \<^verbatim>\<open>tls_pre_decrypt\<close> at a peer that has a usable key of the same id gives that key, hands on exactly
  the packet behind the header with the start of the additional data at the opcode (version 2) or
  behind it (version 1), and counts the packet and its bytes on that key alone.
\<close>

theorem data_header_roundtrip:
  assumes "tunnel_ok m" "tls_pre_encrypt now m (mkbuf bp c bq) = Some (Some i, m1, b1)" "4 \<le> length bp"
    and "get_key_scan m i = Some ks"
    and "data_key_loop m' (pd_from pd) (ks_key_id ks) floated [0..<KEY_SCAN_SIZE] = Some (Some j)"
    and "get_key_scan m' j = Some ks'" "ks_authenticated ks' = KS_AUTH_TRUE" "kb_initialized (ks_key_ctx_bi ks')"
  shows "ks_state ks \<ge> S_GENERATED_KEYS \<and> ks_authenticated ks = KS_AUTH_TRUE \<and> kb_initialized (ks_key_ctx_bi ks)
    \<and> (\<exists>h w. tls_prepend_opcode_v1 m1 b1 = Some w \<and> content w = h @ c \<and> length h = 1
        \<and> tls_pre_decrypt pd env m' (mkbuf pre (h @ c) suf) floated
          = Some (False, Some j, upd_key_scan j (count_packet (int (length c))) m', mkbuf (pre @ h) c suf, Some (int (length pre) + 1)))
    \<and> (\<exists>h w. tls_prepend_opcode_v2 m1 b1 = Some w \<and> content w = h @ c \<and> length h = 4
        \<and> tls_pre_decrypt pd env m' (mkbuf pre (h @ c) suf) floated
          = Some (False, Some j, upd_key_scan j (count_packet (int (length c))) m', mkbuf (pre @ h) c suf, Some (int (length pre))))"
proof -
  from assms(2) have c: "c \<noteq> []" and sel: "tls_select_encryption_key now m = Some (Some i)"
    and b1: "m1 = m\<lparr>tm_save_ks := Some i\<rparr>" "b1 = mkbuf bp c bq"
    by (auto simp: tls_pre_encrypt_def split: if_splits option.splits)
  have k: "ks_state ks \<ge> S_GENERATED_KEYS \<and> ks_authenticated ks = KS_AUTH_TRUE \<and> kb_initialized (ks_key_ctx_bi ks)"
    using select_loop_key [OF sel [unfolded tls_select_encryption_key_def]] assms(4) by auto
  then have "ks_state ks \<ge> S_INITIAL" by (simp add: state_defs)
  note id = scan_key_id [OF assms(1,4) this]
  note hh = handle_header [OF assms(5-8) id c, where pre = pre and suf = suf]
  have f: "first_byte (mkbuf pre (x # xs) suf) = x" for x xs by (simp add: first_byte_def mkbuf_def block_def)
  note o1 = header_byte_fields(1) [OF id, of P_DATA_V1, unfolded P_DATA_V1_def, simplified, folded P_DATA_V1_def]
  note o2 = header_byte_fields(1) [OF id, of P_DATA_V2, unfolded P_DATA_V2_def, simplified, folded P_DATA_V2_def]
  have "\<exists>h w. tls_prepend_opcode_v1 m1 b1 = Some w \<and> content w = h @ c \<and> length h = 1
        \<and> tls_pre_decrypt pd env m' (mkbuf pre (h @ c) suf) floated
          = Some (False, Some j, upd_key_scan j (count_packet (int (length c))) m', mkbuf (pre @ h) c suf, Some (int (length pre) + 1))"
  proof (intro exI [of _ "[header_byte (ks_key_id ks) P_DATA_V1]"] exI conjI)
    show "tls_prepend_opcode_v1 m1 b1 = Some (mkbuf (take (length bp - 1) bp) (header_byte (ks_key_id ks) P_DATA_V1 # c) bq)"
      using assms(3,4) by (simp add: tls_prepend_opcode_v1_def b1 buf_write_prepend_mkbuf)
    show "tls_pre_decrypt pd env m' (mkbuf pre ([header_byte (ks_key_id ks) P_DATA_V1] @ c) suf) floated
          = Some (False, Some j, upd_key_scan j (count_packet (int (length c))) m', mkbuf (pre @ [header_byte (ks_key_id ks) P_DATA_V1]) c suf, Some (int (length pre) + 1))"
      using hh(1) by (simp add: tls_pre_decrypt_def f o1)
  qed simp_all
  moreover obtain p0 p1 p2 where v2: "v2_header (ks_key_id ks) (tm_peer_id m) = [header_byte (ks_key_id ks) P_DATA_V2, p0, p1, p2]"
    using v2_header_bytes by blast
  have "\<exists>h w. tls_prepend_opcode_v2 m1 b1 = Some w \<and> content w = h @ c \<and> length h = 4
        \<and> tls_pre_decrypt pd env m' (mkbuf pre (h @ c) suf) floated
          = Some (False, Some j, upd_key_scan j (count_packet (int (length c))) m', mkbuf (pre @ h) c suf, Some (int (length pre)))"
  proof (intro exI [of _ "v2_header (ks_key_id ks) (tm_peer_id m)"] exI conjI)
    show "tls_prepend_opcode_v2 m1 b1 = Some (mkbuf (take (length bp - 4) bp) (v2_header (ks_key_id ks) (tm_peer_id m) @ c) bq)"
      using assms(3,4) by (simp add: tls_prepend_opcode_v2_def b1 buf_write_prepend_mkbuf v2_header_def)
    show "tls_pre_decrypt pd env m' (mkbuf pre (v2_header (ks_key_id ks) (tm_peer_id m) @ c) suf) floated
          = Some (False, Some j, upd_key_scan j (count_packet (int (length c))) m', mkbuf (pre @ v2_header (ks_key_id ks) (tm_peer_id m)) c suf, Some (int (length pre)))"
      using hh(2) by (simp add: tls_pre_decrypt_def f o2 v2)
  qed (simp_all add: v2_header_def)
  ultimately show ?thesis using k by blast
qed

definition generated_multi :: "unit tls_multi" where
  "generated_multi = put_session TM_ACTIVE (tls_session_clear\<lparr>ts_session_id := replicate 8 5, ts_key_id := 1,
     ts_primary := demo_ks\<lparr>ks_state := S_GENERATED_KEYS, ks_authenticated := KS_AUTH_TRUE,
       ks_key_ctx_bi := key_ctx_bi_null\<lparr>kb_initialized := True\<rparr>\<rparr>\<rparr>) demo_multi"

lemma generated_ok: "tunnel_ok generated_multi"
proof -
  have n: "next_key_id 0 = 1" by code_simp
  have k: "rel_shape demo_send" "rel_shape demo_recv"
    using reliable_init_shape demo_init by blast+
  show ?thesis unfolding generated_multi_def demo_multi_def
    by (simp add: tunnel_ok_def put_session_def tls_multi_init_def nth_upd_any demo_opts_server_def
        sess_ok_def ks_fine_def ks_shape_def k n demo_ks_def tls_session_clear_def key_state_clear_def
        state_defs session_id_defined_def SID_SIZE_def)
qed

theorem data_header_roundtrip_witness:
  "\<exists>h w. tls_prepend_opcode_v2 (generated_multi\<lparr>tm_save_ks := Some 0\<rparr>) (mkbuf [0, 0, 0, 0, 0] [1, 2, 3] []) = Some w \<and> content w = h @ [1, 2, 3]
     \<and> tls_pre_decrypt demo_pd demo_tls generated_multi (mkbuf [] (h @ [1, 2, 3]) []) False
       = Some (False, Some 0, upd_key_scan 0 (count_packet 3) generated_multi, mkbuf h [1, 2, 3] [], Some 0)"
proof -
  have s: "tls_select_encryption_key 10 generated_multi = Some (Some 0)" by code_simp
  have e: "tls_pre_encrypt 10 generated_multi (mkbuf [0, 0, 0, 0, 0] [1, 2, 3] [])
      = Some (Some 0, generated_multi\<lparr>tm_save_ks := Some 0\<rparr>, mkbuf [0, 0, 0, 0, 0] [1, 2, 3] [])"
    by (simp add: tls_pre_encrypt_def s)
  have g: "get_key_scan generated_multi 0 = Some (get_primary_key generated_multi)"
    by (simp add: get_key_scan_def get_primary_key_def)
  have a: "data_key_loop generated_multi (pd_from demo_pd) (ks_key_id (get_primary_key generated_multi)) False [0..<KEY_SCAN_SIZE] = Some (Some 0)"
    "ks_authenticated (get_primary_key generated_multi) = KS_AUTH_TRUE" "kb_initialized (ks_key_ctx_bi (get_primary_key generated_multi))"
    by code_simp+
  show ?thesis
    using data_header_roundtrip [OF generated_ok e _ g a(1) g a(2,3), of demo_tls "[]" "[]"] by auto
qed

end
