(* ===== verification/Schedule.thy ===== *)
theory Schedule
  imports Otime "HOL-Library.Product_Lexorder"
begin

text \<open>
  \<^verbatim>\<open>schedule.h\<close> and \<^verbatim>\<open>schedule.c\<close>: the event scheduler, a randomized treap of wake-up
  times ordered by time and priority.

  An entry is named by \<open>se_id\<close>, the address of its C struct. The links \<open>lt\<close> and \<open>gt\<close> are the
  subtrees of \<open>treap\<close>; a pointer to a node together with the \<open>parent\<close> links above it is a
  position: the node with its subtrees, and the list of \<open>crumb\<close>s on the way up to the root, each
  saying of which parent the part below is the \<open>lt\<close> or \<open>gt\<close> child. Following a \<open>parent\<close> link
  drops a crumb; \<open>plug\<close> is the tree seen from the root. An entry is \<open>IN_TREE\<close> when the tree has
  it (its \<open>pri\<close> is then not 0). The values of \<open>random\<close> are a list argument; \<open>None\<close> is running
  out of them.
\<close>

record schedule_entry =
  se_id :: nat
  se_tv :: timeval
  se_pri :: u32

datatype treap = Leaf | Node treap schedule_entry treap

datatype crumb = Lt_of schedule_entry treap | Gt_of treap schedule_entry

type_synonym position = "(treap \<times> schedule_entry \<times> treap) \<times> crumb list"

record schedule =
  sc_earliest_wakeup :: "schedule_entry option"
  sc_root :: treap

definition schedule_init :: schedule where
  "schedule_init = \<lparr>sc_earliest_wakeup = None, sc_root = Leaf\<rparr>"

definition schedule_set_pri :: "u32 \<Rightarrow> schedule_entry \<Rightarrow> schedule_entry" where
  "schedule_set_pri r e = (let e1 = e\<lparr>se_pri := r\<rparr> in if se_pri e1 < 1 then e1\<lparr>se_pri := 1\<rparr> else e1)"

definition schedule_entry_compare :: "schedule_entry \<Rightarrow> schedule_entry \<Rightarrow> int" where
  "schedule_entry_compare e1 e2 =
     (if tv_sec (se_tv e1) < tv_sec (se_tv e2) then -1
      else if tv_sec (se_tv e1) > tv_sec (se_tv e2) then 1
      else if tv_usec (se_tv e1) < tv_usec (se_tv e2) then -1
      else if tv_usec (se_tv e1) > tv_usec (se_tv e2) then 1
      else if se_pri e1 < se_pri e2 then -1
      else if se_pri e1 > se_pri e2 then 1
      else 0)"

subsection \<open>Positions\<close>

fun plug :: "treap \<Rightarrow> crumb list \<Rightarrow> treap" where
  "plug t [] = t"
| "plug t (Lt_of p g # up) = plug (Node t p g) up"
| "plug t (Gt_of l p # up) = plug (Node l p t) up"

definition whole :: "position \<Rightarrow> treap" where
  "whole z = (case z of ((l, e, g), up) \<Rightarrow> plug (Node l e g) up)"

fun schedule_rotate_up :: "position \<Rightarrow> position" where
  "schedule_rotate_up ((l, e, g), []) = ((l, e, g), [])"
| "schedule_rotate_up ((l, e, g), Gt_of pl p # up) = ((Node pl p l, e, g), up)"
| "schedule_rotate_up ((l, e, g), Lt_of p pg # up) = ((l, e, Node g p pg), up)"

text \<open>Rotating a child of \<open>e\<close> above \<open>e\<close>, keeping \<open>e\<close> in view.\<close>

fun rotate_lt_child :: "position \<Rightarrow> position" where
  "rotate_lt_child ((Node a x b, e, g), up) =
     (case schedule_rotate_up ((a, x, b), Lt_of e g # up) of
        ((a', x', Node l' e' g'), up') \<Rightarrow> ((l', e', g'), Gt_of a' x' # up')
      | z \<Rightarrow> z)"
| "rotate_lt_child z = z"

fun rotate_gt_child :: "position \<Rightarrow> position" where
  "rotate_gt_child ((l, e, Node a x b), up) =
     (case schedule_rotate_up ((a, x, b), Gt_of l e # up) of
        ((Node l' e' g', x', b'), up') \<Rightarrow> ((l', e', g'), Lt_of x' b' # up')
      | z \<Rightarrow> z)"
| "rotate_gt_child z = z"

fun treap_size :: "treap \<Rightarrow> nat" where
  "treap_size Leaf = 0"
| "treap_size (Node l e g) = Suc (treap_size l + treap_size g)"

function remove_loop :: "position \<Rightarrow> position" where
  "remove_loop ((Leaf, e, Leaf), up) = ((Leaf, e, Leaf), up)"
| "remove_loop ((Node a x b, e, Node c y d), up) =
     (if se_pri x < se_pri y then remove_loop (rotate_lt_child ((Node a x b, e, Node c y d), up))
      else remove_loop (rotate_gt_child ((Node a x b, e, Node c y d), up)))"
| "remove_loop ((Node a x b, e, Leaf), up) = remove_loop (rotate_lt_child ((Node a x b, e, Leaf), up))"
| "remove_loop ((Leaf, e, Node c y d), up) = remove_loop (rotate_gt_child ((Leaf, e, Node c y d), up))"
  by pat_completeness auto
termination
  by (relation "measure (\<lambda>((l, e, g), up). treap_size l + treap_size g)") auto

fun locate :: "nat \<Rightarrow> treap \<Rightarrow> crumb list \<Rightarrow> position option" where
  "locate i Leaf up = None"
| "locate i (Node l e g) up =
     (if se_id e = i then Some ((l, e, g), up)
      else case locate i l (Lt_of e g # up) of
             Some z \<Rightarrow> Some z
           | None \<Rightarrow> locate i g (Gt_of l e # up))"

text \<open>\<open>schedule_detach_parent\<close>: the childless node is cut off its parent (or off the root).\<close>

definition schedule_detach_parent :: "position \<Rightarrow> treap" where
  "schedule_detach_parent z = plug Leaf (snd z)"

definition schedule_remove_node :: "nat \<Rightarrow> treap \<Rightarrow> treap" where
  "schedule_remove_node i t =
     (case locate i t [] of None \<Rightarrow> t | Some z \<Rightarrow> schedule_detach_parent (remove_loop z))"

subsection \<open>Inserting\<close>

fun descend :: "schedule_entry \<Rightarrow> treap \<Rightarrow> crumb list \<Rightarrow> position option" where
  "descend e Leaf up = Some ((Leaf, e, Leaf), up)"
| "descend e (Node l c g) up =
     (if schedule_entry_compare e c = -1 then descend e l (Lt_of c g # up)
      else if schedule_entry_compare e c = 1 then descend e g (Gt_of l c # up)
      else None)"

fun schedule_insert :: "u32 list \<Rightarrow> schedule_entry \<Rightarrow> treap \<Rightarrow> position option" where
  "schedule_insert rnds e t =
     (case descend e t [] of
        Some z \<Rightarrow> Some z
      | None \<Rightarrow> (case rnds of [] \<Rightarrow> None | r # rs \<Rightarrow> schedule_insert rs (schedule_set_pri r e) t))"

declare schedule_insert.simps [simp del]

fun parent_pri :: "crumb \<Rightarrow> u32" where
  "parent_pri (Lt_of p g) = se_pri p"
| "parent_pri (Gt_of l p) = se_pri p"

function rotate_loop :: "position \<Rightarrow> position" where
  "rotate_loop ((l, e, g), []) = ((l, e, g), [])"
| "rotate_loop ((l, e, g), c # up) =
     (if parent_pri c > se_pri e then rotate_loop (schedule_rotate_up ((l, e, g), c # up))
      else ((l, e, g), c # up))"
  by pat_completeness auto
termination
proof (relation "measure (\<lambda>(n, up). length up)")
  fix l e g c up
  show "(schedule_rotate_up ((l, e, g), c # up), (l, e, g), c # up) \<in> measure (\<lambda>(n, up). length up)"
    by (cases c) auto
qed auto

definition schedule_add_modify :: "u32 list \<Rightarrow> schedule_entry \<Rightarrow> treap \<Rightarrow> treap option" where
  "schedule_add_modify rnds e t =
     (let t1 = schedule_remove_node (se_id e) t
      in case rnds of
           [] \<Rightarrow> None
         | r # rs \<Rightarrow>
             (case schedule_insert rs (schedule_set_pri r e) t1 of
                None \<Rightarrow> None
              | Some z \<Rightarrow> Some (whole (rotate_loop z))))"

subsection \<open>The scheduler\<close>

fun schedule_find_least :: "treap \<Rightarrow> schedule_entry option" where
  "schedule_find_least Leaf = None"
| "schedule_find_least (Node Leaf e g) = Some e"
| "schedule_find_least (Node (Node a x b) e g) = schedule_find_least (Node a x b)"

definition schedule_remove_entry :: "nat \<Rightarrow> schedule \<Rightarrow> schedule" where
  "schedule_remove_entry i s = s\<lparr>sc_earliest_wakeup := None, sc_root := schedule_remove_node i (sc_root s)\<rparr>"

definition schedule_add_entry :: "u32 list \<Rightarrow> nat \<Rightarrow> timeval \<Rightarrow> u32 \<Rightarrow> schedule \<Rightarrow> schedule option" where
  "schedule_add_entry rnds i tv sigma s =
     (let stay = (case locate i (sc_root s) [] of
                    None \<Rightarrow> False
                  | Some ((l, e, g), up) \<Rightarrow> sigma \<noteq> 0 \<and> tv_within_sigma tv (se_tv e) sigma)
      in if \<not> stay
         then map_option (\<lambda>t. s\<lparr>sc_root := t, sc_earliest_wakeup := None\<rparr>)
                (schedule_add_modify rnds \<lparr>se_id = i, se_tv = tv, se_pri = 0\<rparr> (sc_root s))
         else Some s)"

definition schedule_get_earliest_wakeup :: "schedule \<Rightarrow> schedule_entry option \<times> schedule" where
  "schedule_get_earliest_wakeup s =
     (let s1 = (if sc_earliest_wakeup s = None
                then s\<lparr>sc_earliest_wakeup := schedule_find_least (sc_root s)\<rparr> else s)
      in (sc_earliest_wakeup s1, s1))"

subsection \<open>Order\<close>

definition skey :: "schedule_entry \<Rightarrow> timeval \<times> u32" where
  "skey e = (se_tv e, se_pri e)"

lemma compare_skey:
  "schedule_entry_compare e1 e2 = -1 \<longleftrightarrow> skey e1 < skey e2"
  "schedule_entry_compare e1 e2 = 1 \<longleftrightarrow> skey e2 < skey e1"
  by (cases "se_tv e1"; cases "se_tv e2";
      auto simp: schedule_entry_compare_def skey_def less_prod_simp less_timeval_def less_eq_timeval_def)+

fun inorder :: "treap \<Rightarrow> schedule_entry list" where
  "inorder Leaf = []"
| "inorder (Node l e g) = inorder l @ e # inorder g"

fun before :: "crumb list \<Rightarrow> schedule_entry list" where
  "before [] = []"
| "before (Lt_of p g # up) = before up"
| "before (Gt_of l p # up) = before up @ inorder l @ [p]"

fun after :: "crumb list \<Rightarrow> schedule_entry list" where
  "after [] = []"
| "after (Lt_of p g # up) = p # inorder g @ after up"
| "after (Gt_of l p # up) = after up"

lemma inorder_plug: "inorder (plug t up) = before up @ inorder t @ after up"
  by (induction t up rule: plug.induct) auto

lemma rotate_up_inorder: "inorder (whole (schedule_rotate_up z)) = inorder (whole z)"
  by (cases z rule: schedule_rotate_up.cases) (auto simp: whole_def inorder_plug)

lemma rotate_loop_inorder: "inorder (whole (rotate_loop z)) = inorder (whole z)"
  by (induction z rule: rotate_loop.induct) (auto simp: rotate_up_inorder)

lemma remove_loop_spec:
  "\<exists>up'. remove_loop ((l, e, g), up) = ((Leaf, e, Leaf), up')
     \<and> inorder (plug Leaf up') = before up @ inorder l @ inorder g @ after up"
  by (induction "((l, e, g), up)" arbitrary: l e g up rule: remove_loop.induct)
    (auto simp: inorder_plug)

lemma locate_None: "locate i t up = None \<longleftrightarrow> i \<notin> se_id ` set (inorder t)"
  by (induction i t up rule: locate.induct) (auto split: option.splits)

lemma locate_Some:
  "locate i t up = Some ((l, e, g), up') \<Longrightarrow> se_id e = i \<and> before up' @ inorder (Node l e g) @ after up' = before up @ inorder t @ after up"
  by (induction i t up rule: locate.induct) (auto split: option.splits if_splits)

definition entries :: "treap \<Rightarrow> schedule_entry list" where "entries t = inorder t"

text \<open>The invariant: keys strictly increase in order, no entry occurs twice.\<close>

definition sched_wf :: "treap \<Rightarrow> bool" where
  "sched_wf t \<longleftrightarrow> sorted_wrt (<) (map skey (inorder t)) \<and> distinct (map se_id (inorder t))"

lemma distinct_filter_split:
  "distinct (map f (xs @ e # ys)) \<Longrightarrow> xs @ ys = filter (\<lambda>x. f x \<noteq> f e) (xs @ e # ys)"
proof -
  assume d: "distinct (map f (xs @ e # ys))"
  then have "\<forall>x \<in> set xs. f x \<noteq> f e" "\<forall>x \<in> set ys. f x \<noteq> f e"
    by (auto dest: sym)
  then have "filter (\<lambda>x. f x \<noteq> f e) xs = xs" "filter (\<lambda>x. f x \<noteq> f e) ys = ys"
    by (simp_all add: filter_id_conv)
  then show ?thesis by simp
qed

lemma remove_node_inorder:
  assumes "distinct (map se_id (inorder t))"
  shows "inorder (schedule_remove_node i t) = filter (\<lambda>e. se_id e \<noteq> i) (inorder t)"
proof (cases "locate i t []")
  case None
  then have "filter (\<lambda>e. se_id e \<noteq> i) (inorder t) = inorder t"
    by (auto simp: locate_None filter_id_conv)
  with None show ?thesis by (simp add: schedule_remove_node_def)
next
  case (Some z)
  obtain l e g up where z: "z = ((l, e, g), up)" by (metis prod.exhaust)
  from locate_Some [of i t "[]" l e g up] Some z
  have t: "inorder t = (before up @ inorder l) @ e # (inorder g @ after up)" "se_id e = i" by auto
  obtain up' where "remove_loop ((l, e, g), up) = ((Leaf, e, Leaf), up')"
      "inorder (plug Leaf up') = before up @ inorder l @ inorder g @ after up"
    using remove_loop_spec by blast
  then have "inorder (schedule_remove_node i t) = (before up @ inorder l) @ (inorder g @ after up)"
    using Some z by (simp add: schedule_remove_node_def schedule_detach_parent_def)
  also have "\<dots> = filter (\<lambda>x. se_id x \<noteq> se_id e) ((before up @ inorder l) @ e # (inorder g @ after up))"
    by (rule distinct_filter_split) (use assms t in simp)
  finally show ?thesis using t by simp
qed

lemma remove_node_wf:
  "sched_wf t \<Longrightarrow> sched_wf (schedule_remove_node i t) \<and> i \<notin> se_id ` set (inorder (schedule_remove_node i t))"
  by (auto simp: sched_wf_def remove_node_inorder sorted_wrt_map distinct_map inj_on_def
      intro: sorted_wrt_filter)

lemma descend_spec:
  "descend e t up = Some z \<Longrightarrow> sorted_wrt (<) (map skey (inorder t)) \<Longrightarrow>
     \<exists>xs ys. inorder t = xs @ ys \<and> inorder (whole z) = before up @ xs @ e # ys @ after up
       \<and> (\<forall>x \<in> set xs. skey x < skey e) \<and> (\<forall>y \<in> set ys. skey e < skey y)"
proof (induction e t up rule: descend.induct)
  case (1 e up)
  then show ?case by (auto simp: whole_def inorder_plug)
next
  case (2 e l c g up)
  have sl: "sorted_wrt (<) (map skey (inorder l))" "sorted_wrt (<) (map skey (inorder g))"
    and b: "\<forall>x \<in> set (inorder l). skey x < skey c" "\<forall>x \<in> set (inorder g). skey c < skey x"
    using "2.prems"(2) by (auto simp: sorted_wrt_append)
  consider "skey e < skey c" | "skey c < skey e" | "skey e = skey c" by force
  then show ?case
  proof cases
    case 1
    then obtain xs ys where "inorder l = xs @ ys" "inorder (whole z) = before up @ xs @ e # ys @ c # inorder g @ after up"
       "\<forall>x \<in> set xs. skey x < skey e" "\<forall>y \<in> set ys. skey e < skey y"
      using 2 sl(1) by (auto simp: compare_skey)
    with 1 b show ?thesis by (intro exI [of _ xs] exI [of _ "ys @ c # inorder g"]) auto
  next
    case 2
    then obtain xs ys where "inorder g = xs @ ys" "inorder (whole z) = before up @ inorder l @ c # xs @ e # ys @ after up"
       "\<forall>x \<in> set xs. skey x < skey e" "\<forall>y \<in> set ys. skey e < skey y"
      using "2.IH"(2) "2.prems" sl(2) by (auto simp: compare_skey split: if_splits)
    with 2 b show ?thesis by (intro exI [of _ "inorder l @ c # xs"] exI [of _ ys]) auto
  next
    case 3
    then have "\<not> schedule_entry_compare e c = -1" "\<not> schedule_entry_compare e c = 1"
      unfolding compare_skey by simp_all
    with "2.prems" show ?thesis by simp
  qed
qed

lemma descend_defined:
  "skey e \<notin> skey ` set (inorder t) \<Longrightarrow> descend e t up \<noteq> None"
proof (induction e t up rule: descend.induct)
  case (2 e l c g up)
  then have "skey e < skey c \<or> skey c < skey e" by force
  with 2 show ?case by (auto simp: compare_skey image_Un)
qed simp

lemma set_pri_simps [simp]:
  "se_id (schedule_set_pri r e) = se_id e" "se_tv (schedule_set_pri r e) = se_tv e"
  "se_pri (schedule_set_pri r e) = (if r = 0 then 1 else r)" "se_pri (schedule_set_pri r e) \<noteq> 0"
  by (auto simp: schedule_set_pri_def Let_def word_less_1)

lemma insert_spec:
  "schedule_insert rnds e t = Some z \<Longrightarrow> sorted_wrt (<) (map skey (inorder t)) \<Longrightarrow> se_pri e \<noteq> 0 \<Longrightarrow>
     \<exists>e' xs ys. se_id e' = se_id e \<and> se_tv e' = se_tv e \<and> se_pri e' \<noteq> 0 \<and> descend e' t [] = Some z
       \<and> inorder t = xs @ ys \<and> inorder (whole z) = xs @ e' # ys
       \<and> (\<forall>x \<in> set xs. skey x < skey e') \<and> (\<forall>y \<in> set ys. skey e' < skey y)"
proof (induction rnds e t rule: schedule_insert.induct)
  case (1 rnds e t)
  show ?case
  proof (cases "descend e t []")
    case (Some w)
    then have "w = z" using "1.prems"(1) by (simp add: schedule_insert.simps)
    with Some descend_spec [OF Some "1.prems"(2)] "1.prems"(3) show ?thesis by (auto intro!: exI [of _ e])
  next
    case None
    then obtain r rs where rs: "rnds = r # rs"
      using "1.prems" by (cases rnds) (auto simp: schedule_insert.simps [of "[]"])
    then have ins: "schedule_insert rs (schedule_set_pri r e) t = Some z"
      using None "1.prems"(1) by (simp add: schedule_insert.simps [of "r # rs"])
    show ?thesis using "1.IH" [OF None rs ins "1.prems"(2) set_pri_simps(4)] unfolding set_pri_simps(1,2) .
  qed
qed

text \<open>
  Enough distinct random numbers and the insertion ends: each collision uses up one entry's key.
\<close>

lemma insert_defined:
  assumes "distinct (p # rnds)" "0 \<notin> set (p # rnds)" "card (se_pri ` {x \<in> set (inorder t). se_tv x = se_tv e}) < length (p # rnds)"
    "se_pri e = p"
  shows "schedule_insert rnds e t \<noteq> None"
proof (rule ccontr)
  assume "\<not> schedule_insert rnds e t \<noteq> None"
  then have n: "schedule_insert rnds e t = None" by blast
  have "\<forall>q \<in> set (p # rnds). q \<in> se_pri ` {x \<in> set (inorder t). se_tv x = se_tv e}"
    using n assms(2,4)
  proof (induction rnds e t arbitrary: p rule: schedule_insert.induct)
    case (1 rnds e t)
    have d: "descend e t [] = None" using "1.prems"(1) by (simp add: schedule_insert.simps split: option.splits)
    then have "skey e \<in> skey ` set (inorder t)" using descend_defined by blast
    then have p: "p \<in> se_pri ` {x \<in> set (inorder t). se_tv x = se_tv e}"
      using "1.prems"(3) by (auto simp: skey_def)
    show ?case
    proof (cases rnds)
      case Nil
      with p show ?thesis by simp
    next
      case (Cons r rs)
      have "r \<noteq> 0" using "1.prems"(2) Cons by auto
      then show ?thesis using "1.IH" [of r rs r] Cons d "1.prems" p
        by (simp add: schedule_insert.simps [of "r # rs"])
    qed
  qed
  then have "card (set (p # rnds)) \<le> card (se_pri ` {x \<in> set (inorder t). se_tv x = se_tv e})"
    by (intro card_mono) auto
  with assms(1,3) show False by (simp add: distinct_card)
qed

definition wakeups :: "treap \<Rightarrow> nat \<rightharpoonup> timeval" where
  "wakeups t = map_of (map (\<lambda>e. (se_id e, se_tv e)) (inorder t))"

lemma wakeups_iff:
  "sched_wf t \<Longrightarrow> wakeups t i = Some tv \<longleftrightarrow> (\<exists>e \<in> set (inorder t). se_id e = i \<and> se_tv e = tv)"
  unfolding wakeups_def sched_wf_def
  by (subst map_of_eq_Some_iff) (auto simp: comp_def)

lemma wakeups_eqI:
  assumes "sched_wf t" "\<And>i tv. f i = Some tv \<longleftrightarrow> (\<exists>e \<in> set (inorder t). se_id e = i \<and> se_tv e = tv)"
  shows "wakeups t = f"
proof (rule ext)
  fix i
  have "\<forall>tv. wakeups t i = Some tv \<longleftrightarrow> f i = Some tv" using wakeups_iff [OF assms(1)] assms(2) by blast
  then show "wakeups t i = f i" by (metis option.exhaust)
qed

lemma remove_node_wakeups:
  "sched_wf t \<Longrightarrow> wakeups (schedule_remove_node i t) = (wakeups t)(i := None)"
  by (rule wakeups_eqI) (use remove_node_wf wakeups_iff in \<open>auto simp: remove_node_inorder sched_wf_def\<close>)

lemma whole_inorder: "inorder (whole ((l, e, g), up)) = before up @ inorder l @ e # inorder g @ after up"
  by (simp add: whole_def inorder_plug)

lemma add_modify_inorder:
  assumes wf: "sched_wf t" and add: "schedule_add_modify rnds e t = Some t'"
  obtains e' xs ys where "se_id e' = se_id e" "se_tv e' = se_tv e" "se_pri e' \<noteq> 0"
    "inorder (schedule_remove_node (se_id e) t) = xs @ ys" "inorder t' = xs @ e' # ys"
    "\<forall>x \<in> set xs. skey x < skey e'" "\<forall>y \<in> set ys. skey e' < skey y"
proof -
  let ?t1 = "schedule_remove_node (se_id e) t"
  have so: "sorted_wrt (<) (map skey (inorder ?t1))" using remove_node_wf [OF wf] by (simp add: sched_wf_def)
  obtain r rs z where z: "schedule_insert rs (schedule_set_pri r e) ?t1 = Some z" "t' = whole (rotate_loop z)"
    using add by (auto simp: schedule_add_modify_def Let_def split: list.splits option.splits)
  have io: "inorder t' = inorder (whole z)" by (simp only: z(2) rotate_loop_inorder)
  have nz: "se_pri (schedule_set_pri r e) \<noteq> 0" by (rule set_pri_simps(4))
  show thesis
    using insert_spec [OF z(1) so nz] that unfolding set_pri_simps(1,2) io by blast
qed

lemma add_modify_spec:
  assumes wf: "sched_wf t" and add: "schedule_add_modify rnds e t = Some t'"
  shows "sched_wf t'" "wakeups t' = (wakeups t)(se_id e \<mapsto> se_tv e)"
proof -
  let ?t1 = "schedule_remove_node (se_id e) t"
  have wf1: "sched_wf ?t1" "se_id e \<notin> se_id ` set (inorder ?t1)" using remove_node_wf [OF wf] by auto
  obtain e' xs ys where e': "se_id e' = se_id e" "se_tv e' = se_tv e" "inorder ?t1 = xs @ ys"
      "inorder t' = xs @ e' # ys" "\<forall>x \<in> set xs. skey x < skey e'" "\<forall>y \<in> set ys. skey e' < skey y"
    by (rule add_modify_inorder [OF wf add])
  have so: "sorted_wrt (<) (map skey (xs @ ys))" "distinct (map se_id (xs @ ys))" "se_id e \<notin> se_id ` set (xs @ ys)"
    using wf1 e'(3) by (simp_all add: sched_wf_def)
  show wf': "sched_wf t'"
    using so e' by (auto simp: sched_wf_def sorted_wrt_append)
  have "\<And>i tv. ((wakeups ?t1)(se_id e \<mapsto> se_tv e)) i = Some tv \<longleftrightarrow> (\<exists>x \<in> set (inorder t'). se_id x = i \<and> se_tv x = tv)"
    using so(3) wakeups_iff [OF wf1(1)] unfolding e'(3,4) fun_upd_apply using e'(1,2) by (auto simp: image_iff dest: sym)
  then have "wakeups t' = (wakeups ?t1)(se_id e \<mapsto> se_tv e)"
    by (rule wakeups_eqI [OF wf'])
  then show "wakeups t' = (wakeups t)(se_id e \<mapsto> se_tv e)" by (simp add: remove_node_wakeups [OF wf])
qed

lemma find_least_spec:
  "schedule_find_least t = (if inorder t = [] then None else Some (hd (inorder t)))"
  by (induction t rule: schedule_find_least.induct) (auto simp: hd_append)

subsection \<open>Heap order\<close>

text \<open>Priorities never decrease on the way down; \<open>ctx_ok\<close> is the same of the path above a position.\<close>

fun heap_above :: "u32 \<Rightarrow> treap \<Rightarrow> bool" where
  "heap_above b Leaf = True"
| "heap_above b (Node l e g) = (b \<le> se_pri e \<and> heap_above (se_pri e) l \<and> heap_above (se_pri e) g)"

fun top_pri :: "crumb list \<Rightarrow> u32" where
  "top_pri [] = 0"
| "top_pri (c # up) = parent_pri c"

fun ctx_ok :: "crumb list \<Rightarrow> bool" where
  "ctx_ok [] = True"
| "ctx_ok (Lt_of p g # up) = (heap_above (se_pri p) g \<and> top_pri up \<le> se_pri p \<and> ctx_ok up)"
| "ctx_ok (Gt_of l p # up) = (heap_above (se_pri p) l \<and> top_pri up \<le> se_pri p \<and> ctx_ok up)"

lemma heap_above_mono: "heap_above b t \<Longrightarrow> a \<le> b \<Longrightarrow> heap_above a t"
  by (cases t) auto

lemma heap_plug: "heap_above 0 (plug t up) \<longleftrightarrow> ctx_ok up \<and> heap_above (top_pri up) t"
proof (induction t up rule: plug.induct)
  case (2 t p g up)
  then show ?case by auto
next
  case (3 t l p up)
  then show ?case by auto
qed simp

lemma locate_heap:
  "locate i t up = Some ((l, e, g), up') \<Longrightarrow> ctx_ok up \<Longrightarrow> heap_above (top_pri up) t
     \<Longrightarrow> ctx_ok up' \<and> heap_above (top_pri up') (Node l e g)"
  by (induction i t up rule: locate.induct) (auto split: option.splits if_splits)

lemma remove_loop_heap:
  "ctx_ok up \<Longrightarrow> heap_above (top_pri up) l \<Longrightarrow> heap_above (top_pri up) g \<Longrightarrow> ctx_ok (snd (remove_loop ((l, e, g), up)))"
  by (induction "((l, e, g), up)" arbitrary: l e g up rule: remove_loop.induct)
    (auto simp: not_less)

lemma remove_node_heap:
  assumes "heap_above 0 t"
  shows "heap_above 0 (schedule_remove_node i t)"
proof (cases "locate i t []")
  case None
  with assms show ?thesis by (simp add: schedule_remove_node_def)
next
  case (Some z)
  obtain l e g up where z: "z = ((l, e, g), up)" by (metis prod.exhaust)
  have "ctx_ok up" "heap_above (top_pri up) (Node l e g)"
    using locate_heap [of i t "[]" l e g up] Some z assms by auto
  then have "ctx_ok (snd (remove_loop z))"
    unfolding z by (intro remove_loop_heap) (auto intro: heap_above_mono)
  with Some show ?thesis by (simp add: schedule_remove_node_def schedule_detach_parent_def heap_plug)
qed

lemma descend_heap:
  "descend e t up = Some ((l, e', g), up') \<Longrightarrow> ctx_ok up \<Longrightarrow> heap_above (top_pri up) t
     \<Longrightarrow> ctx_ok up' \<and> l = Leaf \<and> g = Leaf"
  by (induction e t up rule: descend.induct) (auto split: if_splits)

lemma rotate_loop_heap:
  "ctx_ok up \<Longrightarrow> heap_above (top_pri up) l \<Longrightarrow> heap_above (top_pri up) g \<Longrightarrow> heap_above (se_pri e) l \<Longrightarrow> heap_above (se_pri e) g
     \<Longrightarrow> heap_above 0 (whole (rotate_loop ((l, e, g), up)))"
proof (induction "((l, e, g), up)" arbitrary: l e g up rule: rotate_loop.induct)
  case (1 l e g)
  then show ?case by (simp add: whole_def)
next
  case (2 l e g c up)
  show ?case
  proof (cases "parent_pri c > se_pri e")
    case False
    with 2 show ?thesis by (simp add: whole_def heap_plug)
  next
    case True
    show ?thesis
    proof (cases c)
      case (Lt_of p pg)
      have "heap_above (top_pri up) l" "heap_above (top_pri up) g" "se_pri e \<le> se_pri p"
        using "2.prems" Lt_of True by (auto intro: heap_above_mono)
      then show ?thesis using "2.hyps" [OF True, of l e "Node g p pg" up] "2.prems" Lt_of True by simp
    next
      case (Gt_of pl p)
      have "heap_above (top_pri up) l" "heap_above (top_pri up) g" "se_pri e \<le> se_pri p"
        using "2.prems" Gt_of True by (auto intro: heap_above_mono)
      then show ?thesis using "2.hyps" [OF True, of "Node pl p l" e g up] "2.prems" Gt_of True by simp
    qed
  qed
qed

lemma add_modify_heap:
  assumes wf: "sched_wf t" and heap: "heap_above 0 t" and add: "schedule_add_modify rnds e t = Some t'"
  shows "heap_above 0 t'"
proof -
  let ?t1 = "schedule_remove_node (se_id e) t"
  have so: "sorted_wrt (<) (map skey (inorder ?t1))" using remove_node_wf [OF wf] by (simp add: sched_wf_def)
  obtain r rs z where z: "schedule_insert rs (schedule_set_pri r e) ?t1 = Some z" "t' = whole (rotate_loop z)"
    using add by (auto simp: schedule_add_modify_def Let_def split: list.splits option.splits)
  have nz: "se_pri (schedule_set_pri r e) \<noteq> 0" by (rule set_pri_simps(4))
  obtain e' where d: "descend e' ?t1 [] = Some z" using insert_spec [OF z(1) so nz] by blast
  obtain l x g up where zz: "z = ((l, x, g), up)" by (metis prod.exhaust)
  have "ctx_ok up" "l = Leaf" "g = Leaf"
    using descend_heap [OF d [unfolded zz]] remove_node_heap [OF heap] by auto
  then show ?thesis using z(2) zz rotate_loop_heap by simp
qed

subsection \<open>The scheduler's invariant and operations\<close>

definition sched_inv :: "schedule \<Rightarrow> bool" where
  "sched_inv s \<longleftrightarrow> sched_wf (sc_root s) \<and> heap_above 0 (sc_root s)
     \<and> (sc_earliest_wakeup s \<noteq> None \<longrightarrow> sc_earliest_wakeup s = schedule_find_least (sc_root s))"

definition pending :: "schedule \<Rightarrow> nat \<rightharpoonup> timeval" where
  "pending s = wakeups (sc_root s)"

lemma schedule_init_inv: "sched_inv schedule_init" "pending schedule_init = Map.empty"
  by (simp_all add: sched_inv_def schedule_init_def sched_wf_def pending_def wakeups_def)

lemma schedule_remove_entry_spec:
  assumes "sched_inv s"
  shows "sched_inv (schedule_remove_entry i s)" "pending (schedule_remove_entry i s) = (pending s)(i := None)"
  using assms by (simp_all add: sched_inv_def schedule_remove_entry_def pending_def remove_node_wf
      remove_node_heap remove_node_wakeups)

lemma locate_wakeups:
  assumes "sched_wf t" "locate i t [] = Some ((l, e, g), up)"
  shows "wakeups t i = Some (se_tv e)"
proof -
  have "inorder t = before up @ inorder (Node l e g) @ after up" "se_id e = i"
    using locate_Some [OF assms(2)] by simp_all
  then show ?thesis by (auto simp: wakeups_iff [OF assms(1)])
qed

text \<open>What adding promises: the time is set, unless the pending one is within \<open>sigma\<close> of it.\<close>

definition queue_add :: "nat \<Rightarrow> timeval \<Rightarrow> u32 \<Rightarrow> (nat \<rightharpoonup> timeval) \<Rightarrow> (nat \<rightharpoonup> timeval)" where
  "queue_add i tv sigma m =
     (case m i of
        None \<Rightarrow> m(i \<mapsto> tv)
      | Some old \<Rightarrow> if sigma \<noteq> 0 \<and> tv_within_sigma tv old sigma then m else m(i \<mapsto> tv))"

lemma schedule_add_entry_spec:
  assumes inv: "sched_inv s" and add: "schedule_add_entry rnds i tv sigma s = Some s'"
  shows "sched_inv s' \<and> pending s' = queue_add i tv sigma (pending s)"
proof -
  have wf: "sched_wf (sc_root s)" "heap_above 0 (sc_root s)" using inv by (simp_all add: sched_inv_def)
  let ?e = "\<lparr>se_id = i, se_tv = tv, se_pri = 0\<rparr>"
  have m: "sched_inv (s\<lparr>sc_root := t, sc_earliest_wakeup := None\<rparr>) \<and>
      pending (s\<lparr>sc_root := t, sc_earliest_wakeup := None\<rparr>) = (pending s)(i \<mapsto> tv)"
    if a: "schedule_add_modify rnds ?e (sc_root s) = Some t" for t
    using add_modify_spec [OF wf(1) a] add_modify_heap [OF wf a] by (simp add: sched_inv_def pending_def)
  show ?thesis
  proof (cases "locate i (sc_root s) []")
    case None
    then have "pending s i = None"
      unfolding locate_None pending_def wakeups_def by (force simp: map_of_eq_None_iff)
    with None add m show ?thesis by (auto simp: schedule_add_entry_def queue_add_def)
  next
    case (Some z)
    obtain l e g up where z: "z = ((l, e, g), up)" by (metis prod.exhaust)
    with Some locate_wakeups [OF wf(1)] have "pending s i = Some (se_tv e)" by (simp add: pending_def)
    with Some z add m inv show ?thesis by (auto simp: schedule_add_entry_def queue_add_def split: if_splits)
  qed
qed

lemma skey_hd_least:
  assumes "sched_wf t" "inorder t = e # xs"
  shows "wakeups t (se_id e) = Some (se_tv e)" "wakeups t j = Some tv \<Longrightarrow> se_tv e \<le> tv"
proof -
  show "wakeups t (se_id e) = Some (se_tv e)" using assms by (auto simp: wakeups_iff)
  assume "wakeups t j = Some tv"
  then obtain x where x: "x \<in> set (e # xs)" "se_tv x = tv" using assms by (auto simp: wakeups_iff)
  then have "x = e \<or> skey e < skey x" using assms by (auto simp: sched_wf_def)
  then show "se_tv e \<le> tv" using x(2) by (auto simp: skey_def less_prod_simp)
qed

lemma get_earliest_spec:
  assumes "sched_inv s" "schedule_get_earliest_wakeup s = (r, s')"
  shows "sched_inv s'" "pending s' = pending s"
    "case r of None \<Rightarrow> pending s = Map.empty
       | Some e \<Rightarrow> pending s (se_id e) = Some (se_tv e) \<and> (\<forall>j tv. pending s j = Some tv \<longrightarrow> se_tv e \<le> tv)"
proof -
  have r: "r = schedule_find_least (sc_root s)" and s': "sc_root s' = sc_root s" "sc_earliest_wakeup s' = r"
    using assms by (auto simp: sched_inv_def schedule_get_earliest_wakeup_def Let_def split: if_splits)
  show "sched_inv s'" "pending s' = pending s" using assms(1) r s' by (auto simp: sched_inv_def pending_def)
  show "case r of None \<Rightarrow> pending s = Map.empty
       | Some e \<Rightarrow> pending s (se_id e) = Some (se_tv e) \<and> (\<forall>j tv. pending s j = Some tv \<longrightarrow> se_tv e \<le> tv)"
    using assms(1) skey_hd_least [of "sc_root s"]
    by (cases "inorder (sc_root s)") (auto simp: r find_least_spec pending_def sched_inv_def wakeups_def)
qed

subsection \<open>A queue of wake-ups\<close>

text \<open>
  What the server loop of \<^verbatim>\<open>multi.c\<close> needs of the scheduler: a finite map of pending wake-ups, an
  earliest one, and removal. Serving the earliest entry again and again meets the entries in the
  order of their times and misses none.
\<close>

locale wakeup_queue =
  fixes inv :: "'s \<Rightarrow> bool"
    and pend :: "'s \<Rightarrow> 'k \<rightharpoonup> 't :: linorder"
    and earliest :: "'s \<Rightarrow> ('k \<times> 't) option \<times> 's"
    and remove :: "'k \<Rightarrow> 's \<Rightarrow> 's"
  assumes inv_earliest: "inv s \<Longrightarrow> inv (snd (earliest s))"
    and pend_earliest: "inv s \<Longrightarrow> pend (snd (earliest s)) = pend s"
    and earliest_None: "inv s \<Longrightarrow> fst (earliest s) = None \<Longrightarrow> pend s = Map.empty"
    and earliest_Some: "inv s \<Longrightarrow> fst (earliest s) = Some (k, t) \<Longrightarrow> pend s k = Some t \<and> (\<forall>j u. pend s j = Some u \<longrightarrow> t \<le> u)"
    and inv_remove: "inv s \<Longrightarrow> inv (remove k s)"
    and pend_remove: "inv s \<Longrightarrow> pend (remove k s) = (pend s)(k := None)"
begin

primrec serve :: "nat \<Rightarrow> 's \<Rightarrow> ('k \<times> 't) list" where
  "serve 0 s = []"
| "serve (Suc n) s =
     (case earliest s of
        (None, s') \<Rightarrow> []
      | (Some (k, t), s') \<Rightarrow> (k, t) # serve n (remove k s'))"

lemma serve_sound: "inv s \<Longrightarrow> (k, t) \<in> set (serve n s) \<Longrightarrow> pend s k = Some t"
proof (induction n arbitrary: s)
  case (Suc n)
  obtain r s' where e: "earliest s = (r, s')" by fastforce
  with Suc.prems obtain k' t' where r: "r = Some (k', t')" by (auto split: option.splits)
  note ok = inv_earliest [OF Suc.prems(1)] pend_earliest [OF Suc.prems(1)] earliest_Some [OF Suc.prems(1)]
  have "(k, t) = (k', t') \<or> (k, t) \<in> set (serve n (remove k' s'))" using Suc.prems(2) e r by auto
  then show ?case
  proof
    assume "(k, t) = (k', t')"
    with ok(3) [of k t] e r show ?thesis by simp
  next
    assume a: "(k, t) \<in> set (serve n (remove k' s'))"
    have "inv s'" "pend s' = pend s" using ok e by simp_all
    then show ?thesis using Suc.IH [OF inv_remove a] pend_remove [of s' k'] by (simp split: if_splits)
  qed
qed simp

lemma serve_sorted: "inv s \<Longrightarrow> sorted (map snd (serve n s))"
proof (induction n arbitrary: s)
  case (Suc n)
  obtain r s' where e: "earliest s = (r, s')" by fastforce
  show ?case
  proof (cases r)
    case (Some kt)
    obtain k t where kt: "kt = (k, t)" by fastforce
    have s': "inv s'" "pend s' = pend s" using inv_earliest [OF Suc.prems] pend_earliest [OF Suc.prems] e by simp_all
    have "\<forall>u \<in> set (serve n (remove k s')). t \<le> snd u"
    proof
      fix u assume "u \<in> set (serve n (remove k s'))"
      then have "pend (remove k s') (fst u) = Some (snd u)"
        using serve_sound [OF inv_remove [OF s'(1)], of "fst u" "snd u"] by simp
      then show "t \<le> snd u"
        using earliest_Some [OF Suc.prems, of k t] e Some kt s' by (simp add: pend_remove split: if_splits)
    qed
    then show ?thesis using e Some kt Suc.IH [OF inv_remove [OF s'(1)]] by simp
  qed (use e in simp)
qed simp

lemma serve_complete:
  "inv s \<Longrightarrow> finite (dom (pend s)) \<Longrightarrow> card (dom (pend s)) \<le> n \<Longrightarrow> map_of (serve n s) = pend s \<and> distinct (map fst (serve n s))"
proof (induction n arbitrary: s)
  case (Suc n)
  obtain r s' where e: "earliest s = (r, s')" by fastforce
  show ?case
  proof (cases r)
    case None
    with e earliest_None [OF Suc.prems(1)] show ?thesis by simp
  next
    case (Some kt)
    obtain k t where kt: "kt = (k, t)" by fastforce
    have s': "inv s'" "pend s' = pend s"
      using inv_earliest [OF Suc.prems(1)] pend_earliest [OF Suc.prems(1)] e by simp_all
    have k: "pend s k = Some t" using earliest_Some [OF Suc.prems(1), of k t] e Some kt by simp
    have d: "dom (pend (remove k s')) = dom (pend s) - {k}" using s' by (simp add: pend_remove)
    have "card (dom (pend s) - {k}) \<le> n" using Suc.prems(2,3) k by (simp add: card_Diff_singleton_if dom_def)
    then have IH: "map_of (serve n (remove k s')) = (pend s)(k := None)" "distinct (map fst (serve n (remove k s')))"
      using Suc.IH [OF inv_remove [OF s'(1)], of k, unfolded d] Suc.prems(2)
      unfolding pend_remove [OF s'(1)] s'(2) by (simp_all add: fun_upd_def)
    have "k \<notin> fst ` set (serve n (remove k s'))"
      using IH(1) by (metis fun_upd_same map_of_eq_None_iff)
    with IH e Some kt k show ?thesis by (auto simp: fun_eq_iff)
  qed
next
  case 0
  then show ?case by (auto simp: dom_def)
qed

end

definition earliest_wakeup :: "schedule \<Rightarrow> (nat \<times> timeval) option \<times> schedule" where
  "earliest_wakeup s = (case schedule_get_earliest_wakeup s of (r, s') \<Rightarrow> (map_option (\<lambda>e. (se_id e, se_tv e)) r, s'))"

interpretation wq: wakeup_queue sched_inv pending earliest_wakeup schedule_remove_entry
proof unfold_locales
  fix s :: schedule and k t
  assume i: "sched_inv s"
  obtain r s' where e: "schedule_get_earliest_wakeup s = (r, s')" by fastforce
  note sp = get_earliest_spec [OF i e]
  show "sched_inv (snd (earliest_wakeup s))" "pending (snd (earliest_wakeup s)) = pending s"
    using sp e by (simp_all add: earliest_wakeup_def)
  show "fst (earliest_wakeup s) = None \<Longrightarrow> pending s = Map.empty"
    using sp(3) e by (cases r) (simp_all add: earliest_wakeup_def)
  show "fst (earliest_wakeup s) = Some (k, t) \<Longrightarrow> pending s k = Some t \<and> (\<forall>j u. pending s j = Some u \<longrightarrow> t \<le> u)"
    using sp(3) e by (cases r) (auto simp: earliest_wakeup_def)
qed (fact schedule_remove_entry_spec)+

lemma finite_pending: "finite (dom (pending s))"
  by (simp add: pending_def wakeups_def finite_dom_map_of)

subsection \<open>Properties\<close>

text \<open>The operations a client calls, in any order, and what they do to the map of pending wake-ups.\<close>

datatype sched_op = Add "u32 list" nat timeval u32 | Remove nat | Earliest

fun sched_run :: "sched_op list \<Rightarrow> schedule \<Rightarrow> schedule option" where
  "sched_run [] s = Some s"
| "sched_run (Add rnds i tv sigma # ops) s =
     (case schedule_add_entry rnds i tv sigma s of None \<Rightarrow> None | Some s' \<Rightarrow> sched_run ops s')"
| "sched_run (Remove i # ops) s = sched_run ops (schedule_remove_entry i s)"
| "sched_run (Earliest # ops) s = sched_run ops (snd (schedule_get_earliest_wakeup s))"

fun queue_run :: "sched_op list \<Rightarrow> (nat \<rightharpoonup> timeval) \<Rightarrow> (nat \<rightharpoonup> timeval)" where
  "queue_run [] m = m"
| "queue_run (Add rnds i tv sigma # ops) m = queue_run ops (queue_add i tv sigma m)"
| "queue_run (Remove i # ops) m = queue_run ops (m(i := None))"
| "queue_run (Earliest # ops) m = queue_run ops m"

lemma sched_run_refines:
  "sched_inv s \<Longrightarrow> sched_run ops s = Some s' \<Longrightarrow> sched_inv s' \<and> pending s' = queue_run ops (pending s)"
proof (induction ops s rule: sched_run.induct)
  case (2 rnds i tv sigma ops s)
  then show ?case using schedule_add_entry_spec [OF "2.prems"(1)] by (auto split: option.splits)
next
  case (3 i ops s)
  then show ?case by (simp add: schedule_remove_entry_spec fun_upd_def)
next
  case (4 ops s)
  obtain r s1 where "schedule_get_earliest_wakeup s = (r, s1)" by fastforce
  with 4 get_earliest_spec [OF "4.prems"(1)] show ?case by simp
qed simp

text \<open>
  C20: after any sequence of scheduler calls from an empty scheduler, the treap is ordered and its
  priorities form a heap, and the wake-ups it holds are those of the abstract map; asking for the
  earliest one, from the cache or from the tree, gives an entry of the map with a minimal time, and
  nothing only when the map is empty.
\<close>

theorem schedule_refines_map:
  assumes "sched_run ops schedule_init = Some s" and "schedule_get_earliest_wakeup s = (r, s')"
  shows "sorted_wrt (<) (map skey (inorder (sc_root s))) \<and> heap_above 0 (sc_root s)
    \<and> wakeups (sc_root s) = queue_run ops Map.empty \<and> sc_root s' = sc_root s
    \<and> (case r of None \<Rightarrow> queue_run ops Map.empty = Map.empty
        | Some e \<Rightarrow> queue_run ops Map.empty (se_id e) = Some (se_tv e)
            \<and> (\<forall>j. case queue_run ops Map.empty j of None \<Rightarrow> True | Some tv \<Rightarrow> se_tv e \<le> tv))"
proof -
  have inv: "sched_inv s" "pending s = queue_run ops Map.empty"
    using sched_run_refines [OF schedule_init_inv(1) assms(1)] by (simp_all add: schedule_init_inv(2))
  have "sc_root s' = sc_root s" using assms(2) by (auto simp: schedule_get_earliest_wakeup_def Let_def)
  with get_earliest_spec(3) [OF inv(1) assms(2)] inv show ?thesis
    by (auto simp: sched_inv_def sched_wf_def pending_def split: option.splits)
qed

theorem schedule_refines_map_witness:
  "\<exists>s. sched_run [Add [7] 1 (Timeval 50 0) 0, Add [3] 2 (Timeval 20 5) 0, Earliest, Add [3, 9] 3 (Timeval 20 5) 0, Remove 2] schedule_init = Some s
     \<and> wakeups (sc_root s) 3 = Some (Timeval 20 5) \<and> wakeups (sc_root s) 2 = None"
proof -
  let ?ops = "[Add [7] 1 (Timeval 50 0) 0, Add [3] 2 (Timeval 20 5) 0, Earliest, Add [3, 9] 3 (Timeval 20 5) 0, Remove 2]"
  have "sched_run ?ops schedule_init \<noteq> None" by code_simp
  then obtain s where s: "sched_run ?ops schedule_init = Some s" by blast
  obtain r s' where "schedule_get_earliest_wakeup s = (r, s')" by fastforce
  from schedule_refines_map [OF s this] have "wakeups (sc_root s) = queue_run ?ops Map.empty" by blast
  then show ?thesis using s by (auto simp: queue_add_def)
qed

text \<open>
  A server that takes the earliest wake-up, handles it and removes it meets the pending entries
  in the order of their times, each once and none forgotten.
\<close>

theorem schedule_served_in_order:
  assumes "sched_run ops schedule_init = Some s"
  shows "sorted (map snd (wq.serve (card (dom (pending s))) s))
    \<and> distinct (map fst (wq.serve (card (dom (pending s))) s))
    \<and> map_of (wq.serve (card (dom (pending s))) s) = queue_run ops Map.empty"
proof -
  have "sched_inv s" "pending s = queue_run ops Map.empty"
    using sched_run_refines [OF schedule_init_inv(1) assms] by (simp_all add: schedule_init_inv(2))
  then show ?thesis using wq.serve_sorted wq.serve_complete [OF _ finite_pending] by simp
qed

theorem schedule_served_in_order_witness:
  "\<exists>s. map_of (wq.serve (card (dom (pending s))) s) = [1 \<mapsto> Timeval 50 0, 2 \<mapsto> Timeval 20 5, 3 \<mapsto> Timeval 20 5]
     \<and> sorted (map snd (wq.serve (card (dom (pending s))) s))"
proof -
  let ?ops = "[Add [7] 1 (Timeval 50 0) 0, Add [3] 2 (Timeval 20 5) 0, Add [3, 9] 3 (Timeval 20 5) 0]"
  have "sched_run ?ops schedule_init \<noteq> None" by code_simp
  then obtain s where s: "sched_run ?ops schedule_init = Some s" by blast
  from schedule_served_in_order [OF s] show ?thesis by (intro exI [of _ s]) (simp add: queue_add_def)
qed

text \<open>
  The retry loop of \<open>schedule_insert\<close> ends: given more distinct non-zero random numbers than
  the scheduler has entries, adding an entry succeeds, whatever collides.
\<close>

theorem schedule_add_terminates:
  assumes "sched_inv s" "distinct rnds" "0 \<notin> set rnds" "card (dom (pending s)) < length rnds"
  shows "\<exists>s'. schedule_add_entry rnds i tv sigma s = Some s'"
proof -
  obtain r rs where rs: "rnds = r # rs" using assms(4) by (cases rnds) auto
  let ?t = "schedule_remove_node i (sc_root s)" and ?e = "\<lparr>se_id = i, se_tv = tv, se_pri = 0 :: u32\<rparr>"
  have wf: "sched_wf (sc_root s)" using assms(1) by (simp add: sched_inv_def)
  then have di: "distinct (map se_id (inorder (sc_root s)))" by (simp add: sched_wf_def)
  let ?X = "{x \<in> set (inorder ?t). se_tv x = tv}"
  have "card (se_pri ` ?X) \<le> card ?X" by (intro card_image_le) auto
  also have "\<dots> \<le> card (set (inorder (sc_root s)))"
    using remove_node_inorder [OF di, of i] by (intro card_mono) auto
  also have "\<dots> = card (se_id ` set (inorder (sc_root s)))"
    using di by (simp add: card_image distinct_map)
  also have "\<dots> = card (dom (pending s))"
    by (simp add: pending_def wakeups_def dom_map_of_conv_image_fst image_image)
  finally have c: "card (se_pri ` ?X) < length (r # rs)" using assms(4) rs by simp
  have "schedule_insert rs (schedule_set_pri r ?e) ?t \<noteq> None"
    by (rule insert_defined [of r]) (use assms rs c in auto)
  then show ?thesis using rs by (auto simp: schedule_add_entry_def schedule_add_modify_def Let_def)
qed

theorem schedule_add_terminates_witness:
  "\<exists>s'. schedule_add_entry [5, 9] 1 (Timeval 4 0) 0
       (schedule_init\<lparr>sc_root := Node Leaf \<lparr>se_id = 2, se_tv = Timeval 4 0, se_pri = 5\<rparr> Leaf\<rparr>) = Some s'"
  by (rule schedule_add_terminates)
    (simp_all add: sched_inv_def sched_wf_def schedule_init_def pending_def wakeups_def)

end
