(* ===== verification/Fragment.thy ===== *)
theory Fragment
  imports Mtu Otime
begin

text \<open>
  \<^verbatim>\<open>fragment.h\<close> and \<^verbatim>\<open>fragment.c\<close>: datagram fragmentation and reassembly.

  The records have the fields of the C structs. \<open>get_random\<close> is an argument of
  \<open>fragment_init\<close>, \<open>now\<close> of the operations that read it. Where the C code hands out a struct
  copy of an internal buffer (\<open>*buf = frag->buf\<close>, \<open>*buf = f->outgoing_return\<close>) the two share
  their block; the model copies the value, which is the same until the internal buffer is
  initialised again.
\<close>

definition N_FRAG_BUF :: int where "N_FRAG_BUF = 25"
definition FRAG_TTL_SEC :: int where "FRAG_TTL_SEC = 10"
definition FRAG_WAKEUP_INTERVAL :: int where "FRAG_WAKEUP_INTERVAL = 5"
definition N_SEQ_ID :: int where "N_SEQ_ID = 256"
definition MAX_FRAGS :: int where "MAX_FRAGS = 32"
definition FRAG_MAP_MASK :: u32 where "FRAG_MAP_MASK = 0xFFFFFFFF"
definition FRAG_TYPE_MASK :: u32 where "FRAG_TYPE_MASK = 3"
definition FRAG_WHOLE :: u32 where "FRAG_WHOLE = 0"
definition FRAG_YES_NOTLAST :: u32 where "FRAG_YES_NOTLAST = 1"
definition FRAG_YES_LAST :: u32 where "FRAG_YES_LAST = 2"
definition FRAG_SEQ_ID_MASK :: u32 where "FRAG_SEQ_ID_MASK = 0xff"
definition FRAG_ID_MASK :: u32 where "FRAG_ID_MASK = 0x1f"
definition FRAG_SIZE_MASK :: u32 where "FRAG_SIZE_MASK = 0x3fff"
definition FRAG_SIZE_ROUND_MASK :: int where "FRAG_SIZE_ROUND_MASK = 3"

lemmas frag_consts = N_FRAG_BUF_def FRAG_TTL_SEC_def N_SEQ_ID_def MAX_FRAGS_def FRAG_MAP_MASK_def
  FRAG_TYPE_MASK_def FRAG_WHOLE_def FRAG_YES_NOTLAST_def FRAG_YES_LAST_def FRAG_SEQ_ID_MASK_def
  FRAG_ID_MASK_def FRAG_SIZE_MASK_def FRAG_SIZE_ROUND_MASK_def

record fragment =
  fr_defined :: bool
  fr_max_frag_size :: int
  fr_map :: u32
  fr_timestamp :: time_t
  fr_buf :: buffer

record fragment_list =
  fl_seq_id :: int
  fl_index :: int
  fl_fragments :: "fragment list"

record fragment_master =
  fm_wakeup :: event_timeout
  fm_received_os_mtu_hint :: bool
  fm_outgoing_seq_id :: int
  fm_outgoing_frag_size :: int
  fm_outgoing_frag_id :: int
  fm_outgoing :: buffer
  fm_outgoing_return :: buffer
  fm_incoming :: fragment_list

definition fragment_zero :: fragment where
  "fragment_zero = \<lparr>fr_defined = False, fr_max_frag_size = 0, fr_map = 0, fr_timestamp = 0, fr_buf = clear_buf\<rparr>"

subsection \<open>Set-up\<close>

definition fragment_init :: "frame \<Rightarrow> int \<Rightarrow> time_t \<Rightarrow> fragment_master \<times> frame" where
  "fragment_init frame random now =
     (\<lparr>fm_wakeup = event_timeout_init FRAG_WAKEUP_INTERVAL now, fm_received_os_mtu_hint = False,
       fm_outgoing_seq_id = random AND (N_SEQ_ID - 1), fm_outgoing_frag_size = 0, fm_outgoing_frag_id = 0,
       fm_outgoing = clear_buf, fm_outgoing_return = clear_buf,
       fm_incoming = \<lparr>fl_seq_id = 0, fl_index = 0, fl_fragments = replicate (nat N_FRAG_BUF) fragment_zero\<rparr>\<rparr>,
      frame_add_to_extra_frame 4 frame)"

definition fragment_list_buf_init :: "fragment_list \<Rightarrow> frame \<Rightarrow> fragment_list option" where
  "fragment_list_buf_init l frame =
     (case alloc_buf (size_t_of (BUF_SIZE frame)) of
        None \<Rightarrow> None
      | Some b \<Rightarrow> Some (l\<lparr>fl_fragments := map (\<lambda>fr. fr\<lparr>fr_buf := b\<rparr>) (fl_fragments l)\<rparr>))"

definition fragment_list_buf_free :: "fragment_list \<Rightarrow> fragment_list" where
  "fragment_list_buf_free l =
     l\<lparr>fl_fragments := map (\<lambda>fr. fr\<lparr>fr_buf := free_buf (fr_buf fr)\<rparr>) (fl_fragments l)\<rparr>"

definition fragment_frame_init :: "fragment_master \<Rightarrow> frame \<Rightarrow> fragment_master option" where
  "fragment_frame_init f frame =
     (case (fragment_list_buf_init (fm_incoming f) frame, alloc_buf (size_t_of (BUF_SIZE frame))) of
        (Some l, Some b) \<Rightarrow> Some (f\<lparr>fm_incoming := l, fm_outgoing := b, fm_outgoing_return := b\<rparr>)
      | _ \<Rightarrow> None)"

subsection \<open>Receiving\<close>

fun frag_advance :: "nat \<Rightarrow> fragment_list \<Rightarrow> fragment_list option" where
  "frag_advance 0 l = Some l"
| "frag_advance (Suc n) l =
     (case (modulo_add (fl_index l) 1 N_FRAG_BUF, modulo_add (fl_seq_id l) 1 N_SEQ_ID) of
        (Some i, Some s) \<Rightarrow>
          frag_advance n (l\<lparr>fl_index := i, fl_seq_id := s,
            fl_fragments := (fl_fragments l)[nat i := (fl_fragments l ! nat i)\<lparr>fr_defined := False\<rparr>]\<rparr>)
      | _ \<Rightarrow> None)"

definition fragment_list_get_buf :: "fragment_list \<Rightarrow> int \<Rightarrow> (nat \<times> fragment_list) option" where
  "fragment_list_get_buf l seq_id =
     (case modulo_subtract seq_id (fl_seq_id l) N_SEQ_ID of
        None \<Rightarrow> None
      | Some d0 \<Rightarrow>
          (let (l1, d1) = (if \<bar>d0\<bar> \<ge> N_FRAG_BUF
                           then (l\<lparr>fl_fragments := map (\<lambda>fr. fr\<lparr>fr_defined := False\<rparr>) (fl_fragments l),
                                   fl_index := 0, fl_seq_id := seq_id\<rparr>, 0)
                           else (l, d0))
           in case frag_advance (nat d1) l1 of
                None \<Rightarrow> None
              | Some l2 \<Rightarrow>
                  (case modulo_add (fl_index l2) (if d1 > 0 then 0 else d1) N_FRAG_BUF of
                     None \<Rightarrow> None
                   | Some i \<Rightarrow> Some (nat i, l2))))"

definition frag_drop :: "buffer \<Rightarrow> buffer" where
  "frag_drop b = b\<lparr>blen := 0\<rparr>"

definition frag_slot_init :: "frame \<Rightarrow> fragment \<Rightarrow> int \<Rightarrow> fragment option" where
  "frag_slot_init frame fr sz =
     (if \<not> fr_defined fr \<or> fr_max_frag_size fr \<noteq> sz
      then (case buf_init (fr_buf fr) (frame_headroom frame FRAME_HEADROOM_MARKER_FRAGMENT) of
              (False, _) \<Rightarrow> None
            | (True, bb) \<Rightarrow> Some (fr\<lparr>fr_defined := True, fr_max_frag_size := sz, fr_map := 0, fr_buf := bb\<rparr>))
      else Some fr)"

definition frag_piece ::
  "time_t \<Rightarrow> frame \<Rightarrow> fragment_master \<Rightarrow> buffer \<Rightarrow> bool \<Rightarrow> int \<Rightarrow> nat \<Rightarrow> int \<Rightarrow> (fragment_master \<times> buffer) option" where
  "frag_piece now frame f b is_last seq_id n sz =
     (case fragment_list_get_buf (fm_incoming f) seq_id of
        None \<Rightarrow> None
      | Some (i, l) \<Rightarrow>
          (let upd = (\<lambda>fr. f\<lparr>fm_incoming := l\<lparr>fl_fragments := (fl_fragments l)[i := fr]\<rparr>\<rparr>)
           in if sz AND FRAG_SIZE_ROUND_MASK \<noteq> 0 then Some (f\<lparr>fm_incoming := l\<rparr>, frag_drop b)
              else case frag_slot_init frame (fl_fragments l ! i) sz of
                None \<Rightarrow> None
              | Some fr1 \<Rightarrow>
                  (case buf_copy_range (fr_buf fr1) (int n * sz) b 0 (blen b) of
                     (False, _) \<Rightarrow> Some (upd fr1, frag_drop b)
                   | (True, bb) \<Rightarrow>
                       (let fr2 = fr1\<lparr>fr_buf := bb, fr_timestamp := now,
                              fr_map := fr_map fr1 OR push_bit n (if is_last then FRAG_MAP_MASK else 1)\<rparr>
                        in if fr_map fr2 AND FRAG_MAP_MASK = FRAG_MAP_MASK
                           then Some (upd (fr2\<lparr>fr_defined := False\<rparr>), bb)
                           else Some (upd fr2, frag_drop b)))))"

definition fragment_incoming ::
  "time_t \<Rightarrow> frame \<Rightarrow> fragment_master \<Rightarrow> buffer \<Rightarrow> (fragment_master \<times> buffer) option" where
  "fragment_incoming now frame f b =
     (if \<not> blen b > 0 then Some (f, b)
      else case buf_read b 4 of
        (None, b1) \<Rightarrow> Some (f, frag_drop b1)
      | (Some bs, b1) \<Rightarrow>
          (let flags = un_be32 bs; frag_type = flags AND FRAG_TYPE_MASK
           in if frag_type = FRAG_WHOLE
              then (if flags AND (FRAG_SEQ_ID_MASK OR FRAG_ID_MASK) \<noteq> 0 then Some (f, frag_drop b1) else Some (f, b1))
              else if frag_type = FRAG_YES_NOTLAST \<or> frag_type = FRAG_YES_LAST
              then frag_piece now frame f b1 (frag_type = FRAG_YES_LAST)
                     (uint (drop_bit 2 flags AND FRAG_SEQ_ID_MASK))
                     (unat (drop_bit 10 flags AND FRAG_ID_MASK))
                     (if frag_type = FRAG_YES_LAST then uint (push_bit 2 (drop_bit 15 flags AND FRAG_SIZE_MASK)) else blen b1)
              else Some (f, frag_drop b1)))"

subsection \<open>Sending\<close>

definition frag_flags :: "u32 \<Rightarrow> int \<Rightarrow> int \<Rightarrow> int \<Rightarrow> u32" where
  "frag_flags ty seq_id frag_id frag_size =
     (let flags = (ty AND FRAG_TYPE_MASK) OR push_bit 2 (word_of_int seq_id AND FRAG_SEQ_ID_MASK)
                  OR push_bit 10 (word_of_int frag_id AND FRAG_ID_MASK)
      in if ty = FRAG_WHOLE \<or> ty = FRAG_YES_NOTLAST then flags
         else flags OR push_bit 15 (word_of_int (drop_bit 2 frag_size) AND FRAG_SIZE_MASK))"

definition fragment_prepend_flags :: "buffer \<Rightarrow> u32 \<Rightarrow> int \<Rightarrow> int \<Rightarrow> int \<Rightarrow> buffer option" where
  "fragment_prepend_flags b ty seq_id frag_id frag_size =
     (case buf_write_prepend b (be32 (frag_flags ty seq_id frag_id frag_size)) of
        (False, _) \<Rightarrow> None
      | (True, b1) \<Rightarrow> Some b1)"

definition optimal_fragment_size :: "int \<Rightarrow> int \<Rightarrow> int" where
  "optimal_fragment_size len max_frag_size =
     (let mfs_aligned = max_frag_size AND NOT FRAG_SIZE_ROUND_MASK;
          dv = len div mfs_aligned; md = len mod mfs_aligned
      in if dv > 0 \<and> md > 0 \<and> md < mfs_aligned * 3 div 4
         then min_int mfs_aligned
                ((max_frag_size - (max_frag_size - md) div (dv + 1) + FRAG_SIZE_ROUND_MASK) AND NOT FRAG_SIZE_ROUND_MASK)
         else mfs_aligned)"

definition fragment_outgoing_defined :: "fragment_master \<Rightarrow> bool" where
  "fragment_outgoing_defined f \<longleftrightarrow> blen (fm_outgoing f) > 0"

definition fragment_ready_to_send :: "frame \<Rightarrow> fragment_master \<Rightarrow> (buffer option \<times> fragment_master) option" where
  "fragment_ready_to_send frame f =
     (if fragment_outgoing_defined f
      then (let is_last = (blen (fm_outgoing f) \<le> fm_outgoing_frag_size f);
                sz = (if is_last then blen (fm_outgoing f) else fm_outgoing_frag_size f)
            in case buf_init (fm_outgoing_return f) (FRAME_HEADROOM frame) of
                 (False, _) \<Rightarrow> None
               | (True, b0) \<Rightarrow>
                   (case buf_copy_n b0 (fm_outgoing f) sz of
                      (False, _, _) \<Rightarrow> None
                    | (True, b1, out) \<Rightarrow>
                        (case fragment_prepend_flags b1 (if is_last then FRAG_YES_LAST else FRAG_YES_NOTLAST)
                                (fm_outgoing_seq_id f) (fm_outgoing_frag_id f) (fm_outgoing_frag_size f) of
                           None \<Rightarrow> None
                         | Some b2 \<Rightarrow>
                             if \<not> is_last \<or> blen out = 0
                             then Some (Some b2, f\<lparr>fm_outgoing := out, fm_outgoing_frag_id := fm_outgoing_frag_id f + 1\<rparr>)
                             else None)))
      else Some (None, f))"

definition fragment_outgoing :: "frame \<Rightarrow> fragment_master \<Rightarrow> buffer \<Rightarrow> (fragment_master \<times> buffer) option" where
  "fragment_outgoing frame f b =
     (if \<not> blen b > 0 then Some (f, b)
      else if blen b > PAYLOAD_SIZE_DYNAMIC frame
      then (let f1 = f\<lparr>fm_outgoing_frag_size := optimal_fragment_size (blen b) (PAYLOAD_SIZE_DYNAMIC frame)\<rparr>
            in if blen b > fm_outgoing_frag_size f1 * MAX_FRAGS then Some (f1, b\<lparr>blen := 0\<rparr>)
               else case buf_init (fm_outgoing f1) (FRAME_HEADROOM frame) of
                 (False, _) \<Rightarrow> None
               | (True, o0) \<Rightarrow>
                   (case (buf_copy o0 b, modulo_add (fm_outgoing_seq_id f1) 1 N_SEQ_ID) of
                      ((True, o1), Some s) \<Rightarrow>
                        (case fragment_ready_to_send frame (f1\<lparr>fm_outgoing := o1, fm_outgoing_seq_id := s, fm_outgoing_frag_id := 0\<rparr>) of
                           Some (Some b2, f2) \<Rightarrow> Some (f2, b2)
                         | _ \<Rightarrow> None)
                    | _ \<Rightarrow> None))
      else map_option (Pair f) (fragment_prepend_flags b FRAG_WHOLE 0 0 0))"

subsection \<open>Housekeeping\<close>

definition fragment_ttl_reap :: "time_t \<Rightarrow> fragment_master \<Rightarrow> fragment_master" where
  "fragment_ttl_reap now f =
     f\<lparr>fm_incoming := (fm_incoming f)\<lparr>fl_fragments :=
         map (\<lambda>fr. if fr_defined fr \<and> fr_timestamp fr + FRAG_TTL_SEC \<le> now then fr\<lparr>fr_defined := False\<rparr> else fr)
           (fl_fragments (fm_incoming f))\<rparr>\<rparr>"

definition fragment_wakeup :: "time_t \<Rightarrow> fragment_master \<Rightarrow> fragment_master" where
  "fragment_wakeup now f = fragment_ttl_reap now f"

definition fragment_housekeeping ::
  "time_t \<Rightarrow> fragment_master \<Rightarrow> timeval option \<Rightarrow> fragment_master \<times> timeval option" where
  "fragment_housekeeping now f tv =
     (case event_timeout_trigger now (fm_wakeup f) tv ETT_DEFAULT of
        (fired, et, tv') \<Rightarrow> (let f1 = f\<lparr>fm_wakeup := et\<rparr> in (if fired then fragment_wakeup now f1 else f1, tv')))"

definition fragment_free :: "fragment_master \<Rightarrow> fragment_master" where
  "fragment_free f = f\<lparr>fm_incoming := fragment_list_buf_free (fm_incoming f),
     fm_outgoing := free_buf (fm_outgoing f), fm_outgoing_return := free_buf (fm_outgoing_return f)\<rparr>"

subsection \<open>The invariant, kept for every packet that can arrive\<close>

definition frag_list_wf :: "int \<Rightarrow> fragment_list \<Rightarrow> bool" where
  "frag_list_wf cap l \<longleftrightarrow> 0 \<le> fl_seq_id l \<and> fl_seq_id l < N_SEQ_ID \<and> 0 \<le> fl_index l \<and> fl_index l < N_FRAG_BUF
     \<and> length (fl_fragments l) = nat N_FRAG_BUF
     \<and> (\<forall>fr \<in> set (fl_fragments l). live (fr_buf fr) \<and> bcap (fr_buf fr) = cap)"

definition frag_wf :: "int \<Rightarrow> fragment_master \<Rightarrow> bool" where
  "frag_wf cap f \<longleftrightarrow> frag_list_wf cap (fm_incoming f) \<and> 0 \<le> fm_outgoing_seq_id f \<and> fm_outgoing_seq_id f < N_SEQ_ID
     \<and> live (fm_outgoing f) \<and> bcap (fm_outgoing f) = cap
     \<and> live (fm_outgoing_return f) \<and> bcap (fm_outgoing_return f) = cap"

lemma frag_list_upd [inv_intros]:
  "frag_list_wf cap l \<Longrightarrow> live (fr_buf fr) \<Longrightarrow> bcap (fr_buf fr) = cap \<Longrightarrow>
     frag_list_wf cap (l\<lparr>fl_fragments := (fl_fragments l)[i := fr]\<rparr>)"
  unfolding frag_list_wf_def by (auto dest: set_update_subset_insert [THEN subsetD])

lemma frag_list_slot:
  "frag_list_wf cap l \<Longrightarrow> i < nat N_FRAG_BUF \<Longrightarrow> live (fr_buf (fl_fragments l ! i)) \<and> bcap (fr_buf (fl_fragments l ! i)) = cap"
  unfolding frag_list_wf_def by (metis nth_mem)

lemma frag_list_pos:
  "frag_list_wf cap l \<Longrightarrow> 0 \<le> i \<Longrightarrow> i < N_FRAG_BUF \<Longrightarrow> 0 \<le> s \<Longrightarrow> s < N_SEQ_ID \<Longrightarrow>
     frag_list_wf cap (l\<lparr>fl_index := i, fl_seq_id := s\<rparr>)"
  by (simp add: frag_list_wf_def)

lemma frag_advance_wf:
  "frag_list_wf cap l \<Longrightarrow>
     \<exists>l'. frag_advance n l = Some l' \<and> frag_list_wf cap l' \<and> (fl_seq_id l + int n) mod N_SEQ_ID = fl_seq_id l'
       \<and> (0 < n \<longrightarrow> \<not> fr_defined (fl_fragments l' ! nat (fl_index l')))"
proof (induction n arbitrary: l)
  case 0
  then show ?case by (auto simp: frag_list_wf_def)
next
  case (Suc n)
  let ?i = "(fl_index l + 1) mod N_FRAG_BUF" and ?s = "(fl_seq_id l + 1) mod N_SEQ_ID"
  let ?l = "l\<lparr>fl_index := ?i, fl_seq_id := ?s,
       fl_fragments := (fl_fragments l)[nat ?i := (fl_fragments l ! nat ?i)\<lparr>fr_defined := False\<rparr>]\<rparr>"
  have st: "modulo_add (fl_index l) 1 N_FRAG_BUF = Some ?i" "modulo_add (fl_seq_id l) 1 N_SEQ_ID = Some ?s"
    using Suc.prems by (auto simp: frag_list_wf_def frag_consts intro!: modulo_add_eq)
  have i: "nat ?i < nat N_FRAG_BUF" "nat ?i < length (fl_fragments l)"
    using Suc.prems by (auto simp: frag_list_wf_def frag_consts)
  note sl = frag_list_slot [OF Suc.prems i(1)]
  have "frag_list_wf cap (l\<lparr>fl_fragments := (fl_fragments l)[nat ?i := (fl_fragments l ! nat ?i)\<lparr>fr_defined := False\<rparr>]\<rparr>)"
    using sl by (intro frag_list_upd [OF Suc.prems]) simp_all
  from frag_list_pos [OF this, of ?i ?s] have wf: "frag_list_wf cap ?l"
    by (cases l) (simp add: frag_consts)
  from Suc.IH [OF wf] obtain l' where l': "frag_advance n ?l = Some l'" "frag_list_wf cap l'"
      "(?s + int n) mod N_SEQ_ID = fl_seq_id l'"
      "0 < n \<longrightarrow> \<not> fr_defined (fl_fragments l' ! nat (fl_index l'))" by auto
  have "\<not> fr_defined (fl_fragments l' ! nat (fl_index l'))"
  proof (cases n)
    case 0
    then show ?thesis using l'(1) i by auto
  qed (use l'(4) in simp)
  moreover have "(fl_seq_id l + int (Suc n)) mod N_SEQ_ID = fl_seq_id l'"
    using l'(3) by (simp add: mod_simps ac_simps)
  ultimately show ?case using l'(1,2) st by simp
qed

text \<open>
  The slot for a sequence id: always found; found again, without a change to the list, for the
  same id; and never a slot in use when the id is new to the list.
\<close>

definition seq_is_new :: "fragment_list \<Rightarrow> int \<Rightarrow> bool" where
  "seq_is_new l s \<longleftrightarrow> (case modulo_subtract s (fl_seq_id l) N_SEQ_ID of
     None \<Rightarrow> False | Some d \<Rightarrow> 0 < d \<or> N_FRAG_BUF \<le> \<bar>d\<bar>)"

lemma modulo_subtract_self: "0 \<le> x \<Longrightarrow> x < md \<Longrightarrow> modulo_subtract x x md = Some 0"
  by (simp add: modulo_subtract_def)

lemma get_buf_wf:
  assumes wf: "frag_list_wf cap l" and s: "0 \<le> s" "s < N_SEQ_ID"
  shows "\<exists>i l'. fragment_list_get_buf l s = Some (i, l') \<and> frag_list_wf cap l' \<and> i < nat N_FRAG_BUF
     \<and> (\<forall>fs. fragment_list_get_buf (l'\<lparr>fl_fragments := fs\<rparr>) s = Some (i, l'\<lparr>fl_fragments := fs\<rparr>))
     \<and> (seq_is_new l s \<longrightarrow> \<not> fr_defined (fl_fragments l' ! i))"
proof -
  have r: "0 \<le> fl_seq_id l" "fl_seq_id l < N_SEQ_ID" "0 \<le> fl_index l" "fl_index l < N_FRAG_BUF"
      "length (fl_fragments l) = 25"
    using wf by (auto simp: frag_list_wf_def frag_consts)
  obtain d where d: "modulo_subtract s (fl_seq_id l) N_SEQ_ID = Some d" "(fl_seq_id l + d) mod N_SEQ_ID = s"
    using modulo_subtract_shortest [OF s r(1,2)] by auto
  consider "\<bar>d\<bar> \<ge> N_FRAG_BUF" | "\<bar>d\<bar> < N_FRAG_BUF" "0 < d" | "\<bar>d\<bar> < N_FRAG_BUF" "d \<le> 0" by linarith
  then show ?thesis
  proof cases
    case 1
    let ?l = "l\<lparr>fl_fragments := map (\<lambda>fr. fr\<lparr>fr_defined := False\<rparr>) (fl_fragments l), fl_index := 0, fl_seq_id := s\<rparr>"
    have "fragment_list_get_buf l s = Some (0, ?l)"
      using d 1 by (simp add: fragment_list_get_buf_def modulo_add_eq frag_consts)
    moreover have "frag_list_wf cap ?l" using wf s by (auto simp: frag_list_wf_def frag_consts)
    moreover have "\<forall>fs. fragment_list_get_buf (?l\<lparr>fl_fragments := fs\<rparr>) s = Some (0, ?l\<lparr>fl_fragments := fs\<rparr>)"
      using s by (simp add: fragment_list_get_buf_def modulo_subtract_self modulo_add_eq frag_consts)
    ultimately show ?thesis using r by (auto simp: frag_consts)
  next
    case 2
    from frag_advance_wf [OF wf, of "nat d"] 2 obtain l' where l': "frag_advance (nat d) l = Some l'"
        "frag_list_wf cap l'" "fl_seq_id l' = s" "\<not> fr_defined (fl_fragments l' ! nat (fl_index l'))"
      using d(2) by auto
    have ix: "0 \<le> fl_index l'" "fl_index l' < N_FRAG_BUF" using l'(2) by (auto simp: frag_list_wf_def)
    have "fragment_list_get_buf l s = Some (nat (fl_index l'), l')"
      using d(1) 2 l'(1) ix by (simp add: fragment_list_get_buf_def modulo_add_eq frag_consts)
    moreover have "\<forall>fs. fragment_list_get_buf (l'\<lparr>fl_fragments := fs\<rparr>) s
        = Some (nat (fl_index l'), l'\<lparr>fl_fragments := fs\<rparr>)"
      using s l'(3) ix by (simp add: fragment_list_get_buf_def modulo_subtract_self modulo_add_eq frag_consts)
    ultimately show ?thesis using l'(2,4) ix by auto
  next
    case 3
    have i: "modulo_add (fl_index l) d N_FRAG_BUF = Some ((fl_index l + d) mod N_FRAG_BUF)"
      using r 3 by (intro modulo_add_eq) auto
    have "fragment_list_get_buf (l\<lparr>fl_fragments := fs\<rparr>) s = Some (nat ((fl_index l + d) mod N_FRAG_BUF), l\<lparr>fl_fragments := fs\<rparr>)" for fs
      using d(1) 3 i by (simp add: fragment_list_get_buf_def)
    from this this [of "fl_fragments l"] have "fragment_list_get_buf l s = Some (nat ((fl_index l + d) mod N_FRAG_BUF), l)"
      "\<forall>fs. fragment_list_get_buf (l\<lparr>fl_fragments := fs\<rparr>) s = Some (nat ((fl_index l + d) mod N_FRAG_BUF), l\<lparr>fl_fragments := fs\<rparr>)"
      by simp_all
    moreover have "\<not> seq_is_new l s" using d(1) 3 by (simp add: seq_is_new_def)
    moreover have "nat ((fl_index l + d) mod N_FRAG_BUF) < nat N_FRAG_BUF" by (simp add: frag_consts nat_less_iff)
    ultimately show ?thesis using wf by blast
  qed
qed

lemma live_fields:
  assumes "live b"
  shows "0 \<le> boff b" "0 \<le> blen b" "boff b + blen b \<le> bcap b" "bcap b < BUF_SIZE_MAX"
    "int (length (block b)) = bcap b" "content b = mem_read (block b) (nat (boff b)) (nat (blen b))"
    "int (length (content b)) = blen b"
  using assms by (auto simp: live_def buf_inv_def block_def content_def buf_valid_def split: option.splits)

lemma copy_range_live:
  assumes d: "live d" and b: "live b" and k: "0 \<le> k"
  shows "buf_copy_range d k b 0 (blen b) =
     (if boff d + k + blen b \<le> bcap d
      then (True, d\<lparr>bdata := Some (mem_write (block d) (nat (boff d + k)) (content b)),
                    blen := max (blen d) (k + blen b)\<rparr>)
      else (False, d))"
proof -
  obtain m where m: "bdata d = Some m" using d by (auto simp: live_def)
  have "mem_read (block b) (nat (boff b + 0)) (nat (blen b)) = content b"
    using live_fields [OF b] by simp
  with m k live_fields [OF b] live_fields [OF d] show ?thesis
    by (auto simp: buf_copy_range_def poke_def block_def max_def Let_def)
qed

lemma copy_range_live_inv:
  assumes d: "live d" and b: "live b" and k: "0 \<le> k" "boff d + k + blen b \<le> bcap d"
  shows "live (d\<lparr>bdata := Some (mem_write (block d) (nat (boff d + k)) (content b)), blen := max (blen d) (k + blen b)\<rparr>)"
proof -
  have "length (mem_write (block d) (nat (boff d + k)) (content b)) = length (block d)"
    using live_fields [OF b] live_fields [OF d] k by (intro length_mem_write) linarith
  then show ?thesis
    using live_fields [OF b] live_fields [OF d] k by (auto simp: live_def buf_inv_def)
qed

lemma frag_drop_live [simp]: "live b \<Longrightarrow> live (frag_drop b)" "content (frag_drop b) = []"
  by (auto simp: frag_drop_def live_def buf_inv_def content_def buf_valid_def split: option.splits)

lemma buf_init_live:
  "live b \<Longrightarrow> 0 \<le> off \<Longrightarrow> off \<le> bcap b \<Longrightarrow>
     buf_init b off = (True, b\<lparr>blen := 0, boff := off\<rparr>) \<and> live (b\<lparr>blen := 0, boff := off\<rparr>)"
  by (auto simp: buf_init_def live_def buf_inv_def split: option.splits)

lemma frag_slot_init_live:
  assumes "live (fr_buf fr)" "0 \<le> frame_headroom frame FRAME_HEADROOM_MARKER_FRAGMENT"
    "frame_headroom frame FRAME_HEADROOM_MARKER_FRAGMENT \<le> bcap (fr_buf fr)"
  shows "\<exists>fr1. frag_slot_init frame fr sz = Some fr1 \<and> live (fr_buf fr1) \<and> bcap (fr_buf fr1) = bcap (fr_buf fr)"
  using buf_init_live [OF assms] assms(1) by (simp add: frag_slot_init_def)

lemma frag_wf_incoming [inv_intros]:
  "frag_wf cap f \<Longrightarrow> frag_list_wf cap l \<Longrightarrow> frag_wf cap (f\<lparr>fm_incoming := l\<rparr>)"
  by (simp add: frag_wf_def)

lemma frag_piece_wf:
  assumes f: "frag_wf cap f" and b: "live b" and s: "0 \<le> seq_id" "seq_id < N_SEQ_ID" and sz: "0 \<le> sz"
    and hd: "0 \<le> frame_headroom frame FRAME_HEADROOM_MARKER_FRAGMENT"
      "frame_headroom frame FRAME_HEADROOM_MARKER_FRAGMENT \<le> cap"
  shows "\<exists>f' b'. frag_piece now frame f b is_last seq_id n sz = Some (f', b') \<and> frag_wf cap f' \<and> live b'"
proof -
  have li: "frag_list_wf cap (fm_incoming f)" using f by (simp add: frag_wf_def)
  obtain i l where g: "fragment_list_get_buf (fm_incoming f) seq_id = Some (i, l)" "frag_list_wf cap l" "i < nat N_FRAG_BUF"
    using get_buf_wf [OF li s] by blast
  note sl = frag_list_slot [OF g(2,3)]
  obtain fr1 where fr1: "frag_slot_init frame (fl_fragments l ! i) sz = Some fr1" "live (fr_buf fr1)" "bcap (fr_buf fr1) = cap"
    using frag_slot_init_live [of "fl_fragments l ! i"] sl hd by auto
  have upd: "frag_wf cap (f\<lparr>fm_incoming := l\<lparr>fl_fragments := (fl_fragments l)[i := fr]\<rparr>\<rparr>)"
    if "live (fr_buf fr)" "bcap (fr_buf fr) = cap" for fr
    using that f g(2) by (intro frag_wf_incoming frag_list_upd)
  have base: "frag_wf cap (f\<lparr>fm_incoming := l\<rparr>)" using f g(2) by (rule frag_wf_incoming)
  let ?k = "int n * sz"
  have k: "0 \<le> ?k" using sz by simp
  show ?thesis
  proof (cases "sz AND FRAG_SIZE_ROUND_MASK = 0")
    case False
    then show ?thesis using g(1) base b by (simp add: frag_piece_def)
  next
    case True
    note cr = copy_range_live [OF fr1(2) b k] copy_range_live_inv [OF fr1(2) b k]
    show ?thesis
      using g(1) True fr1 b cr upd
      by (cases "boff (fr_buf fr1) + ?k + blen b \<le> bcap (fr_buf fr1)") (simp_all add: frag_piece_def Let_def)
  qed
qed

lemma and_mask_bounds:
  "uint (x AND FRAG_SEQ_ID_MASK) < 256" "unat (y AND FRAG_ID_MASK) < 32"
proof -
  have "x AND 255 \<le> 255" by (rule word_and_le1)
  then have 1: "uint (x AND 255) \<le> uint (255 :: u32)" by (simp only: word_le_def)
  have "y AND 31 \<le> 31" by (rule word_and_le1)
  then have 2: "unat (y AND 31) \<le> unat (31 :: u32)" by (simp only: word_le_nat_alt)
  from 1 2 show "uint (x AND FRAG_SEQ_ID_MASK) < 256" "unat (y AND FRAG_ID_MASK) < 32"
    by (simp_all add: FRAG_SEQ_ID_MASK_def FRAG_ID_MASK_def)
qed

text \<open>
  C18: No packet can crash the reassembler. For a well-formed state and any live buffer whatsoever
  (any flags, lengths and ids), \<open>fragment_incoming\<close> returns without a failed assertion, writes
  inside its buffers only, keeps the state well-formed, and hands back a live buffer.
\<close>

theorem fragment_incoming_total:
  assumes "frag_wf cap f" and "live b" and "0 \<le> frame_headroom frame FRAME_HEADROOM_MARKER_FRAGMENT"
    and "frame_headroom frame FRAME_HEADROOM_MARKER_FRAGMENT \<le> cap"
  shows "\<exists>f' b'. fragment_incoming now frame f b = Some (f', b') \<and> frag_wf cap f' \<and> live b'"
proof -
  obtain pre c post where b: "b = mkbuf pre c post" "small pre c post" using live_split [OF assms(2)] by blast
  show ?thesis
  proof (cases "length c < 4")
    case True
    then show ?thesis using assms b frag_drop_live(1) [OF assms(2)]
      by (auto simp: fragment_incoming_def buf_read_mkbuf)
  next
    case False
    define b1 where "b1 = mkbuf (pre @ take 4 c) (drop 4 c) post"
    have b1: "live b1" "0 \<le> blen b1" using b(2) False by (auto simp: b1_def small_def)
    have rd: "buf_read b 4 = (Some (take 4 c), b1)" "blen b > 0" using False b by (auto simp: buf_read_mkbuf b1_def)
    have sid: "0 \<le> uint (x AND FRAG_SEQ_ID_MASK)" "uint (x AND FRAG_SEQ_ID_MASK) < N_SEQ_ID" for x
      using and_mask_bounds(1) by (simp_all add: N_SEQ_ID_def)
    have sz: "0 \<le> (if c then uint (w :: u32) else blen b1)" for c w using b1 by simp
    note piece = frag_piece_wf [OF assms(1) b1(1) sid sz assms(3,4)]
    show ?thesis
      using rd piece assms(1) b1 by (simp add: fragment_incoming_def Let_def)
  qed
qed

definition demo_frag :: fragment_master where
  "demo_frag = the (fragment_frame_init (fst (fragment_init demo_frame 7 100)) demo_frame)"

lemma demo_frag_eq:
  "demo_frag = (fst (fragment_init demo_frame 7 100))\<lparr>
     fm_incoming := \<lparr>fl_seq_id = 0, fl_index = 0,
        fl_fragments = replicate 25 (fragment_zero\<lparr>fr_buf := mkbuf [] [] (replicate 1642 0)\<rparr>)\<rparr>,
     fm_outgoing := mkbuf [] [] (replicate 1642 0), fm_outgoing_return := mkbuf [] [] (replicate 1642 0)\<rparr>"
  by (simp add: demo_frag_def fragment_frame_init_def fragment_list_buf_init_def fragment_init_def demo_frame_def
      alloc_buf_def frame_sizes buf_size_valid_def BUF_SIZE_MAX_def size_t_of_def mkbuf_def N_FRAG_BUF_def)

lemma demo_frag_wf: "frag_wf 1642 demo_frag"
  by (simp add: demo_frag_eq frag_wf_def frag_list_wf_def fragment_init_def frag_consts small_def BUF_SIZE_MAX_def
      and_3_int)

lemma demo_headroom:
  "frame_headroom demo_frame m = (72 :: int)"
  by (simp add: frame_headroom_def Let_def demo_frame_def frame_sizes PAYLOAD_ALIGN_def and_3_int push_bit_eq_mult)

theorem fragment_incoming_total_witness:
  "\<exists>f' b'. fragment_incoming 5 demo_frame demo_frag (mkbuf [] (be32 0xFFFFFFFE @ [1, 2, 3, 4]) []) = Some (f', b')
     \<and> frag_wf 1642 f' \<and> live b'"
  by (rule fragment_incoming_total [OF demo_frag_wf]) (simp_all add: demo_headroom small_def BUF_SIZE_MAX_def)

subsection \<open>The fragment size\<close>

lemma and_not_3_int: "x AND NOT 3 = x - x mod 4" for x :: int
proof -
  have "x - (x AND 3) = x AND NOT (x AND 3)"
    by (rule disjunctive_diff_eq_and_not) (rule bit_eqI, simp add: bit_simps)
  also have "\<dots> = x AND NOT 3" by (rule bit_eqI) (auto simp: bit_simps)
  finally show ?thesis by (simp add: and_3_int)
qed

lemma and_m4_int: "x AND - 4 = x - x mod 4" for x :: int
  using and_not_3_int [of x] by simp

lemma ceil_div_eq: "(q :: int) * s < len \<Longrightarrow> len \<le> (q + 1) * s \<Longrightarrow> 0 < s \<Longrightarrow> (len + s - 1) div s = q + 1"
  by (rule int_div_pos_eq [of _ _ _ "len + s - 1 - (q + 1) * s"]) (auto simp: algebra_simps)

lemma optimal_fragment_size_spec:
  assumes M: "4 \<le> M" and len: "0 < len" and A: "A = M - M mod 4" and s: "s = optimal_fragment_size len M"
  shows "s mod 4 = 0" "0 < s" "s \<le> A" "(len + s - 1) div s = (len + A - 1) div A"
proof -
  let ?dv = "len div A" and ?md = "len mod A"
  have A4: "A mod 4 = 0" "0 < A" "A \<le> M" using M by (auto simp: A)
  have dm: "len = ?dv * A + ?md" "0 \<le> ?md" "?md < A" "0 \<le> ?dv"
    using A4(2) len by (simp_all add: pos_imp_zdiv_nonneg_iff)
  have "s mod 4 = 0 \<and> 0 < s \<and> s \<le> A \<and> (len + s - 1) div s = (len + A - 1) div A"
  proof (cases "?dv > 0 \<and> ?md > 0 \<and> ?md < A * 3 div 4")
    case False
    then have "s = A" by (auto simp: s optimal_fragment_size_def FRAG_SIZE_ROUND_MASK_def and_m4_int A Let_def)
    then show ?thesis using A4 by simp
  next
    case True
    define u where "u = M - (M - ?md) div (?dv + 1)"
    define t where "t = (u + 3) - (u + 3) mod 4"
    have st: "s = min A t"
      using True unfolding t_def u_def
      by (simp add: s optimal_fragment_size_def FRAG_SIZE_ROUND_MASK_def and_m4_int A [symmetric] Let_def min_int_def)
    have "(?dv + 1) * ((M - ?md) div (?dv + 1)) \<le> M - ?md"
      using dm(4) mult_div_mod_eq [of "?dv + 1" "M - ?md"] pos_mod_sign [of "?dv + 1" "M - ?md"] by linarith
    moreover have "(?dv + 1) * u = (?dv + 1) * M - (?dv + 1) * ((M - ?md) div (?dv + 1))"
      by (simp add: u_def right_diff_distrib)
    moreover have "?dv * A \<le> ?dv * M" using A4(3) dm(4) by (intro mult_left_mono) auto
    moreover have "(?dv + 1) * M = ?dv * M + M" by (simp add: distrib_right)
    ultimately have "len \<le> (?dv + 1) * u" using dm(1) by linarith
    moreover have "u \<le> t" unfolding t_def by presburger
    then have "(?dv + 1) * u \<le> (?dv + 1) * t" using dm(4) by (intro mult_left_mono) auto
    ultimately have lt: "len \<le> (?dv + 1) * t" by linarith
    have "(?dv + 1) * A = ?dv * A + A" by (simp add: distrib_right)
    then have lA: "len \<le> (?dv + 1) * A" using dm(1,3) by linarith
    have le: "len \<le> (?dv + 1) * s" using lt lA st by (simp add: min_def)
    have "0 < s"
    proof (rule ccontr)
      assume "\<not> 0 < s"
      then have "(?dv + 1) * s \<le> 0" using dm(4) by (simp add: mult_nonneg_nonpos)
      with le len show False by simp
    qed
    moreover have sA: "s \<le> A" by (simp add: st)
    moreover have "s mod 4 = 0"
    proof -
      have "t mod 4 = 0" by (simp add: t_def)
      then show ?thesis using A4(1) by (simp add: st min_def)
    qed
    moreover have "?dv * s < len"
    proof -
      have "?dv * s \<le> ?dv * A" using sA dm(4) by (intro mult_left_mono) auto
      then show ?thesis using dm(1) True by linarith
    qed
    moreover have "?dv * A < len" using dm(1) True by linarith
    ultimately show ?thesis using le lA A4(2) ceil_div_eq [of ?dv] by simp
  qed
  then show "s mod 4 = 0" "0 < s" "s \<le> A" "(len + s - 1) div s = (len + A - 1) div A" by auto
qed

text \<open>
  The chosen fragment size never costs a fragment. For any maximum of at least four bytes,
  \<open>optimal_fragment_size\<close> returns a positive multiple of four within the maximum, and cutting the
  datagram into pieces of that size takes exactly as many fragments as cutting it into the
  largest aligned pieces would.
\<close>

theorem optimal_size_keeps_count:
  assumes "4 \<le> mx" and "0 < len"
  shows "let s = optimal_fragment_size len mx; a = mx - mx mod 4
     in s mod 4 = 0 \<and> 0 < s \<and> s \<le> mx \<and> (len + s - 1) div s = (len + a - 1) div a"
proof -
  have "mx - mx mod 4 \<le> mx" by simp
  then show ?thesis
    using optimal_fragment_size_spec [OF assms refl refl] unfolding Let_def by linarith
qed

theorem optimal_size_keeps_count_witness:
  "optimal_fragment_size 1500 1393 = 752 \<and> (1500 + 752 - 1) div 752 = (1500 + 1392 - 1) div (1392 :: int)"
proof -
  have e: "optimal_fragment_size 1500 1393 = 752"
    by (simp add: optimal_fragment_size_def FRAG_SIZE_ROUND_MASK_def and_m4_int Let_def min_int_def)
  then show ?thesis using optimal_size_keeps_count [of 1393 1500] by simp
qed

subsection \<open>Whole datagrams\<close>

lemma frag_flags_whole: "frag_flags FRAG_WHOLE 0 0 0 = 0"
  by (simp add: frag_flags_def frag_consts Let_def)

text \<open>
  A datagram within the payload size crosses unchanged. Sent whole, with headroom for the
  header, and received by any peer in any buffer, it comes out with the bytes it went in with,
  and the peer's reassembly state is untouched.
\<close>

theorem whole_datagram_roundtrip:
  assumes "live b" and "0 < blen b" and "blen b \<le> PAYLOAD_SIZE_DYNAMIC frame" and "4 \<le> buf_reverse_capacity b"
  shows "\<exists>b1. fragment_outgoing frame f b = Some (f, b1)
     \<and> (\<forall>pre post. \<exists>b2. fragment_incoming now frame' g (mkbuf pre (content b1) post) = Some (g, b2) \<and> content b2 = content b)"
proof -
  obtain pre c post where b: "b = mkbuf pre c post" using live_split [OF assms(1)] by blast
  let ?b1 = "mkbuf (take (length pre - 4) pre) (be32 0 @ c) post"
  have "fragment_outgoing frame f b = Some (f, ?b1)"
    using assms b by (simp add: fragment_outgoing_def fragment_prepend_flags_def frag_flags_whole buf_write_prepend_mkbuf)
  moreover have "fragment_incoming now frame' g (mkbuf p (content ?b1) q) = Some (g, mkbuf (p @ be32 0) c q)" for p q
    by (simp add: fragment_incoming_def buf_read_mkbuf frag_consts)
  ultimately show ?thesis using b by auto
qed

theorem whole_datagram_roundtrip_witness:
  "\<exists>b1 b2. fragment_outgoing demo_frame demo_frag (mkbuf (replicate 10 0) [1, 2, 3] []) = Some (demo_frag, b1)
     \<and> fragment_incoming 0 demo_frame demo_frag (mkbuf [] (content b1) []) = Some (demo_frag, b2) \<and> content b2 = [1, 2, 3]"
  using whole_datagram_roundtrip [of "mkbuf (replicate 10 0) [1, 2, 3] []" demo_frame demo_frag 0 demo_frame demo_frag]
  by (auto simp: small_def BUF_SIZE_MAX_def demo_frame_def frame_sizes)

text \<open>
  The check for spurious flags on a whole datagram looks at the wrong bits. It masks the
  header with the unshifted \<open>FRAG_SEQ_ID_MASK | FRAG_ID_MASK\<close>, so the fragment id (bits 10 to
  14) and the two high bits of the sequence id (bits 8 and 9) are not seen: a whole datagram whose
  header sets any of the bits from 8 up, and none below, is accepted and delivered.
\<close>

theorem spurious_whole_flags_accepted:
  assumes "flags AND 0xFF = 0"
  shows "fragment_incoming now frame f (mkbuf pre (be32 flags @ c) post) = Some (f, mkbuf (pre @ be32 flags) c post)"
proof -
  have "flags AND 3 = (flags AND 0xFF) AND 3" by (simp add: and.assoc)
  then have "flags AND FRAG_TYPE_MASK = FRAG_WHOLE" using assms by (simp add: frag_consts)
  moreover have "flags AND (FRAG_SEQ_ID_MASK OR FRAG_ID_MASK) = 0" using assms by (simp add: frag_consts)
  ultimately show ?thesis by (simp add: fragment_incoming_def buf_read_mkbuf)
qed

theorem spurious_whole_flags_accepted_witness:
  "fragment_incoming 0 demo_frame demo_frag (mkbuf [] (be32 0x7C00 @ [9]) []) = Some (demo_frag, mkbuf (be32 0x7C00) [9] [])"
  using spurious_whole_flags_accepted [of "0x7C00" 0 demo_frame demo_frag "[]" "[9]" "[]"] by simp

end
