(* ===== verification/Reassembly.thy ===== *)
theory Reassembly
  imports Fragment "HOL-Library.Multiset"
begin

text \<open>
  Fragmentation end to end: the sender of \<^verbatim>\<open>fragment.c\<close> cuts a datagram, the fragments
  arrive in any order, the receiver puts it together. \<open>frag_drain\<close> is the loop of
  \<^verbatim>\<open>forward.c\<close> (\<open>check_fragment\<close>) that asks for one fragment after the other until none is
  pending; its fuel is \<open>MAX_FRAGS\<close>, which no datagram the sender accepts exceeds.
\<close>

subsection \<open>The header fields survive the header\<close>

lemma and_take_bit:
  "(x :: u32) AND 3 = take_bit 2 x" "x AND 0xff = take_bit 8 x" "x AND 0x1f = take_bit 5 x" "x AND 0x3fff = take_bit 14 x"
  by (simp_all add: take_bit_eq_mask mask_eq_exp_minus_1)

lemma header_fields:
  fixes T Q K S :: u32
  defines "fl \<equiv> take_bit 2 T OR push_bit 2 (take_bit 8 Q) OR push_bit 10 (take_bit 5 K) OR push_bit 15 (take_bit 14 S)"
  shows "take_bit 2 fl = take_bit 2 T" "take_bit 8 (drop_bit 2 fl) = take_bit 8 Q"
    "take_bit 5 (drop_bit 10 fl) = take_bit 5 K" "take_bit 14 (drop_bit 15 fl) = take_bit 14 S"
  unfolding fl_def by (rule bit_word_eqI; auto simp: bit_simps)+

lemma take_bit_small_int:
  assumes "0 \<le> x" "x < 2 ^ n" "n \<le> 32"
  shows "uint (take_bit n (word_of_int x :: u32)) = x"
proof -
  have "(2 :: int) ^ n \<le> 2 ^ 32" using assms(3) by (intro power_increasing) auto
  then have "uint (word_of_int x :: u32) = x" using assms by (simp add: uint_word_of_int)
  then show ?thesis using assms by (simp add: unsigned_take_bit_eq take_bit_int_eq_self)
qed

lemma frag_flags_decode:
  assumes "ty = FRAG_YES_NOTLAST \<or> ty = FRAG_YES_LAST" "0 \<le> q" "q < 256" "0 \<le> k" "k < 32"
    "0 \<le> sz" "sz < 65536" "sz mod 4 = 0"
  shows "frag_flags ty q k sz AND FRAG_TYPE_MASK = ty"
    "uint (drop_bit 2 (frag_flags ty q k sz) AND FRAG_SEQ_ID_MASK) = q"
    "unat (drop_bit 10 (frag_flags ty q k sz) AND FRAG_ID_MASK) = nat k"
    "ty = FRAG_YES_LAST \<Longrightarrow> uint (push_bit 2 (drop_bit 15 (frag_flags ty q k sz) AND FRAG_SIZE_MASK)) = sz"
proof -
  let ?S = "if ty = FRAG_YES_NOTLAST then 0 else word_of_int (drop_bit 2 sz) :: u32"
  have fl: "frag_flags ty q k sz = take_bit 2 ty OR push_bit 2 (take_bit 8 (word_of_int q))
      OR push_bit 10 (take_bit 5 (word_of_int k)) OR push_bit 15 (take_bit 14 ?S)"
    using assms(1) by (auto simp: frag_flags_def Let_def frag_consts and_take_bit or.assoc)
  note hf = header_fields [of ty "word_of_int q" "word_of_int k" ?S, folded fl]
  show "frag_flags ty q k sz AND FRAG_TYPE_MASK = ty"
    using assms(1) hf(1) by (auto simp: frag_consts and_take_bit)
  show "uint (drop_bit 2 (frag_flags ty q k sz) AND FRAG_SEQ_ID_MASK) = q"
    using assms hf(2) by (simp add: FRAG_SEQ_ID_MASK_def and_take_bit take_bit_small_int)
  show "unat (drop_bit 10 (frag_flags ty q k sz) AND FRAG_ID_MASK) = nat k"
    using assms hf(3) by (simp add: FRAG_ID_MASK_def and_take_bit unat_eq_nat_uint take_bit_small_int)
  assume "ty = FRAG_YES_LAST"
  then have S: "?S = word_of_int (drop_bit 2 sz)" by (simp add: frag_consts)
  have d: "0 \<le> drop_bit 2 sz" "drop_bit 2 sz < 2 ^ 14" "drop_bit 2 sz * 4 = sz"
    using assms(6-8) by (auto simp: drop_bit_eq_div)
  then have u: "uint (take_bit 14 (word_of_int (drop_bit 2 sz) :: u32)) = drop_bit 2 sz"
    by (intro take_bit_small_int) auto
  have "uint (push_bit 2 (take_bit 14 (word_of_int (drop_bit 2 sz) :: u32))) = sz"
    using u d assms(7) by (simp add: push_bit_eq_mult uint_word_ariths)
  then show "uint (push_bit 2 (drop_bit 15 (frag_flags ty q k sz) AND FRAG_SIZE_MASK)) = sz"
    using hf(4) S by (simp add: FRAG_SIZE_MASK_def and_take_bit)
qed

subsection \<open>Cutting into pieces\<close>

definition chunk :: "nat \<Rightarrow> byte list \<Rightarrow> nat \<Rightarrow> byte list" where
  "chunk s d k = take s (drop (k * s) d)"

definition piece :: "nat \<Rightarrow> byte list \<Rightarrow> nat \<Rightarrow> int \<Rightarrow> nat \<Rightarrow> byte list" where
  "piece s d m q k =
     be32 (frag_flags (if Suc k = m then FRAG_YES_LAST else FRAG_YES_NOTLAST) q (int k) (int s)) @ chunk s d k"

text \<open>\<open>d\<close> is cut into \<open>m\<close> pieces of \<open>s\<close> bytes, the last one possibly shorter.\<close>

definition cut :: "nat \<Rightarrow> byte list \<Rightarrow> nat \<Rightarrow> bool" where
  "cut s d m \<longleftrightarrow> 0 < s \<and> s mod 4 = 0 \<and> s < 65536 \<and> 0 < m \<and> m \<le> 32 \<and> (m - 1) * s < length d \<and> length d \<le> m * s"

lemma length_chunk: "length (chunk s d k) = min s (length d - k * s)"
  by (simp add: chunk_def)

lemma chunk_full: "cut s d m \<Longrightarrow> Suc k < m \<Longrightarrow> length (chunk s d k) = s"
proof -
  assume c: "cut s d m" "Suc k < m"
  then have "Suc k * s \<le> (m - 1) * s" by (intro mult_le_mono1) auto
  with c show ?thesis by (auto simp: length_chunk cut_def)
qed

lemma chunk_last: "cut s d m \<Longrightarrow> Suc k = m \<Longrightarrow> k * s + length (chunk s d k) = length d"
  by (auto simp: length_chunk cut_def)

lemma chunk_end: "cut s d m \<Longrightarrow> k < m \<Longrightarrow> k * s + length (chunk s d k) \<le> length d \<and> 0 < length (chunk s d k)"
proof -
  assume c: "cut s d m" "k < m"
  then have "k * s \<le> (m - 1) * s" by (intro mult_le_mono1) auto
  with c(1) have "k * s < length d" unfolding cut_def by linarith
  with c(1) show ?thesis by (simp add: length_chunk cut_def)
qed

lemma nth_mem_read: "r < n \<Longrightarrow> i \<le> length M \<Longrightarrow> mem_read M i n ! r = M ! (i + r)"
  by (simp add: mem_read_def)

lemma assemble:
  assumes "0 < s" "length d \<le> m * s" "h + length d \<le> length M"
    and "\<And>j. j < m \<Longrightarrow> mem_read M (h + j * s) (length (chunk s d j)) = chunk s d j"
  shows "mem_read M h (length d) = d"
proof (rule nth_equalityI)
  show len: "length (mem_read M h (length d)) = length d" using assms(3) by simp
  fix x assume "x < length (mem_read M h (length d))"
  then have x: "x < length d" using len by simp
  let ?j = "x div s" and ?r = "x mod s"
  have xs: "x = ?j * s + ?r" "?r < s" using assms(1) by simp_all
  have j: "?j < m" using x assms(1,2) by (metis div_mult_self_is_m less_mult_imp_div_less order_less_le_trans)
  have "?r < length d - ?j * s" using xs(1) x by linarith
  then have r: "?r < length (chunk s d ?j)" using xs(2) by (simp add: length_chunk)
  have start: "h + ?j * s \<le> length M" "?j * s \<le> length d" using xs(1) x assms(3) by linarith+
  have "chunk s d ?j ! ?r = mem_read M (h + ?j * s) (length (chunk s d ?j)) ! ?r"
    by (simp only: assms(4) [OF j])
  also have "\<dots> = M ! (h + ?j * s + ?r)" using r start(1) by (simp only: nth_mem_read)
  finally have "chunk s d ?j ! ?r = M ! (h + ?j * s + ?r)" .
  moreover have "chunk s d ?j ! ?r = d ! x"
    using r start(2) xs(1) by (simp add: chunk_def nth_append length_chunk)
  moreover have "mem_read M h (length d) ! x = M ! (h + x)"
    using x assms(3) by (intro nth_mem_read) auto
  moreover have "h + ?j * s + ?r = h + x" using xs(1) by linarith
  ultimately show "mem_read M h (length d) ! x = d ! x" by simp
qed

subsection \<open>The receiver, piece by piece\<close>

text \<open>\<open>reass\<close>: the slot has put together the pieces in \<open>S\<close> of datagram \<open>d\<close>.\<close>

definition reass :: "nat \<Rightarrow> byte list \<Rightarrow> nat \<Rightarrow> int \<Rightarrow> int \<Rightarrow> nat set \<Rightarrow> fragment \<Rightarrow> bool" where
  "reass s d m cap hr S fr \<longleftrightarrow> fr_defined fr \<and> fr_max_frag_size fr = int s
     \<and> live (fr_buf fr) \<and> bcap (fr_buf fr) = cap \<and> boff (fr_buf fr) = hr
     \<and> blen (fr_buf fr) \<le> int (length d) \<and> (m - 1 \<in> S \<longrightarrow> blen (fr_buf fr) = int (length d))
     \<and> (\<forall>j \<in> S. j < m \<and> mem_read (block (fr_buf fr)) (nat hr + j * s) (length (chunk s d j)) = chunk s d j)
     \<and> (\<forall>x < 32. bit (fr_map fr) x \<longleftrightarrow> x \<in> S \<and> x < m - 1 \<or> m - 1 \<in> S \<and> m - 1 \<le> x)"

lemma slot_init_reass:
  assumes "live (fr_buf fr)" "bcap (fr_buf fr) = cap" "0 \<le> frame_headroom frame FRAME_HEADROOM_MARKER_FRAGMENT"
    "frame_headroom frame FRAME_HEADROOM_MARKER_FRAGMENT \<le> cap" "0 < m"
    and "if S = {} then \<not> fr_defined fr else reass s d m cap (frame_headroom frame FRAME_HEADROOM_MARKER_FRAGMENT) S fr"
  shows "\<exists>fr1. frag_slot_init frame fr (int s) = Some fr1
     \<and> reass s d m cap (frame_headroom frame FRAME_HEADROOM_MARKER_FRAGMENT) S fr1"
proof (cases "S = {}")
  case True
  then show ?thesis
    using assms buf_init_live [OF assms(1,3)] by (auto simp: frag_slot_init_def reass_def)
next
  case False
  then show ?thesis using assms(6) by (auto simp: frag_slot_init_def reass_def)
qed

text \<open>The slot after a piece: \<open>frag_piece\<close> without the list around it.\<close>

definition slot_put :: "time_t \<Rightarrow> nat \<Rightarrow> byte list \<Rightarrow> nat \<Rightarrow> int \<Rightarrow> nat \<Rightarrow> fragment \<Rightarrow> fragment" where
  "slot_put now s d m hr j fr =
     fr\<lparr>fr_buf := (fr_buf fr)\<lparr>bdata := Some (mem_write (block (fr_buf fr)) (nat (hr + int j * int s)) (chunk s d j)),
            blen := max (blen (fr_buf fr)) (int j * int s + int (length (chunk s d j)))\<rparr>,
         fr_timestamp := now,
         fr_map := fr_map fr OR push_bit j (if Suc j = m then FRAG_MAP_MASK else 1)\<rparr>"

lemma frag_map_mask: "FRAG_MAP_MASK = - 1"
  by (simp add: FRAG_MAP_MASK_def)

lemma reass_put:
  assumes c: "cut s d m" and j: "j < m" and hr: "0 \<le> hr" "hr + int (length d) \<le> cap"
    and r: "reass s d m cap hr S fr"
  shows "reass s d m cap hr (insert j S) (slot_put now s d m hr j fr)"
proof -
  let ?b = "fr_buf fr" and ?ys = "chunk s d j" and ?i = "nat hr + j * s"
  have lb: "live ?b" "bcap ?b = cap" "boff ?b = hr" using r by (auto simp: reass_def)
  note lf = live_fields [OF lb(1)]
  have lm: "int (length (block ?b)) = cap" using lf lb(2) by simp
  have en: "j * s + length ?ys \<le> length d" using chunk_end [OF c j] by simp
  have i: "nat (hr + int j * int s) = ?i" using hr(1) by (simp add: nat_add_distrib nat_mult_distrib)
  have fit: "?i + length ?ys \<le> length (block ?b)" using lm hr en by linarith
  let ?M = "mem_write (block ?b) ?i ?ys"
  have lM: "length ?M = length (block ?b)" using fit by simp
  have endj: "int j * int s + int (length ?ys) \<le> int (length d)"
    using en by (metis of_nat_add of_nat_le_iff of_nat_mult)
  have reads: "mem_read ?M (nat hr + k * s) (length (chunk s d k)) = chunk s d k" if k: "k = j \<or> k \<in> S" for k
  proof (cases "k = j")
    case True
    then show ?thesis using fit by (simp add: mem_read_write_same)
  next
    case False
    with k have kS: "k \<in> S" "mem_read (block ?b) (nat hr + k * s) (length (chunk s d k)) = chunk s d k" "k < m"
      using r by (auto simp: reass_def)
    have lc: "length (chunk s d k) \<le> s" "length ?ys \<le> s" by (simp_all add: length_chunk)
    from False consider "k < j" | "j < k" by linarith
    then show ?thesis
    proof cases
      case 1
      then have "Suc k * s \<le> j * s" by (intro mult_le_mono1) auto
      then have "nat hr + k * s + length (chunk s d k) \<le> ?i" using lc by simp
      then show ?thesis using mem_read_write_before [OF _ fit] kS(2) by simp
    next
      case 2
      then have "Suc j * s \<le> k * s" by (intro mult_le_mono1) auto
      then have "?i + length ?ys \<le> nat hr + k * s" using lc by simp
      then show ?thesis using mem_read_write_after [OF _ fit] kS(2) by simp
    qed
  qed
  have live: "live (fr_buf (slot_put now s d m hr j fr))"
    using lf lb lM endj hr r fit unfolding slot_put_def live_def buf_inv_def
    by (simp add: i) (auto simp: reass_def)
  have len: "blen (fr_buf (slot_put now s d m hr j fr)) \<le> int (length d)
     \<and> (m - 1 \<in> insert j S \<longrightarrow> blen (fr_buf (slot_put now s d m hr j fr)) = int (length d))"
  proof -
    have "int j * int s + int (length ?ys) = int (length d)" if "j = m - 1"
      using chunk_last [OF c, of j] that j by (metis Suc_diff_1 less_nat_zero_code neq0_conv of_nat_add of_nat_mult)
    then show ?thesis using r endj by (auto simp: slot_put_def reass_def max_def)
  qed
  have bits: "bit (fr_map (slot_put now s d m hr j fr)) x \<longleftrightarrow> x \<in> insert j S \<and> x < m - 1 \<or> m - 1 \<in> insert j S \<and> m - 1 \<le> x"
    if "x < 32" for x
    using r that j c by (auto simp: slot_put_def reass_def bit_simps frag_map_mask cut_def)
  have blk: "block (fr_buf (slot_put now s d m hr j fr)) = ?M"
    by (simp add: slot_put_def block_def i)
  have same: "fr_defined (slot_put now s d m hr j fr)" "fr_max_frag_size (slot_put now s d m hr j fr) = int s"
      "bcap (fr_buf (slot_put now s d m hr j fr)) = cap" "boff (fr_buf (slot_put now s d m hr j fr)) = hr"
    using r by (auto simp: slot_put_def reass_def)
  have pieces: "\<forall>k \<in> insert j S. k < m \<and> mem_read ?M (nat hr + k * s) (length (chunk s d k)) = chunk s d k"
    using reads r j by (auto simp: reass_def)
  show ?thesis
    unfolding reass_def blk using same live len bits pieces by blast
qed

lemma map_full:
  assumes "cut s d m" "reass s d m cap hr S fr"
  shows "fr_map fr AND FRAG_MAP_MASK = FRAG_MAP_MASK \<longleftrightarrow> S = {..<m}"
proof -
  have m: "0 < m" "m \<le> 32" using assms(1) by (auto simp: cut_def)
  have S: "S \<subseteq> {..<m}" using assms(2) by (auto simp: reass_def)
  have "fr_map fr AND FRAG_MAP_MASK = FRAG_MAP_MASK \<longleftrightarrow> (\<forall>x < 32. bit (fr_map fr) x)"
    by (auto simp: bit_eq_iff bit_simps frag_map_mask)
  also have "\<dots> \<longleftrightarrow> (\<forall>x < 32. x \<in> S \<and> x < m - 1 \<or> m - 1 \<in> S \<and> m - 1 \<le> x)"
    using assms(2) by (auto simp: reass_def)
  also have "\<dots> \<longleftrightarrow> S = {..<m}"
  proof
    assume a: "\<forall>x < 32. x \<in> S \<and> x < m - 1 \<or> m - 1 \<in> S \<and> m - 1 \<le> x"
    have "x \<in> S" if "x < m" for x
      using a [rule_format, of x] a [rule_format, of "m - 1"] that m
      by (cases "x = m - 1") auto
    then show "S = {..<m}" using S by auto
  qed (use m in auto)
  finally show ?thesis .
qed

lemma reass_content:
  assumes c: "cut s d m" and hr: "0 \<le> hr" "hr + int (length d) \<le> cap" and r: "reass s d m cap hr {..<m} fr"
  shows "content (fr_buf fr) = d"
proof -
  have lb: "live (fr_buf fr)" "bcap (fr_buf fr) = cap" "boff (fr_buf fr) = hr" "blen (fr_buf fr) = int (length d)"
    using r c by (auto simp: reass_def cut_def)
  have "mem_read (block (fr_buf fr)) (nat hr) (length d) = d"
    using c r hr live_fields [OF lb(1)] lb by (intro assemble [of s d m]) (auto simp: cut_def reass_def)
  then show ?thesis using live_fields(6) [OF lb(1)] lb by simp
qed

subsection \<open>One piece into the receiver\<close>

definition expecting ::
  "frame \<Rightarrow> int \<Rightarrow> nat \<Rightarrow> byte list \<Rightarrow> nat \<Rightarrow> int \<Rightarrow> nat set \<Rightarrow> fragment_master \<Rightarrow> bool" where
  "expecting frame cap s d m q S g \<longleftrightarrow> frag_wf cap g \<and>
     (\<exists>i l. fragment_list_get_buf (fm_incoming g) q = Some (i, l) \<and> frag_list_wf cap l \<and> i < nat N_FRAG_BUF
        \<and> (\<forall>fs. fragment_list_get_buf (l\<lparr>fl_fragments := fs\<rparr>) q = Some (i, l\<lparr>fl_fragments := fs\<rparr>))
        \<and> (if S = {} then \<not> fr_defined (fl_fragments l ! i)
           else reass s d m cap (frame_headroom frame FRAME_HEADROOM_MARKER_FRAGMENT) S (fl_fragments l ! i)))"

lemma piece_live: "cut s d m \<Longrightarrow> k < m \<Longrightarrow> small [] (piece s d m q k) []"
  using chunk_end [of s d m k] by (auto simp: small_def piece_def BUF_SIZE_MAX_def length_chunk cut_def)

lemma read_piece:
  assumes c: "cut s d m" and k: "k < m" and q: "0 \<le> q" "q < N_SEQ_ID"
  shows "fragment_incoming now frame g (mkbuf [] (piece s d m q k) []) =
     frag_piece now frame g (mkbuf (take 4 (piece s d m q k)) (chunk s d k) []) (Suc k = m) q k (int s)"
proof -
  let ?ty = "if Suc k = m then FRAG_YES_LAST else FRAG_YES_NOTLAST"
  let ?fl = "frag_flags ?ty q (int k) (int s)"
  have s4: "int s mod 4 = 0" using c by (simp add: cut_def zmod_int [of s 4, symmetric]) presburger
  have r: "?ty = FRAG_YES_NOTLAST \<or> ?ty = FRAG_YES_LAST" "0 \<le> q" "q < 256" "0 \<le> int k" "int k < 32"
      "0 \<le> int s" "int s < 65536" "int s mod 4 = 0"
    using c k q s4 by (auto simp: cut_def N_SEQ_ID_def)
  note dec = frag_flags_decode [OF r]
  have ne: "?ty \<noteq> FRAG_WHOLE" "FRAG_YES_NOTLAST \<noteq> FRAG_YES_LAST" by (auto simp: frag_consts)
  have sz: "(if ?ty = FRAG_YES_LAST then uint (push_bit 2 (drop_bit 15 ?fl AND FRAG_SIZE_MASK))
      else int (length (chunk s d k))) = int s"
    using dec(4) chunk_full [OF c, of k] k ne(2) by (cases "Suc k = m") auto
  have last: "(?ty = FRAG_YES_LAST) = (Suc k = m)" using ne(2) by auto
  have bl: "blen (mkbuf [] (piece s d m q k) []) > 0" by (simp add: piece_def)
  have rd: "buf_read (mkbuf [] (piece s d m q k) []) 4 =
      (Some (be32 ?fl), mkbuf (take 4 (piece s d m q k)) (chunk s d k) [])"
    by (simp add: buf_read_mkbuf piece_def)
  show ?thesis
    unfolding fragment_incoming_def rd Let_def
    using bl dec(1-3) ne r(1) sz by (cases "Suc k = m") (simp_all del: push_bit_and)
qed

lemma piece_step:
  assumes c: "cut s d m" and k: "k < m" and q: "0 \<le> q" "q < N_SEQ_ID"
    and hr: "0 \<le> frame_headroom frame FRAME_HEADROOM_MARKER_FRAGMENT"
      "frame_headroom frame FRAME_HEADROOM_MARKER_FRAGMENT + int (length d) \<le> cap"
    and e: "expecting frame cap s d m q S g"
  shows "\<exists>g' b'. fragment_incoming now frame g (mkbuf [] (piece s d m q k) []) = Some (g', b') \<and> frag_wf cap g' \<and> live b'
     \<and> (if insert k S = {..<m} then content b' = d
        else content b' = [] \<and> expecting frame cap s d m q (insert k S) g')"
proof -
  let ?hr = "frame_headroom frame FRAME_HEADROOM_MARKER_FRAGMENT"
  obtain i l where g: "frag_wf cap g" "fragment_list_get_buf (fm_incoming g) q = Some (i, l)" "frag_list_wf cap l"
      "i < nat N_FRAG_BUF" "\<And>fs. fragment_list_get_buf (l\<lparr>fl_fragments := fs\<rparr>) q = Some (i, l\<lparr>fl_fragments := fs\<rparr>)"
      "if S = {} then \<not> fr_defined (fl_fragments l ! i) else reass s d m cap ?hr S (fl_fragments l ! i)"
    using e by (auto simp: expecting_def)
  have len: "i < length (fl_fragments l)" using g(3,4) by (simp add: frag_list_wf_def)
  note sl = frag_list_slot [OF g(3,4)]
  have m0: "0 < m" and cap: "?hr \<le> cap" using k hr by auto
  obtain fr1 where fr1: "frag_slot_init frame (fl_fragments l ! i) (int s) = Some fr1" "reass s d m cap ?hr S fr1"
    using slot_init_reass [of "fl_fragments l ! i" cap frame m S s d] sl hr(1) cap m0 g(6) by auto
  define b where "b = mkbuf (take 4 (piece s d m q k)) (chunk s d k) []"
  have b: "live b" "blen b = int (length (chunk s d k))" "content b = chunk s d k"
    using c by (auto simp: b_def small_def BUF_SIZE_MAX_def length_chunk cut_def)
  define fr2 where "fr2 = slot_put now s d m ?hr k fr1"
  have fr2: "reass s d m cap ?hr (insert k S) fr2" unfolding fr2_def by (rule reass_put [OF c k hr fr1(2)])
  have lb: "live (fr_buf fr1)" "bcap (fr_buf fr1) = cap" "boff (fr_buf fr1) = ?hr" using fr1(2) by (auto simp: reass_def)
  have en: "int k * int s + int (length (chunk s d k)) \<le> int (length d)"
    using chunk_end [OF c k] by (metis of_nat_add of_nat_le_iff of_nat_mult)
  have cr: "buf_copy_range (fr_buf fr1) (int k * int s) b 0 (blen b) = (True, fr_buf fr2)"
    using copy_range_live [OF lb(1) b(1), of "int k * int s"] en hr lb b by (simp add: fr2_def slot_put_def)
  have s4: "int s AND FRAG_SIZE_ROUND_MASK = 0"
    using c by (simp add: FRAG_SIZE_ROUND_MASK_def and_3_int cut_def) presburger
  let ?upd = "\<lambda>fr. g\<lparr>fm_incoming := l\<lparr>fl_fragments := (fl_fragments l)[i := fr]\<rparr>\<rparr>"
  have fr2_eq: "fr1\<lparr>fr_buf := fr_buf fr2, fr_timestamp := now,
      fr_map := fr_map fr1 OR push_bit k (if Suc k = m then FRAG_MAP_MASK else 1)\<rparr> = fr2"
    by (simp add: fr2_def slot_put_def)
  have mp: "fr_map fr1 OR push_bit k (if Suc k = m then FRAG_MAP_MASK else 1) = fr_map fr2"
    by (simp add: fr2_def slot_put_def)
  have res: "fragment_incoming now frame g (mkbuf [] (piece s d m q k) []) =
      (if fr_map fr2 AND FRAG_MAP_MASK = FRAG_MAP_MASK
       then Some (?upd (fr2\<lparr>fr_defined := False\<rparr>), fr_buf fr2) else Some (?upd fr2, frag_drop b))"
    unfolding read_piece [OF c k q] b_def [symmetric] frag_piece_def
    using g(2) s4 fr1(1) cr mp fr2_eq by (cases "Suc k = m") (simp_all add: Let_def)
  have wf: "frag_wf cap (?upd fr)" if "live (fr_buf fr)" "bcap (fr_buf fr) = cap" for fr
    using that g(1,3) by (intro frag_wf_incoming frag_list_upd)
  have l2: "live (fr_buf fr2)" "bcap (fr_buf fr2) = cap" using fr2 by (auto simp: reass_def)
  have full: "fr_map fr2 AND FRAG_MAP_MASK = FRAG_MAP_MASK \<longleftrightarrow> insert k S = {..<m}"
    by (rule map_full [OF c fr2])
  show ?thesis
  proof (cases "insert k S = {..<m}")
    case True
    then have "content (fr_buf fr2) = d" using reass_content [OF c hr] fr2 by simp
    then show ?thesis using res full True wf l2 by simp
  next
    case False
    have "expecting frame cap s d m q (insert k S) (?upd fr2)"
      unfolding expecting_def
      using wf [OF l2] g(4,5) frag_list_upd [OF g(3) l2] fr2 len by auto
    then show ?thesis using res full False wf [OF l2] b(1) by simp
  qed
qed

subsection \<open>All pieces, in any order\<close>

text \<open>\<open>feed\<close> hands packets to the receiver one after the other and collects what it passes on.\<close>

fun feed :: "time_t \<Rightarrow> frame \<Rightarrow> fragment_master \<Rightarrow> byte list list \<Rightarrow> (fragment_master \<times> byte list list) option" where
  "feed now frame g [] = Some (g, [])"
| "feed now frame g (p # ps) =
     (case fragment_incoming now frame g (mkbuf [] p []) of
        None \<Rightarrow> None
      | Some (g1, b) \<Rightarrow>
          (case feed now frame g1 ps of None \<Rightarrow> None | Some (g2, outs) \<Rightarrow> Some (g2, content b # outs)))"

lemma feed_pieces:
  assumes c: "cut s d m" and q: "0 \<le> q" "q < N_SEQ_ID"
    and hr: "0 \<le> frame_headroom frame FRAME_HEADROOM_MARKER_FRAGMENT"
      "frame_headroom frame FRAME_HEADROOM_MARKER_FRAGMENT + int (length d) \<le> cap"
    and e: "expecting frame cap s d m q S g" and ks: "ks \<noteq> []" "distinct ks" "set ks \<inter> S = {}" "set ks \<union> S = {..<m}"
  shows "\<exists>g'. feed now frame g (map (piece s d m q) ks) = Some (g', replicate (length ks - 1) [] @ [d]) \<and> frag_wf cap g'"
  using e ks
proof (induction ks arbitrary: S g)
  case Nil
  then show ?case by simp
next
  case (Cons k ks)
  have k: "k < m" using Cons.prems(5) by auto
  obtain g' b' where st: "fragment_incoming now frame g (mkbuf [] (piece s d m q k) []) = Some (g', b')" "frag_wf cap g'"
      "if insert k S = {..<m} then content b' = d else content b' = [] \<and> expecting frame cap s d m q (insert k S) g'"
    using piece_step [OF c k q hr Cons.prems(1)] by blast
  show ?case
  proof (cases ks)
    case Nil
    with Cons.prems st show ?thesis by auto
  next
    case (Cons k' ks')
    have "k' \<notin> insert k S" "k' < m" using Cons.prems Cons by auto
    then have ne: "insert k S \<noteq> {..<m}" by auto
    then have e': "expecting frame cap s d m q (insert k S) g'" "content b' = []" using st(3) by auto
    have "\<exists>g''. feed now frame g' (map (piece s d m q) ks) = Some (g'', replicate (length ks - 1) [] @ [d]) \<and> frag_wf cap g''"
      using Cons.prems Cons by (intro Cons.IH [OF e'(1)]) auto
    then show ?thesis using st(1) e'(2) Cons by auto
  qed
qed

subsection \<open>The sender\<close>

fun frag_drain :: "nat \<Rightarrow> frame \<Rightarrow> fragment_master \<Rightarrow> (buffer list \<times> fragment_master) option" where
  "frag_drain 0 frame f = Some ([], f)"
| "frag_drain (Suc n) frame f =
     (case fragment_ready_to_send frame f of
        None \<Rightarrow> None
      | Some (None, f1) \<Rightarrow> Some ([], f1)
      | Some (Some b, f1) \<Rightarrow>
          (case frag_drain n frame f1 of None \<Rightarrow> None | Some (bs, f2) \<Rightarrow> Some (b # bs, f2)))"

definition sending :: "nat \<Rightarrow> byte list \<Rightarrow> nat \<Rightarrow> int \<Rightarrow> frame \<Rightarrow> nat \<Rightarrow> fragment_master \<Rightarrow> bool" where
  "sending s d m q frame k f \<longleftrightarrow> k \<le> m \<and> fm_outgoing_frag_size f = int s \<and> fm_outgoing_seq_id f = q
     \<and> fm_outgoing_frag_id f = int k \<and> 4 \<le> FRAME_HEADROOM frame
     \<and> (\<exists>pre post. fm_outgoing f = mkbuf pre (drop (k * s) d) post \<and> small pre (drop (k * s) d) post)
     \<and> live (fm_outgoing_return f) \<and> FRAME_HEADROOM frame + int s \<le> bcap (fm_outgoing_return f)"

lemma buf_read_alloc_mkbuf:
  "n \<le> length c \<Longrightarrow> buf_read_alloc (mkbuf pre c post) (int n) =
     (Some (int (length pre)), mkbuf (pre @ take n c) (drop n c) post)"
  by (auto simp: buf_read_alloc_def intro!: mkbuf_eqI) (auto simp: mkbuf_def)

lemma ready_spec:
  assumes c: "cut s d m" and k: "k < m" and f: "sending s d m q frame k f"
  shows "\<exists>b f'. fragment_ready_to_send frame f = Some (Some b, f') \<and> content b = piece s d m q k
     \<and> sending s d m q frame (Suc k) f'"
proof -
  obtain pre post where o: "fm_outgoing f = mkbuf pre (drop (k * s) d) post" "small pre (drop (k * s) d) post"
    using f by (auto simp: sending_def)
  let ?r = "fm_outgoing_return f" and ?h = "FRAME_HEADROOM frame" and ?last = "Suc k = m"
  have r: "live ?r" "4 \<le> ?h" "?h + int s \<le> bcap ?r" using f by (auto simp: sending_def)
  obtain p c0 t where rr: "?r = mkbuf p c0 t" "small p c0 t" using live_split [OF r(1)] by blast
  define P where "P = take (nat ?h) (p @ c0 @ t)"
  define Q where "Q = drop (nat ?h) (p @ c0 @ t)"
  have cap: "bcap ?r = int (length (p @ c0 @ t))" using rr by simp
  have init: "buf_init ?r ?h = (True, mkbuf P [] Q)"
    unfolding rr(1) buf_init_mkbuf P_def Q_def using r cap by (auto simp del: take_append drop_append)
  have PQ: "int (length P) = ?h" "int s \<le> int (length Q)" "small P [] Q"
    using r cap rr(2) by (auto simp: P_def Q_def small_def simp del: take_append drop_append)
  have rest: "length (drop (k * s) d) = length d - k * s" by simp
  have lastiff: "length d - k * s \<le> s \<longleftrightarrow> ?last"
  proof (cases ?last)
    case True
    then have "length d \<le> s + k * s" using c by (auto simp: cut_def)
    with True show ?thesis by simp
  next
    case False
    then have "Suc k * s \<le> (m - 1) * s" using k by (intro mult_le_mono1) auto
    then have "s + k * s < length d" using c by (simp add: cut_def)
    with False show ?thesis by linarith
  qed
  note ce = chunk_end [OF c k]
  define z where "z = (if ?last then length d - k * s else s)"
  have z: "z = length (chunk s d k)" "z \<le> length (drop (k * s) d)" "take z (drop (k * s) d) = chunk s d k"
    using lastiff ce by (auto simp: z_def length_chunk chunk_def)
  have szz: "(if int (length d - k * s) \<le> int s then int (length d - k * s) else int s) = int z"
    using lastiff by (simp add: z_def)
  have cp: "buf_copy_n (mkbuf P [] Q) (fm_outgoing f) (int z)
      = (True, mkbuf P (chunk s d k) (drop z Q), mkbuf (pre @ chunk s d k) (drop z (drop (k * s) d)) post)"
  proof -
    have "buf_read_alloc (mkbuf pre (drop (k * s) d) post) (int z) =
        (Some (int (length pre)), mkbuf (pre @ chunk s d k) (drop z (drop (k * s) d)) post)"
      using buf_read_alloc_mkbuf [OF z(2), of pre post] unfolding z(3) .
    moreover have "mem_read (block (mkbuf pre (drop (k * s) d) post)) (length pre) z = chunk s d k"
      using z by (simp add: mem_read_def)
    moreover have "z \<le> length Q" using z(1) PQ(2) by (simp add: length_chunk)
    ultimately show ?thesis
      using PQ(3) z by (simp add: buf_copy_n_def o(1) buf_write_mkbuf)
  qed
  have P4: "4 \<le> length P" using PQ(1) r(2) by linarith
  let ?ty = "if ?last then FRAG_YES_LAST else FRAG_YES_NOTLAST"
  let ?b = "mkbuf (take (length P - 4) P) (piece s d m q k) (drop z Q)"
  have pf: "fragment_prepend_flags (mkbuf P (chunk s d k) (drop z Q)) ?ty q (int k) (int s) = Some ?b"
    using P4 by (simp add: fragment_prepend_flags_def buf_write_prepend_mkbuf piece_def)
  let ?f = "f\<lparr>fm_outgoing := mkbuf (pre @ chunk s d k) (drop z (drop (k * s) d)) post, fm_outgoing_frag_id := int k + 1\<rparr>"
  have "0 < length d - k * s" using ce by linarith
  then have ne: "blen (fm_outgoing f) > 0" by (simp add: o(1) flip: of_nat_mult)
  have lc: "(blen (fm_outgoing f) \<le> int s) = ?last" using lastiff by (simp add: o(1))
  have sel: "(if ?last then blen (fm_outgoing f) else int s) = int z" by (simp add: o(1) z_def)
  have zero: "\<not> ?last \<or> length d - (z + k * s) = 0" unfolding z_def by (cases ?last) simp_all
  have fields: "fm_outgoing_frag_size f = int s" "fm_outgoing_seq_id f = q" "fm_outgoing_frag_id f = int k"
    using f by (auto simp: sending_def)
  have res: "fragment_ready_to_send frame f = Some (Some ?b, ?f)"
    unfolding fragment_ready_to_send_def fragment_outgoing_defined_def Let_def fields lc sel
    using ne init cp pf zero by (simp add: fields)
  have "drop z (drop (k * s) d) = drop (Suc k * s) d"
    using lastiff by (auto simp: z_def)
  moreover have "small (pre @ chunk s d k) (drop z (drop (k * s) d)) post"
    using o(2) z ce by (auto simp: small_def)
  ultimately have "sending s d m q frame (Suc k) ?f"
    using f k by (auto simp: sending_def)
  then show ?thesis using res by auto
qed

lemma drain_spec:
  assumes c: "cut s d m"
  shows "sending s d m q frame k f \<Longrightarrow> m - k \<le> n \<Longrightarrow>
     \<exists>bs f'. frag_drain n frame f = Some (bs, f') \<and> map content bs = map (piece s d m q) [k..<m]
       \<and> \<not> fragment_outgoing_defined f'"
proof (induction n arbitrary: k f)
  case 0
  then have "k = m" by (auto simp: sending_def)
  moreover have "drop (m * s) d = []" using c by (simp add: cut_def)
  ultimately show ?case using 0 by (auto simp: sending_def fragment_outgoing_defined_def)
next
  case (Suc n)
  show ?case
  proof (cases "k < m")
    case True
    obtain b f1 where st: "fragment_ready_to_send frame f = Some (Some b, f1)" "content b = piece s d m q k"
        "sending s d m q frame (Suc k) f1"
      using ready_spec [OF c True Suc.prems(1)] by blast
    have "m - Suc k \<le> n" using Suc.prems(2) by linarith
    then obtain bs f' where "frag_drain n frame f1 = Some (bs, f')" "map content bs = map (piece s d m q) [Suc k..<m]"
        "\<not> fragment_outgoing_defined f'"
      using Suc.IH [OF st(3)] by blast
    with st True show ?thesis by (auto simp: upt_conv_Cons)
  next
    case False
    then have k: "k = m" using Suc.prems by (auto simp: sending_def)
    have "drop (m * s) d = []" using c by (simp add: cut_def)
    then have "\<not> fragment_outgoing_defined f"
      using Suc.prems(1) k by (auto simp: sending_def fragment_outgoing_defined_def)
    then show ?thesis using k by (simp add: fragment_ready_to_send_def)
  qed
qed

lemma mset_map_split: "mset ps = mset (map f xs) \<Longrightarrow> \<exists>ys. mset ys = mset xs \<and> ps = map f ys"
proof (induction ps arbitrary: xs)
  case Nil
  then show ?case by simp
next
  case (Cons p ps)
  then have "p \<in> set (map f xs)" by (metis list.set_intros(1) mset_eq_setD)
  then obtain x where x: "x \<in> set xs" "f x = p" by auto
  then have "mset (map f xs) = add_mset p (mset (map f (remove1 x xs)))"
    by (metis image_mset_add_mset insert_DiffM mset_map mset_remove1 set_mset_mset)
  with Cons.prems have "mset ps = mset (map f (remove1 x xs))" by simp
  then obtain ys where "mset ys = mset (remove1 x xs)" "ps = map f ys" using Cons.IH by blast
  with x show ?case by (intro exI [of _ "x # ys"]) simp
qed

subsection \<open>The round trip\<close>

text \<open>
  C7: A fragmented datagram is put together again, whatever order its fragments arrive in. A
  datagram larger than the dynamic payload size and within 32 fragments is accepted by the
  sender; the first fragment comes back at once and the following ones from the sending loop,
  after which nothing is pending. A receiver to which the sequence id is new, fed the fragments in
  any order, passes on nothing until the last of them and then exactly the datagram's bytes.
\<close>

theorem fragmentation_roundtrip:
  assumes "frag_wf cap f" and "frag_wf cap' g" and "live b"
    and "4 \<le> PAYLOAD_SIZE_DYNAMIC frame" and "PAYLOAD_SIZE_DYNAMIC frame < 65536"
    and "PAYLOAD_SIZE_DYNAMIC frame < blen b"
    and "blen b \<le> optimal_fragment_size (blen b) (PAYLOAD_SIZE_DYNAMIC frame) * MAX_FRAGS"
    and "4 \<le> FRAME_HEADROOM frame" and "FRAME_HEADROOM frame + blen b \<le> cap"
    and "0 \<le> frame_headroom frame' FRAME_HEADROOM_MARKER_FRAGMENT"
    and "frame_headroom frame' FRAME_HEADROOM_MARKER_FRAGMENT + blen b \<le> cap'"
    and "seq_is_new (fm_incoming g) ((fm_outgoing_seq_id f + 1) mod N_SEQ_ID)"
  shows "\<exists>f1 b1 bs f2. fragment_outgoing frame f b = Some (f1, b1)
     \<and> frag_drain (nat MAX_FRAGS) frame f1 = Some (bs, f2) \<and> \<not> fragment_outgoing_defined f2
     \<and> (\<forall>ps. mset ps = mset (map content (b1 # bs)) \<longrightarrow>
          (\<exists>g'. feed now frame' g ps = Some (g', replicate (length bs) [] @ [content b])))"
proof -
  define d where "d = content b"
  define si where "si = optimal_fragment_size (blen b) (PAYLOAD_SIZE_DYNAMIC frame)"
  define s where "s = nat si"
  define q where "q = (fm_outgoing_seq_id f + 1) mod N_SEQ_ID"
  define m where "m = (length d + s - 1) div s"
  have len: "int (length d) = blen b" using live_fields [OF assms(3)] by (simp add: d_def)
  have pos: "0 < blen b" using assms(4,6) by linarith
  note op = optimal_fragment_size_spec [OF assms(4) pos refl si_def]
  have si: "si mod 4 = 0" "0 < si" "si \<le> PAYLOAD_SIZE_DYNAMIC frame" "int s = si"
    using op(1-3) by (auto simp: s_def)
  have "int s mod 4 = 0" using si by simp
  then have "s mod 4 = 0" by presburger
  then have s: "0 < s" "s mod 4 = 0" "s < 65536" using si assms(5) by auto
  have d1: "s < length d" "length d \<le> 32 * s"
    using len si assms(6,7) by (auto simp: si_def [symmetric] MAX_FRAGS_def)
  have cut: "cut s d m"
  proof -
    have "m * s \<le> length d + s - 1" "length d + s - 1 < m * s + s"
      using s(1) by (auto simp: m_def) (metis add.commute dividend_less_div_times)
    then have "length d \<le> m * s" "(m - 1) * s < length d"
      using s(1) d1 by (auto simp: diff_mult_distrib)
    moreover have "m \<le> 32"
    proof -
      have "length d + s - 1 < 33 * s" using d1(2) s(1) by simp
      then have "m < 33" unfolding m_def by (rule less_mult_imp_div_less)
      then show ?thesis by simp
    qed
    moreover have "0 < m" using s(1) d1(1) by (simp add: m_def div_greater_zero_iff)
    ultimately show ?thesis using s by (simp add: cut_def)
  qed
  have q: "0 \<le> q" "q < N_SEQ_ID" by (simp_all add: q_def N_SEQ_ID_def)
  have madd: "modulo_add (fm_outgoing_seq_id f) 1 N_SEQ_ID = Some q"
    using assms(1) unfolding q_def by (intro modulo_add_eq) (auto simp: frag_wf_def N_SEQ_ID_def)
  have o: "live (fm_outgoing f)" "bcap (fm_outgoing f) = cap" "live (fm_outgoing_return f)" "bcap (fm_outgoing_return f) = cap"
    using assms(1) by (auto simp: frag_wf_def)
  obtain p c0 t where rr: "fm_outgoing f = mkbuf p c0 t" "small p c0 t" using live_split [OF o(1)] by blast
  define P where "P = take (nat (FRAME_HEADROOM frame)) (p @ c0 @ t)"
  define Q where "Q = drop (nat (FRAME_HEADROOM frame)) (p @ c0 @ t)"
  have capl: "cap = int (length (p @ c0 @ t))" using rr o(2) by simp
  have init: "buf_init (fm_outgoing f) (FRAME_HEADROOM frame) = (True, mkbuf P [] Q)"
    unfolding rr(1) buf_init_mkbuf P_def Q_def using assms(8,9) pos capl by (auto simp del: take_append drop_append)
  have PQ: "length d \<le> length Q" "small P [] Q"
    using assms(8,9) pos capl rr(2) len by (auto simp: P_def Q_def small_def simp del: take_append drop_append)
  have cp: "buf_copy (mkbuf P [] Q) b = (True, mkbuf P d (drop (length d) Q))"
    using PQ by (simp add: buf_copy_def d_def [symmetric] buf_write_mkbuf)
  let ?f = "f\<lparr>fm_outgoing_frag_size := si, fm_outgoing := mkbuf P d (drop (length d) Q), fm_outgoing_seq_id := q, fm_outgoing_frag_id := 0\<rparr>"
  have sm: "small P d (drop (length d) Q)" using PQ by (auto simp: small_def)
  have snd0: "sending s d m q frame 0 ?f"
  proof -
    have "\<exists>pre post. mkbuf P d (drop (length d) Q) = mkbuf pre d post \<and> small pre d post" using sm by blast
    then show ?thesis using assms(8,9) si d1 len o by (simp add: sending_def)
  qed
  obtain b1 f1 where st: "fragment_ready_to_send frame ?f = Some (Some b1, f1)" "content b1 = piece s d m q 0"
      "sending s d m q frame (Suc 0) f1"
    using ready_spec [OF cut _ snd0] cut by (auto simp: cut_def)
  have out: "fragment_outgoing frame f b = Some (f1, b1)"
    using assms(6,7) pos init cp madd st(1)
    by (simp add: fragment_outgoing_def Let_def si_def [symmetric])
  have "m - Suc 0 \<le> nat MAX_FRAGS" using cut by (auto simp: cut_def MAX_FRAGS_def)
  from drain_spec [OF cut st(3) this] obtain bs f2 where dr: "frag_drain (nat MAX_FRAGS) frame f1 = Some (bs, f2)"
      "map content bs = map (piece s d m q) [Suc 0..<m]" "\<not> fragment_outgoing_defined f2" by blast
  have all: "map content (b1 # bs) = map (piece s d m q) [0..<m]"
    using st(2) dr(2) cut by (simp add: upt_conv_Cons cut_def)
  have lbs: "length bs = m - 1" using dr(2) by (metis length_map length_upt One_nat_def)
  have "expecting frame' cap' s d m q {} g"
  proof -
    have "frag_list_wf cap' (fm_incoming g)" using assms(2) by (simp add: frag_wf_def)
    from get_buf_wf [OF this q] assms(12) show ?thesis
      unfolding expecting_def q_def [symmetric] using assms(2) by auto
  qed
  then have "\<exists>g'. feed now frame' g ps = Some (g', replicate (length bs) [] @ [d])"
    if perm: "mset ps = mset (map content (b1 # bs))" for ps
  proof -
    obtain ks where ks: "mset ks = mset [0..<m]" "ps = map (piece s d m q) ks"
      using mset_map_split perm unfolding all by blast
    then have "set ks = {..<m}" "distinct ks" "length ks = m"
      by (metis atLeast_upt mset_eq_setD, metis distinct_upt mset_eq_imp_distinct_iff, metis diff_zero length_upt size_mset)
    then show ?thesis
      using feed_pieces [OF cut q assms(10) _ \<open>expecting frame' cap' s d m q {} g\<close>, of ks now] assms(11) len cut ks(2) lbs
      by (auto simp: cut_def)
  qed
  then show ?thesis using out dr unfolding d_def by blast
qed

theorem fragmentation_roundtrip_witness:
  "\<exists>f1 b1 bs f2 g'. fragment_outgoing (demo_frame\<lparr>f_link_mtu_dynamic := 357\<rparr>) demo_frag (mkbuf [] (replicate 700 7) []) = Some (f1, b1)
     \<and> frag_drain 32 (demo_frame\<lparr>f_link_mtu_dynamic := 357\<rparr>) f1 = Some (bs, f2)
     \<and> feed 9 demo_frame demo_frag (rev (map content (b1 # bs))) = Some (g', replicate (length bs) [] @ [replicate 700 7])"
proof -
  let ?fr = "demo_frame\<lparr>f_link_mtu_dynamic := 357\<rparr>" and ?b = "mkbuf [] (replicate 700 7) []"
  have sm: "live ?b" "blen ?b = 700" "content ?b = replicate 700 7"
    by (simp_all add: small_def BUF_SIZE_MAX_def)
  have pay: "PAYLOAD_SIZE_DYNAMIC ?fr = 300" by (simp add: demo_frame_def frame_sizes)
  have hr: "FRAME_HEADROOM ?fr = 72"
    by (simp add: FRAME_HEADROOM_def frame_headroom_def Let_def demo_frame_def frame_sizes PAYLOAD_ALIGN_def and_3_int push_bit_eq_mult)
  have opt: "optimal_fragment_size 700 300 = 236"
    by (simp add: optimal_fragment_size_def FRAG_SIZE_ROUND_MASK_def and_m4_int Let_def min_int_def)
  have new: "seq_is_new (fm_incoming demo_frag) ((fm_outgoing_seq_id demo_frag + 1) mod N_SEQ_ID)"
    by (simp add: demo_frag_eq fragment_init_def seq_is_new_def N_SEQ_ID_def modulo_subtract_def)
  show ?thesis
    using fragmentation_roundtrip [OF demo_frag_wf demo_frag_wf sm(1), of ?fr demo_frame 9] pay hr opt sm new
    by (fastforce simp: demo_headroom MAX_FRAGS_def)
qed

end
