(* ===== verification/Inet.thy ===== *)
theory Inet
  imports Buffer
begin

text \<open>
  \<^verbatim>\<open>proto.h\<close> and \<^verbatim>\<open>proto.c\<close>: the layout of Ethernet, IP and TCP headers inside the
  tunnel, the recognition of IPv4 and IPv6 packets, and the Internet checksum.

  A header is the bytes of the packet; its fields are read at their offsets in the packed
  structs. A 16-bit field the code reads without \<open>ntohs\<close> has the value the machine gives it,
  so the operations that do so have the byte order of the machine as their first parameter
  (\<open>big\<close>). \<open>adjust_checksum\<close> is the macro \<open>ADJUST_CHECKSUM\<close>; \<open>ip_checksum\<close> is the full
  computation with its 32-bit accumulator.

  The lemmas say what the checksum operations compute modulo 65535: \<open>nsum\<close> is the sum of the
  16-bit words of a block in the byte order of the machine, whose residue class does not depend
  on that order up to the factor 256. A block verifies exactly when its sum is a positive
  multiple of 65535.
\<close>

subsection \<open>Header layout\<close>

definition IPHDR_SIZE :: int where "IPHDR_SIZE = 20"
definition IPV6HDR_SIZE :: int where "IPV6HDR_SIZE = 40"
definition TCPHDR_SIZE :: int where "TCPHDR_SIZE = 20"
definition UDPHDR_SIZE :: int where "UDPHDR_SIZE = 8"
definition ETHHDR_SIZE :: int where "ETHHDR_SIZE = 14"
definition VLANHDR_SIZE :: int where "VLANHDR_SIZE = 18"

lemmas header_sizes = IPHDR_SIZE_def IPV6HDR_SIZE_def TCPHDR_SIZE_def UDPHDR_SIZE_def
  ETHHDR_SIZE_def VLANHDR_SIZE_def

definition OPENVPN_ETH_P_IPV4 :: u16 where "OPENVPN_ETH_P_IPV4 = 0x0800"
definition OPENVPN_ETH_P_IPV6 :: u16 where "OPENVPN_ETH_P_IPV6 = 0x86DD"
definition OPENVPN_ETH_P_8021Q :: u16 where "OPENVPN_ETH_P_8021Q = 0x8100"
definition OPENVPN_IPPROTO_TCP :: byte where "OPENVPN_IPPROTO_TCP = 6"
definition OPENVPN_IPPROTO_UDP :: byte where "OPENVPN_IPPROTO_UDP = 17"

lemmas inet_consts = OPENVPN_ETH_P_IPV4_def OPENVPN_ETH_P_IPV6_def OPENVPN_ETH_P_8021Q_def
  OPENVPN_IPPROTO_TCP_def OPENVPN_IPPROTO_UDP_def

datatype dev_type = DEV_TYPE_UNDEF | DEV_TYPE_NULL | DEV_TYPE_TUN | DEV_TYPE_TAP

definition IPH_GET_VER :: "byte \<Rightarrow> int" where
  "IPH_GET_VER v = uint (drop_bit 4 v AND 0x0F)"

definition IPH_GET_LEN :: "byte \<Rightarrow> int" where
  "IPH_GET_LEN v = push_bit 2 (uint (v AND 0x0F))"

definition TCPH_GET_DOFF :: "byte \<Rightarrow> int" where
  "TCPH_GET_DOFF d = drop_bit 2 (uint (d AND 0xF0))"

text \<open>The byte and the network-order word at an offset from \<open>BPTR\<close>.\<close>

definition byte_at :: "buffer \<Rightarrow> int \<Rightarrow> byte" where
  "byte_at b i = block b ! nat (boff b + i)"

definition net16_at :: "buffer \<Rightarrow> int \<Rightarrow> u16" where
  "net16_at b i = un_be16 [byte_at b i, byte_at b (i + 1)]"

subsection \<open>Recognising the packet\<close>

definition is_ipv_X :: "dev_type \<Rightarrow> buffer \<Rightarrow> int \<Rightarrow> bool \<times> buffer" where
  "is_ipv_X tunnel_type b ip_ver =
     (let version_at = (\<lambda>off. if IPH_GET_VER (byte_at b off) = ip_ver then buf_advance b off else (False, b));
          ether = (if ip_ver = 6 then OPENVPN_ETH_P_IPV6 else OPENVPN_ETH_P_IPV4)
      in case tunnel_type of
           DEV_TYPE_TUN \<Rightarrow> if buf_len b < IPHDR_SIZE then (False, b) else version_at 0
         | DEV_TYPE_TAP \<Rightarrow>
             if buf_len b < ETHHDR_SIZE + IPHDR_SIZE then (False, b)
             else if net16_at b 12 = OPENVPN_ETH_P_8021Q
             then (if buf_len b < ETHHDR_SIZE + IPHDR_SIZE then (False, b)
                   else if net16_at b 16 \<noteq> ether then (False, b) else version_at VLANHDR_SIZE)
             else if net16_at b 12 \<noteq> ether then (False, b) else version_at ETHHDR_SIZE
         | _ \<Rightarrow> (False, b))"

definition is_ipv4 :: "dev_type \<Rightarrow> buffer \<Rightarrow> bool \<times> buffer" where
  "is_ipv4 tunnel_type b = is_ipv_X tunnel_type b 4"

definition is_ipv6 :: "dev_type \<Rightarrow> buffer \<Rightarrow> bool \<times> buffer" where
  "is_ipv6 tunnel_type b = is_ipv_X tunnel_type b 6"

text \<open>The version (-1 when it is not an IP packet) and the offset of its header.\<close>

definition get_tun_ip_ver :: "dev_type \<Rightarrow> buffer \<Rightarrow> int \<Rightarrow> int \<times> int" where
  "get_tun_ip_ver tunnel_type b off0 =
     (case tunnel_type of
        DEV_TYPE_TUN \<Rightarrow>
          (if buf_len b \<ge> IPHDR_SIZE then IPH_GET_VER (byte_at b 0) else -1, 0)
      | DEV_TYPE_TAP \<Rightarrow>
          (if buf_len b \<ge> ETHHDR_SIZE
           then (if net16_at b 12 = OPENVPN_ETH_P_IPV6 then 6
                 else if net16_at b 12 = OPENVPN_ETH_P_IPV4 then 4 else -1)
           else -1, ETHHDR_SIZE)
      | _ \<Rightarrow> (-1, off0))"

subsection \<open>Words in the byte order of the machine\<close>

definition native16 :: "bool \<Rightarrow> byte \<Rightarrow> byte \<Rightarrow> u16" where
  "native16 big x y = un_be16 (if big then [x, y] else [y, x])"

definition native_bytes16 :: "bool \<Rightarrow> u16 \<Rightarrow> byte list" where
  "native_bytes16 big w = (if big then be16 w else rev (be16 w))"

definition htons :: "bool \<Rightarrow> u16 \<Rightarrow> u16" where
  "htons big w = native16 big (be16 w ! 0) (be16 w ! 1)"

subsection \<open>Checksums\<close>

definition adjust_checksum :: "int \<Rightarrow> u16 \<Rightarrow> u16" where
  "adjust_checksum acc cksum =
     (let a = acc + uint cksum;
          neg = a < 0;
          a1 = (if neg then - a else a);
          a2 = drop_bit 16 a1 + (a1 AND 0xffff);
          a3 = a2 + drop_bit 16 a2
      in if neg then word_of_int (NOT a3) else word_of_int a3)"

fun sum_words :: "byte list \<Rightarrow> u32 \<Rightarrow> u32" where
  "sum_words (x # y # r) s =
     sum_words r (s + ucast ((push_bit 8 (ucast x) AND 0xFF00) + (ucast y AND 0xFF) :: u16))"
| "sum_words [x] s = s + ucast (push_bit 8 (ucast x) AND 0xFF00 :: u16)"
| "sum_words [] s = s"

function fold_carries :: "u32 \<Rightarrow> u32" where
  "fold_carries s =
     (if drop_bit 16 s \<noteq> 0 then fold_carries ((s AND 0xFFFF) + drop_bit 16 s) else s)"
  by auto

datatype sa_family = AF_INET | AF_INET6

definition ip_checksum_sum :: "sa_family \<Rightarrow> byte list \<Rightarrow> byte list \<Rightarrow> byte list \<Rightarrow> byte \<Rightarrow> u32" where
  "ip_checksum_sum af payload src_addr dest_addr proto =
     (let addr_len = (if af = AF_INET then 4 else 16)
      in sum_words (take addr_len dest_addr) (sum_words (take addr_len src_addr) (sum_words payload 0))
         + ucast (of_nat (length payload) :: u16) + ucast proto)"

lemma split32:
  "uint ((s :: u32) AND 0xFFFF) = uint s mod 65536" "uint (drop_bit 16 (s :: u32)) = uint s div 65536"
proof -
  have "uint (s AND 0xFFFF) = uint s AND 0xFFFF" by (simp add: uint_and)
  also have "\<dots> = uint s AND mask 16" by (simp add: mask_eq_exp_minus_1)
  also have "\<dots> = uint s mod 65536" by (simp flip: take_bit_eq_mask add: take_bit_eq_mod)
  finally show "uint (s AND 0xFFFF) = uint s mod 65536" .
  show "uint (drop_bit 16 s) = uint s div 65536"
    using uint_lt2p [of s]
    by (simp add: unsigned_drop_bit_eq) (simp add: drop_bit_eq_div take_bit_eq_mod)
qed

lemma split65536:
  fixes a :: int
  obtains q r where "a = 65536 * q + r" "0 \<le> r" "r < 65536" "a div 65536 = q" "a mod 65536 = r"
  by (rule that [of "a div 65536" "a mod 65536"]) simp_all

lemma fold65536:
  fixes a :: int
  shows "65535 dvd (a mod 65536 + a div 65536) - a"
    and "0 \<le> a \<Longrightarrow> a mod 65536 + a div 65536 \<le> a"
    and "65536 \<le> a \<Longrightarrow> a mod 65536 + a div 65536 < a"
proof -
  obtain q r where a: "a = 65536 * q + r" "0 \<le> r" "r < 65536" "a div 65536 = q" "a mod 65536 = r"
    by (rule split65536)
  have "(r + q) - (65536 * q + r) = 65535 * (- q)" by simp
  then show "65535 dvd (a mod 65536 + a div 65536) - a"
    unfolding a(4,5) unfolding a(1) by (metis dvd_triv_left)
  show "a mod 65536 + a div 65536 \<le> a" if "0 \<le> a"
    unfolding a(4,5) using that a(1-3) pos_imp_zdiv_nonneg_iff [of 65536 a] a(4) by simp
  show "a mod 65536 + a div 65536 < a" if "65536 \<le> a"
    unfolding a(4,5) using that a(1-3) by linarith
qed

lemma div65536_0: "(0 :: int) \<le> a \<Longrightarrow> a div 65536 = 0 \<longleftrightarrow> a < 65536"
  using zdiv_mono1 [of 65536 a 65536] by (auto simp: not_less div_pos_pos_trivial)

lemma uint_folded:
  "uint ((s AND 0xFFFF) + drop_bit 16 (s :: u32)) = uint s mod 65536 + uint s div 65536"
proof -
  have "uint s < 2 ^ 32" using uint_lt2p [of s] by simp
  then have "uint s mod 65536 + uint s div 65536 < 2 ^ 32" using fold65536(2) [of "uint s"] by simp
  then show ?thesis by (simp add: uint_add32 split32)
qed

termination fold_carries
proof (relation "measure unat")
  fix s :: u32 assume "drop_bit 16 s \<noteq> 0"
  then have "uint s div 65536 \<noteq> 0" by (metis split32(2) uint_0_iff)
  then have "65536 \<le> uint s" using div65536_0 [of "uint s"] by simp
  then have "uint s mod 65536 + uint s div 65536 < uint s" by (rule fold65536(3))
  then have "(s AND 0xFFFF) + drop_bit 16 s < s"
    by (simp add: word_less_def uint_folded)
  then show "((s AND 0xFFFF) + drop_bit 16 s, s) \<in> measure unat"
    by (simp add: word_less_nat_alt)
qed simp

declare fold_carries.simps [simp del]

definition ip_checksum :: "sa_family \<Rightarrow> byte list \<Rightarrow> byte list \<Rightarrow> byte list \<Rightarrow> byte \<Rightarrow> u16" where
  "ip_checksum af payload src_addr dest_addr proto =
     NOT (ucast (fold_carries (ip_checksum_sum af payload src_addr dest_addr proto)))"

subsection \<open>What they compute\<close>

lemma uint_un_be16: "uint (un_be16 [x, y]) = 256 * uint x + uint y"
proof -
  have "un_be16 [x, y] = push_bit 8 (ucast x) + ucast y"
    unfolding un_be16_def
    by (subst disjunctive_add) (auto simp: bit_simps dest: bit_imp_le_length)
  moreover have "uint (push_bit 8 (ucast x) :: u16) = 256 * uint x"
  proof -
    have "uint x < 256" using uint_lt2p [of x] by simp
    then show ?thesis
      by (simp only: unsigned_push_bit_eq unsigned_ucast_eq) (simp add: take_bit_eq_mod push_bit_eq_mult)
  qed
  moreover have "uint (ucast y :: u16) = uint y"
    using uint_lt2p [of y] by (simp add: unsigned_ucast_eq take_bit_eq_mod)
  moreover have "uint x < 256" "uint y < 256"
    using uint_lt2p [of x] uint_lt2p [of y] by simp_all
  ultimately show ?thesis by (simp add: uint_plus_if')
qed

lemma be16_un_be16: "be16 (un_be16 [x, y]) = [x, y]"
proof -
  have "ucast (drop_bit 8 (un_be16 [x, y])) = x"
  proof (rule bit_word_eqI)
    fix n assume "n < LENGTH(8)"
    moreover have "\<not> bit y (8 + n)" by (auto dest: bit_imp_le_length)
    ultimately show "bit (ucast (drop_bit 8 (un_be16 [x, y])) :: byte) n = bit x n"
      by (simp add: un_be16_def bit_simps)
  qed
  moreover have "ucast (un_be16 [x, y]) = y"
    by (rule bit_word_eqI) (auto simp: un_be16_def bit_simps)
  ultimately show ?thesis by (simp add: be16_def)
qed

lemma uint_ucast16: "uint (ucast (w :: u16) :: u32) = uint w"
  using uint_lt2p [of w] by (simp add: unsigned_ucast_eq take_bit_eq_mod)

lemma uint_byte_less: "uint (x :: byte) < 256"
  using uint_lt2p [of x] by simp

lemma uint_native16:
  "uint (native16 big x y) = (if big then 256 * uint x + uint y else 256 * uint y + uint x)"
  by (simp add: native16_def uint_un_be16)

lemma length_native_bytes16 [simp]: "length (native_bytes16 big w) = 2"
  by (simp add: native_bytes16_def)

lemma native16_bytes: "native16 big (native_bytes16 big w ! 0) (native_bytes16 big w ! Suc 0) = w"
  using un_be16_be16 [of w]
  by (auto simp: native16_def native_bytes16_def be16_def)

fun nsum :: "bool \<Rightarrow> byte list \<Rightarrow> int" where
  "nsum big (x # y # r) = uint (native16 big x y) + nsum big r"
| "nsum big [x] = uint (native16 big x 0)"
| "nsum big [] = 0"

lemma nsum_nonneg: "0 \<le> nsum big c"
  by (induction big c rule: nsum.induct) simp_all

lemma nsum_append: "even (length xs) \<Longrightarrow> nsum big (xs @ ys) = nsum big xs + nsum big ys"
  by (induction big xs rule: nsum.induct) simp_all

lemma nsum_swap: "65535 dvd nsum False c - 256 * nsum True c"
proof (induction "True" c rule: nsum.induct)
  case (1 x y r)
  then obtain k where "nsum False r - 256 * nsum True r = 65535 * k" by (auto elim: dvdE)
  then have "nsum False (x # y # r) - 256 * nsum True (x # y # r) = 65535 * (k - uint x)"
    by (simp add: uint_native16)
  then show ?case by (metis dvd_triv_left)
next
  case (2 x)
  have "nsum False [x] - 256 * nsum True [x] = 65535 * (- uint x)"
    by (simp add: uint_native16)
  then show ?case by (metis dvd_triv_left)
qed simp

text \<open>A change that the machine's own words do not show modulo 65535 does not show in network
  order either.\<close>

lemma mult_256_cancel: "65535 dvd 256 * (a :: int) \<longleftrightarrow> 65535 dvd a"
proof
  assume "65535 dvd 256 * a"
  then have "65535 dvd 256 * (256 * a) - 65535 * a" by (rule dvd_diff [OF dvd_mult dvd_triv_left])
  moreover have "256 * (256 * a) - 65535 * a = a" by simp
  ultimately show "65535 dvd a" by metis
next
  assume "65535 dvd a"
  then show "65535 dvd 256 * a" by (rule dvd_mult)
qed

lemma nsum_same_any_order:
  assumes "65535 dvd nsum big c - nsum big d"
  shows "65535 dvd nsum True c - nsum True d"
proof (cases big)
  case False
  have "256 * (nsum True c - nsum True d)
        = (nsum False c - nsum False d) - (nsum False c - 256 * nsum True c)
          + (nsum False d - 256 * nsum True d)"
    by (simp add: algebra_simps)
  moreover have "65535 dvd nsum False c - nsum False d" using assms False by simp
  ultimately have "65535 dvd 256 * (nsum True c - nsum True d)"
    using nsum_swap [of c] nsum_swap [of d] by (metis dvd_add dvd_diff)
  then show ?thesis by (simp only: mult_256_cancel)
qed (use assms in simp)

lemma nsum_write_word:
  assumes "even i" "Suc i < length c"
  shows "nsum big (mem_write c i [x, y])
       = nsum big c - uint (native16 big (c ! i) (c ! Suc i)) + uint (native16 big x y)"
proof -
  have "c = take i c @ (c ! i # c ! Suc i # drop (Suc (Suc i)) c)"
    using assms by (simp add: Cons_nth_drop_Suc)
  then have "nsum big c = nsum big (take i c) + uint (native16 big (c ! i) (c ! Suc i))
                          + nsum big (drop (Suc (Suc i)) c)"
    using assms nsum_append [of "take i c" big "c ! i # c ! Suc i # drop (Suc (Suc i)) c"]
    by simp
  moreover have "nsum big (mem_write c i [x, y])
                 = nsum big (take i c) + uint (native16 big x y) + nsum big (drop (Suc (Suc i)) c)"
    using assms nsum_append [of "take i c" big "x # y # drop (Suc (Suc i)) c"]
    by (simp add: mem_write_def)
  ultimately show ?thesis by simp
qed

text \<open>\<open>ADJUST_CHECKSUM\<close> adds its first argument modulo 65535.\<close>

lemma fold_int_mod:
  assumes "0 \<le> (a :: int)" "a < 2 ^ 31"
  defines "f \<equiv> a mod 65536 + a div 65536"
  shows "65535 dvd (f + f div 65536) mod 65536 - a"
proof -
  have hi: "0 \<le> a div 65536" "a div 65536 \<le> 32767"
    using assms zdiv_mono1 [of a "2 ^ 31 - 1" 65536] by simp_all
  have lo: "0 \<le> a mod 65536" "a mod 65536 \<le> 65535"
    using pos_mod_bound [of 65536 a] by simp_all
  have fa: "65535 dvd f - a" unfolding f_def by (rule fold65536)
  show ?thesis
  proof (cases "f < 65536")
    case True
    then have "f div 65536 = 0" "f mod 65536 = f" using hi lo by (simp_all add: f_def)
    with fa show ?thesis by simp
  next
    case False
    have "f div 65536 = 1"
      using False hi lo by (intro int_div_pos_eq [where r = "f - 65536"]) (simp_all add: f_def)
    moreover have "(f + 1) mod 65536 = f - 65535"
      using False hi lo by (intro int_mod_pos_eq [where q = 1]) (simp_all add: f_def)
    ultimately have "(f + f div 65536) mod 65536 - a = (f - a) - 65535" by simp
    then show ?thesis using dvd_diff [OF fa dvd_refl] by metis
  qed
qed

lemma not_mod_65536: "(- x - 1) mod 65536 = 65535 - (x :: int) mod 65536"
proof -
  obtain q r where x: "x = 65536 * q + r" "0 \<le> r" "r < 65536" "x div 65536 = q" "x mod 65536 = r"
    by (rule split65536)
  have "- x - 1 = 65536 * (- q - 1) + (65535 - r)" using x(1) by simp
  moreover have "0 \<le> 65535 - r" "65535 - r < 65536" using x by simp_all
  ultimately show ?thesis unfolding x(5) by (rule int_mod_pos_eq)
qed

lemma adjust_checksum_mod:
  assumes "\<bar>acc\<bar> < 2 ^ 30"
  shows "65535 dvd uint (adjust_checksum acc c) - (acc + uint c)"
proof -
  have c: "0 \<le> uint c" "uint c < 65536" using uint_lt2p [of c] by simp_all
  define a where "a = \<bar>acc + uint c\<bar>"
  define f where "f = a mod 65536 + a div 65536"
  have a: "0 \<le> a" "a < 2 ^ 31" using assms c abs_triangle_ineq [of acc "uint c"] unfolding a_def by simp_all
  define v where "v = (f + f div 65536) mod 65536"
  have v: "65535 dvd v - a" using fold_int_mod [OF a] by (simp add: f_def v_def)
  have unfolded: "adjust_checksum acc c
      = (if acc + uint c < 0 then word_of_int (NOT (f + f div 65536)) else word_of_int (f + f div 65536))"
  proof -
    have "x AND 0xffff = x mod 65536" for x :: int
      using take_bit_eq_mask [of 16 x] by (simp add: mask_eq_exp_minus_1 take_bit_eq_mod)
    then show ?thesis
      by (simp add: adjust_checksum_def Let_def a_def f_def drop_bit_eq_div add.commute)
  qed
  show ?thesis
  proof (cases "acc + uint c < 0")
    case True
    then have "uint (adjust_checksum acc c) = (- (f + f div 65536) - 1) mod 65536"
      by (simp only: unfolded if_True uint_word_of_int not_int_def) simp
    also have "\<dots> = 65535 - v"
      unfolding v_def by (rule not_mod_65536)
    finally have "uint (adjust_checksum acc c) - (acc + uint c) = 65535 - (v - a)"
      using True by (simp add: a_def)
    then show ?thesis using v by (metis dvd_diff dvd_refl)
  next
    case False
    then have "uint (adjust_checksum acc c) = v"
      by (simp only: unfolded if_False uint_word_of_int v_def) simp
    then show ?thesis using v False by (simp add: a_def)
  qed
qed

text \<open>\<open>ip_checksum\<close> of a block that holds its checksum is zero exactly when the sum of the words
  is a positive multiple of 65535.\<close>

lemma fold_carries_mod:
  "65535 dvd uint (fold_carries s) - uint s" "uint (fold_carries s) < 65536"
  "fold_carries s = 0 \<longleftrightarrow> s = 0"
proof (induction s rule: fold_carries.induct)
  case (1 s)
  have eq: "fold_carries s = (if drop_bit 16 s \<noteq> 0 then fold_carries ((s AND 0xFFFF) + drop_bit 16 s) else s)"
    by (rule fold_carries.simps)
  have z: "drop_bit 16 s = 0 \<longleftrightarrow> uint s < 65536"
    using div65536_0 [of "uint s"] by (metis split32(2) uint_0_iff uint_ge_0)
  { case 1
    show ?case
    proof (cases "drop_bit 16 s = 0")
      case False
      have 1: "65535 dvd (uint s mod 65536 + uint s div 65536) - uint s" by (rule fold65536)
      have 2: "65535 dvd uint (fold_carries s) - (uint s mod 65536 + uint s div 65536)"
        using "1.IH" (1) [OF False] False by (simp add: eq uint_folded)
      show ?thesis using dvd_add [OF 2 1] by simp
    qed (simp add: eq)
  next
    case 2
    show ?case
    proof (cases "drop_bit 16 s = 0")
      case True
      then show ?thesis using z by (simp add: eq)
    qed (use "1.IH" (2) in \<open>simp add: eq\<close>)
  next
    case 3
    show ?case
    proof (cases "drop_bit 16 s = 0")
      case False
      have "(s AND 0xFFFF) + drop_bit 16 s \<noteq> 0"
      proof
        assume "(s AND 0xFFFF) + drop_bit 16 s = 0"
        then have "uint s mod 65536 + uint s div 65536 = 0" by (metis uint_folded uint_0_eq)
        then have "uint s div 65536 = 0" using pos_imp_zdiv_nonneg_iff [of 65536 "uint s"]
          pos_mod_sign [of 65536 "uint s"] by simp
        then show False using False z div65536_0 [of "uint s"] by simp
      qed
      then show ?thesis using "1.IH" (3) [OF False] False by (auto simp: eq)
    qed (simp add: eq) }
qed

lemma low_byte: "ucast (z :: byte) AND (0xFF :: u16) = ucast z"
proof -
  have "take_bit 8 (ucast z :: u16) = ucast z"
    by (rule bit_word_eqI) (auto simp: bit_simps dest: bit_imp_le_length)
  then show ?thesis using take_bit_eq_mask [of 8 "ucast z :: u16"] by (simp add: mask_eq_exp_minus_1)
qed

lemma word_of_pair:
  "(push_bit 8 (ucast x) AND (0xFF00 :: u16)) + (ucast y AND 0xFF) = un_be16 [x, y]"
proof -
  have "push_bit 8 (ucast x) AND (0xFF00 :: u16) = push_bit 8 (ucast x)"
    using low_byte [of x] push_bit_and [where n = 8 and a = "ucast x :: u16" and b = "0xFF"] by simp
  then show ?thesis unfolding un_be16_def low_byte
    by (simp, subst disjunctive_add) (auto simp: bit_simps dest: bit_imp_le_length)
qed

lemma uint_sum_words:
  "uint s + nsum True c < 2 ^ 32 \<Longrightarrow> uint (sum_words c s) = uint s + nsum True c"
proof (induction c s rule: sum_words.induct)
  case (1 x y r s)
  have "uint s + uint (un_be16 [x, y]) < 2 ^ 32"
    using "1.prems" nsum_nonneg [of True r] by (simp add: native16_def)
  then have "uint (s + ucast (un_be16 [x, y])) = uint s + uint (un_be16 [x, y])"
    by (simp add: uint_add32 uint_ucast16)
  then show ?case using 1 by (simp only: sum_words.simps word_of_pair) (simp add: native16_def)
next
  case (2 x s)
  then show ?case
    using word_of_pair [of x 0] by (simp add: native16_def uint_add32 uint_ucast16)
qed simp

text \<open>The sum of a segment and its pseudo header, and the condition under which it verifies.\<close>

definition pseudo_sum :: "sa_family \<Rightarrow> byte list \<Rightarrow> byte list \<Rightarrow> byte list \<Rightarrow> byte \<Rightarrow> int" where
  "pseudo_sum af payload src_addr dest_addr proto =
     (let n = (if af = AF_INET then 4 else 16)
      in nsum True payload + nsum True (take n src_addr) + nsum True (take n dest_addr)
         + int (length payload) + uint proto)"

lemma uint_u16_less: "uint (w :: u16) < 65536"
  using uint_lt2p [of w] by simp

lemma nsum_bound: "nsum big c \<le> 32768 * int (length c) + 32768"
proof (induction big c rule: nsum.induct)
  case (1 big x y r)
  then show ?case using uint_u16_less [of "native16 big x y"] by simp
next
  case (2 big x)
  then show ?case using uint_u16_less [of "native16 big x 0"] by simp
qed simp

lemma uint_ip_checksum_sum:
  assumes "length payload < 65536"
  shows "uint (ip_checksum_sum af payload src dst proto) = pseudo_sum af payload src dst proto"
proof -
  define n where "n = (if af = AF_INET then 4 else 16 :: nat)"
  define A where "A = nsum True payload"
  define B where "B = nsum True (take n src)"
  define C where "C = nsum True (take n dst)"
  have n: "n \<le> 16" by (simp add: n_def)
  have bounds: "0 \<le> A" "A \<le> 32768 * 65536" "0 \<le> B" "B \<le> 32768 * 17" "0 \<le> C" "C \<le> 32768 * 17"
    using assms n nsum_bound [of True payload] nsum_bound [of True "take n src"]
      nsum_bound [of True "take n dst"] nsum_nonneg
    by (simp_all add: A_def B_def C_def min_def split: if_splits)
  have "uint (sum_words payload 0) = A"
    using bounds by (simp add: uint_sum_words A_def)
  then have "uint (sum_words (take n src) (sum_words payload 0)) = A + B"
    using bounds by (simp add: uint_sum_words flip: B_def)
  then have sums: "uint (sum_words (take n dst) (sum_words (take n src) (sum_words payload 0))) = A + B + C"
    using bounds by (simp add: uint_sum_words flip: C_def)
  have len: "uint (ucast (of_nat (length payload) :: u16) :: u32) = int (length payload)"
  proof -
    have "take_bit 16 (length payload) = length payload"
      using assms by (intro take_bit_nat_eq_self) simp
    then have "uint (of_nat (length payload) :: u16) = int (length payload)"
      by (simp add: unsigned_of_nat)
    then show ?thesis by (simp only: uint_ucast16)
  qed
  have proto: "uint (ucast proto :: u32) = uint proto" "uint proto < 256"
    using uint_byte_less [of proto] by (simp_all add: unsigned_ucast_eq take_bit_eq_mod)
  show ?thesis
    using bounds assms proto
    by (simp add: ip_checksum_sum_def pseudo_sum_def Let_def uint_add32 sums len
             flip: n_def A_def B_def C_def)
qed

lemma all_ones_iff:
  assumes "uint (f :: u32) < 65536" "f = 0 \<longleftrightarrow> s = 0"
  shows "uint f = 65535 \<longleftrightarrow> (s :: u32) \<noteq> 0 \<and> 65535 dvd uint f"
proof
  assume "uint f = 65535"
  then show "s \<noteq> 0 \<and> 65535 dvd uint f" using assms(2) by auto
next
  assume a: "s \<noteq> 0 \<and> 65535 dvd uint f"
  then obtain k where k: "uint f = 65535 * k" by blast
  have "uint f \<noteq> 0" using a assms(2) by (simp add: uint_0_iff)
  then have "0 < uint f" using uint_ge_0 [of f] by linarith
  then have "k = 1" using k assms(1) by simp
  then show "uint f = 65535" using k by simp
qed

lemma dvd_of_diff: "65535 dvd x - y \<Longrightarrow> 65535 dvd (x :: int) \<longleftrightarrow> 65535 dvd y"
  by (metis dvd_diff_right_iff dvd_diff_left_iff)

lemma ip_checksum_zero_iff:
  assumes "length payload < 65536"
  shows "ip_checksum af payload src dst proto = 0
     \<longleftrightarrow> 0 < pseudo_sum af payload src dst proto \<and> 65535 dvd pseudo_sum af payload src dst proto"
proof -
  define s where "s = ip_checksum_sum af payload src dst proto"
  define f where "f = fold_carries s"
  have s: "uint s = pseudo_sum af payload src dst proto"
    unfolding s_def using assms by (rule uint_ip_checksum_sum)
  have f: "65535 dvd uint f - uint s" "uint f < 65536" "f = 0 \<longleftrightarrow> s = 0"
    unfolding f_def by (rule fold_carries_mod)+
  have "ip_checksum af payload src dst proto = 0 \<longleftrightarrow> (ucast f :: u16) = - 1"
    unfolding ip_checksum_def f_def s_def by (metis bit.compl_zero bit.double_compl)
  also have "\<dots> \<longleftrightarrow> uint f = 65535"
    using f(2) by (simp add: word_uint_eq_iff unsigned_ucast_eq take_bit_eq_mod
      unsigned_minus_1_eq_mask mask_eq_exp_minus_1)
  also have "\<dots> \<longleftrightarrow> s \<noteq> 0 \<and> 65535 dvd uint f" by (rule all_ones_iff [OF f(2,3)])
  also have "65535 dvd uint f \<longleftrightarrow> 65535 dvd uint s" using f(1) by (rule dvd_of_diff)
  also have "s \<noteq> 0 \<longleftrightarrow> 0 < uint s" by (simp add: word_neq_0_conv word_less_def)
  finally show ?thesis by (simp add: s)
qed

end
