(* ===== verification/Mss.thy ===== *)
theory Mss
  imports Inet
begin

text \<open>
  \<^verbatim>\<open>mss.c\<close>: lowering the maximum segment size announced in the TCP SYN packets that pass
  through the tunnel.

  \<open>mss_opts\<close> is the loop over the TCP options: \<open>pos\<close> is \<open>opt\<close>, \<open>olen\<close> the bytes left, and the
  segment is the list of its bytes. \<open>mss_clamp\<close> is the body for an MSS option, with the update
  of the TCP checksum at offset 16. \<open>mss_fixup_ipv4\<close> and \<open>mss_fixup_ipv6\<close> find the segment; the
  copy of the buffer struct they make shares the block, so their result is the buffer with the
  block the copy leaves.

  \<open>mss_positions\<close> lists the MSS options the loop visits. The lemmas say that the loop changes
  nothing but their values and the checksum, that every value becomes the minimum of itself and
  the limit, and that the sum of the segment is kept modulo 65535 when the options lie at even
  offsets; \<open>mss_odd_option_breaks_checksum\<close> is a packet with an option at an odd offset, for
  which the update of the checksum is wrong.
\<close>

definition TCPOPT_EOL :: byte where "TCPOPT_EOL = 0"
definition TCPOPT_NOP :: byte where "TCPOPT_NOP = 1"
definition TCPOPT_MAXSEG :: byte where "TCPOPT_MAXSEG = 2"
definition TCPOLEN_MAXSEG :: nat where "TCPOLEN_MAXSEG = 4"
definition TCPH_SYN_MASK :: byte where "TCPH_SYN_MASK = 2"
definition IP_OFFMASK :: u16 where "IP_OFFMASK = 0x1fff"

lemmas mss_consts = TCPOPT_EOL_def TCPOPT_NOP_def TCPOPT_MAXSEG_def TCPOLEN_MAXSEG_def
  TCPH_SYN_MASK_def IP_OFFMASK_def

subsection \<open>The loop over the options\<close>

definition mss_value :: "byte list \<Rightarrow> nat \<Rightarrow> u16" where
  "mss_value c pos = un_be16 [c ! (pos + 2), c ! (pos + 3)]"

definition mss_clamp :: "bool \<Rightarrow> u16 \<Rightarrow> nat \<Rightarrow> byte list \<Rightarrow> byte list" where
  "mss_clamp big maxmss pos c =
     (let mssval = mss_value c pos
      in if mssval > maxmss
         then let c1 = mem_write c (pos + 2) (be16 maxmss);
                  accumulate = uint (htons big mssval) - uint (htons big maxmss)
              in mem_write c1 16 (native_bytes16 big (adjust_checksum accumulate (native16 big (c1 ! 16) (c1 ! 17))))
         else c)"

function mss_opts :: "bool \<Rightarrow> u16 \<Rightarrow> nat \<Rightarrow> nat \<Rightarrow> byte list \<Rightarrow> byte list" where
  "mss_opts big maxmss olen pos c =
     (if olen \<le> 1 then c
      else if c ! pos = TCPOPT_EOL then c
      else if c ! pos = TCPOPT_NOP then mss_opts big maxmss (olen - 1) (pos + 1) c
      else let optlen = unat (c ! (pos + 1))
           in if optlen = 0 \<or> optlen > olen then c
              else mss_opts big maxmss (olen - optlen) (pos + optlen)
                     (if c ! pos = TCPOPT_MAXSEG \<and> optlen = TCPOLEN_MAXSEG
                      then mss_clamp big maxmss pos c else c))"
  by pat_completeness auto

termination mss_opts
  by (relation "measure (\<lambda>(big, maxmss, olen, pos, c). olen)") auto

function mss_positions :: "nat \<Rightarrow> nat \<Rightarrow> byte list \<Rightarrow> nat list" where
  "mss_positions olen pos c =
     (if olen \<le> 1 then []
      else if c ! pos = TCPOPT_EOL then []
      else if c ! pos = TCPOPT_NOP then mss_positions (olen - 1) (pos + 1) c
      else let optlen = unat (c ! (pos + 1))
           in if optlen = 0 \<or> optlen > olen then []
              else (if c ! pos = TCPOPT_MAXSEG \<and> optlen = TCPOLEN_MAXSEG then [pos] else [])
                   @ mss_positions (olen - optlen) (pos + optlen) c)"
  by pat_completeness auto

termination mss_positions
  by (relation "measure (\<lambda>(olen, pos, c). olen)") auto

declare mss_opts.simps [simp del] mss_positions.simps [simp del]

subsection \<open>Finding the segment\<close>

definition mss_segment :: "bool \<Rightarrow> u16 \<Rightarrow> byte list \<Rightarrow> byte list" where
  "mss_segment big maxmss c =
     (let hlen = TCPH_GET_DOFF (c ! 12)
      in if hlen \<le> TCPHDR_SIZE \<or> hlen > int (length c) then c
         else mss_opts big maxmss (nat (hlen - TCPHDR_SIZE)) (nat TCPHDR_SIZE) c)"

definition mss_fixup_dowork :: "bool \<Rightarrow> buffer \<Rightarrow> u16 \<Rightarrow> buffer" where
  "mss_fixup_dowork big b maxmss =
     (if buf_len b < TCPHDR_SIZE then b
      else poke b (boff b) (mss_segment big maxmss (content b)))"

definition mss_fixup_ipv4 :: "bool \<Rightarrow> buffer \<Rightarrow> int \<Rightarrow> buffer" where
  "mss_fixup_ipv4 big b maxmss =
     (if buf_len b < IPHDR_SIZE then b
      else let hlen = IPH_GET_LEN (byte_at b 0)
           in if byte_at b 9 = OPENVPN_IPPROTO_TCP \<and> uint (net16_at b 2) = buf_len b
                 \<and> net16_at b 6 AND IP_OFFMASK = 0 \<and> hlen \<le> buf_len b
                 \<and> buf_len b - hlen \<ge> TCPHDR_SIZE
              then (case buf_advance b hlen of
                      (True, newbuf) \<Rightarrow>
                        if byte_at newbuf 13 AND TCPH_SYN_MASK \<noteq> 0
                        then b\<lparr>bdata := bdata (mss_fixup_dowork big newbuf (word_of_int maxmss))\<rparr>
                        else b
                    | (False, _) \<Rightarrow> b)
              else b)"

definition mss_fixup_ipv6 :: "bool \<Rightarrow> buffer \<Rightarrow> int \<Rightarrow> buffer" where
  "mss_fixup_ipv6 big b maxmss =
     (if buf_len b < IPV6HDR_SIZE then b
      else if buf_len b \<noteq> uint (net16_at b 4) + 40 then b
      else if byte_at b 6 \<noteq> OPENVPN_IPPROTO_TCP then b
      else (case buf_advance b 40 of
              (True, newbuf) \<Rightarrow>
                if buf_len newbuf \<ge> TCPHDR_SIZE \<and> byte_at newbuf 13 AND TCPH_SYN_MASK \<noteq> 0
                then b\<lparr>bdata := bdata (mss_fixup_dowork big newbuf
                                        (word_of_int (uint (word_of_int maxmss :: u16) - 20)))\<rparr>
                else b
            | (False, _) \<Rightarrow> b))"

subsection \<open>One option\<close>

lemma nth_mem_write_pair:
  "Suc i < length c \<Longrightarrow> length ys = 2 \<Longrightarrow>
     mem_write c i ys ! j = (if j = i then ys ! 0 else if j = Suc i then ys ! Suc 0 else c ! j)"
  by (auto simp: mem_write_def nth_append nth_Cons' not_less min_def eval_nat_numeral length_Suc_conv
      intro!: arg_cong [where f = "\<lambda>k. c ! k"])

lemma pair_eq: "length ys = 2 \<Longrightarrow> ys = [ys ! 0, ys ! Suc 0]"
  by (auto simp: numeral_2_eq_2 length_Suc_conv)

lemma length_mss_clamp [simp]:
  "20 \<le> pos \<Longrightarrow> pos + 4 \<le> length c \<Longrightarrow> length (mss_clamp big maxmss pos c) = length c"
  by (simp add: mss_clamp_def Let_def)

lemma mss_clamp_nth:
  assumes "20 \<le> pos" "pos + 4 \<le> length c" "j \<notin> {16, 17, pos + 2, pos + 3}"
  shows "mss_clamp big maxmss pos c ! j = c ! j"
  using assms by (simp add: mss_clamp_def Let_def nth_mem_write_pair)

lemma mss_value_clamp:
  assumes "20 \<le> pos" "pos + 4 \<le> length c"
  shows "mss_value (mss_clamp big maxmss pos c) pos = min (mss_value c pos) maxmss"
proof (cases "mss_value c pos > maxmss")
  case True
  have "mss_value (mss_clamp big maxmss pos c) pos = un_be16 [be16 maxmss ! 0, be16 maxmss ! Suc 0]"
    using assms True
    by (simp add: mss_clamp_def Let_def nth_mem_write_pair) (simp add: mss_value_def nth_mem_write_pair eval_nat_numeral)
  also have "\<dots> = maxmss" using pair_eq [of "be16 maxmss"] by (metis length_be16 un_be16_be16)
  finally show ?thesis using True by (simp add: min_absorb2 less_imp_le)
next
  case False
  then have "mss_clamp big maxmss pos c = c" by (simp add: mss_clamp_def Let_def)
  then show ?thesis using False by (simp add: min_absorb1 not_less)
qed

lemma abs_diff_u16: "\<bar>uint (a :: u16) - uint (b :: u16)\<bar> < 2 ^ 30"
proof -
  have "\<bar>uint a - uint b\<bar> < 65536"
    using uint_u16_less [of a] uint_u16_less [of b] uint_ge_0 [of a] uint_ge_0 [of b] by linarith
  then show ?thesis by simp
qed

lemma mss_clamp_sum:
  assumes "20 \<le> pos" "pos + 4 \<le> length c" "even pos"
  shows "65535 dvd nsum big (mss_clamp big maxmss pos c) - nsum big c"
proof (cases "mss_value c pos > maxmss")
  case True
  define c1 where "c1 = mem_write c (pos + 2) (be16 maxmss)"
  define old where "old = uint (native16 big (c ! (pos + 2)) (c ! (pos + 3)))"
  define new where "new = uint (htons big maxmss)"
  define k where "k = native16 big (c1 ! 16) (c1 ! 17)"
  define k' where "k' = adjust_checksum (old - new) k"
  have b: "be16 maxmss = [be16 maxmss ! 0, be16 maxmss ! Suc 0]" by (rule pair_eq) simp
  have len: "length c1 = length c" using assms by (simp add: c1_def)
  have old: "htons big (mss_value c pos) = native16 big (c ! (pos + 2)) (c ! (pos + 3))"
    by (simp add: htons_def mss_value_def be16_un_be16)
  have s1: "nsum big c1 = nsum big c - old + new"
    unfolding c1_def old_def new_def
    by (subst b, subst nsum_write_word) (use assms in \<open>simp_all add: htons_def numeral_3_eq_3\<close>)
  have "mss_clamp big maxmss pos c = mem_write c1 16 (native_bytes16 big k')"
    using True unfolding mss_clamp_def Let_def k'_def k_def old_def new_def old [symmetric]
    by (simp only: if_True flip: c1_def)
  moreover have "native_bytes16 big k' = [native_bytes16 big k' ! 0, native_bytes16 big k' ! Suc 0]"
    by (rule pair_eq) simp
  ultimately have "nsum big (mss_clamp big maxmss pos c) = nsum big c1 - uint k + uint k'"
    using assms len nsum_write_word [of 16 c1 big "native_bytes16 big k' ! 0" "native_bytes16 big k' ! Suc 0"]
    by (simp add: k_def native16_bytes)
  then have "nsum big (mss_clamp big maxmss pos c) - nsum big c = uint k' - ((old - new) + uint k)"
    using s1 by simp
  moreover have "\<bar>old - new\<bar> < 2 ^ 30" unfolding old_def new_def by (rule abs_diff_u16)
  ultimately show ?thesis
    using adjust_checksum_mod [of "old - new" k] by (simp add: k'_def)
qed (simp add: mss_clamp_def)

subsection \<open>The whole walk\<close>

text \<open>Two segments with the same bytes from the walk's position on are walked alike.\<close>

lemma mss_positions_cong:
  "(\<And>j. pos \<le> j \<Longrightarrow> j < pos + olen \<Longrightarrow> c ! j = d ! j) \<Longrightarrow> mss_positions olen pos c = mss_positions olen pos d"
proof (induction olen pos c rule: mss_positions.induct)
  case (1 olen pos c)
  show ?case
  proof (cases "olen \<le> 1")
    case False
    have same: "c ! pos = d ! pos" "c ! (pos + 1) = d ! (pos + 1)"
      using 1(3) [of pos] 1(3) [of "pos + 1"] False by simp_all
    show ?thesis
      by (subst (1 2) mss_positions.simps, unfold same [symmetric], simp only: Let_def, rule if_cong)
        (use False same 1 in \<open>auto\<close>)
  qed (simp add: mss_positions.simps)
qed

lemma mss_step_nop:
  assumes "1 < olen" "c ! pos = TCPOPT_NOP"
  shows "mss_positions olen pos c = mss_positions (olen - 1) (pos + 1) c"
    and "mss_opts big maxmss olen pos c = mss_opts big maxmss (olen - 1) (pos + 1) c"
  by (subst mss_positions.simps mss_opts.simps; use assms in \<open>simp add: mss_consts\<close>)+

lemma mss_step_opt:
  assumes "1 < olen" "c ! pos \<noteq> TCPOPT_EOL" "c ! pos \<noteq> TCPOPT_NOP"
    and "w = unat (c ! (pos + 1))" "0 < w" "w \<le> olen"
  shows "mss_positions olen pos c = (if c ! pos = TCPOPT_MAXSEG \<and> w = 4 then [pos] else [])
           @ mss_positions (olen - w) (pos + w) c"
    and "mss_opts big maxmss olen pos c = mss_opts big maxmss (olen - w) (pos + w)
           (if c ! pos = TCPOPT_MAXSEG \<and> w = 4 then mss_clamp big maxmss pos c else c)"
  by (subst mss_positions.simps mss_opts.simps; use assms in \<open>simp add: TCPOLEN_MAXSEG_def Let_def\<close>)+

lemma mss_walk_cases:
  obtains (stop) "mss_positions olen pos c = []" "\<And>big maxmss. mss_opts big maxmss olen pos c = c"
    | (nop) "1 < olen" "c ! pos = TCPOPT_NOP"
    | (opt) w where "1 < olen" "c ! pos \<noteq> TCPOPT_EOL" "c ! pos \<noteq> TCPOPT_NOP"
        "w = unat (c ! (pos + 1))" "0 < w" "w \<le> olen"
proof -
  define w where "w = unat (c ! (pos + 1))"
  consider (a) "olen \<le> 1 \<or> c ! pos = TCPOPT_EOL \<or> (c ! pos \<noteq> TCPOPT_NOP \<and> (w = 0 \<or> olen < w))"
    | (b) "1 < olen" "c ! pos = TCPOPT_NOP"
    | (c) "1 < olen" "c ! pos \<noteq> TCPOPT_EOL" "c ! pos \<noteq> TCPOPT_NOP" "0 < w" "w \<le> olen"
    by fastforce
  then show ?thesis
  proof cases
    case a
    have "mss_positions olen pos c = []"
      by (subst mss_positions.simps) (use a in \<open>auto simp: w_def mss_consts\<close>)
    moreover have "mss_opts big maxmss olen pos c = c" for big maxmss
      by (subst mss_opts.simps) (use a in \<open>auto simp: w_def mss_consts\<close>)
    ultimately show ?thesis by (rule stop)
  next
    case b
    then show ?thesis by (rule nop)
  next
    case c
    then show ?thesis using opt [OF _ _ _ w_def] by blast
  qed
qed

lemma mss_positions_range:
  "p \<in> set (mss_positions olen pos c) \<Longrightarrow> pos \<le> p \<and> p + 4 \<le> pos + olen"
proof (induction olen arbitrary: pos rule: less_induct)
  case (less olen)
  show ?case
  proof (cases rule: mss_walk_cases [of olen pos c])
    case stop
    then show ?thesis using less.prems by simp
  next
    case nop
    then show ?thesis
      using less.IH [of "olen - 1" "pos + 1"] less.prems mss_step_nop(1) [OF nop] by auto
  next
    case (opt w)
    then show ?thesis
      using less.IH [of "olen - w" "pos + w"] less.prems mss_step_opt(1) [OF opt]
      by (auto split: if_splits)
  qed
qed

definition mss_effect :: "nat \<Rightarrow> nat \<Rightarrow> u16 \<Rightarrow> byte list \<Rightarrow> byte list \<Rightarrow> bool" where
  "mss_effect olen pos maxmss c d \<longleftrightarrow>
     length d = length c
     \<and> mss_positions olen pos d = mss_positions olen pos c
     \<and> (\<forall>p \<in> set (mss_positions olen pos c). mss_value d p = min (mss_value c p) maxmss)
     \<and> (\<forall>j. j \<notin> {16, 17} \<and> (\<forall>p \<in> set (mss_positions olen pos c). j \<noteq> p + 2 \<and> j \<noteq> p + 3) \<longrightarrow> d ! j = c ! j)"

lemma mss_effect_opt:
  assumes "20 \<le> pos" "pos + olen \<le> length c" "1 < olen"
    and "c ! pos \<noteq> TCPOPT_EOL" "c ! pos \<noteq> TCPOPT_NOP"
    and w: "w = unat (c ! (pos + 1))" "0 < w" "w \<le> olen"
    and c': "c' = (if c ! pos = TCPOPT_MAXSEG \<and> w = 4 then mss_clamp big maxmss pos c else c)"
    and eff: "mss_effect (olen - w) (pos + w) maxmss c' d"
  shows "mss_effect olen pos maxmss c d"
proof -
  define hit where "hit \<longleftrightarrow> c ! pos = TCPOPT_MAXSEG \<and> w = 4"
  have hit: "hit \<Longrightarrow> w = 4 \<and> pos + 4 \<le> length c" using assms by (simp add: hit_def)
  have step: "mss_positions olen pos e = (if hit then [pos] else []) @ mss_positions (olen - w) (pos + w) e"
    if "e ! pos = c ! pos" "e ! (pos + 1) = c ! (pos + 1)" for e
    using mss_step_opt(1) [of olen e pos w] assms that by (simp add: hit_def)
  have keep: "c' ! j = c ! j" if "j \<notin> {16, 17}" "hit \<longrightarrow> j \<noteq> pos + 2 \<and> j \<noteq> pos + 3" for j
    using that hit assms(1) by (auto simp: c' mss_clamp_nth simp flip: hit_def)
  have len: "length c' = length c" using hit assms(1) by (auto simp: c' simp flip: hit_def)
  have rest: "mss_positions (olen - w) (pos + w) c' = mss_positions (olen - w) (pos + w) c"
    using assms(1) hit by (intro mss_positions_cong keep) auto
  have e: "length d = length c"
      "mss_positions (olen - w) (pos + w) d = mss_positions (olen - w) (pos + w) c"
      "\<And>p. p \<in> set (mss_positions (olen - w) (pos + w) c) \<Longrightarrow> mss_value d p = min (mss_value c' p) maxmss"
      "\<And>j. j \<notin> {16, 17} \<Longrightarrow> \<forall>p \<in> set (mss_positions (olen - w) (pos + w) c). j \<noteq> p + 2 \<and> j \<noteq> p + 3
           \<Longrightarrow> d ! j = c' ! j"
    using eff by (auto simp: mss_effect_def len rest)
  have later: "pos + w \<le> p" if "p \<in> set (mss_positions (olen - w) (pos + w) c)" for p
    using mss_positions_range [OF that] by simp
  have before: "d ! j = c' ! j" if "j \<notin> {16, 17}" "j < pos + w + 2" for j
  proof (rule e(4) [OF that(1)])
    show "\<forall>p \<in> set (mss_positions (olen - w) (pos + w) c). j \<noteq> p + 2 \<and> j \<noteq> p + 3"
      using later that(2) by fastforce
  qed
  have head: "d ! pos = c ! pos" "d ! (pos + 1) = c ! (pos + 1)"
    using assms(1) w(2) by (auto simp: before keep)
  have 1: "mss_positions olen pos d = mss_positions olen pos c"
    using step [OF head] step [of c] e(2) by simp
  have 2: "mss_value d p = min (mss_value c p) maxmss" if p: "p \<in> set (mss_positions olen pos c)" for p
  proof (cases "p \<in> set (mss_positions (olen - w) (pos + w) c)")
    case True
    then have "mss_value c' p = mss_value c p"
      using later [OF True] hit assms(1) w(2) keep [of "p + 2"] keep [of "p + 3"]
      by (cases hit) (auto simp: mss_value_def)
    then show ?thesis using e(3) [OF True] by simp
  next
    case False
    then have h: "hit" "p = pos" using p step [of c] by (auto split: if_splits)
    then have "mss_value d p = mss_value c' p"
      using hit assms(1) by (simp add: mss_value_def before)
    also have "c' = mss_clamp big maxmss pos c" using h by (simp add: c' hit_def)
    finally show ?thesis using h hit assms(1) by (simp add: mss_value_clamp)
  qed
  have 3: "d ! j = c ! j"
    if "j \<notin> {16, 17}" "\<forall>p \<in> set (mss_positions olen pos c). j \<noteq> p + 2 \<and> j \<noteq> p + 3" for j
    using that step [of c] by (subst e(4)) (auto intro!: keep split: if_splits)
  from e(1) 1 2 3 show ?thesis by (simp add: mss_effect_def)
qed

lemma mss_opts_effect:
  "20 \<le> pos \<Longrightarrow> pos + olen \<le> length c \<Longrightarrow> mss_effect olen pos maxmss c (mss_opts big maxmss olen pos c)"
proof (induction olen arbitrary: pos c rule: less_induct)
  case (less olen)
  show ?case
  proof (cases rule: mss_walk_cases [of olen pos c])
    case stop
    then show ?thesis by (simp add: mss_effect_def)
  next
    case nop
    define d where "d = mss_opts big maxmss (olen - 1) (pos + 1) c"
    have eff: "mss_effect (olen - 1) (pos + 1) maxmss c d"
      unfolding d_def using less.prems nop by (intro less.IH) simp_all
    have "\<forall>p \<in> set (mss_positions (olen - 1) (pos + 1) c). pos \<noteq> p + 2 \<and> pos \<noteq> p + 3"
      using mss_positions_range [of _ "olen - 1" "pos + 1" c] by fastforce
    then have "d ! pos = c ! pos" using eff less.prems by (simp add: mss_effect_def)
    then show ?thesis
      using eff mss_step_nop(1) [OF nop] mss_step_nop(2) [OF nop, of big maxmss] mss_step_nop(1) [of olen d pos] nop
      by (simp add: mss_effect_def d_def)
  next
    case (opt w)
    define c' where "c' = (if c ! pos = TCPOPT_MAXSEG \<and> w = 4 then mss_clamp big maxmss pos c else c)"
    have "length c' = length c" using less.prems opt by (simp add: c'_def)
    then have "mss_effect (olen - w) (pos + w) maxmss c' (mss_opts big maxmss (olen - w) (pos + w) c')"
      using less.prems opt by (intro less.IH) simp_all
    then have "mss_effect olen pos maxmss c (mss_opts big maxmss (olen - w) (pos + w) c')"
      using less.prems opt by (intro mss_effect_opt [OF _ _ _ _ _ opt(4) _ _ c'_def])
    then show ?thesis using mss_step_opt(2) [OF opt, of big maxmss] by (simp add: c'_def)
  qed
qed

lemma mss_opts_sum:
  "20 \<le> pos \<Longrightarrow> pos + olen \<le> length c \<Longrightarrow> \<forall>p \<in> set (mss_positions olen pos c). even p
     \<Longrightarrow> 65535 dvd nsum big (mss_opts big maxmss olen pos c) - nsum big c"
proof (induction olen arbitrary: pos c rule: less_induct)
  case (less olen)
  show ?case
  proof (cases rule: mss_walk_cases [of olen pos c])
    case stop
    then show ?thesis by simp
  next
    case nop
    show ?thesis
      unfolding mss_step_nop(2) [OF nop]
      using less.prems nop mss_step_nop(1) [OF nop] by (intro less.IH) simp_all
  next
    case (opt w)
    define hit where "hit \<longleftrightarrow> c ! pos = TCPOPT_MAXSEG \<and> w = 4"
    define c' where "c' = (if hit then mss_clamp big maxmss pos c else c)"
    have hit: "hit \<Longrightarrow> w = 4 \<and> pos + 4 \<le> length c" using less.prems opt by (simp add: hit_def)
    have len: "length c' = length c" using less.prems hit by (simp add: c'_def)
    have pos: "mss_positions olen pos c = (if hit then [pos] else []) @ mss_positions (olen - w) (pos + w) c"
      using mss_step_opt(1) [OF opt] by (simp add: hit_def)
    have rest: "mss_positions (olen - w) (pos + w) c' = mss_positions (olen - w) (pos + w) c"
      using less.prems hit by (intro mss_positions_cong) (auto simp: c'_def mss_clamp_nth)
    have 1: "65535 dvd nsum big c' - nsum big c"
      using less.prems hit pos by (auto simp: c'_def intro!: mss_clamp_sum)
    have 2: "65535 dvd nsum big (mss_opts big maxmss (olen - w) (pos + w) c') - nsum big c'"
      using less.prems opt len rest pos by (intro less.IH) simp_all
    show ?thesis
      using dvd_add [OF 2 1] mss_step_opt(2) [OF opt, of big maxmss] by (simp add: c'_def hit_def)
  qed
qed

subsection \<open>Segments and packets\<close>

definition tcp_mss_positions :: "byte list \<Rightarrow> nat list" where
  "tcp_mss_positions seg =
     (let hlen = TCPH_GET_DOFF (seg ! 12)
      in if hlen \<le> TCPHDR_SIZE \<or> hlen > int (length seg) then []
         else mss_positions (nat (hlen - TCPHDR_SIZE)) (nat TCPHDR_SIZE) seg)"

lemma mss_segment_effect:
  fixes seg :: "byte list" and maxmss :: u16 and big :: bool
  assumes "20 \<le> length seg"
  defines "d \<equiv> mss_segment big maxmss seg"
  shows "length d = length seg"
    and "\<forall>p \<in> set (tcp_mss_positions seg). mss_value d p = min (mss_value seg p) maxmss"
    and "\<forall>j. j \<notin> {16, 17} \<and> (\<forall>p \<in> set (tcp_mss_positions seg). j \<noteq> p + 2 \<and> j \<noteq> p + 3) \<longrightarrow> d ! j = seg ! j"
    and "\<forall>p \<in> set (tcp_mss_positions seg). even p \<Longrightarrow> 65535 dvd nsum True d - nsum True seg"
proof -
  define h where "h = TCPH_GET_DOFF (seg ! 12)"
  define n where "n = nat (h - TCPHDR_SIZE)"
  have "length d = length seg \<and> (\<forall>p \<in> set (tcp_mss_positions seg). mss_value d p = min (mss_value seg p) maxmss)
     \<and> (\<forall>j. j \<notin> {16, 17} \<and> (\<forall>p \<in> set (tcp_mss_positions seg). j \<noteq> p + 2 \<and> j \<noteq> p + 3) \<longrightarrow> d ! j = seg ! j)
     \<and> ((\<forall>p \<in> set (tcp_mss_positions seg). even p) \<longrightarrow> 65535 dvd nsum True d - nsum True seg)"
  proof (cases "h \<le> TCPHDR_SIZE \<or> h > int (length seg)")
    case True
    then show ?thesis by (simp add: d_def mss_segment_def tcp_mss_positions_def Let_def flip: h_def)
  next
    case False
    then have n: "20 + n \<le> length seg" unfolding n_def TCPHDR_SIZE_def by linarith
    have d: "d = mss_opts big maxmss n 20 seg" and p: "tcp_mss_positions seg = mss_positions n 20 seg"
      using False
      by (simp_all add: d_def mss_segment_def tcp_mss_positions_def Let_def n_def TCPHDR_SIZE_def flip: h_def)
    show ?thesis
      using mss_opts_effect [of 20 n seg maxmss big] mss_opts_sum [of 20 n seg big maxmss] n
      by (auto simp: p mss_effect_def simp flip: d intro: nsum_same_any_order)
  qed
  then show "length d = length seg"
    "\<forall>p \<in> set (tcp_mss_positions seg). mss_value d p = min (mss_value seg p) maxmss"
    "\<forall>j. j \<notin> {16, 17} \<and> (\<forall>p \<in> set (tcp_mss_positions seg). j \<noteq> p + 2 \<and> j \<noteq> p + 3) \<longrightarrow> d ! j = seg ! j"
    "\<forall>p \<in> set (tcp_mss_positions seg). even p \<Longrightarrow> 65535 dvd nsum True d - nsum True seg"
    by blast+
qed

lemma mss_segment_checksum:
  assumes "20 \<le> length seg" "length seg < 65536" "\<forall>p \<in> set (tcp_mss_positions seg). even p"
    and "ip_checksum af seg src dst proto = 0" "proto \<noteq> 0"
  shows "ip_checksum af (mss_segment big maxmss seg) src dst proto = 0"
proof -
  define d where "d = mss_segment big maxmss seg"
  have len: "length d = length seg" unfolding d_def by (rule mss_segment_effect) fact
  have diff: "65535 dvd nsum True d - nsum True seg"
    unfolding d_def using assms(1,3) by (rule mss_segment_effect)
  have "pseudo_sum af d src dst proto = pseudo_sum af seg src dst proto + (nsum True d - nsum True seg)"
    by (simp add: pseudo_sum_def Let_def len)
  moreover have "65535 dvd pseudo_sum af seg src dst proto"
    using assms(2,4) by (simp add: ip_checksum_zero_iff)
  moreover have "0 < uint proto"
    using assms(5) uint_ge_0 [of proto] by (metis order_le_less uint_0_iff)
  then have "0 < pseudo_sum af d src dst proto"
    using nsum_nonneg by (auto simp: pseudo_sum_def Let_def intro!: add_nonneg_pos add_nonneg_nonneg)
  ultimately show ?thesis
    using diff assms(2) len by (simp add: ip_checksum_zero_iff flip: d_def)
qed

lemma byte_at_mkbuf: "0 \<le> i \<Longrightarrow> i < int (length c) \<Longrightarrow> byte_at (mkbuf pre c post) i = c ! nat i"
  by (simp add: byte_at_def nat_add_distrib nth_append nat_less_iff)

lemma net16_at_mkbuf:
  "0 \<le> i \<Longrightarrow> i + 1 < int (length c) \<Longrightarrow> net16_at (mkbuf pre c post) i = un_be16 [c ! nat i, c ! nat (i + 1)]"
  by (simp add: net16_at_def byte_at_mkbuf)

lemma mss_fixup_inside:
  assumes "h + 20 \<le> length c"
  shows "mkbuf pre c post\<lparr>bdata := bdata (mss_fixup_dowork big (mkbuf (pre @ take h c) (drop h c) post) maxmss)\<rparr>
       = mkbuf pre (take h c @ mss_segment big maxmss (drop h c)) post"
proof -
  have len: "length (mss_segment big maxmss (drop h c)) = length c - h"
    using mss_segment_effect(1) [of "drop h c" big maxmss] assms by simp
  have "mss_fixup_dowork big (mkbuf (pre @ take h c) (drop h c) post) maxmss
      = mkbuf (pre @ take h c) (mss_segment big maxmss (drop h c)) post"
    using assms len by (simp add: mss_fixup_dowork_def TCPHDR_SIZE_def poke_mkbuf)
  then show ?thesis
    using assms len by (intro mkbuf_eqI) (simp_all add: mkbuf_def min_def)
qed

text \<open>The segment a packet's header points to, and whether it is a first fragment with SYN.\<close>

definition ip_tcp_syn :: "byte list \<Rightarrow> bool" where
  "ip_tcp_syn c \<longleftrightarrow>
     20 \<le> length c \<and> c ! 9 = OPENVPN_IPPROTO_TCP \<and> uint (un_be16 [c ! 2, c ! 3]) = int (length c)
     \<and> un_be16 [c ! 6, c ! 7] AND IP_OFFMASK = 0
     \<and> nat (IPH_GET_LEN (c ! 0)) + 20 \<le> length c
     \<and> c ! (nat (IPH_GET_LEN (c ! 0)) + 13) AND TCPH_SYN_MASK \<noteq> 0"

lemma IPH_GET_LEN_nonneg: "0 \<le> IPH_GET_LEN v"
  by (simp add: IPH_GET_LEN_def)

lemma mss_fixup_ipv4_mkbuf:
  "mss_fixup_ipv4 big (mkbuf pre c post) maxmss =
     mkbuf pre (if ip_tcp_syn c
                then (let h = nat (IPH_GET_LEN (c ! 0))
                      in take h c @ mss_segment big (word_of_int maxmss) (drop h c))
                else c) post"
proof (cases "length c < 20")
  case True
  then show ?thesis by (simp add: mss_fixup_ipv4_def ip_tcp_syn_def IPHDR_SIZE_def)
next
  case False
  define h where "h = nat (IPH_GET_LEN (c ! 0))"
  have h: "IPH_GET_LEN (c ! 0) = int h" using IPH_GET_LEN_nonneg by (simp add: h_def)
  have "c \<noteq> []" using False by auto
  then have fields: "byte_at (mkbuf pre c post) 0 = c ! 0" "byte_at (mkbuf pre c post) 9 = c ! 9"
      "net16_at (mkbuf pre c post) 2 = un_be16 [c ! 2, c ! 3]"
      "net16_at (mkbuf pre c post) 6 = un_be16 [c ! 6, c ! 7]"
    using False by (simp_all add: byte_at_mkbuf net16_at_mkbuf)
  have flag: "byte_at (mkbuf (pre @ take h c) (drop h c) post) 13 = c ! (h + 13)" if "h + 20 \<le> length c"
    using that by (subst byte_at_mkbuf) simp_all
  have ip: "ip_tcp_syn c \<longleftrightarrow> c ! 9 = OPENVPN_IPPROTO_TCP \<and> uint (un_be16 [c ! 2, c ! 3]) = int (length c)
     \<and> un_be16 [c ! 6, c ! 7] AND IP_OFFMASK = 0 \<and> h + 20 \<le> length c \<and> c ! (h + 13) AND TCPH_SYN_MASK \<noteq> 0"
    using False by (simp add: ip_tcp_syn_def flip: h_def)
  show ?thesis
    using False mss_fixup_inside [where h = h and c = c and maxmss = "word_of_int maxmss" and big = big]
    by (auto simp: mss_fixup_ipv4_def Let_def fields h ip buf_advance_mkbuf flag header_sizes simp flip: h_def)
qed

lemma mss_fixup_ipv6_mkbuf:
  "mss_fixup_ipv6 big (mkbuf pre c post) maxmss =
     mkbuf pre (if 60 \<le> length c \<and> int (length c) = uint (un_be16 [c ! 4, c ! 5]) + 40
                   \<and> c ! 6 = OPENVPN_IPPROTO_TCP \<and> c ! 53 AND TCPH_SYN_MASK \<noteq> 0
                then take 40 c @ mss_segment big (word_of_int (uint (word_of_int maxmss :: u16) - 20)) (drop 40 c)
                else c) post"
proof (cases "length c < 40")
  case True
  then show ?thesis by (simp add: mss_fixup_ipv6_def IPV6HDR_SIZE_def)
next
  case False
  have fields: "byte_at (mkbuf pre c post) 6 = c ! 6" "net16_at (mkbuf pre c post) 4 = un_be16 [c ! 4, c ! 5]"
    using False by (simp_all add: byte_at_mkbuf net16_at_mkbuf)
  have flag: "byte_at (mkbuf (pre @ take 40 c) (drop 40 c) post) 13 = c ! 53" if "60 \<le> length c"
    using that by (subst byte_at_mkbuf) simp_all
  show ?thesis
    using False mss_fixup_inside [where h = 40 and c = c and big = big
        and maxmss = "word_of_int (uint (word_of_int maxmss :: u16) - 20)"]
    by (auto simp: mss_fixup_ipv6_def fields buf_advance_mkbuf flag header_sizes)
qed

subsection \<open>Properties\<close>

text \<open>
  In an IPv4 packet that is the first fragment of a TCP SYN, \<open>mss_fixup_ipv4\<close> lowers every
  MSS option of the segment to the limit, and changes nothing else but the TCP checksum: the IP
  header, the other options, the data and the length stay as they were.
\<close>

theorem mss_fixup_clamps:
  assumes "live b" "ip_tcp_syn (content b)"
    and h_def: "h = nat (IPH_GET_LEN (content b ! 0))"
    and seg_def: "seg = drop h (content b)" and out_def: "out = content (mss_fixup_ipv4 big b maxmss)"
  shows "length out = length (content b) \<and> take h out = take h (content b)
     \<and> (\<forall>p \<in> set (tcp_mss_positions seg). mss_value (drop h out) p = min (mss_value seg p) (word_of_int maxmss))
     \<and> (\<forall>j. j \<notin> {16, 17} \<and> (\<forall>p \<in> set (tcp_mss_positions seg). j \<noteq> p + 2 \<and> j \<noteq> p + 3)
          \<longrightarrow> drop h out ! j = seg ! j)"
proof -
  obtain pre c post where b: "b = mkbuf pre c post" "content b = c" using assms(1) by (rule live_split)
  have syn: "ip_tcp_syn c" and h: "h + 20 \<le> length c"
    using assms(2) b by (simp_all add: ip_tcp_syn_def h_def)
  have "out = take h c @ mss_segment big (word_of_int maxmss) seg"
    using syn b by (simp add: out_def seg_def h_def mss_fixup_ipv4_mkbuf Let_def)
  moreover have "20 \<le> length seg" "length seg = length c - h" using h b by (simp_all add: seg_def)
  ultimately show ?thesis
    using mss_segment_effect [of seg big "word_of_int maxmss"] b h by (simp add: min_def)
qed

definition syn_packet :: "byte list" where
  "syn_packet = [69, 0, 0, 44, 0, 1, 64, 0, 64, 6, 111, 20, 10, 8, 0, 6, 192, 168, 1, 1,
     192, 1, 0, 80, 0, 0, 0, 1, 0, 0, 0, 0, 96, 2, 255, 255, 12, 29, 0, 0, 2, 4, 5, 180]"

lemma syn_packet_facts:
  "ip_tcp_syn syn_packet" "live (mkbuf [] syn_packet [])"
  by (code_simp, simp add: small_def BUF_SIZE_MAX_def syn_packet_def)

theorem mss_fixup_clamps_witness:
  "content (mss_fixup_ipv4 False (mkbuf [] syn_packet []) 1300) ! 42 = 5
     \<and> content (mss_fixup_ipv4 False (mkbuf [] syn_packet []) 1300) ! 43 = 20
     \<and> length (content (mss_fixup_ipv4 False (mkbuf [] syn_packet []) 1300)) = 44"
proof -
  have "length (content (mss_fixup_ipv4 False (mkbuf [] syn_packet []) 1300))
      = length (content (mkbuf [] syn_packet []))"
    using mss_fixup_clamps [OF _ _ refl refl refl, of "mkbuf [] syn_packet []" False 1300] syn_packet_facts by simp
  then show ?thesis by (simp only:) code_simp
qed

text \<open>
  C22: \<open>mss_fixup_ipv4\<close> keeps the TCP checksum valid: a segment that verified before with its
  pseudo header verifies afterwards, whatever the byte order of the machine, when its MSS options
  lie at even offsets.
\<close>

theorem mss_fixup_keeps_checksum:
  assumes "live b" "h = nat (IPH_GET_LEN (content b ! 0))"
    and "ip_checksum AF_INET (drop h (content b)) src dst OPENVPN_IPPROTO_TCP = 0"
    and "\<forall>p \<in> set (tcp_mss_positions (drop h (content b))). even p"
  shows "ip_checksum AF_INET (drop h (content (mss_fixup_ipv4 big b maxmss))) src dst OPENVPN_IPPROTO_TCP = 0"
proof -
  obtain pre c post where b: "b = mkbuf pre c post" "content b = c" using assms(1) by (rule live_split)
  show ?thesis
  proof (cases "ip_tcp_syn c")
    case True
    then have h: "h + 20 \<le> length c" and tot: "uint (un_be16 [c ! 2, c ! 3]) = int (length c)"
      using assms(2) b by (simp_all add: ip_tcp_syn_def)
    have "length c < 65536" using tot uint_u16_less [of "un_be16 [c ! 2, c ! 3]"] by simp
    then have "ip_checksum AF_INET (mss_segment big (word_of_int maxmss) (drop h c)) src dst OPENVPN_IPPROTO_TCP = 0"
      using assms(3,4) b h by (intro mss_segment_checksum) (simp_all add: OPENVPN_IPPROTO_TCP_def)
    then show ?thesis using True h assms(2) b by (simp add: mss_fixup_ipv4_mkbuf Let_def)
  next
    case False
    then show ?thesis using assms b by (simp add: mss_fixup_ipv4_mkbuf)
  qed
qed

theorem mss_fixup_keeps_checksum_witness:
  "ip_checksum AF_INET (drop 20 (content (mss_fixup_ipv4 False (mkbuf [] syn_packet []) 1300)))
     [10, 8, 0, 6] [192, 168, 1, 1] OPENVPN_IPPROTO_TCP = 0
   \<and> content (mss_fixup_ipv4 False (mkbuf [] syn_packet []) 1300) \<noteq> syn_packet"
proof
  show "ip_checksum AF_INET (drop 20 (content (mss_fixup_ipv4 False (mkbuf [] syn_packet []) 1300)))
     [10, 8, 0, 6] [192, 168, 1, 1] OPENVPN_IPPROTO_TCP = 0"
  proof (rule mss_fixup_keeps_checksum)
    show "live (mkbuf [] syn_packet [])" by (rule syn_packet_facts)
    show "20 = nat (IPH_GET_LEN (content (mkbuf [] syn_packet []) ! 0))" by code_simp
    show "ip_checksum AF_INET (drop 20 (content (mkbuf [] syn_packet []))) [10, 8, 0, 6] [192, 168, 1, 1]
       OPENVPN_IPPROTO_TCP = 0" by code_simp
    show "\<forall>p \<in> set (tcp_mss_positions (drop 20 (content (mkbuf [] syn_packet [])))). even p" by code_simp
  qed
  show "content (mss_fixup_ipv4 False (mkbuf [] syn_packet []) 1300) \<noteq> syn_packet" by code_simp
qed

text \<open>The same for IPv6, with the smaller limit.\<close>

lemma mss_fixup_ipv6_keeps_checksum:
  assumes "live b"
    and "ip_checksum AF_INET6 (drop 40 (content b)) src dst OPENVPN_IPPROTO_TCP = 0"
    and "\<forall>p \<in> set (tcp_mss_positions (drop 40 (content b))). even p"
  shows "ip_checksum AF_INET6 (drop 40 (content (mss_fixup_ipv6 big b maxmss))) src dst OPENVPN_IPPROTO_TCP = 0"
proof -
  obtain pre c post where b: "b = mkbuf pre c post" "content b = c" using assms(1) by (rule live_split)
  have "length (drop 40 c) < 65536" if "int (length c) = uint (un_be16 [c ! 4, c ! 5]) + 40"
    using that uint_u16_less [of "un_be16 [c ! 4, c ! 5]"] by simp
  moreover have "OPENVPN_IPPROTO_TCP \<noteq> 0" by (simp add: OPENVPN_IPPROTO_TCP_def)
  ultimately show ?thesis
    using assms(2,3) b mss_segment_checksum [of "drop 40 c" AF_INET6 src dst OPENVPN_IPPROTO_TCP big]
    by (auto simp: mss_fixup_ipv6_mkbuf)
qed

text \<open>
  A SYN whose MSS option comes after a single NOP, and so lies at an odd offset, verifies
  when it arrives; \<open>mss_fixup_ipv4\<close> lowers the option and leaves a wrong TCP checksum, on
  machines of either byte order. The receiver will drop the packet.
\<close>

definition odd_syn_packet :: "byte list" where
  "odd_syn_packet = [69, 0, 0, 48, 0, 1, 64, 0, 64, 6, 111, 16, 10, 8, 0, 6, 192, 168, 1, 1,
     192, 1, 0, 80, 0, 0, 0, 1, 0, 0, 0, 0, 112, 2, 255, 255, 73, 200, 0, 0,
     1, 2, 4, 5, 180, 1, 1, 0]"

theorem mss_odd_option_breaks_checksum:
  "ip_checksum AF_INET (drop 20 odd_syn_packet) [10, 8, 0, 6] [192, 168, 1, 1] OPENVPN_IPPROTO_TCP = 0
   \<and> tcp_mss_positions (drop 20 odd_syn_packet) = [21]
   \<and> ip_checksum AF_INET (drop 20 (content (mss_fixup_ipv4 False (mkbuf [] odd_syn_packet []) 1300)))
       [10, 8, 0, 6] [192, 168, 1, 1] OPENVPN_IPPROTO_TCP \<noteq> 0
   \<and> ip_checksum AF_INET (drop 20 (content (mss_fixup_ipv4 True (mkbuf [] odd_syn_packet []) 1300)))
       [10, 8, 0, 6] [192, 168, 1, 1] OPENVPN_IPPROTO_TCP \<noteq> 0"
  by code_simp

end
