(* ===== verification/Clinat.thy ===== *)
theory Clinat
  imports Mss
begin

text \<open>
  \<^verbatim>\<open>clinat.c\<close> and \<^verbatim>\<open>clinat.h\<close>: the client-side address translation of packets inside
  the tunnel.

  A rule table is the list of its entries. Addresses are in network byte order as the C code
  keeps them, so a rule's words and the words loaded from the packet have the byte order of the
  machine (\<open>big\<close>). \<open>client_nat_transform\<close> reads and writes the header through the pointer to
  its first byte: the model accesses the block of the buffer at the same offsets, also beyond the
  packet's end when it is shorter than a header, which the callers' check of 802.1Q frames lets
  through (\<open>client_nat_writes_past_short_frame\<close>).

  The lemmas: the walk over the rules replaces the two addresses only and keeps the account of
  their words; the IP header and the TCP or UDP segment that verified before verify afterwards; a
  reply is translated back to the address the request came from.
\<close>

definition MAX_CLIENT_NAT :: nat where "MAX_CLIENT_NAT = 64"
definition CN_OUTGOING :: int where "CN_OUTGOING = 0"
definition CN_INCOMING :: int where "CN_INCOMING = 1"
definition CN_SNAT :: int where "CN_SNAT = 0"
definition CN_DNAT :: int where "CN_DNAT = 1"

record client_nat_entry =
  cn_type :: int
  cn_network :: u32
  cn_netmask :: u32
  cn_foreign_network :: u32

type_synonym client_nat_option_list = "client_nat_entry list"

subsection \<open>The rule table\<close>

definition add_entry :: "client_nat_option_list \<Rightarrow> client_nat_entry \<Rightarrow> bool \<times> client_nat_option_list" where
  "add_entry dest e = (if length dest \<ge> MAX_CLIENT_NAT then (False, dest) else (True, dest @ [e]))"

definition new_client_nat_list :: client_nat_option_list where
  "new_client_nat_list = []"

definition clone_client_nat_option_list :: "client_nat_option_list \<Rightarrow> client_nat_option_list" where
  "clone_client_nat_option_list src = src"

fun copy_client_nat_option_list :: "client_nat_option_list \<Rightarrow> client_nat_option_list \<Rightarrow> client_nat_option_list" where
  "copy_client_nat_option_list dest [] = dest"
| "copy_client_nat_option_list dest (e # es) =
     (case add_entry dest e of
        (False, d) \<Rightarrow> d
      | (True, d) \<Rightarrow> copy_client_nat_option_list d es)"

text \<open>\<open>getaddr\<close> resolves a host name or a dotted address to an address in network order.\<close>

definition add_client_nat_to_option_list ::
    "(string \<Rightarrow> u32 option) \<Rightarrow> client_nat_option_list \<Rightarrow> string \<Rightarrow> string \<Rightarrow> string \<Rightarrow> string
       \<Rightarrow> client_nat_option_list" where
  "add_client_nat_to_option_list getaddr dest type network netmask foreign_network =
     (if type \<noteq> ''snat'' \<and> type \<noteq> ''dnat'' then dest
      else case (getaddr network, getaddr netmask, getaddr foreign_network) of
             (Some n, Some m, Some f) \<Rightarrow>
               snd (add_entry dest \<lparr>cn_type = (if type = ''snat'' then CN_SNAT else CN_DNAT),
                 cn_network = n, cn_netmask = m, cn_foreign_network = f\<rparr>)
           | _ \<Rightarrow> dest)"

subsection \<open>Translating a packet\<close>

definition native32 :: "bool \<Rightarrow> byte list \<Rightarrow> u32" where
  "native32 big bs = un_be32 (if big then bs else rev bs)"

definition native_bytes32 :: "bool \<Rightarrow> u32 \<Rightarrow> byte list" where
  "native_bytes32 big w = (if big then be32 w else rev (be32 w))"

definition load32 :: "bool \<Rightarrow> buffer \<Rightarrow> int \<Rightarrow> u32" where
  "load32 big b i = native32 big (mem_read (block b) (nat (boff b + i)) 4)"

definition store32 :: "bool \<Rightarrow> buffer \<Rightarrow> int \<Rightarrow> u32 \<Rightarrow> buffer" where
  "store32 big b i w = poke b (boff b + i) (native_bytes32 big w)"

definition CHECKSUM_32 :: "u32 \<Rightarrow> int" where
  "CHECKSUM_32 w = uint (w AND 0xffff) + uint (drop_bit 16 w)"

definition nat_rule :: "int \<Rightarrow> client_nat_entry \<Rightarrow> u32 \<times> u32" where
  "nat_rule direction e =
     (if direction \<noteq> 0 then (cn_foreign_network e, cn_network e) else (cn_network e, cn_foreign_network e))"

definition nat_target :: "int \<Rightarrow> client_nat_entry \<Rightarrow> int \<times> u32" where
  "nat_target direction e = (if cn_type e XOR direction \<noteq> 0 then (16, 2) else (12, 1))"

fun nat_walk :: "bool \<Rightarrow> int \<Rightarrow> client_nat_option_list \<Rightarrow> buffer \<times> int \<times> u32 \<Rightarrow> buffer \<times> int \<times> u32" where
  "nat_walk big direction [] st = st"
| "nat_walk big direction (e # es) (b, accumulate, alog) =
     (let (off, amask) = nat_target direction e;
          (from, to) = nat_rule direction e;
          addr = load32 big b off
      in nat_walk big direction es
           (if addr AND cn_netmask e = from \<and> amask AND alog = 0
            then (let addr' = (addr AND NOT (cn_netmask e)) OR to
                  in (store32 big b off addr', accumulate + CHECKSUM_32 addr - CHECKSUM_32 addr',
                      alog OR amask))
            else (b, accumulate, alog)))"

definition fix_checksum :: "bool \<Rightarrow> int \<Rightarrow> int \<Rightarrow> buffer \<Rightarrow> buffer" where
  "fix_checksum big accumulate i b =
     poke b (boff b + i)
       (native_bytes16 big (adjust_checksum accumulate (native16 big (byte_at b i) (byte_at b (i + 1)))))"

definition client_nat_transform :: "bool \<Rightarrow> client_nat_option_list \<Rightarrow> buffer \<Rightarrow> int \<Rightarrow> buffer" where
  "client_nat_transform big rules ipbuf direction =
     (let (b, accumulate, alog) = nat_walk big direction rules (ipbuf, 0, 0)
      in if alog \<noteq> 0
         then (let b1 = fix_checksum big accumulate 10 b
               in if byte_at b1 9 = OPENVPN_IPPROTO_TCP
                  then (if buf_len b1 \<ge> IPHDR_SIZE + TCPHDR_SIZE
                        then fix_checksum big accumulate (IPHDR_SIZE + 16) b1 else b1)
                  else if byte_at b1 9 = OPENVPN_IPPROTO_UDP
                  then (if buf_len b1 \<ge> IPHDR_SIZE + UDPHDR_SIZE
                        then fix_checksum big accumulate (IPHDR_SIZE + 6) b1 else b1)
                  else b1)
         else b)"

subsection \<open>Words of a packet\<close>

lemma length_native_bytes32 [simp]: "length (native_bytes32 big w) = 4"
  by (simp add: native_bytes32_def)

lemma native32_bytes [simp]: "native32 big (native_bytes32 big w) = w"
  by (simp add: native32_def native_bytes32_def)

lemma un_be32_halves:
  "un_be32 [a, b, c, d] AND 0xffff = ucast (un_be16 [c, d])"
  "drop_bit 16 (un_be32 [a, b, c, d]) = ucast (un_be16 [a, b])"
proof -
  show "un_be32 [a, b, c, d] AND 0xffff = ucast (un_be16 [c, d])"
  proof (rule bit_word_eqI)
    fix n assume "n < LENGTH(32)"
    have "bit (0xffff :: u32) n \<longleftrightarrow> n < 16"
      using bit_mask_iff [of 16 n, where ?'a = u32] \<open>n < LENGTH(32)\<close>
      by (simp add: mask_eq_exp_minus_1 possible_bit_def)
    moreover have "n < 16 \<Longrightarrow> \<not> bit d n \<or> n < 8" "n < 16 \<Longrightarrow> bit c (n - 8) \<Longrightarrow> n < 16"
      by (auto dest: bit_imp_le_length)
    ultimately show "bit (un_be32 [a, b, c, d] AND 0xffff) n = bit (ucast (un_be16 [c, d]) :: u32) n"
      using \<open>n < LENGTH(32)\<close> by (auto simp: un_be32_def un_be16_def bit_simps numeral_3_eq_3)
  qed
  show "drop_bit 16 (un_be32 [a, b, c, d]) = ucast (un_be16 [a, b])"
  proof (rule bit_word_eqI)
    fix n assume n: "n < LENGTH(32)"
    have "\<not> bit c (8 + n)" "\<not> bit d (16 + n)" "n \<ge> 8 \<Longrightarrow> \<not> bit b n"
      by (auto dest: bit_imp_le_length)
    moreover have "bit a (n - 8) \<Longrightarrow> n < 16" by (auto dest: bit_imp_le_length)
    ultimately show "bit (drop_bit 16 (un_be32 [a, b, c, d])) n = bit (ucast (un_be16 [a, b]) :: u32) n"
      using n by (auto simp: un_be32_def un_be16_def bit_simps numeral_3_eq_3)
  qed
qed

lemma nsum_addr:
  assumes "length bs = 4"
  shows "nsum big bs = CHECKSUM_32 (native32 big bs)"
proof -
  obtain a b c d where "bs = [a, b, c, d]"
    using assms by (auto simp: numeral_Bit0 length_Suc_conv)
  then show ?thesis
    by (cases big) (simp_all add: CHECKSUM_32_def native32_def un_be32_halves native16_def uint_ucast16)
qed

lemma CHECKSUM_32_bound: "0 \<le> CHECKSUM_32 w" "CHECKSUM_32 w \<le> 131070"
proof -
  have "uint w div 65536 < 65536"
    using uint_lt2p [of w] by (simp add: div_less_iff_less_mult)
  then show "0 \<le> CHECKSUM_32 w" "CHECKSUM_32 w \<le> 131070"
    using pos_mod_bound [of 65536 "uint w"] pos_mod_sign [of 65536 "uint w"]
      pos_imp_zdiv_nonneg_iff [of 65536 "uint w"] uint_ge_0 [of w]
    unfolding CHECKSUM_32_def split32 by linarith+
qed

subsection \<open>The walk over the rules\<close>

text \<open>The parts of a packet the translation touches: \<open>s\<close> and \<open>d\<close> are the two addresses.\<close>

definition ip_packet :: "byte list \<Rightarrow> byte list \<Rightarrow> byte list \<Rightarrow> byte list \<Rightarrow> byte list \<Rightarrow> byte list" where
  "ip_packet a k s d rest = a @ k @ s @ d @ rest"

lemma poke_inside:
  "length c = length c' \<Longrightarrow> i = int (length x) \<Longrightarrow>
     poke (mkbuf pre (x @ c @ y) post) (boff (mkbuf pre (x @ c @ y) post) + i) c' = mkbuf pre (x @ c' @ y) post"
  by (rule mkbuf_eqI) (simp_all add: poke_def mkbuf_def mem_write_def nat_add_distrib)

lemma ip_packet_eq:
  "length s = 4 \<Longrightarrow> length d = 4 \<Longrightarrow> length s' = 4 \<Longrightarrow> length d' = 4 \<Longrightarrow>
     mkbuf pre (ip_packet a k s d rest) post = mkbuf pre (ip_packet a k s' d' rest) post \<longleftrightarrow> s = s' \<and> d = d'"
  by (auto simp: mkbuf_def ip_packet_def)

lemma poke_packet:
  assumes "length a = 10" "length k = 2" "length s = 4" "length d = 4"
  shows "length w = 4 \<Longrightarrow> poke (mkbuf pre (ip_packet a k s d rest) post) (int (length pre) + 12) w
           = mkbuf pre (ip_packet a k w d rest) post"
    and "length w = 4 \<Longrightarrow> poke (mkbuf pre (ip_packet a k s d rest) post) (int (length pre) + 16) w
           = mkbuf pre (ip_packet a k s w rest) post"
    and "length w = 2 \<Longrightarrow> poke (mkbuf pre (ip_packet a k s d rest) post) (int (length pre) + 10) w
           = mkbuf pre (ip_packet a w s d rest) post"
  using assms poke_inside [of s w 12 "a @ k" pre "d @ rest" post]
    poke_inside [of d w 16 "a @ k @ s" pre rest post] poke_inside [of k w 10 a pre "s @ d @ rest" post]
  by (simp_all add: ip_packet_def)

lemma read_packet:
  assumes "length a = 10" "length k = 2" "length s = 4" "length d = 4"
  shows "load32 big (mkbuf pre (ip_packet a k s d rest) post) 12 = native32 big s"
    and "load32 big (mkbuf pre (ip_packet a k s d rest) post) 16 = native32 big d"
  using assms by (simp_all add: load32_def ip_packet_def mem_read_def nat_add_distrib)

definition account :: "bool \<Rightarrow> byte list \<Rightarrow> byte list \<Rightarrow> int" where
  "account big s d = CHECKSUM_32 (native32 big s) + CHECKSUM_32 (native32 big d)"

lemma or_mask_nonzero: "(x :: u32) OR 1 \<noteq> 0" "(x :: u32) OR 2 \<noteq> 0"
  by (simp_all add: or_eq_0_iff)

lemma nat_walk_packet:
  assumes "length a = 10" "length k = 2" "length s = 4" "length d = 4"
  shows "\<exists>s' d' acc' alog'.
       nat_walk big direction rules (mkbuf pre (ip_packet a k s d rest) post, acc, alog)
         = (mkbuf pre (ip_packet a k s' d' rest) post, acc', alog')
       \<and> length s' = 4 \<and> length d' = 4 \<and> acc' + account big s' d' = acc + account big s d
       \<and> (alog' = 0 \<longrightarrow> alog = 0 \<and> s' = s \<and> d' = d)"
  using assms
proof (induction rules arbitrary: s d acc alog)
  case Nil
  then show ?case
    by (intro exI [of _ s] exI [of _ d] exI [of _ acc] exI [of _ alog]) simp
next
  case (Cons e es)
  note len = Cons.prems
  obtain frm to where rule: "nat_rule direction e = (frm, to)" by fastforce
  define new where "new addr = (addr AND NOT (cn_netmask e)) OR to" for addr
  consider (dst) "nat_target direction e = (16, 2)" | (src) "nat_target direction e = (12, 1)"
    by (cases "cn_type e XOR direction \<noteq> 0") (simp_all add: nat_target_def)
  then show ?case
  proof cases
    case dst
    define addr where "addr = native32 big d"
    show ?thesis
    proof (cases "addr AND cn_netmask e = frm \<and> 2 AND alog = 0")
      case True
      define w where "w = native_bytes32 big (new addr)"
      have "nat_walk big direction (e # es) (mkbuf pre (ip_packet a k s d rest) post, acc, alog)
        = nat_walk big direction es (mkbuf pre (ip_packet a k s w rest) post,
            acc + CHECKSUM_32 addr - CHECKSUM_32 (new addr), alog OR 2)"
        using dst rule True len
        by (simp add: read_packet store32_def poke_packet new_def w_def Let_def flip: addr_def)
      moreover have "length w = 4" "native32 big w = new addr" by (simp_all add: w_def)
      ultimately show ?thesis
        using Cons.IH [of s w "acc + CHECKSUM_32 addr - CHECKSUM_32 (new addr)" "alog OR 2"] len or_mask_nonzero
        by (simp add: account_def addr_def) (metis (no_types, lifting) add.commute)
    next
      case False
      then have "nat_walk big direction (e # es) (mkbuf pre (ip_packet a k s d rest) post, acc, alog)
        = nat_walk big direction es (mkbuf pre (ip_packet a k s d rest) post, acc, alog)"
        using dst rule len False by (auto simp: read_packet simp flip: addr_def)
      then show ?thesis using len Cons.IH [of s d acc alog] by (simp only:)
    qed
  next
    case src
    define addr where "addr = native32 big s"
    show ?thesis
    proof (cases "addr AND cn_netmask e = frm \<and> 1 AND alog = 0")
      case True
      define w where "w = native_bytes32 big (new addr)"
      have "nat_walk big direction (e # es) (mkbuf pre (ip_packet a k s d rest) post, acc, alog)
        = nat_walk big direction es (mkbuf pre (ip_packet a k w d rest) post,
            acc + CHECKSUM_32 addr - CHECKSUM_32 (new addr), alog OR 1)"
        using src rule True len
        by (simp add: read_packet store32_def poke_packet new_def w_def Let_def flip: addr_def)
      moreover have "length w = 4" "native32 big w = new addr" by (simp_all add: w_def)
      ultimately show ?thesis
        using Cons.IH [of w d "acc + CHECKSUM_32 addr - CHECKSUM_32 (new addr)" "alog OR 1"] len or_mask_nonzero
        by (simp add: account_def addr_def) (metis (no_types, lifting) add.commute)
    next
      case False
      then have "nat_walk big direction (e # es) (mkbuf pre (ip_packet a k s d rest) post, acc, alog)
        = nat_walk big direction es (mkbuf pre (ip_packet a k s d rest) post, acc, alog)"
        using src rule len False by (auto simp: read_packet simp flip: addr_def)
      then show ?thesis using len Cons.IH [of s d acc alog] by (simp only:)
    qed
  qed
qed

text \<open>What becomes of an address: the first rule for its place that matches it decides.\<close>

definition translated :: "bool \<Rightarrow> int \<Rightarrow> client_nat_option_list \<Rightarrow> int \<Rightarrow> byte list \<Rightarrow> byte list" where
  "translated big direction rules off a =
     (case find (\<lambda>e. fst (nat_target direction e) = off \<and> native32 big a AND cn_netmask e = fst (nat_rule direction e)) rules of
        None \<Rightarrow> a
      | Some e \<Rightarrow> native_bytes32 big ((native32 big a AND NOT (cn_netmask e)) OR snd (nat_rule direction e)))"

lemma place_bits: "(1 :: u32) AND (x OR 2) = 1 AND x" "(2 :: u32) AND (x OR 1) = 2 AND x"
  "(1 :: u32) AND (x OR 1) = 1" "(2 :: u32) AND (x OR 2) = 2"
  by (simp_all add: bit.conj_disj_distrib)

lemma length_translated [simp]: "length a = 4 \<Longrightarrow> length (translated big direction rules off a) = 4"
  by (simp add: translated_def split: option.split)

lemma nat_walk_translated:
  assumes "length a = 10" "length k = 2" "length s = 4" "length d = 4"
  shows "fst (nat_walk big direction rules (mkbuf pre (ip_packet a k s d rest) post, acc, alog))
     = mkbuf pre (ip_packet a k (if 1 AND alog = 0 then translated big direction rules 12 s else s)
         (if 2 AND alog = 0 then translated big direction rules 16 d else d) rest) post"
  using assms
proof (induction rules arbitrary: s d acc alog)
  case Nil
  then show ?case by (simp add: translated_def)
next
  case (Cons e es)
  obtain frm to where rule: "nat_rule direction e = (frm, to)" by fastforce
  have "nat_target direction e = (16, 2) \<or> nat_target direction e = (12, 1)" by (simp add: nat_target_def)
  then show ?case
    using Cons rule
    by (elim disjE) (simp_all add: read_packet store32_def poke_packet Let_def translated_def place_bits)
qed

subsection \<open>The whole translation\<close>

lemma fix_checksum_packet:
  assumes "even i" "i + 2 \<le> length c" "\<bar>acc\<bar> < 2 ^ 30"
  shows "\<exists>k'. fix_checksum big acc (int i) (mkbuf pre c post) = mkbuf pre (mem_write c i k') post
     \<and> length k' = 2 \<and> 65535 dvd nsum big (mem_write c i k') - (nsum big c + acc)"
proof -
  define k where "k = native16 big (c ! i) (c ! Suc i)"
  define k' where "k' = native_bytes16 big (adjust_checksum acc k)"
  have bytes: "byte_at (mkbuf pre c post) (int i) = c ! i" "byte_at (mkbuf pre c post) (int i + 1) = c ! Suc i"
    using assms by (simp_all add: byte_at_mkbuf nat_add_distrib)
  have len: "length k' = 2" by (simp add: k'_def)
  have "fix_checksum big acc (int i) (mkbuf pre c post) = poke (mkbuf pre c post) (int (length pre) + int i) k'"
    by (simp add: fix_checksum_def bytes flip: k_def k'_def)
  also have "\<dots> = mkbuf pre (mem_write c i k') post"
    using assms len
    by (intro mkbuf_eqI) (simp_all add: poke_def mkbuf_def mem_write_def nat_add_distrib)
  finally have "fix_checksum big acc (int i) (mkbuf pre c post) = mkbuf pre (mem_write c i k') post" .
  moreover have "nsum big (mem_write c i k') = nsum big c - uint k + uint (adjust_checksum acc k)"
  proof -
    have "k' = [k' ! 0, k' ! Suc 0]" by (rule pair_eq) (rule len)
    then show ?thesis
      using nsum_write_word [of i c big "k' ! 0" "k' ! Suc 0"] assms
      by (simp add: k_def) (simp add: k'_def k_def native16_bytes)
  qed
  then have "nsum big (mem_write c i k') - (nsum big c + acc) = uint (adjust_checksum acc k) - (acc + uint k)"
    by simp
  then have "65535 dvd nsum big (mem_write c i k') - (nsum big c + acc)"
    using adjust_checksum_mod [OF assms(3), of k] by (simp only:)
  ultimately show ?thesis using len by blast
qed

lemma account_nsum: "length s = 4 \<Longrightarrow> length d = 4 \<Longrightarrow> account big s d = nsum big s + nsum big d"
  by (simp add: account_def nsum_addr)

definition carries_checksum :: "byte list \<Rightarrow> byte list \<Rightarrow> bool" where
  "carries_checksum a rest \<longleftrightarrow>
     a ! 9 = OPENVPN_IPPROTO_TCP \<and> 20 \<le> length rest \<or> a ! 9 = OPENVPN_IPPROTO_UDP \<and> 8 \<le> length rest"

lemma nsum_packet:
  assumes "length a = 10" "length k = 2" "length s = 4" "length d = 4"
  shows "nsum big (ip_packet a k s d rest) = nsum big a + nsum big k + nsum big s + nsum big d + nsum big rest"
    and "nsum big (a @ k @ s @ d) = nsum big a + nsum big k + nsum big s + nsum big d"
    and "nsum big (s @ d @ rest) = nsum big s + nsum big d + nsum big rest"
  using assms by (simp_all add: ip_packet_def nsum_append)

lemma fix_checksum_segment:
  assumes "length a = 10" "length k = 2" "length s = 4" "length d = 4"
    and "even j" "j + 2 \<le> length rest" "\<bar>acc\<bar> < 2 ^ 30"
  shows "\<exists>rest'. fix_checksum big acc (20 + int j) (mkbuf pre (ip_packet a k s d rest) post)
       = mkbuf pre (ip_packet a k s d rest') post
     \<and> length rest' = length rest \<and> (\<forall>i. i \<noteq> j \<longrightarrow> i \<noteq> Suc j \<longrightarrow> rest' ! i = rest ! i)
     \<and> 65535 dvd nsum big rest' - (nsum big rest + acc)"
proof -
  obtain r' where r': "fix_checksum big acc (int (20 + j)) (mkbuf pre (ip_packet a k s d rest) post)
        = mkbuf pre (mem_write (ip_packet a k s d rest) (20 + j) r') post" "length r' = 2"
      "65535 dvd nsum big (mem_write (ip_packet a k s d rest) (20 + j) r') - (nsum big (ip_packet a k s d rest) + acc)"
    using fix_checksum_packet [of "20 + j" "ip_packet a k s d rest" acc big pre post] assms
    by (auto simp: ip_packet_def)
  have w: "mem_write (ip_packet a k s d rest) (20 + j) r' = ip_packet a k s d (mem_write rest j r')"
    using assms by (simp add: ip_packet_def mem_write_def)
  have "nsum big (ip_packet a k s d (mem_write rest j r')) - (nsum big (ip_packet a k s d rest) + acc)
      = nsum big (mem_write rest j r') - (nsum big rest + acc)"
    using assms by (simp add: nsum_packet)
  then have "65535 dvd nsum big (mem_write rest j r') - (nsum big rest + acc)"
    using r'(3) unfolding w by (simp only:)
  moreover have "mem_write rest j r' ! i = rest ! i" if "i \<noteq> j" "i \<noteq> Suc j" for i
  proof (cases "i < j")
    case False
    then have "j + 2 \<le> i" using that by linarith
    then obtain m where "i = j + 2 + m" using le_Suc_ex by blast
    then show ?thesis using assms(6) r'(2) by (simp add: mem_write_def nth_append)
  qed (use assms(6) r'(2) in \<open>simp add: mem_write_def nth_append\<close>)
  ultimately show ?thesis
    using r'(1,2) assms(6) unfolding w by (intro exI [of _ "mem_write rest j r'"]) simp
qed

text \<open>Where the checksum of a segment is.\<close>

definition checksum_place :: "byte \<Rightarrow> nat set" where
  "checksum_place proto = (if proto = OPENVPN_IPPROTO_TCP then {16, 17} else if proto = OPENVPN_IPPROTO_UDP then {6, 7} else {})"

lemma client_nat_packet:
  assumes "length a = 10" "length k = 2" "length s = 4" "length d = 4"
  shows "\<exists>k' s' d' rest'.
       client_nat_transform big rules (mkbuf pre (ip_packet a k s d rest) post) direction
         = mkbuf pre (ip_packet a k' s' d' rest') post
       \<and> length k' = 2 \<and> length s' = 4 \<and> length d' = 4 \<and> length rest' = length rest
       \<and> s' = translated big direction rules 12 s \<and> d' = translated big direction rules 16 d
       \<and> (\<forall>i. i \<notin> checksum_place (a ! 9) \<longrightarrow> rest' ! i = rest ! i)
       \<and> 65535 dvd nsum big (a @ k' @ s' @ d') - nsum big (a @ k @ s @ d)
       \<and> (carries_checksum a rest \<longrightarrow> 65535 dvd nsum big (s' @ d' @ rest') - nsum big (s @ d @ rest))"
proof -
  define b where "b = mkbuf pre (ip_packet a k s d rest) post"
  obtain s' d' acc alog where walk:
      "nat_walk big direction rules (b, 0, 0) = (mkbuf pre (ip_packet a k s' d' rest) post, acc, alog)"
      "length s' = 4" "length d' = 4" "acc + account big s' d' = account big s d"
      "alog = 0 \<longrightarrow> s' = s \<and> d' = d"
    using nat_walk_packet [OF assms, of big direction rules pre rest post 0 0] by (auto simp: b_def)
  have tr: "s' = translated big direction rules 12 s" "d' = translated big direction rules 16 d"
    using nat_walk_translated [OF assms, of big direction rules pre rest post 0 0] walk(1-3) assms
    by (auto simp: b_def ip_packet_eq)
  have acc: "\<bar>acc\<bar> < 2 ^ 30"
  proof -
    have "\<bar>acc\<bar> \<le> 262140"
      using walk(4) CHECKSUM_32_bound [of "native32 big s"] CHECKSUM_32_bound [of "native32 big d"]
        CHECKSUM_32_bound [of "native32 big s'"] CHECKSUM_32_bound [of "native32 big d'"]
      unfolding account_def by linarith
    then show ?thesis by simp
  qed
  show ?thesis
  proof (cases "alog = 0")
    case True
    then have "client_nat_transform big rules b direction = b"
      using walk by (simp add: client_nat_transform_def b_def)
    then show ?thesis
      using assms walk(5) tr True by (intro exI [of _ k] exI [of _ s] exI [of _ d] exI [of _ rest]) (simp add: b_def)
  next
    case False
    define c1 where "c1 = ip_packet a k s' d' rest"
    obtain k' where k': "fix_checksum big acc 10 (mkbuf pre c1 post) = mkbuf pre (mem_write c1 10 k') post"
        "length k' = 2" "65535 dvd nsum big (mem_write c1 10 k') - (nsum big c1 + acc)"
      using fix_checksum_packet [of 10 c1 acc big pre post] assms acc by (auto simp: c1_def ip_packet_def)
    have c2: "mem_write c1 10 k' = ip_packet a k' s' d' rest"
      using assms k'(2) by (simp add: c1_def ip_packet_def mem_write_def)
    note len = assms(1) k'(2) walk(2,3)
    have diff: "65535 dvd nsum big k' - (nsum big k + acc)"
    proof -
      have "nsum big (ip_packet a k' s' d' rest) - (nsum big (ip_packet a k s' d' rest) + acc)
          = nsum big k' - (nsum big k + acc)"
        using len assms by (simp add: nsum_packet)
      then show ?thesis using k'(3) unfolding c2 unfolding c1_def by (simp only:)
    qed
    have acc_eq: "acc = nsum big s + nsum big d - (nsum big s' + nsum big d')"
      using walk(2-4) assms by (simp add: account_nsum)
    define b2 where "b2 = mkbuf pre (ip_packet a k' s' d' rest) post"
    have nine: "byte_at b2 9 = a ! 9" "buf_len b2 = 20 + int (length rest)"
      using len by (simp_all add: b2_def byte_at_mkbuf ip_packet_def nth_append)
    have head: "65535 dvd nsum big (a @ k' @ s' @ d') - nsum big (a @ k @ s @ d)"
    proof -
      have "nsum big (a @ k' @ s' @ d') - nsum big (a @ k @ s @ d) = nsum big k' - (nsum big k + acc)"
        using len assms by (simp add: nsum_packet acc_eq)
      then show ?thesis using diff by (simp only:)
    qed
    have transform: "client_nat_transform big rules b direction
      = (if a ! 9 = OPENVPN_IPPROTO_TCP then if 20 \<le> length rest then fix_checksum big acc (20 + int 16) b2 else b2
         else if a ! 9 = OPENVPN_IPPROTO_UDP then if 8 \<le> length rest then fix_checksum big acc (20 + int 6) b2 else b2
         else b2)"
      using walk(1) False k'(1) c2 nine
      by (simp add: client_nat_transform_def header_sizes Let_def flip: c1_def b2_def)
    show ?thesis
    proof (cases "carries_checksum a rest")
      case True
      then have "\<exists>j. even j \<and> j + 2 \<le> length rest \<and> {j, Suc j} = checksum_place (a ! 9)
          \<and> client_nat_transform big rules b direction = fix_checksum big acc (20 + int j) b2"
        unfolding carries_checksum_def
      proof (elim disjE conjE)
        assume "a ! 9 = OPENVPN_IPPROTO_TCP" "20 \<le> length rest"
        then show ?thesis using transform by (intro exI [of _ 16]) (simp add: checksum_place_def)
      next
        assume "a ! 9 = OPENVPN_IPPROTO_UDP" "8 \<le> length rest"
        then show ?thesis using transform by (intro exI [of _ 6]) (simp add: inet_consts checksum_place_def)
      qed
      then obtain j where j: "even j" "j + 2 \<le> length rest" "{j, Suc j} = checksum_place (a ! 9)"
          "client_nat_transform big rules b direction = fix_checksum big acc (20 + int j) b2"
        by blast
      then obtain rest' where "client_nat_transform big rules b direction = mkbuf pre (ip_packet a k' s' d' rest') post"
          "length rest' = length rest" "65535 dvd nsum big rest' - (nsum big rest + acc)"
          "\<forall>i. i \<noteq> j \<longrightarrow> i \<noteq> Suc j \<longrightarrow> rest' ! i = rest ! i"
        using fix_checksum_segment [OF len j(1,2) acc, of big pre post] by (auto simp: b2_def)
      note r = this
      have "nsum big (s' @ d' @ rest') - nsum big (s @ d @ rest) = nsum big rest' - (nsum big rest + acc)"
        using len assms by (simp add: nsum_packet acc_eq)
      then have "65535 dvd nsum big (s' @ d' @ rest') - nsum big (s @ d @ rest)" using r(3) by (simp only:)
      moreover have "\<forall>i. i \<notin> checksum_place (a ! 9) \<longrightarrow> rest' ! i = rest ! i" using r(4) by (auto simp flip: j(3))
      ultimately show ?thesis using r(1,2) len head tr unfolding b_def by blast
    next
      case False
      then have "client_nat_transform big rules b direction = b2"
        using transform by (auto simp: carries_checksum_def)
      then show ?thesis using len head False tr unfolding b_def b2_def by blast
    qed
  qed
qed

subsection \<open>Properties\<close>

text \<open>The receiver's check of a header: its words, folded, give all ones.\<close>

definition ip_header_ok :: "byte list \<Rightarrow> bool" where
  "ip_header_ok c \<longleftrightarrow> fold_carries (sum_words (take 20 c) 0) = 0xFFFF"

lemma ip_header_ok_iff: "ip_header_ok c \<longleftrightarrow> 0 < nsum True (take 20 c) \<and> 65535 dvd nsum True (take 20 c)"
proof -
  define s where "s = sum_words (take 20 c) 0"
  have "nsum True (take 20 c) < 2 ^ 32"
    using nsum_bound [of True "take 20 c"] by (simp add: min_def split: if_splits)
  then have s: "uint s = nsum True (take 20 c)" by (simp add: s_def uint_sum_words)
  have f: "65535 dvd uint (fold_carries s) - uint s" "uint (fold_carries s) < 65536"
      "fold_carries s = 0 \<longleftrightarrow> s = 0"
    by (rule fold_carries_mod)+
  have "fold_carries s = 0xFFFF \<longleftrightarrow> uint (fold_carries s) = 65535"
    by (simp add: word_uint_eq_iff)
  also have "\<dots> \<longleftrightarrow> s \<noteq> 0 \<and> 65535 dvd uint (fold_carries s)" by (rule all_ones_iff [OF f(2,3)])
  also have "65535 dvd uint (fold_carries s) \<longleftrightarrow> 65535 dvd uint s" using f(1) by (rule dvd_of_diff)
  also have "s \<noteq> 0 \<longleftrightarrow> 0 < uint s" by (simp add: word_neq_0_conv word_less_def)
  finally show ?thesis by (simp add: ip_header_ok_def s flip: s_def)
qed

lemma nsum_pos: "x \<in> set c \<Longrightarrow> x \<noteq> 0 \<Longrightarrow> 0 < nsum big c"
proof (induction big c rule: nsum.induct)
  case (1 big y z r)
  have pos: "0 < uint x" if "x \<noteq> 0" using that by (simp add: word_neq_0_conv word_less_def)
  consider "x = y \<or> x = z" | "x \<in> set r" using 1 by auto
  then show ?case
  proof cases
    case 1
    then have "0 < uint (native16 big y z)"
    proof -
      have "0 < uint y \<or> 0 < uint z" using pos 1 "1.prems"(2) by auto
      then show ?thesis
        unfolding uint_native16 using uint_ge_0 [of y] uint_ge_0 [of z] by (cases big) (simp_all only: if_True if_False, linarith+)
    qed
    then show ?thesis using nsum_nonneg [of big r] by simp
  next
    case 2
    then show ?thesis using "1.IH" "1.prems" by (simp add: add_nonneg_pos)
  qed
next
  case (2 big y)
  then have "0 < uint y" by (simp add: word_neq_0_conv word_less_def)
  then show ?case by (simp add: uint_native16)
qed simp

lemma split_packet:
  assumes "20 \<le> length c"
  shows "c = ip_packet (take 10 c) (take 2 (drop 10 c)) (take 4 (drop 12 c)) (take 4 (drop 16 c)) (drop 20 c)"
proof -
  have step: "drop i c = take n (drop i c) @ drop (n + i) c" for i n
    by (metis append_take_drop_id drop_drop)
  have "c = take 10 c @ take 2 (drop 10 c) @ take 4 (drop 12 c) @ take 4 (drop 16 c) @ drop 20 c"
    using step [of 0 10] step [of 10 2] step [of 12 4] step [of 16 4] by simp
  then show ?thesis by (simp add: ip_packet_def)
qed

text \<open>
  C14: \<open>client_nat_transform\<close> translates the two addresses of a TCP or UDP packet and keeps it valid,
  whatever the rules, the direction and the byte order of the machine. Each address becomes what the
  first rule for its place that matches it says, or stays; every other byte stays what it was but for
  the checksum of the IP header and that of the segment; the header (without options) verifies
  afterwards when it did before, and so does the segment, with the new addresses in its pseudo header.
\<close>

theorem client_nat_keeps_checksums:
  assumes "live b" "20 \<le> length (content b)" "length (content b) < 65536"
    and "out = content (client_nat_transform big rules b direction)"
    and "ip_header_ok (content b)"
    and "proto = OPENVPN_IPPROTO_TCP \<and> 40 \<le> length (content b) \<or> proto = OPENVPN_IPPROTO_UDP \<and> 28 \<le> length (content b)"
    and "content b ! 9 = proto"
    and "ip_checksum AF_INET (drop 20 (content b)) (take 4 (drop 12 (content b))) (take 4 (drop 16 (content b))) proto = 0"
  shows "length out = length (content b) \<and> take 10 out = take 10 (content b)
     \<and> take 4 (drop 12 out) = translated big direction rules 12 (take 4 (drop 12 (content b)))
     \<and> take 4 (drop 16 out) = translated big direction rules 16 (take 4 (drop 16 (content b)))
     \<and> (\<forall>i. i \<notin> checksum_place proto \<longrightarrow> drop 20 out ! i = drop 20 (content b) ! i)
     \<and> ip_header_ok out
     \<and> ip_checksum AF_INET (drop 20 out) (take 4 (drop 12 out)) (take 4 (drop 16 out)) proto = 0"
proof -
  obtain pre c post where b: "b = mkbuf pre c post" "content b = c" using assms(1) by (rule live_split)
  define a k s d rest where parts: "a = take 10 c" "k = take 2 (drop 10 c)" "s = take 4 (drop 12 c)"
    "d = take 4 (drop 16 c)" "rest = drop 20 c"
  have len: "length a = 10" "length k = 2" "length s = 4" "length d = 4"
    using assms(2) b by (simp_all add: parts)
  have c: "c = ip_packet a k s d rest" unfolding parts using assms(2) b by (intro split_packet) simp
  have carries: "carries_checksum a rest"
    using assms(6,7) b by (auto simp: carries_checksum_def parts)
  obtain k' s' d' rest' where r: "out = ip_packet a k' s' d' rest'"
      "length k' = 2" "length s' = 4" "length d' = 4" "length rest' = length rest"
      "s' = translated big direction rules 12 s" "d' = translated big direction rules 16 d"
      "\<forall>i. i \<notin> checksum_place (a ! 9) \<longrightarrow> rest' ! i = rest ! i"
      "65535 dvd nsum big (a @ k' @ s' @ d') - nsum big (a @ k @ s @ d)"
      "65535 dvd nsum big (s' @ d' @ rest') - nsum big (s @ d @ rest)"
    using client_nat_packet [OF len, of big rules pre rest post direction] carries b(1) c assms(4) by auto
  have outs: "take 20 out = a @ k' @ s' @ d'" "drop 20 out = rest'" "take 4 (drop 12 out) = s'"
      "take 4 (drop 16 out) = d'"
    using r len by (simp_all add: ip_packet_def)
  have ins: "take 20 c = a @ k @ s @ d" "drop 20 c = rest" "take 4 (drop 12 c) = s" "take 4 (drop 16 c) = d"
    using c len by (simp_all add: ip_packet_def)
  have proto: "0 < uint proto"
    using assms(6) by (auto simp: inet_consts)
  have "ip_header_ok out"
  proof -
    have "0 < nsum True (take 20 out)"
    proof (rule nsum_pos)
      show "out ! 9 \<in> set (take 20 out)" using r len by (simp add: ip_packet_def in_set_conv_nth nth_append exI [of _ 9])
      have "out ! 9 = proto" using r(1) c len assms(7) b by (simp add: ip_packet_def nth_append)
      then show "out ! 9 \<noteq> 0" using proto by auto
    qed
    moreover have diff: "65535 dvd nsum True (take 20 out) - nsum True (take 20 c)"
      unfolding outs ins using r(9) by (rule nsum_same_any_order)
    have "65535 dvd nsum True (take 20 c)" using assms(5) b by (simp add: ip_header_ok_iff)
    then have "65535 dvd nsum True (take 20 out)" using dvd_of_diff [OF diff] by blast
    ultimately show ?thesis unfolding ip_header_ok_iff by blast
  qed
  moreover have "ip_checksum AF_INET (drop 20 out) (take 4 (drop 12 out)) (take 4 (drop 16 out)) proto = 0"
  proof -
    have sum: "pseudo_sum AF_INET x u v proto = nsum True (u @ v @ x) + int (length x) + uint proto"
      if "length u = 4" "length v = 4" for x u v
      using that by (simp add: pseudo_sum_def nsum_append)
    have short: "length rest < 65536" using assms(3) b by (simp add: parts)
    have old: "65535 dvd pseudo_sum AF_INET rest s d proto"
      using assms(8) short b(2) by (simp add: ip_checksum_zero_iff ins)
    have "65535 dvd nsum True (s' @ d' @ rest') - nsum True (s @ d @ rest)"
      using r(10) by (rule nsum_same_any_order)
    moreover have "pseudo_sum AF_INET rest' s' d' proto - pseudo_sum AF_INET rest s d proto
        = nsum True (s' @ d' @ rest') - nsum True (s @ d @ rest)"
      using len r by (simp add: sum)
    ultimately have "65535 dvd pseudo_sum AF_INET rest' s' d' proto - pseudo_sum AF_INET rest s d proto"
      by (simp only:)
    then have "65535 dvd pseudo_sum AF_INET rest' s' d' proto" using old dvd_of_diff by blast
    moreover have "0 < pseudo_sum AF_INET rest' s' d' proto"
      using proto nsum_nonneg [of True "s' @ d' @ rest'"] len r by (simp add: sum)
    ultimately show ?thesis using short r(5) by (simp add: outs ip_checksum_zero_iff)
  qed
  moreover have "a ! 9 = proto" using assms(7) b by (simp add: parts)
  moreover have "length out = length c" "take 10 out = take 10 c"
    unfolding c unfolding r(1) using r(2-5) len by (simp_all add: ip_packet_def)
  ultimately show ?thesis using r(6-8) ins(2-4) outs(2-4) b(2) by simp
qed

definition demo_rules :: "client_nat_option_list" where
  "demo_rules = [\<lparr>cn_type = CN_SNAT, cn_network = 0x0A080000, cn_netmask = 0xFFFF0000,
     cn_foreign_network = 0xC0A80000\<rparr>]"

definition udp_packet :: "byte list" where
  "udp_packet = [69, 0, 0, 32, 0, 1, 64, 0, 64, 17, 111, 21, 10, 8, 0, 6, 192, 168, 1, 1, 192, 1, 0, 53, 0, 12, 111, 226, 1, 2, 3, 4]"

theorem client_nat_keeps_checksums_witness:
  "ip_header_ok (content (client_nat_transform True demo_rules (mkbuf [] udp_packet []) CN_OUTGOING))
     \<and> take 4 (drop 12 (content (client_nat_transform True demo_rules (mkbuf [] udp_packet []) CN_OUTGOING)))
       = [192, 168, 0, 6]"
proof
  have facts: "live (mkbuf [] udp_packet [])" "20 \<le> length (content (mkbuf [] udp_packet []))"
    "length (content (mkbuf [] udp_packet [])) < 65536" "content (mkbuf [] udp_packet []) ! 9 = OPENVPN_IPPROTO_UDP"
    "28 \<le> length (content (mkbuf [] udp_packet []))"
    by (simp_all add: small_def BUF_SIZE_MAX_def udp_packet_def inet_consts)
  have head: "ip_header_ok (content (mkbuf [] udp_packet []))" by code_simp
  have sum: "ip_checksum AF_INET (drop 20 (content (mkbuf [] udp_packet [])))
     (take 4 (drop 12 (content (mkbuf [] udp_packet [])))) (take 4 (drop 16 (content (mkbuf [] udp_packet []))))
     OPENVPN_IPPROTO_UDP = 0"
    by code_simp
  show "ip_header_ok (content (client_nat_transform True demo_rules (mkbuf [] udp_packet []) CN_OUTGOING))"
    using client_nat_keeps_checksums [OF facts(1-3) refl head disjI2 facts(4) sum] facts(5) by blast
  show "take 4 (drop 12 (content (client_nat_transform True demo_rules (mkbuf [] udp_packet []) CN_OUTGOING)))
       = [192, 168, 0, 6]"
    by code_simp
qed

text \<open>
  A UDP packet that carries no checksum (the field is zero) leaves \<open>client_nat_transform\<close>
  with a field that is not zero and does not verify, so the receiver drops it.
\<close>

definition plain_udp_packet :: "byte list" where
  "plain_udp_packet = [69, 0, 0, 32, 0, 1, 64, 0, 64, 17, 111, 21, 10, 8, 0, 6, 192, 168, 1, 1, 192, 1, 0, 53, 0, 12, 0, 0, 1, 2, 3, 4]"

theorem client_nat_breaks_plain_udp:
  "ip_header_ok plain_udp_packet \<and> plain_udp_packet ! 26 = 0 \<and> plain_udp_packet ! 27 = 0
   \<and> (let out = content (client_nat_transform True demo_rules (mkbuf [] plain_udp_packet []) CN_OUTGOING)
      in (out ! 26 \<noteq> 0 \<or> out ! 27 \<noteq> 0)
         \<and> ip_checksum AF_INET (drop 20 out) (take 4 (drop 12 out)) (take 4 (drop 16 out)) OPENVPN_IPPROTO_UDP \<noteq> 0)"
  by code_simp

text \<open>
  A 34-byte Ethernet frame with an 802.1Q tag passes \<open>is_ipv4\<close>, which checks the length for an
  untagged one and leaves 16 bytes; \<open>client_nat_transform\<close> then translates a destination address
  that lies behind the end of the packet, in bytes of the block that do not belong to it.
\<close>

definition tagged_frame :: "byte list" where
  "tagged_frame = [1, 1, 1, 1, 1, 1, 2, 2, 2, 2, 2, 2, 0x81, 0, 0, 5, 8, 0,
     69, 0, 0, 20, 0, 1, 64, 0, 64, 17, 0, 0, 192, 168, 1, 1]"

theorem client_nat_writes_past_short_frame:
  "length tagged_frame = 34
   \<and> is_ipv4 DEV_TYPE_TAP (mkbuf [] tagged_frame [192, 168, 0, 6])
     = (True, mkbuf (take 18 tagged_frame) (drop 18 tagged_frame) [192, 168, 0, 6])
   \<and> length (drop 18 tagged_frame) = 16
   \<and> drop 34 (block (client_nat_transform True demo_rules
        (mkbuf (take 18 tagged_frame) (drop 18 tagged_frame) [192, 168, 0, 6]) CN_INCOMING)) = [10, 8, 0, 6]"
  by code_simp

end
