(* ===== verification/Dhcp.thy ===== *)
theory Dhcp
  imports Clinat
begin

text \<open>
  \<^verbatim>\<open>dhcp.c\<close> and \<^verbatim>\<open>dhcp.h\<close>: taking the router option out of the DHCP replies that pass
  through a TAP tunnel, and recomputing the UDP checksum of the packet.

  \<open>get_dhcp_message_type\<close> and \<open>do_extract\<close> walk over the option bytes \<open>p\<close> with the index \<open>i\<close>;
  a router option is cut out by moving the bytes behind it and padding the tail, so \<open>do_extract\<close>
  returns the bytes too. It ends because a cut removes a byte that is not a pad and every other
  step moves the index.

  The lemmas: what the walk does to a message built from a list of options (it returns the first
  usable router address and leaves the other options in order), and that a checksum computed over
  a segment with a zero checksum field makes the segment verify.
\<close>

definition DHCP_PAD :: byte where "DHCP_PAD = 0"
definition DHCP_ROUTER :: byte where "DHCP_ROUTER = 3"
definition DHCP_MSG_TYPE :: byte where "DHCP_MSG_TYPE = 53"
definition DHCP_END :: byte where "DHCP_END = 255"
definition DHCPOFFER :: int where "DHCPOFFER = 2"
definition DHCPACK :: int where "DHCPACK = 5"
definition BOOTPS_PORT :: u16 where "BOOTPS_PORT = 67"
definition BOOTPC_PORT :: u16 where "BOOTPC_PORT = 68"
definition BOOTREPLY :: byte where "BOOTREPLY = 2"
definition DHCP_SIZE :: int where "DHCP_SIZE = 240"

lemmas dhcp_consts = DHCP_PAD_def DHCP_ROUTER_def DHCP_MSG_TYPE_def DHCP_END_def DHCPOFFER_def
  DHCPACK_def BOOTPS_PORT_def BOOTPC_PORT_def BOOTREPLY_def DHCP_SIZE_def

function get_dhcp_message_type :: "nat \<Rightarrow> byte list \<Rightarrow> int" where
  "get_dhcp_message_type i p =
     (if length p \<le> i then -1
      else let type = p ! i; room = length p - i
           in if type = DHCP_END then -1
              else if type = DHCP_PAD then get_dhcp_message_type (i + 1) p
              else if type = DHCP_MSG_TYPE
              then (if room \<ge> 3 \<and> p ! (i + 1) = 1 then uint (p ! (i + 2)) else -1)
              else if room \<ge> 2 then get_dhcp_message_type (i + unat (p ! (i + 1)) + 1 + 1) p
              else get_dhcp_message_type (i + 1) p)"
  by pat_completeness auto

termination get_dhcp_message_type
  by (relation "measure (\<lambda>(i, p). length p - i)") auto

definition cut_option :: "nat \<Rightarrow> nat \<Rightarrow> byte list \<Rightarrow> byte list" where
  "cut_option i len p = take i p @ drop (i + (len + 2)) p @ replicate (len + 2) DHCP_PAD"

function do_extract :: "nat \<Rightarrow> u32 \<Rightarrow> byte list \<Rightarrow> u32 \<times> byte list" where
  "do_extract i ret p =
     (if length p \<le> i then (ret, p)
      else let type = p ! i; room = length p - i
           in if type = DHCP_END then (ret, p)
              else if type = DHCP_PAD then do_extract (i + 1) ret p
              else if type = DHCP_ROUTER
              then (if room \<ge> 2
                    then (let len = unat (p ! (i + 1))
                          in if len \<le> room - 2
                             then do_extract i
                                    (if ret = 0 \<and> len \<ge> 4 \<and> len mod 4 = 0
                                     then un_be32 (mem_read p (i + 2) 4) else ret)
                                    (cut_option i len p)
                             else (ret, p))
                    else (ret, p))
              else if room \<ge> 2 then do_extract (i + (unat (p ! (i + 1)) + 2)) ret p
              else (ret, p))"
  by pat_completeness auto

definition used_from :: "nat \<Rightarrow> byte list \<Rightarrow> nat" where
  "used_from i p = length (filter (\<lambda>x. x \<noteq> DHCP_PAD) (drop i p))"

lemma used_from_mono: "i \<le> j \<Longrightarrow> used_from j p \<le> used_from i p"
proof -
  assume "i \<le> j"
  then have "drop i p = take (j - i) (drop i p) @ drop j p"
    by (metis append_take_drop_id drop_drop le_add_diff_inverse2)
  then have "filter (\<lambda>x. x \<noteq> DHCP_PAD) (drop i p)
      = filter (\<lambda>x. x \<noteq> DHCP_PAD) (take (j - i) (drop i p)) @ filter (\<lambda>x. x \<noteq> DHCP_PAD) (drop j p)"
    by (metis filter_append)
  then show ?thesis by (simp add: used_from_def)
qed

lemma length_cut_option [simp]: "i + (len + 2) \<le> length p \<Longrightarrow> length (cut_option i len p) = length p"
  by (simp add: cut_option_def)

lemma used_from_cut:
  assumes "p ! i \<noteq> DHCP_PAD" "i + (len + 2) \<le> length p"
  shows "used_from i (cut_option i len p) < used_from i p"
proof -
  have "used_from i (cut_option i len p) = used_from (i + (len + 2)) p"
    using assms(2) by (simp add: used_from_def cut_option_def)
  also have "\<dots> \<le> used_from (Suc i) p" by (rule used_from_mono) simp
  also have "\<dots> < used_from i p"
    using assms Cons_nth_drop_Suc [of i p] by (auto simp: used_from_def simp flip: Cons_nth_drop_Suc)
  finally show ?thesis .
qed

termination do_extract
proof (relation "measure (\<lambda>(i, ret, p). used_from i p + (length p - i))", goal_cases)
  case (2 i ret p)
  then show ?case using used_from_mono [of i "i + 1" p] by simp
next
  case (3 i ret p)
  have "i + (unat (p ! (i + 1)) + 2) \<le> length p" "p ! i \<noteq> DHCP_PAD"
    using 3 by (simp_all add: dhcp_consts)
  with used_from_cut [OF this(2,1)] 3 show ?case by simp
next
  case (4 i ret p)
  then show ?case using used_from_mono [of i "i + (unat (p ! (i + 1)) + 2)" p] by simp
qed simp

declare get_dhcp_message_type.simps [simp del] do_extract.simps [simp del]

text \<open>The packet: IP header, UDP header at 20, DHCP message at 28, options at 268.\<close>

definition dhcp_extract_router_msg :: "buffer \<Rightarrow> u32 \<times> buffer" where
  "dhcp_extract_router_msg ipbuf =
     (let optlen = buf_len ipbuf - (IPHDR_SIZE + UDPHDR_SIZE + DHCP_SIZE)
      in if optlen \<ge> 0 \<and> byte_at ipbuf 9 = OPENVPN_IPPROTO_UDP \<and> net16_at ipbuf 20 = BOOTPS_PORT
            \<and> net16_at ipbuf 22 = BOOTPC_PORT \<and> byte_at ipbuf 28 = BOOTREPLY
         then (let opts = drop 268 (content ipbuf);
                   message_type = get_dhcp_message_type 0 opts
               in if message_type = DHCPACK \<or> message_type = DHCPOFFER
                  then (let (ret, opts') = do_extract 0 0 opts;
                            b1 = poke ipbuf (boff ipbuf + 268) opts';
                            b2 = poke b1 (boff ipbuf + 26) [0, 0];
                            c = content b2;
                            check = ip_checksum AF_INET (drop 20 c) (mem_read c 12 4) (mem_read c 16 4)
                                      OPENVPN_IPPROTO_UDP;
                            b3 = poke b2 (boff ipbuf + 26) (be16 check)
                        in (if message_type = DHCPACK then ret else 0, b3))
                  else (0, ipbuf))
         else (0, ipbuf))"

subsection \<open>Messages built from options\<close>

datatype dhcp_item = Pad | Opt byte "byte list"

fun enc_item :: "dhcp_item \<Rightarrow> byte list" where
  "enc_item Pad = [DHCP_PAD]"
| "enc_item (Opt t d) = t # of_nat (length d) # d"

fun item_ok :: "dhcp_item \<Rightarrow> bool" where
  "item_ok Pad \<longleftrightarrow> True"
| "item_ok (Opt t d) \<longleftrightarrow> t \<noteq> DHCP_PAD \<and> t \<noteq> DHCP_END \<and> length d < 256"

fun is_router :: "dhcp_item \<Rightarrow> bool" where
  "is_router Pad \<longleftrightarrow> False"
| "is_router (Opt t d) \<longleftrightarrow> t = DHCP_ROUTER"

definition router_of :: "u32 \<Rightarrow> byte list \<Rightarrow> u32" where
  "router_of ret d = (if ret = 0 \<and> length d \<ge> 4 \<and> length d mod 4 = 0 then un_be32 (take 4 d) else ret)"

fun first_router :: "u32 \<Rightarrow> dhcp_item list \<Rightarrow> u32" where
  "first_router ret [] = ret"
| "first_router ret (Opt t d # r) = first_router (if t = DHCP_ROUTER then router_of ret d else ret) r"
| "first_router ret (Pad # r) = first_router ret r"

definition enc_items :: "dhcp_item list \<Rightarrow> byte list" where
  "enc_items items = concat (map enc_item items)"

lemma enc_items_simps [simp]:
  "enc_items [] = []" "enc_items (x # xs) = enc_item x @ enc_items xs" "enc_items (xs @ ys) = enc_items xs @ enc_items ys"
  by (simp_all add: enc_items_def)

lemma un_be32_take: "4 \<le> length d \<Longrightarrow> un_be32 (take 4 d) = un_be32 d"
  by (simp add: un_be32_def)

lemma unat_of_nat_byte: "n < 256 \<Longrightarrow> unat (of_nat n :: byte) = n"
  by (simp add: unat_of_nat)

lemma do_extract_step:
  defines "p t d r dn \<equiv> dn @ t # of_nat (length d) # d @ r"
  assumes "t \<noteq> DHCP_PAD" "t \<noteq> DHCP_END" "length d < 256"
  shows "t \<noteq> DHCP_ROUTER \<Longrightarrow> do_extract (length dn) ret (p t d r dn)
            = do_extract (length (dn @ t # of_nat (length d) # d)) ret (p t d r dn)"
    and "t = DHCP_ROUTER \<Longrightarrow> do_extract (length dn) ret (p t d r dn)
            = do_extract (length dn) (router_of ret d) (dn @ r @ replicate (length d + 2) DHCP_PAD)"
proof -
  have p: "p t d r dn ! length dn = t" "p t d r dn ! Suc (length dn) = of_nat (length d)"
      "length (p t d r dn) = length dn + 2 + length d + length r"
    by (simp_all add: p_def nth_append)
  note facts = p assms(2-4) unat_of_nat_byte [OF assms(4)]
  show "do_extract (length dn) ret (p t d r dn)
      = do_extract (length (dn @ t # of_nat (length d) # d)) ret (p t d r dn)" if "t \<noteq> DHCP_ROUTER"
    by (subst do_extract.simps) (use that facts in \<open>simp add: Let_def\<close>)
  show "do_extract (length dn) ret (p t d r dn)
      = do_extract (length dn) (router_of ret d) (dn @ r @ replicate (length d + 2) DHCP_PAD)" if "t = DHCP_ROUTER"
  proof -
    have "cut_option (length dn) (length d) (p t d r dn) = dn @ r @ replicate (length d + 2) DHCP_PAD"
      by (simp add: cut_option_def p_def)
    moreover have "mem_read (p t d r dn) (Suc (Suc (length dn))) 4 = take 4 (d @ r)"
      by (simp add: mem_read_def p_def)
    ultimately show ?thesis
      by (subst do_extract.simps) (use that facts in \<open>auto simp: Let_def router_of_def\<close>)
  qed
qed

lemma do_extract_items:
  "list_all item_ok items \<Longrightarrow>
     \<exists>k. do_extract (length dn) ret (dn @ enc_items items @ DHCP_END # junk)
       = (first_router ret items, dn @ enc_items (filter (\<lambda>x. \<not> is_router x) items) @ DHCP_END # junk @ replicate k DHCP_PAD)"
proof (induction items arbitrary: dn ret junk)
  case Nil
  have "do_extract (length dn) ret (dn @ DHCP_END # junk) = (ret, dn @ DHCP_END # junk)"
    by (subst do_extract.simps) (simp add: nth_append)
  then show ?case by (intro exI [of _ 0]) simp
next
  case (Cons x xs)
  show ?case
  proof (cases x)
    case Pad
    have "do_extract (length dn) ret (dn @ DHCP_PAD # enc_items xs @ DHCP_END # junk)
        = do_extract (length (dn @ [DHCP_PAD])) ret ((dn @ [DHCP_PAD]) @ enc_items xs @ DHCP_END # junk)"
      by (subst do_extract.simps) (simp add: nth_append DHCP_PAD_def DHCP_END_def)
    moreover obtain k where "do_extract (length (dn @ [DHCP_PAD])) ret ((dn @ [DHCP_PAD]) @ enc_items xs @ DHCP_END # junk)
        = (first_router ret xs, (dn @ [DHCP_PAD]) @ enc_items (filter (\<lambda>x. \<not> is_router x) xs) @ DHCP_END #
            junk @ replicate k DHCP_PAD)"
    proof -
      have "list_all item_ok xs" using Cons.prems by simp
      then show ?thesis using that Cons.IH by blast
    qed
    ultimately show ?thesis using Pad by (intro exI [of _ k]) simp
  next
    case (Opt t d)
    then have ok: "t \<noteq> DHCP_PAD" "t \<noteq> DHCP_END" "length d < 256" "list_all item_ok xs"
      using Cons.prems by simp_all
    show ?thesis
    proof (cases "t = DHCP_ROUTER")
      case True
      obtain k where "do_extract (length dn) (router_of ret d)
            (dn @ enc_items xs @ DHCP_END # (junk @ replicate (length d + 2) DHCP_PAD))
          = (first_router (router_of ret d) xs, dn @ enc_items (filter (\<lambda>x. \<not> is_router x) xs) @ DHCP_END #
              (junk @ replicate (length d + 2) DHCP_PAD) @ replicate k DHCP_PAD)"
        using Cons.IH [OF ok(4)] by blast
      then show ?thesis
        using do_extract_step(2) [OF ok(1-3) True, of dn ret "enc_items xs @ DHCP_END # junk"] Opt True
        by (intro exI [of _ "length d + 2 + k"]) (simp add: replicate_add)
    next
      case False
      obtain k where "do_extract (length (dn @ t # of_nat (length d) # d)) ret
            ((dn @ t # of_nat (length d) # d) @ enc_items xs @ DHCP_END # junk)
          = (first_router ret xs, (dn @ t # of_nat (length d) # d) @ enc_items (filter (\<lambda>x. \<not> is_router x) xs) @ DHCP_END #
              junk @ replicate k DHCP_PAD)"
        using Cons.IH [OF ok(4)] by blast
      then show ?thesis
        using do_extract_step(1) [OF ok(1-3) False, of dn ret "enc_items xs @ DHCP_END # junk"] Opt False
        by (intro exI [of _ k]) simp
    qed
  qed
qed

lemma length_do_extract: "length (snd (do_extract i ret p)) = length p"
proof (induction i ret p rule: do_extract.induct)
  case (1 i ret p)
  show ?case by (subst do_extract.simps) (use 1 in \<open>auto simp: Let_def\<close>)
qed

subsection \<open>The recomputed checksum\<close>

lemma store_checksum_verifies:
  assumes "even i" "i + 2 \<le> length c" "length c < 65536" "c ! i = 0" "c ! Suc i = 0" "proto \<noteq> 0"
  shows "ip_checksum af (mem_write c i (be16 (ip_checksum af c src dst proto))) src dst proto = 0"
proof -
  define s where "s = ip_checksum_sum af c src dst proto"
  define f where "f = fold_carries s"
  define k where "k = ip_checksum af c src dst proto"
  define c' where "c' = mem_write c i (be16 k)"
  have s: "uint s = pseudo_sum af c src dst proto" unfolding s_def using assms(3) by (rule uint_ip_checksum_sum)
  have f: "65535 dvd uint f - uint s" "uint f < 65536" unfolding f_def by (rule fold_carries_mod)+
  have k: "uint k = 65535 - uint f"
  proof -
    have "k = NOT (ucast f)" by (simp add: k_def ip_checksum_def f_def s_def)
    moreover have "uint (ucast f :: u16) = uint f"
      using f(2) by (simp add: unsigned_ucast_eq take_bit_eq_mod)
    moreover have "uint (NOT w) = 65535 - uint w" for w :: u16
      using uint_u16_less [of w] by (simp add: unsigned_not_eq take_bit_eq_mod not_int_def not_mod_65536)
    ultimately show ?thesis by simp
  qed
  have "nsum True c' = nsum True c + uint k"
  proof -
    have "be16 k = [be16 k ! 0, be16 k ! Suc 0]" by (rule pair_eq) simp
    then have "nsum True c' = nsum True (mem_write c i [be16 k ! 0, be16 k ! Suc 0])" unfolding c'_def by metis
    also have "\<dots> = nsum True c + uint k"
      using nsum_write_word [of i c True "be16 k ! 0" "be16 k ! Suc 0"] native16_bytes [of True k] assms
      by (simp add: native_bytes16_def native16_def un_be16_def)
    finally show ?thesis .
  qed
  then have sum: "pseudo_sum af c' src dst proto = uint s + (65535 - uint f)"
    using assms by (simp add: pseudo_sum_def Let_def s k c'_def)
  have "65535 dvd pseudo_sum af c' src dst proto"
  proof -
    have "uint s + (65535 - uint f) = 65535 - (uint f - uint s)" by simp
    then show ?thesis using f(1) by (metis dvd_diff dvd_refl sum)
  qed
  moreover have "0 < pseudo_sum af c' src dst proto"
    using assms(6) nsum_nonneg uint_ge_0 [of proto]
    by (auto simp: pseudo_sum_def Let_def word_neq_0_conv word_less_def intro!: add_nonneg_pos add_nonneg_nonneg)
  ultimately show ?thesis
    using assms by (simp add: ip_checksum_zero_iff c'_def k_def)
qed

subsection \<open>Property\<close>

lemma poke_mkbuf_at:
  "i + length ys \<le> length c \<Longrightarrow>
     poke (mkbuf pre c post) (int (length pre) + int i) ys = mkbuf pre (mem_write c i ys) post"
  by (rule mkbuf_eqI) (simp_all add: poke_def mkbuf_def mem_write_def nat_add_distrib)

definition is_dhcp_reply :: "byte list \<Rightarrow> bool" where
  "is_dhcp_reply c \<longleftrightarrow>
     268 \<le> length c \<and> c ! 9 = OPENVPN_IPPROTO_UDP \<and> un_be16 [c ! 20, c ! 21] = BOOTPS_PORT
     \<and> un_be16 [c ! 22, c ! 23] = BOOTPC_PORT \<and> c ! 28 = BOOTREPLY
     \<and> get_dhcp_message_type 0 (drop 268 c) \<in> {DHCPACK, DHCPOFFER}"

lemma dhcp_extract_mkbuf:
  assumes "is_dhcp_reply c"
  defines "c1 \<equiv> mem_write (mem_write c 268 (snd (do_extract 0 0 (drop 268 c)))) 26 [0, 0]"
  shows "dhcp_extract_router_msg (mkbuf pre c post) =
     (if get_dhcp_message_type 0 (drop 268 c) = DHCPACK then fst (do_extract 0 0 (drop 268 c)) else 0,
      mkbuf pre (mem_write c1 26 (be16 (ip_checksum AF_INET (drop 20 c1) (mem_read c1 12 4) (mem_read c1 16 4)
        OPENVPN_IPPROTO_UDP))) post)"
proof -
  obtain ret p' where ex: "do_extract 0 0 (drop 268 c) = (ret, p')" by fastforce
  have len: "268 \<le> length c" using assms(1) by (simp add: is_dhcp_reply_def)
  have p': "length p' = length c - 268" using length_do_extract [of 0 0 "drop 268 c"] ex by simp
  have "c \<noteq> []" using len by auto
  have w1: "poke (mkbuf pre c post) (int (length pre) + 268) p' = mkbuf pre (mem_write c 268 p') post"
    using poke_mkbuf_at [of 268 p' c pre post] len p' by simp
  have w: "poke (mkbuf pre d post) (int (length pre) + 26) ys = mkbuf pre (mem_write d 26 ys) post"
    if "length ys = 2" "length d = length c" for d ys
    using poke_mkbuf_at [of 26 ys d pre post] len that by simp
  have "byte_at (mkbuf pre c post) 9 = OPENVPN_IPPROTO_UDP \<and> net16_at (mkbuf pre c post) 20 = BOOTPS_PORT
     \<and> net16_at (mkbuf pre c post) 22 = BOOTPC_PORT \<and> byte_at (mkbuf pre c post) 28 = BOOTREPLY"
    using assms(1) len by (simp add: is_dhcp_reply_def byte_at_mkbuf net16_at_mkbuf)
  moreover have "get_dhcp_message_type 0 (drop 268 c) = DHCPACK \<or> get_dhcp_message_type 0 (drop 268 c) = DHCPOFFER"
    using assms(1) by (simp add: is_dhcp_reply_def)
  ultimately show ?thesis
    using len p' by (simp add: dhcp_extract_router_msg_def header_sizes DHCP_SIZE_def Let_def ex w1 w c1_def)
qed

text \<open>
  C23: From a DHCP acknowledgement or offer, \<open>dhcp_extract_router_msg\<close> removes every router option
  and leaves the other options, their order and the length of the packet; it reports the first
  usable router address (of an acknowledgement), and the UDP segment it leaves verifies.
\<close>

theorem dhcp_routers_removed:
  assumes "live b" "is_dhcp_reply (content b)" "length (content b) < 65536"
    and "drop 268 (content b) = enc_items items @ DHCP_END # junk" "list_all item_ok items"
    and "dhcp_extract_router_msg b = (router, b')" "out = content b'"
  shows "router = (if get_dhcp_message_type 0 (drop 268 (content b)) = DHCPACK then first_router 0 items else 0)
     \<and> (\<exists>k. drop 268 out = enc_items (filter (\<lambda>x. \<not> is_router x) items) @ DHCP_END # junk @ replicate k DHCP_PAD)
     \<and> length out = length (content b) \<and> take 26 out = take 26 (content b)
     \<and> ip_checksum AF_INET (drop 20 out) (mem_read out 12 4) (mem_read out 16 4) OPENVPN_IPPROTO_UDP = 0"
proof -
  obtain pre c post where b: "b = mkbuf pre c post" "content b = c" using assms(1) by (rule live_split)
  obtain k where k: "do_extract 0 0 (drop 268 c)
      = (first_router 0 items, enc_items (filter (\<lambda>x. \<not> is_router x) items) @ DHCP_END # junk @ replicate k DHCP_PAD)"
    using do_extract_items [OF assms(5), of "[]" 0 junk] assms(4) b by auto
  define p' where "p' = snd (do_extract 0 0 (drop 268 c))"
  have len: "268 \<le> length c" "length p' = length c - 268"
    using assms(2) b length_do_extract [of 0 0 "drop 268 c"] by (simp_all add: is_dhcp_reply_def p'_def)
  define c1 where "c1 = mem_write (mem_write c 268 p') 26 [0, 0]"
  define check where "check = ip_checksum AF_INET (drop 20 c1) (mem_read c1 12 4) (mem_read c1 16 4) OPENVPN_IPPROTO_UDP"
  have "dhcp_extract_router_msg (mkbuf pre c post)
     = (if get_dhcp_message_type 0 (drop 268 c) = DHCPACK then fst (do_extract 0 0 (drop 268 c)) else 0,
        mkbuf pre (mem_write c1 26 (be16 check)) post)"
    unfolding check_def c1_def p'_def using assms(2) b by (intro dhcp_extract_mkbuf) simp
  then have router: "router = (if get_dhcp_message_type 0 (drop 268 c) = DHCPACK then first_router 0 items else 0)"
    and out: "out = mem_write c1 26 (be16 check)"
    using assms(6,7) b k by auto
  have c1: "length c1 = length c" using len by (simp add: c1_def)
  have seg: "drop 20 out = mem_write (drop 20 c1) 6 (be16 check)"
    using len c1 by (simp add: out mem_write_def drop_take)
  have reads: "mem_read out 12 4 = mem_read c1 12 4" "mem_read out 16 4 = mem_read c1 16 4"
    using len c1 by (simp_all add: out mem_read_write_before)
  have "ip_checksum AF_INET (drop 20 out) (mem_read out 12 4) (mem_read out 16 4) OPENVPN_IPPROTO_UDP = 0"
    unfolding seg reads check_def
    by (rule store_checksum_verifies)
      (use len c1 assms(3) b in \<open>simp_all add: c1_def mem_write_def nth_append inet_consts\<close>)
  moreover have "drop 268 out = p'" "take 26 out = take 26 c" "length out = length c"
    using len c1 by (simp_all add: out c1_def mem_write_def)
  ultimately show ?thesis using router b k by (auto simp: p'_def)
qed

definition dhcp_packet :: "byte list" where
  "dhcp_packet = [69, 0, 1, 28, 0, 0, 0, 0, 64, 17, 0, 0, 10, 8, 0, 1, 10, 8, 0, 6, 0, 67, 0, 68, 1, 8, 1, 1]
     @ 2 # replicate 239 0 @ [53, 1, 5, 3, 4, 10, 8, 0, 1, 1, 4, 255, 255, 0, 0, 255]"

definition dhcp_options :: "dhcp_item list" where
  "dhcp_options = [Opt 53 [5], Opt 3 [10, 8, 0, 1], Opt 1 [255, 255, 0, 0]]"

lemma dhcp_packet_facts:
  "live (mkbuf [] dhcp_packet [])" "is_dhcp_reply dhcp_packet" "length dhcp_packet < 65536"
  "drop 268 dhcp_packet = enc_items dhcp_options @ DHCP_END # []" "list_all item_ok dhcp_options"
  "get_dhcp_message_type 0 (drop 268 dhcp_packet) = DHCPACK"
proof -
  show "live (mkbuf [] dhcp_packet [])" "length dhcp_packet < 65536"
    by (simp_all add: small_def BUF_SIZE_MAX_def dhcp_packet_def)
qed (code_simp+)

theorem dhcp_routers_removed_witness:
  "fst (dhcp_extract_router_msg (mkbuf [] dhcp_packet [])) = 0x0A080001
   \<and> (\<exists>k. drop 268 (content (snd (dhcp_extract_router_msg (mkbuf [] dhcp_packet []))))
        = [53, 1, 5, 1, 4, 255, 255, 0, 0, 255] @ replicate k 0)"
proof -
  obtain router b' where ex: "dhcp_extract_router_msg (mkbuf [] dhcp_packet []) = (router, b')" by fastforce
  have "first_router 0 dhcp_options = 0x0A080001" by code_simp
  moreover have "enc_items (filter (\<lambda>x. \<not> is_router x) dhcp_options) @ [DHCP_END] = [53, 1, 5, 1, 4, 255, 255, 0, 0, 255]"
    by code_simp
  then have "enc_items (filter (\<lambda>x. \<not> is_router x) dhcp_options) @ DHCP_END # [] @ replicate k DHCP_PAD
      = [53, 1, 5, 1, 4, 255, 255, 0, 0, 255] @ replicate k 0" for k
    by (metis DHCP_PAD_def append.assoc append_Cons append_Nil)
  ultimately show ?thesis
    using dhcp_routers_removed [of "mkbuf [] dhcp_packet []" dhcp_options "[]" router b' "content b'"]
      dhcp_packet_facts ex
    by simp
qed

end
