(* ===== verification/Ip_Header.thy ===== *)
theory Ip_Header
  imports Dhcp Mtu
begin

text \<open>
  \<^verbatim>\<open>process_ip_header\<close> and \<^verbatim>\<open>ipv6_send_icmp_unreachable\<close> of \<^verbatim>\<open>forward.c\<close>: what happens to
  the header of every packet that enters or leaves the tunnel device.

  The record has the options and buffers of \<open>struct context\<close> the two functions use. The
  addresses the C code converts with \<open>inet_pton\<close> are their 16 bytes. A failed \<open>ASSERT\<close> is
  \<open>None\<close>. The packet is a copy of the buffer struct over the same block, so what the operations
  on the copy leave in the block is put back into the packet.

  The properties: the ICMPv6 answer has a valid checksum, goes to the sender of the refused
  packet and quotes its beginning; its length can pass the 1280 bytes its comment promises; with
  the three header options off, IPv6 packets are not refused although \<open>block_ipv6\<close> is set.
\<close>

definition OPENVPN_IPPROTO_ICMPV6 :: byte where "OPENVPN_IPPROTO_ICMPV6 = 58"
definition MAX_ICMPV6LEN :: int where "MAX_ICMPV6LEN = 1280"
definition ICMP6HDR_SIZE :: int where "ICMP6HDR_SIZE = 8"

definition PIPV4_PASSTOS :: u32 where "PIPV4_PASSTOS = 1"
definition PIP_MSSFIX :: u32 where "PIP_MSSFIX = 2"
definition PIP_OUTGOING :: u32 where "PIP_OUTGOING = 4"
definition PIPV4_EXTRACT_DHCP_ROUTER :: u32 where "PIPV4_EXTRACT_DHCP_ROUTER = 8"
definition PIPV4_CLIENT_NAT :: u32 where "PIPV4_CLIENT_NAT = 16"
definition PIPV6_IMCP_NOHOST_CLIENT :: u32 where "PIPV6_IMCP_NOHOST_CLIENT = 32"
definition PIPV6_IMCP_NOHOST_SERVER :: u32 where "PIPV6_IMCP_NOHOST_SERVER = 64"

lemmas pip_consts = PIPV4_PASSTOS_def PIP_MSSFIX_def PIP_OUTGOING_def PIPV4_EXTRACT_DHCP_ROUTER_def
  PIPV4_CLIENT_NAT_def PIPV6_IMCP_NOHOST_CLIENT_def PIPV6_IMCP_NOHOST_SERVER_def

definition TUN_MTU_SIZE_DYNAMIC :: "frame \<Rightarrow> int" where
  "TUN_MTU_SIZE_DYNAMIC f = f_link_mtu_dynamic f - TUN_LINK_DELTA f"

definition MTU_TO_MSS :: "int \<Rightarrow> int" where
  "MTU_TO_MSS mtu = mtu - IPHDR_SIZE - TCPHDR_SIZE"

record ip_context =
  ic_tunnel :: dev_type
  ic_frame :: frame
  ic_mssfix :: int
  ic_passtos :: bool
  ic_client_nat :: "client_nat_option_list option"
  ic_route_gateway_via_dhcp :: bool
  ic_block_ipv6 :: bool
  ic_ifconfig_ipv6_remote :: "byte list option"
  ic_aux_buf :: buffer
  ic_to_tun :: buffer
  ic_to_link :: buffer
  ic_ptos :: "byte option"
  ic_vpn_gateways :: "u32 list"

definition fe80_7 :: "byte list" where
  "fe80_7 = [0xfe, 0x80, 0, 0, 0, 0, 0, 0, 0, 0, 0, 0, 0, 0, 0, 7]"

subsection \<open>The ICMPv6 answer\<close>

definition icmp6_source :: "ip_context \<Rightarrow> byte list" where
  "icmp6_source c = (case ic_ifconfig_ipv6_remote c of Some a \<Rightarrow> a | None \<Rightarrow> fe80_7)"

definition OPENVPN_ICMP6_DESTINATION_UNREACHABLE :: byte where "OPENVPN_ICMP6_DESTINATION_UNREACHABLE = 1"
definition OPENVPN_ICMP6_DU_NOROUTE :: byte where "OPENVPN_ICMP6_DU_NOROUTE = 0"

definition icmp6_header :: "byte list" where
  "icmp6_header = [OPENVPN_ICMP6_DESTINATION_UNREACHABLE, OPENVPN_ICMP6_DU_NOROUTE, 0, 0, 0, 0, 0, 0]"

text \<open>The outgoing IPv6 header: everything not assigned is copied from the refused packet.\<close>

definition icmp6_ipv6hdr :: "byte list \<Rightarrow> byte list \<Rightarrow> int \<Rightarrow> byte list" where
  "icmp6_ipv6hdr pip6 saddr payload_len =
     mem_read pip6 0 4 @ be16 (word_of_int (ICMP6HDR_SIZE + payload_len)) @ [OPENVPN_IPPROTO_ICMPV6]
     @ mem_read pip6 7 1 @ saddr @ mem_read pip6 8 16"

definition icmp6_payload_len :: "ip_context \<Rightarrow> buffer \<Rightarrow> int" where
  "icmp6_payload_len c inp =
     min_int (min_int MAX_ICMPV6LEN (TUN_MTU_SIZE (ic_frame c) - (IPV6HDR_SIZE + ICMP6HDR_SIZE))) (buf_len inp)"

definition prepend_or_die :: "byte list \<Rightarrow> buffer \<Rightarrow> buffer option" where
  "prepend_or_die bs b = (case buf_write_prepend b bs of (True, b1) \<Rightarrow> Some b1 | (False, _) \<Rightarrow> None)"

text \<open>The answer without Ethernet header: original packet, ICMP header with checksum, IPv6 header.\<close>

definition icmp6_build :: "ip_context \<Rightarrow> buffer \<Rightarrow> buffer option" where
  "icmp6_build c inp =
     (let pip6 = content inp;
          saddr = icmp6_source c; daddr = mem_read pip6 8 16;
          payload_len = icmp6_payload_len c inp;
          total = IPV6HDR_SIZE + ICMP6HDR_SIZE + (if ic_tunnel c = DEV_TYPE_TAP then ETHHDR_SIZE else 0)
      in case buf_init (ic_aux_buf c) total of
           (False, _) \<Rightarrow> None
         | (True, o1) \<Rightarrow>
             if \<not> buf_safe o1 (size_t_of payload_len) then None
             else (case buf_copy_n o1 inp payload_len of
                     (False, _, _) \<Rightarrow> None
                   | (True, o2, _) \<Rightarrow>
                       (case prepend_or_die icmp6_header o2 of
                          None \<Rightarrow> None
                        | Some o3 \<Rightarrow>
                            (let csum = ip_checksum AF_INET6 (content o3) saddr daddr OPENVPN_IPPROTO_ICMPV6;
                                 o4 = poke o3 (boff o3 + 2) (be16 csum)
                             in prepend_or_die (icmp6_ipv6hdr pip6 saddr payload_len) o4))))"

definition put_answer :: "bool \<Rightarrow> buffer \<Rightarrow> ip_context \<Rightarrow> ip_context" where
  "put_answer client outb c = (if client then c\<lparr>ic_to_tun := outb\<rparr> else c\<lparr>ic_to_link := outb\<rparr>)"

definition ipv6_send_icmp_unreachable :: "ip_context \<Rightarrow> buffer \<Rightarrow> bool \<Rightarrow> ip_context option" where
  "ipv6_send_icmp_unreachable c b client =
     (let inp = snd (is_ipv6 (ic_tunnel c) b)
      in if buf_len inp < IPV6HDR_SIZE then Some c
         else (case icmp6_build c inp of
                 None \<Rightarrow> None
               | Some o5 \<Rightarrow>
                   if ic_tunnel c = DEV_TYPE_TAP
                   then (if buf_len b < ETHHDR_SIZE then Some (put_answer client o5 c)
                         else (let eth = content b;
                                   hdr = mem_read eth 6 6 @ mem_read eth 0 6 @ be16 OPENVPN_ETH_P_IPV6
                               in map_option (\<lambda>o6. put_answer client o6 c) (prepend_or_die hdr o5)))
                   else Some (put_answer client o5 c)))"

subsection \<open>The header of every packet\<close>

definition pip_flags :: "ip_context \<Rightarrow> u32 \<Rightarrow> u32" where
  "pip_flags c flags =
     (let f1 = (if ic_mssfix c = 0 then flags AND NOT PIP_MSSFIX else flags);
          f2 = (if \<not> ic_passtos c then f1 AND NOT PIPV4_PASSTOS else f1);
          f3 = (if ic_client_nat c = None then f2 AND NOT PIPV4_CLIENT_NAT else f2);
          f4 = (if \<not> ic_route_gateway_via_dhcp c then f3 AND NOT PIPV4_EXTRACT_DHCP_ROUTER else f3)
      in if \<not> ic_block_ipv6 c then f4 AND NOT (PIPV6_IMCP_NOHOST_CLIENT OR PIPV6_IMCP_NOHOST_SERVER) else f4)"

definition process_ipv4 :: "bool \<Rightarrow> ip_context \<Rightarrow> u32 \<Rightarrow> buffer \<Rightarrow> ip_context \<times> buffer" where
  "process_ipv4 big c flags ipbuf =
     (let c1 = (if flags AND PIPV4_PASSTOS \<noteq> 0 then c\<lparr>ic_ptos := Some (byte_at ipbuf 1)\<rparr> else c);
          b1 = (if flags AND PIP_MSSFIX \<noteq> 0
                then mss_fixup_ipv4 big ipbuf (MTU_TO_MSS (TUN_MTU_SIZE_DYNAMIC (ic_frame c))) else ipbuf);
          b2 = (case ic_client_nat c of
                  Some rules \<Rightarrow> if flags AND PIPV4_CLIENT_NAT \<noteq> 0
                                then client_nat_transform big rules b1
                                       (if flags AND PIP_OUTGOING \<noteq> 0 then CN_INCOMING else CN_OUTGOING)
                                else b1
                | None \<Rightarrow> b1)
      in if flags AND PIPV4_EXTRACT_DHCP_ROUTER \<noteq> 0
         then (let (router, b3) = dhcp_extract_router_msg b2
               in (if router \<noteq> 0 then c1\<lparr>ic_vpn_gateways := ic_vpn_gateways c1 @ [router]\<rparr> else c1, b3))
         else (c1, b2))"

definition process_ip_header :: "bool \<Rightarrow> ip_context \<Rightarrow> u32 \<Rightarrow> buffer \<Rightarrow> (ip_context \<times> buffer) option" where
  "process_ip_header big c flags0 b =
     (let flags = pip_flags c flags0
      in if blen b > 0 \<and> flags AND (PIP_MSSFIX OR PIPV4_PASSTOS OR PIPV4_CLIENT_NAT) \<noteq> 0
         then (case is_ipv4 (ic_tunnel c) b of
                 (True, ipbuf) \<Rightarrow>
                   (case process_ipv4 big c flags ipbuf of (c1, ip1) \<Rightarrow> Some (c1, b\<lparr>bdata := bdata ip1\<rparr>))
               | (False, ipbuf) \<Rightarrow>
                   (case is_ipv6 (ic_tunnel c) ipbuf of
                      (True, ip6) \<Rightarrow>
                        (let ip1 = (if flags AND PIP_MSSFIX \<noteq> 0
                                    then mss_fixup_ipv6 big ip6 (MTU_TO_MSS (TUN_MTU_SIZE_DYNAMIC (ic_frame c)))
                                    else ip6);
                             b1 = b\<lparr>bdata := bdata ip1\<rparr>
                         in if flags AND PIP_OUTGOING = 0
                               \<and> flags AND (PIPV6_IMCP_NOHOST_CLIENT OR PIPV6_IMCP_NOHOST_SERVER) \<noteq> 0
                            then map_option (\<lambda>c1. (c1, b1\<lparr>blen := 0\<rparr>))
                                   (ipv6_send_icmp_unreachable c b1 (flags AND PIPV6_IMCP_NOHOST_CLIENT \<noteq> 0))
                            else Some (c, b1))
                    | (False, _) \<Rightarrow> Some (c, b)))
         else Some (c, b))"

subsection \<open>The answer\<close>

lemma buf_copy_n_mkbuf:
  assumes "n \<le> length c" "small pre d post" "n \<le> length post"
  shows "\<exists>s. buf_copy_n (mkbuf pre d post) (mkbuf ipre c ipost) (int n)
     = (True, mkbuf pre (d @ take n c) (drop n post), s)"
proof -
  have "buf_write (mkbuf pre d post) (take n c) = (True, mkbuf pre (d @ take n c) (drop n post))"
    using assms by (simp add: buf_write_mkbuf min_def)
  then show ?thesis
    using assms(1) by (simp add: buf_copy_n_def buf_read_alloc_def mem_read_def)
qed

lemma prepend_or_die_mkbuf:
  "length ys \<le> length pre \<Longrightarrow>
     prepend_or_die ys (mkbuf pre c post) = Some (mkbuf (take (length pre - length ys) pre) (ys @ c) post)"
  by (simp add: prepend_or_die_def buf_write_prepend_mkbuf)

lemma length_icmp6_ipv6hdr:
  "40 \<le> length c \<Longrightarrow> length saddr = 16 \<Longrightarrow> length (icmp6_ipv6hdr c saddr n) = 40"
  by (simp add: icmp6_ipv6hdr_def)

text \<open>The ICMP message: the header and the quoted bytes, with the checksum filled in.\<close>

definition icmp6_message :: "byte list \<Rightarrow> byte list \<Rightarrow> byte list \<Rightarrow> byte list" where
  "icmp6_message saddr daddr quoted =
     (let m = icmp6_header @ quoted
      in mem_write m 2 (be16 (ip_checksum AF_INET6 m saddr daddr OPENVPN_IPPROTO_ICMPV6)))"

lemma icmp6_message_verifies:
  assumes "length quoted < 65000"
  shows "ip_checksum AF_INET6 (icmp6_message saddr daddr quoted) saddr daddr OPENVPN_IPPROTO_ICMPV6 = 0"
  unfolding icmp6_message_def Let_def
  by (rule store_checksum_verifies)
    (use assms in \<open>simp_all add: icmp6_header_def OPENVPN_IPPROTO_ICMPV6_def\<close>)

lemma icmp6_build_result:
  assumes "live (ic_aux_buf c)" "40 \<le> length d" "length (icmp6_source c) = 16"
    and "icmp6_payload_len c (mkbuf ipre d ipost) = int n"
    and "62 + int n \<le> bcap (ic_aux_buf c)"
  shows "\<exists>pre post. icmp6_build c (mkbuf ipre d ipost)
       = Some (mkbuf pre (icmp6_ipv6hdr d (icmp6_source c) (int n)
            @ icmp6_message (icmp6_source c) (mem_read d 8 16) (take n d)) post)
     \<and> small pre (icmp6_ipv6hdr d (icmp6_source c) (int n)
            @ icmp6_message (icmp6_source c) (mem_read d 8 16) (take n d)) post
     \<and> length pre = (if ic_tunnel c = DEV_TYPE_TAP then 14 else 0)"
proof -
  define h where "h = (if ic_tunnel c = DEV_TYPE_TAP then 14 else 0 :: nat)"
  have total: "IPV6HDR_SIZE + ICMP6HDR_SIZE + (if ic_tunnel c = DEV_TYPE_TAP then ETHHDR_SIZE else 0) = int (48 + h)"
    by (simp add: header_sizes ICMP6HDR_SIZE_def h_def)
  obtain apre ac apost where aux: "ic_aux_buf c = mkbuf apre ac apost" "small apre ac apost"
    using assms(1) by (rule live_split)
  define blk where "blk = apre @ ac @ apost"
  have blk: "62 + n \<le> length blk" "int (length blk) < BUF_SIZE_MAX"
    using assms(5) aux by (simp_all add: blk_def small_def)
  have h14: "h \<le> 14" by (simp add: h_def)
  define pre where "pre = take (48 + h) blk"
  define post where "post = drop (48 + h) blk"
  have len: "length pre = 48 + h" "n \<le> length post" "length pre + length post = length blk"
    using blk h14 by (simp_all add: pre_def post_def)
  have sm: "small pre [] post" using len blk by (simp add: small_def)
  have nd: "n \<le> length d"
    using assms(4) by (simp add: icmp6_payload_len_def)
  have init: "buf_init (ic_aux_buf c) (int (48 + h)) = (True, mkbuf pre [] post)"
    using blk h14 by (simp add: aux(1) buf_init_mkbuf pre_def post_def blk_def nat_add_distrib del: take_append drop_append)
  have safe: "buf_safe (mkbuf pre [] post) (size_t_of (int n))"
    using len blk by (simp add: buf_safe_def buf_size_valid_def)
  obtain s where copy: "buf_copy_n (mkbuf pre [] post) (mkbuf ipre d ipost) (int n)
      = (True, mkbuf pre (take n d) (drop n post), s)"
    using buf_copy_n_mkbuf [OF nd sm len(2), of ipre ipost] by auto
  define m where "m = icmp6_header @ take n d"
  define pre8 where "pre8 = take (40 + h) pre"
  have p8: "length pre8 = 40 + h" using len by (simp add: pre8_def)
  have icmp: "prepend_or_die icmp6_header (mkbuf pre (take n d) (drop n post)) = Some (mkbuf pre8 m (drop n post))"
    using len by (simp add: prepend_or_die_mkbuf icmp6_header_def m_def pre8_def)
  define saddr where "saddr = icmp6_source c"
  define csum where "csum = ip_checksum AF_INET6 m saddr (mem_read d 8 16) OPENVPN_IPPROTO_ICMPV6"
  have put: "poke (mkbuf pre8 m (drop n post)) (int (length pre8) + 2) (be16 csum)
      = mkbuf pre8 (icmp6_message saddr (mem_read d 8 16) (take n d)) (drop n post)"
    using poke_mkbuf_at [of 2 "be16 csum" m pre8 "drop n post"]
    by (simp add: icmp6_message_def Let_def csum_def m_def icmp6_header_def)
  have hl: "length (icmp6_ipv6hdr d saddr (int n)) = 40"
    using assms(2,3) by (intro length_icmp6_ipv6hdr) (simp_all add: saddr_def)
  have ip: "prepend_or_die (icmp6_ipv6hdr d saddr (int n))
        (mkbuf pre8 (icmp6_message saddr (mem_read d 8 16) (take n d)) (drop n post))
      = Some (mkbuf (take h pre8) (icmp6_ipv6hdr d saddr (int n)
          @ icmp6_message saddr (mem_read d 8 16) (take n d)) (drop n post))"
    using p8 hl by (simp add: prepend_or_die_mkbuf)
  have "icmp6_build c (mkbuf ipre d ipost) = Some (mkbuf (take h pre8) (icmp6_ipv6hdr d saddr (int n)
          @ icmp6_message saddr (mem_read d 8 16) (take n d)) (drop n post))"
    unfolding icmp6_build_def Let_def total assms(4) init saddr_def [symmetric]
    by (simp add: safe copy icmp put ip csum_def [symmetric])
  moreover have "length (take h pre8) = (if ic_tunnel c = DEV_TYPE_TAP then 14 else 0)"
    using p8 by (simp add: h_def)
  moreover have "small (take h pre8) (icmp6_ipv6hdr d saddr (int n)
          @ icmp6_message saddr (mem_read d 8 16) (take n d)) (drop n post)"
  proof -
    have "length (icmp6_message saddr (mem_read d 8 16) (take n d)) = 8 + n"
      using nd by (simp add: icmp6_message_def Let_def icmp6_header_def)
    then show ?thesis using len blk(2) p8 hl nd by (simp add: small_def)
  qed
  ultimately show ?thesis unfolding saddr_def by blast
qed

lemma is_ipv6_tun_mkbuf:
  assumes "20 \<le> length c" "IPH_GET_VER (c ! 0) = 6"
  shows "is_ipv6 DEV_TYPE_TUN (mkbuf pre c post) = (True, mkbuf pre c post)"
proof -
  have "byte_at (mkbuf pre c post) 0 = c ! 0" using assms(1) by (subst byte_at_mkbuf) auto
  then show ?thesis
    using assms by (simp add: is_ipv6_def is_ipv_X_def IPHDR_SIZE_def buf_advance_mkbuf)
qed

text \<open>
  C24: What \<open>ipv6_send_icmp_unreachable\<close> makes of an IPv6 packet from the tunnel is, byte for byte, an
  ICMPv6 message \<open>destination unreachable\<close>, \<open>no route\<close>: the IPv6 header keeps the version, class, flow
  label and hop limit of the packet, has the length of the message, the protocol ICMPv6, the remote
  address of the tunnel (or the fake one) as its source and the packet's source as its destination;
  the message has that type and code, a checksum that verifies, four unused zero bytes and the
  beginning of the packet. On the client it becomes the next packet for the tunnel device. The packet
  quotes up to 1280 bytes, so the answer has up to 1328 (\<open>icmp6_answer_too_long\<close>), more than the 1280
  the comment in the code allows it.
\<close>

theorem icmp6_answer_is_valid:
  assumes "live b" "live (ic_aux_buf c)" "ic_tunnel c = DEV_TYPE_TUN"
    and "40 \<le> length (content b)" "IPH_GET_VER (content b ! 0) = 6"
    and "icmp6_payload_len c b = int n" "62 + int n \<le> bcap (ic_aux_buf c)"
    and "length (icmp6_source c) = 16"
  shows "\<exists>c'. ipv6_send_icmp_unreachable c b True = Some c' \<and> live (ic_to_tun c')
     \<and> (let out = content (ic_to_tun c')
        in length out = 48 + n \<and> take 4 out = take 4 (content b)
           \<and> un_be16 [out ! 4, out ! 5] = word_of_int (8 + int n) \<and> out ! 6 = OPENVPN_IPPROTO_ICMPV6
           \<and> out ! 7 = content b ! 7 \<and> mem_read out 8 16 = icmp6_source c
           \<and> mem_read out 24 16 = mem_read (content b) 8 16
           \<and> out ! 40 = OPENVPN_ICMP6_DESTINATION_UNREACHABLE \<and> out ! 41 = OPENVPN_ICMP6_DU_NOROUTE
           \<and> mem_read out 44 4 = [0, 0, 0, 0] \<and> drop 48 out = take n (content b)
           \<and> ip_checksum AF_INET6 (drop 40 out) (mem_read out 8 16) (mem_read out 24 16) OPENVPN_IPPROTO_ICMPV6 = 0)"
proof -
  obtain ipre d ipost where b: "b = mkbuf ipre d ipost" "content b = d" using assms(1) by (rule live_split)
  have d: "40 \<le> length d" "IPH_GET_VER (d ! 0) = 6" using assms(4,5) b by simp_all
  define saddr where "saddr = icmp6_source c"
  define msg where "msg = icmp6_message saddr (mem_read d 8 16) (take n d)"
  define hdr where "hdr = icmp6_ipv6hdr d saddr (int n)"
  obtain pre post where build: "icmp6_build c (mkbuf ipre d ipost) = Some (mkbuf pre (hdr @ msg) post)"
      "small pre (hdr @ msg) post"
    using icmp6_build_result [OF assms(2) d(1) assms(8), of ipre ipost n] assms(6,7) b
    unfolding saddr_def hdr_def msg_def by blast
  have n: "n \<le> length d" "n < 65000"
    using assms(6) b by (auto simp: icmp6_payload_len_def MAX_ICMPV6LEN_def)
  have "ipv6_send_icmp_unreachable c b True = Some (put_answer True (mkbuf pre (hdr @ msg) post) c)"
    using build d assms(3) by (simp add: ipv6_send_icmp_unreachable_def b is_ipv6_tun_mkbuf IPV6HDR_SIZE_def)
  moreover have hl: "length hdr = 40" unfolding hdr_def saddr_def using d(1) assms(8) by (rule length_icmp6_ipv6hdr)
  moreover have ml: "length msg = 8 + n" "drop 8 msg = take n d"
    using n by (simp_all add: msg_def icmp6_message_def Let_def icmp6_header_def mem_write_def)
  moreover have head: "msg ! 0 = OPENVPN_ICMP6_DESTINATION_UNREACHABLE" "msg ! Suc 0 = OPENVPN_ICMP6_DU_NOROUTE"
      "take 4 (drop 4 msg) = [0, 0, 0, 0]"
    using n by (simp_all add: msg_def icmp6_message_def Let_def icmp6_header_def mem_write_def nth_append)
  moreover have "take 4 hdr = take 4 d" "hdr ! 7 = d ! 7"
    using d(1) by (simp_all add: hdr_def icmp6_ipv6hdr_def mem_read_def nth_append nth_Cons' numeral_eq_Suc)
  moreover have fields: "hdr ! 4 = be16 (word_of_int (8 + int n)) ! 0" "hdr ! 5 = be16 (word_of_int (8 + int n)) ! Suc 0"
      "hdr ! 6 = OPENVPN_IPPROTO_ICMPV6" "mem_read hdr 8 16 = saddr" "mem_read hdr 24 16 = mem_read d 8 16"
    using d(1) assms(8)
    by (simp_all add: hdr_def icmp6_ipv6hdr_def saddr_def nth_append nth_Cons' ICMP6HDR_SIZE_def mem_read_def)
  moreover have "un_be16 [be16 w ! 0, be16 w ! Suc 0] = w" for w
    using pair_eq [of "be16 w"] by (metis length_be16 un_be16_be16)
  moreover have "mem_read (hdr @ msg) 44 4 = [0, 0, 0, 0]"
    using head(3) hl by (simp add: mem_read_def)
  moreover have "mem_read (hdr @ msg) 8 16 = saddr" "mem_read (hdr @ msg) 24 16 = mem_read d 8 16"
  proof -
    have "mem_read (hdr @ msg) 8 16 = mem_read hdr 8 16" "mem_read (hdr @ msg) 24 16 = mem_read hdr 24 16"
      using hl by (simp_all add: mem_read_def)
    then show "mem_read (hdr @ msg) 8 16 = saddr" "mem_read (hdr @ msg) 24 16 = mem_read d 8 16"
      using fields(4,5) by simp_all
  qed
  moreover have "ip_checksum AF_INET6 msg saddr (mem_read d 8 16) OPENVPN_IPPROTO_ICMPV6 = 0"
    unfolding msg_def using n by (intro icmp6_message_verifies) simp
  ultimately show ?thesis
    using build(2) n by (simp add: put_answer_def b(2) nth_append saddr_def)
qed

definition demo_ip_context :: ip_context where
  "demo_ip_context = \<lparr>ic_tunnel = DEV_TYPE_TUN, ic_frame = demo_frame, ic_mssfix = 1450, ic_passtos = False,
     ic_client_nat = None, ic_route_gateway_via_dhcp = False, ic_block_ipv6 = True,
     ic_ifconfig_ipv6_remote = None, ic_aux_buf = mkbuf [] [] (replicate 1600 0), ic_to_tun = clear_buf,
     ic_to_link = clear_buf, ic_ptos = None, ic_vpn_gateways = []\<rparr>"

definition ipv6_packet :: "byte list" where
  "ipv6_packet = [0x60, 0, 0, 0, 0, 4, 17, 64, 0x20, 1, 0xd, 0xb8, 0, 0, 0, 0, 0, 0, 0, 0, 0, 0, 0, 1,
     0x20, 1, 0xd, 0xb8, 0, 0, 0, 0, 0, 0, 0, 0, 0, 0, 0, 2, 1, 2, 3, 4]"

lemma ipv6_packet_facts:
  "live (mkbuf [] ipv6_packet [])" "live (ic_aux_buf demo_ip_context)" "ic_tunnel demo_ip_context = DEV_TYPE_TUN"
  "40 \<le> length (content (mkbuf [] ipv6_packet []))" "IPH_GET_VER (content (mkbuf [] ipv6_packet []) ! 0) = 6"
  "icmp6_payload_len demo_ip_context (mkbuf [] ipv6_packet []) = int 44"
  "62 + int 44 \<le> bcap (ic_aux_buf demo_ip_context)" "length (icmp6_source demo_ip_context) = 16"
  by (simp_all add: demo_ip_context_def ipv6_packet_def small_def BUF_SIZE_MAX_def IPH_GET_VER_def
      icmp6_payload_len_def MAX_ICMPV6LEN_def demo_frame_def frame_sizes header_sizes ICMP6HDR_SIZE_def
      icmp6_source_def fe80_7_def)

theorem icmp6_answer_is_valid_witness:
  "\<exists>c'. ipv6_send_icmp_unreachable demo_ip_context (mkbuf [] ipv6_packet []) True = Some c'
     \<and> length (content (ic_to_tun c')) = 92 \<and> content (ic_to_tun c') ! 40 = 1 \<and> content (ic_to_tun c') ! 41 = 0
     \<and> drop 48 (content (ic_to_tun c')) = ipv6_packet"
proof -
  have "take 44 (content (mkbuf [] ipv6_packet [])) = ipv6_packet" by (simp add: ipv6_packet_def)
  then show ?thesis
    using icmp6_answer_is_valid [OF ipv6_packet_facts]
    by (auto simp: Let_def OPENVPN_ICMP6_DESTINATION_UNREACHABLE_def OPENVPN_ICMP6_DU_NOROUTE_def)
qed

lemma icmp6_answer_too_long:
  "TUN_MTU_SIZE (ic_frame c) \<ge> 1328 \<Longrightarrow> buf_len b \<ge> 1280 \<Longrightarrow>
     IPV6HDR_SIZE + ICMP6HDR_SIZE + icmp6_payload_len c b = 1328"
  by (simp add: icmp6_payload_len_def header_sizes ICMP6HDR_SIZE_def MAX_ICMPV6LEN_def)

text \<open>
  With \<open>mssfix 0\<close>, without TOS passing and without client NAT rules, \<open>process_ip_header\<close> does
  not look at any packet: \<open>block_ipv6\<close> refuses no IPv6 packet and DHCP router options stay in.
\<close>

theorem block_ipv6_depends_on_mssfix:
  assumes "ic_mssfix c = 0" "\<not> ic_passtos c" "ic_client_nat c = None"
  shows "process_ip_header big c flags b = Some (c, b)"
proof -
  have "pip_flags c flags AND (PIP_MSSFIX OR PIPV4_PASSTOS OR PIPV4_CLIENT_NAT) = 0"
    by (rule bit_word_eqI) (use assms in \<open>auto simp: pip_flags_def Let_def bit_simps\<close>)
  then show ?thesis by (simp add: process_ip_header_def Let_def)
qed

theorem block_ipv6_depends_on_mssfix_witness:
  "ic_block_ipv6 (demo_ip_context\<lparr>ic_mssfix := 0\<rparr>)
     \<and> fst (is_ipv6 DEV_TYPE_TUN (mkbuf [] ipv6_packet []))
     \<and> process_ip_header True (demo_ip_context\<lparr>ic_mssfix := 0\<rparr>)
         (PIPV4_PASSTOS OR PIP_MSSFIX OR PIPV4_CLIENT_NAT OR PIPV6_IMCP_NOHOST_CLIENT) (mkbuf [] ipv6_packet [])
       = Some (demo_ip_context\<lparr>ic_mssfix := 0\<rparr>, mkbuf [] ipv6_packet [])"
  using ipv6_packet_facts
  by (intro conjI block_ipv6_depends_on_mssfix) (simp_all add: demo_ip_context_def is_ipv6_tun_mkbuf)

end
