(* ===== verification/Base64.thy ===== *)
theory Base64
  imports Prelude
begin

text \<open>
  \<^verbatim>\<open>base64.c\<close>: the text encoding of binary data (tokens, client keys, proxy credentials).

  A C string is the list of its characters without the final NUL. \<open>encode_token\<close> is the body of
  the encoder's loop at index \<open>i\<close>, \<open>encode_loop\<close> the loop; \<open>token_decode\<close> keeps the 32-bit
  arithmetic of the C code, in which a character outside the alphabet has the position \<open>- 1\<close>.
  \<open>openvpn_base64_decode\<close> has the size of the output buffer as its second argument (negative for
  no limit) and returns the bytes, or \<open>None\<close> for -1.

  The lemmas: decoding the encoding gives the data back and needs exactly their length, the
  encoding fits the block the encoder allocates for it; characters outside the alphabet are not
  refused (\<open>foreign_characters_decoded\<close>).
\<close>

definition base64_chars :: string where
  "base64_chars = ''ABCDEFGHIJKLMNOPQRSTUVWXYZabcdefghijklmnopqrstuvwxyz0123456789+/''"

subsection \<open>Encoding\<close>

definition encode_token :: "byte list \<Rightarrow> nat \<Rightarrow> string" where
  "encode_token q i =
     (let sz = length q;
          c = uint (q ! i) * 256 + (if i + 1 < sz then uint (q ! (i + 1)) else 0);
          c = c * 256 + (if i + 2 < sz then uint (q ! (i + 2)) else 0);
          p0 = base64_chars ! nat (drop_bit 18 (c AND 0x00fc0000));
          p1 = base64_chars ! nat (drop_bit 12 (c AND 0x0003f000));
          p2 = base64_chars ! nat (drop_bit 6 (c AND 0x00000fc0));
          p3 = base64_chars ! nat (drop_bit 0 (c AND 0x0000003f))
      in [p0, p1, (if i + 3 > sz + 1 then CHR ''='' else p2), (if i + 3 > sz then CHR ''='' else p3)])"

function encode_loop :: "byte list \<Rightarrow> nat \<Rightarrow> string" where
  "encode_loop q i = (if i < length q then encode_token q i @ encode_loop q (i + 3) else [])"
  by pat_completeness auto

termination encode_loop
  by (relation "measure (\<lambda>(q, i). length q - i)") auto

declare encode_loop.simps [simp del]

definition openvpn_base64_encode :: "byte list \<Rightarrow> int \<times> string" where
  "openvpn_base64_encode q = (let s = encode_loop q 0 in (int (length s), s))"

definition encode_alloc :: "int \<Rightarrow> int" where
  "encode_alloc sz = sz * 4 div 3 + 4"

subsection \<open>Decoding\<close>

fun pos_from :: "int \<Rightarrow> string \<Rightarrow> char \<Rightarrow> int" where
  "pos_from n [] c = -1"
| "pos_from n (x # xs) c = (if x = c then n else pos_from (n + 1) xs c)"

definition pos :: "char \<Rightarrow> int" where
  "pos c = pos_from 0 base64_chars c"

definition DECODE_ERROR :: u32 where "DECODE_ERROR = 0xffffffff"

fun token_loop :: "string \<Rightarrow> u32 \<Rightarrow> nat \<Rightarrow> (u32 \<times> nat) option" where
  "token_loop [] val marker = Some (val, marker)"
| "token_loop (c # cs) val marker =
     (if c = CHR ''='' then token_loop cs (val * 64) (marker + 1)
      else if marker > 0 then None
      else token_loop cs (val * 64 + word_of_int (pos c)) marker)"

definition token_decode :: "string \<Rightarrow> u32" where
  "token_decode token =
     (if length token < 4 then DECODE_ERROR
      else case token_loop (take 4 token) 0 0 of
             None \<Rightarrow> DECODE_ERROR
           | Some (val, marker) \<Rightarrow>
               if marker > 2 then DECODE_ERROR else push_bit 24 (of_nat marker) OR val)"

definition put_byte :: "int \<Rightarrow> byte list \<Rightarrow> byte \<Rightarrow> byte list option" where
  "put_byte sz out x = (if sz \<ge> 0 \<and> int (length out) \<ge> sz then None else Some (out @ [x]))"

function decode_loop :: "int \<Rightarrow> string \<Rightarrow> byte list \<Rightarrow> byte list option" where
  "decode_loop sz p out =
     (case p of
        [] \<Rightarrow> Some out
      | c # _ \<Rightarrow>
          if c = CHR ''='' \<or> c \<in> set base64_chars
          then (let val = token_decode p; marker = drop_bit 24 val AND 0xff
                in if val = DECODE_ERROR then None
                   else case put_byte sz out (ucast (drop_bit 16 val)) of
                          None \<Rightarrow> None
                        | Some out1 \<Rightarrow>
                            (case (if marker < 2 then put_byte sz out1 (ucast (drop_bit 8 val)) else Some out1) of
                               None \<Rightarrow> None
                             | Some out2 \<Rightarrow>
                                 (case (if marker < 1 then put_byte sz out2 (ucast val) else Some out2) of
                                    None \<Rightarrow> None
                                  | Some out3 \<Rightarrow> decode_loop sz (drop 4 p) out3)))
          else Some out)"
  by pat_completeness auto

termination decode_loop
  by (relation "measure (\<lambda>(sz, p, out). length p)") auto

declare decode_loop.simps [simp del]

definition openvpn_base64_decode :: "string \<Rightarrow> int \<Rightarrow> byte list option" where
  "openvpn_base64_decode str sz = decode_loop sz str []"

subsection \<open>The alphabet\<close>

lemma length_base64_chars [simp]: "length base64_chars = 64"
  by (simp add: base64_chars_def)

lemma distinct_base64_chars: "distinct base64_chars"
  by code_simp

lemma equals_not_in_alphabet: "CHR ''='' \<notin> set base64_chars"
  by (simp add: base64_chars_def)

lemma pos_from_nth: "distinct xs \<Longrightarrow> k < length xs \<Longrightarrow> pos_from n xs (xs ! k) = n + int k"
proof (induction xs arbitrary: n k)
  case (Cons x xs)
  then show ?case by (cases k) (auto simp: nth_mem)
qed simp

lemma pos_nth [simp]: "k < 64 \<Longrightarrow> pos (base64_chars ! k) = int k"
  by (simp add: pos_def pos_from_nth distinct_base64_chars)

lemma alphabet_not_equals [simp]: "k < 64 \<Longrightarrow> base64_chars ! k \<noteq> CHR ''=''"
  using equals_not_in_alphabet by (metis length_base64_chars nth_mem)

lemma alphabet_in [simp]: "k < 64 \<Longrightarrow> base64_chars ! k \<in> set base64_chars"
  by simp

subsection \<open>Tokens\<close>

lemma sextet_div:
  fixes c :: int
  shows "nat (drop_bit 18 (c AND 0x00fc0000)) = nat (c div 2 ^ 18 mod 64)"
    and "nat (drop_bit 12 (c AND 0x0003f000)) = nat (c div 2 ^ 12 mod 64)"
    and "nat (drop_bit 6 (c AND 0x00000fc0)) = nat (c div 2 ^ 6 mod 64)"
    and "nat (drop_bit 0 (c AND 0x0000003f)) = nat (c mod 64)"
proof -
  have m: "x AND 63 = x mod 64" for x :: int
    using take_bit_eq_mask [of 6 x] by (simp add: mask_eq_exp_minus_1 take_bit_eq_mod)
  have sx: "drop_bit n (c AND push_bit n 63) = c div 2 ^ n mod 64" for n
  proof -
    have "drop_bit n (c AND push_bit n 63) = drop_bit n c AND drop_bit n (push_bit n 63)"
      by (rule drop_bit_and)
    also have "drop_bit n (push_bit n 63) = (63 :: int)" by (simp add: push_bit_eq_mult drop_bit_eq_div)
    finally show ?thesis by (simp add: m drop_bit_eq_div)
  qed
  have e: "0x00fc0000 = push_bit 18 (63 :: int)" "0x0003f000 = push_bit 12 (63 :: int)"
      "0x00000fc0 = push_bit 6 (63 :: int)"
    by (simp_all add: push_bit_eq_mult)
  show "nat (drop_bit 18 (c AND 0x00fc0000)) = nat (c div 2 ^ 18 mod 64)" unfolding e sx ..
  show "nat (drop_bit 12 (c AND 0x0003f000)) = nat (c div 2 ^ 12 mod 64)" unfolding e sx ..
  show "nat (drop_bit 6 (c AND 0x00000fc0)) = nat (c div 2 ^ 6 mod 64)" unfolding e sx ..
  show "nat (drop_bit 0 (c AND 0x0000003f)) = nat (c mod 64)" using sx [of 0] by simp
qed

lemma sextets_sum:
  fixes c :: int
  assumes "0 \<le> c" "c < 2 ^ 24"
  shows "((c div 2 ^ 18 mod 64 * 64 + c div 2 ^ 12 mod 64) * 64 + c div 2 ^ 6 mod 64) * 64 + c mod 64 = c"
proof -
  define c1 c2 c3 where "c1 = c div 64" and "c2 = c1 div 64" and "c3 = c2 div 64"
  have shift: "c div 2 ^ 6 = c1" "c div 2 ^ 12 = c2" "c div 2 ^ 18 = c3"
    by (simp_all add: c1_def c2_def c3_def flip: zdiv_zmult2_eq)
  have eqs: "c1 * 64 + c mod 64 = c" "c2 * 64 + c1 mod 64 = c1" "c3 * 64 + c2 mod 64 = c2"
    by (simp_all add: c1_def c2_def c3_def)
  have "0 \<le> c mod 64" "0 \<le> c1 mod 64" "0 \<le> c2 mod 64" "c mod 64 < 64" "c1 mod 64 < 64" "c2 mod 64 < 64"
    by simp_all
  moreover have "c < 16777216" using assms by simp
  ultimately have "0 \<le> c3" "c3 < 64" using eqs assms(1) by linarith+
  then have "c3 mod 64 = c3" by simp
  then show ?thesis unfolding shift by (simp only: eqs)
qed

text \<open>The token of three bytes, the last ones possibly missing (\<open>m\<close> of them).\<close>

definition token_of :: "int \<Rightarrow> nat \<Rightarrow> string" where
  "token_of c m =
     [base64_chars ! nat (c div 2 ^ 18 mod 64), base64_chars ! nat (c div 2 ^ 12 mod 64),
      (if m \<ge> 2 then CHR ''='' else base64_chars ! nat (c div 2 ^ 6 mod 64)),
      (if m \<ge> 1 then CHR ''='' else base64_chars ! nat (c mod 64))]"

fun encode_list :: "byte list \<Rightarrow> string" where
  "encode_list [] = []"
| "encode_list [x] = token_of (65536 * uint x) 2"
| "encode_list [x, y] = token_of (65536 * uint x + 256 * uint y) 1"
| "encode_list (x # y # z # r) = token_of (65536 * uint x + 256 * uint y + uint z) 0 @ encode_list r"

lemma encode_token_of:
  assumes "i < length q"
    and c: "c = (uint (q ! i) * 256 + (if i + 1 < length q then uint (q ! (i + 1)) else 0)) * 256
        + (if i + 2 < length q then uint (q ! (i + 2)) else 0)"
    and "m = (if i + 2 < length q then 0 else if i + 1 < length q then 1 else 2)"
  shows "encode_token q i = token_of c m"
proof -
  have "(i + 3 > length q + 1) = (m \<ge> 2)" "(i + 3 > length q) = (m \<ge> 1)"
    using assms(1,3) by (simp_all split: if_splits)
  then show ?thesis
    unfolding encode_token_def Let_def sextet_div token_of_def by (simp only: flip: c)
qed

lemma encode_loop_list: "encode_loop (dn @ r) (length dn) = encode_list r"
proof (induction r arbitrary: dn rule: encode_list.induct)
  case 1
  then show ?case by (simp add: encode_loop.simps)
next
  case (2 x)
  have "encode_token (dn @ [x]) (length dn) = token_of (65536 * uint x) 2"
    by (rule encode_token_of) (simp_all add: nth_append)
  then show ?case by (simp add: encode_loop.simps)
next
  case (3 x y)
  have "encode_token (dn @ [x, y]) (length dn) = token_of (65536 * uint x + 256 * uint y) 1"
    by (rule encode_token_of) (simp_all add: nth_append)
  then show ?case by (simp add: encode_loop.simps)
next
  case (4 x y z r)
  have "encode_token (dn @ x # y # z # r) (length dn) = token_of (65536 * uint x + 256 * uint y + uint z) 0"
    by (rule encode_token_of) (simp_all add: nth_append eval_nat_numeral)
  moreover have "encode_loop (dn @ x # y # z # r) (length dn + 3) = encode_list r"
    using 4 [of "dn @ [x, y, z]"] by (simp add: eval_nat_numeral)
  ultimately show ?case by (subst encode_loop.simps) simp
qed

lemma token_decode_of:
  fixes c :: int
  assumes "0 \<le> c" "c < 2 ^ 24" "m = 1 \<longrightarrow> c mod 64 = 0" "m \<ge> 2 \<longrightarrow> c mod 4096 = 0" "m \<le> 2"
  shows "token_decode (token_of c m @ r) = push_bit 24 (of_nat m) OR word_of_int c"
proof -
  have d: "nat (c div 2 ^ 18 mod 64) < 64" "nat (c div 2 ^ 12 mod 64) < 64" "nat (c div 2 ^ 6 mod 64) < 64"
      "nat (c mod 64) < 64"
    by simp_all
  have sum: "((c div 2 ^ 18 mod 64 * 64 + c div 2 ^ 12 mod 64) * 64 + c div 2 ^ 6 mod 64) * 64 + c mod 64 = c"
    using assms(1,2) by (rule sextets_sum)
  define s0 s1 s2 s3 where "s0 = c div 2 ^ 18 mod 64" and "s1 = c div 2 ^ 12 mod 64"
    and "s2 = c div 2 ^ 6 mod 64" and "s3 = c mod 64"
  have s: "0 \<le> s0" "0 \<le> s1" "0 \<le> s2" "0 \<le> s3" by (simp_all add: s0_def s1_def s2_def s3_def)
  note d = d [folded s0_def s1_def s2_def s3_def] and sum = sum [folded s0_def s1_def s2_def s3_def]
  have last2: "s2 = 0" "c mod 64 = 0" if m: "m \<ge> 2"
  proof -
    obtain k where k: "c = 4096 * k" using assms(4) m by auto
    have "c div 2 ^ 6 = 64 * k" unfolding k by simp
    then show "s2 = 0" by (simp only: s2_def) simp
    show "c mod 64 = 0" unfolding k by simp
  qed
  have last: "s3 = 0" if "m \<ge> 1"
    using assms(3) that last2(2) by (cases "m = 1") (simp_all add: s3_def)
  have tok: "token_of c m = [base64_chars ! nat s0, base64_chars ! nat s1,
      (if m \<ge> 2 then CHR ''='' else base64_chars ! nat s2), (if m \<ge> 1 then CHR ''='' else base64_chars ! nat s3)]"
    by (simp only: token_of_def s0_def s1_def s2_def s3_def)
  have loop: "token_loop (token_of c m) 0 0 = Some (word_of_int c, m)"
  proof -
    consider "m = 0" | "m = 1" | "m = 2" using assms(5) by linarith
    then show ?thesis
      unfolding tok unfolding sum [symmetric] by cases (use d s last last2 in simp_all)
  qed
  then show ?thesis using assms(5) by (simp add: token_decode_def tok)
qed

text \<open>The three bytes a decoded token holds.\<close>

lemma token_value_bytes:
  fixes x y z :: byte and m :: nat
  defines "val \<equiv> push_bit 24 (of_nat m) OR word_of_int (65536 * uint x + 256 * uint y + uint z) :: u32"
  assumes "m \<le> 2"
  shows "ucast (drop_bit 16 val) = x" "ucast (drop_bit 8 val) = y" "ucast val = z"
    and "drop_bit 24 val AND 0xff = of_nat m" "val \<noteq> DECODE_ERROR"
proof -
  have bits: "\<not> bit w n" if "8 \<le> n" for w :: byte and n
    using that by (auto dest: bit_imp_le_length)
  have "(word_of_int (65536 * uint x + 256 * uint y + uint z) :: u32)
      = push_bit 16 (ucast x) + push_bit 8 (ucast y) + ucast z"
    by (simp add: push_bit_eq_mult)
  also have "\<dots> = (push_bit 16 (ucast x) OR push_bit 8 (ucast y)) + ucast z"
    by (subst disjunctive_add) (auto simp: bit_simps bits)
  also have "\<dots> = (push_bit 16 (ucast x) OR push_bit 8 (ucast y)) OR ucast z"
    by (subst disjunctive_add) (auto simp: bit_simps bits)
  finally have val: "val = push_bit 24 (of_nat m) OR ((push_bit 16 (ucast x) OR push_bit 8 (ucast y)) OR ucast z)"
    by (simp add: val_def)
  show "ucast (drop_bit 16 val) = x" "ucast (drop_bit 8 val) = y" "ucast val = z"
    by (rule bit_word_eqI, auto simp: val bit_simps bits)+
  have ff: "(0xff :: u32) = mask 8" by (simp add: mask_eq_exp_minus_1)
  have m: "n < 8" if "bit m n" for n
  proof (rule ccontr)
    assume "\<not> n < 8"
    then have "(2::nat) ^ 8 \<le> 2 ^ n" by (intro power_increasing) simp_all
    then have "m < 2 ^ n" using assms(2) by simp
    then show False using that by (simp add: bit_iff_odd)
  qed
  have "drop_bit 24 val AND mask 8 = of_nat m"
    by (rule bit_word_eqI) (auto simp: val bit_simps bits dest: m)
  then show "drop_bit 24 val AND 0xff = of_nat m" unfolding ff .
  show "val \<noteq> DECODE_ERROR"
  proof
    assume "val = DECODE_ERROR"
    then have "drop_bit 24 val AND 0xff = 255" by (simp add: DECODE_ERROR_def)
    then have "(of_nat m :: u32) = 255" using \<open>drop_bit 24 val AND 0xff = of_nat m\<close> by simp
    moreover have "m = 0 \<or> m = 1 \<or> m = 2" using assms(2) by linarith
    ultimately show False by (elim disjE) simp_all
  qed
qed

subsection \<open>Decoding an encoding\<close>

definition room_for :: "int \<Rightarrow> nat \<Rightarrow> bool" where
  "room_for sz n \<longleftrightarrow> sz < 0 \<or> int n \<le> sz"

lemma put_byte_room: "put_byte sz out x = (if room_for sz (Suc (length out)) then Some (out @ [x]) else None)"
  by (auto simp: put_byte_def room_for_def)

lemma room_mono: "room_for sz n \<Longrightarrow> m \<le> n \<Longrightarrow> room_for sz m"
  by (auto simp: room_for_def)

lemma decode_step:
  fixes x y z :: byte and m :: nat
  defines "c \<equiv> 65536 * uint x + 256 * uint y + uint z"
  assumes "m \<le> 2" "m = 1 \<longrightarrow> z = 0" "m = 2 \<longrightarrow> y = 0 \<and> z = 0"
  shows "decode_loop sz (token_of c m @ r) out =
     (if room_for sz (length out + (3 - m)) then decode_loop sz r (out @ take (3 - m) [x, y, z]) else None)"
proof -
  define val where "val = (push_bit 24 (of_nat m) OR word_of_int c :: u32)"
  have b: "uint x < 256" "uint y < 256" "uint z < 256" "0 \<le> uint x" "0 \<le> uint y" "0 \<le> uint z"
    using uint_lt2p [of x] uint_lt2p [of y] uint_lt2p [of z] by simp_all
  have c: "0 \<le> c" "c < 2 ^ 24" using b by (simp_all add: c_def)
  have "m = 1 \<longrightarrow> c mod 64 = 0" "m \<ge> 2 \<longrightarrow> c mod 4096 = 0"
    using assms(2-4) by (auto simp: c_def)
  then have tok: "token_decode (token_of c m @ r) = val"
    unfolding val_def using token_decode_of [OF c, of m r] assms(2) by simp
  have bytes: "ucast (drop_bit 16 val) = x" "ucast (drop_bit 8 val) = y" "ucast val = z"
      "drop_bit 24 val AND 0xff = of_nat m" "val \<noteq> DECODE_ERROR"
    unfolding val_def c_def by (rule token_value_bytes [OF assms(2)])+
  obtain h t where ht: "token_of c m = h # t" "length t = 3" "h \<in> set base64_chars"
    by (simp add: token_of_def)
  have rest: "drop 3 (t @ r) = r" using ht by simp
  consider "m = 0" | "m = 1" | "m = 2" using assms(2) by linarith
  then show ?thesis
  proof cases
    case 1
    then show ?thesis
      using ht rest tok bytes room_mono [of sz "length out + 3" "length out + 1"]
        room_mono [of sz "length out + 3" "length out + 2"]
      by (subst decode_loop.simps) (auto simp: Let_def put_byte_room eval_nat_numeral)
  next
    case 2
    then show ?thesis
      using ht rest tok bytes room_mono [of sz "length out + 2" "length out + 1"]
      by (subst decode_loop.simps) (auto simp: Let_def put_byte_room eval_nat_numeral)
  next
    case 3
    then show ?thesis
      using ht rest tok bytes
      by (subst decode_loop.simps) (auto simp: Let_def put_byte_room eval_nat_numeral)
  qed
qed

lemma decode_loop_encode:
  "room_for sz (length out) \<Longrightarrow>
     decode_loop sz (encode_list q) out = (if room_for sz (length out + length q) then Some (out @ q) else None)"
proof (induction q arbitrary: out rule: encode_list.induct)
  case 1
  then show ?case by (simp add: decode_loop.simps)
next
  case (2 x)
  then show ?case
    using decode_step [of 2 0 0 sz x "[]" out] by (simp add: decode_loop.simps)
next
  case (3 x y)
  then show ?case
    using decode_step [of 1 0 y sz x "[]" out] by (simp add: decode_loop.simps numeral_2_eq_2)
next
  case (4 x y z r)
  show ?case
  proof (cases "room_for sz (length out + 3)")
    case True
    then show ?thesis
      using decode_step [of 0 z y sz x "encode_list r" out] "4.IH" [of "out @ [x, y, z]"]
      by (simp add: numeral_3_eq_3 add.commute)
  next
    case False
    then have "\<not> room_for sz (length out + (3 + length r))" by (auto simp: room_for_def)
    then show ?thesis
      using False decode_step [of 0 z y sz x "encode_list r" out]
      by (simp add: numeral_3_eq_3)
  qed
qed

lemma length_token_of: "length (token_of c m) = 4"
  by (simp only: token_of_def list.size)

lemma length_encode_list: "length (encode_list q) = 4 * ((length q + 2) div 3)"
proof (induction q rule: encode_list.induct)
  case (4 x y z r)
  have "(length r + 3 + 2) div 3 = (length r + 2) div 3 + 1" by simp
  then show ?case using 4 by (simp add: length_token_of)
qed (simp_all add: length_token_of)

text \<open>
  Decoding the base64 text of any bytes gives them back when the output buffer has room for
  them, and fails when it has not; the text and its final NUL fit the block the encoder allocates,
  and the length it reports is the text's.
\<close>

theorem base64_roundtrip:
  "openvpn_base64_decode (snd (openvpn_base64_encode q)) sz = (if sz < 0 \<or> int (length q) \<le> sz then Some q else None)
     \<and> fst (openvpn_base64_encode q) = int (length (snd (openvpn_base64_encode q)))
     \<and> fst (openvpn_base64_encode q) + 1 \<le> encode_alloc (int (length q))"
proof -
  have enc: "snd (openvpn_base64_encode q) = encode_list q"
    using encode_loop_list [of "[]" q] by (simp add: openvpn_base64_encode_def Let_def)
  have "openvpn_base64_decode (encode_list q) sz = (if sz < 0 \<or> int (length q) \<le> sz then Some q else None)"
    using decode_loop_encode [of sz "[]" q] by (auto simp: openvpn_base64_decode_def room_for_def)
  moreover have len: "fst (openvpn_base64_encode q) = int (length (snd (openvpn_base64_encode q)))"
    by (simp add: openvpn_base64_encode_def Let_def)
  moreover have "int (length (encode_list q)) + 1 \<le> encode_alloc (int (length q))"
    unfolding length_encode_list encode_alloc_def by presburger
  ultimately show ?thesis by (simp add: enc)
qed

text \<open>
  \<open>openvpn_base64_decode\<close> does not refuse characters that are not in the alphabet behind the
  first of a group of four: it computes with the position -1 and returns a byte of no meaning.
\<close>

theorem foreign_characters_decoded:
  "CHR ''!'' \<notin> set base64_chars \<and> openvpn_base64_decode ''A!!!'' (-1) = Some [0xFF]"
  by code_simp

end
