(* ===== verification/Stream_Buf.thy ===== *)
theory Stream_Buf
  imports Buffer
begin

text \<open>
  The TCP packetizer of \<^verbatim>\<open>socket.c\<close>: packets are sent over a stream with a two-byte length in
  front, and \<open>stream_buf\<close> cuts the received bytes into packets again, however the kernel splits
  and joins them.

  \<open>stream_buf\<close> has the fields of the C struct. \<open>next\<close> is a window into the same block as
  \<open>buf\<close>, so what \<open>recv\<close> stores through it is put into the block of \<open>buf\<close> (\<open>recv_into\<close>); the
  bytes \<open>recv\<close> returns are an argument. Port sharing is not compiled in.

  \<open>held\<close> is the abstraction: the bytes received and not yet delivered. \<open>stream_step\<close> is one
  turn of the event loop over the rest of the stream, and the property says that any sequence of
  turns that is long enough delivers exactly the packets sent.
\<close>

record stream_buf =
  sb_buf_init :: buffer
  sb_residual :: buffer
  sb_maxlen :: int
  sb_residual_fully_formed :: bool
  sb_buf :: buffer
  sb_next :: buffer
  sb_len :: int
  sb_error :: bool

definition stream_buf_reset :: "stream_buf \<Rightarrow> stream_buf" where
  "stream_buf_reset sb =
     sb\<lparr>sb_residual_fully_formed := False,
        sb_buf := sb_buf_init sb\<lparr>bdata := bdata (sb_buf sb)\<rparr>,
        sb_next := buf_reset (sb_next sb), sb_len := -1\<rparr>"

definition stream_buf_init :: "buffer \<Rightarrow> stream_buf option" where
  "stream_buf_init b =
     (case alloc_buf (blen b) of
        None \<Rightarrow> None
      | Some residual \<Rightarrow>
          Some (stream_buf_reset \<lparr>sb_buf_init = b\<lparr>blen := 0\<rparr>, sb_residual = residual, sb_maxlen = blen b,
            sb_residual_fully_formed = False, sb_buf = b\<lparr>blen := 0\<rparr>, sb_next = clear_buf, sb_len = -1,
            sb_error = False\<rparr>))"

definition stream_buf_set_next :: "stream_buf \<Rightarrow> stream_buf option" where
  "stream_buf_set_next sb =
     (let b = sb_buf sb;
          nxt = b\<lparr>boff := boff b + blen b, blen := (if sb_len sb \<ge> 0 then sb_len sb else sb_maxlen sb) - blen b\<rparr>
      in if blen nxt > 0 \<and> buf_safe b (size_t_of (blen nxt)) then Some (sb\<lparr>sb_next := nxt\<rparr>) else None)"

definition stream_buf_get_final :: "stream_buf \<Rightarrow> buffer option" where
  "stream_buf_get_final sb = (if buf_defined (sb_buf sb) then Some (sb_buf sb) else None)"

definition stream_buf_get_next :: "stream_buf \<Rightarrow> buffer option" where
  "stream_buf_get_next sb = (if buf_defined (sb_next sb) then Some (sb_next sb) else None)"

text \<open>The last part of \<open>stream_buf_added\<close>: is the packet complete?\<close>

definition stream_complete :: "stream_buf \<Rightarrow> (bool \<times> stream_buf) option" where
  "stream_complete sb =
     (if sb_len sb > 0 \<and> blen (sb_buf sb) \<ge> sb_len sb
      then (case buf_init (sb_residual sb) 0 of
              (False, _) \<Rightarrow> None
            | (True, r0) \<Rightarrow>
                if blen (sb_buf sb) > sb_len sb
                then (case buf_copy_excess r0 (sb_buf sb) (sb_len sb) of
                        (False, _, _) \<Rightarrow> None
                      | (True, r1, b1) \<Rightarrow> Some (True, sb\<lparr>sb_residual := r1, sb_buf := b1\<rparr>))
                else Some (True, sb\<lparr>sb_residual := r0\<rparr>))
      else map_option (Pair False) (stream_buf_set_next sb))"

definition stream_buf_added :: "stream_buf \<Rightarrow> int \<Rightarrow> (bool \<times> stream_buf) option" where
  "stream_buf_added sb length_added =
     (let sb1 = (if length_added > 0
                 then sb\<lparr>sb_buf := sb_buf sb\<lparr>blen := blen (sb_buf sb) + length_added\<rparr>\<rparr> else sb)
      in if sb_len sb1 < 0 \<and> blen (sb_buf sb1) \<ge> 2
         then (case buf_read (sb_buf sb1) 2 of
                 (None, _) \<Rightarrow> None
               | (Some net_size, b) \<Rightarrow>
                   (let len = uint (un_be16 net_size); sb2 = sb1\<lparr>sb_buf := b, sb_len := len\<rparr>
                    in if len < 1 \<or> len > sb_maxlen sb
                       then Some (False, (stream_buf_reset sb2)\<lparr>sb_error := True\<rparr>)
                       else stream_complete sb2))
         else stream_complete sb1)"

definition stream_buf_read_setup_dowork :: "stream_buf \<Rightarrow> (bool \<times> stream_buf) option" where
  "stream_buf_read_setup_dowork sb =
     (case (if blen (sb_residual sb) \<noteq> 0 \<and> \<not> sb_residual_fully_formed sb
            then (case buf_copy (sb_buf sb) (sb_residual sb) of
                    (False, _) \<Rightarrow> None
                  | (True, b) \<Rightarrow>
                      (case buf_init (sb_residual sb) 0 of
                         (False, _) \<Rightarrow> None
                       | (True, r) \<Rightarrow>
                           (case stream_buf_added (sb\<lparr>sb_buf := b, sb_residual := r\<rparr>) 0 of
                              None \<Rightarrow> None
                            | Some (full, sb1) \<Rightarrow> Some (sb1\<lparr>sb_residual_fully_formed := full\<rparr>))))
            else Some sb) of
        None \<Rightarrow> None
      | Some sb1 \<Rightarrow>
          if \<not> sb_residual_fully_formed sb1
          then map_option (Pair True) (stream_buf_set_next sb1)
          else Some (False, sb1))"

text \<open>What the kernel answers: bytes (at most as many as asked for), end of stream, or an error.\<close>

datatype recv_result = Received "byte list" | Closed | Failed

definition recv_into :: "stream_buf \<Rightarrow> byte list \<Rightarrow> stream_buf" where
  "recv_into sb bs = sb\<lparr>sb_buf := poke (sb_buf sb) (boff (sb_next sb)) bs\<rparr>"

text \<open>The result: the return value, the stream-reset flag, the packet when one is complete.\<close>

definition link_socket_read_tcp ::
    "stream_buf \<Rightarrow> recv_result \<Rightarrow> ((int \<times> bool \<times> buffer option) \<times> stream_buf) option" where
  "link_socket_read_tcp sb answer =
     (let finish = (\<lambda>sb1. case stream_buf_get_final sb1 of
                            None \<Rightarrow> None
                          | Some b \<Rightarrow> Some ((blen b, False, Some b), stream_buf_reset sb1))
      in if sb_residual_fully_formed sb then finish sb
         else case stream_buf_get_next sb of
                None \<Rightarrow> None
              | Some frag \<Rightarrow>
                  (case answer of
                     Closed \<Rightarrow> Some ((0, True, None), sb)
                   | Failed \<Rightarrow> Some ((-1, False, None), sb)
                   | Received bs \<Rightarrow>
                       (case stream_buf_added (recv_into sb bs) (int (length bs)) of
                          None \<Rightarrow> None
                        | Some (True, sb1) \<Rightarrow> finish sb1
                        | Some (False, sb1) \<Rightarrow> Some ((0, False, None), sb1))))"

definition link_socket_write_tcp :: "stream_buf \<Rightarrow> buffer \<Rightarrow> buffer option" where
  "link_socket_write_tcp sb b =
     (let len = (word_of_int (buf_len b) :: u16)
      in if uint len > sb_maxlen sb then None
         else case buf_write_prepend b (be16 len) of (True, b1) \<Rightarrow> Some b1 | (False, _) \<Rightarrow> None)"

subsection \<open>Frames\<close>

definition frame_bytes :: "byte list \<Rightarrow> byte list" where
  "frame_bytes p = be16 (word_of_int (int (length p))) @ p"

definition stream_of :: "byte list list \<Rightarrow> byte list" where
  "stream_of ps = concat (map frame_bytes ps)"

definition packet_ok :: "int \<Rightarrow> byte list \<Rightarrow> bool" where
  "packet_ok maxlen p \<longleftrightarrow> 1 \<le> int (length p) \<and> int (length p) \<le> maxlen \<and> length p < 65536"

lemma stream_of_simps [simp]:
  "stream_of [] = []" "stream_of (p # ps) = frame_bytes p @ stream_of ps"
  "stream_of (ps @ qs) = stream_of ps @ stream_of qs"
  by (simp_all add: stream_of_def)

lemma frame_bytes_nonempty: "frame_bytes p \<noteq> []"
  by (simp add: frame_bytes_def be16_def)

lemma stream_of_empty [simp]: "stream_of ps = [] \<longleftrightarrow> ps = []"
  by (cases ps) (simp_all add: frame_bytes_nonempty)

lemma write_tcp_frames:
  assumes "packet_ok (sb_maxlen sb) p" "2 \<le> length pre"
  shows "link_socket_write_tcp sb (mkbuf pre p post) = Some (mkbuf (take (length pre - 2) pre) (frame_bytes p) post)"
proof -
  have "uint (word_of_int (int (length p)) :: u16) = int (length p)"
    using assms(1) by (simp add: packet_ok_def unsigned_of_nat take_bit_nat_eq_self)
  then show ?thesis
    using assms by (simp add: link_socket_write_tcp_def packet_ok_def buf_write_prepend_mkbuf frame_bytes_def del: of_int_of_nat_eq)
qed

subsection \<open>The layout of the buffers\<close>

text \<open>
  \<open>B\<close> and \<open>N\<close> are the offset and the size of the read buffer, \<open>M\<close> is the longest packet; \<open>c\<close>
  and \<open>r\<close> are the contents of \<open>buf\<close> and \<open>residual\<close>.
\<close>

definition frame_of_reference :: "int \<Rightarrow> int \<Rightarrow> int \<Rightarrow> stream_buf \<Rightarrow> bool" where
  "frame_of_reference B N M sb \<longleftrightarrow>
     0 \<le> B \<and> 2 \<le> M \<and> M < 65536 \<and> B + 2 + M \<le> N \<and> N < BUF_SIZE_MAX \<and> sb_maxlen sb = M \<and> \<not> sb_error sb
     \<and> boff (sb_buf_init sb) = B \<and> blen (sb_buf_init sb) = 0 \<and> bcap (sb_buf_init sb) = N"

definition layout :: "int \<Rightarrow> int \<Rightarrow> int \<Rightarrow> stream_buf \<Rightarrow> byte list \<Rightarrow> byte list \<Rightarrow> bool" where
  "layout B N M sb c r \<longleftrightarrow>
     frame_of_reference B N M sb
     \<and> (\<exists>pre post. sb_buf sb = mkbuf pre c post \<and> int (length pre + length c + length post) = N
          \<and> int (length pre) = (if sb_len sb < 0 then B else B + 2))
     \<and> (\<exists>rp. sb_residual sb = mkbuf [] r rp \<and> int (length r + length rp) = M)"

definition held :: "stream_buf \<Rightarrow> byte list" where
  "held sb = (if sb_len sb \<ge> 0 then be16 (word_of_int (sb_len sb)) else [])
     @ content (sb_buf sb) @ content (sb_residual sb)"

lemma layoutI:
  "frame_of_reference B N M sb \<Longrightarrow> sb_buf sb = mkbuf pre c post
     \<Longrightarrow> int (length pre + length c + length post) = N \<Longrightarrow> int (length pre) = (if sb_len sb < 0 then B else B + 2)
     \<Longrightarrow> sb_residual sb = mkbuf [] r rp \<Longrightarrow> int (length r + length rp) = M \<Longrightarrow> layout B N M sb c r"
  unfolding layout_def by blast

lemma layoutE:
  assumes "layout B N M sb c r"
  obtains pre post rp where "frame_of_reference B N M sb" "sb_buf sb = mkbuf pre c post"
    "int (length pre + length c + length post) = N" "int (length pre) = (if sb_len sb < 0 then B else B + 2)"
    "sb_residual sb = mkbuf [] r rp" "int (length r + length rp) = M"
    "B + 2 + M \<le> N" "N < BUF_SIZE_MAX" "0 \<le> B" "sb_maxlen sb = M" "2 \<le> M"
  using assms unfolding layout_def frame_of_reference_def by blast

lemma layout_content: "layout B N M sb c r \<Longrightarrow> content (sb_buf sb) = c \<and> content (sb_residual sb) = r"
  by (auto simp: layout_def)

definition idle :: "stream_buf \<Rightarrow> byte list \<Rightarrow> bool" where
  "idle sb c \<longleftrightarrow> sb_len sb = -1 \<and> c = []"

definition partial_packet :: "int \<Rightarrow> stream_buf \<Rightarrow> byte list \<Rightarrow> byte list \<Rightarrow> bool" where
  "partial_packet M sb c r \<longleftrightarrow> r = []
     \<and> (sb_len sb = -1 \<and> length c < 2 \<or> 1 \<le> sb_len sb \<and> sb_len sb \<le> M \<and> int (length c) < sb_len sb)"

definition full_packet :: "int \<Rightarrow> stream_buf \<Rightarrow> byte list \<Rightarrow> bool" where
  "full_packet M sb c \<longleftrightarrow> 1 \<le> sb_len sb \<and> sb_len sb \<le> M \<and> int (length c) = sb_len sb"

lemma set_next_layout:
  assumes "layout B N M sb c r" "0 < (if sb_len sb \<ge> 0 then sb_len sb else M) - int (length c)"
    and "sb_len sb \<le> M"
  shows "\<exists>sb'. stream_buf_set_next sb = Some sb' \<and> sb' = sb\<lparr>sb_next := sb_next sb'\<rparr>
     \<and> boff (sb_next sb') = boff (sb_buf sb) + int (length c) \<and> bdata (sb_next sb') \<noteq> None
     \<and> blen (sb_next sb') = (if sb_len sb \<ge> 0 then sb_len sb else M) - int (length c)"
proof -
  obtain pre post rp where fr: "frame_of_reference B N M sb"
    and b: "sb_buf sb = mkbuf pre c post" "int (length pre + length c + length post) = N"
      "int (length pre) = (if sb_len sb < 0 then B else B + 2)"
    and rp: "sb_residual sb = mkbuf [] r rp" "int (length r + length rp) = M"
    and M: "B + 2 + M \<le> N" "N < BUF_SIZE_MAX" "0 \<le> B" "sb_maxlen sb = M" "2 \<le> M"
    using assms(1) by (rule layoutE)
  define n where "n = (if sb_len sb \<ge> 0 then sb_len sb else M) - int (length c)"
  have n: "0 < n" "int (length pre) + int (length c) + n \<le> N"
    using assms(2,3) b(3) M by (auto simp: n_def split: if_splits)
  have "buf_safe (sb_buf sb) (size_t_of n)"
    using n M b by (simp add: buf_safe_def buf_size_valid_def b(1))
  moreover have "bdata (sb_buf sb) \<noteq> None" by (simp add: b(1) mkbuf_def)
  ultimately show ?thesis
    using n(1) M(4) by (cases "sb_len sb \<ge> 0") (simp_all add: stream_buf_set_next_def Let_def b(1) n_def)
qed

lemma layout_next: "layout B N M (sb\<lparr>sb_next := x\<rparr>) c r \<longleftrightarrow> layout B N M sb c r"
  "held (sb\<lparr>sb_next := x\<rparr>) = held sb"
  "layout B N M (sb\<lparr>sb_residual_fully_formed := f\<rparr>) c r \<longleftrightarrow> layout B N M sb c r"
  "held (sb\<lparr>sb_residual_fully_formed := f\<rparr>) = held sb"
  by (simp_all add: layout_def held_def frame_of_reference_def)

text \<open>A complete packet is separated from the bytes behind it.\<close>

lemma copy_excess_mkbuf:
  assumes "n < length c" "small rpre [] rpost" "length c - n \<le> length rpost"
  shows "buf_copy_excess (mkbuf rpre [] rpost) (mkbuf pre c post) (int n)
     = (True, mkbuf rpre (drop n c) (drop (length c - n) rpost), mkbuf pre (take n c) (drop n c @ post))"
proof -
  have "mkbuf pre c post\<lparr>blen := int n\<rparr> = mkbuf pre (take n c) (drop n c @ post)"
    using assms(1) by (intro mkbuf_eqI) (simp_all add: mkbuf_def)
  then show ?thesis
    using assms by (simp add: buf_copy_excess_def Let_def buf_advance_mkbuf buf_copy_mkbuf buf_write_mkbuf)
qed

lemma complete_layout:
  assumes "layout B N M sb c r" "1 \<le> sb_len sb" "sb_len sb \<le> M" "int (length c) \<le> M" "r = []"
  shows "if int (length c) < sb_len sb
     then \<exists>sb'. stream_complete sb = Some (False, sb') \<and> sb' = sb\<lparr>sb_next := sb_next sb'\<rparr>
            \<and> boff (sb_next sb') = boff (sb_buf sb) + int (length c) \<and> bdata (sb_next sb') \<noteq> None
            \<and> blen (sb_next sb') = sb_len sb - int (length c)
     else \<exists>sb'. stream_complete sb = Some (True, sb') \<and> sb_len sb' = sb_len sb
            \<and> sb_residual_fully_formed sb' = sb_residual_fully_formed sb
            \<and> layout B N M sb' (take (nat (sb_len sb)) c) (drop (nat (sb_len sb)) c)"
proof (cases "int (length c) < sb_len sb")
  case True
  then show ?thesis
    using set_next_layout [OF assms(1)] assms(1-3) by (force simp: stream_complete_def layout_def frame_of_reference_def)
next
  case False
  obtain pre post rp where fr: "frame_of_reference B N M sb"
    and b: "sb_buf sb = mkbuf pre c post" "int (length pre + length c + length post) = N"
      "int (length pre) = (if sb_len sb < 0 then B else B + 2)"
    and rp: "sb_residual sb = mkbuf [] r rp" "int (length r + length rp) = M"
    and M: "B + 2 + M \<le> N" "N < BUF_SIZE_MAX" "0 \<le> B" "sb_maxlen sb = M" "2 \<le> M"
    using assms(1) by (rule layoutE)
  define n where "n = nat (sb_len sb)"
  have n: "sb_len sb = int n" "n \<le> length c" "0 < n" using assms(2) False by (simp_all add: n_def)
  have init: "buf_init (mkbuf [] r rp) 0 = (True, mkbuf [] [] rp)"
    using assms(5) by (simp add: buf_init_mkbuf)
  have sm: "small [] [] rp" using rp(2) M assms(5) by (simp add: small_def)
  show ?thesis
  proof (cases "n < length c")
    case True
    define sb' where "sb' = sb\<lparr>sb_residual := mkbuf [] (drop n c) (drop (length c - n) rp),
      sb_buf := mkbuf pre (take n c) (drop n c @ post)\<rparr>"
    have room: "length c - n \<le> length rp" using rp(2) assms(4,5) n by simp
    have "stream_complete sb = Some (True, sb')"
      using True n copy_excess_mkbuf [OF True sm room, of pre post]
      by (simp add: stream_complete_def b(1) rp(1) init sb'_def)
    moreover have "layout B N M sb' (take n c) (drop n c)"
    proof (rule layoutI)
      show "frame_of_reference B N M sb'" using fr by (simp add: sb'_def frame_of_reference_def)
      show "sb_buf sb' = mkbuf pre (take n c) (drop n c @ post)" by (simp add: sb'_def)
      show "sb_residual sb' = mkbuf [] (drop n c) (drop (length c - n) rp)" by (simp add: sb'_def)
    qed (use b n True room rp(2) assms(5) in \<open>simp_all add: sb'_def\<close>)
    ultimately show ?thesis
      using False n by (intro if_not_P [THEN iffD2]) (auto simp: sb'_def)
  next
    case False
    then have e: "n = length c" using n by simp
    define sb' where "sb' = sb\<lparr>sb_residual := mkbuf [] [] rp\<rparr>"
    have "stream_complete sb = Some (True, sb')"
      using n e by (simp add: stream_complete_def b(1) rp(1) init sb'_def)
    moreover have "layout B N M sb' (take n c) (drop n c)"
    proof (rule layoutI)
      show "frame_of_reference B N M sb'" using fr by (simp add: sb'_def frame_of_reference_def)
      show "sb_buf sb' = mkbuf pre (take n c) post" using b(1) e by (simp add: sb'_def)
      show "sb_residual sb' = mkbuf [] (drop n c) rp" using e by (simp add: sb'_def)
    qed (use b e rp(2) assms(5) in \<open>simp_all add: sb'_def\<close>)
    ultimately show ?thesis using n e by (auto simp: sb'_def)
  qed
qed

subsection \<open>Bytes arrive\<close>

definition ready :: "int \<Rightarrow> stream_buf \<Rightarrow> byte list \<Rightarrow> bool" where
  "ready M sb c \<longleftrightarrow> boff (sb_next sb) = boff (sb_buf sb) + int (length c) \<and> bdata (sb_next sb) \<noteq> None
     \<and> blen (sb_next sb) = (if sb_len sb \<ge> 0 then sb_len sb else M) - int (length c)"

definition outcome :: "int \<Rightarrow> int \<Rightarrow> int \<Rightarrow> bool \<Rightarrow> stream_buf \<Rightarrow> bool" where
  "outcome B N M full sb \<longleftrightarrow> (\<exists>c r. layout B N M sb c r
     \<and> (if full then full_packet M sb c else partial_packet M sb c r \<and> ready M sb c))"

lemma outcome_flag: "outcome B N M full (sb\<lparr>sb_residual_fully_formed := f\<rparr>) \<longleftrightarrow> outcome B N M full sb"
proof -
  have "full_packet M (sb\<lparr>sb_residual_fully_formed := f\<rparr>) c = full_packet M sb c"
    "partial_packet M (sb\<lparr>sb_residual_fully_formed := f\<rparr>) c r = partial_packet M sb c r"
    "ready M (sb\<lparr>sb_residual_fully_formed := f\<rparr>) c = ready M sb c" for c r
    by (simp_all add: full_packet_def partial_packet_def ready_def)
  then show ?thesis by (simp only: outcome_def layout_next)
qed

lemma complete_outcome:
  assumes "layout B N M sb c []" "1 \<le> sb_len sb" "sb_len sb \<le> M" "int (length c) \<le> M"
  shows "\<exists>full sb'. stream_complete sb = Some (full, sb') \<and> outcome B N M full sb' \<and> held sb' = held sb
     \<and> sb_residual_fully_formed sb' = sb_residual_fully_formed sb"
proof (cases "int (length c) < sb_len sb")
  case True
  then obtain sb' where r: "stream_complete sb = Some (False, sb')" "sb' = sb\<lparr>sb_next := sb_next sb'\<rparr>"
      "boff (sb_next sb') = boff (sb_buf sb) + int (length c)" "bdata (sb_next sb') \<noteq> None"
      "blen (sb_next sb') = sb_len sb - int (length c)"
    using complete_layout [OF assms refl] by auto
  have fields: "sb_buf sb' = sb_buf sb" "sb_len sb' = sb_len sb" "held sb' = held sb"
      "sb_residual_fully_formed sb' = sb_residual_fully_formed sb" "layout B N M sb' c []"
    by (subst r(2), simp add: layout_next assms(1))+
  then have "outcome B N M False sb'"
    using r True assms(2,3) by (auto simp: outcome_def partial_packet_def ready_def)
  then show ?thesis using r(1) fields by blast
next
  case False
  then obtain sb' where r: "stream_complete sb = Some (True, sb')" "sb_len sb' = sb_len sb"
      "sb_residual_fully_formed sb' = sb_residual_fully_formed sb"
      "layout B N M sb' (take (nat (sb_len sb)) c) (drop (nat (sb_len sb)) c)"
    using complete_layout [OF assms refl] by auto
  have "outcome B N M True sb'"
    using r False assms(2,3) unfolding outcome_def full_packet_def by (intro exI conjI) auto
  moreover have "held sb' = held sb"
    using layout_content [OF r(4)] layout_content [OF assms(1)] r(2) by (simp add: held_def)
  ultimately show ?thesis using r by blast
qed

lemma added_outcome:
  assumes "layout B N M sb c []" "sb_len sb = -1 \<or> 1 \<le> sb_len sb \<and> sb_len sb \<le> M" "int (length c) \<le> M"
    and "held sb @ rest = stream_of rem" "list_all (packet_ok M) rem"
  shows "\<exists>full sb'. stream_buf_added sb 0 = Some (full, sb') \<and> outcome B N M full sb' \<and> held sb' = held sb
     \<and> sb_residual_fully_formed sb' = sb_residual_fully_formed sb"
proof -
  obtain pre post rp where fr: "frame_of_reference B N M sb"
    and b: "sb_buf sb = mkbuf pre c post" "int (length pre + length c + length post) = N"
      "int (length pre) = (if sb_len sb < 0 then B else B + 2)"
    and rp: "sb_residual sb = mkbuf [] [] rp" "int (length ([] :: byte list) + length rp) = M"
    and M: "B + 2 + M \<le> N" "N < BUF_SIZE_MAX" "0 \<le> B" "sb_maxlen sb = M" "2 \<le> M"
    using assms(1) by (rule layoutE)
  consider (known) "1 \<le> sb_len sb" "sb_len sb \<le> M" | (short) "sb_len sb = -1" "length c < 2"
    | (prefix) "sb_len sb = -1" "2 \<le> length c"
    using assms(2) by linarith
  then show ?thesis
  proof cases
    case known
    then have "stream_buf_added sb 0 = stream_complete sb" by (simp add: stream_buf_added_def Let_def)
    then show ?thesis using complete_outcome [OF assms(1) known assms(3)] by simp
  next
    case short
    have "0 < (if sb_len sb \<ge> 0 then sb_len sb else M) - int (length c)" "sb_len sb \<le> M"
      using short M by simp_all
    from set_next_layout [OF assms(1) this] obtain sb' where r: "stream_buf_set_next sb = Some sb'"
        "sb' = sb\<lparr>sb_next := sb_next sb'\<rparr>" "boff (sb_next sb') = boff (sb_buf sb) + int (length c)"
        "bdata (sb_next sb') \<noteq> None" "blen (sb_next sb') = M - int (length c)"
      using short by auto
    have fields: "sb_buf sb' = sb_buf sb" "sb_len sb' = sb_len sb" "held sb' = held sb"
        "sb_residual_fully_formed sb' = sb_residual_fully_formed sb" "layout B N M sb' c []"
      by (subst r(2), simp add: layout_next assms(1))+
    have "stream_buf_added sb 0 = Some (False, sb')"
      using short r(1) by (simp add: stream_buf_added_def Let_def stream_complete_def b(1))
    moreover have "outcome B N M False sb'"
      using r fields short by (auto simp: outcome_def partial_packet_def ready_def)
    ultimately show ?thesis using fields by blast
  next
    case prefix
    have "held sb = c" using layout_content [OF assms(1)] prefix by (simp add: held_def)
    then obtain q rem' where rem: "rem = q # rem'" "c @ rest = frame_bytes q @ stream_of rem'"
      using assms(4) prefix by (cases rem) auto
    have q: "packet_ok M q" using assms(5) rem by simp
    have "take 2 c = take 2 (c @ rest)" using prefix by simp
    also have "\<dots> = be16 (word_of_int (int (length q)))"
      unfolding rem(2) by (simp add: frame_bytes_def)
    finally have two: "take 2 c = be16 (word_of_int (int (length q)))" .
    have size: "uint (word_of_int (int (length q)) :: u16) = int (length q)"
      using q by (simp add: packet_ok_def unsigned_of_nat take_bit_nat_eq_self)
    define sb2 where "sb2 = sb\<lparr>sb_buf := mkbuf (pre @ take 2 c) (drop 2 c) post, sb_len := int (length q)\<rparr>"
    have read: "buf_read (mkbuf pre c post) 2 = (Some (take 2 c), mkbuf (pre @ take 2 c) (drop 2 c) post)"
      using prefix by (simp add: buf_read_mkbuf)
    have lens: "1 \<le> int (length q)" "int (length q) \<le> M" using q by (simp_all add: packet_ok_def)
    then have ne: "q \<noteq> []" by auto
    have "stream_buf_added sb 0 = stream_complete sb2"
      using prefix read lens ne M(4) size unfolding stream_buf_added_def Let_def
      by (simp add: b(1) two sb2_def del: of_int_of_nat_eq)
    moreover have "layout B N M sb2 (drop 2 c) []"
    proof (rule layoutI)
      show "frame_of_reference B N M sb2" using fr by (simp add: sb2_def frame_of_reference_def)
      show "sb_buf sb2 = mkbuf (pre @ take 2 c) (drop 2 c) post" by (simp add: sb2_def)
      show "sb_residual sb2 = mkbuf [] [] rp" using rp(1) by (simp add: sb2_def)
    qed (use b prefix rp(2) in \<open>simp_all add: sb2_def\<close>)
    moreover have "held sb2 = held sb"
    proof -
      have "be16 (word_of_int (int (length q))) @ drop 2 c = c" using two by (metis append_take_drop_id)
      then show ?thesis using \<open>held sb = c\<close> rp(1) by (simp add: held_def sb2_def)
    qed
    ultimately show ?thesis
      using complete_outcome [of B N M sb2 "drop 2 c"] lens assms(3) by (auto simp: sb2_def)
  qed
qed

subsection \<open>The turns of the event loop\<close>

text \<open>
  The receiver, the rest of the stream and the packets handed on. With \<open>k = 0\<close> the loop only
  prepares for reading (the socket is not readable); otherwise it reads, and the kernel gives at
  most \<open>k\<close> of the bytes that are there.
\<close>

type_synonym stream_state = "stream_buf \<times> byte list \<times> byte list list"

fun stream_step :: "stream_state \<Rightarrow> nat \<Rightarrow> stream_state option" where
  "stream_step (sb, rest, out) k =
     (case stream_buf_read_setup_dowork sb of
        None \<Rightarrow> None
      | Some (need, sb1) \<Rightarrow>
          (let bs = (if need then take (min k (nat (blen (sb_next sb1)))) rest else [])
           in if k = 0 \<or> need \<and> bs = [] then Some (sb1, rest, out)
              else case link_socket_read_tcp sb1 (Received bs) of
                     None \<Rightarrow> None
                   | Some ((_, _, p), sb2) \<Rightarrow>
                       Some (sb2, drop (length bs) rest,
                             out @ (case p of None \<Rightarrow> [] | Some b \<Rightarrow> [content b]))))"

definition receiver_inv :: "int \<Rightarrow> int \<Rightarrow> int \<Rightarrow> stream_buf \<Rightarrow> bool" where
  "receiver_inv B N M sb \<longleftrightarrow> (\<exists>c r. layout B N M sb c r
     \<and> (if sb_residual_fully_formed sb then full_packet M sb c else idle sb c \<or> partial_packet M sb c r))"

definition stream_inv :: "int \<Rightarrow> int \<Rightarrow> int \<Rightarrow> byte list list \<Rightarrow> stream_state \<Rightarrow> bool" where
  "stream_inv B N M ps = (\<lambda>(sb, rest, out). receiver_inv B N M sb
     \<and> (\<exists>rem. ps = out @ rem \<and> held sb @ rest = stream_of rem \<and> list_all (packet_ok M) rem))"

text \<open>Preparing to read: afterwards either a packet is complete or there is room to read into.\<close>

lemma setup_outcome:
  assumes "receiver_inv B N M sb" "held sb @ rest = stream_of rem" "list_all (packet_ok M) rem"
  shows "\<exists>need sb1. stream_buf_read_setup_dowork sb = Some (need, sb1) \<and> held sb1 = held sb
     \<and> outcome B N M (\<not> need) sb1 \<and> sb_residual_fully_formed sb1 = (\<not> need)"
proof -
  obtain c r where lay: "layout B N M sb c r"
    and mode: "if sb_residual_fully_formed sb then full_packet M sb c else idle sb c \<or> partial_packet M sb c r"
    using assms(1) by (auto simp: receiver_inv_def)
  obtain pre post rp where fr: "frame_of_reference B N M sb"
    and b: "sb_buf sb = mkbuf pre c post" "int (length pre + length c + length post) = N"
      "int (length pre) = (if sb_len sb < 0 then B else B + 2)"
    and rp: "sb_residual sb = mkbuf [] r rp" "int (length r + length rp) = M"
    and M: "B + 2 + M \<le> N" "N < BUF_SIZE_MAX" "0 \<le> B" "sb_maxlen sb = M" "2 \<le> M"
    using lay by (rule layoutE)
  consider (full) "sb_residual_fully_formed sb" | (resid) "\<not> sb_residual_fully_formed sb" "r \<noteq> []"
    | (plain) "\<not> sb_residual_fully_formed sb" "r = []" by blast
  then show ?thesis
  proof cases
    case full
    have "stream_buf_read_setup_dowork sb = Some (False, sb)"
      using full by (simp add: stream_buf_read_setup_dowork_def)
    then show ?thesis using full mode lay unfolding outcome_def by auto
  next
    case plain
    have room: "0 < (if sb_len sb \<ge> 0 then sb_len sb else M) - int (length c)" "sb_len sb \<le> M"
      and part: "partial_packet M sb c r"
      using plain mode M(5) by (auto simp: idle_def partial_packet_def)
    obtain sb1 where s1: "stream_buf_set_next sb = Some sb1" "sb1 = sb\<lparr>sb_next := sb_next sb1\<rparr>"
        "boff (sb_next sb1) = boff (sb_buf sb) + int (length c)" "bdata (sb_next sb1) \<noteq> None"
        "blen (sb_next sb1) = (if sb_len sb \<ge> 0 then sb_len sb else M) - int (length c)"
      using set_next_layout [OF lay room] by blast
    have fields: "sb_buf sb1 = sb_buf sb" "sb_len sb1 = sb_len sb" "held sb1 = held sb"
        "sb_residual_fully_formed sb1 = sb_residual_fully_formed sb" "layout B N M sb1 c r"
      by (subst s1(2), simp add: layout_next lay)+
    have "stream_buf_read_setup_dowork sb = Some (True, sb1)"
      using plain s1(1) by (simp add: stream_buf_read_setup_dowork_def rp(1))
    moreover have "outcome B N M False sb1"
      using s1 fields part by (auto simp: outcome_def partial_packet_def ready_def)
    ultimately show ?thesis
      using fields(3,4) plain(1) by (intro exI [of _ True] exI [of _ sb1]) simp
  next
    case resid
    have i: "sb_len sb = -1" "c = []" using resid mode by (auto simp: idle_def partial_packet_def)
    define sb0 where "sb0 = sb\<lparr>sb_buf := mkbuf pre r (drop (length r) post), sb_residual := mkbuf [] [] (r @ rp)\<rparr>"
    have sm: "small pre [] post" using b(2) i M(2) by (simp add: small_def)
    have room: "length r \<le> length post" using b(2,3) i rp(2) M(1) by simp
    have copy: "buf_copy (mkbuf pre c post) (mkbuf [] r rp) = (True, mkbuf pre r (drop (length r) post))"
      using i room sm by (simp add: buf_copy_mkbuf buf_write_mkbuf)
    have lay0: "layout B N M sb0 r []"
    proof (rule layoutI)
      show "frame_of_reference B N M sb0" using fr by (simp add: sb0_def frame_of_reference_def)
      show "sb_buf sb0 = mkbuf pre r (drop (length r) post)" by (simp add: sb0_def)
      show "sb_residual sb0 = mkbuf [] [] (r @ rp)" by (simp add: sb0_def)
    qed (use b i room rp(2) in \<open>simp_all add: sb0_def\<close>)
    have h0: "held sb0 = held sb" using i b(1) rp(1) by (simp add: held_def sb0_def)
    obtain full sb1 where a: "stream_buf_added sb0 0 = Some (full, sb1)" "outcome B N M full sb1" "held sb1 = held sb0"
    proof -
      have "sb_len sb0 = -1 \<or> 1 \<le> sb_len sb0 \<and> sb_len sb0 \<le> M" "int (length r) \<le> M"
        "held sb0 @ rest = stream_of rem"
        using i rp(2) assms(2) h0 by (simp_all add: sb0_def)
      from added_outcome [OF lay0 this assms(3)] show ?thesis using that by blast
    qed
    define sb2 where "sb2 = sb1\<lparr>sb_residual_fully_formed := full\<rparr>"
    have o2: "outcome B N M full sb2" "held sb2 = held sb"
      using a(2,3) h0 by (simp_all add: sb2_def layout_next outcome_flag)
    have start: "stream_buf_read_setup_dowork sb =
       (if \<not> full then map_option (Pair True) (stream_buf_set_next sb2) else Some (False, sb2))"
      using resid a(1) b(1) rp(1) copy
      by (simp add: stream_buf_read_setup_dowork_def buf_init_mkbuf sb0_def sb2_def)
    show ?thesis
    proof (cases full)
      case True
      then show ?thesis
        using start o2 by (intro exI [of _ False] exI [of _ sb2]) (simp add: sb2_def)
    next
      case False
      then obtain c2 r2 where lay2: "layout B N M sb2 c2 r2" "partial_packet M sb2 c2 r2"
        using o2(1) by (auto simp: outcome_def)
      have room2: "0 < (if sb_len sb2 \<ge> 0 then sb_len sb2 else M) - int (length c2)" "sb_len sb2 \<le> M"
        using lay2(2) M(5) by (auto simp: partial_packet_def)
      obtain sb3 where s3: "stream_buf_set_next sb2 = Some sb3" "sb3 = sb2\<lparr>sb_next := sb_next sb3\<rparr>"
          "boff (sb_next sb3) = boff (sb_buf sb2) + int (length c2)" "bdata (sb_next sb3) \<noteq> None"
          "blen (sb_next sb3) = (if sb_len sb2 \<ge> 0 then sb_len sb2 else M) - int (length c2)"
        using set_next_layout [OF lay2(1) room2] by blast
      have fields: "sb_buf sb3 = sb_buf sb2" "sb_len sb3 = sb_len sb2" "held sb3 = held sb2"
          "sb_residual_fully_formed sb3 = sb_residual_fully_formed sb2" "layout B N M sb3 c2 r2"
        by (subst s3(2), simp add: layout_next lay2(1))+
      have "outcome B N M False sb3"
        using s3 fields lay2(2) by (auto simp: outcome_def partial_packet_def ready_def)
      moreover have "sb_residual_fully_formed sb3 = False" "held sb3 = held sb"
        using fields(3,4) o2(2) False by (simp_all add: sb2_def)
      moreover have "stream_buf_read_setup_dowork sb = Some (True, sb3)"
        using start False s3(1) by simp
      ultimately show ?thesis by (intro exI [of _ True] exI [of _ sb3]) simp
    qed
  qed
qed

text \<open>A complete packet is handed on and the rest stays.\<close>

lemma deliver_full:
  assumes "outcome B N M True sb"
  defines "out \<equiv> stream_buf_reset sb"
  shows "\<exists>b. stream_buf_get_final sb = Some b \<and> length (content b) < 65536
     \<and> held sb = frame_bytes (content b) @ held out \<and> receiver_inv B N M out \<and> \<not> sb_residual_fully_formed out"
proof -
  obtain c r where lay: "layout B N M sb c r" and full: "full_packet M sb c"
    using assms(1) by (auto simp: outcome_def)
  obtain pre post rp where fr: "frame_of_reference B N M sb"
    and b: "sb_buf sb = mkbuf pre c post" "int (length pre + length c + length post) = N"
      "int (length pre) = (if sb_len sb < 0 then B else B + 2)"
    and rp: "sb_residual sb = mkbuf [] r rp" "int (length r + length rp) = M"
    and M: "B + 2 + M \<le> N" "N < BUF_SIZE_MAX" "0 \<le> B" "sb_maxlen sb = M" "2 \<le> M"
    using lay by (rule layoutE)
  define blk where "blk = pre @ c @ post"
  have blk: "int (length blk) = N" using b(2) by (simp add: blk_def)
  have nB: "nat B \<le> length blk" using blk M by linarith
  have buf: "sb_buf out = mkbuf (take (nat B) blk) [] (drop (nat B) blk)"
  proof -
    have i: "boff (sb_buf_init sb) = B" "blen (sb_buf_init sb) = 0" "bcap (sb_buf_init sb) = N"
      using fr by (simp_all add: frame_of_reference_def)
    have e: "sb_buf out = sb_buf_init sb\<lparr>bdata := bdata (sb_buf sb)\<rparr>"
      by (simp add: out_def stream_buf_reset_def)
    have bd: "bdata (sb_buf sb) = Some blk" by (simp add: b(1) mkbuf_def blk_def)
    show ?thesis unfolding e
      by (subst mkbuf_take_drop) (use nB i bd blk M in \<open>cases "sb_buf_init sb", simp_all\<close>)
  qed
  have lay2: "layout B N M out [] r"
  proof (rule layoutI)
    show "frame_of_reference B N M out"
      using fr by (simp add: out_def stream_buf_reset_def frame_of_reference_def)
    show "sb_residual out = mkbuf [] r rp" using rp(1) by (simp add: out_def stream_buf_reset_def)
    show "sb_buf out = mkbuf (take (nat B) blk) [] (drop (nat B) blk)" by (rule buf)
    show "int (length (take (nat B) blk) + length ([] :: byte list) + length (drop (nat B) blk)) = N"
      using nB blk by simp
    show "int (length (take (nat B) blk)) = (if sb_len out < 0 then B else B + 2)"
      using nB M(3) by (simp add: out_def stream_buf_reset_def min_def)
  qed (use rp(2) in simp)
  have len: "sb_len out = -1" "\<not> sb_residual_fully_formed out" by (simp_all add: out_def stream_buf_reset_def)
  then have "receiver_inv B N M out" using lay2 by (auto simp: receiver_inv_def idle_def)
  moreover have "held sb = frame_bytes c @ held out"
    using full layout_content [OF lay] layout_content [OF lay2] len(1)
    by (simp add: held_def frame_bytes_def full_packet_def)
  moreover have "stream_buf_get_final sb = Some (sb_buf sb)"
    by (simp add: stream_buf_get_final_def b(1))
  moreover have "content (sb_buf sb) = c" using b(1) by simp
  moreover have "length c < 65536" using full fr by (auto simp: full_packet_def frame_of_reference_def)
  ultimately show ?thesis using len(2) by auto
qed

lemma added_length:
  "0 < n \<Longrightarrow> stream_buf_added sb n = stream_buf_added (sb\<lparr>sb_buf := sb_buf sb\<lparr>blen := blen (sb_buf sb) + n\<rparr>\<rparr>) 0"
  by (simp add: stream_buf_added_def Let_def cong: option.case_cong prod.case_cong)

text \<open>Bytes stored through \<open>next\<close> are appended to \<open>buf\<close>.\<close>

lemma recv_added:
  assumes "layout B N M sb c []" "ready M sb c" "0 < length bs" "int (length bs) \<le> blen (sb_next sb)"
    and "sb_len sb \<le> M"
  shows "\<exists>sb1. stream_buf_added (recv_into sb bs) (int (length bs)) = stream_buf_added sb1 0
     \<and> layout B N M sb1 (c @ bs) [] \<and> held sb1 = held sb @ bs \<and> sb_len sb1 = sb_len sb
     \<and> sb_residual_fully_formed sb1 = sb_residual_fully_formed sb"
proof -
  obtain pre post rp where fr: "frame_of_reference B N M sb"
    and b: "sb_buf sb = mkbuf pre c post" "int (length pre + length c + length post) = N"
      "int (length pre) = (if sb_len sb < 0 then B else B + 2)"
    and rp: "sb_residual sb = mkbuf [] [] rp" "int (length ([] :: byte list) + length rp) = M"
    and M: "B + 2 + M \<le> N" "N < BUF_SIZE_MAX" "0 \<le> B" "sb_maxlen sb = M" "2 \<le> M"
    using assms(1) by (rule layoutE)
  have room: "length bs \<le> length post"
    using assms(2,4,5) b(2,3) M by (auto simp: ready_def split: if_splits)
  define sb1 where "sb1 = sb\<lparr>sb_buf := mkbuf pre (c @ bs) (drop (length bs) post)\<rparr>"
  have "poke (mkbuf pre c post) (int (length pre) + int (length c)) bs\<lparr>blen := int (length c) + int (length bs)\<rparr>
      = mkbuf pre (c @ bs) (drop (length bs) post)"
    using room by (intro mkbuf_eqI) (simp_all add: poke_def mkbuf_def mem_write_def nat_add_distrib)
  then have "stream_buf_added (recv_into sb bs) (int (length bs)) = stream_buf_added sb1 0"
    using assms(2,3) added_length [of "int (length bs)" "recv_into sb bs"]
    by (simp add: recv_into_def ready_def b(1) sb1_def poke_def)
  moreover have "layout B N M sb1 (c @ bs) []"
  proof (rule layoutI)
    show "frame_of_reference B N M sb1" using fr by (simp add: sb1_def frame_of_reference_def)
    show "sb_buf sb1 = mkbuf pre (c @ bs) (drop (length bs) post)" by (simp add: sb1_def)
    show "sb_residual sb1 = mkbuf [] [] rp" using rp(1) by (simp add: sb1_def)
  qed (use b room rp(2) in \<open>simp_all add: sb1_def\<close>)
  ultimately show ?thesis
    using b(1) rp(1) by (intro exI [of _ sb1]) (simp add: held_def sb1_def)
qed

text \<open>A turn keeps the invariant, and makes progress when it may read.\<close>

definition undone :: "stream_state \<Rightarrow> nat" where
  "undone = (\<lambda>(sb, rest, out). length (held sb) + 2 * length rest)"

lemma frame_decode:
  assumes "frame_bytes p @ xs = stream_of rem" "length p < 65536" "list_all (packet_ok M) rem"
  obtains rem' where "rem = p # rem'" "xs = stream_of rem'"
proof (cases rem)
  case Nil
  then show ?thesis using assms(1) frame_bytes_nonempty by simp
next
  case (Cons q rem')
  have q: "length q < 65536" using assms(3) Cons by (simp add: packet_ok_def)
  have size: "uint (word_of_int (int (length x)) :: u16) = int (length x)" if "length x < 65536" for x :: "byte list"
    using that by (simp add: unsigned_of_nat take_bit_nat_eq_self)
  have eq: "be16 (word_of_int (int (length p))) @ p @ xs = be16 (word_of_int (int (length q))) @ q @ stream_of rem'"
    using assms(1) Cons by (simp add: frame_bytes_def)
  then have "be16 (word_of_int (int (length p))) = be16 (word_of_int (int (length q)))" "p @ xs = q @ stream_of rem'"
    by (simp_all add: append_eq_append_conv)
  then have "(word_of_int (int (length p)) :: u16) = word_of_int (int (length q))"
    by (metis un_be16_be16)
  then have "length p = length q" using size [OF assms(2)] size [OF q] by (metis of_nat_eq_iff)
  then have "p = q" "xs = stream_of rem'" using \<open>p @ xs = q @ stream_of rem'\<close> by simp_all
  then show ?thesis using that Cons by blast
qed

lemma outcome_receiver:
  "outcome B N M full sb \<Longrightarrow> sb_residual_fully_formed sb = full \<Longrightarrow> receiver_inv B N M sb"
  by (cases full) (fastforce simp: outcome_def receiver_inv_def)+

lemma partial_not_whole:
  assumes "outcome B N M False sb" "held sb = stream_of rem" "list_all (packet_ok M) rem"
  shows "held sb = []"
proof -
  obtain c r where lay: "layout B N M sb c r" and part: "partial_packet M sb c r"
    using assms(1) by (auto simp: outcome_def)
  have cont: "content (sb_buf sb) = c" "content (sb_residual sb) = []"
    using layout_content [OF lay] part by (auto simp: partial_packet_def)
  show ?thesis
  proof (cases rem)
    case Nil
    then show ?thesis using assms(2) by simp
  next
    case (Cons q rem')
    have q: "packet_ok M q" using assms(3) Cons by simp
    have long: "length (held sb) \<ge> 2 + length q" using assms(2) Cons by (simp add: frame_bytes_def)
    have "\<not> (1 \<le> sb_len sb)"
    proof
      assume l: "1 \<le> sb_len sb"
      then have h: "held sb = be16 (word_of_int (sb_len sb)) @ c" "int (length c) < sb_len sb"
        using cont part by (auto simp: held_def partial_packet_def)
      then have "be16 (word_of_int (sb_len sb)) = be16 (word_of_int (int (length q)))" "c = q @ stream_of rem'"
        using assms(2) Cons by (simp_all add: frame_bytes_def append_eq_append_conv)
      then have w: "(word_of_int (sb_len sb) :: u16) = word_of_int (int (length q))" by (metis un_be16_be16)
      have "sb_len sb < 65536" using lay part by (auto simp: layout_def frame_of_reference_def partial_packet_def)
      then have "sb_len sb = int (length q)"
        using w q l by (simp add: word_uint_eq_iff uint_word_of_int packet_ok_def unsigned_of_nat take_bit_nat_eq_self)
      then show False using h(2) \<open>c = q @ stream_of rem'\<close> by simp
    qed
    then have "held sb = c" "length c < 2" using cont part by (auto simp: held_def partial_packet_def)
    then show ?thesis using long by simp
  qed
qed

lemma stream_step_inv:
  assumes "stream_inv B N M ps (sb, rest, out)"
  shows "\<exists>t. stream_step (sb, rest, out) k = Some t \<and> stream_inv B N M ps t \<and> undone t \<le> undone (sb, rest, out)
     \<and> (0 < k \<longrightarrow> held sb @ rest \<noteq> [] \<longrightarrow> undone t < undone (sb, rest, out))"
proof -
  obtain rem where inv: "receiver_inv B N M sb" "ps = out @ rem" "held sb @ rest = stream_of rem" "list_all (packet_ok M) rem"
    using assms by (auto simp: stream_inv_def)
  obtain need sb1 where pre: "stream_buf_read_setup_dowork sb = Some (need, sb1)" "held sb1 = held sb"
      "outcome B N M (\<not> need) sb1" "sb_residual_fully_formed sb1 = (\<not> need)"
    using setup_outcome [OF inv(1,3,4)] by blast
  have r1: "receiver_inv B N M sb1" using pre(3,4) by (rule outcome_receiver)
  define bs where "bs = (if need then take (min k (nat (blen (sb_next sb1)))) rest else [])"
  show ?thesis
  proof (cases "k = 0 \<or> need \<and> bs = []")
    case True
    then have "stream_step (sb, rest, out) k = Some (sb1, rest, out)"
      using pre(1) by (simp add: bs_def)
    moreover have "stream_inv B N M ps (sb1, rest, out)"
      using inv r1 pre(2) by (auto simp: stream_inv_def)
    moreover have "held sb @ rest = []" if "0 < k"
    proof -
      have need: "need" "bs = []" using True that by auto
      obtain c where "layout B N M sb1 c []" "partial_packet M sb1 c []" "ready M sb1 c"
        using pre(3) need by (auto simp: outcome_def partial_packet_def)
      then have "0 < blen (sb_next sb1)"
        by (auto simp: ready_def partial_packet_def layout_def frame_of_reference_def)
      then have "0 < min k (nat (blen (sb_next sb1)))" using that by simp
      then have "rest = []" using need by (simp only: bs_def if_True take_eq_Nil) auto
      then show ?thesis using partial_not_whole [of B N M sb1 rem] pre(2,3) need inv by simp
    qed
    ultimately show ?thesis using pre(2) by (auto simp: undone_def)
  next
    case go: False
    have step: "stream_step (sb, rest, out) k = (case link_socket_read_tcp sb1 (Received bs) of
        None \<Rightarrow> None
      | Some ((_, _, p), sb2) \<Rightarrow>
          Some (sb2, drop (length bs) rest, out @ (case p of None \<Rightarrow> [] | Some b \<Rightarrow> [content b])))"
      unfolding stream_step.simps pre(1) option.case prod.case Let_def bs_def [symmetric]
      by (simp only: go if_False)
    show ?thesis
    proof (cases need)
      case False
      then have full: "outcome B N M True sb1" using pre(3) by simp
      obtain b where b: "stream_buf_get_final sb1 = Some b" "length (content b) < 65536"
          "held sb1 = frame_bytes (content b) @ held (stream_buf_reset sb1)"
          "receiver_inv B N M (stream_buf_reset sb1)"
        using deliver_full [OF full] by blast
      define sb2 where "sb2 = stream_buf_reset sb1"
      note len = b(2)
      obtain rem' where rem: "rem = content b # rem'" "held sb2 @ rest = stream_of rem'"
        using frame_decode [of "content b" "held sb2 @ rest" rem M] inv(3,4) b(3) pre(2) len
        by (auto simp: sb2_def)
      have "link_socket_read_tcp sb1 (Received bs) = Some ((blen b, False, Some b), sb2)"
        using pre(4) False b(1) by (simp add: link_socket_read_tcp_def Let_def sb2_def)
      then have "stream_step (sb, rest, out) k = Some (sb2, rest, out @ [content b])"
        unfolding step using False by (simp add: bs_def)
      moreover have "stream_inv B N M ps (sb2, rest, out @ [content b])"
        using rem inv(2,4) b(4) by (auto simp: stream_inv_def sb2_def)
      moreover have "undone (sb2, rest, out @ [content b]) < undone (sb, rest, out)"
        using b(3) pre(2) by (simp add: undone_def frame_bytes_def flip: sb2_def)
      ultimately show ?thesis by (intro exI [of _ "(sb2, rest, out @ [content b])"]) simp
    next
      case True
      then have bs: "bs \<noteq> []" "bs = take (min k (nat (blen (sb_next sb1)))) rest" using go by (simp_all add: bs_def)
      obtain c where c: "layout B N M sb1 c []" "partial_packet M sb1 c []" "ready M sb1 c"
        using pre(3) True by (auto simp: outcome_def partial_packet_def)
      have bl: "length bs \<le> length rest" using bs(2) by simp
      have n: "0 < length bs" "int (length bs) \<le> blen (sb_next sb1)"
        using bs by (auto simp: min_def split: if_splits)
      have M: "sb_len sb1 \<le> M" using c(1,2) by (auto simp: partial_packet_def layout_def frame_of_reference_def)
      obtain sb2 where sb2: "stream_buf_added (recv_into sb1 bs) (int (length bs)) = stream_buf_added sb2 0"
          "layout B N M sb2 (c @ bs) []" "held sb2 = held sb1 @ bs" "sb_len sb2 = sb_len sb1"
          "sb_residual_fully_formed sb2 = sb_residual_fully_formed sb1"
        using recv_added [OF c(1,3) n M] by blast
      have rest: "held sb2 @ drop (length bs) rest = stream_of rem"
      proof -
        have "bs @ drop (length bs) rest = rest"
          unfolding append_eq_conv_conj using bs(2) by (simp add: min_def)
        then show ?thesis using inv(3) pre(2) sb2(3) by simp
      qed
      have room: "sb_len sb2 = -1 \<or> 1 \<le> sb_len sb2 \<and> sb_len sb2 \<le> M" "int (length (c @ bs)) \<le> M"
        using c(2,3) n M sb2(4) by (auto simp: partial_packet_def ready_def)
      obtain full sb3 where sb3: "stream_buf_added sb2 0 = Some (full, sb3)" "outcome B N M full sb3"
          "held sb3 = held sb2" "sb_residual_fully_formed sb3 = sb_residual_fully_formed sb2"
        using added_outcome [OF sb2(2) room rest inv(4)] by blast
      have flag: "\<not> sb_residual_fully_formed sb3" using sb3(4) sb2(5) pre(4) True by simp
      have nxt: "stream_buf_get_next sb1 = Some (sb_next sb1)" using c(3) by (simp add: stream_buf_get_next_def ready_def buf_defined_def)
      show ?thesis
      proof (cases full)
        case full: False
        have "link_socket_read_tcp sb1 (Received bs) = Some ((0, False, None), sb3)"
          using pre(4) True nxt sb2(1) sb3(1) full by (simp add: link_socket_read_tcp_def Let_def)
        then have "stream_step (sb, rest, out) k = Some (sb3, drop (length bs) rest, out)"
          unfolding step by simp
        moreover have "receiver_inv B N M sb3" using sb3(2) flag full outcome_receiver by simp
        then have "stream_inv B N M ps (sb3, drop (length bs) rest, out)"
          using rest inv(2,4) sb3(3) by (auto simp: stream_inv_def)
        moreover have "undone (sb3, drop (length bs) rest, out) < undone (sb, rest, out)"
        proof -
          have "length (held sb3) = length (held sb) + length bs" using sb3(3) sb2(3) pre(2) by simp
          then show ?thesis unfolding undone_def prod.case length_drop using n(1) bl by arith
        qed
        ultimately show ?thesis by (intro exI [of _ "(sb3, drop (length bs) rest, out)"]) simp
      next
        case full: True
        obtain b where b: "stream_buf_get_final sb3 = Some b" "length (content b) < 65536"
            "held sb3 = frame_bytes (content b) @ held (stream_buf_reset sb3)"
            "receiver_inv B N M (stream_buf_reset sb3)"
          using deliver_full [of B N M sb3] sb3(2) full by auto
        define sb4 where "sb4 = stream_buf_reset sb3"
        note len = b(2)
        obtain rem' where rem: "rem = content b # rem'" "held sb4 @ drop (length bs) rest = stream_of rem'"
          using frame_decode [of "content b" "held sb4 @ drop (length bs) rest" rem M] rest inv(4) b(3) sb3(3) len
          by (auto simp: sb4_def)
        have "link_socket_read_tcp sb1 (Received bs) = Some ((blen b, False, Some b), sb4)"
          using pre(4) True nxt sb2(1) sb3(1) full b(1) by (simp add: link_socket_read_tcp_def Let_def sb4_def)
        then have "stream_step (sb, rest, out) k = Some (sb4, drop (length bs) rest, out @ [content b])"
          unfolding step by simp
        moreover have "stream_inv B N M ps (sb4, drop (length bs) rest, out @ [content b])"
          using rem inv(2,4) b(4) by (auto simp: stream_inv_def sb4_def)
        moreover have "undone (sb4, drop (length bs) rest, out @ [content b]) < undone (sb, rest, out)"
        proof -
          have "length (held sb4) \<le> length (held sb) + length bs"
            using b(3) sb3(3) sb2(3) pre(2) by (metis length_append le_add2 sb4_def)
          then show ?thesis unfolding undone_def prod.case length_drop using n(1) bl by arith
        qed
        ultimately show ?thesis by (intro exI [of _ "(sb4, drop (length bs) rest, out @ [content b])"]) simp
      qed
    qed
  qed
qed

subsection \<open>Property\<close>

definition demo_stream :: stream_buf where
  "demo_stream = the (stream_buf_init (mkbuf [0, 0, 0, 0] (replicate 8 0) [0, 0, 0, 0]))"

lemma initial_inv:
  assumes "live b" "stream_buf_init b = Some sb" "2 \<le> blen b" "blen b < 65536"
    and "boff b + blen b + 2 \<le> bcap b" "list_all (packet_ok (blen b)) ps"
  shows "stream_inv (boff b) (bcap b) (blen b) ps (sb, stream_of ps, [])"
proof -
  obtain pre c post where b: "b = mkbuf pre c post" "small pre c post" using assms(1) by (rule live_split)
  have rsz: "buf_size_valid (int (length c))" using b(2) by (simp add: buf_size_valid_def small_def)
  have sb: "sb_buf_init sb = b\<lparr>blen := 0\<rparr>" "sb_residual sb = mkbuf [] [] (replicate (length c) 0)"
      "sb_maxlen sb = int (length c)" "\<not> sb_residual_fully_formed sb" "sb_buf sb = mkbuf pre [] (c @ post)"
      "sb_len sb = -1" "\<not> sb_error sb"
    using assms(2) rsz b(1)
    by (auto simp: stream_buf_init_def stream_buf_reset_def alloc_buf_def mkbuf_def)
  have "layout (boff b) (bcap b) (blen b) sb [] []"
  proof (rule layoutI)
    show "frame_of_reference (boff b) (bcap b) (blen b) sb"
      using sb assms(3-5) b by (simp add: frame_of_reference_def small_def)
    show "sb_buf sb = mkbuf pre [] (c @ post)" by (rule sb)
    show "sb_residual sb = mkbuf [] [] (replicate (length c) 0)" by (rule sb)
  qed (use sb b(1) in simp_all)
  then have "receiver_inv (boff b) (bcap b) (blen b) sb"
    using sb(4,6) by (auto simp: receiver_inv_def idle_def)
  moreover have "held sb = []" using sb by (simp add: held_def)
  ultimately show ?thesis using assms(6) by (auto simp: stream_inv_def)
qed

interpretation stream: machine stream_step "stream_inv B N M ps" "\<lambda>_. True" for B N M ps
proof unfold_locales
  fix s k assume "stream_inv B N M ps s"
  then show "\<exists>t. stream_step s k = Some t \<and> stream_inv B N M ps t"
    using stream_step_inv [of B N M ps "fst s" "fst (snd s)" "snd (snd s)" k] by auto
qed

lemma run_undone:
  assumes "stream_inv B N M ps s" "list_all (\<lambda>k. 0 < k) ks" "run stream_step s ks = Some t"
  shows "undone t \<le> undone s \<and> (undone t = 0 \<or> undone t + length ks \<le> undone s)"
  using assms
proof (induction ks arbitrary: s)
  case Nil
  then show ?case by simp
next
  case (Cons k ks)
  obtain sb rest out where s: "s = (sb, rest, out)" by (cases s)
  obtain u where u: "stream_step s k = Some u" "stream_inv B N M ps u" "undone u \<le> undone s"
      "held sb @ rest \<noteq> [] \<longrightarrow> undone u < undone s"
    using stream_step_inv [of B N M ps sb rest out k] Cons.prems(1,2) unfolding s by auto
  have "undone t \<le> undone u \<and> (undone t = 0 \<or> undone t + length ks \<le> undone u)"
    using Cons u by simp
  moreover have "held sb @ rest = [] \<Longrightarrow> undone s = 0" by (simp add: s undone_def)
  ultimately show ?case using u(3,4) by auto
qed

text \<open>
  C15: Packets written to a TCP stream come out as they went in, however the stream is cut: after
  any sequence of turns of the receiver, in which the kernel hands over arbitrary pieces, the
  packets delivered are a prefix of those sent, no assertion fails, and once the turns outnumber
  twice the bytes of the stream all packets have been delivered.
\<close>

theorem stream_packets_delivered:
  assumes "live b" "stream_buf_init b = Some sb" "2 \<le> blen b" "blen b < 65536"
    and "boff b + blen b + 2 \<le> bcap b" "list_all (packet_ok (blen b)) ps" "list_all (\<lambda>k. 0 < k) ks"
  shows "\<exists>sb' rest out. run stream_step (sb, stream_of ps, []) ks = Some (sb', rest, out)
     \<and> (\<exists>rem. ps = out @ rem) \<and> (2 * length (stream_of ps) \<le> length ks \<longrightarrow> out = ps)"
proof -
  define s0 where "s0 = (sb, stream_of ps, [] :: byte list list)"
  have inv: "stream_inv (boff b) (bcap b) (blen b) ps s0"
    unfolding s0_def using assms(1-6) by (rule initial_inv)
  obtain t where t: "run stream_step s0 ks = Some t" "stream_inv (boff b) (bcap b) (blen b) ps t"
    using stream.run_total [OF inv, of ks] by (auto simp: list_all_iff)
  obtain sb' rest out where te: "t = (sb', rest, out)" by (cases t)
  obtain rem where rem: "ps = out @ rem" "held sb' @ rest = stream_of rem"
    using t(2) by (auto simp: stream_inv_def te)
  have "out = ps" if "2 * length (stream_of ps) \<le> length ks"
  proof -
    have "held sb = []"
      using assms(2) by (auto simp: stream_buf_init_def stream_buf_reset_def held_def alloc_buf_def content_def
          mem_read_def split: option.splits if_splits)
    then have "undone s0 = 2 * length (stream_of ps)" by (simp add: s0_def undone_def)
    then have "undone t = 0" using run_undone [OF inv assms(7) t(1)] that by auto
    then have "stream_of rem = []" using rem(2) by (simp add: te undone_def)
    then show ?thesis using rem(1) by simp
  qed
  then show ?thesis using t(1) rem(1) unfolding s0_def te by blast
qed

theorem stream_packets_delivered_witness:
  "\<exists>sb' rest. run stream_step (demo_stream, stream_of [[1, 2], [3]], []) (replicate 16 1)
     = Some (sb', rest, [[1, 2], [3]])"
proof -
  define b where "b = mkbuf [0, 0, 0, 0 :: byte] (replicate 8 0) [0, 0, 0, 0]"
  have b: "live b" "2 \<le> blen b" "blen b < 65536" "boff b + blen b + 2 \<le> bcap b"
    by (simp_all add: b_def small_def BUF_SIZE_MAX_def)
  have "stream_buf_init b \<noteq> None"
    by (simp add: b_def stream_buf_init_def alloc_buf_def buf_size_valid_def BUF_SIZE_MAX_def)
  then have i: "stream_buf_init b = Some demo_stream" by (auto simp: demo_stream_def b_def)
  have ok: "list_all (packet_ok (blen b)) [[1, 2], [3]]" by (simp add: packet_ok_def b_def)
  show ?thesis
    using stream_packets_delivered [OF b(1) i b(2,3,4) ok, of "replicate 16 1"]
    by (simp add: frame_bytes_def list_all_iff)
qed

end
