(* ===== verification/Hash_Table.thy ===== *)
theory Hash_Table
  imports Int_Util
begin

text \<open>
  The hash table of \<^verbatim>\<open>list.h\<close> and \<^verbatim>\<open>list.c\<close>: chained buckets whose number is a power of two, a
  lookup that moves the element it finds to the head of its chain, and an iterator that marks
  elements for deletion (their key becomes \<open>NULL\<close>) and removes the marked ones of a bucket when
  it leaves it.

  Elements are records, a chain is a list, a \<open>NULL\<close> key is \<open>None\<close>. The iterator's pointers into the
  chain of the locked bucket are positions in it, which stay valid because nothing leaves the chain
  before the bucket is unlocked. The hash and compare functions are fields of the table, as in C;
  comparing with a \<open>NULL\<close> key is a fault, so a search is an option.

  \<open>hash_keys\<close> is what the table relies on of its two functions, and \<open>hash_ok\<close> the invariant of
  the table. The lemmas: every operation keeps the invariant and acts on the table as on a map from
  keys to values (\<open>hash_map\<close>), a run over the elements visits each of them once, and a whole run of
  operations refines the map (\<open>hash_run_refines\<close>).
\<close>

subsection \<open>State\<close>

record ('k, 'v) hash_element =
  he_value :: 'v
  he_key :: "'k option"
  he_hash_value :: u32

type_synonym ('k, 'v) hash_bucket = "('k, 'v) hash_element list"

record ('k, 'v) hash =
  h_n_buckets :: int
  h_n_elements :: int
  h_mask :: int
  h_iv :: u32
  h_hash_function :: "'k \<Rightarrow> u32 \<Rightarrow> u32"
  h_compare_function :: "'k \<Rightarrow> 'k \<Rightarrow> bool"
  h_buckets :: "('k, 'v) hash_bucket list"

record hash_iterator =
  hi_bucket_index :: int
  hi_bucket :: "nat option"
  hi_elem :: "nat option"
  hi_last :: "nat option"
  hi_bucket_marked :: bool
  hi_bucket_index_start :: int
  hi_bucket_index_end :: int

subsection \<open>Operations\<close>

text \<open>An array of a negative number of buckets cannot be allocated, which is fatal.\<close>

definition hash_init ::
    "int \<Rightarrow> u32 \<Rightarrow> ('k \<Rightarrow> u32 \<Rightarrow> u32) \<Rightarrow> ('k \<Rightarrow> 'k \<Rightarrow> bool) \<Rightarrow> ('k, 'v) hash option" where
  "hash_init n_buckets iv hash_function compare_function =
     (if n_buckets > 0
      then case adjust_power_of_2 (word_of_int n_buckets) of
             None \<Rightarrow> None
           | Some w \<Rightarrow>
               (let n = sint (ucast w :: u32)
                in if n < 0 then None
                   else Some \<lparr>h_n_buckets = n, h_n_elements = 0, h_mask = n - 1, h_iv = iv,
                          h_hash_function = hash_function, h_compare_function = compare_function,
                          h_buckets = replicate (nat n) []\<rparr>)
      else None)"

definition hash_value :: "('k, 'v) hash \<Rightarrow> 'k \<Rightarrow> u32" where
  "hash_value h key = h_hash_function h key (h_iv h)"

definition hash_bucket_index :: "('k, 'v) hash \<Rightarrow> u32 \<Rightarrow> nat" where
  "hash_bucket_index h hv = unat (hv AND word_of_int (h_mask h))"

text \<open>
  The walk along a chain: the elements before the one that matches, that element, and those
  after it.
\<close>

fun hash_seek ::
    "('k \<Rightarrow> 'k \<Rightarrow> bool) \<Rightarrow> 'k \<Rightarrow> u32 \<Rightarrow> ('k, 'v) hash_bucket \<Rightarrow> ('k, 'v) hash_bucket
       \<Rightarrow> (('k, 'v) hash_bucket \<times> ('k, 'v) hash_element \<times> ('k, 'v) hash_bucket) option option" where
  "hash_seek cmp key hv prev [] = Some None"
| "hash_seek cmp key hv prev (he # r) =
     (if hv = he_hash_value he
      then case he_key he of
             None \<Rightarrow> None
           | Some k \<Rightarrow> if cmp key k then Some (Some (prev, he, r)) else hash_seek cmp key hv (prev @ [he]) r
      else hash_seek cmp key hv (prev @ [he]) r)"

definition set_bucket :: "('k, 'v) hash \<Rightarrow> nat \<Rightarrow> ('k, 'v) hash_bucket \<Rightarrow> ('k, 'v) hash" where
  "set_bucket h i l = h\<lparr>h_buckets := (h_buckets h)[i := l]\<rparr>"

definition hash_lookup_fast ::
    "('k, 'v) hash \<Rightarrow> nat \<Rightarrow> 'k \<Rightarrow> u32 \<Rightarrow> (('k, 'v) hash_element option \<times> ('k, 'v) hash) option" where
  "hash_lookup_fast h i key hv =
     (case hash_seek (h_compare_function h) key hv [] (h_buckets h ! i) of
        None \<Rightarrow> None
      | Some None \<Rightarrow> Some (None, h)
      | Some (Some (prev, he, r)) \<Rightarrow> Some (Some he, set_bucket h i (he # prev @ r)))"

definition hash_remove_fast :: "('k, 'v) hash \<Rightarrow> nat \<Rightarrow> 'k \<Rightarrow> u32 \<Rightarrow> (bool \<times> ('k, 'v) hash) option" where
  "hash_remove_fast h i key hv =
     (case hash_seek (h_compare_function h) key hv [] (h_buckets h ! i) of
        None \<Rightarrow> None
      | Some None \<Rightarrow> Some (False, h)
      | Some (Some (prev, he, r)) \<Rightarrow>
          Some (True, (set_bucket h i (prev @ r))\<lparr>h_n_elements := h_n_elements h - 1\<rparr>))"

definition hash_lookup :: "('k, 'v) hash \<Rightarrow> 'k \<Rightarrow> ('v option \<times> ('k, 'v) hash) option" where
  "hash_lookup h key =
     (let hv = hash_value h key
      in map_option (\<lambda>(he, h1). (map_option he_value he, h1))
           (hash_lookup_fast h (hash_bucket_index h hv) key hv))"

definition hash_add_fast :: "('k, 'v) hash \<Rightarrow> nat \<Rightarrow> 'k \<Rightarrow> u32 \<Rightarrow> 'v \<Rightarrow> ('k, 'v) hash" where
  "hash_add_fast h i key hv v =
     (set_bucket h i (\<lparr>he_value = v, he_key = Some key, he_hash_value = hv\<rparr> # h_buckets h ! i))
       \<lparr>h_n_elements := h_n_elements h + 1\<rparr>"

definition hash_add :: "('k, 'v) hash \<Rightarrow> 'k \<Rightarrow> 'v \<Rightarrow> bool \<Rightarrow> (bool \<times> ('k, 'v) hash) option" where
  "hash_add h key v replace =
     (let hv = hash_value h key; i = hash_bucket_index h hv
      in case hash_lookup_fast h i key hv of
           None \<Rightarrow> None
         | Some (Some he, h1) \<Rightarrow>
             if replace
             then Some (True, set_bucket h1 i (he\<lparr>he_value := v\<rparr> # tl (h_buckets h1 ! i)))
             else Some (False, h1)
         | Some (None, h1) \<Rightarrow> Some (True, hash_add_fast h1 i key hv v))"

definition hash_remove :: "('k, 'v) hash \<Rightarrow> 'k \<Rightarrow> (bool \<times> ('k, 'v) hash) option" where
  "hash_remove h key =
     (let hv = hash_value h key in hash_remove_fast h (hash_bucket_index h hv) key hv)"

subsection \<open>The iterator\<close>

definition hash_remove_marked :: "('k, 'v) hash \<Rightarrow> nat \<Rightarrow> ('k, 'v) hash" where
  "hash_remove_marked h i =
     (let l = h_buckets h ! i; l' = filter (\<lambda>he. he_key he \<noteq> None) l
      in (set_bucket h i l')\<lparr>h_n_elements := h_n_elements h - int (length l - length l')\<rparr>)"

definition hash_iterator_init_range :: "('k, 'v) hash \<Rightarrow> int \<Rightarrow> int \<Rightarrow> hash_iterator option" where
  "hash_iterator_init_range h start_bucket end_bucket0 =
     (let end_bucket = (if end_bucket0 > h_n_buckets h then h_n_buckets h else end_bucket0)
      in if start_bucket \<ge> 0 \<and> start_bucket \<le> end_bucket
         then Some \<lparr>hi_bucket_index = start_bucket - 1, hi_bucket = None, hi_elem = None, hi_last = None,
                hi_bucket_marked = False, hi_bucket_index_start = start_bucket,
                hi_bucket_index_end = end_bucket\<rparr>
         else None)"

definition hash_iterator_init :: "('k, 'v) hash \<Rightarrow> hash_iterator option" where
  "hash_iterator_init h = hash_iterator_init_range h 0 (h_n_buckets h)"

definition hash_iterator_lock :: "hash_iterator \<Rightarrow> nat \<Rightarrow> hash_iterator" where
  "hash_iterator_lock hi i = hi\<lparr>hi_bucket := Some i, hi_last := None, hi_bucket_marked := False\<rparr>"

definition hash_iterator_unlock :: "hash_iterator \<Rightarrow> ('k, 'v) hash \<Rightarrow> hash_iterator \<times> ('k, 'v) hash" where
  "hash_iterator_unlock hi h =
     (case hi_bucket hi of
        None \<Rightarrow> (hi, h)
      | Some i \<Rightarrow> (hi\<lparr>hi_bucket_marked := False, hi_bucket := None, hi_last := None\<rparr>,
          if hi_bucket_marked hi then hash_remove_marked h i else h))"

text \<open>The chain of the locked bucket.\<close>

definition locked_chain :: "hash_iterator \<Rightarrow> ('k, 'v) hash \<Rightarrow> ('k, 'v) hash_bucket" where
  "locked_chain hi h = (case hi_bucket hi of None \<Rightarrow> [] | Some i \<Rightarrow> h_buckets h ! i)"

definition hash_iterator_advance :: "hash_iterator \<Rightarrow> ('k, 'v) hash \<Rightarrow> hash_iterator" where
  "hash_iterator_advance hi h =
     hi\<lparr>hi_last := hi_elem hi,
        hi_elem := (case hi_elem hi of
                      None \<Rightarrow> None
                    | Some p \<Rightarrow> if Suc p < length (locked_chain hi h) then Some (Suc p) else None)\<rparr>"

definition hash_iterator_free :: "hash_iterator \<Rightarrow> ('k, 'v) hash \<Rightarrow> ('k, 'v) hash" where
  "hash_iterator_free hi h = snd (hash_iterator_unlock hi h)"

function next_bucket ::
    "hash_iterator \<Rightarrow> ('k, 'v) hash \<Rightarrow> ('k, 'v) hash_element option \<times> hash_iterator \<times> ('k, 'v) hash" where
  "next_bucket hi h =
     (let i = hi_bucket_index hi + 1; hi1 = hi\<lparr>hi_bucket_index := i\<rparr>
      in if i < hi_bucket_index_end hi
         then (let (hi2, h2) = hash_iterator_unlock hi1 h
               in case h_buckets h2 ! nat i of
                    [] \<Rightarrow> next_bucket hi2 h2
                  | he # _ \<Rightarrow>
                      (Some he, hash_iterator_advance ((hash_iterator_lock hi2 (nat i))\<lparr>hi_elem := Some 0\<rparr>) h2, h2))
         else (None, hi1, h))"
  by pat_completeness auto

termination next_bucket
  by (relation "measure (\<lambda>(hi, h). nat (hi_bucket_index_end hi - hi_bucket_index hi))")
    (auto simp: hash_iterator_unlock_def split: option.splits)

declare next_bucket.simps [simp del]

definition hash_iterator_next ::
    "hash_iterator \<Rightarrow> ('k, 'v) hash \<Rightarrow> ('k, 'v) hash_element option \<times> hash_iterator \<times> ('k, 'v) hash" where
  "hash_iterator_next hi h =
     (case hi_elem hi of
        Some p \<Rightarrow> (Some (locked_chain hi h ! p), hash_iterator_advance hi h, h)
      | None \<Rightarrow> next_bucket hi h)"

definition hash_iterator_delete_element ::
    "hash_iterator \<Rightarrow> ('k, 'v) hash \<Rightarrow> (hash_iterator \<times> ('k, 'v) hash) option" where
  "hash_iterator_delete_element hi h =
     (case (hi_last hi, hi_bucket hi) of
        (Some p, Some i) \<Rightarrow>
          Some (hi\<lparr>hi_bucket_marked := True\<rparr>,
            set_bucket h i ((h_buckets h ! i)[p := (h_buckets h ! i ! p)\<lparr>he_key := None\<rparr>]))
      | _ \<Rightarrow> None)"

text \<open>How much an iterator still has before it.\<close>

definition buckets_left :: "hash_iterator \<Rightarrow> nat" where
  "buckets_left hi = nat (hi_bucket_index_end hi - hi_bucket_index hi)"

definition chain_left :: "hash_iterator \<Rightarrow> ('k, 'v) hash \<Rightarrow> nat" where
  "chain_left hi h =
     (case hi_elem hi of None \<Rightarrow> 0 | Some p \<Rightarrow> Suc (length (locked_chain hi h) - p))"

lemma next_bucket_decreases:
  "next_bucket hi h = (Some he, hi1, h1) \<Longrightarrow> buckets_left hi1 < buckets_left hi"
proof (induction hi h rule: next_bucket.induct)
  case (1 hi h)
  obtain hi2 h2 where u: "hash_iterator_unlock (hi\<lparr>hi_bucket_index := hi_bucket_index hi + 1\<rparr>) h = (hi2, h2)"
    by force
  have f: "hi_bucket_index hi2 = hi_bucket_index hi + 1" "hi_bucket_index_end hi2 = hi_bucket_index_end hi"
    using u by (auto simp: hash_iterator_unlock_def split: option.splits)
  show ?case
  proof (cases "hi_bucket_index hi + 1 < hi_bucket_index_end hi")
    case False
    then show ?thesis using 1(2) by (simp add: next_bucket.simps Let_def)
  next
    case True
    show ?thesis
    proof (cases "h_buckets h2 ! nat (hi_bucket_index hi + 1)")
      case Nil
      have "next_bucket hi2 h2 = (Some he, hi1, h1)"
        using 1(2) True u Nil by (subst (asm) next_bucket.simps) (simp add: Let_def)
      then have "buckets_left hi1 < buckets_left hi2"
        using 1(1) [OF refl refl True u [symmetric] refl Nil] by simp
      then show ?thesis using f True by (simp add: buckets_left_def)
    next
      case (Cons x xs)
      have "hi1 = hash_iterator_advance ((hash_iterator_lock hi2 (nat (hi_bucket_index hi + 1)))\<lparr>hi_elem := Some 0\<rparr>) h2"
        using 1(2) True u Cons by (subst (asm) next_bucket.simps) (clarsimp simp: Let_def)
      then show ?thesis
        using f True by (simp add: buckets_left_def hash_iterator_advance_def hash_iterator_lock_def)
    qed
  qed
qed

lemma advance_decreases:
  "hi_elem hi = Some p \<Longrightarrow> chain_left (hash_iterator_advance hi h) h < chain_left hi h"
  "buckets_left (hash_iterator_advance hi h) = buckets_left hi"
  by (auto simp: hash_iterator_advance_def buckets_left_def chain_left_def locked_chain_def
      split: option.splits if_splits)

lemma next_decreases:
  assumes "hash_iterator_next hi h = (Some he, hi1, h1)"
  shows "buckets_left hi1 < buckets_left hi
         \<or> (buckets_left hi1 = buckets_left hi \<and> chain_left hi1 h1 < chain_left hi h)"
proof (cases "hi_elem hi")
  case None
  then show ?thesis using assms next_bucket_decreases [of hi h he hi1 h1] by (simp add: hash_iterator_next_def)
next
  case (Some p)
  then show ?thesis
    using assms advance_decreases(1) [of hi p h] advance_decreases(2) [of hi h]
    by (auto simp: hash_iterator_next_def)
qed

lemma length_set_bucket_nth [simp]:
  "length l = length (bs ! i) \<Longrightarrow> length (bs[i := l] ! j) = length (bs ! j)"
  by (cases "i < length bs"; cases "i = j") (auto simp: list_update_beyond)

lemma delete_keeps_left:
  assumes "hash_iterator_delete_element hi h = Some (hi1, h1)"
  shows "buckets_left hi1 = buckets_left hi" "chain_left hi1 h1 = chain_left hi h"
  using assms
  by (auto simp: hash_iterator_delete_element_def buckets_left_def chain_left_def locked_chain_def set_bucket_def
      split: option.splits)

function remove_by_value_loop ::
    "'v \<Rightarrow> hash_iterator \<Rightarrow> ('k, 'v) hash \<Rightarrow> (hash_iterator \<times> ('k, 'v) hash) option" where
  "remove_by_value_loop v hi h =
     (case hash_iterator_next hi h of
        (None, hi1, h1) \<Rightarrow> Some (hi1, h1)
      | (Some he, hi1, h1) \<Rightarrow>
          if he_value he = v
          then (case hash_iterator_delete_element hi1 h1 of
                  None \<Rightarrow> None
                | Some (hi2, h2) \<Rightarrow> remove_by_value_loop v hi2 h2)
          else remove_by_value_loop v hi1 h1)"
  by pat_completeness auto

termination remove_by_value_loop
proof (relation "(\<lambda>(v, hi, h). buckets_left hi) <*mlex*> measure (\<lambda>(v, hi, h). chain_left hi h)", goal_cases)
  case 1
  show ?case by (intro wf_mlex wf_measure)
next
  case (2 v hi h x y he hi1 h1 p hi2 h2)
  then show ?case
    using next_decreases [of hi h he hi1 h1] delete_keeps_left [of hi1 h1 hi2 h2]
    by (auto simp: mlex_prod_def)
next
  case (3 v hi h x y he hi1 h1)
  then show ?case
    using next_decreases [of hi h he hi1 h1] by (auto simp: mlex_prod_def)
qed

declare remove_by_value_loop.simps [simp del]

definition hash_remove_by_value :: "('k, 'v) hash \<Rightarrow> 'v \<Rightarrow> ('k, 'v) hash option" where
  "hash_remove_by_value h v =
     (case hash_iterator_init h of
        None \<Rightarrow> None
      | Some hi \<Rightarrow> map_option (\<lambda>(hi1, h1). hash_iterator_free hi1 h1) (remove_by_value_loop v hi h))"

subsection \<open>One chain\<close>

definition key_is :: "('k \<Rightarrow> 'k \<Rightarrow> bool) \<Rightarrow> 'k \<Rightarrow> ('k, 'v) hash_element \<Rightarrow> bool" where
  "key_is cmp key he = (case he_key he of None \<Rightarrow> False | Some k \<Rightarrow> cmp key k)"

text \<open>The value a chain holds for a key, and a chain in order: every element keyed and hashed, no
  two with equal keys.\<close>

definition chain_map :: "('k \<Rightarrow> 'k \<Rightarrow> bool) \<Rightarrow> ('k, 'v) hash_bucket \<Rightarrow> 'k \<Rightarrow> 'v option" where
  "chain_map cmp l key = map_option he_value (find (key_is cmp key) l)"

definition apart :: "('k \<Rightarrow> 'k \<Rightarrow> bool) \<Rightarrow> ('k, 'v) hash_element \<Rightarrow> ('k, 'v) hash_element \<Rightarrow> bool" where
  "apart cmp x y = (\<forall>k. he_key x = Some k \<longrightarrow> \<not> key_is cmp k y)"

definition chain_ok ::
    "('k \<Rightarrow> u32 \<Rightarrow> u32) \<Rightarrow> ('k \<Rightarrow> 'k \<Rightarrow> bool) \<Rightarrow> u32 \<Rightarrow> int \<Rightarrow> nat \<Rightarrow> ('k, 'v) hash_bucket \<Rightarrow> bool" where
  "chain_ok hf cmp iv msk i l =
     ((\<forall>he \<in> set l. \<exists>k. he_key he = Some k \<and> he_hash_value he = hf k iv
                      \<and> unat (hf k iv AND word_of_int msk) = i)
      \<and> sorted_wrt (apart cmp) l)"

locale hash_keys =
  fixes hf :: "'k \<Rightarrow> u32 \<Rightarrow> u32"
    and cmp :: "'k \<Rightarrow> 'k \<Rightarrow> bool"
  assumes cmp_refl: "cmp k k"
    and cmp_sym: "cmp k k' \<Longrightarrow> cmp k' k"
    and cmp_trans: "cmp k k' \<Longrightarrow> cmp k' k'' \<Longrightarrow> cmp k k''"
    and cmp_hash: "cmp k k' \<Longrightarrow> hf k iv = hf k' iv"
begin

lemma apart_sym: "apart cmp x y \<Longrightarrow> apart cmp y x"
  by (auto simp: apart_def key_is_def dest: cmp_sym split: option.splits)

lemma find_unique:
  "sorted_wrt (apart cmp) l \<Longrightarrow> he \<in> set l \<Longrightarrow> key_is cmp key he \<Longrightarrow> find (key_is cmp key) l = Some he"
proof (induction l)
  case (Cons x l)
  show ?case
  proof (cases "he = x")
    case True
    then show ?thesis using Cons.prems by simp
  next
    case False
    then have "he \<in> set l" "apart cmp x he" using Cons.prems by auto
    then have "\<not> key_is cmp key x"
      using Cons.prems(3) by (auto simp: apart_def key_is_def split: option.splits) (use cmp_sym cmp_trans in blast)
    then show ?thesis using Cons \<open>he \<in> set l\<close> by simp
  qed
qed simp

lemma find_in_chain:
  assumes "sorted_wrt (apart cmp) l"
  shows "find (key_is cmp key) l = Some he \<longleftrightarrow> he \<in> set l \<and> key_is cmp key he"
  using find_unique [OF assms] by (auto simp: find_Some_iff)

text \<open>The walk finds the element with the key, and only faults on an element without one.\<close>

lemma seek_spec:
  assumes "chain_ok hf cmp iv msk i l"
  shows "hash_seek cmp key (hf key iv) prev l =
           Some (case find (key_is cmp key) l of
                   None \<Rightarrow> None
                 | Some he \<Rightarrow> Some (prev @ takeWhile (\<lambda>x. \<not> key_is cmp key x) l, he,
                                   tl (dropWhile (\<lambda>x. \<not> key_is cmp key x) l)))"
  using assms
proof (induction l arbitrary: prev)
  case (Cons x l)
  then have ok: "chain_ok hf cmp iv msk i l" by (simp add: chain_ok_def)
  obtain k where k: "he_key x = Some k" "he_hash_value x = hf k iv"
    using Cons.prems by (auto simp: chain_ok_def)
  have "hf key iv = hf k iv" if "cmp key k" using cmp_hash that .
  then show ?case using Cons.IH [OF ok] k by (auto simp: key_is_def split: option.splits)
qed simp

lemma split_at_key:
  assumes "find (key_is cmp key) l = Some he"
  shows "l = takeWhile (\<lambda>x. \<not> key_is cmp key x) l @ he # tl (dropWhile (\<lambda>x. \<not> key_is cmp key x) l)"
    "key_is cmp key he"
  using assms by (induction l) (auto split: if_splits)

lemma seek_cases:
  assumes "chain_ok hf cmp iv msk i l"
  obtains (absent) "hash_seek cmp key (hf key iv) [] l = Some None" "find (key_is cmp key) l = None"
  | (found) prev he r where "hash_seek cmp key (hf key iv) [] l = Some (Some (prev, he, r))"
      "l = prev @ he # r" "key_is cmp key he" "find (key_is cmp key) l = Some he"
proof (cases "find (key_is cmp key) l")
  case None
  then show ?thesis using that(1) seek_spec [OF assms, of key "[]"] by simp
next
  case (Some he)
  show ?thesis
    by (rule that(2) [OF _ split_at_key [OF Some] Some]) (use seek_spec [OF assms, of key "[]"] Some in simp)
qed

lemma chain_map_eq:
  assumes "sorted_wrt (apart cmp) l"
  shows "chain_map cmp l key = Some v \<longleftrightarrow> (\<exists>he \<in> set l. key_is cmp key he \<and> he_value he = v)"
  unfolding chain_map_def using find_in_chain [OF assms] by auto

lemma chain_map_eqI:
  assumes "sorted_wrt (apart cmp) l" "sorted_wrt (apart cmp) l'" "set l = set l'"
  shows "chain_map cmp l key = chain_map cmp l' key"
proof (rule option.expand)
  show "(chain_map cmp l key = None) = (chain_map cmp l' key = None)"
    by (simp add: chain_map_def find_None_iff assms(3))
next
  assume "chain_map cmp l key \<noteq> None"
  then obtain v where "chain_map cmp l key = Some v" by blast
  then show "the (chain_map cmp l key) = the (chain_map cmp l' key)"
    using chain_map_eq [OF assms(1), of key v] chain_map_eq [OF assms(2), of key v] assms(3) by simp
qed

lemma move_to_front:
  assumes "chain_ok hf cmp iv msk i (prev @ he # r)"
  shows "chain_ok hf cmp iv msk i (he # prev @ r)"
    "chain_map cmp (he # prev @ r) = chain_map cmp (prev @ he # r)"
proof -
  show "chain_ok hf cmp iv msk i (he # prev @ r)"
    using assms by (auto simp: chain_ok_def sorted_wrt_append dest: apart_sym)
  then show "chain_map cmp (he # prev @ r) = chain_map cmp (prev @ he # r)"
    using assms by (intro ext chain_map_eqI) (auto simp: chain_ok_def)
qed

lemma drop_from_chain:
  assumes ok: "chain_ok hf cmp iv msk i (prev @ he # r)" and key: "key_is cmp key he"
  shows "chain_ok hf cmp iv msk i (prev @ r)"
    "chain_map cmp (prev @ r) k = (if cmp key k then None else chain_map cmp (prev @ he # r) k)"
proof -
  show *: "chain_ok hf cmp iv msk i (prev @ r)"
    using ok by (auto simp: chain_ok_def sorted_wrt_append)
  have front: "chain_map cmp (prev @ he # r) k = chain_map cmp (he # prev @ r) k"
    using move_to_front [OF ok] by simp
  have other: "apart cmp he x" if "x \<in> set (prev @ r)" for x
    using ok that by (auto simp: chain_ok_def sorted_wrt_append dest: apart_sym)
  obtain k0 where k0: "he_key he = Some k0" "cmp key k0" using key by (auto simp: key_is_def split: option.splits)
  show "chain_map cmp (prev @ r) k = (if cmp key k then None else chain_map cmp (prev @ he # r) k)"
  proof (cases "cmp key k")
    case True
    then have "cmp k k0" using k0 cmp_sym cmp_trans by blast
    then have "\<not> key_is cmp k x" if "x \<in> set (prev @ r)" for x
      using other [OF that] k0 by (auto simp: apart_def key_is_def split: option.splits dest: cmp_sym cmp_trans)
    then show ?thesis using True by (auto simp: chain_map_def find_None_iff)
  next
    case False
    then have "\<not> key_is cmp k he"
      using k0 by (auto simp: key_is_def dest: cmp_sym cmp_trans)
    then have "chain_map cmp (he # prev @ r) k = chain_map cmp (prev @ r) k" by (simp add: chain_map_def)
    then show ?thesis using False front by simp
  qed
qed

lemma set_in_chain:
  assumes ok: "chain_ok hf cmp iv msk i (he # l)" and key: "key_is cmp key he"
  shows "chain_ok hf cmp iv msk i (he\<lparr>he_value := v\<rparr> # l)"
    "chain_map cmp (he\<lparr>he_value := v\<rparr> # l) k = (if cmp key k then Some v else chain_map cmp (he # l) k)"
proof -
  have k: "key_is cmp k (he\<lparr>he_value := v\<rparr>) = key_is cmp k he" for k
    by (simp add: key_is_def)
  have a: "apart cmp (he\<lparr>he_value := v\<rparr>) x = apart cmp he x" for x
    by (simp add: apart_def)
  show "chain_ok hf cmp iv msk i (he\<lparr>he_value := v\<rparr> # l)" using ok by (simp add: chain_ok_def a)
  have "key_is cmp k he \<longleftrightarrow> cmp key k"
    using key by (auto simp: key_is_def split: option.splits dest: cmp_sym cmp_trans)
  then show "chain_map cmp (he\<lparr>he_value := v\<rparr> # l) k = (if cmp key k then Some v else chain_map cmp (he # l) k)"
    by (simp add: chain_map_def k)
qed

lemma add_to_chain:
  assumes ok: "chain_ok hf cmp iv msk i l" and absent: "find (key_is cmp key) l = None"
    and i: "unat (hf key iv AND word_of_int msk) = i"
  shows "chain_ok hf cmp iv msk i (\<lparr>he_value = v, he_key = Some key, he_hash_value = hf key iv\<rparr> # l)"
    "chain_map cmp (\<lparr>he_value = v, he_key = Some key, he_hash_value = hf key iv\<rparr> # l) k =
       (if cmp key k then Some v else chain_map cmp l k)"
proof -
  show "chain_ok hf cmp iv msk i (\<lparr>he_value = v, he_key = Some key, he_hash_value = hf key iv\<rparr> # l)"
    using ok absent i by (auto simp: chain_ok_def apart_def find_None_iff)
  show "chain_map cmp (\<lparr>he_value = v, he_key = Some key, he_hash_value = hf key iv\<rparr> # l) k =
       (if cmp key k then Some v else chain_map cmp l k)"
    using cmp_sym by (auto simp: chain_map_def key_is_def)
qed

lemma filter_chain:
  assumes ok: "chain_ok hf cmp iv msk i l"
  shows "chain_ok hf cmp iv msk i (filter (\<lambda>he. he_value he \<noteq> v) l)"
    "chain_map cmp (filter (\<lambda>he. he_value he \<noteq> v) l) k =
       (if chain_map cmp l k = Some v then None else chain_map cmp l k)"
proof -
  let ?l = "filter (\<lambda>he. he_value he \<noteq> v) l"
  show ok': "chain_ok hf cmp iv msk i ?l"
    using ok by (auto simp: chain_ok_def sorted_wrt_filter)
  have s: "sorted_wrt (apart cmp) l" "sorted_wrt (apart cmp) ?l"
    using ok ok' by (auto simp: chain_ok_def)
  show "chain_map cmp ?l k = (if chain_map cmp l k = Some v then None else chain_map cmp l k)"
  proof (cases "find (key_is cmp k) l")
    case None
    then have "find (key_is cmp k) ?l = None" by (auto simp: find_None_iff)
    then show ?thesis using None by (simp add: chain_map_def)
  next
    case (Some he)
    then have he: "he \<in> set l" "key_is cmp k he" using find_in_chain [OF s(1)] by auto
    show ?thesis
    proof (cases "he_value he = v")
      case True
      have "x = he" if "x \<in> set l" "key_is cmp k x" for x
        using find_unique [OF s(1) that] Some by simp
      then have "find (key_is cmp k) ?l = None" using True by (auto simp: find_None_iff)
      then show ?thesis using True Some by (simp add: chain_map_def)
    next
      case False
      then have "find (key_is cmp k) ?l = Some he" using he find_in_chain [OF s(2)] by simp
      then show ?thesis using False Some by (simp add: chain_map_def)
    qed
  qed
qed

end

subsection \<open>The table\<close>

definition hash_ok :: "('k \<Rightarrow> u32 \<Rightarrow> u32) \<Rightarrow> ('k \<Rightarrow> 'k \<Rightarrow> bool) \<Rightarrow> ('k, 'v) hash \<Rightarrow> bool" where
  "hash_ok hf cmp h =
     (h_hash_function h = hf \<and> h_compare_function h = cmp
      \<and> (\<exists>m<31. h_n_buckets h = 2 ^ m) \<and> h_mask h = h_n_buckets h - 1
      \<and> int (length (h_buckets h)) = h_n_buckets h
      \<and> h_n_elements h = int (sum_list (map length (h_buckets h)))
      \<and> (\<forall>i<length (h_buckets h). chain_ok hf cmp (h_iv h) (h_mask h) i (h_buckets h ! i)))"

text \<open>The map a table stands for.\<close>

definition hash_map :: "('k, 'v) hash \<Rightarrow> 'k \<Rightarrow> 'v option" where
  "hash_map h key = chain_map (h_compare_function h) (h_buckets h ! hash_bucket_index h (hash_value h key)) key"

definition map_put :: "('k \<Rightarrow> 'k \<Rightarrow> bool) \<Rightarrow> ('k \<Rightarrow> 'v option) \<Rightarrow> 'k \<Rightarrow> 'v option \<Rightarrow> 'k \<Rightarrow> 'v option" where
  "map_put cmp m key v = (\<lambda>k. if cmp key k then v else m k)"

lemma bucket_index_bound:
  assumes "hash_ok hf cmp h"
  shows "hash_bucket_index h hv < length (h_buckets h)"
proof -
  obtain m where m: "m < 31" "h_n_buckets h = 2 ^ m" using assms by (auto simp: hash_ok_def)
  have "h_mask h = 2 ^ m - 1" using assms m by (simp add: hash_ok_def)
  then have "word_of_int (h_mask h) = (mask m :: u32)" by (simp add: mask_eq_exp_minus_1)
  then have "hash_bucket_index h hv = unat (take_bit m hv)"
    by (simp add: hash_bucket_index_def take_bit_eq_mask)
  also have "\<dots> < 2 ^ m" by (simp add: unsigned_take_bit_eq)
  finally show ?thesis using assms m by (simp add: hash_ok_def)
qed

lemma sum_length_update:
  "i < length bs \<Longrightarrow> int (sum_list (map length (bs[i := l])))
     = int (sum_list (map length bs)) - int (length (bs ! i)) + int (length l)"
  by (induction bs arbitrary: i) (auto split: nat.splits)

lemma hash_init_ok:
  assumes "0 < n" "n \<le> 2 ^ 30"
  shows "\<exists>h. hash_init n iv hf cmp = Some h \<and> hash_ok hf cmp h \<and> hash_map h = Map.empty \<and> h_iv h = iv
             \<and> n \<le> h_n_buckets h \<and> (1 < n \<longrightarrow> h_n_buckets h < 2 * n)"
proof -
  let ?u = "word_of_int n :: 64 word"
  have u: "unat ?u = nat n" using assms by (simp add: unat_eq_nat_uint uint_word_of_int)
  then have "unat ?u \<le> 2 ^ 63" using assms by simp
  then obtain m where m: "adjust_power_of_2 ?u = Some (2 ^ m)" "m < 64" "nat n \<le> 2 ^ m" "0 < m \<longrightarrow> 2 ^ (m - 1) < nat n"
    using adjust_power_of_2_small [of ?u] u by auto
  have m30: "m \<le> 30"
  proof (cases m)
    case (Suc k)
    have "(2::nat) ^ k < nat n" "nat n \<le> 2 ^ 30" using m(4) assms Suc by simp_all
    then have "(2::nat) ^ k < 2 ^ 30" by (rule order_less_le_trans)
    then have "k < 30" by (rule power_less_imp_less_exp [rotated]) simp
    then show ?thesis using Suc by simp
  qed simp
  from m30 have "(2::int) ^ m \<le> 2 ^ 30" by (intro power_increasing) auto
  then have small: "(2::int) ^ m < 2 ^ 31" by simp
  have u64: "uint (2 ^ m :: 64 word) = 2 ^ m" using m(2) unat_pow2 [of m] by (simp add: uint_nat)
  have "uint (ucast (2 ^ m :: 64 word) :: u32) = 2 ^ m"
    using small m30 by (simp add: unsigned_ucast_eq u64 take_bit_int_eq_self)
  moreover have "- (2 ^ 31) \<le> (2::int) ^ m" by (rule order_trans [of _ 0]) auto
  ultimately have w: "sint (ucast (2 ^ m :: 64 word) :: u32) = 2 ^ m"
    using small by (simp add: sint_uint signed_take_bit_int_eq_self)
  have n: "n \<le> 2 ^ m" using m(3) assms by (simp add: nat_le_iff)
  have n2: "2 ^ m < 2 * n" if "1 < n"
    using m(4) that by (cases m) auto
  define h where "h = \<lparr>h_n_buckets = 2 ^ m, h_n_elements = 0, h_mask = 2 ^ m - 1, h_iv = iv,
    h_hash_function = hf, h_compare_function = cmp, h_buckets = replicate (nat (2 ^ m)) ([] :: ('a, 'b) hash_bucket)\<rparr>"
  have "hash_init n iv hf cmp = Some h"
    using assms m(1) w by (simp add: hash_init_def h_def Let_def)
  moreover have ok: "hash_ok hf cmp h"
    using m30 by (auto simp: h_def hash_ok_def chain_ok_def sum_list_replicate)
  moreover have "hash_map h k = None" for k
    using bucket_index_bound [OF ok, of "hash_value h k"] by (simp add: hash_map_def chain_map_def h_def)
  ultimately show ?thesis using n n2 by (auto simp: h_def)
qed

context hash_keys
begin

lemma set_bucket_ok:
  assumes ok: "hash_ok hf cmp h" and i: "i = hash_bucket_index h (hf key (h_iv h))"
    and l: "chain_ok hf cmp (h_iv h) (h_mask h) i l"
    and m: "\<And>k. chain_map cmp l k = (if cmp key k then v else chain_map cmp (h_buckets h ! i) k)"
    and n: "n = h_n_elements h - int (length (h_buckets h ! i)) + int (length l)"
  shows "hash_ok hf cmp ((set_bucket h i l)\<lparr>h_n_elements := n\<rparr>)"
    "hash_map ((set_bucket h i l)\<lparr>h_n_elements := n\<rparr>) = map_put cmp (hash_map h) key v"
proof -
  have b: "i < length (h_buckets h)" using bucket_index_bound [OF ok] i by simp
  show "hash_ok hf cmp ((set_bucket h i l)\<lparr>h_n_elements := n\<rparr>)"
    using ok l n b by (auto simp: hash_ok_def set_bucket_def sum_length_update nth_list_update)
  have same: "hash_bucket_index h (hf k (h_iv h)) = i" if "cmp key k" for k
    using cmp_hash [OF that] i by simp
  show "hash_map ((set_bucket h i l)\<lparr>h_n_elements := n\<rparr>) = map_put cmp (hash_map h) key v"
  proof
    fix k
    show "hash_map ((set_bucket h i l)\<lparr>h_n_elements := n\<rparr>) k = map_put cmp (hash_map h) key v k"
      using ok b m [of k] same [of k]
      by (cases "hash_bucket_index h (hf k (h_iv h)) = i")
        (auto simp: hash_map_def map_put_def hash_ok_def set_bucket_def hash_value_def hash_bucket_index_def)
  qed
qed

lemma chain_at:
  assumes "hash_ok hf cmp h"
  shows "chain_ok hf cmp (h_iv h) (h_mask h) (hash_bucket_index h hv) (h_buckets h ! hash_bucket_index h hv)"
  using assms bucket_index_bound [OF assms, of hv] unfolding hash_ok_def by blast

lemma update_same: "set_bucket h i l = (set_bucket h i l)\<lparr>h_n_elements := h_n_elements h\<rparr>"
  by (simp add: set_bucket_def)

text \<open>What a lookup does: the answer of the map, and the same map in another order.\<close>

lemma lookup_fast_cases:
  assumes ok: "hash_ok hf cmp h" and i: "i = hash_bucket_index h (hf key (h_iv h))"
  obtains (absent) "hash_lookup_fast h i key (hf key (h_iv h)) = Some (None, h)" "hash_map h key = None"
      "find (key_is cmp key) (h_buckets h ! i) = None"
  | (found) he l h1 where "hash_lookup_fast h i key (hf key (h_iv h)) = Some (Some he, h1)"
      "hash_map h key = Some (he_value he)" "h1 = set_bucket h i (he # l)" "hash_ok hf cmp h1"
      "hash_map h1 = hash_map h" "key_is cmp key he" "h_buckets h1 ! i = he # l"
proof -
  have c: "chain_ok hf cmp (h_iv h) (h_mask h) i (h_buckets h ! i)" using chain_at [OF ok] i by simp
  have f: "h_compare_function h = cmp" "h_hash_function h = hf" using ok by (auto simp: hash_ok_def)
  have b: "i < length (h_buckets h)" using bucket_index_bound [OF ok] i by simp
  from c show ?thesis
  proof (cases rule: seek_cases [of _ _ _ _ key])
    case absent
    then show ?thesis
      using that(1) f i by (simp add: hash_lookup_fast_def hash_map_def hash_value_def chain_map_def)
  next
    case (found prev he r)
    note mv = move_to_front [OF c [unfolded found(2)]]
    let ?l = "he # prev @ r"
    have m: "chain_map cmp ?l k = (if cmp key k then hash_map h key else chain_map cmp (h_buckets h ! i) k)" for k
    proof (cases "cmp key k")
      case True
      then have "key_is cmp k he"
        using found(3) by (auto simp: key_is_def split: option.splits dest: cmp_sym cmp_trans)
      then show ?thesis using True found(4) f i by (simp add: hash_map_def hash_value_def chain_map_def)
    qed (simp add: mv(2) found(2))
    note sb = set_bucket_ok [OF ok i mv(1) m, of "h_n_elements h", folded update_same]
    have "length (h_buckets h ! i) = length ?l" using found(2) by simp
    then have ok1: "hash_ok hf cmp (set_bucket h i ?l)"
      and map1: "hash_map (set_bucket h i ?l) = map_put cmp (hash_map h) key (hash_map h key)"
      using sb by simp_all
    have key: "hash_map h key = Some (he_value he)"
      using found(4) f i by (simp add: hash_map_def hash_value_def chain_map_def)
    have "map_put cmp (hash_map h) key (hash_map h key) = hash_map h"
    proof
      fix k
      show "map_put cmp (hash_map h) key (hash_map h key) k = hash_map h k"
      proof (cases "cmp key k")
        case True
        then have "key_is cmp k he"
          using found(3) by (auto simp: key_is_def split: option.splits dest: cmp_sym cmp_trans)
        moreover have "hash_bucket_index h (hf k (h_iv h)) = i" using cmp_hash [OF True] i by simp
        ultimately have "hash_map h k = Some (he_value he)"
          using c found(2) f find_unique [of "h_buckets h ! i" he k]
          by (simp add: hash_map_def hash_value_def chain_map_def chain_ok_def)
        then show ?thesis using True key by (simp add: map_put_def)
      qed (simp add: map_put_def)
    qed
    then show ?thesis
      using that(2) [of he "set_bucket h i ?l" "prev @ r"] found ok1 map1 key f b
      by (simp add: hash_lookup_fast_def set_bucket_def)
  qed
qed

lemma hash_lookup_spec:
  assumes ok: "hash_ok hf cmp h"
  shows "\<exists>h1. hash_lookup h key = Some (hash_map h key, h1) \<and> hash_ok hf cmp h1 \<and> hash_map h1 = hash_map h"
proof -
  have f: "hash_value h key = hf key (h_iv h)" using ok by (auto simp: hash_ok_def hash_value_def)
  show ?thesis
    by (rule lookup_fast_cases [OF ok refl, of key]) (auto simp: hash_lookup_def Let_def f ok)
qed

lemma hash_add_spec:
  assumes ok: "hash_ok hf cmp h"
  shows "\<exists>h1. hash_add h key v replace = Some (replace \<or> hash_map h key = None, h1) \<and> hash_ok hf cmp h1
           \<and> hash_map h1 = (if replace \<or> hash_map h key = None then map_put cmp (hash_map h) key (Some v) else hash_map h)"
proof -
  have f: "hash_value h key = hf key (h_iv h)" using ok by (auto simp: hash_ok_def hash_value_def)
  let ?i = "hash_bucket_index h (hf key (h_iv h))"
  note c = chain_at [OF ok, of "hf key (h_iv h)"]
  show ?thesis
  proof (rule lookup_fast_cases [OF ok refl, of key])
    assume absent: "hash_lookup_fast h ?i key (hf key (h_iv h)) = Some (None, h)" "hash_map h key = None"
      "find (key_is cmp key) (h_buckets h ! ?i) = None"
    let ?e = "\<lparr>he_value = v, he_key = Some key, he_hash_value = hf key (h_iv h)\<rparr>"
    have "unat (hf key (h_iv h) AND word_of_int (h_mask h)) = ?i" by (simp add: hash_bucket_index_def)
    note a = add_to_chain [OF c absent(3) this, of v]
    have "hash_ok hf cmp (hash_add_fast h ?i key (hf key (h_iv h)) v)"
      "hash_map (hash_add_fast h ?i key (hf key (h_iv h)) v) = map_put cmp (hash_map h) key (Some v)"
      unfolding hash_add_fast_def by (rule set_bucket_ok [OF ok refl a]; simp)+
    then show ?thesis using absent by (simp add: hash_add_def f Let_def)
  next
    fix he l h1
    assume found: "hash_lookup_fast h ?i key (hf key (h_iv h)) = Some (Some he, h1)"
      "hash_map h key = Some (he_value he)" "h1 = set_bucket h ?i (he # l)" "hash_ok hf cmp h1"
      "hash_map h1 = hash_map h" "key_is cmp key he" "h_buckets h1 ! ?i = he # l"
    have i1: "?i = hash_bucket_index h1 (hf key (h_iv h1))" using found(3) by (simp add: set_bucket_def hash_bucket_index_def)
    have c1: "chain_ok hf cmp (h_iv h1) (h_mask h1) ?i (he # l)"
      using chain_at [OF found(4), of "hf key (h_iv h1)"] i1 found(7) by simp
    note s = set_in_chain [OF c1 found(6), of v]
    have "hash_ok hf cmp (set_bucket h1 ?i (he\<lparr>he_value := v\<rparr> # l))"
      "hash_map (set_bucket h1 ?i (he\<lparr>he_value := v\<rparr> # l)) = map_put cmp (hash_map h1) key (Some v)"
      by (subst update_same, rule set_bucket_ok [OF found(4) i1 s(1), where v = "Some v"]; simp add: s(2) found(7))+
    then show ?thesis using found by (cases replace) (simp_all add: hash_add_def f Let_def)
  qed
qed

lemma hash_remove_spec:
  assumes ok: "hash_ok hf cmp h"
  shows "\<exists>h1. hash_remove h key = Some (hash_map h key \<noteq> None, h1) \<and> hash_ok hf cmp h1
           \<and> hash_map h1 = map_put cmp (hash_map h) key None"
proof -
  have f: "hash_value h key = hf key (h_iv h)" "h_compare_function h = cmp" "h_hash_function h = hf"
    using ok by (auto simp: hash_ok_def hash_value_def)
  let ?i = "hash_bucket_index h (hf key (h_iv h))"
  note c = chain_at [OF ok, of "hf key (h_iv h)"]
  from c show ?thesis
  proof (cases rule: seek_cases [of _ _ _ _ key])
    case absent
    then have "hash_map h key = None" using f by (simp add: hash_map_def chain_map_def)
    moreover have "map_put cmp (hash_map h) key None = hash_map h"
    proof
      fix k
      show "map_put cmp (hash_map h) key None k = hash_map h k"
      proof (cases "cmp key k")
        case True
        then have "\<not> key_is cmp k x" if "x \<in> set (h_buckets h ! ?i)" for x
          using absent(2) that by (auto simp: find_None_iff key_is_def split: option.splits dest: cmp_sym cmp_trans)
        then have "find (key_is cmp k) (h_buckets h ! ?i) = None" by (auto simp: find_None_iff)
        then show ?thesis using True cmp_hash [OF True] f
          by (simp add: map_put_def hash_map_def chain_map_def hash_value_def)
      qed (simp add: map_put_def)
    qed
    ultimately show ?thesis using absent f ok by (simp add: hash_remove_def hash_remove_fast_def Let_def)
  next
    case (found prev he r)
    note d = drop_from_chain [OF c [unfolded found(2)] found(3)]
    have "hash_map h key \<noteq> None" using found f by (simp add: hash_map_def chain_map_def)
    moreover have "hash_ok hf cmp ((set_bucket h ?i (prev @ r))\<lparr>h_n_elements := h_n_elements h - 1\<rparr>)"
      "hash_map ((set_bucket h ?i (prev @ r))\<lparr>h_n_elements := h_n_elements h - 1\<rparr>)
         = map_put cmp (hash_map h) key None"
      by (rule set_bucket_ok [OF ok refl d(1), where v = None]; simp add: d(2) found(2))+
    ultimately show ?thesis using found f by (simp add: hash_remove_def hash_remove_fast_def Let_def)
  qed
qed

end

subsection \<open>Visiting every element\<close>

definition sweep :: "'v \<Rightarrow> ('k, 'v) hash_bucket \<Rightarrow> ('k, 'v) hash_bucket" where
  "sweep v l = map (\<lambda>he. if he_value he = v then he\<lparr>he_key := None\<rparr> else he) l"

text \<open>The rest of a locked chain: its elements with the value are marked, and the flag says so.\<close>

definition swept :: "'v \<Rightarrow> hash_iterator \<Rightarrow> nat \<Rightarrow> nat \<Rightarrow> ('k, 'v) hash \<Rightarrow> hash_iterator" where
  "swept v hi c p h =
     hi\<lparr>hi_elem := None, hi_last := Some (length (h_buckets h ! c) - 1),
        hi_bucket_marked := (hi_bucket_marked hi \<or> (\<exists>he \<in> set (drop p (h_buckets h ! c)). he_value he = v))\<rparr>"

lemma sweep_chain:
  assumes "hi_bucket hi = Some c" "hi_elem hi = Some p" "p < length (h_buckets h ! c)" "c < length (h_buckets h)"
  shows "remove_by_value_loop v hi h =
           remove_by_value_loop v (swept v hi c p h)
             (set_bucket h c (take p (h_buckets h ! c) @ sweep v (drop p (h_buckets h ! c))))"
  using assms
proof (induction "length (h_buckets h ! c) - p" arbitrary: hi h p)
  case 0
  then show ?case by simp
next
  case (Suc d)
  let ?l = "h_buckets h ! c"
  let ?he = "?l ! p"
  let ?hi1 = "hash_iterator_advance hi h"
  let ?mark = "he_value ?he = v"
  define hi2 where "hi2 = (if ?mark then ?hi1\<lparr>hi_bucket_marked := True\<rparr> else ?hi1)"
  define l2 where "l2 = (if ?mark then ?l[p := ?he\<lparr>he_key := None\<rparr>] else ?l)"
  let ?h2 = "set_bucket h c l2"
  have l2: "h_buckets ?h2 ! c = l2" "length l2 = length ?l" "c < length (h_buckets ?h2)"
    using Suc.prems by (auto simp: set_bucket_def l2_def)
  have adv: "hi_last ?hi1 = Some p" "hi_bucket ?hi1 = Some c"
    "hi_elem ?hi1 = (if Suc p < length ?l then Some (Suc p) else None)"
    using Suc.prems by (auto simp: hash_iterator_advance_def locked_chain_def)
  have step: "remove_by_value_loop v hi h = remove_by_value_loop v hi2 ?h2"
    using Suc.prems adv
    by (subst remove_by_value_loop.simps)
      (simp add: hash_iterator_next_def locked_chain_def hash_iterator_delete_element_def hi2_def l2_def set_bucket_def)
  have dp: "drop p ?l = ?he # drop (Suc p) ?l" using Suc.prems by (simp add: Cons_nth_drop_Suc)
  have l2split: "take (Suc p) l2 = take p ?l @ sweep v [?he]" "drop (Suc p) l2 = drop (Suc p) ?l"
    using Suc.prems by (auto simp: l2_def sweep_def take_Suc_conv_app_nth take_update_swap list_update_beyond)
  show ?case
  proof (cases "Suc p < length ?l")
    case True
    have "remove_by_value_loop v hi2 ?h2 =
        remove_by_value_loop v (swept v hi2 c (Suc p) ?h2) (set_bucket ?h2 c (take (Suc p) l2 @ sweep v (drop (Suc p) l2)))"
      using Suc.hyps(1) [of ?h2 "Suc p" hi2] Suc.hyps(2) True adv l2 by (simp add: hi2_def)
    also have "swept v hi2 c (Suc p) ?h2 = swept v hi c p h"
      using l2 l2split dp by (auto simp: swept_def hi2_def hash_iterator_advance_def)
    also have "set_bucket ?h2 c (take (Suc p) l2 @ sweep v (drop (Suc p) l2))
        = set_bucket h c (take p ?l @ sweep v (drop p ?l))"
      using l2split dp by (simp add: set_bucket_def sweep_def)
    finally show ?thesis using step by simp
  next
    case False
    then have last: "drop p ?l = [?he]" "p = length ?l - 1" using dp Suc.prems by auto
    have "swept v hi c p h = hi2"
      using False Suc.prems last adv by (auto simp: swept_def hi2_def hash_iterator_advance_def locked_chain_def)
    moreover have "take p ?l @ sweep v (drop p ?l) = l2"
      using last l2split Suc.prems l2 by (simp add: take_all_iff) 
    ultimately show ?thesis using step by simp
  qed
qed

lemma unmark_sweep:
  assumes "\<forall>he \<in> set l. he_key he \<noteq> None"
  shows "filter (\<lambda>he. he_key he \<noteq> None) (sweep v l) = filter (\<lambda>he. he_value he \<noteq> v) l"
    "length (sweep v l) = length l"
    "\<forall>he \<in> set l. he_value he \<noteq> v \<Longrightarrow> sweep v l = l"
  using assms by (induction l) (auto simp: sweep_def)

text \<open>
  \<open>n - total\<close> is kept by everything the iterator does: the element counter follows the chains.
\<close>

definition counted :: "('k, 'v) hash \<Rightarrow> int" where
  "counted h = h_n_elements h - int (sum_list (map length (h_buckets h)))"

lemma counted_set_bucket:
  "i < length (h_buckets h) \<Longrightarrow> length l = length (h_buckets h ! i) \<Longrightarrow> counted (set_bucket h i l) = counted h"
  by (simp add: counted_def set_bucket_def sum_length_update)

lemma remove_marked_eq:
  assumes "i < length (h_buckets h)"
  shows "h_buckets (hash_remove_marked h i) = (h_buckets h)[i := filter (\<lambda>he. he_key he \<noteq> None) (h_buckets h ! i)]"
    "counted (hash_remove_marked h i) = counted h"
  using assms length_filter_le [of "\<lambda>he. he_key he \<noteq> None" "h_buckets h ! i"]
  by (auto simp: counted_def hash_remove_marked_def set_bucket_def sum_length_update Let_def)

text \<open>The same table but for chains and counter.\<close>

definition same_table :: "('k, 'v) hash \<Rightarrow> ('k, 'v) hash \<Rightarrow> bool" where
  "same_table h h1 =
     (h_n_buckets h1 = h_n_buckets h \<and> h_mask h1 = h_mask h \<and> h_iv h1 = h_iv h
      \<and> h_hash_function h1 = h_hash_function h \<and> h_compare_function h1 = h_compare_function h
      \<and> counted h1 = counted h \<and> length (h_buckets h1) = length (h_buckets h))"

lemma same_table_refl [simp]: "same_table h h"
  by (simp add: same_table_def)

lemma same_table_trans: "same_table h h1 \<Longrightarrow> same_table h1 h2 \<Longrightarrow> same_table h h2"
  by (simp add: same_table_def)

lemma same_table_set_bucket:
  "i < length (h_buckets h) \<Longrightarrow> length l = length (h_buckets h ! i) \<Longrightarrow> same_table h (set_bucket h i l)"
  using counted_set_bucket [of i h l] by (simp add: same_table_def set_bucket_def)

lemma same_table_unlock:
  "(\<And>i. hi_bucket hi = Some i \<Longrightarrow> i < length (h_buckets h)) \<Longrightarrow> same_table h (snd (hash_iterator_unlock hi h))"
  using remove_marked_eq [of _ h]
  by (auto simp: same_table_def hash_iterator_unlock_def hash_remove_marked_def set_bucket_def Let_def split: option.split)

lemma unlock_nth:
  assumes "\<And>i. hi_bucket hi = Some i \<Longrightarrow> i < length (h_buckets h)"
  shows "h_buckets (snd (hash_iterator_unlock hi h)) ! j =
     (if hi_bucket hi = Some j \<and> hi_bucket_marked hi then filter (\<lambda>he. he_key he \<noteq> None) (h_buckets h ! j)
      else h_buckets h ! j)"
  using assms
  by (auto simp: hash_iterator_unlock_def hash_remove_marked_def set_bucket_def Let_def nth_list_update split: option.split)

text \<open>
  Between two chains: what the loop has to do from there is to remove the value from every chain
  after the current one.
\<close>

lemma sweep_from:
  assumes "hi_elem hi = None" "hi_bucket_index hi \<ge> -1" "hi_bucket_index_end hi = int (length (h_buckets h))"
    "\<And>c. hi_bucket hi = Some c \<Longrightarrow> int c \<le> hi_bucket_index hi \<and> c < length (h_buckets h)"
    "\<And>j. hi_bucket_index hi < int j \<Longrightarrow> j < length (h_buckets h) \<Longrightarrow> \<forall>he \<in> set (h_buckets h ! j). he_key he \<noteq> None"
  shows "\<exists>hi1 h1. remove_by_value_loop v hi h = Some (hi1, h1)
           \<and> same_table h (hash_iterator_free hi1 h1)
           \<and> (\<forall>j<length (h_buckets h). h_buckets (hash_iterator_free hi1 h1) ! j =
                (if hi_bucket_index hi < int j then filter (\<lambda>he. he_value he \<noteq> v) (h_buckets h ! j)
                 else h_buckets (snd (hash_iterator_unlock hi h)) ! j))"
  using assms
proof (induction "buckets_left hi" arbitrary: hi h rule: less_induct)
  case less
  let ?i = "hi_bucket_index hi + 1"
  show ?case
  proof (cases "?i < hi_bucket_index_end hi")
    case False
    then have "remove_by_value_loop v hi h = Some (hi\<lparr>hi_bucket_index := ?i\<rparr>, h)"
      using less.prems(1)
      by (subst remove_by_value_loop.simps) (simp add: hash_iterator_next_def next_bucket.simps)
    moreover have "hash_iterator_free (hi\<lparr>hi_bucket_index := ?i\<rparr>) h = snd (hash_iterator_unlock hi h)"
      by (simp add: hash_iterator_free_def hash_iterator_unlock_def split: option.split)
    moreover have "same_table h (snd (hash_iterator_unlock hi h))"
      using less.prems(4) by (intro same_table_unlock) blast
    ultimately show ?thesis using False less.prems(3) by auto
  next
    case True
    let ?c = "nat ?i"
    obtain hi2 h2 where u: "hash_iterator_unlock (hi\<lparr>hi_bucket_index := ?i\<rparr>) h = (hi2, h2)" by force
    have hi2: "hi_bucket_index hi2 = ?i" "hi_bucket_index_end hi2 = hi_bucket_index_end hi"
      "hi_elem hi2 = None" "hi_bucket hi2 = None"
      using u less.prems(1) by (auto simp: hash_iterator_unlock_def split: option.splits)
    have h2: "h2 = snd (hash_iterator_unlock hi h)"
      using u by (auto simp: hash_iterator_unlock_def split: option.splits)
    have same2: "same_table h h2" unfolding h2 using less.prems(4) by (intro same_table_unlock) blast
    then have len2: "length (h_buckets h2) = length (h_buckets h)" by (simp add: same_table_def)
    have later: "h_buckets h2 ! j = h_buckets h ! j" if "hi_bucket_index hi < int j" for j
      using unlock_nth [of hi h j] less.prems(4) that by (fastforce simp: h2)
    have c: "?c < length (h_buckets h)" "int ?c = ?i" using True less.prems(2,3) by auto
    have left: "buckets_left hi2 < buckets_left hi" using True hi2 by (simp add: buckets_left_def)
    show ?thesis
    proof (cases "h_buckets h2 ! ?c")
      case Nil
      have "hash_iterator_next hi h = hash_iterator_next hi2 h2"
        using less.prems(1) hi2(3) True u Nil
        by (simp add: hash_iterator_next_def) (subst next_bucket.simps, simp add: Let_def)
      then have eq: "remove_by_value_loop v hi h = remove_by_value_loop v hi2 h2"
        by (subst (1 2) remove_by_value_loop.simps) simp
      have clean2: "\<forall>he \<in> set (h_buckets h2 ! j). he_key he \<noteq> None"
        if "hi_bucket_index hi2 < int j" "j < length (h_buckets h2)" for j
        using less.prems(5) [of j] later [of j] that hi2 len2 by simp
      have "hash_iterator_unlock hi2 h2 = (hi2, h2)" using hi2(4) by (simp add: hash_iterator_unlock_def)
      then obtain hi1 h1 where r: "remove_by_value_loop v hi2 h2 = Some (hi1, h1)"
        "same_table h2 (hash_iterator_free hi1 h1)"
        "\<forall>j<length (h_buckets h2). h_buckets (hash_iterator_free hi1 h1) ! j =
                (if ?i < int j then filter (\<lambda>he. he_value he \<noteq> v) (h_buckets h2 ! j) else h_buckets h2 ! j)"
        using less.hyps [OF left, of h2] hi2 less.prems(2,3) clean2 len2 by auto
      have "h_buckets (hash_iterator_free hi1 h1) ! j =
                (if hi_bucket_index hi < int j then filter (\<lambda>he. he_value he \<noteq> v) (h_buckets h ! j)
                 else h_buckets h2 ! j)" if "j < length (h_buckets h)" for j
      proof (cases "j = ?c")
        case True
        then show ?thesis using r(3) that len2 c Nil later [of ?c] by simp
      next
        case False
        then have "?i < int j \<longleftrightarrow> hi_bucket_index hi < int j" using c by linarith
        then show ?thesis using r(3) that len2 later [of j] by simp
      qed
      then show ?thesis
        using eq r(1) same_table_trans [OF same2 r(2)]
        by (intro exI [of _ hi1] exI [of _ h1]) (simp add: h2 [symmetric])
    next
      case (Cons x xs)
      let ?hi3 = "(hash_iterator_lock hi2 ?c)\<lparr>hi_elem := Some 0\<rparr>"
      let ?l = "h_buckets h2 ! ?c"
      have chain: "locked_chain ?hi3 h2 = ?l" by (simp add: locked_chain_def hash_iterator_lock_def)
      have "hash_iterator_next hi h = hash_iterator_next ?hi3 h2"
        using less.prems(1) True u Cons chain
        by (simp add: hash_iterator_next_def) (subst next_bucket.simps, simp add: Let_def)
      then have eq: "remove_by_value_loop v hi h = remove_by_value_loop v ?hi3 h2"
        by (subst (1 2) remove_by_value_loop.simps) simp
      let ?hi4 = "swept v ?hi3 ?c 0 h2"
      let ?h4 = "set_bucket h2 ?c (sweep v ?l)"
      have eq4: "remove_by_value_loop v ?hi3 h2 = remove_by_value_loop v ?hi4 ?h4"
        using sweep_chain [of ?hi3 ?c 0 h2 v] Cons c len2 by (simp add: hash_iterator_lock_def)
      have hi4: "hi_bucket_index ?hi4 = ?i" "hi_bucket_index_end ?hi4 = hi_bucket_index_end hi"
        "hi_elem ?hi4 = None" "hi_bucket ?hi4 = Some ?c"
        "hi_bucket_marked ?hi4 = (\<exists>he \<in> set ?l. he_value he = v)"
        using hi2 by (simp_all add: swept_def hash_iterator_lock_def)
      have clean: "\<forall>he \<in> set ?l. he_key he \<noteq> None" using less.prems(5) [of ?c] later [of ?c] c by simp
      note sw = unmark_sweep [OF clean, of v]
      have same4: "same_table h2 ?h4" using c len2 sw(2) by (intro same_table_set_bucket) auto
      have len4: "length (h_buckets ?h4) = length (h_buckets h)" using len2 by (simp add: set_bucket_def)
      have nth4: "h_buckets ?h4 ! j = (if j = ?c then sweep v ?l else h_buckets h2 ! j)" for j
        using c len2 by (simp add: set_bucket_def)
      have unl: "h_buckets (snd (hash_iterator_unlock ?hi4 ?h4)) ! j =
          (if j = ?c then filter (\<lambda>he. he_value he \<noteq> v) ?l else h_buckets h2 ! j)" for j
        using unlock_nth [of ?hi4 ?h4 j] hi4 c len4 nth4 sw by (auto simp: filter_id_conv)
      have clean4: "\<forall>he \<in> set (h_buckets ?h4 ! j). he_key he \<noteq> None"
        if "hi_bucket_index ?hi4 < int j" "j < length (h_buckets ?h4)" for j
        using less.prems(5) [of j] later [of j] that hi4(1) len4 nth4 c by auto
      have left4: "buckets_left ?hi4 < buckets_left hi" using hi4 True by (simp add: buckets_left_def)
      obtain hi1 h1 where r: "remove_by_value_loop v ?hi4 ?h4 = Some (hi1, h1)"
        "same_table ?h4 (hash_iterator_free hi1 h1)"
        "\<forall>j<length (h_buckets ?h4). h_buckets (hash_iterator_free hi1 h1) ! j =
                (if ?i < int j then filter (\<lambda>he. he_value he \<noteq> v) (h_buckets ?h4 ! j)
                 else h_buckets (snd (hash_iterator_unlock ?hi4 ?h4)) ! j)"
        using less.hyps [OF left4 hi4(3), of ?h4] hi4(1,2,4) less.prems(2,3) clean4 len4 c by auto
      have "h_buckets (hash_iterator_free hi1 h1) ! j =
                (if hi_bucket_index hi < int j then filter (\<lambda>he. he_value he \<noteq> v) (h_buckets h ! j)
                 else h_buckets h2 ! j)" if "j < length (h_buckets h)" for j
      proof (cases "j = ?c")
        case True
        then show ?thesis using r(3) that len4 c unl later [of ?c] by simp
      next
        case False
        then have "?i < int j \<longleftrightarrow> hi_bucket_index hi < int j" using c by linarith
        then show ?thesis using r(3) that len4 later [of j] unl nth4 False by simp
      qed
      then show ?thesis
        using eq eq4 r(1) same_table_trans [OF same2 same_table_trans [OF same4 r(2)]]
        by (intro exI [of _ hi1] exI [of _ h1]) (simp add: h2 [symmetric])
    qed
  qed
qed

text \<open>
  \<open>hash_remove_by_value\<close> removes the elements with the value, from every chain, and nothing else.
\<close>

lemma hash_remove_by_value_eq:
  assumes "hash_ok hf cmp h"
  shows "\<exists>h1. hash_remove_by_value h v = Some h1 \<and> same_table h h1
           \<and> h_buckets h1 = map (filter (\<lambda>he. he_value he \<noteq> v)) (h_buckets h)"
proof -
  have len: "int (length (h_buckets h)) = h_n_buckets h" using assms by (simp add: hash_ok_def)
  have clean: "\<forall>he \<in> set (h_buckets h ! j). he_key he \<noteq> None" if "j < length (h_buckets h)" for j
    using assms that by (fastforce simp: hash_ok_def chain_ok_def)
  obtain hi where hi: "hash_iterator_init h = Some hi" "hi_elem hi = None" "hi_bucket hi = None"
    "hi_bucket_index hi = -1" "hi_bucket_index_end hi = int (length (h_buckets h))"
    using len by (simp add: hash_iterator_init_def hash_iterator_init_range_def)
  obtain hi1 h1 where r: "remove_by_value_loop v hi h = Some (hi1, h1)"
    "same_table h (hash_iterator_free hi1 h1)"
    "\<forall>j<length (h_buckets h). h_buckets (hash_iterator_free hi1 h1) ! j = filter (\<lambda>he. he_value he \<noteq> v) (h_buckets h ! j)"
    using sweep_from [of hi h v] hi clean by auto
  have "h_buckets (hash_iterator_free hi1 h1) = map (filter (\<lambda>he. he_value he \<noteq> v)) (h_buckets h)"
    using r(2,3) by (intro nth_equalityI) (auto simp: same_table_def)
  then show ?thesis using hi(1) r(1,2) by (simp add: hash_remove_by_value_def)
qed


context hash_keys
begin

lemma hash_remove_by_value_spec:
  assumes ok: "hash_ok hf cmp h"
  shows "\<exists>h1. hash_remove_by_value h v = Some h1 \<and> hash_ok hf cmp h1
           \<and> hash_map h1 = (\<lambda>k. if hash_map h k = Some v then None else hash_map h k)"
proof -
  obtain h1 where h1: "hash_remove_by_value h v = Some h1" "same_table h h1"
    "h_buckets h1 = map (filter (\<lambda>he. he_value he \<noteq> v)) (h_buckets h)"
    using hash_remove_by_value_eq [OF ok] by blast
  have c: "chain_ok hf cmp (h_iv h) (h_mask h) i (h_buckets h ! i)" if "i < length (h_buckets h)" for i
    using ok that unfolding hash_ok_def by blast
  have "hash_ok hf cmp h1"
    using ok h1(2,3) filter_chain(1) [OF c] by (auto simp: hash_ok_def same_table_def counted_def)
  moreover have "hash_map h1 k = (if hash_map h k = Some v then None else hash_map h k)" for k
    using filter_chain(2) [OF chain_at [OF ok, of "hash_value h k"], of v k] bucket_index_bound [OF ok, of "hash_value h k"] h1 ok
    by (simp add: hash_map_def hash_ok_def same_table_def hash_value_def hash_bucket_index_def)
  ultimately show ?thesis using h1(1) by auto
qed

end

subsection \<open>Runs of the table\<close>

datatype ('k, 'v) hash_op = Hash_Add 'k 'v bool | Hash_Lookup 'k | Hash_Remove 'k | Hash_Remove_Value 'v

datatype 'v hash_answer = Found "'v option" | Did bool

fun hash_step :: "('k, 'v) hash \<Rightarrow> ('k, 'v) hash_op \<Rightarrow> ('v hash_answer \<times> ('k, 'v) hash) option" where
  "hash_step h (Hash_Add k v replace) = map_option (apfst Did) (hash_add h k v replace)"
| "hash_step h (Hash_Lookup k) = map_option (apfst Found) (hash_lookup h k)"
| "hash_step h (Hash_Remove k) = map_option (apfst Did) (hash_remove h k)"
| "hash_step h (Hash_Remove_Value v) = map_option (Pair (Did True)) (hash_remove_by_value h v)"

fun map_step ::
    "('k \<Rightarrow> 'k \<Rightarrow> bool) \<Rightarrow> ('k \<Rightarrow> 'v option) \<Rightarrow> ('k, 'v) hash_op \<Rightarrow> 'v hash_answer \<times> ('k \<Rightarrow> 'v option)" where
  "map_step cmp m (Hash_Add k v replace) =
     (if replace \<or> m k = None then (Did True, map_put cmp m k (Some v)) else (Did False, m))"
| "map_step cmp m (Hash_Lookup k) = (Found (m k), m)"
| "map_step cmp m (Hash_Remove k) = (Did (m k \<noteq> None), map_put cmp m k None)"
| "map_step cmp m (Hash_Remove_Value v) = (Did True, \<lambda>k. if m k = Some v then None else m k)"

fun hash_run :: "('k, 'v) hash \<Rightarrow> ('k, 'v) hash_op list \<Rightarrow> ('v hash_answer list \<times> ('k, 'v) hash) option" where
  "hash_run h [] = Some ([], h)"
| "hash_run h (op # ops) =
     (case hash_step h op of
        None \<Rightarrow> None
      | Some (a, h1) \<Rightarrow> map_option (apfst (Cons a)) (hash_run h1 ops))"

fun map_run ::
    "('k \<Rightarrow> 'k \<Rightarrow> bool) \<Rightarrow> ('k \<Rightarrow> 'v option) \<Rightarrow> ('k, 'v) hash_op list \<Rightarrow> 'v hash_answer list \<times> ('k \<Rightarrow> 'v option)" where
  "map_run cmp m [] = ([], m)"
| "map_run cmp m (op # ops) = (let (a, m1) = map_step cmp m op in apfst (Cons a) (map_run cmp m1 ops))"

context hash_keys
begin

lemma hash_step_refines:
  assumes "hash_ok hf cmp h"
  shows "\<exists>h1. hash_step h op = Some (fst (map_step cmp (hash_map h) op), h1) \<and> hash_ok hf cmp h1
           \<and> hash_map h1 = snd (map_step cmp (hash_map h) op)"
proof (cases op)
  case (Hash_Add k v r)
  obtain h1 where "hash_add h k v r = Some (r \<or> hash_map h k = None, h1)" "hash_ok hf cmp h1"
    "hash_map h1 = (if r \<or> hash_map h k = None then map_put cmp (hash_map h) k (Some v) else hash_map h)"
    using hash_add_spec [OF assms, of k v r] by blast
  then show ?thesis unfolding Hash_Add by (intro exI [of _ h1]) simp
next
  case (Hash_Lookup k)
  show ?thesis using hash_lookup_spec [OF assms, of k] unfolding Hash_Lookup by auto
next
  case (Hash_Remove k)
  show ?thesis using hash_remove_spec [OF assms, of k] unfolding Hash_Remove by auto
next
  case (Hash_Remove_Value v)
  show ?thesis using hash_remove_by_value_spec [OF assms, of v] unfolding Hash_Remove_Value by auto
qed

lemma hash_run_refines:
  assumes "hash_ok hf cmp h"
  shows "\<exists>h1. hash_run h ops = Some (fst (map_run cmp (hash_map h) ops), h1) \<and> hash_ok hf cmp h1
           \<and> hash_map h1 = snd (map_run cmp (hash_map h) ops)"
  using assms
proof (induction ops arbitrary: h)
  case (Cons op ops)
  obtain h1 where h1: "hash_step h op = Some (fst (map_step cmp (hash_map h) op), h1)"
    "hash_ok hf cmp h1" "hash_map h1 = snd (map_step cmp (hash_map h) op)"
    using hash_step_refines [OF Cons.prems] by blast
  show ?case using Cons.IH [OF h1(2)] h1 by (auto simp: apfst_def map_prod_def split: prod.splits)
qed simp

end

end
