(* ===== verification/Mroute.thy ===== *)
theory Mroute
  imports Inet Hash_Table
begin

text \<open>
  \<^verbatim>\<open>mroute.h\<close> and \<^verbatim>\<open>mroute.c\<close>: the addresses the server learns and routes by, taken from packets,
  socket addresses or configuration; the hash function of \<^verbatim>\<open>list.c\<close> over them; the mask of the
  host bits; and the helper that keeps the list of prefix lengths in use. With them
  \<open>netbits_to_netmask\<close> of \<^verbatim>\<open>route.h\<close> and \<open>netmask_to_netbits\<close> of \<^verbatim>\<open>route.c\<close>.

  The union of an address is its \<open>raw_addr\<close>, 20 bytes in network order, into which the address
  families write at their offsets. \<open>use_pf\<close> says whether the program is built with the packet
  filter (\<open>ENABLE_PF\<close>).

  The lemmas: equality and hash of addresses satisfy \<open>hash_keys\<close>, so the tables of the server
  refine maps; the mask keeps the first \<open>netbits\<close> bits and clears the rest of the address; the
  helper lists the prefix lengths in use in descending order.
\<close>

subsection \<open>The hash function\<close>

definition hash_mix :: "u32 \<times> u32 \<times> u32 \<Rightarrow> u32 \<times> u32 \<times> u32" where
  "hash_mix = (\<lambda>(a, b, c).
     let a = (a - b - c) XOR drop_bit 13 c;
         b = (b - c - a) XOR push_bit 8 a;
         c = (c - a - b) XOR drop_bit 13 b;
         a = (a - b - c) XOR drop_bit 12 c;
         b = (b - c - a) XOR push_bit 16 a;
         c = (c - a - b) XOR drop_bit 5 b;
         a = (a - b - c) XOR drop_bit 3 c;
         b = (b - c - a) XOR push_bit 10 a;
         c = (c - a - b) XOR drop_bit 15 b
     in (a, b, c))"

definition hash_word :: "byte list \<Rightarrow> nat \<Rightarrow> u32" where
  "hash_word k i = ucast (k ! i) + push_bit 8 (ucast (k ! (i + 1))) + push_bit 16 (ucast (k ! (i + 2)))
     + push_bit 24 (ucast (k ! (i + 3)))"

function hash_blocks :: "byte list \<Rightarrow> u32 \<times> u32 \<times> u32 \<Rightarrow> (u32 \<times> u32 \<times> u32) \<times> byte list" where
  "hash_blocks k abc =
     (if length k \<ge> 12
      then hash_blocks (drop 12 k)
             (case abc of (a, b, c) \<Rightarrow> hash_mix (a + hash_word k 0, b + hash_word k 4, c + hash_word k 8))
      else (abc, k))"
  by pat_completeness auto

termination hash_blocks
  by (relation "measure (\<lambda>(k, abc). length k)") auto

declare hash_blocks.simps [simp del]

text \<open>A byte of the tail, where the key still has one.\<close>

definition tail_byte :: "byte list \<Rightarrow> nat \<Rightarrow> nat \<Rightarrow> u32" where
  "tail_byte k i shift = (if i < length k then push_bit shift (ucast (k ! i)) else 0)"

definition hash_func :: "byte list \<Rightarrow> u32 \<Rightarrow> u32" where
  "hash_func key initval =
     (let ((a, b, c), k) = hash_blocks key (0x9e3779b9, 0x9e3779b9, initval);
          c = c + word_of_int (int (length key)) + tail_byte k 10 24 + tail_byte k 9 16 + tail_byte k 8 8;
          b = b + tail_byte k 7 24 + tail_byte k 6 16 + tail_byte k 5 8 + tail_byte k 4 0;
          a = a + tail_byte k 3 24 + tail_byte k 2 16 + tail_byte k 1 8 + tail_byte k 0 0
      in snd (snd (hash_mix (a, b, c))))"

subsection \<open>Addresses\<close>

definition MR_MAX_ADDR_LEN :: nat where "MR_MAX_ADDR_LEN = 20"
definition MR_ADDR_NONE :: byte where "MR_ADDR_NONE = 0"
definition MR_ADDR_ETHER :: byte where "MR_ADDR_ETHER = 1"
definition MR_ADDR_IPV4 :: byte where "MR_ADDR_IPV4 = 2"
definition MR_ADDR_IPV6 :: byte where "MR_ADDR_IPV6 = 3"
definition MR_ADDR_MASK :: byte where "MR_ADDR_MASK = 3"
definition MR_WITH_PORT :: byte where "MR_WITH_PORT = 4"
definition MR_WITH_NETBITS :: byte where "MR_WITH_NETBITS = 8"
definition MR_ARP :: byte where "MR_ARP = 16"

lemmas mr_consts = MR_ADDR_NONE_def MR_ADDR_ETHER_def MR_ADDR_IPV4_def MR_ADDR_IPV6_def MR_ADDR_MASK_def
  MR_WITH_PORT_def MR_WITH_NETBITS_def MR_ARP_def

record mroute_addr =
  ma_len :: byte
  ma_type :: byte
  ma_netbits :: byte
  ma_raw :: "byte list"

definition mroute_addr_init :: mroute_addr where
  "mroute_addr_init = \<lparr>ma_len = 0, ma_type = 0, ma_netbits = 0, ma_raw = replicate MR_MAX_ADDR_LEN 0\<rparr>"

definition mroute_addr_reset :: "mroute_addr \<Rightarrow> mroute_addr" where
  "mroute_addr_reset ma = ma\<lparr>ma_len := 0, ma_type := MR_ADDR_NONE\<rparr>"

definition mroute_addr_equal :: "mroute_addr \<Rightarrow> mroute_addr \<Rightarrow> bool" where
  "mroute_addr_equal a1 a2 =
     (if ma_type a1 \<noteq> ma_type a2 then False
      else if ma_netbits a1 \<noteq> ma_netbits a2 then False
      else if ma_len a1 \<noteq> ma_len a2 then False
      else take (unat (ma_len a1)) (ma_raw a1) = take (unat (ma_len a1)) (ma_raw a2))"

text \<open>The hashed bytes start at the type and run to the end of the address: type, netbits, address.\<close>

definition mroute_addr_hash_bytes :: "mroute_addr \<Rightarrow> byte list" where
  "mroute_addr_hash_bytes a = ma_type a # ma_netbits a # take (unat (ma_len a)) (ma_raw a)"

definition mroute_addr_hash_function :: "mroute_addr \<Rightarrow> u32 \<Rightarrow> u32" where
  "mroute_addr_hash_function key iv = hash_func (mroute_addr_hash_bytes key) iv"

definition is_mac_mcast_addr :: "byte list \<Rightarrow> bool" where
  "is_mac_mcast_addr mac = (mac ! 0 AND 1 \<noteq> 0)"

definition is_mac_mcast_maddr :: "mroute_addr \<Rightarrow> bool" where
  "is_mac_mcast_maddr a = (ma_type a AND MR_ADDR_MASK = MR_ADDR_ETHER \<and> is_mac_mcast_addr (ma_raw a))"

definition mroute_learnable_address :: "mroute_addr \<Rightarrow> bool" where
  "mroute_learnable_address a =
     (let bs = take (unat (ma_len a)) (ma_raw a);
          all_zeros = list_all (\<lambda>b. b = 0) bs; all_ones = list_all (\<lambda>b. b = 0xFF) bs
      in if all_zeros \<and> \<not> (ma_type a AND MR_WITH_NETBITS \<noteq> 0 \<and> ma_netbits a < 8) then False
         else if all_ones then False
         else if is_mac_mcast_maddr a then False
         else True)"

subsection \<open>Addresses from packets\<close>

definition MROUTE_EXTRACT_SUCCEEDED :: u32 where "MROUTE_EXTRACT_SUCCEEDED = 1"
definition MROUTE_EXTRACT_BCAST :: u32 where "MROUTE_EXTRACT_BCAST = 2"
definition MROUTE_EXTRACT_MCAST :: u32 where "MROUTE_EXTRACT_MCAST = 4"
definition MROUTE_EXTRACT_IGMP :: u32 where "MROUTE_EXTRACT_IGMP = 8"
definition MROUTE_SEC_SHIFT :: nat where "MROUTE_SEC_SHIFT = 4"
definition OPENVPN_IPPROTO_IGMP :: byte where "OPENVPN_IPPROTO_IGMP = 2"
definition OPENVPN_ETH_P_ARP :: u16 where "OPENVPN_ETH_P_ARP = 0x0806"
definition ARP_SIZE :: int where "ARP_SIZE = 28"

text \<open>The bytes of a packet at an offset.\<close>

definition bytes_at :: "buffer \<Rightarrow> int \<Rightarrow> nat \<Rightarrow> byte list" where
  "bytes_at b i n = mem_read (block b) (nat (boff b + i)) n"

definition put_addr :: "byte \<Rightarrow> byte \<Rightarrow> byte list \<Rightarrow> mroute_addr \<Rightarrow> mroute_addr" where
  "put_addr typ len bs ma =
     ma\<lparr>ma_type := typ, ma_netbits := 0, ma_len := len, ma_raw := mem_write (ma_raw ma) 0 bs\<rparr>"

definition mroute_get_in_addr_t :: "mroute_addr option \<Rightarrow> byte list \<Rightarrow> byte \<Rightarrow> mroute_addr option" where
  "mroute_get_in_addr_t ma src m = map_option (put_addr (MR_ADDR_IPV4 OR m) 4 src) ma"

definition mroute_get_in6_addr :: "mroute_addr option \<Rightarrow> byte list \<Rightarrow> byte \<Rightarrow> mroute_addr option" where
  "mroute_get_in6_addr ma src m = map_option (put_addr (MR_ADDR_IPV6 OR m) 16 src) ma"

definition mroute_is_mcast :: "byte list \<Rightarrow> bool" where
  "mroute_is_mcast addr = (un_be32 addr AND 0xF0000000 = 0xE0000000)"

definition mroute_is_mcast_ipv6 :: "byte list \<Rightarrow> bool" where
  "mroute_is_mcast_ipv6 addr = (addr ! 0 = 0xff)"

definition mroute_extract_addr_arp ::
    "mroute_addr option \<Rightarrow> mroute_addr option \<Rightarrow> buffer \<Rightarrow> u32 \<times> mroute_addr option \<times> mroute_addr option" where
  "mroute_extract_addr_arp src dest b =
     (if buf_len b \<ge> ARP_SIZE \<and> net16_at b 0 = 0x0001 \<and> net16_at b 2 = 0x0800 \<and> byte_at b 4 = 6 \<and> byte_at b 5 = 4
      then ((if mroute_is_mcast (bytes_at b 24 4) then MROUTE_EXTRACT_MCAST else 0) OR MROUTE_EXTRACT_SUCCEEDED,
            mroute_get_in_addr_t src (bytes_at b 14 4) MR_ARP,
            mroute_get_in_addr_t dest (bytes_at b 24 4) MR_ARP)
      else (0, src, dest))"

definition mroute_extract_addr_ip ::
    "mroute_addr option \<Rightarrow> mroute_addr option \<Rightarrow> buffer \<Rightarrow> u32 \<times> mroute_addr option \<times> mroute_addr option" where
  "mroute_extract_addr_ip src dest b =
     (if buf_len b \<ge> 1 \<and> IPH_GET_VER (byte_at b 0) = 4 \<and> buf_len b \<ge> IPHDR_SIZE
      then ((if mroute_is_mcast (bytes_at b 16 4) then MROUTE_EXTRACT_MCAST else 0)
              OR (if byte_at b 9 = OPENVPN_IPPROTO_IGMP then MROUTE_EXTRACT_IGMP else 0) OR MROUTE_EXTRACT_SUCCEEDED,
            mroute_get_in_addr_t src (bytes_at b 12 4) 0, mroute_get_in_addr_t dest (bytes_at b 16 4) 0)
      else if buf_len b \<ge> 1 \<and> IPH_GET_VER (byte_at b 0) = 6 \<and> buf_len b \<ge> IPV6HDR_SIZE
      then ((if mroute_is_mcast_ipv6 (bytes_at b 24 16) then MROUTE_EXTRACT_MCAST else 0) OR MROUTE_EXTRACT_SUCCEEDED,
            mroute_get_in6_addr src (bytes_at b 8 16) 0, mroute_get_in6_addr dest (bytes_at b 24 16) 0)
      else (0, src, dest))"

text \<open>The MAC address, then the VLAN id in the byte order of the machine.\<close>

definition mroute_copy_ether_to_addr :: "bool \<Rightarrow> byte list \<Rightarrow> u16 \<Rightarrow> mroute_addr \<Rightarrow> mroute_addr" where
  "mroute_copy_ether_to_addr big ether_addr vid ma =
     put_addr MR_ADDR_ETHER 8 (ether_addr @ native_bytes16 big vid) ma"

text \<open>The second pair of addresses, of the IP or ARP packet inside the frame.\<close>

definition extract_inner ::
    "mroute_addr option \<Rightarrow> mroute_addr option \<Rightarrow> buffer \<Rightarrow> u32 \<Rightarrow> u32 \<times> mroute_addr option \<times> mroute_addr option" where
  "extract_inner esrc edest b ret =
     (case buf_advance b ETHHDR_SIZE of
        (False, _) \<Rightarrow> (0, esrc, edest)
      | (True, b1) \<Rightarrow>
          (let inside = (\<lambda>proto b2.
                 if proto = OPENVPN_ETH_P_IPV4
                 then (let (r, es, ed) = mroute_extract_addr_ip esrc edest b2
                       in (ret OR push_bit MROUTE_SEC_SHIFT r, es, ed))
                 else if proto = OPENVPN_ETH_P_ARP
                 then (let (r, es, ed) = mroute_extract_addr_arp esrc edest b2
                       in (ret OR push_bit MROUTE_SEC_SHIFT r, es, ed))
                 else (ret, esrc, edest))
           in if net16_at b 12 = OPENVPN_ETH_P_8021Q
              then (case buf_advance b1 (VLANHDR_SIZE - ETHHDR_SIZE) of
                      (False, _) \<Rightarrow> (0, esrc, edest)
                    | (True, b2) \<Rightarrow> inside (net16_at b 16) b2)
              else inside (net16_at b 12) b1))"

definition mroute_extract_addr_ether ::
    "bool \<Rightarrow> bool \<Rightarrow> mroute_addr option \<Rightarrow> mroute_addr option \<Rightarrow> mroute_addr option \<Rightarrow> mroute_addr option
       \<Rightarrow> u16 \<Rightarrow> buffer
       \<Rightarrow> u32 \<times> mroute_addr option \<times> mroute_addr option \<times> mroute_addr option \<times> mroute_addr option" where
  "mroute_extract_addr_ether use_pf big src dest esrc edest vid b =
     (if buf_len b \<ge> ETHHDR_SIZE
      then (let src1 = map_option (mroute_copy_ether_to_addr big (bytes_at b 6 6) vid) src;
                dest1 = map_option (mroute_copy_ether_to_addr big (bytes_at b 0 6) vid) dest;
                ret = (if dest \<noteq> None \<and> is_mac_mcast_addr (bytes_at b 0 6) then MROUTE_EXTRACT_BCAST else 0)
                        OR MROUTE_EXTRACT_SUCCEEDED
            in if use_pf \<and> (esrc \<noteq> None \<or> edest \<noteq> None)
               then (let (r, es, ed) = extract_inner esrc edest b ret in (r, src1, dest1, es, ed))
               else (ret, src1, dest1, esrc, edest))
      else (0, src, dest, esrc, edest))"

definition mroute_extract_addr_from_packet ::
    "bool \<Rightarrow> bool \<Rightarrow> mroute_addr option \<Rightarrow> mroute_addr option \<Rightarrow> mroute_addr option \<Rightarrow> mroute_addr option
       \<Rightarrow> u16 \<Rightarrow> buffer \<Rightarrow> dev_type
       \<Rightarrow> u32 \<times> mroute_addr option \<times> mroute_addr option \<times> mroute_addr option \<times> mroute_addr option" where
  "mroute_extract_addr_from_packet use_pf big src dest esrc edest vid b tunnel_type =
     (case tunnel_type of
        DEV_TYPE_TUN \<Rightarrow> (let (r, s, d) = mroute_extract_addr_ip src dest b in (r, s, d, esrc, edest))
      | DEV_TYPE_TAP \<Rightarrow> mroute_extract_addr_ether use_pf big src dest esrc edest vid b
      | _ \<Rightarrow> (0, src, dest, esrc, edest))"

text \<open>A socket address: family, address and port, the last two in network order.\<close>

datatype osockaddr = Sin "byte list" "byte list" | Sin6 "byte list" "byte list" | Other_Family

definition mroute_extract_openvpn_sockaddr :: "mroute_addr \<Rightarrow> osockaddr \<Rightarrow> bool \<Rightarrow> bool \<times> mroute_addr" where
  "mroute_extract_openvpn_sockaddr addr osaddr use_port =
     (case osaddr of
        Sin a p \<Rightarrow> (True, if use_port then put_addr (MR_ADDR_IPV4 OR MR_WITH_PORT) 6 (a @ p) addr
                         else put_addr MR_ADDR_IPV4 4 a addr)
      | Sin6 a p \<Rightarrow> (True, if use_port then put_addr (MR_ADDR_IPV6 OR MR_WITH_PORT) 18 (a @ p) addr
                          else put_addr MR_ADDR_IPV6 16 a addr)
      | Other_Family \<Rightarrow> (False, addr))"

definition mroute_extract_in_addr_t :: "mroute_addr \<Rightarrow> u32 \<Rightarrow> mroute_addr" where
  "mroute_extract_in_addr_t dest src = put_addr MR_ADDR_IPV4 4 (be32 src) dest"

definition in_addr_t_from_mroute_addr :: "mroute_addr \<Rightarrow> u32" where
  "in_addr_t_from_mroute_addr a =
     (if ma_type a AND MR_ADDR_MASK = MR_ADDR_IPV4 \<and> ma_netbits a = 0 \<and> ma_len a = 4
      then un_be32 (take 4 (ma_raw a)) else 0)"

subsection \<open>Prefix lengths and masks\<close>

definition IPV4_NETMASK_HOST :: u32 where "IPV4_NETMASK_HOST = 0xffffffff"

definition netbits_to_netmask :: "int \<Rightarrow> u32" where
  "netbits_to_netmask netbits =
     (if netbits > 0 \<and> netbits \<le> 32 then push_bit (nat (32 - netbits)) IPV4_NETMASK_HOST else 0)"

text \<open>The search for the length of a netmask; a full mask counts as a host route (-1).\<close>

definition netmask_to_netbits :: "u32 \<Rightarrow> u32 \<Rightarrow> int option" where
  "netmask_to_netbits network netmask =
     (if network AND netmask = network
      then map_option (\<lambda>i. if i = 32 then -1 else i) (find (\<lambda>i. netbits_to_netmask i = netmask) [0..32])
      else None)"

definition netmask_to_netbits2 :: "u32 \<Rightarrow> int" where
  "netmask_to_netbits2 netmask =
     (case find (\<lambda>i. netbits_to_netmask i = netmask) [0..32] of Some i \<Rightarrow> i | None \<Rightarrow> -1)"

text \<open>The loop over the bytes of an IPv6 address, from the last one: how many bytes are left, how
  many bits to clear.\<close>

fun mask_loop :: "nat \<Rightarrow> int \<Rightarrow> byte list \<Rightarrow> int \<times> byte list" where
  "mask_loop 0 bits a = (bits, a)"
| "mask_loop (Suc byte) bits a =
     (if bits > 0
      then (if bits \<ge> 8 then mask_loop byte (bits - 8) (a[byte := 0])
            else mask_loop byte 0 (a[byte := a ! byte AND ucast (push_bit (nat bits) IPV4_NETMASK_HOST)]))
      else (bits, a))"

definition mroute_addr_mask_host_bits :: "mroute_addr \<Rightarrow> mroute_addr option" where
  "mroute_addr_mask_host_bits ma =
     (if ma_type ma AND MR_ADDR_MASK = MR_ADDR_IPV4
      then Some (ma\<lparr>ma_raw := mem_write (ma_raw ma) 0
              (be32 (un_be32 (take 4 (ma_raw ma)) AND netbits_to_netmask (uint (ma_netbits ma))))\<rparr>)
      else if ma_type ma AND MR_ADDR_MASK = MR_ADDR_IPV6
      then (let (bits, raw) = mask_loop 16 (128 - uint (ma_netbits ma)) (ma_raw ma)
            in if bits = 0 then Some (ma\<lparr>ma_raw := raw\<rparr>) else None)
      else None)"

subsection \<open>The prefix lengths in use\<close>

definition MR_HELPER_NET_LEN :: nat where "MR_HELPER_NET_LEN = 129"

record mroute_helper =
  mh_cache_generation :: u32
  mh_ageable_ttl_secs :: int
  mh_n_net_len :: int
  mh_net_len :: "byte list"
  mh_net_len_refcount :: "int list"

definition mroute_helper_init :: "int \<Rightarrow> mroute_helper" where
  "mroute_helper_init ageable_ttl_secs =
     \<lparr>mh_cache_generation = 0, mh_ageable_ttl_secs = ageable_ttl_secs, mh_n_net_len = 0,
      mh_net_len = replicate MR_HELPER_NET_LEN 0, mh_net_len_refcount = replicate MR_HELPER_NET_LEN 0\<rparr>"

definition mroute_helper_regenerate :: "mroute_helper \<Rightarrow> mroute_helper" where
  "mroute_helper_regenerate mh =
     (let used = filter (\<lambda>i. mh_net_len_refcount mh ! i > 0) (rev [0..<MR_HELPER_NET_LEN])
      in mh\<lparr>mh_net_len := mem_write (mh_net_len mh) 0 (map word_of_nat used), mh_n_net_len := int (length used)\<rparr>)"

definition mroute_helper_add_iroute46 :: "mroute_helper \<Rightarrow> int \<Rightarrow> mroute_helper option" where
  "mroute_helper_add_iroute46 mh netbits =
     (if netbits \<ge> 0
      then (if netbits < int MR_HELPER_NET_LEN
            then (let n = mh_net_len_refcount mh ! nat netbits + 1;
                      mh1 = mh\<lparr>mh_cache_generation := mh_cache_generation mh + 1,
                               mh_net_len_refcount := (mh_net_len_refcount mh)[nat netbits := n]\<rparr>
                  in Some (if n = 1 then mroute_helper_regenerate mh1 else mh1))
            else None)
      else Some mh)"

definition mroute_helper_del_iroute46 :: "mroute_helper \<Rightarrow> int \<Rightarrow> mroute_helper option" where
  "mroute_helper_del_iroute46 mh netbits =
     (if netbits \<ge> 0
      then (if netbits < int MR_HELPER_NET_LEN
            then (let n = mh_net_len_refcount mh ! nat netbits - 1;
                      mh1 = mh\<lparr>mh_cache_generation := mh_cache_generation mh + 1,
                               mh_net_len_refcount := (mh_net_len_refcount mh)[nat netbits := n]\<rparr>
                  in if n \<ge> 0 then Some (if n = 0 then mroute_helper_regenerate mh1 else mh1) else None)
            else None)
      else Some mh)"

subsection \<open>Addresses as keys\<close>

interpretation mroute_keys: hash_keys mroute_addr_hash_function mroute_addr_equal
  by unfold_locales
    (auto simp: mroute_addr_equal_def mroute_addr_hash_function_def mroute_addr_hash_bytes_def split: if_splits)

text \<open>
  C11: A table of the server that is keyed by addresses behaves as a map from addresses to values.
  Created with up to \<open>2 ^ 30\<close> buckets and any hash seed, it answers every sequence of additions
  (with or without replacement), lookups, removals by key and removals by value as the map does,
  whatever the addresses and their hash collisions, and never compares with a removed key.
\<close>

theorem route_table_refines_map:
  fixes ops :: "(mroute_addr, 'v) hash_op list"
  assumes "0 < n_buckets" "n_buckets \<le> 2 ^ 30"
  shows "\<exists>h h'. hash_init n_buckets iv mroute_addr_hash_function mroute_addr_equal = Some h
           \<and> hash_run h ops = Some (fst (map_run mroute_addr_equal Map.empty ops), h')
           \<and> hash_map h' = snd (map_run mroute_addr_equal Map.empty ops)
           \<and> h_n_elements h' = int (sum_list (map length (h_buckets h')))"
proof -
  obtain h :: "(mroute_addr, 'v) hash" where h: "hash_init n_buckets iv mroute_addr_hash_function mroute_addr_equal = Some h"
    "hash_ok mroute_addr_hash_function mroute_addr_equal h" "hash_map h = Map.empty"
    using hash_init_ok [OF assms] by blast
  obtain h' where "hash_run h ops = Some (fst (map_run mroute_addr_equal (hash_map h) ops), h')"
    "hash_ok mroute_addr_hash_function mroute_addr_equal h'"
    "hash_map h' = snd (map_run mroute_addr_equal (hash_map h) ops)"
    using mroute_keys.hash_run_refines [OF h(2), of ops] by blast
  then show ?thesis using h by (auto simp: hash_ok_def)
qed

definition demo_key :: "byte \<Rightarrow> mroute_addr" where
  "demo_key x = \<lparr>ma_len = 4, ma_type = MR_ADDR_IPV4, ma_netbits = 0, ma_raw = [10, 8, 0, x] @ replicate 16 0\<rparr>"

theorem route_table_refines_map_witness:
  "\<exists>h h'. hash_init 3 7 mroute_addr_hash_function mroute_addr_equal = Some h
     \<and> hash_run h [Hash_Add (demo_key 1) (1::nat) False, Hash_Add (demo_key 1) 2 False,
                   Hash_Lookup (demo_key 1), Hash_Lookup (demo_key 2)]
       = Some ([Did True, Did False, Found (Some 1), Found None], h')"
  using route_table_refines_map [of 3 7 "[Hash_Add (demo_key 1) (1::nat) False, Hash_Add (demo_key 1) 2 False,
                   Hash_Lookup (demo_key 1), Hash_Lookup (demo_key 2)]"]
  by (auto simp: map_put_def mroute_addr_equal_def demo_key_def)

subsection \<open>Bits of an address\<close>

text \<open>Bit \<open>k\<close> of an address, counted from its most significant one.\<close>

definition addr_bit :: "byte list \<Rightarrow> nat \<Rightarrow> bool" where
  "addr_bit a k = bit (a ! (k div 8)) (7 - k mod 8)"

lemma netmask_host_eq: "IPV4_NETMASK_HOST = -1"
  by (simp add: IPV4_NETMASK_HOST_def)

lemma mask_loop_bits:
  assumes "0 \<le> bits" "bits \<le> 8 * int n" "n \<le> length a"
  shows "fst (mask_loop n bits a) = 0 \<and> length (snd (mask_loop n bits a)) = length a
         \<and> (\<forall>j<length a. \<forall>i<8. bit (snd (mask_loop n bits a) ! j) i \<longleftrightarrow>
              bit (a ! j) i \<and> (j < n \<longrightarrow> int (8 * j + 7 - i) < 8 * int n - bits))"
  using assms
proof (induction n arbitrary: bits a)
  case (Suc n)
  show ?case
  proof (cases "bits > 0")
    case False
    then show ?thesis using Suc.prems by auto
  next
    case pos: True
    show ?thesis
    proof (cases "bits \<ge> 8")
      case True
      have "fst (mask_loop n (bits - 8) (a[n := 0])) = 0 \<and> length (snd (mask_loop n (bits - 8) (a[n := 0]))) = length a
         \<and> (\<forall>j<length a. \<forall>i<8. bit (snd (mask_loop n (bits - 8) (a[n := 0])) ! j) i \<longleftrightarrow>
              bit (a[n := 0] ! j) i \<and> (j < n \<longrightarrow> int (8 * j + 7 - i) < 8 * int n - (bits - 8)))"
        using Suc.IH [of "bits - 8" "a[n := 0]"] Suc.prems True by simp
      then show ?thesis using pos True Suc.prems by (auto simp: nth_list_update split: if_splits)
    next
      case False
      let ?a = "a[n := a ! n AND ucast (push_bit (nat bits) IPV4_NETMASK_HOST)]"
      have b: "bit (ucast (push_bit (nat bits) IPV4_NETMASK_HOST) :: byte) i \<longleftrightarrow> bits \<le> int i" if "i < 8" for i
        using that pos by (auto simp: bit_simps netmask_host_eq)
      have "fst (mask_loop n 0 ?a) = 0 \<and> length (snd (mask_loop n 0 ?a)) = length a
         \<and> (\<forall>j<length a. \<forall>i<8. bit (snd (mask_loop n 0 ?a) ! j) i \<longleftrightarrow>
              bit (?a ! j) i \<and> (j < n \<longrightarrow> int (8 * j + 7 - i) < 8 * int n - 0))"
        using Suc.IH [of 0 ?a] Suc.prems by simp
      then show ?thesis using pos False Suc.prems b
        by (auto simp: nth_list_update bit_and_iff split: if_splits)
    qed
  qed
qed simp

lemma netmask_bit:
  assumes "0 \<le> n" "n \<le> 32"
  shows "bit (netbits_to_netmask n) m \<longleftrightarrow> m < 32 \<and> 32 - n \<le> int m"
  using assms by (auto simp: netbits_to_netmask_def netmask_host_eq bit_simps)

lemma be32_bit: "j < 4 \<Longrightarrow> i < 8 \<Longrightarrow> bit (be32 w ! j) i = bit w (8 * (3 - j) + i)"
  by (cases j rule: nat.exhaust; cases "j - 1"; cases "j - 2"; cases "j - 3")
    (auto simp: be32_def bit_simps numeral_3_eq_3 less_Suc_eq nth_Cons' add.commute)

lemma un_be32_bit:
  "length bs = 4 \<Longrightarrow> j < 4 \<Longrightarrow> i < 8 \<Longrightarrow> bit (un_be32 bs) (8 * (3 - j) + i) = bit (bs ! j) i"
proof -
  assume a: "length bs = 4" "j < 4" "i < 8"
  then consider "j = 0" | "j = 1" | "j = 2" | "j = 3" by linarith
  then show ?thesis using a by cases (auto simp: un_be32_def bit_simps dest: bit_imp_le_length)
qed

lemma bit_index_flip: "k < 32 \<Longrightarrow> 8 * (3 - k div 8) + (7 - k mod 8) = 31 - (k :: nat)"
proof -
  assume k: "k < 32"
  then have "k = 8 * (k div 8) + k mod 8" "k mod 8 < 8" "k div 8 < 4" by simp_all
  then show ?thesis by linarith
qed

lemma bit_index_join: "8 * (k div 8) + 7 - (7 - k mod 8) = (k :: nat)"
proof -
  have "k = 8 * (k div 8) + k mod 8" "k mod 8 < 8" by simp_all
  then show ?thesis by linarith
qed

text \<open>
  \<open>mroute_addr_mask_host_bits\<close> keeps the network part of an address and clears the rest. For
  an IPv4 or IPv6 address with at most 32 or 128 network bits it does not fail, changes only the
  address, keeps the first \<open>netbits\<close> bits of it and clears the others; what follows the address
  in the union is kept.
\<close>

theorem mask_host_bits_spec:
  assumes "length (ma_raw ma) = MR_MAX_ADDR_LEN"
    and "(ma_type ma AND MR_ADDR_MASK = MR_ADDR_IPV4 \<and> width = 32)
         \<or> (ma_type ma AND MR_ADDR_MASK = MR_ADDR_IPV6 \<and> width = 128)"
    and "unat (ma_netbits ma) \<le> width"
  shows "\<exists>raw. mroute_addr_mask_host_bits ma = Some (ma\<lparr>ma_raw := raw\<rparr>) \<and> length raw = MR_MAX_ADDR_LEN
           \<and> (\<forall>k < 8 * MR_MAX_ADDR_LEN. addr_bit raw k \<longleftrightarrow>
                addr_bit (ma_raw ma) k \<and> (k < width \<longrightarrow> k < unat (ma_netbits ma)))"
  using assms(2)
proof (elim disjE conjE)
  assume t: "ma_type ma AND MR_ADDR_MASK = MR_ADDR_IPV4" and w: "width = 32"
  define net where "net = un_be32 (take 4 (ma_raw ma)) AND netbits_to_netmask (uint (ma_netbits ma))"
  define raw where "raw = mem_write (ma_raw ma) 0 (be32 net)"
  have len: "length raw = 20" using assms(1) by (simp add: MR_MAX_ADDR_LEN_def raw_def)
  have head: "raw ! j = (if j < 4 then be32 net ! j else ma_raw ma ! j)" if "j < 20" for j
    using that assms(1) by (simp add: raw_def mem_write_def nth_append MR_MAX_ADDR_LEN_def)
  have bits: "addr_bit raw k \<longleftrightarrow> addr_bit (ma_raw ma) k \<and> (k < 32 \<longrightarrow> k < unat (ma_netbits ma))" if k: "k < 160" for k
  proof (cases "k < 32")
    case True
    let ?j = "k div 8" and ?i = "7 - k mod 8"
    have ji: "?j < 4" "?i < 8" using True by auto
    have m: "8 * (3 - ?j) + ?i = 31 - k" by (rule bit_index_flip [OF True])
    have "uint (ma_netbits ma) = int (unat (ma_netbits ma))" by simp
    then have n: "0 \<le> uint (ma_netbits ma)" "uint (ma_netbits ma) \<le> 32" "uint (ma_netbits ma) = int (unat (ma_netbits ma))"
      using assms(3) w by linarith+
    have "addr_bit raw k = bit net (31 - k)"
      using head [of ?j] ji be32_bit [OF ji, of net] m by (simp add: addr_bit_def)
    also have "\<dots> = (bit (un_be32 (take 4 (ma_raw ma))) (31 - k) \<and> k < unat (ma_netbits ma))"
    proof -
      have "bit (netbits_to_netmask (uint (ma_netbits ma))) (31 - k) \<longleftrightarrow> k < unat (ma_netbits ma)"
        unfolding netmask_bit [OF n(1,2)] using True n(3) by linarith
      then show ?thesis by (simp only: net_def bit_and_iff)
    qed
    also have "bit (un_be32 (take 4 (ma_raw ma))) (31 - k) = addr_bit (ma_raw ma) k"
      using un_be32_bit [of "take 4 (ma_raw ma)" ?j ?i, unfolded m] ji assms(1)
      by (simp add: addr_bit_def MR_MAX_ADDR_LEN_def)
    finally show ?thesis using True by simp
  next
    case False
    then have "\<not> k div 8 < 4" "k div 8 < 20" using k by auto
    then show ?thesis using False head [of "k div 8"] by (simp add: addr_bit_def)
  qed
  have "mroute_addr_mask_host_bits ma = Some (ma\<lparr>ma_raw := raw\<rparr>)"
    unfolding mroute_addr_mask_host_bits_def by (simp only: t if_True simp_thms raw_def net_def)
  then show ?thesis using w bits len by (intro exI [of _ raw]) (simp add: MR_MAX_ADDR_LEN_def)
next
  assume t: "ma_type ma AND MR_ADDR_MASK = MR_ADDR_IPV6" and w: "width = 128"
  have n: "uint (ma_netbits ma) = int (unat (ma_netbits ma))" "unat (ma_netbits ma) \<le> 128"
    using assms(3) w by auto
  let ?r = "mask_loop 16 (128 - uint (ma_netbits ma)) (ma_raw ma)"
  have l: "fst ?r = 0 \<and> length (snd ?r) = length (ma_raw ma)
         \<and> (\<forall>j<length (ma_raw ma). \<forall>i<8. bit (snd ?r ! j) i \<longleftrightarrow>
              bit (ma_raw ma ! j) i \<and> (j < 16 \<longrightarrow> int (8 * j + 7 - i) < 8 * int 16 - (128 - uint (ma_netbits ma))))"
  proof (rule mask_loop_bits)
    show "0 \<le> 128 - uint (ma_netbits ma)" "128 - uint (ma_netbits ma) \<le> 8 * int 16"
      using n uint_ge_0 [of "ma_netbits ma"] by linarith+
    show "16 \<le> length (ma_raw ma)" using assms(1) by (simp add: MR_MAX_ADDR_LEN_def)
  qed
  have bits: "addr_bit (snd ?r) k \<longleftrightarrow> addr_bit (ma_raw ma) k \<and> (k < 128 \<longrightarrow> k < unat (ma_netbits ma))" if k: "k < 160" for k
  proof -
    have r: "k div 8 < length (ma_raw ma)" "7 - k mod 8 < 8" "k div 8 < 16 \<longleftrightarrow> k < 128"
      using k assms(1) by (auto simp: MR_MAX_ADDR_LEN_def)
    have "addr_bit (snd ?r) k \<longleftrightarrow> addr_bit (ma_raw ma) k
        \<and> (k div 8 < 16 \<longrightarrow> int (8 * (k div 8) + 7 - (7 - k mod 8)) < 8 * int 16 - (128 - uint (ma_netbits ma)))"
      unfolding addr_bit_def using l r(1,2) by blast
    moreover have "int k < 8 * int 16 - (128 - uint (ma_netbits ma)) \<longleftrightarrow> k < unat (ma_netbits ma)"
      using n(1) by linarith
    ultimately show ?thesis unfolding bit_index_join r(3) by blast
  qed
  have "ma_type ma AND MR_ADDR_MASK \<noteq> MR_ADDR_IPV4" using t by (simp add: mr_consts)
  then have "mroute_addr_mask_host_bits ma = Some (ma\<lparr>ma_raw := snd ?r\<rparr>)"
    using t l by (simp add: mroute_addr_mask_host_bits_def case_prod_beta)
  then show ?thesis using bits l assms(1) w by (intro exI [of _ "snd ?r"]) (simp add: MR_MAX_ADDR_LEN_def)
qed

theorem mask_host_bits_spec_witness:
  "\<exists>raw. mroute_addr_mask_host_bits (demo_key 77)
            = Some ((demo_key 77)\<lparr>ma_raw := raw\<rparr>) \<and> \<not> addr_bit raw 25"
proof -
  have "\<exists>raw. mroute_addr_mask_host_bits (demo_key 77) = Some ((demo_key 77)\<lparr>ma_raw := raw\<rparr>)
      \<and> length raw = MR_MAX_ADDR_LEN \<and> (\<forall>k < 8 * MR_MAX_ADDR_LEN. addr_bit raw k \<longleftrightarrow>
                addr_bit (ma_raw (demo_key 77)) k \<and> (k < 32 \<longrightarrow> k < unat (ma_netbits (demo_key 77))))"
    by (rule mask_host_bits_spec) (simp_all add: demo_key_def MR_MAX_ADDR_LEN_def mr_consts)
  then obtain raw where "mroute_addr_mask_host_bits (demo_key 77) = Some ((demo_key 77)\<lparr>ma_raw := raw\<rparr>)"
    "\<forall>k < 160. addr_bit raw k \<longrightarrow> (k < 32 \<longrightarrow> k < unat (ma_netbits (demo_key 77)))"
    by (auto simp: MR_MAX_ADDR_LEN_def)
  then show ?thesis by (intro exI [of _ raw]) (auto simp: demo_key_def dest: spec [of _ 25])
qed

text \<open>
  Netmasks and prefix lengths are converted back and forth without loss: the loop of
  \<open>netmask_to_netbits\<close> finds the length the mask was made of, and 32 becomes a host route.
\<close>

lemma netbits_to_netmask_inj:
  assumes "0 \<le> m" "m \<le> 32" "0 \<le> n" "n \<le> 32" "netbits_to_netmask m = netbits_to_netmask n"
  shows "m = n"
proof (rule ccontr)
  assume "m \<noteq> n"
  then consider "m < n" | "n < m" by linarith
  then show False
  proof cases
    case 1
    then show False using netmask_bit [OF assms(1,2), of "nat (32 - n)"] netmask_bit [OF assms(3,4), of "nat (32 - n)"] assms
      by simp
  next
    case 2
    then show False using netmask_bit [OF assms(1,2), of "nat (32 - m)"] netmask_bit [OF assms(3,4), of "nat (32 - m)"] assms
      by simp
  qed
qed

lemma find_same: "n \<in> set xs \<Longrightarrow> find (\<lambda>i. i = n) xs = Some n"
  by (induction xs) auto

lemma netmask_roundtrip:
  assumes "0 \<le> n" "n \<le> 32"
  shows "netmask_to_netbits2 (netbits_to_netmask n) = n"
    "network AND netbits_to_netmask n = network \<Longrightarrow>
       netmask_to_netbits network (netbits_to_netmask n) = Some (if n = 32 then -1 else n)"
proof -
  have "find (\<lambda>i. netbits_to_netmask i = netbits_to_netmask n) [0..32] = Some n"
  proof -
    have eq: "(netbits_to_netmask i = netbits_to_netmask n) = (i = n)" if "i \<in> set [0..32]" for i
      using netbits_to_netmask_inj [of i n] that assms by auto
    have "find (\<lambda>i. netbits_to_netmask i = netbits_to_netmask n) [0..32] = find (\<lambda>i. i = n) [0..32]"
      using eq by (intro find_cong refl)
    also have "\<dots> = Some n" using assms by (intro find_same) simp
    finally show ?thesis .
  qed
  then show "netmask_to_netbits2 (netbits_to_netmask n) = n"
    "network AND netbits_to_netmask n = network \<Longrightarrow>
       netmask_to_netbits network (netbits_to_netmask n) = Some (if n = 32 then -1 else n)"
    by (simp_all add: netmask_to_netbits2_def netmask_to_netbits_def)
qed

subsection \<open>The helper\<close>

definition used_lens :: "mroute_helper \<Rightarrow> nat list" where
  "used_lens mh = filter (\<lambda>i. mh_net_len_refcount mh ! i > 0) (rev [0..<MR_HELPER_NET_LEN])"

definition net_lens :: "mroute_helper \<Rightarrow> nat list" where
  "net_lens mh = map unat (take (nat (mh_n_net_len mh)) (mh_net_len mh))"

definition helper_ok :: "mroute_helper \<Rightarrow> bool" where
  "helper_ok mh =
     (length (mh_net_len mh) = MR_HELPER_NET_LEN \<and> length (mh_net_len_refcount mh) = MR_HELPER_NET_LEN
      \<and> list_all (\<lambda>n. n \<ge> 0) (mh_net_len_refcount mh)
      \<and> 0 \<le> mh_n_net_len mh \<and> net_lens mh = used_lens mh)"

lemma helper_init_ok: "helper_ok (mroute_helper_init ttl)"
proof -
  have "used_lens (mroute_helper_init ttl) = []"
    by (auto simp: used_lens_def mroute_helper_init_def filter_empty_conv)
  then show ?thesis
    by (simp add: helper_ok_def mroute_helper_init_def net_lens_def list_all_length)
qed

lemma regenerate_ok:
  assumes "length (mh_net_len mh) = MR_HELPER_NET_LEN" "length (mh_net_len_refcount mh) = MR_HELPER_NET_LEN"
    "list_all (\<lambda>n. n \<ge> 0) (mh_net_len_refcount mh)"
  shows "helper_ok (mroute_helper_regenerate mh)"
proof -
  have len: "length (used_lens mh) \<le> MR_HELPER_NET_LEN"
    by (simp add: used_lens_def order_trans [OF length_filter_le])
  have "map unat (map word_of_nat (used_lens mh) :: byte list) = used_lens mh"
    by (auto simp: used_lens_def MR_HELPER_NET_LEN_def unsigned_of_nat take_bit_nat_eq_self intro!: map_idI)
  then show ?thesis
    using assms len
    by (simp add: helper_ok_def mroute_helper_regenerate_def Let_def net_lens_def mem_write_def
        flip: used_lens_def) (simp add: used_lens_def)
qed

lemma used_lens_update:
  "i < MR_HELPER_NET_LEN \<Longrightarrow> length (mh_net_len_refcount mh) = MR_HELPER_NET_LEN \<Longrightarrow>
   (0 < mh_net_len_refcount mh ! i \<longleftrightarrow> 0 < n) \<Longrightarrow>
     used_lens (mh\<lparr>mh_cache_generation := g, mh_net_len_refcount := (mh_net_len_refcount mh)[i := n]\<rparr>) = used_lens mh"
  unfolding used_lens_def by (intro filter_cong refl) (auto simp: nth_list_update)

lemma helper_update:
  assumes ok: "helper_ok mh" and n: "n \<ge> 0" and i: "i < MR_HELPER_NET_LEN"
    and change: "(0 < mh_net_len_refcount mh ! i \<longleftrightarrow> 0 < n) \<or> regen"
    and mh1: "mh1 = mh\<lparr>mh_cache_generation := g, mh_net_len_refcount := (mh_net_len_refcount mh)[i := n]\<rparr>"
  shows "helper_ok (if regen then mroute_helper_regenerate mh1 else mh1)"
proof -
  have a: "list_all (\<lambda>n. n \<ge> 0) (mh_net_len_refcount mh1)"
    using ok n i mh1 by (auto simp: helper_ok_def list_all_length nth_list_update)
  show ?thesis
  proof (cases regen)
    case True
    have "helper_ok (mroute_helper_regenerate mh1)"
      by (rule regenerate_ok [OF _ _ a]) (use ok in \<open>simp_all add: helper_ok_def mh1\<close>)
    then show ?thesis using True by simp
  next
    case False
    then have "used_lens mh1 = used_lens mh"
      using change ok i by (simp add: mh1 used_lens_update helper_ok_def)
    then show ?thesis using False ok a by (simp add: helper_ok_def mh1 net_lens_def)
  qed
qed

lemma add_iroute_ok:
  assumes ok: "helper_ok mh" and r: "mroute_helper_add_iroute46 mh netbits = Some mh1"
  shows "helper_ok mh1"
    "netbits \<ge> 0 \<Longrightarrow> mh_net_len_refcount mh1 = (mh_net_len_refcount mh)[nat netbits := mh_net_len_refcount mh ! nat netbits + 1]
       \<and> mh_cache_generation mh1 = mh_cache_generation mh + 1 \<and> netbits < int MR_HELPER_NET_LEN"
    "netbits < 0 \<Longrightarrow> mh1 = mh"
proof -
  show "netbits < 0 \<Longrightarrow> mh1 = mh" using r by (simp add: mroute_helper_add_iroute46_def)
  show "netbits \<ge> 0 \<Longrightarrow> mh_net_len_refcount mh1 = (mh_net_len_refcount mh)[nat netbits := mh_net_len_refcount mh ! nat netbits + 1]
       \<and> mh_cache_generation mh1 = mh_cache_generation mh + 1 \<and> netbits < int MR_HELPER_NET_LEN"
    using r by (auto simp: mroute_helper_add_iroute46_def mroute_helper_regenerate_def Let_def split: if_splits)
  show "helper_ok mh1"
  proof (cases "netbits \<ge> 0")
    case True
    let ?n = "mh_net_len_refcount mh ! nat netbits + 1"
    let ?mh1 = "mh\<lparr>mh_cache_generation := mh_cache_generation mh + 1,
                  mh_net_len_refcount := (mh_net_len_refcount mh)[nat netbits := ?n]\<rparr>"
    have i: "nat netbits < MR_HELPER_NET_LEN" and mh1: "mh1 = (if ?n = 1 then mroute_helper_regenerate ?mh1 else ?mh1)"
      using r True by (auto simp: mroute_helper_add_iroute46_def Let_def nat_less_iff split: if_splits)
    have "mh_net_len_refcount mh ! nat netbits \<ge> 0" using ok i by (auto simp: helper_ok_def list_all_length)
    then show ?thesis unfolding mh1 by (intro helper_update [OF ok _ i _ refl]) auto
  next
    case False
    then show ?thesis using ok r by (simp add: mroute_helper_add_iroute46_def)
  qed
qed

lemma del_iroute_ok:
  assumes ok: "helper_ok mh" and r: "mroute_helper_del_iroute46 mh netbits = Some mh1"
  shows "helper_ok mh1"
    "netbits \<ge> 0 \<Longrightarrow> mh_net_len_refcount mh1 = (mh_net_len_refcount mh)[nat netbits := mh_net_len_refcount mh ! nat netbits - 1]
       \<and> mh_cache_generation mh1 = mh_cache_generation mh + 1 \<and> netbits < int MR_HELPER_NET_LEN"
    "netbits < 0 \<Longrightarrow> mh1 = mh"
proof -
  show "netbits < 0 \<Longrightarrow> mh1 = mh" using r by (simp add: mroute_helper_del_iroute46_def)
  show "netbits \<ge> 0 \<Longrightarrow> mh_net_len_refcount mh1 = (mh_net_len_refcount mh)[nat netbits := mh_net_len_refcount mh ! nat netbits - 1]
       \<and> mh_cache_generation mh1 = mh_cache_generation mh + 1 \<and> netbits < int MR_HELPER_NET_LEN"
    using r by (auto simp: mroute_helper_del_iroute46_def mroute_helper_regenerate_def Let_def split: if_splits)
  show "helper_ok mh1"
  proof (cases "netbits \<ge> 0")
    case True
    let ?n = "mh_net_len_refcount mh ! nat netbits - 1"
    let ?mh1 = "mh\<lparr>mh_cache_generation := mh_cache_generation mh + 1,
                  mh_net_len_refcount := (mh_net_len_refcount mh)[nat netbits := ?n]\<rparr>"
    have i: "nat netbits < MR_HELPER_NET_LEN" and n: "?n \<ge> 0"
      and mh1: "mh1 = (if ?n = 0 then mroute_helper_regenerate ?mh1 else ?mh1)"
      using r True by (auto simp: mroute_helper_del_iroute46_def Let_def nat_less_iff split: if_splits)
    show ?thesis unfolding mh1 using n by (intro helper_update [OF ok n i _ refl]) auto
  next
    case False
    then show ?thesis using ok r by (simp add: mroute_helper_del_iroute46_def)
  qed
qed

text \<open>A history of routes added (\<open>True\<close>) and deleted, and how often a length is in use after it.\<close>

fun helper_step :: "mroute_helper \<Rightarrow> bool \<times> int \<Rightarrow> mroute_helper option" where
  "helper_step mh (True, n) = mroute_helper_add_iroute46 mh n"
| "helper_step mh (False, n) = mroute_helper_del_iroute46 mh n"

definition balance :: "(bool \<times> int) list \<Rightarrow> nat \<Rightarrow> int" where
  "balance es n = (\<Sum>(add, m) \<leftarrow> es. if m = int n then if add then 1 else -1 else 0)"

lemma helper_step_ok:
  assumes "helper_ok mh" "helper_step mh e = Some mh1"
  shows "helper_ok mh1"
    "n < MR_HELPER_NET_LEN \<Longrightarrow> mh_net_len_refcount mh1 ! n = mh_net_len_refcount mh ! n + balance [e] n"
proof -
  obtain add m where e: "e = (add, m)" by force
  have len: "length (mh_net_len_refcount mh) = MR_HELPER_NET_LEN" using assms(1) by (simp add: helper_ok_def)
  show "helper_ok mh1"
    using assms(2) e add_iroute_ok(1) [OF assms(1), of m mh1] del_iroute_ok(1) [OF assms(1), of m mh1]
    by (cases add) simp_all
  show "mh_net_len_refcount mh1 ! n = mh_net_len_refcount mh ! n + balance [e] n" if n: "n < MR_HELPER_NET_LEN"
  proof (cases "m \<ge> 0")
    case False
    then have "mh1 = mh"
      using assms(2) e add_iroute_ok(3) [OF assms(1), of m mh1] del_iroute_ok(3) [OF assms(1), of m mh1]
      by (cases add) simp_all
    then show ?thesis using False e by (simp add: balance_def)
  next
    case True
    have eq: "m = int n \<longleftrightarrow> nat m = n" using True by auto
    show ?thesis
    proof (cases add)
      case True
      then have "mroute_helper_add_iroute46 mh m = Some mh1" using assms(2) e by simp
      note f = add_iroute_ok(2) [OF assms(1) this \<open>m \<ge> 0\<close>]
      then show ?thesis using True e n len eq by (simp add: balance_def nth_list_update)
    next
      case False
      then have "mroute_helper_del_iroute46 mh m = Some mh1" using assms(2) e by simp
      note f = del_iroute_ok(2) [OF assms(1) this \<open>m \<ge> 0\<close>]
      then show ?thesis using False e n len eq by (simp add: balance_def nth_list_update)
    qed
  qed
qed

lemma regenerate_fields [simp]:
  "mh_net_len_refcount (mroute_helper_regenerate mh) = mh_net_len_refcount mh"
  "mh_cache_generation (mroute_helper_regenerate mh) = mh_cache_generation mh"
  by (simp_all add: mroute_helper_regenerate_def Let_def)

text \<open>
  The helper lists exactly the prefix lengths in use. After any sequence of routes added and
  deleted that ends in no failed assertion, the first \<open>n_net_len\<close> entries of \<open>net_len\<close> are the
  lengths added more often than deleted, each once, in descending order, so that a search along
  them tries the longest prefix first.
\<close>

theorem helper_lists_lengths_in_use:
  assumes "run helper_step (mroute_helper_init ttl) es = Some mh"
  shows "net_lens mh = filter (\<lambda>n. balance es n > 0) (rev [0..<MR_HELPER_NET_LEN])"
proof -
  have "helper_ok mh \<and> (\<forall>n<MR_HELPER_NET_LEN. mh_net_len_refcount mh ! n = balance es n)"
    using assms
  proof (induction es arbitrary: mh rule: rev_induct)
    case Nil
    then show ?case using helper_init_ok by (auto simp: balance_def mroute_helper_init_def)
  next
    case (snoc e es)
    then obtain mh0 where mh0: "run helper_step (mroute_helper_init ttl) es = Some mh0" "helper_step mh0 e = Some mh"
      by (auto simp: run_append split: option.splits)
    show ?case
      using snoc.IH [OF mh0(1)] helper_step_ok [OF _ mh0(2)] by (auto simp: balance_def)
  qed
  then show ?thesis by (auto simp: helper_ok_def used_lens_def intro!: filter_cong)
qed

theorem helper_lists_lengths_in_use_witness:
  "\<exists>mh. run helper_step (mroute_helper_init 60) [(True, 16), (True, 24), (True, 16), (False, 24)] = Some mh
        \<and> 24 \<notin> set (net_lens mh) \<and> 16 \<in> set (net_lens mh)"
proof -
  obtain mh where mh: "run helper_step (mroute_helper_init 60) [(True, 16), (True, 24), (True, 16), (False, 24)] = Some mh"
    by (simp add: mroute_helper_init_def mroute_helper_add_iroute46_def mroute_helper_del_iroute46_def
        MR_HELPER_NET_LEN_def nth_list_update)
  show ?thesis
    using helper_lists_lengths_in_use [OF mh] mh by (auto simp: balance_def MR_HELPER_NET_LEN_def)
qed

end
