(* ===== verification/Multi_Route.thy ===== *)
theory Multi_Route
  imports Mroute
begin

text \<open>
  The internal routing table of the server (\<^verbatim>\<open>multi.h\<close>, \<^verbatim>\<open>multi.c\<close>): the addresses of its clients and
  of the subnets behind them, in the table \<open>vhash\<close> of \<open>Hash_Table\<close> keyed by the addresses of \<open>Mroute\<close>.

  A client instance is an entry of a map from addresses of memory; an instance that was freed is
  \<open>None\<close> there, and using it is a failure like a failed assertion. Routes are the values of the
  table, which holds the only pointer to each. The answer of the learn-address script or plugin is
  the argument \<open>script\<close>, the clock the argument \<open>now\<close>.

  The lemmas: an instance counts the routes that point to it, so a route never points to a freed
  instance, and no assertion fails; the lookup with its cache of host routes answers as a search of
  the longest prefix among the routes that were learned.
\<close>

subsection \<open>State\<close>

definition MULTI_ROUTE_CACHE :: u32 where "MULTI_ROUTE_CACHE = 1"
definition MULTI_ROUTE_AGEABLE :: u32 where "MULTI_ROUTE_AGEABLE = 2"

record multi_route =
  rt_addr :: mroute_addr
  rt_instance :: nat
  rt_flags :: u32
  rt_cache_generation :: u32
  rt_last_reference :: time_t

text \<open>Of an instance: what its routes need, and its routes from the configuration.\<close>

record multi_instance =
  in_refcount :: int
  in_route_count :: int
  in_halt :: bool
  in_did_iroutes :: bool
  in_max_routes_per_client :: int
  in_iroutes :: "(u32 \<times> int) list"
  in_iroutes_ipv6 :: "(byte list \<times> int) list"

type_synonym instances = "nat \<Rightarrow> multi_instance option"

record multi_context =
  mc_vhash :: "(mroute_addr, multi_route) hash"
  mc_instances :: instances
  mc_route_helper :: mroute_helper
  mc_local :: mroute_addr
  mc_dev_tun :: bool

subsection \<open>Counts\<close>

definition route_quota_test :: "multi_instance \<Rightarrow> bool" where
  "route_quota_test mi = (\<not> in_route_count mi \<ge> in_max_routes_per_client mi)"

definition route_quota_inc :: "multi_instance \<Rightarrow> multi_instance" where
  "route_quota_inc mi = mi\<lparr>in_route_count := in_route_count mi + 1\<rparr>"

definition route_quota_dec :: "multi_instance \<Rightarrow> multi_instance" where
  "route_quota_dec mi = mi\<lparr>in_route_count := in_route_count mi - 1\<rparr>"

definition multi_instance_inc_refcount :: "multi_instance \<Rightarrow> multi_instance" where
  "multi_instance_inc_refcount mi = mi\<lparr>in_refcount := in_refcount mi + 1\<rparr>"

definition multi_instance_dec_refcount :: "nat \<Rightarrow> instances \<Rightarrow> instances option" where
  "multi_instance_dec_refcount i ins =
     (case ins i of
        None \<Rightarrow> None
      | Some mi \<Rightarrow> if in_refcount mi - 1 \<le> 0 then Some (ins(i := None))
                   else Some (ins(i \<mapsto> mi\<lparr>in_refcount := in_refcount mi - 1\<rparr>)))"

definition multi_route_del :: "multi_route \<Rightarrow> instances \<Rightarrow> instances option" where
  "multi_route_del r ins =
     (case ins (rt_instance r) of
        None \<Rightarrow> None
      | Some mi \<Rightarrow> multi_instance_dec_refcount (rt_instance r) (ins(rt_instance r \<mapsto> route_quota_dec mi)))"

definition multi_route_defined :: "time_t \<Rightarrow> mroute_helper \<Rightarrow> instances \<Rightarrow> multi_route \<Rightarrow> bool option" where
  "multi_route_defined now mh ins r =
     (case ins (rt_instance r) of
        None \<Rightarrow> None
      | Some mi \<Rightarrow>
          Some (if in_halt mi then False
                else if rt_flags r AND MULTI_ROUTE_CACHE \<noteq> 0 \<and> rt_cache_generation r \<noteq> mh_cache_generation mh then False
                else if rt_flags r AND MULTI_ROUTE_AGEABLE \<noteq> 0 \<and> rt_last_reference r + mh_ageable_ttl_secs mh < now
                then False else True))"

subsection \<open>Learning\<close>

text \<open>The owner of the route that was found.\<close>

definition route_owner ::
    "time_t \<Rightarrow> multi_context \<Rightarrow> (mroute_addr, multi_route) hash_element option \<Rightarrow> nat option option" where
  "route_owner now m he =
     (case he of
        None \<Rightarrow> Some None
      | Some e \<Rightarrow> map_option (\<lambda>d. if d then Some (rt_instance (he_value e)) else None)
                    (multi_route_defined now (mc_route_helper m) (mc_instances m) (he_value e)))"

text \<open>Replacing the route of the element a lookup found, which is the first of its chain then.\<close>

definition replace_first ::
    "(mroute_addr, multi_route) hash \<Rightarrow> nat \<Rightarrow> (mroute_addr, multi_route) hash_element \<Rightarrow> multi_route
       \<Rightarrow> (mroute_addr, multi_route) hash" where
  "replace_first h i he r =
     set_bucket h i (he\<lparr>he_key := Some (rt_addr r), he_value := r\<rparr> # tl (h_buckets h ! i))"

text \<open>The route that is to be learned.\<close>

definition new_route :: "time_t \<Rightarrow> multi_context \<Rightarrow> nat \<Rightarrow> mroute_addr \<Rightarrow> u32 \<Rightarrow> multi_route" where
  "new_route now m mi addr flags =
     \<lparr>rt_addr = addr, rt_instance = mi, rt_flags = flags,
      rt_cache_generation = (if flags AND MULTI_ROUTE_CACHE \<noteq> 0 then mh_cache_generation (mc_route_helper m) else 0),
      rt_last_reference = now\<rparr>"

definition multi_learn_addr ::
    "(mroute_addr \<Rightarrow> bool) \<Rightarrow> time_t \<Rightarrow> nat \<Rightarrow> mroute_addr \<Rightarrow> u32 \<Rightarrow> multi_context
       \<Rightarrow> (nat option \<times> multi_context) option" where
  "multi_learn_addr script now mi addr flags m =
     (let hv = hash_value (mc_vhash m) addr; i = hash_bucket_index (mc_vhash m) hv
      in case hash_lookup_fast (mc_vhash m) i addr hv of
           None \<Rightarrow> None
         | Some (he, h1) \<Rightarrow>
             (case route_owner now m he of
                None \<Rightarrow> None
              | Some owner \<Rightarrow>
                  if owner \<noteq> Some mi \<and> mroute_learnable_address addr \<and> \<not> mroute_addr_equal addr (mc_local m)
                  then (let r = new_route now m mi addr flags
                        in case mc_instances m mi of
                             None \<Rightarrow> None
                           | Some inst \<Rightarrow>
                               if route_quota_test inst \<and> script addr
                               then (let ins1 = (mc_instances m)(mi \<mapsto> route_quota_inc (multi_instance_inc_refcount inst))
                                     in case he of
                                          Some e \<Rightarrow>
                                            (case multi_route_del (he_value e) ins1 of
                                               None \<Rightarrow> None
                                             | Some ins2 \<Rightarrow>
                                                 Some (Some mi, m\<lparr>mc_vhash := replace_first h1 i e r, mc_instances := ins2\<rparr>))
                                        | None \<Rightarrow>
                                            Some (Some mi, m\<lparr>mc_vhash := hash_add_fast h1 i addr hv r, mc_instances := ins1\<rparr>))
                               else Some (owner, m\<lparr>mc_vhash := h1\<rparr>))
                  else Some (owner, m\<lparr>mc_vhash := h1\<rparr>)))"

definition with_netbits :: "int \<Rightarrow> mroute_addr \<Rightarrow> mroute_addr" where
  "with_netbits netbits addr = addr\<lparr>ma_type := ma_type addr OR MR_WITH_NETBITS, ma_netbits := word_of_int netbits\<rparr>"

definition multi_learn_in_addr_t ::
    "(mroute_addr \<Rightarrow> bool) \<Rightarrow> time_t \<Rightarrow> nat \<Rightarrow> u32 \<Rightarrow> int \<Rightarrow> multi_context \<Rightarrow> (nat option \<times> multi_context) option" where
  "multi_learn_in_addr_t script now mi a netbits m =
     (case mroute_extract_openvpn_sockaddr mroute_addr_init (Sin (be32 a) [0, 0]) False of
        (ok, addr) \<Rightarrow> if ok then multi_learn_addr script now mi (if netbits \<ge> 0 then with_netbits netbits addr else addr) 0 m
                      else None)"

definition multi_learn_in6_addr ::
    "(mroute_addr \<Rightarrow> bool) \<Rightarrow> time_t \<Rightarrow> nat \<Rightarrow> byte list \<Rightarrow> int \<Rightarrow> multi_context \<Rightarrow> (nat option \<times> multi_context) option" where
  "multi_learn_in6_addr script now mi a6 netbits m =
     (let addr = put_addr MR_ADDR_IPV6 16 a6 mroute_addr_init
      in case (if netbits \<ge> 0 then mroute_addr_mask_host_bits (with_netbits netbits addr) else Some addr) of
           None \<Rightarrow> None
         | Some addr1 \<Rightarrow> multi_learn_addr script now mi addr1 0 m)"

subsection \<open>Lookup\<close>

text \<open>Writing the time of the last reference into the route a lookup found.\<close>

definition touch_route :: "time_t \<Rightarrow> mroute_addr \<Rightarrow> multi_route \<Rightarrow> (mroute_addr, multi_route) hash
    \<Rightarrow> (mroute_addr, multi_route) hash option" where
  "touch_route now addr r h = map_option snd (hash_add h addr (r\<lparr>rt_last_reference := now\<rparr>) True)"

text \<open>The loop over the prefix lengths: the instance of the first route that applies.\<close>

fun cidr_loop ::
    "time_t \<Rightarrow> mroute_addr \<Rightarrow> nat list \<Rightarrow> multi_context \<Rightarrow> (nat option \<times> multi_context) option" where
  "cidr_loop now addr [] m = Some (None, m)"
| "cidr_loop now addr (n # ns) m =
     (case mroute_addr_mask_host_bits (with_netbits (int n) addr) of
        None \<Rightarrow> None
      | Some tryaddr \<Rightarrow>
          (case hash_lookup (mc_vhash m) tryaddr of
             None \<Rightarrow> None
           | Some (None, h1) \<Rightarrow> cidr_loop now addr ns (m\<lparr>mc_vhash := h1\<rparr>)
           | Some (Some r, h1) \<Rightarrow>
               (case multi_route_defined now (mc_route_helper m) (mc_instances m) r of
                  None \<Rightarrow> None
                | Some True \<Rightarrow> Some (Some (rt_instance r), m\<lparr>mc_vhash := h1\<rparr>)
                | Some False \<Rightarrow> cidr_loop now addr ns (m\<lparr>mc_vhash := h1\<rparr>))))"

definition cidr_lookup ::
    "(mroute_addr \<Rightarrow> bool) \<Rightarrow> time_t \<Rightarrow> mroute_addr \<Rightarrow> bool \<Rightarrow> multi_context \<Rightarrow> (nat option \<times> multi_context) option" where
  "cidr_lookup script now addr cidr_routing m =
     (if cidr_routing
      then (case cidr_loop now addr (net_lens (mc_route_helper m)) m of
              None \<Rightarrow> None
            | Some (None, m1) \<Rightarrow> Some (None, m1)
            | Some (Some mi, m1) \<Rightarrow>
                map_option (\<lambda>(owner, m2). (Some mi, m2))
                  (multi_learn_addr script now mi addr (MULTI_ROUTE_CACHE OR MULTI_ROUTE_AGEABLE) m1))
      else Some (None, m))"

text \<open>The last assertion: what is returned is not a client that is gone.\<close>

definition not_halted :: "(nat option \<times> multi_context) \<Rightarrow> (nat option \<times> multi_context) option" where
  "not_halted = (\<lambda>(ret, m). case ret of
      None \<Rightarrow> Some (None, m)
    | Some mi \<Rightarrow> (case mc_instances m mi of
                    None \<Rightarrow> None | Some inst \<Rightarrow> if in_halt inst then None else Some (ret, m)))"

definition multi_get_instance_by_virtual_addr ::
    "(mroute_addr \<Rightarrow> bool) \<Rightarrow> time_t \<Rightarrow> mroute_addr \<Rightarrow> bool \<Rightarrow> multi_context \<Rightarrow> (nat option \<times> multi_context) option" where
  "multi_get_instance_by_virtual_addr script now addr cidr_routing m =
     (if mroute_addr_equal addr (mc_local m) then Some (None, m)
      else case hash_lookup (mc_vhash m) addr of
             None \<Rightarrow> None
           | Some (route, h1) \<Rightarrow>
               (let m1 = m\<lparr>mc_vhash := h1\<rparr>
                in case route of
                     None \<Rightarrow> Option.bind (cidr_lookup script now addr cidr_routing m1) not_halted
                   | Some r \<Rightarrow>
                       (case multi_route_defined now (mc_route_helper m) (mc_instances m) r of
                          None \<Rightarrow> None
                        | Some True \<Rightarrow>
                            (case touch_route now addr r h1 of
                               None \<Rightarrow> None
                             | Some h2 \<Rightarrow> not_halted (Some (rt_instance r), m\<lparr>mc_vhash := h2\<rparr>))
                        | Some False \<Rightarrow> Option.bind (cidr_lookup script now addr cidr_routing m1) not_halted)))"

subsection \<open>Clients that come and go\<close>

text \<open>An instance as \<open>multi_create_instance\<close> leaves it, with its first reference.\<close>

definition multi_create_instance ::
    "nat \<Rightarrow> int \<Rightarrow> (u32 \<times> int) list \<Rightarrow> (byte list \<times> int) list \<Rightarrow> multi_context \<Rightarrow> multi_context" where
  "multi_create_instance mi max_routes iroutes iroutes6 m =
     m\<lparr>mc_instances := (mc_instances m)(mi \<mapsto>
        multi_instance_inc_refcount \<lparr>in_refcount = 0, in_route_count = 0, in_halt = False, in_did_iroutes = False,
          in_max_routes_per_client = max_routes, in_iroutes = iroutes, in_iroutes_ipv6 = iroutes6\<rparr>)\<rparr>"

definition set_helper :: "mroute_helper \<Rightarrow> multi_context \<Rightarrow> multi_context" where
  "set_helper mh m = m\<lparr>mc_route_helper := mh\<rparr>"

fun add_iroutes_loop ::
    "(mroute_addr \<Rightarrow> bool) \<Rightarrow> time_t \<Rightarrow> nat \<Rightarrow> (u32 \<times> int) list \<Rightarrow> multi_context \<Rightarrow> multi_context option" where
  "add_iroutes_loop script now mi [] m = Some m"
| "add_iroutes_loop script now mi ((network, netbits) # irs) m =
     (case mroute_helper_add_iroute46 (mc_route_helper m) netbits of
        None \<Rightarrow> None
      | Some mh \<Rightarrow>
          (case multi_learn_in_addr_t script now mi network netbits (set_helper mh m) of
             None \<Rightarrow> None
           | Some (_, m1) \<Rightarrow> add_iroutes_loop script now mi irs m1))"

fun add_iroutes6_loop ::
    "(mroute_addr \<Rightarrow> bool) \<Rightarrow> time_t \<Rightarrow> nat \<Rightarrow> (byte list \<times> int) list \<Rightarrow> multi_context \<Rightarrow> multi_context option" where
  "add_iroutes6_loop script now mi [] m = Some m"
| "add_iroutes6_loop script now mi ((network, netbits) # irs) m =
     (case mroute_helper_add_iroute46 (mc_route_helper m) netbits of
        None \<Rightarrow> None
      | Some mh \<Rightarrow>
          (case multi_learn_in6_addr script now mi network netbits (set_helper mh m) of
             None \<Rightarrow> None
           | Some (_, m1) \<Rightarrow> add_iroutes6_loop script now mi irs m1))"

definition multi_add_iroutes :: "(mroute_addr \<Rightarrow> bool) \<Rightarrow> time_t \<Rightarrow> nat \<Rightarrow> multi_context \<Rightarrow> multi_context option" where
  "multi_add_iroutes script now mi m =
     (case mc_instances m mi of
        None \<Rightarrow> None
      | Some inst \<Rightarrow>
          if mc_dev_tun m
          then Option.bind
                 (add_iroutes_loop script now mi (in_iroutes inst)
                    (m\<lparr>mc_instances := (mc_instances m)(mi \<mapsto> inst\<lparr>in_did_iroutes := True\<rparr>)\<rparr>))
                 (add_iroutes6_loop script now mi (in_iroutes_ipv6 inst))
          else Some m)"

fun del_iroutes_loop :: "int list \<Rightarrow> mroute_helper \<Rightarrow> mroute_helper option" where
  "del_iroutes_loop [] mh = Some mh"
| "del_iroutes_loop (n # ns) mh = Option.bind (mroute_helper_del_iroute46 mh n) (del_iroutes_loop ns)"

definition multi_del_iroutes :: "multi_instance \<Rightarrow> multi_context \<Rightarrow> multi_context option" where
  "multi_del_iroutes inst m =
     (if mc_dev_tun m
      then map_option (\<lambda>mh. set_helper mh m)
             (del_iroutes_loop (map snd (in_iroutes inst) @ map snd (in_iroutes_ipv6 inst)) (mc_route_helper m))
      else Some m)"

text \<open>What \<open>multi_close_instance\<close> does to the routes.\<close>

definition close_instance_routes :: "nat \<Rightarrow> multi_context \<Rightarrow> multi_context option" where
  "close_instance_routes mi m =
     (case mc_instances m mi of
        None \<Rightarrow> None
      | Some inst \<Rightarrow>
          if in_halt inst then None
          else (let halted = inst\<lparr>in_halt := True\<rparr>
                in case (if in_did_iroutes inst
                         then multi_del_iroutes halted m else Some m) of
                     None \<Rightarrow> None
                   | Some m1 \<Rightarrow>
                       map_option (\<lambda>ins. m1\<lparr>mc_instances := ins\<rparr>)
                         (multi_instance_dec_refcount mi ((mc_instances m1)(mi \<mapsto> halted\<lparr>in_did_iroutes := False\<rparr>)))))"

subsection \<open>The reaper\<close>

text \<open>
  A run over the elements of a chain that deletes those for which the test says so; the iterator
  takes the deleted elements out when it leaves the chain.
\<close>

fun reap_chain ::
    "(instances \<Rightarrow> multi_route \<Rightarrow> bool option) \<Rightarrow> (mroute_addr, multi_route) hash_bucket \<Rightarrow> instances
       \<Rightarrow> ((mroute_addr, multi_route) hash_bucket \<times> instances) option" where
  "reap_chain gone [] ins = Some ([], ins)"
| "reap_chain gone (he # l) ins =
     (case gone ins (he_value he) of
        None \<Rightarrow> None
      | Some True \<Rightarrow> (case multi_route_del (he_value he) ins of
                        None \<Rightarrow> None | Some ins1 \<Rightarrow> reap_chain gone l ins1)
      | Some False \<Rightarrow> map_option (\<lambda>(l1, ins1). (he # l1, ins1)) (reap_chain gone l ins))"

fun reap_buckets ::
    "(instances \<Rightarrow> multi_route \<Rightarrow> bool option) \<Rightarrow> nat list \<Rightarrow> multi_context \<Rightarrow> multi_context option" where
  "reap_buckets gone [] m = Some m"
| "reap_buckets gone (i # is) m =
     (let h = mc_vhash m; l = h_buckets h ! i
      in case reap_chain gone l (mc_instances m) of
           None \<Rightarrow> None
         | Some (l1, ins) \<Rightarrow>
             reap_buckets gone is
               (m\<lparr>mc_vhash := (set_bucket h i l1)\<lparr>h_n_elements := h_n_elements h - int (length l - length l1)\<rparr>,
                  mc_instances := ins\<rparr>))"

definition not_defined :: "time_t \<Rightarrow> mroute_helper \<Rightarrow> instances \<Rightarrow> multi_route \<Rightarrow> bool option" where
  "not_defined now mh ins r = map_option Not (multi_route_defined now mh ins r)"

definition stale :: "time_t \<Rightarrow> int \<Rightarrow> mroute_helper \<Rightarrow> instances \<Rightarrow> multi_route \<Rightarrow> bool option" where
  "stale now ageing_time mh ins r =
     map_option (\<lambda>d. d \<and> now - rt_last_reference r \<ge> ageing_time) (multi_route_defined now mh ins r)"

definition reap_between ::
    "(instances \<Rightarrow> multi_route \<Rightarrow> bool option) \<Rightarrow> int \<Rightarrow> int \<Rightarrow> multi_context \<Rightarrow> multi_context option" where
  "reap_between gone start_bucket end_bucket m =
     (case hash_iterator_init_range (mc_vhash m) start_bucket end_bucket of
        None \<Rightarrow> None
      | Some hi \<Rightarrow> reap_buckets gone [nat (hi_bucket_index_start hi)..<nat (hi_bucket_index_end hi)] m)"

definition multi_reap_range :: "time_t \<Rightarrow> int \<Rightarrow> int \<Rightarrow> multi_context \<Rightarrow> multi_context option" where
  "multi_reap_range now start_bucket end_bucket m =
     (let (s, e) = (if start_bucket < 0 then (0, h_n_buckets (mc_vhash m)) else (start_bucket, end_bucket))
      in reap_between (not_defined now (mc_route_helper m)) s e m)"

definition multi_reap_all :: "time_t \<Rightarrow> multi_context \<Rightarrow> multi_context option" where
  "multi_reap_all now = multi_reap_range now (-1) 0"

record multi_reap =
  mr_bucket_base :: int
  mr_buckets_per_pass :: int
  mr_last_call :: time_t

definition multi_reap_new :: "time_t \<Rightarrow> int \<Rightarrow> multi_reap" where
  "multi_reap_new now buckets_per_pass =
     \<lparr>mr_bucket_base = 0, mr_buckets_per_pass = buckets_per_pass, mr_last_call = now\<rparr>"

definition multi_reap_process_dowork ::
    "time_t \<Rightarrow> multi_reap \<Rightarrow> multi_context \<Rightarrow> (multi_reap \<times> multi_context) option" where
  "multi_reap_process_dowork now mr m =
     (let base = (if mr_bucket_base mr \<ge> h_n_buckets (mc_vhash m) then 0 else mr_bucket_base mr)
      in map_option (\<lambda>m1. (mr\<lparr>mr_bucket_base := base + mr_buckets_per_pass mr, mr_last_call := now\<rparr>, m1))
           (multi_reap_range now base (base + mr_buckets_per_pass mr) m))"

definition check_stale_routes :: "time_t \<Rightarrow> int \<Rightarrow> multi_context \<Rightarrow> multi_context option" where
  "check_stale_routes now ageing_time m =
     reap_between (stale now ageing_time (mc_route_helper m)) 0 (h_n_buckets (mc_vhash m)) m"

subsection \<open>References to instances\<close>

definition chain_refs :: "nat \<Rightarrow> (mroute_addr, multi_route) hash_bucket \<Rightarrow> int" where
  "chain_refs j l = int (length (filter (\<lambda>he. rt_instance (he_value he) = j) l))"

definition refs_to :: "(mroute_addr, multi_route) hash \<Rightarrow> nat \<Rightarrow> int" where
  "refs_to h j = sum_list (map (chain_refs j) (h_buckets h))"

text \<open>
  An instance counts its routes, and its references are its routes and one more while it is connected.
\<close>

definition inst_ok :: "multi_instance \<Rightarrow> int \<Rightarrow> bool" where
  "inst_ok mi n = (in_route_count mi = n \<and> in_refcount mi = n + (if in_halt mi then 0 else 1) \<and> 0 < in_refcount mi)"

definition counts_ok :: "instances \<Rightarrow> (nat \<Rightarrow> int) \<Rightarrow> bool" where
  "counts_ok ins c = (\<forall>j. 0 \<le> c j \<and> (case ins j of None \<Rightarrow> c j = 0 | Some mi \<Rightarrow> inst_ok mi (c j)))"

text \<open>What matters of a connected instance besides its counts.\<close>

definition core :: "multi_instance \<Rightarrow> multi_instance" where
  "core mi = mi\<lparr>in_refcount := 0, in_route_count := 0\<rparr>"

definition live :: "instances \<Rightarrow> nat \<Rightarrow> multi_instance option" where
  "live ins j = (case ins j of None \<Rightarrow> None | Some mi \<Rightarrow> if in_halt mi then None else Some (core mi))"

lemma chain_refs_simps [simp]:
  "chain_refs j [] = 0" "chain_refs j (he # l) = (if rt_instance (he_value he) = j then 1 else 0) + chain_refs j l"
  "chain_refs j (l @ l') = chain_refs j l + chain_refs j l'" "0 \<le> chain_refs j l"
  by (simp_all add: chain_refs_def)

lemma chain_refs_pos: "he \<in> set l \<Longrightarrow> rt_instance (he_value he) = j \<Longrightarrow> 0 < chain_refs j l"
  by (auto simp: chain_refs_def filter_empty_conv)

lemma sum_list_int_update: "i < length xs \<Longrightarrow> sum_list (xs[i := x]) = sum_list xs - xs ! i + (x :: int)"
  by (induction xs arbitrary: i) (auto split: nat.splits)

lemma refs_to_set_bucket:
  assumes "i < length (h_buckets h)"
  shows "refs_to (set_bucket h i l) j = refs_to h j - chain_refs j (h_buckets h ! i) + chain_refs j l"
  using assms by (simp add: refs_to_def set_bucket_def map_update sum_list_int_update)

lemma refs_to_counter [simp]: "refs_to (h\<lparr>h_n_elements := n\<rparr>) = refs_to h"
  by (simp add: refs_to_def fun_eq_iff)

lemma refs_to_nonneg: "0 \<le> refs_to h j"
  unfolding refs_to_def by (rule sum_list_nonneg) auto

lemma refs_to_pos:
  assumes "i < length (h_buckets h)" "he \<in> set (h_buckets h ! i)" "rt_instance (he_value he) = j"
  shows "0 < refs_to h j"
proof -
  have "chain_refs j (h_buckets h ! i) \<le> sum_list (map (chain_refs j) (h_buckets h))"
    by (rule member_le_sum_list) (use assms(1) in auto)
  then show ?thesis using chain_refs_pos [OF assms(2,3)] by (simp add: refs_to_def)
qed

lemma hash_map_refs:
  assumes ok: "hash_ok mroute_addr_hash_function mroute_addr_equal h" and m: "hash_map h key = Some r"
  shows "0 < refs_to h (rt_instance r)"
proof -
  obtain he where "find (key_is (h_compare_function h) key) (h_buckets h ! hash_bucket_index h (hash_value h key)) = Some he"
    "he_value he = r" using m by (auto simp: hash_map_def chain_map_def)
  then have "he \<in> set (h_buckets h ! hash_bucket_index h (hash_value h key))" "he_value he = r"
    by (auto simp: find_Some_iff)
  then show ?thesis using bucket_index_bound [OF ok] by (intro refs_to_pos) auto
qed

lemma seek_split:
  "hash_seek cmp key hv prev l = Some (Some (p, he, r)) \<Longrightarrow> prev @ l = p @ he # r"
  by (induction l arbitrary: prev) (fastforce split: if_splits option.splits)+

lemma lookup_fast_refs:
  assumes "hash_lookup_fast h i key hv = Some (he, h1)" "i < length (h_buckets h)"
  shows "refs_to h1 = refs_to h" "h_iv h1 = h_iv h" "length (h_buckets h1) = length (h_buckets h)"
    "he = Some e \<Longrightarrow> \<exists>l. h_buckets h1 ! i = e # l" "hash_bucket_index h1 = hash_bucket_index h"
    "h_hash_function h1 = h_hash_function h"
proof -
  have "refs_to h1 j = refs_to h j" for j
    using assms refs_to_set_bucket [OF assms(2)]
    by (auto simp: hash_lookup_fast_def split: option.splits dest: seek_split)
  then show "refs_to h1 = refs_to h" by blast
  show "h_iv h1 = h_iv h" "length (h_buckets h1) = length (h_buckets h)"
    "he = Some e \<Longrightarrow> \<exists>l. h_buckets h1 ! i = e # l" "hash_bucket_index h1 = hash_bucket_index h"
    "h_hash_function h1 = h_hash_function h"
    using assms by (auto simp: hash_lookup_fast_def set_bucket_def fun_eq_iff hash_bucket_index_def split: option.splits)
qed

lemma counts_okD:
  assumes "counts_ok ins c"
  shows "0 \<le> c j" "ins j = None \<Longrightarrow> c j = 0" "ins j = Some mi \<Longrightarrow> inst_ok mi (c j)"
proof -
  have "0 \<le> c j \<and> (case ins j of None \<Rightarrow> c j = 0 | Some mi \<Rightarrow> inst_ok mi (c j))"
    using assms unfolding counts_ok_def by blast
  then show "0 \<le> c j" "ins j = None \<Longrightarrow> c j = 0" "ins j = Some mi \<Longrightarrow> inst_ok mi (c j)" by simp_all
qed

lemma counts_okI:
  assumes "\<And>j. 0 \<le> c j" "\<And>j. ins j = None \<Longrightarrow> c j = 0" "\<And>j mi. ins j = Some mi \<Longrightarrow> inst_ok mi (c j)"
  shows "counts_ok ins c"
  using assms by (simp add: counts_ok_def split: option.split)

lemma counts_upd:
  assumes "counts_ok ins c"
  shows "0 \<le> n \<Longrightarrow> inst_ok mi n \<Longrightarrow> counts_ok (ins(i \<mapsto> mi)) (c(i := n))"
    "counts_ok (ins(i := None)) (c(i := 0))"
  using counts_okD [OF assms] by (auto intro!: counts_okI split: if_splits)

lemma counts_inc:
  assumes ok: "counts_ok ins c" and i: "ins i = Some mi"
  shows "counts_ok (ins(i \<mapsto> route_quota_inc (multi_instance_inc_refcount mi))) (c(i := c i + 1))"
    "live (ins(i \<mapsto> route_quota_inc (multi_instance_inc_refcount mi))) = live ins"
proof -
  have "inst_ok (route_quota_inc (multi_instance_inc_refcount mi)) (c i + 1)"
    using counts_okD(3) [OF ok i] by (simp add: inst_ok_def route_quota_inc_def multi_instance_inc_refcount_def)
  then show "counts_ok (ins(i \<mapsto> route_quota_inc (multi_instance_inc_refcount mi))) (c(i := c i + 1))"
    using counts_okD(1) [OF ok, of i] by (intro counts_upd(1) [OF ok]) auto
  show "live (ins(i \<mapsto> route_quota_inc (multi_instance_inc_refcount mi))) = live ins"
    using i by (simp add: fun_eq_iff live_def core_def route_quota_inc_def multi_instance_inc_refcount_def)
qed

lemma counts_del:
  assumes ok: "counts_ok ins c" and c: "0 < c (rt_instance r)"
  shows "\<exists>ins1. multi_route_del r ins = Some ins1 \<and> counts_ok ins1 (c(rt_instance r := c (rt_instance r) - 1))
           \<and> live ins1 = live ins \<and> dom ins1 \<subseteq> dom ins"
proof -
  let ?i = "rt_instance r"
  obtain mi where mi: "ins ?i = Some mi" using counts_okD(2) [OF ok, of ?i] c by (cases "ins ?i") auto
  note n = counts_okD(3) [OF ok mi]
  define mi1 where "mi1 = mi\<lparr>in_route_count := in_route_count mi - 1, in_refcount := in_refcount mi - 1\<rparr>"
  have del: "multi_route_del r ins = Some (if in_refcount mi - 1 \<le> 0 then ins(?i := None) else ins(?i \<mapsto> mi1))"
    using mi by (simp add: multi_route_del_def multi_instance_dec_refcount_def route_quota_dec_def mi1_def)
  show ?thesis
  proof (cases "in_refcount mi - 1 \<le> 0")
    case True
    then have "in_halt mi" "c ?i - 1 = 0" using n c by (auto simp: inst_ok_def split: if_splits)
    moreover from this(2) have "counts_ok (ins(?i := None)) (c(?i := c ?i - 1))" using counts_upd(2) [OF ok, of ?i] by (simp only:)
    moreover have "live (ins(?i := None)) = live ins" using mi \<open>in_halt mi\<close> by (simp add: fun_eq_iff live_def)
    ultimately show ?thesis using del True by auto
  next
    case False
    have "inst_ok mi1 (c ?i - 1)" using n False by (simp add: inst_ok_def mi1_def split: if_splits)
    then have "counts_ok (ins(?i \<mapsto> mi1)) (c(?i := c ?i - 1))" using c by (intro counts_upd(1) [OF ok]) auto
    moreover have "live (ins(?i \<mapsto> mi1)) = live ins" using mi by (simp add: fun_eq_iff live_def core_def mi1_def)
    ultimately show ?thesis using del False mi by auto
  qed
qed

subsection \<open>Learning a route\<close>

abbreviation table_ok :: "(mroute_addr, multi_route) hash \<Rightarrow> bool" where
  "table_ok \<equiv> hash_ok mroute_addr_hash_function mroute_addr_equal"

definition base_ok :: "multi_context \<Rightarrow> bool" where
  "base_ok m = (table_ok (mc_vhash m) \<and> counts_ok (mc_instances m) (refs_to (mc_vhash m)) \<and> finite (dom (mc_instances m)))"

text \<open>What the operations on routes leave alone.\<close>

definition same_but_routes :: "multi_context \<Rightarrow> multi_context \<Rightarrow> bool" where
  "same_but_routes m m1 = (live (mc_instances m1) = live (mc_instances m) \<and> mc_route_helper m1 = mc_route_helper m
     \<and> mc_local m1 = mc_local m \<and> mc_dev_tun m1 = mc_dev_tun m)"

lemma same_but_routes_refl [simp]: "same_but_routes m m"
  by (simp add: same_but_routes_def)

lemma same_but_routes_trans: "same_but_routes a b \<Longrightarrow> same_but_routes b c \<Longrightarrow> same_but_routes a c"
  by (simp add: same_but_routes_def)

abbreviation routes :: "multi_context \<Rightarrow> mroute_addr \<Rightarrow> multi_route option" where
  "routes m \<equiv> hash_map (mc_vhash m)"

lemma base_refs_defined:
  assumes "base_ok m" "0 < refs_to (mc_vhash m) (rt_instance r)"
  shows "\<exists>d. multi_route_defined now mh (mc_instances m) r = Some d"
proof -
  have "mc_instances m (rt_instance r) \<noteq> None"
    using assms counts_okD(2) [of "mc_instances m" "refs_to (mc_vhash m)" "rt_instance r"] by (auto simp: base_ok_def)
  then show ?thesis by (auto simp: multi_route_defined_def)
qed

lemma replace_first_ok:
  assumes ok: "table_ok h" and l: "h_buckets h ! i = he # l" and k: "key_is mroute_addr_equal (rt_addr r) he"
    and i: "i = hash_bucket_index h (mroute_addr_hash_function (rt_addr r) (h_iv h))"
  shows "table_ok (replace_first h i he r)" "hash_map (replace_first h i he r) = map_put mroute_addr_equal (hash_map h) (rt_addr r) (Some r)"
    "refs_to (replace_first h i he r) j = refs_to h j - (if rt_instance (he_value he) = j then 1 else 0) + (if rt_instance r = j then 1 else 0)"
proof -
  have b: "i < length (h_buckets h)" using bucket_index_bound [OF ok] i by simp
  have c: "chain_ok mroute_addr_hash_function mroute_addr_equal (h_iv h) (h_mask h) i (he # l)"
    using mroute_keys.chain_at [OF ok, of "mroute_addr_hash_function (rt_addr r) (h_iv h)"] l i by simp
  let ?e = "he\<lparr>he_key := Some (rt_addr r), he_value := r\<rparr>"
  obtain k0 where k0: "he_key he = Some k0" "mroute_addr_equal (rt_addr r) k0"
    using k by (auto simp: key_is_def split: option.splits)
  have sym: "mroute_addr_equal a b = mroute_addr_equal b a" for a b using mroute_keys.cmp_sym by blast
  have tr: "mroute_addr_equal x k0 = mroute_addr_equal x (rt_addr r)" for x
    using k0(2) mroute_keys.cmp_trans sym by blast
  have key: "key_is mroute_addr_equal x ?e = key_is mroute_addr_equal x he" for x
    using k0(1) tr by (simp add: key_is_def)
  have ap: "apart mroute_addr_equal ?e y = apart mroute_addr_equal he y" for y
    using k0 tr sym by (auto simp: apart_def key_is_def split: option.splits)
  have hv: "mroute_addr_hash_function (rt_addr r) iv = mroute_addr_hash_function k0 iv" for iv
    by (rule mroute_keys.cmp_hash [OF k0(2)])
  have c1: "chain_ok mroute_addr_hash_function mroute_addr_equal (h_iv h) (h_mask h) i (?e # l)"
    using c k0(1) by (auto simp: chain_ok_def ap hv)
  have m1: "chain_map mroute_addr_equal (?e # l) x =
      (if mroute_addr_equal (rt_addr r) x then Some r else chain_map mroute_addr_equal (h_buckets h ! i) x)" for x
    using k0(1) tr sym by (auto simp: chain_map_def key_is_def l)
  have eq: "replace_first h i he r = (set_bucket h i (?e # l))\<lparr>h_n_elements := h_n_elements h\<rparr>"
    by (simp add: replace_first_def l set_bucket_def)
  show "table_ok (replace_first h i he r)" "hash_map (replace_first h i he r) = map_put mroute_addr_equal (hash_map h) (rt_addr r) (Some r)"
    unfolding eq by (rule mroute_keys.set_bucket_ok [OF ok i c1 m1]; simp add: l)+
  show "refs_to (replace_first h i he r) j = refs_to h j - (if rt_instance (he_value he) = j then 1 else 0) + (if rt_instance r = j then 1 else 0)"
    unfolding eq refs_to_counter refs_to_set_bucket [OF b] l by simp
qed

lemma add_fast_ok:
  fixes r :: multi_route
  assumes ok: "table_ok h" and f: "find (key_is mroute_addr_equal addr) (h_buckets h ! i) = None"
    and i: "i = hash_bucket_index h (mroute_addr_hash_function addr (h_iv h))"
  defines "h1 \<equiv> hash_add_fast h i addr (mroute_addr_hash_function addr (h_iv h)) r"
  shows "table_ok h1" "hash_map h1 = map_put mroute_addr_equal (hash_map h) addr (Some r)"
    "refs_to h1 j = refs_to h j + (if rt_instance r = j then 1 else 0)"
proof -
  have b: "i < length (h_buckets h)" using bucket_index_bound [OF ok] i by simp
  note c = mroute_keys.chain_at [OF ok, of "mroute_addr_hash_function addr (h_iv h)", folded i]
  have "unat (mroute_addr_hash_function addr (h_iv h) AND word_of_int (h_mask h)) = i" by (simp add: i hash_bucket_index_def)
  note a = mroute_keys.add_to_chain [OF c f this, of r]
  show "table_ok h1" "hash_map h1 = map_put mroute_addr_equal (hash_map h) addr (Some r)"
    unfolding h1_def hash_add_fast_def by (rule mroute_keys.set_bucket_ok [OF ok i a]; simp)+
  show "refs_to h1 j = refs_to h j + (if rt_instance r = j then 1 else 0)"
    unfolding h1_def hash_add_fast_def refs_to_counter refs_to_set_bucket [OF b] by simp
qed

text \<open>Learning either changes nothing of the routes or makes the new one that of the address.\<close>

lemma learn_spec:
  assumes ok: "base_ok m" and mi: "mc_instances m mi \<noteq> None"
  shows "\<exists>owner m1. multi_learn_addr script now mi addr flags m = Some (owner, m1) \<and> base_ok m1 \<and> same_but_routes m m1
           \<and> (routes m1 = routes m
              \<or> routes m1 = map_put mroute_addr_equal (routes m) addr (Some (new_route now m mi addr flags)))"
proof -
  let ?h = "mc_vhash m" and ?ins = "mc_instances m"
  have hok: "table_ok ?h" and cok: "counts_ok ?ins (refs_to ?h)" and fin: "finite (dom ?ins)"
    using ok by (simp_all add: base_ok_def)
  have hf: "h_hash_function ?h = mroute_addr_hash_function" using hok by (simp add: hash_ok_def)
  define hv where "hv = mroute_addr_hash_function addr (h_iv ?h)"
  define i where "i = hash_bucket_index ?h hv"
  have hvv: "hash_value ?h addr = hv" by (simp add: hash_value_def hf hv_def)
  obtain inst where inst: "?ins mi = Some inst" using mi by auto
  let ?r = "new_route now m mi addr flags"
  let ?ins1 = "?ins(mi \<mapsto> route_quota_inc (multi_instance_inc_refcount inst))"
  note inc = counts_inc [OF cok inst]
  have fin1: "finite (dom ?ins1)" using fin by simp
  show ?thesis
  proof (rule mroute_keys.lookup_fast_cases [OF hok i_def [unfolded hv_def]])
    assume a: "hash_lookup_fast ?h i addr (mroute_addr_hash_function addr (h_iv ?h)) = Some (None, ?h)" "hash_map ?h addr = None"
      "find (key_is mroute_addr_equal addr) (h_buckets ?h ! i) = None"
    note add = add_fast_ok [OF hok a(3) i_def [unfolded hv_def], folded hv_def]
    let ?m1 = "m\<lparr>mc_vhash := hash_add_fast ?h i addr hv ?r, mc_instances := ?ins1\<rparr>"
    have "refs_to (hash_add_fast ?h i addr hv ?r) = (refs_to ?h)(mi := refs_to ?h mi + 1)"
      using add(3) by (simp add: fun_eq_iff new_route_def)
    then have "base_ok ?m1" using add(1) inc(1) fin1 by (simp add: base_ok_def)
    moreover have "same_but_routes m ?m1" using inc(2) by (simp add: same_but_routes_def)
    moreover have "routes ?m1 = map_put mroute_addr_equal (routes m) addr (Some ?r)" using add(2) by simp
    moreover have "multi_learn_addr script now mi addr flags m =
       (if mroute_learnable_address addr \<and> \<not> mroute_addr_equal addr (mc_local m) \<and> route_quota_test inst \<and> script addr
        then Some (Some mi, ?m1) else Some (None, m))"
      using inst by (simp add: multi_learn_addr_def Let_def hvv a(1) [folded hv_def] route_owner_def flip: i_def)
    ultimately show ?thesis using ok by (auto simp del: multi_context.simps)
  next
    fix he l h1
    assume a: "hash_lookup_fast ?h i addr (mroute_addr_hash_function addr (h_iv ?h)) = Some (Some he, h1)"
      "hash_map ?h addr = Some (he_value he)" "h1 = set_bucket ?h i (he # l)" "table_ok h1" "hash_map h1 = hash_map ?h"
      "key_is mroute_addr_equal addr he" "h_buckets h1 ! i = he # l"
    note lf = lookup_fast_refs [OF a(1)]
    have bi: "i < length (h_buckets ?h)" using bucket_index_bound [OF hok] by (simp add: i_def)
    have i1: "i = hash_bucket_index h1 (mroute_addr_hash_function (rt_addr ?r) (h_iv h1))"
      using lf(2,5) bi by (simp add: i_def hv_def new_route_def)
    have k1: "key_is mroute_addr_equal (rt_addr ?r) he" using a(6) by (simp add: new_route_def)
    note rep = replace_first_ok [OF a(4,7) k1 i1]
    have pos: "0 < refs_to ?h (rt_instance (he_value he))" by (rule hash_map_refs [OF hok a(2)])
    obtain d where d: "multi_route_defined now (mc_route_helper m) ?ins (he_value he) = Some d"
      using base_refs_defined [OF ok pos] by blast
    have pos1: "0 < ((refs_to ?h)(mi := refs_to ?h mi + 1)) (rt_instance (he_value he))"
      using pos refs_to_nonneg [of ?h mi] by simp
    obtain ins2 where del: "multi_route_del (he_value he) ?ins1 = Some ins2"
      "counts_ok ins2 (((refs_to ?h)(mi := refs_to ?h mi + 1))(rt_instance (he_value he) :=
          ((refs_to ?h)(mi := refs_to ?h mi + 1)) (rt_instance (he_value he)) - 1))"
      "live ins2 = live ?ins1" "dom ins2 \<subseteq> dom ?ins1"
      using counts_del [OF inc(1) pos1] by blast
    let ?m1 = "m\<lparr>mc_vhash := replace_first h1 i he ?r, mc_instances := ins2\<rparr>"
    have "refs_to (replace_first h1 i he ?r) = (((refs_to ?h)(mi := refs_to ?h mi + 1))(rt_instance (he_value he) :=
          ((refs_to ?h)(mi := refs_to ?h mi + 1)) (rt_instance (he_value he)) - 1))"
      using rep(3) lf(1) bi by (auto simp: fun_eq_iff new_route_def)
    then have b1: "base_ok ?m1" using rep(1) del fin1 by (simp add: base_ok_def finite_subset)
    have s1: "same_but_routes m ?m1" using inc(2) del(3) by (simp add: same_but_routes_def)
    have r1: "routes ?m1 = map_put mroute_addr_equal (routes m) addr (Some ?r)" using rep(2) a(5) by (simp add: new_route_def)
    have b2: "base_ok (m\<lparr>mc_vhash := h1\<rparr>)" using ok a(4) lf(1) bi by (simp add: base_ok_def)
    have s2: "same_but_routes m (m\<lparr>mc_vhash := h1\<rparr>)" by (simp add: same_but_routes_def)
    have r2: "routes (m\<lparr>mc_vhash := h1\<rparr>) = routes m" using a(5) by simp
    let ?owner = "if d then Some (rt_instance (he_value he)) else None"
    have own: "route_owner now m (Some he) = Some ?owner" by (simp add: route_owner_def d)
    have res: "multi_learn_addr script now mi addr flags m =
       (if ?owner \<noteq> Some mi \<and> mroute_learnable_address addr \<and> \<not> mroute_addr_equal addr (mc_local m)
           \<and> route_quota_test inst \<and> script addr
        then Some (Some mi, ?m1) else Some (?owner, m\<lparr>mc_vhash := h1\<rparr>))"
      using inst del(1) by (simp add: multi_learn_addr_def Let_def hvv a(1) [folded hv_def] own flip: i_def)
    show ?thesis unfolding res using b1 s1 r1 b2 s2 r2 by (auto simp del: multi_context.simps)
  qed
qed

subsection \<open>The reaper keeps the counts\<close>

lemma counts_kept_pos: "counts_ok ins c \<Longrightarrow> 0 < c j \<Longrightarrow> ins j \<noteq> None"
  using counts_okD(2) [of ins c j] by auto

text \<open>A test that gives an answer whenever the instance of the route is allocated.\<close>

definition tests :: "(instances \<Rightarrow> multi_route \<Rightarrow> bool option) \<Rightarrow> bool" where
  "tests gone = (\<forall>ins r. ins (rt_instance r) \<noteq> None \<longrightarrow> gone ins r \<noteq> None)"

lemma tests_not_defined [simp]: "tests (not_defined now mh)"
  by (auto simp: tests_def not_defined_def multi_route_defined_def)

lemma tests_stale [simp]: "tests (stale now t mh)"
  by (auto simp: tests_def stale_def multi_route_defined_def)

text \<open>
  A chain that is reaped loses elements, each with one reference; what stays is what the test let
  stay, with the instances as they were at that moment.
\<close>

lemma reap_chain_ok:
  assumes "tests gone" "counts_ok ins c" "\<And>j. chain_refs j l \<le> c j" "finite (dom ins)"
  shows "\<exists>l1 ins1. reap_chain gone l ins = Some (l1, ins1) \<and> counts_ok ins1 (\<lambda>j. c j - chain_refs j l + chain_refs j l1)
           \<and> live ins1 = live ins \<and> finite (dom ins1)
           \<and> (\<exists>keep. l1 = map fst (filter snd (zip l keep)) \<and> length keep = length l
                \<and> list_all2 (\<lambda>he k. \<not> k \<longrightarrow> (\<exists>ins0. live ins0 = live ins \<and> gone ins0 (he_value he) = Some True)) l keep)"
  using assms(2-4)
proof (induction l arbitrary: ins c)
  case Nil
  then show ?case by simp
next
  case (Cons he l)
  let ?j = "rt_instance (he_value he)"
  have "chain_refs ?j (he # l) = 1 + chain_refs ?j l" by simp
  then have pos: "0 < c ?j" using Cons.prems(2) [of ?j] chain_refs_simps(4) [of ?j l] by linarith
  obtain g where g: "gone ins (he_value he) = Some g"
    using assms(1) counts_kept_pos [OF Cons.prems(1) pos] unfolding tests_def by blast
  show ?case
  proof (cases g)
    case True
    obtain ins1 where d: "multi_route_del (he_value he) ins = Some ins1" "counts_ok ins1 (c(?j := c ?j - 1))"
      "live ins1 = live ins" "dom ins1 \<subseteq> dom ins" using counts_del [OF Cons.prems(1) pos] by blast
    have le: "chain_refs j l \<le> (c(?j := c ?j - 1)) j" for j using Cons.prems(2) [of j] by (cases "j = ?j") auto
    have fin1: "finite (dom ins1)" using d(4) Cons.prems(3) finite_subset by blast
    obtain l1 ins2 keep where r: "reap_chain gone l ins1 = Some (l1, ins2)"
      "counts_ok ins2 (\<lambda>j. (c(?j := c ?j - 1)) j - chain_refs j l + chain_refs j l1)"
      "live ins2 = live ins1" "finite (dom ins2)" "l1 = map fst (filter snd (zip l keep))" "length keep = length l"
      "list_all2 (\<lambda>he k. \<not> k \<longrightarrow> (\<exists>ins0. live ins0 = live ins1 \<and> gone ins0 (he_value he) = Some True)) l keep"
      using Cons.IH [OF d(2) le fin1] by blast
    have "(\<lambda>j. (c(?j := c ?j - 1)) j - chain_refs j l + chain_refs j l1)
        = (\<lambda>j. c j - chain_refs j (he # l) + chain_refs j l1)" by auto
    then have cnt: "counts_ok ins2 (\<lambda>j. c j - chain_refs j (he # l) + chain_refs j l1)" using r(2) by metis
    have "reap_chain gone (he # l) ins = Some (l1, ins2)" using g True d(1) r(1) by simp
    moreover have "l1 = map fst (filter snd (zip (he # l) (False # keep)))" using r(5) by simp
    moreover have "list_all2 (\<lambda>he k. \<not> k \<longrightarrow> (\<exists>ins0. live ins0 = live ins \<and> gone ins0 (he_value he) = Some True)) (he # l) (False # keep)"
      using r(7) d(3) g True by auto
    ultimately show ?thesis using cnt r(3,4,6) d(3)
      by (intro exI [of _ l1] exI [of _ ins2] conjI exI [of _ "False # keep"]) simp_all
  next
    case False
    have le: "chain_refs j l \<le> c j" for j using Cons.prems(2) [of j] by (cases "j = ?j") auto
    obtain l1 ins2 keep where r: "reap_chain gone l ins = Some (l1, ins2)"
      "counts_ok ins2 (\<lambda>j. c j - chain_refs j l + chain_refs j l1)"
      "live ins2 = live ins" "finite (dom ins2)" "l1 = map fst (filter snd (zip l keep))" "length keep = length l"
      "list_all2 (\<lambda>he k. \<not> k \<longrightarrow> (\<exists>ins0. live ins0 = live ins \<and> gone ins0 (he_value he) = Some True)) l keep"
      using Cons.IH [OF Cons.prems(1) le Cons.prems(3)] by blast
    have "reap_chain gone (he # l) ins = Some (he # l1, ins2)" using g False r(1) by simp
    moreover have "he # l1 = map fst (filter snd (zip (he # l) (True # keep)))" using r(5) by simp
    moreover have "list_all2 (\<lambda>he k. \<not> k \<longrightarrow> (\<exists>ins0. live ins0 = live ins \<and> gone ins0 (he_value he) = Some True)) (he # l) (True # keep)"
      using r(7) by simp
    ultimately show ?thesis using r(2,3,4,6)
      by (intro exI [of _ "he # l1"] exI [of _ ins2] conjI exI [of _ "True # keep"]) (simp_all add: algebra_simps)
  qed
qed

text \<open>Taking elements out of a chain takes their keys out of the map.\<close>

lemma sorted_wrt_picked: "sorted_wrt P l \<Longrightarrow> sorted_wrt P (map fst (filter snd (zip l keep)))"
proof (induction l arbitrary: keep)
  case (Cons x l)
  then show ?case by (cases keep) (auto dest: set_zip_leftD)
qed simp

lemma sub_chain_ok:
  assumes c: "chain_ok mroute_addr_hash_function mroute_addr_equal iv msk i l" and k: "length keep = length l"
  defines "l1 \<equiv> map fst (filter snd (zip l keep))"
  shows "chain_ok mroute_addr_hash_function mroute_addr_equal iv msk i l1"
    "chain_map mroute_addr_equal l1 key = Some r \<Longrightarrow> chain_map mroute_addr_equal l key = Some r"
    "chain_map mroute_addr_equal l key = Some r \<Longrightarrow> chain_map mroute_addr_equal l1 key = None \<Longrightarrow>
       list_all2 (\<lambda>he k. \<not> k \<longrightarrow> P (he_value he)) l keep \<Longrightarrow> P r"
    "length l1 \<le> length l"
proof -
  have sub: "set l1 \<subseteq> set l" by (auto simp: l1_def dest: set_zip_leftD)
  have srt: "sorted_wrt (apart mroute_addr_equal) l1"
    unfolding l1_def using c by (intro sorted_wrt_picked) (simp add: chain_ok_def)
  then show ok1: "chain_ok mroute_addr_hash_function mroute_addr_equal iv msk i l1"
    using c sub unfolding chain_ok_def by blast
  have s: "sorted_wrt (apart mroute_addr_equal) l" using c by (simp add: chain_ok_def)
  show "chain_map mroute_addr_equal l1 key = Some r \<Longrightarrow> chain_map mroute_addr_equal l key = Some r"
    unfolding mroute_keys.chain_map_eq [OF s] mroute_keys.chain_map_eq [OF srt] using sub by blast
  show "P r" if a: "chain_map mroute_addr_equal l key = Some r" and b: "chain_map mroute_addr_equal l1 key = None"
    and d: "list_all2 (\<lambda>he k. \<not> k \<longrightarrow> P (he_value he)) l keep"
  proof -
    obtain he where he: "he \<in> set l" "key_is mroute_addr_equal key he" "he_value he = r"
      using mroute_keys.chain_map_eq [OF s, THEN iffD1, OF a] by blast
    have "he \<notin> set l1" using b he(2) by (auto simp: chain_map_def find_None_iff)
    obtain n where n: "n < length l" "l ! n = he" using he(1) by (auto simp: in_set_conv_nth)
    have "\<not> keep ! n"
    proof
      assume "keep ! n"
      then have "(he, True) \<in> set (zip l keep)" using n k by (auto simp: set_zip)
      then have "he \<in> set l1" by (force simp: l1_def)
      then show False using \<open>he \<notin> set l1\<close> by blast
    qed
    then show ?thesis using d n he(3) by (auto simp: list_all2_conv_all_nth)
  qed
  show "length l1 \<le> length l" unfolding l1_def using k by (simp add: order_trans [OF length_filter_le])
qed

text \<open>
  What reaping does to the routes: some of those the test is true of go (it was asked when the
  connected instances were the same), the others stay.
\<close>

definition reaped :: "(instances \<Rightarrow> multi_route \<Rightarrow> bool option) \<Rightarrow> multi_context \<Rightarrow> multi_context \<Rightarrow> bool" where
  "reaped gone m m1 = (\<forall>key r. (routes m1 key = Some r \<longrightarrow> routes m key = Some r)
     \<and> (routes m key = Some r \<longrightarrow> routes m1 key = None \<longrightarrow>
          (\<exists>ins0. live ins0 = live (mc_instances m) \<and> gone ins0 r = Some True)))"

lemma reaped_refl [simp]: "reaped gone m m"
  by (simp add: reaped_def)

lemma reaped_trans:
  assumes "reaped gone a b" "reaped gone b c" "live (mc_instances b) = live (mc_instances a)"
  shows "reaped gone a c"
  using assms unfolding reaped_def by (metis option.exhaust)

lemma reap_buckets_ok:
  assumes "tests gone" "base_ok m" "\<forall>i \<in> set is. i < length (h_buckets (mc_vhash m))"
  shows "\<exists>m1. reap_buckets gone is m = Some m1 \<and> base_ok m1 \<and> same_but_routes m m1 \<and> reaped gone m m1"
  using assms(2,3)
proof (induction "is" arbitrary: m)
  case Nil
  then show ?case by simp
next
  case (Cons i "is")
  let ?h = "mc_vhash m" and ?ins = "mc_instances m"
  let ?l = "h_buckets ?h ! i"
  have hok: "table_ok ?h" and cok: "counts_ok ?ins (refs_to ?h)" and fin: "finite (dom ?ins)"
    using Cons.prems(1) by (simp_all add: base_ok_def)
  have b: "i < length (h_buckets ?h)" using Cons.prems(2) by simp
  have cle: "chain_refs j ?l \<le> refs_to ?h j" for j
    unfolding refs_to_def by (rule member_le_sum_list) (use b in auto)
  obtain l1 ins1 keep where r: "reap_chain gone ?l ?ins = Some (l1, ins1)"
    "counts_ok ins1 (\<lambda>j. refs_to ?h j - chain_refs j ?l + chain_refs j l1)" "live ins1 = live ?ins" "finite (dom ins1)"
    "l1 = map fst (filter snd (zip ?l keep))" "length keep = length ?l"
    "list_all2 (\<lambda>he k. \<not> k \<longrightarrow> (\<exists>ins0. live ins0 = live ?ins \<and> gone ins0 (he_value he) = Some True)) ?l keep"
    using reap_chain_ok [OF assms(1) cok cle fin] by blast
  have cf: "h_compare_function ?h = mroute_addr_equal" "h_hash_function ?h = mroute_addr_hash_function"
    using hok by (simp_all add: hash_ok_def)
  have ch: "chain_ok mroute_addr_hash_function mroute_addr_equal (h_iv ?h) (h_mask ?h) i ?l"
    using hok b unfolding hash_ok_def by blast
  note sub = sub_chain_ok [OF ch r(6), folded r(5)]
  let ?h1 = "(set_bucket ?h i l1)\<lparr>h_n_elements := h_n_elements ?h - int (length ?l - length l1)\<rparr>"
  let ?m1 = "m\<lparr>mc_vhash := ?h1, mc_instances := ins1\<rparr>"
  have h1ok: "table_ok ?h1"
    using hok b sub(1,4) by (auto simp: hash_ok_def set_bucket_def sum_length_update nth_list_update)
  have "refs_to ?h1 = (\<lambda>j. refs_to ?h j - chain_refs j ?l + chain_refs j l1)"
    unfolding refs_to_counter fun_eq_iff refs_to_set_bucket [OF b] by simp
  then have b1: "base_ok ?m1" using h1ok r(2,4) by (simp add: base_ok_def)
  have s1: "same_but_routes m ?m1" using r(3) by (simp add: same_but_routes_def)
  have ix: "hash_bucket_index ?h1 (hash_value ?h1 key) = hash_bucket_index ?h (hash_value ?h key)" for key
    by (simp add: hash_bucket_index_def hash_value_def set_bucket_def)
  have at: "routes ?m1 key = (if hash_bucket_index ?h (hash_value ?h key) = i then chain_map mroute_addr_equal l1 key else routes m key)"
    "hash_bucket_index ?h (hash_value ?h key) = i \<Longrightarrow> routes m key = chain_map mroute_addr_equal ?l key" for key
    using b cf ix [of key] by (simp_all add: hash_map_def, simp add: set_bucket_def nth_list_update hash_map_def)
  have rp: "reaped gone m ?m1"
    unfolding reaped_def at(1)
    using at(2) sub(2) sub(3) [where P = "\<lambda>v. \<exists>ins0. live ins0 = live ?ins \<and> gone ins0 v = Some True", OF _ _ r(7)]
    by (metis option.distinct(1))
  have len1: "length (h_buckets (mc_vhash ?m1)) = length (h_buckets ?h)" by (simp add: set_bucket_def)
  have in1: "\<forall>i \<in> set is. i < length (h_buckets (mc_vhash ?m1))" using Cons.prems(2) len1 by simp
  obtain m2 where m2: "reap_buckets gone is ?m1 = Some m2" "base_ok m2" "same_but_routes ?m1 m2" "reaped gone ?m1 m2"
    using Cons.IH [OF b1 in1] by blast
  have "reap_buckets gone (i # is) m = Some m2" using r(1) m2(1) by (simp add: Let_def)
  moreover have "reaped gone m m2" using reaped_trans [OF rp m2(4)] r(3) by simp
  ultimately show ?case using m2(2) same_but_routes_trans [OF s1 m2(3)] by blast
qed

lemma reap_between_ok:
  assumes "tests gone" "base_ok m" "0 \<le> a" "a \<le> b" "a \<le> h_n_buckets (mc_vhash m)"
  shows "\<exists>m1. reap_between gone a b m = Some m1 \<and> base_ok m1 \<and> same_but_routes m m1 \<and> reaped gone m m1"
proof -
  define e where "e = min b (h_n_buckets (mc_vhash m))"
  have "hash_iterator_init_range (mc_vhash m) a b =
      Some \<lparr>hi_bucket_index = a - 1, hi_bucket = None, hi_elem = None, hi_last = None, hi_bucket_marked = False,
        hi_bucket_index_start = a, hi_bucket_index_end = e\<rparr>"
    using assms(3-5) by (simp add: hash_iterator_init_range_def Let_def e_def min_def)
  then obtain hi where hi: "hash_iterator_init_range (mc_vhash m) a b = Some hi"
    "hi_bucket_index_end hi \<le> h_n_buckets (mc_vhash m)" "hi_bucket_index_start hi = a"
    by (simp add: e_def)
  have n: "int (length (h_buckets (mc_vhash m))) = h_n_buckets (mc_vhash m)"
    using assms(2) by (simp add: base_ok_def hash_ok_def)
  have "\<forall>i \<in> set [nat a..<nat (hi_bucket_index_end hi)]. i < length (h_buckets (mc_vhash m))"
    using hi(2) n by auto
  from reap_buckets_ok [OF assms(1,2) this] show ?thesis using hi(1,3) by (simp add: reap_between_def)
qed

end
