(* ===== verification/Client_Routes.thy ===== *)
theory Client_Routes
  imports Multi_Route
begin

text \<open>
  What the routing table of the server promises for one address. The reference is a search of the
  longest prefix among the routes that were learned; the code keeps host routes as a cache beside
  them, numbered by the generation of the helper.

  \<open>learned\<close> and \<open>longest_prefix\<close> are the reference; \<open>server_ok\<close> is the invariant of the counts and the
  prefix lengths in use, \<open>coherent\<close> that of the cache. The lemmas: learning and looking up keep both,
  and a lookup answers as the reference does.
\<close>

subsection \<open>Addresses with a prefix length\<close>

abbreviation has_netbits :: "mroute_addr \<Rightarrow> bool" where
  "has_netbits a \<equiv> ma_type a AND MR_WITH_NETBITS \<noteq> 0"

text \<open>The address of a host, IPv4 or IPv6.\<close>

definition host_addr :: "mroute_addr \<Rightarrow> bool" where
  "host_addr a = (length (ma_raw a) = MR_MAX_ADDR_LEN
     \<and> ((ma_type a = MR_ADDR_IPV4 \<and> ma_len a = 4) \<or> (ma_type a = MR_ADDR_IPV6 \<and> ma_len a = 16)))"

definition masked :: "mroute_addr \<Rightarrow> nat \<Rightarrow> mroute_addr" where
  "masked a n = the (mroute_addr_mask_host_bits (with_netbits (int n) a))"

lemma with_netbits_type:
  assumes "host_addr a"
  shows "ma_type (with_netbits n a) AND MR_ADDR_MASK = ma_type a" "has_netbits (with_netbits n a)" "\<not> has_netbits a"
  using assms by (auto simp: host_addr_def with_netbits_def MR_ADDR_IPV4_def MR_ADDR_IPV6_def MR_WITH_NETBITS_def MR_ADDR_MASK_def)

lemma mask_loop_append:
  "n \<le> length xs \<Longrightarrow> mask_loop n bits (xs @ ys) = apsnd (\<lambda>zs. zs @ ys) (mask_loop n bits xs)"
  by (induction n arbitrary: bits xs) (auto simp: list_update_append nth_append)

lemma length_mask_loop: "length (snd (mask_loop n bits xs)) = length xs"
  by (induction n arbitrary: bits xs) auto

lemma masked_spec:
  assumes a: "host_addr a" and n: "n \<le> 128"
  shows "mroute_addr_mask_host_bits (with_netbits (int n) a) = Some (masked a n)" "has_netbits (masked a n)"
    "ma_netbits (masked a n) = word_of_int (int n)"
    "\<exists>raw. masked a n = (with_netbits (int n) a)\<lparr>ma_raw := raw\<rparr>
       \<and> take (unat (ma_len a)) raw =
           (if ma_type a = MR_ADDR_IPV4
            then be32 (un_be32 (take 4 (ma_raw a)) AND netbits_to_netmask (int n))
            else snd (mask_loop 16 (128 - int n) (take 16 (ma_raw a))))"
proof -
  note t = with_netbits_type(1,2) [OF a, of "int n"]
  have nb: "uint (ma_netbits (with_netbits (int n) a)) = int n" "ma_raw (with_netbits (int n) a) = ma_raw a"
  proof -
    have "uint (word_of_int (int n) :: byte) = int n" using n unfolding uint_word_of_int by simp
    then show "uint (ma_netbits (with_netbits (int n) a)) = int n" by (simp add: with_netbits_def del: of_int_of_nat_eq)
  qed (simp add: with_netbits_def)
  have ex: "\<exists>raw. mroute_addr_mask_host_bits (with_netbits (int n) a) = Some ((with_netbits (int n) a)\<lparr>ma_raw := raw\<rparr>)
       \<and> take (unat (ma_len a)) raw =
           (if ma_type a = MR_ADDR_IPV4
            then be32 (un_be32 (take 4 (ma_raw a)) AND netbits_to_netmask (int n))
            else snd (mask_loop 16 (128 - int n) (take 16 (ma_raw a))))"
  proof (cases "ma_type a = MR_ADDR_IPV4")
    case True
    then show ?thesis
      using a t(1) nb
      by (intro exI [of _ "be32 (un_be32 (take 4 (ma_raw a)) AND netbits_to_netmask (int n)) @ drop 4 (ma_raw a)"])
        (simp add: mroute_addr_mask_host_bits_def mem_write_def host_addr_def MR_ADDR_IPV4_def MR_ADDR_IPV6_def)
  next
    case False
    then have v6: "ma_type a = MR_ADDR_IPV6" "ma_len a = 16" "length (ma_raw a) = 20"
      using a by (auto simp: host_addr_def MR_MAX_ADDR_LEN_def)
    have "mask_loop 16 (128 - int n) (take 16 (ma_raw a) @ drop 16 (ma_raw a)) =
        apsnd (\<lambda>zs. zs @ drop 16 (ma_raw a)) (mask_loop 16 (128 - int n) (take 16 (ma_raw a)))"
      using v6 by (intro mask_loop_append) simp
    moreover have "fst (mask_loop 16 (128 - int n) (take 16 (ma_raw a))) = 0"
      using mask_loop_bits [of "128 - int n" 16 "take 16 (ma_raw a)"] n v6 by simp
    ultimately have loop: "mask_loop 16 (128 - int n) (ma_raw a) =
        (0, snd (mask_loop 16 (128 - int n) (take 16 (ma_raw a))) @ drop 16 (ma_raw a))"
      by (cases "mask_loop 16 (128 - int n) (take 16 (ma_raw a))") simp
    have ne: "MR_ADDR_IPV6 \<noteq> MR_ADDR_IPV4" by (simp add: MR_ADDR_IPV4_def MR_ADDR_IPV6_def)
    show ?thesis
      using t(1) nb v6 loop ne
      by (intro exI [of _ "snd (mask_loop 16 (128 - int n) (take 16 (ma_raw a))) @ drop 16 (ma_raw a)"])
        (simp add: mroute_addr_mask_host_bits_def length_mask_loop)
  qed
  then obtain raw where r: "mroute_addr_mask_host_bits (with_netbits (int n) a) = Some ((with_netbits (int n) a)\<lparr>ma_raw := raw\<rparr>)"
    "take (unat (ma_len a)) raw =
           (if ma_type a = MR_ADDR_IPV4
            then be32 (un_be32 (take 4 (ma_raw a)) AND netbits_to_netmask (int n))
            else snd (mask_loop 16 (128 - int n) (take 16 (ma_raw a))))" by blast
  then have m: "masked a n = (with_netbits (int n) a)\<lparr>ma_raw := raw\<rparr>" by (simp add: masked_def)
  show "mroute_addr_mask_host_bits (with_netbits (int n) a) = Some (masked a n)" using r(1) m by simp
  show "has_netbits (masked a n)" using t(2) m by simp
  show "ma_netbits (masked a n) = word_of_int (int n)" using m by (simp add: with_netbits_def)
  show "\<exists>raw. masked a n = (with_netbits (int n) a)\<lparr>ma_raw := raw\<rparr>
       \<and> take (unat (ma_len a)) raw =
           (if ma_type a = MR_ADDR_IPV4
            then be32 (un_be32 (take 4 (ma_raw a)) AND netbits_to_netmask (int n))
            else snd (mask_loop 16 (128 - int n) (take 16 (ma_raw a))))" using m r(2) by blast
qed

lemma masked_cong:
  assumes "host_addr a" "host_addr b" "mroute_addr_equal a b" "n \<le> 128"
  shows "mroute_addr_equal (masked a n) (masked b n)"
proof -
  have e: "ma_type a = ma_type b" "ma_len a = ma_len b" "take (unat (ma_len a)) (ma_raw a) = take (unat (ma_len a)) (ma_raw b)"
    using assms(3) by (auto simp: mroute_addr_equal_def split: if_splits)
  obtain ra where ra: "masked a n = (with_netbits (int n) a)\<lparr>ma_raw := ra\<rparr>"
    "take (unat (ma_len a)) ra = (if ma_type a = MR_ADDR_IPV4
            then be32 (un_be32 (take 4 (ma_raw a)) AND netbits_to_netmask (int n))
            else snd (mask_loop 16 (128 - int n) (take 16 (ma_raw a))))"
    using masked_spec(4) [OF assms(1,4)] by blast
  obtain rb where rb: "masked b n = (with_netbits (int n) b)\<lparr>ma_raw := rb\<rparr>"
    "take (unat (ma_len b)) rb = (if ma_type b = MR_ADDR_IPV4
            then be32 (un_be32 (take 4 (ma_raw b)) AND netbits_to_netmask (int n))
            else snd (mask_loop 16 (128 - int n) (take 16 (ma_raw b))))"
    using masked_spec(4) [OF assms(2,4)] by blast
  have "take (unat (ma_len a)) ra = take (unat (ma_len a)) rb"
  proof (cases "ma_type a = MR_ADDR_IPV4")
    case True
    then have "ma_len a = 4" using assms(1) by (auto simp: host_addr_def MR_ADDR_IPV4_def MR_ADDR_IPV6_def)
    then show ?thesis using True e ra(2) rb(2) by simp
  next
    case False
    then have "ma_len a = 16" using assms(1) by (auto simp: host_addr_def)
    then show ?thesis using False e ra(2) rb(2) by simp
  qed
  then show ?thesis using e by (simp add: mroute_addr_equal_def ra(1) rb(1) with_netbits_def)
qed

lemma routes_cong:
  assumes "table_ok h" "mroute_addr_equal a b"
  shows "hash_map h a = hash_map h b"
proof -
  have c: "chain_ok mroute_addr_hash_function mroute_addr_equal (h_iv h) (h_mask h) (hash_bucket_index h (hash_value h b))
      (h_buckets h ! hash_bucket_index h (hash_value h b))" by (rule mroute_keys.chain_at [OF assms(1)])
  have f: "h_hash_function h = mroute_addr_hash_function" "h_compare_function h = mroute_addr_equal"
    using assms(1) by (simp_all add: hash_ok_def)
  have v: "hash_value h a = hash_value h b"
    using mroute_keys.cmp_hash [OF assms(2)] by (simp add: hash_value_def f)
  have k: "key_is mroute_addr_equal a he = key_is mroute_addr_equal b he" for he :: "(mroute_addr, 'a) hash_element"
  proof -
    have "mroute_addr_equal a x = mroute_addr_equal b x" for x
      using mroute_keys.cmp_trans mroute_keys.cmp_sym assms(2) by blast
    then show ?thesis by (simp add: key_is_def split: option.split)
  qed
  show ?thesis unfolding hash_map_def v f chain_map_def by (simp add: k cong: find_cong)
qed

lemma equal_netbits: "mroute_addr_equal a b \<Longrightarrow> has_netbits a = has_netbits b"
  by (simp add: mroute_addr_equal_def split: if_splits)

subsection \<open>The reference\<close>

abbreviation cached :: "multi_route \<Rightarrow> bool" where
  "cached r \<equiv> rt_flags r AND MULTI_ROUTE_CACHE \<noteq> 0"

text \<open>The connected instance that learned an address, cached routes apart.\<close>

definition learned :: "multi_context \<Rightarrow> mroute_addr \<Rightarrow> nat option" where
  "learned m k = (case routes m k of
     None \<Rightarrow> None
   | Some r \<Rightarrow> if \<not> cached r \<and> live (mc_instances m) (rt_instance r) \<noteq> None then Some (rt_instance r) else None)"

fun first_some :: "'a option list \<Rightarrow> 'a option" where
  "first_some [] = None"
| "first_some (None # xs) = first_some xs"
| "first_some (Some x # xs) = Some x"

text \<open>
  The longest prefix: the address itself, or else the prefixes of it from 128 bits down to none.
\<close>

definition longest_prefix :: "multi_context \<Rightarrow> mroute_addr \<Rightarrow> nat option" where
  "longest_prefix m a = first_some (learned m a # map (\<lambda>n. learned m (masked a n)) (rev [0..<129]))"

text \<open>What the code searches: only the lengths the helper lists.\<close>

definition net_owner :: "multi_context \<Rightarrow> mroute_addr \<Rightarrow> nat option" where
  "net_owner m a = first_some (map (\<lambda>n. learned m (masked a n)) (net_lens (mc_route_helper m)))"

lemma first_some_filter:
  "(\<And>x. x \<in> set xs \<Longrightarrow> f x \<noteq> None \<Longrightarrow> P x) \<Longrightarrow> first_some (map f (filter P xs)) = first_some (map f xs)"
proof (induction xs)
  case (Cons x xs)
  then show ?case by (cases "f x") auto
qed simp

lemma first_some_cong: "(\<And>x. x \<in> set xs \<Longrightarrow> f x = g x) \<Longrightarrow> first_some (map f xs) = first_some (map g xs)"
proof (induction xs)
  case (Cons x xs)
  then show ?case by (cases "g x") auto
qed simp

subsection \<open>The invariant\<close>

definition prefix_lens :: "multi_instance \<Rightarrow> int list" where
  "prefix_lens c = map snd (in_iroutes c) @ map snd (in_iroutes_ipv6 c)"

text \<open>Routes of the configuration the option parser lets through, at most \<open>K\<close> of them.\<close>

definition iroutes_ok :: "nat \<Rightarrow> multi_instance \<Rightarrow> bool" where
  "iroutes_ok K c = ((\<forall>(net, n) \<in> set (in_iroutes c). n \<le> 32)
     \<and> (\<forall>(net, n) \<in> set (in_iroutes_ipv6 c). n \<le> 128 \<and> length net = 16) \<and> length (prefix_lens c) \<le> K)"

definition users :: "(nat \<Rightarrow> multi_instance option) \<Rightarrow> nat set" where
  "users L = {j. \<exists>c. L j = Some c \<and> in_did_iroutes c}"

definition usage :: "(nat \<Rightarrow> multi_instance option) \<Rightarrow> nat \<Rightarrow> int" where
  "usage L n = (\<Sum>j \<in> users L. int (count_list (prefix_lens (the (L j))) (int n)))"

text \<open>A route of the table: a cached host route, or a learned one, whose prefix length is one of its
  instance.\<close>

definition route_ok :: "multi_context \<Rightarrow> mroute_addr \<Rightarrow> multi_route \<Rightarrow> bool" where
  "route_ok m k r =
     (if cached r then \<not> has_netbits k
      else rt_flags r = 0 \<and> (has_netbits k \<longrightarrow> (\<forall>c. live (mc_instances m) (rt_instance r) = Some c \<longrightarrow>
             in_did_iroutes c \<and> uint (ma_netbits k) \<in> set (prefix_lens c))))"

text \<open>The invariant, with \<open>pend n\<close> routes of length \<open>n\<close> that are still to be counted by the helper.\<close>

definition server_ok :: "nat \<Rightarrow> (nat \<Rightarrow> int) \<Rightarrow> multi_context \<Rightarrow> bool" where
  "server_ok K pend m = (base_ok m \<and> helper_ok (mc_route_helper m)
     \<and> (\<forall>n<MR_HELPER_NET_LEN. mh_net_len_refcount (mc_route_helper m) ! n = usage (live (mc_instances m)) n - pend n)
     \<and> (\<forall>j c. live (mc_instances m) j = Some c \<longrightarrow> iroutes_ok K c \<and> (in_did_iroutes c \<longrightarrow> mc_dev_tun m))
     \<and> (\<forall>k r. routes m k = Some r \<longrightarrow> route_ok m k r))"

text \<open>No cached route is of a later generation, and those of the current one lead where the search would lead.\<close>

definition current :: "multi_context \<Rightarrow> multi_route \<Rightarrow> bool" where
  "current m r = (cached r \<and> rt_cache_generation r = mh_cache_generation (mc_route_helper m)
     \<and> live (mc_instances m) (rt_instance r) \<noteq> None)"

definition coherent :: "multi_context \<Rightarrow> bool" where
  "coherent m = (\<forall>k r. routes m k = Some r \<longrightarrow>
     (cached r \<longrightarrow> unat (rt_cache_generation r) \<le> unat (mh_cache_generation (mc_route_helper m)))
     \<and> (host_addr k \<longrightarrow> current m r \<longrightarrow> net_owner m k = Some (rt_instance r)))"

lemma coherentI:
  assumes "\<And>k r. routes m k = Some r \<Longrightarrow> cached r \<Longrightarrow>
      unat (rt_cache_generation r) \<le> unat (mh_cache_generation (mc_route_helper m))"
    "\<And>k r. host_addr k \<Longrightarrow> routes m k = Some r \<Longrightarrow> current m r \<Longrightarrow> net_owner m k = Some (rt_instance r)"
  shows "coherent m"
  using assms by (simp add: coherent_def)

lemma coherentD:
  assumes "coherent m" "routes m k = Some r"
  shows "cached r \<Longrightarrow> unat (rt_cache_generation r) \<le> unat (mh_cache_generation (mc_route_helper m))"
    "host_addr k \<Longrightarrow> current m r \<Longrightarrow> net_owner m k = Some (rt_instance r)"
  using assms by (simp_all add: coherent_def)

definition no_current :: "multi_context \<Rightarrow> bool" where
  "no_current m = (\<forall>k r. routes m k = Some r \<longrightarrow> cached r \<longrightarrow>
     unat (rt_cache_generation r) < unat (mh_cache_generation (mc_route_helper m)))"

lemma no_current_coherent: "no_current m \<Longrightarrow> coherent m"
  unfolding no_current_def coherent_def current_def by (metis less_irrefl less_imp_le)

lemma server_okD:
  assumes "server_ok K pend m"
  shows "base_ok m" "helper_ok (mc_route_helper m)"
    "n < MR_HELPER_NET_LEN \<Longrightarrow> mh_net_len_refcount (mc_route_helper m) ! n = usage (live (mc_instances m)) n - pend n"
    "live (mc_instances m) j = Some c \<Longrightarrow> iroutes_ok K c \<and> (in_did_iroutes c \<longrightarrow> mc_dev_tun m)"
    "routes m k = Some r \<Longrightarrow> route_ok m k r"
  using assms unfolding server_ok_def by blast+

lemma net_lens_range:
  assumes "helper_ok mh" "n \<in> set (net_lens mh)"
  shows "n \<le> 128" "0 < mh_net_len_refcount mh ! n"
  using assms by (auto simp: helper_ok_def used_lens_def MR_HELPER_NET_LEN_def)

text \<open>Only learned routes with a prefix length matter for the search.\<close>

lemma learned_cong: "base_ok m \<Longrightarrow> mroute_addr_equal a b \<Longrightarrow> learned m a = learned m b"
  using routes_cong [of "mc_vhash m" a b] by (simp add: learned_def base_ok_def)

lemma net_owner_cong:
  assumes "server_ok K pend m" "host_addr a" "host_addr b" "mroute_addr_equal a b"
  shows "net_owner m a = net_owner m b"
  unfolding net_owner_def
proof (rule first_some_cong)
  fix n assume "n \<in> set (net_lens (mc_route_helper m))"
  then have "n \<le> 128" using net_lens_range server_okD(2) [OF assms(1)] by blast
  then show "learned m (masked a n) = learned m (masked b n)"
    by (intro learned_cong [OF server_okD(1) [OF assms(1)]] masked_cong assms(2-4))
qed

lemma net_owner_same:
  assumes "server_ok K pend m" "host_addr a" "mc_route_helper m1 = mc_route_helper m"
    "\<And>k. has_netbits k \<Longrightarrow> learned m1 k = learned m k"
  shows "net_owner m1 a = net_owner m a"
  unfolding net_owner_def assms(3)
proof (rule first_some_cong)
  fix n assume "n \<in> set (net_lens (mc_route_helper m))"
  then have "n \<le> 128" using net_lens_range server_okD(2) [OF assms(1)] by blast
  then show "learned m1 (masked a n) = learned m (masked a n)"
    by (intro assms(4) masked_spec(2) [OF assms(2)])
qed

text \<open>The lengths the helper lists are enough, so the search finds the longest prefix.\<close>

lemma net_owner_longest:
  assumes ok: "server_ok K (\<lambda>n. 0) m" and a: "host_addr a"
  shows "net_owner m a = first_some (map (\<lambda>n. learned m (masked a n)) (rev [0..<129]))"
proof -
  have h: "helper_ok (mc_route_helper m)" by (rule server_okD(2) [OF ok])
  have used: "0 < mh_net_len_refcount (mc_route_helper m) ! n"
    if n: "n \<in> set (rev [0..<129])" and f: "learned m (masked a n) \<noteq> None" for n
  proof -
    have n128: "n \<le> 128" using n by auto
    obtain r where r: "routes m (masked a n) = Some r" "\<not> cached r" "live (mc_instances m) (rt_instance r) \<noteq> None"
      using f by (auto simp: learned_def split: option.splits if_splits)
    then obtain c where c: "live (mc_instances m) (rt_instance r) = Some c" by auto
    note ms = masked_spec(2,3) [OF a n128]
    have "uint (ma_netbits (masked a n)) = int n" unfolding ms(2) uint_word_of_int using n128 by simp
    then have in_c: "in_did_iroutes c" "int n \<in> set (prefix_lens c)"
      using server_okD(5) [OF ok r(1)] r(2) c ms(1) by (auto simp: route_ok_def)
    have fin: "finite (users (live (mc_instances m)))"
    proof (rule finite_subset)
      show "users (live (mc_instances m)) \<subseteq> dom (mc_instances m)"
        by (auto simp: users_def live_def split: option.splits)
      show "finite (dom (mc_instances m))" using server_okD(1) [OF ok] by (simp add: base_ok_def)
    qed
    have "rt_instance r \<in> users (live (mc_instances m))" using c in_c(1) by (simp add: users_def)
    then have "int (count_list (prefix_lens (the (live (mc_instances m) (rt_instance r)))) (int n)) \<le> usage (live (mc_instances m)) n"
      unfolding usage_def by (intro member_le_sum fin) auto
    moreover have "0 < count_list (prefix_lens c) (int n)" using in_c(2) by (metis count_list_0_iff gr0I)
    ultimately show ?thesis
      using server_okD(3) [OF ok, of n] c n128 by (simp add: MR_HELPER_NET_LEN_def)
  qed
  have "net_lens (mc_route_helper m) = filter (\<lambda>i. mh_net_len_refcount (mc_route_helper m) ! i > 0) (rev [0..<129])"
    using h by (simp add: helper_ok_def used_lens_def MR_HELPER_NET_LEN_def)
  then have "net_owner m a = first_some (map (\<lambda>n. learned m (masked a n))
      (filter (\<lambda>i. mh_net_len_refcount (mc_route_helper m) ! i > 0) (rev [0..<129])))"
    by (simp only: net_owner_def)
  also have "\<dots> = first_some (map (\<lambda>n. learned m (masked a n)) (rev [0..<129]))"
    by (rule first_some_filter) (rule used)
  finally show ?thesis .
qed

subsection \<open>Learning\<close>

text \<open>
  The routes after one more was learned: what \<open>learn_spec\<close> says, for the invariant.
\<close>

lemma learned_same:
  "routes m1 = routes m \<Longrightarrow> live (mc_instances m1) = live (mc_instances m) \<Longrightarrow> learned m1 = learned m"
  by (intro ext) (simp add: learned_def cong: option.case_cong)

lemma learned_put:
  assumes "routes m1 = map_put mroute_addr_equal (routes m) a (Some r)" "same_but_routes m m1"
  shows "learned m1 k = (if mroute_addr_equal a k
           then (if \<not> cached r \<and> live (mc_instances m) (rt_instance r) \<noteq> None then Some (rt_instance r) else None)
           else learned m k)"
  using assms by (simp add: learned_def map_put_def same_but_routes_def split: option.split)

lemma same_routes_ok:
  assumes ok: "server_ok K pend m" and b: "base_ok m1" and s: "same_but_routes m m1"
    and r: "\<And>k r. routes m1 k = Some r \<Longrightarrow> route_ok m k r"
  shows "server_ok K pend m1"
proof -
  have "route_ok m1 = route_ok m" using s by (simp add: route_ok_def same_but_routes_def fun_eq_iff)
  then show ?thesis using ok b s r by (simp add: server_ok_def same_but_routes_def)
qed

lemma equal_netbits_field: "mroute_addr_equal a b \<Longrightarrow> ma_netbits a = ma_netbits b"
  by (simp add: mroute_addr_equal_def split: if_splits)

text \<open>A route that is not cached, of a connected instance.\<close>

lemma learn_ok:
  assumes ok: "server_ok K pend m" and c: "live (mc_instances m) mi = Some c"
    and nb: "has_netbits a \<Longrightarrow> in_did_iroutes c \<and> uint (ma_netbits a) \<in> set (prefix_lens c)"
  shows "\<exists>owner m1. multi_learn_addr script now mi a 0 m = Some (owner, m1) \<and> server_ok K pend m1 \<and> same_but_routes m m1
           \<and> (no_current m \<longrightarrow> no_current m1) \<and> (\<not> has_netbits a \<and> coherent m \<longrightarrow> coherent m1)"
proof -
  have mi: "mc_instances m mi \<noteq> None" using c by (auto simp: live_def split: option.splits)
  let ?r = "new_route now m mi a 0"
  have f: "\<not> cached ?r" "rt_flags ?r = 0" "rt_instance ?r = mi" by (simp_all add: new_route_def)
  obtain owner m1 where l: "multi_learn_addr script now mi a 0 m = Some (owner, m1)" "base_ok m1" "same_but_routes m m1"
    "routes m1 = routes m \<or> routes m1 = map_put mroute_addr_equal (routes m) a (Some ?r)"
    using learn_spec [OF server_okD(1) [OF ok] mi] by blast
  have old: "routes m1 k = Some r \<Longrightarrow> r = ?r \<and> mroute_addr_equal a k \<or> routes m k = Some r" for k r
    using l(4) by (auto simp: map_put_def split: if_splits)
  have new: "route_ok m k ?r" if "mroute_addr_equal a k" for k
    using f c nb equal_netbits [OF that] equal_netbits_field [OF that] by (simp add: route_ok_def)
  have "server_ok K pend m1"
    by (rule same_routes_ok [OF ok l(2,3)]) (use old new server_okD(5) [OF ok] in blast)
  moreover have "no_current m \<longrightarrow> no_current m1"
    using old f(1) l(3) unfolding no_current_def same_but_routes_def by metis
  moreover have "coherent m1" if h: "\<not> has_netbits a" "coherent m"
  proof (rule coherentI)
    fix k r assume k: "routes m1 k = Some r" "cached r"
    then show "unat (rt_cache_generation r) \<le> unat (mh_cache_generation (mc_route_helper m1))"
      using old [OF k(1)] f(1) coherentD(1) [OF h(2), of k r] l(3) by (auto simp: same_but_routes_def)
  next
    fix k r assume k: "host_addr k" "routes m1 k = Some r" "current m1 r"
    have cur: "current m r" using k(3) l(3) by (simp add: current_def same_but_routes_def)
    then have "routes m k = Some r" using old [OF k(2)] f(1) by (auto simp: current_def)
    then have "net_owner m k = Some (rt_instance r)" using coherentD(2) [OF h(2)] k(1) cur by blast
    moreover have "learned m1 x = learned m x" if "has_netbits x" for x
      using l(4)
    proof
      assume "routes m1 = routes m"
      then show ?thesis using learned_same [of m1 m] l(3) by (simp add: same_but_routes_def)
    next
      assume "routes m1 = map_put mroute_addr_equal (routes m) a (Some ?r)"
      from learned_put [OF this l(3)] show ?thesis using equal_netbits [of a x] that h(1) by auto
    qed
    then have "net_owner m1 k = net_owner m k"
      using net_owner_same [OF ok k(1), of m1] l(3) by (simp add: same_but_routes_def)
    ultimately show "net_owner m1 k = Some (rt_instance r)" by simp
  qed
  ultimately show ?thesis using l(1,3) by blast
qed

text \<open>A route that is cached, at an address the search leads from to its instance.\<close>

lemma learn_cached_ok:
  assumes ok: "server_ok K pend m" and c: "live (mc_instances m) mi \<noteq> None" and a: "host_addr a"
    and free: "learned m a = None"
  shows "\<exists>owner m1. multi_learn_addr script now mi a (MULTI_ROUTE_CACHE OR MULTI_ROUTE_AGEABLE) m = Some (owner, m1)
           \<and> server_ok K pend m1 \<and> same_but_routes m m1 \<and> learned m1 = learned m
           \<and> (coherent m \<and> net_owner m a = Some mi \<longrightarrow> coherent m1)"
proof -
  have mi: "mc_instances m mi \<noteq> None" using c by (auto simp: live_def split: option.splits)
  let ?r = "new_route now m mi a (MULTI_ROUTE_CACHE OR MULTI_ROUTE_AGEABLE)"
  have f: "cached ?r" "rt_instance ?r = mi" "rt_cache_generation ?r = mh_cache_generation (mc_route_helper m)"
    by (simp_all add: new_route_def MULTI_ROUTE_CACHE_def MULTI_ROUTE_AGEABLE_def)
  obtain owner m1 where l: "multi_learn_addr script now mi a (MULTI_ROUTE_CACHE OR MULTI_ROUTE_AGEABLE) m = Some (owner, m1)"
    "base_ok m1" "same_but_routes m m1"
    "routes m1 = routes m \<or> routes m1 = map_put mroute_addr_equal (routes m) a (Some ?r)"
    using learn_spec [OF server_okD(1) [OF ok] mi] by blast
  have old: "routes m1 k = Some r \<Longrightarrow> r = ?r \<and> mroute_addr_equal a k \<or> routes m k = Some r" for k r
    using l(4) by (auto simp: map_put_def split: if_splits)
  have new: "route_ok m k ?r" if "mroute_addr_equal a k" for k
    using f equal_netbits [OF that] with_netbits_type(3) [OF a] by (simp add: route_ok_def)
  have s1: "server_ok K pend m1"
    by (rule same_routes_ok [OF ok l(2,3)]) (use old new server_okD(5) [OF ok] in blast)
  have same: "learned m1 x = learned m x" for x
    using l(4)
  proof
    assume "routes m1 = routes m"
    then show ?thesis using learned_same [of m1 m] l(3) by (simp add: same_but_routes_def)
  next
    assume "routes m1 = map_put mroute_addr_equal (routes m) a (Some ?r)"
    from learned_put [OF this l(3)] show ?thesis
      using f(1) free learned_cong [OF server_okD(1) [OF ok], of a x] by auto
  qed
  have "coherent m1" if coh: "coherent m" and own: "net_owner m a = Some mi"
  proof (rule coherentI)
    fix k r assume k: "routes m1 k = Some r" "cached r"
    then show "unat (rt_cache_generation r) \<le> unat (mh_cache_generation (mc_route_helper m1))"
      using old [OF k(1)] f(3) coherentD(1) [OF coh, of k r] l(3) by (auto simp: same_but_routes_def)
  next
    fix k r assume k: "host_addr k" "routes m1 k = Some r" "current m1 r"
    have o1: "net_owner m1 k = net_owner m k"
      using net_owner_same [OF ok k(1), of m1] same l(3) by (simp add: same_but_routes_def)
    from old [OF k(2)] show "net_owner m1 k = Some (rt_instance r)"
    proof (elim disjE conjE)
      assume "r = ?r" "mroute_addr_equal a k"
      then show ?thesis using o1 own f(2) net_owner_cong [OF ok a k(1)] by simp
    next
      assume "routes m k = Some r"
      then show ?thesis using o1 coherentD(2) [OF coh] k(1,3) l(3) by (simp add: current_def same_but_routes_def)
    qed
  qed
  then show ?thesis using l(1,3) s1 same by blast
qed

subsection \<open>Lookup\<close>

text \<open>The routes of a table whose chains were rotated or whose times of reference were written.\<close>

definition touched :: "multi_context \<Rightarrow> multi_context \<Rightarrow> bool" where
  "touched m m1 = (base_ok m1 \<and> same_but_routes m m1
     \<and> (\<forall>k. rel_option (\<lambda>r r1. \<exists>t. r1 = r\<lparr>rt_last_reference := t\<rparr>) (routes m k) (routes m1 k)))"

lemma untouched [simp]: "rel_option (\<lambda>r r1. \<exists>t. r1 = r\<lparr>rt_last_reference := t\<rparr>) x (x :: multi_route option)"
proof (cases x)
  case (Some r)
  then show ?thesis by (auto intro: exI [of _ "rt_last_reference r"])
qed simp

lemma touched_same: "base_ok m1 \<Longrightarrow> same_but_routes m m1 \<Longrightarrow> routes m1 = routes m \<Longrightarrow> touched m m1"
  by (simp add: touched_def)

lemma touched_routes:
  assumes "touched m m1"
  shows "routes m k = None \<Longrightarrow> routes m1 k = None"
    "routes m1 k = Some r1 \<Longrightarrow> \<exists>r t. routes m k = Some r \<and> r1 = r\<lparr>rt_last_reference := t\<rparr>"
    "routes m k = Some r \<Longrightarrow> \<exists>t. routes m1 k = Some (r\<lparr>rt_last_reference := t\<rparr>)"
proof -
  have "rel_option (\<lambda>r r1. \<exists>t. r1 = r\<lparr>rt_last_reference := t\<rparr>) (routes m k) (routes m1 k)"
    using assms by (simp add: touched_def)
  then show "routes m k = None \<Longrightarrow> routes m1 k = None"
    "routes m1 k = Some r1 \<Longrightarrow> \<exists>r t. routes m k = Some r \<and> r1 = r\<lparr>rt_last_reference := t\<rparr>"
    "routes m k = Some r \<Longrightarrow> \<exists>t. routes m1 k = Some (r\<lparr>rt_last_reference := t\<rparr>)"
    by (auto simp: option_rel_Some1 option_rel_Some2)
qed

lemma touched_learned:
  assumes "touched m m1"
  shows "learned m1 = learned m"
proof
  fix k
  have s: "live (mc_instances m1) = live (mc_instances m)" using assms by (simp add: touched_def same_but_routes_def)
  show "learned m1 k = learned m k"
  proof (cases "routes m k")
    case None
    then show ?thesis using touched_routes(1) [OF assms] by (simp add: learned_def)
  next
    case (Some r)
    then show ?thesis using touched_routes(3) [OF assms Some] s by (auto simp: learned_def)
  qed
qed

lemma touched_ok:
  assumes ok: "server_ok K pend m" and t: "touched m m1"
  shows "server_ok K pend m1" "coherent m \<Longrightarrow> coherent m1"
proof -
  have b: "base_ok m1" and s: "same_but_routes m m1" using t by (simp_all add: touched_def)
  show "server_ok K pend m1"
  proof (rule same_routes_ok [OF ok b s])
    fix k r1 assume "routes m1 k = Some r1"
    then obtain r t where r: "routes m k = Some r" "r1 = r\<lparr>rt_last_reference := t\<rparr>" using touched_routes(2) [OF t] by blast
    then show "route_ok m k r1" using server_okD(5) [OF ok r(1)] by (simp add: route_ok_def)
  qed
  show "coherent m1" if c: "coherent m"
  proof (rule coherentI)
    fix k r1 assume k: "routes m1 k = Some r1" "cached r1"
    then show "unat (rt_cache_generation r1) \<le> unat (mh_cache_generation (mc_route_helper m1))"
      using touched_routes(2) [OF t k(1)] coherentD(1) [OF c] s by (auto simp: same_but_routes_def)
  next
    fix k r1 assume k: "host_addr k" "routes m1 k = Some r1" "current m1 r1"
    obtain r t' where r: "routes m k = Some r" "r1 = r\<lparr>rt_last_reference := t'\<rparr>" using touched_routes(2) [OF t k(2)] by blast
    then have "current m r" using k(3) s by (simp add: current_def same_but_routes_def)
    then have "net_owner m k = Some (rt_instance r)" using coherentD(2) [OF c r(1)] k(1) by blast
    moreover have "net_owner m1 k = net_owner m k"
      using net_owner_same [OF ok k(1), of m1] s touched_learned [OF t] by (simp add: same_but_routes_def)
    ultimately show "net_owner m1 k = Some (rt_instance r1)" using r(2) by simp
  qed
qed

lemma lookup_keeps:
  assumes ok: "base_ok m"
  shows "\<exists>h1. hash_lookup (mc_vhash m) k = Some (routes m k, h1) \<and> touched m (m\<lparr>mc_vhash := h1\<rparr>) \<and> hash_map h1 = routes m"
proof -
  have hok: "table_ok (mc_vhash m)" using ok by (simp add: base_ok_def)
  obtain h1 where h: "hash_lookup (mc_vhash m) k = Some (routes m k, h1)" "table_ok h1" "hash_map h1 = routes m"
    using mroute_keys.hash_lookup_spec [OF hok] by blast
  obtain he where lf: "hash_lookup_fast (mc_vhash m) (hash_bucket_index (mc_vhash m) (hash_value (mc_vhash m) k)) k
      (hash_value (mc_vhash m) k) = Some (he, h1)"
    using h(1) by (auto simp: hash_lookup_def Let_def)
  have "refs_to h1 = refs_to (mc_vhash m)"
    using lookup_fast_refs(1) [OF lf] bucket_index_bound [OF hok] by blast
  then have "base_ok (m\<lparr>mc_vhash := h1\<rparr>)" using ok h(2) by (simp add: base_ok_def)
  then show ?thesis using h by (intro exI [of _ h1]) (simp add: touched_same same_but_routes_def)
qed

lemma touch_ok:
  assumes ok: "base_ok m" and r: "routes m a = Some r"
  shows "\<exists>h1. touch_route now a r (mc_vhash m) = Some h1 \<and> touched m (m\<lparr>mc_vhash := h1\<rparr>)"
proof -
  let ?h = "mc_vhash m" and ?r = "r\<lparr>rt_last_reference := now\<rparr>"
  have hok: "table_ok ?h" using ok by (simp add: base_ok_def)
  have hf: "h_hash_function ?h = mroute_addr_hash_function" using hok by (simp add: hash_ok_def)
  define i where "i = hash_bucket_index ?h (mroute_addr_hash_function a (h_iv ?h))"
  have bi: "i < length (h_buckets ?h)" using bucket_index_bound [OF hok] by (simp add: i_def)
  obtain h1 where h: "hash_add ?h a ?r True = Some (True, h1)" "table_ok h1"
    "hash_map h1 = map_put mroute_addr_equal (routes m) a (Some ?r)"
    using mroute_keys.hash_add_spec [OF hok, of a ?r True] by auto
  have refs: "refs_to h1 = refs_to ?h"
  proof (rule mroute_keys.lookup_fast_cases [OF hok i_def])
    assume "hash_map ?h a = None"
    then show ?thesis using r by simp
  next
    fix he l h0
    assume a: "hash_lookup_fast ?h i a (mroute_addr_hash_function a (h_iv ?h)) = Some (Some he, h0)"
      "hash_map ?h a = Some (he_value he)" "h_buckets h0 ! i = he # l"
    note lf = lookup_fast_refs [OF a(1) bi]
    have v: "he_value he = r" using a(2) r by simp
    have "h1 = set_bucket h0 i (he\<lparr>he_value := ?r\<rparr> # l)"
      using h(1) a(1,3) by (simp add: hash_add_def Let_def hash_value_def hf flip: i_def)
    then have "refs_to h1 j = refs_to h0 j" for j
      using refs_to_set_bucket [of i h0 "he\<lparr>he_value := ?r\<rparr> # l" j] lf(3) bi a(3) v by simp
    then show ?thesis using lf(1) by (simp add: fun_eq_iff)
  qed
  have "base_ok (m\<lparr>mc_vhash := h1\<rparr>)" using ok h(2) refs by (simp add: base_ok_def)
  moreover have "rel_option (\<lambda>r r1. \<exists>t. r1 = r\<lparr>rt_last_reference := t\<rparr>) (routes m k) (hash_map h1 k)" for k
  proof (cases "mroute_addr_equal a k")
    case True
    then show ?thesis using r routes_cong [OF hok True] h(3) by (auto simp: map_put_def)
  next
    case False
    then show ?thesis using h(3) by (simp add: map_put_def)
  qed
  ultimately have "touched m (m\<lparr>mc_vhash := h1\<rparr>)" by (simp add: touched_def same_but_routes_def)
  then show ?thesis using h(1) by (simp add: touch_route_def)
qed

lemma route_defined:
  assumes ok: "base_ok m" and r: "routes m k = Some r"
  shows "multi_route_defined now mh (mc_instances m) r =
     Some (live (mc_instances m) (rt_instance r) \<noteq> None
       \<and> (cached r \<longrightarrow> rt_cache_generation r = mh_cache_generation mh)
       \<and> (rt_flags r AND MULTI_ROUTE_AGEABLE \<noteq> 0 \<longrightarrow> now \<le> rt_last_reference r + mh_ageable_ttl_secs mh))"
proof -
  have "0 < refs_to (mc_vhash m) (rt_instance r)" using hash_map_refs r ok by (auto simp: base_ok_def)
  then obtain mi where "mc_instances m (rt_instance r) = Some mi"
    using ok counts_okD(2) [of "mc_instances m" "refs_to (mc_vhash m)" "rt_instance r"] by (fastforce simp: base_ok_def)
  then show ?thesis by (auto simp: multi_route_defined_def live_def)
qed

text \<open>The loop over the lengths finds what the search of the reference finds.\<close>

lemma cidr_loop_ok:
  assumes ok: "server_ok K pend m" and a: "host_addr a" and ns: "\<forall>n \<in> set ns. n \<le> 128"
  shows "\<exists>m1. cidr_loop now a ns m = Some (first_some (map (\<lambda>n. learned m (masked a n)) ns), m1) \<and> touched m m1
           \<and> routes m1 = routes m"
  using ok ns
proof (induction ns arbitrary: m)
  case Nil
  then show ?case by (simp add: touched_same server_okD(1))
next
  case (Cons n ns)
  note b = server_okD(1) [OF Cons.prems(1)]
  have n: "n \<le> 128" using Cons.prems(2) by simp
  note ms = masked_spec(1,2) [OF a n]
  let ?k = "masked a n"
  obtain h1 where h: "hash_lookup (mc_vhash m) ?k = Some (routes m ?k, h1)" "touched m (m\<lparr>mc_vhash := h1\<rparr>)" "hash_map h1 = routes m"
    using lookup_keeps [OF b] by blast
  let ?m1 = "m\<lparr>mc_vhash := h1\<rparr>"
  have l1: "learned ?m1 = learned m" by (rule touched_learned [OF h(2)])
  obtain m2 where m2: "cidr_loop now a ns ?m1 = Some (first_some (map (\<lambda>n. learned m (masked a n)) ns), m2)" "touched ?m1 m2"
    "routes m2 = routes ?m1"
    using Cons.IH [OF touched_ok(1) [OF Cons.prems(1) h(2)]] Cons.prems(2) l1 by auto
  have m2': "touched m m2" "routes m2 = routes m"
    using m2(2,3) h(2,3) same_but_routes_trans [of m ?m1 m2] by (auto simp: touched_def intro: touched_same)
  show ?case
  proof (cases "routes m ?k")
    case None
    then have "learned m ?k = None" by (simp add: learned_def)
    then show ?thesis using None ms h(1) m2(1) m2' by simp
  next
    case (Some r)
    have f: "rt_flags r = 0 \<or> cached r" "\<not> cached r" using server_okD(5) [OF Cons.prems(1) Some] ms(2)
      by (auto simp: route_ok_def split: if_splits)
    have d: "multi_route_defined now (mc_route_helper m) (mc_instances m) r = Some (live (mc_instances m) (rt_instance r) \<noteq> None)"
      using route_defined [OF b Some] f by auto
    show ?thesis
    proof (cases "live (mc_instances m) (rt_instance r) \<noteq> None")
      case True
      then have "learned m ?k = Some (rt_instance r)" using Some f(2) by (simp add: learned_def)
      then show ?thesis using True Some ms h d by simp
    next
      case False
      then have "learned m ?k = None" using Some by (simp add: learned_def)
      then show ?thesis using False Some ms h(1) d m2(1) m2' by simp
    qed
  qed
qed

lemma not_halted_live: "live (mc_instances m) j \<noteq> None \<Longrightarrow> not_halted (Some j, m) = Some (Some j, m)"
  by (auto simp: not_halted_def live_def split: option.splits if_splits)

lemma first_some_in: "first_some (map f xs) = Some y \<Longrightarrow> \<exists>x \<in> set xs. f x = Some y"
proof (induction xs)
  case (Cons x xs)
  then show ?case by (cases "f x") auto
qed simp

lemma learned_live: "learned m k = Some j \<Longrightarrow> live (mc_instances m) j \<noteq> None"
  by (auto simp: learned_def split: option.splits if_splits)

text \<open>The search of the subnets, with the host route it caches.\<close>

lemma cidr_lookup_ok:
  assumes ok: "server_ok K pend m" and a: "cidr \<Longrightarrow> host_addr a" and free: "learned m a = None"
  shows "\<exists>m1. Option.bind (cidr_lookup script now a cidr m) not_halted = Some (if cidr then net_owner m a else None, m1)
           \<and> server_ok K pend m1 \<and> same_but_routes m m1 \<and> learned m1 = learned m \<and> (coherent m \<longrightarrow> coherent m1)"
proof (cases cidr)
  case False
  then show ?thesis using ok by (simp add: cidr_lookup_def not_halted_def)
next
  case True
  have le: "\<forall>n \<in> set (net_lens (mc_route_helper m)). n \<le> 128"
    using net_lens_range(1) [OF server_okD(2) [OF ok]] by blast
  obtain m1 where m1: "cidr_loop now a (net_lens (mc_route_helper m)) m = Some (net_owner m a, m1)" "touched m m1"
    using cidr_loop_ok [OF ok a [OF True] le] by (auto simp: net_owner_def)
  note t = touched_ok [OF ok m1(2)] touched_learned [OF m1(2)]
  have s: "same_but_routes m m1" using m1(2) by (simp add: touched_def)
  show ?thesis
  proof (cases "net_owner m a")
    case None
    then have "cidr_lookup script now a cidr m = Some (None, m1)" using True m1(1) by (simp add: cidr_lookup_def)
    then show ?thesis using True None t s by (simp add: not_halted_def)
  next
    case (Some j)
    then obtain n where "learned m (masked a n) = Some j" by (auto simp: net_owner_def dest: first_some_in)
    then have j: "live (mc_instances m1) j \<noteq> None" using learned_live s by (fastforce simp: same_but_routes_def)
    have own: "net_owner m1 a = Some j"
      using net_owner_same [OF ok a [OF True], of m1] s t(3) Some by (simp add: same_but_routes_def)
    obtain owner m2 where m2: "multi_learn_addr script now j a (MULTI_ROUTE_CACHE OR MULTI_ROUTE_AGEABLE) m1 = Some (owner, m2)"
      "server_ok K pend m2" "same_but_routes m1 m2" "learned m2 = learned m1" "coherent m1 \<longrightarrow> coherent m2"
      using learn_cached_ok [OF t(1) j a [OF True], of script now] free t(3) own by auto
    have "cidr_lookup script now a cidr m = Some (Some j, m2)"
      using True m1(1) Some m2(1) by (simp add: cidr_lookup_def)
    moreover have "live (mc_instances m2) j \<noteq> None" using j m2(3) by (simp add: same_but_routes_def)
    ultimately show ?thesis
      using True Some m2 t same_but_routes_trans [OF s m2(3)] by (simp add: not_halted_live)
  qed
qed

text \<open>What a lookup answers, as long as the cached routes are coherent.\<close>

definition route_to :: "multi_context \<Rightarrow> mroute_addr \<Rightarrow> nat option" where
  "route_to m a = (if mroute_addr_equal a (mc_local m) then None
     else case learned m a of Some j \<Rightarrow> Some j | None \<Rightarrow> net_owner m a)"

lemma lookup_ok:
  assumes ok: "server_ok K pend m" and a: "cidr \<Longrightarrow> host_addr a"
  shows "\<exists>ret m1. multi_get_instance_by_virtual_addr script now a cidr m = Some (ret, m1)
           \<and> server_ok K pend m1 \<and> same_but_routes m m1 \<and> learned m1 = learned m \<and> (coherent m \<longrightarrow> coherent m1)
           \<and> (coherent m \<and> cidr \<longrightarrow> ret = route_to m a)"
proof (cases "mroute_addr_equal a (mc_local m)")
  case True
  then show ?thesis using ok by (simp add: multi_get_instance_by_virtual_addr_def route_to_def)
next
  case remote: False
  note b = server_okD(1) [OF ok]
  obtain h1 where h: "hash_lookup (mc_vhash m) a = Some (routes m a, h1)" "touched m (m\<lparr>mc_vhash := h1\<rparr>)" "hash_map h1 = routes m"
    using lookup_keeps [OF b] by blast
  let ?m1 = "m\<lparr>mc_vhash := h1\<rparr>"
  note t = touched_ok [OF ok h(2)] touched_learned [OF h(2)]
  have s1: "same_but_routes m ?m1" using h(2) by (simp add: touched_def)
  have search: ?thesis if free: "learned m a = None"
    and run: "multi_get_instance_by_virtual_addr script now a cidr m = Option.bind (cidr_lookup script now a cidr ?m1) not_halted"
  proof -
    have o1: "cidr \<Longrightarrow> net_owner ?m1 a = net_owner m a" using net_owner_same [OF ok a, of ?m1] s1 t(3) by (simp add: same_but_routes_def)
    obtain m2 where "Option.bind (cidr_lookup script now a cidr ?m1) not_halted = Some (if cidr then net_owner ?m1 a else None, m2)"
      "server_ok K pend m2" "same_but_routes ?m1 m2" "learned m2 = learned ?m1" "coherent ?m1 \<longrightarrow> coherent m2"
      using cidr_lookup_ok [OF t(1) a, of cidr script now] free t(3) by auto
    then show ?thesis
      using run o1 t same_but_routes_trans [OF s1, of m2] free remote by (simp add: route_to_def)
  qed
  show ?thesis
  proof (cases "routes m a")
    case None
    then show ?thesis
      using remote h(1) by (intro search) (simp_all add: learned_def multi_get_instance_by_virtual_addr_def)
  next
    case (Some r)
    note d = route_defined [OF b Some, of now "mc_route_helper m"]
    have plain: "\<not> cached r \<Longrightarrow> rt_flags r = 0" using server_okD(5) [OF ok Some] by (simp add: route_ok_def)
    show ?thesis
    proof (cases "multi_route_defined now (mc_route_helper m) (mc_instances m) r = Some True")
      case False
      then have "multi_route_defined now (mc_route_helper m) (mc_instances m) r = Some False"
        using d by (cases "multi_route_defined now (mc_route_helper m) (mc_instances m) r") auto
      moreover from this have "learned m a = None" using d plain Some by (auto simp: learned_def)
      ultimately show ?thesis
        using remote h(1) Some by (intro search) (simp_all add: multi_get_instance_by_virtual_addr_def)
    next
      case True
      then have c: "live (mc_instances m) (rt_instance r) \<noteq> None"
        "cached r \<Longrightarrow> rt_cache_generation r = mh_cache_generation (mc_route_helper m)" using d by auto
      have r1: "routes ?m1 a = Some r" using h(3) Some by simp
      have b1: "base_ok ?m1" using h(2) by (simp add: touched_def)
      obtain h2 where h2: "touch_route now a r h1 = Some h2" "touched ?m1 (?m1\<lparr>mc_vhash := h2\<rparr>)"
        using touch_ok [OF b1 r1, of now] by auto
      let ?m2 = "m\<lparr>mc_vhash := h2\<rparr>"
      have t2: "touched ?m1 ?m2" using h2(2) by simp
      note t2 = touched_ok [OF t(1) t2] touched_learned [OF t2]
      have s2: "same_but_routes m ?m2" by (simp add: same_but_routes_def)
      have "multi_get_instance_by_virtual_addr script now a cidr m = Some (Some (rt_instance r), ?m2)"
        using remote h(1) Some True h2(1) c(1) by (simp add: multi_get_instance_by_virtual_addr_def not_halted_live)
      moreover have "Some (rt_instance r) = route_to m a" if "coherent m" "cidr"
      proof (cases "cached r")
        case True
        then have "net_owner m a = Some (rt_instance r)"
          using coherentD(2) [OF that(1) Some a [OF that(2)]] c by (simp add: current_def)
        then show ?thesis using True Some remote by (simp add: route_to_def learned_def)
      next
        case False
        then show ?thesis using Some remote c(1) by (simp add: route_to_def learned_def)
      qed
      ultimately show ?thesis using t t2 s2 by simp
    qed
  qed
qed

end
