(* ===== verification/Server_Routes.thy ===== *)
theory Server_Routes
  imports Client_Routes
begin

text \<open>
  The routing table while clients come and go: the routes of their configuration, connecting,
  leaving, and the reaper, as the events of a server that starts with an empty table.

  The lemmas: every event keeps the invariants of \<open>Client_Routes\<close>. So no sequence of them trips an
  assertion or uses a freed instance, and, as long as the generation of the helper does not wrap
  around and no route is dropped as stale, every lookup finds the longest prefix.
\<close>

subsection \<open>Routes of the configuration\<close>

text \<open>The sum over the instances, when one of them changes.\<close>

definition part :: "multi_instance option \<Rightarrow> nat \<Rightarrow> int" where
  "part x n = (case x of None \<Rightarrow> 0
     | Some c \<Rightarrow> if in_did_iroutes c then int (count_list (prefix_lens c) (int n)) else 0)"

lemma usage_parts:
  assumes "finite A" "users L \<subseteq> A"
  shows "usage L n = (\<Sum>j \<in> A. part (L j) n)"
proof -
  have "usage L n = (\<Sum>j \<in> users L. part (L j) n)"
    unfolding usage_def by (intro sum.cong refl) (auto simp: users_def part_def)
  also have "\<dots> = (\<Sum>j \<in> A. part (L j) n)"
    by (rule sum.mono_neutral_left [OF assms]) (auto simp: users_def part_def split: option.split)
  finally show ?thesis .
qed

lemma usage_upd:
  assumes "finite (dom L)"
  shows "usage (L(j := x)) n = usage L n - part (L j) n + part x n"
proof -
  have f: "finite (insert j (dom L))" using assms by simp
  have u: "users L \<subseteq> insert j (dom L)" "users (L(j := x)) \<subseteq> insert j (dom L)" by (auto simp: users_def split: if_splits)
  have "usage (L(j := x)) n = part x n + (\<Sum>i \<in> insert j (dom L) - {j}. part ((L(j := x)) i) n)"
    unfolding usage_parts [OF f u(2)] using sum.remove [OF f, of j "\<lambda>i. part ((L(j := x)) i) n"] by simp
  also have "(\<Sum>i \<in> insert j (dom L) - {j}. part ((L(j := x)) i) n) = (\<Sum>i \<in> insert j (dom L) - {j}. part (L i) n)"
    by (intro sum.cong refl) auto
  also have "\<dots> = usage L n - part (L j) n"
    unfolding usage_parts [OF f u(1)] using sum.remove [OF f, of j "\<lambda>i. part (L i) n"] by simp
  finally show ?thesis by linarith
qed

lemma live_upd: "live (ins(j \<mapsto> mi)) = (live ins)(j := if in_halt mi then None else Some (core mi))"
  by (auto simp: live_def)

lemma live_fin: "finite (dom ins) \<Longrightarrow> finite (dom (live ins))"
  by (erule rev_finite_subset) (auto simp: live_def split: option.splits)

lemma core_fields [simp]:
  "in_halt (core c) = in_halt c" "in_did_iroutes (core c) = in_did_iroutes c" "in_iroutes (core c) = in_iroutes c"
  "in_iroutes_ipv6 (core c) = in_iroutes_ipv6 c" "prefix_lens (core c) = prefix_lens c" "iroutes_ok K (core c) = iroutes_ok K c"
  "core (core c) = core c"
  by (simp_all add: core_def prefix_lens_def iroutes_ok_def)

text \<open>The helper counts one more prefix length; the cache is empty then, unless the generation wraps around.\<close>

lemma bump_ok:
  assumes ok: "server_ok K pend m" and n: "n \<le> 128"
  shows "\<exists>mh. mroute_helper_add_iroute46 (mc_route_helper m) n = Some mh
           \<and> server_ok K (\<lambda>k. pend k - (if int k = n then 1 else 0)) (set_helper mh m)
           \<and> (n < 0 \<longrightarrow> mh = mc_route_helper m)
           \<and> (n \<ge> 0 \<longrightarrow> mh_cache_generation mh = mh_cache_generation (mc_route_helper m) + 1)"
proof -
  let ?h = "mc_route_helper m"
  have hok: "helper_ok ?h" by (rule server_okD(2) [OF ok])
  have "mroute_helper_add_iroute46 ?h n \<noteq> None"
    using n by (simp add: mroute_helper_add_iroute46_def MR_HELPER_NET_LEN_def Let_def)
  then obtain mh where mh: "mroute_helper_add_iroute46 ?h n = Some mh" by blast
  note a = add_iroute_ok [OF hok mh]
  have cnt: "mh_net_len_refcount mh ! k = mh_net_len_refcount ?h ! k + (if int k = n then 1 else 0)" if "k < MR_HELPER_NET_LEN" for k
    using a(2,3) hok that by (cases "n \<ge> 0") (auto simp: helper_ok_def nth_list_update)
  have "route_ok (set_helper mh m) = route_ok m" by (simp add: route_ok_def set_helper_def fun_eq_iff)
  then have "server_ok K (\<lambda>k. pend k - (if int k = n then 1 else 0)) (set_helper mh m)"
    using ok a(1) cnt by (auto simp: server_ok_def set_helper_def base_ok_def)
  then show ?thesis using mh a(2,3) by auto
qed

lemma bump_no_current:
  assumes c: "coherent m" and g: "mh_cache_generation mh = mh_cache_generation (mc_route_helper m) + 1"
    and w: "unat (mh_cache_generation (mc_route_helper m)) + 1 < 2 ^ 32"
  shows "no_current (set_helper mh m)" "unat (mh_cache_generation mh) = unat (mh_cache_generation (mc_route_helper m)) + 1"
proof -
  show u: "unat (mh_cache_generation mh) = unat (mh_cache_generation (mc_route_helper m)) + 1"
    using w unfolding g by (simp add: unat_word_ariths)
  show "no_current (set_helper mh m)"
    unfolding no_current_def
  proof (intro allI impI)
    fix k r assume "routes (set_helper mh m) k = Some r" "cached r"
    then show "unat (rt_cache_generation r) < unat (mh_cache_generation (mc_route_helper (set_helper mh m)))"
      using coherentD(1) [OF c, of k r] u by (auto simp: set_helper_def)
  qed
qed

text \<open>The generation so far, and the generations that are left.\<close>

definition gens_left :: "nat \<Rightarrow> multi_context \<Rightarrow> bool" where
  "gens_left n m = (unat (mh_cache_generation (mc_route_helper m)) + n < 2 ^ 32)"

text \<open>One route of the configuration: the helper counts it, then it is learned.\<close>

lemma iroute_step_ok:
  assumes ok: "server_ok K pend m" and n: "n \<le> 128" and c: "live (mc_instances m) mi = Some c"
    and d: "in_did_iroutes c" "n \<in> set (prefix_lens c)"
    and a: "has_netbits a \<longleftrightarrow> n \<ge> 0" "n \<ge> 0 \<Longrightarrow> uint (ma_netbits a) = n"
  shows "\<exists>mh owner m1. mroute_helper_add_iroute46 (mc_route_helper m) n = Some mh
           \<and> multi_learn_addr script now mi a 0 (set_helper mh m) = Some (owner, m1)
           \<and> server_ok K (\<lambda>k. pend k - (if int k = n then 1 else 0)) m1
           \<and> live (mc_instances m1) = live (mc_instances m)
           \<and> (coherent m \<and> gens_left (Suc l) m \<longrightarrow> coherent m1 \<and> gens_left l m1)"
proof -
  let ?pend = "\<lambda>k. pend k - (if int k = n then 1 else 0)"
  obtain mh where mh: "mroute_helper_add_iroute46 (mc_route_helper m) n = Some mh"
    "server_ok K ?pend (set_helper mh m)" "n < 0 \<longrightarrow> mh = mc_route_helper m"
    "n \<ge> 0 \<longrightarrow> mh_cache_generation mh = mh_cache_generation (mc_route_helper m) + 1"
    using bump_ok [OF ok n] by blast
  have live: "live (mc_instances (set_helper mh m)) mi = Some c" using c by (simp add: set_helper_def)
  obtain owner m1 where m1: "multi_learn_addr script now mi a 0 (set_helper mh m) = Some (owner, m1)"
    "server_ok K ?pend m1" "same_but_routes (set_helper mh m) m1"
    "no_current (set_helper mh m) \<longrightarrow> no_current m1"
    "\<not> has_netbits a \<and> coherent (set_helper mh m) \<longrightarrow> coherent m1"
    using learn_ok [OF mh(2) live, of a script now] d a by auto
  have "coherent m1 \<and> gens_left l m1" if h: "coherent m" "gens_left (Suc l) m"
  proof (cases "n \<ge> 0")
    case True
    have w: "unat (mh_cache_generation (mc_route_helper m)) + 1 < 2 ^ 32" using h(2) by (simp add: gens_left_def)
    note b = bump_no_current [OF h(1) mh(4) [rule_format, OF True] w]
    then have "coherent m1" using m1(4) no_current_coherent by blast
    then show ?thesis using b(2) m1(3) h(2) by (simp add: gens_left_def same_but_routes_def set_helper_def)
  next
    case False
    then have "set_helper mh m = m" using mh(3) by (simp add: set_helper_def)
    then show ?thesis using False a(1) m1(3,5) h by (simp add: gens_left_def same_but_routes_def)
  qed
  then show ?thesis using mh(1) m1(1,2,3) by (simp add: same_but_routes_def set_helper_def)
qed

lemma with_netbits_fields:
  assumes "0 \<le> n" "n \<le> 128"
  shows "has_netbits (with_netbits n a)" "uint (ma_netbits (with_netbits n a)) = n"
proof -
  have "(t OR MR_WITH_NETBITS) AND MR_WITH_NETBITS = MR_WITH_NETBITS" for t :: byte
    by (rule bit_word_eqI) (auto simp: bit_simps)
  then show "has_netbits (with_netbits n a)" by (simp add: with_netbits_def MR_WITH_NETBITS_def)
  show "uint (ma_netbits (with_netbits n a)) = n"
    using assms unfolding with_netbits_def by (simp add: uint_word_of_int)
qed

lemma host_put_addr:
  "length bs = 4 \<Longrightarrow> host_addr (put_addr MR_ADDR_IPV4 4 bs mroute_addr_init)"
  "length bs = 16 \<Longrightarrow> host_addr (put_addr MR_ADDR_IPV6 16 bs mroute_addr_init)"
  by (simp_all add: host_addr_def put_addr_def mroute_addr_init_def mem_write_def MR_MAX_ADDR_LEN_def)

lemma learn_in_addr:
  assumes "n \<le> 128"
  shows "\<exists>a. (\<forall>m. multi_learn_in_addr_t script now mi net n m = multi_learn_addr script now mi a 0 m)
           \<and> (has_netbits a \<longleftrightarrow> n \<ge> 0) \<and> (n \<ge> 0 \<longrightarrow> uint (ma_netbits a) = n)"
proof -
  let ?a = "put_addr MR_ADDR_IPV4 4 (be32 net) mroute_addr_init"
  have "host_addr ?a" by (rule host_put_addr) simp
  then have "\<not> has_netbits ?a" by (rule with_netbits_type(3))
  then show ?thesis
    using assms with_netbits_fields [of n ?a]
    by (intro exI [of _ "if n \<ge> 0 then with_netbits n ?a else ?a"])
      (simp add: multi_learn_in_addr_t_def mroute_extract_openvpn_sockaddr_def)
qed

lemma learn_in6_addr:
  assumes "n \<le> 128" "length net = 16"
  shows "\<exists>a. (\<forall>m. multi_learn_in6_addr script now mi net n m = multi_learn_addr script now mi a 0 m)
           \<and> (has_netbits a \<longleftrightarrow> n \<ge> 0) \<and> (n \<ge> 0 \<longrightarrow> uint (ma_netbits a) = n)"
proof -
  let ?a = "put_addr MR_ADDR_IPV6 16 net mroute_addr_init"
  have h: "host_addr ?a" by (rule host_put_addr) (rule assms(2))
  show ?thesis
  proof (cases "n \<ge> 0")
    case True
    then have n: "int (nat n) = n" "nat n \<le> 128" using assms(1) by simp_all
    note ms = masked_spec(1-3) [OF h n(2), unfolded n(1)]
    have "uint (ma_netbits (masked ?a (nat n))) = n"
      using True assms(1) unfolding ms(3) uint_word_of_int by simp
    then show ?thesis using True ms(1,2)
      by (intro exI [of _ "masked ?a (nat n)"]) (simp add: multi_learn_in6_addr_def Let_def)
  next
    case False
    then show ?thesis using with_netbits_type(3) [OF h]
      by (intro exI [of _ ?a]) (simp add: multi_learn_in6_addr_def Let_def)
  qed
qed

lemma iroutes_okD:
  assumes "iroutes_ok K c"
  shows "(net, n) \<in> set (in_iroutes c) \<Longrightarrow> n \<le> 128 \<and> n \<in> set (prefix_lens c)"
    "(net6, n) \<in> set (in_iroutes_ipv6 c) \<Longrightarrow> n \<le> 128 \<and> length net6 = 16 \<and> n \<in> set (prefix_lens c)"
    "length (in_iroutes c) + length (in_iroutes_ipv6 c) \<le> K"
proof -
  show "n \<le> 128 \<and> n \<in> set (prefix_lens c)" if x: "(net, n) \<in> set (in_iroutes c)"
  proof -
    have "n \<le> 32" using assms x unfolding iroutes_ok_def by blast
    moreover have "n \<in> snd ` set (in_iroutes c)" using x by (rule rev_image_eqI) simp
    ultimately show ?thesis by (simp add: prefix_lens_def)
  qed
  show "n \<le> 128 \<and> length net6 = 16 \<and> n \<in> set (prefix_lens c)" if x: "(net6, n) \<in> set (in_iroutes_ipv6 c)"
  proof -
    have "n \<le> 128 \<and> length net6 = 16" using assms x unfolding iroutes_ok_def by blast
    moreover have "n \<in> snd ` set (in_iroutes_ipv6 c)" using x by (rule rev_image_eqI) simp
    ultimately show ?thesis by (simp add: prefix_lens_def)
  qed
  show "length (in_iroutes c) + length (in_iroutes_ipv6 c) \<le> K"
    using assms by (simp add: iroutes_ok_def prefix_lens_def)
qed

text \<open>The routes of a client, all of them counted and learned.\<close>

lemma add_iroutes_ok:
  assumes "server_ok K (\<lambda>k. int (count_list (map snd irs) (int k)) + rest k) m" "live (mc_instances m) mi = Some c"
    "in_did_iroutes c" "set irs \<subseteq> set (in_iroutes c)"
  shows "\<exists>m1. add_iroutes_loop script now mi irs m = Some m1 \<and> server_ok K rest m1
           \<and> live (mc_instances m1) = live (mc_instances m)
           \<and> (coherent m \<and> gens_left (length irs + l) m \<longrightarrow> coherent m1 \<and> gens_left l m1)"
  using assms
proof (induction irs arbitrary: m)
  case Nil
  then show ?case by simp
next
  case (Cons x irs)
  obtain net n where x: "x = (net, n)" by force
  have "iroutes_ok K c" using server_okD(4) [OF Cons.prems(1,2)] by blast
  then have n: "n \<le> 128" "n \<in> set (prefix_lens c)"
    using Cons.prems(4) x iroutes_okD by auto
  obtain a where a: "\<forall>m. multi_learn_in_addr_t script now mi net n m = multi_learn_addr script now mi a 0 m"
    "has_netbits a \<longleftrightarrow> n \<ge> 0" "n \<ge> 0 \<longrightarrow> uint (ma_netbits a) = n" using learn_in_addr [OF n(1)] by blast
  obtain mh owner m1 where m1: "mroute_helper_add_iroute46 (mc_route_helper m) n = Some mh"
    "multi_learn_addr script now mi a 0 (set_helper mh m) = Some (owner, m1)"
    "server_ok K (\<lambda>k. int (count_list (map snd (x # irs)) (int k)) + rest k - (if int k = n then 1 else 0)) m1"
    "live (mc_instances m1) = live (mc_instances m)"
    "coherent m \<and> gens_left (Suc (length irs + l)) m \<longrightarrow> coherent m1 \<and> gens_left (length irs + l) m1"
    using iroute_step_ok [OF Cons.prems(1) n(1) Cons.prems(2,3) n(2) a(2) a(3) [rule_format], of script now "length irs + l"]
    by blast
  have "(\<lambda>k. int (count_list (map snd (x # irs)) (int k)) + rest k - (if int k = n then 1 else 0))
      = (\<lambda>k. int (count_list (map snd irs) (int k)) + rest k)" using x by (auto simp: fun_eq_iff)
  then have ok1: "server_ok K (\<lambda>k. int (count_list (map snd irs) (int k)) + rest k) m1" using m1(3) by simp
  obtain m2 where m2: "add_iroutes_loop script now mi irs m1 = Some m2" "server_ok K rest m2"
    "live (mc_instances m2) = live (mc_instances m1)"
    "coherent m1 \<and> gens_left (length irs + l) m1 \<longrightarrow> coherent m2 \<and> gens_left l m2"
    using Cons.IH [OF ok1] Cons.prems(2-4) m1(4) by auto
  have "add_iroutes_loop script now mi (x # irs) m = Some m2" using m1(1,2) m2(1) x a(1) by simp
  then show ?case using m1(4,5) m2(2-4) by auto
qed

lemma add_iroutes6_ok:
  assumes "server_ok K (\<lambda>k. int (count_list (map snd irs) (int k)) + rest k) m" "live (mc_instances m) mi = Some c"
    "in_did_iroutes c" "set irs \<subseteq> set (in_iroutes_ipv6 c)"
  shows "\<exists>m1. add_iroutes6_loop script now mi irs m = Some m1 \<and> server_ok K rest m1
           \<and> live (mc_instances m1) = live (mc_instances m)
           \<and> (coherent m \<and> gens_left (length irs + l) m \<longrightarrow> coherent m1 \<and> gens_left l m1)"
  using assms
proof (induction irs arbitrary: m)
  case Nil
  then show ?case by simp
next
  case (Cons x irs)
  obtain net n where x: "x = (net, n)" by force
  have "iroutes_ok K c" using server_okD(4) [OF Cons.prems(1,2)] by blast
  then have n: "n \<le> 128" "n \<in> set (prefix_lens c)" "length net = 16"
    using Cons.prems(4) x iroutes_okD by auto
  obtain a where a: "\<forall>m. multi_learn_in6_addr script now mi net n m = multi_learn_addr script now mi a 0 m"
    "has_netbits a \<longleftrightarrow> n \<ge> 0" "n \<ge> 0 \<longrightarrow> uint (ma_netbits a) = n" using learn_in6_addr [OF n(1,3)] by blast
  obtain mh owner m1 where m1: "mroute_helper_add_iroute46 (mc_route_helper m) n = Some mh"
    "multi_learn_addr script now mi a 0 (set_helper mh m) = Some (owner, m1)"
    "server_ok K (\<lambda>k. int (count_list (map snd (x # irs)) (int k)) + rest k - (if int k = n then 1 else 0)) m1"
    "live (mc_instances m1) = live (mc_instances m)"
    "coherent m \<and> gens_left (Suc (length irs + l)) m \<longrightarrow> coherent m1 \<and> gens_left (length irs + l) m1"
    using iroute_step_ok [OF Cons.prems(1) n(1) Cons.prems(2,3) n(2) a(2) a(3) [rule_format], of script now "length irs + l"]
    by blast
  have "(\<lambda>k. int (count_list (map snd (x # irs)) (int k)) + rest k - (if int k = n then 1 else 0))
      = (\<lambda>k. int (count_list (map snd irs) (int k)) + rest k)" using x by (auto simp: fun_eq_iff)
  then have ok1: "server_ok K (\<lambda>k. int (count_list (map snd irs) (int k)) + rest k) m1" using m1(3) by simp
  obtain m2 where m2: "add_iroutes6_loop script now mi irs m1 = Some m2" "server_ok K rest m2"
    "live (mc_instances m2) = live (mc_instances m1)"
    "coherent m1 \<and> gens_left (length irs + l) m1 \<longrightarrow> coherent m2 \<and> gens_left l m2"
    using Cons.IH [OF ok1] Cons.prems(2-4) m1(4) by auto
  have "add_iroutes6_loop script now mi (x # irs) m = Some m2" using m1(1,2) m2(1) x a(1) by simp
  then show ?case using m1(4,5) m2(2-4) by auto
qed

text \<open>Marking the client before its routes are added makes all of them due.\<close>

lemma mark_iroutes_ok:
  assumes ok: "server_ok K (\<lambda>n. 0) m" and mi: "mc_instances m mi = Some c" "\<not> in_halt c" "\<not> in_did_iroutes c"
    and tun: "mc_dev_tun m"
  defines "m1 \<equiv> m\<lparr>mc_instances := (mc_instances m)(mi \<mapsto> c\<lparr>in_did_iroutes := True\<rparr>)\<rparr>"
  shows "server_ok K (\<lambda>n. int (count_list (prefix_lens c) (int n))) m1"
    "live (mc_instances m1) mi = Some (core (c\<lparr>in_did_iroutes := True\<rparr>))"
    "coherent m \<Longrightarrow> coherent m1" "mc_route_helper m1 = mc_route_helper m"
proof -
  let ?c = "c\<lparr>in_did_iroutes := True\<rparr>"
  note b = server_okD(1) [OF ok, unfolded base_ok_def]
  have pl: "prefix_lens ?c = prefix_lens c" "iroutes_ok K ?c = iroutes_ok K c" "in_halt ?c = in_halt c"
    by (simp_all add: prefix_lens_def iroutes_ok_def)
  have l: "live (mc_instances m) mi = Some (core c)" using mi by (simp add: live_def)
  have l1: "live (mc_instances m1) = (live (mc_instances m))(mi \<mapsto> core ?c)"
    unfolding m1_def using mi(2) by (simp add: live_upd)
  then show "live (mc_instances m1) mi = Some (core ?c)" by simp
  show "mc_route_helper m1 = mc_route_helper m" by (simp add: m1_def)
  have ic: "inst_ok c (refs_to (mc_vhash m) mi)" using b counts_okD(3) mi(1) by blast
  have "counts_ok ((mc_instances m)(mi \<mapsto> ?c)) ((refs_to (mc_vhash m))(mi := refs_to (mc_vhash m) mi))"
    using b ic refs_to_nonneg by (intro counts_upd(1)) (auto simp: inst_ok_def)
  then have b1: "base_ok m1" using b by (simp add: base_ok_def m1_def)
  have u: "usage (live (mc_instances m1)) n = usage (live (mc_instances m)) n + int (count_list (prefix_lens c) (int n))" for n
    unfolding l1 usage_upd [OF live_fin [OF b [THEN conjunct2, THEN conjunct2]]]
    using l mi(3) pl by (simp add: part_def)
  have ir: "iroutes_ok K c" using server_okD(4) [OF ok l] by simp
  have r1: "routes m1 = routes m" by (simp add: m1_def)
  have "route_ok m1 k r" if r: "routes m k = Some r" for k r
    using server_okD(5) [OF ok r] l mi(3) l1 by (auto simp: route_ok_def m1_def)
  moreover have "live (mc_instances m1) j = Some c' \<Longrightarrow> iroutes_ok K c' \<and> (in_did_iroutes c' \<longrightarrow> mc_dev_tun m1)" for j c'
    using server_okD(4) [OF ok, of j c'] ir tun pl unfolding l1 by (auto simp: m1_def split: if_splits)
  ultimately show "server_ok K (\<lambda>n. int (count_list (prefix_lens c) (int n))) m1"
    using ok b1 u r1 by (simp add: server_ok_def m1_def)
  have alive: "(live (mc_instances m1) j \<noteq> None) = (live (mc_instances m) j \<noteq> None)" for j
    using l by (simp add: l1)
  have "learned m1 k = learned m k" for k
    using alive r1 by (simp add: learned_def split: option.split)
  then have "net_owner m1 k = net_owner m k" if "host_addr k" for k
    using net_owner_same [OF ok that, of m1] by (simp add: m1_def)
  then show "coherent m1" if c: "coherent m"
    using coherentD [OF c] alive by (intro coherentI) (auto simp: current_def r1, auto simp: m1_def)
qed

lemma add_all_iroutes_ok:
  assumes ok: "server_ok K (\<lambda>n. 0) m" and mi: "mc_instances m mi = Some c" "\<not> in_halt c" "\<not> in_did_iroutes c"
  shows "\<exists>m1. multi_add_iroutes script now mi m = Some m1 \<and> server_ok K (\<lambda>n. 0) m1
           \<and> (coherent m \<and> gens_left (K + l) m \<longrightarrow> coherent m1 \<and> gens_left l m1)"
proof (cases "mc_dev_tun m")
  case False
  then show ?thesis using ok mi by (auto simp: multi_add_iroutes_def gens_left_def)
next
  case True
  let ?c = "c\<lparr>in_did_iroutes := True\<rparr>"
  define m1 where "m1 = m\<lparr>mc_instances := (mc_instances m)(mi \<mapsto> ?c)\<rparr>"
  note k = mark_iroutes_ok [OF ok mi True, folded m1_def]
  have "prefix_lens c = map snd (in_iroutes c) @ map snd (in_iroutes_ipv6 c)" by (simp add: prefix_lens_def)
  then have ok1: "server_ok K (\<lambda>k. int (count_list (map snd (in_iroutes c)) (int k))
      + int (count_list (map snd (in_iroutes_ipv6 c)) (int k))) m1" using k(1) by (simp add: count_list_append)
  have did: "in_did_iroutes (core ?c)" "set (in_iroutes c) \<subseteq> set (in_iroutes (core ?c))"
    "set (in_iroutes_ipv6 c) \<subseteq> set (in_iroutes_ipv6 (core ?c))" by simp_all
  let ?l6 = "length (in_iroutes_ipv6 c)"
  obtain m2 where m2: "add_iroutes_loop script now mi (in_iroutes c) m1 = Some m2"
    "server_ok K (\<lambda>k. int (count_list (map snd (in_iroutes_ipv6 c)) (int k))) m2"
    "live (mc_instances m2) = live (mc_instances m1)"
    "coherent m1 \<and> gens_left (length (in_iroutes c) + (?l6 + l)) m1 \<longrightarrow> coherent m2 \<and> gens_left (?l6 + l) m2"
    using add_iroutes_ok [OF ok1 k(2) did(1,2), of script now "?l6 + l"] by blast
  have ok2: "server_ok K (\<lambda>k. int (count_list (map snd (in_iroutes_ipv6 c)) (int k)) + 0) m2" using m2(2) by simp
  have l2: "live (mc_instances m2) mi = Some (core ?c)" using m2(3) k(2) by simp
  obtain m3 where m3: "add_iroutes6_loop script now mi (in_iroutes_ipv6 c) m2 = Some m3"
    "server_ok K (\<lambda>n. 0) m3" "coherent m2 \<and> gens_left (?l6 + l) m2 \<longrightarrow> coherent m3 \<and> gens_left l m3"
    using add_iroutes6_ok [OF ok2 l2 did(1,3), of script now l] by blast
  have "live (mc_instances m) mi = Some (core c)" using mi by (simp add: live_def)
  then have "length (in_iroutes c) + ?l6 \<le> K" using server_okD(4) [OF ok, of mi "core c"] iroutes_okD(3) [of K c] by simp
  then have "coherent m3 \<and> gens_left l m3" if "coherent m" "gens_left (K + l) m"
    using that k(3,4) m2(4) m3(3) by (auto simp: gens_left_def)
  moreover have "multi_add_iroutes script now mi m = Some m3"
    using mi True m2(1) m3(1) by (simp add: multi_add_iroutes_def m1_def)
  ultimately show ?thesis using m3(2) by blast
qed

subsection \<open>Clients that come\<close>

lemma create_ok:
  assumes ok: "server_ok K (\<lambda>n. 0) m" and j: "mc_instances m j = None"
    and irs: "\<forall>(net, n) \<in> set irs. n \<le> 32" "\<forall>(net, n) \<in> set irs6. n \<le> 128 \<and> length net = 16" "length irs + length irs6 \<le> K"
  shows "server_ok K (\<lambda>n. 0) (multi_create_instance j max_routes irs irs6 m)"
    "coherent m \<Longrightarrow> coherent (multi_create_instance j max_routes irs irs6 m)"
proof -
  define c where "c = \<lparr>in_refcount = 1, in_route_count = 0, in_halt = False, in_did_iroutes = False,
          in_max_routes_per_client = max_routes, in_iroutes = irs, in_iroutes_ipv6 = irs6\<rparr>"
  define m1 where "m1 = m\<lparr>mc_instances := (mc_instances m)(j \<mapsto> c)\<rparr>"
  have m1: "multi_create_instance j max_routes irs irs6 m = m1"
    by (simp add: multi_create_instance_def m1_def c_def multi_instance_inc_refcount_def)
  note b = server_okD(1) [OF ok, unfolded base_ok_def]
  have zero: "refs_to (mc_vhash m) j = 0" using b j counts_okD(2) by blast
  have "counts_ok ((mc_instances m)(j \<mapsto> c)) ((refs_to (mc_vhash m))(j := 0))"
    using b by (intro counts_upd(1)) (auto simp: inst_ok_def c_def)
  moreover have "(refs_to (mc_vhash m))(j := 0) = refs_to (mc_vhash m)" using zero by (simp add: fun_eq_iff)
  ultimately have b1: "base_ok m1" using b by (simp add: base_ok_def m1_def)
  have old: "live (mc_instances m) j = None" using j by (simp add: live_def)
  have l1: "live (mc_instances m1) = (live (mc_instances m))(j \<mapsto> core c)"
    unfolding m1_def by (simp add: live_upd c_def)
  have ic: "iroutes_ok K c" using irs by (simp add: iroutes_ok_def prefix_lens_def c_def)
  have u: "usage (live (mc_instances m1)) n = usage (live (mc_instances m)) n" for n
    unfolding l1 usage_upd [OF live_fin [OF b [THEN conjunct2, THEN conjunct2]]] using old by (simp add: part_def c_def)
  have r1: "routes m1 = routes m" by (simp add: m1_def)
  have other: "rt_instance r \<noteq> j" if "routes m k = Some r" for k r
    using hash_map_refs [OF b [THEN conjunct1] that] zero by auto
  then have same: "live (mc_instances m1) (rt_instance r) = live (mc_instances m) (rt_instance r)" if "routes m k = Some r" for k r
    using that by (simp add: l1)
  have "route_ok m1 k r" if "routes m k = Some r" for k r
    using server_okD(5) [OF ok that] same [OF that] by (simp add: route_ok_def m1_def)
  moreover have "live (mc_instances m1) i = Some c' \<Longrightarrow> iroutes_ok K c' \<and> (in_did_iroutes c' \<longrightarrow> mc_dev_tun m1)" for i c'
    using server_okD(4) [OF ok, of i c'] ic unfolding l1 by (auto simp: m1_def c_def split: if_splits)
  ultimately show "server_ok K (\<lambda>n. 0) (multi_create_instance j max_routes irs irs6 m)"
    unfolding m1 using ok b1 u r1 by (simp add: server_ok_def m1_def)
  have "learned m1 k = learned m k" for k
    using same r1 by (simp add: learned_def split: option.split)
  then have "net_owner m1 k = net_owner m k" if "host_addr k" for k
    using net_owner_same [OF ok that, of m1] by (simp add: m1_def)
  then show "coherent m \<Longrightarrow> coherent (multi_create_instance j max_routes irs irs6 m)"
    unfolding m1 using coherentD same by (intro coherentI) (auto simp: current_def r1, auto simp: m1_def)
qed

subsection \<open>Clients that go\<close>

lemma del_iroutes_ok:
  assumes "helper_ok mh" "\<forall>n<MR_HELPER_NET_LEN. int (count_list ns (int n)) \<le> mh_net_len_refcount mh ! n" "\<forall>n \<in> set ns. n \<le> 128"
  shows "\<exists>mh1. del_iroutes_loop ns mh = Some mh1 \<and> helper_ok mh1
           \<and> (\<forall>n<MR_HELPER_NET_LEN. mh_net_len_refcount mh1 ! n = mh_net_len_refcount mh ! n - int (count_list ns (int n)))
           \<and> ((\<forall>n \<in> set ns. n < 0) \<longrightarrow> mh1 = mh)
           \<and> (unat (mh_cache_generation mh) + length ns < 2 ^ 32 \<longrightarrow>
                 unat (mh_cache_generation mh) \<le> unat (mh_cache_generation mh1)
                 \<and> unat (mh_cache_generation mh1) \<le> unat (mh_cache_generation mh) + length ns
                 \<and> ((\<exists>n \<in> set ns. n \<ge> 0) \<longrightarrow> unat (mh_cache_generation mh) < unat (mh_cache_generation mh1)))"
  using assms
proof (induction ns arbitrary: mh)
  case Nil
  then show ?case by simp
next
  case (Cons x ns)
  have x: "x \<le> 128" using Cons.prems(3) by simp
  have some: "mroute_helper_del_iroute46 mh x \<noteq> None"
  proof (cases "x \<ge> 0")
    case True
    have "nat x < MR_HELPER_NET_LEN" using x by (simp add: MR_HELPER_NET_LEN_def)
    then have "int (count_list (x # ns) (int (nat x))) \<le> mh_net_len_refcount mh ! nat x" using Cons.prems(2) by blast
    then have "0 < mh_net_len_refcount mh ! nat x" using True by simp
    then show ?thesis using True x by (simp add: mroute_helper_del_iroute46_def MR_HELPER_NET_LEN_def Let_def)
  next
    case False
    then show ?thesis by (simp add: mroute_helper_del_iroute46_def)
  qed
  then obtain mh1 where mh1: "mroute_helper_del_iroute46 mh x = Some mh1" by blast
  note d = del_iroute_ok [OF Cons.prems(1) mh1]
  have cnt: "mh_net_len_refcount mh1 ! k = mh_net_len_refcount mh ! k - (if int k = x then 1 else 0)" if "k < MR_HELPER_NET_LEN" for k
    using d(2,3) Cons.prems(1) that by (cases "x \<ge> 0") (auto simp: helper_ok_def nth_list_update)
  have "int (count_list ns (int n)) \<le> mh_net_len_refcount mh1 ! n" if "n < MR_HELPER_NET_LEN" for n
    using Cons.prems(2) [THEN spec, of n] cnt [OF that] that by (auto split: if_splits)
  then obtain mh2 where mh2: "del_iroutes_loop ns mh1 = Some mh2" "helper_ok mh2"
    "\<forall>n<MR_HELPER_NET_LEN. mh_net_len_refcount mh2 ! n = mh_net_len_refcount mh1 ! n - int (count_list ns (int n))"
    "(\<forall>n \<in> set ns. n < 0) \<longrightarrow> mh2 = mh1"
    "unat (mh_cache_generation mh1) + length ns < 2 ^ 32 \<longrightarrow>
       unat (mh_cache_generation mh1) \<le> unat (mh_cache_generation mh2)
       \<and> unat (mh_cache_generation mh2) \<le> unat (mh_cache_generation mh1) + length ns
       \<and> ((\<exists>n \<in> set ns. n \<ge> 0) \<longrightarrow> unat (mh_cache_generation mh1) < unat (mh_cache_generation mh2))"
    using Cons.IH [OF d(1)] Cons.prems(3) by auto
  have "del_iroutes_loop (x # ns) mh = Some mh2" using mh1 mh2(1) by simp
  moreover have "mh_net_len_refcount mh2 ! n = mh_net_len_refcount mh ! n - int (count_list (x # ns) (int n))"
    if "n < MR_HELPER_NET_LEN" for n using mh2(3) cnt [OF that] that by auto
  moreover have "(\<forall>n \<in> set (x # ns). n < 0) \<longrightarrow> mh2 = mh" using d(3) mh2(4) by simp
  moreover have "unat (mh_cache_generation mh) \<le> unat (mh_cache_generation mh2)
       \<and> unat (mh_cache_generation mh2) \<le> unat (mh_cache_generation mh) + length (x # ns)
       \<and> ((\<exists>n \<in> set (x # ns). n \<ge> 0) \<longrightarrow> unat (mh_cache_generation mh) < unat (mh_cache_generation mh2))"
    if w: "unat (mh_cache_generation mh) + length (x # ns) < 2 ^ 32"
  proof (cases "x \<ge> 0")
    case True
    have "unat (mh_cache_generation mh1) = unat (mh_cache_generation mh) + 1"
      using d(2) [OF True] w by (simp add: unat_word_ariths)
    then show ?thesis using mh2(5) w by auto
  next
    case False
    then show ?thesis using d(3) mh2(5) w by auto
  qed
  ultimately show ?case using mh2(2) by blast
qed

lemma usage_mono:
  assumes "finite (dom L)" "L j = Some c" "in_did_iroutes c"
  shows "int (count_list (prefix_lens c) (int n)) \<le> usage L n"
proof -
  have "j \<in> users L" using assms by (simp add: users_def)
  moreover have "finite (users L)" by (rule finite_subset [OF _ assms(1)]) (auto simp: users_def)
  ultimately show ?thesis unfolding usage_def using assms(2) member_le_sum [of j "users L" "\<lambda>j. int (count_list (prefix_lens (the (L j))) (int n))"]
    by simp
qed

text \<open>The state between the helper's count and the last reference of the instance that goes.\<close>

lemma close_counts:
  assumes ok: "base_ok m" and j: "mc_instances m j = Some c" "\<not> in_halt c" and c1: "in_halt c1" "in_refcount c1 = in_refcount c"
    "in_route_count c1 = in_route_count c"
  shows "\<exists>ins. multi_instance_dec_refcount j ((mc_instances m)(j \<mapsto> c1)) = Some ins \<and> counts_ok ins (refs_to (mc_vhash m))
           \<and> live ins = (live (mc_instances m))(j := None) \<and> finite (dom ins)"
proof -
  note b = ok [unfolded base_ok_def]
  let ?n = "refs_to (mc_vhash m) j"
  have n: "in_route_count c = ?n" "in_refcount c = ?n + 1"
    using counts_okD(3) [OF b [THEN conjunct2, THEN conjunct1] j(1)] j(2) by (simp_all add: inst_ok_def)
  have same: "(refs_to (mc_vhash m))(j := ?n) = refs_to (mc_vhash m)" by simp
  show ?thesis
  proof (cases "?n \<le> 0")
    case True
    then have z: "?n = 0" using refs_to_nonneg [of "mc_vhash m" j] by simp
    have "counts_ok ((mc_instances m)(j := None)) ((refs_to (mc_vhash m))(j := 0))" using b by (intro counts_upd(2)) blast
    then have "counts_ok ((mc_instances m)(j := None)) (refs_to (mc_vhash m))" using same z by simp
    moreover have "live ((mc_instances m)(j := None)) = (live (mc_instances m))(j := None)" by (auto simp: live_def)
    ultimately show ?thesis using z n c1 b by (simp add: multi_instance_dec_refcount_def)
  next
    case False
    let ?c = "c1\<lparr>in_refcount := in_refcount c1 - 1\<rparr>"
    have "inst_ok ?c ?n" using n c1 False by (simp add: inst_ok_def)
    then have "counts_ok ((mc_instances m)(j \<mapsto> ?c)) ((refs_to (mc_vhash m))(j := ?n))"
      using b refs_to_nonneg by (intro counts_upd(1)) auto
    moreover have "live ((mc_instances m)(j \<mapsto> ?c)) = (live (mc_instances m))(j := None)" using c1(1) by (simp add: live_upd)
    ultimately show ?thesis using n c1 False same b by (simp add: multi_instance_dec_refcount_def)
  qed
qed

lemma close_helper:
  assumes ok: "server_ok K (\<lambda>n. 0) m" and j: "mc_instances m j = Some c" "\<not> in_halt c"
  shows "\<exists>mh. (if in_did_iroutes c then multi_del_iroutes (c\<lparr>in_halt := True\<rparr>) m else Some m) = Some (set_helper mh m)
           \<and> helper_ok mh
           \<and> (\<forall>n<MR_HELPER_NET_LEN. mh_net_len_refcount mh ! n = mh_net_len_refcount (mc_route_helper m) ! n - part (Some c) n)
           \<and> (\<not> in_did_iroutes c \<or> (\<forall>n \<in> set (prefix_lens c). n < 0) \<longrightarrow> mh = mc_route_helper m)
           \<and> (gens_left K m \<longrightarrow>
                 unat (mh_cache_generation (mc_route_helper m)) \<le> unat (mh_cache_generation mh)
                 \<and> unat (mh_cache_generation mh) \<le> unat (mh_cache_generation (mc_route_helper m)) + K
                 \<and> (in_did_iroutes c \<and> (\<exists>n \<in> set (prefix_lens c). n \<ge> 0) \<longrightarrow>
                      unat (mh_cache_generation (mc_route_helper m)) < unat (mh_cache_generation mh)))"
proof (cases "in_did_iroutes c")
  case False
  have "set_helper (mc_route_helper m) m = m" by (simp add: set_helper_def)
  then show ?thesis using False server_okD(2) [OF ok]
    by (intro exI [of _ "mc_route_helper m"]) (simp add: part_def)
next
  case True
  have l: "live (mc_instances m) j = Some (core c)" using j by (simp add: live_def)
  have tun: "mc_dev_tun m" and irs: "iroutes_ok K c" using server_okD(4) [OF ok l] True by simp_all
  have fin: "finite (dom (live (mc_instances m)))" using server_okD(1) [OF ok] by (intro live_fin) (simp add: base_ok_def)
  have "int (count_list (prefix_lens c) (int n)) \<le> mh_net_len_refcount (mc_route_helper m) ! n" if "n < MR_HELPER_NET_LEN" for n
    using usage_mono [OF fin l, of n] True server_okD(3) [OF ok that] by simp
  moreover have "\<forall>n \<in> set (prefix_lens c). n \<le> 128" using iroutes_okD(1,2) [OF irs] by (auto simp: prefix_lens_def)
  ultimately obtain mh where mh: "del_iroutes_loop (prefix_lens c) (mc_route_helper m) = Some mh" "helper_ok mh"
    "\<forall>n<MR_HELPER_NET_LEN. mh_net_len_refcount mh ! n = mh_net_len_refcount (mc_route_helper m) ! n - int (count_list (prefix_lens c) (int n))"
    "(\<forall>n \<in> set (prefix_lens c). n < 0) \<longrightarrow> mh = mc_route_helper m"
    "unat (mh_cache_generation (mc_route_helper m)) + length (prefix_lens c) < 2 ^ 32 \<longrightarrow>
       unat (mh_cache_generation (mc_route_helper m)) \<le> unat (mh_cache_generation mh)
       \<and> unat (mh_cache_generation mh) \<le> unat (mh_cache_generation (mc_route_helper m)) + length (prefix_lens c)
       \<and> ((\<exists>n \<in> set (prefix_lens c). n \<ge> 0) \<longrightarrow> unat (mh_cache_generation (mc_route_helper m)) < unat (mh_cache_generation mh))"
    using del_iroutes_ok [OF server_okD(2) [OF ok], of "prefix_lens c"] by blast
  have len: "length (prefix_lens c) \<le> K" using irs by (simp add: iroutes_ok_def)
  have "multi_del_iroutes (c\<lparr>in_halt := True\<rparr>) m = Some (set_helper mh m)"
    using mh(1) tun by (simp add: multi_del_iroutes_def prefix_lens_def)
  then show ?thesis
    using True mh(2-5) len by (intro exI [of _ mh]) (auto simp: part_def gens_left_def)
qed

lemma close_ok:
  assumes ok: "server_ok K (\<lambda>n. 0) m" and j: "mc_instances m j = Some c" "\<not> in_halt c"
  shows "\<exists>m1. close_instance_routes j m = Some m1 \<and> server_ok K (\<lambda>n. 0) m1
           \<and> (coherent m \<and> gens_left (K + l) m \<longrightarrow> coherent m1 \<and> gens_left l m1)"
proof -
  note b = server_okD(1) [OF ok]
  obtain mh where mh: "(if in_did_iroutes c then multi_del_iroutes (c\<lparr>in_halt := True\<rparr>) m else Some m) = Some (set_helper mh m)"
    "helper_ok mh" "\<forall>n<MR_HELPER_NET_LEN. mh_net_len_refcount mh ! n = mh_net_len_refcount (mc_route_helper m) ! n - part (Some c) n"
    "\<not> in_did_iroutes c \<or> (\<forall>n \<in> set (prefix_lens c). n < 0) \<longrightarrow> mh = mc_route_helper m"
    "gens_left K m \<longrightarrow> unat (mh_cache_generation (mc_route_helper m)) \<le> unat (mh_cache_generation mh)
                 \<and> unat (mh_cache_generation mh) \<le> unat (mh_cache_generation (mc_route_helper m)) + K
                 \<and> (in_did_iroutes c \<and> (\<exists>n \<in> set (prefix_lens c). n \<ge> 0) \<longrightarrow>
                      unat (mh_cache_generation (mc_route_helper m)) < unat (mh_cache_generation mh))"
    using close_helper [OF ok j] by blast
  let ?c = "c\<lparr>in_halt := True, in_did_iroutes := False\<rparr>"
  obtain ins where ins: "multi_instance_dec_refcount j ((mc_instances m)(j \<mapsto> ?c)) = Some ins" "counts_ok ins (refs_to (mc_vhash m))"
    "live ins = (live (mc_instances m))(j := None)" "finite (dom ins)"
    using close_counts [OF b j, of ?c] by auto
  define m1 where "m1 = m\<lparr>mc_route_helper := mh, mc_instances := ins\<rparr>"
  have f: "mc_vhash m1 = mc_vhash m" "mc_instances m1 = ins" "mc_route_helper m1 = mh" "mc_dev_tun m1 = mc_dev_tun m"
    by (simp_all add: m1_def)
  have run: "close_instance_routes j m = Some m1"
    using j mh(1) ins(1) by (simp add: close_instance_routes_def Let_def set_helper_def m1_def split: if_splits)
  have b1: "base_ok m1" using b ins(2,4) by (simp add: base_ok_def f)
  have l: "live (mc_instances m) j = Some (core c)" using j by (simp add: live_def)
  have fin: "finite (dom (live (mc_instances m)))" using b by (intro live_fin) (simp add: base_ok_def)
  have pc: "part (Some (core c)) n = part (Some c) n" for n by (simp add: part_def)
  have u: "usage (live ins) n = usage (live (mc_instances m)) n - part (Some c) n" for n
    unfolding ins(3) usage_upd [OF fin] l pc by (simp add: part_def)
  have "route_ok m1 k r" if "routes m k = Some r" for k r
    using server_okD(5) [OF ok that] ins(3) by (auto simp: route_ok_def f split: if_splits)
  moreover have "live ins i = Some c' \<Longrightarrow> iroutes_ok K c' \<and> (in_did_iroutes c' \<longrightarrow> mc_dev_tun m)" for i c'
    using server_okD(4) [OF ok, of i c'] unfolding ins(3) by (auto split: if_splits)
  ultimately have ok1: "server_ok K (\<lambda>n. 0) m1"
    using ok b1 u mh(2,3) by (simp add: server_ok_def f)
  have "coherent m1 \<and> gens_left l m1" if c: "coherent m" and g: "gens_left (K + l) m"
  proof
    have "gens_left K m" using g by (simp add: gens_left_def)
    note g1 = mh(5) [rule_format, OF this]
    then show "gens_left l m1" using g by (simp add: gens_left_def f)
    show "coherent m1"
    proof (cases "in_did_iroutes c \<and> (\<exists>n \<in> set (prefix_lens c). n \<ge> 0)")
      case True
      then have lt: "unat (mh_cache_generation (mc_route_helper m)) < unat (mh_cache_generation mh)" using g1 by blast
      have "no_current m1"
        unfolding no_current_def f
      proof (intro allI impI)
        fix k r assume "routes m k = Some r" "cached r"
        from coherentD(1) [OF c this] show "unat (rt_cache_generation r) < unat (mh_cache_generation mh)" using lt by simp
      qed
      then show ?thesis by (rule no_current_coherent)
    next
      case False
      then have no: "\<not> in_did_iroutes c \<or> (\<forall>n \<in> set (prefix_lens c). n < 0)" by auto
      then have same: "mh = mc_route_helper m" using mh(4) by blast
      have "learned m1 k = learned m k" if nb: "has_netbits k" for k
      proof (cases "routes m k")
        case (Some r)
        have "rt_instance r \<noteq> j" if "\<not> cached r"
        proof
          assume "rt_instance r = j"
          then have "in_did_iroutes c \<and> uint (ma_netbits k) \<in> set (prefix_lens c)"
            using server_okD(5) [OF ok Some] l that nb by (simp add: route_ok_def)
          then show False using no by (metis uint_lt_0)
        qed
        then show ?thesis using Some by (simp add: learned_def f ins(3))
      qed (simp add: learned_def f)
      then have "net_owner m1 k = net_owner m k" if "host_addr k" for k
        using net_owner_same [OF ok that, of m1] same by (simp add: f)
      then show ?thesis
        using coherentD [OF c] by (intro coherentI) (auto simp: current_def f same ins(3) split: if_splits)
    qed
  qed
  then show ?thesis using run ok1 by blast
qed

subsection \<open>The reaper\<close>

lemma reaped_server_ok:
  assumes ok: "server_ok K pend m" and b: "base_ok m1" and s: "same_but_routes m m1" and r: "reaped gone m m1"
  shows "server_ok K pend m1"
  by (rule same_routes_ok [OF ok b s]) (use r server_okD(5) [OF ok] in \<open>auto simp: reaped_def\<close>)

lemma reap_learned:
  assumes ok: "server_ok K pend m" and s: "same_but_routes m m1" and r: "reaped (not_defined now mh) m m1"
  shows "learned m1 = learned m"
proof
  fix k
  have l: "live (mc_instances m1) = live (mc_instances m)" using s by (simp add: same_but_routes_def)
  show "learned m1 k = learned m k"
  proof (cases "routes m1 k")
    case (Some x)
    then have "routes m k = Some x" using r by (simp add: reaped_def)
    then show ?thesis using Some l by (simp add: learned_def)
  next
    case None
    have "learned m k = None"
    proof (cases "routes m k")
      case (Some x)
      then obtain ins0 where i: "live ins0 = live (mc_instances m)" "not_defined now mh ins0 x = Some True"
        using r None by (auto simp: reaped_def)
      have "live ins0 (rt_instance x) = None" if "\<not> cached x"
      proof -
        have "rt_flags x = 0" using server_okD(5) [OF ok Some] that by (simp add: route_ok_def)
        then show ?thesis using i(2)
          by (auto simp: not_defined_def multi_route_defined_def live_def split: option.splits if_splits)
      qed
      then show ?thesis using Some i(1) by (auto simp: learned_def)
    qed (simp add: learned_def)
    then show ?thesis using None by (simp add: learned_def)
  qed
qed

lemma reap_coherent:
  assumes ok: "server_ok K pend m" and s: "same_but_routes m m1" and r: "reaped (not_defined now mh) m m1" and c: "coherent m"
  shows "coherent m1"
proof (rule coherentI)
  fix k x assume "routes m1 k = Some x" "cached x"
  then show "unat (rt_cache_generation x) \<le> unat (mh_cache_generation (mc_route_helper m1))"
    using coherentD(1) [OF c, of k x] r s by (simp add: reaped_def same_but_routes_def)
next
  fix k x assume k: "host_addr k" "routes m1 k = Some x" "current m1 x"
  then have "net_owner m k = Some (rt_instance x)"
    using coherentD(2) [OF c, of k x] r s by (simp add: reaped_def same_but_routes_def current_def)
  then show "net_owner m1 k = Some (rt_instance x)"
    using net_owner_same [OF ok k(1), of m1] s reap_learned [OF ok s r] by (simp add: same_but_routes_def)
qed

subsection \<open>The server\<close>

definition MULTI_CACHE_ROUTE_TTL :: int where "MULTI_CACHE_ROUTE_TTL = 60"
definition REAP_DIVISOR :: int where "REAP_DIVISOR = 256"
definition REAP_MIN :: int where "REAP_MIN = 16"
definition REAP_MAX :: int where "REAP_MAX = 1024"

definition reap_buckets_per_pass :: "int \<Rightarrow> int" where
  "reap_buckets_per_pass n_buckets = constrain_int (n_buckets div REAP_DIVISOR) REAP_MIN REAP_MAX"

record server =
  sv_ctx :: multi_context
  sv_reaper :: multi_reap

text \<open>What \<open>multi_init\<close> sets up of it; \<open>iv\<close> is the random number for the hash.\<close>

definition multi_init_routes :: "int \<Rightarrow> u32 \<Rightarrow> u32 \<Rightarrow> bool \<Rightarrow> time_t \<Rightarrow> server option" where
  "multi_init_routes virtual_hash_size iv tun_local dev_tun now =
     map_option (\<lambda>vhash. \<lparr>sv_ctx = \<lparr>mc_vhash = vhash, mc_instances = (\<lambda>_. None),
          mc_route_helper = mroute_helper_init MULTI_CACHE_ROUTE_TTL,
          mc_local = mroute_extract_in_addr_t mroute_addr_init tun_local, mc_dev_tun = dev_tun\<rparr>,
        sv_reaper = multi_reap_new now (reap_buckets_per_pass virtual_hash_size)\<rparr>)
       (hash_init virtual_hash_size iv mroute_addr_hash_function mroute_addr_equal)"

text \<open>The routes of \<open>multi_client_connect_late_setup\<close>: the client's own addresses, then those of its configuration.\<close>

definition late_setup_routes ::
    "(mroute_addr \<Rightarrow> bool) \<Rightarrow> time_t \<Rightarrow> nat \<Rightarrow> u32 option \<Rightarrow> byte list option \<Rightarrow> multi_context \<Rightarrow> multi_context option" where
  "late_setup_routes script now mi push_ifconfig push_ifconfig_ipv6 m =
     (if mc_dev_tun m
      then Option.bind (case push_ifconfig of None \<Rightarrow> Some m
                          | Some a \<Rightarrow> map_option snd (multi_learn_in_addr_t script now mi a (-1) m))
             (\<lambda>m1. Option.bind (case push_ifconfig_ipv6 of None \<Rightarrow> Some m1
                          | Some a6 \<Rightarrow> map_option snd (multi_learn_in6_addr script now mi a6 (-1) m1))
               (multi_add_iroutes script now mi))
      else Some m)"

datatype server_event =
    Client_Connect nat int "(u32 \<times> int) list" "(byte list \<times> int) list"
  | Client_Late_Setup nat "u32 option" "byte list option"
  | Client_Learn nat mroute_addr
  | Route_Lookup mroute_addr bool
  | Client_Close nat
  | Reap_All
  | Reap_Pass
  | Check_Stale int

definition connected :: "multi_context \<Rightarrow> nat \<Rightarrow> (multi_instance \<Rightarrow> bool) \<Rightarrow> bool" where
  "connected m j P = (case mc_instances m j of None \<Rightarrow> False | Some c \<Rightarrow> \<not> in_halt c \<and> P c)"

text \<open>
  When an event can happen: an instance is created at a free address, with routes the option parser
  lets through; only a connected one is set up (once), learns and is closed; subnets are searched
  for the address of a host.
\<close>

fun enabled :: "nat \<Rightarrow> multi_context \<Rightarrow> server_event \<Rightarrow> bool" where
  "enabled K m (Client_Connect j max_routes irs irs6) =
     (mc_instances m j = None \<and> list_all (\<lambda>(net, n). n \<le> 32) irs
      \<and> list_all (\<lambda>(net, n). n \<le> 128 \<and> length net = 16) irs6 \<and> length irs + length irs6 \<le> K)"
| "enabled K m (Client_Late_Setup j v4 v6) =
     (connected m j (\<lambda>c. \<not> in_did_iroutes c) \<and> (case v6 of None \<Rightarrow> True | Some a6 \<Rightarrow> length a6 = 16))"
| "enabled K m (Client_Learn j a) = (connected m j (\<lambda>c. True) \<and> \<not> has_netbits a)"
| "enabled K m (Route_Lookup a cidr) = (cidr \<longrightarrow> host_addr a)"
| "enabled K m (Client_Close j) = connected m j (\<lambda>c. True)"
| "enabled K m Reap_All = True"
| "enabled K m Reap_Pass = True"
| "enabled K m (Check_Stale t) = True"

fun perform :: "(mroute_addr \<Rightarrow> bool) \<Rightarrow> time_t \<Rightarrow> server \<Rightarrow> server_event \<Rightarrow> server option" where
  "perform script now s (Client_Connect j max_routes irs irs6) =
     Some (s\<lparr>sv_ctx := multi_create_instance j max_routes irs irs6 (sv_ctx s)\<rparr>)"
| "perform script now s (Client_Late_Setup j v4 v6) =
     map_option (\<lambda>m. s\<lparr>sv_ctx := m\<rparr>) (late_setup_routes script now j v4 v6 (sv_ctx s))"
| "perform script now s (Client_Learn j a) =
     map_option (\<lambda>(owner, m). s\<lparr>sv_ctx := m\<rparr>) (multi_learn_addr script now j a 0 (sv_ctx s))"
| "perform script now s (Route_Lookup a cidr) =
     map_option (\<lambda>(ret, m). s\<lparr>sv_ctx := m\<rparr>) (multi_get_instance_by_virtual_addr script now a cidr (sv_ctx s))"
| "perform script now s (Client_Close j) =
     map_option (\<lambda>m. s\<lparr>sv_ctx := m\<rparr>) (close_instance_routes j (sv_ctx s))"
| "perform script now s Reap_All = map_option (\<lambda>m. s\<lparr>sv_ctx := m\<rparr>) (multi_reap_all now (sv_ctx s))"
| "perform script now s Reap_Pass =
     map_option (\<lambda>(mr, m). \<lparr>sv_ctx = m, sv_reaper = mr\<rparr>) (multi_reap_process_dowork now (sv_reaper s) (sv_ctx s))"
| "perform script now s (Check_Stale t) =
     map_option (\<lambda>m. s\<lparr>sv_ctx := m\<rparr>) (check_stale_routes now t (sv_ctx s))"

text \<open>An event with the answer of the script and the time; what can not happen changes nothing.\<close>

definition server_step :: "nat \<Rightarrow> server \<Rightarrow> (mroute_addr \<Rightarrow> bool) \<times> time_t \<times> server_event \<Rightarrow> server option" where
  "server_step K s = (\<lambda>(script, now, e). if enabled K (sv_ctx s) e then perform script now s e else Some s)"

subsection \<open>Every event keeps the invariant\<close>

definition reaper_ok :: "multi_reap \<Rightarrow> bool" where
  "reaper_ok mr = (0 \<le> mr_bucket_base mr \<and> 0 \<le> mr_buckets_per_pass mr)"

definition whole_ok :: "nat \<Rightarrow> server \<Rightarrow> bool" where
  "whole_ok K s = (server_ok K (\<lambda>n. 0) (sv_ctx s) \<and> reaper_ok (sv_reaper s))"

lemma connectedD:
  "connected m j P \<Longrightarrow> \<exists>c. mc_instances m j = Some c \<and> \<not> in_halt c \<and> P c"
  by (simp add: connected_def split: option.splits)

lemma live_instance:
  assumes "live (mc_instances m) j = Some c"
  shows "\<exists>c0. mc_instances m j = Some c0 \<and> \<not> in_halt c0 \<and> core c0 = c"
  using assms by (auto simp: live_def split: option.splits if_splits)

lemma same_gens: "same_but_routes m m1 \<Longrightarrow> gens_left l m \<Longrightarrow> gens_left l m1"
  by (simp add: same_but_routes_def gens_left_def)

lemma late_setup_ok:
  assumes ok: "server_ok K (\<lambda>n. 0) m" and j: "connected m j (\<lambda>c. \<not> in_did_iroutes c)"
    and v6: "case v6 of None \<Rightarrow> True | Some a6 \<Rightarrow> length a6 = 16"
  shows "\<exists>m1. late_setup_routes script now j v4 v6 m = Some m1 \<and> server_ok K (\<lambda>n. 0) m1
           \<and> (coherent m \<and> gens_left (K + l) m \<longrightarrow> coherent m1 \<and> gens_left l m1)"
proof (cases "mc_dev_tun m")
  case False
  then show ?thesis using ok by (auto simp: late_setup_routes_def gens_left_def)
next
  case True
  obtain c where c: "mc_instances m j = Some c" "\<not> in_halt c" "\<not> in_did_iroutes c" using connectedD [OF j] by blast
  have l: "live (mc_instances m) j = Some (core c)" using c by (simp add: live_def)
  have host: "\<exists>owner m1. multi_learn_addr script now j a 0 m0 = Some (owner, m1) \<and> server_ok K (\<lambda>n. 0) m1
      \<and> same_but_routes m0 m1 \<and> (coherent m0 \<longrightarrow> coherent m1)"
    if "server_ok K (\<lambda>n. 0) m0" "live (mc_instances m0) j = Some (core c)" "\<not> has_netbits a" for m0 a
    using learn_ok [OF that(1,2), of a script now] that(3) by blast
  obtain m1 where m1: "(case v4 of None \<Rightarrow> Some m | Some a \<Rightarrow> map_option snd (multi_learn_in_addr_t script now j a (-1) m)) = Some m1"
    "server_ok K (\<lambda>n. 0) m1" "same_but_routes m m1" "coherent m \<longrightarrow> coherent m1"
  proof (cases v4)
    case None
    then show ?thesis using ok by (intro that [of m]) simp_all
  next
    case (Some x)
    obtain a where a: "\<forall>m. multi_learn_in_addr_t script now j x (-1) m = multi_learn_addr script now j a 0 m" "\<not> has_netbits a"
      using learn_in_addr [of "-1" script now j x] by auto
    then show ?thesis using Some that host [OF ok l a(2)] by auto
  qed
  have l1: "live (mc_instances m1) j = Some (core c)" using m1(3) l by (simp add: same_but_routes_def)
  obtain m2 where m2: "(case v6 of None \<Rightarrow> Some m1 | Some a6 \<Rightarrow> map_option snd (multi_learn_in6_addr script now j a6 (-1) m1)) = Some m2"
    "server_ok K (\<lambda>n. 0) m2" "same_but_routes m1 m2" "coherent m1 \<longrightarrow> coherent m2"
  proof (cases v6)
    case None
    then show ?thesis using m1(2) by (intro that [of m1]) simp_all
  next
    case (Some x)
    obtain a where a: "\<forall>m. multi_learn_in6_addr script now j x (-1) m = multi_learn_addr script now j a 0 m" "\<not> has_netbits a"
      using learn_in6_addr [of "-1" x script now j] Some v6 by auto
    then show ?thesis using Some that host [OF m1(2) l1 a(2)] by auto
  qed
  have "live (mc_instances m2) j = Some (core c)" using m2(3) l1 by (simp add: same_but_routes_def)
  then obtain c2 where c2: "mc_instances m2 j = Some c2" "\<not> in_halt c2" "core c2 = core c" using live_instance by blast
  have "in_did_iroutes (core c2) = in_did_iroutes (core c)" using c2(3) by (rule arg_cong)
  then have "\<not> in_did_iroutes c2" using c(3) by simp
  then obtain m3 where "multi_add_iroutes script now j m2 = Some m3" "server_ok K (\<lambda>n. 0) m3"
    "coherent m2 \<and> gens_left (K + l) m2 \<longrightarrow> coherent m3 \<and> gens_left l m3"
    using add_all_iroutes_ok [OF m2(2) c2(1,2), of script now l] by blast
  then show ?thesis
    using True m1 m2 same_gens [OF m1(3)] same_gens [OF m2(3)] by (auto simp: late_setup_routes_def)
qed

lemma reap_range_ok:
  assumes ok: "server_ok K (\<lambda>n. 0) m" and g: "tests gone" and r: "0 \<le> a" "a \<le> b" "a \<le> h_n_buckets (mc_vhash m)"
  shows "\<exists>m1. reap_between gone a b m = Some m1 \<and> server_ok K (\<lambda>n. 0) m1 \<and> same_but_routes m m1 \<and> reaped gone m m1"
  using reap_between_ok [OF g server_okD(1) [OF ok] r] reaped_server_ok [OF ok] by blast

lemma reap_pass_ok:
  assumes ok: "server_ok K (\<lambda>n. 0) m" and r: "0 \<le> a" "a \<le> b" "a \<le> h_n_buckets (mc_vhash m)"
  shows "\<exists>m1. reap_between (not_defined now (mc_route_helper m)) a b m = Some m1 \<and> server_ok K (\<lambda>n. 0) m1
           \<and> same_but_routes m m1 \<and> (coherent m \<longrightarrow> coherent m1)"
  using reap_range_ok [OF ok tests_not_defined r] reap_coherent [OF ok] by blast

lemma n_buckets_pos: "base_ok m \<Longrightarrow> 0 \<le> h_n_buckets (mc_vhash m)"
  unfolding base_ok_def hash_ok_def by linarith

lemma step_ok:
  assumes ok: "whole_ok K s"
  shows "\<exists>s1. server_step K s (script, now, e) = Some s1 \<and> whole_ok K s1
           \<and> ((\<forall>t. e \<noteq> Check_Stale t) \<and> coherent (sv_ctx s) \<and> gens_left (K + l) (sv_ctx s)
                \<longrightarrow> coherent (sv_ctx s1) \<and> gens_left l (sv_ctx s1))"
proof (cases "enabled K (sv_ctx s) e")
  case False
  then show ?thesis using ok by (simp add: server_step_def gens_left_def)
next
  case en: True
  let ?m = "sv_ctx s"
  have sok: "server_ok K (\<lambda>n. 0) ?m" and rok: "reaper_ok (sv_reaper s)" using ok by (simp_all add: whole_ok_def)
  have less: "gens_left (K + l) m \<Longrightarrow> gens_left l m" for m by (simp add: gens_left_def)
  note nb = n_buckets_pos [OF server_okD(1) [OF sok]]
  show ?thesis
  proof (cases e)
    case (Client_Connect j mx irs irs6)
    then have "mc_instances ?m j = None" "\<forall>(net, n) \<in> set irs. n \<le> 32"
      "\<forall>(net, n) \<in> set irs6. n \<le> 128 \<and> length net = 16" "length irs + length irs6 \<le> K"
      using en by (simp_all add: list_all_iff)
    note c = create_ok [OF sok this, of mx]
    have "mc_route_helper (multi_create_instance j mx irs irs6 ?m) = mc_route_helper ?m" by (simp add: multi_create_instance_def)
    then show ?thesis using en rok c less Client_Connect by (simp add: server_step_def whole_ok_def gens_left_def)
  next
    case (Client_Late_Setup j v4 v6)
    then show ?thesis using late_setup_ok [OF sok, of j v6 script now v4 l] en rok
      by (auto simp: server_step_def whole_ok_def)
  next
    case (Client_Learn j a)
    then obtain c where c: "mc_instances ?m j = Some c" "\<not> in_halt c" "\<not> has_netbits a"
      using en connectedD [of ?m j "\<lambda>c. True"] by auto
    then have "live (mc_instances ?m) j = Some (core c)" by (simp add: live_def)
    from learn_ok [OF sok this, of a script now] c(3) obtain owner m1 where
      "multi_learn_addr script now j a 0 ?m = Some (owner, m1)" "server_ok K (\<lambda>n. 0) m1" "same_but_routes ?m m1"
      "coherent ?m \<longrightarrow> coherent m1" by blast
    then show ?thesis using en rok Client_Learn same_gens less by (auto simp: server_step_def whole_ok_def)
  next
    case (Route_Lookup a cidr)
    then have "cidr \<Longrightarrow> host_addr a" using en by simp
    from lookup_ok [OF sok this, of cidr script now] obtain ret m1 where
      "multi_get_instance_by_virtual_addr script now a cidr ?m = Some (ret, m1)" "server_ok K (\<lambda>n. 0) m1"
      "same_but_routes ?m m1" "coherent ?m \<longrightarrow> coherent m1" by blast
    then show ?thesis using en rok Route_Lookup same_gens less by (auto simp: server_step_def whole_ok_def)
  next
    case (Client_Close j)
    then obtain c where "mc_instances ?m j = Some c" "\<not> in_halt c" using en connectedD [of ?m j "\<lambda>c. True"] by auto
    from close_ok [OF sok this, of l] show ?thesis using en rok Client_Close by (auto simp: server_step_def whole_ok_def)
  next
    case Reap_All
    obtain m1 where "multi_reap_all now ?m = Some m1" "server_ok K (\<lambda>n. 0) m1" "same_but_routes ?m m1" "coherent ?m \<longrightarrow> coherent m1"
      using reap_pass_ok [OF sok _ nb nb, of now] by (auto simp: multi_reap_all_def multi_reap_range_def)
    then show ?thesis using en rok Reap_All same_gens less by (auto simp: server_step_def whole_ok_def)
  next
    case Reap_Pass
    let ?mr = "sv_reaper s"
    define base where "base = (if mr_bucket_base ?mr \<ge> h_n_buckets (mc_vhash ?m) then 0 else mr_bucket_base ?mr)"
    have r: "0 \<le> base" "base \<le> base + mr_buckets_per_pass ?mr" "base \<le> h_n_buckets (mc_vhash ?m)"
      using rok nb by (auto simp: base_def reaper_ok_def)
    obtain m1 where "multi_reap_range now base (base + mr_buckets_per_pass ?mr) ?m = Some m1" "server_ok K (\<lambda>n. 0) m1"
      "same_but_routes ?m m1" "coherent ?m \<longrightarrow> coherent m1"
      using reap_pass_ok [OF sok r, of now] r(1) by (auto simp: multi_reap_range_def)
    moreover have "reaper_ok (?mr\<lparr>mr_bucket_base := base + mr_buckets_per_pass ?mr, mr_last_call := now\<rparr>)"
      using r rok by (simp add: reaper_ok_def)
    ultimately show ?thesis using en Reap_Pass same_gens less
      by (auto simp: server_step_def whole_ok_def multi_reap_process_dowork_def Let_def simp flip: base_def)
  next
    case (Check_Stale t)
    obtain m1 where "check_stale_routes now t ?m = Some m1" "server_ok K (\<lambda>n. 0) m1"
      using reap_range_ok [OF sok tests_stale _ nb, of now t "mc_route_helper ?m"] nb by (auto simp: check_stale_routes_def)
    then show ?thesis using en rok Check_Stale by (simp add: server_step_def whole_ok_def)
  qed
qed

lemma init_ok:
  assumes "multi_init_routes n iv tun_local dev_tun now = Some s" "n \<le> 2 ^ 30"
  shows "whole_ok K s" "coherent (sv_ctx s)" "gens_left l (sv_ctx s) \<longleftrightarrow> l < 2 ^ 32"
proof -
  have n: "0 < n" using assms(1) by (auto simp: multi_init_routes_def hash_init_def split: if_splits)
  obtain h where h: "hash_init n iv mroute_addr_hash_function mroute_addr_equal = Some h" "table_ok h" "hash_map h = Map.empty"
    using hash_init_ok [OF n assms(2), of iv mroute_addr_hash_function mroute_addr_equal] by blast
  have bs: "h_buckets h = replicate (length (h_buckets h)) []"
    using h(1) n by (auto simp: hash_init_def Let_def split: option.splits if_splits)
  have "refs_to h j = 0" for j
  proof -
    have "refs_to h j = sum_list (map (chain_refs j) (replicate (length (h_buckets h)) []))"
      unfolding refs_to_def using bs by (rule arg_cong)
    then show ?thesis by (simp add: sum_list_replicate)
  qed
  then have refs: "refs_to h = (\<lambda>j. 0)" by (simp add: fun_eq_iff)
  have s: "sv_ctx s = \<lparr>mc_vhash = h, mc_instances = (\<lambda>_. None),
          mc_route_helper = mroute_helper_init MULTI_CACHE_ROUTE_TTL,
          mc_local = mroute_extract_in_addr_t mroute_addr_init tun_local, mc_dev_tun = dev_tun\<rparr>"
    "sv_reaper s = multi_reap_new now (reap_buckets_per_pass n)"
    using assms(1) h(1) by (auto simp: multi_init_routes_def)
  have "base_ok (sv_ctx s)" using h(2) refs by (simp add: base_ok_def s counts_ok_def dom_def)
  moreover have "live (\<lambda>_. None) = (\<lambda>_. None)" by (simp add: live_def fun_eq_iff)
  moreover have "usage (\<lambda>_. None) k = 0" for k by (simp add: usage_def users_def)
  ultimately have "server_ok K (\<lambda>n. 0) (sv_ctx s)"
    using helper_init_ok h(3) by (simp add: server_ok_def s mroute_helper_init_def)
  moreover have "reaper_ok (sv_reaper s)"
    by (simp add: s reaper_ok_def multi_reap_new_def reap_buckets_per_pass_def constrain_int_def REAP_MIN_def REAP_MAX_def)
  ultimately show "whole_ok K s" by (simp add: whole_ok_def)
  show "coherent (sv_ctx s)" using h(3) by (simp add: coherent_def s)
  show "gens_left l (sv_ctx s) \<longleftrightarrow> l < 2 ^ 32" by (simp add: gens_left_def s mroute_helper_init_def)
qed

lemma run_ok:
  assumes "whole_ok K s"
  shows "\<exists>s1. run (server_step K) s evs = Some s1 \<and> whole_ok K s1
           \<and> ((\<forall>(script, now, e) \<in> set evs. \<forall>t. e \<noteq> Check_Stale t) \<and> coherent (sv_ctx s) \<and> gens_left (K * length evs) (sv_ctx s)
                \<longrightarrow> coherent (sv_ctx s1))"
  using assms
proof (induction evs arbitrary: s)
  case Nil
  then show ?case by simp
next
  case (Cons x evs)
  obtain script now e where x: "x = (script, now, e)" by (cases x)
  obtain s1 where s1: "server_step K s (script, now, e) = Some s1" "whole_ok K s1"
    "(\<forall>t. e \<noteq> Check_Stale t) \<and> coherent (sv_ctx s) \<and> gens_left (K + K * length evs) (sv_ctx s)
       \<longrightarrow> coherent (sv_ctx s1) \<and> gens_left (K * length evs) (sv_ctx s1)"
    using step_ok [OF Cons.prems] by blast
  obtain s2 where s2: "run (server_step K) s1 evs = Some s2" "whole_ok K s2"
    "(\<forall>(script, now, e) \<in> set evs. \<forall>t. e \<noteq> Check_Stale t) \<and> coherent (sv_ctx s1) \<and> gens_left (K * length evs) (sv_ctx s1)
       \<longrightarrow> coherent (sv_ctx s2)"
    using Cons.IH [OF s1(2)] by blast
  show ?case using s1(1,3) s2 x by (intro exI [of _ s2]) simp
qed

text \<open>
  C13: No sequence of connections, routes, lookups, departures and reaping makes the server use a
  client that was freed or trips one of the assertions on the way: every run has a result; in it
  the client of every route is still allocated, every client counts exactly its routes, and its
  references are these and one more while it is connected, so that a client that has left is kept
  exactly as long as a route points to it.
\<close>

theorem routes_never_dangle:
  assumes "multi_init_routes n iv tun_local dev_tun now = Some s0" "n \<le> 2 ^ 30"
  shows "\<exists>s. run (server_step K) s0 evs = Some s
           \<and> (\<forall>k r. routes (sv_ctx s) k = Some r \<longrightarrow> mc_instances (sv_ctx s) (rt_instance r) \<noteq> None)
           \<and> (\<forall>j c. mc_instances (sv_ctx s) j = Some c \<longrightarrow>
                 in_route_count c = refs_to (mc_vhash (sv_ctx s)) j
                 \<and> in_refcount c = refs_to (mc_vhash (sv_ctx s)) j + (if in_halt c then 0 else 1) \<and> 0 < in_refcount c)"
proof -
  obtain s where s: "run (server_step K) s0 evs = Some s" "whole_ok K s"
    using run_ok [OF init_ok(1) [OF assms]] by blast
  then have b: "table_ok (mc_vhash (sv_ctx s))" "counts_ok (mc_instances (sv_ctx s)) (refs_to (mc_vhash (sv_ctx s)))"
    by (simp_all add: whole_ok_def server_ok_def base_ok_def)
  have "mc_instances (sv_ctx s) (rt_instance r) \<noteq> None" if "routes (sv_ctx s) k = Some r" for k r
    using hash_map_refs [OF b(1) that] by (rule counts_kept_pos [OF b(2)])
  moreover have "in_route_count c = refs_to (mc_vhash (sv_ctx s)) j
       \<and> in_refcount c = refs_to (mc_vhash (sv_ctx s)) j + (if in_halt c then 0 else 1) \<and> 0 < in_refcount c"
    if "mc_instances (sv_ctx s) j = Some c" for j c
    using counts_okD(3) [OF b(2) that] by (simp add: inst_ok_def)
  ultimately show ?thesis using s(1) by blast
qed

text \<open>
  A server with a table of four buckets; two clients come, one with two subnets, an address is
  looked up, the first client leaves and its routes are reaped.
\<close>

lemma multi_init_demo: "\<exists>s0. multi_init_routes 4 7 0x0a080001 True 0 = Some s0"
proof -
  obtain h where "hash_init 4 7 mroute_addr_hash_function mroute_addr_equal = Some (h :: (mroute_addr, multi_route) hash)"
    using hash_init_ok [of 4 7 mroute_addr_hash_function mroute_addr_equal] by auto
  then show ?thesis by (simp add: multi_init_routes_def)
qed

definition demo_host :: mroute_addr where
  "demo_host = put_addr MR_ADDR_IPV4 4 [192, 168, 5, 6] mroute_addr_init"

definition demo_events :: "((mroute_addr \<Rightarrow> bool) \<times> time_t \<times> server_event) list" where
  "demo_events = map (\<lambda>(t, e). (\<lambda>a. True, t, e))
     [(1, Client_Connect 1 10 [(0xc0a80000, 16), (0xc0a80500, 24)] []), (2, Client_Late_Setup 1 (Some 0x0a080006) None),
      (3, Client_Connect 2 10 [] []), (4, Client_Late_Setup 2 (Some 0x0a08000a) None), (5, Route_Lookup demo_host True),
      (6, Client_Close 1), (7, Reap_Pass), (8, Reap_All)]"

theorem routes_never_dangle_witness:
  "\<exists>s0 s. multi_init_routes 4 7 0x0a080001 True 0 = Some s0 \<and> run (server_step 2) s0 demo_events = Some s
     \<and> (\<forall>j c. mc_instances (sv_ctx s) j = Some c \<longrightarrow> in_halt c \<longrightarrow> 0 < refs_to (mc_vhash (sv_ctx s)) j)"
proof -
  obtain s0 where s0: "multi_init_routes 4 7 0x0a080001 True 0 = Some s0" using multi_init_demo by blast
  show ?thesis using routes_never_dangle [OF s0, of 2 demo_events] s0 by fastforce
qed

text \<open>
  C12: The cache of host routes never changes an answer. After any sequence of such events (short
  enough for the generation not to wrap around, and without the check for stale routes) a lookup of
  the address of a host finds the client the longest prefix leads to: the one that learned the
  address itself, or else the one with the longest matching subnet, searched over all 129 prefix
  lengths among the routes learned by connected clients.
\<close>

theorem lookup_is_longest_prefix:
  assumes "multi_init_routes n iv tun_local dev_tun now0 = Some s0" "n \<le> 2 ^ 30" "K * length evs < 2 ^ 32"
    "\<forall>(script, now, e) \<in> set evs. \<forall>t. e \<noteq> Check_Stale t" "host_addr a"
  shows "\<exists>s m. run (server_step K) s0 evs = Some s
           \<and> multi_get_instance_by_virtual_addr script now a True (sv_ctx s) =
               Some (if mroute_addr_equal a (mc_local (sv_ctx s)) then None else longest_prefix (sv_ctx s) a, m)"
proof -
  obtain s where s: "run (server_step K) s0 evs = Some s" "whole_ok K s" "coherent (sv_ctx s)"
    using run_ok [OF init_ok(1) [OF assms(1,2)], of K evs] init_ok(2,3) [OF assms(1,2)] assms(3,4) by blast
  have ok: "server_ok K (\<lambda>n. 0) (sv_ctx s)" using s(2) by (simp add: whole_ok_def)
  obtain m where m: "multi_get_instance_by_virtual_addr script now a True (sv_ctx s) = Some (route_to (sv_ctx s) a, m)"
    using lookup_ok [OF ok assms(5), of script now True] s(3) by auto
  have "route_to (sv_ctx s) a = (if mroute_addr_equal a (mc_local (sv_ctx s)) then None else longest_prefix (sv_ctx s) a)"
    unfolding route_to_def longest_prefix_def net_owner_longest [OF ok assms(5)] by (cases "learned (sv_ctx s) a") simp_all
  then show ?thesis using s(1) m by auto
qed

theorem lookup_is_longest_prefix_witness:
  "\<exists>s0 s m. multi_init_routes 4 7 0x0a080001 True 0 = Some s0 \<and> run (server_step 2) s0 demo_events = Some s
     \<and> multi_get_instance_by_virtual_addr (\<lambda>a. True) 9 demo_host True (sv_ctx s) =
         Some (if mroute_addr_equal demo_host (mc_local (sv_ctx s)) then None else longest_prefix (sv_ctx s) demo_host, m)"
proof -
  obtain s0 where s0: "multi_init_routes 4 7 0x0a080001 True 0 = Some s0" using multi_init_demo by blast
  have n: "(4 :: int) \<le> 2 ^ 30" by simp
  have k: "2 * length demo_events < 2 ^ 32" by (simp add: demo_events_def)
  have e: "\<forall>(script, now, e) \<in> set demo_events. \<forall>t. e \<noteq> Check_Stale t" by (simp add: demo_events_def)
  have a: "host_addr demo_host" unfolding demo_host_def by (rule host_put_addr(1)) simp
  show ?thesis using lookup_is_longest_prefix [OF s0 n k e a, of "\<lambda>a. True" 9] s0 by blast
qed

end
