(* ===== verification/Text_Util.thy ===== *)
theory Text_Util
  imports Prelude
begin

text \<open>
  The text helpers of \<^verbatim>\<open>buffer.c\<close>: character classes, removing or replacing characters, and \<open>buf_parse\<close>,
  by which comma-separated messages, configuration text and the persist file of the pool are read.

  A C string is a list of characters without NUL; the content of a buffer may hold NUL characters.
  The functions of \<^verbatim>\<open>ctype.h\<close> are those of the C locale. The lemmas: \<open>buf_parse\<close> reads a field back that
  fits the array.
\<close>

subsection \<open>Character classes\<close>

definition CC_ANY :: u32 where "CC_ANY = push_bit 0 1"
definition CC_NULL :: u32 where "CC_NULL = push_bit 1 1"
definition CC_ALNUM :: u32 where "CC_ALNUM = push_bit 2 1"
definition CC_ALPHA :: u32 where "CC_ALPHA = push_bit 3 1"
definition CC_ASCII :: u32 where "CC_ASCII = push_bit 4 1"
definition CC_CNTRL :: u32 where "CC_CNTRL = push_bit 5 1"
definition CC_DIGIT :: u32 where "CC_DIGIT = push_bit 6 1"
definition CC_PRINT :: u32 where "CC_PRINT = push_bit 7 1"
definition CC_PUNCT :: u32 where "CC_PUNCT = push_bit 8 1"
definition CC_SPACE :: u32 where "CC_SPACE = push_bit 9 1"
definition CC_XDIGIT :: u32 where "CC_XDIGIT = push_bit 10 1"
definition CC_BLANK :: u32 where "CC_BLANK = push_bit 11 1"
definition CC_NEWLINE :: u32 where "CC_NEWLINE = push_bit 12 1"
definition CC_CR :: u32 where "CC_CR = push_bit 13 1"
definition CC_BACKSLASH :: u32 where "CC_BACKSLASH = push_bit 14 1"
definition CC_UNDERBAR :: u32 where "CC_UNDERBAR = push_bit 15 1"
definition CC_DASH :: u32 where "CC_DASH = push_bit 16 1"
definition CC_DOT :: u32 where "CC_DOT = push_bit 17 1"
definition CC_COMMA :: u32 where "CC_COMMA = push_bit 18 1"
definition CC_COLON :: u32 where "CC_COLON = push_bit 19 1"
definition CC_SLASH :: u32 where "CC_SLASH = push_bit 20 1"
definition CC_SINGLE_QUOTE :: u32 where "CC_SINGLE_QUOTE = push_bit 21 1"
definition CC_DOUBLE_QUOTE :: u32 where "CC_DOUBLE_QUOTE = push_bit 22 1"
definition CC_REVERSE_QUOTE :: u32 where "CC_REVERSE_QUOTE = push_bit 23 1"
definition CC_AT :: u32 where "CC_AT = push_bit 24 1"
definition CC_EQUAL :: u32 where "CC_EQUAL = push_bit 25 1"
definition CC_LESS_THAN :: u32 where "CC_LESS_THAN = push_bit 26 1"
definition CC_GREATER_THAN :: u32 where "CC_GREATER_THAN = push_bit 27 1"
definition CC_PIPE :: u32 where "CC_PIPE = push_bit 28 1"
definition CC_QUESTION_MARK :: u32 where "CC_QUESTION_MARK = push_bit 29 1"
definition CC_ASTERISK :: u32 where "CC_ASTERISK = push_bit 30 1"

lemmas cc_flags = CC_ANY_def CC_NULL_def CC_ALNUM_def CC_ALPHA_def CC_ASCII_def CC_CNTRL_def
  CC_DIGIT_def CC_PRINT_def CC_PUNCT_def CC_SPACE_def CC_XDIGIT_def CC_BLANK_def
  CC_NEWLINE_def CC_CR_def CC_BACKSLASH_def CC_UNDERBAR_def CC_DASH_def CC_DOT_def
  CC_COMMA_def CC_COLON_def CC_SLASH_def CC_SINGLE_QUOTE_def CC_DOUBLE_QUOTE_def CC_REVERSE_QUOTE_def
  CC_AT_def CC_EQUAL_def CC_LESS_THAN_def CC_GREATER_THAN_def CC_PIPE_def CC_QUESTION_MARK_def
  CC_ASTERISK_def

definition c_isalpha :: "nat \<Rightarrow> bool" where
  "c_isalpha n = ((65 \<le> n \<and> n \<le> 90) \<or> (97 \<le> n \<and> n \<le> 122))"

definition c_isdigit :: "nat \<Rightarrow> bool" where
  "c_isdigit n = (48 \<le> n \<and> n \<le> 57)"

definition c_isspace :: "nat \<Rightarrow> bool" where
  "c_isspace n = (n = 32 \<or> (9 \<le> n \<and> n \<le> 13))"

definition char_class :: "char \<Rightarrow> u32 \<Rightarrow> bool" where
  "char_class c flags =
     list_ex (\<lambda>(flag, P). flags AND flag \<noteq> 0 \<and> P (of_char c :: nat))
      [(CC_ANY, \<lambda>n. True),
      (CC_NULL, \<lambda>n. n = 0),
      (CC_ALNUM, \<lambda>n. c_isalpha n \<or> c_isdigit n),
      (CC_ALPHA, \<lambda>n. c_isalpha n),
      (CC_ASCII, \<lambda>n. n < 128),
      (CC_CNTRL, \<lambda>n. n < 32 \<or> n = 127),
      (CC_DIGIT, \<lambda>n. c_isdigit n),
      (CC_PRINT, \<lambda>n. 32 \<le> n \<and> n \<noteq> 127),
      (CC_PUNCT, \<lambda>n. 33 \<le> n \<and> n \<le> 126 \<and> \<not> c_isalpha n \<and> \<not> c_isdigit n),
      (CC_SPACE, \<lambda>n. c_isspace n),
      (CC_XDIGIT, \<lambda>n. c_isdigit n \<or> (65 \<le> n \<and> n \<le> 70) \<or> (97 \<le> n \<and> n \<le> 102)),
      (CC_BLANK, \<lambda>n. n = 32 \<or> n = 9),
      (CC_NEWLINE, \<lambda>n. n = 10),
      (CC_CR, \<lambda>n. n = 13),
      (CC_BACKSLASH, \<lambda>n. n = 92),
      (CC_UNDERBAR, \<lambda>n. n = 95),
      (CC_DASH, \<lambda>n. n = 45),
      (CC_DOT, \<lambda>n. n = 46),
      (CC_COMMA, \<lambda>n. n = 44),
      (CC_COLON, \<lambda>n. n = 58),
      (CC_SLASH, \<lambda>n. n = 47),
      (CC_SINGLE_QUOTE, \<lambda>n. n = 39),
      (CC_DOUBLE_QUOTE, \<lambda>n. n = 34),
      (CC_REVERSE_QUOTE, \<lambda>n. n = 96),
      (CC_AT, \<lambda>n. n = 64),
      (CC_EQUAL, \<lambda>n. n = 61),
      (CC_LESS_THAN, \<lambda>n. n = 60),
      (CC_GREATER_THAN, \<lambda>n. n = 62),
      (CC_PIPE, \<lambda>n. n = 124),
      (CC_QUESTION_MARK, \<lambda>n. n = 63),
      (CC_ASTERISK, \<lambda>n. n = 42)]"

definition char_inc_exc :: "char \<Rightarrow> u32 \<Rightarrow> u32 \<Rightarrow> bool" where
  "char_inc_exc c inclusive exclusive = (char_class c inclusive \<and> \<not> char_class c exclusive)"

definition string_class :: "string \<Rightarrow> u32 \<Rightarrow> u32 \<Rightarrow> bool" where
  "string_class str inclusive exclusive = list_all (\<lambda>c. char_inc_exc c inclusive exclusive) str"

text \<open>A character whose replacement is NUL is left out.\<close>

definition string_mod :: "string \<Rightarrow> u32 \<Rightarrow> u32 \<Rightarrow> char \<Rightarrow> bool \<times> string" where
  "string_mod str inclusive exclusive replace =
     (list_all (\<lambda>c. char_inc_exc c inclusive exclusive) str,
      filter (\<lambda>c. c \<noteq> CHR 0x00) (map (\<lambda>c. if char_inc_exc c inclusive exclusive then c else replace) str))"

subsection \<open>Strings inside a buffer\<close>

text \<open>The C string a buffer starts with.\<close>

definition BSTR :: "string \<Rightarrow> string" where
  "BSTR b = takeWhile (\<lambda>c. c \<noteq> CHR 0x00) b"

text \<open>
  \<open>string_mod\<close> works in place: when it makes the string shorter, the rest of the content stays where
  it was, behind the new NUL.
\<close>

definition string_mod_buf :: "string \<Rightarrow> u32 \<Rightarrow> u32 \<Rightarrow> char \<Rightarrow> string" where
  "string_mod_buf b inclusive exclusive replace =
     (let s = snd (string_mod (BSTR b) inclusive exclusive replace)
      in s @ CHR 0x00 # drop (length s + 1) b)"

text \<open>\<open>buf_null_terminate\<close> of a buffer with a capacity: where it is full, its last character gives way.\<close>

definition buf_null_terminate :: "nat \<Rightarrow> string \<Rightarrow> string" where
  "buf_null_terminate capacity b =
     (if b \<noteq> [] \<and> last b = CHR 0x00 then b
      else (let b1 = (if length b < capacity then b else butlast b)
            in if length b1 < capacity then b1 @ [CHR 0x00] else b1))"

definition text_match_head_str :: "string \<Rightarrow> string \<Rightarrow> bool" where
  "text_match_head_str src match = (length match \<le> length src \<and> take (length match) src = match)"

definition text_compare_advance :: "string \<Rightarrow> string \<Rightarrow> bool \<times> string" where
  "text_compare_advance src match =
     (if text_match_head_str src match then (True, drop (length match) src) else (False, src))"

text \<open>\<open>buf_printf\<close> into a buffer of a capacity: what does not fit, with its NUL, is cut off.\<close>

definition buf_printf :: "nat \<Rightarrow> string \<Rightarrow> string \<Rightarrow> bool \<times> string" where
  "buf_printf capacity b s =
     (if length b < capacity
      then (length s < capacity - length b, b @ take (capacity - length b - 1) s)
      else (False, b))"

subsection \<open>Fields\<close>

text \<open>
  \<open>buf_parse\<close>: whether there was a field, the field as a C string, and what is left of the line.
  A field that does not fit loses the character that was read when the array was full.
\<close>

fun parse_loop :: "char \<Rightarrow> int \<Rightarrow> string \<Rightarrow> string \<Rightarrow> bool \<times> string \<times> string" where
  "parse_loop delim sz [] line = (True, line, [])"
| "parse_loop delim sz (c # r) line =
     (if c = CHR 0x00 \<or> c = delim then (False, line, r)
      else if int (length line) \<ge> sz then (False, line, r)
      else parse_loop delim sz r (line @ [c]))"

definition buf_parse :: "string \<Rightarrow> char \<Rightarrow> int \<Rightarrow> (bool \<times> string \<times> string) option" where
  "buf_parse b delim sz =
     (if sz > 0
      then (let (eol, chars, r) = parse_loop delim sz b [];
                line = take (nat (sz - 1)) chars
            in Some (\<not> (eol \<and> line = []), line, r))
      else None)"

subsection \<open>Reading a field back\<close>

lemma parse_loop_field:
  assumes "CHR 0x00 \<notin> set f" "delim \<notin> set f" "int (length line + length f) \<le> sz"
  shows "parse_loop delim sz (f @ delim # r) line = (False, line @ f, r)"
    "parse_loop delim sz f line = (True, line @ f, [])"
  using assms by (induction f arbitrary: line) auto

lemma buf_parse_fits:
  assumes "CHR 0x00 \<notin> set f" "delim \<notin> set f" "int (length f) < sz"
  shows "buf_parse (f @ delim # r) delim sz = Some (True, f, r)"
    "buf_parse (f @ CHR 0x00 # r) delim sz = Some (True, f, r)"
    "buf_parse f delim sz = Some (f \<noteq> [], f, [])"
proof -
  have nul: "parse_loop delim sz (f @ CHR 0x00 # r) line = (False, line @ f, r)"
    if "int (length line + length f) \<le> sz" for line
    using assms(1,2) that by (induction f arbitrary: line) auto
  have l: "length f \<le> nat (sz - 1)" using assms(3) by linarith
  from nul [of "[]"] show "buf_parse (f @ CHR 0x00 # r) delim sz = Some (True, f, r)"
    using assms(3) l by (simp add: buf_parse_def)
  show "buf_parse (f @ delim # r) delim sz = Some (True, f, r)" "buf_parse f delim sz = Some (f \<noteq> [], f, [])"
    using assms(3) parse_loop_field [OF assms(1,2), of "[]" sz] l by (simp_all add: buf_parse_def) (cases f; simp)
qed

lemma parse_loop_shorter:
  "parse_loop delim sz b line = (False, chars, r) \<Longrightarrow> length r < length b"
  by (induction delim sz b line rule: parse_loop.induct) (auto split: if_splits)

lemma parse_loop_rest: "parse_loop delim sz b line = (True, chars, r) \<Longrightarrow> r = []"
  by (induction delim sz b line rule: parse_loop.induct) (auto split: if_splits)

text \<open>A field takes something from a buffer that is not empty.\<close>

lemma buf_parse_shorter:
  assumes "buf_parse b delim sz = Some (True, line, r)"
  shows "length r < length b"
proof (cases "parse_loop delim sz b []")
  case (fields eol chars r1)
  then have r: "r = r1" "eol \<Longrightarrow> take (nat (sz - 1)) chars \<noteq> []"
    using assms by (auto simp: buf_parse_def Let_def split: if_splits)
  show ?thesis
  proof (cases eol)
    case True
    then have "b \<noteq> []" using r(2) fields by (cases b) auto
    then show ?thesis using parse_loop_rest [of delim sz b "[]"] fields True r(1) by simp
  next
    case False
    then show ?thesis using parse_loop_shorter [of delim sz b "[]"] fields r(1) by simp
  qed
qed

lemma buf_parse_nil: "0 < sz \<Longrightarrow> buf_parse [] delim sz = Some (False, [], [])"
  by (simp add: buf_parse_def)

end
