(* ===== verification/Pool.thy ===== *)
theory Pool
  imports Text_Util
begin

text \<open>
  \<^verbatim>\<open>pool.h\<close> and \<^verbatim>\<open>pool.c\<close>: the pool the server gives its clients IPv4 and IPv6 addresses from, with
  \<open>add_in6_addr\<close> of \<^verbatim>\<open>socket.c\<close>. The persisted pool is read by \<open>buf_parse\<close> of \<open>Text_Util\<close>.

  A handle is the position of an entry in the list. A common name is \<open>None\<close> for \<open>NULL\<close>. What
  \<open>ifconfig_pool_acquire\<close> writes through its pointers is returned. The text of the persist file and the
  conversion of addresses to and from text are arguments; \<open>status_printf\<close> and \<open>status_read\<close> of
  \<^verbatim>\<open>status.c\<close> write and read its lines.

  The lemmas: the entries in use never change hands without a release, different handles have
  different addresses, a name gets the entry it had before when that is free, the pool is only
  reported exhausted when it is; addresses and handles are converted back and forth; the persisted
  text restores the reservations.
\<close>

definition IFCONFIG_POOL_MAX :: u32 where "IFCONFIG_POOL_MAX = 65536"

datatype pool_type = IFCONFIG_POOL_30NET | IFCONFIG_POOL_INDIV

record ifconfig_pool_entry =
  pe_in_use :: bool
  pe_common_name :: "string option"
  pe_last_release :: time_t
  pe_fixed :: bool

record ifconfig_pool =
  ip_duplicate_cn :: bool
  ip4_enabled :: bool
  ip4_type :: pool_type
  ip4_base :: u32
  ip6_enabled :: bool
  ip6_base :: "byte list"
  ip_size :: int
  ip_list :: "ifconfig_pool_entry list"

definition empty_entry :: ifconfig_pool_entry where
  "empty_entry = \<lparr>pe_in_use = False, pe_common_name = None, pe_last_release = 0, pe_fixed = False\<rparr>"

subsection \<open>Entries\<close>

definition ifconfig_pool_entry_free :: "time_t \<Rightarrow> ifconfig_pool_entry \<Rightarrow> bool \<Rightarrow> ifconfig_pool_entry" where
  "ifconfig_pool_entry_free now ipe hard =
     ipe\<lparr>pe_in_use := False,
         pe_common_name := (if hard then None else pe_common_name ipe),
         pe_last_release := (if hard then 0 else now)\<rparr>"

text \<open>
  The search: the earliest released free entry that is not reserved, and the first free entry
  that belonged to the name. \<open>scan_entry\<close> is one turn, with the running minimum.
\<close>

definition scan_entry ::
    "string option \<Rightarrow> int \<Rightarrow> ifconfig_pool_entry \<Rightarrow> time_t \<times> int \<times> int \<Rightarrow> time_t \<times> int \<times> int" where
  "scan_entry cn i ipe = (\<lambda>(earliest_release, previous_usage, new_usage).
     (let better = (new_usage = -1 \<or> pe_last_release ipe < earliest_release) \<and> \<not> pe_fixed ipe
      in (if better then pe_last_release ipe else earliest_release,
          if previous_usage < 0 \<and> cn \<noteq> None \<and> pe_common_name ipe \<noteq> None \<and> cn = pe_common_name ipe
          then i else previous_usage,
          if better then i else new_usage)))"

fun pool_scan ::
    "bool \<Rightarrow> string option \<Rightarrow> int \<Rightarrow> ifconfig_pool_entry list \<Rightarrow> time_t \<times> int \<times> int \<Rightarrow> time_t \<times> int \<times> int" where
  "pool_scan dup cn i [] st = st"
| "pool_scan dup cn i (ipe # l) st =
     (if \<not> pe_in_use ipe
      then (if dup then (case st of (er, prev, new) \<Rightarrow> (er, prev, i))
            else pool_scan dup cn (i + 1) l (scan_entry cn i ipe st))
      else pool_scan dup cn (i + 1) l st)"

definition ifconfig_pool_find :: "ifconfig_pool \<Rightarrow> string option \<Rightarrow> int" where
  "ifconfig_pool_find pool cn =
     (case pool_scan (ip_duplicate_cn pool) cn 0 (ip_list pool) (0, -1, -1) of
        (_, previous_usage, new_usage) \<Rightarrow>
          if previous_usage \<ge> 0 then previous_usage else if new_usage \<ge> 0 then new_usage else -1)"

subsection \<open>Addresses\<close>

text \<open>The loop of \<open>add_in6_addr\<close>: how many bytes are left, and what is to be added to them.\<close>

fun add_in6_loop :: "nat \<Rightarrow> u32 \<Rightarrow> byte list \<Rightarrow> byte list" where
  "add_in6_loop 0 add a = a"
| "add_in6_loop (Suc i) add a =
     (if add > 0
      then (let h = ucast (a ! i) :: u32;
                carry = drop_bit 8 ((h AND 0xff) + (add AND 0xff))
            in add_in6_loop i (drop_bit 8 add + carry) (a[i := ucast ((h + add) AND 0xff)]))
      else a)"

definition add_in6_addr :: "byte list \<Rightarrow> u32 \<Rightarrow> byte list" where
  "add_in6_addr base add = add_in6_loop 16 add base"

definition in6_low32 :: "byte list \<Rightarrow> u32" where
  "in6_low32 a = push_bit 24 (ucast (a ! 12)) OR push_bit 16 (ucast (a ! 13))
     OR push_bit 8 (ucast (a ! 14)) OR ucast (a ! 15)"

definition handle_word :: "int \<Rightarrow> u32" where
  "handle_word h = word_of_int h"

definition ifconfig_pool_handle_to_ip_base :: "ifconfig_pool \<Rightarrow> int \<Rightarrow> u32" where
  "ifconfig_pool_handle_to_ip_base pool hand =
     (if ip4_enabled pool \<and> hand \<ge> 0 \<and> hand < ip_size pool
      then (case ip4_type pool of
              IFCONFIG_POOL_30NET \<Rightarrow> ip4_base pool + push_bit 2 (handle_word hand)
            | IFCONFIG_POOL_INDIV \<Rightarrow> ip4_base pool + handle_word hand)
      else 0)"

definition ifconfig_pool_handle_to_ipv6_base :: "ifconfig_pool \<Rightarrow> int \<Rightarrow> byte list" where
  "ifconfig_pool_handle_to_ipv6_base pool hand =
     (if ip6_enabled pool \<and> hand \<ge> 0 \<and> hand < ip_size pool
      then add_in6_addr (ip6_base pool) (handle_word hand)
      else replicate 16 0)"

definition in_pool :: "ifconfig_pool \<Rightarrow> int \<Rightarrow> int" where
  "in_pool pool ret = (if ret < 0 \<or> ret \<ge> ip_size pool then -1 else ret)"

definition ifconfig_pool_ip_base_to_handle :: "ifconfig_pool \<Rightarrow> u32 \<Rightarrow> int" where
  "ifconfig_pool_ip_base_to_handle pool addr =
     in_pool pool (sint (case ip4_type pool of
                           IFCONFIG_POOL_30NET \<Rightarrow> drop_bit 2 (addr - ip4_base pool)
                         | IFCONFIG_POOL_INDIV \<Rightarrow> addr - ip4_base pool))"

definition ifconfig_pool_ipv6_base_to_handle :: "ifconfig_pool \<Rightarrow> byte list \<Rightarrow> int" where
  "ifconfig_pool_ipv6_base_to_handle pool in_addr =
     (if take 12 (ip6_base pool) \<noteq> take 12 in_addr then -1
      else in_pool pool (sint (in6_low32 in_addr - in6_low32 (ip6_base pool))))"

subsection \<open>The pool\<close>

definition ifconfig_pool_verify_range :: "u32 \<Rightarrow> u32 \<Rightarrow> bool" where
  "ifconfig_pool_verify_range start e = (\<not> start > e \<and> \<not> e - start \<ge> IFCONFIG_POOL_MAX)"

text \<open>The IPv4 part: base and size. The IPv6 part: base and size.\<close>

definition pool_ipv4 :: "pool_type \<Rightarrow> u32 \<Rightarrow> u32 \<Rightarrow> u32 \<times> int" where
  "pool_ipv4 typ start e =
     (case typ of
        IFCONFIG_POOL_30NET \<Rightarrow> (let base = start AND NOT 3 in (base, sint (drop_bit 2 ((e OR 3) + 1 - base))))
      | IFCONFIG_POOL_INDIV \<Rightarrow> (start, sint (e - start + 1)))"

definition pool_ipv6 :: "byte list \<Rightarrow> int \<Rightarrow> byte list \<times> int" where
  "pool_ipv6 ipv6_base ipv6_netbits =
     (let host_bits = nat (128 - ipv6_netbits);
          base0 = in6_low32 ipv6_base;
          base1 = (if 128 - ipv6_netbits < 32 then base0 AND (push_bit host_bits 1 - 1) else base0);
          base2 = (if base1 = 0 then base1 + 1 else base1);
          addr = (if base1 = 0 then ipv6_base[15 := ipv6_base ! 15 + 1] else ipv6_base)
      in (addr, if ipv6_netbits \<ge> 112 then sint (push_bit host_bits 1 - base2) else uint IFCONFIG_POOL_MAX))"

definition ifconfig_pool_init ::
    "bool \<Rightarrow> pool_type \<Rightarrow> u32 \<Rightarrow> u32 \<Rightarrow> bool \<Rightarrow> bool \<Rightarrow> byte list \<Rightarrow> int \<Rightarrow> ifconfig_pool option" where
  "ifconfig_pool_init ipv4_pool typ start e duplicate_cn ipv6_pool ipv6_base ipv6_netbits =
     (if start \<le> e \<and> e - start < IFCONFIG_POOL_MAX
      then (let (base4, size4) = pool_ipv4 typ start e;
                (base6, size6) = pool_ipv6 ipv6_base ipv6_netbits;
                n4 = (if ipv4_pool then size4 else 0);
                n = (if ipv6_pool \<and> (n4 \<le> 0 \<or> size6 < n4) then size6 else n4)
            in if (ipv4_pool \<and> size4 < 2) \<or> (ipv6_pool \<and> size6 < 2) then None
               else if n > 0
               then Some \<lparr>ip_duplicate_cn = duplicate_cn, ip4_enabled = ipv4_pool,
                      ip4_type = (if ipv4_pool then typ else IFCONFIG_POOL_30NET),
                      ip4_base = (if ipv4_pool then base4 else 0), ip6_enabled = ipv6_pool,
                      ip6_base = (if ipv6_pool then base6 else replicate 16 0), ip_size = n,
                      ip_list = replicate (nat n) empty_entry\<rparr>
               else None)
      else None)"

definition set_entry :: "ifconfig_pool \<Rightarrow> int \<Rightarrow> ifconfig_pool_entry \<Rightarrow> ifconfig_pool" where
  "set_entry pool i e = pool\<lparr>ip_list := (ip_list pool)[nat i := e]\<rparr>"

text \<open>The addresses of an entry: local and remote IPv4, remote IPv6.\<close>

definition entry_ipv4 :: "ifconfig_pool \<Rightarrow> int \<Rightarrow> u32 \<times> u32" where
  "entry_ipv4 pool i =
     (case ip4_type pool of
        IFCONFIG_POOL_30NET \<Rightarrow> (let b = ip4_base pool + push_bit 2 (handle_word i) in (b + 1, b + 2))
      | IFCONFIG_POOL_INDIV \<Rightarrow> (let b = ip4_base pool + handle_word i in (0, b)))"

record acquired =
  aq_handle :: int
  aq_ipv4 :: "(u32 \<times> u32) option"
  aq_ipv6 :: "byte list option"

definition ifconfig_pool_acquire ::
    "time_t \<Rightarrow> ifconfig_pool \<Rightarrow> bool \<Rightarrow> bool \<Rightarrow> string option \<Rightarrow> (acquired \<times> ifconfig_pool) option" where
  "ifconfig_pool_acquire now pool want4 want6 common_name =
     (let i = ifconfig_pool_find pool common_name
      in if i \<ge> 0
         then (let ipe = ip_list pool ! nat i
               in if pe_in_use ipe then None
                  else (let ipe1 = (ifconfig_pool_entry_free now ipe True)\<lparr>pe_in_use := True\<rparr>;
                            ipe2 = (case common_name of None \<Rightarrow> ipe1 | Some cn \<Rightarrow> ipe1\<lparr>pe_common_name := Some cn\<rparr>)
                        in Some (\<lparr>aq_handle = i,
                                  aq_ipv4 = (if ip4_enabled pool \<and> want4 then Some (entry_ipv4 pool i) else None),
                                  aq_ipv6 = (if ip6_enabled pool \<and> want6
                                             then Some (add_in6_addr (ip6_base pool) (handle_word i)) else None)\<rparr>,
                                 set_entry pool i ipe2)))
         else Some (\<lparr>aq_handle = i, aq_ipv4 = None, aq_ipv6 = None\<rparr>, pool))"

definition ifconfig_pool_release :: "time_t \<Rightarrow> ifconfig_pool \<Rightarrow> int \<Rightarrow> bool \<Rightarrow> bool \<times> ifconfig_pool" where
  "ifconfig_pool_release now pool hand hard =
     (if hand \<ge> 0 \<and> hand < ip_size pool
      then (True, set_entry pool hand (ifconfig_pool_entry_free now (ip_list pool ! nat hand) hard))
      else (False, pool))"

definition ifconfig_pool_set :: "time_t \<Rightarrow> ifconfig_pool \<Rightarrow> string \<Rightarrow> int \<Rightarrow> bool \<Rightarrow> ifconfig_pool" where
  "ifconfig_pool_set now pool cn h fixed =
     set_entry pool h ((ifconfig_pool_entry_free now (ip_list pool ! nat h) True)
       \<lparr>pe_in_use := False, pe_common_name := Some cn, pe_last_release := now, pe_fixed := fixed\<rparr>)"

subsection \<open>The persisted pool\<close>

definition ifconfig_pool_list_line ::
    "(u32 \<Rightarrow> string) \<Rightarrow> (byte list \<Rightarrow> string) \<Rightarrow> ifconfig_pool \<Rightarrow> int \<Rightarrow> string option" where
  "ifconfig_pool_list_line print4 print6 pool i =
     map_option (\<lambda>cn. cn @ '','' @ (if ip4_enabled pool then print4 (ifconfig_pool_handle_to_ip_base pool i) else [])
                   @ '','' @ (if ip6_enabled pool then print6 (ifconfig_pool_handle_to_ipv6_base pool i) else []))
       (pe_common_name (ip_list pool ! nat i))"

text \<open>A line for the file, unless it is too long or one was before; the flag is the \<open>errors\<close> member.\<close>

definition STATUS_PRINTF_MAXLEN :: nat where "STATUS_PRINTF_MAXLEN = 512"

definition status_printf :: "string \<Rightarrow> bool \<times> string \<Rightarrow> bool \<times> string" where
  "status_printf line so =
     (let errors = (length line \<ge> STATUS_PRINTF_MAXLEN \<or> fst so)
      in (errors, if errors then snd so else snd so @ line @ [CHR 0x0A]))"

text \<open>The text of the file.\<close>

definition ifconfig_pool_list :: "(u32 \<Rightarrow> string) \<Rightarrow> (byte list \<Rightarrow> string) \<Rightarrow> ifconfig_pool \<Rightarrow> string" where
  "ifconfig_pool_list print4 print6 pool =
     snd (fold status_printf (List.map_filter (ifconfig_pool_list_line print4 print6 pool) [0..ip_size pool - 1]) (False, []))"

text \<open>
  \<open>status_read\<close> into the buffer of 256 bytes that \<open>ifconfig_pool_read\<close> has: whether there was a
  line, the line with its NUL, and the rest of the file.
\<close>

fun status_line :: "nat \<Rightarrow> string \<Rightarrow> string \<Rightarrow> string \<times> string" where
  "status_line capacity buf [] = (buf, [])"
| "status_line capacity buf (c # r) =
     (if c = CHR 0x0D then status_line capacity buf r
      else if c = CHR 0x0A then (buf, r)
      else status_line capacity (if length buf < capacity then buf @ [c] else buf) r)"

definition status_read :: "nat \<Rightarrow> string \<Rightarrow> bool \<times> string \<times> string" where
  "status_read capacity fl =
     (let (buf, r) = status_line capacity [] fl in (fl \<noteq> [], buf_null_terminate capacity buf, r))"

text \<open>The handle a line asks for, or \<open>-1\<close>, from the fields after the name.\<close>

definition line_handle ::
    "(string \<Rightarrow> u32 option) \<Rightarrow> (string \<Rightarrow> byte list option) \<Rightarrow> ifconfig_pool \<Rightarrow> string \<Rightarrow> bool \<Rightarrow> string \<Rightarrow> int" where
  "line_handle getaddr get_ipv6_addr pool ip_buf has6 ip6_buf =
     (let h = (if ip_buf \<noteq> []
               then (case getaddr ip_buf of None \<Rightarrow> -1 | Some addr \<Rightarrow> ifconfig_pool_ip_base_to_handle pool addr)
               else -1)
      in if has6 \<and> ip6_buf \<noteq> []
         then (case get_ipv6_addr ip6_buf of
                 None \<Rightarrow> h
               | Some addr6 \<Rightarrow> if h < 0 then ifconfig_pool_ipv6_base_to_handle pool addr6 else h)
         else h)"

definition ifconfig_pool_read_line ::
    "(string \<Rightarrow> u32 option) \<Rightarrow> (string \<Rightarrow> byte list option) \<Rightarrow> time_t \<Rightarrow> bool \<Rightarrow> string \<Rightarrow> ifconfig_pool
       \<Rightarrow> ifconfig_pool option" where
  "ifconfig_pool_read_line getaddr get_ipv6_addr now fixed line pool =
     (if line = [] then Some pool
      else if hd line = CHR ''#'' \<or> hd line = CHR '';'' then Some pool
      else case buf_parse line CHR '','' 128 of
             None \<Rightarrow> None
           | Some (False, _, _) \<Rightarrow> Some pool
           | Some (True, cn_buf, r1) \<Rightarrow>
               (case buf_parse r1 CHR '','' 128 of
                  None \<Rightarrow> None
                | Some (False, _, _) \<Rightarrow> Some pool
                | Some (True, ip_buf, r2) \<Rightarrow>
                    (case buf_parse r2 CHR '','' 128 of
                       None \<Rightarrow> None
                     | Some (has6, ip6_buf, _) \<Rightarrow>
                         (let h = line_handle getaddr get_ipv6_addr pool ip_buf has6 ip6_buf
                          in Some (if h \<ge> 0 then ifconfig_pool_set now pool cn_buf h fixed else pool)))))"

lemma status_line_shorter: "length (snd (status_line n buf fl)) \<le> length fl"
  by (induction n buf fl rule: status_line.induct) (auto simp: le_SucI)

lemma status_read_shorter: "status_read n fl = (True, line, r) \<Longrightarrow> length r < length fl"
proof -
  assume "status_read n fl = (True, line, r)"
  then obtain c f where f: "fl = c # f" "snd (status_line n [] (c # f)) = r"
    by (cases fl) (auto simp: status_read_def Let_def split: prod.splits)
  then show ?thesis
    using status_line_shorter [of n "[]" f] status_line_shorter [of n "if 0 < n then [c] else []" f]
    by (auto split: if_splits)
qed

function ifconfig_pool_read ::
    "(string \<Rightarrow> u32 option) \<Rightarrow> (string \<Rightarrow> byte list option) \<Rightarrow> time_t \<Rightarrow> bool \<Rightarrow> string \<Rightarrow> ifconfig_pool
       \<Rightarrow> ifconfig_pool option" where
  "ifconfig_pool_read getaddr get_ipv6_addr now fixed fl pool =
     (case status_read 256 fl of
        (False, _, _) \<Rightarrow> Some pool
      | (True, line, r) \<Rightarrow>
          (case ifconfig_pool_read_line getaddr get_ipv6_addr now fixed line pool of
             None \<Rightarrow> None
           | Some pool1 \<Rightarrow> ifconfig_pool_read getaddr get_ipv6_addr now fixed r pool1))"
  by pat_completeness auto

termination ifconfig_pool_read
  by (relation "measure (\<lambda>(g, g6, n, f, t, p). length t)") (auto dest: status_read_shorter [OF sym])

declare ifconfig_pool_read.simps [simp del]

subsection \<open>The search\<close>

definition free_at :: "ifconfig_pool_entry list \<Rightarrow> int \<Rightarrow> bool" where
  "free_at l j = (0 \<le> j \<and> j < int (length l) \<and> \<not> pe_in_use (l ! nat j))"

text \<open>A free entry that is not reserved; a free entry that belonged to the name.\<close>

definition open_at :: "ifconfig_pool_entry list \<Rightarrow> int \<Rightarrow> bool" where
  "open_at l j = (free_at l j \<and> \<not> pe_fixed (l ! nat j))"

definition mine_at :: "string option \<Rightarrow> ifconfig_pool_entry list \<Rightarrow> int \<Rightarrow> bool" where
  "mine_at cn l j = (free_at l j \<and> cn \<noteq> None \<and> pe_common_name (l ! nat j) = cn)"

definition least_at :: "(int \<Rightarrow> bool) \<Rightarrow> int \<Rightarrow> bool" where
  "least_at P i = (if i < 0 then i = -1 \<and> (\<forall>j. \<not> P j) else P i \<and> (\<forall>j<i. \<not> P j))"

definition oldest_at :: "ifconfig_pool_entry list \<Rightarrow> time_t \<Rightarrow> int \<Rightarrow> bool" where
  "oldest_at l er i =
     (if i < 0 then i = -1 \<and> (\<forall>j. \<not> open_at l j)
      else open_at l i \<and> er = pe_last_release (l ! nat i)
           \<and> (\<forall>j. open_at l j \<longrightarrow> er \<le> pe_last_release (l ! nat j)))"

lemma free_at_snoc:
  "free_at (l @ [x]) j \<longleftrightarrow> free_at l j \<or> (j = int (length l) \<and> \<not> pe_in_use x)"
proof (cases "0 \<le> j \<and> j < int (length l)")
  case True
  then have "nat j < length l" by linarith
  then show ?thesis using True by (auto simp: free_at_def nth_append)
qed (auto simp: free_at_def nth_append)

lemma free_at_nth: "free_at l j \<Longrightarrow> (l @ [x]) ! nat j = l ! nat j"
  by (auto simp: free_at_def nth_append nat_less_iff)

lemma open_at_snoc:
  "open_at (l @ [x]) j \<longleftrightarrow> open_at l j \<or> (j = int (length l) \<and> \<not> pe_in_use x \<and> \<not> pe_fixed x)"
  by (auto simp: open_at_def free_at_snoc free_at_nth)

lemma mine_at_snoc:
  "mine_at cn (l @ [x]) j \<longleftrightarrow> mine_at cn l j \<or> (j = int (length l) \<and> \<not> pe_in_use x \<and> cn \<noteq> None \<and> pe_common_name x = cn)"
  by (auto simp: mine_at_def free_at_snoc free_at_nth)

lemma mine_at_bound: "mine_at cn l j \<Longrightarrow> j < int (length l)"
  by (simp add: mine_at_def free_at_def)

lemma open_at_bound: "open_at l j \<Longrightarrow> 0 \<le> j \<and> j < int (length l)"
  by (simp add: open_at_def free_at_def)

lemma scan_step:
  assumes "least_at (mine_at cn p) prev" "oldest_at p er new"
    and "st' = (if pe_in_use x then (er, prev, new) else scan_entry cn (int (length p)) x (er, prev, new))"
  shows "\<exists>er' prev' new'. st' = (er', prev', new') \<and> least_at (mine_at cn (p @ [x])) prev' \<and> oldest_at (p @ [x]) er' new'"
proof -
  obtain er' prev' new' where st': "st' = (er', prev', new')" by (cases st') auto
  have "least_at (mine_at cn (p @ [x])) prev'"
    using assms(1,3) st' by (auto simp: least_at_def mine_at_snoc scan_entry_def Let_def dest: mine_at_bound split: if_splits)
  moreover have "oldest_at (p @ [x]) er' new'"
  proof (cases "open_at (p @ [x]) (int (length p)) \<and> (new = -1 \<or> pe_last_release x < er)")
    case True
    then have "er' = pe_last_release x" "new' = int (length p)"
      using assms(3) st' open_at_bound [of p "int (length p)"] by (auto simp: open_at_snoc scan_entry_def Let_def)
    then show ?thesis
      using True assms(2) open_at_bound [of p]
      by (auto simp: oldest_at_def open_at_snoc nth_append nat_less_iff split: if_splits)
  next
    case False
    then have same: "er' = er" "new' = new"
      using assms(3) st' by (auto simp: open_at_snoc scan_entry_def Let_def split: if_splits)
    show ?thesis
      using False assms(2) open_at_bound [of p] unfolding same
      by (auto simp: oldest_at_def open_at_snoc nth_append nat_less_iff split: if_splits)
  qed
  ultimately show ?thesis using st' by blast
qed

lemma pool_scan_spec:
  assumes "least_at (mine_at cn p) prev" "oldest_at p er new"
  shows "\<exists>er' prev' new'. pool_scan False cn (int (length p)) l (er, prev, new) = (er', prev', new')
           \<and> least_at (mine_at cn (p @ l)) prev' \<and> oldest_at (p @ l) er' new'"
  using assms
proof (induction l arbitrary: p er prev new)
  case (Cons x l)
  obtain er' prev' new' where st: "(if pe_in_use x then (er, prev, new) else scan_entry cn (int (length p)) x (er, prev, new))
      = (er', prev', new')" "least_at (mine_at cn (p @ [x])) prev'" "oldest_at (p @ [x]) er' new'"
    using scan_step [OF Cons.prems refl] by blast
  have "pool_scan False cn (int (length p)) (x # l) (er, prev, new) = pool_scan False cn (int (length (p @ [x]))) l (er', prev', new')"
    using st(1) by (simp add: add.commute split: if_splits)
  then show ?case using Cons.IH [OF st(2,3)] by simp
qed simp

lemma pool_scan_dup:
  "\<exists>er'. pool_scan True cn i l (er, prev, -1) =
     (er', prev, if \<exists>x \<in> set l. \<not> pe_in_use x then i + int (length (takeWhile pe_in_use l)) else -1)"
proof (induction l arbitrary: i)
  case (Cons x l)
  obtain er' where "pool_scan True cn (i + 1) l (er, prev, -1) =
     (er', prev, if \<exists>x \<in> set l. \<not> pe_in_use x then i + 1 + int (length (takeWhile pe_in_use l)) else -1)"
    using Cons.IH [of "i + 1"] by blast
  then show ?case by simp
qed simp

text \<open>
  What the search finds: with duplicate names allowed, the first free entry; otherwise the first
  free entry of the name, or else the open entry that was released longest ago.
\<close>

lemma pool_find_spec:
  assumes "\<not> ip_duplicate_cn pool"
  shows "\<exists>prev new er. least_at (mine_at cn (ip_list pool)) prev \<and> oldest_at (ip_list pool) er new
           \<and> ifconfig_pool_find pool cn = (if prev \<ge> 0 then prev else new)"
proof -
  have "least_at (mine_at cn []) (-1)" "oldest_at [] 0 (-1)"
    by (auto simp: least_at_def oldest_at_def mine_at_def open_at_def free_at_def)
  from pool_scan_spec [OF this, of "ip_list pool"] obtain er prev new
    where r: "pool_scan False cn 0 (ip_list pool) (0, -1, -1) = (er, prev, new)"
      "least_at (mine_at cn (ip_list pool)) prev" "oldest_at (ip_list pool) er new" by auto
  then have "ifconfig_pool_find pool cn = (if prev \<ge> 0 then prev else new)"
    using assms by (auto simp: ifconfig_pool_find_def oldest_at_def split: if_splits)
  then show ?thesis using r by blast
qed

lemma pool_find_dup:
  assumes "ip_duplicate_cn pool"
  shows "ifconfig_pool_find pool cn =
           (if \<exists>x \<in> set (ip_list pool). \<not> pe_in_use x then int (length (takeWhile pe_in_use (ip_list pool))) else -1)"
  using pool_scan_dup [of cn 0 "ip_list pool" 0 "-1"] assms by (auto simp: ifconfig_pool_find_def)

lemma pool_find_free:
  assumes "ifconfig_pool_find pool cn \<ge> 0"
  shows "free_at (ip_list pool) (ifconfig_pool_find pool cn)"
proof (cases "ip_duplicate_cn pool")
  case True
  let ?n = "length (takeWhile pe_in_use (ip_list pool))"
  have ex: "\<exists>x \<in> set (ip_list pool). \<not> pe_in_use x" using assms pool_find_dup [OF True, of cn] by (auto split: if_splits)
  then have "?n < length (ip_list pool)"
    by (metis length_takeWhile_le linorder_neqE_nat not_le takeWhile_eq_all_conv takeWhile_eq_take take_all_iff le_refl)
  moreover have "\<not> pe_in_use (ip_list pool ! ?n)" using nth_length_takeWhile calculation by blast
  ultimately show ?thesis using pool_find_dup [OF True, of cn] ex by (simp add: free_at_def)
next
  case False
  then show ?thesis
    using pool_find_spec [OF False, of cn] assms
    by (auto simp: least_at_def oldest_at_def mine_at_def open_at_def split: if_splits)
qed

subsection \<open>Adding to an IPv6 address\<close>

definition be_val :: "byte list \<Rightarrow> int" where
  "be_val bs = foldl (\<lambda>v b. v * 256 + uint b) 0 bs"

lemma be_val_snoc [simp]: "be_val (bs @ [b]) = be_val bs * 256 + uint b"
  by (simp add: be_val_def)

lemma be_val_Nil [simp]: "be_val [] = 0"
  by (simp add: be_val_def)

lemma be_val_range: "0 \<le> be_val bs \<and> be_val bs < 256 ^ length bs"
proof (induction bs rule: rev_induct)
  case (snoc b bs)
  have "uint b < 256" "0 \<le> uint b" using uint_bounded [of b] by auto
  then show ?case using snoc by (simp add: algebra_simps)
qed simp

lemma be_val_append: "be_val (as @ bs) = be_val as * 256 ^ length bs + be_val bs"
  by (induction bs rule: rev_induct) (simp_all add: algebra_simps flip: append_assoc)

lemma be_val_inj: "length as = length bs \<Longrightarrow> be_val as = be_val bs \<Longrightarrow> as = bs"
proof (induction as arbitrary: bs rule: rev_induct)
  case (snoc a as)
  then obtain b bs' where bs: "bs = bs' @ [b]" "length bs' = length as"
    by (metis length_append_singleton length_0_conv rev_exhaust nat.distinct(1) add_right_cancel Suc_eq_plus1)
  have "uint a < 256" "0 \<le> uint a" "uint b < 256" "0 \<le> uint b"
    using uint_bounded [of a] uint_bounded [of b] by auto
  moreover have "be_val as * 256 + uint a = be_val bs' * 256 + uint b" using snoc.prems bs by simp
  ultimately have "be_val as = be_val bs'" by linarith
  moreover from this have "uint a = uint b" using snoc.prems bs by simp
  ultimately have "be_val as = be_val bs'" "a = b" by (simp_all add: word_uint_eq_iff)
  then show ?case using snoc.IH [of bs'] bs by simp
qed simp

lemma carry_arith: "a = 256 * q + r \<Longrightarrow> h + r = 256 * q' + b \<Longrightarrow> (q + q') * 256 + b = h + (a :: int)"
  by (simp add: algebra_simps)

lemma add_byte_arith:
  fixes h a b :: int
  assumes "b = (h + a mod 256) mod 256"
  shows "(a div 256 + (h + a mod 256) div 256) * 256 + b = h + a"
  unfolding assms by (rule carry_arith [OF mult_div_mod_eq [symmetric] mult_div_mod_eq [symmetric]])

text \<open>One byte: the sum is the carry and the byte that stays.\<close>

lemma add_byte:
  fixes h :: byte and add :: u32
  defines "carry \<equiv> drop_bit 8 ((ucast h AND 0xff) + (add AND 0xff)) :: u32"
  shows "uint (drop_bit 8 add + carry) * 256 + uint (ucast ((ucast h + add) AND 0xff) :: byte) = uint h + uint add"
proof -
  have h: "0 \<le> uint h" "uint h < 256" using uint_bounded [of h] by auto
  have a: "0 \<le> uint add" "uint add < 2 ^ 32" using uint_bounded [of add] by auto
  have m: "uint (x AND 0xff :: u32) = uint x mod 256" for x :: u32
  proof -
    have "uint (x AND 0xff) = uint x AND mask 8" by (simp add: uint_and mask_eq_exp_minus_1)
    also have "\<dots> = uint x mod 256" by (simp flip: take_bit_eq_mask add: take_bit_eq_mod)
    finally show ?thesis .
  qed
  have up: "uint (ucast h :: u32) = uint h"
    using h by (simp add: unsigned_ucast_eq take_bit_int_eq_self)
  have d: "uint (drop_bit 8 x) = uint x div 256" for x :: u32
    using uint_lt2p [of x]
    by (simp add: unsigned_drop_bit_eq) (simp add: drop_bit_eq_div take_bit_eq_mod)
  have s1: "uint ((ucast h AND 0xff) + (add AND 0xff) :: u32) = uint h + uint add mod 256"
  proof -
    have "uint add mod 256 < 256" by simp
    then have "uint h + uint add mod 256 < 4294967296" using h by linarith
    then show ?thesis using h unfolding uint_add32 m up by simp
  qed
  have c: "uint carry = (uint h + uint add mod 256) div 256"
    unfolding carry_def d s1 ..
  have s2: "uint (drop_bit 8 add + carry) = uint add div 256 + (uint h + uint add mod 256) div 256"
  proof -
    have "uint add div 256 < 2 ^ 24" "(uint h + uint add mod 256) div 256 < 2" using a h by auto
    then show ?thesis unfolding uint_add32 d c by simp
  qed
  have "uint (ucast ((ucast h + add) AND 0xff) :: byte) = (uint h + uint add) mod 256"
  proof -
    have "uint (ucast h + add :: u32) mod 256 = (uint h + uint add) mod 256"
      unfolding uint_word_ariths up by (simp add: mod_mod_cancel)
    then show ?thesis by (simp add: unsigned_ucast_eq take_bit_eq_mod m)
  qed
  also have "\<dots> = (uint h + uint add mod 256) mod 256" by (simp add: mod_add_right_eq)
  finally have "uint (ucast ((ucast h + add) AND 0xff) :: byte) = (uint h + uint add mod 256) mod 256" .
  then show ?thesis unfolding s2 by (rule add_byte_arith)
qed

lemma mod_shift:
  fixes u x m :: int
  assumes "0 \<le> x" "x < 256" "0 < m"
  shows "(u * 256 + x) mod (256 * m) = u mod m * 256 + x"
proof -
  obtain q r where qr: "u = m * q + r" "0 \<le> r" "r < m" "r = u mod m"
    using assms(3) by (metis mult_div_mod_eq pos_mod_bound pos_mod_sign)
  have "0 \<le> r * 256 + x" "r * 256 + x < 256 * m" using assms qr by linarith+
  moreover have "u * 256 + x = 256 * m * q + (r * 256 + x)" unfolding qr(1) by (simp add: algebra_simps)
  ultimately show ?thesis unfolding qr(4) [symmetric] by (metis add.commute mod_mult_self2 mod_pos_pos_trivial)
qed

lemma take_Suc_update:
  "i < length a \<Longrightarrow> take (Suc i) (a[i := x]) = take i a @ [x]" "i < length a \<Longrightarrow> take i (a[i := x]) = take i a"
  by (simp_all add: take_Suc_conv_app_nth)

lemma add_in6_loop_val:
  assumes "n \<le> length a"
  shows "length (add_in6_loop n add a) = length a \<and> drop n (add_in6_loop n add a) = drop n a
         \<and> be_val (take n (add_in6_loop n add a)) = (be_val (take n a) + uint add) mod 256 ^ n"
  using assms
proof (induction n arbitrary: add a)
  case 0
  then show ?case by (simp add: mod_by_1 [of "uint add", simplified])
next
  case (Suc n)
  have n: "n < length a" using Suc.prems by simp
  have split: "take (Suc n) a = take n a @ [a ! n]" using n by (simp add: take_Suc_conv_app_nth)
  have rng: "0 \<le> be_val (take (Suc n) a)" "be_val (take (Suc n) a) < 256 ^ Suc n"
    using be_val_range [of "take (Suc n) a"] n by (simp_all add: min_absorb2 Suc_leI)
  show ?case
  proof (cases "add > 0")
    case False
    then have "add = 0" by (simp add: word_gt_0)
    then show ?thesis using rng by simp
  next
    case True
    let ?carry = "drop_bit 8 ((ucast (a ! n) AND 0xff) + (add AND 0xff)) :: u32"
    let ?x = "ucast ((ucast (a ! n) + add) AND 0xff) :: byte"
    let ?a = "a[n := ?x]"
    let ?r = "add_in6_loop n (drop_bit 8 add + ?carry) ?a"
    have ih: "length ?r = length ?a" "drop n ?r = drop n ?a"
      "be_val (take n ?r) = (be_val (take n ?a) + uint (drop_bit 8 add + ?carry)) mod 256 ^ n"
      using Suc.IH [of ?a "drop_bit 8 add + ?carry"] n by simp_all
    have res: "add_in6_loop (Suc n) add a = ?r" using True by (simp add: Let_def)
    have nth: "?r ! n = ?x"
      using arg_cong [OF ih(2), of hd] n ih(1) by (simp add: hd_drop_conv_nth)
    have "be_val (take (Suc n) ?r) = be_val (take n ?r) * 256 + uint ?x"
      using n ih(1) nth by (simp add: take_Suc_conv_app_nth)
    also have "\<dots> = (be_val (take n a) + uint (drop_bit 8 add + ?carry)) mod 256 ^ n * 256 + uint ?x"
      using ih(3) n by simp
    also have "\<dots> = (be_val (take (Suc n) a) + uint add) mod 256 ^ Suc n"
    proof -
      have x: "0 \<le> uint ?x" "uint ?x < 256" using uint_bounded [of ?x] by auto
      have "be_val (take (Suc n) a) + uint add = (be_val (take n a) + uint (drop_bit 8 add + ?carry)) * 256 + uint ?x"
        using add_byte [of add "a ! n"] split by simp
      also have "\<dots> mod 256 ^ Suc n = (be_val (take n a) + uint (drop_bit 8 add + ?carry)) mod 256 ^ n * 256 + uint ?x"
        unfolding power_Suc by (rule mod_shift [OF x]) simp
      finally show ?thesis by simp
    qed
    finally have "be_val (take (Suc n) ?r) = (be_val (take (Suc n) a) + uint add) mod 256 ^ Suc n" .
    moreover have "drop (Suc n) ?r = drop (Suc n) a"
    proof -
      have "drop (Suc n) ?r = drop (Suc 0) (drop n ?r)" by (simp only: drop_drop add_Suc add_0)
      also have "\<dots> = drop (Suc n) ?a" unfolding ih(2) by (simp only: drop_drop add_Suc add_0)
      also have "\<dots> = drop (Suc n) a" by (simp add: drop_update_cancel)
      finally show ?thesis .
    qed
    ultimately show ?thesis unfolding res using ih(1) by simp
  qed
qed

text \<open>\<open>add_in6_addr\<close> adds modulo \<open>2 ^ 128\<close>.\<close>

lemma add_in6_addr_val:
  assumes "length base = 16"
  shows "length (add_in6_addr base add) = 16"
    "be_val (add_in6_addr base add) = (be_val base + uint add) mod 2 ^ 128"
proof -
  have l: "length (add_in6_addr base add) = 16"
    "be_val (take 16 (add_in6_addr base add)) = (be_val (take 16 base) + uint add) mod 256 ^ 16"
    using add_in6_loop_val [of 16 base add] assms by (simp_all add: add_in6_addr_def del: take_all_iff take_all)
  then show "length (add_in6_addr base add) = 16"
    "be_val (add_in6_addr base add) = (be_val base + uint add) mod 2 ^ 128"
    using assms by simp_all
qed

lemma add_in6_addr_inj:
  assumes "length base = 16" "add_in6_addr base x = add_in6_addr base y"
  shows "x = y"
proof -
  have "(be_val base + uint x) mod 2 ^ 128 = (be_val base + uint y) mod 2 ^ 128"
    using add_in6_addr_val(2) [OF assms(1)] assms(2) by metis
  then have "(2::int) ^ 128 dvd uint x - uint y" by (simp add: mod_eq_dvd_iff)
  moreover have "\<bar>uint x - uint y\<bar> < 2 ^ 32"
  proof -
    have "uint x < 4294967296" "uint y < 4294967296" using uint_lt2p [of x] uint_lt2p [of y] by simp_all
    moreover have "0 \<le> uint x" "0 \<le> uint y" by simp_all
    ultimately have "uint x - uint y < 4294967296 \<and> uint y - uint x < 4294967296" by linarith
    then show ?thesis unfolding abs_less_iff by simp
  qed
  then have "\<bar>uint x - uint y\<bar> < 2 ^ 128" by simp
  ultimately have "uint x - uint y = 0" using zdvd_imp_le [of "2 ^ 128" "\<bar>uint x - uint y\<bar>"] by fastforce
  then show ?thesis by (simp add: word_uint_eq_iff)
qed

lemma be_val_4: "be_val [a, b, c, d] = uint a * 2 ^ 24 + uint b * 2 ^ 16 + uint c * 2 ^ 8 + uint d"
  by (simp add: be_val_def algebra_simps)

lemma un_be32_sum:
  "un_be32 [a, b, c, d] = push_bit 24 (ucast a) + push_bit 16 (ucast b) + push_bit 8 (ucast c) + ucast d"
proof -
  have 1: "push_bit 24 (ucast a) OR push_bit 16 (ucast b) = push_bit 24 (ucast a) + (push_bit 16 (ucast b) :: u32)"
    by (rule disjunctive_add [symmetric]) (auto simp: bit_simps dest: bit_imp_le_length)
  have 2: "(push_bit 24 (ucast a) OR push_bit 16 (ucast b)) OR push_bit 8 (ucast c)
      = (push_bit 24 (ucast a) OR push_bit 16 (ucast b)) + (push_bit 8 (ucast c) :: u32)"
    by (rule disjunctive_add [symmetric]) (auto simp: bit_simps dest: bit_imp_le_length)
  have 3: "((push_bit 24 (ucast a) OR push_bit 16 (ucast b)) OR push_bit 8 (ucast c)) OR ucast d
      = ((push_bit 24 (ucast a) OR push_bit 16 (ucast b)) OR push_bit 8 (ucast c)) + (ucast d :: u32)"
    by (rule disjunctive_add [symmetric]) (auto simp: bit_simps dest: bit_imp_le_length)
  have "un_be32 [a, b, c, d] = ((push_bit 24 (ucast a) OR push_bit 16 (ucast b)) OR push_bit 8 (ucast c)) OR ucast d"
    by (simp add: un_be32_def or.assoc)
  moreover note s2 = 2 [unfolded 1]
  moreover note s3 = 3 [unfolded 1, unfolded s2]
  ultimately show ?thesis unfolding 1 by (simp only:)
qed

lemma uint_push_byte: "n \<le> 24 \<Longrightarrow> uint (push_bit n (ucast (a :: byte)) :: u32) = uint a * 2 ^ n"
proof -
  assume n: "n \<le> 24"
  have "uint a * 2 ^ n < 2 ^ 8 * 2 ^ n" using uint_lt2p [of a] by simp
  also have "\<dots> \<le> 2 ^ 32" using power_increasing [OF n, of "2::int"] by simp
  finally have lt: "uint a * 2 ^ n < 2 ^ 32" .
  have "uint (push_bit n (ucast a) :: u32) = take_bit 32 (push_bit n (uint (ucast a :: u32)))"
    by (simp add: unsigned_push_bit_eq)
  also have "uint (ucast a :: u32) = uint a"
    using uint_lt2p [of a] by (simp add: unsigned_ucast_eq take_bit_int_eq_self)
  also have "take_bit 32 (push_bit n (uint a)) = uint a * 2 ^ n"
    unfolding push_bit_eq_mult using lt by (intro take_bit_int_eq_self) simp_all
  finally show ?thesis .
qed

lemma uint_un_be32:
  "uint (un_be32 [a, b, c, d]) = uint a * 2 ^ 24 + uint b * 2 ^ 16 + uint c * 2 ^ 8 + uint d"
proof -
  have r: "uint a < 256" "uint b < 256" "uint c < 256" "uint d < 256"
    using uint_lt2p [of a] uint_lt2p [of b] uint_lt2p [of c] uint_lt2p [of d] by simp_all
  have d: "uint (ucast d :: u32) = uint d" using uint_push_byte [of 0 d] by simp
  show ?thesis unfolding un_be32_sum using r by (simp add: uint_add32 uint_push_byte d)
qed

lemma in6_low32_val:
  assumes "length a = 16"
  shows "uint (in6_low32 a) = be_val (drop 12 a)" "be_val a = be_val (take 12 a) * 2 ^ 32 + uint (in6_low32 a)"
proof -
  have d: "drop 12 a = [a ! 12, a ! 13, a ! 14, a ! 15]"
    using assms by (intro nth_equalityI) (auto simp: less_Suc_eq numeral_eq_Suc)
  have "in6_low32 a = un_be32 (drop 12 a)" by (simp add: in6_low32_def un_be32_def d)
  then show u: "uint (in6_low32 a) = be_val (drop 12 a)"
    unfolding d by (simp only: uint_un_be32 be_val_4)
  show "be_val a = be_val (take 12 a) * 2 ^ 32 + uint (in6_low32 a)"
    unfolding u using be_val_append [of "take 12 a" "drop 12 a"] assms by simp
qed

subsection \<open>Sizes and ranges\<close>

definition pool_ok :: "ifconfig_pool \<Rightarrow> bool" where
  "pool_ok pool = (2 \<le> ip_size pool \<and> ip_size pool \<le> 65536 \<and> length (ip_list pool) = nat (ip_size pool)
     \<and> length (ip6_base pool) = 16)"

lemma pool_ok_set_entry: "pool_ok pool \<Longrightarrow> pool_ok (set_entry pool i e)"
  by (simp add: pool_ok_def set_entry_def)

lemma set_entry_sel [simp]:
  "ip_duplicate_cn (set_entry pool i e) = ip_duplicate_cn pool" "ip4_enabled (set_entry pool i e) = ip4_enabled pool"
  "ip4_type (set_entry pool i e) = ip4_type pool" "ip4_base (set_entry pool i e) = ip4_base pool"
  "ip6_enabled (set_entry pool i e) = ip6_enabled pool" "ip6_base (set_entry pool i e) = ip6_base pool"
  "ip_size (set_entry pool i e) = ip_size pool" "ip_list (set_entry pool i e) = (ip_list pool)[nat i := e]"
  by (simp_all add: set_entry_def)

lemma u32_mask_2: "(3 :: u32) = Bit_Operations.mask 2"
  by (simp add: mask_eq_exp_minus_1)

lemma u32_and_not_3: "uint (x AND NOT 3 :: u32) = uint x - uint x mod 4"
proof -
  have "x AND NOT 3 = push_bit 2 (drop_bit 2 x)"
    unfolding u32_mask_2 by (rule bit_word_eqI) (auto simp: bit_simps not_less dest!: le_Suc_ex)
  then have "uint (x AND NOT 3) = uint (push_bit 2 (drop_bit 2 x))" by (rule arg_cong)
  also have "\<dots> = 4 * (uint x div 4)"
  proof -
    have "0 \<le> uint x div 4 * 4" "uint x div 4 * 4 < 4294967296" using uint_lt2p [of x] by (auto simp: pos_imp_zdiv_nonneg_iff)
    then have "uint x div 4 * 4 mod 4294967296 = 4 * (uint x div 4)" by simp
    then show ?thesis
      using uint_lt2p [of x]
      by (simp add: unsigned_push_bit_eq unsigned_drop_bit_eq) (simp add: push_bit_eq_mult drop_bit_eq_div take_bit_eq_mod)
  qed
  finally show ?thesis by (simp add: minus_mod_eq_mult_div)
qed

lemma u32_or_3: "uint (x OR 3 :: u32) = uint x - uint x mod 4 + 3"
proof -
  have "x OR 3 = (x AND NOT 3) OR 3" by (rule bit_word_eqI) (auto simp: bit_simps)
  also have "\<dots> = (x AND NOT 3) + 3"
    unfolding u32_mask_2 by (rule disjunctive_add [symmetric]) (auto simp: bit_simps)
  finally have "uint (x OR 3) = uint ((x AND NOT 3) + 3)" by (rule arg_cong)
  moreover have "uint x - uint x mod 4 + 3 < 2 ^ 32"
  proof -
    have "uint x div 4 < 1073741824" using uint_lt2p [of x] by simp
    then have "4 * (uint x div 4) + 3 < 4294967296" by linarith
    then show ?thesis unfolding minus_mod_eq_mult_div by simp
  qed
  ultimately show ?thesis
    unfolding uint_add32 u32_and_not_3 by simp
qed

text \<open>The size of an IPv4 pool, for both types: the addresses stay below the end of the range.\<close>

lemma sint_small: "uint (x :: u32) < 2 ^ 31 \<Longrightarrow> sint x = uint x"
  using order_trans [OF _ uint_ge_0, of "- 2147483648" x]
  by (simp add: sint_uint signed_take_bit_int_eq_self_iff)

definition pool_low :: "pool_type \<Rightarrow> u32 \<Rightarrow> int" where
  "pool_low typ start = (if typ = IFCONFIG_POOL_30NET then uint (start AND NOT 3) else uint start)"

definition pool_high :: "pool_type \<Rightarrow> u32 \<Rightarrow> int" where
  "pool_high typ e = (if typ = IFCONFIG_POOL_30NET then uint (e OR 3) else uint e)"

definition entry_width :: "pool_type \<Rightarrow> int" where
  "entry_width typ = (if typ = IFCONFIG_POOL_30NET then 4 else 1)"

lemma pool_ipv4_range:
  assumes "start \<le> e" "e - start < IFCONFIG_POOL_MAX" "pool_ipv4 typ start e = (base, n)"
  shows "uint base = pool_low typ start" "n * entry_width typ = pool_high typ e + 1 - pool_low typ start"
    "0 < n" "n \<le> 65536"
proof -
  have se: "uint start \<le> uint e" using assms(1) by (simp add: word_le_def)
  then have w: "uint e - uint start < 65536"
    using assms(2) by (simp add: word_less_def uint_sub32 IFCONFIG_POOL_MAX_def)
  have lt: "uint e < 2 ^ 32" using uint_lt2p [of e] by simp
  have "uint base = pool_low typ start \<and> n * entry_width typ = pool_high typ e + 1 - pool_low typ start
     \<and> 0 < n \<and> n \<le> 65536"
  proof (cases "typ")
    case IFCONFIG_POOL_INDIV
    have "uint (e - start + 1) = uint e - uint start + 1" using se w by (simp add: uint_add32 uint_sub32)
    then show ?thesis using assms(3) IFCONFIG_POOL_INDIV se w
      by (auto simp: pool_ipv4_def pool_low_def pool_high_def entry_width_def sint_small)
  next
    case IFCONFIG_POOL_30NET
    define a b where "a = uint start div 4" and "b = uint e div 4"
    have ab: "a \<le> b" using se unfolding a_def b_def by (rule zdiv_mono1) simp
    have b: "b - a \<le> 16384" using w unfolding a_def b_def by linarith
    have u: "uint (start AND NOT 3) = 4 * a" "uint (e OR 3) = 4 * b + 3"
      unfolding u32_and_not_3 u32_or_3 a_def b_def minus_mod_eq_mult_div by simp_all
    have "uint ((e OR 3) + 1 - (start AND NOT 3)) = 4 * (b - a + 1)"
    proof -
      have "4 * b + 3 < 2 ^ 32" using uint_lt2p [of "e OR 3"] u(2) by simp
      moreover have "0 \<le> a" by (simp add: a_def pos_imp_zdiv_nonneg_iff)
      ultimately show ?thesis using ab b unfolding uint_sub32 uint_add32 u by auto
    qed
    then have "uint (drop_bit 2 ((e OR 3) + 1 - (start AND NOT 3))) = b - a + 1"
      using ab b by (simp add: unsigned_drop_bit_eq) (simp add: drop_bit_eq_div take_bit_eq_mod)
    then have "sint (drop_bit 2 ((e OR 3) + 1 - (start AND NOT 3))) = b - a + 1"
      using b by (simp add: sint_small)
    then have "base = start AND NOT 3" "n = b - a + 1"
      using assms(3) IFCONFIG_POOL_30NET by (auto simp: pool_ipv4_def Let_def)
    then show ?thesis
      using IFCONFIG_POOL_30NET ab b u by (auto simp: pool_low_def pool_high_def entry_width_def)
  qed
  then show "uint base = pool_low typ start" "n * entry_width typ = pool_high typ e + 1 - pool_low typ start"
    "0 < n" "n \<le> 65536" by blast+
qed

lemma pool_ipv6_range:
  assumes "length base = 16" "pool_ipv6 base netbits = (addr, n)" "0 \<le> netbits" "netbits \<le> 128"
  shows "length addr = 16" "n \<le> 65536"
proof -
  show "length addr = 16" using assms by (auto simp: pool_ipv6_def Let_def)
  show "n \<le> 65536"
  proof (cases "netbits \<ge> 112")
    case True
    define k where "k = nat (128 - netbits)"
    have k: "k \<le> 16" using True by (simp add: k_def)
    have pw: "uint (push_bit k 1 :: u32) = 2 ^ k" "(2::int) ^ k \<le> 65536"
      using k power_increasing [OF k, of "2::int"]
      by (simp_all del: push_bit_of_1 add: unsigned_push_bit_eq take_bit_int_eq_self) (simp add: take_bit_int_eq_self)
    define b1 :: u32 where "b1 = in6_low32 base AND (push_bit k 1 - 1)"
    have "b1 = take_bit k (in6_low32 base)"
      unfolding b1_def by (simp add: take_bit_eq_mask mask_eq_decr_exp push_bit_eq_mult)
    then have b1: "uint b1 < 2 ^ k" by (simp add: unsigned_take_bit_eq)
    define b2 where "b2 = (if b1 = 0 then b1 + 1 else b1)"
    have b2: "uint b2 \<le> 2 ^ k" using b1 by (simp add: b2_def)
    have "n = sint (push_bit k 1 - b2)"
      using assms(2) True by (auto simp: pool_ipv6_def Let_def b2_def b1_def k_def)
    moreover have "uint (push_bit k 1 - b2) = 2 ^ k - uint b2" unfolding uint_sub32 pw(1) using b2 by simp
    moreover have "2 ^ k - uint b2 \<le> 65536" using pw(2) uint_ge_0 [of b2] by linarith
    ultimately show ?thesis using sint_small [of "push_bit k 1 - b2"] by (simp del: push_bit_of_1)
  qed (use assms in \<open>auto simp: pool_ipv6_def Let_def IFCONFIG_POOL_MAX_def\<close>)
qed

subsection \<open>Acquiring and releasing\<close>

text \<open>What a client is given with a handle, and the entry that is then its own.\<close>

definition granted :: "ifconfig_pool \<Rightarrow> int \<Rightarrow> acquired" where
  "granted pool h = \<lparr>aq_handle = h,
     aq_ipv4 = (if ip4_enabled pool then Some (entry_ipv4 pool h) else None),
     aq_ipv6 = (if ip6_enabled pool then Some (add_in6_addr (ip6_base pool) (handle_word h)) else None)\<rparr>"

definition taken_entry :: "string option \<Rightarrow> ifconfig_pool_entry \<Rightarrow> ifconfig_pool_entry" where
  "taken_entry cn ipe = ipe\<lparr>pe_in_use := True, pe_common_name := cn, pe_last_release := 0\<rparr>"

lemma taken_entry_code:
  "(case cn of None \<Rightarrow> (ifconfig_pool_entry_free now ipe True)\<lparr>pe_in_use := True\<rparr>
    | Some c \<Rightarrow> (ifconfig_pool_entry_free now ipe True)\<lparr>pe_in_use := True\<rparr>\<lparr>pe_common_name := Some c\<rparr>) = taken_entry cn ipe"
  by (cases ipe; cases cn) (simp_all add: ifconfig_pool_entry_free_def taken_entry_def)

lemma acquire_cases:
  "ifconfig_pool_acquire now pool True True cn =
     (let h = ifconfig_pool_find pool cn
      in if h \<ge> 0 then Some (granted pool h, set_entry pool h (taken_entry cn (ip_list pool ! nat h)))
         else Some (\<lparr>aq_handle = h, aq_ipv4 = None, aq_ipv6 = None\<rparr>, pool))"
  using pool_find_free [of pool cn]
  by (simp add: ifconfig_pool_acquire_def Let_def free_at_def granted_def taken_entry_code)

definition acquire_choice :: "ifconfig_pool \<Rightarrow> string option \<Rightarrow> int \<Rightarrow> bool" where
  "acquire_choice pool cn h =
     (let l = ip_list pool
      in if ip_duplicate_cn pool then free_at l h \<and> (\<forall>j<h. \<not> free_at l j)
         else if \<exists>j. mine_at cn l j then mine_at cn l h \<and> (\<forall>j<h. \<not> mine_at cn l j)
         else open_at l h \<and> (\<forall>j. open_at l j \<longrightarrow> pe_last_release (l ! nat h) \<le> pe_last_release (l ! nat j)))"

definition none_left :: "ifconfig_pool \<Rightarrow> string option \<Rightarrow> bool" where
  "none_left pool cn =
     (if ip_duplicate_cn pool then (\<forall>j. \<not> free_at (ip_list pool) j)
      else (\<forall>j. \<not> open_at (ip_list pool) j \<and> \<not> mine_at cn (ip_list pool) j))"

lemma find_choice:
  "if ifconfig_pool_find pool cn \<ge> 0 then acquire_choice pool cn (ifconfig_pool_find pool cn)
   else ifconfig_pool_find pool cn = -1 \<and> none_left pool cn"
proof (cases "ip_duplicate_cn pool")
  case True
  note d = pool_find_dup [OF True, of cn]
  show ?thesis
  proof (cases "\<exists>x \<in> set (ip_list pool). \<not> pe_in_use x")
    case ex: True
    then have h: "ifconfig_pool_find pool cn = int (length (takeWhile pe_in_use (ip_list pool)))" using d by simp
    have "\<not> free_at (ip_list pool) j" if "j < ifconfig_pool_find pool cn" for j
    proof
      assume fr: "free_at (ip_list pool) j"
      then have "nat j < length (takeWhile pe_in_use (ip_list pool))" using that h by (simp add: free_at_def nat_less_iff)
      then have "pe_in_use (ip_list pool ! nat j)" by (metis nth_mem set_takeWhileD takeWhile_nth)
      then show False using fr by (simp add: free_at_def)
    qed
    then show ?thesis using h pool_find_free [of pool cn] True by (simp add: acquire_choice_def)
  next
    case False
    then have "\<not> free_at (ip_list pool) j" for j by (auto simp: free_at_def)
    then show ?thesis using False d True by (auto simp: none_left_def)
  qed
next
  case False
  obtain prev new er where f: "least_at (mine_at cn (ip_list pool)) prev" "oldest_at (ip_list pool) er new"
    "ifconfig_pool_find pool cn = (if prev \<ge> 0 then prev else new)"
    using pool_find_spec [OF False, of cn] by blast
  show ?thesis
  proof (cases "prev \<ge> 0")
    case True
    then show ?thesis using f False by (auto simp: acquire_choice_def least_at_def Let_def)
  next
    case np: False
    then have none: "\<forall>j. \<not> mine_at cn (ip_list pool) j" using f(1) by (simp add: least_at_def)
    show ?thesis using f(2,3) np none False
      by (auto simp: acquire_choice_def oldest_at_def none_left_def Let_def split: if_splits)
  qed
qed

text \<open>
  C33: \<open>ifconfig_pool_acquire\<close> never trips its assertion. With duplicate names allowed it takes the
  first free entry; otherwise the first free entry that belonged to the name, and only when there is
  none the unreserved free entry that was released longest ago. The entry is then in use under that
  name, every other entry is as it was, and the addresses are those of the handle. It returns \<open>-1\<close>
  and changes nothing only when every entry is in use or reserved for another name.
\<close>

lemma acquire_policy:
  "\<exists>a pool'. ifconfig_pool_acquire now pool True True cn = Some (a, pool')
     \<and> (if aq_handle a = -1 then none_left pool cn \<and> pool' = pool \<and> aq_ipv4 a = None \<and> aq_ipv6 a = None
        else acquire_choice pool cn (aq_handle a) \<and> a = granted pool (aq_handle a)
             \<and> pool' = set_entry pool (aq_handle a) (taken_entry cn (ip_list pool ! nat (aq_handle a))))"
  using find_choice [of pool cn] unfolding acquire_cases Let_def
  by (cases "ifconfig_pool_find pool cn \<ge> 0") (auto simp: granted_def)

text \<open>The clients of a pool: what happens, and who holds what.\<close>

datatype pool_event = Acquire time_t "string option" | Release time_t int bool

fun pool_step :: "pool_event \<Rightarrow> ifconfig_pool \<times> acquired list \<Rightarrow> (ifconfig_pool \<times> acquired list) option" where
  "pool_step (Acquire now cn) (pool, held) =
     map_option (\<lambda>(a, pool'). (pool', if aq_handle a < 0 then held else a # held))
       (ifconfig_pool_acquire now pool True True cn)"
| "pool_step (Release now h hard) (pool, held) =
     Some (snd (ifconfig_pool_release now pool h hard), filter (\<lambda>a. aq_handle a \<noteq> h) held)"

fun pool_run :: "pool_event list \<Rightarrow> ifconfig_pool \<times> acquired list \<Rightarrow> (ifconfig_pool \<times> acquired list) option" where
  "pool_run [] st = Some st"
| "pool_run (e # es) st = (case pool_step e st of None \<Rightarrow> None | Some st1 \<Rightarrow> pool_run es st1)"

definition in_use_at :: "ifconfig_pool_entry list \<Rightarrow> int set" where
  "in_use_at l = {h. 0 \<le> h \<and> h < int (length l) \<and> pe_in_use (l ! nat h)}"

definition clients_ok :: "ifconfig_pool \<Rightarrow> acquired list \<Rightarrow> bool" where
  "clients_ok pool held = (distinct (map aq_handle held) \<and> aq_handle ` set held = in_use_at (ip_list pool)
     \<and> (\<forall>a \<in> set held. a = granted pool (aq_handle a)))"

lemma granted_set_entry [simp]: "granted (set_entry pool i e) = granted pool"
  by (intro ext) (simp add: granted_def entry_ipv4_def Let_def split: pool_type.splits)

lemma in_use_at_update:
  assumes "0 \<le> h" "h < int (length l)"
  shows "in_use_at (l[nat h := e]) = (if pe_in_use e then insert h (in_use_at l) else in_use_at l - {h})"
proof (intro set_eqI)
  fix j
  show "j \<in> in_use_at (l[nat h := e]) \<longleftrightarrow> j \<in> (if pe_in_use e then insert h (in_use_at l) else in_use_at l - {h})"
    using assms by (cases "j = h") (auto simp: in_use_at_def nth_list_update nat_eq_iff)
qed

definition same_pool :: "ifconfig_pool \<Rightarrow> ifconfig_pool \<Rightarrow> bool" where
  "same_pool p q = (p\<lparr>ip_list := []\<rparr> = q\<lparr>ip_list := []\<rparr>)"

lemma same_pool_sel:
  assumes "same_pool p q"
  shows "ip4_enabled p = ip4_enabled q" "ip4_type p = ip4_type q" "ip4_base p = ip4_base q"
    "ip6_enabled p = ip6_enabled q" "ip6_base p = ip6_base q" "ip_size p = ip_size q"
  using assms unfolding same_pool_def by (cases p; cases q; simp)+

lemma same_pool_refl [simp]: "same_pool p p"
  by (simp add: same_pool_def)

lemma same_pool_trans: "same_pool p q \<Longrightarrow> same_pool q r \<Longrightarrow> same_pool p r"
  by (simp add: same_pool_def)

lemma same_pool_set_entry [simp]: "same_pool (set_entry p i e) p"
  by (simp add: same_pool_def set_entry_def)

lemma pool_step_ok:
  assumes "pool_ok pool" "clients_ok pool held"
  shows "\<exists>pool' held'. pool_step ev (pool, held) = Some (pool', held') \<and> pool_ok pool' \<and> clients_ok pool' held' \<and> same_pool pool' pool"
proof (cases ev)
  case (Acquire now cn)
  show ?thesis
  proof (cases "ifconfig_pool_find pool cn \<ge> 0")
    case True
    define h where "h = ifconfig_pool_find pool cn"
    have h: "0 \<le> h" "h < int (length (ip_list pool))" "\<not> pe_in_use (ip_list pool ! nat h)"
      using pool_find_free [OF True] by (simp_all add: h_def free_at_def)
    have "h \<notin> aq_handle ` set held" using assms(2) h by (simp add: clients_ok_def in_use_at_def)
    then have "clients_ok (set_entry pool h (taken_entry cn (ip_list pool ! nat h))) (granted pool h # held)"
      using assms(2) h unfolding clients_ok_def
      by (simp add: in_use_at_update taken_entry_def) (simp add: granted_def)
    then show ?thesis
      using Acquire True assms(1) h(1) by (simp add: acquire_cases Let_def pool_ok_set_entry flip: h_def) (simp add: granted_def)
  next
    case False
    then show ?thesis using Acquire assms by (simp add: acquire_cases Let_def)
  qed
next
  case (Release now h hard)
  show ?thesis
  proof (cases "0 \<le> h \<and> h < ip_size pool")
    case True
    then have b: "0 \<le> h" "h < int (length (ip_list pool))" using assms(1) by (simp_all add: pool_ok_def)
    have "clients_ok (set_entry pool h (ifconfig_pool_entry_free now (ip_list pool ! nat h) hard)) (filter (\<lambda>a. aq_handle a \<noteq> h) held)"
      using assms(2) b unfolding clients_ok_def
      by (auto simp: in_use_at_update ifconfig_pool_entry_free_def distinct_map_filter)
    then show ?thesis using Release True assms(1) by (simp add: ifconfig_pool_release_def pool_ok_set_entry)
  next
    case False
    then have "filter (\<lambda>a. aq_handle a \<noteq> h) held = held"
      using assms by (intro filter_True) (auto simp: clients_ok_def pool_ok_def in_use_at_def)
    moreover have "ifconfig_pool_release now pool h hard = (False, pool)"
      using False by (auto simp: ifconfig_pool_release_def)
    ultimately show ?thesis using Release assms by simp
  qed
qed

lemma pool_run_ok:
  assumes "pool_ok pool" "clients_ok pool held"
  shows "\<exists>pool' held'. pool_run evs (pool, held) = Some (pool', held') \<and> pool_ok pool' \<and> clients_ok pool' held' \<and> same_pool pool' pool"
  using assms
proof (induction evs arbitrary: pool held)
  case (Cons ev evs)
  obtain p1 h1 where 1: "pool_step ev (pool, held) = Some (p1, h1)" "pool_ok p1" "clients_ok p1 h1" "same_pool p1 pool"
    using pool_step_ok [OF Cons.prems] by blast
  then show ?case using Cons.IH [OF 1(2,3)] same_pool_trans [OF _ 1(4)] by fastforce
qed simp

subsection \<open>A pool that was set up\<close>

definition netbits_ok :: "int \<Rightarrow> bool" where
  "netbits_ok n = (0 \<le> n \<and> n \<le> 128)"

definition spans :: "ifconfig_pool \<Rightarrow> pool_type \<Rightarrow> u32 \<Rightarrow> u32 \<Rightarrow> bool" where
  "spans pool typ start e = (ip4_enabled pool \<longrightarrow> ip4_type pool = typ \<and> uint (ip4_base pool) = pool_low typ start
     \<and> ip_size pool * entry_width typ \<le> pool_high typ e + 1 - pool_low typ start)"

lemma spans_same: "same_pool p q \<Longrightarrow> spans p typ start e = spans q typ start e"
  by (simp add: spans_def same_pool_sel)

lemma pool_init_ok:
  assumes "ifconfig_pool_init v4 typ start e dup v6 base netbits = Some pool" "length base = 16" "netbits_ok netbits"
  shows "pool_ok pool" "clients_ok pool []" "spans pool typ start e"
    "ip4_enabled pool = v4" "ip6_enabled pool = v6"
proof -
  obtain base4 size4 base6 size6 where
    p4: "pool_ipv4 typ start e = (base4, size4)" and p6: "pool_ipv6 base netbits = (base6, size6)"
    by (metis surj_pair)
  define n where "n = (if v6 \<and> ((if v4 then size4 else 0) \<le> 0 \<or> size6 < (if v4 then size4 else 0)) then size6 else if v4 then size4 else 0)"
  have c: "start \<le> e" "e - start < IFCONFIG_POOL_MAX" "\<not> ((v4 \<and> size4 < 2) \<or> (v6 \<and> size6 < 2))" "n > 0"
    and pool: "pool = \<lparr>ip_duplicate_cn = dup, ip4_enabled = v4, ip4_type = (if v4 then typ else IFCONFIG_POOL_30NET),
      ip4_base = (if v4 then base4 else 0), ip6_enabled = v6, ip6_base = (if v6 then base6 else replicate 16 0),
      ip_size = n, ip_list = replicate (nat n) empty_entry\<rparr>"
    using assms(1) by (simp_all add: ifconfig_pool_init_def Let_def p4 p6 flip: n_def split: if_splits)
  note r4 = pool_ipv4_range [OF c(1,2) p4]
  note r6 = pool_ipv6_range [OF assms(2) p6]
  have n: "2 \<le> n" "n \<le> 65536" "v4 \<Longrightarrow> n \<le> size4"
    using c(3,4) r4(4) r6(2) assms(3) unfolding n_def netbits_ok_def by (auto split: if_splits)
  show "pool_ok pool" using n r6(1) assms(3) by (simp add: pool pool_ok_def netbits_ok_def)
  show "clients_ok pool []" by (auto simp: pool clients_ok_def in_use_at_def empty_entry_def)
  show "spans pool typ start e"
  proof (cases v4)
    case True
    have "n * entry_width typ \<le> size4 * entry_width typ"
      using n(3) True by (intro mult_right_mono) (simp_all add: entry_width_def)
    then show ?thesis using True r4 by (simp add: pool spans_def)
  qed (simp add: pool spans_def)
  show "ip4_enabled pool = v4" "ip6_enabled pool = v6" by (simp_all add: pool)
qed

text \<open>The addresses of an entry of the pool, as numbers: nothing wraps.\<close>

definition remote_offset :: "pool_type \<Rightarrow> int" where
  "remote_offset typ = (if typ = IFCONFIG_POOL_30NET then 2 else 0)"

lemma uint_handle_word: "0 \<le> h \<Longrightarrow> h < 2 ^ 32 \<Longrightarrow> uint (handle_word h) = h"
  by (simp add: handle_word_def uint_word_of_int)

lemma handle_ip_base:
  assumes "spans pool typ start e" "pool_ok pool" "ip4_enabled pool" "0 \<le> h" "h < ip_size pool"
  shows "uint (ifconfig_pool_handle_to_ip_base pool h) = pool_low typ start + h * entry_width typ"
    "pool_low typ start + h * entry_width typ + (entry_width typ - 1) \<le> pool_high typ e" "pool_high typ e < 2 ^ 32"
proof -
  have s: "ip4_type pool = typ" "uint (ip4_base pool) = pool_low typ start"
    "ip_size pool * entry_width typ \<le> pool_high typ e + 1 - pool_low typ start"
    using assms(1,3) by (simp_all add: spans_def)
  have h: "h < 65536" using assms(2,5) by (simp add: pool_ok_def)
  have "(h + 1) * entry_width typ \<le> ip_size pool * entry_width typ"
    using assms(5) by (intro mult_right_mono) (simp_all add: entry_width_def)
  then show top: "pool_low typ start + h * entry_width typ + (entry_width typ - 1) \<le> pool_high typ e"
    using s(3) by (simp add: algebra_simps)
  show high: "pool_high typ e < 2 ^ 32"
    using uint_lt2p [of e] uint_lt2p [of "e OR 3"] by (simp add: pool_high_def)
  have pw: "uint (push_bit 2 (handle_word h)) = h * 4"
  proof -
    have "uint (push_bit 2 (handle_word h)) = take_bit 32 (push_bit 2 h)"
      using assms(4) h uint_handle_word [of h] by (simp only: unsigned_push_bit_eq) simp
    then show ?thesis using assms(4) h by (simp only: push_bit_eq_mult) (simp add: take_bit_int_eq_self)
  qed
  show "uint (ifconfig_pool_handle_to_ip_base pool h) = pool_low typ start + h * entry_width typ"
    using assms(3,4,5) top high s(1) h
    by (cases "typ") (simp_all add: ifconfig_pool_handle_to_ip_base_def uint_add32 s(2) pw uint_handle_word entry_width_def)
qed

lemma entry_addresses:
  assumes "spans pool typ start e" "pool_ok pool" "ip4_enabled pool" "0 \<le> h" "h < ip_size pool"
  obtains l r where "entry_ipv4 pool h = (l, r)" "uint r = pool_low typ start + h * entry_width typ + remote_offset typ"
    "uint r \<le> pool_high typ e" "l = (if typ = IFCONFIG_POOL_30NET then r - 1 else 0)"
proof -
  note b = handle_ip_base [OF assms]
  have ty: "ip4_type pool = typ" using assms(1,3) by (simp add: spans_def)
  show thesis
  proof (cases "typ")
    case IFCONFIG_POOL_30NET
    let ?b = "ifconfig_pool_handle_to_ip_base pool h"
    have e: "entry_ipv4 pool h = (?b + 1, ?b + 2)"
      using assms ty IFCONFIG_POOL_30NET by (simp add: entry_ipv4_def ifconfig_pool_handle_to_ip_base_def Let_def)
    have "uint (?b + 2) = uint ?b + 2" using b IFCONFIG_POOL_30NET by (simp add: uint_add32 entry_width_def)
    then show thesis using that [OF e] b IFCONFIG_POOL_30NET by (simp add: remote_offset_def entry_width_def)
  next
    case IFCONFIG_POOL_INDIV
    then show thesis
      using that [of 0 "ifconfig_pool_handle_to_ip_base pool h"] b assms ty
      by (simp add: remote_offset_def entry_width_def entry_ipv4_def ifconfig_pool_handle_to_ip_base_def)
  qed
qed

definition ipv4_apart :: "pool_type \<Rightarrow> acquired \<Rightarrow> acquired \<Rightarrow> bool" where
  "ipv4_apart typ a b = (case (aq_ipv4 a, aq_ipv4 b) of
     (Some (l, r), Some (l', r')) \<Rightarrow> uint r div entry_width typ \<noteq> uint r' div entry_width typ | _ \<Rightarrow> False)"

definition ipv4_within :: "pool_type \<Rightarrow> u32 \<Rightarrow> u32 \<Rightarrow> acquired \<Rightarrow> bool" where
  "ipv4_within typ start e a = (case aq_ipv4 a of
     Some (l, r) \<Rightarrow> pool_low typ start \<le> uint r \<and> uint r \<le> pool_high typ e
       \<and> (typ = IFCONFIG_POOL_30NET \<longrightarrow> uint r mod 4 = 2 \<and> l = r - 1)
   | None \<Rightarrow> False)"

definition ipv6_apart :: "acquired \<Rightarrow> acquired \<Rightarrow> bool" where
  "ipv6_apart a b = (aq_ipv6 a \<noteq> None \<and> aq_ipv6 b \<noteq> None \<and> aq_ipv6 a \<noteq> aq_ipv6 b)"

lemma low_aligned: "entry_width typ dvd pool_low typ start"
  unfolding pool_low_def entry_width_def u32_and_not_3 by (simp add: minus_mod_eq_mult_div)

lemma offset_div: "(entry_width typ * k + h * entry_width typ + remote_offset typ) div entry_width typ = k + h"
  by (cases "typ") (simp_all add: entry_width_def remote_offset_def flip: distrib_left add: algebra_simps)

text \<open>
  C32: From a pool \<open>ifconfig_pool_init\<close> set up for a range of addresses, whatever clients come and go in
  whatever order, no assertion fails, and the clients that hold an address hold different ones: with
  IPv4 every remote address lies in the range (the range grown to whole networks of four for
  \<open>net30\<close>), no two clients share one (nor a network of four, of which local and remote are the two
  usable addresses), and with IPv6 no two clients have the same IPv6 address.
\<close>

lemma pool_clients_keep_own_addresses:
  assumes "ifconfig_pool_init v4 typ start e dup v6 base netbits = Some pool" "length base = 16" "netbits_ok netbits"
  shows "\<exists>pool' held. pool_run evs (pool, []) = Some (pool', held) \<and> distinct held
           \<and> (v4 \<longrightarrow> (\<forall>a \<in> set held. ipv4_within typ start e a)
                    \<and> (\<forall>a \<in> set held. \<forall>b \<in> set held. a \<noteq> b \<longrightarrow> ipv4_apart typ a b))
           \<and> (v6 \<longrightarrow> (\<forall>a \<in> set held. \<forall>b \<in> set held. a \<noteq> b \<longrightarrow> ipv6_apart a b))"
proof -
  note init = pool_init_ok [OF assms]
  obtain pool' held where run: "pool_run evs (pool, []) = Some (pool', held)" "pool_ok pool'" "clients_ok pool' held"
    "same_pool pool' pool"
    using pool_run_ok [OF init(1,2)] by blast
  have sp: "spans pool' typ start e" "ip4_enabled pool' = v4" "ip6_enabled pool' = v6"
    using init(3,4,5) spans_same [OF run(4)] same_pool_sel [OF run(4)] by simp_all
  have g: "a = granted pool' (aq_handle a) \<and> 0 \<le> aq_handle a \<and> aq_handle a < ip_size pool'" if "a \<in> set held" for a
  proof -
    have "aq_handle a \<in> in_use_at (ip_list pool')" "a = granted pool' (aq_handle a)"
      using run(3) that unfolding clients_ok_def by blast+
    then show ?thesis using run(2) by (simp add: in_use_at_def pool_ok_def)
  qed
  have ne: "aq_handle a \<noteq> aq_handle b" if "a \<in> set held" "b \<in> set held" "a \<noteq> b" for a b
    using g [OF that(1)] g [OF that(2)] that(3) by metis
  obtain k where k: "pool_low typ start = entry_width typ * k" using low_aligned [of "typ" start] by (elim dvdE)
  have v4: "\<exists>l r. aq_ipv4 a = Some (l, r) \<and> uint r = entry_width typ * k + aq_handle a * entry_width typ + remote_offset typ
      \<and> uint r \<le> pool_high typ e \<and> l = (if typ = IFCONFIG_POOL_30NET then r - 1 else 0)"
    if a: "a \<in> set held" and v: v4 for a
  proof -
    have "aq_ipv4 a = Some (entry_ipv4 pool' (aq_handle a))"
    proof -
      have "aq_ipv4 a = aq_ipv4 (granted pool' (aq_handle a))" using g [OF a] by metis
      then show ?thesis using v sp(2) by (simp add: granted_def)
    qed
    moreover from g [OF a] obtain l r where "entry_ipv4 pool' (aq_handle a) = (l, r)"
      "uint r = pool_low typ start + aq_handle a * entry_width typ + remote_offset typ"
      "uint r \<le> pool_high typ e" "l = (if typ = IFCONFIG_POOL_30NET then r - 1 else 0)"
      using entry_addresses [OF sp(1) run(2)] sp(2) v by metis
    ultimately show ?thesis using k by auto
  qed
  have within: "ipv4_within typ start e a" if a: "a \<in> set held" and v: v4 for a
  proof -
    obtain l r where r: "aq_ipv4 a = Some (l, r)" "uint r = entry_width typ * k + aq_handle a * entry_width typ + remote_offset typ"
      "uint r \<le> pool_high typ e" "l = (if typ = IFCONFIG_POOL_30NET then r - 1 else 0)"
      using v4 [OF a v] by blast
    have "uint r mod 4 = 2" if "typ = IFCONFIG_POOL_30NET"
      unfolding r(2) using that by (simp add: entry_width_def remote_offset_def) presburger
    moreover have "pool_low typ start \<le> uint r"
      unfolding k r(2) using g [OF a] by (simp add: entry_width_def remote_offset_def)
    ultimately show ?thesis using r(1,3,4) by (simp add: ipv4_within_def)
  qed
  have apart: "ipv4_apart typ a b" if "a \<in> set held" "b \<in> set held" "a \<noteq> b" v4 for a b
    using v4 [OF that(1,4)] v4 [OF that(2,4)] ne [OF that(1-3)]
    by (auto simp: ipv4_apart_def offset_div)
  have apart6: "ipv6_apart a b" if "a \<in> set held" "b \<in> set held" "a \<noteq> b" v6 for a b
  proof -
    have six: "aq_ipv6 c = Some (add_in6_addr (ip6_base pool') (handle_word (aq_handle c)))" if "c \<in> set held" for c
    proof -
      have "aq_ipv6 c = aq_ipv6 (granted pool' (aq_handle c))" using g [OF that] by metis
      then show ?thesis using \<open>v6\<close> sp(3) by (simp add: granted_def)
    qed
    have l: "length (ip6_base pool') = 16" "ip_size pool' \<le> 65536" using run(2) by (simp_all add: pool_ok_def)
    have "handle_word (aq_handle a) \<noteq> handle_word (aq_handle b)"
      using ne [OF that(1-3)] g [OF that(1)] g [OF that(2)] l(2)
        uint_handle_word [of "aq_handle a"] uint_handle_word [of "aq_handle b"] by fastforce
    then show ?thesis using add_in6_addr_inj [OF l(1)] six that by (auto simp: ipv6_apart_def)
  qed
  have "distinct held" using run(3) by (simp add: clients_ok_def distinct_map)
  then show ?thesis using run(1) within apart apart6 by blast
qed

subsection \<open>Addresses and handles\<close>

lemma sint_below: "uint (w :: u32) = h \<Longrightarrow> h < 2 ^ 31 \<Longrightarrow> sint w = h"
  using sint_small by simp

text \<open>An IPv4 address of the pool, any of the four of a \<open>net30\<close> entry, leads back to its handle.\<close>

lemma ip_base_to_handle_back:
  assumes "pool_ok pool" "0 \<le> h" "h < ip_size pool" "0 \<le> k" "k < entry_width (ip4_type pool)" "ip4_enabled pool"
  shows "ifconfig_pool_ip_base_to_handle pool (ifconfig_pool_handle_to_ip_base pool h + word_of_int k) = h"
proof -
  have h: "h < 65536" using assms by (simp add: pool_ok_def)
  show ?thesis
  proof (cases "ip4_type pool")
    case IFCONFIG_POOL_INDIV
    then have "k = 0" using assms(4,5) by (simp add: entry_width_def)
    moreover have "sint (handle_word h) = h" using sint_below [OF uint_handle_word] assms(2) h by simp
    ultimately show ?thesis using assms IFCONFIG_POOL_INDIV
      by (simp add: ifconfig_pool_ip_base_to_handle_def ifconfig_pool_handle_to_ip_base_def in_pool_def)
  next
    case IFCONFIG_POOL_30NET
    then have k: "k < 4" using assms(5) by (simp add: entry_width_def)
    have "push_bit 2 (handle_word h) = word_of_int (4 * h)"
      by (simp add: handle_word_def push_bit_eq_mult)
    then have d: "push_bit 2 (handle_word h) + word_of_int k = (word_of_int (4 * h + k) :: u32)" by simp
    have "uint (word_of_int (4 * h + k) :: u32) = 4 * h + k"
      using assms(2,4) h k by (simp only: uint_word_of_int) simp
    then have "uint (drop_bit 2 (word_of_int (4 * h + k) :: u32)) = h"
      using assms(2,4) h k by (simp only: unsigned_drop_bit_eq) (simp add: drop_bit_eq_div take_bit_eq_mod)
    then have "sint (drop_bit 2 (word_of_int (4 * h + k) :: u32)) = h" using sint_below h by simp
    moreover have "ifconfig_pool_handle_to_ip_base pool h + word_of_int k - ip4_base pool = word_of_int (4 * h + k)"
      using assms IFCONFIG_POOL_30NET d by (simp add: ifconfig_pool_handle_to_ip_base_def)
    ultimately show ?thesis using assms IFCONFIG_POOL_30NET
      by (simp only: ifconfig_pool_ip_base_to_handle_def in_pool_def pool_type.case) simp
  qed
qed

text \<open>An IPv6 address leads back as long as the pool does not carry out of the last four bytes.\<close>

definition no_carry6 :: "ifconfig_pool \<Rightarrow> bool" where
  "no_carry6 pool = (uint (in6_low32 (ip6_base pool)) + ip_size pool \<le> 2 ^ 32)"

lemma ipv6_base_to_handle_back:
  assumes "pool_ok pool" "0 \<le> h" "h < ip_size pool" "ip6_enabled pool" "no_carry6 pool"
  shows "ifconfig_pool_ipv6_base_to_handle pool (ifconfig_pool_handle_to_ipv6_base pool h) = h"
proof -
  define B where "B = ip6_base pool"
  define A where "A = add_in6_addr B (handle_word h)"
  have l: "length B = 16" "h < 65536" using assms by (simp_all add: pool_ok_def B_def)
  have la: "length A = 16" using add_in6_addr_val(1) [OF l(1)] by (simp add: A_def)
  have sum: "uint (in6_low32 B) + h < 2 ^ 32" using assms(3,5) by (simp add: no_carry6_def B_def)
  have rB: "0 \<le> be_val (take 12 B)" "be_val (take 12 B) < 256 ^ 12"
    using be_val_range [of "take 12 B"] l by (simp_all add: min_def)
  have vA: "be_val A = be_val (take 12 B) * 2 ^ 32 + (uint (in6_low32 B) + h)"
  proof -
    have "be_val B + h < 2 ^ 128" using in6_low32_val(2) [OF l(1)] rB(2) sum by simp
    moreover have "0 \<le> be_val B + h" using be_val_range [of B] assms(2) by simp
    ultimately show ?thesis
      using add_in6_addr_val(2) [OF l(1), of "handle_word h"] assms(2) l(2) in6_low32_val(2) [OF l(1)]
      by (simp add: A_def uint_handle_word)
  qed
  have vA': "be_val A = be_val (take 12 A) * 2 ^ 32 + uint (in6_low32 A)" by (rule in6_low32_val(2) [OF la])
  have rA: "0 \<le> uint (in6_low32 A)" "uint (in6_low32 A) < 2 ^ 32" using uint_lt2p [of "in6_low32 A"] by simp_all
  have r2: "0 \<le> uint (in6_low32 B) + h" using assms(2) by simp
  have "be_val (take 12 A) * 4294967296 + uint (in6_low32 A) = be_val (take 12 B) * 4294967296 + (uint (in6_low32 B) + h)"
    "uint (in6_low32 A) < 4294967296" "uint (in6_low32 B) + h < 4294967296"
    using vA vA' rA(2) sum by simp_all
  then have top: "be_val (take 12 A) = be_val (take 12 B)"
    using rA(1) r2 by linarith
  then have low: "uint (in6_low32 A) = uint (in6_low32 B) + h" using vA vA' by simp
  have "take 12 A = take 12 B" using top la l by (intro be_val_inj) simp_all
  moreover have "uint (in6_low32 A - in6_low32 B) = h" using low assms(2) by (simp add: uint_sub32)
  then have "sint (in6_low32 A - in6_low32 B) = h" using sint_below l(2) by simp
  ultimately show ?thesis
    using assms by (simp add: ifconfig_pool_ipv6_base_to_handle_def ifconfig_pool_handle_to_ipv6_base_def in_pool_def
        flip: B_def A_def)
qed

subsection \<open>The persisted pool\<close>

definition field_ok :: "string \<Rightarrow> bool" where
  "field_ok f = (CHR 0x00 \<notin> set f \<and> CHR '','' \<notin> set f \<and> CHR 0x0A \<notin> set f \<and> CHR 0x0D \<notin> set f \<and> length f \<le> 127)"

lemma buf_parse_field:
  assumes "field_ok f"
  shows "buf_parse (f @ CHR '','' # r) CHR '','' 128 = Some (True, f, r)"
    "buf_parse (f @ [CHR 0x00]) CHR '','' 128 = Some (True, f, [])"
  using assms buf_parse_fits [of f "CHR '',''" 128] by (simp_all add: field_ok_def)

definition name_ok :: "string \<Rightarrow> bool" where
  "name_ok cn = (field_ok cn \<and> (cn = [] \<or> hd cn \<notin> {CHR ''#'', CHR '';''}))"

text \<open>
  What is needed of the conversions to text and back, for the addresses of the pool: no more than
  15 and 45 characters, as the formats of the addresses have, and the same address again.
\<close>

definition text4_ok :: "(u32 \<Rightarrow> string) \<Rightarrow> (string \<Rightarrow> u32 option) \<Rightarrow> ifconfig_pool \<Rightarrow> bool" where
  "text4_ok print4 getaddr pool = (\<forall>h. 0 \<le> h \<longrightarrow> h < ip_size pool \<longrightarrow>
     (let a = ifconfig_pool_handle_to_ip_base pool h
      in field_ok (print4 a) \<and> length (print4 a) \<le> 15 \<and> print4 a \<noteq> [] \<and> getaddr (print4 a) = Some a))"

definition text6_ok :: "(byte list \<Rightarrow> string) \<Rightarrow> (string \<Rightarrow> byte list option) \<Rightarrow> ifconfig_pool \<Rightarrow> bool" where
  "text6_ok print6 get6 pool = (\<forall>h. 0 \<le> h \<longrightarrow> h < ip_size pool \<longrightarrow>
     (let a = ifconfig_pool_handle_to_ipv6_base pool h
      in field_ok (print6 a) \<and> length (print6 a) \<le> 45 \<and> print6 a \<noteq> [] \<and> get6 (print6 a) = Some a))"

definition restorable ::
    "(u32 \<Rightarrow> string) \<Rightarrow> (string \<Rightarrow> u32 option) \<Rightarrow> (byte list \<Rightarrow> string) \<Rightarrow> (string \<Rightarrow> byte list option) \<Rightarrow> ifconfig_pool \<Rightarrow> bool" where
  "restorable print4 getaddr print6 get6 pool =
     ((ip4_enabled pool \<longrightarrow> text4_ok print4 getaddr pool) \<and> (ip6_enabled pool \<longrightarrow> text6_ok print6 get6 pool)
      \<and> (ip4_enabled pool \<or> ip6_enabled pool \<and> no_carry6 pool))"

definition restored :: "time_t \<Rightarrow> bool \<Rightarrow> ifconfig_pool_entry \<Rightarrow> ifconfig_pool_entry \<Rightarrow> ifconfig_pool_entry" where
  "restored now fixed e e0 = (case pe_common_name e of None \<Rightarrow> e0
     | Some cn \<Rightarrow> e0\<lparr>pe_in_use := False, pe_common_name := Some cn, pe_last_release := now, pe_fixed := fixed\<rparr>)"

lemma same_pool_code:
  assumes "same_pool p q"
  shows "ifconfig_pool_ip_base_to_handle p = ifconfig_pool_ip_base_to_handle q"
    "ifconfig_pool_ipv6_base_to_handle p = ifconfig_pool_ipv6_base_to_handle q"
  using same_pool_sel [OF assms]
  by (simp_all add: fun_eq_iff ifconfig_pool_ip_base_to_handle_def ifconfig_pool_ipv6_base_to_handle_def in_pool_def
        split: pool_type.splits)

lemma line_handle_back:
  assumes "same_pool p0 p" "pool_ok p" "restorable print4 getaddr print6 get6 p" "0 \<le> h" "h < ip_size p"
  defines "s4 \<equiv> if ip4_enabled p then print4 (ifconfig_pool_handle_to_ip_base p h) else []"
    and "s6 \<equiv> if ip6_enabled p then print6 (ifconfig_pool_handle_to_ipv6_base p h) else []"
  shows "line_handle getaddr get6 p0 s4 True s6 = h" "field_ok s4" "field_ok s6" "length s4 \<le> 15" "length s6 \<le> 45"
proof -
  have t4: "print4 (ifconfig_pool_handle_to_ip_base p h) \<noteq> []"
      "field_ok (print4 (ifconfig_pool_handle_to_ip_base p h))" "length (print4 (ifconfig_pool_handle_to_ip_base p h)) \<le> 15"
      "getaddr (print4 (ifconfig_pool_handle_to_ip_base p h)) = Some (ifconfig_pool_handle_to_ip_base p h)"
    if "ip4_enabled p" using assms(3-5) that by (simp_all add: restorable_def text4_ok_def Let_def)
  have t6: "print6 (ifconfig_pool_handle_to_ipv6_base p h) \<noteq> []"
      "field_ok (print6 (ifconfig_pool_handle_to_ipv6_base p h))" "length (print6 (ifconfig_pool_handle_to_ipv6_base p h)) \<le> 45"
      "get6 (print6 (ifconfig_pool_handle_to_ipv6_base p h)) = Some (ifconfig_pool_handle_to_ipv6_base p h)"
    if "ip6_enabled p" using assms(3-5) that by (simp_all add: restorable_def text6_ok_def Let_def)
  have nil: "field_ok []" by (simp add: field_ok_def)
  show "field_ok s4" "field_ok s6" "length s4 \<le> 15" "length s6 \<le> 45" using t4 t6 nil by (simp_all add: s4_def s6_def)
  have b4: "ifconfig_pool_ip_base_to_handle p (ifconfig_pool_handle_to_ip_base p h) = h" if "ip4_enabled p"
    using ip_base_to_handle_back [OF assms(2,4,5), of 0] that by (simp add: entry_width_def)
  have b6: "ifconfig_pool_ipv6_base_to_handle p (ifconfig_pool_handle_to_ipv6_base p h) = h" if "\<not> ip4_enabled p"
    using ipv6_base_to_handle_back [OF assms(2,4,5)] assms(3) that by (simp add: restorable_def)
  have en: "ip4_enabled p \<or> ip6_enabled p" using assms(3) by (auto simp: restorable_def)
  show "line_handle getaddr get6 p0 s4 True s6 = h"
    using t4 t6 b4 b6 en assms(4)
    by (auto simp: line_handle_def s4_def s6_def same_pool_code [OF assms(1)] split: option.splits)
qed

text \<open>Lines that are read from the file as they were written.\<close>

definition line_fits :: "string \<Rightarrow> bool" where
  "line_fits line = (length line < 256 \<and> CHR 0x0A \<notin> set line \<and> CHR 0x0D \<notin> set line \<and> CHR 0x00 \<notin> set line)"

fun read_lines ::
    "(string \<Rightarrow> u32 option) \<Rightarrow> (string \<Rightarrow> byte list option) \<Rightarrow> time_t \<Rightarrow> bool \<Rightarrow> string list \<Rightarrow> ifconfig_pool
       \<Rightarrow> ifconfig_pool option" where
  "read_lines getaddr get6 now fixed [] pool = Some pool"
| "read_lines getaddr get6 now fixed (line # ls) pool =
     (case ifconfig_pool_read_line getaddr get6 now fixed (line @ [CHR 0x00]) pool of
        None \<Rightarrow> None
      | Some pool1 \<Rightarrow> read_lines getaddr get6 now fixed ls pool1)"

definition file_text :: "string list \<Rightarrow> string" where
  "file_text ls = concat (map (\<lambda>l. l @ [CHR 0x0A]) ls)"

lemma status_printf_lines:
  "list_all line_fits ls \<Longrightarrow> fold status_printf ls (False, f) = (False, f @ file_text ls)"
  by (induction ls arbitrary: f)
    (auto simp: status_printf_def line_fits_def file_text_def STATUS_PRINTF_MAXLEN_def)

lemma status_line_back:
  "CHR 0x0A \<notin> set line \<Longrightarrow> CHR 0x0D \<notin> set line \<Longrightarrow> length buf + length line \<le> n \<Longrightarrow>
     status_line n buf (line @ CHR 0x0A # r) = (buf @ line, r)"
  by (induction line arbitrary: buf) auto

lemma status_read_back: "line_fits line \<Longrightarrow> status_read 256 (line @ CHR 0x0A # r) = (True, line @ [CHR 0x00], r)"
  by (auto simp: status_read_def line_fits_def status_line_back buf_null_terminate_def Let_def dest: last_in_set)

lemma read_file_lines:
  "list_all line_fits ls \<Longrightarrow> ifconfig_pool_read getaddr get6 now fixed (file_text ls) q = read_lines getaddr get6 now fixed ls q"
proof (induction ls arbitrary: q)
  case Nil
  then show ?case by (simp add: file_text_def ifconfig_pool_read.simps status_read_def)
next
  case (Cons line ls)
  then have "status_read 256 (file_text (line # ls)) = (True, line @ [CHR 0x00], file_text ls)"
    by (simp add: file_text_def status_read_back)
  then show ?case
    using Cons by (subst ifconfig_pool_read.simps) (simp split: option.split)
qed

lemma read_line_back:
  assumes "same_pool p0 p" "pool_ok p" "restorable print4 getaddr print6 get6 p" "0 \<le> h" "h < ip_size p"
    and "pe_common_name (ip_list p ! nat h) = Some cn" "name_ok cn"
    and "ifconfig_pool_list_line print4 print6 p h = Some line"
  shows "ifconfig_pool_read_line getaddr get6 now fixed (line @ [CHR 0x00]) p0 = Some (ifconfig_pool_set now p0 cn h fixed)"
    "line_fits line"
proof -
  define s4 where "s4 = (if ip4_enabled p then print4 (ifconfig_pool_handle_to_ip_base p h) else [])"
  define s6 where "s6 = (if ip6_enabled p then print6 (ifconfig_pool_handle_to_ipv6_base p h) else [])"
  have line: "line = cn @ CHR '','' # s4 @ CHR '','' # s6"
    using assms(6,8) by (simp add: ifconfig_pool_list_line_def s4_def s6_def)
  note lh = line_handle_back [OF assms(1-5), folded s4_def s6_def]
  have cn: "field_ok cn" "hd (line @ [CHR 0x00]) \<noteq> CHR ''#''" "hd (line @ [CHR 0x00]) \<noteq> CHR '';''"
    using assms(7) by (auto simp: name_ok_def line hd_append)
  show "ifconfig_pool_read_line getaddr get6 now fixed (line @ [CHR 0x00]) p0 = Some (ifconfig_pool_set now p0 cn h fixed)"
    using buf_parse_field(1) [OF cn(1)] buf_parse_field(1) [OF lh(2)] buf_parse_field(2) [OF lh(3)]
      lh(1) assms(4) cn(2,3)
    by (simp add: ifconfig_pool_read_line_def Let_def line)
  show "line_fits line" using cn(1) lh(2-5) by (auto simp: line_fits_def field_ok_def line)
qed

lemma pool_set_restored:
  "ifconfig_pool_set now p cn h fixed = set_entry p h
     ((ip_list p ! nat h)\<lparr>pe_in_use := False, pe_common_name := Some cn, pe_last_release := now, pe_fixed := fixed\<rparr>)"
  by (cases "ip_list p ! nat h") (simp add: ifconfig_pool_set_def ifconfig_pool_entry_free_def)

text \<open>Reading the lines of the handles from \<open>k\<close> on, one after the other.\<close>

lemma read_lines_back:
  assumes "pool_ok p" "restorable print4 getaddr print6 get6 p"
    and "\<forall>e \<in> set (ip_list p). \<forall>cn. pe_common_name e = Some cn \<longrightarrow> name_ok cn"
    and "0 \<le> k" "same_pool q p" "pool_ok q"
  shows "\<exists>q'. read_lines getaddr get6 now fixed
            (List.map_filter (ifconfig_pool_list_line print4 print6 p) [k..ip_size p - 1]) q = Some q'
           \<and> same_pool q' p \<and> ip_duplicate_cn q' = ip_duplicate_cn q \<and> length (ip_list q') = length (ip_list q)
           \<and> (\<forall>i < length (ip_list q). ip_list q' ! i = (if k \<le> int i then restored now fixed (ip_list p ! i) (ip_list q ! i)
                                                        else ip_list q ! i))"
  using assms(4-6)
proof (induction "nat (ip_size p - k)" arbitrary: k q)
  case 0
  then have "[k..ip_size p - 1] = []" "length (ip_list q) \<le> nat k"
    using same_pool_sel(6) [OF "0.prems"(2)] by (auto simp: pool_ok_def)
  then show ?case using 0 by (auto simp: map_filter_simps)
next
  case (Suc n)
  have k: "k < ip_size p" using Suc.hyps(2) by linarith
  have bound: "nat k < length (ip_list p)" "nat k < length (ip_list q)"
    using k Suc.prems assms(1) same_pool_sel(6) [OF Suc.prems(2)] by (auto simp: pool_ok_def)
  have n: "n = nat (ip_size p - (k + 1))" using Suc.hyps(2) by linarith
  have up: "[k..ip_size p - 1] = k # [k + 1..ip_size p - 1]" using k by (simp add: upto_rec1)
  define e where "e = ip_list p ! nat k"
  show ?case
  proof (cases "pe_common_name e")
    case None
    then have l: "ifconfig_pool_list_line print4 print6 p k = None" by (simp add: ifconfig_pool_list_line_def e_def)
    obtain q' where q': "read_lines getaddr get6 now fixed
            (List.map_filter (ifconfig_pool_list_line print4 print6 p) [k + 1..ip_size p - 1]) q = Some q'"
        "same_pool q' p" "ip_duplicate_cn q' = ip_duplicate_cn q" "length (ip_list q') = length (ip_list q)"
        "\<forall>i < length (ip_list q). ip_list q' ! i = (if k + 1 \<le> int i then restored now fixed (ip_list p ! i) (ip_list q ! i) else ip_list q ! i)"
      using Suc.hyps(1) [OF n _ Suc.prems(2,3)] Suc.prems(1) by auto
    have "ip_list q' ! i = (if k \<le> int i then restored now fixed (ip_list p ! i) (ip_list q ! i) else ip_list q ! i)"
      if i: "i < length (ip_list q)" for i
      using q'(5) i None Suc.prems(1) by (cases "int i = k") (auto simp: restored_def e_def)
    then show ?thesis using q' l up by (auto simp: map_filter_simps)
  next
    case (Some cn)
    then obtain line where l: "ifconfig_pool_list_line print4 print6 p k = Some line"
      by (simp add: ifconfig_pool_list_line_def e_def)
    have nm: "name_ok cn" using assms(3) Some bound(1) by (auto simp: e_def)
    define q1 where "q1 = ifconfig_pool_set now q cn k fixed"
    have rd: "ifconfig_pool_read_line getaddr get6 now fixed (line @ [CHR 0x00]) q = Some q1"
      using read_line_back(1) [OF Suc.prems(2) assms(1,2) Suc.prems(1) k _ nm l] Some by (simp add: e_def q1_def)
    have q1: "same_pool q1 p" "pool_ok q1" "ip_duplicate_cn q1 = ip_duplicate_cn q" "length (ip_list q1) = length (ip_list q)"
      using same_pool_trans [OF same_pool_set_entry Suc.prems(2)] pool_ok_set_entry [OF Suc.prems(3)]
      by (simp_all add: q1_def pool_set_restored)
    have q1n: "ip_list q1 ! i = (if int i = k then restored now fixed (ip_list p ! i) (ip_list q ! i) else ip_list q ! i)"
      if "i < length (ip_list q)" for i
      using that Some Suc.prems(1) by (auto simp: q1_def pool_set_restored nth_list_update restored_def e_def)
    obtain q' where q': "read_lines getaddr get6 now fixed
            (List.map_filter (ifconfig_pool_list_line print4 print6 p) [k + 1..ip_size p - 1]) q1 = Some q'"
        "same_pool q' p" "ip_duplicate_cn q' = ip_duplicate_cn q1" "length (ip_list q') = length (ip_list q1)"
        "\<forall>i < length (ip_list q1). ip_list q' ! i = (if k + 1 \<le> int i then restored now fixed (ip_list p ! i) (ip_list q1 ! i) else ip_list q1 ! i)"
      using Suc.hyps(1) [OF n _ q1(1,2)] Suc.prems(1) by auto
    have "ip_list q' ! i = (if k \<le> int i then restored now fixed (ip_list p ! i) (ip_list q ! i) else ip_list q ! i)"
      if i: "i < length (ip_list q)" for i
      using q'(5) i q1n [OF i] q1(4) by auto
    then show ?thesis using q' q1 l up rd by (auto simp: map_filter_simps)
  qed
qed

lemma lines_fit:
  assumes "pool_ok p" "restorable print4 getaddr print6 get6 p"
    and "\<forall>e \<in> set (ip_list p). \<forall>cn. pe_common_name e = Some cn \<longrightarrow> name_ok cn"
  shows "list_all line_fits (List.map_filter (ifconfig_pool_list_line print4 print6 p) [0..ip_size p - 1])"
proof -
  have "line_fits line" if l: "ifconfig_pool_list_line print4 print6 p h = Some line" "0 \<le> h" "h < ip_size p" for h line
  proof -
    obtain cn where cn: "pe_common_name (ip_list p ! nat h) = Some cn" using l(1) by (auto simp: ifconfig_pool_list_line_def)
    have "nat h < length (ip_list p)" using l(2,3) assms(1) by (auto simp: pool_ok_def)
    then have "name_ok cn" using assms(3) cn nth_mem by blast
    from read_line_back(2) [OF same_pool_refl assms(1,2) l(2,3) cn this l(1)] show ?thesis .
  qed
  then show ?thesis by (auto simp: list_all_iff map_filter_def)
qed

text \<open>
  C34: Writing the reservations of a pool with \<open>ifconfig_pool_list\<close> and reading the file back, into a
  pool of the same addresses and size, gives every entry that had a name its name again, free, reserved
  or not as asked, with the time of reading, and leaves every other entry as it was, provided that:
  the names have at most 127 characters, none of them a comma, a line end or NUL, and do not start with a
  comment character; addresses are converted to text and back without loss; and for a pool with IPv6
  only, the addresses differ in their last four bytes only. A name with a comma, which the program
  allows, can take another name's reservation (\<open>comma_name_takes_reservation\<close>).
\<close>

lemma pool_file_restores_reservations:
  assumes "pool_ok p" "pool_ok q" "same_pool q p" "restorable print4 getaddr print6 get6 p"
    and "\<forall>e \<in> set (ip_list p). \<forall>cn. pe_common_name e = Some cn \<longrightarrow> name_ok cn"
  shows "ifconfig_pool_read getaddr get6 now fixed (ifconfig_pool_list print4 print6 p) q
           = Some (q\<lparr>ip_list := map2 (restored now fixed) (ip_list p) (ip_list q)\<rparr>)"
proof -
  obtain q' where q': "ifconfig_pool_read getaddr get6 now fixed (ifconfig_pool_list print4 print6 p) q = Some q'"
      "same_pool q' p" "ip_duplicate_cn q' = ip_duplicate_cn q" "length (ip_list q') = length (ip_list q)"
      "\<forall>i < length (ip_list q). ip_list q' ! i = restored now fixed (ip_list p ! i) (ip_list q ! i)"
    using read_lines_back [OF assms(1,4,5) order_refl assms(3,2), of now fixed]
      read_file_lines [OF lines_fit [OF assms(1,4,5)], of getaddr get6 now fixed q]
    unfolding ifconfig_pool_list_def status_printf_lines [OF lines_fit [OF assms(1,4,5)]] by auto
  have "length (ip_list p) = length (ip_list q)"
    using assms(1,2) same_pool_sel(6) [OF assms(3)] by (simp add: pool_ok_def)
  then have l: "ip_list q' = map2 (restored now fixed) (ip_list p) (ip_list q)"
    using q'(4,5) by (intro nth_equalityI) simp_all
  have "q' = q\<lparr>ip_list := ip_list q'\<rparr>"
    using same_pool_sel [OF q'(2)] same_pool_sel [OF assms(3)] q'(3) by (cases q; cases q') simp
  then show ?thesis using q'(1) l by simp
qed

subsection \<open>A file of any content\<close>

lemma to_handle_range:
  "ifconfig_pool_ip_base_to_handle pool a \<in> {-1..<max 0 (ip_size pool)}"
  "ifconfig_pool_ipv6_base_to_handle pool a6 \<in> {-1..<max 0 (ip_size pool)}"
  by (auto simp: ifconfig_pool_ip_base_to_handle_def ifconfig_pool_ipv6_base_to_handle_def in_pool_def)

lemma line_handle_range:
  "line_handle getaddr get6 pool s4 has6 s6 \<in> {-1..<max 0 (ip_size pool)}"
  using to_handle_range [of pool] by (auto simp: line_handle_def Let_def split: option.splits)

lemma buf_parse_total: "\<exists>r. buf_parse b delim 128 = Some r"
  by (simp add: buf_parse_def split: prod.splits)

lemma read_line_ok:
  assumes "pool_ok q"
  shows "\<exists>q'. ifconfig_pool_read_line getaddr get6 now fixed line q = Some q' \<and> pool_ok q' \<and> same_pool q' q"
proof -
  have set: "pool_ok (ifconfig_pool_set now q cn h fixed)" "same_pool (ifconfig_pool_set now q cn h fixed) q" for cn h
    using assms by (simp_all add: pool_set_restored pool_ok_set_entry)
  obtain b1 f1 r1 b2 f2 r2 b3 f3 r3 where
    "buf_parse line CHR '','' 128 = Some (b1, f1, r1)" "buf_parse r1 CHR '','' 128 = Some (b2, f2, r2)"
    "buf_parse r2 CHR '','' 128 = Some (b3, f3, r3)"
    by (metis buf_parse_total prod_cases3)
  then show ?thesis using assms set
    by (cases b1; cases b2) (simp_all add: ifconfig_pool_read_line_def Let_def)
qed

lemma read_ok:
  "pool_ok q \<Longrightarrow> \<exists>q'. ifconfig_pool_read getaddr get6 now fixed fl q = Some q' \<and> pool_ok q' \<and> same_pool q' q"
proof (induction getaddr get6 now fixed fl q rule: ifconfig_pool_read.induct)
  case (1 getaddr get6 now fixed fl q)
  obtain ok line r where s: "status_read 256 fl = (ok, line, r)" by (metis prod_cases3)
  show ?case
  proof (cases ok)
    case True
    obtain q1 where q1: "ifconfig_pool_read_line getaddr get6 now fixed line q = Some q1" "pool_ok q1" "same_pool q1 q"
      using read_line_ok [OF "1.prems"] by blast
    obtain q2 where "ifconfig_pool_read getaddr get6 now fixed r q1 = Some q2" "pool_ok q2" "same_pool q2 q1"
      using "1.IH" [OF s [symmetric] _ refl q1(1,2)] True by auto
    then show ?thesis using s True q1 same_pool_trans by (subst ifconfig_pool_read.simps) auto
  next
    case False
    then show ?thesis using s "1.prems" by (subst ifconfig_pool_read.simps) simp
  qed
qed

text \<open>
  C35: A pool that was set up keeps its shape: between 2 and 65536 entries, as many as its size says,
  and the addresses it was set up with, after any sequence of acquisitions and releases (of any
  handle) and after reading a persist file of any content; and no line of such a file asks for an
  entry outside the list.
\<close>

lemma pool_keeps_shape:
  assumes "ifconfig_pool_init v4 typ start e dup v6 base netbits = Some pool" "length base = 16" "netbits_ok netbits"
  shows "\<exists>p1 held p2. pool_run evs (pool, []) = Some (p1, held)
           \<and> ifconfig_pool_read getaddr get6 now fixed fl p1 = Some p2
           \<and> pool_ok pool \<and> pool_ok p1 \<and> pool_ok p2 \<and> same_pool p1 pool \<and> same_pool p2 pool
           \<and> (\<forall>s4 has6 s6. line_handle getaddr get6 p1 s4 has6 s6 \<in> {-1..<int (length (ip_list p1))})"
proof -
  note init = pool_init_ok [OF assms]
  obtain p1 held where run: "pool_run evs (pool, []) = Some (p1, held)" "pool_ok p1" "same_pool p1 pool"
    using pool_run_ok [OF init(1,2)] by blast
  moreover obtain p2 where "ifconfig_pool_read getaddr get6 now fixed fl p1 = Some p2" "pool_ok p2" "same_pool p2 p1"
    using read_ok [OF run(2)] by blast
  moreover have "line_handle getaddr get6 p1 s4 has6 s6 \<in> {-1..<int (length (ip_list p1))}" for s4 has6 s6
    using line_handle_range [of getaddr get6 p1 s4 has6 s6] run(2) by (simp add: pool_ok_def)
  ultimately show ?thesis using init(1) same_pool_trans by blast
qed

subsection \<open>Concrete pools\<close>

text \<open>A \<open>net30\<close> pool of two entries, with an IPv6 pool beside it.\<close>

definition ip6_sample :: "byte list" where
  "ip6_sample = [0x20, 0x01, 0x0d, 0xb8, 0, 0, 0, 0, 0, 0, 0, 0, 0, 0, 0, 0]"

definition small_pool :: ifconfig_pool where
  "small_pool = \<lparr>ip_duplicate_cn = False, ip4_enabled = True, ip4_type = IFCONFIG_POOL_30NET,
     ip4_base = 0x0A080004, ip6_enabled = True, ip6_base = ip6_sample[15 := 1], ip_size = 2,
     ip_list = [empty_entry, empty_entry]\<rparr>"

lemma small_pool_init:
  "ifconfig_pool_init True IFCONFIG_POOL_30NET 0x0A080004 0x0A08000A False True ip6_sample 112 = Some small_pool"
  by code_simp

lemma pool_clients_keep_own_addresses_witness:
  "let evs = [Acquire 10 (Some ''alice''), Acquire 11 (Some ''bob''), Release 12 0 False, Acquire 13 (Some ''carol'')]
   in \<exists>pool' held. pool_run evs (small_pool, []) = Some (pool', held) \<and> map aq_handle held = [0, 1]
        \<and> ipv4_apart IFCONFIG_POOL_30NET (held ! 0) (held ! 1) \<and> ipv6_apart (held ! 0) (held ! 1)"
proof -
  let ?evs = "[Acquire 10 (Some ''alice''), Acquire 11 (Some ''bob''), Release 12 0 False, Acquire 13 (Some ''carol'')]"
  obtain pool' held where r: "pool_run ?evs (small_pool, []) = Some (pool', held)"
    "\<forall>a \<in> set held. \<forall>b \<in> set held. a \<noteq> b \<longrightarrow> ipv4_apart IFCONFIG_POOL_30NET a b"
    "\<forall>a \<in> set held. \<forall>b \<in> set held. a \<noteq> b \<longrightarrow> ipv6_apart a b"
    using pool_clients_keep_own_addresses [OF small_pool_init, of ?evs] by (auto simp: ip6_sample_def netbits_ok_def)
  moreover have "map_option (map aq_handle \<circ> snd) (pool_run ?evs (small_pool, [])) = Some [0, 1]" by code_simp
  then have h: "map aq_handle held = [0, 1]" using r(1) by simp
  then obtain a b where "held = [a, b]" "aq_handle a \<noteq> aq_handle b" by auto
  ultimately show ?thesis using h by (auto simp: Let_def)
qed

lemma pool_keeps_shape_witness:
  "\<exists>p1 held p2. pool_run [Acquire 10 (Some ''alice''), Release 11 7 True] (small_pool, []) = Some (p1, held)
     \<and> ifconfig_pool_read (\<lambda>_. Some 0xFFFFFFFF) (\<lambda>_. None) 20 True (''alice,9.9.9.9,'' @ [CHR 0x0A, CHR 0x0A] @ ''#'' @ [CHR 0x0A] @ ''x'') p1 = Some p2
     \<and> pool_ok p2"
  using pool_keeps_shape [OF small_pool_init, of "[Acquire 10 (Some ''alice''), Release 11 7 True]"
      "\<lambda>_. Some 0xFFFFFFFF" "\<lambda>_. None" 20 True "''alice,9.9.9.9,'' @ [CHR 0x0A, CHR 0x0A] @ ''#'' @ [CHR 0x0A] @ ''x''"]
  by (auto simp: ip6_sample_def netbits_ok_def)

text \<open>Two reservations, written and read back; the conversion to text is that of the two addresses.\<close>

definition small_print4 :: "u32 \<Rightarrow> string" where
  "small_print4 a = (if a = 0x0A080004 then ''10.8.0.4'' else ''10.8.0.8'')"

definition small_getaddr :: "string \<Rightarrow> u32 option" where
  "small_getaddr s = (if s = ''10.8.0.4'' then Some 0x0A080004 else if s = ''10.8.0.8'' then Some 0x0A080008 else None)"

definition named_pool :: ifconfig_pool where
  "named_pool = small_pool\<lparr>ip6_enabled := False,
     ip_list := [empty_entry\<lparr>pe_in_use := True, pe_common_name := Some ''alice''\<rparr>, empty_entry\<lparr>pe_common_name := Some ''bob''\<rparr>]\<rparr>"

lemma two_handles: "(0 \<le> h \<and> h < (2::int)) = (h = 0 \<or> h = 1)"
  by auto

lemma pool_file_restores_reservations_witness:
  "map_option (map pe_common_name \<circ> ip_list)
     (ifconfig_pool_read small_getaddr (\<lambda>_. None) 20 False
        (ifconfig_pool_list small_print4 (\<lambda>_. []) named_pool) (small_pool\<lparr>ip6_enabled := False\<rparr>))
     = Some [Some ''alice'', Some ''bob'']"
proof -
  have "text4_ok small_print4 small_getaddr named_pool"
  proof -
    have "field_ok ''10.8.0.4''" "field_ok ''10.8.0.8''" by code_simp+
    moreover have "ifconfig_pool_handle_to_ip_base named_pool 0 = 0x0A080004" by code_simp
    moreover have "ifconfig_pool_handle_to_ip_base named_pool 1 = 0x0A080008" by code_simp
    moreover have "ip_size named_pool = 2" by (simp add: named_pool_def small_pool_def)
    ultimately show ?thesis
      by (auto simp: text4_ok_def two_handles small_print4_def small_getaddr_def simp flip: imp_conjL)
  qed
  then have "restorable small_print4 small_getaddr (\<lambda>_. []) (\<lambda>_. None) named_pool"
    by (simp add: restorable_def named_pool_def small_pool_def)
  from pool_file_restores_reservations [OF _ _ _ this, of "small_pool\<lparr>ip6_enabled := False\<rparr>" 20 False]
  show ?thesis
    by (simp add: pool_ok_def same_pool_def named_pool_def small_pool_def ip6_sample_def empty_entry_def restored_def
        name_ok_def field_ok_def)
qed

text \<open>
  A name with a comma is cut at it when it is read, and what follows is taken for the address: here
  \<open>x,10.8.0.4\<close>, at 10.8.0.8, takes the reservation of \<open>alice\<close> at 10.8.0.4, and has none.
\<close>

lemma comma_name_takes_reservation:
  "let pool = named_pool\<lparr>ip_list := [empty_entry\<lparr>pe_common_name := Some ''alice''\<rparr>, empty_entry\<lparr>pe_common_name := Some ''x,10.8.0.4''\<rparr>]\<rparr>
   in map_option (map pe_common_name \<circ> ip_list)
        (ifconfig_pool_read small_getaddr (\<lambda>_. None) 20 False
           (ifconfig_pool_list small_print4 (\<lambda>_. []) pool) (small_pool\<lparr>ip6_enabled := False\<rparr>))
      = Some [Some ''x'', None]"
  by code_simp

text \<open>
  An IPv6 pool with a prefix between 64 and 111 bits always has 65536 entries, wherever its base is:
  here the last entry lies outside the prefix of 111 bits.
\<close>

lemma ipv6_pool_leaves_prefix:
  "(case pool_ipv6 (ip6_sample[13 := 1, 14 := 0xff]) 111 of (b, n) \<Rightarrow>
      (let pool = small_pool\<lparr>ip6_base := b, ip_size := n\<rparr>
       in (n, take 14 b, take 14 (ifconfig_pool_handle_to_ipv6_base pool 65535))))
   = (65536, take 13 ip6_sample @ [1], take 13 ip6_sample @ [2])"
  by code_simp

end
