(* ===== verification/Mbuf.thy ===== *)
theory Mbuf
  imports Buffer Int_Util
begin

text \<open>
  \<^verbatim>\<open>mbuf.h\<close>, \<^verbatim>\<open>mbuf.c\<close> and the places of \<^verbatim>\<open>multi.c\<close> that use them: the queue of packets between
  clients and broadcasts, a ring of items that name a client and share reference-counted buffers.

  A pointer is a number, \<open>NULL\<close> is \<open>None\<close>. The allocated buffers are a heap, a map from addresses;
  the address a new buffer gets is an argument. Using a buffer that is not allocated is \<open>None\<close>, like a
  failed assertion.

  The lemmas: the ring is a bounded queue that drops the oldest packet of a connected client when it is full;
  every buffer has as many references as the queue has items with it, so no buffer is used after it
  was freed and none is leaked; the assertion in \<open>mbuf_add_item\<close> fails exactly when the queue is full
  of packets for clients that are gone.
\<close>

definition MF_UNICAST :: u32 where "MF_UNICAST = 1"

definition MBUF_INDEX :: "u32 \<Rightarrow> u32 \<Rightarrow> u32 \<Rightarrow> u32" where
  "MBUF_INDEX head0 offset size0 = (head0 + offset) AND (size0 - 1)"

record mbuf_buffer =
  mb_buf :: buffer
  mb_refcount :: int
  mb_flags :: u32

record mbuf_item =
  im_buffer :: "nat option"
  im_instance :: "nat option"

record mbuf_set =
  ms_head :: u32
  ms_len :: u32
  ms_capacity :: u32
  ms_max_queued :: u32
  ms_array :: "mbuf_item list"

type_synonym mbuf_heap = "nat \<Rightarrow> mbuf_buffer option"

definition no_item :: mbuf_item where
  "no_item = \<lparr>im_buffer = None, im_instance = None\<rparr>"

definition mbuf_init :: "u32 \<Rightarrow> mbuf_set option" where
  "mbuf_init n = map_option (\<lambda>c. let cap = ucast c :: u32
      in \<lparr>ms_head = 0, ms_len = 0, ms_capacity = cap, ms_max_queued = 0, ms_array = replicate (unat cap) no_item\<rparr>)
     (adjust_power_of_2 (ucast n))"

definition mbuf_alloc_buf :: "nat \<Rightarrow> buffer \<Rightarrow> mbuf_heap \<Rightarrow> mbuf_heap" where
  "mbuf_alloc_buf p b hp = hp(p \<mapsto> \<lparr>mb_buf = clone_buf b, mb_refcount = 1, mb_flags = 0\<rparr>)"

fun mbuf_free_buf :: "nat option \<Rightarrow> mbuf_heap \<Rightarrow> mbuf_heap option" where
  "mbuf_free_buf None hp = Some hp"
| "mbuf_free_buf (Some p) hp =
     (case hp p of
        None \<Rightarrow> None
      | Some mb \<Rightarrow> if mb_refcount mb - 1 \<le> 0 then Some (hp(p := None))
                   else Some (hp(p \<mapsto> mb\<lparr>mb_refcount := mb_refcount mb - 1\<rparr>)))"

text \<open>The loop of \<open>mbuf_extract_item\<close>; the array is not changed.\<close>

function extract_loop :: "mbuf_set \<Rightarrow> mbuf_item option \<times> mbuf_set" where
  "extract_loop ms =
     (if ms_len ms = 0 then (None, ms)
      else (let item = ms_array ms ! unat (ms_head ms);
                ms1 = ms\<lparr>ms_head := MBUF_INDEX (ms_head ms) 1 (ms_capacity ms), ms_len := ms_len ms - 1\<rparr>
            in if im_instance item \<noteq> None then (Some item, ms1) else extract_loop ms1))"
  by pat_completeness auto

termination extract_loop
  by (relation "measure (\<lambda>ms. unat (ms_len ms))") (auto simp: unat_minus_one unat_gt_0)

declare extract_loop.simps [simp del]

definition mbuf_extract_item :: "mbuf_set \<Rightarrow> mbuf_item option \<times> mbuf_set" where
  "mbuf_extract_item ms = extract_loop ms"

text \<open>The item at a position of the queue, counted from its head.\<close>

definition slot_of :: "mbuf_set \<Rightarrow> nat \<Rightarrow> nat" where
  "slot_of ms i = unat (MBUF_INDEX (ms_head ms) (of_nat i) (ms_capacity ms))"

definition mbuf_put_item :: "mbuf_set \<Rightarrow> mbuf_item \<Rightarrow> mbuf_heap \<Rightarrow> (mbuf_set \<times> mbuf_heap) option" where
  "mbuf_put_item ms item hp =
     (if ms_len ms < ms_capacity ms
      then (case im_buffer item of
              None \<Rightarrow> None
            | Some p \<Rightarrow>
                (case hp p of
                   None \<Rightarrow> None
                 | Some mb \<Rightarrow>
                     (let n = ms_len ms + 1
                      in Some (ms\<lparr>ms_array := (ms_array ms)[unat (MBUF_INDEX (ms_head ms) (ms_len ms) (ms_capacity ms)) := item],
                                  ms_len := n, ms_max_queued := (if n > ms_max_queued ms then n else ms_max_queued ms)\<rparr>,
                               hp(p \<mapsto> mb\<lparr>mb_refcount := mb_refcount mb + 1\<rparr>)))))
      else None)"

definition mbuf_add_item :: "mbuf_set \<Rightarrow> mbuf_item \<Rightarrow> mbuf_heap \<Rightarrow> (mbuf_set \<times> mbuf_heap) option" where
  "mbuf_add_item ms item hp =
     (if ms_len ms = ms_capacity ms
      then (case mbuf_extract_item ms of
              (None, _) \<Rightarrow> None
            | (Some rm, ms1) \<Rightarrow>
                (case mbuf_free_buf (im_buffer rm) hp of
                   None \<Rightarrow> None
                 | Some hp1 \<Rightarrow> mbuf_put_item ms1 item hp1))
      else mbuf_put_item ms item hp)"

definition mbuf_defined :: "mbuf_set \<Rightarrow> bool" where
  "mbuf_defined ms = (ms_len ms \<noteq> 0)"

definition mbuf_peek_dowork :: "mbuf_set \<Rightarrow> nat option" where
  "mbuf_peek_dowork ms =
     (case List.find (\<lambda>i. im_instance (ms_array ms ! slot_of ms i) \<noteq> None) [0..<unat (ms_len ms)] of
        None \<Rightarrow> None | Some i \<Rightarrow> im_instance (ms_array ms ! slot_of ms i))"

definition mbuf_peek :: "mbuf_set \<Rightarrow> nat option" where
  "mbuf_peek ms = (if mbuf_defined ms then mbuf_peek_dowork ms else None)"

definition dereference_slot ::
    "nat \<Rightarrow> nat \<Rightarrow> mbuf_set \<times> mbuf_heap \<Rightarrow> (mbuf_set \<times> mbuf_heap) option" where
  "dereference_slot mi i = (\<lambda>(ms, hp).
     (let item = ms_array ms ! slot_of ms i
      in if im_instance item = Some mi
         then map_option (\<lambda>hp1. (ms\<lparr>ms_array := (ms_array ms)[slot_of ms i := no_item]\<rparr>, hp1))
                (mbuf_free_buf (im_buffer item) hp)
         else Some (ms, hp)))"

fun dereference_loop ::
    "nat \<Rightarrow> nat list \<Rightarrow> mbuf_set \<times> mbuf_heap \<Rightarrow> (mbuf_set \<times> mbuf_heap) option" where
  "dereference_loop mi [] st = Some st"
| "dereference_loop mi (i # is) st =
     (case dereference_slot mi i st of None \<Rightarrow> None | Some st1 \<Rightarrow> dereference_loop mi is st1)"

definition mbuf_dereference_instance ::
    "nat \<Rightarrow> mbuf_set \<Rightarrow> mbuf_heap \<Rightarrow> (mbuf_set \<times> mbuf_heap) option" where
  "mbuf_dereference_instance mi ms hp = dereference_loop mi [0..<unat (ms_len ms)] (ms, hp)"

fun free_items :: "mbuf_item list \<Rightarrow> mbuf_heap \<Rightarrow> mbuf_heap option" where
  "free_items [] hp = Some hp"
| "free_items (x # xs) hp = (case mbuf_free_buf (im_buffer x) hp of None \<Rightarrow> None | Some hp1 \<Rightarrow> free_items xs hp1)"

definition mbuf_free :: "mbuf_set \<Rightarrow> mbuf_heap \<Rightarrow> mbuf_heap option" where
  "mbuf_free ms hp = free_items (map (\<lambda>i. ms_array ms ! slot_of ms i) [0..<unat (ms_len ms)]) hp"

subsection \<open>Its use by the server\<close>

definition multi_add_mbuf ::
    "bool \<Rightarrow> nat \<Rightarrow> nat \<Rightarrow> mbuf_set \<times> mbuf_heap \<Rightarrow> (mbuf_set \<times> mbuf_heap) option" where
  "multi_add_mbuf output_queue_ready mi p = (\<lambda>(ms, hp).
     if output_queue_ready then mbuf_add_item ms \<lparr>im_buffer = Some p, im_instance = Some mi\<rparr> hp else Some (ms, hp))"

definition free_at_end :: "nat \<Rightarrow> (mbuf_set \<times> mbuf_heap) option \<Rightarrow> (mbuf_set \<times> mbuf_heap) option" where
  "free_at_end p st = (case st of None \<Rightarrow> None | Some (ms, hp) \<Rightarrow> map_option (\<lambda>hp1. (ms, hp1)) (mbuf_free_buf (Some p) hp))"

definition multi_unicast ::
    "nat \<Rightarrow> buffer \<Rightarrow> bool \<Rightarrow> nat \<Rightarrow> mbuf_set \<times> mbuf_heap \<Rightarrow> (mbuf_set \<times> mbuf_heap) option" where
  "multi_unicast p b output_queue_ready mi = (\<lambda>(ms, hp).
     if blen b > 0
     then free_at_end p (multi_add_mbuf output_queue_ready mi p
            (ms, hp(p \<mapsto> \<lparr>mb_buf = clone_buf b, mb_refcount = 1, mb_flags = MF_UNICAST\<rparr>)))
     else Some (ms, hp))"

text \<open>What a broadcast asks of a client: the answers of the packet filters, its VLAN, its output queue.\<close>

record bcast_client =
  bc_instance :: nat
  bc_halt :: bool
  bc_c2c_test :: bool
  bc_addr_test :: bool
  bc_vlan_pvid :: u16
  bc_queue_ready :: bool

definition bcast_to :: "nat option \<Rightarrow> bool \<Rightarrow> u16 \<Rightarrow> bcast_client \<Rightarrow> bool" where
  "bcast_to sender has_addr vid c =
     (Some (bc_instance c) \<noteq> sender \<and> \<not> bc_halt c
      \<and> \<not> (sender \<noteq> None \<and> \<not> bc_c2c_test c) \<and> \<not> (has_addr \<and> \<not> bc_addr_test c)
      \<and> \<not> (vid \<noteq> 0 \<and> vid \<noteq> bc_vlan_pvid c))"

fun bcast_loop ::
    "nat \<Rightarrow> nat option \<Rightarrow> bool \<Rightarrow> u16 \<Rightarrow> bcast_client list \<Rightarrow> mbuf_set \<times> mbuf_heap \<Rightarrow> (mbuf_set \<times> mbuf_heap) option" where
  "bcast_loop p sender has_addr vid [] st = Some st"
| "bcast_loop p sender has_addr vid (c # cs) st =
     (if bcast_to sender has_addr vid c
      then (case multi_add_mbuf (bc_queue_ready c) (bc_instance c) p st of
              None \<Rightarrow> None | Some st1 \<Rightarrow> bcast_loop p sender has_addr vid cs st1)
      else bcast_loop p sender has_addr vid cs st)"

definition multi_bcast ::
    "nat \<Rightarrow> buffer \<Rightarrow> nat option \<Rightarrow> bool \<Rightarrow> u16 \<Rightarrow> bcast_client list \<Rightarrow> mbuf_set \<times> mbuf_heap
       \<Rightarrow> (mbuf_set \<times> mbuf_heap) option" where
  "multi_bcast p b sender has_addr vid cs = (\<lambda>(ms, hp).
     if blen b > 0
     then free_at_end p (bcast_loop p sender has_addr vid cs (ms, mbuf_alloc_buf p b hp))
     else Some (ms, hp))"

text \<open>\<open>multi_get_queue\<close>: the packet taken for its client, with the flags.\<close>

definition multi_get_queue ::
    "mbuf_set \<times> mbuf_heap \<Rightarrow> ((nat \<times> buffer \<times> u32) option \<times> mbuf_set \<times> mbuf_heap) option" where
  "multi_get_queue = (\<lambda>(ms, hp).
     (case mbuf_extract_item ms of
        (None, ms1) \<Rightarrow> Some (None, ms1, hp)
      | (Some item, ms1) \<Rightarrow>
          (case im_buffer item of
             None \<Rightarrow> None
           | Some p \<Rightarrow>
               (case hp p of
                  None \<Rightarrow> None
                | Some mb \<Rightarrow> map_option (\<lambda>hp1. (Some (the (im_instance item), mb_buf mb, mb_flags mb), ms1, hp1))
                    (mbuf_free_buf (Some p) hp)))))"

subsection \<open>The ring as a queue\<close>

definition items :: "mbuf_set \<Rightarrow> mbuf_item list" where
  "items ms = map (\<lambda>i. ms_array ms ! slot_of ms i) [0..<unat (ms_len ms)]"

definition ring_ok :: "mbuf_set \<Rightarrow> bool" where
  "ring_ok ms = (\<exists>k \<le> 30. unat (ms_capacity ms) = 2 ^ k \<and> length (ms_array ms) = 2 ^ k
     \<and> unat (ms_head ms) < 2 ^ k \<and> unat (ms_len ms) \<le> 2 ^ k)"

lemma unat_pow_le_32: "k \<le> 30 \<Longrightarrow> unat (2 ^ k :: u32) = 2 ^ k"
  using uint_2p [of k, where 'a = 32]
  by (simp add: unat_eq_nat_uint nat_power_eq word_gt_0 exp_eq_zero_iff)

lemma MBUF_INDEX_mod:
  assumes "unat c = 2 ^ k" "k \<le> 30"
  shows "unat (MBUF_INDEX h x c) = (unat h + unat x) mod 2 ^ k"
proof -
  have "c = 2 ^ k" using assms by (intro word_unat_eq_iff [THEN iffD2]) (simp add: unat_pow_le_32)
  then have "MBUF_INDEX h x c = take_bit k (h + x)"
    by (simp only: MBUF_INDEX_def take_bit_eq_mask mask_eq_decr_exp)
  then have "unat (MBUF_INDEX h x c) = unat (h + x) mod 2 ^ k"
    by (simp only: unsigned_take_bit_eq) (simp only: take_bit_eq_mod)
  also have "\<dots> = (unat h + unat x) mod 2 ^ k"
  proof -
    have "(2::nat) ^ k dvd 4294967296" using le_imp_power_dvd [of k 32 "2::nat"] assms(2) by simp
    then show ?thesis by (simp add: unat_word_ariths mod_mod_cancel)
  qed
  finally show ?thesis .
qed

definition ring_of :: "nat \<Rightarrow> mbuf_set \<Rightarrow> bool" where
  "ring_of k ms = (k \<le> 30 \<and> unat (ms_capacity ms) = 2 ^ k \<and> length (ms_array ms) = 2 ^ k
     \<and> unat (ms_head ms) < 2 ^ k \<and> unat (ms_len ms) \<le> 2 ^ k)"

lemma small_k: "k \<le> 30 \<Longrightarrow> (2::nat) ^ k \<le> 1073741824"
  using power_increasing [of k 30 "2::nat"] by simp

lemma slot_of_mod:
  assumes "ring_of k ms" "i < 2 ^ k"
  shows "slot_of ms i = (unat (ms_head ms) + i) mod 2 ^ k"
proof -
  have "unat (of_nat i :: u32) = i"
    using assms small_k [of k] by (simp add: ring_of_def unat_of_nat)
  then show ?thesis using assms by (simp add: slot_of_def MBUF_INDEX_mod ring_of_def)
qed

lemma slot_of_bound: "ring_of k ms \<Longrightarrow> i < 2 ^ k \<Longrightarrow> slot_of ms i < length (ms_array ms)"
  by (simp add: slot_of_mod) (simp add: ring_of_def)

lemma mod_shift_inj_le:
  fixes i j m h :: nat
  assumes "i \<le> j" "j < m" "(h + i) mod m = (h + j) mod m"
  shows "i = j"
proof -
  have "m dvd (h + j) - (h + i)" using assms mod_eq_dvd_iff_nat [of "h + i" "h + j" m] by simp
  then have "m dvd j - i" by simp
  then show ?thesis using assms(1,2) by (auto dest: dvd_imp_le)
qed

lemma slot_of_inj:
  assumes "ring_of k ms" "i < 2 ^ k" "j < 2 ^ k" "slot_of ms i = slot_of ms j"
  shows "i = j"
  using assms mod_shift_inj_le [of i j "2 ^ k" "unat (ms_head ms)"] mod_shift_inj_le [of j i "2 ^ k" "unat (ms_head ms)"]
  by (cases "i \<le> j") (simp_all add: slot_of_mod)

lemma length_items [simp]: "length (items ms) = unat (ms_len ms)"
  by (simp add: items_def)

lemma items_nth: "i < unat (ms_len ms) \<Longrightarrow> items ms ! i = ms_array ms ! slot_of ms i"
  by (simp add: items_def)

text \<open>Advancing the head.\<close>

definition advanced :: "mbuf_set \<Rightarrow> mbuf_set" where
  "advanced ms = ms\<lparr>ms_head := MBUF_INDEX (ms_head ms) 1 (ms_capacity ms), ms_len := ms_len ms - 1\<rparr>"

lemma items_advanced:
  assumes "ring_of k ms" "ms_len ms \<noteq> 0"
  shows "items ms = ms_array ms ! unat (ms_head ms) # items (advanced ms)" "ring_of k (advanced ms)"
    "ms_capacity (advanced ms) = ms_capacity ms" "ms_max_queued (advanced ms) = ms_max_queued ms"
proof -
  have k: "k \<le> 30" "unat (ms_capacity ms) = 2 ^ k" using assms(1) by (simp_all add: ring_of_def)
  have len: "unat (ms_len ms) = Suc (unat (ms_len (advanced ms)))"
    using assms(2) by (simp add: advanced_def unat_minus_one unat_gt_0)
  have head: "unat (ms_head (advanced ms)) = (unat (ms_head ms) + 1) mod 2 ^ k"
    using MBUF_INDEX_mod [OF k(2,1)] by (simp add: advanced_def)
  show r: "ring_of k (advanced ms)"
    using assms(1) len head by (simp add: ring_of_def) (simp add: advanced_def)
  show "ms_capacity (advanced ms) = ms_capacity ms" "ms_max_queued (advanced ms) = ms_max_queued ms"
    by (simp_all add: advanced_def)
  have slots: "slot_of ms (Suc i) = slot_of (advanced ms) i" if "i < unat (ms_len (advanced ms))" for i
  proof -
    have "Suc i < 2 ^ k" using that len assms(1) by (simp add: ring_of_def)
    then show ?thesis
      using slot_of_mod [OF assms(1), of "Suc i"] slot_of_mod [OF r, of i] head by (simp add: mod_simps)
  qed
  have s0: "slot_of ms 0 = unat (ms_head ms)"
    using slot_of_mod [OF assms(1), of 0] assms(1) by (simp add: ring_of_def)
  have arr: "ms_array (advanced ms) = ms_array ms" by (simp add: advanced_def)
  show "items ms = ms_array ms ! unat (ms_head ms) # items (advanced ms)"
  proof (rule nth_equalityI)
    fix i assume "i < length (items ms)"
    then show "items ms ! i = (ms_array ms ! unat (ms_head ms) # items (advanced ms)) ! i"
      using s0 slots len arr by (cases i) (simp_all add: items_nth)
  qed (simp add: len)
qed

definition dead :: "mbuf_item \<Rightarrow> bool" where
  "dead x = (im_instance x = None)"

lemma extract_items:
  assumes "ring_of k ms"
  shows "\<exists>ms1. extract_loop ms = ((case dropWhile dead (items ms) of [] \<Rightarrow> None | x # r \<Rightarrow> Some x), ms1)
           \<and> items ms1 = tl (dropWhile dead (items ms)) \<and> ring_of k ms1 \<and> ms_capacity ms1 = ms_capacity ms
           \<and> ms_max_queued ms1 = ms_max_queued ms"
  using assms
proof (induction ms rule: extract_loop.induct)
  case (1 ms)
  show ?case
  proof (cases "ms_len ms = 0")
    case True
    then have "items ms = []" by (simp add: items_def)
    then show ?thesis using True 1 by (subst extract_loop.simps) simp
  next
    case False
    note adv = items_advanced [OF 1(2) False]
    show ?thesis
    proof (cases "dead (ms_array ms ! unat (ms_head ms))")
      case True
      have "extract_loop ms = extract_loop (advanced ms)"
        using False True by (subst extract_loop.simps) (simp add: advanced_def dead_def Let_def)
      moreover have "dropWhile dead (items ms) = dropWhile dead (items (advanced ms))" using adv(1) True by simp
      moreover have "im_instance (ms_array ms ! unat (ms_head ms)) = None" using True by (simp add: dead_def)
      ultimately show ?thesis
        using 1(1) [OF False refl refl] adv(2,3,4) by (simp flip: advanced_def)
    next
      case al: False
      have "extract_loop ms = (Some (ms_array ms ! unat (ms_head ms)), advanced ms)"
        using False al by (subst extract_loop.simps) (simp add: advanced_def dead_def Let_def)
      then show ?thesis using adv al by simp
    qed
  qed
qed

lemma put_items:
  assumes "ring_of k ms" "unat (ms_len ms) < 2 ^ k" "im_buffer item = Some p" "hp p = Some mb"
  shows "\<exists>ms1. mbuf_put_item ms item hp = Some (ms1, hp(p \<mapsto> mb\<lparr>mb_refcount := mb_refcount mb + 1\<rparr>))
           \<and> items ms1 = items ms @ [item] \<and> ring_of k ms1 \<and> ms_capacity ms1 = ms_capacity ms"
proof -
  define j where "j = slot_of ms (unat (ms_len ms))"
  define ms1 where "ms1 = ms\<lparr>ms_array := (ms_array ms)[j := item], ms_len := ms_len ms + 1,
    ms_max_queued := (if ms_len ms + 1 > ms_max_queued ms then ms_len ms + 1 else ms_max_queued ms)\<rparr>"
  have k: "k \<le> 30" "unat (ms_capacity ms) = 2 ^ k" using assms(1) by (simp_all add: ring_of_def)
  have len: "unat (ms_len ms + 1) = unat (ms_len ms) + 1"
    using assms(2) small_k [OF k(1)] by (simp add: unat_word_ariths)
  have lt: "ms_len ms < ms_capacity ms" using assms(2) k(2) by (simp add: word_less_nat_alt)
  have r1: "ring_of k ms1" using assms(1,2) len by (simp add: ring_of_def ms1_def)
  have slots: "slot_of ms1 i = slot_of ms i" for i by (simp add: slot_of_def ms1_def)
  have len1: "unat (ms_len ms1) = unat (ms_len ms) + 1" using len by (simp add: ms1_def)
  have arr1: "ms_array ms1 = (ms_array ms)[j := item]" by (simp add: ms1_def)
  have "items ms1 = items ms @ [item]"
  proof (rule nth_equalityI)
    fix i assume "i < length (items ms1)"
    then have i: "i \<le> unat (ms_len ms)" using len by (simp add: ms1_def)
    have "j < length (ms_array ms)" using slot_of_bound [OF assms(1,2)] by (simp add: j_def)
    moreover have "slot_of ms i \<noteq> j" if "i < unat (ms_len ms)"
      using slot_of_inj [OF assms(1), of i "unat (ms_len ms)"] that assms(2) by (auto simp: j_def)
    ultimately show "items ms1 ! i = (items ms @ [item]) ! i"
      using i len by (cases "i = unat (ms_len ms)") (simp_all add: items_nth nth_append slots len1 arr1 flip: j_def)
  qed (simp add: ms1_def len)
  moreover have "mbuf_put_item ms item hp = Some (ms1, hp(p \<mapsto> mb\<lparr>mb_refcount := mb_refcount mb + 1\<rparr>))"
    using lt assms(3,4) by (simp add: mbuf_put_item_def ms1_def Let_def j_def slot_of_def)
  ultimately show ?thesis using r1 by (simp add: ms1_def)
qed

subsection \<open>References\<close>

definition cnt :: "mbuf_item list \<Rightarrow> nat \<Rightarrow> nat" where
  "cnt xs p = length (filter (\<lambda>x. im_buffer x = Some p) xs)"

definition refs :: "mbuf_heap \<Rightarrow> nat \<Rightarrow> int" where
  "refs hp p = (case hp p of None \<Rightarrow> 0 | Some mb \<Rightarrow> mb_refcount mb)"

definition heap_ok :: "mbuf_heap \<Rightarrow> (nat \<Rightarrow> nat) \<Rightarrow> bool" where
  "heap_ok hp c = (finite (dom hp) \<and> (\<forall>p. refs hp p = int (c p)) \<and> (\<forall>p. hp p \<noteq> None \<longrightarrow> 0 < c p))"

lemma refs_upd [simp]:
  "refs (hp(p := None)) = (refs hp)(p := 0)" "refs (hp(p \<mapsto> mb)) = (refs hp)(p := mb_refcount mb)"
  by (auto simp: refs_def)

definition payload :: "mbuf_heap \<Rightarrow> nat \<Rightarrow> (buffer \<times> u32) option" where
  "payload hp p = map_option (\<lambda>mb. (mb_buf mb, mb_flags mb)) (hp p)"

text \<open>The payloads of the buffers that stay are those they had.\<close>

definition payloads_kept :: "mbuf_heap \<Rightarrow> mbuf_heap \<Rightarrow> bool" where
  "payloads_kept hp hp1 = (\<forall>p. hp1 p \<noteq> None \<longrightarrow> payload hp1 p = payload hp p)"

lemma payloads_kept_refl [simp]: "payloads_kept hp hp"
  by (simp add: payloads_kept_def)

lemma payload_None: "payload hp p = None \<longleftrightarrow> hp p = None"
  by (simp add: payload_def)

lemma payloads_kept_trans: "payloads_kept a b \<Longrightarrow> payloads_kept b c \<Longrightarrow> payloads_kept a c"
  unfolding payloads_kept_def by (metis payload_None)

lemma cnt_simps [simp]:
  "cnt [] = (\<lambda>p. 0)" "cnt (xs @ ys) = (\<lambda>p. cnt xs p + cnt ys p)"
  "cnt (x # xs) = (\<lambda>p. (if im_buffer x = Some p then 1 else 0) + cnt xs p)"
  by (auto simp: cnt_def)

lemma heap_ok_pos: "heap_ok hp c \<Longrightarrow> hp p \<noteq> None \<longleftrightarrow> 0 < c p"
  unfolding heap_ok_def refs_def by (metis less_irrefl of_nat_0_eq_iff option.simps(4))

lemma heap_okD: "heap_ok hp c \<Longrightarrow> hp p = Some mb \<Longrightarrow> mb_refcount mb = int (c p) \<and> 0 < c p"
  unfolding heap_ok_def refs_def by (metis option.distinct(1) option.simps(5))

lemma free_ok:
  assumes "heap_ok hp (\<lambda>p. (if r = Some p then 1 else 0) + c p)"
  shows "\<exists>hp1. mbuf_free_buf r hp = Some hp1 \<and> heap_ok hp1 c \<and> payloads_kept hp hp1"
proof (cases r)
  case None
  then show ?thesis using assms by simp
next
  case (Some p)
  then obtain mb where mb: "hp p = Some mb" using heap_ok_pos [OF assms, of p] by auto
  then have rc: "mb_refcount mb = 1 + int (c p)" using heap_okD [OF assms mb] Some by simp
  note h = assms [unfolded heap_ok_def Some]
  show ?thesis
  proof (cases "c p = 0")
    case True
    have "heap_ok (hp(p := None)) c"
      using h True unfolding heap_ok_def by (auto split: if_splits)
    then show ?thesis using mb rc True Some by (auto simp: payloads_kept_def payload_def)
  next
    case False
    have "heap_ok (hp(p \<mapsto> mb\<lparr>mb_refcount := mb_refcount mb - 1\<rparr>)) c"
      using h False rc unfolding heap_ok_def by (auto split: if_splits)
    then show ?thesis using mb rc False Some by (auto simp: payloads_kept_def payload_def)
  qed
qed

lemma ref_ok:
  assumes "heap_ok hp c" "hp p = Some mb"
  shows "heap_ok (hp(p \<mapsto> mb\<lparr>mb_refcount := mb_refcount mb + 1\<rparr>)) (\<lambda>q. (if q = p then 1 else 0) + c q)"
    "payloads_kept hp (hp(p \<mapsto> mb\<lparr>mb_refcount := mb_refcount mb + 1\<rparr>))"
  using assms(1) heap_okD [OF assms] assms(2) by (auto simp: heap_ok_def payloads_kept_def payload_def)

lemma alloc_ok:
  assumes "heap_ok hp c" "hp p = None" "mb_refcount mb = 1"
  shows "heap_ok (hp(p \<mapsto> mb)) (\<lambda>q. (if q = p then 1 else 0) + c q)"
  using assms heap_ok_pos [OF assms(1), of p] by (auto simp: heap_ok_def)

subsection \<open>The queue it promises\<close>

text \<open>
  The queue: packets with their client and flags, \<open>None\<close> where the client is gone. Taking skips
  what is gone; adding to a full queue takes one out first, and fails when there is none.
\<close>

type_synonym packet = "nat \<times> buffer \<times> u32"

definition q_take :: "packet option list \<Rightarrow> packet option \<times> packet option list" where
  "q_take q = (case dropWhile (\<lambda>e. e = None) q of [] \<Rightarrow> (None, []) | e # r \<Rightarrow> (e, r))"

definition q_add :: "nat \<Rightarrow> packet \<Rightarrow> packet option list \<Rightarrow> packet option list option" where
  "q_add cap e q =
     (if length q = cap
      then (case q_take q of (None, _) \<Rightarrow> None | (Some _, r) \<Rightarrow> Some (r @ [Some e]))
      else Some (q @ [Some e]))"

definition q_gone :: "nat \<Rightarrow> packet option list \<Rightarrow> packet option list" where
  "q_gone mi = map (\<lambda>e. case e of None \<Rightarrow> None | Some (i, b, f) \<Rightarrow> if i = mi then None else Some (i, b, f))"

definition entry :: "mbuf_heap \<Rightarrow> mbuf_item \<Rightarrow> packet option" where
  "entry hp x = (case (im_instance x, im_buffer x) of
     (Some i, Some p) \<Rightarrow> map_option (\<lambda>(b, f). (i, b, f)) (payload hp p) | _ \<Rightarrow> None)"

definition item_ok :: "mbuf_item \<Rightarrow> bool" where
  "item_ok x = (im_buffer x = None \<longleftrightarrow> im_instance x = None)"

definition mq :: "mbuf_heap \<Rightarrow> mbuf_set \<Rightarrow> packet option list" where
  "mq hp ms = map (entry hp) (items ms)"

text \<open>The invariant, with extra references \<open>e\<close> held outside the queue.\<close>

definition mq_ok :: "nat \<Rightarrow> (nat \<Rightarrow> nat) \<Rightarrow> mbuf_set \<times> mbuf_heap \<Rightarrow> bool" where
  "mq_ok k e st = (case st of (ms, hp) \<Rightarrow> ring_of k ms \<and> list_all item_ok (items ms) \<and> heap_ok hp (\<lambda>p. cnt (items ms) p + e p))"

lemma entry_kept:
  assumes "payloads_kept hp hp1" "\<And>p. im_buffer x = Some p \<Longrightarrow> hp1 p \<noteq> None"
  shows "entry hp1 x = entry hp x"
proof (cases "im_buffer x")
  case (Some p)
  then have "payload hp1 p = payload hp p" using assms unfolding payloads_kept_def by blast
  then show ?thesis using Some by (simp add: entry_def split: option.split)
qed (simp add: entry_def split: option.split)

lemma cnt_pos: "x \<in> set xs \<Longrightarrow> im_buffer x = Some p \<Longrightarrow> 0 < cnt xs p"
  by (auto simp: cnt_def filter_empty_conv)

lemma entries_kept:
  assumes "payloads_kept hp hp1" "heap_ok hp1 c" "\<And>p. cnt xs p \<le> c p"
  shows "map (entry hp1) xs = map (entry hp) xs"
proof (rule map_cong [OF refl])
  fix x assume x: "x \<in> set xs"
  have "hp1 p \<noteq> None" if "im_buffer x = Some p" for p
    using heap_ok_pos [OF assms(2), of p] cnt_pos [OF x that] assms(3) [of p] by linarith
  then show "entry hp1 x = entry hp x" by (rule entry_kept [OF assms(1)])
qed

lemma entry_None:
  assumes "item_ok x" "\<And>p. im_buffer x = Some p \<Longrightarrow> hp p \<noteq> None"
  shows "entry hp x = None \<longleftrightarrow> dead x"
proof (cases "im_buffer x")
  case (Some p)
  then have "payload hp p \<noteq> None" using assms(2) by (simp add: payload_None)
  then show ?thesis using Some assms(1) by (auto simp: entry_def item_ok_def dead_def)
next
  case None
  then show ?thesis using assms(1) by (auto simp: entry_def item_ok_def dead_def)
qed

subsection \<open>The operations on the queue\<close>

lemma dropWhile_entries:
  assumes "\<And>x. x \<in> set xs \<Longrightarrow> entry hp x = None \<longleftrightarrow> dead x"
  shows "dropWhile (\<lambda>e. e = None) (map (entry hp) xs) = map (entry hp) (dropWhile dead xs)"
  using assms by (induction xs) auto

lemma cnt_dropWhile_dead: "list_all item_ok xs \<Longrightarrow> cnt (dropWhile dead xs) = cnt xs"
  by (induction xs) (auto simp: item_ok_def dead_def)

lemma mq_okD:
  assumes "mq_ok k e (ms, hp)"
  shows "ring_of k ms" "list_all item_ok (items ms)" "heap_ok hp (\<lambda>p. cnt (items ms) p + e p)"
  using assms by (simp_all add: mq_ok_def)

lemma item_buffer:
  assumes "mq_ok k e (ms, hp)" "x \<in> set (items ms)" "im_buffer x = Some p"
  shows "hp p \<noteq> None"
proof -
  have "0 < cnt (items ms) p + e p" using cnt_pos [OF assms(2,3)] by simp
  then show ?thesis using heap_ok_pos [OF mq_okD(3) [OF assms(1)], of p] by simp
qed

lemma entries_None:
  assumes "mq_ok k e (ms, hp)" "x \<in> set (items ms)"
  shows "entry hp x = None \<longleftrightarrow> dead x"
  using assms item_buffer mq_okD(2) [OF assms(1)] by (intro entry_None) (auto simp: list_all_iff)

lemma extract_q:
  assumes ok: "mq_ok k e (ms, hp)"
  obtains (none) ms1 where "extract_loop ms = (None, ms1)" "q_take (mq hp ms) = (None, [])" "mq hp ms1 = []"
      "mq_ok k e (ms1, hp)"
  | (some) x i p b f ms1 where "extract_loop ms = (Some x, ms1)" "im_instance x = Some i" "im_buffer x = Some p"
      "payload hp p = Some (b, f)" "q_take (mq hp ms) = (Some (i, b, f), mq hp ms1)" "mq hp ms \<noteq> []"
      "mq_ok k (\<lambda>q. (if Some p = Some q then 1 else 0) + e q) (ms1, hp)" "length (items ms1) < length (items ms)"
proof -
  note okd = mq_okD [OF ok]
  obtain ms1 where ex: "extract_loop ms = ((case dropWhile dead (items ms) of [] \<Rightarrow> None | x # r \<Rightarrow> Some x), ms1)"
    "items ms1 = tl (dropWhile dead (items ms))" "ring_of k ms1"
    using extract_items [OF okd(1)] by blast
  have dw: "dropWhile (\<lambda>e. e = None) (mq hp ms) = map (entry hp) (dropWhile dead (items ms))"
    unfolding mq_def using entries_None [OF ok] by (rule dropWhile_entries)
  note c = cnt_dropWhile_dead [OF okd(2)]
  show thesis
  proof (cases "dropWhile dead (items ms)")
    case Nil
    have "mq_ok k e (ms1, hp)" using ex okd(3) Nil c by (simp add: mq_ok_def flip: c)
    moreover have "q_take (mq hp ms) = (None, [])" unfolding q_take_def dw Nil by simp
    ultimately show thesis using none [of ms1] ex(1,2) Nil by (simp add: mq_def)
  next
    case (Cons x r)
    have x: "x \<in> set (items ms)" "\<not> dead x"
      using set_dropWhileD [of x dead "items ms"] hd_dropWhile [of dead "items ms"] Cons by auto
    then obtain i p where ip: "im_instance x = Some i" "im_buffer x = Some p"
      using okd(2) by (auto simp: list_all_iff item_ok_def dead_def)
    then obtain b f where bf: "payload hp p = Some (b, f)"
      using item_buffer [OF ok x(1)] by (auto simp: payload_def)
    have en: "entry hp x = Some (i, b, f)" using ip bf by (simp add: entry_def)
    have "list_all item_ok r"
      using okd(2) Cons set_dropWhileD [of _ dead "items ms"] by (auto simp: list_all_iff)
    then have "mq_ok k (\<lambda>q. (if Some p = Some q then 1 else 0) + e q) (ms1, hp)"
      using ex okd(3) ip Cons by (simp add: mq_ok_def add_ac flip: c)
    moreover have "length (items ms1) < length (items ms)"
      using ex(2) Cons length_dropWhile_le [of dead "items ms"] by simp
    moreover have "mq hp ms \<noteq> []" using x(1) by (auto simp: mq_def)
    moreover have "q_take (mq hp ms) = (Some (i, b, f), mq hp ms1)"
      unfolding q_take_def dw Cons using en ex(2) Cons by (simp add: mq_def)
    moreover have "extract_loop ms = (Some x, ms1)" using ex(1) Cons by simp
    ultimately show thesis using some [of x ms1 i p b f] ip bf by simp
  qed
qed

lemma free_q:
  assumes "mq_ok k (\<lambda>q. (if r = Some q then 1 else 0) + e q) (ms, hp)"
  shows "\<exists>hp1. mbuf_free_buf r hp = Some hp1 \<and> mq_ok k e (ms, hp1) \<and> mq hp1 ms = mq hp ms
           \<and> (\<forall>p. 0 < e p \<longrightarrow> payload hp1 p = payload hp p) \<and> payloads_kept hp hp1"
proof -
  have "heap_ok hp (\<lambda>p. (if r = Some p then 1 else 0) + (cnt (items ms) p + e p))"
    using mq_okD(3) [OF assms] by (simp add: add_ac)
  from free_ok [OF this] obtain hp1 where f: "mbuf_free_buf r hp = Some hp1"
    "heap_ok hp1 (\<lambda>p. cnt (items ms) p + e p)" "payloads_kept hp hp1" by blast
  have "mq hp1 ms = mq hp ms" unfolding mq_def by (rule entries_kept [OF f(3,2)]) simp
  moreover have "payload hp1 p = payload hp p" if "0 < e p" for p
    using heap_ok_pos [OF f(2), of p] f(3) that unfolding payloads_kept_def by simp
  ultimately show ?thesis using f assms by (auto simp: mq_ok_def)
qed

lemma put_q:
  assumes ok: "mq_ok k e (ms, hp)" and room: "length (items ms) < 2 ^ k" and held: "0 < e p" "payload hp p = Some (b, f)"
  shows "\<exists>ms1 hp1. mbuf_put_item ms \<lparr>im_buffer = Some p, im_instance = Some i\<rparr> hp = Some (ms1, hp1)
           \<and> mq_ok k e (ms1, hp1) \<and> mq hp1 ms1 = mq hp ms @ [Some (i, b, f)] \<and> (\<forall>q. payload hp1 q = payload hp q)"
proof -
  note okd = mq_okD [OF ok]
  let ?x = "\<lparr>im_buffer = Some p, im_instance = Some i\<rparr>"
  obtain mb where mb: "hp p = Some mb" using held(2) by (auto simp: payload_def)
  define hp1 where "hp1 = hp(p \<mapsto> mb\<lparr>mb_refcount := mb_refcount mb + 1\<rparr>)"
  obtain ms1 where m: "mbuf_put_item ms ?x hp = Some (ms1, hp1)" "items ms1 = items ms @ [?x]" "ring_of k ms1"
    using put_items [OF okd(1), of ?x p hp mb] room mb by (auto simp: hp1_def)
  have pl: "payload hp1 q = payload hp q" for q using mb by (simp add: hp1_def payload_def)
  have en: "entry hp1 x = entry hp x" for x by (simp add: entry_def pl split: option.split)
  have "heap_ok hp1 (\<lambda>q. cnt (items ms1) q + e q)"
    using ref_ok(1) [OF okd(3) mb] m(2) by (simp add: hp1_def add_ac eq_commute)
  then have "mq_ok k e (ms1, hp1)" using m okd(2) by (simp add: mq_ok_def item_ok_def)
  moreover have "entry hp ?x = Some (i, b, f)" using held(2) by (simp add: entry_def)
  then have "mq hp1 ms1 = mq hp ms @ [Some (i, b, f)]" using m(2) en by (simp add: mq_def)
  ultimately show ?thesis using m(1) pl by blast
qed

lemma mq_full:
  assumes "mq_ok k e (ms, hp)"
  shows "ms_len ms = ms_capacity ms \<longleftrightarrow> length (mq hp ms) = 2 ^ k" "length (mq hp ms) \<le> 2 ^ k"
  using mq_okD(1) [OF assms] by (auto simp: mq_def ring_of_def word_unat_eq_iff)

lemma add_q:
  fixes i :: nat
  assumes ok: "mq_ok k e (ms, hp)" and held: "0 < e p" "payload hp p = Some (b, f)"
  defines "r \<equiv> mbuf_add_item ms \<lparr>im_buffer = Some p, im_instance = Some i\<rparr> hp"
  shows "case q_add (2 ^ k) (i, b, f) (mq hp ms) of
           None \<Rightarrow> r = None
         | Some q \<Rightarrow> \<exists>ms1 hp1. r = Some (ms1, hp1) \<and> mq_ok k e (ms1, hp1) \<and> mq hp1 ms1 = q
                      \<and> payload hp1 p = payload hp p"
proof (cases "ms_len ms = ms_capacity ms")
  case False
  then have room: "length (items ms) < 2 ^ k" using mq_full [OF ok] by (simp add: mq_def)
  then show ?thesis using put_q [OF ok room held, of i] False mq_full [OF ok]
    by (auto simp: q_add_def r_def mbuf_add_item_def)
next
  case True
  show ?thesis using ok
  proof (cases rule: extract_q)
    case (none ms1)
    then show ?thesis using True mq_full [OF ok] by (simp add: q_add_def r_def mbuf_add_item_def mbuf_extract_item_def)
  next
    case (some x i1 p1 b1 f1 ms1)
    obtain hp1 where h: "mbuf_free_buf (Some p1) hp = Some hp1" "mq_ok k e (ms1, hp1)" "mq hp1 ms1 = mq hp ms1"
      "\<forall>p. 0 < e p \<longrightarrow> payload hp1 p = payload hp p"
      using free_q [OF some(7)] by blast
    have room: "length (items ms1) < 2 ^ k" using some(8) mq_full [OF ok] by (simp add: mq_def)
    have pl: "payload hp1 p = Some (b, f)" using h(4) held by simp
    from put_q [OF h(2) room held(1) pl, of i] show ?thesis
      using True some h mq_full [OF ok] held by (auto simp: q_add_def r_def mbuf_add_item_def mbuf_extract_item_def)
  qed
qed

text \<open>A client that leaves: its items are taken out one position after the other.\<close>

definition gone_item :: "nat \<Rightarrow> mbuf_item \<Rightarrow> mbuf_item" where
  "gone_item mi x = (if im_instance x = Some mi then no_item else x)"

lemma slot_of_array [simp]: "slot_of (ms\<lparr>ms_array := a\<rparr>) = slot_of ms"
  by (simp add: slot_of_def fun_eq_iff)

lemma update_items:
  assumes "ring_of k ms" "i < unat (ms_len ms)"
  shows "items (ms\<lparr>ms_array := (ms_array ms)[slot_of ms i := x]\<rparr>) = (items ms)[i := x]"
    "ring_of k (ms\<lparr>ms_array := (ms_array ms)[slot_of ms i := x]\<rparr>)"
proof -
  let ?ms = "ms\<lparr>ms_array := (ms_array ms)[slot_of ms i := x]\<rparr>"
  have len: "unat (ms_len ms) \<le> 2 ^ k" using assms(1) by (simp add: ring_of_def)
  have b: "slot_of ms i < length (ms_array ms)" using slot_of_bound [OF assms(1), of i] assms(2) len by simp
  show "items ?ms = (items ms)[i := x]"
  proof (rule nth_equalityI)
    fix j assume "j < length (items ?ms)"
    then have j: "j < unat (ms_len ms)" by simp
    have "slot_of ms i \<noteq> slot_of ms j" if "i \<noteq> j"
      using slot_of_inj [OF assms(1), of i j] assms(2) j len that by fastforce
    then show "items ?ms ! j = (items ms)[i := x] ! j"
      using j b assms(2) by (cases "i = j") (simp_all add: items_nth)
  qed simp
  show "ring_of k ?ms" using assms(1) by (simp add: ring_of_def)
qed

lemma cnt_update:
  "i < length xs \<Longrightarrow> cnt xs q = (if im_buffer (xs ! i) = Some q then 1 else 0) + cnt (xs[i := no_item]) q"
  by (induction xs arbitrary: i) (auto simp: no_item_def split: nat.splits)

lemma dereference_slot_q:
  assumes ok: "mq_ok k e (ms, hp)" and i: "i < length (items ms)"
  shows "\<exists>ms1 hp1. dereference_slot mi i (ms, hp) = Some (ms1, hp1) \<and> mq_ok k e (ms1, hp1)
           \<and> items ms1 = (items ms)[i := gone_item mi (items ms ! i)]
           \<and> mq hp1 ms1 = map (entry hp) (items ms1) \<and> ms_len ms1 = ms_len ms \<and> payloads_kept hp hp1"
proof -
  note okd = mq_okD [OF ok]
  let ?x = "items ms ! i"
  have x: "ms_array ms ! slot_of ms i = ?x" using i by (simp add: items_nth)
  show ?thesis
  proof (cases "im_instance ?x = Some mi")
    case False
    then show ?thesis using ok x by (simp add: dereference_slot_def gone_item_def mq_def)
  next
    case True
    let ?ms = "ms\<lparr>ms_array := (ms_array ms)[slot_of ms i := no_item]\<rparr>"
    have u: "items ?ms = (items ms)[i := no_item]" "ring_of k ?ms"
      using update_items [OF okd(1), of i no_item] i by simp_all
    have "list_all item_ok (items ?ms)"
      unfolding u(1) using okd(2) i by (auto simp: list_all_iff item_ok_def no_item_def dest: set_update_subset_insert [THEN subsetD])
    moreover have "heap_ok hp (\<lambda>p. cnt (items ?ms) p + ((if im_buffer ?x = Some p then 1 else 0) + e p))"
      using okd(3) unfolding u(1) by (simp add: cnt_update [OF i] add_ac)
    ultimately have "mq_ok k (\<lambda>q. (if im_buffer ?x = Some q then 1 else 0) + e q) (?ms, hp)"
      using u(2) by (simp add: mq_ok_def)
    from free_q [OF this] obtain hp1 where h: "mbuf_free_buf (im_buffer ?x) hp = Some hp1" "mq_ok k e (?ms, hp1)"
      "mq hp1 ?ms = mq hp ?ms" "payloads_kept hp hp1" by blast
    then show ?thesis using True h x u by (simp add: dereference_slot_def gone_item_def mq_def)
  qed
qed

lemma q_gone_entries:
  assumes "\<And>x. x \<in> set xs \<Longrightarrow> entry hp x = None \<longleftrightarrow> dead x"
  shows "q_gone mi (map (entry hp) xs) = map (entry hp) (map (gone_item mi) xs)"
proof -
  have "(case entry hp x of None \<Rightarrow> None | Some (i, b, f) \<Rightarrow> if i = mi then None else Some (i, b, f))
      = entry hp (gone_item mi x)" if "x \<in> set xs" for x
    by (auto simp: entry_def gone_item_def no_item_def split: option.split)
  then show ?thesis by (simp add: q_gone_def)
qed

lemma map_one_more:
  assumes "j < length xs"
  shows "take (Suc j) (xs[j := g (xs ! j)]) @ map g (drop (Suc j) (xs[j := g (xs ! j)])) = take j xs @ map g (drop j xs)"
proof -
  have "drop j xs = xs ! j # drop (Suc j) xs" using Cons_nth_drop_Suc [OF assms] ..
  then show ?thesis using assms by (simp add: take_Suc_conv_app_nth drop_update_cancel)
qed

lemma dereference_loop_q:
  assumes "mq_ok k e (ms, hp)" "j + n = length (items ms)"
  shows "\<exists>ms1 hp1. dereference_loop mi [j..<j + n] (ms, hp) = Some (ms1, hp1) \<and> mq_ok k e (ms1, hp1)
           \<and> items ms1 = take j (items ms) @ map (gone_item mi) (drop j (items ms)) \<and> payloads_kept hp hp1"
  using assms
proof (induction n arbitrary: j ms hp)
  case 0
  then show ?case by simp
next
  case (Suc n)
  have j: "j < length (items ms)" using Suc.prems by linarith
  obtain ms1 hp1 where s: "dereference_slot mi j (ms, hp) = Some (ms1, hp1)" "mq_ok k e (ms1, hp1)"
    "items ms1 = (items ms)[j := gone_item mi (items ms ! j)]" "payloads_kept hp hp1"
    using dereference_slot_q [OF Suc.prems(1) j, of mi] by blast
  have len: "Suc j + n = length (items ms1)" using s(3) Suc.prems(2) by (simp del: length_items)
  obtain ms2 hp2 where r: "dereference_loop mi [Suc j..<Suc j + n] (ms1, hp1) = Some (ms2, hp2)" "mq_ok k e (ms2, hp2)"
    "items ms2 = take (Suc j) (items ms1) @ map (gone_item mi) (drop (Suc j) (items ms1))" "payloads_kept hp1 hp2"
    using Suc.IH [OF s(2) len] by blast
  have up: "[j..<j + Suc n] = j # [Suc j..<Suc j + n]" by (simp add: upt_rec)
  have "items ms2 = take j (items ms) @ map (gone_item mi) (drop j (items ms))"
    unfolding r(3) s(3) by (rule map_one_more [OF j])
  moreover have "payloads_kept hp hp2" by (rule payloads_kept_trans [OF s(4) r(4)])
  moreover have "dereference_loop mi [j..<j + Suc n] (ms, hp) = Some (ms2, hp2)" unfolding up using s(1) r(1) by simp
  ultimately show ?case using r(2) by blast
qed

lemma dereference_q:
  assumes ok: "mq_ok k e (ms, hp)"
  shows "\<exists>ms1 hp1. mbuf_dereference_instance mi ms hp = Some (ms1, hp1) \<and> mq_ok k e (ms1, hp1)
           \<and> mq hp1 ms1 = q_gone mi (mq hp ms)"
proof -
  obtain ms1 hp1 where d: "dereference_loop mi [0..<0 + unat (ms_len ms)] (ms, hp) = Some (ms1, hp1)" "mq_ok k e (ms1, hp1)"
    "items ms1 = map (gone_item mi) (items ms)" "payloads_kept hp hp1"
    using dereference_loop_q [OF ok, of 0 "unat (ms_len ms)" mi] by auto
  have "mq hp1 ms1 = map (entry hp) (items ms1)"
    unfolding mq_def by (rule entries_kept [OF d(4) mq_okD(3) [OF d(2)]]) simp
  then have "mq hp1 ms1 = q_gone mi (mq hp ms)"
    using q_gone_entries [of "items ms" hp mi] entries_None [OF ok] d(3) by (simp add: mq_def)
  then show ?thesis using d by (simp add: mbuf_dereference_instance_def)
qed

text \<open>Freeing the queue gives back every buffer that is not held elsewhere.\<close>

lemma free_items_q:
  "heap_ok hp (\<lambda>p. cnt xs p + e p) \<Longrightarrow> \<exists>hp1. free_items xs hp = Some hp1 \<and> heap_ok hp1 e"
proof (induction xs arbitrary: hp)
  case (Cons x xs)
  have "heap_ok hp (\<lambda>p. (if im_buffer x = Some p then 1 else 0) + (cnt xs p + e p))"
    using Cons.prems by (simp add: add_ac)
  from free_ok [OF this] obtain hp1 where "mbuf_free_buf (im_buffer x) hp = Some hp1" "heap_ok hp1 (\<lambda>p. cnt xs p + e p)"
    by blast
  then show ?case using Cons.IH by auto
qed simp

subsection \<open>Every sequence of uses\<close>

text \<open>
  What happens to the queue: a packet for one client, a broadcast, the next packet fetched, a
  client gone. The steps of the code work on the ring and the heap, \<open>malloc\<close> choosing addresses;
  those of the specification on the queue. Both collect what was fetched.
\<close>

datatype mbuf_event =
    Unicast buffer bool nat
  | Bcast buffer "nat option" bool u16 "bcast_client list"
  | Fetch
  | Gone nat

type_synonym mbuf_state = "(mbuf_set \<times> mbuf_heap) \<times> packet option list"

definition mbuf_step :: "(mbuf_heap \<Rightarrow> nat) \<Rightarrow> mbuf_state \<Rightarrow> mbuf_event \<Rightarrow> mbuf_state option" where
  "mbuf_step malloc = (\<lambda>((ms, hp), out) ev. case ev of
      Unicast b ready mi \<Rightarrow> map_option (\<lambda>st. (st, out)) (multi_unicast (malloc hp) b ready mi (ms, hp))
    | Bcast b sender has_addr vid cs \<Rightarrow>
        map_option (\<lambda>st. (st, out)) (multi_bcast (malloc hp) b sender has_addr vid cs (ms, hp))
    | Fetch \<Rightarrow> map_option (\<lambda>(r, st). (st, out @ [r])) (multi_get_queue (ms, hp))
    | Gone mi \<Rightarrow> map_option (\<lambda>st. (st, out)) (mbuf_dereference_instance mi ms hp))"

fun q_add_all :: "nat \<Rightarrow> packet list \<Rightarrow> packet option list \<Rightarrow> packet option list option" where
  "q_add_all cap [] q = Some q"
| "q_add_all cap (e # es) q = (case q_add cap e q of None \<Rightarrow> None | Some q1 \<Rightarrow> q_add_all cap es q1)"

definition bcast_targets :: "nat option \<Rightarrow> bool \<Rightarrow> u16 \<Rightarrow> bcast_client list \<Rightarrow> nat list" where
  "bcast_targets sender has_addr vid cs =
     map bc_instance (filter (\<lambda>c. bcast_to sender has_addr vid c \<and> bc_queue_ready c) cs)"

definition q_step ::
    "nat \<Rightarrow> packet option list \<times> packet option list \<Rightarrow> mbuf_event \<Rightarrow> (packet option list \<times> packet option list) option" where
  "q_step cap = (\<lambda>(q, out) ev. case ev of
      Unicast b ready mi \<Rightarrow>
        if blen b > 0 \<and> ready then map_option (\<lambda>q1. (q1, out)) (q_add cap (mi, clone_buf b, MF_UNICAST) q) else Some (q, out)
    | Bcast b sender has_addr vid cs \<Rightarrow>
        if blen b > 0
        then map_option (\<lambda>q1. (q1, out))
               (q_add_all cap (map (\<lambda>i. (i, clone_buf b, 0)) (bcast_targets sender has_addr vid cs)) q)
        else Some (q, out)
    | Fetch \<Rightarrow> (case q_take q of (r, q1) \<Rightarrow> Some (q1, out @ [r]))
    | Gone mi \<Rightarrow> Some (q_gone mi q, out))"

definition fresh_malloc :: "(mbuf_heap \<Rightarrow> nat) \<Rightarrow> bool" where
  "fresh_malloc malloc = (\<forall>hp. finite (dom hp) \<longrightarrow> hp (malloc hp) = None)"

definition held_at :: "nat \<Rightarrow> nat \<Rightarrow> nat" where
  "held_at p = (\<lambda>q. if q = p then 1 else 0)"

lemma held_pos [simp]: "0 < held_at p p"
  by (simp add: held_at_def)

lemma alloc_q:
  assumes ok: "mq_ok k (\<lambda>q. 0) (ms, hp)" and "hp p = None" "mb_refcount mb = 1"
  shows "mq_ok k (held_at p) (ms, hp(p \<mapsto> mb))" "mq (hp(p \<mapsto> mb)) ms = mq hp ms"
    "payload (hp(p \<mapsto> mb)) p = Some (mb_buf mb, mb_flags mb)"
proof -
  have h: "heap_ok (hp(p \<mapsto> mb)) (\<lambda>q. cnt (items ms) q + held_at p q)"
    using alloc_ok [OF mq_okD(3) [OF ok] assms(2,3)] by (simp add: held_at_def add_ac)
  then show "mq_ok k (held_at p) (ms, hp(p \<mapsto> mb))" using ok by (simp add: mq_ok_def)
  show "mq (hp(p \<mapsto> mb)) ms = mq hp ms"
    unfolding mq_def
  proof (rule map_cong [OF refl])
    fix x assume "x \<in> set (items ms)"
    then have "im_buffer x \<noteq> Some p" using item_buffer [OF ok] assms(2) by blast
    then show "entry (hp(p \<mapsto> mb)) x = entry hp x" by (auto simp: entry_def payload_def split: option.split)
  qed
  show "payload (hp(p \<mapsto> mb)) p = Some (mb_buf mb, mb_flags mb)" by (simp add: payload_def)
qed

lemma release_q:
  assumes "mq_ok k (held_at p) (ms, hp)"
  shows "\<exists>hp1. free_at_end p (Some (ms, hp)) = Some (ms, hp1) \<and> mq_ok k (\<lambda>q. 0) (ms, hp1) \<and> mq hp1 ms = mq hp ms"
proof -
  have "mq_ok k (\<lambda>q. (if Some p = Some q then 1 else 0) + 0) (ms, hp)" using assms by (simp add: held_at_def eq_commute)
  from free_q [OF this] obtain hp1 where "mbuf_free_buf (Some p) hp = Some hp1" "mq_ok k (\<lambda>q. 0) (ms, hp1)" "mq hp1 ms = mq hp ms"
    by blast
  then show ?thesis by (simp add: free_at_end_def del: mbuf_free_buf.simps)
qed

lemma bcast_q:
  assumes "mq_ok k (held_at p) (ms, hp)" "payload hp p = Some (b, f)"
  shows "case q_add_all (2 ^ k) (map (\<lambda>i. (i, b, f)) (bcast_targets sender ha vid cs)) (mq hp ms) of
           None \<Rightarrow> bcast_loop p sender ha vid cs (ms, hp) = None
         | Some q \<Rightarrow> \<exists>ms1 hp1. bcast_loop p sender ha vid cs (ms, hp) = Some (ms1, hp1)
                       \<and> mq_ok k (held_at p) (ms1, hp1) \<and> mq hp1 ms1 = q"
  using assms
proof (induction cs arbitrary: ms hp)
  case Nil
  then show ?case by (simp add: bcast_targets_def)
next
  case (Cons c cs)
  show ?case
  proof (cases "bcast_to sender ha vid c \<and> bc_queue_ready c")
    case False
    then have same: "bcast_loop p sender ha vid (c # cs) (ms, hp) = bcast_loop p sender ha vid cs (ms, hp)"
      "bcast_targets sender ha vid (c # cs) = bcast_targets sender ha vid cs"
      by (auto simp: multi_add_mbuf_def bcast_targets_def)
    show ?thesis unfolding same by (rule Cons.IH [OF Cons.prems])
  next
    case True
    let ?a = "mbuf_add_item ms \<lparr>im_buffer = Some p, im_instance = Some (bc_instance c)\<rparr> hp"
    have t: "bcast_targets sender ha vid (c # cs) = bc_instance c # bcast_targets sender ha vid cs"
      using True by (simp add: bcast_targets_def)
    have l: "bcast_loop p sender ha vid (c # cs) (ms, hp) =
        (case ?a of None \<Rightarrow> None | Some st1 \<Rightarrow> bcast_loop p sender ha vid cs st1)"
      using True by (simp add: multi_add_mbuf_def)
    note a = add_q [OF Cons.prems(1) held_pos Cons.prems(2), of "bc_instance c"]
    show ?thesis
    proof (cases "q_add (2 ^ k) (bc_instance c, b, f) (mq hp ms)")
      case None
      then show ?thesis using a t l by simp
    next
      case (Some q1)
      then obtain ms1 hp1 where r: "?a = Some (ms1, hp1)" "mq_ok k (held_at p) (ms1, hp1)" "mq hp1 ms1 = q1"
        "payload hp1 p = Some (b, f)" using a Cons.prems(2) by auto
      have same: "bcast_loop p sender ha vid (c # cs) (ms, hp) = bcast_loop p sender ha vid cs (ms1, hp1)"
        "q_add_all (2 ^ k) (map (\<lambda>i. (i, b, f)) (bcast_targets sender ha vid (c # cs))) (mq hp ms)
         = q_add_all (2 ^ k) (map (\<lambda>i. (i, b, f)) (bcast_targets sender ha vid cs)) (mq hp1 ms1)"
        unfolding l t r(1) using Some r(3) by simp_all
      show ?thesis unfolding same by (rule Cons.IH [OF r(2,4)])
    qed
  qed
qed

lemma unicast_q:
  assumes ok: "mq_ok k (\<lambda>q. 0) (ms, hp)" and "hp p = None"
  shows "case (if blen b > 0 \<and> ready then q_add (2 ^ k) (mi, clone_buf b, MF_UNICAST) (mq hp ms) else Some (mq hp ms)) of
           None \<Rightarrow> multi_unicast p b ready mi (ms, hp) = None
         | Some q \<Rightarrow> \<exists>ms1 hp1. multi_unicast p b ready mi (ms, hp) = Some (ms1, hp1) \<and> mq_ok k (\<lambda>q. 0) (ms1, hp1) \<and> mq hp1 ms1 = q"
proof -
  define mb where "mb = \<lparr>mb_buf = clone_buf b, mb_refcount = 1, mb_flags = MF_UNICAST\<rparr>"
  have f: "mb_refcount mb = 1" "mb_buf mb = clone_buf b" "mb_flags mb = MF_UNICAST" by (simp_all add: mb_def)
  note al = alloc_q [OF ok assms(2) f(1)]
  have u: "multi_unicast p b ready mi (ms, hp) =
      (if blen b > 0 then free_at_end p (multi_add_mbuf ready mi p (ms, hp(p \<mapsto> mb))) else Some (ms, hp))"
    by (simp add: multi_unicast_def mb_def)
  note a = add_q [OF al(1) held_pos, of "clone_buf b" MF_UNICAST mi]
  show ?thesis
  proof (cases "blen b > 0 \<and> ready")
    case False
    then show ?thesis using u release_q [OF al(1)] al(2) ok by (auto simp: multi_add_mbuf_def)
  next
    case True
    show ?thesis
    proof (cases "q_add (2 ^ k) (mi, clone_buf b, MF_UNICAST) (mq hp ms)")
      case None
      then show ?thesis using a al f u True by (simp add: multi_add_mbuf_def free_at_end_def)
    next
      case (Some q)
      then obtain ms1 hp1 where r: "mbuf_add_item ms \<lparr>im_buffer = Some p, im_instance = Some mi\<rparr> (hp(p \<mapsto> mb)) = Some (ms1, hp1)"
        "mq_ok k (held_at p) (ms1, hp1)" "mq hp1 ms1 = q" using a al f by auto
      then show ?thesis using release_q [OF r(2)] Some True u by (auto simp: multi_add_mbuf_def)
    qed
  qed
qed

lemma bcast_all_q:
  assumes ok: "mq_ok k (\<lambda>q. 0) (ms, hp)" and "hp p = None"
  shows "case (if blen b > 0 then q_add_all (2 ^ k) (map (\<lambda>i. (i, clone_buf b, 0)) (bcast_targets sender ha vid cs)) (mq hp ms)
               else Some (mq hp ms)) of
           None \<Rightarrow> multi_bcast p b sender ha vid cs (ms, hp) = None
         | Some q \<Rightarrow> \<exists>ms1 hp1. multi_bcast p b sender ha vid cs (ms, hp) = Some (ms1, hp1) \<and> mq_ok k (\<lambda>q. 0) (ms1, hp1) \<and> mq hp1 ms1 = q"
proof (cases "blen b > 0")
  case False
  then show ?thesis using ok by (simp add: multi_bcast_def)
next
  case True
  define mb where "mb = \<lparr>mb_buf = clone_buf b, mb_refcount = 1, mb_flags = 0\<rparr>"
  have f: "mb_refcount mb = 1" "mb_buf mb = clone_buf b" "mb_flags mb = 0" by (simp_all add: mb_def)
  note al = alloc_q [OF ok assms(2) f(1)]
  have u: "multi_bcast p b sender ha vid cs (ms, hp) = free_at_end p (bcast_loop p sender ha vid cs (ms, hp(p \<mapsto> mb)))"
    using True by (simp add: multi_bcast_def mbuf_alloc_buf_def mb_def)
  note a = bcast_q [OF al(1), of "clone_buf b" 0 sender ha vid cs]
  show ?thesis
  proof (cases "q_add_all (2 ^ k) (map (\<lambda>i. (i, clone_buf b, 0)) (bcast_targets sender ha vid cs)) (mq hp ms)")
    case None
    then show ?thesis using a al f u True by (simp add: free_at_end_def)
  next
    case (Some q)
    then obtain ms1 hp1 where r: "bcast_loop p sender ha vid cs (ms, hp(p \<mapsto> mb)) = Some (ms1, hp1)"
      "mq_ok k (held_at p) (ms1, hp1)" "mq hp1 ms1 = q" using a al f by auto
    then show ?thesis using release_q [OF r(2)] Some True u by auto
  qed
qed

lemma fetch_q:
  assumes ok: "mq_ok k (\<lambda>q. 0) (ms, hp)"
  shows "\<exists>ms1 hp1. multi_get_queue (ms, hp) = Some (fst (q_take (mq hp ms)), ms1, hp1)
           \<and> mq_ok k (\<lambda>q. 0) (ms1, hp1) \<and> mq hp1 ms1 = snd (q_take (mq hp ms))"
  using ok
proof (cases rule: extract_q)
  case (none ms1)
  then show ?thesis by (simp add: multi_get_queue_def mbuf_extract_item_def)
next
  case (some x i p b f ms1)
  obtain hp1 where h: "mbuf_free_buf (Some p) hp = Some hp1" "mq_ok k (\<lambda>q. 0) (ms1, hp1)" "mq hp1 ms1 = mq hp ms1"
    using free_q [OF some(7)] by blast
  then show ?thesis using some by (auto simp: multi_get_queue_def mbuf_extract_item_def payload_def simp del: mbuf_free_buf.simps)
qed

lemma find_upt:
  "(case List.find (\<lambda>i. P (xs ! i)) [0..<length xs] of None \<Rightarrow> None | Some i \<Rightarrow> g (xs ! i)) =
   (case dropWhile (\<lambda>x. \<not> P x) xs of [] \<Rightarrow> None | x # r \<Rightarrow> g x)"
proof (induction xs)
  case (Cons x xs)
  have "[0..<length (x # xs)] = 0 # map Suc [0..<length xs]" by (simp add: upt_conv_Cons map_Suc_upt del: upt_Suc)
  moreover have "List.find (\<lambda>i. P ((x # xs) ! i)) (map Suc js) = map_option Suc (List.find (\<lambda>i. P (xs ! i)) js)" for js
    by (induction js) auto
  ultimately show ?case using Cons.IH by (auto split: option.splits simp del: upt_Suc)
qed simp

lemma peek_q:
  assumes ok: "mq_ok k e (ms, hp)"
  shows "mbuf_peek ms = map_option fst (fst (q_take (mq hp ms)))"
proof -
  have fnd: "List.find (\<lambda>i. im_instance (ms_array ms ! slot_of ms i) \<noteq> None) [0..<unat (ms_len ms)]
      = List.find (\<lambda>i. im_instance (items ms ! i) \<noteq> None) [0..<length (items ms)]"
    by (rule find_cong) (simp_all add: items_nth)
  have pk: "mbuf_peek_dowork ms = (case dropWhile dead (items ms) of [] \<Rightarrow> None | x # r \<Rightarrow> im_instance x)"
  proof -
    have "mbuf_peek_dowork ms = (case List.find (\<lambda>i. im_instance (items ms ! i) \<noteq> None) [0..<length (items ms)] of
        None \<Rightarrow> None | Some i \<Rightarrow> im_instance (items ms ! i))"
      unfolding mbuf_peek_dowork_def fnd
      by (rule option.case_cong [OF refl refl]) (auto simp: find_Some_iff items_nth)
    then show ?thesis
      using find_upt [of im_instance "items ms" "\<lambda>x. im_instance x \<noteq> None"] by (simp add: dead_def [abs_def])
  qed
  have z: "items ms = []" if "ms_len ms = 0" using that by (simp add: items_def)
  show ?thesis
    using ok
  proof (cases rule: extract_q)
    case (none ms1)
    have "(case dropWhile dead (items ms) of [] \<Rightarrow> None | x # r \<Rightarrow> Some x) = None"
      using extract_items [OF mq_okD(1) [OF ok]] none(1) by auto
    then have "dropWhile dead (items ms) = []" by (cases "dropWhile dead (items ms)") simp_all
    then have "mbuf_peek_dowork ms = None" unfolding pk by (simp only: list.case)
    then show ?thesis using none(2) by (simp add: mbuf_peek_def)
  next
    case (some x i p b f ms1)
    have "(case dropWhile dead (items ms) of [] \<Rightarrow> None | x # r \<Rightarrow> Some x) = Some x"
      using extract_items [OF mq_okD(1) [OF ok]] some(1) by auto
    then obtain r where "dropWhile dead (items ms) = x # r" by (cases "dropWhile dead (items ms)") simp_all
    then have "mbuf_peek_dowork ms = Some i" unfolding pk using some(2) by (simp only: list.case)
    moreover have "mbuf_defined ms" using z some(6) by (auto simp: mbuf_defined_def mq_def)
    ultimately show ?thesis using some(5) by (simp add: mbuf_peek_def)
  qed
qed

lemma mbuf_init_ok:
  assumes "mbuf_init n = Some ms" "unat n \<le> 2 ^ 30"
  shows "\<exists>k. unat (ms_capacity ms) = 2 ^ k \<and> unat n \<le> 2 ^ k \<and> mq_ok k (\<lambda>q. 0) (ms, Map.empty) \<and> items ms = []"
proof -
  have un: "unat (ucast n :: 64 word) = unat n" using assms(2) by (simp add: unsigned_ucast_eq take_bit_nat_eq_self_iff)
  then obtain m where m: "adjust_power_of_2 (ucast n) = Some (2 ^ m)" "unat n \<le> 2 ^ m" "0 < m \<longrightarrow> 2 ^ (m - 1) < unat n"
    using adjust_power_of_2_small [of "ucast n"] assms(2) by auto
  have "m \<le> 30"
  proof (rule ccontr)
    assume "\<not> m \<le> 30"
    then have "(2::nat) ^ 30 \<le> 2 ^ (m - 1)" by (intro power_increasing) auto
    then show False using m(3) assms(2) \<open>\<not> m \<le> 30\<close> by simp
  qed
  moreover have "(ucast (2 ^ m :: 64 word) :: u32) = 2 ^ m"
    by (rule bit_word_eqI) (simp add: bit_ucast_iff bit_exp_iff)
  ultimately have "ring_of m ms" "unat (ms_capacity ms) = 2 ^ m" "ms_len ms = 0"
    using assms(1) m(1) by (auto simp: mbuf_init_def Let_def ring_of_def unat_pow_le_32)
  moreover from this have "items ms = []" by (simp add: items_def)
  ultimately show ?thesis using m(2) by (intro exI [of _ m]) (simp add: mq_ok_def heap_ok_def refs_def)
qed

lemma mbuf_step_q:
  assumes ok: "mq_ok k (\<lambda>q. 0) (ms, hp)" and "fresh_malloc malloc"
  shows "case q_step (2 ^ k) (mq hp ms, out) ev of
           None \<Rightarrow> mbuf_step malloc ((ms, hp), out) ev = None
         | Some (q, out1) \<Rightarrow> \<exists>ms1 hp1. mbuf_step malloc ((ms, hp), out) ev = Some ((ms1, hp1), out1)
                               \<and> mq_ok k (\<lambda>q. 0) (ms1, hp1) \<and> mq hp1 ms1 = q"
proof -
  have fresh: "hp (malloc hp) = None"
    using assms(2) mq_okD(3) [OF ok] by (simp add: fresh_malloc_def heap_ok_def)
  show ?thesis
  proof (cases ev)
    case (Unicast b ready mi)
    then show ?thesis using unicast_q [OF ok fresh, of b ready mi]
      by (auto simp: q_step_def mbuf_step_def split: option.splits if_splits)
  next
    case (Bcast b sender ha vid cs)
    then show ?thesis using bcast_all_q [OF ok fresh, of b sender ha vid cs]
      by (auto simp: q_step_def mbuf_step_def split: option.splits if_splits)
  next
    case Fetch
    then show ?thesis using fetch_q [OF ok] by (auto simp: q_step_def mbuf_step_def split: prod.split)
  next
    case (Gone mi)
    then show ?thesis using dereference_q [OF ok, of mi] by (auto simp: q_step_def mbuf_step_def)
  qed
qed

lemma mbuf_run_q:
  assumes "mq_ok k (\<lambda>q. 0) (ms, hp)" and "fresh_malloc malloc"
  shows "case run (q_step (2 ^ k)) (mq hp ms, out) evs of
           None \<Rightarrow> run (mbuf_step malloc) ((ms, hp), out) evs = None
         | Some (q, out1) \<Rightarrow> \<exists>ms1 hp1. run (mbuf_step malloc) ((ms, hp), out) evs = Some ((ms1, hp1), out1)
                               \<and> mq_ok k (\<lambda>q. 0) (ms1, hp1) \<and> mq hp1 ms1 = q"
  using assms(1)
proof (induction evs arbitrary: ms hp out)
  case (Cons ev evs)
  note st = mbuf_step_q [OF Cons.prems assms(2), of out ev]
  show ?case
  proof (cases "q_step (2 ^ k) (mq hp ms, out) ev")
    case None
    then show ?thesis using st by simp
  next
    case (Some r)
    obtain q out1 where r: "r = (q, out1)" by (cases r)
    obtain ms1 hp1 where s: "mbuf_step malloc ((ms, hp), out) ev = Some ((ms1, hp1), out1)"
      "mq_ok k (\<lambda>q. 0) (ms1, hp1)" "mq hp1 ms1 = q" using st Some r by auto
    have same: "run (q_step (2 ^ k)) (mq hp ms, out) (ev # evs) = run (q_step (2 ^ k)) (mq hp1 ms1, out1) evs"
      "run (mbuf_step malloc) ((ms, hp), out) (ev # evs) = run (mbuf_step malloc) ((ms1, hp1), out1) evs"
      using Some r s by simp_all
    show ?thesis unfolding same by (rule Cons.IH [OF s(2)])
  qed
qed simp

text \<open>
  C36: The queue of packets between clients is the bounded queue it stands for. For any sequence
  of packets for one client, broadcasts, fetches and departures of clients, starting from a queue
  \<open>mbuf_init\<close> made: the packets fetched are those of the specification, in order, never for a
  client that is gone; the next client \<open>mbuf_peek\<close> names is the one of the next packet; every
  buffer counts exactly the items of the queue that have it, no freed buffer is ever used, and
  freeing the queue leaves nothing allocated. The process is only stopped by the assertion of
  \<open>mbuf_add_item\<close>, and only when the specification fails too: the queue is full, and of packets
  for clients that are gone.
\<close>

lemma mbuf_queue_refines_fifo:
  assumes "mbuf_init n = Some ms" "unat n \<le> 2 ^ 30" "fresh_malloc malloc"
  shows "case run (q_step (unat (ms_capacity ms))) ([], []) evs of
           None \<Rightarrow> run (mbuf_step malloc) ((ms, Map.empty), []) evs = None
         | Some (q, out) \<Rightarrow>
             (\<exists>ms1 hp1. run (mbuf_step malloc) ((ms, Map.empty), []) evs = Some ((ms1, hp1), out)
                \<and> mq hp1 ms1 = q \<and> length q \<le> unat (ms_capacity ms)
                \<and> mbuf_peek ms1 = map_option fst (fst (q_take q))
                \<and> (\<forall>p. refs hp1 p = int (cnt (items ms1) p)) \<and> mbuf_free ms1 hp1 = Some Map.empty)"
proof -
  obtain k where k: "unat (ms_capacity ms) = 2 ^ k" "mq_ok k (\<lambda>q. 0) (ms, Map.empty)" "items ms = []"
    using mbuf_init_ok [OF assms(1,2)] by blast
  have start: "mq Map.empty ms = []" by (simp add: mq_def k(3))
  note r = mbuf_run_q [OF k(2) assms(3), of "[]" evs, unfolded start]
  have at_end: "length (mq hp1 ms1) \<le> 2 ^ k \<and> mbuf_peek ms1 = map_option fst (fst (q_take (mq hp1 ms1)))
      \<and> (\<forall>p. refs hp1 p = int (cnt (items ms1) p)) \<and> mbuf_free ms1 hp1 = Some Map.empty"
    if ok: "mq_ok k (\<lambda>q. 0) (ms1, hp1)" for ms1 hp1
  proof -
    obtain hp2 where "free_items (items ms1) hp1 = Some hp2" "heap_ok hp2 (\<lambda>q. 0)"
      using free_items_q [OF mq_okD(3) [OF ok]] by blast
    moreover from this(2) have "hp2 = Map.empty" by (auto simp: heap_ok_def fun_eq_iff)
    ultimately show ?thesis
      using mq_full(2) [OF ok] peek_q [OF ok] mq_okD(3) [OF ok] by (simp add: mbuf_free_def items_def heap_ok_def)
  qed
  show ?thesis
  proof (cases "run (q_step (2 ^ k)) ([], []) evs")
    case None
    then show ?thesis using r k(1) by simp
  next
    case (Some res)
    obtain q out where res: "res = (q, out)" by (cases res)
    obtain ms1 hp1 where "run (mbuf_step malloc) ((ms, Map.empty), []) evs = Some ((ms1, hp1), out)"
      "mq_ok k (\<lambda>q. 0) (ms1, hp1)" "mq hp1 ms1 = q" using r Some res by auto
    then show ?thesis using Some res k(1) at_end by auto
  qed
qed

text \<open>A queue for two packets: a broadcast to three clients, of which the second leaves.\<close>

definition one_byte :: buffer where
  "one_byte = \<lparr>bcap = 1, boff = 0, blen = 1, bdata = Some [7]\<rparr>"

definition plain_client :: "nat \<Rightarrow> bcast_client" where
  "plain_client i = \<lparr>bc_instance = i, bc_halt = False, bc_c2c_test = True, bc_addr_test = True, bc_vlan_pvid = 1, bc_queue_ready = True\<rparr>"

definition least_free :: "mbuf_heap \<Rightarrow> nat" where
  "least_free hp = (LEAST p. hp p = None)"

lemma least_free_fresh: "fresh_malloc least_free"
proof -
  have "hp (least_free hp) = None" if "finite (dom hp)" for hp :: mbuf_heap
  proof -
    have "\<exists>p. p \<notin> dom hp" using that ex_new_if_finite infinite_UNIV_nat by blast
    then have "\<exists>p. hp p = None" by (simp add: dom_def)
    then show ?thesis unfolding least_free_def by (rule LeastI_ex)
  qed
  then show ?thesis by (simp add: fresh_malloc_def)
qed

lemma mbuf_init_2: "\<exists>ms. mbuf_init 2 = Some ms \<and> ms_capacity ms = 2"
proof -
  have "adjust_loop 1 2 = Some 2" by (simp add: adjust_loop.simps [of 1] adjust_loop.simps [of 2])
  then show ?thesis by (simp add: mbuf_init_def adjust_power_of_2_def Let_def)
qed

lemma mbuf_queue_refines_fifo_witness:
  "\<exists>ms ms1 hp1. mbuf_init 2 = Some ms \<and>
     run (mbuf_step least_free) ((ms, Map.empty), [])
       [Bcast one_byte None False 0 (map plain_client [4, 5, 6]), Gone 5, Fetch, Fetch] =
       Some ((ms1, hp1), [Some (6, clone_buf one_byte, 0), None])
     \<and> mbuf_free ms1 hp1 = Some Map.empty"
proof -
  obtain ms where ms: "mbuf_init 2 = Some ms" "ms_capacity ms = 2" using mbuf_init_2 by blast
  let ?evs = "[Bcast one_byte None False 0 (map plain_client [4, 5, 6]), Gone 5, Fetch, Fetch]"
  have "run (q_step 2) ([], []) ?evs = Some ([], [Some (6, clone_buf one_byte, 0), None])"
    by (simp add: q_step_def bcast_targets_def bcast_to_def plain_client_def one_byte_def q_add_def q_take_def q_gone_def)
  then show ?thesis
    using mbuf_queue_refines_fifo [OF ms(1) _ least_free_fresh, of ?evs] ms by auto
qed

text \<open>
  The assertion can fail: the queue is full of packets for clients that have left, and the next
  packet for anybody finds nothing to drop.
\<close>

lemma full_of_gone_clients_aborts:
  assumes "mbuf_init 2 = Some ms"
  shows "run (mbuf_step least_free) ((ms, Map.empty), [])
           [Unicast one_byte True 5, Unicast one_byte True 5, Gone 5, Unicast one_byte True 6] = None"
proof -
  let ?evs = "[Unicast one_byte True 5, Unicast one_byte True 5, Gone 5, Unicast one_byte True 6]"
  obtain k where k: "unat (ms_capacity ms) = 2 ^ k" "mq_ok k (\<lambda>q. 0) (ms, Map.empty)" "items ms = []"
    using mbuf_init_ok [OF assms] by auto
  have "2 ^ k = (2::nat)" using mbuf_init_2 assms k(1) by auto
  moreover have "run (q_step 2) ([], []) ?evs = None"
    by (simp add: q_step_def one_byte_def q_add_def q_take_def q_gone_def)
  ultimately show ?thesis
    using mbuf_run_q [OF k(2) least_free_fresh, of "[]" ?evs] by (simp add: mq_def k(3))
qed

end
