(* ===== verification/Option_Line.thy ===== *)
theory Option_Line
  imports Text_Util
begin

text \<open>
  \<^verbatim>\<open>options.c\<close>: how a line of configuration, or an option pushed by the server, is split into its
  parameters (\<open>parse_line\<close>); inline blocks; the loops that read a configuration text and a push
  message; and the pull filter.

  What an option does (\<open>add_option\<close>) is an argument. A fatal message is \<open>None\<close>; what \<open>parse_line\<close>
  reports as an error is a value of \<open>parse_error\<close>.

  The lemmas: \<open>parse_line\<close> stays inside its arrays; a configuration written with quotes, escapes
  and inline blocks is read back as it was; the pull filter and what it misses.
\<close>

definition MAX_PARMS :: nat where "MAX_PARMS = 16"
definition OPTION_PARM_SIZE :: nat where "OPTION_PARM_SIZE = 256"
definition OPTION_LINE_SIZE :: nat where "OPTION_LINE_SIZE = 256"

subsection \<open>A line\<close>

definition space :: "char \<Rightarrow> bool" where
  "space c = (c = CHR 0x00 \<or> c_isspace (of_char c))"

datatype parse_state = STATE_INITIAL | STATE_READING_QUOTED_PARM | STATE_READING_UNQUOTED_PARM | STATE_DONE
  | STATE_READING_SQUOTED_PARM

datatype parse_error = Bad_Backslash | Parm_Too_Long | No_Closing_Quotation | No_Closing_Single_Quotation
  | Residual_State

record line_parser =
  lp_state :: parse_state
  lp_backslash :: bool
  lp_parm :: string
  lp_p :: "string list"

text \<open>One turn of the loop: it goes on, breaks off, or returns with an error.\<close>

datatype parse_outcome = Next line_parser | Stop line_parser | Failed parse_error

text \<open>The new state and the character to store (NUL for none), or \<open>None\<close> at a comment.\<close>

definition parse_state_step :: "bool \<Rightarrow> char \<Rightarrow> parse_state \<Rightarrow> (parse_state \<times> char) option" where
  "parse_state_step backslash c state =
     (case state of
        STATE_INITIAL \<Rightarrow>
          if \<not> space c
          then (if c = CHR '';'' \<or> c = CHR ''#'' then None
                else if \<not> backslash \<and> c = CHR 0x22 then Some (STATE_READING_QUOTED_PARM, CHR 0x00)
                else if \<not> backslash \<and> c = CHR 0x27 then Some (STATE_READING_SQUOTED_PARM, CHR 0x00)
                else Some (STATE_READING_UNQUOTED_PARM, c))
          else Some (STATE_INITIAL, CHR 0x00)
      | STATE_READING_UNQUOTED_PARM \<Rightarrow>
          if \<not> backslash \<and> space c then Some (STATE_DONE, CHR 0x00) else Some (state, c)
      | STATE_READING_QUOTED_PARM \<Rightarrow>
          if \<not> backslash \<and> c = CHR 0x22 then Some (STATE_DONE, CHR 0x00) else Some (state, c)
      | STATE_READING_SQUOTED_PARM \<Rightarrow>
          if c = CHR 0x27 then Some (STATE_DONE, CHR 0x00) else Some (state, c)
      | STATE_DONE \<Rightarrow> Some (state, CHR 0x00))"

definition finish_parm :: "line_parser \<Rightarrow> line_parser" where
  "finish_parm lp =
     (if lp_state lp = STATE_DONE
      then lp\<lparr>lp_p := lp_p lp @ [lp_parm lp], lp_state := STATE_INITIAL, lp_parm := []\<rparr> else lp)"

definition store_char :: "nat \<Rightarrow> char \<Rightarrow> line_parser \<Rightarrow> parse_outcome" where
  "store_char n out lp =
     (if out \<noteq> CHR 0x00 \<and> length (lp_parm lp) \<ge> OPTION_PARM_SIZE then Failed Parm_Too_Long
      else (let lp1 = (if out \<noteq> CHR 0x00 then lp\<lparr>lp_parm := lp_parm lp @ [out]\<rparr> else lp)
            in if length (lp_p lp1) \<ge> n then Stop lp1 else Next lp1))"

definition parse_char :: "nat \<Rightarrow> char \<Rightarrow> line_parser \<Rightarrow> parse_outcome" where
  "parse_char n c lp =
     (if \<not> lp_backslash lp \<and> c = CHR 0x5C \<and> lp_state lp \<noteq> STATE_READING_SQUOTED_PARM
      then store_char n (CHR 0x00) (lp\<lparr>lp_backslash := True\<rparr>)
      else case parse_state_step (lp_backslash lp) c (lp_state lp) of
             None \<Rightarrow> Stop lp
           | Some (state, out) \<Rightarrow>
               (let lp1 = finish_parm (lp\<lparr>lp_state := state\<rparr>)
                in if lp_backslash lp \<and> out \<noteq> CHR 0x00 \<and> \<not> (out = CHR 0x5C \<or> out = CHR 0x22 \<or> space out)
                   then Failed Bad_Backslash
                   else store_char n out (lp1\<lparr>lp_backslash := False\<rparr>)))"

fun parse_chars :: "nat \<Rightarrow> string \<Rightarrow> line_parser \<Rightarrow> parse_error + line_parser" where
  "parse_chars n [] lp = Inr lp"
| "parse_chars n (c # cs) lp =
     (case parse_char n c lp of
        Failed e \<Rightarrow> Inl e
      | Stop lp1 \<Rightarrow> Inr lp1
      | Next lp1 \<Rightarrow> if c = CHR 0x00 then Inr lp1 else parse_chars n cs lp1)"

definition parse_end :: "line_parser \<Rightarrow> parse_error + string list" where
  "parse_end lp =
     (case lp_state lp of
        STATE_READING_QUOTED_PARM \<Rightarrow> Inl No_Closing_Quotation
      | STATE_READING_SQUOTED_PARM \<Rightarrow> Inl No_Closing_Single_Quotation
      | STATE_INITIAL \<Rightarrow> Inr (lp_p lp)
      | _ \<Rightarrow> Inl Residual_State)"

definition parse_start :: line_parser where
  "parse_start = \<lparr>lp_state = STATE_INITIAL, lp_backslash = False, lp_parm = [], lp_p = []\<rparr>"

definition parse_line :: "string \<Rightarrow> nat \<Rightarrow> parse_error + string list" where
  "parse_line line n =
     (case parse_chars n (line @ [CHR 0x00]) parse_start of Inl e \<Rightarrow> Inl e | Inr lp \<Rightarrow> parse_end lp)"

text \<open>The parameters of a line that has some; otherwise the line is not an option.\<close>

definition line_parms :: "string \<Rightarrow> string list option" where
  "line_parms line = (case parse_line line MAX_PARMS of Inl e \<Rightarrow> None | Inr p \<Rightarrow> if p = [] then None else Some p)"

subsection \<open>Configuration text\<close>

definition bypass_doubledash :: "string \<Rightarrow> string" where
  "bypass_doubledash p = (if length p \<ge> 3 \<and> take 2 p = ''--'' then drop 2 p else p)"

text \<open>\<open>in_src_get\<close> from a buffer: a line with its newline, where there is room for it.\<close>

definition in_src_get :: "string \<Rightarrow> (bool \<times> string \<times> string) option" where
  "in_src_get multiline =
     map_option (\<lambda>(status, line, r).
         (status, if length line + 1 < OPTION_LINE_SIZE then line @ [CHR 0x0A] else line, r))
       (buf_parse multiline (CHR 0x0A) (int OPTION_LINE_SIZE))"

lemma in_src_get_shorter: "in_src_get b = Some (True, line, r) \<Longrightarrow> length r < length b"
  by (auto simp: in_src_get_def dest: buf_parse_shorter)

definition starts_with :: "string \<Rightarrow> string \<Rightarrow> bool" where
  "starts_with s pat = (take (length pat) s = pat)"

text \<open>The lines up to the closing tag, how many there were, and the text behind it.\<close>

function read_inline_file :: "string \<Rightarrow> string \<Rightarrow> nat \<Rightarrow> string \<Rightarrow> (string \<times> nat \<times> string) option" where
  "read_inline_file close_tag b num_lines acc =
     (case in_src_get b of
        None \<Rightarrow> None
      | Some (False, _, _) \<Rightarrow> None
      | Some (True, line, r) \<Rightarrow>
          if starts_with (dropWhile (\<lambda>c. c_isspace (of_char c)) line) close_tag
          then Some (acc, num_lines + 1, r)
          else read_inline_file close_tag r (num_lines + 1) (acc @ line))"
  by pat_completeness auto

termination read_inline_file
  by (relation "measure (\<lambda>(t, b, n, a). length b)") (auto dest: in_src_get_shorter)

declare read_inline_file.simps [simp del]

text \<open>The name in angle brackets.\<close>

definition inline_tag :: "string list \<Rightarrow> string option" where
  "inline_tag p =
     (case p of
        [arg] \<Rightarrow> if arg \<noteq> [] \<and> hd arg = CHR ''<'' \<and> last arg = CHR ''>'' then Some (tl (butlast arg)) else None
      | _ \<Rightarrow> None)"

definition check_inline_file :: "string list \<Rightarrow> string \<Rightarrow> (string list \<times> nat \<times> string) option" where
  "check_inline_file p b =
     (case inline_tag p of
        None \<Rightarrow> Some (p, 0, b)
      | Some tag \<Rightarrow>
          map_option (\<lambda>(text, n, r). ([tag, text], n, r)) (read_inline_file (''</'' @ tag @ ''>'') b 0 []))"

type_synonym 's add_option = "string list \<Rightarrow> nat \<Rightarrow> nat \<Rightarrow> 's \<Rightarrow> 's"

lemma read_inline_shorter:
  "read_inline_file t b n acc = Some (text, k, r) \<Longrightarrow> length r < length b"
proof (induction t b n acc rule: read_inline_file.induct)
  case (1 t b n acc)
  show ?case
    using "1.prems" "1.IH"
    by (subst (asm) read_inline_file.simps)
      (fastforce split: option.splits bool.splits prod.splits if_splits dest: in_src_get_shorter)
qed

lemma check_inline_shorter: "check_inline_file p b = Some (p1, k, r) \<Longrightarrow> length r \<le> length b"
  by (auto simp: check_inline_file_def split: option.splits dest: read_inline_shorter)

function read_config_loop :: "'s add_option \<Rightarrow> string \<Rightarrow> nat \<Rightarrow> 's \<Rightarrow> 's option" where
  "read_config_loop add b line_num s =
     (case buf_parse b (CHR 0x0A) (int OPTION_LINE_SIZE) of
        None \<Rightarrow> None
      | Some (False, _, _) \<Rightarrow> Some s
      | Some (True, line, r) \<Rightarrow>
          (case line_parms line of
             None \<Rightarrow> read_config_loop add r (line_num + 1) s
           | Some p \<Rightarrow>
               (case check_inline_file (bypass_doubledash (hd p) # tl p) r of
                  None \<Rightarrow> None
                | Some (p1, lines_inline, r1) \<Rightarrow>
                    read_config_loop add r1 (line_num + 1 + lines_inline) (add p1 lines_inline (line_num + 1) s))))"
  by pat_completeness auto

termination read_config_loop
  by (relation "measure (\<lambda>(a, b, n, s). length b)") (auto dest!: buf_parse_shorter check_inline_shorter)

declare read_config_loop.simps [simp del]

definition read_config_string :: "'s add_option \<Rightarrow> string \<Rightarrow> 's \<Rightarrow> 's option" where
  "read_config_string add config s = read_config_loop add config 0 s"

subsection \<open>Pushed options\<close>

datatype pull_filter_type = PUF_TYPE_ACCEPT | PUF_TYPE_IGNORE | PUF_TYPE_REJECT

record pull_filter =
  pf_type :: pull_filter_type
  pf_pattern :: string

text \<open>Whether to go on, and the line, which is emptied when it is not to be applied.\<close>

fun apply_pull_filter :: "pull_filter list \<Rightarrow> string \<Rightarrow> bool \<times> string" where
  "apply_pull_filter [] line = (True, line)"
| "apply_pull_filter (f # fs) line =
     (if starts_with line (pf_pattern f)
      then (case pf_type f of
              PUF_TYPE_ACCEPT \<Rightarrow> (True, line)
            | PUF_TYPE_IGNORE \<Rightarrow> (True, [])
            | PUF_TYPE_REJECT \<Rightarrow> (False, []))
      else apply_pull_filter fs line)"

function apply_push_options ::
    "pull_filter list \<Rightarrow> (string list \<Rightarrow> 's \<Rightarrow> 's) \<Rightarrow> string \<Rightarrow> 's \<Rightarrow> (bool \<times> 's) option" where
  "apply_push_options fs add b s =
     (case buf_parse b CHR '','' (int OPTION_PARM_SIZE) of
        None \<Rightarrow> None
      | Some (False, _, _) \<Rightarrow> Some (True, s)
      | Some (True, line, r) \<Rightarrow>
          (case apply_pull_filter fs line of
             (False, _) \<Rightarrow> Some (False, s)
           | (True, line1) \<Rightarrow>
               apply_push_options fs add r (case line_parms line1 of None \<Rightarrow> s | Some p \<Rightarrow> add p s)))"
  by pat_completeness auto

termination apply_push_options
  by (relation "measure (\<lambda>(f, a, b, s). length b)") (auto dest!: buf_parse_shorter)

declare apply_push_options.simps [simp del]

subsection \<open>The parser stays inside its arrays\<close>

definition parm_ok :: "string \<Rightarrow> bool" where
  "parm_ok s = (length s \<le> OPTION_PARM_SIZE \<and> CHR 0x00 \<notin> set s)"

definition parser_ok :: "line_parser \<Rightarrow> bool" where
  "parser_ok lp = (parm_ok (lp_parm lp) \<and> list_all parm_ok (lp_p lp))"

lemma store_char_ok:
  assumes "parser_ok lp" "length (lp_p lp) \<le> n"
  shows "store_char n out lp = Next lp1 \<Longrightarrow> parser_ok lp1 \<and> length (lp_p lp1) < n"
    "store_char n out lp = Stop lp1 \<Longrightarrow> parser_ok lp1 \<and> length (lp_p lp1) \<le> n"
  using assms by (auto simp: store_char_def parser_ok_def parm_ok_def Let_def split: if_splits)

lemma parse_char_ok:
  assumes "parser_ok lp" "length (lp_p lp) < n"
  shows "parse_char n c lp = Next lp1 \<Longrightarrow> parser_ok lp1 \<and> length (lp_p lp1) < n"
    "parse_char n c lp = Stop lp1 \<Longrightarrow> parser_ok lp1 \<and> length (lp_p lp1) \<le> n"
proof -
  have f: "parser_ok ((finish_parm (lp\<lparr>lp_state := st\<rparr>))\<lparr>lp_backslash := b\<rparr>)"
    "length (lp_p ((finish_parm (lp\<lparr>lp_state := st\<rparr>))\<lparr>lp_backslash := b\<rparr>)) \<le> n" for st b
    using assms by (auto simp: finish_parm_def parser_ok_def parm_ok_def)
  have g: "parser_ok (lp\<lparr>lp_backslash := b\<rparr>)" "length (lp_p (lp\<lparr>lp_backslash := b\<rparr>)) \<le> n" for b
    using assms by (auto simp: parser_ok_def)
  show "parse_char n c lp = Next lp1 \<Longrightarrow> parser_ok lp1 \<and> length (lp_p lp1) < n"
    by (auto simp: parse_char_def Let_def split: if_splits option.splits prod.splits
        dest: store_char_ok(1) [OF f] store_char_ok(1) [OF g])
  show "parse_char n c lp = Stop lp1 \<Longrightarrow> parser_ok lp1 \<and> length (lp_p lp1) \<le> n"
    using assms by (auto simp: parse_char_def Let_def split: if_splits option.splits prod.splits
        dest: store_char_ok(2) [OF f] store_char_ok(2) [OF g])
qed

lemma parse_chars_ok:
  "parser_ok lp \<Longrightarrow> length (lp_p lp) < n \<Longrightarrow> parse_chars n cs lp = Inr lp1 \<Longrightarrow> parser_ok lp1 \<and> length (lp_p lp1) \<le> n"
proof (induction cs arbitrary: lp)
  case (Cons c cs)
  show ?case
  proof (cases "parse_char n c lp")
    case (Next lp2)
    then show ?thesis
      using Cons parse_char_ok(1) [OF Cons.prems(1,2) Next] by (auto split: if_splits)
  next
    case (Stop lp2)
    then show ?thesis using Cons.prems(3) parse_char_ok(2) [OF Cons.prems(1,2) Stop] by simp
  qed (use Cons.prems(3) in simp)
qed simp

text \<open>
  C39: \<open>parse_line\<close> never writes outside its arrays: whatever the line, at most \<open>n\<close> parameters come out
  of it, each a C string that fits the array of 256 characters it was collected in.
\<close>

theorem parse_line_stays_inside:
  assumes "0 < n" "parse_line line n = Inr p"
  shows "length p \<le> n \<and> (\<forall>s \<in> set p. length s \<le> OPTION_PARM_SIZE \<and> CHR 0x00 \<notin> set s)"
proof -
  obtain lp where lp: "parse_chars n (line @ [CHR 0x00]) parse_start = Inr lp" "parse_end lp = Inr p"
    using assms(2) by (auto simp: parse_line_def split: sum.splits)
  have "parser_ok parse_start" "length (lp_p parse_start) < n" using assms(1) by (simp_all add: parse_start_def parser_ok_def parm_ok_def)
  from parse_chars_ok [OF this lp(1)] have "parser_ok lp \<and> length (lp_p lp) \<le> n" .
  moreover have "p = lp_p lp" using lp(2) by (auto simp: parse_end_def split: parse_state.splits)
  ultimately show ?thesis by (auto simp: parser_ok_def parm_ok_def list_all_iff)
qed

theorem parse_line_stays_inside_witness:
  "\<exists>p. parse_line (''push '' @ CHR 0x22 # ''route 10.8.0.0'' @ CHR 0x22 # '' # a comment'') 2 = Inr p \<and> length p \<le> 2
     \<and> (\<forall>s \<in> set p. CHR 0x00 \<notin> set s)"
proof -
  have "parse_line (''push '' @ CHR 0x22 # ''route 10.8.0.0'' @ CHR 0x22 # '' # a comment'') 2 = Inr [''push'', ''route 10.8.0.0'']"
    by code_simp
  from parse_line_stays_inside [OF _ this] this show ?thesis by auto
qed

subsection \<open>Lines that are read back\<close>

definition plain_char :: "char \<Rightarrow> bool" where
  "plain_char c = (\<not> space c \<and> c \<notin> {CHR 0x22, CHR 0x27, CHR 0x5C, CHR '';'', CHR ''#''})"

definition escape :: "char \<Rightarrow> string" where
  "escape c = (if c = CHR 0x5C \<or> c = CHR 0x22 then [CHR 0x5C, c] else [c])"

text \<open>A parameter as the user writes it: as it is where that is possible, or else in quotes.\<close>

definition render_parm :: "string \<Rightarrow> string" where
  "render_parm s = (if s \<noteq> [] \<and> list_all plain_char s then s else CHR 0x22 # concat (map escape s) @ [CHR 0x22])"

fun render_line :: "string list \<Rightarrow> string" where
  "render_line [] = []"
| "render_line [p] = render_parm p"
| "render_line (p # q # ps) = render_parm p @ CHR '' '' # render_line (q # ps)"

definition between :: "string list \<Rightarrow> line_parser" where
  "between p = parse_start\<lparr>lp_p := p\<rparr>"

lemma quoted_chars:
  assumes "length acc + length s \<le> OPTION_PARM_SIZE" "length p < n" "CHR 0x00 \<notin> set s"
  shows "parse_chars n (concat (map escape s) @ r) \<lparr>lp_state = STATE_READING_QUOTED_PARM, lp_backslash = False, lp_parm = acc, lp_p = p\<rparr>
    = parse_chars n r \<lparr>lp_state = STATE_READING_QUOTED_PARM, lp_backslash = False, lp_parm = acc @ s, lp_p = p\<rparr>"
  using assms
proof (induction s arbitrary: acc)
  case (Cons c s)
  have "parse_chars n (escape c @ concat (map escape s) @ r)
        \<lparr>lp_state = STATE_READING_QUOTED_PARM, lp_backslash = False, lp_parm = acc, lp_p = p\<rparr>
     = parse_chars n (concat (map escape s) @ r)
        \<lparr>lp_state = STATE_READING_QUOTED_PARM, lp_backslash = False, lp_parm = acc @ [c], lp_p = p\<rparr>"
    using Cons.prems by (auto simp: escape_def parse_char_def parse_state_step_def finish_parm_def store_char_def Let_def)
  then show ?case using Cons.IH [of "acc @ [c]"] Cons.prems by simp
qed simp

lemma plain_chars:
  assumes "length acc + length s \<le> OPTION_PARM_SIZE" "length p < n" "list_all plain_char s"
  shows "parse_chars n (s @ r) \<lparr>lp_state = STATE_READING_UNQUOTED_PARM, lp_backslash = False, lp_parm = acc, lp_p = p\<rparr>
    = parse_chars n r \<lparr>lp_state = STATE_READING_UNQUOTED_PARM, lp_backslash = False, lp_parm = acc @ s, lp_p = p\<rparr>"
  using assms
proof (induction s arbitrary: acc)
  case (Cons c s)
  have "parse_chars n (c # s @ r) \<lparr>lp_state = STATE_READING_UNQUOTED_PARM, lp_backslash = False, lp_parm = acc, lp_p = p\<rparr>
     = parse_chars n (s @ r) \<lparr>lp_state = STATE_READING_UNQUOTED_PARM, lp_backslash = False, lp_parm = acc @ [c], lp_p = p\<rparr>"
    using Cons.prems
    by (auto simp: parse_char_def parse_state_step_def finish_parm_def store_char_def Let_def plain_char_def space_def)
  then show ?case using Cons.IH [of "acc @ [c]"] Cons.prems by simp
qed simp

lemma render_parm_read:
  assumes s: "parm_ok s" and p: "length p < n" and sep: "sep = CHR '' '' \<or> sep = CHR 0x00"
  shows "parse_chars n (render_parm s @ sep # r) (between p) =
    (if Suc (length p) \<ge> n \<or> sep = CHR 0x00 then Inr (between (p @ [s])) else parse_chars n r (between (p @ [s])))"
proof (cases "s \<noteq> [] \<and> list_all plain_char s")
  case True
  then obtain c s1 where c: "s = c # s1" "plain_char c" "list_all plain_char s1" by (cases s) auto
  have first: "parse_chars n (c # s1 @ sep # r) (between p)
     = parse_chars n (s1 @ sep # r) \<lparr>lp_state = STATE_READING_UNQUOTED_PARM, lp_backslash = False, lp_parm = [c], lp_p = p\<rparr>"
    using c(2) p by (auto simp: between_def parse_start_def parse_char_def parse_state_step_def finish_parm_def store_char_def
        Let_def plain_char_def space_def OPTION_PARM_SIZE_def)
  have "parse_chars n (s1 @ sep # r) \<lparr>lp_state = STATE_READING_UNQUOTED_PARM, lp_backslash = False, lp_parm = [c], lp_p = p\<rparr>
     = parse_chars n (sep # r) \<lparr>lp_state = STATE_READING_UNQUOTED_PARM, lp_backslash = False, lp_parm = [c] @ s1, lp_p = p\<rparr>"
    using s c(1,3) p by (intro plain_chars) (simp_all add: parm_ok_def)
  moreover have "space sep" "sep \<noteq> CHR 0x5C" using sep by (auto simp: space_def c_isspace_def)
  moreover have "render_parm s = c # s1" using True c(1) by (simp add: render_parm_def)
  ultimately show ?thesis
    using first c(1) by (auto simp: parse_char_def parse_state_step_def finish_parm_def store_char_def Let_def
        between_def parse_start_def)
next
  case False
  have body: "parse_chars n (concat (map escape s) @ CHR 0x22 # sep # r)
        \<lparr>lp_state = STATE_READING_QUOTED_PARM, lp_backslash = False, lp_parm = [], lp_p = p\<rparr>
     = parse_chars n (CHR 0x22 # sep # r) \<lparr>lp_state = STATE_READING_QUOTED_PARM, lp_backslash = False, lp_parm = [] @ s, lp_p = p\<rparr>"
    using s p by (intro quoted_chars) (simp_all add: parm_ok_def)
  have open_quote: "parse_chars n (CHR 0x22 # x) (between p)
     = parse_chars n x \<lparr>lp_state = STATE_READING_QUOTED_PARM, lp_backslash = False, lp_parm = [], lp_p = p\<rparr>" for x
    using p by (simp add: parse_char_def parse_state_step_def finish_parm_def store_char_def Let_def
        between_def parse_start_def space_def c_isspace_def)
  have closing: "parse_chars n (CHR 0x22 # x) \<lparr>lp_state = STATE_READING_QUOTED_PARM, lp_backslash = False, lp_parm = s, lp_p = p\<rparr>
     = (if Suc (length p) \<ge> n then Inr (between (p @ [s])) else parse_chars n x (between (p @ [s])))" for x
    by (simp add: parse_char_def parse_state_step_def finish_parm_def store_char_def Let_def between_def parse_start_def)
  have "space sep" "sep \<noteq> CHR 0x5C" using sep by (auto simp: space_def c_isspace_def)
  then have after: "parse_chars n (sep # r) (between q)
     = (if sep = CHR 0x00 then Inr (between q) else parse_chars n r (between q))" if "length q < n" for q
    using that by (simp add: parse_char_def parse_state_step_def finish_parm_def store_char_def Let_def
        between_def parse_start_def)
  have "render_parm s @ sep # r = CHR 0x22 # concat (map escape s) @ CHR 0x22 # sep # r"
    using False by (auto simp: render_parm_def)
  then show ?thesis using open_quote body closing after [of "p @ [s]"] by (auto simp del: parse_chars.simps)
qed

lemma render_line_read:
  assumes "ps \<noteq> []" "list_all parm_ok ps" "length p + length ps \<le> n"
  shows "parse_chars n (render_line ps @ [CHR 0x00]) (between p) = Inr (between (p @ ps))"
  using assms
proof (induction ps arbitrary: p rule: render_line.induct)
  case (2 s)
  then show ?case using render_parm_read [of s p n "CHR 0x00" "[]"] by simp
next
  case (3 s t ps)
  then show ?case using render_parm_read [of s p n "CHR '' ''" "render_line (t # ps) @ [CHR 0x00]"] by simp
qed simp

lemma parse_render_line:
  assumes "ps \<noteq> []" "list_all parm_ok ps" "length ps \<le> n"
  shows "parse_line (render_line ps) n = Inr ps"
proof -
  have "between [] = parse_start" by (simp add: between_def parse_start_def)
  then have "parse_chars n (render_line ps @ [CHR 0x00]) parse_start = Inr (between ps)"
    using render_line_read [OF assms(1,2), of "[]" n] assms(3) by simp
  then show ?thesis by (simp add: parse_line_def parse_end_def between_def parse_start_def)
qed

subsection \<open>Configuration that is read back\<close>

datatype config_item = Plain_Option "string list" | Inline_Block string "string list"

definition inline_text :: "string list \<Rightarrow> string" where
  "inline_text ls = concat (map (\<lambda>l. l @ [CHR 0x0A]) ls)"

fun render_item :: "config_item \<Rightarrow> string" where
  "render_item (Plain_Option ps) = render_line ps @ [CHR 0x0A]"
| "render_item (Inline_Block tag ls) =
     ''<'' @ tag @ ''>'' @ CHR 0x0A # inline_text ls @ ''</'' @ tag @ ''>'' @ [CHR 0x0A]"

text \<open>
  What can be written: lines that fit \<open>OPTION_LINE_SIZE\<close> with their terminator, no newline inside a
  parameter, no single parameter in angle brackets; no line of a block that is one too long to keep
  its newline or that looks like the closing tag.
\<close>

definition line_ok :: "string \<Rightarrow> bool" where
  "line_ok l = (CHR 0x00 \<notin> set l \<and> CHR 0x0A \<notin> set l \<and> length l + 1 < OPTION_LINE_SIZE)"

fun item_ok :: "config_item \<Rightarrow> bool" where
  "item_ok (Plain_Option ps) =
     (ps \<noteq> [] \<and> length ps \<le> MAX_PARMS \<and> list_all (\<lambda>p. parm_ok p \<and> CHR 0x0A \<notin> set p) ps
      \<and> length (render_line ps) < OPTION_LINE_SIZE \<and> inline_tag (bypass_doubledash (hd ps) # tl ps) = None)"
| "item_ok (Inline_Block tag ls) =
     (list_all plain_char tag \<and> length tag + 3 < OPTION_LINE_SIZE
      \<and> list_all (\<lambda>l. line_ok l
            \<and> \<not> starts_with (dropWhile (\<lambda>c. c_isspace (of_char c)) (l @ [CHR 0x0A])) (''</'' @ tag @ ''>'')) ls)"

fun config_effect :: "'s add_option \<Rightarrow> config_item list \<Rightarrow> nat \<Rightarrow> 's \<Rightarrow> 's" where
  "config_effect add [] n s = s"
| "config_effect add (Plain_Option ps # is) n s =
     config_effect add is (n + 1) (add (bypass_doubledash (hd ps) # tl ps) 0 (n + 1) s)"
| "config_effect add (Inline_Block tag ls # is) n s =
     config_effect add is (n + 2 + length ls) (add [tag, inline_text ls] (length ls + 1) (n + 1) s)"

lemma plain_chars_only:
  assumes "list_all plain_char s"
  shows "CHR 0x00 \<notin> set s" "CHR 0x0A \<notin> set s"
proof -
  have "\<not> plain_char (CHR 0x00)" "\<not> plain_char (CHR 0x0A)"
    by (simp_all add: plain_char_def space_def c_isspace_def)
  then show "CHR 0x00 \<notin> set s" "CHR 0x0A \<notin> set s" using assms by (auto simp: list_all_iff)
qed

lemma render_line_chars:
  assumes "list_all parm_ok ps" "list_all (\<lambda>p. CHR 0x0A \<notin> set p) ps"
  shows "CHR 0x00 \<notin> set (render_line ps)" "CHR 0x0A \<notin> set (render_line ps)"
proof -
  have "CHR 0x00 \<notin> set (render_parm p) \<and> CHR 0x0A \<notin> set (render_parm p)"
    if "parm_ok p" "CHR 0x0A \<notin> set p" for p
    using that by (auto simp: render_parm_def parm_ok_def escape_def split: if_splits)
  then have "CHR 0x00 \<notin> set (render_line ps) \<and> CHR 0x0A \<notin> set (render_line ps)"
    using assms by (induction ps rule: render_line.induct) auto
  then show "CHR 0x00 \<notin> set (render_line ps)" "CHR 0x0A \<notin> set (render_line ps)" by simp_all
qed

lemma inline_block_read:
  assumes "list_all (\<lambda>l. line_ok l \<and> \<not> starts_with (dropWhile (\<lambda>c. c_isspace (of_char c)) (l @ [CHR 0x0A])) close_tag) ls"
    and t: "close_tag = ''</'' @ tag @ ''>''" "list_all plain_char tag" "length tag + 3 < OPTION_LINE_SIZE"
  shows "read_inline_file close_tag (inline_text ls @ close_tag @ CHR 0x0A # r) k acc
      = Some (acc @ inline_text ls, k + length ls + 1, r)"
  using assms(1)
proof (induction ls arbitrary: k acc)
  case Nil
  have chars: "CHR 0x00 \<notin> set close_tag" "CHR 0x0A \<notin> set close_tag"
    using t(1) plain_chars_only [OF t(2)] by simp_all
  have "int (length close_tag) < int OPTION_LINE_SIZE" using t by (simp add: OPTION_LINE_SIZE_def)
  from buf_parse_fits(1) [OF chars this]
  have "in_src_get (close_tag @ CHR 0x0A # r)
      = Some (True, if length close_tag + 1 < OPTION_LINE_SIZE then close_tag @ [CHR 0x0A] else close_tag, r)"
    by (simp add: in_src_get_def)
  moreover have "dropWhile (\<lambda>c. c_isspace (of_char c)) (close_tag @ x) = close_tag @ x" for x
    using t(1) by (simp add: c_isspace_def)
  from this [of "[CHR 0x0A]"] this [of "[]"]
  have "starts_with (dropWhile (\<lambda>c. c_isspace (of_char c))
      (if length close_tag + 1 < OPTION_LINE_SIZE then close_tag @ [CHR 0x0A] else close_tag)) close_tag"
    by (simp add: starts_with_def)
  ultimately show ?case
    by (subst read_inline_file.simps) (simp add: inline_text_def del: dropWhile_append)
next
  case (Cons l ls)
  have l: "CHR 0x00 \<notin> set l" "CHR 0x0A \<notin> set l" "int (length l) < int OPTION_LINE_SIZE" "length l + 1 < OPTION_LINE_SIZE"
    using Cons.prems by (auto simp: line_ok_def)
  have "in_src_get (l @ CHR 0x0A # inline_text ls @ close_tag @ CHR 0x0A # r) = Some (True, l @ [CHR 0x0A], inline_text ls @ close_tag @ CHR 0x0A # r)"
    using buf_parse_fits(1) [OF l(1-3)] l(4) by (simp add: in_src_get_def)
  moreover have "inline_text (l # ls) = l @ CHR 0x0A # inline_text ls" by (simp add: inline_text_def)
  ultimately show ?case
    using Cons.IH [of "k + 1" "acc @ l @ [CHR 0x0A]"] Cons.prems
    by (subst read_inline_file.simps) simp
qed

text \<open>
  C38: A configuration is read back as it was written. Options whose parameters are written plainly or
  in quotes with backslashes before quotes and backslashes, and inline blocks, are given to
  \<open>add_option\<close> one by one, in order, with exactly their parameters, the text of the block, and the
  numbers of their lines. A written line has fewer than 256 characters and at most 16 parameters, none
  with a line end or NUL; an option is not written as an inline tag, and no line of a block closes it.
\<close>

theorem config_text_roundtrip:
  assumes "list_all item_ok items"
  shows "read_config_string add (concat (map render_item items)) s = Some (config_effect add items 0 s)"
proof -
  have "read_config_loop add (concat (map render_item items)) n s = Some (config_effect add items n s)" for n
    using assms
  proof (induction items arbitrary: n s)
    case Nil
    then show ?case by (subst read_config_loop.simps) (simp add: buf_parse_nil OPTION_LINE_SIZE_def)
  next
    case (Cons x items)
    let ?r = "concat (map render_item items)"
    show ?case
    proof (cases x)
      case (Plain_Option ps)
      then have ok: "ps \<noteq> []" "list_all parm_ok ps" "list_all (\<lambda>p. CHR 0x0A \<notin> set p) ps" "length ps \<le> MAX_PARMS"
        "int (length (render_line ps)) < int OPTION_LINE_SIZE" "inline_tag (bypass_doubledash (hd ps) # tl ps) = None"
        using Cons.prems by (auto simp: list_all_iff)
      have "line_parms (render_line ps) = Some ps"
        using parse_render_line [OF ok(1,2,4)] ok(1) by (simp add: line_parms_def)
      then show ?thesis
        using Cons buf_parse_fits(1) [OF render_line_chars [OF ok(2,3)] ok(5), of ?r] ok(6) Plain_Option
        by (subst read_config_loop.simps) (simp add: check_inline_file_def)
    next
      case (Inline_Block tag ls)
      then have t: "list_all plain_char tag" "length tag + 3 < OPTION_LINE_SIZE"
        "list_all (\<lambda>l. line_ok l \<and> \<not> starts_with (dropWhile (\<lambda>c. c_isspace (of_char c)) (l @ [CHR 0x0A])) (''</'' @ tag @ ''>'')) ls"
        using Cons.prems by auto
      let ?h = "''<'' @ tag @ ''>''"
      have plain: "list_all plain_char ?h" using t(1) by (simp add: plain_char_def space_def c_isspace_def)
      have hp: "parm_ok ?h" "CHR 0x00 \<notin> set ?h" "CHR 0x0A \<notin> set ?h" "int (length ?h) < int OPTION_LINE_SIZE"
        using t(2) plain_chars_only [OF t(1)] by (simp_all add: parm_ok_def OPTION_PARM_SIZE_def OPTION_LINE_SIZE_def)
      have rl: "render_line [?h] = ?h" using plain by (simp add: render_parm_def)
      have "line_parms ?h = Some [?h]"
        using parse_render_line [of "[?h]" MAX_PARMS] hp(1) unfolding rl by (simp add: line_parms_def MAX_PARMS_def)
      moreover have "bypass_doubledash ?h = ?h" by (simp add: bypass_doubledash_def)
      moreover have "inline_tag [?h] = Some tag" by (simp add: inline_tag_def butlast_append)
      moreover have "read_inline_file (''</'' @ tag @ ''>'') (inline_text ls @ (''</'' @ tag @ ''>'') @ CHR 0x0A # ?r) 0 []
          = Some (inline_text ls, length ls + 1, ?r)"
        using inline_block_read [OF t(3) refl t(1,2)] by simp
      moreover have "buf_parse (?h @ CHR 0x0A # inline_text ls @ (''</'' @ tag @ ''>'') @ CHR 0x0A # ?r) (CHR 0x0A) (int OPTION_LINE_SIZE)
          = Some (True, ?h, inline_text ls @ (''</'' @ tag @ ''>'') @ CHR 0x0A # ?r)"
        by (rule buf_parse_fits(1) [OF hp(2-4)])
      moreover have "concat (map render_item (x # items)) = ?h @ CHR 0x0A # inline_text ls @ (''</'' @ tag @ ''>'') @ CHR 0x0A # ?r"
        by (simp add: Inline_Block)
      ultimately show ?thesis
        using Cons.IH [of "n + 2 + length ls" "add [tag, inline_text ls] (length ls + 1) (n + 1) s"] Cons.prems Inline_Block
        by (subst read_config_loop.simps) (simp add: check_inline_file_def)
    qed
  qed
  then show ?thesis by (simp add: read_config_string_def)
qed

definition demo_config :: "config_item list" where
  "demo_config = [Plain_Option [''remote'', ''vpn.example.org'', ''1194''], Inline_Block ''key'' [''abc'', ''def''],
     Plain_Option [''auth-user-pass'', ''C:'' @ CHR 0x5C # ''my file''], Plain_Option [''--pull'']]"

theorem config_text_roundtrip_witness:
  "read_config_string (\<lambda>p k n s. s @ [(p, k, n)]) (concat (map render_item demo_config)) [] =
     Some [([''remote'', ''vpn.example.org'', ''1194''], 0, 1), ([''key'', inline_text [''abc'', ''def'']], 3, 2),
       ([''auth-user-pass'', ''C:'' @ CHR 0x5C # ''my file''], 0, 6), ([''pull''], 0, 7)]"
proof -
  have "list_all item_ok demo_config" by code_simp
  then show ?thesis unfolding config_text_roundtrip [OF \<open>list_all item_ok demo_config\<close>]
    by (simp add: demo_config_def bypass_doubledash_def)
qed

subsection \<open>Pushed options that are applied\<close>

fun push_effect :: "pull_filter list \<Rightarrow> (string list \<Rightarrow> 's \<Rightarrow> 's) \<Rightarrow> string list \<Rightarrow> 's \<Rightarrow> bool \<times> 's" where
  "push_effect fs add [] s = (True, s)"
| "push_effect fs add (x # xs) s =
     (case apply_pull_filter fs x of
        (False, _) \<Rightarrow> (False, s)
      | (True, line) \<Rightarrow> push_effect fs add xs (case line_parms line of None \<Rightarrow> s | Some p \<Rightarrow> add p s))"

definition push_option_ok :: "string \<Rightarrow> bool" where
  "push_option_ok x = (CHR 0x00 \<notin> set x \<and> CHR '','' \<notin> set x \<and> length x < OPTION_PARM_SIZE)"

lemma apply_push_options_nil: "apply_push_options fs add [] s = Some (True, s)"
  by (subst apply_push_options.simps) (simp add: buf_parse_nil OPTION_PARM_SIZE_def)

lemma push_options_applied:
  assumes "list_all push_option_ok (x # xs)"
  shows "apply_push_options fs add (x @ concat (map ((#) (CHR '','')) xs) @ [CHR 0x00]) s = Some (push_effect fs add (x # xs) s)"
  using assms
proof (induction xs arbitrary: x s)
  case Nil
  have "buf_parse (x @ [CHR 0x00]) CHR '','' (int OPTION_PARM_SIZE) = Some (True, x, [])"
    using Nil by (intro buf_parse_fits(2)) (simp_all add: push_option_ok_def)
  then show ?case
    by (subst apply_push_options.simps) (simp add: apply_push_options_nil split: prod.split bool.split)
next
  case (Cons y ys)
  have "buf_parse (x @ CHR '','' # y @ concat (map ((#) (CHR '','')) ys) @ [CHR 0x00]) CHR '','' (int OPTION_PARM_SIZE)
      = Some (True, x, y @ concat (map ((#) (CHR '','')) ys) @ [CHR 0x00])"
    using Cons.prems by (intro buf_parse_fits(1)) (simp_all add: push_option_ok_def)
  then show ?case
    using Cons.IH Cons.prems by (subst apply_push_options.simps) (simp split: prod.split bool.split)
qed

subsection \<open>What the pull filter misses\<close>

text \<open>
  The filter compares the text of the line, the parser skips spaces first: an option with a space
  before it passes any filter against it and is applied all the same.
\<close>

lemma leading_space_ignored: "line_parms (CHR '' '' # line) = line_parms line"
  by (simp add: line_parms_def parse_line_def parse_start_def parse_char_def parse_state_step_def space_def c_isspace_def
      finish_parm_def store_char_def MAX_PARMS_def)

lemma leading_space_passes_filter:
  assumes "\<forall>f \<in> set fs. pf_pattern f \<noteq> [] \<and> hd (pf_pattern f) \<noteq> CHR '' ''"
  shows "apply_pull_filter fs (CHR '' '' # line) = (True, CHR '' '' # line)"
  using assms
proof (induction fs)
  case (Cons f fs)
  then show ?case by (cases "pf_pattern f") (auto simp: starts_with_def)
qed simp

end
