(* ===== verification/Push.thy ===== *)
theory Push
  imports Option_Line
begin

text \<open>
  \<^verbatim>\<open>push.c\<close>: the options a server pushes to its clients, cut into messages of the control channel, and
  what the client does with them, from \<open>check_incoming_control_channel\<close> of \<^verbatim>\<open>forward.c\<close> to the options
  that are applied.

  A message is sent with its terminating NUL and received as a buffer with it. Whether sending
  succeeded is the argument \<open>sent_ok\<close>; what an option does besides \<open>push-continuation\<close> is the argument
  \<open>other\<close>, the hash function of the digest of the options the argument \<open>hash\<close>.

  The lemmas: a list of options arrives at the client as it was, however it is cut into messages;
  the check of the characters of a message does not look behind its first NUL.
\<close>

definition PUSH_BUNDLE_SIZE :: nat where "PUSH_BUNDLE_SIZE = 1024"
definition push_reply_cmd :: string where "push_reply_cmd = ''PUSH_REPLY''"

datatype push_msg = PUSH_MSG_ERROR | PUSH_MSG_REQUEST | PUSH_MSG_REPLY | PUSH_MSG_REQUEST_DEFERRED
  | PUSH_MSG_AUTH_FAILURE | PUSH_MSG_CONTINUATION | PUSH_MSG_ALREADY_REPLIED

subsection \<open>The list of the server\<close>

record push_entry =
  pu_enable :: bool
  pu_option :: string

definition push_option_ex :: "push_entry list \<Rightarrow> string \<Rightarrow> bool \<Rightarrow> push_entry list" where
  "push_option_ex l opt enable =
     (if \<not> string_class opt CC_ANY CC_COMMA then l else l @ [\<lparr>pu_enable = True, pu_option = opt\<rparr>])"

definition push_option_fmt :: "push_entry list \<Rightarrow> string \<Rightarrow> bool \<times> push_entry list" where
  "push_option_fmt l text = (if length text > 255 then (False, l) else (True, push_option_ex l text True))"

definition clone_push_list :: "push_entry list \<Rightarrow> push_entry list" where
  "clone_push_list l = fold (\<lambda>e l1. push_option_ex l1 (pu_option e) True) l []"

record push_options =
  po_push_list :: "push_entry list"
  po_ifconfig_ipv4_blocked :: bool
  po_ifconfig_ipv6_blocked :: bool

definition push_remove_option :: "push_options \<Rightarrow> string \<Rightarrow> push_options" where
  "push_remove_option o1 p =
     (if p = ''ifconfig'' then o1\<lparr>po_ifconfig_ipv4_blocked := True\<rparr>
      else if p = ''ifconfig-ipv6'' then o1\<lparr>po_ifconfig_ipv6_blocked := True\<rparr>
      else o1\<lparr>po_push_list := map (\<lambda>e. if pu_enable e \<and> starts_with (pu_option e) p then e\<lparr>pu_enable := False\<rparr> else e)
                 (po_push_list o1)\<rparr>)"

subsection \<open>Sending\<close>

text \<open>The buffer, the messages that were sent and the two flags of \<open>send_push_reply\<close>.\<close>

record push_sender =
  ps_buf :: string
  ps_sent :: "string list"
  ps_push_sent :: bool
  ps_multi_push :: bool

definition push_printf :: "string \<Rightarrow> push_sender \<Rightarrow> push_sender" where
  "push_printf s st = st\<lparr>ps_buf := snd (buf_printf PUSH_BUNDLE_SIZE (ps_buf st) s)\<rparr>"

definition send_control_channel_string :: "(string \<Rightarrow> bool) \<Rightarrow> push_sender \<Rightarrow> bool \<times> push_sender" where
  "send_control_channel_string sent_ok st =
     (if sent_ok (ps_buf st) then (True, st\<lparr>ps_sent := ps_sent st @ [ps_buf st]\<rparr>) else (False, st))"

text \<open>When the option would not fit, what is there is sent with the sign that more follows.\<close>

definition push_make_room :: "(string \<Rightarrow> bool) \<Rightarrow> nat \<Rightarrow> nat \<Rightarrow> push_sender \<Rightarrow> bool \<times> push_sender" where
  "push_make_room sent_ok safe_cap l st =
     (if length (ps_buf st) + l \<ge> safe_cap
      then (case send_control_channel_string sent_ok (push_printf '',push-continuation 2'' st) of
              (False, st1) \<Rightarrow> (False, st1)
            | (True, st1) \<Rightarrow>
                (True, push_printf push_reply_cmd (st1\<lparr>ps_push_sent := True, ps_multi_push := True, ps_buf := []\<rparr>)))
      else (True, st))"

fun send_push_options :: "(string \<Rightarrow> bool) \<Rightarrow> nat \<Rightarrow> push_entry list \<Rightarrow> push_sender \<Rightarrow> bool \<times> push_sender" where
  "send_push_options sent_ok safe_cap [] st = (True, st)"
| "send_push_options sent_ok safe_cap (e # es) st =
     (if pu_enable e
      then (let l = length (pu_option e)
            in case push_make_room sent_ok safe_cap l st of
                 (False, st1) \<Rightarrow> (False, st1)
               | (True, st1) \<Rightarrow>
                   if length (ps_buf st1) + l \<ge> safe_cap then (False, st1)
                   else send_push_options sent_ok safe_cap es (push_printf (CHR '','' # pu_option e) st1))
      else send_push_options sent_ok safe_cap es st)"

definition push_safe_cap :: nat where "push_safe_cap = PUSH_BUNDLE_SIZE - 84"

text \<open>The last message, with the options and, when it is not the only one, the sign that it is the last.\<close>

definition send_push_last :: "(string \<Rightarrow> bool) \<Rightarrow> push_sender \<Rightarrow> bool \<times> push_sender" where
  "send_push_last sent_ok st0 =
     (let st1 = (if ps_multi_push st0 then push_printf '',push-continuation 1'' st0 else st0)
      in case (if length (ps_buf st1) > length push_reply_cmd
               then (case send_control_channel_string sent_ok st1 of
                       (False, st2) \<Rightarrow> (False, st2) | (True, st2) \<Rightarrow> (True, st2\<lparr>ps_push_sent := True\<rparr>))
               else (True, st1)) of
           (False, st2) \<Rightarrow> (False, st2)
         | (True, st2) \<Rightarrow>
             if \<not> ps_push_sent st2
             then send_control_channel_string sent_ok (push_printf push_reply_cmd (st2\<lparr>ps_buf := []\<rparr>))
             else (True, st2))"

definition push_sender_init :: push_sender where
  "push_sender_init = \<lparr>ps_buf = [], ps_sent = [], ps_push_sent = False, ps_multi_push = False\<rparr>"

definition send_push_reply ::
    "(string \<Rightarrow> bool) \<Rightarrow> push_entry list \<Rightarrow> push_entry list \<Rightarrow> bool \<times> string list" where
  "send_push_reply sent_ok push_list per_client_push_list =
     (case send_push_options sent_ok push_safe_cap push_list (push_printf push_reply_cmd push_sender_init) of
        (False, st) \<Rightarrow> (False, ps_sent st)
      | (True, st) \<Rightarrow>
          (case send_push_options sent_ok push_safe_cap per_client_push_list st of
             (False, st1) \<Rightarrow> (False, ps_sent st1)
           | (True, st1) \<Rightarrow> map_prod id ps_sent (send_push_last sent_ok st1)))"

text \<open>The message that authentication failed, unless the exit of the client is already scheduled.\<close>

definition send_auth_failed :: "bool \<Rightarrow> string option \<Rightarrow> string list" where
  "send_auth_failed exit_scheduled client_reason =
     (if exit_scheduled then []
      else (let len = (case client_reason of None \<Rightarrow> 0 | Some r \<Rightarrow> length r + 1) + 12;
                capacity = min len PUSH_BUNDLE_SIZE;
                b = snd (buf_printf capacity [] ''AUTH_FAILED'')
            in [case client_reason of None \<Rightarrow> b | Some r \<Rightarrow> snd (buf_printf capacity b (CHR '','' # r))]))"

text \<open>
  What a server answers to a push request; \<open>auth\<close> is whether the authentication failed or succeeded,
  \<open>per_client\<close> what \<open>prepare_push_reply\<close> gives, \<open>None\<close> where it fails.
\<close>

datatype auth_outcome = Auth_Failed_Outcome bool "string option" | Auth_Succeeded_Outcome bool | Auth_Open_Outcome

definition process_incoming_push_request ::
    "bool \<Rightarrow> auth_outcome \<Rightarrow> time_t \<Rightarrow> (string \<Rightarrow> bool) \<Rightarrow> push_entry list \<Rightarrow> push_entry list option \<Rightarrow> time_t
       \<Rightarrow> push_msg \<times> string list \<times> time_t" where
  "process_incoming_push_request pull auth now sent_ok push_list per_client expiry =
     (if pull then (PUSH_MSG_ERROR, [], expiry)
      else case auth of
             Auth_Failed_Outcome exit_scheduled reason \<Rightarrow>
               (PUSH_MSG_AUTH_FAILURE, send_auth_failed exit_scheduled reason, expiry)
           | Auth_Succeeded_Outcome connect_done \<Rightarrow>
               if \<not> connect_done then (PUSH_MSG_REQUEST_DEFERRED, [], expiry)
               else if expiry > now then (PUSH_MSG_ALREADY_REPLIED, [], expiry)
               else (case per_client of
                       None \<Rightarrow> (PUSH_MSG_ERROR, [], expiry)
                     | Some l \<Rightarrow>
                         (case send_push_reply sent_ok push_list l of
                            (False, msgs) \<Rightarrow> (PUSH_MSG_ERROR, msgs, expiry)
                          | (True, msgs) \<Rightarrow> (PUSH_MSG_REQUEST, msgs, now + 30)))
           | Auth_Open_Outcome \<Rightarrow> (PUSH_MSG_REQUEST_DEFERRED, [], expiry))"

subsection \<open>Receiving\<close>

datatype control_action = Receive_Auth_Failed | Incoming_Push_Message | Pushed_Restart | Pushed_Halt
  | Pushed_Info_Pre | Pushed_Info | Receive_CR_Response | Receive_Auth_Pending | Unknown_Control_Message

definition control_action_of :: "string \<Rightarrow> control_action" where
  "control_action_of b =
     (if text_match_head_str b ''AUTH_FAILED'' then Receive_Auth_Failed
      else if text_match_head_str b ''PUSH_'' then Incoming_Push_Message
      else if text_match_head_str b ''RESTART'' then Pushed_Restart
      else if text_match_head_str b ''HALT'' then Pushed_Halt
      else if text_match_head_str b ''INFO_PRE'' then Pushed_Info_Pre
      else if text_match_head_str b ''INFO'' then Pushed_Info
      else if text_match_head_str b ''CR_RESPONSE'' then Receive_CR_Response
      else if text_match_head_str b ''AUTH_PENDING'' then Receive_Auth_Pending
      else Unknown_Control_Message)"

text \<open>The content that is handed on, and to which handler; the buffer has just the room of the payload.\<close>

definition check_incoming_control_channel :: "string \<Rightarrow> control_action \<times> string" where
  "check_incoming_control_channel payload =
     (let b = string_mod_buf (buf_null_terminate (length payload) payload) CC_PRINT (CC_CR OR CC_NEWLINE) (CHR 0x00)
      in (control_action_of b, b))"

text \<open>Of the client: the options, and the text the digest was given so far, while it is open.\<close>

record ('a, 'd) pull_state =
  pl_push_continuation :: int
  pl_options :: 'a
  pl_digest_state :: "string option"
  pl_digest :: 'd

fun digits_value :: "int \<Rightarrow> string \<Rightarrow> int" where
  "digits_value n [] = n"
| "digits_value n (c # cs) =
     (if c_isdigit (of_char c) then digits_value (10 * n + int (of_char c) - 48) cs else n)"

definition c_atoi :: "string \<Rightarrow> int" where
  "c_atoi s =
     (case dropWhile (\<lambda>c. c_isspace (of_char c)) s of
        [] \<Rightarrow> 0
      | c # r \<Rightarrow> if c = CHR ''-'' then - digits_value 0 r else if c = CHR ''+'' then digits_value 0 r
                else digits_value 0 (c # r))"

text \<open>\<open>add_option\<close>, with its branch for \<open>push-continuation\<close>.\<close>

definition add_pushed_option ::
    "(string list \<Rightarrow> 'a \<Rightarrow> 'a) \<Rightarrow> string list \<Rightarrow> ('a, 'd) pull_state \<Rightarrow> ('a, 'd) pull_state" where
  "add_pushed_option other p st =
     (case p of
        [p0, p1] \<Rightarrow> if p0 = ''push-continuation'' then st\<lparr>pl_push_continuation := c_atoi p1\<rparr>
                   else st\<lparr>pl_options := other p (pl_options st)\<rparr>
      | _ \<Rightarrow> st\<lparr>pl_options := other p (pl_options st)\<rparr>)"

function push_update_digest :: "bool \<Rightarrow> string \<Rightarrow> string \<Rightarrow> string option" where
  "push_update_digest tun_mtu_defined b acc =
     (case buf_parse b CHR '','' (int OPTION_PARM_SIZE) of
        None \<Rightarrow> None
      | Some (False, _, _) \<Rightarrow> Some acc
      | Some (True, line, r) \<Rightarrow>
          push_update_digest tun_mtu_defined r
            (if starts_with line ''peer-id '' then acc
             else if starts_with line ''cipher '' \<and> \<not> tun_mtu_defined then acc
             else acc @ line @ [CHR 0x00]))"
  by pat_completeness auto

termination push_update_digest
  by (relation "measure (\<lambda>(t, b, a). length b)") (auto dest!: buf_parse_shorter)

declare push_update_digest.simps [simp del]

definition process_incoming_push_reply ::
    "pull_filter list \<Rightarrow> (string list \<Rightarrow> 'a \<Rightarrow> 'a) \<Rightarrow> (string \<Rightarrow> 'd) \<Rightarrow> bool \<Rightarrow> string \<Rightarrow> ('a, 'd) pull_state
       \<Rightarrow> (push_msg \<times> ('a, 'd) pull_state) option" where
  "process_incoming_push_reply fs other hash tun_mtu_defined b st =
     (case b of
        [] \<Rightarrow> Some (PUSH_MSG_ERROR, st)
      | ch # r \<Rightarrow>
          if ch = CHR '',''
          then (let acc = (case pl_digest_state st of None \<Rightarrow> [] | Some x \<Rightarrow> x);
                    st0 = st\<lparr>pl_digest_state := Some acc\<rparr>
                in case apply_push_options fs (add_pushed_option other) r st0 of
                     None \<Rightarrow> None
                   | Some (False, st1) \<Rightarrow> Some (PUSH_MSG_ERROR, st1)
                   | Some (True, st1) \<Rightarrow>
                       (case push_update_digest tun_mtu_defined r acc of
                          None \<Rightarrow> None
                        | Some acc1 \<Rightarrow>
                            Some (if pl_push_continuation st1 = 0 \<or> pl_push_continuation st1 = 1
                                  then (PUSH_MSG_REPLY, st1\<lparr>pl_digest := hash acc1, pl_digest_state := None\<rparr>)
                                  else (if pl_push_continuation st1 = 2 then PUSH_MSG_CONTINUATION else PUSH_MSG_ERROR,
                                        st1\<lparr>pl_digest_state := Some acc1\<rparr>))))
          else Some (if ch = CHR 0x00 then PUSH_MSG_REPLY else PUSH_MSG_ERROR, st))"

text \<open>
  \<open>process_incoming_push_msg\<close> of a client, where \<open>pull\<close> is set and a push request is an error.
\<close>

definition process_incoming_push_msg ::
    "pull_filter list \<Rightarrow> (string list \<Rightarrow> 'a \<Rightarrow> 'a) \<Rightarrow> (string \<Rightarrow> 'd) \<Rightarrow> bool \<Rightarrow> string \<Rightarrow> ('a, 'd) pull_state
       \<Rightarrow> (push_msg \<times> ('a, 'd) pull_state) option" where
  "process_incoming_push_msg fs other hash tun_mtu_defined b st =
     (if fst (text_compare_advance b ''PUSH_REQUEST'') then Some (PUSH_MSG_ERROR, st)
      else (case text_compare_advance b push_reply_cmd of
              (True, r) \<Rightarrow> process_incoming_push_reply fs other hash tun_mtu_defined r st
            | (False, _) \<Rightarrow> Some (PUSH_MSG_ERROR, st)))"

text \<open>The messages of the control channel, one by one; those that are no push messages are not handled here.\<close>

fun receive_push ::
    "pull_filter list \<Rightarrow> (string list \<Rightarrow> 'a \<Rightarrow> 'a) \<Rightarrow> (string \<Rightarrow> 'd) \<Rightarrow> bool \<Rightarrow> string list \<Rightarrow> ('a, 'd) pull_state
       \<Rightarrow> (push_msg list \<times> ('a, 'd) pull_state) option" where
  "receive_push fs other hash tun_mtu_defined [] st = Some ([], st)"
| "receive_push fs other hash tun_mtu_defined (m # ms) st =
     (case check_incoming_control_channel m of
        (Incoming_Push_Message, b) \<Rightarrow>
          (case process_incoming_push_msg fs other hash tun_mtu_defined b st of
             None \<Rightarrow> None
           | Some (status, st1) \<Rightarrow>
               map_option (\<lambda>(ss, st2). (status # ss, st2)) (receive_push fs other hash tun_mtu_defined ms st1))
      | _ \<Rightarrow> receive_push fs other hash tun_mtu_defined ms st)"

subsection \<open>The characters of a message\<close>

abbreviation message_char :: "char \<Rightarrow> bool" where
  "message_char c \<equiv> char_inc_exc c CC_PRINT (CC_CR OR CC_NEWLINE)"

lemma message_char_iff: "message_char c \<longleftrightarrow> 32 \<le> (of_char c :: nat) \<and> (of_char c :: nat) \<noteq> 127"
  by (auto simp: char_inc_exc_def char_class_def cc_flags bit_iff_and_push_bit_not_eq_0 [symmetric])

lemma sanitize_clean:
  assumes "list_all message_char s"
  shows "check_incoming_control_channel (s @ CHR 0x00 # t @ [CHR 0x00])
      = (control_action_of (s @ CHR 0x00 # t @ [CHR 0x00]), s @ CHR 0x00 # t @ [CHR 0x00])"
    "check_incoming_control_channel (s @ [CHR 0x00]) = (control_action_of (s @ [CHR 0x00]), s @ [CHR 0x00])"
proof -
  have nz: "c \<noteq> CHR 0x00" if "c \<in> set s" for c
  proof
    assume "c = CHR 0x00"
    then have "message_char (CHR 0x00)" using assms that by (auto simp: list_all_iff)
    then show False by (simp add: message_char_iff)
  qed
  have bs: "BSTR (s @ CHR 0x00 # x) = s" for x
    unfolding BSTR_def using nz by (subst takeWhile_append2) auto
  have "map (\<lambda>c. if message_char c then c else CHR 0x00) s = s"
    using assms by (auto simp: list_all_iff intro: map_idI)
  then have m: "snd (string_mod s CC_PRINT (CC_CR OR CC_NEWLINE) (CHR 0x00)) = s"
    using nz by (simp add: string_mod_def filter_id_conv)
  have "string_mod_buf (s @ CHR 0x00 # x) CC_PRINT (CC_CR OR CC_NEWLINE) (CHR 0x00) = s @ CHR 0x00 # x" for x
    by (simp add: string_mod_buf_def bs m Let_def)
  then show "check_incoming_control_channel (s @ CHR 0x00 # t @ [CHR 0x00])
      = (control_action_of (s @ CHR 0x00 # t @ [CHR 0x00]), s @ CHR 0x00 # t @ [CHR 0x00])"
    "check_incoming_control_channel (s @ [CHR 0x00]) = (control_action_of (s @ [CHR 0x00]), s @ [CHR 0x00])"
    by (simp_all add: check_incoming_control_channel_def buf_null_terminate_def Let_def)
qed

subsection \<open>The list and the answers of the server\<close>

lemma of_char_44: "(of_char c :: nat) = 44 \<longleftrightarrow> c = CHR '',''"
proof
  assume "(of_char c :: nat) = 44"
  then have "(of_char c :: nat) = of_char (CHR '','')" by simp
  then show "c = CHR '',''" by (simp only: of_char_eq_iff)
qed simp

lemma no_comma_class: "string_class opt CC_ANY CC_COMMA \<longleftrightarrow> CHR '','' \<notin> set opt"
proof -
  have "char_inc_exc c CC_ANY CC_COMMA \<longleftrightarrow> c \<noteq> CHR '',''" for c
    using of_char_44 [of c] by (auto simp: char_inc_exc_def char_class_def cc_flags)
  then show ?thesis by (auto simp: string_class_def list_all_iff)
qed

text \<open>No option of a push list holds a comma, however it got there.\<close>

definition no_commas :: "push_entry list \<Rightarrow> bool" where
  "no_commas = list_all (\<lambda>e. CHR '','' \<notin> set (pu_option e))"

lemma push_list_no_commas:
  "no_commas l \<Longrightarrow> no_commas (push_option_ex l opt enable)"
  "no_commas l \<Longrightarrow> no_commas (snd (push_option_fmt l opt))"
  "no_commas (clone_push_list l)"
  "no_commas (po_push_list o1) \<Longrightarrow> no_commas (po_push_list (push_remove_option o1 p))"
proof -
  show ex: "no_commas l \<Longrightarrow> no_commas (push_option_ex l opt enable)" for l opt enable
    by (simp add: push_option_ex_def no_comma_class no_commas_def)
  then show "no_commas l \<Longrightarrow> no_commas (snd (push_option_fmt l opt))" by (simp add: push_option_fmt_def)
  have "no_commas l1 \<Longrightarrow> no_commas (fold (\<lambda>e l1. push_option_ex l1 (pu_option e) True) l l1)" for l1
    using ex by (induction l arbitrary: l1) simp_all
  then show "no_commas (clone_push_list l)" by (simp add: clone_push_list_def no_commas_def)
  show "no_commas (po_push_list o1) \<Longrightarrow> no_commas (po_push_list (push_remove_option o1 p))"
    by (auto simp: push_remove_option_def no_commas_def list_all_iff)
qed

text \<open>The reason for a failed authentication never makes the message longer than the bundle.\<close>

lemma auth_failed_fits: "m \<in> set (send_auth_failed exit_scheduled reason) \<Longrightarrow> length m < PUSH_BUNDLE_SIZE"
  by (auto simp: send_auth_failed_def buf_printf_def PUSH_BUNDLE_SIZE_def Let_def split: if_splits option.splits)

text \<open>A client that asks again within 30 seconds of its answer gets no second one.\<close>

lemma one_push_reply:
  assumes "process_incoming_push_request pull auth now sent_ok l p expiry = (PUSH_MSG_REQUEST, msgs, expiry1)" "now1 < now + 30"
  shows "process_incoming_push_request pull (Auth_Succeeded_Outcome True) now1 sent_ok1 l1 p1 expiry1
    = (PUSH_MSG_ALREADY_REPLIED, [], expiry1)"
  using assms by (auto simp: process_incoming_push_request_def split: if_splits auth_outcome.splits prod.splits bool.splits option.splits)

subsection \<open>What is sent\<close>

text \<open>A message with the options given, and how the options of a list are spread over messages.\<close>

definition push_message :: "string list \<Rightarrow> string" where
  "push_message xs = push_reply_cmd @ concat (map ((#) (CHR '','')) xs)"

abbreviation cont_more :: string where "cont_more \<equiv> ''push-continuation 2''"
abbreviation cont_last :: string where "cont_last \<equiv> ''push-continuation 1''"

definition enabled_options :: "push_entry list \<Rightarrow> string list" where
  "enabled_options es = map pu_option (filter pu_enable es)"

definition sender_at :: "string list list \<Rightarrow> string list \<Rightarrow> push_sender" where
  "sender_at chunks cur = \<lparr>ps_buf = push_message cur, ps_sent = map (\<lambda>c. push_message (c @ [cont_more])) chunks,
     ps_push_sent = (chunks \<noteq> []), ps_multi_push = (chunks \<noteq> [])\<rparr>"

lemma push_message_append: "push_message (xs @ ys) = push_message xs @ concat (map ((#) (CHR '','')) ys)"
  by (simp add: push_message_def)

lemma push_printf_fits:
  "length (ps_buf st) + length s < PUSH_BUNDLE_SIZE \<Longrightarrow> push_printf s st = st\<lparr>ps_buf := ps_buf st @ s\<rparr>"
  by (simp add: push_printf_def buf_printf_def)

lemmas push_sizes = push_safe_cap_def PUSH_BUNDLE_SIZE_def OPTION_PARM_SIZE_def push_reply_cmd_def

lemma make_room:
  assumes "length (push_message cur) \<le> push_safe_cap" "l < OPTION_PARM_SIZE"
  shows "\<exists>chunks1 cur1. push_make_room (\<lambda>_. True) push_safe_cap l (sender_at chunks cur) = (True, sender_at chunks1 cur1)
           \<and> concat chunks1 @ cur1 = concat chunks @ cur \<and> length (push_message cur1) + l < push_safe_cap"
proof (cases "length (push_message cur) + l \<ge> push_safe_cap")
  case False
  then show ?thesis by (intro exI [of _ chunks] exI [of _ cur]) (simp add: push_make_room_def sender_at_def)
next
  case True
  have p1: "push_printf '',push-continuation 2'' (sender_at chunks cur)
      = (sender_at chunks cur)\<lparr>ps_buf := push_message (cur @ [cont_more])\<rparr>"
    using assms(1) by (subst push_printf_fits) (simp_all add: sender_at_def push_message_append push_sizes)
  have p2: "push_printf push_reply_cmd (st\<lparr>ps_buf := []\<rparr>) = st\<lparr>ps_buf := push_message []\<rparr>" for st
    by (subst push_printf_fits) (simp_all add: push_sizes push_message_def)
  have "push_make_room (\<lambda>_. True) push_safe_cap l (sender_at chunks cur) = (True, sender_at (chunks @ [cur]) [])"
    unfolding push_make_room_def p1 using True
    by (simp add: send_control_channel_string_def sender_at_def push_printf_def buf_printf_def push_message_def push_sizes)
  moreover have "length (push_message []) + l < push_safe_cap" using assms(2) by (simp add: push_message_def push_sizes)
  ultimately show ?thesis by (intro exI [of _ "chunks @ [cur]"] exI [of _ "[]"]) simp
qed

lemma send_push_options_ok:
  assumes "length (push_message cur) \<le> push_safe_cap" "list_all push_option_ok (enabled_options es)"
  shows "\<exists>chunks1 cur1. send_push_options (\<lambda>_. True) push_safe_cap es (sender_at chunks cur) = (True, sender_at chunks1 cur1)
           \<and> concat chunks1 @ cur1 = concat chunks @ cur @ enabled_options es \<and> length (push_message cur1) \<le> push_safe_cap"
  using assms
proof (induction es arbitrary: chunks cur)
  case Nil
  then show ?case by (intro exI [of _ chunks] exI [of _ cur]) (simp add: enabled_options_def)
next
  case (Cons e es)
  show ?case
  proof (cases "pu_enable e")
    case False
    then show ?thesis using Cons by (simp add: enabled_options_def)
  next
    case True
    have ok: "push_option_ok (pu_option e)" "list_all push_option_ok (enabled_options es)"
      using Cons.prems(2) True by (simp_all add: enabled_options_def)
    have l: "length (pu_option e) < OPTION_PARM_SIZE" using ok(1) by (simp add: push_option_ok_def)
    obtain chunks1 cur1 where m: "push_make_room (\<lambda>_. True) push_safe_cap (length (pu_option e)) (sender_at chunks cur) = (True, sender_at chunks1 cur1)"
      "concat chunks1 @ cur1 = concat chunks @ cur" "length (push_message cur1) + length (pu_option e) < push_safe_cap"
      using make_room [OF Cons.prems(1) l] by blast
    have b: "ps_buf (sender_at chunks1 cur1) = push_message cur1" by (simp add: sender_at_def)
    have p: "push_printf (CHR '','' # pu_option e) (sender_at chunks1 cur1) = sender_at chunks1 (cur1 @ [pu_option e])"
      using m(3) by (subst push_printf_fits) (simp_all add: sender_at_def push_message_append push_sizes)
    have le: "length (push_message (cur1 @ [pu_option e])) \<le> push_safe_cap" using m(3) by (simp add: push_message_append)
    obtain chunks2 cur2 where c: "send_push_options (\<lambda>_. True) push_safe_cap es (sender_at chunks1 (cur1 @ [pu_option e])) = (True, sender_at chunks2 cur2)"
      "concat chunks2 @ cur2 = concat chunks1 @ (cur1 @ [pu_option e]) @ enabled_options es" "length (push_message cur2) \<le> push_safe_cap"
      using Cons.IH [OF le ok(2)] by blast
    have "send_push_options (\<lambda>_. True) push_safe_cap (e # es) (sender_at chunks cur) = (True, sender_at chunks2 cur2)"
      using True m(1,3) c(1) p b by simp
    moreover have "concat chunks2 @ cur2 = concat chunks @ cur @ enabled_options (e # es)"
      using c(2) m(2) True by (simp add: enabled_options_def)
    ultimately show ?thesis using c(3) by blast
  qed
qed

lemma send_push_reply_ok:
  assumes "list_all push_option_ok (enabled_options (g @ p))"
  shows "\<exists>chunks cur. send_push_reply (\<lambda>_. True) g p = (True, map (\<lambda>c. push_message (c @ [cont_more])) chunks
             @ [push_message (cur @ (if chunks = [] then [] else [cont_last]))])
           \<and> concat chunks @ cur = enabled_options (g @ p)"
proof -
  have start: "push_printf push_reply_cmd push_sender_init = sender_at [] []"
    by (simp add: push_printf_def buf_printf_def push_sender_init_def sender_at_def push_message_def push_sizes)
  have ok: "list_all push_option_ok (enabled_options g)" "list_all push_option_ok (enabled_options p)"
    using assms by (simp_all add: enabled_options_def)
  have le0: "length (push_message []) \<le> push_safe_cap" by (simp add: push_message_def push_sizes)
  obtain c1 u1 where s1: "send_push_options (\<lambda>_. True) push_safe_cap g (sender_at [] []) = (True, sender_at c1 u1)"
    "concat c1 @ u1 = enabled_options g" "length (push_message u1) \<le> push_safe_cap"
    using send_push_options_ok [OF le0 ok(1), of "[]"] by auto
  obtain c2 u2 where s2: "send_push_options (\<lambda>_. True) push_safe_cap p (sender_at c1 u1) = (True, sender_at c2 u2)"
    "concat c2 @ u2 = concat c1 @ u1 @ enabled_options p" "length (push_message u2) \<le> push_safe_cap"
    using send_push_options_ok [OF s1(3) ok(2), of c1] by blast
  have all: "concat c2 @ u2 = enabled_options (g @ p)"
    using s1(2) s2(2) by (simp add: enabled_options_def)
  have last: "\<exists>st. send_push_last (\<lambda>_. True) (sender_at c2 u2) = (True, st)
      \<and> ps_sent st = ps_sent (sender_at c2 u2) @ [push_message (u2 @ (if c2 = [] then [] else [cont_last]))]"
  proof (cases "c2 = []")
    case True
    show ?thesis
    proof (cases u2)
      case Nil
      then show ?thesis using True
        by (simp add: send_push_last_def sender_at_def send_control_channel_string_def push_message_def push_printf_def
            buf_printf_def push_sizes)
    next
      case (Cons x xs)
      then show ?thesis using True
        by (simp add: send_push_last_def sender_at_def send_control_channel_string_def push_message_def push_sizes)
    qed
  next
    case False
    have "push_printf '',push-continuation 1'' (sender_at c2 u2) = (sender_at c2 u2)\<lparr>ps_buf := push_message (u2 @ [cont_last])\<rparr>"
      using s2(3) by (subst push_printf_fits) (simp_all add: sender_at_def push_message_append push_sizes)
    then show ?thesis using False
      by (simp add: send_push_last_def sender_at_def send_control_channel_string_def push_message_def push_sizes)
  qed
  moreover have "ps_sent (sender_at c2 u2) = map (\<lambda>c. push_message (c @ [cont_more])) c2" by (simp add: sender_at_def)
  ultimately have "send_push_reply (\<lambda>_. True) g p = (True, map (\<lambda>c. push_message (c @ [cont_more])) c2
             @ [push_message (u2 @ (if c2 = [] then [] else [cont_last]))])"
    unfolding send_push_reply_def start by (auto simp: s1(1) s2(1))
  then show ?thesis using all by blast
qed

subsection \<open>What is applied\<close>

text \<open>An option that is not \<open>push-continuation\<close>.\<close>

definition other_option :: "string \<Rightarrow> bool" where
  "other_option x = (\<forall>v. line_parms x \<noteq> Some [''push-continuation'', v])"

lemma line_parms_nil: "line_parms [] = None"
  by code_simp

lemma line_parms_more: "line_parms cont_more = Some [''push-continuation'', ''2'']" "line_parms cont_last = Some [''push-continuation'', ''1'']"
  by code_simp+

lemma add_other:
  assumes "\<forall>v. p \<noteq> [''push-continuation'', v]"
  shows "add_pushed_option other p st = st\<lparr>pl_options := other p (pl_options st)\<rparr>"
  using assms by (auto simp: add_pushed_option_def split: list.split)

lemma filtered_option:
  assumes "apply_pull_filter fs x = (True, line)" "other_option x"
  shows "other_option line"
proof -
  have "line = x \<or> line = []"
    using assms(1) by (induction fs) (auto split: if_splits pull_filter_type.splits)
  then show ?thesis using assms(2) line_parms_nil by (auto simp: other_option_def)
qed

lemma push_effect_other:
  assumes "list_all other_option xs"
  shows "push_effect fs (add_pushed_option other) xs st =
    map_prod id (\<lambda>o1. st\<lparr>pl_options := o1\<rparr>) (push_effect fs other xs (pl_options st))"
  using assms
proof (induction xs arbitrary: st)
  case (Cons x xs)
  obtain ok line where f: "apply_pull_filter fs x = (ok, line)" by force
  show ?case
  proof (cases ok)
    case True
    have "other_option line" using filtered_option f True Cons.prems by auto
    then show ?thesis
      using Cons.IH Cons.prems f True add_other [of _ other st]
      by (cases "line_parms line") (auto simp: other_option_def map_prod_def case_prod_beta)
  next
    case False
    then show ?thesis using f by simp
  qed
qed simp

lemma push_effect_append:
  assumes "push_effect fs add xs s = (True, s1)"
  shows "push_effect fs add (xs @ ys) s = push_effect fs add ys s1"
  using assms by (induction xs arbitrary: s) (auto split: prod.splits bool.splits)

lemma push_effect_prefix:
  "fst (push_effect fs add (xs @ ys) s) \<Longrightarrow> fst (push_effect fs add xs s)"
  by (induction xs arbitrary: s) (auto split: prod.splits bool.splits)

lemma update_digest_some: "\<exists>acc1. push_update_digest t b acc = Some acc1"
proof (induction t b acc rule: push_update_digest.induct)
  case (1 t b acc)
  have "buf_parse b CHR '','' (int OPTION_PARM_SIZE) \<noteq> None" by (simp add: buf_parse_def OPTION_PARM_SIZE_def Let_def split: prod.split)
  then obtain ok line r where p: "buf_parse b CHR '','' (int OPTION_PARM_SIZE) = Some (ok, line, r)" by auto
  then show ?case using 1 by (subst push_update_digest.simps) (cases ok; simp)
qed

text \<open>A push message at the client.\<close>

lemma push_message_handled:
  assumes x: "list_all push_option_ok xs" "list_all (list_all message_char) xs"
  shows "check_incoming_control_channel (push_message xs @ [CHR 0x00]) = (Incoming_Push_Message, push_message xs @ [CHR 0x00])"
    "process_incoming_push_msg fs other hash t (push_message xs @ [CHR 0x00]) st
      = process_incoming_push_reply fs other hash t (concat (map ((#) (CHR '','')) xs) @ [CHR 0x00]) st"
proof -
  have c: "list_all message_char push_reply_cmd" "message_char CHR '',''"
    by (simp_all add: push_reply_cmd_def message_char_iff)
  have "list_all message_char (concat (map ((#) (CHR '','')) xs))"
    using x(2) c(2) by (induction xs) simp_all
  then have "list_all message_char (push_message xs)" using c(1) by (simp add: push_message_def)
  from sanitize_clean(2) [OF this]
  show "check_incoming_control_channel (push_message xs @ [CHR 0x00]) = (Incoming_Push_Message, push_message xs @ [CHR 0x00])"
    by (simp add: control_action_of_def text_match_head_str_def push_message_def push_reply_cmd_def)
  show "process_incoming_push_msg fs other hash t (push_message xs @ [CHR 0x00]) st
      = process_incoming_push_reply fs other hash t (concat (map ((#) (CHR '','')) xs) @ [CHR 0x00]) st"
    by (simp add: process_incoming_push_msg_def text_compare_advance_def text_match_head_str_def push_message_def push_reply_cmd_def)
qed

lemma push_reply_nonempty:
  fixes st :: "('a, 'd) pull_state"
  assumes a: "\<And>s :: ('a, 'd) pull_state. apply_push_options fs (add_pushed_option other) r s = Some (push_effect fs (add_pushed_option other) xs s)"
    and e: "\<And>d. push_effect fs (add_pushed_option other) xs (st\<lparr>pl_digest_state := Some d\<rparr>) = (True, st1 d)"
    and k: "\<And>d. pl_push_continuation (st1 d) = k"
    and o: "\<And>d. pl_options (st1 d) = o1"
  shows "\<exists>st2. process_incoming_push_reply fs other hash t (CHR '','' # r) st
             = Some (if k = 0 \<or> k = 1 then PUSH_MSG_REPLY else if k = 2 then PUSH_MSG_CONTINUATION else PUSH_MSG_ERROR, st2)
           \<and> pl_options st2 = o1 \<and> pl_push_continuation st2 = k"
proof -
  define acc where "acc = (case pl_digest_state st of None \<Rightarrow> [] | Some x \<Rightarrow> x)"
  have a1: "apply_push_options fs (add_pushed_option other) r (st\<lparr>pl_digest_state := Some acc\<rparr>) = Some (True, st1 acc)"
    unfolding a e by (rule refl)
  obtain acc1 where d: "push_update_digest t r acc = Some acc1" using update_digest_some by blast
  show ?thesis
    using a1 d k [of acc] o [of acc] by (simp add: process_incoming_push_reply_def Let_def flip: acc_def)
qed

lemma push_options_applied_list:
  assumes "xs \<noteq> []" "list_all push_option_ok xs"
  shows "\<exists>r. concat (map ((#) (CHR '','')) xs) @ [CHR 0x00] = CHR '','' # r
           \<and> (\<forall>s. apply_push_options fs add r s = Some (push_effect fs add xs s))"
proof (cases xs)
  case (Cons y ys)
  have "apply_push_options fs add (y @ concat (map ((#) (CHR '','')) ys) @ [CHR 0x00]) s = Some (push_effect fs add xs s)" for s
    unfolding Cons by (rule push_options_applied) (use assms(2) Cons in simp)
  then show ?thesis using Cons by simp
qed (use assms(1) in simp)

text \<open>The continuation lines go through the filter, and set what they say.\<close>

definition continuations_pass :: "pull_filter list \<Rightarrow> bool" where
  "continuations_pass fs = (apply_pull_filter fs cont_more = (True, cont_more) \<and> apply_pull_filter fs cont_last = (True, cont_last))"

lemma atoi_values: "c_atoi ''2'' = 2" "c_atoi ''1'' = 1"
  by code_simp+

lemma continuation_effect:
  assumes "continuations_pass fs"
  shows "push_effect fs (add_pushed_option other) [cont_more] st = (True, st\<lparr>pl_push_continuation := 2\<rparr>)"
    "push_effect fs (add_pushed_option other) [cont_last] st = (True, st\<lparr>pl_push_continuation := 1\<rparr>)"
  using assms by (simp_all add: continuations_pass_def line_parms_more add_pushed_option_def atoi_values)

lemma chunk_effect:
  assumes "list_all other_option xs" "push_effect fs other xs (pl_options st) = (True, o1)" "continuations_pass fs"
  shows "push_effect fs (add_pushed_option other) xs st = (True, st\<lparr>pl_options := o1\<rparr>)"
    "push_effect fs (add_pushed_option other) (xs @ [cont_more]) st = (True, st\<lparr>pl_options := o1, pl_push_continuation := 2\<rparr>)"
    "push_effect fs (add_pushed_option other) (xs @ [cont_last]) st = (True, st\<lparr>pl_options := o1, pl_push_continuation := 1\<rparr>)"
proof -
  show e: "push_effect fs (add_pushed_option other) xs st = (True, st\<lparr>pl_options := o1\<rparr>)"
    unfolding push_effect_other [OF assms(1)] assms(2) by simp
  show "push_effect fs (add_pushed_option other) (xs @ [cont_more]) st = (True, st\<lparr>pl_options := o1, pl_push_continuation := 2\<rparr>)"
    "push_effect fs (add_pushed_option other) (xs @ [cont_last]) st = (True, st\<lparr>pl_options := o1, pl_push_continuation := 1\<rparr>)"
    unfolding push_effect_append [OF e] continuation_effect [OF assms(3)] by simp_all
qed

definition pushable :: "string \<Rightarrow> bool" where
  "pushable x = (push_option_ok x \<and> list_all message_char x \<and> other_option x)"

lemma continuation_ok: "push_option_ok cont_more" "push_option_ok cont_last" "list_all message_char cont_more" "list_all message_char cont_last"
  by (simp_all add: push_option_ok_def OPTION_PARM_SIZE_def message_char_iff)

lemma message_received:
  fixes st :: "('a, 'd) pull_state"
  assumes x: "list_all pushable xs" and e: "push_effect fs other xs (pl_options st) = (True, o1)" and f: "continuations_pass fs"
    and z: "zs = xs @ [cont_more] \<and> k = 2 \<or> zs = xs @ [cont_last] \<and> k = 1 \<or> zs = xs \<and> k = pl_push_continuation st"
    and k: "k = 0 \<or> k = 1 \<or> k = 2"
  shows "\<exists>st2. receive_push fs other hash t ((push_message zs @ [CHR 0x00]) # ms) st
             = map_option (\<lambda>(ss, st3). ((if k = 2 \<and> zs \<noteq> [] then PUSH_MSG_CONTINUATION else PUSH_MSG_REPLY) # ss, st3))
                 (receive_push fs other hash t ms st2)
           \<and> pl_options st2 = o1 \<and> pl_push_continuation st2 = k"
proof -
  have ok: "list_all push_option_ok zs" "list_all (list_all message_char) zs" "list_all other_option xs"
    using x z continuation_ok by (auto simp: list_all_iff pushable_def)
  note h = push_message_handled [OF ok(1,2)]
  show ?thesis
  proof (cases "zs = []")
    case True
    then have "o1 = pl_options st" "k = pl_push_continuation st" using z e by auto
    then show ?thesis using True
      by (intro exI [of _ st]) (simp add: h [unfolded True] process_incoming_push_reply_def split: option.split)
  next
    case False
    obtain r where r: "concat (map ((#) (CHR '','')) zs) @ [CHR 0x00] = CHR '','' # r"
      "\<And>s :: ('a, 'd) pull_state. apply_push_options fs (add_pushed_option other) r s = Some (push_effect fs (add_pushed_option other) zs s)"
      using push_options_applied_list [OF False ok(1)] by blast
    have e1: "push_effect fs other xs (pl_options (st\<lparr>pl_digest_state := Some d\<rparr>)) = (True, o1)" for d using e by simp
    have "push_effect fs (add_pushed_option other) zs (st\<lparr>pl_digest_state := Some d\<rparr>)
        = (True, st\<lparr>pl_digest_state := Some d, pl_options := o1, pl_push_continuation := k\<rparr>)" for d
      using z chunk_effect [OF ok(3) e1 f, of d] by auto
    from push_reply_nonempty [OF r(2) this, of k o1 hash t] obtain st2 where
      "process_incoming_push_reply fs other hash t (CHR '','' # r) st
         = Some (if k = 0 \<or> k = 1 then PUSH_MSG_REPLY else if k = 2 then PUSH_MSG_CONTINUATION else PUSH_MSG_ERROR, st2)"
      "pl_options st2 = o1" "pl_push_continuation st2 = k" by auto
    then show ?thesis using k False by (intro exI [of _ st2]) (auto simp: h r(1) split: option.split)
  qed
qed

lemma messages_received:
  assumes "list_all (list_all pushable) chunks" "list_all pushable cur" "continuations_pass fs"
    "push_effect fs other (concat chunks @ cur) (pl_options st) = (True, o1)"
    "b \<or> chunks = [] \<and> (pl_push_continuation st = 0 \<or> pl_push_continuation st = 1)"
  shows "\<exists>st2. receive_push fs other hash t
             (map (\<lambda>m. m @ [CHR 0x00]) (map (\<lambda>c. push_message (c @ [cont_more])) chunks @ [push_message (cur @ (if b then [cont_last] else []))])) st
           = Some (replicate (length chunks) PUSH_MSG_CONTINUATION @ [PUSH_MSG_REPLY], st2) \<and> pl_options st2 = o1"
  using assms
proof (induction chunks arbitrary: st)
  case Nil
  have e: "push_effect fs other cur (pl_options st) = (True, o1)" using Nil.prems(4) by simp
  show ?case
  proof (cases b)
    case True
    then show ?thesis
      using message_received [OF Nil.prems(2) e Nil.prems(3), of "cur @ [cont_last]" 1 hash t "[]"] by auto
  next
    case False
    then have "pl_push_continuation st = 0 \<or> pl_push_continuation st = 1" using Nil.prems(5) by simp
    then show ?thesis
      using message_received [OF Nil.prems(2) e Nil.prems(3), of cur "pl_push_continuation st" hash t "[]"] False by auto
  qed
next
  case (Cons c chunks)
  have b by (use Cons.prems(5) in simp)
  obtain oc where oc: "push_effect fs other c (pl_options st) = (True, oc)"
    using push_effect_prefix [of fs other c "concat chunks @ cur" "pl_options st"] Cons.prems(4)
    by (cases "push_effect fs other c (pl_options st)") auto
  then have rest: "push_effect fs other (concat chunks @ cur) oc = (True, o1)"
    using push_effect_append [OF oc, of "concat chunks @ cur"] Cons.prems(4) by simp
  define ms where "ms = map (\<lambda>m. m @ [CHR 0x00])
      (map (\<lambda>c. push_message (c @ [cont_more])) chunks @ [push_message (cur @ (if b then [cont_last] else []))])"
  obtain st1 where st1: "receive_push fs other hash t ((push_message (c @ [cont_more]) @ [CHR 0x00]) # ms) st
       = map_option (\<lambda>(ss, st3). (PUSH_MSG_CONTINUATION # ss, st3)) (receive_push fs other hash t ms st1)"
    "pl_options st1 = oc"
    using message_received [of c fs other st oc "c @ [cont_more]" 2 hash t ms] Cons.prems(1,3) oc by auto
  obtain st2 where "receive_push fs other hash t ms st1
      = Some (replicate (length chunks) PUSH_MSG_CONTINUATION @ [PUSH_MSG_REPLY], st2)" "pl_options st2 = o1"
    unfolding ms_def using Cons.IH [of st1] Cons.prems(1-3) rest st1(2) \<open>b\<close> by auto
  moreover have "map (\<lambda>m. m @ [CHR 0x00]) (map (\<lambda>c. push_message (c @ [cont_more])) (c # chunks)
      @ [push_message (cur @ (if b then [cont_last] else []))]) = (push_message (c @ [cont_more]) @ [CHR 0x00]) # ms"
    by (simp add: ms_def)
  ultimately show ?case using st1(1) by simp
qed

text \<open>
  C37: The options a server pushes arrive. However the lists of the server (its own and that of the
  client) have to be cut into messages of the control channel, the client takes them from these
  messages in order and applies each enabled option exactly once, as its pull filter says; every
  message but the last is answered with \<open>PUSH_MSG_CONTINUATION\<close> and the last with \<open>PUSH_MSG_REPLY\<close>, on
  which the tunnel comes up. The options must fit 255 characters, be printable and without commas,
  and none of them may be \<open>push-continuation\<close> or be rejected by the filter, which must not match
  \<open>push-continuation\<close> either.
\<close>

theorem pushed_options_arrive:
  assumes "list_all pushable (enabled_options (push_list @ per_client))" "continuations_pass fs"
    "push_effect fs other (enabled_options (push_list @ per_client)) (pl_options st) = (True, opts)"
    "pl_push_continuation st = 0 \<or> pl_push_continuation st = 1"
  shows "\<exists>msgs n st1. send_push_reply (\<lambda>_. True) push_list per_client = (True, msgs)
           \<and> receive_push fs other hash tun_mtu_defined (map (\<lambda>m. m @ [CHR 0x00]) msgs) st
               = Some (replicate n PUSH_MSG_CONTINUATION @ [PUSH_MSG_REPLY], st1)
           \<and> pl_options st1 = opts"
proof -
  have ok: "list_all push_option_ok (enabled_options (push_list @ per_client))"
    using assms(1) by (simp add: list_all_iff pushable_def)
  obtain chunks cur where c: "send_push_reply (\<lambda>_. True) push_list per_client = (True, map (\<lambda>c. push_message (c @ [cont_more])) chunks
       @ [push_message (cur @ (if chunks = [] then [] else [cont_last]))])"
    "concat chunks @ cur = enabled_options (push_list @ per_client)"
    using send_push_reply_ok [OF ok] by blast
  have p: "list_all (list_all pushable) chunks" "list_all pushable cur"
    using assms(1) unfolding c(2) [symmetric] by (auto simp: list_all_iff)
  obtain st1 where "receive_push fs other hash tun_mtu_defined
      (map (\<lambda>m. m @ [CHR 0x00]) (map (\<lambda>c. push_message (c @ [cont_more])) chunks
         @ [push_message (cur @ (if chunks \<noteq> [] then [cont_last] else []))])) st
     = Some (replicate (length chunks) PUSH_MSG_CONTINUATION @ [PUSH_MSG_REPLY], st1)" "pl_options st1 = opts"
    using messages_received [OF p assms(2), of other st opts "chunks \<noteq> []" hash tun_mtu_defined] assms(3,4) c(2) by auto
  moreover have "(if chunks \<noteq> [] then [cont_last] else []) = (if chunks = [] then [] else [cont_last])" by simp
  ultimately show ?thesis using c(1) by auto
qed

text \<open>Sixty routes, more than one message holds.\<close>

definition demo_push :: "push_entry list" where
  "demo_push = replicate 60 \<lparr>pu_enable = True, pu_option = ''route 10.8.0.0 255.255.255.0''\<rparr>"

lemma unfiltered_effect:
  "line_parms x = Some p \<Longrightarrow> push_effect [] (\<lambda>p s. s @ [p]) (replicate n x) s = (True, s @ replicate n p)"
  by (induction n arbitrary: s) simp_all

theorem pushed_options_arrive_witness:
  "\<exists>msgs n st1. send_push_reply (\<lambda>_. True) demo_push [] = (True, msgs)
     \<and> receive_push [] (\<lambda>p s. s @ [p]) id False (map (\<lambda>m. m @ [CHR 0x00]) msgs)
         \<lparr>pl_push_continuation = 0, pl_options = [], pl_digest_state = None, pl_digest = []\<rparr>
         = Some (replicate n PUSH_MSG_CONTINUATION @ [PUSH_MSG_REPLY], st1)
     \<and> pl_options st1 = replicate 60 [''route'', ''10.8.0.0'', ''255.255.255.0'']"
proof -
  let ?x = "''route 10.8.0.0 255.255.255.0''" and ?p = "[''route'', ''10.8.0.0'', ''255.255.255.0'']"
  have x: "line_parms ?x = Some ?p" by code_simp
  have "pushable ?x"
    using x by (simp add: pushable_def push_option_ok_def OPTION_PARM_SIZE_def message_char_iff other_option_def)
  moreover have "enabled_options (demo_push @ []) = replicate 60 ?x" by (simp add: demo_push_def enabled_options_def filter_replicate)
  ultimately have ok: "list_all pushable (enabled_options (demo_push @ []))" by (simp add: list_all_iff)
  show ?thesis
    by (rule pushed_options_arrive [OF ok])
      (simp_all add: continuations_pass_def unfiltered_effect [OF x] demo_push_def enabled_options_def filter_replicate)
qed

lemma options_after_nul:
  assumes "push_option_ok x" "push_option_ok y"
  shows "apply_push_options fs add (x @ CHR 0x00 # y @ [CHR 0x00]) s = Some (push_effect fs add [x, y] s)"
proof -
  have x: "buf_parse (x @ CHR 0x00 # y @ [CHR 0x00]) CHR '','' (int OPTION_PARM_SIZE) = Some (True, x, y @ [CHR 0x00])"
    using assms(1) by (intro buf_parse_fits(2)) (simp_all add: push_option_ok_def)
  have y: "apply_push_options fs add (y @ [CHR 0x00]) s = Some (push_effect fs add [y] s)" for s
    using push_options_applied [of y "[]"] assms(2) by simp
  show ?thesis by (subst apply_push_options.simps) (simp add: x y split: prod.split bool.split)
qed

text \<open>
  C40: The check of the characters of a control message ends at its first NUL, the options of a push
  message do not: whatever a server sends behind a NUL is applied as an option without the check,
  control characters included.
\<close>

theorem control_text_after_nul_unchecked:
  assumes "pushable x" "line_parms x = Some px" "push_option_ok y" "other_option y" "line_parms y = Some py"
    "pl_push_continuation st = 0 \<or> pl_push_continuation st = 1"
  shows "\<exists>st1. receive_push [] other hash tun_mtu_defined [push_message [x] @ CHR 0x00 # y @ [CHR 0x00]] st = Some ([PUSH_MSG_REPLY], st1)
           \<and> pl_options st1 = other py (other px (pl_options st))"
proof -
  have x: "push_option_ok x" "list_all message_char x" "other_option x" using assms(1) by (simp_all add: pushable_def)
  have "list_all message_char (push_message [x])" using x(2) by (simp add: push_message_def push_reply_cmd_def message_char_iff)
  from sanitize_clean(1) [OF this, of y]
  have c: "check_incoming_control_channel (push_message [x] @ CHR 0x00 # y @ [CHR 0x00])
      = (Incoming_Push_Message, push_message [x] @ CHR 0x00 # y @ [CHR 0x00])"
    by (simp add: control_action_of_def text_match_head_str_def push_message_def push_reply_cmd_def)
  have m: "process_incoming_push_msg [] other hash tun_mtu_defined (push_message [x] @ CHR 0x00 # y @ [CHR 0x00]) st
      = process_incoming_push_reply [] other hash tun_mtu_defined (CHR '','' # x @ CHR 0x00 # y @ [CHR 0x00]) st"
    by (simp add: process_incoming_push_msg_def text_compare_advance_def text_match_head_str_def push_message_def push_reply_cmd_def)
  have e: "push_effect [] (add_pushed_option other) [x, y] (st\<lparr>pl_digest_state := Some d\<rparr>)
      = (True, st\<lparr>pl_digest_state := Some d, pl_options := other py (other px (pl_options st))\<rparr>)" for d
    using x(3) assms(2,4,5) by (subst push_effect_other) (simp_all add: other_option_def)
  show ?thesis
    using push_reply_nonempty [OF options_after_nul [OF x(1) assms(3)] e, of "pl_push_continuation st" _ hash tun_mtu_defined] c m assms(6)
    by auto
qed

theorem control_text_after_nul_unchecked_witness:
  "\<exists>st1. receive_push [] (\<lambda>p s. s @ [p]) id False
       [push_message [''ping 10''] @ CHR 0x00 # (''setenv-safe A '' @ [CHR 0x1B]) @ [CHR 0x00]]
       \<lparr>pl_push_continuation = 0, pl_options = [], pl_digest_state = None, pl_digest = []\<rparr>
       = Some ([PUSH_MSG_REPLY], st1)
     \<and> pl_options st1 = [[''ping'', ''10''], [''setenv-safe'', ''A'', [CHR 0x1B]]] \<and> \<not> message_char (CHR 0x1B)"
proof -
  have x: "line_parms ''ping 10'' = Some [''ping'', ''10'']" by code_simp
  have y: "line_parms (''setenv-safe A '' @ [CHR 0x1B]) = Some [''setenv-safe'', ''A'', [CHR 0x1B]]" by code_simp
  have px: "pushable ''ping 10''"
    using x by (simp add: pushable_def push_option_ok_def OPTION_PARM_SIZE_def message_char_iff other_option_def)
  have py: "push_option_ok (''setenv-safe A '' @ [CHR 0x1B])" "other_option (''setenv-safe A '' @ [CHR 0x1B])"
    using y by (simp_all add: push_option_ok_def OPTION_PARM_SIZE_def other_option_def)
  have esc: "\<not> message_char (CHR 0x1B)" by (simp add: message_char_iff)
  show ?thesis
    using control_text_after_nul_unchecked [OF px x py y,
        of "\<lparr>pl_push_continuation = 0, pl_options = [], pl_digest_state = None, pl_digest = []\<rparr>" "\<lambda>p s. s @ [p]" id False] esc
    by simp
qed

end
