(* ===== verification/Spec2Isabelle.thy ===== *)
theory Spec2Isabelle
  imports Tls_Data Replay Schedule Reassembly Ip_Header Base64 Stream_Buf Server_Routes Pool Mbuf Push
begin

text \<open>
  Gear VPN carries an OpenVPN 2 client as a C library
  (\<^verbatim>\<open>vpn/src/main/cpp/openvpn/src/openvpn\<close>, below called the core) under an Android
  application. This development models the core's own packet processing and proves what it
  promises.

  \<^bold>\<open>Parts of the program and their theories.\<close>

  \<^item> \<open>Prelude\<close>: integer types, memory blocks, network byte order, runs of a component, and the
    contracts \<open>machine\<close> and \<open>codec\<close>.
  \<^item> \<open>Int_Util\<close> (\<^verbatim>\<open>integer.h\<close>): bounded and modular arithmetic.
  \<^item> \<open>Circ_List\<close> (\<^verbatim>\<open>circ_list.h\<close>): the circular list, shown to be a window of the most
    recent values (\<open>recency_window\<close>).
  \<^item> \<open>Buffer\<close> (\<^verbatim>\<open>buffer.h\<close>, \<^verbatim>\<open>buffer.c\<close>): the packet buffer; every live buffer is
    headroom, content and tail (\<open>mkbuf\<close>), and \<open>mkbuf_ops\<close> gives each operation on that form.
  \<^item> \<open>Packet_Id\<close>, \<open>Replay\<close> (\<^verbatim>\<open>packet_id.c\<close>, \<^verbatim>\<open>crypto.c\<close>): packet ids on the wire,
    the sliding window, the persisted state, and the replay check of the receive path.
  \<^item> \<open>Reliable\<close>, \<open>Control_Channel\<close> (\<^verbatim>\<open>reliable.c\<close>, \<^verbatim>\<open>ssl.c\<close>): retransmission,
    acknowledgements and the receive window, and the segments of \<open>tls_process\<close> and
    \<open>tls_pre_decrypt\<close> that move ciphertext through them.
  \<^item> \<open>Key_Method\<close> (\<^verbatim>\<open>ssl.c\<close>, \<^verbatim>\<open>crypto.c\<close>): the key exchange message and the derivation
    of the data channel keys.
  \<^item> \<open>Data_Crypto\<close>, \<open>Cbc_Crypto\<close> (\<^verbatim>\<open>crypto.c\<close>): the AEAD and the encrypt-then-MAC packet
    formats over library ciphers that satisfy \<open>aead_pair\<close>, \<open>cbc_pair\<close> and \<open>hmac_law\<close>; a sender
    and a receiver composed with the replay check.
  \<^item> \<open>Tls_Crypt\<close>, \<open>Control_Auth\<close> (\<^verbatim>\<open>tls_crypt.c\<close>, \<^verbatim>\<open>ssl.c\<close>): control packets in
    the clear, authenticated and encrypted, and the wrapped client key of \<open>--tls-crypt-v2\<close>.
  \<^item> \<open>Tls_Session\<close>, \<open>Tls_Process\<close>, \<open>Tls_Dispatch\<close> (\<^verbatim>\<open>ssl.c\<close>, \<^verbatim>\<open>ssl_verify.c\<close>): the key
    states and sessions of a tunnel, \<^verbatim>\<open>tls_multi_process\<close> as a sequence of segments, and
    \<^verbatim>\<open>tls_pre_decrypt\<close>; \<open>Tls_Import\<close> (\<^verbatim>\<open>ssl.c\<close>, \<^verbatim>\<open>ssl_ncp.c\<close>, \<^verbatim>\<open>init.c\<close>): the negotiated or pushed cipher and
    the frames it needs. \<open>Tls_Connect\<close> evaluates a client's tunnel up to its data channel keys. \<open>Tls_Loop\<close> shows the loop of \<^verbatim>\<open>tls_process\<close> ends, \<open>Tls_Invariant\<close> the
    invariant of every reachable tunnel, \<open>Tls_Data\<close> the way from the sender's key to the receiver's.
  \<^item> \<open>Otime\<close> (\<^verbatim>\<open>otime.c\<close>, \<^verbatim>\<open>interval.c\<close>, \<^verbatim>\<open>shaper.c\<close>): time values, the
    filtered clock, timers, rate limit, shaper.
  \<^item> \<open>Schedule\<close> (\<^verbatim>\<open>schedule.c\<close>): the treap of wake-up times, shown to implement a map with
    a least entry (\<open>wakeup_queue\<close>).
  \<^item> \<open>Mtu\<close> (\<^verbatim>\<open>mtu.c\<close>): frame parameters and buffer sizes.
  \<^item> \<open>Fragment\<close>, \<open>Reassembly\<close> (\<^verbatim>\<open>fragment.c\<close>): cutting datagrams and putting them
    together.
  \<^item> \<open>Inet\<close>, \<open>Mss\<close>, \<open>Clinat\<close>, \<open>Dhcp\<close>, \<open>Ip_Header\<close> (\<^verbatim>\<open>proto.h\<close>, \<^verbatim>\<open>proto.c\<close>, \<^verbatim>\<open>mss.c\<close>,
    \<^verbatim>\<open>clinat.c\<close>, \<^verbatim>\<open>dhcp.c\<close>, \<^verbatim>\<open>forward.c\<close>): what the client does to the IP packets it carries:
    clamping of the TCP segment size, client NAT, removal of DHCP routers, refusal of IPv6. Both
    byte orders of the machine are covered (the argument \<open>big\<close>).
  \<^item> \<open>Stream_Buf\<close> (\<^verbatim>\<open>socket.c\<close>): packets over a TCP stream, put together from any pieces
    (a run of the contract \<open>machine\<close>).
  \<^item> \<open>Base64\<close> (\<^verbatim>\<open>base64.c\<close>).
  \<^item> \<open>Hash_Table\<close> (\<^verbatim>\<open>list.c\<close>): the hash table of the server, shown to implement a map whatever the
    hash function (\<open>key_table\<close>), with its iterators.
  \<^item> \<open>Mroute\<close> (\<^verbatim>\<open>mroute.c\<close>): the addresses the server learns and routes by, how they are read from
    packets, and the prefix lengths in use; the table of routes is \<open>Hash_Table\<close> on these addresses.
  \<^item> \<open>Multi_Route\<close>, \<open>Client_Routes\<close>, \<open>Server_Routes\<close> (\<^verbatim>\<open>multi.h\<close>, \<^verbatim>\<open>multi.c\<close>): the routing table of the
    server with its reference counts, its cache of host routes and its reaper; the reference it is
    held against, a search of the longest prefix; and the events of clients that come and go.
  \<^item> \<open>Pool\<close> (\<^verbatim>\<open>pool.c\<close>, \<^verbatim>\<open>status.c\<close>): the addresses the server hands out, and the text of their persist file.
  \<^item> \<open>Mbuf\<close> (\<^verbatim>\<open>mbuf.c\<close>, \<^verbatim>\<open>multi.c\<close>): the queue of packets between clients, with its shared buffers.
  \<^item> \<open>Text_Util\<close>, \<open>Option_Line\<close> (\<^verbatim>\<open>buffer.c\<close>, \<^verbatim>\<open>options.c\<close>): character classes and fields of text; how
    configuration lines and pushed options are split into parameters, inline blocks, the pull filter.
  \<^item> \<open>Push\<close> (\<^verbatim>\<open>push.c\<close>, \<^verbatim>\<open>forward.c\<close>): the options a server pushes, cut into messages, and what the
    client applies of them.

  \<^bold>\<open>How they interact.\<close> A data packet is cut by \<open>Fragment\<close> into buffers of \<open>Buffer\<close> sized by
  \<open>Mtu\<close>, gets an id from \<open>Packet_Id\<close> and is checked by \<open>Replay\<close> at the other end. A control
  packet goes through \<open>Reliable\<close> in the way \<open>Control_Channel\<close> states. Both read the clock of
  \<open>Otime\<close>, which the operations take as an argument.

  \<^bold>\<open>State and operations.\<close> C structs are records with the C field names under a prefix, C
  functions are definitions with the C names. A function that writes through a pointer returns the
  new value. Failed assertions and fatal messages are \<open>None\<close>; success flags are \<open>bool\<close>.

  \<^bold>\<open>What the lemmas show.\<close> Each theory has the invariant of its state and, for each operation, its
  preservation and effect; the claims (numbered C1 and up, each before its theorem) state: no
  packet is accepted twice and none of a sender's own stream is refused; the control channel
  delivers in order, exactly once, loses nothing and does not deadlock over a network that loses,
  repeats and reorders; fragments in any order give the datagram back, and no packet can
  crash the reassembler; acknowledgement records round-trip; clock, timers and limits behave; the
  tables of the server (hash table, routes, pools, queue) do what the abstract map, search, pool or
  queue next to them does, whatever clients come and go; a configuration that was written down is
  read back, and the options a server pushes arrive however they are cut into messages.
  Claims that hold only in part of the range state the range, and the theorem next to them shows
  what happens outside: the receive window between \<open>2 ^ 31\<close> and the wrap, the replay
  window after a restart from the persisted state, the 32-bit time of a roll-over past \<open>2 ^ 32\<close>, the
  counter of the rate limit past \<open>2 ^ 31\<close> events, names with a comma in the pool's file, the carry of
  \<open>tv_add\<close>, the spurious-flags check.

  \<^bold>\<open>Bounds and fuel.\<close> Loops over arrays are folds or structural recursion. \<open>frag_drain\<close> has fuel
  \<open>MAX_FRAGS\<close>, and the round-trip theorem shows nothing is pending after it. \<open>adjust_power_of_2\<close>
  is a partial function, with its exact domain. The loop of \<^verbatim>\<open>tls_process\<close> has \<open>PROC_ROUNDS\<close>
  rounds, more than the work any session can have (\<open>work_bound\<close>), and running out of them is shown
  impossible. The channel theorems cover \<open>CHAN_MAX\<close> packets per
  session, the range in which the receive window is exact.

  \<^bold>\<open>Not modelled.\<close> Logging, system calls, the TLS and cipher libraries, the Kotlin application and
  the vendored libraries. What the code reads from them is an argument of the definitions. Of the
  program itself: what each option of the configuration does (\<open>add_option\<close>, an argument of
  \<open>Option_Line\<close> and \<open>Push\<close>), the tun device and the platform's routes, the management interface, the
  packet filter and sockets of the server, the main loop, and the messages of \<^verbatim>\<open>push.c\<close> for pending
  authentication and signals.
\<close>

end
